(* ===== verification/Prelude.thy ===== *)
theory Prelude
  imports Main "HOL-Library.Word" "HOL-Library.AList" "HOL-Library.Multiset" "HOL-Library.Sublist"
begin

text \<open>
  Shared vocabulary of the development: machine integer types, the failures a C++ routine of
  the block server can end in, the sum type of a routine that may fail, association lists as
  the model of one \<open>std::unordered_map\<close>, and generic facts on lists and words that several
  components use.
\<close>

section \<open>Machine integers and byte strings\<close>

type_synonym u8 = "8 word"
type_synonym u32 = "32 word"
type_synonym u64 = "64 word"
type_synonym bytes = "u8 list"

text \<open>
  A \<open>std::string\<close> is a list of characters (\<open>string\<close>); where the code reinterprets it as an
  array of \<open>uint8_t\<close> the two coercions below are used.
\<close>

definition str_bytes :: "string \<Rightarrow> bytes" where
  "str_bytes s = map (\<lambda>c. word_of_nat (of_char c)) s"

definition bytes_str :: "bytes \<Rightarrow> string" where
  "bytes_str b = map (\<lambda>w. char_of (unat w)) b"

section \<open>Failures\<close>

text \<open>
  \<open>NullDeref\<close>: a null pointer is dereferenced. \<open>CheckFailed\<close>: a glog \<open>CHECK\<close> aborts the
  process. \<open>AssertFailed\<close>: a C \<open>assert\<close> aborts the process. \<open>Thrown\<close>: a C++ exception
  leaves the routine. \<open>OutOfRange\<close>: an access outside an array or an empty container.
  \<open>Undefined\<close>: arithmetic without a defined result (signed overflow, division by zero).
  \<open>Blocked\<close>: not a failure, the call waits for another thread.
\<close>

datatype fault = NullDeref | CheckFailed | AssertFailed | Thrown | OutOfRange | Undefined | Blocked

type_synonym 'a res = "fault + 'a"

definition bind_res :: "'a res \<Rightarrow> ('a \<Rightarrow> 'b res) \<Rightarrow> 'b res" where
  "bind_res r f = (case r of Inl e \<Rightarrow> Inl e | Inr x \<Rightarrow> f x)"

definition check :: "bool \<Rightarrow> 'a res \<Rightarrow> 'a res" where
  "check b r = (if b then r else Inl CheckFailed)"

lemma bind_res_simps [simp]:
  "bind_res (Inl e) f = Inl e"
  "bind_res (Inr x) f = f x"
  by (simp_all add: bind_res_def)

lemma bind_res_Inr_iff:
  "bind_res r f = Inr y \<longleftrightarrow> (\<exists>x. r = Inr x \<and> f x = Inr y)"
  by (cases r) auto

lemma bind_res_InrE:
  assumes "bind_res r f = Inr y"
  obtains x where "r = Inr x" "f x = Inr y"
  using assms by (auto simp: bind_res_Inr_iff)

lemma check_simps [simp]:
  "check True r = r" "check False r = Inl CheckFailed"
  by (simp_all add: check_def)

lemma check_Inr_iff: "check b r = Inr y \<longleftrightarrow> b \<and> r = Inr y"
  by (simp add: check_def)

section \<open>Collections of rewrite rules\<close>

named_theorems layer_defs "definitions that only compose other operations of a component"
named_theorems frame_simps "fields an operation leaves alone"
named_theorems inv_intros "an operation keeps the invariant of its component"

section \<open>Lists and maps\<close>

lemma map_of_AList_update [simp]:
  "map_of (AList.update k v xs) = (map_of xs)(k \<mapsto> v)"
  by (rule update_conv')

lemma map_of_AList_delete [simp]:
  "map_of (AList.delete k xs) = (map_of xs)(k := None)"
  by (rule delete_conv')

lemma nth_update_same: "i < length xs \<Longrightarrow> xs[i := x] ! i = x"
  by simp

lemma fold_permute_commute:
  assumes com: "\<And>x y s. f x (f y s) = f y (f x s)" and "mset xs = mset ys"
  shows "fold f xs s = fold f ys s"
proof -
  have "fold f xs = fold f ys"
    by (rule fold_multiset_equiv) (auto simp: fun_eq_iff com assms(2))
  then show ?thesis by simp
qed

lemma word_less_max: "(a::'a::len word) < b \<Longrightarrow> b \<noteq> 0"
  by auto

end
