(* ===== verification/Messages.thy ===== *)
theory Messages
  imports Prelude
begin

text \<open>
  The protobuf messages that the transaction pipeline reads and writes
  (\<open>kv_rwset.proto\<close>, \<open>transaction.proto\<close>, \<open>comm.proto\<close>, \<open>block.proto\<close>, \<open>tpc-c.proto\<close>) as
  records with the fields the C++ code uses, and the enumerations shared by coordinator,
  workers and transaction manager. Repeated fields are lists. A freshly created message has
  the proto3 defaults: empty strings, zero numbers, empty lists.
\<close>

section \<open>Read and write sets\<close>

record kv_read =
  rd_table :: string
  rd_key :: string
  rd_value :: string

record kv_write =
  wr_table :: string
  wr_key :: string
  wr_is_delete :: bool
  wr_value :: string

record kv_rwset =
  rw_reads :: "kv_read list"
  rw_writes :: "kv_write list"

definition rwset_empty :: kv_rwset where
  "rwset_empty = \<lparr>rw_reads = [], rw_writes = []\<rparr>"

definition add_reads :: "kv_read \<Rightarrow> kv_rwset \<Rightarrow> kv_rwset" where
  "add_reads r s = s\<lparr>rw_reads := rw_reads s @ [r]\<rparr>"

definition add_writes :: "kv_write \<Rightarrow> kv_rwset \<Rightarrow> kv_rwset" where
  "add_writes w s = s\<lparr>rw_writes := rw_writes s @ [w]\<rparr>"

text \<open>The cells (table, key) of the reserve table that a read or write set names.\<close>

definition read_cells :: "kv_rwset \<Rightarrow> (string \<times> string) list" where
  "read_cells s = map (\<lambda>r. (rd_table r, rd_key r)) (rw_reads s)"

definition write_cells :: "kv_rwset \<Rightarrow> (string \<times> string) list" where
  "write_cells s = map (\<lambda>w. (wr_table w, wr_key w)) (rw_writes s)"

lemma rw_add_simps [simp]:
  "rw_reads (add_reads r s) = rw_reads s @ [r]"
  "rw_writes (add_reads r s) = rw_writes s"
  "rw_reads (add_writes w s) = rw_reads s"
  "rw_writes (add_writes w s) = rw_writes s @ [w]"
  "rw_reads rwset_empty = []" "rw_writes rwset_empty = []"
  by (simp_all add: add_reads_def add_writes_def rwset_empty_def)

section \<open>Transaction payloads and requests\<close>

record payload =
  pl_header :: string
  pl_payload :: string
  pl_nonce :: u64
  pl_digest :: string

definition payload_empty :: payload where
  "payload_empty = \<lparr>pl_header = [], pl_payload = [], pl_nonce = 0, pl_digest = []\<rparr>"

record gcounter_payload =
  gc_key :: string
  gc_value :: u64

record ycsb_payload =
  yc_reads :: "string list"
  yc_update :: "string list"

record user_request =
  ur_payload :: string
  ur_digest :: string

record epoch_request =
  er_batch_size :: u32
  er_batch_hash :: string

record epoch_response =
  ep_epoch :: u32
  ep_request :: epoch_request
  ep_nonce :: u32
  ep_signature :: string

record tr_with_proof =
  tp_proof :: string
  tp_transaction :: "string list"

record proxy_broadcast =
  pb_epoch :: u32
  pb_set :: "tr_with_proof list"

section \<open>Blocks\<close>

record block_header =
  bh_number :: u64
  bh_previous_hash :: string
  bh_data_hash :: string

record block =
  bk_header :: block_header
  bk_data :: "string list"
  bk_metadata :: "string list"

definition block_empty :: block where
  "block_empty = \<lparr>bk_header = \<lparr>bh_number = 0, bh_previous_hash = [], bh_data_hash = []\<rparr>,
     bk_data = [], bk_metadata = []\<rparr>"

section \<open>Enumerations\<close>

text \<open>
  \<open>TransactionResult\<close>: the four enumerators the sources use (its header is not part of the
  repository, so their numbers are a parameter where the code casts one to \<open>char\<close>).
\<close>

datatype tr_result = PENDING | COMMIT | ABORT | ABORT_NO_RETRY

datatype aria_global_state = G_START | Aria_READ | Aria_COMMIT | G_EXIT

datatype worker_state = READY | ASSIGNED | FINISH_READ | FINISH_COMMIT | EXITED

end
