(* ===== verification/ConcHashMap.thy ===== *)
theory ConcHashMap
  imports Prelude
begin

text \<open>
  \<open>common/hash_map.h\<close>: a hash map of \<open>N\<close> buckets, each a \<open>std::unordered_map\<close> under its own
  lock. A bucket is an association list with distinct keys (\<open>AList\<close>), the table is the list of
  its \<open>N\<close> buckets, and \<open>hasher\<close> is the \<open>std::hash\<close> of the key type, a parameter. Every
  operation takes the lock of one bucket, works on that bucket and releases the lock, so it is
  one atomic step on the table. The locale \<open>dict\<close> is the contract its clients use, and the
  table is an instance of it for every bucket count above zero.
\<close>

section \<open>State and operations\<close>

type_synonym ('k, 'v) umap = "('k \<times> 'v) list"
type_synonym ('k, 'v) hmap = "('k, 'v) umap list"

definition hm_empty :: "nat \<Rightarrow> ('k, 'v) hmap" where
  "hm_empty N = replicate N []"

definition bucket_number :: "('k \<Rightarrow> nat) \<Rightarrow> ('k, 'v) hmap \<Rightarrow> 'k \<Rightarrow> nat" where
  "bucket_number hasher m key = hasher key mod length m"

text \<open>\<open>apply\<close> and \<open>apply_ref\<close>: run a routine on bucket \<open>i\<close> and keep its new contents.\<close>

definition hm_apply :: "(('k, 'v) umap \<Rightarrow> 'r \<times> ('k, 'v) umap) \<Rightarrow> nat \<Rightarrow> ('k, 'v) hmap \<Rightarrow> 'r \<times> ('k, 'v) hmap" where
  "hm_apply f i m = (let (r, b) = f (m ! i) in (r, m[i := b]))"

definition hm_remove :: "('k \<Rightarrow> nat) \<Rightarrow> 'k \<Rightarrow> ('k, 'v) hmap \<Rightarrow> bool \<times> ('k, 'v) hmap" where
  "hm_remove hasher key m =
     hm_apply (\<lambda>b. case map_of b key of
         None \<Rightarrow> (False, b)
       | Some _ \<Rightarrow> (True, AList.delete key b)) (bucket_number hasher m key) m"

definition hm_contains :: "('k \<Rightarrow> nat) \<Rightarrow> 'k \<Rightarrow> ('k, 'v) hmap \<Rightarrow> bool" where
  "hm_contains hasher key m =
     fst (hm_apply (\<lambda>b. (map_of b key \<noteq> None, b)) (bucket_number hasher m key) m)"

definition hm_insert :: "('k \<Rightarrow> nat) \<Rightarrow> 'k \<Rightarrow> 'v \<Rightarrow> ('k, 'v) hmap \<Rightarrow> bool \<times> ('k, 'v) hmap" where
  "hm_insert hasher key v m =
     hm_apply (\<lambda>b. case map_of b key of
         Some _ \<Rightarrow> (False, b)
       | None \<Rightarrow> (True, AList.update key v b)) (bucket_number hasher m key) m"

text \<open>
  \<open>operator[]\<close> returns a reference, default-constructing the value of a missing key. It is
  modelled by its two uses: \<open>hm_index\<close> reads through the reference (and leaves the default
  behind), \<open>hm_assign\<close> stores through it.
\<close>

definition hm_index :: "('k \<Rightarrow> nat) \<Rightarrow> 'v \<Rightarrow> 'k \<Rightarrow> ('k, 'v) hmap \<Rightarrow> 'v \<times> ('k, 'v) hmap" where
  "hm_index hasher dflt key m =
     hm_apply (\<lambda>b. case map_of b key of
         Some v \<Rightarrow> (v, b)
       | None \<Rightarrow> (dflt, AList.update key dflt b)) (bucket_number hasher m key) m"

definition hm_assign :: "('k \<Rightarrow> nat) \<Rightarrow> 'k \<Rightarrow> 'v \<Rightarrow> ('k, 'v) hmap \<Rightarrow> ('k, 'v) hmap" where
  "hm_assign hasher key v m =
     snd (hm_apply (\<lambda>b. ((), AList.update key v b)) (bucket_number hasher m key) m)"

text \<open>\<open>fold\<close> and \<open>map\<close> visit the buckets in index order.\<close>

fun hm_fold :: "'t \<Rightarrow> ('t \<Rightarrow> ('k, 'v) umap \<Rightarrow> 't) \<Rightarrow> ('k, 'v) hmap \<Rightarrow> 't" where
  "hm_fold v f [] = v"
| "hm_fold v f (b # bs) = hm_fold (f v b) f bs"

text \<open>
  \<open>size\<close> folds from the literal \<open>0\<close>, so that the running total is an \<open>int\<close>: the sum of each step, a 64-bit
  \<open>size_t\<close>, is cut to 32 bits, and the result is extended by its sign.
\<close>

definition hm_size :: "('k, 'v) hmap \<Rightarrow> u64" where
  "hm_size m = scast (hm_fold (0 :: u32) (\<lambda>n b. ucast ((scast n :: u64) + of_nat (length b))) m)"

definition hm_clear :: "('k, 'v) hmap \<Rightarrow> ('k, 'v) hmap" where
  "hm_clear m = map (\<lambda>b. []) m"

section \<open>Abstraction and invariant\<close>

definition hm_lookup :: "('k \<Rightarrow> nat) \<Rightarrow> ('k, 'v) hmap \<Rightarrow> 'k \<rightharpoonup> 'v" where
  "hm_lookup hasher m key = map_of (m ! bucket_number hasher m key) key"

definition hm_inv :: "('k \<Rightarrow> nat) \<Rightarrow> ('k, 'v) hmap \<Rightarrow> bool" where
  "hm_inv hasher m \<longleftrightarrow> m \<noteq> [] \<and>
     (\<forall>i < length m. distinct (map fst (m ! i)) \<and>
        (\<forall>k \<in> fst ` set (m ! i). bucket_number hasher m k = i))"

lemma bucket_number_lt [simp]: "m \<noteq> [] \<Longrightarrow> bucket_number hasher m key < length m"
  by (simp add: bucket_number_def)

lemma bucket_number_upd [simp]: "bucket_number hasher (m[i := b]) key = bucket_number hasher m key"
  by (simp add: bucket_number_def)

lemma hm_lookup_upd:
  assumes "m \<noteq> []" and b: "map_of b = (map_of (m ! bucket_number hasher m key))(key := v)"
  shows "hm_lookup hasher (m[bucket_number hasher m key := b]) = (hm_lookup hasher m)(key := v)"
proof
  fix k
  show "hm_lookup hasher (m[bucket_number hasher m key := b]) k = ((hm_lookup hasher m)(key := v)) k"
    by (cases "bucket_number hasher m k = bucket_number hasher m key")
       (auto simp: hm_lookup_def assms nth_list_update)
qed

lemma hm_inv_upd:
  assumes inv: "hm_inv hasher m" and i: "i < length m" and d: "distinct (map fst b)"
    and s: "\<And>k. k \<in> fst ` set b \<Longrightarrow> bucket_number hasher m k = i"
  shows "hm_inv hasher (m[i := b])"
  using inv i d s by (auto simp: hm_inv_def nth_list_update split: if_splits)

lemma hm_inv_nonempty: "hm_inv hasher m \<Longrightarrow> m \<noteq> []"
  by (simp add: hm_inv_def)

lemma fst_delete: "fst ` set (AList.delete key b) = fst ` set b - {key}"
  by (force simp: AList.delete_eq)

lemma hm_inv_bucket:
  assumes "hm_inv hasher m" "i < length m"
  shows "distinct (map fst (m ! i))" and "\<forall>k \<in> fst ` set (m ! i). bucket_number hasher m k = i"
  using assms unfolding hm_inv_def by blast+

lemma hm_inv_update_bucket:
  assumes inv: "hm_inv hasher m"
  shows "hm_inv hasher (m[bucket_number hasher m key := AList.update key v (m ! bucket_number hasher m key)])"
proof -
  note i = bucket_number_lt [OF hm_inv_nonempty [OF inv], of hasher key]
  have "distinct (map fst (AList.update key v (m ! bucket_number hasher m key)))"
    by (rule distinct_update [OF hm_inv_bucket(1) [OF inv i]])
  moreover have "\<And>k. k \<in> fst ` set (AList.update key v (m ! bucket_number hasher m key)) \<Longrightarrow>
      bucket_number hasher m k = bucket_number hasher m key"
    using hm_inv_bucket(2) [OF inv i] unfolding dom_update by blast
  ultimately show ?thesis by (rule hm_inv_upd [OF inv i])
qed

lemma hm_inv_delete_bucket:
  assumes inv: "hm_inv hasher m"
  shows "hm_inv hasher (m[bucket_number hasher m key := AList.delete key (m ! bucket_number hasher m key)])"
proof -
  note i = bucket_number_lt [OF hm_inv_nonempty [OF inv], of hasher key]
  have "distinct (map fst (AList.delete key (m ! bucket_number hasher m key)))"
    by (rule distinct_delete [OF hm_inv_bucket(1) [OF inv i]])
  moreover have "\<And>k. k \<in> fst ` set (AList.delete key (m ! bucket_number hasher m key)) \<Longrightarrow>
      bucket_number hasher m k = bucket_number hasher m key"
    using hm_inv_bucket(2) [OF inv i] unfolding fst_delete by blast
  ultimately show ?thesis by (rule hm_inv_upd [OF inv i])
qed

section \<open>The contract of the operations\<close>

text \<open>Functional behaviour: each operation on the finite map that the table stands for.\<close>

lemma hm_inv_empty: "0 < N \<Longrightarrow> hm_inv hasher (hm_empty N)"
  by (simp add: hm_inv_def hm_empty_def)

lemma hm_lookup_empty: "0 < N \<Longrightarrow> hm_lookup hasher (hm_empty N) = Map.empty"
  by (auto simp: hm_lookup_def hm_empty_def bucket_number_def)

lemma hm_contains_iff: "hm_contains hasher key m \<longleftrightarrow> hm_lookup hasher m key \<noteq> None"
  by (simp add: hm_contains_def hm_apply_def hm_lookup_def)

lemma hm_assign_spec:
  assumes "hm_inv hasher m"
  shows "hm_lookup hasher (hm_assign hasher key v m) = (hm_lookup hasher m)(key \<mapsto> v)"
    and "hm_inv hasher (hm_assign hasher key v m)"
  using assms hm_inv_nonempty [OF assms]
  by (simp_all add: hm_assign_def hm_apply_def hm_lookup_upd hm_inv_update_bucket)

lemma hm_index_spec:
  assumes "hm_inv hasher m"
  shows "fst (hm_index hasher d key m) = (case hm_lookup hasher m key of None \<Rightarrow> d | Some v \<Rightarrow> v)"
    and "hm_lookup hasher (snd (hm_index hasher d key m)) =
      (hm_lookup hasher m)(key \<mapsto> (case hm_lookup hasher m key of None \<Rightarrow> d | Some v \<Rightarrow> v))"
    and "hm_inv hasher (snd (hm_index hasher d key m))"
  using assms hm_inv_nonempty [OF assms]
  by (auto simp: hm_index_def hm_apply_def hm_lookup_upd hm_inv_update_bucket
      fun_upd_idem split: option.split) (auto simp: hm_lookup_def fun_upd_idem)

lemma hm_insert_spec:
  assumes "hm_inv hasher m"
  shows "fst (hm_insert hasher key v m) \<longleftrightarrow> hm_lookup hasher m key = None"
    and "hm_lookup hasher (snd (hm_insert hasher key v m)) =
      (if hm_lookup hasher m key = None then (hm_lookup hasher m)(key \<mapsto> v) else hm_lookup hasher m)"
    and "hm_inv hasher (snd (hm_insert hasher key v m))"
  using assms hm_inv_nonempty [OF assms]
  by (auto simp: hm_insert_def hm_apply_def hm_lookup_upd hm_inv_update_bucket
      split: option.split) (auto simp: hm_lookup_def)

lemma hm_remove_spec:
  assumes "hm_inv hasher m"
  shows "fst (hm_remove hasher key m) \<longleftrightarrow> hm_lookup hasher m key \<noteq> None"
    and "hm_lookup hasher (snd (hm_remove hasher key m)) = (hm_lookup hasher m)(key := None)"
    and "hm_inv hasher (snd (hm_remove hasher key m))"
  using assms hm_inv_nonempty [OF assms]
  by (auto simp: hm_remove_def hm_apply_def hm_lookup_upd hm_inv_delete_bucket
      split: option.split) (auto simp: hm_lookup_def fun_upd_idem)

lemma hm_clear_eq: "hm_clear m = hm_empty (length m)"
  by (simp add: hm_clear_def hm_empty_def map_replicate_const)

lemma hm_clear_spec:
  assumes "hm_inv hasher m"
  shows "hm_lookup hasher (hm_clear m) = Map.empty" and "hm_inv hasher (hm_clear m)"
  using hm_inv_nonempty [OF assms] by (simp_all add: hm_clear_eq hm_lookup_empty hm_inv_empty)

text \<open>The running total of \<open>size\<close> is the sum modulo \<open>2 ^ 32\<close>; below \<open>2 ^ 31\<close> the sign does not matter.\<close>

lemma int_total: "(ucast ((scast (k :: u32) :: u64) + of_nat l) :: u32) = k + of_nat l"
proof -
  have "(ucast (word_of_int i :: u64) :: u32) = word_of_int i" for i by transfer simp
  moreover have "(scast k :: u64) + of_nat l = word_of_int (sint k + int l)" by simp
  ultimately have "(ucast ((scast k :: u64) + of_nat l) :: u32) = word_of_int (sint k + int l)" by metis
  then show ?thesis by simp
qed

lemma int_to_size:
  assumes "n < 2 ^ 31"
  shows "unat (scast (of_nat n :: u32) :: u64) = n"
proof -
  have s: "sint (of_nat n :: u32) = int n" using assms by (simp add: signed_of_nat signed_take_bit_int_eq_self_iff)
  have "(scast (of_nat n :: u32) :: u64) = word_of_int (sint (of_nat n :: u32))" by (rule of_int_sint [symmetric])
  then have "(scast (of_nat n :: u32) :: u64) = of_nat n" unfolding s by simp
  then show ?thesis using assms by (simp add: unat_of_nat)
qed

lemma hm_fold_wraps:
  "hm_fold (of_nat n :: u32) (\<lambda>k b. ucast ((scast k :: u64) + of_nat (length b))) m = of_nat (n + (\<Sum>i < length m. length (m ! i)))"
proof (induction m arbitrary: n)
  case (Cons b m)
  show ?case using Cons.IH [of "n + length b"] by (simp add: int_total sum.lessThan_Suc_shift add.assoc del: sum.lessThan_Suc)
qed simp

lemma hm_dom_lookup:
  assumes inv: "hm_inv hasher m"
  shows "dom (hm_lookup hasher m) = (\<Union>i < length m. fst ` set (m ! i))"
proof (intro equalityI subsetI)
  fix k assume "k \<in> dom (hm_lookup hasher m)"
  then have "k \<in> fst ` set (m ! bucket_number hasher m k)"
    by (auto simp: hm_lookup_def dom_def dest: map_of_SomeD intro: rev_image_eqI)
  then show "k \<in> (\<Union>i < length m. fst ` set (m ! i))"
    using bucket_number_lt [OF hm_inv_nonempty [OF inv]] by blast
next
  fix k assume "k \<in> (\<Union>i < length m. fst ` set (m ! i))"
  then obtain i where i: "i < length m" "k \<in> fst ` set (m ! i)" by blast
  then have "bucket_number hasher m k = i" using hm_inv_bucket(2) [OF inv] by blast
  then have "hm_lookup hasher m k = map_of (m ! i) k" by (simp add: hm_lookup_def)
  then show "k \<in> dom (hm_lookup hasher m)"
    using i(2) by (simp add: domIff map_of_eq_None_iff)
qed

text \<open>\<open>size()\<close> is the number of keys of the map, cut to 32 bits.\<close>

lemma hm_size_card:
  assumes inv: "hm_inv hasher m"
  shows "hm_size m = scast (of_nat (card (dom (hm_lookup hasher m))) :: u32)"
proof -
  have one: "k \<in> fst ` set (m ! i) \<Longrightarrow> bucket_number hasher m k = i" if "i < length m" for k i
    using hm_inv_bucket(2) [OF inv that] by blast
  have disj: "\<forall>i \<in> {..< length m}. \<forall>j \<in> {..< length m}. i \<noteq> j \<longrightarrow>
      fst ` set (m ! i) \<inter> fst ` set (m ! j) = {}"
    by (metis disjoint_iff lessThan_iff one)
  have "card (fst ` set (m ! i)) = length (m ! i)" if "i < length m" for i
    using distinct_card [OF hm_inv_bucket(1) [OF inv that]] by simp
  then show ?thesis
    by (simp add: hm_dom_lookup [OF inv] card_UN_disjoint [OF _ _ disj] hm_size_def hm_fold_wraps [where n = 0, simplified])
qed

section \<open>The interface its clients use\<close>

text \<open>
  What reserve table, database and communication module rely on: reading through
  \<open>operator[]\<close>, storing through it, and clearing.
\<close>

locale dict =
  fixes empty :: "'m"
    and index :: "'v \<Rightarrow> 'k \<Rightarrow> 'm \<Rightarrow> 'v \<times> 'm"
    and assign :: "'k \<Rightarrow> 'v \<Rightarrow> 'm \<Rightarrow> 'm"
    and clear :: "'m \<Rightarrow> 'm"
    and lookup :: "'m \<Rightarrow> 'k \<rightharpoonup> 'v"
    and inv :: "'m \<Rightarrow> bool"
  assumes inv_empty: "inv empty"
    and lookup_empty: "lookup empty = Map.empty"
    and index_fst: "inv m \<Longrightarrow> fst (index d k m) = (case lookup m k of None \<Rightarrow> d | Some v \<Rightarrow> v)"
    and index_snd: "inv m \<Longrightarrow> lookup (snd (index d k m)) = (lookup m)(k \<mapsto> fst (index d k m))"
    and inv_index: "inv m \<Longrightarrow> inv (snd (index d k m))"
    and lookup_assign: "inv m \<Longrightarrow> lookup (assign k v m) = (lookup m)(k \<mapsto> v)"
    and inv_assign: "inv m \<Longrightarrow> inv (assign k v m)"
    and lookup_clear: "inv m \<Longrightarrow> lookup (clear m) = Map.empty"
    and inv_clear: "inv m \<Longrightarrow> inv (clear m)"
begin

text \<open>The value a reader with default \<open>d\<close> sees: what \<open>operator[]\<close> yields.\<close>

definition peek :: "'v \<Rightarrow> 'm \<Rightarrow> 'k \<Rightarrow> 'v" where
  "peek d m k = (case lookup m k of None \<Rightarrow> d | Some v \<Rightarrow> v)"

lemma peek_empty: "peek d empty k = d"
  by (simp add: peek_def lookup_empty)

lemma index_peek: "inv m \<Longrightarrow> fst (index d k m) = peek d m k"
  by (simp add: peek_def index_fst)

text \<open>Reading through \<open>operator[]\<close> may add an entry, but no reader can tell.\<close>

lemma peek_index: "inv m \<Longrightarrow> peek d (snd (index d k m)) = peek d m"
  by (auto simp: peek_def index_snd index_fst fun_eq_iff split: option.splits)

lemma peek_assign: "inv m \<Longrightarrow> peek d (assign k v m) = (peek d m)(k := v)"
  by (auto simp: peek_def lookup_assign fun_eq_iff)

lemma peek_clear: "inv m \<Longrightarrow> peek d (clear m) k = d"
  by (simp add: peek_def lookup_clear)

lemma index_assign: "inv m \<Longrightarrow> fst (index d k (assign k v m)) = v"
  by (simp add: index_fst inv_assign lookup_assign)

lemma index_assign_other: "inv m \<Longrightarrow> k' \<noteq> k \<Longrightarrow> fst (index d k' (assign k v m)) = fst (index d k' m)"
  by (simp add: index_peek inv_assign peek_assign)

end

text \<open>The instance of the code: \<open>HashMap<997, KeyType, ValueType>\<close>.\<close>

definition hm997 :: "('k, 'v) hmap" where
  "hm997 = hm_empty 997"

interpretation hm: dict hm997 "hm_index hasher" "hm_assign hasher" hm_clear "hm_lookup hasher" "hm_inv hasher"
  for hasher
  by unfold_locales
    (simp_all add: hm997_def hm_inv_empty hm_lookup_empty hm_index_spec hm_assign_spec hm_clear_spec)

section \<open>Sequences of operations\<close>

datatype ('k, 'v) hm_op = Op_insert 'k 'v | Op_remove 'k | Op_index 'v 'k | Op_assign 'k 'v | Op_clear

fun hm_do :: "('k \<Rightarrow> nat) \<Rightarrow> ('k, 'v) hm_op \<Rightarrow> ('k, 'v) hmap \<Rightarrow> ('k, 'v) hmap" where
  "hm_do hasher (Op_insert k v) m = snd (hm_insert hasher k v m)"
| "hm_do hasher (Op_remove k) m = snd (hm_remove hasher k m)"
| "hm_do hasher (Op_index d k) m = snd (hm_index hasher d k m)"
| "hm_do hasher (Op_assign k v) m = hm_assign hasher k v m"
| "hm_do hasher Op_clear m = hm_clear m"

text \<open>The same operation on a partial function.\<close>

fun map_do :: "('k, 'v) hm_op \<Rightarrow> ('k \<rightharpoonup> 'v) \<Rightarrow> ('k \<rightharpoonup> 'v)" where
  "map_do (Op_insert k v) f = (if f k = None then f(k \<mapsto> v) else f)"
| "map_do (Op_remove k) f = f(k := None)"
| "map_do (Op_index d k) f = (if f k = None then f(k \<mapsto> d) else f)"
| "map_do (Op_assign k v) f = f(k \<mapsto> v)"
| "map_do Op_clear f = Map.empty"

lemma hm_do_spec:
  assumes "hm_inv hasher m"
  shows "hm_inv hasher (hm_do hasher p m)" and "hm_lookup hasher (hm_do hasher p m) = map_do p (hm_lookup hasher m)"
  using assms
  by (cases p; auto simp: hm_insert_spec hm_remove_spec hm_index_spec hm_assign_spec hm_clear_spec fun_upd_idem split: option.split)+

text \<open>
  C31. Well-formedness of the map: after any sequence of operations on an empty map with at least
  one bucket, every key is in the bucket its hash selects, once; lookup and \<open>contains\<close> answer as
  the partial function the same operations build; and \<open>size\<close> is the number of its keys cut to a signed 32-bit
  number, so it is that number as long as there are less than \<open>2 ^ 31\<close> keys.
\<close>

theorem hash_map_well_formed:
  assumes "0 < N" "m = fold (hm_do hasher) ops (hm_empty N)" "f = fold map_do ops Map.empty"
  shows "hm_inv hasher m \<and> hm_lookup hasher m = f \<and> (hm_contains hasher k m \<longleftrightarrow> k \<in> dom f)
    \<and> hm_size m = scast (of_nat (card (dom f)) :: u32) \<and> (card (dom f) < 2 ^ 31 \<longrightarrow> unat (hm_size m) = card (dom f))"
proof -
  have "hm_inv hasher (fold (hm_do hasher) ops m0) \<and> hm_lookup hasher (fold (hm_do hasher) ops m0) = fold map_do ops (hm_lookup hasher m0)"
    if "hm_inv hasher m0" for m0
    using that by (induction ops arbitrary: m0) (simp_all add: hm_do_spec)
  from this [OF hm_inv_empty [OF assms(1)]] show ?thesis
    using assms by (auto simp: hm_lookup_empty hm_contains_iff hm_size_card int_to_size)
qed

lemma hash_map_well_formed_witness:
  "unat (hm_size (fold (hm_do (\<lambda>k. k)) [Op_insert 3 ''a'', Op_assign 1000 ''b'', Op_remove 3, Op_insert 1000 ''c''] (hm_empty 997))) = 1"
  using hash_map_well_formed [of 997 _ "\<lambda>k. k" "[Op_insert 3 ''a'', Op_assign 1000 ''b'', Op_remove 3, Op_insert 1000 ''c'']", OF _ refl refl]
  by simp

end
