(* ===== verification/ReserveTable.thy ===== *)
theory ReserveTable
  imports Messages ConcHashMap
begin

text \<open>
  \<open>reserve_table.cpp\<close>, \<open>mock_reserve_table.cpp\<close>: per epoch, every transaction reserves the
  keys it reads and writes; a cell (table, key) ends up holding the smallest transaction id
  that reserved it, zero meaning free. \<open>dependencyAnalysis\<close> then compares a transaction with
  the holders of its cells. This theory models one call at a time (each runs to its end before
  the next starts); \<open>ReserveRace\<close> interleaves the steps of several calls. \<open>h\<close> is the
  \<open>std::hash\<close> of strings.
\<close>

section \<open>Cells: nested concurrent hash maps of atomic counters\<close>

type_synonym cell = "string \<times> string"
type_synonym cell_table = "(string, (string, u32) hmap) hmap"

record reserve_table =
  rt_epoch :: u32
  readTableList :: cell_table
  writeTableList :: cell_table

definition new_reserve_table :: "u32 \<Rightarrow> reserve_table" where
  "new_reserve_table epoch = \<lparr>rt_epoch = epoch, readTableList = hm997, writeTableList = hm997\<rparr>"

text \<open>\<open>tables[table][key]\<close> read and written as an atomic integer.\<close>

definition cell_load :: "(string \<Rightarrow> nat) \<Rightarrow> cell \<Rightarrow> cell_table \<Rightarrow> u32 \<times> cell_table" where
  "cell_load h c ct =
     (let (inner, ct1) = hm_index h hm997 (fst c) ct;
          (v, inner1) = hm_index h 0 (snd c) inner
      in (v, hm_assign h (fst c) inner1 ct1))"

definition cell_store :: "(string \<Rightarrow> nat) \<Rightarrow> cell \<Rightarrow> u32 \<Rightarrow> cell_table \<Rightarrow> cell_table" where
  "cell_store h c v ct =
     (let (inner, ct1) = hm_index h hm997 (fst c) ct
      in hm_assign h (fst c) (hm_assign h (snd c) v inner) ct1)"

section \<open>Reserving\<close>

text \<open>
  The compare-and-swap loop on one cell, run alone: load \<open>old\<close>; leave if \<open>old \<le> tid\<close> and
  \<open>old \<noteq> 0\<close>; otherwise store \<open>tid\<close> and then \<open>compare_exchange_weak(old, tid)\<close>, which after the
  store succeeds only if \<open>old = tid\<close>, and which may also fail spuriously: \<open>ws\<close> lists which of
  its calls do. On failure the loop starts again with the cell holding \<open>tid\<close>.
\<close>

function reserve_cell :: "bool list \<Rightarrow> u32 \<Rightarrow> u32 \<Rightarrow> u32" where
  "reserve_cell ws tid cell =
     (let old = cell in
      if old \<le> tid \<and> old \<noteq> 0 then cell
      else let cell1 = tid in
        if cell1 = old \<and> \<not> (ws \<noteq> [] \<and> hd ws) then tid
        else reserve_cell (tl ws) tid cell1)"
  by pat_completeness auto
termination
  by (relation "measure (\<lambda>(ws, tid, cell). length ws + (if cell = tid then 0 else 1))")
    (auto simp: neq_Nil_conv split: if_splits)

declare reserve_cell.simps [simp del]

definition reserve_key :: "(string \<Rightarrow> nat) \<Rightarrow> bool list \<Rightarrow> u32 \<Rightarrow> cell \<Rightarrow> cell_table \<Rightarrow> cell_table" where
  "reserve_key h ws tid c ct =
     (let (v, ct1) = cell_load h c ct in cell_store h c (reserve_cell ws tid v) ct1)"

fun reserve_keys :: "(string \<Rightarrow> nat) \<Rightarrow> bool list \<Rightarrow> u32 \<Rightarrow> cell list \<Rightarrow> cell_table \<Rightarrow> cell_table" where
  "reserve_keys h ws tid [] ct = ct"
| "reserve_keys h ws tid (c # cs) ct = reserve_keys h ws tid cs (reserve_key h ws tid c ct)"

definition reserveRWset :: "(string \<Rightarrow> nat) \<Rightarrow> bool list \<Rightarrow> kv_rwset \<Rightarrow> u32 \<Rightarrow> reserve_table \<Rightarrow> bool \<times> reserve_table" where
  "reserveRWset h ws s tid rt =
     (let rt1 = rt\<lparr>readTableList := reserve_keys h ws tid (read_cells s) (readTableList rt)\<rparr>;
          rt2 = rt1\<lparr>writeTableList := reserve_keys h ws tid (write_cells s) (writeTableList rt1)\<rparr>
      in (True, rt2))"

section \<open>Dependency analysis\<close>

record tr_dependency =
  dep_raw :: bool
  dep_waw :: bool
  dep_war :: bool

text \<open>Each of the three loops scans cells until one is held by a smaller transaction id.\<close>

fun scan_cells :: "(string \<Rightarrow> nat) \<Rightarrow> u32 \<Rightarrow> cell list \<Rightarrow> cell_table \<Rightarrow> bool \<times> cell_table" where
  "scan_cells h tid [] ct = (False, ct)"
| "scan_cells h tid (c # cs) ct =
     (let (old, ct1) = cell_load h c ct
      in if old \<noteq> 0 \<and> tid > old then (True, ct1) else scan_cells h tid cs ct1)"

definition dependencyAnalysis :: "(string \<Rightarrow> nat) \<Rightarrow> kv_rwset \<Rightarrow> u32 \<Rightarrow> reserve_table \<Rightarrow> tr_dependency \<times> reserve_table" where
  "dependencyAnalysis h s tid rt =
     (let (waw, w1) = scan_cells h tid (write_cells s) (writeTableList rt);
          (war, r1) = scan_cells h tid (write_cells s) (readTableList rt);
          (raw, w2) = scan_cells h tid (read_cells s) w1
      in (\<lparr>dep_raw = raw, dep_waw = waw, dep_war = war\<rparr>,
          rt\<lparr>readTableList := r1, writeTableList := w2\<rparr>))"

section \<open>The provider singleton\<close>

text \<open>
  \<open>ReserveTableProvider\<close> keeps the table of one epoch and replaces it when another epoch is
  asked for (double-checked under a mutex: one atomic step).
\<close>

type_synonym rt_provider = "reserve_table option"

definition getHashMapReserveTable :: "u32 \<Rightarrow> rt_provider \<Rightarrow> rt_provider" where
  "getHashMapReserveTable epoch p =
     (case p of
        None \<Rightarrow> Some (new_reserve_table epoch)
      | Some t \<Rightarrow> if rt_epoch t \<noteq> epoch then Some (new_reserve_table epoch) else p)"

definition getMVCCReserveTable :: "u32 \<Rightarrow> rt_provider \<Rightarrow> reserve_table option" where
  "getMVCCReserveTable epoch p = None"

text \<open>\<open>GET_RESERVE_TABLE_TYPE\<close> is \<open>getHashMapReserveTable\<close> (\<open>USING_MVCC_RESERVE_TABLE\<close> is not defined).\<close>

definition getReserveTable :: "u32 \<Rightarrow> rt_provider \<Rightarrow> rt_provider" where
  "getReserveTable epoch p = getHashMapReserveTable epoch p"

section \<open>Abstraction: the holder of a cell\<close>

definition holder :: "(string \<Rightarrow> nat) \<Rightarrow> cell_table \<Rightarrow> cell \<Rightarrow> u32" where
  "holder h ct c = hm.peek h 0 (hm.peek h hm997 ct (fst c)) (snd c)"

definition ct_inv :: "(string \<Rightarrow> nat) \<Rightarrow> cell_table \<Rightarrow> bool" where
  "ct_inv h ct \<longleftrightarrow> hm_inv h ct \<and> (\<forall>t m. hm_lookup h ct t = Some m \<longrightarrow> hm_inv h m)"

definition rt_inv :: "(string \<Rightarrow> nat) \<Rightarrow> reserve_table \<Rightarrow> bool" where
  "rt_inv h rt \<longleftrightarrow> ct_inv h (readTableList rt) \<and> ct_inv h (writeTableList rt)"

lemma ct_inv_new [simp]: "ct_inv h hm997"
  by (simp add: ct_inv_def hm.inv_empty hm.lookup_empty)

lemma holder_new [simp]: "holder h hm997 c = 0"
  by (simp add: holder_def hm.peek_empty)

lemma ct_inv_inner: "ct_inv h ct \<Longrightarrow> hm_inv h (hm.peek h hm997 ct t)"
  by (auto simp: ct_inv_def hm.peek_def hm.inv_empty split: option.split)

lemma ct_inv_assign: "ct_inv h ct \<Longrightarrow> hm_inv h m \<Longrightarrow> ct_inv h (hm_assign h t m ct)"
  by (auto simp: ct_inv_def hm.lookup_assign hm.inv_assign split: if_splits)

lemma ct_inv_index: "ct_inv h ct \<Longrightarrow> ct_inv h (snd (hm_index h hm997 t ct))"
  by (auto simp: ct_inv_def hm.index_snd hm.index_fst hm.inv_index hm.inv_empty
      split: if_splits option.splits)

lemma cell_load_spec:
  assumes "ct_inv h ct"
  shows "fst (cell_load h c ct) = holder h ct c"
    and "holder h (snd (cell_load h c ct)) = holder h ct"
    and "ct_inv h (snd (cell_load h c ct))"
proof -
  have i: "hm_inv h ct" and i1: "hm_inv h (snd (hm_index h hm997 (fst c) ct))"
    using assms by (auto simp: ct_inv_def hm.inv_index)
  note n = ct_inv_inner [OF assms, of "fst c"]
  show "fst (cell_load h c ct) = holder h ct c"
    using n by (simp add: cell_load_def holder_def case_prod_unfold hm.index_peek i)
  show "holder h (snd (cell_load h c ct)) = holder h ct"
    using n i i1 by (auto simp: cell_load_def holder_def case_prod_unfold hm.index_peek
        hm.peek_index hm.peek_assign fun_eq_iff)
  show "ct_inv h (snd (cell_load h c ct))"
    using n assms by (simp add: cell_load_def case_prod_unfold hm.index_peek i
        ct_inv_assign ct_inv_index hm.inv_index)
qed

lemma cell_store_spec:
  assumes "ct_inv h ct"
  shows "holder h (cell_store h c v ct) = (holder h ct)(c := v)"
    and "ct_inv h (cell_store h c v ct)"
proof -
  have i: "hm_inv h ct" and i1: "hm_inv h (snd (hm_index h hm997 (fst c) ct))"
    using assms by (auto simp: ct_inv_def hm.inv_index)
  note n = ct_inv_inner [OF assms, of "fst c"]
  show "holder h (cell_store h c v ct) = (holder h ct)(c := v)"
    using n i i1 by (auto simp: cell_store_def holder_def case_prod_unfold hm.index_peek
        hm.peek_index hm.peek_assign fun_eq_iff prod_eq_iff)
  show "ct_inv h (cell_store h c v ct)"
    using n assms by (simp add: cell_store_def case_prod_unfold hm.index_peek i
        ct_inv_assign ct_inv_index hm.inv_assign)
qed

section \<open>What reserving does\<close>

text \<open>The loop in closed form: a free cell or a larger holder gives way to \<open>tid\<close>.\<close>

definition rmin :: "u32 \<Rightarrow> u32 \<Rightarrow> u32" where
  "rmin tid v = (if v = 0 \<or> tid < v then tid else v)"

lemma rmin_idem [simp]: "rmin tid (rmin tid v) = rmin tid v"
  by (auto simp: rmin_def)

lemma rmin_commute: "a \<noteq> 0 \<Longrightarrow> b \<noteq> 0 \<Longrightarrow> rmin a (rmin b v) = rmin b (rmin a v)"
  by (auto simp: rmin_def)

lemma reserve_cell_eq: "reserve_cell ws tid cell = rmin tid cell"
proof (induction ws tid cell rule: reserve_cell.induct)
  case (1 ws tid cell)
  show ?case
    using "1.IH" [OF refl _ refl] by (subst reserve_cell.simps) (auto simp: Let_def rmin_def word_gt_0)
qed

lemma reserve_key_spec:
  assumes "ct_inv h ct"
  shows "holder h (reserve_key h ws tid c ct) = (holder h ct)(c := rmin tid (holder h ct c))"
    and "ct_inv h (reserve_key h ws tid c ct)"
  using cell_load_spec [OF assms, of c] cell_store_spec [OF cell_load_spec(3) [OF assms, of c]]
  by (simp_all add: reserve_key_def case_prod_unfold reserve_cell_eq)

lemma reserve_keys_spec:
  assumes "ct_inv h ct"
  shows "holder h (reserve_keys h ws tid cs ct) c =
      (if c \<in> set cs then rmin tid (holder h ct c) else holder h ct c)"
    and "ct_inv h (reserve_keys h ws tid cs ct)"
  using assms by (induction cs arbitrary: ct) (simp_all add: reserve_key_spec)

lemma rt_inv_new [inv_intros]: "rt_inv h (new_reserve_table e)"
  by (simp add: rt_inv_def new_reserve_table_def)

lemma reserveRWset_spec:
  assumes "rt_inv h rt"
  shows "holder h (readTableList (snd (reserveRWset h ws s tid rt))) c =
      (if c \<in> set (read_cells s) then rmin tid (holder h (readTableList rt) c)
       else holder h (readTableList rt) c)"
    and "holder h (writeTableList (snd (reserveRWset h ws s tid rt))) c =
      (if c \<in> set (write_cells s) then rmin tid (holder h (writeTableList rt) c)
       else holder h (writeTableList rt) c)"
    and "rt_inv h (snd (reserveRWset h ws s tid rt))"
    and "rt_epoch (snd (reserveRWset h ws s tid rt)) = rt_epoch rt"
  using assms by (simp_all add: reserveRWset_def Let_def rt_inv_def reserve_keys_spec)

section \<open>A batch of reservations\<close>

text \<open>
  All transactions of an epoch reserve one after another; the smallest id wins each cell,
  whatever the order in which the workers get there.
\<close>

type_synonym batch = "(u32 \<times> kv_rwset) list"

fun reserve_batch :: "(string \<Rightarrow> nat) \<Rightarrow> bool list \<Rightarrow> batch \<Rightarrow> reserve_table \<Rightarrow> reserve_table" where
  "reserve_batch h ws [] rt = rt"
| "reserve_batch h ws (p # b) rt = reserve_batch h ws b (snd (reserveRWset h ws (snd p) (fst p) rt))"

definition claimants :: "(kv_rwset \<Rightarrow> cell list) \<Rightarrow> batch \<Rightarrow> cell \<Rightarrow> u32 set" where
  "claimants cells b c = {tid. \<exists>s. (tid, s) \<in> set b \<and> c \<in> set (cells s)}"

definition first_claim :: "u32 set \<Rightarrow> u32" where
  "first_claim S = (if S = {} then 0 else Min S)"

lemma finite_claimants [simp]: "finite (claimants cells b c)"
proof -
  have "claimants cells b c \<subseteq> fst ` set b"
    by (auto simp: claimants_def intro: rev_image_eqI)
  then show ?thesis by (rule finite_subset) simp
qed

lemma claimants_Nil [simp]: "claimants cells [] c = {}"
  by (simp add: claimants_def)

lemma claimants_Cons: "claimants cells ((tid, s) # b) c =
    (if c \<in> set (cells s) then insert tid (claimants cells b c) else claimants cells b c)"
  by (auto simp: claimants_def)

lemma claimants_snoc: "claimants cells (b @ [(tid, s)]) c =
    (if c \<in> set (cells s) then insert tid (claimants cells b c) else claimants cells b c)"
  by (auto simp: claimants_def)

lemma first_claim_insert:
  assumes "finite S" "0 \<notin> S"
  shows "first_claim (insert tid S) = rmin tid (first_claim S)"
proof (cases "S = {}")
  case False
  then have "Min S \<in> S" using assms by simp
  then have nz: "Min S \<noteq> 0" using assms by metis
  have m: "Min (insert tid S) = min tid (Min S)" using False assms by simp
  show ?thesis unfolding first_claim_def rmin_def m using False nz
    by (auto simp: min_def simp del: Min_le_iff Min_less_iff Min_gr_iff Min_ge_iff dest: less_imp_le)
qed (simp add: first_claim_def rmin_def)

lemma reserve_batch_append:
  "reserve_batch h ws (a @ b) rt = reserve_batch h ws b (reserve_batch h ws a rt)"
  by (induction a arbitrary: rt) auto

lemma reserve_batch_inv [inv_intros]: "rt_inv h rt \<Longrightarrow> rt_inv h (reserve_batch h ws b rt)"
  by (induction b arbitrary: rt) (auto simp: reserveRWset_spec)

lemma reserve_batch_holder:
  assumes "0 \<notin> fst ` set b"
  shows "holder h (writeTableList (reserve_batch h ws b (new_reserve_table e))) c =
      first_claim (claimants write_cells b c)"
    and "holder h (readTableList (reserve_batch h ws b (new_reserve_table e))) c =
      first_claim (claimants read_cells b c)"
  using assms
proof (induction b rule: rev_induct)
  case Nil
  { case 1 show ?case by (simp add: new_reserve_table_def first_claim_def) }
  { case 2 show ?case by (simp add: new_reserve_table_def first_claim_def) }
next
  case (snoc p b)
  obtain tid s where p: "p = (tid, s)" by force
  have nz: "0 \<notin> claimants cells b c" if "0 \<notin> fst ` set (b @ [p])" for cells
    using that by (auto simp: claimants_def intro: rev_image_eqI)
  note inv = reserve_batch_inv [OF rt_inv_new, of h ws b e]
  { case 1
    then show ?case using snoc.IH(1)
      by (simp add: p reserve_batch_append reserveRWset_spec [OF inv] claimants_snoc
          first_claim_insert nz) }
  { case 2
    then show ?case using snoc.IH(2)
      by (simp add: p reserve_batch_append reserveRWset_spec [OF inv] claimants_snoc
          first_claim_insert nz) }
qed

section \<open>What dependency analysis reports\<close>

lemma scan_cells_spec:
  assumes "ct_inv h ct"
  shows "fst (scan_cells h tid cs ct) \<longleftrightarrow> (\<exists>c \<in> set cs. holder h ct c \<noteq> 0 \<and> holder h ct c < tid)"
    and "holder h (snd (scan_cells h tid cs ct)) = holder h ct"
    and "ct_inv h (snd (scan_cells h tid cs ct))"
  using assms
  by (induction cs arbitrary: ct) (auto simp: case_prod_unfold Let_def cell_load_spec)

lemma dependencyAnalysis_spec:
  fixes tid :: u32 and s :: kv_rwset
  assumes "rt_inv h rt"
  defines "d \<equiv> fst (dependencyAnalysis h s tid rt)"
    and "rt' \<equiv> snd (dependencyAnalysis h s tid rt)"
    and "beats \<equiv> (\<lambda>ct c. holder h ct c \<noteq> 0 \<and> holder h ct c < tid)"
  shows "dep_waw d \<longleftrightarrow> (\<exists>c \<in> set (write_cells s). beats (writeTableList rt) c)"
    and "dep_war d \<longleftrightarrow> (\<exists>c \<in> set (write_cells s). beats (readTableList rt) c)"
    and "dep_raw d \<longleftrightarrow> (\<exists>c \<in> set (read_cells s). beats (writeTableList rt) c)"
    and "rt_inv h rt'"
    and "holder h (writeTableList rt') = holder h (writeTableList rt)"
    and "holder h (readTableList rt') = holder h (readTableList rt)"
    and "rt_epoch rt' = rt_epoch rt"
  using assms
  by (simp_all add: dependencyAnalysis_def case_prod_unfold Let_def rt_inv_def scan_cells_spec)

lemma getReserveTable_epoch: "\<exists>t. getReserveTable e p = Some t \<and> rt_epoch t = e"
  by (auto simp: getReserveTable_def getHashMapReserveTable_def new_reserve_table_def split: option.split)

lemma getReserveTable_again: "getReserveTable e (getReserveTable e p) = getReserveTable e p"
  using getReserveTable_epoch [of e p]
  by (auto simp: getReserveTable_def getHashMapReserveTable_def)

end
