(* ===== verification/AriaSerial.thy ===== *)
theory AriaSerial
  imports ReserveTable
begin

text \<open>
  The commit rule of \<open>TransactionExecutorImpl::commitList\<close> and what it is for: the
  transactions of a batch that the rule lets through, all run on the same snapshot, have the
  effect of running them one after another in some order. The order is explicit: first the
  committed transactions with a RAW dependency, by decreasing id, then the others by
  increasing id.
\<close>

section \<open>The rule\<close>

text \<open>
  \<open>if (waw) abort; else if (!war || !raw) commit; else abort\<close>.
\<close>

definition may_commit :: "tr_dependency \<Rightarrow> bool" where
  "may_commit d = (if dep_waw d then False else if \<not> dep_war d \<or> \<not> dep_raw d then True else False)"

text \<open>The verdict on one transaction after the whole batch has been reserved in a new table.\<close>

definition verdict :: "(string \<Rightarrow> nat) \<Rightarrow> bool list \<Rightarrow> u32 \<Rightarrow> batch \<Rightarrow> u32 \<times> kv_rwset \<Rightarrow> tr_dependency" where
  "verdict h ws e b p =
     fst (dependencyAnalysis h (snd p) (fst p) (reserve_batch h ws b (new_reserve_table e)))"

definition committed :: "(string \<Rightarrow> nat) \<Rightarrow> bool list \<Rightarrow> u32 \<Rightarrow> batch \<Rightarrow> batch" where
  "committed h ws e b = filter (\<lambda>p. may_commit (verdict h ws e b p)) b"

definition serial_order :: "(string \<Rightarrow> nat) \<Rightarrow> bool list \<Rightarrow> u32 \<Rightarrow> batch \<Rightarrow> batch" where
  "serial_order h ws e b =
     (let cs = sort_key fst (committed h ws e b)
      in rev (filter (\<lambda>p. dep_raw (verdict h ws e b p)) cs)
         @ filter (\<lambda>p. \<not> dep_raw (verdict h ws e b p)) cs)"

section \<open>The verdict in terms of the batch\<close>

text \<open>\<open>earlier cells b tid c\<close>: some transaction of the batch with a smaller id names the cell.\<close>

definition earlier :: "(kv_rwset \<Rightarrow> cell list) \<Rightarrow> batch \<Rightarrow> u32 \<Rightarrow> cell \<Rightarrow> bool" where
  "earlier cells b tid c \<longleftrightarrow> (\<exists>(j, s) \<in> set b. c \<in> set (cells s) \<and> j < tid)"

lemma first_claim_less_iff:
  assumes "0 \<notin> fst ` set b"
  shows "first_claim (claimants cells b c) \<noteq> 0 \<and> first_claim (claimants cells b c) < tid \<longleftrightarrow>
      earlier cells b tid c"
proof (cases "claimants cells b c = {}")
  case True
  then show ?thesis by (auto simp: first_claim_def claimants_def earlier_def)
next
  case False
  let ?S = "claimants cells b c"
  have "Min ?S \<in> ?S" using False by simp
  moreover have "0 \<notin> ?S" using assms by (auto simp: claimants_def intro: rev_image_eqI)
  ultimately have "Min ?S \<noteq> 0" by metis
  then have "first_claim ?S \<noteq> 0 \<and> first_claim ?S < tid \<longleftrightarrow> (\<exists>j \<in> ?S. j < tid)"
    using False by (simp add: first_claim_def Min_less_iff)
  then show ?thesis by (auto simp: claimants_def earlier_def)
qed

lemma verdict_iff:
  assumes "0 \<notin> fst ` set b"
  shows "dep_waw (verdict h ws e b (tid, s)) \<longleftrightarrow> (\<exists>c \<in> set (write_cells s). earlier write_cells b tid c)"
    and "dep_war (verdict h ws e b (tid, s)) \<longleftrightarrow> (\<exists>c \<in> set (write_cells s). earlier read_cells b tid c)"
    and "dep_raw (verdict h ws e b (tid, s)) \<longleftrightarrow> (\<exists>c \<in> set (read_cells s). earlier write_cells b tid c)"
  using dependencyAnalysis_spec [OF reserve_batch_inv [OF rt_inv_new], of h s tid ws b e]
  by (simp_all add: verdict_def reserve_batch_holder [OF assms] first_claim_less_iff [OF assms])

text \<open>The verdicts do not depend on the order in which the batch was reserved.\<close>

lemma verdict_order_free:
  assumes "0 \<notin> fst ` set b" and "set b' = set b"
  shows "verdict h ws e b' p = verdict h ws' e b p"
proof -
  obtain tid s where p: "p = (tid, s)" by force
  have ea: "earlier cells b' tid c = earlier cells b tid c" for cells c
    using assms(2) by (simp add: earlier_def)
  have nz: "0 \<notin> fst ` set b'" using assms by simp
  have "dep_waw (verdict h ws e b' p) = dep_waw (verdict h ws' e b p)"
    "dep_war (verdict h ws e b' p) = dep_war (verdict h ws' e b p)"
    "dep_raw (verdict h ws e b' p) = dep_raw (verdict h ws' e b p)"
    using ea by (simp_all add: p verdict_iff [OF assms(1)] verdict_iff [OF nz])
  then show ?thesis by (cases "verdict h ws e b' p"; cases "verdict h ws' e b p") simp
qed

section \<open>Serial execution and execution on a snapshot\<close>

text \<open>
  The effect of a transaction is a parameter: \<open>logic tid db c\<close> is the value transaction
  \<open>tid\<close> writes to cell \<open>c\<close> when it runs on \<open>db\<close>. It may depend on the cells the transaction
  reads only (\<open>reads_only\<close>).
\<close>

type_synonym 'v store = "cell \<Rightarrow> 'v"
type_synonym 'v logic = "u32 \<Rightarrow> 'v store \<Rightarrow> cell \<Rightarrow> 'v"

definition reads_only :: "'v logic \<Rightarrow> batch \<Rightarrow> bool" where
  "reads_only logic b \<longleftrightarrow> (\<forall>(tid, s) \<in> set b. \<forall>db db'.
     (\<forall>c \<in> set (read_cells s). db c = db' c) \<longrightarrow> (\<forall>c \<in> set (write_cells s). logic tid db c = logic tid db' c))"

definition run_on :: "'v logic \<Rightarrow> 'v store \<Rightarrow> u32 \<times> kv_rwset \<Rightarrow> 'v store \<Rightarrow> 'v store" where
  "run_on logic snap p db = (\<lambda>c. if c \<in> set (write_cells (snd p)) then logic (fst p) snap c else db c)"

text \<open>One after another, each on what the ones before left; and all on the snapshot \<open>db\<close>.\<close>

fun run_serial :: "'v logic \<Rightarrow> batch \<Rightarrow> 'v store \<Rightarrow> 'v store" where
  "run_serial logic [] db = db"
| "run_serial logic (p # ps) db = run_serial logic ps (run_on logic db p db)"

definition run_snapshot :: "'v logic \<Rightarrow> batch \<Rightarrow> 'v store \<Rightarrow> 'v store" where
  "run_snapshot logic ps db = fold (run_on logic db) ps db"

lemma run_serial_append: "run_serial logic (ps @ qs) db = run_serial logic qs (run_serial logic ps db)"
  by (induction ps arbitrary: db) auto

lemma run_snapshot_snoc:
  "run_snapshot logic (ps @ [p]) db = run_on logic db p (run_snapshot logic ps db)"
  by (simp add: run_snapshot_def)

lemma run_snapshot_untouched:
  assumes "\<forall>p \<in> set ps. c \<notin> set (write_cells (snd p))"
  shows "run_snapshot logic ps db c = db c"
  using assms by (induction ps rule: rev_induct) (auto simp: run_snapshot_snoc run_on_def run_snapshot_def)

text \<open>
  If no transaction of the list reads what an earlier one of the list wrote, the serial run
  and the snapshot run agree.
\<close>

definition no_stale :: "u32 \<times> kv_rwset \<Rightarrow> u32 \<times> kv_rwset \<Rightarrow> bool" where
  "no_stale p q \<longleftrightarrow> set (read_cells (snd q)) \<inter> set (write_cells (snd p)) = {}"

lemma run_serial_eq_snapshot:
  assumes "sorted_wrt no_stale ps" and "reads_only logic ps"
  shows "run_serial logic ps db = run_snapshot logic ps db"
  using assms
proof (induction ps rule: rev_induct)
  case Nil
  show ?case by (simp add: run_snapshot_def)
next
  case (snoc p ps)
  have ih: "run_serial logic ps db = run_snapshot logic ps db"
    using snoc by (simp add: sorted_wrt_append reads_only_def)
  have "\<forall>c \<in> set (read_cells (snd p)). run_snapshot logic ps db c = db c"
    using snoc.prems(1)
    by (intro ballI run_snapshot_untouched) (auto simp: sorted_wrt_append no_stale_def)
  moreover have "reads_only logic [p]"
    using snoc.prems(2) by (simp add: reads_only_def)
  ultimately have "\<forall>c \<in> set (write_cells (snd p)). logic (fst p) (run_snapshot logic ps db) c = logic (fst p) db c"
    unfolding reads_only_def by (auto simp: case_prod_unfold)
  then show ?case
    by (auto simp: run_serial_append ih run_snapshot_snoc run_on_def fun_eq_iff)
qed

text \<open>Snapshot runs of transactions with disjoint write sets commute.\<close>

definition ww_free :: "batch \<Rightarrow> bool" where
  "ww_free ps \<longleftrightarrow> (\<forall>p \<in> set ps. \<forall>q \<in> set ps. p \<noteq> q \<longrightarrow>
     set (write_cells (snd p)) \<inter> set (write_cells (snd q)) = {})"

lemma run_snapshot_value:
  assumes "ww_free ps" "p \<in> set ps" "c \<in> set (write_cells (snd p))"
  shows "run_snapshot logic ps db c = logic (fst p) db c"
  using assms
proof (induction ps rule: rev_induct)
  case (snoc q ps)
  have "ww_free ps" using snoc.prems(1) by (simp add: ww_free_def)
  then show ?case
    using snoc.IH snoc.prems by (cases "p = q")
      (auto simp: run_snapshot_snoc run_on_def ww_free_def)
qed simp

lemma run_snapshot_set:
  assumes "ww_free ps" "set qs = set ps"
  shows "run_snapshot logic qs db = run_snapshot logic ps db"
proof
  fix c
  have q: "ww_free qs" using assms by (simp add: ww_free_def)
  show "run_snapshot logic qs db c = run_snapshot logic ps db c"
  proof (cases "\<exists>p \<in> set ps. c \<in> set (write_cells (snd p))")
    case True
    then obtain p where p: "p \<in> set ps" "c \<in> set (write_cells (snd p))" by blast
    then show ?thesis
      using run_snapshot_value [OF assms(1) p, of logic db] run_snapshot_value [OF q _ p(2), of logic db]
        assms(2) by simp
  next
    case False
    then show ?thesis using assms(2) by (simp add: run_snapshot_untouched)
  qed
qed

section \<open>The committed transactions of a batch\<close>

lemma committed_subset: "set (committed h ws e b) \<subseteq> set b"
  by (auto simp: committed_def)

lemma set_serial_order: "set (serial_order h ws e b) = set (committed h ws e b)"
  by (auto simp: serial_order_def Let_def)

lemma mset_serial_order: "mset (serial_order h ws e b) = mset (committed h ws e b)"
proof -
  let ?P = "\<lambda>p. dep_raw (verdict h ws e b p)"
  have "mset (serial_order h ws e b) =
      filter_mset ?P (mset (committed h ws e b)) + filter_mset (\<lambda>p. \<not> ?P p) (mset (committed h ws e b))"
    by (simp add: serial_order_def Let_def)
  then show ?thesis by (simp flip: multiset_partition)
qed

text \<open>Two committed transactions never write the same cell.\<close>

lemma committed_ww_free:
  assumes nz: "0 \<notin> fst ` set b" and d: "distinct (map fst b)"
  shows "ww_free (committed h ws e b)"
proof -
  have clash: False
    if "(i, s) \<in> set b" "(j, t) \<in> set (committed h ws e b)" "c \<in> set (write_cells s)"
      "c \<in> set (write_cells t)" "i < j" for i s j t c
  proof -
    have "earlier write_cells b j c" using that by (auto simp: earlier_def)
    then have "dep_waw (verdict h ws e b (j, t))"
      using that(4) by (auto simp: verdict_iff(1) [OF nz])
    then show False using that(2) by (simp add: committed_def may_commit_def)
  qed
  show ?thesis unfolding ww_free_def
  proof (intro ballI impI)
    fix p q assume pq: "p \<in> set (committed h ws e b)" "q \<in> set (committed h ws e b)" "p \<noteq> q"
    obtain i s j t where e: "p = (i, s)" "q = (j, t)" by force
    have b: "(i, s) \<in> set b" "(j, t) \<in> set b" using pq committed_subset e by blast+
    have "i \<noteq> j" using b pq(3) d e by (auto dest: eq_key_imp_eq_value)
    then show "set (write_cells (snd p)) \<inter> set (write_cells (snd q)) = {}"
      using clash [of i s j t] clash [of j t i s] b pq e by (auto simp: neq_iff)
  qed
qed

text \<open>
  What an anti-dependency between committed transactions tells: if \<open>j\<close> reads what \<open>i\<close>
  writes, then \<open>j\<close> must come before \<open>i\<close>, and the ids decide which flag was raised.
\<close>

lemma anti_dependency:
  assumes nz: "0 \<notin> fst ` set b" and b: "(i, s) \<in> set b" "(j, t) \<in> set b"
    and c: "c \<in> set (read_cells t)" "c \<in> set (write_cells s)"
  shows "i < j \<Longrightarrow> dep_raw (verdict h ws e b (j, t))"
    and "j < i \<Longrightarrow> dep_war (verdict h ws e b (i, s))"
  using assms by (auto simp: verdict_iff [OF nz] earlier_def)

lemma sorted_wrt_rev_iff: "sorted_wrt P (rev xs) = sorted_wrt (\<lambda>x y. P y x) xs"
  by (induction xs) (auto simp: sorted_wrt_append)

lemma strict_sorted_key:
  assumes "distinct (map fst b)"
  shows "sorted_wrt (\<lambda>p q. fst p < fst q) (sort_key fst (filter Q b))"
proof -
  let ?xs = "sort_key fst (filter Q b)"
  have "mset (map fst ?xs) = mset (map fst (filter Q b))" by (simp only: mset_map mset_sort)
  then have "distinct (map fst ?xs)"
    using distinct_map_filter [OF assms, of Q] mset_eq_imp_distinct_iff by blast
  moreover have "sorted (map fst ?xs)" by (rule sorted_sort_key)
  ultimately have "sorted_wrt (<) (map fst ?xs)" by (simp add: strict_sorted_iff)
  then show ?thesis by (simp add: sorted_wrt_map)
qed

lemma serial_order_no_stale:
  assumes nz: "0 \<notin> fst ` set b" and d: "distinct (map fst b)"
  shows "sorted_wrt no_stale (serial_order h ws e b)"
proof -
  let ?v = "verdict h ws e b"
  let ?cs = "sort_key fst (committed h ws e b)"
  have srt: "sorted_wrt (\<lambda>p q. fst p < fst q) ?cs"
    unfolding committed_def by (rule strict_sorted_key [OF d])
  have ok: "no_stale p q"
    if pq: "p \<in> set ?cs" "q \<in> set ?cs"
      and less: "fst p < fst q \<Longrightarrow> \<not> dep_raw (?v q)" and gr: "fst q < fst p \<Longrightarrow> dep_raw (?v p)"
      and ne: "fst p \<noteq> fst q" for p q
  proof (rule ccontr)
    assume "\<not> no_stale p q"
    then obtain c where c: "c \<in> set (read_cells (snd q))" "c \<in> set (write_cells (snd p))"
      by (auto simp: no_stale_def)
    have pb: "(fst p, snd p) \<in> set b" and qb: "(fst q, snd q) \<in> set b"
      and cp: "may_commit (?v p)" "may_commit (?v q)"
      using pq by (auto simp: committed_def)
    note ad = anti_dependency [OF nz pb qb c, of h ws e]
    show False
      using ne less gr ad cp by (cases "fst p < fst q") (auto simp: may_commit_def neq_iff split: if_splits)
  qed
  have raw: "sorted_wrt no_stale (rev (filter (\<lambda>p. dep_raw (?v p)) ?cs))"
    unfolding sorted_wrt_rev_iff
    by (rule sorted_wrt_mono_rel [OF _ sorted_wrt_filter [OF srt]]) (auto intro!: ok)
  have rest: "sorted_wrt no_stale (filter (\<lambda>p. \<not> dep_raw (?v p)) ?cs)"
    by (rule sorted_wrt_mono_rel [OF _ sorted_wrt_filter [OF srt]]) (auto intro!: ok)
  have ne: "fst p \<noteq> fst q"
    if "p \<in> set ?cs" "q \<in> set ?cs" "dep_raw (?v p)" "\<not> dep_raw (?v q)" for p q
  proof
    assume "fst p = fst q"
    moreover have "p \<in> set b" "q \<in> set b" using that(1,2) by (auto dest: subsetD [OF committed_subset])
    ultimately have "p = q" using d by (metis eq_key_imp_eq_value prod.collapse)
    then show False using that by simp
  qed
  have cross: "\<forall>p \<in> set (rev (filter (\<lambda>p. dep_raw (?v p)) ?cs)).
      \<forall>q \<in> set (filter (\<lambda>p. \<not> dep_raw (?v p)) ?cs). no_stale p q"
    using ne by (auto intro!: ok)
  show ?thesis
    unfolding serial_order_def Let_def sorted_wrt_append using raw rest cross by blast
qed


lemma reads_only_serial_order:
  "reads_only logic b \<Longrightarrow> reads_only logic (serial_order h ws e b)"
  unfolding reads_only_def set_serial_order using committed_subset [of h ws e b] by blast

lemma committed_serial_run:
  assumes "0 \<notin> fst ` set b" "distinct (map fst b)" "reads_only logic b"
  shows "run_serial logic (serial_order h ws e b) db = run_snapshot logic (committed h ws e b) db"
  using run_serial_eq_snapshot [OF serial_order_no_stale [OF assms(1,2)] reads_only_serial_order [OF assms(3)]]
    run_snapshot_set [OF committed_ww_free [OF assms(1,2)] set_serial_order]
  by simp

lemma first_transaction_clean:
  assumes "0 \<notin> fst ` set b" "\<forall>q \<in> set b. tid \<le> fst q"
  shows "may_commit (verdict h ws e b (tid, s))"
  using assms(2) by (fastforce simp: may_commit_def verdict_iff [OF assms(1)] earlier_def)

section \<open>Properties\<close>

text \<open>
  C1. Serializability of an epoch. Take a batch with distinct, non-zero transaction ids whose
  writes depend only on what each transaction reads. Running all transactions that
  \<open>commitList\<close> lets through on the same snapshot has the effect of running exactly these
  transactions one after another in the explicit order \<open>serial_order\<close>.
\<close>

theorem aria_batch_serializable:
  assumes "0 \<notin> fst ` set b" "distinct (map fst b)" "reads_only logic b"
  shows "run_serial logic (serial_order h ws e b) db = run_snapshot logic (committed h ws e b) db
    \<and> mset (serial_order h ws e b) = mset (committed h ws e b)"
  using committed_serial_run [OF assms] mset_serial_order by blast

text \<open>A batch of three transactions: 2 reads what 1 writes, 3 writes what 2 reads.\<close>

definition rd :: "string \<Rightarrow> string \<Rightarrow> kv_read" where
  "rd t k = \<lparr>rd_table = t, rd_key = k, rd_value = []\<rparr>"

definition wr :: "string \<Rightarrow> string \<Rightarrow> string \<Rightarrow> kv_write" where
  "wr t k v = \<lparr>wr_table = t, wr_key = k, wr_is_delete = False, wr_value = v\<rparr>"

definition sample_batch :: batch where
  "sample_batch =
    [(2, \<lparr>rw_reads = [rd ''t'' ''a'', rd ''t'' ''b''], rw_writes = [wr ''t'' ''c'' ''x'']\<rparr>),
     (1, \<lparr>rw_reads = [], rw_writes = [wr ''t'' ''a'' ''y'']\<rparr>),
     (3, \<lparr>rw_reads = [], rw_writes = [wr ''t'' ''b'' ''z'']\<rparr>)]"

definition sample_logic :: "string logic" where
  "sample_logic tid db c =
     (if tid = 2 then db (''t'', ''a'') @ db (''t'', ''b'') else snd c)"

lemma sample_batch_ok:
  "0 \<notin> fst ` set sample_batch" "distinct (map fst sample_batch)" "reads_only sample_logic sample_batch"
  by (auto simp: sample_batch_def reads_only_def sample_logic_def read_cells_def rd_def)

lemma aria_batch_serializable_witness:
  "run_serial sample_logic (serial_order length [] 7 sample_batch) (\<lambda>c. ''0'') =
     run_snapshot sample_logic (committed length [] 7 sample_batch) (\<lambda>c. ''0'')
   \<and> map fst (committed length [] 7 sample_batch) = [2, 1, 3]"
proof
  show "run_serial sample_logic (serial_order length [] 7 sample_batch) (\<lambda>c. ''0'') =
     run_snapshot sample_logic (committed length [] 7 sample_batch) (\<lambda>c. ''0'')"
    using aria_batch_serializable [OF sample_batch_ok, of length "[]" 7 "\<lambda>c. ''0''"] by blast
  have "committed length [] 7 sample_batch = sample_batch"
    unfolding committed_def filter_id_conv
    by (auto simp: sample_batch_def may_commit_def verdict_iff earlier_def read_cells_def write_cells_def
        rd_def wr_def)
  then show "map fst (committed length [] 7 sample_batch) = [2, 1, 3]"
    by (simp add: sample_batch_def)
qed

text \<open>
  Two distinct transactions that \<open>commitList\<close> lets through in one epoch never write the
  same cell, and nothing that is let through was overwritten by a smaller id.
\<close>

theorem committed_write_sets_disjoint:
  assumes "0 \<notin> fst ` set b" "distinct (map fst b)"
    and "p \<in> set (committed h ws e b)" "q \<in> set (committed h ws e b)" "p \<noteq> q"
  shows "set (write_cells (snd p)) \<inter> set (write_cells (snd q)) = {}"
  using committed_ww_free [OF assms(1,2)] assms(3-5) by (auto simp: ww_free_def)

lemma sample_all_committed: "committed length [] 7 sample_batch = sample_batch"
  unfolding committed_def filter_id_conv
  by (auto simp: sample_batch_def may_commit_def verdict_iff earlier_def read_cells_def write_cells_def
      rd_def wr_def)

lemma committed_write_sets_disjoint_witness:
  "set (write_cells (snd (sample_batch ! 0))) \<inter> set (write_cells (snd (sample_batch ! 1))) = {}"
  by (rule committed_write_sets_disjoint [OF sample_batch_ok(1,2), where h = length and ws = "[]" and e = 7])
    (simp_all add: sample_all_committed, simp_all add: sample_batch_def)

text \<open>
  C36. The verdict of \<open>dependencyAnalysis\<close> on a transaction is the same whatever the order in
  which the workers reserved the batch, whatever calls of \<open>compare_exchange_weak\<close> failed
  spuriously, and whatever the hash function of the tables.
\<close>

theorem verdict_deterministic:
  assumes "0 \<notin> fst ` set b" "mset b' = mset b"
  shows "verdict h' ws' e' b' p = verdict h ws e b p"
proof -
  obtain tid s where p: "p = (tid, s)" by force
  have m: "set b' = set b" using assms(2) by (rule mset_eq_setD)
  have nz: "0 \<notin> fst ` set b'" using assms m by simp
  have "earlier cells b' t c = earlier cells b t c" for cells t c
    using m by (simp add: earlier_def)
  then show ?thesis
    by (cases "verdict h' ws' e' b' p"; cases "verdict h ws e b p")
      (use verdict_iff [OF assms(1), of h ws e tid s] verdict_iff [OF nz, of h' ws' e' tid s] in \<open>simp add: p\<close>)
qed

lemma verdict_deterministic_witness:
  "verdict (\<lambda>s. 0) [True] 9 (rev sample_batch) (sample_batch ! 0) = verdict length [] 7 sample_batch (sample_batch ! 0)"
  by (rule verdict_deterministic [OF sample_batch_ok(1)]) simp

text \<open>
  Progress: the transaction with the smallest id of an epoch is always let through, so an
  epoch with at least one executed transaction commits something.
\<close>

theorem smallest_id_commits:
  assumes "0 \<notin> fst ` set b" "(tid, s) \<in> set b" "\<forall>q \<in> set b. tid \<le> fst q"
  shows "(tid, s) \<in> set (committed h ws e b)"
  using assms(2) first_transaction_clean [OF assms(1,3)] by (simp add: committed_def)

lemma smallest_id_commits_witness: "sample_batch ! 1 \<in> set (committed length [] 7 sample_batch)"
proof -
  have "(1, snd (sample_batch ! 1)) \<in> set (committed length [] 7 sample_batch)"
    by (rule smallest_id_commits [OF sample_batch_ok(1)]) (auto simp: sample_batch_def)
  then show ?thesis by (simp add: sample_batch_def)
qed

text \<open>
  Exactly when a transaction is turned away: it is let through if and only if no smaller
  id of the batch writes a cell it writes, and it is not at once the writer of a cell that a
  smaller id reads and the reader of a cell that a smaller id writes.
\<close>

theorem committed_iff:
  assumes "0 \<notin> fst ` set b"
  shows "(tid, s) \<in> set (committed h ws e b) \<longleftrightarrow> (tid, s) \<in> set b
    \<and> \<not> (\<exists>(j, t) \<in> set b. j < tid \<and> set (write_cells t) \<inter> set (write_cells s) \<noteq> {})
    \<and> \<not> ((\<exists>(j, t) \<in> set b. j < tid \<and> set (read_cells t) \<inter> set (write_cells s) \<noteq> {})
        \<and> (\<exists>(j, t) \<in> set b. j < tid \<and> set (write_cells t) \<inter> set (read_cells s) \<noteq> {}))"
proof -
  have e: "(\<exists>c \<in> C. earlier cells b tid c) \<longleftrightarrow> (\<exists>(j, t) \<in> set b. j < tid \<and> set (cells t) \<inter> C \<noteq> {})"
    for cells C by (fastforce simp: earlier_def)
  show ?thesis
    by (simp only: committed_def set_filter mem_Collect_eq may_commit_def verdict_iff [OF assms] e) auto
qed

lemma committed_iff_witness: "(3, snd (sample_batch ! 2)) \<in> set (committed length [] 7 sample_batch)"
  by (subst committed_iff [OF sample_batch_ok(1)])
    (auto simp: sample_batch_def read_cells_def write_cells_def rd_def wr_def)

end
