(* ===== verification/ReserveRace.thy ===== *)
theory ReserveRace
  imports ReserveTable
begin

text \<open>
  The reservation loop of \<open>MockReserveTable::reserveRWset\<close> on one cell, with several workers
  interleaved. Each access to the atomic counter is one step: the load of \<open>old\<close>, the plain
  store of the transaction id, and the \<open>compare_exchange_weak\<close>, which may also fail when the
  values agree.
\<close>

section \<open>The step relation\<close>

datatype rpc = R_LOAD | R_TEST | R_STORE | R_CAS | R_DONE

record rthread =
  th_tid :: u32
  th_pc :: rpc
  th_old :: u32

record race =
  rc_cell :: u32
  rc_threads :: "rthread list"

definition race_start :: "u32 \<Rightarrow> u32 list \<Rightarrow> race" where
  "race_start v tids =
     \<lparr>rc_cell = v, rc_threads = map (\<lambda>t. \<lparr>th_tid = t, th_pc = R_LOAD, th_old = 0\<rparr>) tids\<rparr>"

text \<open>What one thread does next: \<open>weak\<close> says that its \<open>compare_exchange_weak\<close> fails spuriously.\<close>

fun thread_act :: "bool \<Rightarrow> u32 \<Rightarrow> rthread \<Rightarrow> u32 \<times> rthread" where
  "thread_act weak cell t =
     (case th_pc t of
        R_LOAD \<Rightarrow> (cell, t\<lparr>th_old := cell, th_pc := R_TEST\<rparr>)
      | R_TEST \<Rightarrow> if th_old t \<le> th_tid t \<and> th_old t \<noteq> 0 then (cell, t\<lparr>th_pc := R_DONE\<rparr>)
                  else (cell, t\<lparr>th_pc := R_STORE\<rparr>)
      | R_STORE \<Rightarrow> (th_tid t, t\<lparr>th_pc := R_CAS\<rparr>)
      | R_CAS \<Rightarrow> if cell = th_old t \<and> \<not> weak then (th_tid t, t\<lparr>th_pc := R_DONE\<rparr>)
                 else (cell, t\<lparr>th_old := cell, th_pc := R_LOAD\<rparr>)
      | R_DONE \<Rightarrow> (cell, t))"

definition race_act :: "bool \<Rightarrow> nat \<Rightarrow> race \<Rightarrow> race" where
  "race_act weak i r =
     (let (v, t) = thread_act weak (rc_cell r) (rc_threads r ! i)
      in \<lparr>rc_cell = v, rc_threads = (rc_threads r)[i := t]\<rparr>)"

lemma thread_act_eval [simp]:
  "thread_act w c \<lparr>th_tid = a, th_pc = R_LOAD, th_old = d\<rparr> = (c, \<lparr>th_tid = a, th_pc = R_TEST, th_old = c\<rparr>)"
  "thread_act w c \<lparr>th_tid = a, th_pc = R_TEST, th_old = d\<rparr> =
     (c, \<lparr>th_tid = a, th_pc = if d \<le> a \<and> d \<noteq> 0 then R_DONE else R_STORE, th_old = d\<rparr>)"
  "thread_act w c \<lparr>th_tid = a, th_pc = R_STORE, th_old = d\<rparr> = (a, \<lparr>th_tid = a, th_pc = R_CAS, th_old = d\<rparr>)"
  "thread_act w c \<lparr>th_tid = a, th_pc = R_CAS, th_old = d\<rparr> =
     (if c = d \<and> \<not> w then (a, \<lparr>th_tid = a, th_pc = R_DONE, th_old = d\<rparr>)
      else (c, \<lparr>th_tid = a, th_pc = R_LOAD, th_old = c\<rparr>))"
  by simp_all

lemma race_act_eval: "race_act w i \<lparr>rc_cell = c, rc_threads = ts\<rparr> =
    (case thread_act w c (ts ! i) of (v, t) \<Rightarrow> \<lparr>rc_cell = v, rc_threads = ts[i := t]\<rparr>)"
  by (simp add: race_act_def)

declare thread_act.simps [simp del]

inductive race_step :: "race \<Rightarrow> race \<Rightarrow> bool" where
  act: "i < length (rc_threads r) \<Longrightarrow> th_pc (rc_threads r ! i) \<noteq> R_DONE \<Longrightarrow> race_step r (race_act weak i r)"

inductive_cases race_stepE: "race_step r r'"

definition race_done :: "race \<Rightarrow> bool" where
  "race_done r \<longleftrightarrow> (\<forall>t \<in> set (rc_threads r). th_pc t = R_DONE)"

section \<open>What holds in every interleaving\<close>

text \<open>
  The cell is free or held by one of the threads (or by the id it held at the start), and
  once any thread is past its first store or has left, the cell is not free.
\<close>

definition race_inv :: "u32 set \<Rightarrow> race \<Rightarrow> bool" where
  "race_inv S r \<longleftrightarrow> rc_cell r \<in> S
     \<and> (\<forall>t \<in> set (rc_threads r). th_tid t \<in> S \<and> th_tid t \<noteq> 0)
     \<and> (\<forall>t \<in> set (rc_threads r). th_pc t = R_CAS \<or> th_pc t = R_DONE \<or> (th_pc t = R_TEST \<and> th_old t \<noteq> 0)
          \<longrightarrow> rc_cell r \<noteq> 0)"

definition past_store :: "rthread \<Rightarrow> bool" where
  "past_store t \<longleftrightarrow> th_pc t = R_CAS \<or> th_pc t = R_DONE \<or> (th_pc t = R_TEST \<and> th_old t \<noteq> 0)"

lemma thread_act_facts:
  assumes "thread_act weak cell t = (v, t')" "th_tid t \<noteq> 0" "past_store t \<Longrightarrow> cell \<noteq> 0"
  shows "v = cell \<or> v = th_tid t" and "th_tid t' = th_tid t"
    and "cell \<noteq> 0 \<Longrightarrow> v \<noteq> 0" and "past_store t' \<Longrightarrow> v \<noteq> 0"
  using assms by (cases "th_pc t"; force simp: past_store_def thread_act.simps split: if_split_asm)+

lemma race_inv_alt: "race_inv S r \<longleftrightarrow> rc_cell r \<in> S \<and> (\<forall>t \<in> set (rc_threads r).
    th_tid t \<in> S \<and> th_tid t \<noteq> 0 \<and> (past_store t \<longrightarrow> rc_cell r \<noteq> 0))"
  by (auto simp: race_inv_def past_store_def)

lemma race_inv_step:
  assumes "race_step r r'" "race_inv S r"
  shows "race_inv S r'"
  using assms(1)
proof (rule race_stepE)
  fix i weak
  assume r': "r' = race_act weak i r" and i: "i < length (rc_threads r)"
  define t where "t = rc_threads r ! i"
  have t: "t \<in> set (rc_threads r)" using i by (simp add: t_def)
  obtain v t' where act: "thread_act weak (rc_cell r) t = (v, t')" by force
  have inv: "th_tid t \<in> S" "th_tid t \<noteq> 0" "past_store t \<Longrightarrow> rc_cell r \<noteq> 0" "rc_cell r \<in> S"
    using t assms(2) by (auto simp: race_inv_alt)
  note f = thread_act_facts [OF act inv(2,3)]
  have "race_inv S \<lparr>rc_cell = v, rc_threads = (rc_threads r)[i := t']\<rparr>"
    unfolding race_inv_alt
  proof (intro conjI ballI)
    show "rc_cell \<lparr>rc_cell = v, rc_threads = (rc_threads r)[i := t']\<rparr> \<in> S" using f(1) inv by auto
  next
    fix u assume "u \<in> set (rc_threads \<lparr>rc_cell = v, rc_threads = (rc_threads r)[i := t']\<rparr>)"
    then have "u = t' \<or> u \<in> set (rc_threads r)" using set_update_subset_insert by fastforce
    then show "th_tid u \<in> S" "th_tid u \<noteq> 0"
      "past_store u \<longrightarrow> rc_cell \<lparr>rc_cell = v, rc_threads = (rc_threads r)[i := t']\<rparr> \<noteq> 0"
      using f inv assms(2) by (auto simp: race_inv_alt)
  qed
  then show ?thesis using act by (simp add: r' race_act_def t_def)
qed

lemma race_inv_reach:
  assumes "race_step\<^sup>*\<^sup>* r r'" "race_inv S r"
  shows "race_inv S r'"
  using assms by (induction rule: rtranclp_induct) (auto intro: race_inv_step)

lemma race_inv_start: "0 \<notin> set tids \<Longrightarrow> race_inv (insert v (set tids)) (race_start v tids)"
  by (auto simp: race_inv_def race_start_def)

lemma race_tids:
  assumes "race_step\<^sup>*\<^sup>* r r'"
  shows "map th_tid (rc_threads r') = map th_tid (rc_threads r)"
  using assms
proof (induction rule: rtranclp_induct)
  case (step y z)
  obtain i weak where i: "z = race_act weak i y" "i < length (rc_threads y)"
    using step(2) by (rule race_stepE)
  obtain v t' where act: "thread_act weak (rc_cell y) (rc_threads y ! i) = (v, t')" by force
  then have "th_tid t' = th_tid (rc_threads y ! i)"
    by (cases "th_pc (rc_threads y ! i)") (auto simp: thread_act.simps split: if_split_asm)
  then have "map th_tid (rc_threads z) = map th_tid (rc_threads y)"
    using i act by (simp add: race_act_def map_update) (metis list_update_id nth_map)
  then show ?case using step.IH by simp
qed simp

section \<open>A thread that runs alone\<close>

text \<open>One thread by itself: the step relation agrees with \<open>reserve_cell\<close>.\<close>

fun run_alone :: "bool list \<Rightarrow> race \<Rightarrow> race" where
  "run_alone [] r = r"
| "run_alone (w # ws) r = (if race_done r then r else run_alone ws (race_act w 0 r))"

lemma run_alone_steps:
  assumes "length (rc_threads r) = 1"
  shows "race_step\<^sup>*\<^sup>* r (run_alone ws r)"
  using assms
proof (induction ws arbitrary: r)
  case (Cons w ws)
  show ?case
  proof (cases "race_done r")
    case False
    then have "th_pc (rc_threads r ! 0) \<noteq> R_DONE"
      using Cons.prems by (auto simp: race_done_def in_set_conv_nth)
    then have "race_step r (race_act w 0 r)"
      using Cons.prems by (intro race_step.act) auto
    moreover have "length (rc_threads (race_act w 0 r)) = 1"
      using Cons.prems by (simp add: race_act_def Let_def split: prod.split)
    ultimately show ?thesis using False Cons.IH by (auto intro: converse_rtranclp_into_rtranclp)
  qed simp
qed simp

lemma run_alone_reserves:
  assumes "tid \<noteq> 0"
  shows "race_done (run_alone (replicate 6 False) (race_start v [tid]))"
    and "rc_cell (run_alone (replicate 6 False) (race_start v [tid])) = reserve_cell ws tid v"
proof -
  have six: "replicate 6 False = [False, False, False, False, False, False]"
    by (simp add: numeral_eq_Suc)
  have "race_done (run_alone (replicate 6 False) (race_start v [tid])) \<and>
    rc_cell (run_alone (replicate 6 False) (race_start v [tid])) = rmin tid v"
  proof (cases "v \<le> tid \<and> v \<noteq> 0")
    case True
    then have "rmin tid v = v" by (auto simp: rmin_def)
    with True show ?thesis by (simp add: six race_start_def race_act_eval race_done_def rmin_def)
  next
    case False
    have r: "rmin tid v = tid" using False by (auto simp: rmin_def)
    show ?thesis
    proof (cases "v = tid")
      case True
      then show ?thesis using False assms by simp
    next
      case ne: False
      then show ?thesis using False assms by (simp add: r six race_start_def race_act_eval race_done_def)
    qed
  qed
  then show "race_done (run_alone (replicate 6 False) (race_start v [tid]))"
    and "rc_cell (run_alone (replicate 6 False) (race_start v [tid])) = reserve_cell ws tid v"
    by (simp_all add: reserve_cell_eq)
qed

section \<open>Properties\<close>

text \<open>
  In every interleaving of the reservation loops on a free cell, when all workers have left
  their loops the cell is held by one of the transactions that reserved it: it is never left
  free and never holds a foreign id.
\<close>

theorem race_cell_held:
  assumes "0 \<notin> set tids" "tids \<noteq> []"
    and "race_step\<^sup>*\<^sup>* (race_start 0 tids) r" "race_done r"
  shows "rc_cell r \<in> set tids"
proof -
  have inv: "race_inv (insert 0 (set tids)) r"
    by (rule race_inv_reach [OF assms(3) race_inv_start [OF assms(1)]])
  have "map th_tid (rc_threads r) = tids"
    using race_tids [OF assms(3)] by (simp add: race_start_def comp_def)
  then have "rc_threads r \<noteq> []" using assms(2) by auto
  then obtain t where "t \<in> set (rc_threads r)" by (meson last_in_set)
  then have "rc_cell r \<noteq> 0" using inv assms(4) by (auto simp: race_inv_def race_done_def)
  then show ?thesis using inv by (simp add: race_inv_def)
qed

lemma race_cell_held_witness:
  "rc_cell (run_alone (replicate 6 False) (race_start 0 [4])) \<in> set [4]"
  by (rule race_cell_held [OF _ _ run_alone_steps run_alone_reserves(1)]) (simp_all add: race_start_def)

definition race_schedule :: "(bool \<times> nat) list" where
  "race_schedule =
    map (Pair False) [0, 0,  1, 1, 1, 1, 1, 1,  0, 0, 0, 0]"

fun race_run :: "(bool \<times> nat) list \<Rightarrow> race \<Rightarrow> race" where
  "race_run [] r = r"
| "race_run ((weak, i) # sch) r = race_run sch (race_act weak i r)"

fun sch_ok :: "(bool \<times> nat) list \<Rightarrow> race \<Rightarrow> bool" where
  "sch_ok [] r \<longleftrightarrow> True"
| "sch_ok ((weak, i) # sch) r \<longleftrightarrow>
     i < length (rc_threads r) \<and> th_pc (rc_threads r ! i) \<noteq> R_DONE \<and> sch_ok sch (race_act weak i r)"

lemma race_run_steps: "sch_ok sch r \<Longrightarrow> race_step\<^sup>*\<^sup>* r (race_run sch r)"
  by (induction sch r rule: sch_ok.induct)
    (auto intro: converse_rtranclp_into_rtranclp race_step.act)

text \<open>
  The loop loses a reservation. Transactions 5 and 3 both write a cell that is free: 5
  loads 0 and is delayed, 3 reserves the cell and leaves, then 5 stores its id over that of 3,
  fails its \<open>compare_exchange_weak\<close> and leaves because the cell now holds its own id. Both loops
  have ended, the cell holds 5, and neither 3 nor 5 sees a smaller id in it: both pass the
  write-after-write test of \<open>dependencyAnalysis\<close>.
\<close>

theorem race_lost_reservation:
  "\<exists>r. race_step\<^sup>*\<^sup>* (race_start 0 [5, 3]) r \<and> race_done r \<and> rc_cell r = 5
     \<and> \<not> (rc_cell r \<noteq> 0 \<and> 5 > rc_cell r) \<and> \<not> (rc_cell r \<noteq> 0 \<and> 3 > rc_cell r)"
proof -
  let ?r = "race_run race_schedule (race_start 0 [5, 3])"
  have "race_step\<^sup>*\<^sup>* (race_start 0 [5, 3]) ?r"
    by (rule race_run_steps) (simp add: race_schedule_def race_start_def race_act_eval)
  moreover have "race_done ?r" "rc_cell ?r = 5"
    by (simp_all add: race_schedule_def race_start_def race_act_eval race_done_def)
  ultimately show ?thesis by (intro exI [of _ ?r]) simp
qed

text \<open>
  A reservation that is not disturbed gives the cell the smaller of the two ids: from any
  value, some run of the loop of one thread ends with exactly the value of the sequential
  \<open>reserve_cell\<close>, on which the analysis of the epoch rests.
\<close>

theorem undisturbed_reservation:
  assumes "tid \<noteq> 0"
  shows "\<exists>r. race_step\<^sup>*\<^sup>* (race_start v [tid]) r \<and> race_done r \<and> rc_cell r = reserve_cell ws tid v
     \<and> rc_cell r = (if v = 0 \<or> tid < v then tid else v)"
proof -
  let ?r = "run_alone (replicate 6 False) (race_start v [tid])"
  have "race_step\<^sup>*\<^sup>* (race_start v [tid]) ?r"
    by (rule run_alone_steps) (simp add: race_start_def)
  moreover have "rc_cell ?r = (if v = 0 \<or> tid < v then tid else v)"
    unfolding run_alone_reserves(2) [OF assms, of v ws] reserve_cell_eq rmin_def ..
  ultimately show ?thesis using run_alone_reserves(1) [OF assms, of v] run_alone_reserves(2) [OF assms, of v ws]
    by (intro exI [of _ ?r]) simp
qed

lemma undisturbed_reservation_witness:
  "\<exists>r. race_step\<^sup>*\<^sup>* (race_start 9 [4]) r \<and> race_done r \<and> rc_cell r = reserve_cell [] 4 9
     \<and> rc_cell r = (if (9::u32) = 0 \<or> (4::u32) < 9 then 4 else 9)"
  by (rule undisturbed_reservation) simp

end
