(* ===== verification/Transaction.thy ===== *)
theory Transaction
  imports Messages
begin

text \<open>
  \<open>Transaction\<close> / \<open>MockTransaction\<close> (\<open>transaction.h\<close>, \<open>mock_transaction.cpp\<close>) and
  \<open>TransactionWrapper\<close>. The program passes \<open>Transaction*\<close> everywhere and several components
  keep a pointer to the same object, so transactions live in an explicit store: a pointer is a
  number, the store maps it to the object, \<open>None\<close> is the null pointer.
\<close>

section \<open>Objects\<close>

record transaction =
  tr_epoch :: u32
  tr_tid :: u32
  tr_res :: tr_result
  tr_payload :: payload
  tr_rwset :: kv_rwset

type_synonym tptr = nat
type_synonym tstore = "tptr \<rightharpoonup> transaction"

definition mock_transaction :: "u32 \<Rightarrow> u32 \<Rightarrow> transaction" where
  "mock_transaction epoch tid =
     \<lparr>tr_epoch = epoch, tr_tid = tid, tr_res = PENDING, tr_payload = payload_empty, tr_rwset = rwset_empty\<rparr>"

definition mock_transaction_default :: transaction where
  "mock_transaction_default = mock_transaction 0 0"

definition getEpoch :: "transaction \<Rightarrow> u32" where "getEpoch t = tr_epoch t"

definition setEpoch :: "u32 \<Rightarrow> transaction \<Rightarrow> transaction" where "setEpoch e t = t\<lparr>tr_epoch := e\<rparr>"

definition getTransactionID :: "transaction \<Rightarrow> u32" where "getTransactionID t = tr_tid t"

definition setTransactionID :: "u32 \<Rightarrow> transaction \<Rightarrow> transaction" where
  "setTransactionID i t = t\<lparr>tr_tid := i\<rparr>"

definition getRWSet :: "transaction \<Rightarrow> kv_rwset" where "getRWSet t = tr_rwset t"

definition resetRWSet :: "transaction \<Rightarrow> transaction" where
  "resetRWSet t = t\<lparr>tr_rwset := rwset_empty\<rparr>"

definition getTransactionResult :: "transaction \<Rightarrow> tr_result" where "getTransactionResult t = tr_res t"

definition setTransactionResult :: "tr_result \<Rightarrow> transaction \<Rightarrow> transaction" where
  "setTransactionResult r t = t\<lparr>tr_res := r\<rparr>"

definition getTransactionPayload :: "transaction \<Rightarrow> payload" where
  "getTransactionPayload t = tr_payload t"

definition resetTransactionPayload :: "transaction \<Rightarrow> transaction" where
  "resetTransactionPayload t = t\<lparr>tr_payload := payload_empty\<rparr>"

definition resetTransaction :: "transaction \<Rightarrow> transaction" where
  "resetTransaction t = t\<lparr>tr_epoch := 0, tr_rwset := rwset_empty, tr_res := PENDING\<rparr>"

definition isReadOnly :: "transaction \<Rightarrow> bool" where
  "isReadOnly t \<longleftrightarrow> rw_writes (tr_rwset t) = []"

lemmas transaction_ops = getEpoch_def setEpoch_def getTransactionID_def setTransactionID_def
  getRWSet_def resetRWSet_def getTransactionResult_def setTransactionResult_def
  getTransactionPayload_def resetTransactionPayload_def resetTransaction_def isReadOnly_def

declare transaction_ops [layer_defs]

section \<open>The store\<close>

definition tget :: "tstore \<Rightarrow> tptr option \<Rightarrow> transaction res" where
  "tget st p = (case p of None \<Rightarrow> Inl NullDeref
     | Some a \<Rightarrow> (case st a of None \<Rightarrow> Inl NullDeref | Some t \<Rightarrow> Inr t))"

definition tupd :: "(transaction \<Rightarrow> transaction) \<Rightarrow> tptr \<Rightarrow> tstore \<Rightarrow> tstore" where
  "tupd f a st = (case st a of None \<Rightarrow> st | Some t \<Rightarrow> st(a \<mapsto> f t))"

lemma tget_Some [simp]: "tget st (Some a) = (case st a of None \<Rightarrow> Inl NullDeref | Some t \<Rightarrow> Inr t)"
  and tget_None [simp]: "tget st None = Inl NullDeref"
  by (simp_all add: tget_def)

lemma tupd_app: "tupd f a st b = (if b = a then map_option f (st a) else st b)"
  by (auto simp: tupd_def split: option.split)

lemma dom_tupd [simp]: "dom (tupd f a st) = dom st"
  by (auto simp: tupd_app split: if_splits)

section \<open>Wrappers\<close>

record wrapper =
  wrap_epoch :: u32
  wrap_list :: "tptr list"

definition new_wrapper :: "u32 \<Rightarrow> wrapper" where
  "new_wrapper epoch = \<lparr>wrap_epoch = epoch, wrap_list = []\<rparr>"

definition getEpochNumber :: "wrapper \<Rightarrow> u32" where "getEpochNumber w = wrap_epoch w"

definition wrap_setEpoch :: "u32 \<Rightarrow> wrapper \<Rightarrow> wrapper" where
  "wrap_setEpoch e w = w\<lparr>wrap_epoch := e\<rparr>"

definition wrap_size :: "wrapper \<Rightarrow> u32" where
  "wrap_size w = of_nat (length (wrap_list w))"

definition pushTransaction :: "tstore \<Rightarrow> tptr option \<Rightarrow> wrapper \<Rightarrow> (bool \<times> wrapper) res" where
  "pushTransaction st p w =
     (case p of None \<Rightarrow> Inr (False, w)
      | Some a \<Rightarrow> bind_res (tget st p) (\<lambda>t.
          if getEpoch t \<noteq> wrap_epoch w then Inr (False, w)
          else Inr (True, w\<lparr>wrap_list := wrap_list w @ [a]\<rparr>)))"

definition pushTransactionUncheck :: "tptr option \<Rightarrow> wrapper \<Rightarrow> wrapper" where
  "pushTransactionUncheck p w =
     (case p of None \<Rightarrow> w | Some a \<Rightarrow> w\<lparr>wrap_list := wrap_list w @ [a]\<rparr>)"

definition pushTransactionUncheck_list :: "tptr list \<Rightarrow> wrapper \<Rightarrow> wrapper" where
  "pushTransactionUncheck_list ts w = w\<lparr>wrap_list := wrap_list w @ ts\<rparr>"

definition pushTransactionUncheck_wrapper :: "wrapper \<Rightarrow> wrapper \<Rightarrow> wrapper" where
  "pushTransactionUncheck_wrapper another w = pushTransactionUncheck_list (wrap_list another) w"

text \<open>\<open>back()\<close> and \<open>pop_back()\<close> on an empty vector are undefined.\<close>

definition popTransaction :: "wrapper \<Rightarrow> (tptr \<times> wrapper) res" where
  "popTransaction w =
     (if wrap_list w = [] then Inl OutOfRange
      else Inr (last (wrap_list w), w\<lparr>wrap_list := butlast (wrap_list w)\<rparr>))"

definition getTransactionList :: "wrapper \<Rightarrow> tptr list" where
  "getTransactionList w = wrap_list w"

text \<open>A wrapper built with \<open>pushTransaction\<close> holds transactions of its own epoch only.\<close>

definition wrap_inv :: "tstore \<Rightarrow> wrapper \<Rightarrow> bool" where
  "wrap_inv st w \<longleftrightarrow> (\<forall>a \<in> set (wrap_list w). \<exists>t. st a = Some t \<and> tr_epoch t = wrap_epoch w)"

lemma wrap_inv_new [inv_intros]: "wrap_inv st (new_wrapper e)"
  by (simp add: wrap_inv_def new_wrapper_def)

lemma wrap_inv_push [inv_intros]:
  assumes "wrap_inv st w" "pushTransaction st p w = Inr (b, w')"
  shows "wrap_inv st w' \<and> wrap_epoch w' = wrap_epoch w"
  using assms by (auto simp: pushTransaction_def wrap_inv_def bind_res_Inr_iff getEpoch_def
      split: option.splits if_splits)

lemma wrap_inv_pop [inv_intros]:
  assumes "wrap_inv st w" "popTransaction w = Inr (a, w')"
  shows "wrap_inv st w' \<and> (\<exists>t. st a = Some t \<and> tr_epoch t = wrap_epoch w)"
proof -
  have w: "wrap_list w \<noteq> []" "a = last (wrap_list w)" "w' = w\<lparr>wrap_list := butlast (wrap_list w)\<rparr>"
    using assms(2) by (auto simp: popTransaction_def split: if_splits)
  then show ?thesis using assms(1) in_set_butlastD by (fastforce simp: wrap_inv_def)
qed

lemma pop_push: "pushTransaction st (Some a) w = Inr (True, w') \<Longrightarrow> popTransaction w' = Inr (a, w)"
  by (auto simp: pushTransaction_def popTransaction_def bind_res_Inr_iff split: option.splits if_splits)

section \<open>Property\<close>

text \<open>
  The checked wrapper discipline: \<open>pushTransaction\<close> accepts exactly the non-null
  transactions of the wrapper's epoch, rejects the others without changing the wrapper, keeps
  the invariant that all members are of that epoch, and \<open>popTransaction\<close> takes back what was
  pushed last.
\<close>

theorem wrapper_push_pop:
  assumes "wrap_inv st w" "st a = Some t"
  shows "pushTransaction st None w = Inr (False, w)
    \<and> (tr_epoch t \<noteq> wrap_epoch w \<longrightarrow> pushTransaction st (Some a) w = Inr (False, w))
    \<and> (tr_epoch t = wrap_epoch w \<longrightarrow> (\<exists>w'. pushTransaction st (Some a) w = Inr (True, w')
         \<and> wrap_inv st w' \<and> popTransaction w' = Inr (a, w)))"
proof (intro conjI impI)
  show "pushTransaction st None w = Inr (False, w)" by (simp add: pushTransaction_def)
  show "pushTransaction st (Some a) w = Inr (False, w)" if "tr_epoch t \<noteq> wrap_epoch w"
    using that assms(2) by (simp add: pushTransaction_def getEpoch_def)
  show "\<exists>w'. pushTransaction st (Some a) w = Inr (True, w') \<and> wrap_inv st w' \<and> popTransaction w' = Inr (a, w)"
    if e: "tr_epoch t = wrap_epoch w"
  proof -
    obtain w' where w': "pushTransaction st (Some a) w = Inr (True, w')"
      using e assms(2) by (simp add: pushTransaction_def getEpoch_def)
    then show ?thesis using wrap_inv_push [OF assms(1) w'] pop_push [OF w'] by blast
  qed
qed

lemma wrapper_push_pop_witness:
  "\<exists>w'. pushTransaction [7 \<mapsto> mock_transaction 3 1] (Some 7) (new_wrapper 3) = Inr (True, w')
     \<and> popTransaction w' = Inr (7, new_wrapper 3)"
  using wrapper_push_pop [of "[7 \<mapsto> mock_transaction 3 1]" "new_wrapper 3" 7 "mock_transaction 3 1"]
  by (auto simp: wrap_inv_new mock_transaction_def new_wrapper_def wrap_inv_def)

end
