(* ===== verification/OrmTable.thy ===== *)
theory OrmTable
  imports Prelude
begin

text \<open>
  Table definitions of the ORM: \<open>orm_filed.h\<close>, \<open>char_field.hpp\<close>, \<open>int_field.hpp\<close>,
  \<open>table_definition.h\<close> and \<open>table_impl.h\<close>. Fields are shared objects that nobody changes
  after they were added, so a table holds them by value.
\<close>

datatype orm_field_type =
    AutoField | BinaryField | BooleanField | IntegerFiled | PositiveIntegerFiled | CharFiled
  | TextFiled | DateTimeField | FloatFiled | DecimalFiled | ForeignKey | OneToOneField | ManyToManyField

record orm_field =
  fd_type :: orm_field_type
  fd_column :: string
  fd_primary :: bool
  fd_unique :: bool
  fd_nil :: bool
  fd_index :: bool
  fd_max_length :: "u32 option"

definition orm_field_base :: "orm_field_type \<Rightarrow> string \<Rightarrow> orm_field" where
  "orm_field_base ty nm = \<lparr>fd_type = ty, fd_column = nm, fd_primary = False, fd_unique = False,
     fd_nil = False, fd_index = False, fd_max_length = None\<rparr>"

definition getFiledType :: "orm_field \<Rightarrow> orm_field_type" where "getFiledType f = fd_type f"
definition getColumnName :: "orm_field \<Rightarrow> string" where "getColumnName f = fd_column f"
definition setPrimary :: "bool \<Rightarrow> orm_field \<Rightarrow> orm_field" where "setPrimary b f = f\<lparr>fd_primary := b\<rparr>"
definition setUnique :: "bool \<Rightarrow> orm_field \<Rightarrow> orm_field" where "setUnique b f = f\<lparr>fd_unique := b\<rparr>"
definition setNull :: "bool \<Rightarrow> orm_field \<Rightarrow> orm_field" where "setNull b f = f\<lparr>fd_nil := b\<rparr>"
definition setIndex :: "bool \<Rightarrow> orm_field \<Rightarrow> orm_field" where "setIndex b f = f\<lparr>fd_index := b\<rparr>"

definition charField :: "string \<Rightarrow> u32 \<Rightarrow> bool \<Rightarrow> orm_field" where
  "charField nm len nil = setNull nil ((orm_field_base CharFiled nm)\<lparr>fd_max_length := Some len\<rparr>)"

text \<open>The constructor of \<open>IntField\<close> ignores its length argument.\<close>

definition intField :: "orm_field_type \<Rightarrow> string \<Rightarrow> u32 \<Rightarrow> orm_field" where
  "intField ty nm len = orm_field_base ty nm"

record orm_table =
  tb_name :: string
  tb_fields :: "orm_field list"

definition orm_table_new :: "string \<Rightarrow> orm_table" where
  "orm_table_new nm = \<lparr>tb_name = nm, tb_fields = []\<rparr>"

definition addField :: "orm_field \<Rightarrow> orm_table \<Rightarrow> bool \<times> orm_table" where
  "addField f t = (True, t\<lparr>tb_fields := tb_fields t @ [f]\<rparr>)"

definition fieldSize :: "orm_table \<Rightarrow> u32" where
  "fieldSize t = of_nat (length (tb_fields t))"

definition getField :: "u32 \<Rightarrow> orm_table \<Rightarrow> orm_field option" where
  "getField i t = (if i \<ge> fieldSize t then None else Some (tb_fields t ! unat i))"

lemma unat_fieldSize: "length (tb_fields t) < 2 ^ 32 \<Longrightarrow> unat (fieldSize t) = length (tb_fields t)"
  by (simp add: fieldSize_def unat_of_nat)

text \<open>
  \<open>getField\<close> is a total, bounds-checked view of the fields added so far (fewer than
  \<open>2^32\<close> of them): it returns the field at the index, null beyond the end, and after
  \<open>addField\<close> the new field is the one at the old size while all others keep their index.
\<close>

theorem getField_addField:
  assumes "length (tb_fields t) + 1 < 2 ^ 32"
  shows "getField i (snd (addField f t)) = (if i = fieldSize t then Some f else getField i t)
    \<and> (getField i t = None \<longleftrightarrow> length (tb_fields t) \<le> unat i)"
proof -
  let ?t = "snd (addField f t)"
  have n: "unat (fieldSize t) = length (tb_fields t)" "unat (fieldSize ?t) = length (tb_fields t) + 1"
    using assms unat_fieldSize [of t] unat_fieldSize [of ?t] by (simp_all add: addField_def)
  have "i = fieldSize t \<longleftrightarrow> unat i = length (tb_fields t)" using n by (metis word_unat_eq_iff)
  then show ?thesis
    using n by (auto simp: getField_def addField_def nth_append word_le_nat_alt not_le)
qed

lemma getField_addField_witness:
  "getField 0 (snd (addField (charField ''key'' 200 True) (orm_table_new ''test_table''))) =
     Some (charField ''key'' 200 True)"
  using getField_addField [of "orm_table_new ''test_table''" 0 "charField ''key'' 200 True"]
  by (simp add: orm_table_new_def fieldSize_def)

end
