(* ===== verification/Decimal.thy ===== *)
theory Decimal
  imports Prelude
begin

text \<open>
  The conversions of the C++ standard library that the CRDT merge and the messages use:
  \<open>std::to_string\<close> on integers and \<open>std::stoi\<close>, which skips white space, reads an optional
  sign and the longest run of digits, ignores the rest, and throws when there is no digit or
  when the value does not fit a 32-bit \<open>int\<close>.
\<close>

section \<open>Printing\<close>

definition digit_char :: "nat \<Rightarrow> char" where
  "digit_char d = char_of (48 + d)"

fun nat_str :: "nat \<Rightarrow> string" where
  "nat_str n = (if n < 10 then [digit_char n] else nat_str (n div 10) @ [digit_char (n mod 10)])"

declare nat_str.simps [simp del]

definition to_string :: "int \<Rightarrow> string" where
  "to_string i = (if i < 0 then CHR ''-'' # nat_str (nat (- i)) else nat_str (nat i))"

section \<open>Reading\<close>

definition is_space :: "char \<Rightarrow> bool" where
  "is_space c \<longleftrightarrow> of_char c \<in> {9, 10, 11, 12, 13, 32 :: nat}"

definition is_digit :: "char \<Rightarrow> bool" where
  "is_digit c \<longleftrightarrow> 48 \<le> (of_char c :: nat) \<and> (of_char c :: nat) \<le> 57"

definition digits_value :: "string \<Rightarrow> nat" where
  "digits_value ds = foldl (\<lambda>n c. 10 * n + (of_char c - 48)) 0 ds"

definition int_max :: int where "int_max = 2147483647"

definition int_min :: int where "int_min = - 2147483648"

definition fits_int :: "int \<Rightarrow> bool" where
  "fits_int i \<longleftrightarrow> int_min \<le> i \<and> i \<le> int_max"

definition stoi :: "string \<Rightarrow> int res" where
  "stoi s =
     (let s1 = dropWhile is_space s;
          neg = (s1 \<noteq> [] \<and> hd s1 = CHR ''-'');
          s2 = (if s1 \<noteq> [] \<and> hd s1 \<in> {CHR ''-'', CHR ''+''} then tl s1 else s1);
          ds = takeWhile is_digit s2;
          v = (if neg then - int (digits_value ds) else int (digits_value ds))
      in if ds = [] then Inl Thrown else if fits_int v then Inr v else Inl Thrown)"

text \<open>The sum of two \<open>int\<close>s: no value when it does not fit.\<close>

definition int_add :: "int \<Rightarrow> int \<Rightarrow> int res" where
  "int_add a b = (if fits_int (a + b) then Inr (a + b) else Inl Undefined)"

section \<open>Reading back what was printed\<close>

lemma of_digit_char: "d < 10 \<Longrightarrow> (of_char (digit_char d) :: nat) = 48 + d"
  by (simp add: digit_char_def)

lemma is_digit_digit_char: "d < 10 \<Longrightarrow> is_digit (digit_char d)"
  by (simp add: is_digit_def of_digit_char)

lemma nat_str_digits: "list_all is_digit (nat_str n)"
  by (induction n rule: nat_str.induct) (subst nat_str.simps, simp add: is_digit_digit_char)

lemma nat_str_nonempty: "nat_str n \<noteq> []"
  by (subst nat_str.simps) simp

lemma digits_value_nat_str: "digits_value (nat_str n) = n"
proof (induction n rule: nat_str.induct)
  case (1 n)
  then show ?case
    by (subst nat_str.simps) (auto simp: digits_value_def of_digit_char)
qed

lemma is_digit_not_special:
  assumes "is_digit c"
  shows "\<not> is_space c" "c \<noteq> CHR ''-''" "c \<noteq> CHR ''+''"
  using assms by (auto simp: is_digit_def is_space_def)

lemma takeWhile_digits: "list_all is_digit ds \<Longrightarrow> takeWhile is_digit ds = ds"
  by (simp add: takeWhile_eq_all_conv list_all_iff)

lemma stoi_digits:
  assumes "list_all is_digit ds" "ds \<noteq> []" "fits_int (int (digits_value ds))"
  shows "stoi ds = Inr (int (digits_value ds))"
proof -
  obtain d ds' where d: "ds = d # ds'" "is_digit d" using assms(1,2) by (cases ds) auto
  show ?thesis
    using assms d is_digit_not_special [OF d(2)] by (simp add: stoi_def takeWhile_digits Let_def)
qed

lemma stoi_nat_str: "fits_int (int n) \<Longrightarrow> stoi (nat_str n) = Inr (int n)"
  using stoi_digits [OF nat_str_digits nat_str_nonempty, of n] by (simp add: digits_value_nat_str)

lemma stoi_minus:
  assumes "fits_int (- int n)"
  shows "stoi (CHR ''-'' # nat_str n) = Inr (- int n)"
  using assms nat_str_nonempty [of n]
  by (simp add: stoi_def Let_def is_space_def digits_value_nat_str takeWhile_digits [OF nat_str_digits])

lemma stoi_to_string: "fits_int i \<Longrightarrow> stoi (to_string i) = Inr i"
  using stoi_nat_str [of "nat i"] stoi_minus [of "nat (- i)"] by (simp add: to_string_def)

lemma stoi_fits: "stoi s = Inr i \<Longrightarrow> fits_int i"
  by (auto simp: stoi_def Let_def split: if_splits)

lemma stoi_empty: "stoi [] = Inl Thrown"
  by (simp add: stoi_def)

lemma nat_str_inj: "nat_str a = nat_str b \<Longrightarrow> a = b"
  by (metis digits_value_nat_str)

section \<open>Property\<close>

text \<open>
  Every 32-bit \<open>int\<close> that \<open>to_string\<close> prints is read back by \<open>stoi\<close> without an exception,
  and \<open>stoi\<close> never returns a value outside the \<open>int\<close> range.
\<close>

theorem decimal_round_trip:
  assumes "fits_int i"
  shows "stoi (to_string i) = Inr i \<and> (\<forall>s j. stoi s = Inr j \<longrightarrow> fits_int j)"
  using stoi_to_string [OF assms] stoi_fits by blast

lemma decimal_round_trip_witness: "stoi (to_string (- 42)) = Inr (- 42)"
  using decimal_round_trip [of "- 42"] by (simp add: fits_int_def int_min_def int_max_def)

end
