(* ===== verification/Database.thy ===== *)
theory Database
  imports Transaction ConcHashMap OrmTable Decimal "HOL-Library.List_Lexorder" "HOL-Library.Char_ord"
begin

text \<open>
  \<open>LevelDBStorage\<close> and \<open>DatabaseImpl\<close> (\<open>level_db_stroage.cpp\<close>, \<open>database_impl.cpp\<close>). The
  LevelDB library is a parameter: a record of its three calls on an abstract handle. What the
  code relies on is \<open>leveldb_ok\<close>: the handle behaves as a map from keys to values. The
  \<open>DCHECK\<close>s are those of a build without \<open>NDEBUG\<close>.
\<close>

section \<open>The key-value store\<close>

record 'd leveldb =
  ldb_Get :: "'d \<Rightarrow> string \<Rightarrow> string option"
  ldb_Put :: "'d \<Rightarrow> string \<Rightarrow> string \<Rightarrow> bool \<times> 'd"
  ldb_Delete :: "'d \<Rightarrow> string \<Rightarrow> bool \<times> 'd"

definition leveldb_ok :: "'d leveldb \<Rightarrow> ('d \<Rightarrow> string \<rightharpoonup> string) \<Rightarrow> bool" where
  "leveldb_ok L repr \<longleftrightarrow>
     (\<forall>d k. ldb_Get L d k = repr d k) \<and>
     (\<forall>d k v. fst (ldb_Put L d k v) \<and> repr (snd (ldb_Put L d k v)) = (repr d)(k \<mapsto> v)) \<and>
     (\<forall>d k. fst (ldb_Delete L d k) \<and> repr (snd (ldb_Delete L d k)) = (repr d)(k := None))"

text \<open>\<open>createTable\<close> and \<open>getTableStructure\<close> only log.\<close>

definition ldb_createTable :: "string \<Rightarrow> string \<Rightarrow> string \<Rightarrow> 'd \<Rightarrow> 'd" where
  "ldb_createTable tableName key val d = d"

definition ldb_getTableStructure :: "string \<Rightarrow> 'd \<Rightarrow> bool \<times> 'd" where
  "ldb_getTableStructure table d = (True, d)"

text \<open>\<open>Get\<close> leaves the empty string in \<open>value\<close> when the key is missing; the status is ignored.\<close>

definition selectDB :: "'d leveldb \<Rightarrow> 'd \<Rightarrow> string \<Rightarrow> string \<Rightarrow> string \<times> string" where
  "selectDB L d key table = (key, case ldb_Get L d key of None \<Rightarrow> [] | Some v \<Rightarrow> v)"

definition updateWriteSet :: "'d leveldb \<Rightarrow> string \<Rightarrow> string \<Rightarrow> string \<Rightarrow> 'd \<Rightarrow> 'd res" where
  "updateWriteSet L key val table d = (let (ok, d1) = ldb_Put L d key val in check ok (Inr d1))"

definition removeWriteSet :: "'d leveldb \<Rightarrow> string \<Rightarrow> string \<Rightarrow> string \<Rightarrow> 'd \<Rightarrow> 'd res" where
  "removeWriteSet L key val table d = (let (ok, d1) = ldb_Delete L d key in check ok (Inr d1))"

section \<open>The database\<close>

type_synonym u32hash = "u32 \<Rightarrow> nat"

record 'd database =
  db_store :: 'd
  db_commitPhase :: bool
  db_rwSetBuffer :: "(u32, tptr option) hmap"
  db_tableListBuffer :: "(u32, orm_table list) hmap"
  db_result :: "(string \<times> string) list"

definition new_database :: "'d \<Rightarrow> 'd database" where
  "new_database d = \<lparr>db_store = d, db_commitPhase = False, db_rwSetBuffer = hm997,
     db_tableListBuffer = hm997, db_result = []\<rparr>"

definition clearBufferThreadSafe :: "'d database \<Rightarrow> 'd database" where
  "clearBufferThreadSafe db =
     (if db_commitPhase db
      then db\<lparr>db_rwSetBuffer := hm_clear (db_rwSetBuffer db),
              db_tableListBuffer := hm_clear (db_tableListBuffer db), db_commitPhase := False\<rparr>
      else db)"

definition bufferUpdates :: "u32hash \<Rightarrow> u32 \<Rightarrow> tptr option \<Rightarrow> orm_table list \<Rightarrow> 'd database \<Rightarrow> bool \<times> 'd database" where
  "bufferUpdates hs tid s tables db =
     (let db1 = (if db_commitPhase db then clearBufferThreadSafe db else db);
          db2 = db1\<lparr>db_rwSetBuffer := hm_assign hs tid s (db_rwSetBuffer db1)\<rparr>;
          db3 = db2\<lparr>db_tableListBuffer := hm_assign hs tid tables (db_tableListBuffer db2)\<rparr>
      in (True, db3))"

definition apply_write :: "'d leveldb \<Rightarrow> kv_write \<Rightarrow> 'd \<Rightarrow> 'd res" where
  "apply_write L w d =
     (if wr_is_delete w then removeWriteSet L (wr_key w) '' '' (wr_table w) d
      else updateWriteSet L (wr_key w) (wr_value w) (wr_table w) d)"

fun apply_writes :: "'d leveldb \<Rightarrow> kv_write list \<Rightarrow> 'd \<Rightarrow> 'd res" where
  "apply_writes L [] d = Inr d"
| "apply_writes L (w # ws) d = bind_res (apply_write L w d) (apply_writes L ws)"

text \<open>\<open>rwSetBuffer[tid]->...\<close>: \<open>operator[]\<close> adds a null pointer for an unknown id.\<close>

definition buffered_rwset :: "u32hash \<Rightarrow> tstore \<Rightarrow> u32 \<Rightarrow> 'd database \<Rightarrow> (kv_rwset \<times> 'd database) res" where
  "buffered_rwset hs st tid db =
     (let (p, m) = hm_index hs None tid (db_rwSetBuffer db)
      in bind_res (tget st p) (\<lambda>t. Inr (getRWSet t, db\<lparr>db_rwSetBuffer := m\<rparr>)))"

text \<open>\<open>commitUpdate(uint32_t tid)\<close>; the body runs once under the mutex.\<close>

definition commitUpdate :: "u32hash \<Rightarrow> 'd leveldb \<Rightarrow> tstore \<Rightarrow> u32 \<Rightarrow> 'd database \<Rightarrow> (bool \<times> 'd database) res" where
  "commitUpdate hs L st tid db =
     (if \<not> db_commitPhase db then
        check (hm_contains hs tid (db_rwSetBuffer db)) (
        check (hm_contains hs tid (db_tableListBuffer db)) (
        bind_res (buffered_rwset hs st tid db) (\<lambda>(s, db1).
        bind_res (apply_writes L (rw_writes s) (db_store db1)) (\<lambda>d.
        Inr (True, db1\<lparr>db_store := d, db_commitPhase := True\<rparr>)))))
      else Inr (True, db))"

definition abortUpdate :: "u32 \<Rightarrow> 'd database \<Rightarrow> bool \<times> 'd database" where
  "abortUpdate tid db = (False, db)"

section \<open>The CRDT merge\<close>

text \<open>
  \<open>commitUpdate(std::vector<Transaction*>)\<close>: \<open>result\<close> starts a key from the first value read
  (or "0") and adds every written value to it.
\<close>

definition merge_read :: "kv_read \<Rightarrow> (string \<times> string) list \<Rightarrow> (string \<times> string) list" where
  "merge_read r res =
     (if map_of res (rd_key r) = None
      then if rd_value r = [] then AList.update (rd_key r) ''0'' res
           else AList.update (rd_key r) (rd_value r) res
      else res)"

definition merge_write :: "kv_write \<Rightarrow> (string \<times> string) list \<Rightarrow> (string \<times> string) list res" where
  "merge_write w res =
     (let res1 = (if map_of res (wr_key w) = None then AList.update (wr_key w) ''0'' res else res)
      in bind_res (stoi (the (map_of res1 (wr_key w)))) (\<lambda>a.
         bind_res (stoi (wr_value w)) (\<lambda>b.
         bind_res (int_add a b) (\<lambda>c. Inr (AList.update (wr_key w) (to_string c) res1)))))"

fun merge_writes :: "kv_write list \<Rightarrow> (string \<times> string) list \<Rightarrow> (string \<times> string) list res" where
  "merge_writes [] res = Inr res"
| "merge_writes (w # ws) res = bind_res (merge_write w res) (merge_writes ws)"

definition merge_rwset :: "kv_rwset \<Rightarrow> (string \<times> string) list \<Rightarrow> (string \<times> string) list res" where
  "merge_rwset s res = merge_writes (rw_writes s) (fold merge_read (rw_reads s) res)"

fun merge_list :: "u32hash \<Rightarrow> tstore \<Rightarrow> tptr list \<Rightarrow> 'd database \<Rightarrow> 'd database res" where
  "merge_list hs st [] db = Inr db"
| "merge_list hs st (p # ps) db =
     bind_res (tget st (Some p)) (\<lambda>t.
     bind_res (buffered_rwset hs st (getTransactionID t) db) (\<lambda>(s, db1).
     bind_res (merge_rwset s (db_result db1)) (\<lambda>r.
     merge_list hs st ps (db1\<lparr>db_result := r\<rparr>))))"

text \<open>A \<open>std::map\<close> is traversed by increasing key.\<close>

fun store_result :: "'d leveldb \<Rightarrow> (string \<times> string) list \<Rightarrow> 'd \<Rightarrow> 'd res" where
  "store_result L [] d = Inr d"
| "store_result L ((k, v) # kvs) d = bind_res (updateWriteSet L k v ''test_table'' d) (store_result L kvs)"

definition commitUpdate_list :: "u32hash \<Rightarrow> 'd leveldb \<Rightarrow> tstore \<Rightarrow> tptr list \<Rightarrow> 'd database \<Rightarrow> (bool \<times> 'd database) res" where
  "commitUpdate_list hs L st ps db =
     (if \<not> db_commitPhase db then
        bind_res (merge_list hs st ps db) (\<lambda>db1.
        bind_res (store_result L (sort_key fst (db_result db1)) (db_store db1)) (\<lambda>d.
        Inr (True, db1\<lparr>db_store := d, db_result := [], db_commitPhase := True\<rparr>)))
      else Inr (True, db))"

section \<open>What the operations do to the key-value store\<close>

definition write_effect :: "kv_write \<Rightarrow> (string \<rightharpoonup> string) \<Rightarrow> (string \<rightharpoonup> string)" where
  "write_effect w m = (if wr_is_delete w then m(wr_key w := None) else m(wr_key w \<mapsto> wr_value w))"

definition db_inv :: "u32hash \<Rightarrow> 'd database \<Rightarrow> bool" where
  "db_inv hs db \<longleftrightarrow> hm_inv hs (db_rwSetBuffer db) \<and> hm_inv hs (db_tableListBuffer db)"

definition buffered :: "u32hash \<Rightarrow> 'd database \<Rightarrow> u32 \<Rightarrow> tptr option option" where
  "buffered hs db tid =
     (if hm_lookup hs (db_tableListBuffer db) tid = None then None else hm_lookup hs (db_rwSetBuffer db) tid)"

lemma db_inv_new [inv_intros]: "db_inv hs (new_database d)"
  by (simp add: db_inv_def new_database_def hm.inv_empty)

lemma apply_write_spec:
  assumes "leveldb_ok L repr"
  shows "\<exists>d'. apply_write L w d = Inr d' \<and> repr d' = write_effect w (repr d)"
  using assms by (simp add: apply_write_def updateWriteSet_def removeWriteSet_def write_effect_def
      leveldb_ok_def case_prod_unfold Let_def)

lemma apply_writes_spec:
  assumes "leveldb_ok L repr"
  shows "\<exists>d'. apply_writes L ws d = Inr d' \<and> repr d' = fold write_effect ws (repr d)"
proof (induction ws arbitrary: d)
  case (Cons w ws)
  obtain d1 where d1: "apply_write L w d = Inr d1" "repr d1 = write_effect w (repr d)"
    using apply_write_spec [OF assms] by blast
  obtain d2 where "apply_writes L ws d1 = Inr d2" "repr d2 = fold write_effect ws (repr d1)"
    using Cons.IH by blast
  then show ?case using d1 by simp
qed simp

lemma bufferUpdates_spec:
  fixes tid :: u32 and s :: "tptr option" and tables :: "orm_table list"
  assumes "db_inv hs db"
  defines "db' \<equiv> snd (bufferUpdates hs tid s tables db)"
  shows "fst (bufferUpdates hs tid s tables db)"
    and "db_inv hs db'" and "\<not> db_commitPhase db'" and "db_store db' = db_store db"
    and "db_result db' = db_result db"
    and "buffered hs db' tid' =
      (if tid' = tid then Some s else if db_commitPhase db then None else buffered hs db tid')"
  using assms
  by (auto simp: bufferUpdates_def Let_def clearBufferThreadSafe_def db_inv_def buffered_def
      hm.lookup_assign hm.inv_assign hm.inv_clear hm.lookup_clear)

lemma buffered_rwset_eq:
  assumes "hm_inv hs (db_rwSetBuffer db)" "hm_lookup hs (db_rwSetBuffer db) tid = Some p"
  shows "buffered_rwset hs st tid db = bind_res (tget st p) (\<lambda>t. Inr (getRWSet t, db))"
proof -
  let ?m = "db_rwSetBuffer db"
  have "map_of (?m ! bucket_number hs ?m tid) tid = Some p" using assms(2) by (simp add: hm_lookup_def)
  then have "hm_index hs None tid ?m = (p, ?m)" by (simp add: hm_index_def hm_apply_def)
  then show ?thesis by (simp add: buffered_rwset_def)
qed

lemma commitUpdate_first:
  assumes "leveldb_ok L repr" "db_inv hs db" "\<not> db_commitPhase db"
    and "buffered hs db tid = Some (Some a)" "st a = Some t"
  shows "\<exists>d. commitUpdate hs L st tid db = Inr (True, db\<lparr>db_store := d, db_commitPhase := True\<rparr>)
    \<and> repr d = fold write_effect (rw_writes (tr_rwset t)) (repr (db_store db))"
proof -
  obtain d where d: "apply_writes L (rw_writes (tr_rwset t)) (db_store db) = Inr d"
    "repr d = fold write_effect (rw_writes (tr_rwset t)) (repr (db_store db))"
    using apply_writes_spec [OF assms(1)] by blast
  have l: "hm_lookup hs (db_rwSetBuffer db) tid = Some (Some a)" "hm_lookup hs (db_tableListBuffer db) tid \<noteq> None"
    using assms(4) by (auto simp: buffered_def split: if_splits)
  have "commitUpdate hs L st tid db = Inr (True, db\<lparr>db_store := d, db_commitPhase := True\<rparr>)"
    using assms(2,3,5) l d
    by (simp add: commitUpdate_def hm_contains_iff buffered_rwset_eq db_inv_def getRWSet_def)
  then show ?thesis using d(2) by blast
qed

lemma commitUpdate_again: "db_commitPhase db \<Longrightarrow> commitUpdate hs L st tid db = Inr (True, db)"
  by (simp add: commitUpdate_def)

lemma commitUpdate_phase: "commitUpdate hs L st tid db = Inr (b, db') \<Longrightarrow> b \<and> db_commitPhase db'"
  by (auto simp: commitUpdate_def bind_res_Inr_iff check_Inr_iff split: if_splits)

section \<open>Grow-only counters\<close>

text \<open>
  What the \<open>crdt_gcounter\<close> chaincode leaves in the read-write set: one read of the key with
  the value of the snapshot (empty when there is none), one write of the increment.
\<close>

definition gcounter_rwset :: "(string \<Rightarrow> nat option) \<Rightarrow> string \<times> nat \<Rightarrow> kv_rwset" where
  "gcounter_rwset base p =
     \<lparr>rw_reads = [\<lparr>rd_table = ''test_table'', rd_key = fst p,
        rd_value = (case base (fst p) of None \<Rightarrow> [] | Some n \<Rightarrow> to_string (int n))\<rparr>],
      rw_writes = [\<lparr>wr_table = ''test_table'', wr_key = fst p, wr_is_delete = False,
        wr_value = to_string (int (snd p))\<rparr>]\<rparr>"

definition counter_total :: "(string \<Rightarrow> nat option) \<Rightarrow> (string \<times> nat) list \<Rightarrow> string \<Rightarrow> nat" where
  "counter_total base xs k =
     (case base k of None \<Rightarrow> 0 | Some n \<Rightarrow> n) + sum_list (map snd (filter (\<lambda>p. fst p = k) xs))"

lemma counter_total_snoc:
  "counter_total base (xs @ [(k, n)]) k' = counter_total base xs k' + (if k = k' then n else 0)"
  by (simp add: counter_total_def)

lemma counter_total_absent: "k \<notin> fst ` set xs \<Longrightarrow> counter_total base xs k = (case base k of None \<Rightarrow> 0 | Some n \<Rightarrow> n)"
proof -
  assume "k \<notin> fst ` set xs"
  then have "filter (\<lambda>p. fst p = k) xs = []" by (auto simp: filter_empty_conv)
  then show ?thesis by (simp add: counter_total_def)
qed

fun merge_rwsets :: "kv_rwset list \<Rightarrow> (string \<times> string) list \<Rightarrow> (string \<times> string) list res" where
  "merge_rwsets [] r = Inr r"
| "merge_rwsets (s # ss) r = bind_res (merge_rwset s r) (merge_rwsets ss)"

lemma merge_rwsets_append:
  "merge_rwsets (xs @ ys) r = bind_res (merge_rwsets xs r) (merge_rwsets ys)"
  by (induction xs arbitrary: r) (auto simp: bind_res_def split: sum.splits)

lemma to_string_nonempty: "to_string i \<noteq> []"
  by (simp add: to_string_def nat_str_nonempty)

lemma to_string_zero: "to_string 0 = ''0''"
  by code_simp

lemma merge_gcounter_step:
  assumes m: "map_of r k = (if b then Some (to_string (int cur)) else None)"
    and cur: "\<not> b \<Longrightarrow> cur = (case base k of None \<Rightarrow> 0 | Some n \<Rightarrow> n)"
    and fit: "int (cur + n) \<le> int_max" and d: "distinct (map fst r)"
  shows "\<exists>r'. merge_rwset (gcounter_rwset base (k, n)) r = Inr r' \<and> distinct (map fst r')
    \<and> map_of r' = (map_of r)(k \<mapsto> to_string (int (cur + n)))"
proof -
  let ?rd = "fold merge_read (rw_reads (gcounter_rwset base (k, n))) r"
  have rd: "map_of ?rd = (map_of r)(k \<mapsto> to_string (int cur))" "distinct (map fst ?rd)"
    using m cur d
    by (auto simp: gcounter_rwset_def merge_read_def to_string_nonempty to_string_zero
        distinct_update fun_eq_iff split: option.splits if_splits)
  have f: "fits_int (int cur)" "fits_int (int n)" "fits_int (int (cur + n))"
    using fit by (auto simp: fits_int_def int_min_def)
  show ?thesis
    using rd f
    by (auto simp: merge_rwset_def gcounter_rwset_def merge_write_def stoi_to_string int_add_def
        distinct_update fun_eq_iff)
qed

lemma merge_gcounters:
  assumes "\<And>k. int (counter_total base xs k) \<le> int_max"
  shows "\<exists>r. merge_rwsets (map (gcounter_rwset base) xs) [] = Inr r \<and> distinct (map fst r)
    \<and> (\<forall>k. map_of r k = (if k \<in> fst ` set xs then Some (to_string (int (counter_total base xs k))) else None))"
  using assms
proof (induction xs rule: rev_induct)
  case (snoc p xs)
  obtain k n where p: "p = (k, n)" by force
  have le: "int (counter_total base xs k') \<le> int_max" for k'
    using snoc.prems [of k'] by (simp add: p counter_total_snoc split: if_splits)
  obtain r where r: "merge_rwsets (map (gcounter_rwset base) xs) [] = Inr r" "distinct (map fst r)"
    "\<And>k. map_of r k = (if k \<in> fst ` set xs then Some (to_string (int (counter_total base xs k))) else None)"
    using snoc.IH le by blast
  have "int (counter_total base xs k + n) \<le> int_max"
    using snoc.prems [of k] by (simp add: p counter_total_snoc)
  then obtain r' where r': "merge_rwset (gcounter_rwset base (k, n)) r = Inr r'" "distinct (map fst r')"
    "map_of r' = (map_of r)(k \<mapsto> to_string (int (counter_total base xs k + n)))"
    using merge_gcounter_step [of r k "k \<in> fst ` set xs" "counter_total base xs k" base n]
      r(2,3) counter_total_absent [of k xs base] by blast
  have "merge_rwsets (map (gcounter_rwset base) (xs @ [p])) [] = Inr r'"
    using r(1) r'(1) by (simp add: merge_rwsets_append p)
  moreover have "map_of r' k' = (if k' \<in> fst ` set (xs @ [p])
      then Some (to_string (int (counter_total base (xs @ [p]) k'))) else None)" for k'
    using r'(3) r(3) by (auto simp: p counter_total_snoc simp del: of_nat_add)
  ultimately show ?case using r'(2) by blast
qed simp

lemma store_result_spec:
  assumes "leveldb_ok L repr" "distinct (map fst r)"
  shows "\<exists>d'. store_result L r d = Inr d' \<and> repr d' = repr d ++ map_of r"
  using assms(2)
proof (induction r arbitrary: d)
  case (Cons p r)
  obtain k v where p: "p = (k, v)" by force
  obtain d1 where d1: "updateWriteSet L k v ''test_table'' d = Inr d1" "repr d1 = (repr d)(k \<mapsto> v)"
    using assms(1) by (simp add: updateWriteSet_def leveldb_ok_def case_prod_unfold Let_def)
  obtain d2 where d2: "store_result L r d1 = Inr d2" "repr d2 = repr d1 ++ map_of r"
    using Cons by auto
  have "repr d2 = repr d ++ map_of (p # r)"
  proof -
    have mp: "map_of (p # r) = (map_of r)(k \<mapsto> v)" by (auto simp: p)
    have "k \<notin> dom (map_of r)" using Cons.prems by (simp add: p dom_map_of_conv_image_fst)
    then show ?thesis unfolding mp d1(2) d2(2) map_add_upd by (rule map_add_upd_left)
  qed
  then show ?case using d1(1) d2(1) unfolding p by (intro exI [of _ d2] conjI) (simp, assumption)
qed simp

lemma map_of_sort_key: "distinct (map fst r) \<Longrightarrow> map_of (sort_key fst r) = map_of r"
proof -
  assume d: "distinct (map fst r)"
  have "mset (map fst (sort_key fst r)) = mset (map fst r)" by (simp only: mset_map mset_sort)
  then have "distinct (map fst (sort_key fst r))" using d mset_eq_imp_distinct_iff by blast
  then show ?thesis using d by (simp add: map_of_inject_set)
qed

lemma merge_list_eq:
  assumes "hm_inv hs (db_rwSetBuffer db)"
    and "\<forall>p \<in> set ps. \<exists>t. st p = Some t \<and> hm_lookup hs (db_rwSetBuffer db) (tr_tid t) = Some (Some p)"
  shows "merge_list hs st ps db =
    bind_res (merge_rwsets (map (\<lambda>p. tr_rwset (the (st p))) ps) (db_result db)) (\<lambda>r. Inr (db\<lparr>db_result := r\<rparr>))"
  using assms
proof (induction ps arbitrary: db)
  case (Cons p ps)
  obtain t where t: "st p = Some t" "hm_lookup hs (db_rwSetBuffer db) (tr_tid t) = Some (Some p)"
    using Cons.prems(2) by auto
  show ?case
  proof (cases "merge_rwset (tr_rwset t) (db_result db)")
    case (Inr r)
    then show ?thesis
      using Cons.IH [of "db\<lparr>db_result := r\<rparr>"] Cons.prems t
      by (simp add: buffered_rwset_eq getTransactionID_def getRWSet_def)
  qed (use Cons.prems t in \<open>simp add: buffered_rwset_eq getTransactionID_def getRWSet_def\<close>)
qed simp

section \<open>Properties\<close>

text \<open>A concrete LevelDB: the handle is the map itself.\<close>

definition map_db :: "(string \<rightharpoonup> string) leveldb" where
  "map_db = \<lparr>ldb_Get = (\<lambda>d k. d k), ldb_Put = (\<lambda>d k v. (True, d(k \<mapsto> v))),
     ldb_Delete = (\<lambda>d k. (True, d(k := None)))\<rparr>"

lemma map_db_ok: "leveldb_ok map_db (\<lambda>d. d)"
  by (simp add: leveldb_ok_def map_db_def)

text \<open>
  The first \<open>commitUpdate(tid)\<close> of an epoch, on a buffered transaction, succeeds, applies
  exactly the writes of that transaction to the store, in order and with deletions, and turns
  the commit phase on; the table of a write plays no role.
\<close>

theorem commit_applies_writes:
  assumes "leveldb_ok L repr" "db_inv hs db" "\<not> db_commitPhase db"
    and "buffered hs db tid = Some (Some a)" "st a = Some t"
  shows "\<exists>db'. commitUpdate hs L st tid db = Inr (True, db') \<and> db_commitPhase db' \<and> db_inv hs db'
    \<and> repr (db_store db') = fold write_effect (rw_writes (tr_rwset t)) (repr (db_store db))"
proof -
  obtain d where d: "commitUpdate hs L st tid db = Inr (True, db\<lparr>db_store := d, db_commitPhase := True\<rparr>)"
    "repr d = fold write_effect (rw_writes (tr_rwset t)) (repr (db_store db))"
    using commitUpdate_first [of L repr hs db tid a st t] assms by blast
  then show ?thesis using assms(2) by (intro exI [of _ "db\<lparr>db_store := d, db_commitPhase := True\<rparr>"]) (simp add: db_inv_def)
qed

definition writer :: "u32 \<Rightarrow> string \<Rightarrow> string \<Rightarrow> transaction" where
  "writer tid k v = (mock_transaction 1 tid)\<lparr>tr_rwset := \<lparr>rw_reads = [],
     rw_writes = [\<lparr>wr_table = ''test_table'', wr_key = k, wr_is_delete = False, wr_value = v\<rparr>]\<rparr>\<rparr>"

definition two_writers :: tstore where
  "two_writers = [1 \<mapsto> writer 1 ''a'' ''x'', 2 \<mapsto> writer 2 ''b'' ''y'']"

definition two_buffered :: "(string \<rightharpoonup> string) database" where
  "two_buffered = snd (bufferUpdates unat 2 (Some 2) [] (snd (bufferUpdates unat 1 (Some 1) [] (new_database Map.empty))))"

lemma two_buffered_facts:
  "db_inv unat two_buffered" "\<not> db_commitPhase two_buffered" "db_store two_buffered = Map.empty"
  "buffered unat two_buffered 1 = Some (Some 1)" "buffered unat two_buffered 2 = Some (Some 2)"
proof -
  let ?d = "snd (bufferUpdates unat 1 (Some 1) [] (new_database Map.empty))"
  note a = bufferUpdates_spec [OF db_inv_new, of unat 1 "Some 1" "[]" "Map.empty :: string \<rightharpoonup> string"]
  note b = bufferUpdates_spec [OF a(2), of 2 "Some 2" "[]", folded two_buffered_def]
  show "db_inv unat two_buffered" by (rule b(2))
  show "\<not> db_commitPhase two_buffered" by (rule b(3))
  show "db_store two_buffered = Map.empty" using a(4) b(4) by (simp add: new_database_def)
  show "buffered unat two_buffered 1 = Some (Some 1)" "buffered unat two_buffered 2 = Some (Some 2)"
    using a(3,6) b(6) by simp_all
qed

lemma commit_applies_writes_witness:
  "\<exists>db'. commitUpdate unat map_db two_writers 1 two_buffered = Inr (True, db')
     \<and> db_store db' = [''a'' \<mapsto> ''x'']"
  using commit_applies_writes [OF map_db_ok two_buffered_facts(1,2,4), of two_writers "writer 1 ''a'' ''x''"]
  by (auto simp: two_writers_def two_buffered_facts writer_def write_effect_def)

text \<open>
  Every later commit of the same epoch is lost: once one transaction was committed, and
  until the next epoch buffers its updates, \<open>commitUpdate\<close> reports success for any other
  transaction and leaves the store as it is, whatever that transaction wrote.
\<close>

theorem later_commits_lost:
  assumes "commitUpdate hs L st tid db = Inr (b, db1)"
  shows "b \<and> commitUpdate hs L st' tid' db1 = Inr (True, db1)
    \<and> commitUpdate_list hs L st' ps db1 = Inr (True, db1)"
  using commitUpdate_phase [OF assms] by (simp add: commitUpdate_again commitUpdate_list_def)

lemma later_commits_lost_witness:
  "\<exists>db1. commitUpdate unat map_db two_writers 1 two_buffered = Inr (True, db1)
     \<and> commitUpdate unat map_db two_writers 2 db1 = Inr (True, db1)
     \<and> db_store db1 ''b'' = None"
proof -
  have w: "two_writers 1 = Some (writer 1 ''a'' ''x'')" by (simp add: two_writers_def)
  obtain d where d: "commitUpdate unat map_db two_writers 1 two_buffered =
      Inr (True, two_buffered\<lparr>db_store := d, db_commitPhase := True\<rparr>)"
    "d = fold write_effect (rw_writes (tr_rwset (writer 1 ''a'' ''x''))) (db_store two_buffered)"
    using commitUpdate_first [of map_db "\<lambda>d. d" unat two_buffered 1 1 two_writers "writer 1 ''a'' ''x''"]
      map_db_ok two_buffered_facts w by blast
  show ?thesis
    using later_commits_lost [OF d(1), of two_writers 2] d
    by (auto simp: writer_def write_effect_def two_buffered_facts)
qed


definition counting :: "u32 \<Rightarrow> string \<times> nat \<Rightarrow> transaction" where
  "counting tid p = (mock_transaction 1 tid)\<lparr>tr_rwset := gcounter_rwset [''lhx'' \<mapsto> 10] p\<rparr>"

definition two_increments :: "(string \<times> nat) list" where
  "two_increments = [(''lhx'', 1), (''lhx'', 5)]"

definition two_counters :: tstore where
  "two_counters = [1 \<mapsto> counting 1 (''lhx'', 1), 2 \<mapsto> counting 2 (''lhx'', 5)]"


text \<open>
  Phase discipline of the buffer: buffering after a commit starts from an empty buffer
  (no read-write set of the epoch before survives), buffering before it adds to the buffer,
  and in both cases the new set is the one found under its id and the store is untouched.
\<close>

theorem buffer_phases:
  assumes "db_inv hs db"
  shows "\<exists>db'. bufferUpdates hs tid s tables db = (True, db') \<and> db_inv hs db' \<and> \<not> db_commitPhase db'
    \<and> db_store db' = db_store db
    \<and> (\<forall>tid'. buffered hs db' tid' =
         (if tid' = tid then Some s else if db_commitPhase db then None else buffered hs db tid'))"
  using bufferUpdates_spec [OF assms, of tid s tables]
  by (intro exI [of _ "snd (bufferUpdates hs tid s tables db)"]) (simp add: prod_eq_iff)

lemma buffer_phases_witness:
  "\<exists>db'. bufferUpdates unat 5 (Some 9) [] two_buffered = (True, db') \<and> buffered unat db' 1 = Some (Some 1)
     \<and> buffered unat db' 5 = Some (Some 9)"
  using buffer_phases [OF two_buffered_facts(1), of 5 "Some 9" "[]"] two_buffered_facts by force

end
