(* ===== verification/RandomGen.thy ===== *)
theory RandomGen
  imports Prelude Complex_Main
begin

unbundle bit_operations_syntax

text \<open>
  \<open>random.h\<close>: the 48-bit linear congruential generator of the test chaincode. The state is
  the seed; every routine returns its result with the next seed. All arithmetic is on
  64-bit unsigned integers, which wrap around.
\<close>

section \<open>The generator\<close>

definition mask48 :: u64 where
  "mask48 = push_bit 48 1 - 1"

definition init_seed :: "u64 \<Rightarrow> u64" where
  "init_seed seed = (seed XOR 0x5DEECE66D) AND mask48"

definition set_seed :: "u64 \<Rightarrow> u64" where
  "set_seed seed = seed"

definition next_bits :: "nat \<Rightarrow> u64 \<Rightarrow> u64 \<times> u64" where
  "next_bits bits seed =
     (let s = (seed * 0x5DEECE66D + 0xB) AND mask48 in (drop_bit (48 - bits) s, s))"

definition next64 :: "u64 \<Rightarrow> u64 \<times> u64" where
  "next64 seed =
     (let (hi, s1) = next_bits 32 seed; (lo, s2) = next_bits 32 s1
      in (push_bit 32 hi + lo, s2))"

text \<open>The quotient of a 53-bit integer and \<open>2^53\<close> is exact in a \<open>double\<close>.\<close>

definition next_double :: "u64 \<Rightarrow> rat \<times> u64" where
  "next_double seed =
     (let (hi, s1) = next_bits 26 seed; (lo, s2) = next_bits 27 s1
      in (of_nat (unat (push_bit 27 hi + lo)) / 2 ^ 53, s2))"

text \<open>\<open>b - a + 1\<close> wraps to zero for the full range, and \<open>%\<close> by zero is undefined.\<close>

definition uniform_dist :: "u64 \<Rightarrow> u64 \<Rightarrow> u64 \<Rightarrow> (u64 \<times> u64) res" where
  "uniform_dist a b seed =
     (if a = b then Inr (a, seed)
      else if b - a + 1 = 0 then Inl Undefined
      else let (n, s) = next64 seed in Inr (n mod (b - a + 1) + a, s))"

fun rand_str :: "nat \<Rightarrow> string \<Rightarrow> u64 \<Rightarrow> (string \<times> u64) res" where
  "rand_str 0 str seed = Inr ([], seed)"
| "rand_str (Suc n) str seed =
     bind_res (uniform_dist 0 (of_nat (length str) - 1) seed) (\<lambda>(k, s1).
     bind_res (rand_str n str s1) (\<lambda>(r, s2).
     Inr ((str ! unat k) # r, s2)))"

definition alpha :: string where
  "alpha = ''0123456789abcdefghijklmnopqrstuvwxyzABCDEFGHIJKLMNOPQRSTUVWXYZ''"

definition a_string :: "u64 \<Rightarrow> u64 \<Rightarrow> u64 \<Rightarrow> (string \<times> u64) res" where
  "a_string min_len max_len seed =
     bind_res (uniform_dist min_len max_len seed) (\<lambda>(len, s). rand_str (unat len) alpha s)"

definition non_uniform_distribution :: "u64 \<Rightarrow> u64 \<Rightarrow> u64 \<Rightarrow> u64 \<Rightarrow> (u64 \<times> u64) res" where
  "non_uniform_distribution A x y seed =
     bind_res (uniform_dist 0 A seed) (\<lambda>(u, s1).
     bind_res (uniform_dist x y s1) (\<lambda>(v, s2).
     if y - x + 1 = 0 then Inl Undefined
     else Inr ((u OR v) mod (y - x + 1) + x, s2)))"

section \<open>Bounds\<close>

lemma mask48_eq: "mask48 = mask 48"
  by (simp add: mask48_def mask_eq_decr_exp)

lemma and_mask48_bound: "unat (s AND mask48 :: u64) < 2 ^ 48"
proof -
  have "unat (take_bit 48 s) = take_bit 48 (unat s)" by (simp add: unsigned_take_bit_eq)
  then have "unat (s AND mask48) = take_bit 48 (unat s)" by (simp add: mask48_eq flip: take_bit_eq_mask)
  then show ?thesis using take_bit_nat_less_exp [of 48 "unat s"] by (simp only:)
qed

lemma next_bits_seed: "unat (snd (next_bits bits seed)) < 2 ^ 48"
  unfolding next_bits_def Let_def snd_conv by (rule and_mask48_bound)

lemma next_bits_bound:
  assumes "bits \<le> 48"
  shows "unat (fst (next_bits bits seed)) < 2 ^ bits"
proof -
  let ?s = "snd (next_bits bits seed)"
  have "fst (next_bits bits seed) = drop_bit (48 - bits) ?s"
    by (simp add: next_bits_def Let_def)
  moreover have "unat (drop_bit (48 - bits) ?s) = unat ?s div 2 ^ (48 - bits)"
    unfolding unat_drop_bit_eq by (simp add: drop_bit_eq_div)
  moreover have "unat ?s < 2 ^ (48 - bits) * 2 ^ bits"
    using next_bits_seed [of bits seed] assms by (simp flip: power_add)
  ultimately show ?thesis by (simp add: less_mult_imp_div_less mult.commute)
qed

text \<open>A range \<open>[a, b]\<close> other than the full one has a positive width, below \<open>2^64\<close>.\<close>

lemma range_width:
  assumes "(a::u64) \<le> b" "b - a + 1 \<noteq> 0"
  shows "unat (b - a + 1) = unat b - unat a + 1"
proof -
  have d: "unat (b - a) = unat b - unat a" using assms(1) by (simp add: unat_sub)
  have "unat (1 + (b - a)) = Suc (unat (b - a))"
    using assms(2) by (intro unatSuc) (simp add: add.commute)
  then show ?thesis using d by (simp add: add.commute)
qed

lemma mod_range:
  assumes "(a::u64) \<le> b" "b - a + 1 \<noteq> 0"
  shows "a \<le> n mod (b - a + 1) + a \<and> n mod (b - a + 1) + a \<le> b"
proof -
  have w: "unat (b - a + 1) = unat b - unat a + 1" by (rule range_width [OF assms])
  have "unat (n mod (b - a + 1)) < unat (b - a + 1)" unfolding unat_mod w by simp
  then have m: "unat (n mod (b - a + 1)) \<le> unat b - unat a" using w by simp
  have ab: "unat a \<le> unat b" using assms(1) by (simp add: word_le_nat_alt)
  have "unat b < 2 ^ 64" using unsigned_less [of b, where ?'a = nat] by simp
  then have "unat (n mod (b - a + 1)) + unat a < 2 ^ 64" using m ab by simp
  then have "unat (n mod (b - a + 1) + a) = unat (n mod (b - a + 1)) + unat a"
    by (simp add: unat_add_lem [THEN iffD1])
  then show ?thesis using m ab by (simp add: word_le_nat_alt)
qed

lemma uniform_dist_range:
  assumes "a \<le> b" "uniform_dist a b seed = Inr (r, s)"
  shows "a \<le> r \<and> r \<le> b"
  using assms mod_range [OF assms(1)] by (auto simp: uniform_dist_def case_prod_unfold Let_def split: if_splits)

lemma uniform_dist_total:
  assumes "b - a + 1 \<noteq> 0"
  shows "\<exists>r s. uniform_dist a b seed = Inr (r, s)"
  using assms by (auto simp: uniform_dist_def case_prod_unfold Let_def)

lemma rand_str_ok:
  assumes "str \<noteq> []" "length str < 2 ^ 64"
  shows "\<exists>r s. rand_str n str seed = Inr (r, s) \<and> length r = n \<and> set r \<subseteq> set str"
proof (induction n arbitrary: seed)
  case (Suc n)
  let ?b = "of_nat (length str) - 1 :: u64"
  have ub: "unat ?b = length str - 1"
  proof -
    have u: "unat (of_nat (length str) :: u64) = length str"
      using assms by (simp add: unat_of_nat)
    then have "of_nat (length str) \<noteq> (0::u64)" using assms by (metis length_0_conv unsigned_0)
    then show ?thesis using u by (simp add: unat_minus_one)
  qed
  have "?b + 1 \<noteq> 0"
  proof -
    have "unat (of_nat (length str) :: u64) = length str" using assms by (simp add: unat_of_nat)
    then show ?thesis using assms(1) by (metis diff_add_cancel length_0_conv unsigned_0)
  qed
  then obtain k s1 where u: "uniform_dist 0 ?b seed = Inr (k, s1)"
    using uniform_dist_total [of ?b 0 seed] by auto
  have "k \<le> ?b" using uniform_dist_range [OF _ u] by simp
  then have "unat k < length str" using ub assms(1) by (cases str) (auto simp: word_le_nat_alt)
  moreover obtain r s2 where "rand_str n str s1 = Inr (r, s2)" "length r = n" "set r \<subseteq> set str"
    using Suc.IH by blast
  ultimately show ?case using u by auto
qed simp

section \<open>Properties\<close>

text \<open>
  \<open>a_string\<close> with \<open>min_len \<le> max_len\<close> (not the full 64-bit range) returns, never reads
  outside the alphabet, and its result has a length in \<open>[min_len, max_len]\<close> and consists of
  alphanumeric characters.
\<close>

theorem a_string_spec:
  assumes "min_len \<le> max_len" "max_len - min_len + 1 \<noteq> 0"
  shows "\<exists>r s. a_string min_len max_len seed = Inr (r, s)
    \<and> unat min_len \<le> length r \<and> length r \<le> unat max_len \<and> set r \<subseteq> set alpha"
proof -
  obtain len s where u: "uniform_dist min_len max_len seed = Inr (len, s)"
    using uniform_dist_total [OF assms(2)] by blast
  have b: "min_len \<le> len \<and> len \<le> max_len" by (rule uniform_dist_range [OF assms(1) u])
  have "alpha \<noteq> []" "length alpha < 2 ^ 64" by (simp_all add: alpha_def)
  from rand_str_ok [OF this, of "unat len" s] show ?thesis
    using u b by (auto simp: a_string_def word_le_nat_alt)
qed

lemma a_string_spec_witness:
  "\<exists>r s. a_string 10 10 (init_seed 0) = Inr (r, s) \<and> unat (10::u64) \<le> length r
     \<and> length r \<le> unat (10::u64) \<and> set r \<subseteq> set alpha"
  by (rule a_string_spec) simp_all

text \<open>
  The other draws stay in their ranges: \<open>next(bits)\<close> is below \<open>2^bits\<close>,
  \<open>next_double\<close> lies in \<open>[0, 1)\<close>, and \<open>uniform_dist\<close> and \<open>non_uniform_distribution\<close> lie
  in the closed interval asked for.
\<close>

theorem random_draws_in_range:
  assumes "bits \<le> 48"
  shows "unat (fst (next_bits bits seed)) < 2 ^ bits
    \<and> 0 \<le> fst (next_double seed) \<and> fst (next_double seed) < 1
    \<and> (\<forall>x y r s. x \<le> y \<longrightarrow> uniform_dist x y seed = Inr (r, s) \<longrightarrow> x \<le> r \<and> r \<le> y)
    \<and> (\<forall>A x y r s. x \<le> y \<longrightarrow> non_uniform_distribution A x y seed = Inr (r, s) \<longrightarrow> x \<le> r \<and> r \<le> y)"
proof (intro conjI allI impI)
  show "unat (fst (next_bits bits seed)) < 2 ^ bits" by (rule next_bits_bound [OF assms])
  show "0 \<le> fst (next_double seed)" by (simp only: next_double_def case_prod_unfold Let_def fst_conv) (rule divide_nonneg_pos, rule of_nat_0_le_iff, simp)
  let ?hi = "fst (next_bits 26 seed)"
  let ?lo = "fst (next_bits 27 (snd (next_bits 26 seed)))"
  have h: "unat ?hi < 2 ^ 26" and l: "unat ?lo < 2 ^ 27" by (rule next_bits_bound, simp)+
  have "unat (push_bit 27 ?hi) = unat ?hi * 2 ^ 27"
    using h unat_mult_lem [of ?hi "2 ^ 27"] by (simp add: push_bit_eq_mult)
  then have "unat (push_bit 27 ?hi + ?lo) \<le> unat ?hi * 2 ^ 27 + unat ?lo"
    using unat_add_lem [of "push_bit 27 ?hi" ?lo] h l by simp
  also have "\<dots> < 2 ^ 53" using h l by simp
  finally have "of_nat (unat (push_bit 27 ?hi + ?lo)) < (of_nat (2 ^ 53) :: rat)"
    by (simp only: of_nat_less_iff)
  then show "fst (next_double seed) < 1" by (simp only: next_double_def case_prod_unfold Let_def fst_conv) (simp only: of_nat_power of_nat_numeral divide_less_eq_1_pos zero_less_numeral zero_less_power)
next
  fix x y r s assume "x \<le> y" "uniform_dist x y seed = Inr (r, s)"
  then show "x \<le> r" "r \<le> y" using uniform_dist_range by blast+
next
  fix A x y r s assume "x \<le> y" "non_uniform_distribution A x y seed = Inr (r, s)"
  then show "x \<le> r" "r \<le> y"
    using mod_range [of x y] by (auto simp: non_uniform_distribution_def bind_res_Inr_iff split: if_splits)
qed

lemma random_draws_in_range_witness: "unat (fst (next_bits 32 7)) < 2 ^ 32"
  using random_draws_in_range [of 32 7] by simp

end
