(* ===== verification/Orm.thy ===== *)
theory Orm
  imports Database RandomGen
begin

text \<open>
  The ORM objects a chaincode works with: \<open>CCORMHelper\<close>, \<open>InsertImpl\<close>, \<open>QueryImpl\<close> and
  \<open>LevelDBResultsIterator\<close>. All of them write into the read-write set of one transaction;
  the helper record carries it, together with the tables created so far. Reads go to the
  store as it is during the read phase, which no chaincode changes.
\<close>

section \<open>The results iterator\<close>

record ldb_iterator =
  it_readKeys :: "string list"
  it_table :: string
  it_index :: int
  it_key :: string
  it_value :: string

definition new_iterator :: "string \<times> string \<Rightarrow> ldb_iterator" where
  "new_iterator kv = \<lparr>it_readKeys = [], it_table = [], it_index = 0, it_key = fst kv, it_value = snd kv\<rparr>"

definition it_init :: "string \<Rightarrow> ldb_iterator \<Rightarrow> ldb_iterator" where
  "it_init table it = it\<lparr>it_table := table\<rparr>"

text \<open>\<open>return 1 - index\<close>, converted to \<open>bool\<close>.\<close>

definition it_hasNext :: "ldb_iterator \<Rightarrow> bool" where
  "it_hasNext it \<longleftrightarrow> 1 - it_index it \<noteq> 0"

definition it_next :: "ldb_iterator \<Rightarrow> bool \<times> ldb_iterator" where
  "it_next it =
     (if it_hasNext it then (let i = it_index it + 1 in (i \<noteq> 0, it\<lparr>it_index := i\<rparr>)) else (False, it))"

definition it_getInt :: "string \<Rightarrow> ldb_iterator \<Rightarrow> int" where
  "it_getInt attr it = 0"

definition it_getString :: "string \<Rightarrow> ldb_iterator \<Rightarrow> kv_rwset \<Rightarrow> string \<times> ldb_iterator \<times> kv_rwset" where
  "it_getString attr it s =
     (let (it1, s1) =
        (if it_key it \<notin> set (it_readKeys it)
         then (it\<lparr>it_readKeys := it_key it # it_readKeys it\<rparr>,
               add_reads \<lparr>rd_table = it_table it, rd_key = it_key it, rd_value = it_value it\<rparr> s)
         else (it, s))
      in (if attr = ''key'' then it_key it else it_value it, it1, s1))"

section \<open>Helper, inserts and queries\<close>

record orm_helper =
  hp_tid :: u32
  hp_rwset :: kv_rwset
  hp_tables :: "orm_table list"

definition new_helper :: "u32 \<Rightarrow> kv_rwset \<Rightarrow> orm_helper res" where
  "new_helper tid s =
     check (rw_reads s = []) (check (rw_writes s = [])
       (Inr \<lparr>hp_tid = tid, hp_rwset = s, hp_tables = []\<rparr>))"

text \<open>\<open>createTable\<close> returns a pointer into \<open>tableList\<close>: the index of the new table.\<close>

definition helper_createTable :: "string \<Rightarrow> orm_helper \<Rightarrow> nat \<times> orm_helper" where
  "helper_createTable tableName hp =
     (let w = \<lparr>wr_table = ''aria_sys_table'', wr_key = tableName, wr_is_delete = False,
               wr_value = ''place holder of '' @ to_string (int (unat (hp_tid hp)))\<rparr>
      in (length (hp_tables hp),
          hp\<lparr>hp_rwset := add_writes w (hp_rwset hp), hp_tables := hp_tables hp @ [orm_table_new tableName]\<rparr>))"

definition helper_addField :: "nat \<Rightarrow> orm_field \<Rightarrow> orm_helper \<Rightarrow> orm_helper" where
  "helper_addField i f hp = hp\<lparr>hp_tables := (hp_tables hp)[i := snd (addField f (hp_tables hp ! i))]\<rparr>"

record orm_insert =
  in_table :: string
  in_key :: string

definition newInsert :: "string \<Rightarrow> orm_insert" where
  "newInsert tableName = \<lparr>in_table = tableName, in_key = []\<rparr>"

definition insert_set :: "string \<Rightarrow> string \<Rightarrow> orm_insert \<Rightarrow> orm_helper \<Rightarrow> bool \<times> orm_insert \<times> orm_helper" where
  "insert_set attr val i hp =
     (if attr = ''key'' then (True, i\<lparr>in_key := val\<rparr>, hp)
      else if attr = ''value'' then
        (True, i, hp\<lparr>hp_rwset := add_writes \<lparr>wr_table = in_table i, wr_key = in_key i,
            wr_is_delete = False, wr_value = val\<rparr> (hp_rwset hp)\<rparr>)
      else (False, i, hp))"

definition insert_set_int :: "string \<Rightarrow> int \<Rightarrow> orm_insert \<Rightarrow> orm_helper \<Rightarrow> bool \<times> orm_insert \<times> orm_helper" where
  "insert_set_int attr val i hp = (False, i, hp)"

record orm_query =
  q_table :: string
  q_col :: string
  q_iter :: "ldb_iterator option"

definition newQuery :: "string \<Rightarrow> orm_query" where
  "newQuery tableName = \<lparr>q_table = tableName, q_col = [], q_iter = None\<rparr>"

datatype str_filter = F_EQU | F_CONTAINS | F_START_WITH | F_END_WITH

definition query_filter_str :: "string \<Rightarrow> str_filter \<Rightarrow> string \<Rightarrow> orm_query \<Rightarrow> orm_query" where
  "query_filter_str attr rng arg q = q\<lparr>q_col := arg\<rparr>"

definition query_raw :: "orm_query \<Rightarrow> string" where "query_raw q = []"

definition executeQuery_raw :: "string \<Rightarrow> orm_query \<Rightarrow> ldb_iterator option" where
  "executeQuery_raw sql q = None"

definition executeQuery :: "'d leveldb \<Rightarrow> 'd \<Rightarrow> orm_query \<Rightarrow> ldb_iterator \<times> orm_query" where
  "executeQuery L d q =
     (let it = it_init (q_table q) (new_iterator (selectDB L d (q_col q) (q_table q)))
      in (it, q\<lparr>q_iter := Some it\<rparr>))"

text \<open>\<open>execute\<close>, called by the destructor: hand the read-write set (by pointer) to the database.\<close>

definition helper_execute :: "u32hash \<Rightarrow> tptr \<Rightarrow> orm_helper \<Rightarrow> 'd database \<Rightarrow> bool \<times> 'd database" where
  "helper_execute hs p hp db = (True, snd (bufferUpdates hs (hp_tid hp) (Some p) (hp_tables hp) db))"

section \<open>The read loop\<close>

text \<open>
  \<open>for (r = query->executeQuery(); r->hasNext(); r->next()) { r->getString("key");
  r->getString("value"); }\<close>. An iterator whose index is above 1 would never end (the source
  says so), hence the fuel; \<open>read_loop_fresh\<close> shows that two rounds are enough for the
  iterator that \<open>executeQuery\<close> returns.
\<close>

fun read_loop :: "nat \<Rightarrow> ldb_iterator \<Rightarrow> kv_rwset \<Rightarrow> kv_rwset option" where
  "read_loop 0 it s = None"
| "read_loop (Suc n) it s =
     (if it_hasNext it then
        let (_, it1, s1) = it_getString ''key'' it s;
            (_, it2, s2) = it_getString ''value'' it1 s1;
            (_, it3) = it_next it2
        in read_loop n it3 s2
      else Some s)"

definition query_fuel :: nat where "query_fuel = 2"

definition snapshot_read :: "'d leveldb \<Rightarrow> 'd \<Rightarrow> string \<Rightarrow> string \<Rightarrow> kv_read" where
  "snapshot_read L d table key = \<lparr>rd_table = table, rd_key = key, rd_value = snd (selectDB L d key table)\<rparr>"

lemma read_loop_fresh:
  "read_loop query_fuel (fst (executeQuery L d q)) s = Some (add_reads (snapshot_read L d (q_table q) (q_col q)) s)"
  by (simp add: query_fuel_def numeral_2_eq_2 executeQuery_def Let_def it_init_def new_iterator_def
      it_hasNext_def it_getString_def it_next_def snapshot_read_def selectDB_def)

lemma read_loop_diverges: "it_index it > 1 \<Longrightarrow> read_loop n it s = None"
proof (induction n arbitrary: it s)
  case (Suc n)
  then show ?case
    by (auto simp: it_hasNext_def it_getString_def it_next_def Let_def)
qed simp

section \<open>Property\<close>

text \<open>
  The result iterator yields exactly one row: from \<open>executeQuery\<close> the read loop ends and
  adds one read of the filtered key with the value of the snapshot (the empty string when the
  key is missing) to the read set; on an iterator that was moved past its row the same loop
  never ends.
\<close>

theorem query_reads_one_row:
  "read_loop query_fuel (fst (executeQuery L d (query_filter_str attr rng key (newQuery table)))) s =
     Some (add_reads \<lparr>rd_table = table, rd_key = key,
        rd_value = (case ldb_Get L d key of None \<Rightarrow> [] | Some v \<Rightarrow> v)\<rparr> s)
   \<and> (\<forall>n it. read_loop n (it\<lparr>it_index := 2\<rparr>) s = None)"
  by (simp add: read_loop_fresh read_loop_diverges query_filter_str_def newQuery_def snapshot_read_def
      selectDB_def)

end
