(* ===== verification/Chaincode.thy ===== *)
theory Chaincode
  imports Orm AriaSerial
begin

text \<open>
  \<open>ChaincodeObject\<close> and \<open>ORMTestChaincode\<close>: the five chaincodes a transaction can name. The
  protobuf parsers of the two payload messages are parameters; their result is used whether
  or not parsing succeeded. Each object has its own generator, seeded with 0.
\<close>

record cc_parsers =
  cp_gcounter :: "string \<Rightarrow> gcounter_payload"
  cp_ycsb :: "string \<Rightarrow> ycsb_payload"

record chaincode =
  cc_tid :: u32
  cc_helper :: orm_helper
  cc_seed :: u64

definition new_chaincode :: "u32 \<Rightarrow> kv_rwset \<Rightarrow> chaincode res" where
  "new_chaincode tid s =
     bind_res (new_helper tid s) (\<lambda>hp. Inr \<lparr>cc_tid = tid, cc_helper = hp, cc_seed = init_seed 0\<rparr>)"

definition ycsb_field_size :: u64 where "ycsb_field_size = 10"

section \<open>Building blocks\<close>

text \<open>A query on one key and the loop over its result; a loop that does not end is \<open>Undefined\<close>.\<close>

definition cc_read :: "'d leveldb \<Rightarrow> 'd \<Rightarrow> string \<Rightarrow> chaincode \<Rightarrow> chaincode res" where
  "cc_read L d key c =
     (let q = query_filter_str ''key'' F_EQU key (newQuery ''test_table'');
          (it, _) = executeQuery L d q
      in case read_loop query_fuel it (hp_rwset (cc_helper c)) of
           None \<Rightarrow> Inl Undefined
         | Some s \<Rightarrow> Inr (c\<lparr>cc_helper := (cc_helper c)\<lparr>hp_rwset := s\<rparr>\<rparr>))"

fun cc_reads :: "'d leveldb \<Rightarrow> 'd \<Rightarrow> string list \<Rightarrow> chaincode \<Rightarrow> chaincode res" where
  "cc_reads L d [] c = Inr c"
| "cc_reads L d (k # ks) c = bind_res (cc_read L d k c) (cc_reads L d ks)"

definition cc_set :: "string \<Rightarrow> string \<Rightarrow> orm_insert \<times> chaincode \<Rightarrow> orm_insert \<times> chaincode" where
  "cc_set attr val ic =
     (let (_, i, hp) = insert_set attr val (fst ic) (cc_helper (snd ic))
      in (i, (snd ic)\<lparr>cc_helper := hp\<rparr>))"

definition cc_insert :: "string \<Rightarrow> string \<Rightarrow> chaincode \<Rightarrow> chaincode" where
  "cc_insert key val c = snd (cc_set ''value'' val (cc_set ''key'' key (newInsert ''test_table'', c)))"

definition cc_random_insert :: "string \<Rightarrow> chaincode \<Rightarrow> chaincode res" where
  "cc_random_insert key c =
     bind_res (a_string ycsb_field_size ycsb_field_size (cc_seed c)) (\<lambda>(v, seed).
       Inr (cc_insert key v (c\<lparr>cc_seed := seed\<rparr>)))"

fun cc_updates :: "string list \<Rightarrow> chaincode \<Rightarrow> chaincode res" where
  "cc_updates [] c = Inr c"
| "cc_updates (k # ks) c = bind_res (cc_random_insert k c) (cc_updates ks)"

section \<open>The chaincodes\<close>

definition initFunc :: "chaincode \<Rightarrow> bool \<times> chaincode" where
  "initFunc c =
     (let (i, hp) = helper_createTable ''test_table'' (cc_helper c);
          hp1 = helper_addField i (charField ''key'' 200 True) hp;
          hp2 = helper_addField i (charField ''value'' 200 True) hp1
      in (True, c\<lparr>cc_helper := hp2\<rparr>))"

definition createData :: "chaincode \<Rightarrow> bool \<times> chaincode" where
  "createData c =
     (let s0 = (newInsert ''test_table'', c);
          s1 = cc_set ''value'' ''10'' (cc_set ''key'' ''lhx'' s0);
          s2 = cc_set ''value'' ''20'' (cc_set ''key'' ''chw'' s1);
          s3 = cc_set ''value'' ''30'' (cc_set ''key'' ''wyt'' s2)
      in (True, snd s3))"

definition arg0 :: "string list \<Rightarrow> string res" where
  "arg0 args = (case args of [] \<Rightarrow> Inl OutOfRange | a # _ \<Rightarrow> Inr a)"

definition invokeChaincode :: "'d leveldb \<Rightarrow> cc_parsers \<Rightarrow> 'd \<Rightarrow> string \<Rightarrow> string list \<Rightarrow> chaincode \<Rightarrow> (bool \<times> chaincode) res" where
  "invokeChaincode L P d name args c =
     (if name = ''correct_test'' then
        bind_res (arg0 args) (\<lambda>a.
        bind_res (cc_read L d a c) (\<lambda>c1.
        bind_res (cc_random_insert a c1) (\<lambda>c2. Inr (True, c2))))
      else if name = ''create_table'' then Inr (initFunc c)
      else if name = ''create_data'' then Inr (createData c)
      else if name = ''crdt_gcounter'' then
        bind_res (arg0 args) (\<lambda>a.
        let p = cp_gcounter P a in
        bind_res (cc_read L d (gc_key p) c) (\<lambda>c1.
        Inr (True, cc_insert (gc_key p) (to_string (int (unat (gc_value p)))) c1)))
      else if name = ''mixed'' then
        bind_res (arg0 args) (\<lambda>a.
        let p = cp_ycsb P a in
        bind_res (cc_updates (yc_update p) c) (\<lambda>c1.
        bind_res (cc_reads L d (yc_reads p) c1) (\<lambda>c2. Inr (True, c2))))
      else Inr (False, c))"

section \<open>Effect on the read-write set\<close>

definition cc_rwset :: "chaincode \<Rightarrow> kv_rwset" where
  "cc_rwset c = hp_rwset (cc_helper c)"

definition put_of :: "string \<Rightarrow> string \<Rightarrow> kv_write" where
  "put_of key val = \<lparr>wr_table = ''test_table'', wr_key = key, wr_is_delete = False, wr_value = val\<rparr>"

lemma cc_read_eq: "cc_read L d key c =
    Inr (c\<lparr>cc_helper := (cc_helper c)\<lparr>hp_rwset := add_reads (snapshot_read L d ''test_table'' key) (cc_rwset c)\<rparr>\<rparr>)"
  by (simp add: cc_read_def case_prod_unfold Let_def read_loop_fresh query_filter_str_def newQuery_def cc_rwset_def)

lemma cc_insert_eq: "cc_insert key val c =
    c\<lparr>cc_helper := (cc_helper c)\<lparr>hp_rwset := add_writes (put_of key val) (cc_rwset c)\<rparr>\<rparr>"
  by (simp add: cc_insert_def cc_set_def insert_set_def newInsert_def put_of_def cc_rwset_def)

lemma cc_reads_spec:
  "\<exists>c'. cc_reads L d ks c = Inr c'
     \<and> rw_reads (cc_rwset c') = rw_reads (cc_rwset c) @ map (snapshot_read L d ''test_table'') ks
     \<and> rw_writes (cc_rwset c') = rw_writes (cc_rwset c)"
proof (induction ks arbitrary: c)
  case (Cons k ks)
  let ?c1 = "c\<lparr>cc_helper := (cc_helper c)\<lparr>hp_rwset := add_reads (snapshot_read L d ''test_table'' k) (cc_rwset c)\<rparr>\<rparr>"
  obtain c' where "cc_reads L d ks ?c1 = Inr c'"
    "rw_reads (cc_rwset c') = rw_reads (cc_rwset ?c1) @ map (snapshot_read L d ''test_table'') ks"
    "rw_writes (cc_rwset c') = rw_writes (cc_rwset ?c1)"
    using Cons.IH [of ?c1] by blast
  then show ?case by (intro exI [of _ c']) (simp add: cc_read_eq, simp add: cc_rwset_def)
qed auto

lemma a_string_field: "\<exists>v s. a_string ycsb_field_size ycsb_field_size seed = Inr (v, s) \<and> length v = 10"
proof -
  have "alpha \<noteq> []" "length alpha < 2 ^ 64" by (simp_all add: alpha_def)
  from rand_str_ok [OF this, of 10 seed] show ?thesis
    by (auto simp: a_string_def uniform_dist_def ycsb_field_size_def)
qed

lemma cc_random_insert_eq:
  obtains v s where "\<And>c. cc_seed c = seed \<Longrightarrow> cc_random_insert key c = Inr (cc_insert key v (c\<lparr>cc_seed := s\<rparr>))"
    and "length v = 10"
proof -
  obtain v s where "a_string ycsb_field_size ycsb_field_size seed = Inr (v, s)" "length v = 10"
    using a_string_field by blast
  then show ?thesis by (intro that [of v s]) (auto simp: cc_random_insert_def)
qed

lemma cc_updates_spec:
  "\<exists>c'. cc_updates ks c = Inr c'
     \<and> rw_reads (cc_rwset c') = rw_reads (cc_rwset c)
     \<and> (\<exists>vs. length vs = length ks \<and> (\<forall>v \<in> set vs. length v = 10)
         \<and> rw_writes (cc_rwset c') = rw_writes (cc_rwset c) @ map2 put_of ks vs)"
proof (induction ks arbitrary: c)
  case (Cons k ks)
  obtain v s where v: "cc_random_insert k c = Inr (cc_insert k v (c\<lparr>cc_seed := s\<rparr>))" "length v = 10"
    by (rule cc_random_insert_eq [of "cc_seed c" k]) auto
  let ?c1 = "cc_insert k v (c\<lparr>cc_seed := s\<rparr>)"
  obtain c' vs where c': "cc_updates ks ?c1 = Inr c'" "rw_reads (cc_rwset c') = rw_reads (cc_rwset ?c1)"
    "length vs = length ks" "\<forall>v \<in> set vs. length v = 10"
    "rw_writes (cc_rwset c') = rw_writes (cc_rwset ?c1) @ map2 put_of ks vs"
    using Cons.IH [of ?c1] by blast
  show ?case
    using v c' by (intro exI [of _ c'] conjI exI [of _ "v # vs"]) (auto simp: cc_insert_eq cc_rwset_def)
qed auto

section \<open>Independence of the store\<close>

text \<open>Two objects that agree on everything but the values read.\<close>

definition same_shape :: "chaincode \<Rightarrow> chaincode \<Rightarrow> bool" where
  "same_shape c c' \<longleftrightarrow> cc_seed c = cc_seed c' \<and> hp_tables (cc_helper c) = hp_tables (cc_helper c')
     \<and> hp_tid (cc_helper c) = hp_tid (cc_helper c')
     \<and> rw_writes (cc_rwset c) = rw_writes (cc_rwset c') \<and> read_cells (cc_rwset c) = read_cells (cc_rwset c')"

definition same_outcome :: "(bool \<times> chaincode) res \<Rightarrow> (bool \<times> chaincode) res \<Rightarrow> bool" where
  "same_outcome r r' \<longleftrightarrow> (\<exists>b c c'. r = Inr (b, c) \<and> r' = Inr (b, c') \<and> same_shape c c')"

lemma same_shape_refl: "same_shape c c"
  by (simp add: same_shape_def)

lemma cc_read_shape:
  assumes "same_shape c c'"
  obtains c1 c1' where "cc_read L d k c = Inr c1" "cc_read L d' k c' = Inr c1'" "same_shape c1 c1'"
  using assms that
  by (auto simp: cc_read_eq same_shape_def cc_rwset_def read_cells_def snapshot_read_def)

lemma cc_insert_shape: "same_shape c c' \<Longrightarrow> same_shape (cc_insert k v c) (cc_insert k v c')"
  by (simp add: same_shape_def cc_insert_eq cc_rwset_def read_cells_def)

lemma cc_random_insert_shape:
  assumes "same_shape c c'"
  obtains c1 c1' where "cc_random_insert k c = Inr c1" "cc_random_insert k c' = Inr c1'" "same_shape c1 c1'"
proof -
  obtain v s where v: "\<And>c0. cc_seed c0 = cc_seed c \<Longrightarrow> cc_random_insert k c0 = Inr (cc_insert k v (c0\<lparr>cc_seed := s\<rparr>))"
    by (rule cc_random_insert_eq [of "cc_seed c" k]) blast
  have "same_shape (c\<lparr>cc_seed := s\<rparr>) (c'\<lparr>cc_seed := s\<rparr>)"
    using assms by (simp add: same_shape_def cc_rwset_def)
  then show ?thesis using that v [of c] v [of c'] assms cc_insert_shape by (simp add: same_shape_def)
qed

lemma cc_reads_shape:
  assumes "same_shape c c'"
  shows "\<exists>c1 c1'. cc_reads L d ks c = Inr c1 \<and> cc_reads L d' ks c' = Inr c1' \<and> same_shape c1 c1'"
  using assms
proof (induction ks arbitrary: c c')
  case (Cons k ks)
  obtain c1 c1' where "cc_read L d k c = Inr c1" "cc_read L d' k c' = Inr c1'" "same_shape c1 c1'"
    using cc_read_shape [OF Cons.prems] .
  then show ?case using Cons.IH by simp
qed auto

lemma cc_updates_total: "\<exists>c1. cc_updates ks c = Inr c1"
  using cc_updates_spec [of ks c] by blast

lemma invoke_same_outcome:
  "same_outcome (invokeChaincode L P d name (a # args) c) (invokeChaincode L P d' name (a # args) c)"
proof -
  consider "name = ''correct_test''" | "name = ''crdt_gcounter''" | "name = ''mixed''"
    | "name \<noteq> ''correct_test''" "name \<noteq> ''crdt_gcounter''" "name \<noteq> ''mixed''" by blast
  then show ?thesis
  proof cases
    case 1
    obtain c1 c1' where r: "cc_read L d a c = Inr c1" "cc_read L d' a c = Inr c1'" "same_shape c1 c1'"
      using cc_read_shape [OF same_shape_refl] .
    obtain c2 c2' where "cc_random_insert a c1 = Inr c2" "cc_random_insert a c1' = Inr c2'" "same_shape c2 c2'"
      using cc_random_insert_shape [OF r(3)] .
    then show ?thesis using r 1 by (auto simp: invokeChaincode_def arg0_def same_outcome_def)
  next
    case 2
    let ?k = "gc_key (cp_gcounter P a)"
    obtain c1 c1' where r: "cc_read L d ?k c = Inr c1" "cc_read L d' ?k c = Inr c1'" "same_shape c1 c1'"
      using cc_read_shape [OF same_shape_refl] .
    then show ?thesis using 2 cc_insert_shape [OF r(3)]
      by (auto simp: invokeChaincode_def arg0_def same_outcome_def Let_def)
  next
    case 3
    obtain c1 where u: "cc_updates (yc_update (cp_ycsb P a)) c = Inr c1" using cc_updates_total by blast
    obtain c2 c2' where "cc_reads L d (yc_reads (cp_ycsb P a)) c1 = Inr c2"
      "cc_reads L d' (yc_reads (cp_ycsb P a)) c1 = Inr c2'" "same_shape c2 c2'"
      using cc_reads_shape [OF same_shape_refl [of c1], of L d "yc_reads (cp_ycsb P a)" d'] by blast
    then show ?thesis using u 3 by (auto simp: invokeChaincode_def arg0_def same_outcome_def Let_def)
  next
    case 4
    have e: "invokeChaincode L P d' name (a # args) c = invokeChaincode L P d name (a # args) c"
      using 4 by (simp add: invokeChaincode_def)
    have "\<exists>x. invokeChaincode L P d name (a # args) c = Inr x"
    proof -
      have "Ex Not" by blast
      then show ?thesis using 4 by (simp add: invokeChaincode_def)
    qed
    then show ?thesis unfolding e by (fastforce simp: same_outcome_def same_shape_refl)
  qed
qed

section \<open>Properties\<close>

text \<open>
  Every chaincode ends and writes blindly: whatever the store holds, an invocation with one
  argument returns (no branch fails or loops), with the same answer, the same writes (keys and
  values), the same tables and the same keys read. Only the values recorded in the read set
  depend on the store, so replicas that disagree on it still build the same reservations.
\<close>

theorem chaincode_store_independent:
  "\<exists>b c1 c2. invokeChaincode L P d name (a # args) c = Inr (b, c1)
     \<and> invokeChaincode L P d' name (a # args) c = Inr (b, c2)
     \<and> rw_writes (cc_rwset c1) = rw_writes (cc_rwset c2) \<and> read_cells (cc_rwset c1) = read_cells (cc_rwset c2)
     \<and> hp_tables (cc_helper c1) = hp_tables (cc_helper c2)"
  using invoke_same_outcome [of L P d name a args c d'] by (auto simp: same_outcome_def same_shape_def)

text \<open>
  The counter chaincode on a fresh transaction succeeds and leaves exactly the read-write
  set that the CRDT merge expects: one read of the key with its snapshot value, one write of
  the decimal increment.
\<close>

theorem gcounter_chaincode_rwset:
  assumes "\<forall>k. ldb_Get L d k = map_option (\<lambda>n. to_string (int n)) (base k)"
  shows "\<exists>c c'. new_chaincode tid rwset_empty = Inr c
    \<and> invokeChaincode L P d ''crdt_gcounter'' [a] c = Inr (True, c')
    \<and> cc_rwset c' = gcounter_rwset base (gc_key (cp_gcounter P a), unat (gc_value (cp_gcounter P a)))"
  using assms
  by (simp add: new_chaincode_def new_helper_def invokeChaincode_def arg0_def cc_read_eq cc_insert_eq
      cc_rwset_def gcounter_rwset_def snapshot_read_def selectDB_def put_of_def add_reads_def add_writes_def
      rwset_empty_def Let_def option.map_comp split: option.split)

definition sample_parsers :: cc_parsers where
  "sample_parsers = \<lparr>cp_gcounter = (\<lambda>s. \<lparr>gc_key = s, gc_value = 7\<rparr>),
     cp_ycsb = (\<lambda>s. \<lparr>yc_reads = [s], yc_update = [s, s]\<rparr>)\<rparr>"

lemma gcounter_chaincode_rwset_witness:
  "\<exists>c c'. new_chaincode 3 rwset_empty = Inr c
    \<and> invokeChaincode map_db sample_parsers Map.empty ''crdt_gcounter'' [''lhx''] c = Inr (True, c')
    \<and> cc_rwset c' = gcounter_rwset Map.empty (''lhx'', 7)"
  using gcounter_chaincode_rwset [of map_db Map.empty Map.empty 3 sample_parsers "''lhx''"]
  by (simp add: map_db_def sample_parsers_def)

text \<open>
  The \<open>mixed\<close> chaincode succeeds and records its workload faithfully: one write per
  updated key, in order, each with a value of ten characters, and one read per read key, in
  order, with the value of the snapshot.
\<close>

theorem mixed_chaincode_rwset:
  assumes "rw_reads (cc_rwset c) = []" "rw_writes (cc_rwset c) = []"
  shows "\<exists>c' vs. invokeChaincode L P d ''mixed'' [a] c = Inr (True, c')
    \<and> length vs = length (yc_update (cp_ycsb P a)) \<and> (\<forall>v \<in> set vs. length v = 10)
    \<and> rw_writes (cc_rwset c') = map2 put_of (yc_update (cp_ycsb P a)) vs
    \<and> rw_reads (cc_rwset c') = map (snapshot_read L d ''test_table'') (yc_reads (cp_ycsb P a))"
proof -
  obtain c1 vs where u: "cc_updates (yc_update (cp_ycsb P a)) c = Inr c1"
    "rw_reads (cc_rwset c1) = []" "length vs = length (yc_update (cp_ycsb P a))" "\<forall>v \<in> set vs. length v = 10"
    "rw_writes (cc_rwset c1) = map2 put_of (yc_update (cp_ycsb P a)) vs"
    using cc_updates_spec [of "yc_update (cp_ycsb P a)" c] assms by auto
  obtain c2 where "cc_reads L d (yc_reads (cp_ycsb P a)) c1 = Inr c2"
    "rw_reads (cc_rwset c2) = rw_reads (cc_rwset c1) @ map (snapshot_read L d ''test_table'') (yc_reads (cp_ycsb P a))"
    "rw_writes (cc_rwset c2) = rw_writes (cc_rwset c1)"
    using cc_reads_spec [of L d "yc_reads (cp_ycsb P a)" c1] by blast
  then show ?thesis using u
    by (intro exI [of _ c2] exI [of _ vs]) (simp add: invokeChaincode_def arg0_def Let_def)
qed

lemma mixed_chaincode_rwset_witness:
  "\<exists>c c'. new_chaincode 3 rwset_empty = Inr c
    \<and> invokeChaincode map_db sample_parsers [''k'' \<mapsto> ''v''] ''mixed'' [''k''] c = Inr (True, c')
    \<and> map rd_value (rw_reads (cc_rwset c')) = [''v''] \<and> map wr_key (rw_writes (cc_rwset c')) = [''k'', ''k'']"
proof -
  have wl: "yc_update (cp_ycsb sample_parsers ''k'') = [''k'', ''k'']" "yc_reads (cp_ycsb sample_parsers ''k'') = [''k'']"
    by (simp_all add: sample_parsers_def)
  obtain c where c: "new_chaincode 3 rwset_empty = Inr c" "rw_reads (cc_rwset c) = []" "rw_writes (cc_rwset c) = []"
    by (simp add: new_chaincode_def new_helper_def cc_rwset_def)
  obtain c' vs where "invokeChaincode map_db sample_parsers [''k'' \<mapsto> ''v''] ''mixed'' [''k''] c = Inr (True, c')"
    "length vs = length [''k'', ''k'']" "rw_writes (cc_rwset c') = map2 put_of [''k'', ''k''] vs"
    "rw_reads (cc_rwset c') = map (snapshot_read map_db [''k'' \<mapsto> ''v''] ''test_table'') [''k'']"
    using mixed_chaincode_rwset [OF c(2,3), of map_db sample_parsers "[''k'' \<mapsto> ''v'']" "''k''", unfolded wl]
    by blast
  then show ?thesis using c(1)
    by (auto simp: snapshot_read_def selectDB_def map_db_def put_of_def length_Suc_conv)
qed

end
