(* ===== verification/Executor.thy ===== *)
theory Executor
  imports Chaincode
begin

text \<open>
  \<open>TransactionExecutorImpl\<close>: \<open>executeList\<close> runs the chaincodes of a workload on the store and
  reserves their read-write sets, \<open>commitList\<close> analyses the dependencies and commits or aborts.
  The world holds what a worker shares with the others: the transactions, the database and the
  reserve table provider. The executor keeps a raw pointer to the table of the epoch it last
  used; the provider frees a table when another epoch asks for one, so a pointer is the epoch
  it was handed out for, and using it after that is \<open>Undefined\<close>.
\<close>

section \<open>State and operations\<close>

record 'd world =
  w_trs :: tstore
  w_db :: "'d database"
  w_rt :: rt_provider

record 'd exec_env =
  ev_hash :: "string \<Rightarrow> nat"
  ev_uhash :: u32hash
  ev_weak :: "bool list"
  ev_ldb :: "'d leveldb"
  ev_parsers :: cc_parsers

type_synonym rt_ptr = "u32 option"

definition deref_table :: "rt_ptr \<Rightarrow> rt_provider \<Rightarrow> reserve_table res" where
  "deref_table p rp = (case p of None \<Rightarrow> Inl NullDeref
     | Some e \<Rightarrow> (case rp of None \<Rightarrow> Inl Undefined
         | Some rt \<Rightarrow> if rt_epoch rt = e then Inr rt else Inl Undefined))"

text \<open>The body of the loop of \<open>executeList\<close>; the buffering is the destructor of the chaincode.\<close>

definition execute_one :: "'d exec_env \<Rightarrow> tptr \<Rightarrow> rt_ptr \<times> 'd world \<Rightarrow> (rt_ptr \<times> 'd world) res" where
  "execute_one ev p x = (let (rp, w) = x in
     bind_res (tget (w_trs w) (Some p)) (\<lambda>t.
     let args = [pl_payload (getTransactionPayload t)] in
     bind_res (new_chaincode (getTransactionID t) (getRWSet t)) (\<lambda>c0.
     bind_res (invokeChaincode (ev_ldb ev) (ev_parsers ev) (db_store (w_db w))
                (pl_header (getTransactionPayload t)) args c0) (\<lambda>(ok, c).
     let s = cc_rwset c;
         w1 = w\<lparr>w_trs := tupd (tr_rwset_update (\<lambda>_. s)) p (w_trs w)\<rparr>;
         (rp2, w2) =
           (if \<not> ok then (rp, w1\<lparr>w_trs := tupd (setTransactionResult ABORT_NO_RETRY) p (w_trs w1)\<rparr>)
            else let prov = getReserveTable (getEpoch t) (w_rt w1);
                     prov1 = map_option (\<lambda>rt. snd (reserveRWset (ev_hash ev) (ev_weak ev) s (getTransactionID t) rt)) prov
                 in (Some (getEpoch t), w1\<lparr>w_rt := prov1\<rparr>))
     in Inr (rp2, w2\<lparr>w_db := snd (helper_execute (ev_uhash ev) p (cc_helper c) (w_db w2))\<rparr>)))))"

fun executeList :: "'d exec_env \<Rightarrow> tptr list \<Rightarrow> rt_ptr \<times> 'd world \<Rightarrow> (rt_ptr \<times> 'd world) res" where
  "executeList ev [] x = Inr x"
| "executeList ev (p # ps) x = bind_res (execute_one ev p x) (executeList ev ps)"

text \<open>The body of the loop of \<open>commitList\<close>.\<close>

definition set_result :: "tr_result \<Rightarrow> tptr \<Rightarrow> 'd world \<Rightarrow> 'd world" where
  "set_result r p w = w\<lparr>w_trs := tupd (setTransactionResult r) p (w_trs w)\<rparr>"

definition commit_one :: "'d exec_env \<Rightarrow> rt_ptr \<Rightarrow> tptr \<Rightarrow> 'd world \<Rightarrow> 'd world res" where
  "commit_one ev rp p w =
     bind_res (tget (w_trs w) (Some p)) (\<lambda>t.
     if getTransactionResult t = ABORT_NO_RETRY
     then Inr (w\<lparr>w_db := snd (abortUpdate (getTransactionID t) (w_db w))\<rparr>)
     else
       bind_res (deref_table rp (w_rt w)) (\<lambda>rt.
       let (dep, rt1) = dependencyAnalysis (ev_hash ev) (getRWSet t) (getTransactionID t) rt;
           w1 = w\<lparr>w_rt := Some rt1\<rparr>
       in if dep_waw dep then Inr (set_result ABORT p w1)
          else if \<not> dep_war dep \<or> \<not> dep_raw dep then
            bind_res (commitUpdate (ev_uhash ev) (ev_ldb ev) (w_trs w1) (getTransactionID t) (w_db w1)) (\<lambda>(ok, db).
              let w2 = w1\<lparr>w_db := db\<rparr>
              in if ok then Inr (set_result COMMIT p w2) else Inr (set_result ABORT_NO_RETRY p w2))
          else Inr (set_result ABORT p (w1\<lparr>w_db := snd (abortUpdate (getTransactionID t) (w_db w1))\<rparr>))))"

fun commitList :: "'d exec_env \<Rightarrow> rt_ptr \<Rightarrow> tptr list \<Rightarrow> 'd world \<Rightarrow> 'd world res" where
  "commitList ev rp [] w = Inr w"
| "commitList ev rp (p # ps) w = bind_res (commit_one ev rp p w) (commitList ev rp ps)"

section \<open>The read phase\<close>

text \<open>What the chaincode of a fresh transaction answers and leaves, on a store \<open>d\<close>.\<close>

definition cc_outcome :: "'d exec_env \<Rightarrow> 'd \<Rightarrow> transaction \<Rightarrow> bool \<times> kv_rwset" where
  "cc_outcome ev d t =
     (case bind_res (new_chaincode (tr_tid t) rwset_empty)
        (invokeChaincode (ev_ldb ev) (ev_parsers ev) d (pl_header (tr_payload t)) [pl_payload (tr_payload t)]) of
        Inl e \<Rightarrow> (False, rwset_empty) | Inr (b, c) \<Rightarrow> (b, cc_rwset c))"

definition after_read :: "'d exec_env \<Rightarrow> 'd \<Rightarrow> transaction \<Rightarrow> transaction" where
  "after_read ev d t =
     (let (ok, s) = cc_outcome ev d t
      in t\<lparr>tr_rwset := s, tr_res := (if ok then tr_res t else ABORT_NO_RETRY)\<rparr>)"

text \<open>The transactions of a workload whose chaincode succeeded, as a batch of reservations.\<close>

definition ok_batch :: "'d exec_env \<Rightarrow> 'd \<Rightarrow> tstore \<Rightarrow> tptr list \<Rightarrow> batch" where
  "ok_batch ev d st ps =
     map (\<lambda>p. (tr_tid (the (st p)), snd (cc_outcome ev d (the (st p)))))
       (filter (\<lambda>p. fst (cc_outcome ev d (the (st p)))) ps)"

text \<open>The world the coordinator hands to the workers at the start of an epoch.\<close>

definition fresh_workload :: "u32 \<Rightarrow> tstore \<Rightarrow> tptr list \<Rightarrow> bool" where
  "fresh_workload e st ps \<longleftrightarrow> distinct ps
     \<and> (\<forall>p \<in> set ps. \<exists>t. st p = Some t \<and> tr_epoch t = e \<and> tr_rwset t = rwset_empty \<and> tr_res t = PENDING \<and> tr_tid t \<noteq> 0)
     \<and> distinct (map (\<lambda>p. tr_tid (the (st p))) ps)"

lemma new_chaincode_fresh: "\<exists>c. new_chaincode tid rwset_empty = Inr c \<and> hp_tid (cc_helper c) = tid"
  by (simp add: new_chaincode_def new_helper_def)

lemma cc_outcome_invoke:
  assumes "new_chaincode (tr_tid t) rwset_empty = Inr c0"
  obtains c where "invokeChaincode (ev_ldb ev) (ev_parsers ev) d (pl_header (tr_payload t)) [pl_payload (tr_payload t)] c0 =
      Inr (fst (cc_outcome ev d t), c)" "cc_rwset c = snd (cc_outcome ev d t)"
  using invoke_same_outcome [of "ev_ldb ev" "ev_parsers ev" d "pl_header (tr_payload t)" "pl_payload (tr_payload t)" "[]" c0 d]
    assms that by (auto simp: same_outcome_def cc_outcome_def)

text \<open>No chaincode changes the id under which its helper buffers.\<close>

lemma cc_random_insert_tid:
  "cc_random_insert k c = Inr c' \<Longrightarrow> hp_tid (cc_helper c') = hp_tid (cc_helper c)"
  by (auto simp: cc_random_insert_def bind_res_Inr_iff cc_insert_eq)

lemma cc_updates_tid: "cc_updates ks c = Inr c' \<Longrightarrow> hp_tid (cc_helper c') = hp_tid (cc_helper c)"
  by (induction ks arbitrary: c) (auto simp: bind_res_Inr_iff cc_random_insert_tid)

lemma cc_reads_tid: "cc_reads L d ks c = Inr c' \<Longrightarrow> hp_tid (cc_helper c') = hp_tid (cc_helper c)"
proof (induction ks arbitrary: c)
  case (Cons k ks)
  show ?case using Cons.prems by (simp add: cc_read_eq) (drule Cons.IH, simp)
qed simp

lemma cc_set_tid: "hp_tid (cc_helper (snd (cc_set a v ic))) = hp_tid (cc_helper (snd ic))"
  by (simp add: cc_set_def insert_set_def)

lemma initFunc_tid: "hp_tid (cc_helper (snd (initFunc c))) = hp_tid (cc_helper c)"
  by (simp add: initFunc_def case_prod_unfold Let_def helper_addField_def helper_createTable_def)

lemma createData_tid: "hp_tid (cc_helper (snd (createData c))) = hp_tid (cc_helper c)"
  by (simp add: createData_def Let_def cc_set_tid)

lemma invoke_tid:
  assumes "invokeChaincode L P d name args c = Inr (b, c')"
  shows "hp_tid (cc_helper c') = hp_tid (cc_helper c)"
proof -
  consider "name = ''correct_test''" | "name = ''crdt_gcounter''" | "name = ''mixed''"
    | "name \<noteq> ''correct_test''" "name \<noteq> ''crdt_gcounter''" "name \<noteq> ''mixed''" by blast
  then show ?thesis
  proof cases
    case 1
    then show ?thesis using assms
      by (auto simp: invokeChaincode_def bind_res_Inr_iff cc_read_eq dest!: cc_random_insert_tid)
  next
    case 2
    then show ?thesis using assms
      by (auto simp: invokeChaincode_def bind_res_Inr_iff cc_read_eq cc_insert_eq Let_def)
  next
    case 3
    then show ?thesis using assms
      by (auto simp: invokeChaincode_def bind_res_Inr_iff Let_def dest!: cc_updates_tid cc_reads_tid)
  next
    case 4
    then show ?thesis using assms initFunc_tid [of c] createData_tid [of c]
      by (simp add: invokeChaincode_def split: if_splits)
  qed
qed

text \<open>One round of \<open>executeList\<close> on a fresh transaction.\<close>

definition reserve_in :: "'d exec_env \<Rightarrow> u32 \<Rightarrow> u32 \<Rightarrow> kv_rwset \<Rightarrow> rt_provider \<Rightarrow> rt_provider" where
  "reserve_in ev e tid s rp = map_option (\<lambda>rt. snd (reserveRWset (ev_hash ev) (ev_weak ev) s tid rt)) (getReserveTable e rp)"

lemma execute_one_fresh:
  fixes ev :: "'d exec_env"
  assumes "w_trs w p = Some t" "tr_rwset t = rwset_empty"
  defines "out \<equiv> cc_outcome ev (db_store (w_db w)) t"
  shows "\<exists>tabs. execute_one ev p (rp, w) = Inr (if fst out then Some (tr_epoch t) else rp,
      \<lparr>w_trs = (w_trs w)(p \<mapsto> after_read ev (db_store (w_db w)) t),
       w_db = snd (bufferUpdates (ev_uhash ev) (tr_tid t) (Some p) tabs (w_db w)),
       w_rt = (if fst out then reserve_in ev (tr_epoch t) (tr_tid t) (snd out) (w_rt w) else w_rt w)\<rparr>)"
proof -
  let ?d = "db_store (w_db w)"
  obtain c0 where c0: "new_chaincode (tr_tid t) rwset_empty = Inr c0" "hp_tid (cc_helper c0) = tr_tid t"
    using new_chaincode_fresh by blast
  obtain c where c: "invokeChaincode (ev_ldb ev) (ev_parsers ev) ?d (pl_header (tr_payload t)) [pl_payload (tr_payload t)] c0
      = Inr (fst out, c)" "cc_rwset c = snd out"
    using cc_outcome_invoke [OF c0(1), of ev ?d] unfolding out_def .
  have tid: "hp_tid (cc_helper c) = tr_tid t" using invoke_tid [OF c(1)] c0(2) by simp
  have out: "cc_outcome ev ?d t = (fst out, snd out)" by (simp add: out_def)
  have u: "tupd f p (w_trs w) = (w_trs w)(p \<mapsto> f t)" for f
    using assms(1) by (simp add: tupd_def)
  have u2: "tupd f p ((w_trs w)(p \<mapsto> t')) = (w_trs w)(p \<mapsto> f t')" for f t'
    by (simp add: tupd_def)
  have g: "tget (w_trs w) (Some p) = Inr t" using assms(1) by simp
  note defs = Let_def getTransactionPayload_def getTransactionID_def getRWSet_def
    getEpoch_def setTransactionResult_def helper_execute_def reserve_in_def
  show ?thesis
  proof (intro exI [of _ "hp_tables (cc_helper c)"], cases "fst out")
    case True
    then show "execute_one ev p (rp, w) = Inr (if fst out then Some (tr_epoch t) else rp,
      \<lparr>w_trs = (w_trs w)(p \<mapsto> after_read ev (db_store (w_db w)) t),
       w_db = snd (bufferUpdates (ev_uhash ev) (tr_tid t) (Some p) (hp_tables (cc_helper c)) (w_db w)),
       w_rt = (if fst out then reserve_in ev (tr_epoch t) (tr_tid t) (snd out) (w_rt w) else w_rt w)\<rparr>)"
      by (simp add: execute_one_def g defs c0(1) assms(2) c tid u after_read_def out del: tget_Some)
  next
    case False
    then show "execute_one ev p (rp, w) = Inr (if fst out then Some (tr_epoch t) else rp,
      \<lparr>w_trs = (w_trs w)(p \<mapsto> after_read ev (db_store (w_db w)) t),
       w_db = snd (bufferUpdates (ev_uhash ev) (tr_tid t) (Some p) (hp_tables (cc_helper c)) (w_db w)),
       w_rt = (if fst out then reserve_in ev (tr_epoch t) (tr_tid t) (snd out) (w_rt w) else w_rt w)\<rparr>)"
      by (simp add: execute_one_def g defs c0(1) assms(2) c tid u u2 after_read_def out del: tget_Some)
  qed
qed

text \<open>The whole read phase of a workload.\<close>

lemma reserve_batch_epoch: "rt_epoch (reserve_batch h ws b rt) = rt_epoch rt"
  by (induction b arbitrary: rt) (simp_all add: reserveRWset_def Let_def)

lemma getReserveTable_same: "rt_epoch rt = e \<Longrightarrow> getReserveTable e (Some rt) = Some rt"
  by (simp add: getReserveTable_def getHashMapReserveTable_def)

definition after_reads :: "'d exec_env \<Rightarrow> 'd \<Rightarrow> tptr set \<Rightarrow> tstore \<Rightarrow> tstore" where
  "after_reads ev d S st = (\<lambda>p. if p \<in> S then map_option (after_read ev d) (st p) else st p)"

definition reads_done :: "'d exec_env \<Rightarrow> u32 \<Rightarrow> tptr list \<Rightarrow> rt_ptr \<times> 'd world \<Rightarrow> rt_ptr \<times> 'd world \<Rightarrow> bool" where
  "reads_done ev e ps x x' \<longleftrightarrow> (let w = snd x; w' = snd x'; d = db_store (w_db w); b = ok_batch ev d (w_trs w) ps in
     w_trs w' = after_reads ev d (set ps) (w_trs w)
     \<and> db_inv (ev_uhash ev) (w_db w') \<and> db_store (w_db w') = d
     \<and> (ps \<noteq> [] \<longrightarrow> \<not> db_commitPhase (w_db w'))
     \<and> (\<forall>p \<in> set ps. buffered (ev_uhash ev) (w_db w') (tr_tid (the (w_trs w p))) = Some (Some p))
     \<and> (if b = [] then fst x' = fst x \<and> w_rt w' = w_rt w
        else fst x' = Some e \<and> w_rt w' =
          Some (reserve_batch (ev_hash ev) (ev_weak ev) b (the (getReserveTable e (w_rt w))))))"

lemma executeList_append:
  "executeList ev (ps @ qs) x = bind_res (executeList ev ps x) (executeList ev qs)"
  by (induction ps arbitrary: x) (auto simp: bind_res_def split: sum.splits)

lemma fresh_workload_snoc:
  assumes "fresh_workload e st (ps @ [p])"
  obtains t where "fresh_workload e st ps" "p \<notin> set ps" "st p = Some t" "tr_epoch t = e"
    "tr_rwset t = rwset_empty" "\<forall>q \<in> set ps. tr_tid (the (st q)) \<noteq> tr_tid t"
  using assms that by (auto simp: fresh_workload_def) (metis imageI)

lemma ok_batch_snoc: "ok_batch ev d st (ps @ [p]) = ok_batch ev d st ps @
    (if fst (cc_outcome ev d (the (st p))) then [(tr_tid (the (st p)), snd (cc_outcome ev d (the (st p))))] else [])"
  by (simp add: ok_batch_def)

lemma executeList_reads:
  assumes "fresh_workload e (w_trs w) ps" "db_inv (ev_uhash ev) (w_db w)"
  shows "\<exists>x'. executeList ev ps (rp, w) = Inr x' \<and> reads_done ev e ps (rp, w) x'"
  using assms(1)
proof (induction ps rule: rev_induct)
  case Nil
  show ?case using assms(2)
    by (simp add: reads_done_def ok_batch_def after_reads_def)
next
  case (snoc p ps)
  obtain t where t: "fresh_workload e (w_trs w) ps" "p \<notin> set ps" "w_trs w p = Some t" "tr_epoch t = e"
    "tr_rwset t = rwset_empty" "\<forall>q \<in> set ps. tr_tid (the (w_trs w q)) \<noteq> tr_tid t"
    by (rule fresh_workload_snoc [OF snoc.prems])
  let ?d = "db_store (w_db w)"
  let ?b = "ok_batch ev ?d (w_trs w) ps"
  obtain rp1 w1 where x: "executeList ev ps (rp, w) = Inr (rp1, w1)" and r: "reads_done ev e ps (rp, w) (rp1, w1)"
    using snoc.IH [OF t(1)] by auto
  have st1: "w_trs w1 = after_reads ev ?d (set ps) (w_trs w)" and i1: "db_inv (ev_uhash ev) (w_db w1)"
    and d1: "db_store (w_db w1) = ?d" and ph: "ps \<noteq> [] \<longrightarrow> \<not> db_commitPhase (w_db w1)"
    and bf: "\<forall>q \<in> set ps. buffered (ev_uhash ev) (w_db w1) (tr_tid (the (w_trs w q))) = Some (Some q)"
    and rt: "if ?b = [] then rp1 = rp \<and> w_rt w1 = w_rt w
        else rp1 = Some e \<and> w_rt w1 = Some (reserve_batch (ev_hash ev) (ev_weak ev) ?b (the (getReserveTable e (w_rt w))))"
    using r unfolding reads_done_def Let_def fst_conv snd_conv by blast+
  have p1: "w_trs w1 p = Some t" using st1 t(2,3) by (simp add: after_reads_def)
  let ?out = "cc_outcome ev ?d t"
  obtain tabs where step: "execute_one ev p (rp1, w1) = Inr (if fst ?out then Some e else rp1,
      \<lparr>w_trs = (w_trs w1)(p \<mapsto> after_read ev ?d t),
       w_db = snd (bufferUpdates (ev_uhash ev) (tr_tid t) (Some p) tabs (w_db w1)),
       w_rt = (if fst ?out then reserve_in ev e (tr_tid t) (snd ?out) (w_rt w1) else w_rt w1)\<rparr>)"
    using execute_one_fresh [where w = w1 and p = p and t = t and ev = ev and rp = rp1] p1 t(4,5) d1 by auto
  let ?db = "snd (bufferUpdates (ev_uhash ev) (tr_tid t) (Some p) tabs (w_db w1))"
  note bu = bufferUpdates_spec [OF i1, of "tr_tid t" "Some p" tabs]
  obtain base where base: "getReserveTable e (w_rt w) = Some base" "rt_epoch base = e"
    using getReserveTable_epoch by blast
  have rt': "reserve_in ev e (tr_tid t) s (w_rt w1) =
      Some (reserve_batch (ev_hash ev) (ev_weak ev) (?b @ [(tr_tid t, s)]) base)" for s
    using rt base by (cases "?b = []")
      (simp_all add: reserve_in_def reserve_batch_append getReserveTable_same reserve_batch_epoch)
  have s2: "(w_trs w1)(p \<mapsto> after_read ev ?d t) = after_reads ev ?d (set (ps @ [p])) (w_trs w)"
    using st1 t(3) by (auto simp: after_reads_def)
  have b2: "buffered (ev_uhash ev) ?db (tr_tid (the (w_trs w q))) = Some (Some q)" if "q \<in> set (ps @ [p])" for q
    using that bu(6) bf t ph by auto
  have d2: "db_store ?db = ?d" using bu(4) d1 by simp
  have b3: "buffered (ev_uhash ev) ?db (tr_tid t) = Some (Some p)" using bu(6) by simp
  show ?case
    using rt rt' s2 b2 b3 bu(2,3) d2 base
    by (simp add: executeList_append x step reads_done_def Let_def ok_batch_snoc t(3))
qed

section \<open>The commit phase\<close>

text \<open>The verdict on a transaction as it is after the read phase, the whole epoch being \<open>b\<close>.\<close>

definition final_result :: "'d exec_env \<Rightarrow> u32 \<Rightarrow> batch \<Rightarrow> transaction \<Rightarrow> tr_result" where
  "final_result ev e b t =
     (if tr_res t = ABORT_NO_RETRY then ABORT_NO_RETRY
      else if may_commit (verdict (ev_hash ev) (ev_weak ev) e b (tr_tid t, tr_rwset t)) then COMMIT else ABORT)"

definition table_ok :: "'d exec_env \<Rightarrow> u32 \<Rightarrow> batch \<Rightarrow> rt_provider \<Rightarrow> bool" where
  "table_ok ev e b rp \<longleftrightarrow> (let full = reserve_batch (ev_hash ev) (ev_weak ev) b (new_reserve_table e) in
     \<exists>rt. rp = Some rt \<and> rt_epoch rt = e \<and> rt_inv (ev_hash ev) rt
       \<and> holder (ev_hash ev) (readTableList rt) = holder (ev_hash ev) (readTableList full)
       \<and> holder (ev_hash ev) (writeTableList rt) = holder (ev_hash ev) (writeTableList full))"

lemma table_ok_full:
  "table_ok ev e b (Some (reserve_batch (ev_hash ev) (ev_weak ev) b (new_reserve_table e)))"
proof -
  have "rt_epoch (new_reserve_table e) = e" by (simp add: new_reserve_table_def)
  then show ?thesis by (simp add: table_ok_def Let_def reserve_batch_epoch reserve_batch_inv rt_inv_new)
qed

lemma analysis_is_verdict:
  assumes "table_ok ev e b (Some rt)"
  shows "fst (dependencyAnalysis (ev_hash ev) s tid rt) = verdict (ev_hash ev) (ev_weak ev) e b (tid, s)"
    and "table_ok ev e b (Some (snd (dependencyAnalysis (ev_hash ev) s tid rt)))"
proof -
  let ?full = "reserve_batch (ev_hash ev) (ev_weak ev) b (new_reserve_table e)"
  have i: "rt_inv (ev_hash ev) rt" "rt_inv (ev_hash ev) ?full"
    and h: "holder (ev_hash ev) (readTableList rt) = holder (ev_hash ev) (readTableList ?full)"
      "holder (ev_hash ev) (writeTableList rt) = holder (ev_hash ev) (writeTableList ?full)"
    using assms by (auto simp: table_ok_def Let_def intro: reserve_batch_inv rt_inv_new)
  note d = dependencyAnalysis_spec [OF i(1), where s = s and tid = tid]
    and d' = dependencyAnalysis_spec [OF i(2), where s = s and tid = tid]
  show "fst (dependencyAnalysis (ev_hash ev) s tid rt) = verdict (ev_hash ev) (ev_weak ev) e b (tid, s)"
    unfolding verdict_def fst_conv snd_conv
    by (rule tr_dependency.equality) (simp_all add: d(1-3) d'(1-3) h)
  show "table_ok ev e b (Some (snd (dependencyAnalysis (ev_hash ev) s tid rt)))"
    using assms d(4-7) by (simp add: table_ok_def Let_def)
qed

definition db_ready :: "'d exec_env \<Rightarrow> tstore \<Rightarrow> tptr list \<Rightarrow> 'd database \<Rightarrow> bool" where
  "db_ready ev st ps db \<longleftrightarrow> db_inv (ev_uhash ev) db \<and> (\<not> db_commitPhase db \<longrightarrow>
     (\<forall>p \<in> set ps. buffered (ev_uhash ev) db (tr_tid (the (st p))) = Some (Some p)))"

text \<open>One round of \<open>commitList\<close>.\<close>

lemma commit_one_spec:
  fixes ev :: "'d exec_env"
  assumes ldb: "leveldb_ok (ev_ldb ev) repr" and t: "w_trs w p = Some t"
    and tab: "tr_res t \<noteq> ABORT_NO_RETRY \<Longrightarrow> rp = Some e \<and> table_ok ev e b (w_rt w)"
    and db: "db_ready ev (w_trs w) [p] (w_db w)"
  defines "r \<equiv> final_result ev e b t"
  shows "\<exists>w'. commit_one ev rp p w = Inr w' \<and> w_trs w' = (w_trs w)(p \<mapsto> t\<lparr>tr_res := r\<rparr>)
    \<and> (table_ok ev e b (w_rt w) \<longrightarrow> table_ok ev e b (w_rt w'))
    \<and> (if r = COMMIT \<and> \<not> db_commitPhase (w_db w)
       then (\<exists>d. w_db w' = (w_db w)\<lparr>db_store := d, db_commitPhase := True\<rparr>
              \<and> repr d = fold write_effect (rw_writes (tr_rwset t)) (repr (db_store (w_db w))))
       else w_db w' = w_db w)"
proof (cases "tr_res t = ABORT_NO_RETRY")
  case True
  have "t\<lparr>tr_res := ABORT_NO_RETRY\<rparr> = t" using True by simp
  then show ?thesis using True t
    by (auto simp: commit_one_def getTransactionResult_def abortUpdate_def r_def final_result_def
        fun_upd_idem_iff)
next
  case False
  obtain rt where rt: "w_rt w = Some rt" "rt_epoch rt = e" "rp = Some e" "table_ok ev e b (Some rt)"
    using tab [OF False] by (auto simp: table_ok_def Let_def)
  define dep where "dep = verdict (ev_hash ev) (ev_weak ev) e b (tr_tid t, tr_rwset t)"
  obtain rt1 where an: "dependencyAnalysis (ev_hash ev) (tr_rwset t) (tr_tid t) rt = (dep, rt1)" "table_ok ev e b (Some rt1)"
    using analysis_is_verdict [OF rt(4), of "tr_rwset t" "tr_tid t"] by (cases "dependencyAnalysis (ev_hash ev) (tr_rwset t) (tr_tid t) rt") (auto simp: dep_def)
  have u: "tupd (setTransactionResult x) p (w_trs w) = (w_trs w)(p \<mapsto> t\<lparr>tr_res := x\<rparr>)" for x
    using t by (simp add: tupd_def setTransactionResult_def)
  have g: "tget (w_trs w) (Some p) = Inr t" using t by simp
  have r: "r = (if may_commit dep then COMMIT else ABORT)" using False by (simp add: r_def final_result_def dep_def)
  note defs = commit_one_def g getTransactionResult_def getRWSet_def getTransactionID_def deref_table_def
    rt(1-3) an(1) Let_def set_result_def u abortUpdate_def False
  show ?thesis
  proof (cases "may_commit dep")
    case no: False
    then have "dep_waw dep \<or> dep_war dep \<and> dep_raw dep" by (auto simp: may_commit_def split: if_splits)
    then show ?thesis using no an(2) by (auto simp: defs r simp del: tget_Some)
  next
    case yes: True
    then have ok: "\<not> dep_waw dep" "\<not> dep_war dep \<or> \<not> dep_raw dep" by (auto simp: may_commit_def split: if_splits)
    obtain db' where db': "commitUpdate (ev_uhash ev) (ev_ldb ev) (w_trs w) (tr_tid t) (w_db w) = Inr (True, db')"
      "if db_commitPhase (w_db w) then db' = w_db w
       else (\<exists>d. db' = (w_db w)\<lparr>db_store := d, db_commitPhase := True\<rparr>
              \<and> repr d = fold write_effect (rw_writes (tr_rwset t)) (repr (db_store (w_db w))))"
    proof (cases "db_commitPhase (w_db w)")
      case ph: True
      then show ?thesis using that commitUpdate_again [OF ph] by auto
    next
      case ph: False
      have "db_inv (ev_uhash ev) (w_db w)" "buffered (ev_uhash ev) (w_db w) (tr_tid t) = Some (Some p)"
        using db ph t by (auto simp: db_ready_def)
      then show ?thesis
        using that ph commitUpdate_first [of "ev_ldb ev" repr "ev_uhash ev" "w_db w" "tr_tid t" p "w_trs w" t] ldb t
        by auto
    qed
    show ?thesis using ok db' yes an(2) by (auto simp: defs r simp del: tget_Some)
  qed
qed

text \<open>
  The whole commit phase. The store receives the writes of the first transaction of the list
  that is let through, and of no other.
\<close>

definition first_commit :: "'d exec_env \<Rightarrow> u32 \<Rightarrow> batch \<Rightarrow> tstore \<Rightarrow> tptr list \<Rightarrow> tptr option" where
  "first_commit ev e b st ps = find (\<lambda>p. final_result ev e b (the (st p)) = COMMIT) ps"

definition one_commit :: "'d exec_env \<Rightarrow> u32 \<Rightarrow> batch \<Rightarrow> tstore \<Rightarrow> tptr list \<Rightarrow> 'd database \<Rightarrow> ('d \<Rightarrow> string \<rightharpoonup> string) \<Rightarrow> 'd database \<Rightarrow> bool" where
  "one_commit ev e b st ps db repr db' \<longleftrightarrow> repr (db_store db') =
     (if db_commitPhase db then repr (db_store db)
      else case first_commit ev e b st ps of None \<Rightarrow> repr (db_store db)
        | Some p \<Rightarrow> fold write_effect (rw_writes (tr_rwset (the (st p)))) (repr (db_store db)))"

lemma commitList_spec:
  fixes ev :: "'d exec_env"
  assumes ldb: "leveldb_ok (ev_ldb ev) repr" and "distinct ps"
    and "\<forall>p \<in> set ps. w_trs w p \<noteq> None"
    and "\<forall>p \<in> set ps. tr_res (the (w_trs w p)) \<noteq> ABORT_NO_RETRY \<longrightarrow> rp = Some e \<and> table_ok ev e b (w_rt w)"
    and "db_ready ev (w_trs w) ps (w_db w)"
  shows "\<exists>w'. commitList ev rp ps w = Inr w'
    \<and> (\<forall>p. w_trs w' p = (if p \<in> set ps
          then Some ((the (w_trs w p))\<lparr>tr_res := final_result ev e b (the (w_trs w p))\<rparr>) else w_trs w p))
    \<and> one_commit ev e b (w_trs w) ps (w_db w) repr (w_db w')"
  using assms(2-5)
proof (induction ps arbitrary: w)
  case Nil
  then show ?case by (simp add: one_commit_def first_commit_def)
next
  case (Cons p ps)
  obtain t where t: "w_trs w p = Some t" using Cons.prems(2) by auto
  have dr: "db_ready ev (w_trs w) [p] (w_db w)" using Cons.prems(4) by (simp add: db_ready_def)
  have tb: "rp = Some e \<and> table_ok ev e b (w_rt w)" if "tr_res t \<noteq> ABORT_NO_RETRY"
    using Cons.prems(3) t that by simp
  let ?r = "final_result ev e b t"
  obtain w1 where w1: "commit_one ev rp p w = Inr w1" "w_trs w1 = (w_trs w)(p \<mapsto> t\<lparr>tr_res := ?r\<rparr>)"
    "table_ok ev e b (w_rt w) \<longrightarrow> table_ok ev e b (w_rt w1)"
    and db1: "if ?r = COMMIT \<and> \<not> db_commitPhase (w_db w)
       then (\<exists>d. w_db w1 = (w_db w)\<lparr>db_store := d, db_commitPhase := True\<rparr>
              \<and> repr d = fold write_effect (rw_writes (tr_rwset t)) (repr (db_store (w_db w))))
       else w_db w1 = w_db w"
    using commit_one_spec [OF ldb t tb dr] by auto
  have same: "w_trs w1 q = w_trs w q" if "q \<in> set ps" for q using that w1(2) Cons.prems(1) by auto
  have inv: "db_inv (ev_uhash ev) (w_db w1)" "db_commitPhase (w_db w1) \<or> w_db w1 = w_db w"
    using db1 Cons.prems(4) by (auto simp: db_ready_def db_inv_def split: if_splits)
  have ready: "db_ready ev (w_trs w1) ps (w_db w1)"
    using inv Cons.prems(4) same by (auto simp: db_ready_def)
  obtain w' where w': "commitList ev rp ps w1 = Inr w'"
    "\<forall>q. w_trs w' q = (if q \<in> set ps
        then Some ((the (w_trs w1 q))\<lparr>tr_res := final_result ev e b (the (w_trs w1 q))\<rparr>) else w_trs w1 q)"
    "one_commit ev e b (w_trs w1) ps (w_db w1) repr (w_db w')"
    using Cons.IH [of w1] Cons.prems ready w1(3) same by auto
  have tr: "w_trs w' q = (if q \<in> set (p # ps)
      then Some ((the (w_trs w q))\<lparr>tr_res := final_result ev e b (the (w_trs w q))\<rparr>) else w_trs w q)" for q
    using w'(2) w1(2) t Cons.prems(1) same by auto
  have fc: "first_commit ev e b (w_trs w1) ps = first_commit ev e b (w_trs w) ps"
    unfolding first_commit_def by (rule find_cong) (simp_all add: same)
  have fin: "first_commit ev e b (w_trs w) ps = Some q \<Longrightarrow> w_trs w1 q = w_trs w q" for q
    by (rule same) (auto simp: first_commit_def find_Some_iff)
  have "one_commit ev e b (w_trs w) (p # ps) (w_db w) repr (w_db w')"
  proof (cases "?r = COMMIT \<and> \<not> db_commitPhase (w_db w)")
    case True
    then show ?thesis using db1 w'(3) t by (auto simp: one_commit_def first_commit_def)
  next
    case False
    then have "w_db w1 = w_db w" using db1 by simp
    moreover have "first_commit ev e b (w_trs w) (p # ps) = first_commit ev e b (w_trs w) ps"
      if "\<not> db_commitPhase (w_db w)" using that False t by (simp add: first_commit_def)
    ultimately show ?thesis
      using w'(3) fin by (auto simp: one_commit_def fc split: option.splits if_splits)
  qed
  then show ?case using w1(1) w'(1) tr by simp
qed

section \<open>An epoch run by one worker\<close>

definition stale_table :: "u32 \<Rightarrow> rt_provider \<Rightarrow> bool" where
  "stale_table e rp \<longleftrightarrow> (case rp of None \<Rightarrow> True | Some rt \<Rightarrow> rt_epoch rt \<noteq> e)"

lemma stale_base: "stale_table e rp \<Longrightarrow> getReserveTable e rp = Some (new_reserve_table e)"
  by (auto simp: stale_table_def getReserveTable_def getHashMapReserveTable_def split: option.splits)

text \<open>The transactions that the rule lets through, in the order of the workload.\<close>

definition winners :: "'d exec_env \<Rightarrow> u32 \<Rightarrow> 'd \<Rightarrow> tstore \<Rightarrow> tptr list \<Rightarrow> tptr list" where
  "winners ev e d st ps = filter (\<lambda>p. let t = the (st p); out = cc_outcome ev d t in
      fst out \<and> (tr_tid t, snd out) \<in> set (committed (ev_hash ev) (ev_weak ev) e (ok_batch ev d st ps))) ps"

lemma final_after_read:
  assumes "st p = Some t" "tr_res t = PENDING" "p \<in> set ps"
  shows "final_result ev e (ok_batch ev d st ps) (after_read ev d t) =
    (if \<not> fst (cc_outcome ev d t) then ABORT_NO_RETRY else if p \<in> set (winners ev e d st ps) then COMMIT else ABORT)"
proof -
  let ?out = "cc_outcome ev d t"
  have "(tr_tid t, snd ?out) \<in> set (ok_batch ev d st ps)" if "fst ?out"
    using that assms(1,3) by (force simp: ok_batch_def)
  then show ?thesis
    using assms by (auto simp: final_result_def after_read_def case_prod_unfold Let_def winners_def committed_def)
qed

lemma find_filter: "find P xs = (case filter P xs of [] \<Rightarrow> None | x # _ \<Rightarrow> Some x)"
  by (induction xs) auto

lemma epoch_run:
  fixes ev :: "'d exec_env"
  assumes fw: "fresh_workload e (w_trs w) ps" and db: "db_inv (ev_uhash ev) (w_db w)"
    and rt: "stale_table e (w_rt w)" and ldb: "leveldb_ok (ev_ldb ev) repr" and ne: "ps \<noteq> []"
  defines "d \<equiv> db_store (w_db w)"
  shows "\<exists>rp' w1 w2. executeList ev ps (rp, w) = Inr (rp', w1) \<and> commitList ev rp' ps w1 = Inr w2
    \<and> (\<forall>p \<in> set ps. \<exists>t. w_trs w2 p = Some t \<and> tr_res t =
         (if \<not> fst (cc_outcome ev d (the (w_trs w p))) then ABORT_NO_RETRY
          else if p \<in> set (winners ev e d (w_trs w) ps) then COMMIT else ABORT))
    \<and> repr (db_store (w_db w2)) = (case winners ev e d (w_trs w) ps of [] \<Rightarrow> repr d
         | p # _ \<Rightarrow> fold write_effect (rw_writes (snd (cc_outcome ev d (the (w_trs w p))))) (repr d))"
proof -
  let ?b = "ok_batch ev d (w_trs w) ps"
  obtain rp' w1 where x: "executeList ev ps (rp, w) = Inr (rp', w1)" and r: "reads_done ev e ps (rp, w) (rp', w1)"
    using executeList_reads [OF fw db, of rp] by auto
  have st1: "w_trs w1 = after_reads ev d (set ps) (w_trs w)" and i1: "db_inv (ev_uhash ev) (w_db w1)"
    and d1: "db_store (w_db w1) = d" and ph: "\<not> db_commitPhase (w_db w1)"
    and bf: "\<forall>q \<in> set ps. buffered (ev_uhash ev) (w_db w1) (tr_tid (the (w_trs w q))) = Some (Some q)"
    and tb: "?b \<noteq> [] \<longrightarrow> rp' = Some e \<and> w_rt w1 = Some (reserve_batch (ev_hash ev) (ev_weak ev) ?b (new_reserve_table e))"
    using r ne unfolding reads_done_def Let_def fst_conv snd_conv stale_base [OF rt] d_def option.sel by auto
  have fresh: "\<exists>t. w_trs w p = Some t \<and> tr_res t = PENDING" if "p \<in> set ps" for p
    using fw that by (auto simp: fresh_workload_def)
  have tr1: "w_trs w1 p = Some (after_read ev d (the (w_trs w p)))" if "p \<in> set ps" for p
    using st1 fresh [OF that] that by (auto simp: after_reads_def)
  have tid: "tr_tid (after_read ev d t) = tr_tid t" for t by (simp add: after_read_def case_prod_unfold Let_def)
  have fin: "final_result ev e ?b (the (w_trs w1 p)) = (if \<not> fst (cc_outcome ev d (the (w_trs w p))) then ABORT_NO_RETRY
      else if p \<in> set (winners ev e d (w_trs w) ps) then COMMIT else ABORT)" if p: "p \<in> set ps" for p
    using fresh [OF p] final_after_read [of "w_trs w" p _ ps ev e d] p tr1 [OF p] by auto
  have "rp' = Some e \<and> table_ok ev e ?b (w_rt w1)"
    if "p \<in> set ps" "tr_res (the (w_trs w1 p)) \<noteq> ABORT_NO_RETRY" for p
  proof -
    have "fst (cc_outcome ev d (the (w_trs w p)))"
      using that tr1 [OF that(1)] by (auto simp: after_read_def case_prod_unfold Let_def split: if_splits)
    then have "?b \<noteq> []" using that(1) by (auto simp: ok_batch_def filter_empty_conv)
    then show ?thesis using tb table_ok_full by auto
  qed
  moreover have "db_ready ev (w_trs w1) ps (w_db w1)"
    using i1 bf tr1 by (simp add: db_ready_def tid)
  moreover have "distinct ps" using fw by (simp add: fresh_workload_def)
  ultimately obtain w2 where w2: "commitList ev rp' ps w1 = Inr w2"
    "\<forall>p. w_trs w2 p = (if p \<in> set ps then Some ((the (w_trs w1 p))\<lparr>tr_res := final_result ev e ?b (the (w_trs w1 p))\<rparr>) else w_trs w1 p)"
    "one_commit ev e ?b (w_trs w1) ps (w_db w1) repr (w_db w2)"
    using commitList_spec [OF ldb, of ps w1 rp' e ?b] tr1 by auto
  have fc: "first_commit ev e ?b (w_trs w1) ps = (case winners ev e d (w_trs w) ps of [] \<Rightarrow> None | p # _ \<Rightarrow> Some p)"
  proof -
    have "filter (\<lambda>p. final_result ev e ?b (the (w_trs w1 p)) = COMMIT) ps = winners ev e d (w_trs w) ps"
    proof -
      have "final_result ev e ?b (the (w_trs w1 p)) = COMMIT \<longleftrightarrow> p \<in> set (winners ev e d (w_trs w) ps)"
        if "p \<in> set ps" for p
        using fin [OF that] that by (auto simp: winners_def Let_def)
      then show ?thesis by (subst winners_def, intro filter_cong refl) (simp add: winners_def)
    qed
    then show ?thesis by (simp only: first_commit_def find_filter)
  qed
  have wset: "p \<in> set ps" if "winners ev e d (w_trs w) ps = p # q" for p q
    using that list.set_intros(1) [of p q] unfolding winners_def by (metis (lifting) filter_is_subset subsetD)
  have "repr (db_store (w_db w2)) = (case winners ev e d (w_trs w) ps of [] \<Rightarrow> repr d
         | p # _ \<Rightarrow> fold write_effect (rw_writes (snd (cc_outcome ev d (the (w_trs w p))))) (repr d))"
    using w2(3) ph d1 fc tr1 wset
    by (auto simp: one_commit_def after_read_def case_prod_unfold Let_def split: list.splits)
  then show ?thesis using x w2(1,2) fin by auto
qed

section \<open>Properties\<close>

text \<open>
  C2. The executor implements the Aria rule. On a fresh workload of one epoch (pending
  transactions with empty read-write sets and distinct non-zero ids) and a reserve table of
  another epoch, \<open>executeList\<close> followed by \<open>commitList\<close> runs without a fault, and afterwards a
  transaction is ABORT_NO_RETRY if its chaincode failed, COMMIT if it belongs to the committed
  transactions of the batch of all successful ones, and ABORT otherwise.
\<close>

theorem epoch_results:
  fixes ev :: "'d exec_env"
  assumes "fresh_workload e (w_trs w) ps" "ps \<noteq> []" "db_inv (ev_uhash ev) (w_db w)"
    and "stale_table e (w_rt w)" "leveldb_ok (ev_ldb ev) repr"
  shows "\<exists>rp' w1 w2. executeList ev ps (rp, w) = Inr (rp', w1) \<and> commitList ev rp' ps w1 = Inr w2
    \<and> (\<forall>p \<in> set ps. \<exists>t. w_trs w2 p = Some t \<and> tr_res t =
        (let d = db_store (w_db w); t0 = the (w_trs w p); out = cc_outcome ev d t0 in
         if \<not> fst out then ABORT_NO_RETRY
         else if (tr_tid t0, snd out) \<in> set (committed (ev_hash ev) (ev_weak ev) e (ok_batch ev d (w_trs w) ps))
         then COMMIT else ABORT))"
proof -
  obtain rp' w1 w2 where "executeList ev ps (rp, w) = Inr (rp', w1)" "commitList ev rp' ps w1 = Inr w2"
    and r: "\<forall>p \<in> set ps. \<exists>t. w_trs w2 p = Some t \<and> tr_res t =
         (if \<not> fst (cc_outcome ev (db_store (w_db w)) (the (w_trs w p))) then ABORT_NO_RETRY
          else if p \<in> set (winners ev e (db_store (w_db w)) (w_trs w) ps) then COMMIT else ABORT)"
    using epoch_run [OF assms(1,3,4,5,2), of rp] by blast
  moreover have "p \<in> set (winners ev e d st ps) \<longleftrightarrow> fst (cc_outcome ev d (the (st p)))
      \<and> (tr_tid (the (st p)), snd (cc_outcome ev d (the (st p)))) \<in> set (committed (ev_hash ev) (ev_weak ev) e (ok_batch ev d st ps))"
    if "p \<in> set ps" for p d st
    using that by (simp add: winners_def Let_def)
  ultimately show ?thesis by (intro exI [of _ rp'] exI [of _ w1] exI [of _ w2]) (auto simp: Let_def)
qed

definition sample_env :: "(string \<rightharpoonup> string) exec_env" where
  "sample_env = \<lparr>ev_hash = length, ev_uhash = unat, ev_weak = [], ev_ldb = map_db, ev_parsers = sample_parsers\<rparr>"

definition counter_tr :: "u32 \<Rightarrow> string \<Rightarrow> transaction" where
  "counter_tr tid key = (mock_transaction 1 tid)\<lparr>tr_payload :=
     payload_empty\<lparr>pl_header := ''crdt_gcounter'', pl_payload := key\<rparr>\<rparr>"

definition sample_world :: "(string \<rightharpoonup> string) world" where
  "sample_world = \<lparr>w_trs = [11 \<mapsto> counter_tr 1 ''a'', 12 \<mapsto> counter_tr 2 ''b'', 13 \<mapsto> mock_transaction 1 3],
     w_db = new_database Map.empty, w_rt = None\<rparr>"

lemma sample_world_ok: "fresh_workload 1 (w_trs sample_world) [11, 12, 13]" "[11, 12, 13::tptr] \<noteq> []"
  "db_inv (ev_uhash sample_env) (w_db sample_world)" "stale_table 1 (w_rt sample_world)"
  "leveldb_ok (ev_ldb sample_env) (\<lambda>d. d)"
  by (auto simp: fresh_workload_def sample_world_def counter_tr_def mock_transaction_def stale_table_def
      sample_env_def map_db_ok db_inv_new)

lemma sample_outcomes:
  "cc_outcome sample_env Map.empty (counter_tr tid key) = (True, gcounter_rwset Map.empty (key, 7))"
  "cc_outcome sample_env Map.empty (mock_transaction 1 tid) = (False, rwset_empty)"
proof -
  show "cc_outcome sample_env Map.empty (counter_tr tid key) = (True, gcounter_rwset Map.empty (key, 7))"
    by (simp add: cc_outcome_def counter_tr_def sample_env_def sample_parsers_def new_chaincode_def new_helper_def
        invokeChaincode_def arg0_def cc_read_eq cc_insert_eq cc_rwset_def gcounter_rwset_def snapshot_read_def
        selectDB_def put_of_def add_reads_def add_writes_def rwset_empty_def map_db_def Let_def)
  show "cc_outcome sample_env Map.empty (mock_transaction 1 tid) = (False, rwset_empty)"
    by (simp add: cc_outcome_def mock_transaction_def payload_empty_def sample_env_def new_chaincode_def
        new_helper_def invokeChaincode_def cc_rwset_def rwset_empty_def)
qed

definition sample_sets :: batch where
  "sample_sets = [(1, gcounter_rwset Map.empty (''a'', 7)), (2, gcounter_rwset Map.empty (''b'', 7))]"

lemma sample_ok_batch: "ok_batch sample_env Map.empty (w_trs sample_world) [11, 12, 13] = sample_sets"
  by (simp add: ok_batch_def sample_world_def sample_outcomes sample_sets_def)
    (simp add: counter_tr_def mock_transaction_def)

lemma sample_sets_committed: "committed h ws e sample_sets = sample_sets"
  unfolding committed_def filter_id_conv
  by (auto simp: sample_sets_def may_commit_def verdict_iff earlier_def read_cells_def write_cells_def gcounter_rwset_def)

lemma epoch_results_witness:
  "\<exists>rp' w1 w2. executeList sample_env [11, 12, 13] (None, sample_world) = Inr (rp', w1)
    \<and> commitList sample_env rp' [11, 12, 13] w1 = Inr w2
    \<and> map (\<lambda>p. tr_res (the (w_trs w2 p))) [11, 12, 13] = [COMMIT, COMMIT, ABORT_NO_RETRY]"
proof -
  have st: "w_trs sample_world 11 = Some (counter_tr 1 ''a'')" "w_trs sample_world 12 = Some (counter_tr 2 ''b'')"
    "w_trs sample_world 13 = Some (mock_transaction 1 3)" "db_store (w_db sample_world) = Map.empty"
    by (simp_all add: sample_world_def new_database_def)
  have m: "(1, gcounter_rwset Map.empty (''a'', 7)) \<in> set sample_sets" "(2, gcounter_rwset Map.empty (''b'', 7)) \<in> set sample_sets"
    by (simp_all add: sample_sets_def)
  have tid: "tr_tid (counter_tr 1 ''a'') = 1" "tr_tid (counter_tr 2 ''b'') = 2"
    by (simp_all add: counter_tr_def mock_transaction_def)
  obtain rp' w1 w2 where x: "executeList sample_env [11, 12, 13] (None, sample_world) = Inr (rp', w1)"
    "commitList sample_env rp' [11, 12, 13] w1 = Inr w2"
    and r: "\<forall>p \<in> set [11, 12, 13]. \<exists>t. w_trs w2 p = Some t \<and> tr_res t =
        (let d = db_store (w_db sample_world); t0 = the (w_trs sample_world p); out = cc_outcome sample_env d t0 in
         if \<not> fst out then ABORT_NO_RETRY
         else if (tr_tid t0, snd out) \<in> set (committed (ev_hash sample_env) (ev_weak sample_env) 1
             (ok_batch sample_env d (w_trs sample_world) [11, 12, 13]))
         then COMMIT else ABORT)"
    using epoch_results [OF sample_world_ok, of None] by blast
  have "map (\<lambda>p. tr_res (the (w_trs w2 p))) [11, 12, 13] = [COMMIT, COMMIT, ABORT_NO_RETRY]"
    using r by (auto simp: st sample_outcomes sample_ok_batch sample_sets_committed m tid Let_def)
  with x show ?thesis by (intro exI conjI)
qed

text \<open>
  C39. The store after an epoch: of all transactions that end with COMMIT, only the writes of
  the first one in the workload reach the store. The writes of every other committed
  transaction are lost, although their result says COMMIT.
\<close>

theorem epoch_store_gets_one_commit:
  fixes ev :: "'d exec_env"
  assumes "fresh_workload e (w_trs w) ps" "ps \<noteq> []" "db_inv (ev_uhash ev) (w_db w)"
    and "stale_table e (w_rt w)" "leveldb_ok (ev_ldb ev) repr"
  shows "\<exists>rp' w1 w2. executeList ev ps (rp, w) = Inr (rp', w1) \<and> commitList ev rp' ps w1 = Inr w2
    \<and> repr (db_store (w_db w2)) = (case winners ev e (db_store (w_db w)) (w_trs w) ps of
          [] \<Rightarrow> repr (db_store (w_db w))
        | p # _ \<Rightarrow> fold write_effect (rw_writes (snd (cc_outcome ev (db_store (w_db w)) (the (w_trs w p)))))
            (repr (db_store (w_db w))))"
  using epoch_run [OF assms(1,3,4,5,2), of rp] by blast

lemma epoch_store_gets_one_commit_witness:
  "\<exists>rp' w1 w2. executeList sample_env [11, 12, 13] (None, sample_world) = Inr (rp', w1)
    \<and> commitList sample_env rp' [11, 12, 13] w1 = Inr w2
    \<and> db_store (w_db w2) ''a'' = Some ''7'' \<and> db_store (w_db w2) ''b'' = None"
proof -
  have st: "db_store (w_db sample_world) = Map.empty" "w_trs sample_world 11 = Some (counter_tr 1 ''a'')"
    by (simp_all add: sample_world_def new_database_def)
  have "\<exists>qs. winners sample_env 1 Map.empty (w_trs sample_world) [11, 12, 13] = 11 # qs"
    by (simp add: winners_def sample_ok_batch sample_sets_committed Let_def st(2) sample_outcomes)
      (simp add: sample_sets_def counter_tr_def mock_transaction_def)
  moreover have "to_string 7 = ''7''" by code_simp
  ultimately show ?thesis
    using epoch_store_gets_one_commit [OF sample_world_ok, of None]
    by (auto simp: st sample_outcomes gcounter_rwset_def write_effect_def)
qed

end
