(* ===== verification/WorkerProtocol.thy ===== *)
theory WorkerProtocol
  imports Messages
begin

text \<open>
  The two-phase protocol between \<open>AriaCoordinator\<close> and its \<open>AriaWorker\<close> threads. Each worker
  has the shared words of \<open>WorkerInstance\<close>: \<open>ariaGlobalState\<close>, written by the coordinator, and
  \<open>workerState\<close>, written by both. A step is one critical section of a worker mutex, or the body
  of a phase (\<open>executeList\<close>, \<open>commitList\<close>). Waiting on a condition variable is a step that is
  not enabled; every wait of the source re-tests its condition in a loop. Worker number \<open>i\<close> of
  the list has id \<open>i + 1\<close> (ids are handed out in order and no worker is erased while the main
  loop runs).
\<close>

section \<open>State\<close>

datatype worker_pc = W_START | W_WAIT_READ | W_EXECUTING | W_WAIT_COMMIT | W_COMMITTING | W_RETURNED

record worker =
  wk_state :: worker_state
  wk_signal :: aria_global_state
  wk_pc :: worker_pc

datatype coord_pc =
    C_BCAST_START nat | C_DISPATCH | C_SYNC_NEW nat | C_SIGNAL nat
  | C_BCAST_READ nat | C_SYNC_READ nat | C_BCAST_COMMIT nat | C_SYNC_COMMIT nat

record system =
  sy_pc :: coord_pc
  sy_global :: aria_global_state
  sy_workers :: "worker list"
  sy_epoch :: nat

section \<open>Operations on one worker\<close>

text \<open>The body of the loop of \<open>broadcastToAllWorker\<close>, and the whole loop.\<close>

definition bcast_one :: "aria_global_state \<Rightarrow> bool \<Rightarrow> worker \<Rightarrow> worker" where
  "bcast_one g onlyAssigned w =
     (if onlyAssigned \<and> wk_state w = READY then w else w\<lparr>wk_signal := g\<rparr>)"

definition broadcastToAllWorker :: "aria_global_state \<Rightarrow> bool \<Rightarrow> worker list \<Rightarrow> worker list" where
  "broadcastToAllWorker g onlyAssigned ws = map (bcast_one g onlyAssigned) ws"

text \<open>May \<open>syncAllWorker\<close> go past this worker? May \<open>syncWorkerState\<close>?\<close>

definition sync_passes :: "worker_state \<Rightarrow> bool \<Rightarrow> worker \<Rightarrow> bool" where
  "sync_passes s onlyAssigned w \<longleftrightarrow> (onlyAssigned \<and> wk_state w = READY) \<or> wk_state w = s"

definition syncWorkerState_passes :: "worker_state \<Rightarrow> nat \<Rightarrow> worker list \<Rightarrow> bool" where
  "syncWorkerState_passes s i ws \<longleftrightarrow> (i < length ws \<longrightarrow> wk_state (ws ! i) = s)"

definition coord_setWorkerState :: "nat \<Rightarrow> aria_global_state \<Rightarrow> worker list \<Rightarrow> worker list" where
  "coord_setWorkerState i g ws = (if i < length ws then ws[i := (ws ! i)\<lparr>wk_signal := g\<rparr>] else ws)"

text \<open>A new worker starts with the coordinator's global state; its constructor stores READY.\<close>

definition new_worker :: "aria_global_state \<Rightarrow> worker" where
  "new_worker g = \<lparr>wk_state = READY, wk_signal = g, wk_pc = W_START\<rparr>"

text \<open>\<open>deployWorkload\<close>: the first READY worker, or a new one (\<open>Inr\<close>).\<close>

fun first_ready :: "worker list \<Rightarrow> nat option" where
  "first_ready [] = None"
| "first_ready (w # ws) = (if wk_state w = READY then Some 0 else map_option Suc (first_ready ws))"

definition deployWorkload :: "aria_global_state \<Rightarrow> worker list \<Rightarrow> (nat + nat) \<times> worker list" where
  "deployWorkload g ws =
     (case first_ready ws of
        Some i \<Rightarrow> (Inl i, ws[i := (ws ! i)\<lparr>wk_state := ASSIGNED\<rparr>])
      | None \<Rightarrow> (Inr (length ws), ws @ [new_worker g]))"

definition printWorkerCondition :: "worker list \<Rightarrow> nat \<times> nat \<times> nat" where
  "printWorkerCondition ws = (length ws, length (filter (\<lambda>w. wk_state w = READY) ws),
     length (filter (\<lambda>w. wk_state w = ASSIGNED) ws))"

text \<open>\<open>AriaWorker::run\<close>; \<open>None\<close> when the thread waits or has returned.\<close>

definition worker_act :: "worker \<Rightarrow> worker option" where
  "worker_act w =
     (case wk_pc w of
        W_START \<Rightarrow> Some (w\<lparr>wk_state := ASSIGNED, wk_pc := W_WAIT_READ\<rparr>)
      | W_WAIT_READ \<Rightarrow>
          if wk_signal w = Aria_READ then Some (w\<lparr>wk_pc := W_EXECUTING\<rparr>)
          else if wk_signal w = G_EXIT then Some (w\<lparr>wk_state := EXITED, wk_pc := W_RETURNED\<rparr>)
          else None
      | W_EXECUTING \<Rightarrow> Some (w\<lparr>wk_state := FINISH_READ, wk_pc := W_WAIT_COMMIT\<rparr>)
      | W_WAIT_COMMIT \<Rightarrow>
          if wk_signal w = Aria_COMMIT then Some (w\<lparr>wk_pc := W_COMMITTING\<rparr>)
          else if wk_signal w = G_EXIT then Some (w\<lparr>wk_state := EXITED, wk_pc := W_RETURNED\<rparr>)
          else None
      | W_COMMITTING \<Rightarrow> Some (w\<lparr>wk_state := READY, wk_pc := W_WAIT_READ\<rparr>)
      | W_RETURNED \<Rightarrow> None)"

section \<open>The coordinator\<close>

text \<open>
  \<open>mainRoutine\<close>, one step at a time; \<open>again\<close> is the answer of \<open>getWorkload\<close> (another workload of
  this epoch). \<open>None\<close>: the coordinator waits.
\<close>

definition coord_act :: "bool \<Rightarrow> system \<Rightarrow> system option" where
  "coord_act again s = (let ws = sy_workers s in
     case sy_pc s of
       C_BCAST_START i \<Rightarrow>
         if i < length ws then Some (s\<lparr>sy_workers := ws[i := bcast_one G_START False (ws ! i)], sy_pc := C_BCAST_START (Suc i)\<rparr>)
         else Some (s\<lparr>sy_pc := C_DISPATCH\<rparr>)
     | C_DISPATCH \<Rightarrow>
         if again then
           (case deployWorkload (sy_global s) ws of
              (Inl i, ws1) \<Rightarrow> Some (s\<lparr>sy_workers := ws1, sy_pc := C_SIGNAL i\<rparr>)
            | (Inr i, ws1) \<Rightarrow> Some (s\<lparr>sy_workers := ws1, sy_pc := C_SYNC_NEW i\<rparr>))
         else Some (s\<lparr>sy_global := Aria_READ, sy_pc := C_BCAST_READ 0\<rparr>)
     | C_SYNC_NEW i \<Rightarrow> if syncWorkerState_passes ASSIGNED i ws then Some (s\<lparr>sy_pc := C_SIGNAL i\<rparr>) else None
     | C_SIGNAL i \<Rightarrow> Some (s\<lparr>sy_workers := coord_setWorkerState i Aria_READ ws, sy_pc := C_DISPATCH\<rparr>)
     | C_BCAST_READ i \<Rightarrow>
         if i < length ws then Some (s\<lparr>sy_workers := ws[i := bcast_one Aria_READ True (ws ! i)], sy_pc := C_BCAST_READ (Suc i)\<rparr>)
         else Some (s\<lparr>sy_pc := C_SYNC_READ 0\<rparr>)
     | C_SYNC_READ i \<Rightarrow>
         if i < length ws then
           if sync_passes FINISH_READ True (ws ! i) then Some (s\<lparr>sy_pc := C_SYNC_READ (Suc i)\<rparr>) else None
         else Some (s\<lparr>sy_global := Aria_COMMIT, sy_pc := C_BCAST_COMMIT 0\<rparr>)
     | C_BCAST_COMMIT i \<Rightarrow>
         if i < length ws then Some (s\<lparr>sy_workers := ws[i := bcast_one Aria_COMMIT True (ws ! i)], sy_pc := C_BCAST_COMMIT (Suc i)\<rparr>)
         else Some (s\<lparr>sy_pc := C_SYNC_COMMIT 0\<rparr>)
     | C_SYNC_COMMIT i \<Rightarrow>
         if i < length ws then
           if sync_passes READY True (ws ! i) then Some (s\<lparr>sy_pc := C_SYNC_COMMIT (Suc i)\<rparr>) else None
         else Some (s\<lparr>sy_epoch := Suc (sy_epoch s), sy_global := G_START, sy_pc := C_BCAST_START 0\<rparr>))"

definition system_init :: system where
  "system_init = \<lparr>sy_pc = C_BCAST_START 0, sy_global = G_START, sy_workers = [], sy_epoch = 0\<rparr>"

inductive sys_step :: "system \<Rightarrow> system \<Rightarrow> bool" where
  coordinator: "coord_act again s = Some s' \<Longrightarrow> sys_step s s'"
| worker: "i < length (sy_workers s) \<Longrightarrow> worker_act (sy_workers s ! i) = Some w \<Longrightarrow>
    sys_step s (s\<lparr>sy_workers := (sy_workers s)[i := w]\<rparr>)"

inductive_cases sys_stepE: "sys_step s s'"

inductive reachable :: "system \<Rightarrow> bool" where
  init: "reachable system_init"
| step: "reachable s \<Longrightarrow> sys_step s s' \<Longrightarrow> reachable s'"

section \<open>The invariant\<close>

text \<open>What a worker can look like in each stretch of the main loop.\<close>

definition idle :: "worker \<Rightarrow> bool" where
  "idle w \<longleftrightarrow> wk_state w = READY \<and> wk_pc w = W_WAIT_READ \<and> wk_signal w \<in> {G_START, Aria_COMMIT}"

definition reading :: "worker \<Rightarrow> bool" where
  "reading w \<longleftrightarrow> wk_signal w = Aria_READ \<and> ((wk_state w = ASSIGNED \<and> wk_pc w \<in> {W_WAIT_READ, W_EXECUTING})
     \<or> (wk_state w = FINISH_READ \<and> wk_pc w = W_WAIT_COMMIT))"

definition has_read :: "worker \<Rightarrow> bool" where
  "has_read w \<longleftrightarrow> wk_signal w = Aria_READ \<and> wk_state w = FINISH_READ \<and> wk_pc w = W_WAIT_COMMIT"

definition committing :: "worker \<Rightarrow> bool" where
  "committing w \<longleftrightarrow> wk_signal w = Aria_COMMIT \<and> ((wk_state w = FINISH_READ \<and> wk_pc w \<in> {W_WAIT_COMMIT, W_COMMITTING})
     \<or> (wk_state w = READY \<and> wk_pc w = W_WAIT_READ))"

text \<open>Deployed but not yet signalled; or new and not yet running.\<close>

definition deployed :: "worker \<Rightarrow> bool" where
  "deployed w \<longleftrightarrow> wk_state w = ASSIGNED \<and> wk_pc w = W_WAIT_READ \<and> wk_signal w = G_START"

definition starting :: "worker \<Rightarrow> bool" where
  "starting w \<longleftrightarrow> wk_signal w = G_START \<and> ((wk_state w = READY \<and> wk_pc w = W_START)
     \<or> (wk_state w = ASSIGNED \<and> wk_pc w = W_WAIT_READ))"

definition idle_start :: "worker \<Rightarrow> bool" where
  "idle_start w \<longleftrightarrow> wk_state w = READY \<and> wk_pc w = W_WAIT_READ \<and> wk_signal w = G_START"

fun phase_pred :: "coord_pc \<Rightarrow> nat \<Rightarrow> worker \<Rightarrow> bool" where
  "phase_pred (C_BCAST_START k) i w = (if i < k then idle_start w else idle w)"
| "phase_pred C_DISPATCH i w = (idle_start w \<or> reading w)"
| "phase_pred (C_SYNC_NEW j) i w = (if i = j then starting w else idle_start w \<or> reading w)"
| "phase_pred (C_SIGNAL j) i w = (if i = j then deployed w else idle_start w \<or> reading w)"
| "phase_pred (C_BCAST_READ k) i w = (idle_start w \<or> reading w)"
| "phase_pred (C_SYNC_READ k) i w = (if i < k then idle_start w \<or> has_read w else idle_start w \<or> reading w)"
| "phase_pred (C_BCAST_COMMIT k) i w = (if i < k then idle_start w \<or> committing w else idle_start w \<or> has_read w)"
| "phase_pred (C_SYNC_COMMIT k) i w = (if i < k then idle w else idle_start w \<or> committing w)"

fun phase_global :: "coord_pc \<Rightarrow> aria_global_state" where
  "phase_global (C_BCAST_START k) = G_START"
| "phase_global C_DISPATCH = G_START"
| "phase_global (C_SYNC_NEW j) = G_START"
| "phase_global (C_SIGNAL j) = G_START"
| "phase_global (C_BCAST_READ k) = Aria_READ"
| "phase_global (C_SYNC_READ k) = Aria_READ"
| "phase_global (C_BCAST_COMMIT k) = Aria_COMMIT"
| "phase_global (C_SYNC_COMMIT k) = Aria_COMMIT"

fun phase_index :: "coord_pc \<Rightarrow> nat \<Rightarrow> bool" where
  "phase_index (C_SYNC_NEW j) n \<longleftrightarrow> j < n"
| "phase_index (C_SIGNAL j) n \<longleftrightarrow> j < n"
| "phase_index pc n \<longleftrightarrow> True"

definition protocol_inv :: "system \<Rightarrow> bool" where
  "protocol_inv s \<longleftrightarrow> sy_global s = phase_global (sy_pc s) \<and> phase_index (sy_pc s) (length (sy_workers s))
     \<and> (\<forall>i < length (sy_workers s). phase_pred (sy_pc s) i (sy_workers s ! i))"

lemmas worker_shapes = idle_def reading_def has_read_def committing_def deployed_def starting_def idle_start_def

section \<open>Preservation\<close>

lemma shape_steps:
  "idle w \<Longrightarrow> worker_act w = None"
  "idle_start w \<Longrightarrow> worker_act w = None"
  "has_read w \<Longrightarrow> worker_act w = None"
  "deployed w \<Longrightarrow> worker_act w = None"
  "reading w \<Longrightarrow> worker_act w = Some w' \<Longrightarrow> reading w'"
  "committing w \<Longrightarrow> worker_act w = Some w' \<Longrightarrow> committing w'"
  "starting w \<Longrightarrow> worker_act w = Some w' \<Longrightarrow> starting w'"
  by (auto simp: worker_shapes worker_act_def split: if_splits)

lemma phase_pred_worker: "phase_pred pc i w \<Longrightarrow> worker_act w = Some w' \<Longrightarrow> phase_pred pc i w'"
  by (cases pc) (auto split: if_splits dest: shape_steps)

lemma inv_worker:
  assumes "protocol_inv s" "i < length (sy_workers s)" "worker_act (sy_workers s ! i) = Some w"
  shows "protocol_inv (s\<lparr>sy_workers := (sy_workers s)[i := w]\<rparr>)"
  using assms phase_pred_worker by (auto simp: protocol_inv_def nth_list_update)

lemma shape_bcast:
  "idle w \<Longrightarrow> idle_start (bcast_one G_START False w)"
  "idle_start w \<Longrightarrow> idle_start (bcast_one Aria_READ True w)"
  "reading w \<Longrightarrow> reading (bcast_one Aria_READ True w)"
  "idle_start w \<Longrightarrow> idle_start (bcast_one Aria_COMMIT True w)"
  "has_read w \<Longrightarrow> committing (bcast_one Aria_COMMIT True w)"
  by (auto simp: worker_shapes bcast_one_def)

lemma shape_sync:
  "reading w \<Longrightarrow> sync_passes FINISH_READ True w \<Longrightarrow> has_read w"
  "committing w \<Longrightarrow> sync_passes READY True w \<Longrightarrow> idle w"
  "idle_start w \<Longrightarrow> idle w"
  "starting w \<Longrightarrow> wk_state w = ASSIGNED \<Longrightarrow> deployed w"
  by (auto simp: worker_shapes sync_passes_def)

lemma first_ready_Some:
  "first_ready ws = Some i \<Longrightarrow> i < length ws \<and> wk_state (ws ! i) = READY"
  by (induction ws arbitrary: i) (auto split: if_splits)

text \<open>A coordinator step that changes only its program counter, and one that updates worker \<open>k\<close>.\<close>

lemma inv_goto:
  assumes "protocol_inv s" "s' = s\<lparr>sy_pc := pc, sy_global := phase_global pc\<rparr>"
    and "phase_index pc (length (sy_workers s))"
    and "\<And>i. i < length (sy_workers s) \<Longrightarrow> phase_pred (sy_pc s) i (sy_workers s ! i) \<Longrightarrow> phase_pred pc i (sy_workers s ! i)"
  shows "protocol_inv s'"
  using assms by (auto simp: protocol_inv_def)

lemma inv_update:
  assumes "protocol_inv s" "s' = s\<lparr>sy_workers := (sy_workers s)[k := w], sy_pc := pc, sy_global := phase_global pc\<rparr>"
    and "phase_index pc (length (sy_workers s))"
    and "k < length (sy_workers s) \<Longrightarrow> phase_pred (sy_pc s) k (sy_workers s ! k) \<Longrightarrow> phase_pred pc k w"
    and "\<And>i u. i \<noteq> k \<Longrightarrow> phase_pred (sy_pc s) i u \<Longrightarrow> phase_pred pc i u"
  shows "protocol_inv s'"
  using assms by (cases "k < length (sy_workers s)")
    (auto simp: protocol_inv_def nth_list_update list_update_beyond)

lemma inv_deploy:
  assumes inv: "protocol_inv s" and pc: "sy_pc s = C_DISPATCH" and act: "coord_act True s = Some s'"
  shows "protocol_inv s'"
proof (cases "first_ready (sy_workers s)")
  case None
  then show ?thesis using inv act pc
    by (auto simp: protocol_inv_def coord_act_def Let_def deployWorkload_def nth_append
        starting_def new_worker_def less_Suc_eq)
next
  case (Some i)
  have i: "i < length (sy_workers s)" "wk_state (sy_workers s ! i) = READY"
    using first_ready_Some [OF Some] by auto
  show ?thesis
    by (rule inv_update [OF inv, where k = i and w = "(sy_workers s ! i)\<lparr>wk_state := ASSIGNED\<rparr>" and pc = "C_SIGNAL i"])
      (use act pc Some i inv in \<open>auto simp: coord_act_def Let_def deployWorkload_def protocol_inv_def worker_shapes\<close>)
qed

text \<open>One step of a loop over the workers: a broadcast to worker \<open>k\<close>, or a wait for it.\<close>

lemma inv_bcast:
  assumes inv: "protocol_inv s" and pc: "sy_pc s = P k"
    and act: "(if k < length (sy_workers s)
        then Some (s\<lparr>sy_workers := (sy_workers s)[k := bcast_one x c (sy_workers s ! k)], sy_pc := P (Suc k)\<rparr>)
        else Some (s\<lparr>sy_pc := Q\<rparr>)) = Some s'"
    and stays: "phase_global (P (Suc k)) = phase_global (P k)" "phase_global Q = phase_global (P k)"
      "\<And>n. phase_index (P (Suc k)) n" "\<And>n. phase_index Q n"
    and told: "\<And>w. phase_pred (P k) k w \<Longrightarrow> phase_pred (P (Suc k)) k (bcast_one x c w)"
    and others: "\<And>i w. i \<noteq> k \<Longrightarrow> phase_pred (P k) i w \<Longrightarrow> phase_pred (P (Suc k)) i w"
    and all: "\<And>i w. i < k \<Longrightarrow> phase_pred (P k) i w \<Longrightarrow> phase_pred Q i w"
  shows "protocol_inv s'"
  using act inv pc stays told others all
  by (cases "k < length (sy_workers s)") (auto simp: protocol_inv_def nth_list_update)

lemma inv_sync:
  assumes inv: "protocol_inv s" and pc: "sy_pc s = P k"
    and act: "(if k < length (sy_workers s)
        then if sync_passes x True (sy_workers s ! k) then Some (s\<lparr>sy_pc := P (Suc k)\<rparr>) else None
        else Some (s\<lparr>sy_epoch := e, sy_global := phase_global Q, sy_pc := Q\<rparr>)) = Some s'"
    and stays: "phase_global (P (Suc k)) = phase_global (P k)" "\<And>n. phase_index (P (Suc k)) n" "\<And>n. phase_index Q n"
    and passed: "\<And>w. sync_passes x True w \<Longrightarrow> phase_pred (P k) k w \<Longrightarrow> phase_pred (P (Suc k)) k w"
    and others: "\<And>i w. i \<noteq> k \<Longrightarrow> phase_pred (P k) i w \<Longrightarrow> phase_pred (P (Suc k)) i w"
    and all: "\<And>i w. i < k \<Longrightarrow> phase_pred (P k) i w \<Longrightarrow> phase_pred Q i w"
  shows "protocol_inv s'"
proof (cases "k < length (sy_workers s)")
  case True
  then have "sync_passes x True (sy_workers s ! k)" "s' = s\<lparr>sy_pc := P (Suc k)\<rparr>" using act by (auto split: if_splits)
  moreover have "phase_pred (P (Suc k)) i (sy_workers s ! i)" if "i < length (sy_workers s)" for i
    using that inv pc passed others calculation(1) by (cases "i = k") (auto simp: protocol_inv_def)
  ultimately show ?thesis using inv pc stays by (simp add: protocol_inv_def)
qed (use act inv pc stays all in \<open>auto simp: protocol_inv_def\<close>)

lemma inv_coordinator:
  assumes inv: "protocol_inv s" and act: "coord_act again s = Some s'"
  shows "protocol_inv s'"
proof (cases "sy_pc s")
  case pc: (C_BCAST_START k)
  show ?thesis by (rule inv_bcast [OF inv, where P = C_BCAST_START and k = k and x = G_START and c = False and Q = C_DISPATCH])
      (use pc act in \<open>auto simp: coord_act_def Let_def shape_bcast less_Suc_eq split: if_splits\<close>)
next
  case pc: C_DISPATCH
  show ?thesis
  proof (cases again)
    case False
    then show ?thesis using inv act pc by (auto simp: protocol_inv_def coord_act_def Let_def)
  qed (use inv_deploy [OF inv pc] act in simp)
next
  case pc: (C_SYNC_NEW j)
  show ?thesis by (rule inv_goto [OF inv, where pc = "C_SIGNAL j"])
      (use act pc inv in \<open>auto simp: protocol_inv_def coord_act_def Let_def syncWorkerState_passes_def split: if_splits intro: shape_sync(4)\<close>)
next
  case pc: (C_SIGNAL j)
  show ?thesis by (rule inv_update [OF inv, where k = j and w = "(sy_workers s ! j)\<lparr>wk_signal := Aria_READ\<rparr>" and pc = C_DISPATCH])
      (use act pc inv in \<open>auto simp: coord_act_def Let_def protocol_inv_def coord_setWorkerState_def worker_shapes\<close>)
next
  case pc: (C_BCAST_READ k)
  show ?thesis by (rule inv_bcast [OF inv, where P = C_BCAST_READ and k = k and x = Aria_READ and c = True and Q = "C_SYNC_READ 0"])
      (use pc act in \<open>auto simp: coord_act_def Let_def shape_bcast\<close>)
next
  case pc: (C_SYNC_READ k)
  show ?thesis by (rule inv_sync [OF inv, where P = C_SYNC_READ and k = k and x = FINISH_READ and Q = "C_BCAST_COMMIT 0" and e = "sy_epoch s"])
      (use pc act in \<open>auto simp: coord_act_def Let_def less_Suc_eq dest: shape_sync(1) split: if_splits\<close>)
next
  case pc: (C_BCAST_COMMIT k)
  show ?thesis by (rule inv_bcast [OF inv, where P = C_BCAST_COMMIT and k = k and x = Aria_COMMIT and c = True and Q = "C_SYNC_COMMIT 0"])
      (use pc act in \<open>auto simp: coord_act_def Let_def shape_bcast less_Suc_eq split: if_splits\<close>)
next
  case pc: (C_SYNC_COMMIT k)
  show ?thesis by (rule inv_sync [OF inv, where P = C_SYNC_COMMIT and k = k and x = READY and Q = "C_BCAST_START 0" and e = "Suc (sy_epoch s)"])
      (use pc act in \<open>auto simp: coord_act_def Let_def less_Suc_eq dest: shape_sync(2) intro: shape_sync(3) split: if_splits\<close>)
qed

lemma reachable_inv: "reachable s \<Longrightarrow> protocol_inv s"
proof (induction rule: reachable.induct)
  case init
  show ?case by (simp add: protocol_inv_def system_init_def)
next
  case (step s s')
  from step(2) show ?case
    by (rule sys_stepE) (use step(3) in \<open>auto intro: inv_coordinator inv_worker\<close>)
qed

section \<open>Progress\<close>

definition step_enabled :: "system \<Rightarrow> bool" where
  "step_enabled s \<longleftrightarrow> (\<exists>again. coord_act again s \<noteq> None)
     \<or> (\<exists>i < length (sy_workers s). worker_act (sy_workers s ! i) \<noteq> None)"

lemma shape_enabled:
  "reading w \<Longrightarrow> \<not> sync_passes FINISH_READ True w \<Longrightarrow> worker_act w \<noteq> None"
  "committing w \<Longrightarrow> \<not> sync_passes READY True w \<Longrightarrow> worker_act w \<noteq> None"
  "starting w \<Longrightarrow> wk_state w \<noteq> ASSIGNED \<Longrightarrow> worker_act w \<noteq> None"
  "idle_start w \<Longrightarrow> sync_passes x True w"
  by (auto simp: worker_shapes sync_passes_def worker_act_def)

lemma inv_enabled:
  assumes "protocol_inv s"
  shows "step_enabled s"
proof (cases "sy_pc s")
  case (C_SYNC_NEW j)
  then show ?thesis using assms shape_enabled(3)
    by (force simp: step_enabled_def protocol_inv_def coord_act_def Let_def syncWorkerState_passes_def)
next
  case pc: (C_SYNC_READ k)
  show ?thesis
  proof (cases "k < length (sy_workers s) \<and> \<not> sync_passes FINISH_READ True (sy_workers s ! k)")
    case True
    then have "reading (sy_workers s ! k)"
      using assms pc shape_enabled(4) by (force simp: protocol_inv_def)
    then have "worker_act (sy_workers s ! k) \<noteq> None" using True shape_enabled(1) by blast
    then show ?thesis using True by (auto simp: step_enabled_def)
  qed (use pc in \<open>auto simp: step_enabled_def coord_act_def Let_def\<close>)
next
  case pc: (C_SYNC_COMMIT k)
  show ?thesis
  proof (cases "k < length (sy_workers s) \<and> \<not> sync_passes READY True (sy_workers s ! k)")
    case True
    then have "committing (sy_workers s ! k)"
      using assms pc shape_enabled(4) by (force simp: protocol_inv_def)
    then have "worker_act (sy_workers s ! k) \<noteq> None" using True shape_enabled(2) by blast
    then show ?thesis using True by (auto simp: step_enabled_def)
  qed (use pc in \<open>auto simp: step_enabled_def coord_act_def Let_def\<close>)
qed (auto simp: step_enabled_def coord_act_def Let_def deployWorkload_def split: option.splits)

section \<open>Properties\<close>

text \<open>
  C3. Phase separation: in every reachable state of the coordinator with any number of workers,
  if some worker is in \<open>commitList\<close>, no worker is in \<open>executeList\<close> and none is still waiting to
  execute a workload of the epoch: every commit sees all reservations.
\<close>

theorem commit_after_all_reads:
  assumes "reachable s" "i < length (sy_workers s)" "wk_pc (sy_workers s ! i) = W_COMMITTING"
    and "j < length (sy_workers s)"
  shows "wk_pc (sy_workers s ! j) \<noteq> W_EXECUTING \<and> wk_state (sy_workers s ! j) \<noteq> ASSIGNED"
proof -
  have "phase_pred (sy_pc s) i (sy_workers s ! i)" "phase_pred (sy_pc s) j (sy_workers s ! j)"
    using reachable_inv [OF assms(1)] assms(2,4) by (auto simp: protocol_inv_def)
  then show ?thesis using assms(3) by (cases "sy_pc s") (auto simp: worker_shapes split: if_splits)
qed

text \<open>A run of one epoch with one worker, as far as its \<open>commitList\<close>.\<close>

fun coord_steps :: "bool list \<Rightarrow> system \<Rightarrow> system option" where
  "coord_steps [] s = Some s"
| "coord_steps (b # bs) s = (case coord_act b s of None \<Rightarrow> None | Some s1 \<Rightarrow> coord_steps bs s1)"

definition worker_step :: "nat \<Rightarrow> system \<Rightarrow> system option" where
  "worker_step i s = (if i < length (sy_workers s) then
      map_option (\<lambda>w. s\<lparr>sy_workers := (sy_workers s)[i := w]\<rparr>) (worker_act (sy_workers s ! i)) else None)"

lemma reachable_coord_steps: "reachable s \<Longrightarrow> coord_steps bs s = Some s' \<Longrightarrow> reachable s'"
proof (induction bs arbitrary: s)
  case (Cons b bs)
  then obtain s1 where s1: "coord_act b s = Some s1" "coord_steps bs s1 = Some s'" by (auto split: option.splits)
  have "reachable s1" by (rule reachable.step [OF Cons.prems(1) sys_step.coordinator [OF s1(1)]])
  then show ?case using Cons.IH s1(2) by blast
qed simp

lemma reachable_worker_step: "reachable s \<Longrightarrow> worker_step i s = Some s' \<Longrightarrow> reachable s'"
proof -
  assume r: "reachable s" and "worker_step i s = Some s'"
  then obtain w where w: "i < length (sy_workers s)" "worker_act (sy_workers s ! i) = Some w"
    "s' = s\<lparr>sy_workers := (sy_workers s)[i := w]\<rparr>"
    by (auto simp: worker_step_def split: if_splits)
  show ?thesis unfolding w(3) by (rule reachable.step [OF r sys_step.worker [OF w(1,2)]])
qed

definition committing_system :: system where
  "committing_system = \<lparr>sy_pc = C_SYNC_COMMIT 0, sy_global = Aria_COMMIT,
     sy_workers = [\<lparr>wk_state = FINISH_READ, wk_signal = Aria_COMMIT, wk_pc = W_COMMITTING\<rparr>], sy_epoch = 0\<rparr>"

lemma committing_system_reachable: "reachable committing_system"
proof -
  note eval = coord_act_def worker_step_def worker_act_def Let_def deployWorkload_def new_worker_def
    system_init_def syncWorkerState_passes_def coord_setWorkerState_def bcast_one_def sync_passes_def
  obtain s1 where s1: "coord_steps [True, True] system_init = Some s1"
    and e1: "s1 = \<lparr>sy_pc = C_SYNC_NEW 0, sy_global = G_START, sy_workers = [new_worker G_START], sy_epoch = 0\<rparr>"
    by (simp add: eval)
  obtain s2 where s2: "worker_step 0 s1 = Some s2"
    and e2: "s2 = s1\<lparr>sy_workers := [\<lparr>wk_state = ASSIGNED, wk_signal = G_START, wk_pc = W_WAIT_READ\<rparr>]\<rparr>"
    by (simp add: eval e1)
  obtain s3 where s3: "coord_steps [True, True, False, False, False] s2 = Some s3"
    and e3: "s3 = \<lparr>sy_pc = C_SYNC_READ 0, sy_global = Aria_READ,
       sy_workers = [\<lparr>wk_state = ASSIGNED, wk_signal = Aria_READ, wk_pc = W_WAIT_READ\<rparr>], sy_epoch = 0\<rparr>"
    by (simp add: eval e1 e2)
  obtain s4 where s4: "worker_step 0 s3 = Some s4"
    and e4: "s4 = s3\<lparr>sy_workers := [\<lparr>wk_state = ASSIGNED, wk_signal = Aria_READ, wk_pc = W_EXECUTING\<rparr>]\<rparr>"
    by (simp add: eval e3)
  obtain s5 where s5: "worker_step 0 s4 = Some s5"
    and e5: "s5 = s3\<lparr>sy_workers := [\<lparr>wk_state = FINISH_READ, wk_signal = Aria_READ, wk_pc = W_WAIT_COMMIT\<rparr>]\<rparr>"
    by (simp add: eval e3 e4)
  obtain s6 where s6: "coord_steps [True, True, True, True] s5 = Some s6"
    and e6: "s6 = \<lparr>sy_pc = C_SYNC_COMMIT 0, sy_global = Aria_COMMIT,
       sy_workers = [\<lparr>wk_state = FINISH_READ, wk_signal = Aria_COMMIT, wk_pc = W_WAIT_COMMIT\<rparr>], sy_epoch = 0\<rparr>"
    by (simp add: eval e3 e5)
  have s7: "worker_step 0 s6 = Some committing_system" by (simp add: eval e6 committing_system_def)
  show ?thesis
    by (rule reachable_worker_step [OF _ s7], rule reachable_coord_steps [OF _ s6],
        rule reachable_worker_step [OF _ s5], rule reachable_worker_step [OF _ s4],
        rule reachable_coord_steps [OF _ s3], rule reachable_worker_step [OF _ s2],
        rule reachable_coord_steps [OF _ s1], rule reachable.init)
qed

lemma commit_after_all_reads_witness: "wk_pc (sy_workers committing_system ! 0) \<noteq> W_EXECUTING"
  using commit_after_all_reads [OF committing_system_reachable, of 0 0] by (simp add: committing_system_def)

text \<open>
  The end of an epoch: when the coordinator leaves the commit synchronisation and counts the
  next epoch, every worker has finished its \<open>commitList\<close>, is READY and waits for the next
  READ signal, so no work of the epoch is outstanding.
\<close>

theorem epoch_end_all_idle:
  assumes "reachable s" "coord_act again s = Some s'" "sy_epoch s' \<noteq> sy_epoch s"
  shows "sy_epoch s' = Suc (sy_epoch s) \<and> (\<forall>w \<in> set (sy_workers s').
    wk_state w = READY \<and> wk_pc w = W_WAIT_READ \<and> wk_signal w \<noteq> Aria_READ)"
proof -
  obtain k where pc: "sy_pc s = C_SYNC_COMMIT k" "\<not> k < length (sy_workers s)"
    "s' = s\<lparr>sy_epoch := Suc (sy_epoch s), sy_global := G_START, sy_pc := C_BCAST_START 0\<rparr>"
    using assms(2,3) by (cases "sy_pc s") (auto simp: coord_act_def Let_def split: if_splits prod.splits sum.splits)
  then have "\<forall>w \<in> set (sy_workers s). idle w"
    using reachable_inv [OF assms(1)] by (auto simp: protocol_inv_def all_set_conv_all_nth)
  then show ?thesis using pc(3) by (fastforce simp: idle_def)
qed

definition finished_system :: system where
  "finished_system = committing_system\<lparr>sy_pc := C_SYNC_COMMIT 1,
     sy_workers := [\<lparr>wk_state = READY, wk_signal = Aria_COMMIT, wk_pc = W_WAIT_READ\<rparr>]\<rparr>"

lemma finished_system_reachable: "reachable finished_system"
proof -
  obtain s1 where s1: "worker_step 0 committing_system = Some s1"
    and e1: "s1 = committing_system\<lparr>sy_workers := [\<lparr>wk_state = READY, wk_signal = Aria_COMMIT, wk_pc = W_WAIT_READ\<rparr>]\<rparr>"
    by (simp add: worker_step_def worker_act_def committing_system_def)
  have "coord_steps [True] s1 = Some finished_system"
    by (simp add: e1 coord_act_def Let_def committing_system_def sync_passes_def finished_system_def)
  then show ?thesis
    by (rule reachable_coord_steps [OF reachable_worker_step [OF committing_system_reachable s1]])
qed

lemma epoch_end_all_idle_witness: "\<exists>s'. coord_act True finished_system = Some s' \<and> sy_epoch s' = 1"
proof -
  obtain s' where s': "coord_act True finished_system = Some s'" "sy_epoch s' \<noteq> sy_epoch finished_system"
    by (simp add: finished_system_def committing_system_def coord_act_def)
  show ?thesis using epoch_end_all_idle [OF finished_system_reachable s'] s'(1)
    by (simp add: finished_system_def committing_system_def)
qed



end
