(* ===== verification/WorkerShutdown.thy ===== *)
theory WorkerShutdown
  imports WorkerProtocol
begin

text \<open>
  The destructor of \<open>AriaCoordinator\<close> and \<open>destroyUnusedWorkers\<close>: the workers are told to exit,
  waited for, joined and deleted. The destructor may find the workers in any state the main loop
  can leave them in; they go on running while it does.
\<close>

section \<open>Destroying workers\<close>

text \<open>A worker that has stored EXITED returns at once, so joining it does not block.\<close>

fun destroyUnusedWorkers :: "worker list \<Rightarrow> 32 word \<times> worker list" where
  "destroyUnusedWorkers [] = (0, [])"
| "destroyUnusedWorkers (w # ws) =
     (let (count, ws1) = destroyUnusedWorkers ws in
      if wk_state w = EXITED then (count + 1, ws1) else (count, w # ws1))"

text \<open>The destructor, one critical section at a time; \<open>X_DONE\<close> holds the number it logs.\<close>

datatype exit_pc = X_BCAST nat | X_SYNC nat | X_DONE "32 word"

definition exit_act :: "exit_pc \<times> worker list \<Rightarrow> (exit_pc \<times> worker list) option" where
  "exit_act = (\<lambda>(pc, ws). case pc of
     X_BCAST i \<Rightarrow>
       if i < length ws then Some (X_BCAST (Suc i), ws[i := bcast_one G_EXIT False (ws ! i)]) else Some (X_SYNC 0, ws)
   | X_SYNC i \<Rightarrow>
       if i < length ws then (if sync_passes EXITED False (ws ! i) then Some (X_SYNC (Suc i), ws) else None)
       else (let (_, ws1) = destroyUnusedWorkers ws; (n, ws2) = destroyUnusedWorkers ws1 in Some (X_DONE n, ws2))
   | X_DONE n \<Rightarrow> None)"

inductive exit_step :: "exit_pc \<times> worker list \<Rightarrow> exit_pc \<times> worker list \<Rightarrow> bool" where
  exit_coordinator: "exit_act x = Some y \<Longrightarrow> exit_step x y"
| exit_worker: "i < length ws \<Longrightarrow> worker_act (ws ! i) = Some w \<Longrightarrow> exit_step (pc, ws) (pc, ws[i := w])"

inductive exit_run :: "exit_pc \<times> worker list \<Rightarrow> nat \<Rightarrow> exit_pc \<times> worker list \<Rightarrow> bool" where
  exit_start: "exit_run x 0 x"
| exit_more: "exit_run x n y \<Longrightarrow> exit_step y z \<Longrightarrow> exit_run x (Suc n) z"

section \<open>Invariant and measure\<close>

definition told :: "worker \<Rightarrow> bool" where
  "told w \<longleftrightarrow> wk_signal w = G_EXIT"

text \<open>A worker has stored EXITED when it has returned, and only a worker told to exit has.\<close>

definition exit_ok :: "worker \<Rightarrow> bool" where
  "exit_ok w \<longleftrightarrow> (wk_state w = EXITED \<longleftrightarrow> wk_pc w = W_RETURNED) \<and> (wk_pc w = W_RETURNED \<longrightarrow> told w)"

fun exit_inv :: "exit_pc \<times> worker list \<Rightarrow> bool" where
  "exit_inv (X_BCAST k, ws) \<longleftrightarrow> k \<le> length ws \<and> (\<forall>i < length ws. exit_ok (ws ! i) \<and> (i < k \<longrightarrow> told (ws ! i)))"
| "exit_inv (X_SYNC k, ws) \<longleftrightarrow> k \<le> length ws \<and> (\<forall>i < length ws. exit_ok (ws ! i) \<and> told (ws ! i) \<and> (i < k \<longrightarrow> wk_state (ws ! i) = EXITED))"
| "exit_inv (X_DONE n, ws) \<longleftrightarrow> n = 0 \<and> ws = []"

lemma destroy_eq: "destroyUnusedWorkers ws =
    (of_nat (length (filter (\<lambda>w. wk_state w = EXITED) ws)), filter (\<lambda>w. wk_state w \<noteq> EXITED) ws)"
  by (induction ws) (auto simp: Let_def)

lemma destroy_all: "\<forall>w \<in> set ws. wk_state w = EXITED \<Longrightarrow> destroyUnusedWorkers ws = (of_nat (length ws), [])"
  by (simp add: destroy_eq filter_True filter_False)

lemma worker_act_told:
  assumes "worker_act w = Some w'" "exit_ok w"
  shows "exit_ok w' \<and> (told w' = told w) \<and> wk_state w \<noteq> EXITED"
  using assms by (auto simp: worker_act_def exit_ok_def told_def split: worker_pc.splits if_splits)

lemma told_enabled: "told w \<Longrightarrow> exit_ok w \<Longrightarrow> wk_state w \<noteq> EXITED \<Longrightarrow> worker_act w \<noteq> None"
  by (cases "wk_pc w") (auto simp: worker_act_def exit_ok_def told_def)

text \<open>How many steps a worker can still take with the signal it has.\<close>

definition worker_rank :: "worker \<Rightarrow> nat" where
  "worker_rank w =
     (if wk_signal w = G_EXIT then (case wk_pc w of W_RETURNED \<Rightarrow> 0 | W_WAIT_READ \<Rightarrow> 1 | W_WAIT_COMMIT \<Rightarrow> 1 | _ \<Rightarrow> 2)
      else if wk_signal w = Aria_READ then
        (case wk_pc w of W_START \<Rightarrow> 3 | W_COMMITTING \<Rightarrow> 3 | W_WAIT_READ \<Rightarrow> 2 | W_EXECUTING \<Rightarrow> 1 | _ \<Rightarrow> 0)
      else if wk_signal w = Aria_COMMIT then
        (case wk_pc w of W_EXECUTING \<Rightarrow> 3 | W_WAIT_COMMIT \<Rightarrow> 2 | W_COMMITTING \<Rightarrow> 1 | W_START \<Rightarrow> 1 | _ \<Rightarrow> 0)
      else (case wk_pc w of W_START \<Rightarrow> 1 | W_EXECUTING \<Rightarrow> 1 | W_COMMITTING \<Rightarrow> 1 | _ \<Rightarrow> 0))"

lemma rank_act: "worker_act w = Some w' \<Longrightarrow> worker_rank w' < worker_rank w"
  by (cases "wk_pc w") (auto simp: worker_act_def worker_rank_def split: if_splits)

lemma rank_bcast: "worker_rank (bcast_one G_EXIT False w) \<le> 2"
  by (cases "wk_pc w") (auto simp: bcast_one_def worker_rank_def)

lemma rank_le: "worker_rank w \<le> 3"
  by (cases "wk_pc w") (auto simp: worker_rank_def)

fun exit_rank :: "exit_pc \<times> worker list \<Rightarrow> nat" where
  "exit_rank (X_BCAST k, ws) = sum_list (map worker_rank ws) + 3 * (length ws - k) + length ws + 2"
| "exit_rank (X_SYNC k, ws) = sum_list (map worker_rank ws) + (length ws - k) + 1"
| "exit_rank (X_DONE n, ws) = 0"

lemma sum_rank_update:
  "i < length ws \<Longrightarrow> sum_list (map worker_rank (ws[i := w])) + worker_rank (ws ! i) = sum_list (map worker_rank ws) + worker_rank w"
proof -
  assume i: "i < length ws"
  have "worker_rank (ws ! i) \<le> sum_list (map worker_rank ws)" using i by (intro member_le_sum_list) auto
  then show ?thesis using i by (simp add: map_update sum_list_update)
qed

lemma rank_step:
  assumes "exit_inv x" "exit_step x y"
  shows "exit_rank y < exit_rank x"
  using assms(2)
proof cases
  case exit_coordinator
  obtain pc ws where x: "x = (pc, ws)" by (cases x)
  show ?thesis
  proof (cases pc)
    case (X_BCAST i)
    show ?thesis
    proof (cases "i < length ws")
      case True
      then have "y = (X_BCAST (Suc i), ws[i := bcast_one G_EXIT False (ws ! i)])"
        using exit_coordinator x X_BCAST by (simp add: exit_act_def)
      then show ?thesis using True x X_BCAST sum_rank_update [OF True, of "bcast_one G_EXIT False (ws ! i)"]
          rank_bcast [of "ws ! i"] by simp
    next
      case False
      then show ?thesis using exit_coordinator x X_BCAST by (auto simp: exit_act_def)
    qed
  next
    case (X_SYNC i)
    then show ?thesis using exit_coordinator x by (auto simp: exit_act_def Let_def split: if_splits prod.splits)
  next
    case (X_DONE n)
    then show ?thesis using exit_coordinator x by (simp add: exit_act_def)
  qed
next
  case (exit_worker i ws w pc)
  have "sum_list (map worker_rank (ws[i := w])) < sum_list (map worker_rank ws)"
    using sum_rank_update [OF exit_worker(3), of w] rank_act [OF exit_worker(4)] by simp
  then show ?thesis using exit_worker assms(1) by (cases pc) auto
qed

lemma inv_step:
  assumes "exit_inv x" "exit_step x y"
  shows "exit_inv y"
  using assms(2)
proof cases
  case exit_coordinator
  obtain pc ws where x: "x = (pc, ws)" by (cases x)
  show ?thesis
  proof (cases pc)
    case (X_BCAST i)
    have b: "exit_ok w \<Longrightarrow> exit_ok (bcast_one G_EXIT False w) \<and> told (bcast_one G_EXIT False w)" for w
      by (auto simp: exit_ok_def told_def bcast_one_def)
    show ?thesis using exit_coordinator x X_BCAST assms(1) b
      by (auto simp: exit_act_def nth_list_update less_Suc_eq split: if_splits)
  next
    case (X_SYNC i)
    have "destroyUnusedWorkers ws = (of_nat (length ws), [])" if "i \<ge> length ws"
      using assms(1) x X_SYNC that by (intro destroy_all) (auto simp: in_set_conv_nth)
    then show ?thesis using exit_coordinator x X_SYNC assms(1)
      by (auto simp: exit_act_def sync_passes_def Let_def less_Suc_eq not_less split: if_splits)
  next
    case (X_DONE n)
    then show ?thesis using exit_coordinator x by (simp add: exit_act_def)
  qed
next
  case (exit_worker i ws w pc)
  have a: "exit_ok (ws ! i)" using assms(1) exit_worker by (cases pc) auto
  then show ?thesis using exit_worker assms(1) worker_act_told [OF exit_worker(4) a]
    by (cases pc) (auto simp: nth_list_update)
qed

lemma exit_run_inv: "exit_run x n y \<Longrightarrow> exit_inv x \<Longrightarrow> exit_inv y \<and> exit_rank y + n \<le> exit_rank x"
proof (induction rule: exit_run.induct)
  case (exit_more x n y z)
  then show ?case using inv_step [of y z] rank_step [of y z] by auto
qed simp

lemma exit_enabled:
  assumes "exit_inv (pc, ws)" "\<forall>n. pc \<noteq> X_DONE n"
  shows "\<exists>y. exit_step (pc, ws) y"
proof (cases "exit_act (pc, ws)")
  case None
  then obtain k where k: "pc = X_SYNC k" "k < length ws" "wk_state (ws ! k) \<noteq> EXITED"
    using assms(2) by (auto simp: exit_act_def sync_passes_def split: exit_pc.splits if_splits prod.splits)
  then obtain w where "worker_act (ws ! k) = Some w" using assms(1) told_enabled [of "ws ! k"] by auto
  then show ?thesis using exit_worker k by blast
qed (use exit_coordinator in blast)

lemma reachable_not_returned:
  assumes "reachable s" "i < length (sy_workers s)"
  shows "exit_ok (sy_workers s ! i)"
proof -
  have "phase_pred (sy_pc s) i (sy_workers s ! i)" using reachable_inv [OF assms(1)] assms(2) by (simp add: protocol_inv_def)
  then show ?thesis by (cases "sy_pc s") (auto simp: worker_shapes exit_ok_def split: if_splits)
qed

section \<open>Property\<close>

text \<open>
  C26. Shutdown terminates: started in any state the main loop reaches with \<open>n\<close> workers, the
  destructor and the workers together take at most \<open>7 * n + 2\<close> steps, never get stuck before the
  destructor is done, and then every worker has been joined and deleted. The number of stopped
  workers it logs is always 0, because the first call of \<open>destroyUnusedWorkers\<close> has removed them.
\<close>

theorem shutdown_terminates:
  assumes "reachable s" "exit_run (X_BCAST 0, sy_workers s) n (pc, ws)"
  shows "n \<le> 7 * length (sy_workers s) + 2
    \<and> (if \<exists>k. pc = X_DONE k then pc = X_DONE 0 \<and> ws = [] else \<exists>y. exit_step (pc, ws) y)"
proof -
  have inv: "exit_inv (X_BCAST 0, sy_workers s)" using reachable_not_returned [OF assms(1)] by simp
  note r = exit_run_inv [OF assms(2) inv]
  have "sum_list (map worker_rank (sy_workers s)) \<le> sum_list (map (\<lambda>_. 3) (sy_workers s))"
    by (intro sum_list_mono) (rule rank_le)
  then have "n \<le> 7 * length (sy_workers s) + 2" using r by (simp add: sum_list_triv)
  then show ?thesis using r exit_enabled by auto
qed

lemma finished_exit: "exit_run (X_BCAST 0, sy_workers finished_system) 0 (X_BCAST 0, sy_workers finished_system)"
  by (rule exit_start)

lemma shutdown_terminates_witness: "\<exists>y. exit_step (X_BCAST 0, sy_workers finished_system) y"
  using shutdown_terminates [OF finished_system_reachable finished_exit] by simp

end
