(* ===== verification/Coordinator.thy ===== *)
theory Coordinator
  imports Transaction
begin

text \<open>
  The transaction buffer of \<open>AriaCoordinator\<close>: \<open>addTransaction\<close> unpacks a wrapper into the
  FIFO queue, \<open>getWorkload\<close> cuts the next workload of the current epoch from its front. Both
  wait on a condition variable: the predicates are \<open>add_ready\<close> and \<open>get_ready\<close>. The numbers
  are the macros of \<open>complie_config.h\<close> with \<open>SCALE\<close> 100.
\<close>

definition coordinator_input_max :: nat where "coordinator_input_max = 5000"
definition coordinator_max_workload :: nat where "coordinator_max_workload = 1000"
definition coordinator_min_workload :: nat where "coordinator_min_workload = 500"

section \<open>Filling\<close>

definition add_ready :: "tptr list \<Rightarrow> wrapper \<Rightarrow> bool" where
  "add_ready buf w \<longleftrightarrow> length buf + unat (wrap_size w) \<le> coordinator_input_max"

text \<open>\<open>while (trWrapper->size() > 0) transactionBuffer.push(trWrapper->popTransaction())\<close>\<close>

function unpack :: "wrapper \<Rightarrow> tptr list \<Rightarrow> tptr list" where
  "unpack w buf = (case popTransaction w of Inl e \<Rightarrow> buf | Inr (a, w1) \<Rightarrow> unpack w1 (buf @ [a]))"
  by pat_completeness auto
termination
  by (relation "measure (\<lambda>(w, buf). length (wrap_list w))")
    (auto simp: popTransaction_def split: if_splits)

declare unpack.simps [simp del]

text \<open>\<open>None\<close>: the call waits.\<close>

definition addTransaction :: "wrapper \<Rightarrow> tptr list \<Rightarrow> tptr list option" where
  "addTransaction w buf = (if add_ready buf w then Some (unpack w buf) else None)"

section \<open>Cutting workloads\<close>

definition get_ready :: "tstore \<Rightarrow> u32 \<Rightarrow> tptr list \<Rightarrow> bool res" where
  "get_ready st epoch buf =
     (if buf = [] then Inr False
      else bind_res (tget st (Some (last buf))) (\<lambda>t.
        if getEpoch t > epoch then Inr True
        else if length buf < coordinator_min_workload then Inr False
        else Inr True))"

text \<open>
  The loop: each round takes the front transaction and looks at the next one. The last
  component says whether the final \<open>front()\<close> was called on an empty queue.
\<close>

fun cut_loop :: "tstore \<Rightarrow> u32 \<Rightarrow> tptr list \<Rightarrow> tptr list \<Rightarrow> (tptr list \<times> tptr list \<times> bool) res" where
  "cut_loop st epoch acc [] = Inl OutOfRange"
| "cut_loop st epoch acc (a # q) =
     bind_res (tget st (Some a)) (\<lambda>t.
     check (getEpoch t = epoch) (
     let acc1 = acc @ [a] in
     case q of
       [] \<Rightarrow> Inr (acc1, [], True)
     | b # _ \<Rightarrow> bind_res (tget st (Some b)) (\<lambda>t1.
         if getEpoch t1 = epoch \<and> length acc1 < coordinator_max_workload
         then cut_loop st epoch acc1 q
         else Inr (acc1, q, False))))"

record workload =
  wl_epoch :: u32
  wl_transactions :: "tptr list"

datatype get_answer = EpochEmpty | GotWorkload workload "tptr list" bool

definition getWorkload :: "tstore \<Rightarrow> u32 \<Rightarrow> tptr list \<Rightarrow> get_answer res" where
  "getWorkload st epoch buf =
     (case buf of [] \<Rightarrow> Inl OutOfRange
      | a # q \<Rightarrow> bind_res (tget st (Some a)) (\<lambda>t.
          if getEpoch t > epoch then Inr EpochEmpty
          else bind_res (cut_loop st epoch [] buf) (\<lambda>(ts, rest, ub).
            Inr (GotWorkload \<lparr>wl_epoch = getEpoch t, wl_transactions = ts\<rparr> rest ub))))"

section \<open>Lemmas\<close>

lemma unpack_eq: "unpack w buf = buf @ rev (wrap_list w)"
proof (induction w buf rule: unpack.induct)
  case (1 w buf)
  show ?case
  proof (cases "wrap_list w" rule: rev_cases)
    case Nil
    then show ?thesis by (subst unpack.simps) (simp add: popTransaction_def)
  next
    case (snoc xs x)
    have p: "popTransaction w = Inr (x, w\<lparr>wrap_list := xs\<rparr>)" using snoc by (simp add: popTransaction_def)
    show ?thesis using "1.IH" [OF p refl] snoc by (subst unpack.simps) (simp add: p)
  qed
qed

definition epoch_of :: "tstore \<Rightarrow> tptr \<Rightarrow> u32" where
  "epoch_of st a = (case st a of None \<Rightarrow> 0 | Some t \<Rightarrow> tr_epoch t)"

definition same_epoch_prefix :: "tstore \<Rightarrow> u32 \<Rightarrow> tptr list \<Rightarrow> tptr list" where
  "same_epoch_prefix st e buf = takeWhile (\<lambda>a. epoch_of st a = e) buf"

lemma cut_loop_eq:
  assumes "set buf \<subseteq> dom st" "buf \<noteq> []" "epoch_of st (hd buf) = e" "length acc < coordinator_max_workload"
  defines "n \<equiv> min (length (same_epoch_prefix st e buf)) (coordinator_max_workload - length acc)"
  shows "cut_loop st e acc buf = Inr (acc @ take n buf, drop n buf, n = length buf)"
  using assms(1-4) unfolding n_def
proof (induction buf arbitrary: acc)
  case (Cons a q)
  obtain t where t: "st a = Some t" "tr_epoch t = e" using Cons.prems by (auto simp: epoch_of_def)
  let ?acc1 = "acc @ [a]"
  let ?k = "length (same_epoch_prefix st e q)"
  have pa: "length (same_epoch_prefix st e (a # q)) = Suc ?k" using t by (simp add: same_epoch_prefix_def epoch_of_def)
  show ?case
  proof (cases q)
    case Nil
    then show ?thesis using t Cons.prems(4) by (simp add: getEpoch_def same_epoch_prefix_def epoch_of_def)
  next
    case q: (Cons b r)
    obtain t1 where t1: "st b = Some t1" using Cons.prems(1) q by auto
    show ?thesis
    proof (cases "tr_epoch t1 = e \<and> Suc (length acc) < coordinator_max_workload")
      case True
      have "cut_loop st e ?acc1 q = Inr (?acc1 @ take (min ?k (coordinator_max_workload - length ?acc1)) q,
          drop (min ?k (coordinator_max_workload - length ?acc1)) q, min ?k (coordinator_max_workload - length ?acc1) = length q)"
        using Cons.IH [of ?acc1] Cons.prems t1 True q by (simp add: epoch_of_def)
      moreover have "min (Suc ?k) (coordinator_max_workload - length acc) = Suc (min ?k (coordinator_max_workload - length ?acc1))"
        using True by (auto simp: min_def)
      ultimately show ?thesis using t t1 True q pa by (simp add: getEpoch_def Let_def)
    next
      case False
      then have "min (Suc ?k) (coordinator_max_workload - length acc) = 1"
        using Cons.prems(4) t1 q by (auto simp: same_epoch_prefix_def epoch_of_def)
      then show ?thesis using t t1 False q pa by (auto simp: getEpoch_def Let_def)
    qed
  qed
qed simp

section \<open>Properties\<close>

text \<open>
  \<open>getWorkload\<close> is a fair cut of the queue: on a queue of valid transactions whose first
  one is of the current epoch it hands out the longest prefix of that epoch, at most 1000
  transactions and at least one, keeps the rest in order, and loses or duplicates nothing. It
  calls \<open>front()\<close> on an empty queue exactly when the cut empties the queue.
\<close>

theorem getWorkload_cuts_prefix:
  assumes "set buf \<subseteq> dom st" "buf \<noteq> []" "epoch_of st (hd buf) = e"
  shows "\<exists>ts rest. getWorkload st e buf = Inr (GotWorkload \<lparr>wl_epoch = e, wl_transactions = ts\<rparr> rest (rest = []))
    \<and> ts @ rest = buf \<and> ts = take 1000 (takeWhile (\<lambda>a. epoch_of st a = e) buf) \<and> ts \<noteq> []"
proof -
  let ?p = "takeWhile (\<lambda>a. epoch_of st a = e) buf"
  let ?n = "min (length ?p) 1000"
  obtain a q where buf: "buf = a # q" using assms(2) by (cases buf) auto
  obtain t where t: "st a = Some t" "tr_epoch t = e" using assms buf by (auto simp: epoch_of_def)
  have c: "cut_loop st e [] buf = Inr (take ?n buf, drop ?n buf, ?n = length buf)"
    using cut_loop_eq [OF assms, of "[]"] by (simp add: coordinator_max_workload_def same_epoch_prefix_def)
  have tk: "take ?n buf = take 1000 ?p"
  proof -
    have "take ?n buf = take 1000 (take (length ?p) buf)" by (simp add: min.commute)
    also have "take (length ?p) buf = ?p" by (rule takeWhile_eq_take [symmetric])
    finally show ?thesis .
  qed
  have ne: "?p \<noteq> []" using buf t by (simp add: epoch_of_def)
  have le: "?n \<le> length buf" using length_takeWhile_le [of "\<lambda>a. epoch_of st a = e" buf] by linarith
  have "getWorkload st e buf = Inr (GotWorkload \<lparr>wl_epoch = e, wl_transactions = take ?n buf\<rparr> (drop ?n buf) (?n = length buf))"
    using c t by (simp add: getWorkload_def buf getEpoch_def)
  moreover have "(?n = length buf) = (drop ?n buf = [])" using le by auto
  moreover have "take ?n buf \<noteq> []" using ne assms(2) by simp
  moreover note append_take_drop_id [of ?n buf]
  ultimately show ?thesis
    unfolding tk by - (rule exI [of _ "take 1000 ?p"], rule exI [of _ "drop ?n buf"], intro conjI; simp only: not_False_eq_True)
qed

definition epoch_store :: tstore where
  "epoch_store = [4 \<mapsto> mock_transaction 1 1, 5 \<mapsto> mock_transaction 1 2, 6 \<mapsto> mock_transaction 2 3]"

lemma getWorkload_cuts_prefix_witness:
  "getWorkload epoch_store 1 [4, 5, 6] = Inr (GotWorkload \<lparr>wl_epoch = 1, wl_transactions = [4, 5]\<rparr> [6] False)"
  using getWorkload_cuts_prefix [of "[4, 5, 6]" epoch_store 1]
  by (auto simp: epoch_store_def epoch_of_def mock_transaction_def)

text \<open>
  The buffer stays within its bound: \<open>addTransaction\<close> either waits or appends the whole
  wrapper, last transaction first, and the buffer never grows beyond 5000 transactions; a
  wrapper that fits an empty buffer is accepted once the buffer has drained.
\<close>

theorem addTransaction_bounded:
  assumes "length (wrap_list w) < 2 ^ 32"
  shows "(case addTransaction w buf of
      None \<Rightarrow> length buf + length (wrap_list w) > 5000
    | Some buf' \<Rightarrow> buf' = buf @ rev (wrap_list w) \<and> length buf' \<le> 5000)
    \<and> (length (wrap_list w) \<le> 5000 \<longrightarrow> addTransaction w [] \<noteq> None)"
  using assms by (auto simp: addTransaction_def add_ready_def unpack_eq wrap_size_def coordinator_input_max_def unat_of_nat)

lemma addTransaction_bounded_witness:
  "addTransaction \<lparr>wrap_epoch = 1, wrap_list = [5, 6]\<rparr> [4] = Some [4, 6, 5]"
  using addTransaction_bounded [of "\<lparr>wrap_epoch = 1, wrap_list = [5, 6]\<rparr>" "[4]"] by (auto split: option.splits)

text \<open>
  When \<open>getWorkload\<close> proceeds: only with a transaction of a later epoch at the back of the
  queue or at least 500 transactions in it; an empty queue always waits. So the tail of an
  epoch shorter than 500 is handed out only after the next epoch has begun.
\<close>

theorem getWorkload_waits:
  assumes "set buf \<subseteq> dom st"
  shows "get_ready st e buf = Inr (buf \<noteq> [] \<and> (e < epoch_of st (last buf) \<or> 500 \<le> length buf))"
proof (cases "buf = []")
  case False
  then have "last buf \<in> dom st" using assms last_in_set by blast
  then obtain t where "st (last buf) = Some t" by blast
  then show ?thesis using False
    by (auto simp: get_ready_def getEpoch_def epoch_of_def coordinator_min_workload_def)
qed (simp add: get_ready_def)

lemma getWorkload_waits_witness: "get_ready epoch_store 1 [4, 5] = Inr False \<and> get_ready epoch_store 1 [4, 5, 6] = Inr True"
  using getWorkload_waits [of "[4, 5]" epoch_store 1] getWorkload_waits [of "[4, 5, 6]" epoch_store 1]
  by (auto simp: epoch_store_def epoch_of_def mock_transaction_def)

end
