(* ===== verification/TransactionManager.thy ===== *)
theory TransactionManager
  imports Transaction
begin

text \<open>
  \<open>TransactionManagerImpl\<close> (\<open>transaction_manager_impl.cpp\<close>): the loop that takes transactions
  from the communication module, sends them to the coordinator, and at the end of an epoch
  sorts them into the block and the retries. The two interfaces it calls, \<open>Comm\<close> and
  \<open>BlockGenerator\<close>, are the fields of \<open>tm_env\<close>; \<open>sendTransactionHandle\<close> appends the wrapper to
  \<open>tm_sent\<close>. \<open>DCHECK\<close>s are those of a build without \<open>NDEBUG\<close>. The code runs this loop in one thread; \<open>lastEpochFinishSignal\<close> is written by the
  coordinator's thread between two iterations.
\<close>

section \<open>Interfaces and state\<close>

record ('m, 'g) tm_env =
  te_get :: "u32 \<Rightarrow> u32 \<Rightarrow> u32 \<Rightarrow> tstore \<Rightarrow> 'm \<Rightarrow> (wrapper option \<times> tstore \<times> 'm) res"
  te_clear :: "u32 \<Rightarrow> tstore \<Rightarrow> 'm \<Rightarrow> (tstore \<times> 'm) res"
  te_latest :: "'g \<Rightarrow> int"
  te_add :: "tptr \<Rightarrow> 'g \<Rightarrow> u32 \<times> 'g"
  te_generate :: "tstore \<Rightarrow> 'g \<Rightarrow> (u32 \<times> 'g) res"

record ('m, 'g) tr_manager =
  tm_current :: wrapper
  tm_next :: wrapper
  tm_epoch :: u32
  tm_finished :: u32
  tm_comm :: 'm
  tm_gen :: 'g
  tm_store :: tstore
  tm_sent :: "wrapper list"

definition TR_MGR_GET_BATCH_MAX_SIZE :: u32 where "TR_MGR_GET_BATCH_MAX_SIZE = 5 * 100"

definition TR_MGR_GET_BATCH_MIN_SIZE :: u32 where "TR_MGR_GET_BATCH_MIN_SIZE = 5 * 100"

definition new_tr_manager :: "('m, 'g) tm_env \<Rightarrow> 'm \<Rightarrow> 'g \<Rightarrow> tstore \<Rightarrow> ('m, 'g) tr_manager" where
  "new_tr_manager ev m g st =
     (let finished = of_int (te_latest ev g); e = finished + 1
      in \<lparr>tm_current = new_wrapper e, tm_next = new_wrapper (e + 1), tm_epoch = e, tm_finished = finished,
          tm_comm = m, tm_gen = g, tm_store = st, tm_sent = []\<rparr>)"

definition sendTransactionHandle :: "wrapper \<Rightarrow> ('m, 'g) tr_manager \<Rightarrow> ('m, 'g) tr_manager" where
  "sendTransactionHandle w tm = tm\<lparr>tm_sent := tm_sent tm @ [w]\<rparr>"

section \<open>Taking transactions\<close>

text \<open>The inner loop may not end: \<open>None\<close>.\<close>

partial_function (option) get_current :: "('m, 'g) tm_env \<Rightarrow> ('m, 'g) tr_manager \<Rightarrow> ('m, 'g) tr_manager res option" where
  "get_current ev tm =
     (case te_get ev (tm_epoch tm) TR_MGR_GET_BATCH_MAX_SIZE TR_MGR_GET_BATCH_MIN_SIZE (tm_store tm) (tm_comm tm) of
        Inl f \<Rightarrow> Some (Inl f)
      | Inr (p, st, m) \<Rightarrow>
         (case p of None \<Rightarrow> Some (Inr (tm\<lparr>tm_store := st, tm_comm := m\<rparr>))
          | Some w \<Rightarrow>
             (let w1 = wrap_setEpoch (tm_epoch tm) w
              in get_current ev (sendTransactionHandle w1
                   (tm\<lparr>tm_store := st, tm_comm := m, tm_current := pushTransactionUncheck_wrapper w1 (tm_current tm)\<rparr>)))))"

text \<open>A wrapper of the next epoch is labelled with the current one.\<close>

definition get_next :: "('m, 'g) tm_env \<Rightarrow> ('m, 'g) tr_manager \<Rightarrow> ('m, 'g) tr_manager res" where
  "get_next ev tm =
     bind_res (te_get ev (tm_epoch tm + 1) TR_MGR_GET_BATCH_MAX_SIZE TR_MGR_GET_BATCH_MIN_SIZE (tm_store tm) (tm_comm tm))
       (\<lambda>(p, st, m). case p of None \<Rightarrow> Inr (tm\<lparr>tm_store := st, tm_comm := m\<rparr>)
        | Some w \<Rightarrow> (let w1 = wrap_setEpoch (tm_epoch tm) w
            in Inr (sendTransactionHandle w1
                 (tm\<lparr>tm_store := st, tm_comm := m, tm_next := pushTransactionUncheck_wrapper w1 (tm_next tm)\<rparr>))))"

section \<open>The end of an epoch\<close>

text \<open>One transaction of the finished epoch; \<open>w\<close> is the batch of retries being filled.\<close>

definition sort_transaction :: "('m, 'g) tm_env \<Rightarrow> tptr \<Rightarrow> wrapper \<times> ('m, 'g) tr_manager
    \<Rightarrow> (wrapper \<times> ('m, 'g) tr_manager) res" where
  "sort_transaction ev a = (\<lambda>(w, tm).
     bind_res (tget (tm_store tm) (Some a)) (\<lambda>t. check (tm_finished tm = getEpoch t) (
       if getTransactionResult t = ABORT then
         let e = tm_epoch tm + 1;
             tm1 = tm\<lparr>tm_store := tupd (\<lambda>t. setEpoch e (resetTransaction t)) a (tm_store tm)\<rparr>
         in bind_res (pushTransaction (tm_store tm1) (Some a) w) (\<lambda>(_, w1).
              let (w2, tm2) = (if wrap_size w1 = TR_MGR_GET_BATCH_MAX_SIZE
                               then (new_wrapper e, sendTransactionHandle w1 tm1) else (w1, tm1))
              in bind_res (pushTransaction (tm_store tm2) (Some a) (tm_next tm2)) (\<lambda>(_, nx).
                   Inr (w2, tm2\<lparr>tm_next := nx\<rparr>)))
       else if getTransactionResult t = COMMIT \<or> getTransactionResult t = ABORT_NO_RETRY then
         Inr (w, tm\<lparr>tm_gen := snd (te_add ev a (tm_gen tm))\<rparr>)
       else Inr (w, tm))))"

fun sort_transactions :: "('m, 'g) tm_env \<Rightarrow> tptr list \<Rightarrow> wrapper \<times> ('m, 'g) tr_manager
    \<Rightarrow> (wrapper \<times> ('m, 'g) tr_manager) res" where
  "sort_transactions ev [] s = Inr s"
| "sort_transactions ev (a # as) s = bind_res (sort_transaction ev a s) (sort_transactions ev as)"

definition finish_epoch :: "('m, 'g) tm_env \<Rightarrow> ('m, 'g) tr_manager \<Rightarrow> ('m, 'g) tr_manager res" where
  "finish_epoch ev tm =
     bind_res (sort_transactions ev (getTransactionList (tm_current tm)) (new_wrapper (tm_epoch tm + 1), tm)) (\<lambda>(w, tm1).
     let tm2 = sendTransactionHandle w tm1 in
     bind_res (te_generate ev (tm_store tm2) (tm_gen tm2)) (\<lambda>(r, g).
     check (r \<noteq> 0) (
     bind_res (te_clear ev (tm_epoch tm2) (tm_store tm2) (tm_comm tm2)) (\<lambda>(st, m).
       let e = tm_epoch tm2 + 1
       in Inr (tm2\<lparr>tm_gen := g, tm_store := st, tm_comm := m, tm_epoch := e, tm_current := tm_next tm2,
                   tm_next := new_wrapper (e + 1)\<rparr>)))))"

text \<open>One pass of the loop of \<open>run\<close>.\<close>

definition tm_run_once :: "('m, 'g) tm_env \<Rightarrow> ('m, 'g) tr_manager \<Rightarrow> ('m, 'g) tr_manager res option" where
  "tm_run_once ev tm =
     map_option (\<lambda>r. bind_res r (\<lambda>tm1. bind_res (get_next ev tm1) (\<lambda>tm2.
       if tm_finished tm2 = tm_epoch tm2 then finish_epoch ev tm2 else Inr tm2))) (get_current ev tm)"

section \<open>The contracts of the interfaces\<close>

text \<open>
  What the manager needs of a communication module asked for a fixed epoch and sizes: every
  wrapper it hands out lowers the number of transactions pending for that epoch.
\<close>

locale comm_module =
  fixes get :: "tstore \<Rightarrow> 'm \<Rightarrow> (wrapper option \<times> tstore \<times> 'm) res"
    and inv :: "'m \<Rightarrow> bool" and pending :: "'m \<Rightarrow> nat"
  assumes keeps: "inv m \<Longrightarrow> get st m = Inr (p, st', m') \<Longrightarrow> inv m'"
    and progress: "inv m \<Longrightarrow> get st m = Inr (Some w, st', m') \<Longrightarrow> pending m' < pending m"
begin

lemma get_current_returns:
  assumes "te_get ev (tm_epoch tm) TR_MGR_GET_BATCH_MAX_SIZE TR_MGR_GET_BATCH_MIN_SIZE = get" "inv (tm_comm tm)"
  shows "\<exists>r. get_current ev tm = Some r \<and> (\<forall>f. r = Inl f \<longrightarrow> (\<exists>st m. inv m \<and> get st m = Inl f)) \<and> (\<forall>tm'. r = Inr tm' \<longrightarrow> inv (tm_comm tm') \<and> tm_epoch tm' = tm_epoch tm
    \<and> tm_gen tm' = tm_gen tm \<and> tm_next tm' = tm_next tm
    \<and> (\<exists>ws. tm_sent tm' = tm_sent tm @ ws \<and> (\<forall>w \<in> set ws. wrap_epoch w = tm_epoch tm)
         \<and> wrap_list (tm_current tm') = wrap_list (tm_current tm) @ concat (map wrap_list ws)))"
  using assms
proof (induction "pending (tm_comm tm)" arbitrary: tm rule: less_induct)
  case less
  show ?case
  proof (cases "get (tm_store tm) (tm_comm tm)")
    case (Inl f)
    then show ?thesis using less.prems by (subst get_current.simps) auto
  next
    case (Inr r)
    obtain p st m where r: "r = (p, st, m)" by (cases r)
    have m: "inv m" using keeps [OF less.prems(2)] Inr r by blast
    show ?thesis
    proof (cases p)
      case None
      then show ?thesis using less.prems(1) Inr r m by (subst get_current.simps) simp
    next
      case (Some w)
      let ?w = "wrap_setEpoch (tm_epoch tm) w"
      let ?tm = "sendTransactionHandle ?w
        (tm\<lparr>tm_store := st, tm_comm := m, tm_current := pushTransactionUncheck_wrapper ?w (tm_current tm)\<rparr>)"
      have step: "get_current ev tm = get_current ev ?tm"
        using less.prems(1) Inr r Some by (subst get_current.simps) (simp add: Let_def)
      have "pending (tm_comm ?tm) < pending (tm_comm tm)"
        using progress [OF less.prems(2)] Inr r Some by (simp add: sendTransactionHandle_def)
      from less.hyps [OF this] obtain r' where r': "get_current ev ?tm = Some r'" "\<forall>f. r' = Inl f \<longrightarrow> (\<exists>st m. inv m \<and> get st m = Inl f)"
        "\<forall>tm'. r' = Inr tm' \<longrightarrow> inv (tm_comm tm') \<and> tm_epoch tm' = tm_epoch tm \<and> tm_gen tm' = tm_gen tm
          \<and> tm_next tm' = tm_next tm \<and> (\<exists>ws. tm_sent tm' = tm_sent ?tm @ ws \<and> (\<forall>w \<in> set ws. wrap_epoch w = tm_epoch tm)
          \<and> wrap_list (tm_current tm') = wrap_list (tm_current ?tm) @ concat (map wrap_list ws))"
        using less.prems(1) m by (auto simp: sendTransactionHandle_def)
      have head: "tm_sent ?tm = tm_sent tm @ [?w]" "wrap_epoch ?w = tm_epoch tm"
        "wrap_list (tm_current ?tm) = wrap_list (tm_current tm) @ wrap_list ?w"
        by (simp_all add: sendTransactionHandle_def wrap_setEpoch_def pushTransactionUncheck_wrapper_def pushTransactionUncheck_list_def)
      have "\<exists>ws. tm_sent tm' = tm_sent tm @ ws \<and> (\<forall>w \<in> set ws. wrap_epoch w = tm_epoch tm)
          \<and> wrap_list (tm_current tm') = wrap_list (tm_current tm) @ concat (map wrap_list ws)" if tm': "r' = Inr tm'" for tm'
      proof -
        obtain ws where ws: "tm_sent tm' = tm_sent ?tm @ ws" "\<forall>w \<in> set ws. wrap_epoch w = tm_epoch tm"
          "wrap_list (tm_current tm') = wrap_list (tm_current ?tm) @ concat (map wrap_list ws)" using r'(3) tm' by blast
        show ?thesis using ws head by (intro exI [of _ "?w # ws"]) simp
      qed
      then show ?thesis using step r' by (intro exI [of _ r']) simp
    qed
  qed
qed

end

end
