(* ===== verification/CryptoSign.thy ===== *)
theory CryptoSign
  imports Prelude
begin

text \<open>
  \<open>CryptoSign\<close> (\<open>crypto_sign.h\<close>, \<open>crypto_sign.cpp\<close>): signing and verifying with RSA, key files.
  OpenSSL is not part of the repository: the record \<open>openssl\<close> collects the library functions
  the class calls, with their C return values, as parameters. \<open>openssl_ok\<close> states the
  documented behaviour that a correct signature verifies and that a written key is read back.
  Files are a map from names to contents. A BIO, key or number the code holds is listed in the
  \<open>live\<close> resources until it is freed.
\<close>

section \<open>The library and the state\<close>

record ('c, 'k) openssl =
  os_md_init :: "'c \<Rightarrow> 'c"
  os_sign_init :: "'c \<Rightarrow> int \<times> 'c"
  os_sign_update :: "'c \<Rightarrow> string \<Rightarrow> int \<times> 'c"
  os_sign_final :: "'c \<Rightarrow> 'k option \<Rightarrow> int \<times> string \<times> 'c"
  os_verify_init :: "'c \<Rightarrow> int \<times> 'c"
  os_verify_update :: "'c \<Rightarrow> string \<Rightarrow> int \<times> 'c"
  os_verify_final :: "'c \<Rightarrow> string \<Rightarrow> 'k option \<Rightarrow> int \<times> 'c"
  os_generate_key :: "'k"
  os_public_part :: "'k \<Rightarrow> 'k"
  os_bio_new :: bool
  os_writable :: "string \<Rightarrow> bool"
  os_write_public :: "'k \<Rightarrow> string option"
  os_write_private :: "'k \<Rightarrow> string \<Rightarrow> string option"
  os_read_public :: "string \<Rightarrow> 'k option"
  os_read_private :: "string \<Rightarrow> string \<Rightarrow> 'k option"
  os_pkey_new :: bool

type_synonym files = "string \<rightharpoonup> string"

record ('c, 'k) crypto_sign =
  cs_pubKey :: "'k option"
  cs_pivKey :: "'k option"
  cs_mdCtx :: 'c

datatype resource = R_BIGNUM | R_RSA | R_BIO

section \<open>Signatures\<close>

text \<open>
  The signature is written over a buffer of 1024 zero bytes; a longer one would leave it. The
  result is the return value, the string left in \<open>*signature\<close> and the object.
\<close>

definition sign_buffer_size :: nat where "sign_buffer_size = 1024"

definition rsaEncrypt :: "('c, 'k) openssl \<Rightarrow> string \<Rightarrow> ('c, 'k) crypto_sign
    \<Rightarrow> (bool \<times> string \<times> ('c, 'k) crypto_sign) res" where
  "rsaEncrypt os message cs =
     (let buf = replicate sign_buffer_size (CHR 0x00); (r1, c1) = os_sign_init os (os_md_init os (cs_mdCtx cs))
      in if r1 = 0 then Inr (False, buf, cs\<lparr>cs_mdCtx := c1\<rparr>)
         else let (r2, c2) = os_sign_update os c1 message
      in if r2 = 0 then Inr (False, buf, cs\<lparr>cs_mdCtx := c2\<rparr>)
         else let (r3, sig, c3) = os_sign_final os c2 (cs_pivKey cs)
      in if length sig > sign_buffer_size then Inl OutOfRange
         else if r3 = 0 then Inr (False, sig @ drop (length sig) buf, cs\<lparr>cs_mdCtx := c3\<rparr>)
         else Inr (True, sig, cs\<lparr>cs_mdCtx := c3\<rparr>))"

text \<open>
  The three return values are tested with \<open>!\<close>: every non-zero value counts as success. The
  method is \<open>const\<close>, but the context it points to changes.
\<close>

definition rsaDecrypt :: "('c, 'k) openssl \<Rightarrow> string \<Rightarrow> string \<Rightarrow> ('c, 'k) crypto_sign
    \<Rightarrow> bool \<times> ('c, 'k) crypto_sign" where
  "rsaDecrypt os message signature cs =
     (let (r1, c1) = os_verify_init os (os_md_init os (cs_mdCtx cs))
      in if r1 = 0 then (False, cs\<lparr>cs_mdCtx := c1\<rparr>)
         else let (r2, c2) = os_verify_update os c1 message
      in if r2 = 0 then (False, cs\<lparr>cs_mdCtx := c2\<rparr>)
         else let (r3, c3) = os_verify_final os c2 signature (cs_pubKey cs)
      in (r3 \<noteq> 0, cs\<lparr>cs_mdCtx := c3\<rparr>))"

section \<open>Key files\<close>

text \<open>
  \<open>generateKeyFiles\<close> returns its result, the files it leaves and the resources it has not
  freed. \<open>passwd_len\<close> bytes are taken from \<open>passwd\<close>; reading past its end is \<open>OutOfRange\<close>.
\<close>

definition generateKeyFiles :: "('c, 'k) openssl \<Rightarrow> string \<Rightarrow> string \<Rightarrow> string \<Rightarrow> nat \<Rightarrow> files
    \<Rightarrow> (bool \<times> files \<times> resource list) res" where
  "generateKeyFiles os pub piv passwd passwd_len fs =
     (let rsa = os_generate_key os; live = [R_BIGNUM, R_RSA] in
      if \<not> os_bio_new os then Inr (False, fs, live)
      else if \<not> os_writable os pub then Inr (False, fs, R_BIO # live)
      else case os_write_public os rsa of
        None \<Rightarrow> Inr (False, fs(pub \<mapsto> []), R_BIO # live)
      | Some t \<Rightarrow>
         (let fs1 = fs(pub \<mapsto> t) in
          if \<not> os_writable os piv then Inr (False, fs1, live)
          else if length passwd < passwd_len then Inl OutOfRange
          else case os_write_private os rsa (take passwd_len passwd) of
            None \<Rightarrow> Inr (False, fs1(piv \<mapsto> []), R_BIO # live)
          | Some u \<Rightarrow> Inr (True, fs1(piv \<mapsto> u), [])))"

text \<open>
  Reading a key: the file may be missing (\<open>BIO_new_file\<close> gives null, reading through the other
  BIO gives no key), its text may not parse. A C string ends at its first zero byte.
\<close>

definition c_string :: "string \<Rightarrow> string" where
  "c_string s = takeWhile (\<lambda>c. c \<noteq> CHR 0x00) s"

definition openPublicKey :: "('c, 'k) openssl \<Rightarrow> files \<Rightarrow> string \<Rightarrow> 'k option" where
  "openPublicKey os fs keyfile =
     (if \<not> os_bio_new os then None
      else case Option.bind (fs keyfile) (os_read_public os) of
        None \<Rightarrow> None
      | Some rsa \<Rightarrow> if \<not> os_pkey_new os then None else Some rsa)"

definition openPrivateKey :: "('c, 'k) openssl \<Rightarrow> files \<Rightarrow> string \<Rightarrow> string \<Rightarrow> 'k option" where
  "openPrivateKey os fs keyfile passwd =
     (case fs keyfile of None \<Rightarrow> None
      | Some t \<Rightarrow> (case os_read_private os t (c_string passwd) of
          None \<Rightarrow> None
        | Some rsa \<Rightarrow> if \<not> os_pkey_new os then None else Some rsa))"

definition new_crypto_sign :: "('c, 'k) openssl \<Rightarrow> 'c \<Rightarrow> files \<Rightarrow> string \<Rightarrow> string \<Rightarrow> string
    \<Rightarrow> ('c, 'k) crypto_sign" where
  "new_crypto_sign os ctx fs pubKeyFile pivKeyFile password =
     \<lparr>cs_pubKey = openPublicKey os fs (c_string pubKeyFile),
      cs_pivKey = openPrivateKey os fs (c_string pivKeyFile) password, cs_mdCtx = ctx\<rparr>"

text \<open>The shift \<open>temp >> 1\<close> has no effect, so the mask stays 127.\<close>

definition printDigest :: "string \<Rightarrow> string" where
  "printDigest signature =
     concat (map (\<lambda>c. replicate 8 (char_of (of_char c mod (128::nat)))) signature) @ [CHR 0x0A]"

section \<open>Documented behaviour of the library\<close>

text \<open>
  A key is a pair of parts, and the public part verifies what the whole key signs: starting
  from a reset context, hashing the same message, \<open>EVP_VerifyFinal\<close> returns 1 for the signature
  that \<open>EVP_SignFinal\<close> produced with success, which is no longer than the modulus. A key
  written in PEM form is read back: the public part from the public file, the key from the
  private file with the same passphrase.
\<close>

definition openssl_ok :: "('c, 'k) openssl \<Rightarrow> bool" where
  "openssl_ok os \<longleftrightarrow>
     (\<forall>k t. os_write_public os k = Some t \<longrightarrow> os_read_public os t = Some (os_public_part os k))
   \<and> (\<forall>k p t. os_write_private os k p = Some t \<longrightarrow> os_read_private os t p = Some k)
   \<and> (\<forall>c m k r1 c1 r2 c2 r3 sig c3. os_sign_init os (os_md_init os c) = (r1, c1)
        \<longrightarrow> os_sign_update os c1 m = (r2, c2) \<longrightarrow> os_sign_final os c2 (Some k) = (r3, sig, c3)
        \<longrightarrow> r1 \<noteq> 0 \<longrightarrow> r2 \<noteq> 0 \<longrightarrow> r3 \<noteq> 0 \<longrightarrow>
        length sig \<le> sign_buffer_size \<and>
        (\<forall>d. \<exists>d1 d2 d3. os_verify_init os (os_md_init os d) = (1, d1) \<and> os_verify_update os d1 m = (1, d2)
           \<and> os_verify_final os d2 sig (Some (os_public_part os k)) = (1, d3)))"

lemma generateKeyFiles_True:
  assumes "generateKeyFiles os pub piv pass n fs = Inr (True, fs', live)"
  obtains t u where "os_write_public os (os_generate_key os) = Some t"
    "os_write_private os (os_generate_key os) (take n pass) = Some u" "fs' = fs(pub \<mapsto> t, piv \<mapsto> u)"
    "live = []" "os_bio_new os" "n \<le> length pass"
  using assms by (auto simp: generateKeyFiles_def Let_def split: if_splits option.splits)

lemma rsaEncrypt_True:
  assumes "rsaEncrypt os m cs = Inr (True, sig, cs')"
  obtains r1 c1 r2 c2 r3 c3 where "os_sign_init os (os_md_init os (cs_mdCtx cs)) = (r1, c1)" "r1 \<noteq> 0"
    "os_sign_update os c1 m = (r2, c2)" "r2 \<noteq> 0" "os_sign_final os c2 (cs_pivKey cs) = (r3, sig, c3)" "r3 \<noteq> 0"
    "cs' = cs\<lparr>cs_mdCtx := c3\<rparr>"
  using assms by (auto simp: rsaEncrypt_def Let_def split: if_splits prod.splits)

lemma rsaDecrypt_iff:
  "fst (rsaDecrypt os m sig cs) \<longleftrightarrow>
     (let (r1, c1) = os_verify_init os (os_md_init os (cs_mdCtx cs)); (r2, c2) = os_verify_update os c1 m;
          (r3, c3) = os_verify_final os c2 sig (cs_pubKey cs) in r1 \<noteq> 0 \<and> r2 \<noteq> 0 \<and> r3 \<noteq> 0)"
  by (simp add: rsaDecrypt_def Let_def split: prod.split)

lemma rsa_sign_verify:
  assumes ok: "openssl_ok os" and keys: "cs_pivKey cs = Some k" "cs_pubKey vs = Some (os_public_part os k)"
    and sign: "rsaEncrypt os m cs = Inr (True, sig, cs')"
  shows "fst (rsaDecrypt os m sig vs)"
proof -
  obtain r1 c1 r2 c2 r3 c3 where s: "os_sign_init os (os_md_init os (cs_mdCtx cs)) = (r1, c1)" "r1 \<noteq> 0"
    "os_sign_update os c1 m = (r2, c2)" "r2 \<noteq> 0" "os_sign_final os c2 (Some k) = (r3, sig, c3)" "r3 \<noteq> 0"
    using rsaEncrypt_True [OF sign] keys(1) by metis
  have "\<exists>d1 d2 d3. os_verify_init os (os_md_init os (cs_mdCtx vs)) = (1, d1) \<and> os_verify_update os d1 m = (1, d2)
      \<and> os_verify_final os d2 sig (Some (os_public_part os k)) = (1, d3)"
    using ok [unfolded openssl_ok_def, THEN conjunct2, THEN conjunct2] s by blast
  then show ?thesis using keys(2) by (auto simp: rsaDecrypt_iff)
qed

section \<open>Properties\<close>

text \<open>
  Key files and signatures round trip: after \<open>generateKeyFiles\<close> has succeeded for two
  different file names, with the whole zero-free passphrase, an object constructed from the two
  files accepts with \<open>rsaDecrypt\<close> every signature that \<open>rsaEncrypt\<close> of an object constructed
  from them makes of the same message, and no resource of the key generation is left.
\<close>

theorem key_files_sign_verify:
  assumes ok: "openssl_ok os" "os_pkey_new os" and ne: "pub \<noteq> piv"
    and pass: "CHR 0x00 \<notin> set pass" "CHR 0x00 \<notin> set pub" "CHR 0x00 \<notin> set piv"
    and gen: "generateKeyFiles os pub piv pass (length pass) fs = Inr (True, fs', live)"
    and sign: "rsaEncrypt os m (new_crypto_sign os c fs' pub piv pass) = Inr (True, sig, cs')"
  shows "fst (rsaDecrypt os m sig (new_crypto_sign os d fs' pub piv pass)) \<and> length sig \<le> 1024 \<and> live = []"
proof -
  obtain t u where g: "os_write_public os (os_generate_key os) = Some t"
    "os_write_private os (os_generate_key os) pass = Some u" "fs' = fs(pub \<mapsto> t, piv \<mapsto> u)" "live = []"
    "os_bio_new os" using generateKeyFiles_True [OF gen] by (metis order_refl take_all)
  have cstr: "c_string pass = pass" "c_string pub = pub" "c_string piv = piv"
    using pass by (auto simp: c_string_def takeWhile_eq_all_conv)
  have keys: "cs_pivKey (new_crypto_sign os x fs' pub piv pass) = Some (os_generate_key os)"
    "cs_pubKey (new_crypto_sign os x fs' pub piv pass) = Some (os_public_part os (os_generate_key os))" for x
    using g ne ok by (auto simp: new_crypto_sign_def openPublicKey_def openPrivateKey_def cstr openssl_ok_def)
  have "length sig \<le> 1024"
    using sign by (auto simp: rsaEncrypt_def sign_buffer_size_def Let_def split: if_splits prod.splits)
  then show ?thesis using rsa_sign_verify [OF ok(1) keys sign] g(4) by simp
qed

definition demo_openssl :: "(string, nat) openssl" where
  "demo_openssl = \<lparr>os_md_init = (\<lambda>_. []), os_sign_init = (\<lambda>c. (1, c)), os_sign_update = (\<lambda>c m. (1, c @ m)),
     os_sign_final = (\<lambda>c k. if k = None \<or> length c > 900 then (0, [], c) else (1, ''s'' @ c, c)),
     os_verify_init = (\<lambda>c. (1, c)), os_verify_update = (\<lambda>c m. (1, c @ m)),
     os_verify_final = (\<lambda>c sig k. (if k = None then - 1 else if sig = ''s'' @ c then 1 else 0, c)),
     os_generate_key = 5, os_public_part = (\<lambda>k. k), os_bio_new = True, os_writable = (\<lambda>_. True),
     os_write_public = (\<lambda>k. Some (replicate k (CHR ''p''))), os_write_private = (\<lambda>k p. Some (p @ replicate k (CHR ''q''))),
     os_read_public = (\<lambda>t. Some (length t)), os_read_private = (\<lambda>t p. Some (length t - length p)),
     os_pkey_new = True\<rparr>"

lemma demo_openssl_ok: "openssl_ok demo_openssl"
  by (auto simp: openssl_ok_def demo_openssl_def sign_buffer_size_def split: if_splits)

lemma key_files_sign_verify_witness:
  "\<exists>fs' sig cs'. generateKeyFiles demo_openssl ''a'' ''b'' ''pw'' 2 Map.empty = Inr (True, fs', [])
     \<and> rsaEncrypt demo_openssl ''m'' (new_crypto_sign demo_openssl [] fs' ''a'' ''b'' ''pw'') = Inr (True, sig, cs')
     \<and> fst (rsaDecrypt demo_openssl ''m'' sig (new_crypto_sign demo_openssl [] fs' ''a'' ''b'' ''pw''))"
proof -
  let ?fs = "[''a'' \<mapsto> ''ppppp'', ''b'' \<mapsto> ''pwqqqqq'']"
  have g: "generateKeyFiles demo_openssl ''a'' ''b'' ''pw'' (length ''pw'') Map.empty = Inr (True, ?fs, [])"
    by (simp add: generateKeyFiles_def demo_openssl_def numeral_nat)
  obtain cs' where s: "rsaEncrypt demo_openssl ''m'' (new_crypto_sign demo_openssl [] ?fs ''a'' ''b'' ''pw'') = Inr (True, ''sm'', cs')"
    by (simp add: rsaEncrypt_def new_crypto_sign_def openPublicKey_def openPrivateKey_def demo_openssl_def c_string_def sign_buffer_size_def)
  have k: "os_pkey_new demo_openssl" by (simp add: demo_openssl_def)
  have "fst (rsaDecrypt demo_openssl ''m'' ''sm'' (new_crypto_sign demo_openssl [] ?fs ''a'' ''b'' ''pw''))"
    using key_files_sign_verify [OF demo_openssl_ok k _ _ _ _ g s, of "[]"] by simp
  moreover have "length ''pw'' = 2" by simp
  ultimately show ?thesis using s g by metis
qed

text \<open>
  \<open>rsaDecrypt\<close> accepts exactly when none of the three library calls returns zero. So it
  accepts also when \<open>EVP_VerifyFinal\<close> reports with a negative value that it could not verify:
  with the library answering -1, every message and signature is accepted. For the sample
  library an object without a public key accepts any signature of any message.
\<close>

theorem verify_accepts_errors:
  "(fst (rsaDecrypt os m sig cs) \<longleftrightarrow>
     (let (r1, c1) = os_verify_init os (os_md_init os (cs_mdCtx cs)); (r2, c2) = os_verify_update os c1 m
      in r1 \<noteq> 0 \<and> r2 \<noteq> 0 \<and> fst (os_verify_final os c2 sig (cs_pubKey cs)) \<in> {..<0} \<union> {0<..}))
   \<and> fst (rsaDecrypt demo_openssl m sig \<lparr>cs_pubKey = None, cs_pivKey = p, cs_mdCtx = x\<rparr>)"
  by (auto simp: rsaDecrypt_iff Let_def demo_openssl_def neq_iff split: prod.split)

text \<open>
  Resources of \<open>generateKeyFiles\<close>: only a successful call frees what it has allocated. Every
  failing call leaks the big number and the RSA key, and the BIO too unless it failed to get
  one; a failure after the first half leaves the new public key file without its private key.
\<close>

theorem key_generation_leaks_on_failure:
  assumes "generateKeyFiles os pub piv pass n fs = Inr (b, fs', live)"
  shows "(b \<longleftrightarrow> live = []) \<and> (\<not> b \<longleftrightarrow> R_RSA \<in> set live) \<and> (\<not> b \<longleftrightarrow> R_BIGNUM \<in> set live)
    \<and> {f. fs' f \<noteq> fs f} \<subseteq> {pub, piv}
    \<and> (R_BIO \<in> set live \<longleftrightarrow> \<not> b \<and> os_bio_new os \<and> \<not> (\<exists>t. os_writable os pub \<and> \<not> os_writable os piv
          \<and> os_write_public os (os_generate_key os) = Some t \<and> fs' = fs(pub \<mapsto> t)))"
  using assms by (auto simp: generateKeyFiles_def Let_def split: if_splits option.splits)

lemma key_generation_leaks_on_failure_witness:
  "\<exists>fs' live. generateKeyFiles (demo_openssl\<lparr>os_writable := (\<lambda>f. f = ''a'')\<rparr>) ''a'' ''b'' ''pw'' 2 Map.empty = Inr (False, fs', live)
     \<and> R_RSA \<in> set live \<and> fs' ''a'' = Some ''ppppp''"
proof -
  have g: "generateKeyFiles (demo_openssl\<lparr>os_writable := (\<lambda>f. f = ''a'')\<rparr>) ''a'' ''b'' ''pw'' 2 Map.empty
      = Inr (False, [''a'' \<mapsto> ''ppppp''], [R_BIGNUM, R_RSA])"
    by (simp add: generateKeyFiles_def demo_openssl_def numeral_nat)
  show ?thesis using key_generation_leaks_on_failure [OF g] g by auto
qed

end
