(* ===== verification/Startup.thy ===== *)
theory Startup
  imports Coordinator TransactionManager CryptoSign
begin

text \<open>
  The configuration (\<open>yaml_config.cpp\<close>) and the start of a block server (\<open>server.cpp\<close>): the
  generation of all keys, and the epochs with which coordinator and transaction manager start.
  The YAML library is a parameter: \<open>yl_at\<close> is the subscript (\<open>None\<close> when it throws), \<open>yl_defined\<close>
  the conversion of a node to bool, \<open>yl_string\<close> and \<open>yl_bool\<close> are \<open>as<T>()\<close> (\<open>None\<close> when it throws).
\<close>

section \<open>Configuration\<close>

record 'n yaml =
  yl_load :: "string \<Rightarrow> 'n option"
  yl_at :: "'n \<Rightarrow> string \<Rightarrow> 'n option"
  yl_defined :: "'n \<Rightarrow> bool"
  yl_items :: "'n \<Rightarrow> 'n list"
  yl_size :: "'n \<Rightarrow> nat"
  yl_string :: "'n \<Rightarrow> string option"
  yl_bool :: "'n \<Rightarrow> bool option"

record server_config =
  sc_ip :: string
  sc_priFilePath :: string
  sc_pubFilePath :: string
  sc_usrPriFilePath :: string
  sc_usrPubFilePath :: string

record epoch_config =
  ec_priFilePath :: string
  ec_pubFilePath :: string

definition thrown :: "'a option \<Rightarrow> 'a res" where
  "thrown x = (case x of None \<Rightarrow> Inl Thrown | Some a \<Rightarrow> Inr a)"

definition node :: "'n yaml \<Rightarrow> 'n \<Rightarrow> string \<Rightarrow> 'n res" where
  "node y n k = thrown (yl_at y n k)"

definition field_string :: "'n yaml \<Rightarrow> 'n \<Rightarrow> string \<Rightarrow> string res" where
  "field_string y n k = bind_res (node y n k) (\<lambda>x. thrown (yl_string y x))"

definition field_bool :: "'n yaml \<Rightarrow> 'n \<Rightarrow> string \<Rightarrow> bool res" where
  "field_bool y n k = bind_res (node y n k) (\<lambda>x. thrown (yl_bool y x))"

fun strings :: "'n yaml \<Rightarrow> 'n list \<Rightarrow> string list res" where
  "strings y [] = Inr []"
| "strings y (n # ns) = bind_res (thrown (yl_string y n)) (\<lambda>s. bind_res (strings y ns) (\<lambda>ss. Inr (s # ss)))"

definition field_strings :: "'n yaml \<Rightarrow> 'n \<Rightarrow> string \<Rightarrow> string list res" where
  "field_strings y data k = bind_res (node y data k) (\<lambda>n. if yl_defined y n then strings y (yl_items y n) else Inr [])"

definition getBlockServerIPs :: "'n yaml \<Rightarrow> 'n \<Rightarrow> string list res" where
  "getBlockServerIPs y data = field_strings y data ''server_ips''"

definition getEpochServerIPs :: "'n yaml \<Rightarrow> 'n \<Rightarrow> string list res" where
  "getEpochServerIPs y data = field_strings y data ''epoch_ips''"

definition getBlockServerConst :: "'n yaml \<Rightarrow> 'n \<Rightarrow> nat res" where
  "getBlockServerConst y data =
     bind_res (node y data ''server_ips'') (\<lambda>n. Inr (if yl_defined y n then yl_size y n else 0))"

text \<open>The result \<open>None\<close> is the null pointer.\<close>

definition getBlockServerConfig :: "'n yaml \<Rightarrow> 'n \<Rightarrow> string \<Rightarrow> server_config option res" where
  "getBlockServerConfig y data ip =
     bind_res (node y data ''server_data'') (\<lambda>d. bind_res (node y d ip) (\<lambda>n.
       if \<not> yl_defined y n then Inr None
       else bind_res (field_string y n ''public_crt'') (\<lambda>pub.
            bind_res (field_string y n ''private_crt'') (\<lambda>pri.
            bind_res (field_string y n ''user_public_crt'') (\<lambda>upub.
            bind_res (field_string y n ''user_private_crt'') (\<lambda>upri.
            Inr (Some \<lparr>sc_ip = ip, sc_priFilePath = pri, sc_pubFilePath = pub,
                       sc_usrPriFilePath = upri, sc_usrPubFilePath = upub\<rparr>)))))))"

definition getEpochServerConfig :: "'n yaml \<Rightarrow> 'n \<Rightarrow> epoch_config option res" where
  "getEpochServerConfig y data =
     bind_res (node y data ''epoch_data'') (\<lambda>n.
       if \<not> yl_defined y n then Inr None
       else bind_res (field_string y n ''public_crt'') (\<lambda>pub.
            bind_res (field_string y n ''private_crt'') (\<lambda>pri.
            Inr (Some \<lparr>ec_priFilePath = pri, ec_pubFilePath = pub\<rparr>))))"

definition initCrypto :: "'n yaml \<Rightarrow> 'n \<Rightarrow> bool res" where
  "initCrypto y data = field_bool y data ''init_crypto''"

definition resetEpoch :: "'n yaml \<Rightarrow> 'n \<Rightarrow> bool res" where
  "resetEpoch y data = field_bool y data ''reset_epoch''"

definition getLocalBlockServerIP :: "'n yaml \<Rightarrow> 'n \<Rightarrow> string res" where
  "getLocalBlockServerIP y data = field_string y data ''local_server_ip''"

text \<open>\<open>getInstance\<close>: the static variable is the argument and part of the result.\<close>

definition yaml_getInstance :: "'n yaml \<Rightarrow> 'n option \<Rightarrow> 'n option res" where
  "yaml_getInstance y config =
     (case config of Some n \<Rightarrow> Inr (Some n)
      | None \<Rightarrow> (case yl_load y ''config.yaml'' of Some n \<Rightarrow> Inr (Some n)
          | None \<Rightarrow> (case yl_load y ''/tmp/config.yaml'' of Some n \<Rightarrow> Inr (Some n) | None \<Rightarrow> Inl CheckFailed)))"

section \<open>Generating the keys\<close>

text \<open>
  Each call of \<open>generateKeyFiles\<close> makes a new key: the \<open>i\<close>-th call is made with the key \<open>keys i\<close>.
  The passphrase is empty, and the result of the call is not looked at.
\<close>

definition init_pair :: "('c, 'k) openssl \<Rightarrow> (nat \<Rightarrow> 'k) \<Rightarrow> string \<Rightarrow> string \<Rightarrow> nat \<times> files \<Rightarrow> (nat \<times> files) res" where
  "init_pair os keys pub pri = (\<lambda>(i, fs).
     bind_res (generateKeyFiles (os\<lparr>os_generate_key := keys i\<rparr>) (c_string pub) (c_string pri) [] 0 fs) (\<lambda>(_, fs1, _).
       Inr (Suc i, fs1)))"

fun init_servers :: "'n yaml \<Rightarrow> 'n \<Rightarrow> ('c, 'k) openssl \<Rightarrow> (nat \<Rightarrow> 'k) \<Rightarrow> string list \<Rightarrow> nat \<times> files \<Rightarrow> (nat \<times> files) res" where
  "init_servers y data os keys [] s = Inr s"
| "init_servers y data os keys (ip # ips) s =
     bind_res (getBlockServerConfig y data ip) (\<lambda>c. case c of None \<Rightarrow> Inl NullDeref
       | Some c \<Rightarrow> bind_res (init_pair os keys (sc_pubFilePath c) (sc_priFilePath c) s) (\<lambda>s1.
           bind_res (init_pair os keys (sc_usrPubFilePath c) (sc_usrPriFilePath c) s1) (init_servers y data os keys ips)))"

definition init_crypto :: "'n yaml \<Rightarrow> 'n \<Rightarrow> ('c, 'k) openssl \<Rightarrow> (nat \<Rightarrow> 'k) \<Rightarrow> files \<Rightarrow> (nat \<times> files) res" where
  "init_crypto y data os keys fs =
     bind_res (initCrypto y data) (\<lambda>b. if \<not> b then Inr (0, fs) else
     bind_res (getBlockServerIPs y data) (\<lambda>ips.
     bind_res (init_servers y data os keys ips (0, fs)) (\<lambda>s.
     bind_res (getEpochServerConfig y data) (\<lambda>c. case c of None \<Rightarrow> Inl NullDeref
       | Some c \<Rightarrow> init_pair os keys (ec_pubFilePath c) (ec_priFilePath c) s))))"

section \<open>The first epochs\<close>

text \<open>What \<open>main\<close> starts: the epoch of the coordinator, and the transaction manager.\<close>

definition coordinator_first_epoch :: u32 where
  "coordinator_first_epoch = 1"

definition server_main :: "('m, 'g) tm_env \<Rightarrow> 'm \<Rightarrow> 'g \<Rightarrow> tstore \<Rightarrow> u32 \<times> ('m, 'g) tr_manager" where
  "server_main ev m g st = (coordinator_first_epoch, new_tr_manager ev m g st)"

text \<open>
  \<open>mainRoutine\<close> for an epoch without transactions: the loop ends at once, no worker is assigned, the
  manager is told that the epoch has finished, and the epoch goes up. \<open>None\<close>: there is a workload
  or the call waits.
\<close>

definition empty_epoch :: "tstore \<Rightarrow> tptr list \<Rightarrow> u32 \<times> ('m, 'g) tr_manager \<Rightarrow> (u32 \<times> ('m, 'g) tr_manager) option" where
  "empty_epoch st buf = (\<lambda>(e, tm).
     if get_ready st e buf = Inr True \<and> getWorkload st e buf = Inr EpochEmpty then Some (e + 1, tm\<lparr>tm_finished := e\<rparr>) else None)"

fun skip_epochs :: "nat \<Rightarrow> tstore \<Rightarrow> tptr list \<Rightarrow> u32 \<times> ('m, 'g) tr_manager \<Rightarrow> u32 \<times> ('m, 'g) tr_manager" where
  "skip_epochs 0 st buf s = s"
| "skip_epochs (Suc n) st buf s = (case empty_epoch st buf s of None \<Rightarrow> s | Some s1 \<Rightarrow> skip_epochs n st buf s1)"

section \<open>Lemmas\<close>

text \<open>The pairs of files the configuration names, in the order the keys are made.\<close>

definition server_pairs :: "server_config \<Rightarrow> (string \<times> string) list" where
  "server_pairs c = [(sc_pubFilePath c, sc_priFilePath c), (sc_usrPubFilePath c, sc_usrPriFilePath c)]"

definition config_pairs :: "'n yaml \<Rightarrow> 'n \<Rightarrow> (string \<times> string) list" where
  "config_pairs y data =
     (case getBlockServerIPs y data of Inl _ \<Rightarrow> []
      | Inr ips \<Rightarrow> concat (map (\<lambda>ip. case getBlockServerConfig y data ip of Inr (Some c) \<Rightarrow> server_pairs c | _ \<Rightarrow> []) ips))
     @ (case getEpochServerConfig y data of Inr (Some c) \<Rightarrow> [(ec_pubFilePath c, ec_priFilePath c)] | _ \<Rightarrow> [])"

fun init_pairs :: "('c, 'k) openssl \<Rightarrow> (nat \<Rightarrow> 'k) \<Rightarrow> (string \<times> string) list \<Rightarrow> nat \<times> files \<Rightarrow> (nat \<times> files) res" where
  "init_pairs os keys [] s = Inr s"
| "init_pairs os keys (p # ps) s = bind_res (init_pair os keys (fst p) (snd p) s) (init_pairs os keys ps)"

lemma init_pairs_append: "init_pairs os keys (ps @ qs) s = bind_res (init_pairs os keys ps s) (init_pairs os keys qs)"
  by (induction ps arbitrary: s) (auto simp: bind_res_def split: sum.split)

lemma init_servers_eq:
  assumes "init_servers y data os keys ips s = Inr s'"
  shows "init_pairs os keys (concat (map (\<lambda>ip. case getBlockServerConfig y data ip of Inr (Some c) \<Rightarrow> server_pairs c | _ \<Rightarrow> []) ips)) s = Inr s'"
  using assms
proof (induction ips arbitrary: s)
  case (Cons ip ips)
  then obtain c s1 s2 where "getBlockServerConfig y data ip = Inr (Some c)" "init_pair os keys (sc_pubFilePath c) (sc_priFilePath c) s = Inr s1"
    "init_pair os keys (sc_usrPubFilePath c) (sc_usrPriFilePath c) s1 = Inr s2" "init_servers y data os keys ips s2 = Inr s'"
    by (auto simp: bind_res_Inr_iff split: option.splits)
  then show ?case using Cons.IH by (simp add: server_pairs_def init_pairs_append)
qed simp

lemma init_crypto_eq:
  assumes "initCrypto y data = Inr True" "init_crypto y data os keys fs = Inr (n, fs')"
  shows "init_pairs os keys (config_pairs y data) (0, fs) = Inr (n, fs')"
  using assms init_servers_eq by (fastforce simp: init_crypto_def config_pairs_def init_pairs_append bind_res_Inr_iff split: option.splits)

text \<open>The keys can be written: there is memory and every file can be opened and takes its key.\<close>

definition keys_writable :: "('c, 'k) openssl \<Rightarrow> (nat \<Rightarrow> 'k) \<Rightarrow> bool" where
  "keys_writable os keys \<longleftrightarrow> os_bio_new os \<and> os_pkey_new os \<and> (\<forall>f. os_writable os f)
     \<and> (\<forall>i. os_write_public os (keys i) \<noteq> None \<and> os_write_private os (keys i) [] \<noteq> None)"

definition file_names :: "(string \<times> string) list \<Rightarrow> string list" where
  "file_names ps = concat (map (\<lambda>p. [c_string (fst p), c_string (snd p)]) ps)"

lemma init_pair_ok:
  assumes "keys_writable os keys"
  obtains t u where "os_write_public os (keys i) = Some t" "os_write_private os (keys i) [] = Some u"
    "init_pair os keys pub pri (i, fs) = Inr (Suc i, fs(c_string pub \<mapsto> t, c_string pri \<mapsto> u))"
proof -
  obtain t u where "os_write_public os (keys i) = Some t" "os_write_private os (keys i) [] = Some u"
    using assms unfolding keys_writable_def by blast
  then show thesis using assms that by (simp add: keys_writable_def init_pair_def generateKeyFiles_def)
qed

lemma init_pairs_ok:
  assumes "keys_writable os keys" "distinct (file_names ps)" "init_pairs os keys ps (i, fs) = Inr (n, fs')"
  shows "(\<forall>j < length ps. \<exists>t u. os_write_public os (keys (i + j)) = Some t \<and> os_write_private os (keys (i + j)) [] = Some u
      \<and> fs' (c_string (fst (ps ! j))) = Some t \<and> fs' (c_string (snd (ps ! j))) = Some u)
    \<and> (\<forall>f. f \<notin> set (file_names ps) \<longrightarrow> fs' f = fs f)"
  using assms(2,3)
proof (induction ps arbitrary: i fs)
  case Nil
  then show ?case by simp
next
  case (Cons p ps)
  obtain t u where p: "os_write_public os (keys i) = Some t" "os_write_private os (keys i) [] = Some u"
    "init_pair os keys (fst p) (snd p) (i, fs) = Inr (Suc i, fs(c_string (fst p) \<mapsto> t, c_string (snd p) \<mapsto> u))"
    using init_pair_ok [OF assms(1)] by metis
  have d: "distinct (file_names ps)" "c_string (fst p) \<notin> set (file_names ps)" "c_string (snd p) \<notin> set (file_names ps)"
    "c_string (fst p) \<noteq> c_string (snd p)" using Cons.prems(1) by (auto simp: file_names_def)
  have "init_pairs os keys ps (Suc i, fs(c_string (fst p) \<mapsto> t, c_string (snd p) \<mapsto> u)) = Inr (n, fs')"
    using Cons.prems(2) p(3) by simp
  note ih = Cons.IH [OF d(1) this]
  have first: "fs' (c_string (fst p)) = Some t" "fs' (c_string (snd p)) = Some u" using ih d by auto
  have rest: "\<forall>f. f \<notin> set (file_names (p # ps)) \<longrightarrow> fs' f = fs f" using ih by (auto simp: file_names_def)
  have "\<exists>t u. os_write_public os (keys (i + j)) = Some t \<and> os_write_private os (keys (i + j)) [] = Some u
      \<and> fs' (c_string (fst ((p # ps) ! j))) = Some t \<and> fs' (c_string (snd ((p # ps) ! j))) = Some u" if "j < length (p # ps)" for j
    using that ih p first by (cases j) auto
  then show ?case using rest by blast
qed

lemma of_nat_less32: "a < b \<Longrightarrow> b < 2 ^ 32 \<Longrightarrow> (of_nat a :: u32) < of_nat b"
  by (simp add: word_less_nat_alt unat_of_nat)

section \<open>Properties\<close>

text \<open>
  C29. Key distribution: when \<open>main\<close> has generated the keys of a configuration whose key files
  are all different and writable, then for every server, every server's user and the epoch
  server, a process that loads the two files of the pair verifies with \<open>rsaDecrypt\<close> what another
  process that loaded them has signed with \<open>rsaEncrypt\<close>: no later key generation has overwritten
  half of an earlier pair.
\<close>

theorem generated_keys_verify:
  assumes ok: "openssl_ok os" "keys_writable os keys" "distinct (file_names (config_pairs y data))"
    and init: "initCrypto y data = Inr True" "init_crypto y data os keys fs = Inr (n, fs')"
    and pair: "(pub, pri) \<in> set (config_pairs y data)"
    and sign: "rsaEncrypt os m (new_crypto_sign os c fs' pub pri []) = Inr (True, sig, cs')"
  shows "fst (rsaDecrypt os m sig (new_crypto_sign os d fs' pub pri []))"
proof -
  obtain j where j: "j < length (config_pairs y data)" "config_pairs y data ! j = (pub, pri)"
    using pair by (auto simp: in_set_conv_nth)
  obtain t u where tu: "os_write_public os (keys j) = Some t" "os_write_private os (keys j) [] = Some u"
    "fs' (c_string pub) = Some t" "fs' (c_string pri) = Some u"
    using init_pairs_ok [OF ok(2,3) init_crypto_eq [OF init]] j by fastforce
  have "cs_pivKey (new_crypto_sign os x fs' pub pri []) = Some (keys j)"
    "cs_pubKey (new_crypto_sign os x fs' pub pri []) = Some (os_public_part os (keys j))" for x
    using tu ok(1,2) by (auto simp: new_crypto_sign_def openPublicKey_def openPrivateKey_def openssl_ok_def
        keys_writable_def c_string_def)
  then show ?thesis using rsa_sign_verify [OF ok(1) _ _ sign] by blast
qed

text \<open>One server; a node is the path to it.\<close>

definition demo_yaml :: "string yaml" where
  "demo_yaml = \<lparr>yl_load = Some, yl_at = (\<lambda>n k. Some (n @ ''/'' @ k)), yl_defined = (\<lambda>_. True), yl_items = (\<lambda>_. [''ip'']),
     yl_size = (\<lambda>_. 1), yl_string = Some, yl_bool = (\<lambda>_. Some True)\<rparr>"

lemmas demo_yaml_evals = demo_yaml_def getBlockServerIPs_def field_strings_def node_def thrown_def getBlockServerConfig_def
  field_string_def getEpochServerConfig_def initCrypto_def field_bool_def

lemma demo_pairs: "config_pairs demo_yaml [] =
    [(''/server_data/ip/public_crt'', ''/server_data/ip/private_crt''),
     (''/server_data/ip/user_public_crt'', ''/server_data/ip/user_private_crt''), (''/epoch_data/public_crt'', ''/epoch_data/private_crt'')]"
  by (simp add: config_pairs_def server_pairs_def demo_yaml_evals)

lemma demo_keys_writable: "keys_writable demo_openssl Suc"
  by (simp add: keys_writable_def demo_openssl_def)

lemma generated_keys_verify_witness:
  "\<exists>n fs' sig cs'. init_crypto demo_yaml [] demo_openssl Suc Map.empty = Inr (n, fs')
     \<and> rsaEncrypt demo_openssl ''m'' (new_crypto_sign demo_openssl [] fs' ''/epoch_data/public_crt'' ''/epoch_data/private_crt'' []) = Inr (True, sig, cs')
     \<and> fst (rsaDecrypt demo_openssl ''m'' sig (new_crypto_sign demo_openssl [] fs' ''/epoch_data/public_crt'' ''/epoch_data/private_crt'' []))"
proof -
  have i: "initCrypto demo_yaml [] = Inr True" by (simp add: demo_yaml_evals)
  have "\<exists>n fs'. init_crypto demo_yaml [] demo_openssl Suc Map.empty = Inr (n, fs')
      \<and> fs' ''/epoch_data/private_crt'' \<noteq> None"
    by (simp add: init_crypto_def init_pair_def generateKeyFiles_def demo_openssl_def demo_yaml_evals c_string_def)
  then obtain n fs' where g: "init_crypto demo_yaml [] demo_openssl Suc Map.empty = Inr (n, fs')"
    and f: "fs' ''/epoch_data/private_crt'' \<noteq> None" by blast
  have d: "distinct (file_names (config_pairs demo_yaml []))" by (simp add: demo_pairs file_names_def c_string_def)
  have p: "(''/epoch_data/public_crt'', ''/epoch_data/private_crt'') \<in> set (config_pairs demo_yaml [])" by (simp add: demo_pairs)
  obtain cs' where s: "rsaEncrypt demo_openssl ''m'' (new_crypto_sign demo_openssl [] fs' ''/epoch_data/public_crt'' ''/epoch_data/private_crt'' []) = Inr (True, ''sm'', cs')"
    using f by (auto simp: rsaEncrypt_def new_crypto_sign_def openPrivateKey_def demo_openssl_def c_string_def sign_buffer_size_def)
  show ?thesis using generated_keys_verify [OF demo_openssl_ok demo_keys_writable d i g p s, of "[]"] g s by blast
qed

text \<open>The epochs before that of all transactions in the buffer end without work.\<close>

lemma empty_epoch_below:
  assumes "e < E" "buf \<noteq> []" "\<forall>a \<in> set buf. \<exists>t. st a = Some t \<and> E \<le> tr_epoch t"
  shows "empty_epoch st buf (e, tm) = Some (e + 1, tm\<lparr>tm_finished := e\<rparr>)"
proof -
  obtain a q where buf: "buf = a # q" using assms(2) by (cases buf) auto
  obtain t u where "st a = Some t" "E \<le> tr_epoch t" "st (last buf) = Some u" "E \<le> tr_epoch u"
    using assms(2,3) buf by (metis last_in_set list.set_intros(1))
  then show ?thesis using assms(1,2) buf by (simp add: empty_epoch_def get_ready_def getWorkload_def getEpoch_def less_le_trans)
qed

lemma skip_epochs_below:
  assumes "buf \<noteq> []" "\<forall>a \<in> set buf. \<exists>t. st a = Some t \<and> of_nat (Suc L) \<le> tr_epoch t" "e + n \<le> Suc L" "Suc L < 2 ^ 32"
  shows "skip_epochs n st buf (of_nat e, tm) = (of_nat (e + n), if n = 0 then tm else tm\<lparr>tm_finished := of_nat (e + n - 1)\<rparr>)"
  using assms(3)
proof (induction n arbitrary: e tm)
  case (Suc n)
  have "(of_nat e :: u32) < of_nat (Suc L)" using Suc.prems assms(4) by (intro of_nat_less32) auto
  note e = empty_epoch_below [OF this assms(1,2), of tm]
  have "(of_nat e + 1 :: u32) = of_nat (Suc e)" by simp
  with e have "skip_epochs (Suc n) st buf (of_nat e, tm) = skip_epochs n st buf (of_nat (Suc e), tm\<lparr>tm_finished := of_nat e\<rparr>)"
    by (simp only: skip_epochs.simps option.case)
  then show ?case using Suc.IH [of "Suc e"] Suc.prems by (cases n) simp_all
qed simp

text \<open>
  C33. A restarted server catches up. The coordinator always starts with epoch 1, the transaction
  manager after the last saved epoch \<open>L\<close>. When the buffer holds transactions the manager sent,
  all of epoch \<open>L + 1\<close> or later, the coordinator ends the epochs before it one by one, without a
  worker and without taking anything from the buffer, and stands at epoch \<open>L + 1\<close> after \<open>L\<close>
  of them. The manager is told of each, which never makes it end an epoch, and is left as it was.
\<close>

theorem restart_catches_up:
  assumes "te_latest ev g = int L" "L + 1 < 2 ^ 32" "buf \<noteq> []"
    and "\<forall>a \<in> set buf. \<exists>t. st a = Some t \<and> tm_epoch (snd (server_main ev m g st)) \<le> tr_epoch t"
  shows "skip_epochs L st buf (server_main ev m g st) = (tm_epoch (snd (server_main ev m g st)), snd (server_main ev m g st))
    \<and> (\<forall>n \<le> L. fst (skip_epochs n st buf (server_main ev m g st)) = of_nat (n + 1)
         \<and> tm_finished (snd (skip_epochs n st buf (server_main ev m g st))) \<noteq> tm_epoch (snd (server_main ev m g st)))"
proof -
  obtain tm where sm: "server_main ev m g st = (of_nat 1, tm)" and L: "tm_epoch tm = of_nat (Suc L)" "tm_finished tm = of_nat L"
    using assms(1) by (simp add: server_main_def new_tr_manager_def Let_def coordinator_first_epoch_def)
  have ne: "(of_nat k :: u32) \<noteq> of_nat (Suc L)" if "k \<le> L" for k
    using of_nat_less32 [of k "Suc L"] that assms(2) by fastforce
  have skip: "skip_epochs n st buf (server_main ev m g st) = (of_nat (1 + n), if n = 0 then tm else tm\<lparr>tm_finished := of_nat n\<rparr>)" if "n \<le> L" for n
    using skip_epochs_below [OF assms(3), of st L 1 n tm] assms(2,4) that by (simp add: sm L(1))
  have "tm\<lparr>tm_finished := of_nat L\<rparr> = tm" by (simp add: L(2) [symmetric])
  moreover have "tm_finished (snd (skip_epochs n st buf (server_main ev m g st))) \<noteq> of_nat (Suc L)" if "n \<le> L" for n
    using skip [OF that] ne [OF that] ne [of L] L(2) by simp
  ultimately show ?thesis using skip L(1) sm by simp
qed

definition demo_restart_env :: "(unit, nat) tm_env" where
  "demo_restart_env = \<lparr>te_get = (\<lambda>e mx mn st m. Inr (None, st, m)), te_clear = (\<lambda>e st m. Inr (st, m)),
     te_latest = int, te_add = (\<lambda>a g. (1, g)), te_generate = (\<lambda>st g. Inr (1, g))\<rparr>"

lemma restart_catches_up_witness:
  "fst (skip_epochs 3 [7 \<mapsto> mock_transaction 4 1] [7] (server_main demo_restart_env () 3 [7 \<mapsto> mock_transaction 4 1])) = 4"
  using restart_catches_up [of demo_restart_env 3 3 "[7]" "[7 \<mapsto> mock_transaction 4 1]" "()"]
  by (simp add: demo_restart_env_def server_main_def new_tr_manager_def mock_transaction_def Let_def)

end
