(* ===== verification/Base64.thy ===== *)
theory Base64
  imports Prelude
begin

unbundle bit_operations_syntax

text \<open>
  \<open>base64.cpp\<close>: encoding and decoding between byte arrays and printable strings, in the plain
  and the URL alphabet, with optional line breaks. Bytes are numbers below 256 on which the
  shifts and masks of the source act; a thrown \<open>std::runtime_error\<close> is \<open>Thrown\<close>.
\<close>

section \<open>Encoding\<close>

definition base64_chars :: "bool \<Rightarrow> string" where
  "base64_chars url = ''ABCDEFGHIJKLMNOPQRSTUVWXYZ'' @ ''abcdefghijklmnopqrstuvwxyz'' @ ''0123456789''
     @ (if url then ''-_'' else ''+/'')"

definition trailing_char :: "bool \<Rightarrow> char" where
  "trailing_char url = (if url then CHR ''.'' else CHR ''='')"

text \<open>
  What one round of the loop pushes. \<open>pos\<close> is an \<open>unsigned int\<close>, compared with the 64-bit length of the input.
\<close>

definition encode_group :: "nat list \<Rightarrow> bool \<Rightarrow> u32 \<Rightarrow> string" where
  "encode_group bs url pos = (let byte = (\<lambda>p::u32. bs ! unat p); ch = (\<lambda>i. base64_chars url ! i) in
     ch (drop_bit 2 (byte pos AND 0xfc)) #
     (if unat (pos + 1) < length bs
      then ch (push_bit 4 (byte pos AND 0x03) + drop_bit 4 (byte (pos + 1) AND 0xf0)) #
        (if unat (pos + 2) < length bs
         then [ch (push_bit 2 (byte (pos + 1) AND 0x0f) + drop_bit 6 (byte (pos + 2) AND 0xc0)), ch (byte (pos + 2) AND 0x3f)]
         else [ch (push_bit 2 (byte (pos + 1) AND 0x0f)), trailing_char url])
      else [ch (push_bit 4 (byte pos AND 0x03)), trailing_char url, trailing_char url]))"

text \<open>The loop: with an input of \<open>2 ^ 32\<close> bytes or more \<open>pos\<close> wraps around and it does not end.\<close>

partial_function (option) encode_loop :: "nat list \<Rightarrow> bool \<Rightarrow> u32 \<Rightarrow> string \<Rightarrow> string option" where
  "encode_loop bs url pos ret =
     (if unat pos < length bs then encode_loop bs url (pos + 3) (ret @ encode_group bs url pos) else Some ret)"

definition base64_encode :: "nat list \<Rightarrow> bool \<Rightarrow> string option" where
  "base64_encode bs url = encode_loop bs url 0 []"

section \<open>Line breaks\<close>

definition newline :: char where "newline = char_of (10::nat)"

text \<open>\<open>while (pos < str.size()) { str.insert(pos, newline); pos += distance + 1; }\<close>\<close>

partial_function (option) linebreak_loop :: "nat \<Rightarrow> nat \<Rightarrow> string \<Rightarrow> string option" where
  "linebreak_loop d pos s =
     (if pos < length s then linebreak_loop d (pos + d + 1) (take pos s @ newline # drop pos s) else Some s)"

definition insert_linebreaks :: "string \<Rightarrow> nat \<Rightarrow> string option" where
  "insert_linebreaks s d = (if s = [] then Some [] else linebreak_loop d d s)"

definition base64_encode_pem :: "nat list \<Rightarrow> string option" where
  "base64_encode_pem bs = Option.bind (base64_encode bs False) (\<lambda>s. insert_linebreaks s 64)"

definition base64_encode_mime :: "nat list \<Rightarrow> string option" where
  "base64_encode_mime bs = Option.bind (base64_encode bs False) (\<lambda>s. insert_linebreaks s 76)"

section \<open>Decoding\<close>

definition pos_of_char :: "char \<Rightarrow> nat res" where
  "pos_of_char c = (let chr = (of_char c :: nat) in
     if chr \<ge> 65 \<and> chr \<le> 90 then Inr (chr - 65)
     else if chr \<ge> 97 \<and> chr \<le> 122 then Inr (chr - 97 + (90 - 65) + 1)
     else if chr \<ge> 48 \<and> chr \<le> 57 then Inr (chr - 48 + (90 - 65) + (122 - 97) + 2)
     else if c = CHR ''+'' \<or> c = CHR ''-'' then Inr 62
     else if c = CHR ''/'' \<or> c = CHR ''_'' then Inr 63
     else Inl Thrown)"

text \<open>\<open>s[size()]\<close> of a \<open>std::string\<close> is the null character.\<close>

definition char_at :: "string \<Rightarrow> nat \<Rightarrow> char" where
  "char_at s i = (if i < length s then s ! i else char_of (0::nat))"

definition is_padding :: "char \<Rightarrow> bool" where
  "is_padding c \<longleftrightarrow> c = CHR ''='' \<or> c = CHR ''.''"

text \<open>The bytes of the chunk at the front; \<open>static_cast<char>\<close> keeps eight bits.\<close>

definition decode_chunk :: "string \<Rightarrow> nat list res" where
  "decode_chunk s =
     bind_res (pos_of_char (char_at s 1)) (\<lambda>p1.
     bind_res (pos_of_char (char_at s 0)) (\<lambda>p0.
     let b0 = (push_bit 2 p0 + drop_bit 4 (p1 AND 0x30)) mod 256 in
     if 2 < length s \<and> \<not> is_padding (char_at s 2) then
       bind_res (pos_of_char (char_at s 2)) (\<lambda>p2.
       let b1 = (push_bit 4 (p1 AND 0x0f) + drop_bit 2 (p2 AND 0x3c)) mod 256 in
       if 3 < length s \<and> \<not> is_padding (char_at s 3) then
         bind_res (pos_of_char (char_at s 3)) (\<lambda>p3.
         Inr [b0, b1, (push_bit 6 (p2 AND 0x03) + p3) mod 256])
       else Inr [b0, b1])
     else Inr [b0]))"

function decode_loop :: "string \<Rightarrow> nat list res" where
  "decode_loop s =
     (if s = [] then Inr []
      else bind_res (decode_chunk s) (\<lambda>bs. bind_res (decode_loop (drop 4 s)) (\<lambda>r. Inr (bs @ r))))"
  by pat_completeness auto
termination by (relation "measure length") auto

declare decode_loop.simps [simp del]

definition base64_decode :: "string \<Rightarrow> bool \<Rightarrow> nat list res" where
  "base64_decode s remove_linebreaks =
     (if s = [] then Inr []
      else if remove_linebreaks then decode_loop (filter (\<lambda>c. c \<noteq> newline) s)
      else decode_loop s)"

section \<open>The alphabet\<close>

definition alphabet_codes :: "bool \<Rightarrow> nat list" where
  "alphabet_codes url = [65..<91] @ [97..<123] @ [48..<58] @ (if url then [45, 95] else [43, 47])"

lemma of_char_alphabet: "map of_char (base64_chars url) = alphabet_codes url"
proof -
  have "map of_char ''ABCDEFGHIJKLMNOPQRSTUVWXYZ'' = [65..<91::nat]"
    "map of_char ''abcdefghijklmnopqrstuvwxyz'' = [97..<123::nat]" "map of_char ''0123456789'' = [48..<58::nat]"
    by (simp_all add: upt_rec_numeral)
  then show ?thesis unfolding base64_chars_def alphabet_codes_def map_append by simp
qed

lemma alphabet_length: "length (base64_chars url) = 64"
  by (simp add: base64_chars_def)

lemma char_code: "c = d \<longleftrightarrow> (of_char c :: nat) = of_char d"
  by (simp add: of_char_eq_iff)

lemma pos_of_code: "pos_of_char c = (let chr = (of_char c :: nat) in
     if chr \<ge> 65 \<and> chr \<le> 90 then Inr (chr - 65)
     else if chr \<ge> 97 \<and> chr \<le> 122 then Inr (chr - 71)
     else if chr \<ge> 48 \<and> chr \<le> 57 then Inr (chr + 4)
     else if chr = 43 \<or> chr = 45 then Inr 62
     else if chr = 47 \<or> chr = 95 then Inr 63
     else Inl Thrown)"
  by (auto simp: pos_of_char_def Let_def char_code)

lemma padding_code: "is_padding c \<longleftrightarrow> (of_char c :: nat) \<in> {61, 46}"
  by (simp add: is_padding_def char_code)

lemma newline_code: "c = newline \<longleftrightarrow> (of_char c :: nat) = 10"
  by (simp add: newline_def char_code)

lemma alphabet_facts:
  assumes "n < 64"
  shows "pos_of_char (base64_chars url ! n) = Inr n" "\<not> is_padding (base64_chars url ! n)" "base64_chars url ! n \<noteq> newline"
proof -
  have c: "(of_char (base64_chars url ! n) :: nat) = alphabet_codes url ! n"
    unfolding of_char_alphabet [symmetric] using assms by (simp add: alphabet_length)
  have "n < 26 \<or> (26 \<le> n \<and> n < 52) \<or> (52 \<le> n \<and> n < 62) \<or> n = 62 \<or> n = 63" using assms by linarith
  then have "alphabet_codes url ! n = (if n < 26 then 65 + n else if n < 52 then 71 + n else if n < 62 then n - 4
      else if url then (if n = 62 then 45 else 95) else (if n = 62 then 43 else 47))"
    unfolding alphabet_codes_def by (auto simp: nth_append nth_Cons' simp del: upt_rec_numeral upt_Suc)
  then show "pos_of_char (base64_chars url ! n) = Inr n" "\<not> is_padding (base64_chars url ! n)" "base64_chars url ! n \<noteq> newline"
    using assms by (auto simp: pos_of_code padding_code newline_code c Let_def)
qed

section \<open>The encoding by groups\<close>

text \<open>Three bytes at a time, by recursion on the input: what the loop computes for inputs below \<open>2 ^ 32\<close> bytes.\<close>

fun encode_groups :: "nat list \<Rightarrow> bool \<Rightarrow> string" where
  "encode_groups [] url = []"
| "encode_groups [a] url =
     [base64_chars url ! (drop_bit 2 (a AND 0xfc)),
      base64_chars url ! (push_bit 4 (a AND 0x03)), trailing_char url, trailing_char url]"
| "encode_groups [a, b] url =
     [base64_chars url ! (drop_bit 2 (a AND 0xfc)),
      base64_chars url ! (push_bit 4 (a AND 0x03) + drop_bit 4 (b AND 0xf0)),
      base64_chars url ! (push_bit 2 (b AND 0x0f)), trailing_char url]"
| "encode_groups (a # b # c # bs) url =
     [base64_chars url ! (drop_bit 2 (a AND 0xfc)),
      base64_chars url ! (push_bit 4 (a AND 0x03) + drop_bit 4 (b AND 0xf0)),
      base64_chars url ! (push_bit 2 (b AND 0x0f) + drop_bit 6 (c AND 0xc0)),
      base64_chars url ! (c AND 0x3f)] @ encode_groups bs url"

lemma encode_group_drop:
  assumes "unat pos < length bs" "length bs < 2 ^ 32" "3 dvd unat pos"
  shows "unat (pos + 3) = unat pos + 3"
    "encode_groups (drop (unat pos) bs) url = encode_group bs url pos @ encode_groups (drop (unat (pos + 3)) bs) url"
proof -
  obtain q where q: "unat pos = 3 * q" using assms(3) by (elim dvdE)
  then have "3 * q < 2 ^ 32 - 1" using assms(1,2) by linarith
  then have "unat pos + 3 < 2 ^ 32" using q by simp
  then have u: "unat (pos + 1) = unat pos + 1" "unat (pos + 2) = unat pos + 2" and u3: "unat (pos + 3) = unat pos + 3"
    by (simp_all add: unat_word_ariths)
  show "unat (pos + 3) = unat pos + 3" by (rule u3)
  let ?n = "unat pos"
  consider "length bs = ?n + 1" | "length bs = ?n + 2" | "?n + 2 < length bs" using assms(1) by linarith
  then show "encode_groups (drop ?n bs) url = encode_group bs url pos @ encode_groups (drop (unat (pos + 3)) bs) url"
  proof cases
    case 1
    then have "drop ?n bs = [bs ! ?n]" by (simp add: Cons_nth_drop_Suc [symmetric])
    then show ?thesis using 1 by (simp add: encode_group_def Let_def u u3)
  next
    case 2
    then have "drop ?n bs = [bs ! ?n, bs ! (?n + 1)]" by (simp add: Cons_nth_drop_Suc [symmetric])
    then show ?thesis using 2 by (simp add: encode_group_def Let_def u u3)
  next
    case 3
    then have "drop ?n bs = bs ! ?n # bs ! (?n + 1) # bs ! (?n + 2) # drop (?n + 3) bs"
      by (simp add: Cons_nth_drop_Suc eval_nat_numeral)
    then show ?thesis using 3 by (simp add: encode_group_def Let_def u u3)
  qed
qed

lemma encode_loop_groups:
  assumes "length bs < 2 ^ 32" "3 dvd unat pos"
  shows "encode_loop bs url pos ret = Some (ret @ encode_groups (drop (unat pos) bs) url)"
  using assms(2)
proof (induction "length bs - unat pos" arbitrary: pos ret rule: less_induct)
  case less
  show ?case
  proof (cases "unat pos < length bs")
    case True
    note g = encode_group_drop [OF True assms(1) less.prems]
    have "encode_loop bs url (pos + 3) (ret @ encode_group bs url pos)
        = Some ((ret @ encode_group bs url pos) @ encode_groups (drop (unat (pos + 3)) bs) url)"
      using True less.prems by (intro less.hyps) (simp_all add: g(1))
    then show ?thesis using True g(2) [of url] by (subst encode_loop.simps) simp
  next
    case False
    then show ?thesis by (subst encode_loop.simps) simp
  qed
qed

lemma encode_loop_endless:
  assumes "2 ^ 32 \<le> length bs"
  shows "encode_loop bs url pos ret = None"
proof -
  have "bs' \<noteq> bs" if "encode_loop bs' url' pos' ret' = Some r" for bs' url' pos' ret' r
  proof (rule encode_loop.raw_induct [where P = "\<lambda>bs' u p rt r. bs' \<noteq> bs", OF _ that])
    fix loop bs' u p rt r
    assume ih: "\<And>bs' u p rt r. loop bs' u p rt = Some r \<Longrightarrow> bs' \<noteq> bs"
      and step: "(if unat p < length bs' then loop bs' u (p + 3) (rt @ encode_group bs' u p) else Some rt) = Some r"
    show "bs' \<noteq> bs"
    proof
      assume b: "bs' = bs"
      then have "unat p < length bs'" using assms unsigned_less [of p, where 'a = nat] by simp
      then have "loop bs' u (p + 3) (rt @ encode_group bs' u p) = Some r" using step by simp
      then show False using ih b by blast
    qed
  qed
  then show ?thesis by (cases "encode_loop bs url pos ret") blast+
qed

lemma base64_encode_groups: "base64_encode bs url = (if length bs < 2 ^ 32 then Some (encode_groups bs url) else None)"
  using encode_loop_groups [of bs 0 url "[]"] encode_loop_endless [of bs url 0 "[]"] by (simp add: base64_encode_def)

section \<open>Round trip\<close>

text \<open>The masks and shifts of the source as division and remainder.\<close>

lemma mask_shift:
  "drop_bit 2 (a AND 0xfc) = (a div 4) mod 64"
  "a AND 0x03 = a mod 4" "a AND 0x0f = a mod 16" "a AND 0x3f = a mod 64"
  "drop_bit 4 (b AND 0xf0) = (b div 16) mod 16"
  "drop_bit 6 (b AND 0xc0) = (b div 64) mod 4"
  "drop_bit 4 (p AND 0x30) = (p div 16) mod 4"
  "drop_bit 2 (p AND 0x3c) = (p div 4) mod 16"
  for a b p :: nat
proof -
  have m: "n AND 3 = n mod 4" "n AND 15 = n mod 16" "n AND 63 = n mod 64" for n :: nat
    using take_bit_eq_mask [of 2 n] take_bit_eq_mask [of 4 n] take_bit_eq_mask [of 6 n]
    by (simp_all add: take_bit_eq_mod mask_eq_exp_minus_1)
  show "a AND 0x03 = a mod 4" "a AND 0x0f = a mod 16" "a AND 0x3f = a mod 64" by (simp_all add: m)
  show "drop_bit 2 (a AND 0xfc) = (a div 4) mod 64" "drop_bit 4 (b AND 0xf0) = (b div 16) mod 16"
    "drop_bit 6 (b AND 0xc0) = (b div 64) mod 4" "drop_bit 4 (p AND 0x30) = (p div 16) mod 4"
    "drop_bit 2 (p AND 0x3c) = (p div 4) mod 16"
    unfolding drop_bit_and by (simp_all add: drop_bit_eq_div m)
qed

lemma shift_mult: "push_bit 2 n = n * 4" "push_bit 4 n = n * 16" "push_bit 6 n = n * 64" for n :: nat
  by (simp_all add: push_bit_eq_mult)

text \<open>Three bytes survive the way through four six-bit groups.\<close>

lemma regroup:
  assumes "a < 256" "b < 256" "c < (256::nat)"
  defines "p0 \<equiv> a div 4 mod 64" and "p1 \<equiv> a mod 4 * 16 + b div 16 mod 16"
    and "p2 \<equiv> b mod 16 * 4 + c div 64 mod 4" and "p3 \<equiv> c mod 64"
  shows "p0 < 64" "p1 < 64" "p2 < 64" "p3 < 64"
    and "(p0 * 4 + p1 div 16 mod 4) mod 256 = a"
    and "(p1 mod 16 * 16 + p2 div 4 mod 16) mod 256 = b"
    and "(p2 mod 4 * 64 + p3) mod 256 = c"
proof -
  have a: "a div 4 < 64" and b: "b div 16 < 16" and c: "c div 64 < 4" using assms(1-3) by auto
  have r: "a mod 4 < 4" "b mod 16 < 16" "c mod 64 < 64" by simp_all
  note defs = p0_def p1_def p2_def p3_def
  show "p0 < 64" "p3 < 64" by (simp_all add: defs)
  have e0: "p0 = a div 4" using a by (simp add: p0_def)
  have e1: "p1 = a mod 4 * 16 + b div 16" using b by (simp add: p1_def)
  have e2: "p2 = b mod 16 * 4 + c div 64" using c by (simp add: p2_def)
  show "p1 < 64" using r(1) b e1 by linarith
  show "p2 < 64" using r(2) c e2 by linarith
  have "p1 div 16 = a mod 4" "p1 mod 16 = b div 16" using b by (simp_all add: e1)
  moreover have "p2 div 4 = b mod 16" "p2 mod 4 = c div 64" using c by (simp_all add: e2)
  ultimately show "(p0 * 4 + p1 div 16 mod 4) mod 256 = a" "(p1 mod 16 * 16 + p2 div 4 mod 16) mod 256 = b"
    "(p2 mod 4 * 64 + p3) mod 256 = c"
    using assms(1-3) by (simp_all add: e0 p3_def div_mult_mod_eq mult.commute)
qed

lemma encode_div_mod:
  "encode_groups [a] url =
     [base64_chars url ! (a div 4 mod 64), base64_chars url ! (a mod 4 * 16), trailing_char url, trailing_char url]"
  "encode_groups [a, b] url =
     [base64_chars url ! (a div 4 mod 64), base64_chars url ! (a mod 4 * 16 + b div 16 mod 16),
      base64_chars url ! (b mod 16 * 4), trailing_char url]"
  "encode_groups (a # b # c # bs) url =
     [base64_chars url ! (a div 4 mod 64), base64_chars url ! (a mod 4 * 16 + b div 16 mod 16),
      base64_chars url ! (b mod 16 * 4 + c div 64 mod 4), base64_chars url ! (c mod 64)] @ encode_groups bs url"
  by (simp_all only: encode_groups.simps mask_shift shift_mult)

lemma char_at_cons:
  "char_at (x # s) 0 = x" "char_at (x # y # s) 1 = y" "char_at (x # y # z # s) 2 = z"
  "char_at (x # y # z # w # s) 3 = w"
  by (simp_all add: char_at_def eval_nat_numeral)

lemma chunk_sizes: "2 < length (x # y # z # w # s) \<longleftrightarrow> True" "3 < length (x # y # z # w # s) \<longleftrightarrow> True"
  by simp_all

lemma decode_chunk_chars:
  assumes "pos_of_char x0 = Inr p0" "pos_of_char x1 = Inr p1"
  shows "pos_of_char x2 = Inr p2 \<Longrightarrow> pos_of_char x3 = Inr p3 \<Longrightarrow> \<not> is_padding x2 \<Longrightarrow> \<not> is_padding x3 \<Longrightarrow>
      decode_chunk (x0 # x1 # x2 # x3 # s) = Inr [(p0 * 4 + p1 div 16 mod 4) mod 256,
        (p1 mod 16 * 16 + p2 div 4 mod 16) mod 256, (p2 mod 4 * 64 + p3) mod 256]"
    and "pos_of_char x2 = Inr p2 \<Longrightarrow> \<not> is_padding x2 \<Longrightarrow> is_padding x3 \<Longrightarrow>
      decode_chunk (x0 # x1 # x2 # x3 # s) = Inr [(p0 * 4 + p1 div 16 mod 4) mod 256,
        (p1 mod 16 * 16 + p2 div 4 mod 16) mod 256]"
    and "is_padding x2 \<Longrightarrow> decode_chunk (x0 # x1 # x2 # x3 # s) = Inr [(p0 * 4 + p1 div 16 mod 4) mod 256]"
  using assms
  by (simp_all only: decode_chunk_def char_at_cons bind_res_simps Let_def mask_shift shift_mult
      chunk_sizes if_True if_False simp_thms)

lemma decode_chunk_3:
  assumes "a < 256" "b < 256" "c < 256"
  shows "decode_chunk (encode_groups (a # b # c # bs) url @ t) = Inr [a, b, c]"
  using regroup [OF assms] unfolding encode_div_mod append.simps
  by (subst decode_chunk_chars(1)) (rule alphabet_facts refl | assumption | simp only:)+

lemma trailing_facts: "is_padding (trailing_char url)" "trailing_char url \<noteq> newline"
  by (simp_all add: is_padding_def trailing_char_def newline_code)

lemma regroup_zero: "b mod 16 * 4 + 0 div 64 mod 4 = b mod 16 * 4" "a mod 4 * 16 + 0 div 16 mod 16 = a mod 4 * 16" for a b :: nat
  by simp_all

lemma decode_chunk_2:
  assumes "a < 256" "b < 256"
  shows "decode_chunk (encode_groups [a, b] url) = Inr [a, b]"
  using regroup [OF assms, of 0, unfolded regroup_zero] unfolding encode_div_mod append.simps
  by (subst decode_chunk_chars(2)) (rule alphabet_facts trailing_facts refl | assumption | simp only:)+

lemma decode_chunk_1:
  assumes "a < 256"
  shows "decode_chunk (encode_groups [a] url) = Inr [a]"
  using regroup [OF assms, of 0 0, unfolded regroup_zero] unfolding encode_div_mod append.simps
  by (subst decode_chunk_chars(3)) (rule alphabet_facts trailing_facts refl | assumption | simp only:)+

lemma decode_encode:
  assumes "list_all (\<lambda>b. b < 256) bs"
  shows "decode_loop (encode_groups bs url) = Inr bs"
  using assms
proof (induction bs url rule: encode_groups.induct)
  case (4 a b c bs url)
  then have b: "a < 256" "b < 256" "c < 256" and ih: "decode_loop (encode_groups bs url) = Inr bs" by auto
  have d: "drop 4 (encode_groups (a # b # c # bs) url) = encode_groups bs url" by simp
  have ne: "encode_groups (a # b # c # bs) url \<noteq> []" by simp
  show ?case using ih ne by (subst decode_loop.simps) (simp only: decode_chunk_3 [OF b, of bs url "[]", unfolded append_Nil2] d if_False bind_res_simps append.simps)
next
  case (3 a b url)
  then have "decode_chunk (encode_groups [a, b] url) = Inr [a, b]" by (intro decode_chunk_2) auto
  moreover have "drop 4 (encode_groups [a, b] url) = []" "encode_groups [a, b] url \<noteq> []" by simp_all
  ultimately show ?case
    by (subst decode_loop.simps) (simp only: if_False bind_res_simps decode_loop.simps [of "[]"] simp_thms if_True append.simps)
next
  case (2 a url)
  then have "decode_chunk (encode_groups [a] url) = Inr [a]" by (intro decode_chunk_1) auto
  moreover have "drop 4 (encode_groups [a] url) = []" "encode_groups [a] url \<noteq> []" by simp_all
  ultimately show ?case
    by (subst decode_loop.simps) (simp only: if_False bind_res_simps decode_loop.simps [of "[]"] simp_thms if_True append.simps)
qed (simp add: decode_loop.simps)

section \<open>Line breaks\<close>

lemma linebreak_loop_total:
  assumes "0 < d"
  shows "\<exists>r. linebreak_loop d pos s = Some r \<and> filter (\<lambda>c. c \<noteq> newline) r = filter (\<lambda>c. c \<noteq> newline) s
    \<and> (s \<noteq> [] \<longrightarrow> r \<noteq> [])"
proof (induction "length s - pos" arbitrary: pos s rule: less_induct)
  case less
  show ?case
  proof (cases "pos < length s")
    case True
    let ?s = "take pos s @ newline # drop pos s"
    have m: "length ?s - (pos + d + 1) < length s - pos" using True assms by simp
    have "filter (\<lambda>c. c \<noteq> newline) ?s = filter (\<lambda>c. c \<noteq> newline) (take pos s) @ filter (\<lambda>c. c \<noteq> newline) (drop pos s)"
      by simp
    then have f: "filter (\<lambda>c. c \<noteq> newline) ?s = filter (\<lambda>c. c \<noteq> newline) s"
      unfolding filter_append [symmetric] append_take_drop_id .
    obtain r where "linebreak_loop d (pos + d + 1) ?s = Some r" "filter (\<lambda>c. c \<noteq> newline) r = filter (\<lambda>c. c \<noteq> newline) ?s" "r \<noteq> []"
      using less [OF m] by auto
    then show ?thesis using True f by (subst linebreak_loop.simps) simp
  next
    case False
    then show ?thesis by (subst linebreak_loop.simps) simp
  qed
qed

lemma not_newline_set:
  "newline \<noteq> x \<Longrightarrow> newline \<notin> set xs \<Longrightarrow> newline \<notin> set (x # xs)" "newline \<notin> set []"
  by simp_all

lemma groups_no_newline:
  assumes "list_all (\<lambda>b. b < 256) bs"
  shows "newline \<notin> set (encode_groups bs url)"
  using assms
proof (induction bs url rule: encode_groups.induct)
  case (2 a url)
  then have "a < 256" by simp
  then show ?case using regroup [of a 0 0, unfolded regroup_zero] unfolding encode_div_mod
    by (intro not_newline_set alphabet_facts(3) [THEN not_sym] trailing_facts(2) [THEN not_sym]) simp_all
next
  case (3 a b url)
  then have "a < 256" "b < 256" by simp_all
  then show ?case using regroup [of a b 0, unfolded regroup_zero] unfolding encode_div_mod
    by (intro not_newline_set alphabet_facts(3) [THEN not_sym] trailing_facts(2) [THEN not_sym]) simp_all
next
  case (4 a b c bs url)
  then have "a < 256" "b < 256" "c < 256" "newline \<notin> set (encode_groups bs url)" by simp_all
  then show ?case using regroup [of a b c] unfolding encode_div_mod append.simps
    by (intro not_newline_set alphabet_facts(3) [THEN not_sym]) simp_all
qed simp

lemma groups_nonempty: "bs \<noteq> [] \<Longrightarrow> encode_groups bs url \<noteq> []"
  by (induction bs url rule: encode_groups.induct) auto

lemma linebreaks_decode:
  assumes "list_all (\<lambda>b. b < 256) bs" "0 < d"
  shows "\<exists>s. insert_linebreaks (encode_groups bs False) d = Some s \<and> base64_decode s True = Inr bs"
proof (cases "bs = []")
  case True
  then show ?thesis by (simp add: insert_linebreaks_def base64_decode_def)
next
  case False
  obtain r where r: "linebreak_loop d d (encode_groups bs False) = Some r"
    "filter (\<lambda>c. c \<noteq> newline) r = filter (\<lambda>c. c \<noteq> newline) (encode_groups bs False)" "r \<noteq> []"
    using linebreak_loop_total [OF assms(2)] groups_nonempty [OF False] by blast
  have "filter (\<lambda>c. c \<noteq> newline) (encode_groups bs False) = encode_groups bs False"
    using groups_no_newline [OF assms(1)] by (simp add: filter_id_conv) metis
  then show ?thesis
    using r groups_nonempty [OF False] decode_encode [OF assms(1)]
    by (simp add: insert_linebreaks_def base64_decode_def)
qed

section \<open>Properties\<close>

text \<open>
  C38. Base64 round trip: the encoding of every string of less than \<open>2 ^ 32\<close> bytes ends, and the string decodes back from it,
  in the plain and in the URL alphabet, and from its PEM and MIME forms with line breaks when the
  line breaks are removed.
\<close>

theorem base64_round_trip:
  assumes "list_all (\<lambda>b. b < 256) bs" "length bs < 2 ^ 32"
  shows "(\<exists>s. base64_encode bs url = Some s \<and> base64_decode s False = Inr bs)
    \<and> (\<exists>s. base64_encode_pem bs = Some s \<and> base64_decode s True = Inr bs)
    \<and> (\<exists>s. base64_encode_mime bs = Some s \<and> base64_decode s True = Inr bs)"
proof -
  have e: "base64_encode bs u = Some (encode_groups bs u)" for u using assms(2) by (simp add: base64_encode_groups)
  show ?thesis
    using decode_encode [OF assms(1), of url] linebreaks_decode [OF assms(1), of 64] linebreaks_decode [OF assms(1), of 76]
      groups_nonempty [of bs url]
    by (auto simp: base64_decode_def base64_encode_pem_def base64_encode_mime_def e)
qed

lemma base64_round_trip_witness:
  "\<exists>s. base64_encode [255, 0, 17, 42] True = Some s \<and> base64_decode s False = Inr [255, 0, 17, 42]"
  using base64_round_trip [of "[255, 0, 17, 42]" True] by simp

text \<open>Of a longer string there is no encoding: the position in it, an \<open>unsigned int\<close>, never reaches its end.\<close>

theorem base64_encode_endless:
  assumes "2 ^ 32 \<le> length bs"
  shows "base64_encode bs url = None \<and> base64_encode_pem bs = None \<and> base64_encode_mime bs = None"
  using assms by (simp add: base64_encode_groups base64_encode_pem_def base64_encode_mime_def)

lemma base64_encode_endless_witness: "base64_encode (replicate (2 ^ 32) 0) False = None"
  using base64_encode_endless [of "replicate (2 ^ 32) 0"] by simp

text \<open>
  What decoding does with bad input: a first or second character of a chunk outside both
  alphabets, or a chunk of a single character (whose missing second character reads as null),
  throws, anywhere after well-formed chunks.
\<close>

theorem base64_decode_errors:
  assumes "\<forall>n. pos_of_char x \<noteq> Inr n" "list_all (\<lambda>b. b < 256) (concat bs)" "list_all (\<lambda>b. length b = 3) bs"
    and "base64_encode (concat bs) url = Some s"
  shows "base64_decode (s @ [y, x] @ t) False = Inl Thrown \<and> base64_decode (s @ [y]) False = Inl Thrown"
proof -
  have s: "s = encode_groups (concat bs) url" using assms(4) by (simp add: base64_encode_groups split: if_splits)
  have th: "pos_of_char x = Inl Thrown" using assms(1) by (auto simp: pos_of_char_def Let_def split: if_splits)
  have "pos_of_char (char_of (0::nat)) = Inl Thrown" by (simp add: pos_of_code)
  then have base: "decode_loop ([y, x] @ t) = Inl Thrown" "decode_loop [y] = Inl Thrown"
    by (subst decode_loop.simps, simp add: decode_chunk_def char_at_def th)+
  have "decode_loop (encode_groups (concat bs) url @ r) = Inl Thrown" if "decode_loop r = Inl Thrown" for r
    using assms(2,3)
  proof (induction bs)
    case (Cons b bs)
    obtain b0 b1 b2 where b: "b = [b0, b1, b2]" using Cons.prems(2) by (auto simp: length_Suc_conv eval_nat_numeral)
    then have lt: "b0 < 256" "b1 < 256" "b2 < 256" using Cons.prems(1) by auto
    have d: "drop 4 (encode_groups (concat (b # bs)) url @ r) = encode_groups (concat bs) url @ r" by (simp add: b)
    have "decode_chunk (encode_groups (concat (b # bs)) url @ r) = Inr [b0, b1, b2]"
      using decode_chunk_3 [OF lt] by (simp only: b concat.simps append.simps)
    moreover have "encode_groups (concat (b # bs)) url @ r \<noteq> []" by (simp add: b)
    moreover have "decode_loop (encode_groups (concat bs) url @ r) = Inl Thrown" using Cons by simp
    ultimately show ?case
      by (subst decode_loop.simps) (simp only: d if_False bind_res_simps)
  qed (use that in simp)
  then show ?thesis using base by (simp add: base64_decode_def s)
qed

lemma base64_decode_errors_witness: "\<exists>s. base64_encode [1, 2, 3] False = Some s \<and> base64_decode (s @ ''A?BC'') False = Inl Thrown"
proof -
  obtain s where s: "base64_encode (concat [[1, 2, 3]]) False = Some s" by (simp add: base64_encode_groups)
  then show ?thesis using base64_decode_errors [of "CHR ''?''" "[[1, 2, 3]]" False s "CHR ''A''" "''BC''"]
    by (simp add: pos_of_code)
qed

end
