(* ===== verification/MtArrList.thy ===== *)
theory MtArrList
  imports Prelude
begin

unbundle bit_operations_syntax

text \<open>
  \<open>mt_arr_list.c\<close>: the resizable array of hashes that holds one level of the Merkle tree.
  The store is modelled with its allocation: no block, a freed block whose pointer is kept, or
  a block of hash-sized slots, each empty until it is written. A write or read outside the
  block is \<open>OutOfRange\<close>, the use of a missing, freed or unwritten part \<open>Undefined\<close>, a failing
  \<open>assert\<close> \<open>AssertFailed\<close>. Whether the allocator finds memory is an argument (\<open>mem\<close>).
\<close>

section \<open>Error codes and sizes\<close>

datatype mt_error = MT_SUCCESS | MT_ERR_OUT_Of_MEMORY | MT_ERR_ILLEGAL_PARAM | MT_ERR_ILLEGAL_STATE
  | MT_ERR_ROOT_MISMATCH | MT_ERR_UNSPECIFIED

definition HASH_LENGTH :: u32 where "HASH_LENGTH = 32"
definition TREE_LEVELS :: nat where "TREE_LEVELS = 20"
definition MT_AL_MAX_ELEMS :: u32 where "MT_AL_MAX_ELEMS = 524288"

section \<open>Powers of two\<close>

definition smear :: "nat \<Rightarrow> u32 \<Rightarrow> u32" where
  "smear k v = v OR drop_bit k v"

definition round_next_power_two :: "u32 \<Rightarrow> u32" where
  "round_next_power_two v =
     (let v = v - 1; v = smear 1 v; v = smear 2 v; v = smear 4 v; v = smear 8 v; v = smear 16 v; v = v + 1
      in v + (if v = 0 then 1 else 0))"

definition is_power_of_two :: "u32 \<Rightarrow> bool" where
  "is_power_of_two v \<longleftrightarrow> v \<noteq> 0 \<and> v AND (v - 1) = 0"

section \<open>The array and its operations\<close>

datatype al_mem = AL_NULL | AL_FREED | AL_BLOCK "bytes option list"

record mt_al =
  al_elems :: u32
  al_store :: al_mem

definition mt_al_create :: "bool \<Rightarrow> mt_al option" where
  "mt_al_create mem = (if mem then Some \<lparr>al_elems = 0, al_store = AL_NULL\<rparr> else None)"

text \<open>\<open>free(mt_al->store); free(mt_al);\<close>: freeing a freed block is undefined.\<close>

definition mt_al_delete :: "mt_al option \<Rightarrow> unit res" where
  "mt_al_delete p = (case p of None \<Rightarrow> Inl NullDeref
     | Some al \<Rightarrow> if al_store al = AL_FREED then Inl Undefined else Inr ())"

text \<open>\<open>realloc\<close> to so many bytes keeps the slots that fit.\<close>

definition resize :: "u32 \<Rightarrow> al_mem \<Rightarrow> al_mem" where
  "resize alloc m = (let k = unat alloc div 32; old = (case m of AL_BLOCK s \<Rightarrow> s | _ \<Rightarrow> [])
     in AL_BLOCK (take k old @ replicate (k - length old) None))"

text \<open>\<open>memcpy(&store[offset * HASH_LENGTH], hash, HASH_LENGTH)\<close>\<close>

definition put_slot :: "u32 \<Rightarrow> bytes \<Rightarrow> mt_al \<Rightarrow> mt_al res" where
  "put_slot offset hash al = (let i = unat (offset * HASH_LENGTH) div 32 in
     case al_store al of AL_BLOCK s \<Rightarrow> if i < length s then Inr (al\<lparr>al_store := AL_BLOCK (s[i := Some hash])\<rparr>) else Inl OutOfRange
     | _ \<Rightarrow> Inl Undefined)"

text \<open>The \<open>assert\<close> at the head of every routine reads the array before its null test.\<close>

definition with_al :: "mt_al option \<Rightarrow> (mt_al \<Rightarrow> 'a res) \<Rightarrow> 'a res" where
  "with_al p f = (case p of None \<Rightarrow> Inl NullDeref
     | Some al \<Rightarrow> if al_elems al < MT_AL_MAX_ELEMS then f al else Inl AssertFailed)"

definition mt_al_add :: "bool \<Rightarrow> mt_al option \<Rightarrow> bytes option \<Rightarrow> (mt_error \<times> mt_al) res" where
  "mt_al_add mem p hash = with_al p (\<lambda>al. case hash of None \<Rightarrow> Inr (MT_ERR_ILLEGAL_PARAM, al)
     | Some h \<Rightarrow>
        let e = al_elems al;
            finish = (\<lambda>m. bind_res (put_slot e h (al\<lparr>al_store := m\<rparr>)) (\<lambda>al'. Inr (MT_SUCCESS, al'\<lparr>al_elems := e + 1\<rparr>)))
        in if e = 0 then
             if mem then finish (resize HASH_LENGTH AL_NULL) else Inr (MT_ERR_OUT_Of_MEMORY, al\<lparr>al_store := AL_NULL\<rparr>)
           else if is_power_of_two e then
             if push_bit 1 e < e \<or> push_bit 1 e > MT_AL_MAX_ELEMS then Inr (MT_ERR_ILLEGAL_STATE, al)
             else if mem then finish (resize (e * 2 * HASH_LENGTH) (al_store al)) else Inr (MT_ERR_OUT_Of_MEMORY, al)
           else finish (al_store al))"

definition mt_al_update :: "mt_al option \<Rightarrow> bytes option \<Rightarrow> u32 \<Rightarrow> (mt_error \<times> mt_al) res" where
  "mt_al_update p hash offset = with_al p (\<lambda>al. case hash of None \<Rightarrow> Inr (MT_ERR_ILLEGAL_PARAM, al)
     | Some h \<Rightarrow> if offset < al_elems al then bind_res (put_slot offset h al) (\<lambda>al'. Inr (MT_SUCCESS, al'))
        else Inr (MT_ERR_ILLEGAL_PARAM, al))"

definition mt_al_update_if_exists :: "mt_al option \<Rightarrow> bytes option \<Rightarrow> u32 \<Rightarrow> (mt_error \<times> mt_al) res" where
  "mt_al_update_if_exists p hash offset = with_al p (\<lambda>al. case hash of None \<Rightarrow> Inr (MT_ERR_ILLEGAL_PARAM, al)
     | Some h \<Rightarrow> if offset \<ge> al_elems al then Inr (MT_SUCCESS, al)
        else bind_res (put_slot offset h al) (\<lambda>al'. Inr (MT_SUCCESS, al')))"

definition mt_al_add_or_update :: "bool \<Rightarrow> mt_al option \<Rightarrow> bytes option \<Rightarrow> u32 \<Rightarrow> (mt_error \<times> mt_al) res" where
  "mt_al_add_or_update mem p hash offset = with_al p (\<lambda>al.
     if hash = None \<or> offset > al_elems al then Inr (MT_ERR_ILLEGAL_PARAM, al)
     else if offset = al_elems al then mt_al_add mem p hash
     else mt_al_update p hash offset)"

definition mt_al_truncate :: "bool \<Rightarrow> mt_al option \<Rightarrow> u32 \<Rightarrow> (mt_error \<times> mt_al) res" where
  "mt_al_truncate mem p elems = with_al p (\<lambda>al.
     if \<not> elems < al_elems al then Inr (MT_ERR_ILLEGAL_PARAM, al)
     else let al = al\<lparr>al_elems := elems\<rparr> in
       if elems = 0 then Inr (MT_SUCCESS, al\<lparr>al_store := AL_FREED\<rparr>)
       else if mem then Inr (MT_SUCCESS, al\<lparr>al_store := resize (round_next_power_two elems * HASH_LENGTH) (al_store al)\<rparr>)
       else Inr (MT_ERR_OUT_Of_MEMORY, al))"

text \<open>The pointer returned is \<open>None\<close> for \<open>NULL\<close>, otherwise the hash it points to.\<close>

definition mt_al_get :: "mt_al option \<Rightarrow> u32 \<Rightarrow> bytes option res" where
  "mt_al_get p offset = with_al p (\<lambda>al.
     if \<not> offset < al_elems al then Inr None
     else case al_store al of
       AL_BLOCK s \<Rightarrow> (let i = unat (offset * HASH_LENGTH) div 32 in
         if i < length s then (case s ! i of Some h \<Rightarrow> Inr (Some h) | None \<Rightarrow> Inl Undefined) else Inl OutOfRange)
     | _ \<Rightarrow> Inl Undefined)"

definition mt_al_has_right_neighbor :: "mt_al option \<Rightarrow> u32 \<Rightarrow> bool" where
  "mt_al_has_right_neighbor p offset \<longleftrightarrow> (case p of None \<Rightarrow> False | Some al \<Rightarrow> offset + 1 < al_elems al)"

definition mt_al_get_size :: "mt_al option \<Rightarrow> u32" where
  "mt_al_get_size p = (case p of None \<Rightarrow> 0 | Some al \<Rightarrow> al_elems al)"

section \<open>Printing\<close>

definition hex_digit :: "u8 \<Rightarrow> char" where
  "hex_digit d = ''0123456789ABCDEF'' ! unat (d AND 15)"

definition hex_byte :: "u8 \<Rightarrow> string" where
  "hex_byte b = [hex_digit (drop_bit 4 b), hex_digit b]"

text \<open>Standard output of \<open>mt_al_print_hex_buffer\<close> (an error message goes to standard error).\<close>

definition mt_al_print_hex_buffer :: "bytes option \<Rightarrow> string" where
  "mt_al_print_hex_buffer buffer = (case buffer of None \<Rightarrow> [] | Some b \<Rightarrow> concat (map hex_byte b))"

definition mt_al_sprint_hex_buffer :: "bytes option \<Rightarrow> string option" where
  "mt_al_sprint_hex_buffer buffer = (case buffer of None \<Rightarrow> None | Some b \<Rightarrow> Some (concat (map hex_byte b)))"

definition hex_word :: "u32 \<Rightarrow> string" where
  "hex_word w = concat (map (\<lambda>k. hex_byte (ucast (drop_bit (8 * k) w))) [3, 2, 1, 0])"

definition eol :: string where "eol = [char_of (10::nat)]"

definition mt_al_print :: "mt_al option \<Rightarrow> string res" where
  "mt_al_print p = with_al p (\<lambda>al. bind_res
     (foldr (\<lambda>i r. bind_res (mt_al_get p (word_of_nat i)) (\<lambda>h. bind_res r (\<lambda>out. Inr (mt_al_print_hex_buffer h @ eol @ out))))
        [0..<unat (al_elems al)] (Inr []))
     (\<lambda>rows. Inr (''['' @ hex_word (al_elems al) @ eol @ rows @ '']'' @ eol)))"

section \<open>Index and capacity arithmetic\<close>

lemma slot_index:
  assumes "unat off < 2 ^ 27"
  shows "unat (off * HASH_LENGTH) div 32 = unat off"
proof -
  have "unat off * 32 < 2 ^ 32" using assms by simp
  then show ?thesis by (simp add: HASH_LENGTH_def unat_word_ariths)
qed

lemma alloc_slots:
  assumes "unat e \<le> 524288"
  shows "unat (e * 2 * HASH_LENGTH) div 32 = 2 * unat e"
proof -
  have "unat (e * 2) = unat e * 2" using assms by (simp add: unat_word_ariths)
  then show ?thesis using slot_index [of "e * 2"] assms by simp
qed

lemma unat_exp:
  assumes "k < 32"
  shows "unat (2 ^ k :: u32) = 2 ^ k"
proof -
  have "unat (word_of_nat (2 ^ k) :: u32) = 2 ^ k mod 2 ^ 32" by (subst unat_of_nat) simp
  then have "unat (2 ^ k :: u32) = 2 ^ k mod 2 ^ 32" by (simp only: of_nat_power of_nat_numeral)
  moreover have "(2::nat) ^ k < 2 ^ 32" using assms by (intro power_strict_increasing) auto
  ultimately show ?thesis by simp
qed

lemma bit_word_nat: "bit v j \<longleftrightarrow> odd (unat v div 2 ^ j)" for v :: u32
proof -
  have "bit v j \<longleftrightarrow> bit (unat v) j" by (simp add: bit_unsigned_iff)
  then show ?thesis by (simp only: bit_iff_odd)
qed

text \<open>A number between two powers of two is one only if it equals the upper one.\<close>

lemma is_power_of_two_capacity:
  assumes "unat v \<le> 2 ^ k" "2 ^ k < 2 * unat v" "k < 32"
  shows "is_power_of_two v \<longleftrightarrow> unat v = 2 ^ k"
proof
  assume v: "is_power_of_two v"
  show "unat v = 2 ^ k"
  proof (rule ccontr)
    assume "unat v \<noteq> 2 ^ k"
    then have lt: "unat v < 2 ^ k" using assms(1) by simp
    then obtain j where k: "k = Suc j" using assms(2) by (cases k) auto
    have ge: "2 ^ j \<le> unat v - 1" using assms(2) by (simp add: k)
    have "v \<noteq> 0" using assms(2) by auto
    then have u: "unat (v - 1) = unat v - 1" by (simp add: unat_minus_one)
    have b: "bit w j" if "2 ^ j \<le> unat w" "unat w < 2 ^ k" for w :: u32
    proof -
      have "unat w div 2 ^ j = 1" using that by (simp add: k div_nat_eqI)
      then show ?thesis by (simp add: bit_word_nat)
    qed
    have "bit (v AND (v - 1)) j"
      using b [of v] b [of "v - 1"] ge lt by (simp add: bit_and_iff u)
    then show False using v by (simp add: is_power_of_two_def)
  qed
next
  assume v: "unat v = 2 ^ k"
  then have w: "v = 2 ^ k" using assms(3) by (simp add: word_unat_eq_iff unat_exp)
  have "v AND mask k = 0" unfolding w by (rule bit_word_eqI) (auto simp: bit_simps)
  moreover have "v \<noteq> 0" using v by auto
  ultimately show "is_power_of_two v" by (simp add: is_power_of_two_def mask_eq_exp_minus_1 w)
qed

lemma smear_bit: "bit (smear k v) i \<longleftrightarrow> bit v i \<or> bit v (i + k)"
  by (simp add: smear_def bit_or_iff bit_drop_bit_eq add.commute)

lemma smear_double:
  assumes "\<And>i. bit w i \<longleftrightarrow> (\<exists>d < n. bit v (i + d))"
  shows "bit (smear n w) i \<longleftrightarrow> (\<exists>d < 2 * n. bit v (i + d))"
proof
  assume "bit (smear n w) i"
  then consider d where "d < n" "bit v (i + d)" | d where "d < n" "bit v (i + n + d)"
    unfolding smear_bit assms by blast
  then show "\<exists>d < 2 * n. bit v (i + d)"
  proof cases
    case 1
    then show ?thesis by (intro exI [of _ d]) simp
  next
    case 2
    then show ?thesis by (intro exI [of _ "n + d"]) (simp add: add.assoc)
  qed
next
  assume "\<exists>d < 2 * n. bit v (i + d)"
  then obtain d where d: "d < 2 * n" "bit v (i + d)" by blast
  show "bit (smear n w) i"
  proof (cases "d < n")
    case True
    then show ?thesis unfolding smear_bit assms using d by blast
  next
    case False
    then have "d - n < n" "bit v (i + n + (d - n))" using d by simp_all
    then show ?thesis unfolding smear_bit assms by blast
  qed
qed

lemma smear_all_bit:
  "bit (smear 16 (smear 8 (smear 4 (smear 2 (smear 1 v))))) i \<longleftrightarrow> (\<exists>d < 32. bit v (i + d))"
proof -
  have one: "bit v i \<longleftrightarrow> (\<exists>d < 1. bit v (i + d))" for i by simp
  note s = smear_double [where v = v, OF smear_double [where v = v, OF smear_double [where v = v,
      OF smear_double [where v = v, OF smear_double [where v = v, OF one]]]]]
  show ?thesis using s [of i] by simp
qed

lemma smear_all:
  fixes v :: u32
  assumes "unat v < 2 ^ k" "k \<le> 32" "k = 0 \<or> 2 ^ (k - 1) \<le> unat v"
  shows "smear 16 (smear 8 (smear 4 (smear 2 (smear 1 v)))) = mask k"
proof (rule bit_word_eqI)
  fix i assume i: "i < LENGTH(32)"
  have hi: "\<not> bit v j" if "k \<le> j" for j
  proof -
    have "unat v < 2 ^ j" using assms(1) that by (meson less_le_trans one_le_numeral power_increasing)
    then show ?thesis by (simp add: bit_word_nat)
  qed
  have lo: "bit v (k - 1)" if "0 < k"
  proof -
    from that obtain j where k: "k = Suc j" by (metis gr0_implies_Suc)
    have "unat v div 2 ^ (k - 1) = 1" using assms by (intro div_nat_eqI) (auto simp: k)
    then show ?thesis by (simp add: bit_word_nat)
  qed
  have "(\<exists>d < 32. bit v (i + d)) \<longleftrightarrow> i < k"
  proof
    assume "\<exists>d < 32. bit v (i + d)"
    then show "i < k" using hi by (meson leI le_add1 order_trans)
  next
    assume "i < k"
    then show "\<exists>d < 32. bit v (i + d)" using lo assms(2) by (intro exI [of _ "k - 1 - i"]) auto
  qed
  then show "bit (smear 16 (smear 8 (smear 4 (smear 2 (smear 1 v))))) i \<longleftrightarrow> bit (mask k :: u32) i"
    unfolding smear_all_bit using i by (simp add: bit_mask_iff)
qed

lemma round_next_power_two_nat:
  assumes "0 < unat v" "unat v \<le> 2 ^ k" "2 ^ k < 2 * unat v" "k < 32"
  shows "unat (round_next_power_two v) = 2 ^ k"
proof -
  have "v \<noteq> 0" using assms(1) by auto
  then have u: "unat (v - 1) = unat v - 1" by (simp add: unat_minus_one)
  have "k = 0 \<or> 2 ^ (k - 1) \<le> unat (v - 1)" using assms(3) u by (cases k) auto
  then have m: "smear 16 (smear 8 (smear 4 (smear 2 (smear 1 (v - 1))))) = mask k"
    using assms u by (intro smear_all) auto
  have p: "mask k + 1 = (2 :: u32) ^ k" by (simp add: mask_eq_exp_minus_1)
  have "(2 :: u32) ^ k \<noteq> 0" using assms(4) by simp
  then show ?thesis unfolding round_next_power_two_def Let_def m p using assms(4) by (simp add: unat_exp)
qed

section \<open>What the array holds\<close>

text \<open>
  \<open>al_ok al xs\<close>: the array represents the list \<open>xs\<close>. The block has as many slots as the next
  power of two, and the first ones hold \<open>xs\<close>; an empty array may have no block or a freed one.
\<close>

definition al_ok :: "mt_al \<Rightarrow> bytes list \<Rightarrow> bool" where
  "al_ok al xs \<longleftrightarrow> unat (al_elems al) = length xs \<and> length xs \<le> 524288
     \<and> (xs = [] \<or> (\<exists>s k. al_store al = AL_BLOCK s \<and> length s = 2 ^ k \<and> length xs \<le> 2 ^ k \<and> 2 ^ k < 2 * length xs
          \<and> take (length xs) s = map Some xs))"

lemma al_okE:
  assumes "al_ok al xs" "xs \<noteq> []"
  obtains s k where "al_store al = AL_BLOCK s" "length s = 2 ^ k" "length xs \<le> 2 ^ k" "2 ^ k < 2 * length xs"
    "take (length xs) s = map Some xs" "unat (al_elems al) = length xs" "length xs \<le> 524288" "k < 32"
proof -
  obtain s k where s: "al_store al = AL_BLOCK s" "length s = 2 ^ k" "length xs \<le> 2 ^ k" "2 ^ k < 2 * length xs"
    "take (length xs) s = map Some xs" "unat (al_elems al) = length xs" "length xs \<le> 524288"
    using assms by (auto simp: al_ok_def)
  have "(2::nat) ^ k < 2 ^ 32" using s(4,7) by simp
  then have "k < 32" by (rule power_less_imp_less_exp [rotated]) simp
  then show thesis using that s by blast
qed

lemma al_ok_create: "mt_al_create mem = Some al \<Longrightarrow> al_ok al []"
  by (auto simp: mt_al_create_def al_ok_def split: if_splits)

lemma with_al_ok:
  assumes "al_ok al xs" "length xs < 524288"
  shows "with_al (Some al) f = f al"
  using assms by (simp add: with_al_def al_ok_def MT_AL_MAX_ELEMS_def word_less_nat_alt)

lemma al_ok_get:
  assumes "al_ok al xs" "length xs < 524288"
  shows "mt_al_get (Some al) off = Inr (if unat off < length xs then Some (xs ! unat off) else None)"
proof (cases "unat off < length xs")
  case True
  then have "xs \<noteq> []" by auto
  from al_okE [OF assms(1) this] obtain s k where s: "al_store al = AL_BLOCK s" "length s = 2 ^ k" "length xs \<le> 2 ^ k"
    "take (length xs) s = map Some xs" "unat (al_elems al) = length xs" by blast
  have i: "unat (off * HASH_LENGTH) div 32 = unat off" using True assms(2) by (intro slot_index) simp
  have "s ! unat off = Some (xs ! unat off)" using True s(4) by (metis length_map nth_map nth_take)
  then show ?thesis using True s assms by (simp add: mt_al_get_def with_al_ok [OF assms] i word_less_nat_alt)
next
  case False
  then show ?thesis using assms by (simp add: mt_al_get_def with_al_ok [OF assms] word_less_nat_alt al_ok_def)
qed

lemma al_ok_size: "al_ok al xs \<Longrightarrow> unat (mt_al_get_size (Some al)) = length xs"
  by (simp add: mt_al_get_size_def al_ok_def)

lemma take_snoc_map:
  assumes "take n s = map Some xs" "length xs = n" "n < length s"
  shows "take (Suc n) (s[n := Some h]) = map Some (xs @ [h])"
  using assms by (simp add: take_Suc_conv_app_nth)

lemma al_ok_update:
  assumes "al_ok al xs" "length xs < 524288" "unat off < length xs"
  shows "\<exists>al'. mt_al_update (Some al) (Some h) off = Inr (MT_SUCCESS, al') \<and> al_ok al' (xs[unat off := h])"
proof -
  have "xs \<noteq> []" using assms(3) by auto
  from al_okE [OF assms(1) this] obtain s k where s: "al_store al = AL_BLOCK s" "length s = 2 ^ k" "length xs \<le> 2 ^ k"
    "2 ^ k < 2 * length xs" "take (length xs) s = map Some xs" "unat (al_elems al) = length xs" by blast
  have i: "unat (off * HASH_LENGTH) div 32 = unat off" using assms by (intro slot_index) simp
  have t: "take (length xs) (s[unat off := Some h]) = map Some (xs[unat off := h])"
    by (simp add: take_update_swap s(5) map_update)
  let ?al = "al\<lparr>al_store := AL_BLOCK (s[unat off := Some h])\<rparr>"
  have "mt_al_update (Some al) (Some h) off = Inr (MT_SUCCESS, ?al)"
    using assms(3) s by (simp add: mt_al_update_def with_al_ok [OF assms(1,2)] put_slot_def i word_less_nat_alt Let_def)
  moreover have "al_ok ?al (xs[unat off := h])"
    using s t assms(2) \<open>xs \<noteq> []\<close> by (auto simp: al_ok_def)
  ultimately show ?thesis by blast
qed

lemma al_ok_update_if_exists:
  assumes "al_ok al xs" "length xs < 524288"
  shows "\<exists>al'. mt_al_update_if_exists (Some al) (Some h) off = Inr (MT_SUCCESS, al') \<and> al_ok al' (xs[unat off := h])"
proof (cases "unat off < length xs")
  case True
  then have "mt_al_update_if_exists (Some al) (Some h) off = mt_al_update (Some al) (Some h) off"
    using assms by (simp add: mt_al_update_if_exists_def mt_al_update_def with_al_ok [OF assms] al_ok_def word_less_nat_alt word_le_nat_alt)
  then show ?thesis using al_ok_update [OF assms True] by simp
next
  case False
  then show ?thesis using assms
    by (simp add: mt_al_update_if_exists_def with_al_ok [OF assms] word_le_nat_alt al_ok_def list_update_beyond)
qed

lemma al_ok_add:
  assumes "al_ok al xs" "length xs < 524288"
  shows "\<exists>al'. mt_al_add True (Some al) (Some h) = Inr (MT_SUCCESS, al') \<and> al_ok al' (xs @ [h])"
proof -
  let ?e = "al_elems al"
  have e: "unat ?e = length xs" using assms(1) by (simp add: al_ok_def)
  have inc: "unat (?e + 1) = Suc (length xs)" using assms(2) e by (simp add: unat_word_ariths)
  have idx: "unat (?e * HASH_LENGTH) div 32 = length xs" using slot_index [of ?e] assms(2) e by simp
  have max: "unat MT_AL_MAX_ELEMS = 524288" by (simp add: MT_AL_MAX_ELEMS_def)
  have fin: "\<exists>al'. bind_res (put_slot ?e h (al\<lparr>al_store := AL_BLOCK s\<rparr>)) (\<lambda>al'. Inr (MT_SUCCESS, al'\<lparr>al_elems := ?e + 1\<rparr>)) = Inr (MT_SUCCESS, al')
      \<and> al_ok al' (xs @ [h])"
    if "length s = 2 ^ k" "length xs < 2 ^ k" "2 ^ k < 2 * Suc (length xs)" "take (length xs) s = map Some xs" for s k
  proof -
    have "take (Suc (length xs)) (s[length xs := Some h]) = map Some (xs @ [h])"
      using that by (intro take_snoc_map) simp_all
    then show ?thesis using that assms(2) inc by (auto simp: put_slot_def idx al_ok_def Let_def)
  qed
  show ?thesis
  proof (cases "xs = []")
    case True
    then have e0: "?e = 0" using e by (simp add: unat_eq_0)
    have h: "unat HASH_LENGTH div 32 = 1" by (simp add: HASH_LENGTH_def)
    show ?thesis using fin [of "[None]" 0] True e0
      by (simp add: mt_al_add_def with_al_ok [OF assms] resize_def h Let_def)
  next
    case False
    from al_okE [OF assms(1) this] obtain s k where s: "al_store al = AL_BLOCK s" "length s = 2 ^ k" "length xs \<le> 2 ^ k"
      "2 ^ k < 2 * length xs" "take (length xs) s = map Some xs" "k < 32" by blast
    have e0: "?e \<noteq> 0" using False e by auto
    have p: "is_power_of_two ?e \<longleftrightarrow> length xs = 2 ^ k" using is_power_of_two_capacity [of ?e k] s e by simp
    show ?thesis
    proof (cases "length xs = 2 ^ k")
      case True
      have "(2::nat) ^ k < 2 ^ 19" using True assms(2) by simp
      then have "k < 19" by (rule power_less_imp_less_exp [rotated]) simp
      then have k: "(2::nat) ^ k \<le> 2 ^ 18" by (intro power_increasing) simp_all
      have d: "unat (push_bit 1 ?e) = 2 * length xs"
        using assms(2) e by (simp add: push_bit_eq_mult unat_word_ariths)
      have g: "\<not> (push_bit 1 ?e < ?e \<or> push_bit 1 ?e > MT_AL_MAX_ELEMS)"
        using d e k True max by (simp add: word_less_nat_alt)
      have sm: "s = map Some xs" using s True by simp
      have r: "resize (?e * 2 * HASH_LENGTH) (AL_BLOCK (map Some xs)) = AL_BLOCK (map Some xs @ replicate (2 ^ k) None)"
        using alloc_slots [of ?e] assms(2) e True by (simp add: resize_def Let_def)
      show ?thesis using fin [of "map Some xs @ replicate (2 ^ k) None" "Suc k"] True e0 g p s sm
        by (simp add: mt_al_add_def with_al_ok [OF assms] r Let_def)
    next
      case False
      then show ?thesis using fin [of s k] e0 p s
        by (simp add: mt_al_add_def with_al_ok [OF assms] Let_def)
    qed
  qed
qed

lemma al_ok_add_or_update:
  assumes "al_ok al xs" "length xs < 524288" "unat off \<le> length xs"
  shows "\<exists>al'. mt_al_add_or_update True (Some al) (Some h) off = Inr (MT_SUCCESS, al')
    \<and> al_ok al' (if unat off = length xs then xs @ [h] else xs[unat off := h])"
proof -
  have e: "unat (al_elems al) = length xs" using assms(1) by (simp add: al_ok_def)
  then have "off = al_elems al \<longleftrightarrow> unat off = length xs" "\<not> off > al_elems al"
    using assms(3) by (auto simp: word_less_nat_alt word_unat_eq_iff)
  then have "mt_al_add_or_update True (Some al) (Some h) off =
      (if unat off = length xs then mt_al_add True (Some al) (Some h) else mt_al_update (Some al) (Some h) off)"
    by (simp add: mt_al_add_or_update_def with_al_ok [OF assms(1,2)])
  then show ?thesis using al_ok_add [OF assms(1,2), of h] al_ok_update [OF assms(1,2), of off h] assms(3) by simp
qed

lemma al_ok_truncate:
  assumes "al_ok al xs" "length xs < 524288" "unat n < length xs"
  shows "\<exists>al'. mt_al_truncate True (Some al) n = Inr (MT_SUCCESS, al') \<and> al_ok al' (take (unat n) xs)
    \<and> (n = 0 \<longrightarrow> al_store al' = AL_FREED)"
proof -
  have e: "unat (al_elems al) = length xs" using assms(1) by (simp add: al_ok_def)
  have lt: "n < al_elems al" using e assms(3) by (simp add: word_less_nat_alt)
  show ?thesis
  proof (cases "n = 0")
    case True
    then show ?thesis using lt assms by (simp add: mt_al_truncate_def with_al_ok [OF assms(1,2)] al_ok_def)
  next
    case False
    then have n0: "0 < unat n" by (simp add: unat_gt_0)
    have "xs \<noteq> []" using assms(3) by auto
    from al_okE [OF assms(1) this] obtain s k where s: "al_store al = AL_BLOCK s" "length s = 2 ^ k" "length xs \<le> 2 ^ k"
      "take (length xs) s = map Some xs" "k < 32" by blast
    obtain j where j: "unat n \<le> 2 ^ j" "2 ^ j < 2 * unat n"
    proof -
      have "\<exists>j. unat n \<le> 2 ^ j \<and> 2 ^ j < 2 * unat n" using n0
      proof (induction "unat n" rule: less_induct)
        case less
        let ?j = "LEAST j. unat n \<le> 2 ^ j"
        have le: "unat n \<le> 2 ^ ?j" by (rule LeastI [of _ "unat n"]) (simp add: less_imp_le)
        moreover have "2 ^ ?j < 2 * unat n"
        proof (cases ?j)
          case (Suc i)
          then have "\<not> unat n \<le> 2 ^ i" using not_less_Least [of i "\<lambda>j. unat n \<le> 2 ^ j"] by simp
          then show ?thesis using Suc by simp
        qed (use less in simp)
        ultimately show ?case by blast
      qed
      then show thesis using that by blast
    qed
    have jk: "j \<le> k"
    proof (rule ccontr)
      assume "\<not> j \<le> k"
      then have "2 * (2::nat) ^ k \<le> 2 ^ j" by (simp flip: power_Suc add: power_increasing)
      then show False using j assms(3) s(3) by simp
    qed
    have r: "unat (round_next_power_two n) = 2 ^ j" using round_next_power_two_nat [OF n0 j] jk s(5) by simp
    have "2 ^ j < (2::nat) ^ 20" using j(2) assms(2,3) by simp
    then have a: "unat (round_next_power_two n * HASH_LENGTH) div 32 = 2 ^ j" using slot_index [of "round_next_power_two n"] r by simp
    have le: "(2::nat) ^ j \<le> 2 ^ k" using jk by (simp add: power_increasing)
    let ?al = "al\<lparr>al_elems := n, al_store := AL_BLOCK (take (2 ^ j) s)\<rparr>"
    have "mt_al_truncate True (Some al) n = Inr (MT_SUCCESS, ?al)"
      using False lt s(1,2) le by (simp add: mt_al_truncate_def with_al_ok [OF assms(1,2)] Let_def resize_def a)
    moreover have "take (unat n) (take (2 ^ j) s) = map Some (take (unat n) xs)"
    proof -
      have "take (unat n) s = take (unat n) (take (length xs) s)" using assms(3) by simp
      then show ?thesis using j(1) s(4) by (simp add: take_map min_def)
    qed
    then have "al_ok ?al (take (unat n) xs)" using assms(2,3) s(2) j le by (auto simp: al_ok_def)
    ultimately show ?thesis using False by blast
  qed
qed

section \<open>Properties\<close>

text \<open>
  The array list is a list, memory-safely: on an array that represents \<open>xs\<close> (below the
  maximum, with memory available) adding, updating, truncating and reading act as append,
  list update, \<open>take\<close> and \<open>nth\<close>, return \<open>MT_SUCCESS\<close>, and never touch memory outside the block.
\<close>

theorem mt_al_refines_list:
  assumes "al_ok al xs" "length xs < 524288"
  shows "(\<exists>al'. mt_al_add True (Some al) (Some h) = Inr (MT_SUCCESS, al') \<and> al_ok al' (xs @ [h]))
    \<and> (unat off < length xs \<longrightarrow> (\<exists>al'. mt_al_update (Some al) (Some h) off = Inr (MT_SUCCESS, al') \<and> al_ok al' (xs[unat off := h])))
    \<and> (unat off < length xs \<longrightarrow> (\<exists>al'. mt_al_truncate True (Some al) off = Inr (MT_SUCCESS, al') \<and> al_ok al' (take (unat off) xs)))
    \<and> mt_al_get (Some al) off = Inr (if unat off < length xs then Some (xs ! unat off) else None)"
  using al_ok_add [OF assms] al_ok_update [OF assms] al_ok_truncate [OF assms] al_ok_get [OF assms] by blast

definition al_sample :: mt_al where
  "al_sample = \<lparr>al_elems = 3, al_store = AL_BLOCK [Some [7], Some [8], Some [9], None]\<rparr>"

lemma al_sample_ok: "al_ok al_sample [[7], [8], [9]]"
proof -
  have "length [Some [7 :: u8], Some [8], Some [9], None] = 2 ^ 2" by simp
  moreover have "(2::nat) ^ 2 < 2 * 3" by simp
  ultimately show ?thesis unfolding al_ok_def al_sample_def by (intro conjI disjI2 exI [of _ "[Some [7], Some [8], Some [9], None]"] exI [of _ 2]) simp_all
qed

lemma mt_al_refines_list_witness:
  "mt_al_get (Some al_sample) 2 = Inr (Some [9])
    \<and> (\<exists>al'. mt_al_add True (Some al_sample) (Some [5]) = Inr (MT_SUCCESS, al') \<and> al_ok al' [[7], [8], [9], [5]])"
  using mt_al_refines_list [OF al_sample_ok, of "[5]" 2] by simp

text \<open>
  The two edges of the array list. An array whose last element is truncated away keeps the
  freed block, so deleting it frees the block twice; and an array one below the maximum accepts
  one more hash, after which every read of it fails its assertion.
\<close>

theorem mt_al_edges:
  assumes "al_ok al xs"
  shows "(0 < length xs \<and> length xs < 524288 \<longrightarrow> (\<exists>al'. mt_al_truncate True (Some al) 0 = Inr (MT_SUCCESS, al') \<and> mt_al_delete (Some al') = Inl Undefined))
    \<and> (length xs = 524287 \<longrightarrow> (\<exists>al'. mt_al_add True (Some al) (Some h) = Inr (MT_SUCCESS, al') \<and> mt_al_get (Some al') off = Inl AssertFailed))"
proof (intro conjI impI)
  assume "0 < length xs \<and> length xs < 524288"
  then obtain al' where "mt_al_truncate True (Some al) 0 = Inr (MT_SUCCESS, al')" "al_store al' = AL_FREED"
    using al_ok_truncate [OF assms, of 0] by auto
  then show "\<exists>al'. mt_al_truncate True (Some al) 0 = Inr (MT_SUCCESS, al') \<and> mt_al_delete (Some al') = Inl Undefined"
    by (simp add: mt_al_delete_def)
next
  assume n: "length xs = 524287"
  then obtain al' where al': "mt_al_add True (Some al) (Some h) = Inr (MT_SUCCESS, al')" "al_ok al' (xs @ [h])"
    using al_ok_add [OF assms, of h] by auto
  then have "unat (al_elems al') = 524288" using n by (simp add: al_ok_def)
  then have "mt_al_get (Some al') off = Inl AssertFailed"
    by (simp add: mt_al_get_def with_al_def MT_AL_MAX_ELEMS_def word_less_nat_alt)
  then show "\<exists>al'. mt_al_add True (Some al) (Some h) = Inr (MT_SUCCESS, al') \<and> mt_al_get (Some al') off = Inl AssertFailed"
    using al'(1) by blast
qed

lemma mt_al_edges_witness:
  "\<exists>al'. mt_al_truncate True (Some al_sample) 0 = Inr (MT_SUCCESS, al') \<and> mt_al_delete (Some al') = Inl Undefined"
  using mt_al_edges [OF al_sample_ok] by simp

end
