(* ===== verification/Sha256.thy ===== *)
theory Sha256
  imports Prelude
begin

unbundle bit_operations_syntax

text \<open>
  \<open>sha224_256.c\<close> (SHA-224 and SHA-256 on a context that is fed piece by piece) and the C++
  wrapper \<open>sha256_hepler.h\<close>. The 64-byte buffer is a list that is updated in place, the length
  counter is the pair of 32-bit words of the source with its \<open>Corrupted\<close> overflow flag. The
  second half shows that the machine computes the padded, block by block hash of FIPS 180-2.
\<close>

section \<open>Context and error codes\<close>

datatype sha_code = ShaSuccess | ShaNull | ShaInputTooLong | ShaStateError

record sha_ctx =
  sc_hash :: "u32 list"
  sc_low :: u32
  sc_high :: u32
  sc_index :: nat
  sc_block :: bytes
  sc_computed :: bool
  sc_corrupted :: sha_code

definition sha_block_size :: nat where "sha_block_size = 64"
definition sha256_hash_size :: nat where "sha256_hash_size = 32"
definition sha224_hash_size :: nat where "sha224_hash_size = 28"

section \<open>The logical functions\<close>

definition sha_rotr :: "nat \<Rightarrow> u32 \<Rightarrow> u32" where
  "sha_rotr n w = (drop_bit n w) OR (push_bit (32 - n) w)"

definition SIGMA0 :: "u32 \<Rightarrow> u32" where "SIGMA0 w = sha_rotr 2 w XOR sha_rotr 13 w XOR sha_rotr 22 w"
definition SIGMA1 :: "u32 \<Rightarrow> u32" where "SIGMA1 w = sha_rotr 6 w XOR sha_rotr 11 w XOR sha_rotr 25 w"
definition sigma0 :: "u32 \<Rightarrow> u32" where "sigma0 w = sha_rotr 7 w XOR sha_rotr 18 w XOR drop_bit 3 w"
definition sigma1 :: "u32 \<Rightarrow> u32" where "sigma1 w = sha_rotr 17 w XOR sha_rotr 19 w XOR drop_bit 10 w"
definition SHA_Ch :: "u32 \<Rightarrow> u32 \<Rightarrow> u32 \<Rightarrow> u32" where "SHA_Ch x y z = (x AND y) XOR (NOT x AND z)"
definition SHA_Maj :: "u32 \<Rightarrow> u32 \<Rightarrow> u32 \<Rightarrow> u32" where
  "SHA_Maj x y z = (x AND y) XOR (x AND z) XOR (y AND z)"

definition sha_K :: "u32 list" where
  "sha_K = concat [
      [0x428a2f98, 0x71374491, 0xb5c0fbcf, 0xe9b5dba5, 0x3956c25b],
      [0x59f111f1, 0x923f82a4, 0xab1c5ed5, 0xd807aa98, 0x12835b01],
      [0x243185be, 0x550c7dc3, 0x72be5d74, 0x80deb1fe, 0x9bdc06a7],
      [0xc19bf174, 0xe49b69c1, 0xefbe4786, 0x0fc19dc6, 0x240ca1cc],
      [0x2de92c6f, 0x4a7484aa, 0x5cb0a9dc, 0x76f988da, 0x983e5152],
      [0xa831c66d, 0xb00327c8, 0xbf597fc7, 0xc6e00bf3, 0xd5a79147],
      [0x06ca6351, 0x14292967, 0x27b70a85, 0x2e1b2138, 0x4d2c6dfc],
      [0x53380d13, 0x650a7354, 0x766a0abb, 0x81c2c92e, 0x92722c85],
      [0xa2bfe8a1, 0xa81a664b, 0xc24b8b70, 0xc76c51a3, 0xd192e819],
      [0xd6990624, 0xf40e3585, 0x106aa070, 0x19a4c116, 0x1e376c08],
      [0x2748774c, 0x34b0bcb5, 0x391c0cb3, 0x4ed8aa4a, 0x5b9cca4f],
      [0x682e6ff3, 0x748f82ee, 0x78a5636f, 0x84c87814, 0x8cc70208],
      [0x90befffa, 0xa4506ceb, 0xbef9a3f7, 0xc67178f2]]"

definition sha224_H0 :: "u32 list" where
  "sha224_H0 = [0xC1059ED8, 0x367CD507, 0x3070DD17, 0xF70E5939,
     0xFFC00B31, 0x68581511, 0x64F98FA7, 0xBEFA4FA4]"

definition sha256_H0 :: "u32 list" where
  "sha256_H0 = [0x6A09E667, 0xBB67AE85, 0x3C6EF372, 0xA54FF53A,
     0x510E527F, 0x9B05688C, 0x1F83D9AB, 0x5BE0CD19]"

section \<open>One message block\<close>

definition be_word :: "u8 \<Rightarrow> u8 \<Rightarrow> u8 \<Rightarrow> u8 \<Rightarrow> u32" where
  "be_word a b c d = push_bit 24 (ucast a) OR push_bit 16 (ucast b) OR push_bit 8 (ucast c) OR ucast d"

definition first_words :: "bytes \<Rightarrow> u32 list" where
  "first_words blk = map (\<lambda>t. be_word (blk ! (4 * t)) (blk ! (4 * t + 1)) (blk ! (4 * t + 2)) (blk ! (4 * t + 3))) [0..<16]"

definition sched_step :: "u32 list \<Rightarrow> u32 list" where
  "sched_step W = (let t = length W in
     W @ [sigma1 (W ! (t - 2)) + W ! (t - 7) + sigma0 (W ! (t - 15)) + W ! (t - 16)])"

definition sha_schedule :: "bytes \<Rightarrow> u32 list" where
  "sha_schedule blk = (sched_step ^^ 48) (first_words blk)"

type_synonym sha_vars = "u32 \<times> u32 \<times> u32 \<times> u32 \<times> u32 \<times> u32 \<times> u32 \<times> u32"

fun sha_round :: "u32 \<times> u32 \<Rightarrow> sha_vars \<Rightarrow> sha_vars" where
  "sha_round (k, w) (A, B, C, D, E, F, G, H) =
     (let temp1 = H + SIGMA1 E + SHA_Ch E F G + k + w;
          temp2 = SIGMA0 A + SHA_Maj A B C
      in (temp1 + temp2, A, B, C, D + temp1, E, F, G))"

text \<open>The arithmetic of \<open>SHA224_256ProcessMessageBlock\<close>, then its effect on the context.\<close>

definition compress :: "u32 list \<Rightarrow> bytes \<Rightarrow> u32 list" where
  "compress Hs blk =
     (let (A, B, C, D, E, F, G, H) =
        fold sha_round (zip sha_K (sha_schedule blk))
          (Hs ! 0, Hs ! 1, Hs ! 2, Hs ! 3, Hs ! 4, Hs ! 5, Hs ! 6, Hs ! 7)
      in map2 (+) Hs [A, B, C, D, E, F, G, H])"

definition processMessageBlock :: "sha_ctx \<Rightarrow> sha_ctx" where
  "processMessageBlock c = c\<lparr>sc_hash := compress (sc_hash c) (sc_block c), sc_index := 0\<rparr>"

section \<open>Reset, input, padding, result\<close>

definition sha_reset :: "u32 list \<Rightarrow> sha_ctx \<Rightarrow> sha_code \<times> sha_ctx" where
  "sha_reset H0 c = (ShaSuccess, c\<lparr>sc_low := 0, sc_high := 0, sc_index := 0, sc_hash := H0,
     sc_computed := False, sc_corrupted := ShaSuccess\<rparr>)"

definition SHA256Reset :: "sha_ctx \<Rightarrow> sha_code \<times> sha_ctx" where "SHA256Reset c = sha_reset sha256_H0 c"
definition SHA224Reset :: "sha_ctx \<Rightarrow> sha_code \<times> sha_ctx" where "SHA224Reset c = sha_reset sha224_H0 c"

text \<open>
  The macro \<open>SHA224_256AddLength\<close>: the low word wraps around into the high word, and when that
  wraps too \<open>Corrupted\<close> becomes 1 (the code of \<open>shaNull\<close>), otherwise 0. Its value is the flag.
\<close>

definition addLength :: "u32 \<Rightarrow> sha_ctx \<Rightarrow> bool \<times> sha_ctx" where
  "addLength len c =
     (let low = sc_low c + len;
          c1 = c\<lparr>sc_low := low\<rparr>
      in if low < sc_low c
         then (let high = sc_high c + 1; c2 = c1\<lparr>sc_high := high\<rparr>
               in if high = 0 then (True, c2\<lparr>sc_corrupted := ShaNull\<rparr>)
                  else (False, c2\<lparr>sc_corrupted := ShaSuccess\<rparr>))
         else (False, c1\<lparr>sc_corrupted := ShaSuccess\<rparr>))"

definition put_byte :: "u8 \<Rightarrow> sha_ctx \<Rightarrow> sha_ctx" where
  "put_byte b c = c\<lparr>sc_block := (sc_block c)[sc_index c := b], sc_index := sc_index c + 1\<rparr>"

fun input_loop :: "bytes \<Rightarrow> sha_ctx \<Rightarrow> sha_ctx" where
  "input_loop [] c = c"
| "input_loop (b # bs) c =
     (if sc_corrupted c \<noteq> ShaSuccess then c
      else let c1 = put_byte b c;
               (bad, c2) = addLength 8 c1
           in input_loop bs (if \<not> bad \<and> sc_index c2 = sha_block_size then processMessageBlock c2 else c2))"

text \<open>\<open>length\<close> is an \<open>unsigned int\<close>: of a longer array only the first \<open>length mod 2^32\<close> bytes are read.\<close>

definition SHA256Input :: "bytes \<Rightarrow> sha_ctx \<Rightarrow> sha_code \<times> sha_ctx" where
  "SHA256Input msg c =
     (let len = length msg mod 2 ^ 32 in
      if len = 0 then (ShaSuccess, c)
      else if sc_computed c then (ShaStateError, c\<lparr>sc_corrupted := ShaStateError\<rparr>)
      else if sc_corrupted c \<noteq> ShaSuccess then (sc_corrupted c, c)
      else (ShaSuccess, input_loop (take len msg) c))"

definition SHA224Input :: "bytes \<Rightarrow> sha_ctx \<Rightarrow> sha_code \<times> sha_ctx" where
  "SHA224Input msg c = SHA256Input msg c"

text \<open>\<open>while (index < limit) block[index++] = 0\<close>\<close>

function zero_fill :: "nat \<Rightarrow> sha_ctx \<Rightarrow> sha_ctx" where
  "zero_fill lim c = (if sc_index c < lim then zero_fill lim (put_byte 0 c) else c)"
  by pat_completeness auto
termination by (relation "measure (\<lambda>(lim, c). lim - sc_index c)") (auto simp: put_byte_def)

declare zero_fill.simps [simp del]

definition length_bytes :: "u32 \<Rightarrow> u32 \<Rightarrow> bytes" where
  "length_bytes high low = [ucast (drop_bit 24 high), ucast (drop_bit 16 high), ucast (drop_bit 8 high), ucast high,
     ucast (drop_bit 24 low), ucast (drop_bit 16 low), ucast (drop_bit 8 low), ucast low]"

definition padMessage :: "u8 \<Rightarrow> sha_ctx \<Rightarrow> sha_ctx" where
  "padMessage pad c =
     (let c1 = (if sc_index c \<ge> sha_block_size - 8
                then processMessageBlock (zero_fill sha_block_size (put_byte pad c))
                else put_byte pad c);
          c2 = zero_fill (sha_block_size - 8) c1;
          c3 = c2\<lparr>sc_block := fold (\<lambda>i blk. blk[56 + i := length_bytes (sc_high c2) (sc_low c2) ! i]) [0..<8] (sc_block c2)\<rparr>
      in processMessageBlock c3)"

definition sha_finalize :: "u8 \<Rightarrow> sha_ctx \<Rightarrow> sha_ctx" where
  "sha_finalize pad c = (padMessage pad c)\<lparr>sc_block := replicate sha_block_size 0, sc_low := 0, sc_high := 0, sc_computed := True\<rparr>"

definition final_masks :: "u8 list" where
  "final_masks = [0x00, 0x80, 0xC0, 0xE0, 0xF0, 0xF8, 0xFC, 0xFE]"

definition final_marks :: "u8 list" where
  "final_marks = [0x80, 0x40, 0x20, 0x10, 0x08, 0x04, 0x02, 0x01]"

definition SHA256FinalBits :: "u8 \<Rightarrow> nat \<Rightarrow> sha_ctx \<Rightarrow> sha_code \<times> sha_ctx" where
  "SHA256FinalBits bits len c =
     (if len = 0 then (ShaSuccess, c)
      else if sc_computed c \<or> len \<ge> 8 \<or> len = 0 then (ShaStateError, c\<lparr>sc_corrupted := ShaStateError\<rparr>)
      else if sc_corrupted c \<noteq> ShaSuccess then (sc_corrupted c, c)
      else (ShaSuccess, sha_finalize ((bits AND final_masks ! len) OR final_marks ! len) (snd (addLength (of_nat len) c))))"

definition SHA224FinalBits :: "u8 \<Rightarrow> nat \<Rightarrow> sha_ctx \<Rightarrow> sha_code \<times> sha_ctx" where
  "SHA224FinalBits bits len c = SHA256FinalBits bits len c"

definition sha_resultN :: "nat \<Rightarrow> sha_ctx \<Rightarrow> sha_code \<times> bytes \<times> sha_ctx" where
  "sha_resultN n c =
     (if sc_corrupted c \<noteq> ShaSuccess then (sc_corrupted c, [], c)
      else let c1 = (if \<not> sc_computed c then sha_finalize 0x80 c else c)
           in (ShaSuccess, map (\<lambda>i. ucast (drop_bit (8 * (3 - i mod 4)) (sc_hash c1 ! (i div 4)))) [0..<n], c1))"

definition SHA256Result :: "sha_ctx \<Rightarrow> sha_code \<times> bytes \<times> sha_ctx" where "SHA256Result c = sha_resultN sha256_hash_size c"
definition SHA224Result :: "sha_ctx \<Rightarrow> sha_code \<times> bytes \<times> sha_ctx" where "SHA224Result c = sha_resultN sha224_hash_size c"

section \<open>SHA256Helper\<close>

definition helper_reset :: "sha_ctx \<Rightarrow> bool \<times> sha_ctx" where
  "helper_reset c = (let (r, c1) = SHA256Reset c in (r = ShaSuccess, c1))"

definition helper_append :: "string \<Rightarrow> sha_ctx \<Rightarrow> bool \<times> sha_ctx" where
  "helper_append s c = (let (r, c1) = SHA256Input (str_bytes s) c in (r = ShaSuccess, c1))"

text \<open>On failure the digest string stays 32 zero bytes.\<close>

definition sha_helper_execute :: "sha_ctx \<Rightarrow> bool \<times> string \<times> sha_ctx" where
  "sha_helper_execute c =
     (let (r, d, c1) = SHA256Result c
      in (r = ShaSuccess, bytes_str (if r = ShaSuccess then d else replicate sha256_hash_size 0), c1))"

definition helper_hash :: "string \<Rightarrow> sha_ctx \<Rightarrow> bool \<times> sha_ctx" where
  "helper_hash s c = (let (ok, c1) = helper_reset c in if \<not> ok then (False, c1) else helper_append s c1)"

definition helper_hash_digest :: "string \<Rightarrow> sha_ctx \<Rightarrow> bool \<times> string \<times> sha_ctx" where
  "helper_hash_digest s c =
     (let (ok, c1) = helper_reset c in
      if \<not> ok then (False, [], c1)
      else let (ok1, c2) = helper_append s c1 in
           if \<not> ok1 then (False, [], c2) else sha_helper_execute c2)"

definition sha_ctx_zero :: sha_ctx where
  "sha_ctx_zero = \<lparr>sc_hash = replicate 8 0, sc_low = 0, sc_high = 0, sc_index = 0,
     sc_block = replicate 64 0, sc_computed = False, sc_corrupted = ShaSuccess\<rparr>"

section \<open>Reference: padding and block folding of FIPS 180-2\<close>

function sha_fold :: "u32 list \<Rightarrow> bytes \<Rightarrow> u32 list \<times> bytes" where
  "sha_fold H m = (if length m < 64 then (H, m) else sha_fold (compress H (take 64 m)) (drop 64 m))"
  by pat_completeness auto
termination by (relation "measure (\<lambda>(H, m). length m)") auto

declare sha_fold.simps [simp del]

definition length_field :: "nat \<Rightarrow> bytes" where
  "length_field n = length_bytes (of_nat (8 * n div 2 ^ 32)) (of_nat (8 * n))"

definition fips_pad :: "bytes \<Rightarrow> bytes" where
  "fips_pad m = m @ [0x80] @ replicate ((119 - length m mod 64) mod 64) 0 @ length_field (length m)"

definition fips_hash :: "u32 list \<Rightarrow> bytes \<Rightarrow> u32 list" where
  "fips_hash H0 m = fst (sha_fold H0 (fips_pad m))"

definition fips_digest :: "u32 list \<Rightarrow> nat \<Rightarrow> bytes \<Rightarrow> bytes" where
  "fips_digest H0 n m = map (\<lambda>i. ucast (drop_bit (8 * (3 - i mod 4)) (fips_hash H0 m ! (i div 4)))) [0..<n]"

lemma sha_fold_short: "length m < 64 \<Longrightarrow> sha_fold H m = (H, m)"
  by (subst sha_fold.simps) simp

lemma sha_fold_block: "length b = 64 \<Longrightarrow> sha_fold H (b @ m) = sha_fold (compress H b) m"
  by (subst sha_fold.simps) simp

lemma sha_fold_append: "sha_fold H (m @ x) = (let (H1, p) = sha_fold H m in sha_fold H1 (p @ x))"
proof (induction H m rule: sha_fold.induct)
  case (1 H m)
  show ?case
  proof (cases "length m < 64")
    case False
    have "sha_fold H (m @ x) = sha_fold H (take 64 m @ (drop 64 m @ x))"
      by (metis append_assoc append_take_drop_id)
    also have "\<dots> = sha_fold (compress H (take 64 m)) (drop 64 m @ x)"
      using False by (intro sha_fold_block) simp
    finally show ?thesis using 1 False by (simp add: sha_fold.simps [of H m])
  qed (simp add: sha_fold_short)
qed

lemma sha_fold_pending: "length (snd (sha_fold H m)) < 64"
proof (induction H m rule: sha_fold.induct)
  case (1 H m)
  then show ?case by (subst sha_fold.simps) auto
qed

lemma sha_fold_pending_mod: "length (snd (sha_fold H m)) = length m mod 64"
proof (induction H m rule: sha_fold.induct)
  case (1 H m)
  show ?case
  proof (cases "length m < 64")
    case False
    then have "length m mod 64 = (length m - 64) mod 64" by (simp add: le_mod_geq)
    then show ?thesis using 1 False by (subst sha_fold.simps) simp
  qed (simp add: sha_fold_short)
qed

lemma sha_fold_snoc:
  "sha_fold H (m @ [b]) = (let (H1, p) = sha_fold H m in
     if length p = 63 then (compress H1 (p @ [b]), []) else (H1, p @ [b]))"
proof -
  obtain H1 p where f: "sha_fold H m = (H1, p)" by force
  have p: "length p < 64" using sha_fold_pending [of H m] f by simp
  show ?thesis
  proof (cases "length p = 63")
    case True
    then have "sha_fold H1 ((p @ [b]) @ []) = sha_fold (compress H1 (p @ [b])) []"
      by (intro sha_fold_block) simp
    then show ?thesis using True by (subst sha_fold_append) (simp add: f sha_fold_short)
  next
    case False
    then show ?thesis using p by (subst sha_fold_append) (simp add: f sha_fold_short)
  qed
qed

section \<open>The context after some input\<close>

definition absorbed :: "u32 list \<Rightarrow> bytes \<Rightarrow> sha_ctx \<Rightarrow> bool" where
  "absorbed H0 m c \<longleftrightarrow> length (sc_block c) = 64 \<and> sc_index c = length m mod 64
     \<and> sha_fold H0 m = (sc_hash c, take (sc_index c) (sc_block c))
     \<and> sc_low c = of_nat (8 * length m) \<and> sc_high c = of_nat (8 * length m div 2 ^ 32)
     \<and> \<not> sc_computed c \<and> sc_corrupted c = ShaSuccess"

lemma div_step:
  assumes "x < 2 * (k::nat)"
  shows "x div k = (if k \<le> x then 1 else 0)" and "x mod k = (if k \<le> x then x - k else x)"
proof -
  have "x div k = 1 \<and> x mod k = x - k" if "k \<le> x"
    using that assms by (metis One_nat_def add_diff_cancel_left' add_less_cancel_left div_eq_0_iff le_add_diff_inverse
        le_div_geq le_mod_geq less_nat_zero_code mod_less mult_2 not_gr0 mult_0_right)
  then show "x div k = (if k \<le> x then 1 else 0)" "x mod k = (if k \<le> x then x - k else x)" by auto
qed

lemma carry_div:
  assumes "8 < (k::nat)"
  shows "(n + 8) div k = n div k + (if k \<le> n mod k + 8 then 1 else 0)"
proof -
  have "n mod k + 8 < 2 * k" using assms mod_less_divisor [of k n] by linarith
  then have "(n mod k + 8) div k = (if k \<le> n mod k + 8 then 1 else 0)" by (rule div_step(1))
  moreover have "(n + 8) div k = n div k + 8 div k + (n mod k + 8 mod k) div k" by (rule div_add1_eq)
  ultimately show ?thesis using assms by simp
qed

lemma carry_word:
  fixes n :: nat
  shows "(of_nat n + 8 :: u32) < of_nat n \<longleftrightarrow> 2 ^ 32 \<le> n mod 2 ^ 32 + 8"
proof -
  let ?k = "2 ^ 32 :: nat" and ?r = "n mod 2 ^ 32"
  have r: "?r < ?k" by simp
  have "unat (of_nat n + 8 :: u32) = (?r + 8) mod ?k"
    by (simp add: unat_word_ariths unat_of_nat)
  moreover have "unat (of_nat n :: u32) = ?r" by (simp add: unat_of_nat)
  moreover have "(?r + 8) mod ?k = (if ?k \<le> ?r + 8 then ?r + 8 - ?k else ?r + 8)"
    using r by (intro div_step(2)) simp
  ultimately show ?thesis unfolding word_less_nat_alt using r by auto
qed

lemma addLength_8:
  assumes "sc_low c = of_nat n" "sc_high c = of_nat (n div 2 ^ 32)" "n + 8 < 2 ^ 64"
  shows "addLength 8 c = (False, c\<lparr>sc_low := of_nat (n + 8), sc_high := of_nat ((n + 8) div 2 ^ 32), sc_corrupted := ShaSuccess\<rparr>)"
proof -
  have low: "sc_low c + 8 = of_nat (n + 8)" using assms(1) by simp
  have w: "sc_low c + 8 < sc_low c \<longleftrightarrow> 2 ^ 32 \<le> n mod 2 ^ 32 + 8"
    unfolding assms(1) by (rule carry_word)
  show ?thesis
  proof (cases "(2::nat) ^ 32 \<le> n mod 2 ^ 32 + 8")
    case True
    then have d: "(n + 8) div 2 ^ 32 = n div 2 ^ 32 + 1" using carry_div [of "2 ^ 32" n] by simp
    have "(n + 8) div 2 ^ 32 < (2::nat) ^ 32"
      using assms(3) by (intro less_mult_imp_div_less) simp
    then have "unat (of_nat ((n + 8) div 2 ^ 32) :: u32) = (n + 8) div 2 ^ 32" by (simp add: unat_of_nat)
    then have "of_nat ((n + 8) div 2 ^ 32) \<noteq> (0 :: u32)" using d by (metis add_is_0 one_neq_zero unsigned_0)
    moreover have "sc_high c + 1 = of_nat ((n + 8) div 2 ^ 32)" unfolding d assms(2) by simp
    ultimately show ?thesis using True w low by (simp add: addLength_def Let_def)
  next
    case False
    then have "(n + 8) div 2 ^ 32 = n div 2 ^ 32" using carry_div [of "2 ^ 32" n] by simp
    then show ?thesis using False w low assms(2) by (simp add: addLength_def Let_def)
  qed
qed

lemma absorbed_reset: "length (sc_block c) = 64 \<Longrightarrow> absorbed H0 [] (snd (sha_reset H0 c))"
  by (simp add: absorbed_def sha_reset_def sha_fold_short)

lemma absorbed_byte:
  fixes b :: u8
  assumes a: "absorbed H0 m c" and len: "8 * (length m + 1) < 2 ^ 64"
  defines "c2 \<equiv> snd (addLength 8 (put_byte b c))"
  shows "\<not> fst (addLength 8 (put_byte b c))"
    and "absorbed H0 (m @ [b]) (if sc_index c2 = sha_block_size then processMessageBlock c2 else c2)"
proof -
  let ?i = "length m mod 64"
  have i: "?i < 64" by simp
  have al: "addLength 8 (put_byte b c) = (False, (put_byte b c)\<lparr>sc_low := of_nat (8 * length m + 8),
      sc_high := of_nat ((8 * length m + 8) div 2 ^ 32), sc_corrupted := ShaSuccess\<rparr>)"
    using a len by (intro addLength_8) (simp_all add: absorbed_def put_byte_def)
  then show "\<not> fst (addLength 8 (put_byte b c))" by simp
  have f: "sha_fold H0 m = (sc_hash c, take ?i (sc_block c))" and bl: "length (sc_block c) = 64" and ix: "sc_index c = ?i"
    using a by (simp_all add: absorbed_def)
  have c2: "sc_hash c2 = sc_hash c" "sc_block c2 = (sc_block c)[?i := b]" "sc_index c2 = ?i + 1"
    "sc_low c2 = of_nat (8 * length (m @ [b]))" "sc_high c2 = of_nat (8 * length (m @ [b]) div 2 ^ 32)"
    "\<not> sc_computed c2" "sc_corrupted c2 = ShaSuccess"
    using a al ix by (simp_all add: c2_def put_byte_def absorbed_def algebra_simps)
  have tk: "take ?i (sc_block c) @ [b] = take (?i + 1) ((sc_block c)[?i := b])"
    using bl i by (simp add: take_Suc_conv_app_nth)
  show "absorbed H0 (m @ [b]) (if sc_index c2 = sha_block_size then processMessageBlock c2 else c2)"
  proof (cases "?i = 63")
    case True
    then have "length (m @ [b]) mod 64 = 0" by (simp add: mod_Suc)
    then show ?thesis
      using True c2 f tk bl by (simp add: absorbed_def sha_fold_snoc sha_block_size_def processMessageBlock_def)
  next
    case False
    then have "length (m @ [b]) mod 64 = ?i + 1" by (simp add: mod_Suc)
    then show ?thesis
      using False c2 f tk bl by (simp add: absorbed_def sha_fold_snoc sha_block_size_def)
  qed
qed

lemma absorbed_input_loop:
  assumes "absorbed H0 m c" "8 * (length m + length bs) < 2 ^ 64"
  shows "absorbed H0 (m @ bs) (input_loop bs c)"
  using assms
proof (induction bs arbitrary: m c)
  case (Cons b bs)
  have len: "8 * (length m + 1) < 2 ^ 64" using Cons.prems(2) by simp
  note ab = absorbed_byte [OF Cons.prems(1) len, of b]
  have "sc_corrupted c = ShaSuccess" using Cons.prems(1) by (simp add: absorbed_def)
  then show ?case
    using Cons.IH [OF ab(2)] Cons.prems(2) ab(1) by (simp add: Let_def case_prod_unfold)
qed simp

section \<open>Padding\<close>

lemma zero_fill_eq:
  assumes "sc_index c \<le> lim" "lim \<le> length (sc_block c)"
  shows "zero_fill lim c = c\<lparr>sc_block := take (sc_index c) (sc_block c) @ replicate (lim - sc_index c) 0 @ drop lim (sc_block c),
    sc_index := lim\<rparr>"
  using assms
proof (induction lim c rule: zero_fill.induct)
  case (1 lim c)
  show ?case
  proof (cases "sc_index c < lim")
    case True
    let ?i = "sc_index c"
    have ih: "zero_fill lim (put_byte 0 c) = (put_byte 0 c)\<lparr>sc_block :=
        take (Suc ?i) ((sc_block c)[?i := 0]) @ replicate (lim - Suc ?i) 0 @ drop lim ((sc_block c)[?i := 0]), sc_index := lim\<rparr>"
      using "1.IH" [OF True] "1.prems" True by (simp add: put_byte_def)
    have t: "take (Suc ?i) ((sc_block c)[?i := 0]) = take ?i (sc_block c) @ [0]"
      using True "1.prems" by (simp add: take_Suc_conv_app_nth)
    have r: "replicate (lim - ?i) 0 = (0::u8) # replicate (lim - Suc ?i) 0"
      using True by (simp add: Suc_diff_Suc flip: replicate_Suc)
    show ?thesis using True by (subst zero_fill.simps) (simp add: ih t r, simp add: put_byte_def)
  next
    case False
    then have "lim = sc_index c" using "1.prems" by simp
    then show ?thesis by (subst zero_fill.simps) simp
  qed
qed

lemma set_tail_gen:
  assumes "length blk = 64" "length L = 8" "n \<le> 8"
  shows "fold (\<lambda>i b. b[56 + i := L ! i]) [0..<n] blk = take 56 blk @ take n L @ drop (56 + n) blk"
  using assms(3)
proof (induction n)
  case (Suc n)
  have "drop (56 + n) blk = blk ! (56 + n) # drop (56 + Suc n) blk"
    using Cons_nth_drop_Suc [of "56 + n" blk] assms Suc.prems by simp
  moreover have "take (Suc n) L = take n L @ [L ! n]" using assms Suc.prems by (simp add: take_Suc_conv_app_nth)
  ultimately show ?case using Suc assms by (simp add: list_update_append)
qed (use assms in simp)

lemma set_tail:
  assumes "length blk = 64"
  shows "fold (\<lambda>i b. b[56 + i := length_bytes h l ! i]) [0..<8] blk = take 56 blk @ length_bytes h l"
proof -
  have L: "length (length_bytes h l) = 8" by (simp add: length_bytes_def)
  have "take 8 (length_bytes h l) = length_bytes h l" using L by simp
  then show ?thesis using set_tail_gen [OF assms L, of 8] assms by simp
qed

text \<open>The block(s) that padding processes, in closed form.\<close>

lemma padMessage_hash:
  assumes "length (sc_block c) = 64" "sc_index c < 64"
  defines "p \<equiv> take (sc_index c) (sc_block c)" and "L \<equiv> length_bytes (sc_high c) (sc_low c)"
  shows "sc_hash (padMessage pad c) =
    fst (sha_fold (sc_hash c) (p @ [pad] @ replicate ((119 - sc_index c) mod 64) 0 @ L))"
proof -
  let ?i = "sc_index c"
  have L8: "length L = 8" by (simp add: L_def length_bytes_def)
  have tk: "take (Suc ?i) ((sc_block c)[?i := pad]) = p @ [pad]"
    using assms(1,2) by (simp add: p_def take_Suc_conv_app_nth)
  show ?thesis
  proof (cases "?i < 56")
    case True
    have z: "(119 - ?i) mod 64 = 55 - ?i" using True mod_add_self2 [of "55 - ?i" 64] by simp
    let ?blk = "p @ [pad] @ replicate (55 - ?i) 0 @ L"
    have len: "length ?blk = 64" using True assms(1) L8 by (simp add: p_def)
    have f: "zero_fill 56 (put_byte pad c) = (put_byte pad c)\<lparr>sc_block :=
        (p @ [pad]) @ replicate (56 - Suc ?i) 0 @ drop 56 ((sc_block c)[?i := pad]), sc_index := 56\<rparr>"
      using True assms(1) by (subst zero_fill_eq) (simp_all add: put_byte_def tk)
    have "sc_hash (padMessage pad c) = compress (sc_hash c) ?blk"
    proof -
      have s: "56 - ?i = Suc (55 - ?i)" using True by simp
      show ?thesis using True assms(1) L8
        by (simp add: padMessage_def Let_def sha_block_size_def f set_tail processMessageBlock_def p_def)
          (simp add: put_byte_def L_def p_def s)
    qed
    also have "\<dots> = fst (sha_fold (sc_hash c) (?blk @ []))"
      using sha_fold_block [OF len, of "sc_hash c" "[]"] by (simp add: sha_fold_short)
    finally show ?thesis by (simp add: z)
  next
    case False
    then have z: "(119 - ?i) mod 64 = (63 - ?i) + 56" using assms(2) by simp
    let ?b1 = "p @ [pad] @ replicate (63 - ?i) 0"
    let ?b2 = "replicate 56 0 @ L"
    have len: "length ?b1 = 64" "length ?b2 = 64" using False assms(1,2) L8 by (simp_all add: p_def)
    have f1: "zero_fill 64 (put_byte pad c) = (put_byte pad c)\<lparr>sc_block := ?b1, sc_index := 64\<rparr>"
      using assms(1,2) by (subst zero_fill_eq) (simp_all add: put_byte_def tk)
    define c1 where "c1 = processMessageBlock (zero_fill 64 (put_byte pad c))"
    have c1: "sc_hash c1 = compress (sc_hash c) ?b1" "sc_block c1 = ?b1" "sc_index c1 = 0"
      "sc_high c1 = sc_high c" "sc_low c1 = sc_low c"
      by (simp_all add: c1_def f1 processMessageBlock_def) (simp_all add: put_byte_def)
    obtain tl8 where tl8: "drop 56 ?b1 = tl8" "length tl8 = 8" using len(1) by fastforce
    have f2: "zero_fill 56 c1 = c1\<lparr>sc_block := replicate 56 0 @ tl8, sc_index := 56\<rparr>"
      using len(1) c1 tl8(1) by (subst zero_fill_eq) simp_all
    have d8: "length (replicate 56 0 @ tl8) = 64" using tl8(2) by simp
    have "padMessage pad c = processMessageBlock ((zero_fill 56 c1)\<lparr>sc_block :=
        fold (\<lambda>i blk. blk[56 + i := length_bytes (sc_high (zero_fill 56 c1)) (sc_low (zero_fill 56 c1)) ! i]) [0..<8]
          (sc_block (zero_fill 56 c1))\<rparr>)"
      using False unfolding padMessage_def sha_block_size_def by (simp add: c1_def Let_def)
    then have "sc_hash (padMessage pad c) = compress (compress (sc_hash c) ?b1) ?b2"
      unfolding f2 by (simp add: set_tail [OF d8] processMessageBlock_def c1 L_def del: append_assoc)
    also have "\<dots> = fst (sha_fold (sc_hash c) (?b1 @ ?b2 @ []))"
      using sha_fold_block [OF len(1), of "sc_hash c" "?b2 @ []"] sha_fold_block [OF len(2), of "compress (sc_hash c) ?b1" "[]"]
      by (simp add: sha_fold_short)
    finally show ?thesis by (simp add: z replicate_add)
  qed
qed

lemma finalize_hash:
  assumes "absorbed H0 m c"
  shows "sc_hash (sha_finalize 0x80 c) = fips_hash H0 m"
proof -
  have i: "length (sc_block c) = 64" "sc_index c = length m mod 64" and f: "sha_fold H0 m = (sc_hash c, take (sc_index c) (sc_block c))"
    and l: "length_bytes (sc_high c) (sc_low c) = length_field (length m)"
    using assms by (simp_all add: absorbed_def length_field_def)
  have "sc_hash (sha_finalize 0x80 c) = sc_hash (padMessage 0x80 c)" by (simp add: sha_finalize_def)
  also have "\<dots> = fst (sha_fold (sc_hash c) (take (sc_index c) (sc_block c) @
      [0x80] @ replicate ((119 - sc_index c) mod 64) 0 @ length_field (length m)))"
    using padMessage_hash [OF i(1), of "0x80"] i(2) l by simp
  also have "\<dots> = fips_hash H0 m"
    unfolding fips_hash_def fips_pad_def by (subst sha_fold_append) (simp add: f i(2))
  finally show ?thesis .
qed

lemma result_after_input:
  assumes "absorbed H0 m c"
  shows "\<exists>c1. sha_resultN n c = (ShaSuccess, fips_digest H0 n m, c1)"
  using finalize_hash [OF assms] assms by (simp add: sha_resultN_def fips_digest_def absorbed_def)

lemma SHA256Input_absorbs:
  assumes "absorbed H0 m c" "length bs < 2 ^ 32" "8 * (length m + length bs) < 2 ^ 64"
  shows "\<exists>c1. SHA256Input bs c = (ShaSuccess, c1) \<and> absorbed H0 (m @ bs) c1"
proof (cases "bs = []")
  case False
  then show ?thesis
    using absorbed_input_loop [OF assms(1,3)] assms by (simp add: SHA256Input_def absorbed_def Let_def)
qed (use assms in \<open>simp add: SHA256Input_def\<close>)

text \<open>Feeding a message in pieces.\<close>

definition feed :: "bytes list \<Rightarrow> sha_ctx \<Rightarrow> sha_ctx" where
  "feed pieces c = fold (\<lambda>bs c. snd (SHA256Input bs c)) pieces c"

lemma feed_absorbs:
  assumes "absorbed H0 m c" "\<forall>bs \<in> set pieces. length bs < 2 ^ 32" "8 * (length m + length (concat pieces)) < 2 ^ 64"
  shows "absorbed H0 (m @ concat pieces) (feed pieces c)"
  using assms
proof (induction pieces arbitrary: m c)
  case (Cons bs pieces)
  obtain c1 where c1: "SHA256Input bs c = (ShaSuccess, c1)" "absorbed H0 (m @ bs) c1"
    using SHA256Input_absorbs [OF Cons.prems(1), of bs] Cons.prems(2,3) by auto
  show ?case using Cons.IH [OF c1(2)] Cons.prems(2,3) c1(1) by (simp add: feed_def)
qed (simp add: feed_def)

lemma helper_hash_absorbs:
  assumes "length (sc_block c) = 64" "length s < 2 ^ 32"
  shows "\<exists>c1. helper_hash s c = (True, c1) \<and> absorbed sha256_H0 (str_bytes s) c1"
proof -
  let ?c0 = "snd (sha_reset sha256_H0 c)"
  have a: "absorbed sha256_H0 [] ?c0" by (rule absorbed_reset [OF assms(1)])
  have l: "length (str_bytes s) = length s" by (simp add: str_bytes_def)
  obtain c1 where "SHA256Input (str_bytes s) ?c0 = (ShaSuccess, c1)" "absorbed sha256_H0 ([] @ str_bytes s) c1"
    using SHA256Input_absorbs [OF a, of "str_bytes s"] assms(2) l by auto
  moreover have "helper_reset c = (True, ?c0)" by (simp add: helper_reset_def SHA256Reset_def sha_reset_def)
  ultimately show ?thesis by (simp add: helper_hash_def helper_append_def)
qed

text \<open>The digest of the helper as a function of the string.\<close>

definition sha256_string :: "string \<Rightarrow> string" where
  "sha256_string s = bytes_str (fips_digest sha256_H0 sha256_hash_size (str_bytes s))"

lemma helper_execute_absorbed:
  assumes "absorbed sha256_H0 (str_bytes s) c"
  shows "\<exists>c1. sha_helper_execute c = (True, sha256_string s, c1)"
  using result_after_input [OF assms, of sha256_hash_size]
  by (auto simp: sha_helper_execute_def SHA256Result_def sha256_string_def)

lemma helper_hash_digest_eq:
  assumes "length (sc_block c) = 64" "length s < 2 ^ 32"
  shows "\<exists>c1. helper_hash_digest s c = (True, sha256_string s, c1)"
proof -
  obtain c1 where c1: "helper_hash s c = (True, c1)" "absorbed sha256_H0 (str_bytes s) c1"
    using helper_hash_absorbs [OF assms] by blast
  obtain c2 where c2: "sha_helper_execute c1 = (True, sha256_string s, c2)"
    using helper_execute_absorbed [OF c1(2)] by blast
  have r: "helper_reset c = (True, snd (sha_reset sha256_H0 c))" by (simp add: helper_reset_def SHA256Reset_def sha_reset_def)
  have "helper_append s (snd (sha_reset sha256_H0 c)) = (True, c1)" using c1(1) r by (simp add: helper_hash_def)
  then show ?thesis using r c2 by (simp add: helper_hash_digest_def)
qed

lemma sha256_string_length: "length (sha256_string s) = 32"
  by (simp add: sha256_string_def bytes_str_def fips_digest_def sha256_hash_size_def)

text \<open>The alternative macros of the header (\<open>USE_MODIFIED_MACROS\<close>).\<close>

definition SHA_Ch_modified :: "u32 \<Rightarrow> u32 \<Rightarrow> u32 \<Rightarrow> u32" where
  "SHA_Ch_modified x y z = (x AND (y XOR z)) XOR z"

definition SHA_Maj_modified :: "u32 \<Rightarrow> u32 \<Rightarrow> u32 \<Rightarrow> u32" where
  "SHA_Maj_modified x y z = (x AND (y OR z)) OR (y AND z)"

section \<open>Properties\<close>

text \<open>
  C20. SHA-256 and SHA-224 are computed correctly however the message is cut: after a reset,
  feeding any pieces (each shorter than \<open>2^32\<close> bytes, \<open>2^64\<close> bits in all) and asking for the
  result succeeds and returns the FIPS 180-2 digest of the concatenated message, that is the
  block by block hash of the message padded to a multiple of 64 bytes with its bit length.
\<close>

theorem sha_streaming_correct:
  assumes "length (sc_block c) = 64" "\<forall>bs \<in> set pieces. length bs < 2 ^ 32" "8 * length (concat pieces) < 2 ^ 64"
  shows "(\<exists>c1. SHA256Result (feed pieces (snd (SHA256Reset c))) = (ShaSuccess, fips_digest sha256_H0 32 (concat pieces), c1))
    \<and> (\<exists>c1. SHA224Result (feed pieces (snd (SHA224Reset c))) = (ShaSuccess, fips_digest sha224_H0 28 (concat pieces), c1))"
proof -
  have a: "absorbed H0 (concat pieces) (feed pieces (snd (sha_reset H0 c)))" for H0
    using feed_absorbs [OF absorbed_reset [OF assms(1)], of pieces H0] assms(2,3) by simp
  show ?thesis
    using result_after_input [OF a, of 32 sha256_H0] result_after_input [OF a, of 28 sha224_H0]
    by (simp add: SHA256Result_def SHA224Result_def SHA256Reset_def SHA224Reset_def sha256_hash_size_def sha224_hash_size_def)
qed

lemma sha_streaming_correct_witness:
  "\<exists>c1. SHA256Result (feed [[0x61], [0x62, 0x63]] (snd (SHA256Reset sha_ctx_zero))) =
     (ShaSuccess, fips_digest sha256_H0 32 [0x61, 0x62, 0x63], c1)"
  using sha_streaming_correct [of sha_ctx_zero "[[0x61], [0x62, 0x63]]"] by (simp add: sha_ctx_zero_def)

text \<open>
  \<open>SHA256Helper::hash(data)\<close> starts over each time: a sequence of \<open>hash\<close> calls followed by
  \<open>execute\<close> yields the digest of the last string alone, whatever was hashed before it.
\<close>

theorem helper_hash_keeps_last_only:
  assumes "length (sc_block c) = 64" "length a < 2 ^ 32" "length b < 2 ^ 32"
  shows "\<exists>c1 c2 c3. helper_hash a c = (True, c1) \<and> helper_hash b c1 = (True, c2)
    \<and> sha_helper_execute c2 = (True, sha256_string b, c3) \<and> length (sha256_string b) = 32"
proof -
  obtain c1 where c1: "helper_hash a c = (True, c1)" "absorbed sha256_H0 (str_bytes a) c1"
    using helper_hash_absorbs [OF assms(1,2)] by blast
  have "length (sc_block c1) = 64" using c1(2) by (simp add: absorbed_def)
  then obtain c2 where c2: "helper_hash b c1 = (True, c2)" "absorbed sha256_H0 (str_bytes b) c2"
    using helper_hash_absorbs [OF _ assms(3)] by blast
  then show ?thesis using c1(1) helper_execute_absorbed [OF c2(2)] sha256_string_length by blast
qed

lemma helper_hash_keeps_last_only_witness:
  "\<exists>c1 c2 c3. helper_hash ''batch digest'' sha_ctx_zero = (True, c1) \<and> helper_hash ''signature'' c1 = (True, c2)
    \<and> sha_helper_execute c2 = (True, sha256_string ''signature'', c3)"
  using helper_hash_keeps_last_only [of sha_ctx_zero "''batch digest''" "''signature''"] by (auto simp: sha_ctx_zero_def)

lemma finalize_corrupted: "sc_corrupted (sha_finalize pad c) = sc_corrupted c"
proof -
  have z: "sc_corrupted (zero_fill lim c) = sc_corrupted c" for lim c
    by (induction lim c rule: zero_fill.induct) (subst zero_fill.simps, simp add: put_byte_def)
  show ?thesis by (simp add: sha_finalize_def padMessage_def Let_def processMessageBlock_def z put_byte_def)
qed

text \<open>
  The state discipline of the context: after a result more input is refused and marks the
  context corrupted, a corrupted context gives no digest, and asking twice for the result
  returns the same digest.
\<close>

theorem sha_state_errors:
  assumes "sc_corrupted c = ShaSuccess" "SHA256Result c = (ShaSuccess, d, c1)" "sc_corrupted c1 = ShaSuccess"
    and "0 < length bs" "length bs < 2 ^ 32"
  shows "SHA256Result c1 = (ShaSuccess, d, c1)
    \<and> fst (SHA256Input bs c1) = ShaStateError
    \<and> SHA256Result (snd (SHA256Input bs c1)) = (ShaStateError, [], snd (SHA256Input bs c1))"
proof -
  have k: "c1 = (if sc_computed c then c else sha_finalize 0x80 c)"
    and d: "d = map (\<lambda>i. ucast (drop_bit (8 * (3 - i mod 4)) (sc_hash c1 ! (i div 4)))) [0..<sha256_hash_size]"
    using assms(1,2) by (auto simp: SHA256Result_def sha_resultN_def Let_def split: if_splits)
  have comp: "sc_computed c1" using k by (auto simp: sha_finalize_def)
  then show ?thesis using assms(3-5) d
    by (simp add: SHA256Result_def sha_resultN_def SHA256Input_def Let_def)
qed

lemma sha_state_errors_witness:
  "\<exists>d c1. SHA256Result sha_ctx_zero = (ShaSuccess, d, c1) \<and> fst (SHA256Input [1] c1) = ShaStateError"
proof -
  obtain d c1 where r: "SHA256Result sha_ctx_zero = (ShaSuccess, d, c1)" and c1: "c1 = sha_finalize 0x80 sha_ctx_zero"
    by (simp add: SHA256Result_def sha_resultN_def sha_ctx_zero_def Let_def)
  have "sc_corrupted c1 = ShaSuccess" by (simp add: c1 finalize_corrupted sha_ctx_zero_def)
  then show ?thesis using sha_state_errors [OF _ r, of "[1]"] r by (auto simp: sha_ctx_zero_def)
qed

text \<open>
  The two versions of the choice and majority macros that the header offers compute the
  same functions, as its comment claims.
\<close>

theorem sha_macros_equivalent:
  "SHA_Ch x y z = SHA_Ch_modified x y z \<and> SHA_Maj x y z = SHA_Maj_modified x y z"
  by (auto simp: SHA_Ch_def SHA_Ch_modified_def SHA_Maj_def SHA_Maj_modified_def bit_eq_iff bit_simps)

end
