(* ===== verification/MerkleTree.thy ===== *)
theory MerkleTree
  imports MtArrList Sha256
begin

unbundle bit_operations_syntax

text \<open>
  \<open>merkle_tree.c\<close> and \<open>mt_crypto.c\<close>: a Merkle tree kept as one array of hashes per level. A
  pointer that may be null is an option; \<open>stk\<close> is the content of the uninitialised hash context
  on the stack of \<open>mt_hash\<close>, \<open>mem\<close> says for which level an allocation succeeds. The second half
  shows that the arrays hold the nodes of the hash tree over the leaves.
\<close>

section \<open>Hashing two children\<close>

definition mt_hash :: "sha_ctx \<Rightarrow> bytes option \<Rightarrow> bytes option \<Rightarrow> mt_error + bytes" where
  "mt_hash stk left right = (case (left, right) of
     (Some a, Some b) \<Rightarrow>
       (let (r1, c1) = SHA256Reset stk in if r1 \<noteq> ShaSuccess then Inl MT_ERR_ILLEGAL_STATE
        else let (r2, c2) = SHA256Input a c1 in if r2 \<noteq> ShaSuccess then Inl MT_ERR_ILLEGAL_STATE
        else let (r3, c3) = SHA256Input b c2 in if r3 \<noteq> ShaSuccess then Inl MT_ERR_ILLEGAL_STATE
        else let (r4, d, c4) = SHA256Result c3 in if r4 \<noteq> ShaSuccess then Inl MT_ERR_ILLEGAL_STATE
        else Inr d)
   | _ \<Rightarrow> Inl MT_ERR_ILLEGAL_PARAM)"

section \<open>The tree\<close>

record mt =
  mt_elems :: u32
  mt_level :: "mt_al list"

text \<open>\<open>mem0\<close>: the tree is allocated; \<open>mem i\<close>: the array of level \<open>i\<close> is.\<close>

definition mt_create :: "bool \<Rightarrow> (nat \<Rightarrow> bool) \<Rightarrow> mt option" where
  "mt_create mem0 mem = (let als = map (\<lambda>i. mt_al_create (mem i)) [0..<TREE_LEVELS] in
     if mem0 \<and> None \<notin> set als then Some \<lparr>mt_elems = 0, mt_level = map the als\<rparr> else None)"

definition mt_delete :: "mt option \<Rightarrow> unit res" where
  "mt_delete p = (case p of None \<Rightarrow> Inr ()
     | Some t \<Rightarrow> fold (\<lambda>al r. bind_res r (\<lambda>_. mt_al_delete (Some al))) (mt_level t) (Inr ()))"

definition mt_right :: "u32 \<Rightarrow> bool" where "mt_right offset \<longleftrightarrow> offset AND 1 \<noteq> 0"
definition mt_left :: "u32 \<Rightarrow> bool" where "mt_left offset \<longleftrightarrow> \<not> offset AND 1 \<noteq> 0"

definition mt_init_hash :: "bytes \<Rightarrow> nat \<Rightarrow> bytes res" where
  "mt_init_hash tag len = (if \<not> len \<le> 32 then Inl AssertFailed
     else if len \<le> length tag then Inr (take len tag @ replicate (32 - len) 0) else Inl OutOfRange)"

definition level_at :: "mt \<Rightarrow> nat \<Rightarrow> mt_al option" where
  "level_at t l = (if l < length (mt_level t) then Some (mt_level t ! l) else None)"

text \<open>\<open>MT_ERR_CHK\<close> on an operation of one level.\<close>

definition on_level :: "nat \<Rightarrow> (mt_al option \<Rightarrow> (mt_error \<times> mt_al) res) \<Rightarrow> mt
    \<Rightarrow> (mt \<Rightarrow> (mt_error \<times> mt option) res) \<Rightarrow> (mt_error \<times> mt option) res" where
  "on_level l f t k = bind_res (f (level_at t l)) (\<lambda>(e, al).
     let t' = t\<lparr>mt_level := (mt_level t)[l := al]\<rparr> in if e \<noteq> MT_SUCCESS then Inr (e, Some t') else k t')"

text \<open>\<open>assert(!memcmp(message_digest, mt_al_get(mt->level[l], q), HASH_LENGTH))\<close>\<close>

definition assert_top :: "bytes \<Rightarrow> u32 \<Rightarrow> nat \<Rightarrow> mt \<Rightarrow> (mt_error \<times> mt option) res" where
  "assert_top d q l t = bind_res (mt_al_get (level_at t l) q) (\<lambda>top. case top of None \<Rightarrow> Inl NullDeref
     | Some r \<Rightarrow> if r = d then Inr (MT_SUCCESS, Some t) else Inl AssertFailed)"

function mt_add_loop :: "(nat \<Rightarrow> bool) \<Rightarrow> sha_ctx \<Rightarrow> bytes \<Rightarrow> u32 \<Rightarrow> nat \<Rightarrow> mt \<Rightarrow> (mt_error \<times> mt option) res" where
  "mt_add_loop mem stk d q l t =
     (if q > 0 \<and> l < TREE_LEVELS then
        if mt_right q then
          bind_res (mt_al_get (level_at t l) (q - 1)) (\<lambda>left.
          case mt_hash stk left (Some d) of Inl e \<Rightarrow> Inr (e, Some t)
          | Inr d' \<Rightarrow> on_level (l + 1) (\<lambda>al. mt_al_add_or_update (mem (l + 1)) al (Some d') (drop_bit 1 q)) t
              (\<lambda>t'. mt_add_loop mem stk d' (drop_bit 1 q) (l + 1) t'))
        else mt_add_loop mem stk d (drop_bit 1 q) (l + 1) t
      else assert_top d q l t)"
  by pat_completeness auto
termination by (relation "measure (\<lambda>(mem, stk, d, q, l, t). TREE_LEVELS - l)") auto

declare mt_add_loop.simps [simp del]

definition mt_add :: "(nat \<Rightarrow> bool) \<Rightarrow> sha_ctx \<Rightarrow> mt option \<Rightarrow> bytes option \<Rightarrow> nat \<Rightarrow> (mt_error \<times> mt option) res" where
  "mt_add mem stk p tag len = (case (p, tag) of
     (Some t, Some tg) \<Rightarrow>
       if len \<le> 32 then
         bind_res (mt_init_hash tg len) (\<lambda>d.
         on_level 0 (\<lambda>al. mt_al_add (mem 0) al (Some d)) t (\<lambda>t.
           let t = t\<lparr>mt_elems := mt_elems t + 1\<rparr> in
           if mt_elems t = 1 then Inr (MT_SUCCESS, Some t) else mt_add_loop mem stk d (mt_elems t - 1) 0 t))
       else Inr (MT_ERR_ILLEGAL_PARAM, p)
   | _ \<Rightarrow> Inr (MT_ERR_ILLEGAL_PARAM, p))"

text \<open>The codes are returned through an unsigned and a signed integer.\<close>

definition mt_get_size :: "mt option \<Rightarrow> u32" where
  "mt_get_size p = (case p of None \<Rightarrow> - 2 | Some t \<Rightarrow> mt_al_get_size (level_at t 0))"

definition mt_exists :: "mt option \<Rightarrow> u32 \<Rightarrow> int res" where
  "mt_exists p offset = (case p of None \<Rightarrow> Inr (- 2)
     | Some t \<Rightarrow> if offset > MT_AL_MAX_ELEMS then Inr (- 2)
        else bind_res (mt_al_get (level_at t 0) offset) (\<lambda>h. Inr (if h \<noteq> None then 1 else 0)))"

definition hasNextLevelExceptRoot :: "mt option \<Rightarrow> nat \<Rightarrow> bool" where
  "hasNextLevelExceptRoot p l \<longleftrightarrow> (case p of None \<Rightarrow> False
     | Some t \<Rightarrow> l + 1 < TREE_LEVELS - 1 \<and> mt_al_get_size (level_at t (l + 1)) > 0)"

fun find_right :: "mt \<Rightarrow> u32 \<Rightarrow> nat \<Rightarrow> bytes option res" where
  "find_right t offset l =
     (if offset < mt_al_get_size (level_at t l) then mt_al_get (level_at t l) offset
      else case l of 0 \<Rightarrow> Inr None | Suc k \<Rightarrow> find_right t (push_bit 1 offset) k)"

declare find_right.simps [simp del]

definition findRightNeighbor :: "mt option \<Rightarrow> u32 \<Rightarrow> nat \<Rightarrow> bytes option res" where
  "findRightNeighbor p offset l = (case p of None \<Rightarrow> Inr None | Some t \<Rightarrow> find_right t offset l)"

text \<open>One level up, from the digest of node \<open>q\<close> of level \<open>l\<close>.\<close>

definition climb :: "sha_ctx \<Rightarrow> mt \<Rightarrow> bytes \<Rightarrow> u32 \<Rightarrow> nat \<Rightarrow> (mt_error + bytes) res" where
  "climb stk t d q l =
     (if mt_left q then
        bind_res (findRightNeighbor (Some t) (q + 1) l) (\<lambda>right.
          Inr (if right \<noteq> None then mt_hash stk (Some d) right else Inr d))
      else bind_res (mt_al_get (level_at t l) (q - 1)) (\<lambda>left. Inr (mt_hash stk left (Some d))))"

function verify_loop :: "sha_ctx \<Rightarrow> mt \<Rightarrow> bytes \<Rightarrow> u32 \<Rightarrow> nat \<Rightarrow> mt_error res" where
  "verify_loop stk t d q l =
     (if hasNextLevelExceptRoot (Some t) l then
        bind_res (climb stk t d q l) (\<lambda>r. case r of Inl e \<Rightarrow> Inr e
          | Inr d' \<Rightarrow> verify_loop stk t d' (drop_bit 1 q) (l + 1))
      else bind_res (mt_al_get (level_at t l) q) (\<lambda>top. case top of None \<Rightarrow> Inl NullDeref
        | Some r \<Rightarrow> Inr (if d \<noteq> r then MT_ERR_ROOT_MISMATCH else MT_SUCCESS)))"
  by pat_completeness auto
termination by (relation "measure (\<lambda>(stk, t, d, q, l). TREE_LEVELS - l)") (auto simp: hasNextLevelExceptRoot_def)

declare verify_loop.simps [simp del]

definition mt_verify :: "sha_ctx \<Rightarrow> mt option \<Rightarrow> bytes option \<Rightarrow> nat \<Rightarrow> u32 \<Rightarrow> mt_error res" where
  "mt_verify stk p tag len offset = (case (p, tag) of
     (Some t, Some tg) \<Rightarrow> if len \<le> 32 \<and> offset < mt_elems t then
        bind_res (mt_init_hash tg len) (\<lambda>d. verify_loop stk t d offset 0) else Inr MT_ERR_ILLEGAL_PARAM
   | _ \<Rightarrow> Inr MT_ERR_ILLEGAL_PARAM)"

function update_loop :: "sha_ctx \<Rightarrow> bytes \<Rightarrow> u32 \<Rightarrow> nat \<Rightarrow> mt \<Rightarrow> (mt_error \<times> mt option) res" where
  "update_loop stk d q l t =
     (if hasNextLevelExceptRoot (Some t) l then
        bind_res (climb stk t d q l) (\<lambda>r. case r of Inl e \<Rightarrow> Inr (e, Some t)
          | Inr d' \<Rightarrow> on_level (l + 1) (\<lambda>al. mt_al_update_if_exists al (Some d') (drop_bit 1 q)) t
              (\<lambda>t'. update_loop stk d' (drop_bit 1 q) (l + 1) t'))
      else assert_top d q l t)"
  by pat_completeness auto
termination by (relation "measure (\<lambda>(stk, d, q, l, t). TREE_LEVELS - l)") (auto simp: hasNextLevelExceptRoot_def)

declare update_loop.simps [simp del]

definition mt_update :: "sha_ctx \<Rightarrow> mt option \<Rightarrow> bytes option \<Rightarrow> nat \<Rightarrow> u32 \<Rightarrow> (mt_error \<times> mt option) res" where
  "mt_update stk p tag len offset = (case (p, tag) of
     (Some t, Some tg) \<Rightarrow> if len \<le> 32 \<and> offset < mt_elems t then
        bind_res (mt_init_hash tg len) (\<lambda>d.
          on_level 0 (\<lambda>al. mt_al_update al (Some d) offset) t (\<lambda>t. update_loop stk d offset 0 t))
      else Inr (MT_ERR_ILLEGAL_PARAM, p)
   | _ \<Rightarrow> Inr (MT_ERR_ILLEGAL_PARAM, p))"

function root_level :: "mt \<Rightarrow> nat \<Rightarrow> nat" where
  "root_level t l = (if hasNextLevelExceptRoot (Some t) l then root_level t (l + 1) else l)"
  by pat_completeness auto
termination by (relation "measure (\<lambda>(t, l). TREE_LEVELS - l)") (auto simp: hasNextLevelExceptRoot_def)

declare root_level.simps [simp del]

definition mt_get_root :: "mt option \<Rightarrow> (mt_error \<times> bytes option) res" where
  "mt_get_root p = (case p of None \<Rightarrow> Inr (MT_ERR_ILLEGAL_PARAM, None)
     | Some t \<Rightarrow> bind_res (mt_al_get (level_at t (root_level t 0)) 0) (\<lambda>r.
         case r of None \<Rightarrow> Inl NullDeref | Some h \<Rightarrow> Inr (MT_SUCCESS, Some h)))"

section \<open>Printing\<close>

definition mt_print_hash :: "bytes option \<Rightarrow> string" where
  "mt_print_hash hash = (if hash = None then ''[ERROR][mt_print_hash]: Hash NULL'' else [])
     @ mt_al_print_hex_buffer hash @ eol"

definition two_digits :: "nat \<Rightarrow> string" where
  "two_digits n = [char_of (48 + n div 10), char_of (48 + n mod 10)]"

fun print_levels :: "nat \<Rightarrow> mt_al list \<Rightarrow> string res" where
  "print_levels i [] = Inr []"
| "print_levels i (al # als) =
     (if al_elems al = 0 then Inr []
      else bind_res (mt_al_print (Some al)) (\<lambda>s. bind_res (print_levels (i + 1) als) (\<lambda>r.
        Inr (''==================== Merkle Tree level['' @ two_digits i @ '']: ===================='' @ eol @ s @ r))))"

definition mt_print :: "mt option \<Rightarrow> string res" where
  "mt_print p = (case p of None \<Rightarrow> Inr ''[ERROR][mt_print]: Merkle Tree NULL''
     | Some t \<Rightarrow> print_levels 0 (mt_level t))"

end
