(* ===== verification/MerkleSpec.thy ===== *)
theory MerkleSpec
  imports MerkleTree
begin

text \<open>
  What the arrays of \<open>merkle_tree.c\<close> hold: node \<open>i\<close> of level \<open>l\<close> is the hash over the leaves
  \<open>i * 2^l, ..., (i + 1) * 2^l - 1\<close> that exist, where a node without a right half passes its left
  half up. It is stored only when its right half exists. The root is \<open>mroot\<close> of
  \<open>MerkleProof\<close>, which splits the leaves at the largest power of two below their number, the shape of the
  trees of RFC 6962; unlike there, the given tags are the leaves themselves and a node is the SHA-256 digest of
  its two halves without a prefix, as \<open>mt_hash\<close> computes it.
\<close>

section \<open>Nodes\<close>

definition node_hash :: "bytes \<Rightarrow> bytes \<Rightarrow> bytes" where
  "node_hash a b = fips_digest sha256_H0 32 (a @ b)"

fun node :: "nat \<Rightarrow> nat \<Rightarrow> bytes list \<Rightarrow> bytes" where
  "node 0 i xs = xs ! i"
| "node (Suc l) i xs = (if (2 * i + 1) * 2 ^ l < length xs then node_hash (node l (2 * i) xs) (node l (2 * i + 1) xs)
     else node l (2 * i) xs)"

fun level_size :: "nat \<Rightarrow> nat \<Rightarrow> nat" where
  "level_size 0 n = n"
| "level_size (Suc l) n = (n + 2 ^ l - 1) div 2 ^ Suc l"

definition level_nodes :: "nat \<Rightarrow> bytes list \<Rightarrow> bytes list" where
  "level_nodes l xs = map (\<lambda>i. node l i xs) [0..<level_size l (length xs)]"

lemma level_size_less: "i < level_size (Suc l) n \<longleftrightarrow> (2 * i + 1) * 2 ^ l < n"
proof -
  define P :: nat where "P = 2 ^ l"
  have P: "0 < P" by (simp add: P_def)
  have "i < (n + P - 1) div (2 * P) \<longleftrightarrow> Suc i * (2 * P) \<le> n + P - 1"
    using P by (subst less_eq_div_iff_mult_less_eq [of "2 * P" "Suc i", symmetric]) auto
  also have "\<dots> \<longleftrightarrow> (2 * i + 1) * P < n" using P by (auto simp: algebra_simps)
  finally show ?thesis by (simp add: P_def)
qed

lemma level_size_less_0: "i < level_size l n \<Longrightarrow> i * 2 ^ l < n"
proof (cases l)
  case (Suc k)
  assume "i < level_size l n"
  then have "(2 * i + 1) * 2 ^ k < n" unfolding Suc level_size_less .
  moreover have "i * 2 ^ l \<le> (2 * i + 1) * 2 ^ k" by (simp add: Suc)
  ultimately show ?thesis by linarith
qed simp

lemma level_nodes_nth [simp]: "i < level_size l (length xs) \<Longrightarrow> level_nodes l xs ! i = node l i xs"
  "length (level_nodes l xs) = level_size l (length xs)"
  by (simp_all add: level_nodes_def)

lemma level_size_le: "level_size l n \<le> n"
proof (cases "level_size l n")
  case (Suc k)
  then have "k * 2 ^ l < n" by (intro level_size_less_0) simp
  moreover have "k * 1 \<le> k * 2 ^ l" by (intro mult_le_mono) simp_all
  ultimately have "k < n" by linarith
  then show ?thesis using Suc by simp
qed simp

lemma node_append:
  assumes "(i + 1) * 2 ^ l \<le> length xs"
  shows "node l i (xs @ ys) = node l i xs"
  using assms
proof (induction l arbitrary: i)
  case (Suc l)
  then have c: "(2 * i + 1 + 1) * 2 ^ l \<le> length xs" "(2 * i + 1) * 2 ^ l \<le> length xs" by (simp_all add: algebra_simps)
  have "(2 * i + 1) * 2 ^ l < (2 * i + 1 + 1) * (2::nat) ^ l" by (intro mult_strict_right_mono) simp_all
  then have "(2 * i + 1) * 2 ^ l < length xs" using c(1) by linarith
  then show ?case using Suc.IH [OF c(1)] Suc.IH [of "2 * i"] c(2) by simp
qed (simp add: nth_append)

lemma node_length:
  assumes "\<forall>x \<in> set xs. length x = 32" "i * 2 ^ l < length xs"
  shows "length (node l i xs) = 32"
  using assms(2)
proof (induction l arbitrary: i)
  case (Suc l)
  then show ?case using Suc.IH [of "2 * i"] by (simp add: node_hash_def fips_digest_def algebra_simps)
qed (use assms in simp)

text \<open>How one more leaf changes the nodes of the next level.\<close>

lemma div_half: "n div 2 ^ l = 2 * (n div 2 ^ Suc l) + (if odd (n div 2 ^ l) then 1 else 0)" for n l :: nat
proof -
  have "n div 2 ^ Suc l = n div 2 ^ l div 2" by (simp only: power_Suc2 div_mult2_eq)
  then show ?thesis by (simp add: odd_two_times_div_two_succ)
qed

lemma level_size_odd:
  assumes "odd (n div 2 ^ l)"
  shows "level_size (Suc l) (Suc n) = Suc (n div 2 ^ Suc l)" "n div 2 ^ Suc l \<le> level_size (Suc l) n"
    "level_size (Suc l) n \<le> Suc (n div 2 ^ Suc l)"
proof -
  let ?P = "2 ^ l :: nat" and ?q = "n div 2 ^ Suc l"
  have q: "n div ?P = 2 * ?q + 1" using assms by (subst div_half) simp
  have "n = (2 * ?q + 1) * ?P + n mod ?P" using q by (metis div_mult_mod_eq)
  then obtain r where n: "n = (2 * ?q + 1) * ?P + r" "r < ?P" by (metis mod_less_divisor zero_less_numeral zero_less_power)
  let ?s = "level_size (Suc l)"
  have "?q < ?s (Suc n)" using n by (subst level_size_less) linarith
  moreover have "\<not> Suc ?q < ?s (Suc n)" using n by (subst level_size_less) (simp add: algebra_simps)
  ultimately show "?s (Suc n) = Suc ?q" by simp
  show "?s n \<le> Suc ?q" using n by (intro leI notI) (simp only: level_size_less, simp add: algebra_simps)
  show "?q \<le> ?s n"
  proof (cases ?q)
    case (Suc k)
    then have "k < ?s n" using n by (subst level_size_less) (simp add: algebra_simps)
    then show ?thesis using Suc by simp
  qed simp
qed

lemma level_size_even:
  assumes "even (n div 2 ^ l)"
  shows "level_size (Suc l) (Suc n) = n div 2 ^ Suc l" "level_size (Suc l) n = n div 2 ^ Suc l"
proof -
  let ?P = "2 ^ l :: nat" and ?q = "n div 2 ^ Suc l"
  have q: "n div ?P = 2 * ?q" using assms by (subst div_half) simp
  have "n = 2 * ?q * ?P + n mod ?P" using q by (metis div_mult_mod_eq)
  then obtain r where n: "n = 2 * ?q * ?P + r" "r < ?P" by (metis mod_less_divisor zero_less_numeral zero_less_power)
  let ?s = "level_size (Suc l)"
  have u: "\<not> ?q < ?s m" if "m \<le> Suc n" for m using n that by (simp only: level_size_less) (simp add: algebra_simps)
  have l: "?q \<le> ?s m" if "n \<le> m" for m
  proof (cases ?q)
    case (Suc k)
    then have "k < ?s m" using n that by (subst level_size_less) (simp add: algebra_simps)
    then show ?thesis using Suc by simp
  qed simp
  show "?s (Suc n) = ?q" "?s n = ?q" using u [of "Suc n"] u [of n] l [of "Suc n"] l [of n] by simp_all
qed

lemma node_before_last:
  assumes "i < length xs div 2 ^ l"
  shows "node l i (xs @ ys) = node l i xs"
proof (rule node_append)
  have "(i + 1) * 2 ^ l \<le> (length xs div 2 ^ l) * 2 ^ l" using assms by (intro mult_le_mono) simp_all
  also have "\<dots> \<le> length xs" by simp
  finally show "(i + 1) * 2 ^ l \<le> length xs" .
qed

lemma level_nodes_even:
  assumes "even (length xs div 2 ^ l)"
  shows "level_nodes (Suc l) (xs @ [x]) = level_nodes (Suc l) xs"
  using level_size_even [OF assms] node_before_last [of _ xs "Suc l"] by (simp add: level_nodes_def del: node.simps level_size.simps)

lemma level_nodes_odd:
  fixes xs x l
  defines "q \<equiv> length xs div 2 ^ Suc l"
  assumes "odd (length xs div 2 ^ l)"
  shows "(if q = length (level_nodes (Suc l) xs) then level_nodes (Suc l) xs @ [node (Suc l) q (xs @ [x])]
      else (level_nodes (Suc l) xs)[q := node (Suc l) q (xs @ [x])]) = level_nodes (Suc l) (xs @ [x])" (is "?L = ?R")
proof (rule nth_equalityI)
  note s = level_size_odd [OF assms(2), folded q_def]
  have len: "length (level_nodes (Suc l) (xs @ [x])) = Suc q" using s(1) by (simp del: level_size.simps)
  show l: "length ?L = length ?R" using s by (simp del: level_size.simps) 
  fix i assume "i < length ?L"
  then have i: "i \<le> q" using l len by simp
  show "?L ! i = ?R ! i"
  proof (cases "i = q")
    case True
    then show ?thesis using s by (simp del: level_size.simps node.simps add: nth_append)
  next
    case False
    then have "i < q" using i by simp
    then show ?thesis using s node_before_last [of i xs "Suc l" "[x]"]
      by (simp del: level_size.simps node.simps add: nth_append q_def)
  qed
qed

section \<open>Words and hashes\<close>

lemma half_word: "unat (drop_bit 1 q) = unat q div 2" for q :: u32
  using unat_drop_bit_eq [of 1 q] by (simp add: drop_bit_eq_div)

lemma right_odd: "mt_right q \<longleftrightarrow> odd (unat q)"
proof -
  have "unat (q AND 1) = unat q mod 2" by (simp add: and_one_eq unat_mod_distrib)
  then show ?thesis by (simp add: mt_right_def odd_iff_mod_2_eq_one flip: unat_eq_0)
qed

lemma left_even: "mt_left q \<longleftrightarrow> even (unat q)"
  using right_odd [of q] by (simp add: mt_left_def mt_right_def)

lemma absorbed_block: "absorbed H m c \<Longrightarrow> length (sc_block c) = 64"
  by (simp add: absorbed_def)

lemma mt_hash_ok:
  assumes "length (sc_block stk) = 64" "length a = 32" "length b = 32"
  shows "mt_hash stk (Some a) (Some b) = Inr (node_hash a b)"
proof -
  let ?c = "snd (sha_reset sha256_H0 stk)"
  have r: "SHA256Reset stk = (ShaSuccess, ?c)" by (simp add: SHA256Reset_def sha_reset_def)
  obtain c1 where c1: "SHA256Input a ?c = (ShaSuccess, c1)" "absorbed sha256_H0 ([] @ a) c1"
    using SHA256Input_absorbs [OF absorbed_reset [OF assms(1)], of a sha256_H0] assms by auto
  obtain c2 where c2: "SHA256Input b c1 = (ShaSuccess, c2)" "absorbed sha256_H0 (([] @ a) @ b) c2"
    using SHA256Input_absorbs [OF c1(2), of b] assms by auto
  obtain c3 where "sha_resultN 32 c2 = (ShaSuccess, fips_digest sha256_H0 32 (([] @ a) @ b), c3)"
    using result_after_input [OF c2(2), of 32] by blast
  then show ?thesis using r c1(1) c2(1) by (simp add: mt_hash_def SHA256Result_def sha256_hash_size_def node_hash_def)
qed

section \<open>Invariant\<close>

definition levels_ok :: "(nat \<Rightarrow> bytes list) \<Rightarrow> mt \<Rightarrow> bool" where
  "levels_ok N t \<longleftrightarrow> length (mt_level t) = 20 \<and> (\<forall>j < 20. al_ok (mt_level t ! j) (N j))"

definition mt_ok :: "mt \<Rightarrow> bytes list \<Rightarrow> bool" where
  "mt_ok t xs \<longleftrightarrow> unat (mt_elems t) = length xs \<and> length xs < 524288 \<and> (\<forall>x \<in> set xs. length x = 32)
     \<and> levels_ok (\<lambda>j. level_nodes j xs) t"

lemma level_at_ok:
  assumes "levels_ok N t" "l < 20"
  obtains al where "level_at t l = Some al" "al_ok al (N l)"
  using assms that by (simp add: levels_ok_def level_at_def)

lemma on_level_ok:
  assumes "levels_ok N t" "l < 20"
    and "\<And>al. al_ok al (N l) \<Longrightarrow> \<exists>al'. f (Some al) = Inr (MT_SUCCESS, al') \<and> al_ok al' ys"
    and "\<And>t'. levels_ok (N(l := ys)) t' \<Longrightarrow> mt_elems t' = mt_elems t \<Longrightarrow> k t' = r t'"
  shows "\<exists>t'. on_level l f t k = r t' \<and> levels_ok (N(l := ys)) t' \<and> mt_elems t' = mt_elems t"
proof -
  obtain al where al: "level_at t l = Some al" "al_ok al (N l)" using level_at_ok [OF assms(1,2)] .
  obtain al' where al': "f (Some al) = Inr (MT_SUCCESS, al')" "al_ok al' ys" using assms(3) [OF al(2)] by blast
  let ?t = "t\<lparr>mt_level := (mt_level t)[l := al']\<rparr>"
  have "levels_ok (N(l := ys)) ?t" using assms(1,2) al'(2) by (auto simp: levels_ok_def nth_list_update)
  then show ?thesis using assms(4) [of ?t] al(1) al'(1) by (intro exI [of _ ?t]) (simp add: on_level_def)
qed

lemma level_nodes_32:
  assumes "\<forall>x \<in> set xs. length x = 32" "i < level_size l (length xs)"
  shows "length (node l i xs) = 32"
  using node_length [OF assms(1) level_size_less_0 [OF assms(2)]] .

section \<open>Adding a leaf\<close>

lemma assert_top_ok:
  assumes "levels_ok N t" "l < 20" "length (N l) < 524288" "unat q < length (N l)" "N l ! unat q = d"
  shows "assert_top d q l t = Inr (MT_SUCCESS, Some t)"
proof -
  obtain al where "level_at t l = Some al" "al_ok al (N l)" using level_at_ok [OF assms(1,2)] .
  then show ?thesis using al_ok_get [of al "N l" q] assms by (simp add: assert_top_def)
qed

lemma level_nodes_empty:
  assumes "length xs \<le> 2 ^ l"
  shows "level_nodes (Suc l) xs = []"
proof -
  have "\<not> 0 < level_size (Suc l) (length xs)" using assms by (simp only: level_size_less) simp
  then show ?thesis by (simp add: level_nodes_def)
qed

definition added_upto :: "nat \<Rightarrow> bytes list \<Rightarrow> bytes \<Rightarrow> nat \<Rightarrow> bytes list" where
  "added_upto l xs x = (\<lambda>j. if j \<le> l then level_nodes j (xs @ [x]) else level_nodes j xs)"

lemma added_upto_step:
  "(added_upto l xs x)(Suc l := level_nodes (Suc l) (xs @ [x])) = added_upto (Suc l) xs x"
  by (auto simp: added_upto_def fun_eq_iff le_Suc_eq)

lemma added_upto_end:
  assumes "length xs < 2 ^ l"
  shows "added_upto l xs x = (\<lambda>j. level_nodes j (xs @ [x]))"
proof
  fix j
  show "added_upto l xs x j = level_nodes j (xs @ [x])"
  proof (cases "j \<le> l")
    case False
    then obtain k where k: "j = Suc k" "l \<le> k" by (cases j) auto
    have "length xs < 2 ^ k" by (rule less_le_trans [OF assms]) (simp add: power_increasing k(2))
    then show ?thesis using assms k level_nodes_empty [of xs k] level_nodes_empty [of "xs @ [x]" k]
      by (simp add: added_upto_def)
  qed (simp add: added_upto_def)
qed

lemma mt_add_loop_ok:
  fixes xs x
  defines "n \<equiv> length xs"
  assumes "length (sc_block stk) = 64" "\<forall>l. mem l" "\<forall>y \<in> set (xs @ [x]). length y = 32" "0 < n" "n + 1 < 524288"
    and "2 ^ l \<le> 2 * n" "unat q = n div 2 ^ l" "d = node l (n div 2 ^ l) (xs @ [x])" "levels_ok (added_upto l xs x) t"
  shows "\<exists>t'. mt_add_loop mem stk d q l t = Inr (MT_SUCCESS, Some t') \<and> mt_elems t' = mt_elems t
    \<and> levels_ok (\<lambda>j. level_nodes j (xs @ [x])) t'"
  using assms(7-)
proof (induction "20 - l" arbitrary: l q d t rule: less_induct)
  case less
  have "(2::nat) ^ l < 2 ^ 20" using less.prems(1) assms(6) by simp
  then have l20: "l < 20" by (rule power_less_imp_less_exp [rotated]) simp
  let ?N = "added_upto l xs x" and ?xs = "xs @ [x]"
  have Nl: "?N l = level_nodes l ?xs" by (simp add: added_upto_def)
  have sz: "length (?N j) < 524288" for j
    using assms(6) level_size_le [of j "length (xs @ [x])"] level_size_le [of j "length xs"] by (simp add: added_upto_def n_def)
  show ?case
  proof (cases "q > 0")
    case False
    then have n: "n < 2 ^ l" using less.prems(2) by (simp add: word_gt_0 div_eq_0_iff)
    have "0 < l" using n assms(5) by (cases l) auto
    then obtain k where k: "l = Suc k" by (cases l) auto
    have "2 ^ k \<le> n" using less.prems(1) k by simp
    then have "0 < level_size l (length ?xs)" unfolding k level_size_less n_def by simp
    then have "assert_top d q l t = Inr (MT_SUCCESS, Some t)"
      using False less.prems(3) n by (intro assert_top_ok [OF less.prems(4) l20 sz]) (simp_all add: Nl word_gt_0)
    then show ?thesis using False less.prems(4) added_upto_end [of xs l x] n
      by (subst mt_add_loop.simps) (simp add: n_def)
  next
    case True
    then have "unat q \<noteq> 0" by (simp add: word_gt_0 unat_eq_0)
    then have "0 < n div 2 ^ l" using less.prems(2) by simp
    then have nl: "2 ^ l \<le> n" by (simp add: div_greater_zero_iff)
    then have "(2::nat) ^ l < 2 ^ 19" using assms(6) by simp
    then have l19: "l < 19" by (rule power_less_imp_less_exp [rotated]) simp
    have h: "unat (drop_bit 1 q) = n div 2 ^ Suc l" using less.prems(2) by (simp only: half_word power_Suc2 div_mult2_eq)
    have fst: "mt_add_loop mem stk d q l t = (if mt_right q then
          bind_res (mt_al_get (level_at t l) (q - 1)) (\<lambda>left.
          case mt_hash stk left (Some d) of Inl e \<Rightarrow> Inr (e, Some t)
          | Inr d' \<Rightarrow> on_level (l + 1) (\<lambda>al. mt_al_add_or_update (mem (l + 1)) al (Some d') (drop_bit 1 q)) t
              (\<lambda>t'. mt_add_loop mem stk d' (drop_bit 1 q) (l + 1) t'))
        else mt_add_loop mem stk d (drop_bit 1 q) (l + 1) t)"
      using True l20 by (subst mt_add_loop.simps) (simp add: TREE_LEVELS_def)
    have ih: "\<exists>t2. mt_add_loop mem stk (node (Suc l) (n div 2 ^ Suc l) ?xs) (drop_bit 1 q) (l + 1) t1 = Inr (MT_SUCCESS, Some t2)
        \<and> mt_elems t2 = mt_elems t1 \<and> levels_ok (\<lambda>j. level_nodes j ?xs) t2"
      if "levels_ok (added_upto (Suc l) xs x) t1" for t1
      using less.hyps [of "Suc l" "drop_bit 1 q" _ t1] h nl that l19 by simp
    show ?thesis
    proof (cases "odd (n div 2 ^ l)")
      case False
      then have r: "\<not> mt_right q" using less.prems(2) by (simp add: right_odd)
      have e: "even (length xs div 2 ^ l)" using False n_def by simp
      have "n div 2 ^ l = 2 * (n div 2 ^ Suc l)" using div_half [of n l] False by simp
      moreover have "\<not> (2 * (n div 2 ^ Suc l) + 1) * 2 ^ l < length ?xs"
      proof -
        have "n < (n div 2 ^ l + 1) * 2 ^ l" by (metis add.commute dividend_less_times_div mult.commute plus_1_eq_Suc zero_less_numeral zero_less_power mult_Suc_right mult_Suc)
        then show ?thesis using calculation by (simp add: n_def)
      qed
      ultimately have d: "d = node (Suc l) (n div 2 ^ Suc l) ?xs" using less.prems(3) by simp
      have "added_upto l xs x = added_upto (Suc l) xs x"
        using level_nodes_even [OF e, of x] by (auto simp: added_upto_def fun_eq_iff le_Suc_eq)
      then show ?thesis using ih [of t] less.prems(4) fst r d by simp
    next
      case True
      then have r: "mt_right q" using less.prems(2) by (simp add: right_odd)
      have o: "odd (length xs div 2 ^ l)" using True n_def by simp
      have half: "n div 2 ^ l = 2 * (n div 2 ^ Suc l) + 1" using div_half [of n l] True by simp
      have q1: "unat (q - 1) = 2 * (n div 2 ^ Suc l)" using \<open>q > 0\<close> less.prems(2) half by (simp add: unat_minus_one word_gt_0)
      have le: "(2 * (n div 2 ^ Suc l) + 1) * 2 ^ l \<le> n" unfolding half [symmetric] by simp
      then have cond: "(2 * (n div 2 ^ Suc l) + 1) * 2 ^ l < length ?xs" by (simp add: n_def)
      have lt: "2 * (n div 2 ^ Suc l) < level_size l (length ?xs)"
      proof (cases l)
        case (Suc k)
        have "(2 * (2 * (n div 2 ^ Suc l)) + 1) * 2 ^ k \<le> (2 * (n div 2 ^ Suc l) + 1) * 2 ^ l" by (simp add: Suc)
        then show ?thesis using le unfolding Suc level_size_less by (simp add: n_def)
      qed (use le in \<open>simp add: n_def\<close>)
      obtain al where al: "level_at t l = Some al" "al_ok al (?N l)" using level_at_ok [OF less.prems(4) l20] .
      have left: "mt_al_get (level_at t l) (q - 1) = Inr (Some (node l (2 * (n div 2 ^ Suc l)) ?xs))"
        using al_ok_get [OF al(2) sz, of "q - 1"] lt q1 al(1) by (simp add: Nl)
      have "length (node l (2 * (n div 2 ^ Suc l)) ?xs) = 32" by (rule level_nodes_32 [OF assms(4) lt])
      moreover have "length d = 32" using node_length [OF assms(4), of "n div 2 ^ l" l] less.prems(3) le half by (simp add: n_def)
      ultimately have hash: "mt_hash stk (Some (node l (2 * (n div 2 ^ Suc l)) ?xs)) (Some d) = Inr (node (Suc l) (n div 2 ^ Suc l) ?xs)"
        using mt_hash_ok [OF assms(2)] cond less.prems(3) half by simp
      let ?d = "node (Suc l) (n div 2 ^ Suc l) ?xs"
      have NS: "?N (Suc l) = level_nodes (Suc l) xs" by (simp add: added_upto_def)
      have "\<exists>t1. on_level (l + 1) (\<lambda>al. mt_al_add_or_update (mem (l + 1)) al (Some ?d) (drop_bit 1 q)) t
          (\<lambda>t'. mt_add_loop mem stk ?d (drop_bit 1 q) (l + 1) t') = mt_add_loop mem stk ?d (drop_bit 1 q) (l + 1) t1
          \<and> levels_ok (?N(l + 1 := level_nodes (Suc l) ?xs)) t1 \<and> mt_elems t1 = mt_elems t"
      proof (rule on_level_ok [OF less.prems(4)])
        fix al assume "al_ok al (?N (l + 1))"
        then have ok: "al_ok al (level_nodes (Suc l) xs)" using NS by simp
        have "length (level_nodes (Suc l) xs) < 524288" using sz [of "Suc l"] NS by simp
        moreover have "unat (drop_bit 1 q) \<le> length (level_nodes (Suc l) xs)"
          unfolding h n_def using level_size_odd(2) [OF o] by (simp only: level_nodes_nth)
        ultimately have "\<exists>al'. mt_al_add_or_update True (Some al) (Some ?d) (drop_bit 1 q) = Inr (MT_SUCCESS, al')
            \<and> al_ok al' (level_nodes (Suc l) ?xs)"
          using al_ok_add_or_update [OF ok, of "drop_bit 1 q" ?d] unfolding h n_def level_nodes_odd [OF o] by blast
        then show "\<exists>al'. mt_al_add_or_update (mem (l + 1)) (Some al) (Some ?d) (drop_bit 1 q) = Inr (MT_SUCCESS, al') \<and> al_ok al' (level_nodes (Suc l) ?xs)"
          using assms(3) by simp
      qed (use l19 in simp_all)
      then show ?thesis using ih fst r left hash added_upto_step [of l xs x] by (simp del: node.simps) (metis (no_types, lifting))
    qed
  qed
qed

lemma init_hash_full: "length tag = 32 \<Longrightarrow> mt_init_hash tag 32 = Inr tag"
  by (simp add: mt_init_hash_def)

lemma level_nodes_0: "level_nodes 0 xs = xs"
  by (simp add: level_nodes_def map_nth)

lemma levels_ok_first:
  assumes "levels_ok ((\<lambda>j. level_nodes j xs)(0 := xs @ [x])) t"
  shows "levels_ok (added_upto 0 xs x) t"
proof -
  have "(\<lambda>j. level_nodes j xs)(0 := xs @ [x]) = added_upto 0 xs x"
    by (auto simp: added_upto_def level_nodes_0 fun_eq_iff)
  then show ?thesis using assms by simp
qed

lemma mt_add_ok:
  assumes "mt_ok t xs" "length (sc_block stk) = 64" "\<forall>l. mem l" "length x = 32" "length xs + 1 < 524288"
  shows "\<exists>t'. mt_add mem stk (Some t) (Some x) 32 = Inr (MT_SUCCESS, Some t') \<and> mt_ok t' (xs @ [x])"
proof -
  let ?N = "\<lambda>j. level_nodes j xs"
  have ok: "levels_ok ?N t" "unat (mt_elems t) = length xs" and xs: "\<forall>y \<in> set (xs @ [x]). length y = 32"
    using assms(1,4) by (auto simp: mt_ok_def)
  have e1: "unat (mt_elems t + 1) = Suc (length xs)" using ok(2) assms(5) by (simp add: unat_word_ariths)
  define k where "k = (\<lambda>t. let t = t\<lparr>mt_elems := mt_elems t + 1\<rparr> in
      if mt_elems t = 1 then Inr (MT_SUCCESS, Some t) else mt_add_loop mem stk x (mt_elems t - 1) 0 t)"
  have eq: "mt_add mem stk (Some t) (Some x) 32 = on_level 0 (\<lambda>al. mt_al_add (mem 0) al (Some x)) t k"
    using assms(4) by (simp add: mt_add_def init_hash_full k_def)
  have "\<exists>t1. on_level 0 (\<lambda>al. mt_al_add (mem 0) al (Some x)) t k = k t1
      \<and> levels_ok (?N(0 := xs @ [x])) t1 \<and> mt_elems t1 = mt_elems t"
  proof (rule on_level_ok [OF ok(1)])
    fix al assume "al_ok al (?N 0)"
    then show "\<exists>al'. mt_al_add (mem 0) (Some al) (Some x) = Inr (MT_SUCCESS, al') \<and> al_ok al' (xs @ [x])"
      using al_ok_add [of al xs x] assms(3,5) by (simp add: level_nodes_0)
  qed simp_all
  then obtain t1 where t1: "mt_add mem stk (Some t) (Some x) 32 = k t1" "levels_ok (added_upto 0 xs x) t1" "mt_elems t1 = mt_elems t"
    using levels_ok_first unfolding eq by blast
  let ?t = "t1\<lparr>mt_elems := mt_elems t1 + 1\<rparr>"
  have lt: "levels_ok (added_upto 0 xs x) ?t" using t1(2) by (simp add: levels_ok_def)
  show ?thesis
  proof (cases "xs = []")
    case True
    then have "mt_elems t = 0" using ok(2) by (simp add: unat_eq_0)
    moreover have "added_upto 0 xs x = (\<lambda>j. level_nodes j (xs @ [x]))" by (rule added_upto_end) (simp add: True)
    ultimately show ?thesis using t1 lt xs True by (intro exI [of _ ?t]) (simp add: mt_ok_def k_def)
  next
    case False
    have q: "unat (mt_elems ?t - 1) = length xs div 2 ^ 0" using t1(3) ok(2) by simp
    have "\<exists>t'. mt_add_loop mem stk x (mt_elems ?t - 1) 0 ?t = Inr (MT_SUCCESS, Some t') \<and> mt_elems t' = mt_elems ?t
        \<and> levels_ok (\<lambda>j. level_nodes j (xs @ [x])) t'"
      using False assms(5) by (intro mt_add_loop_ok [OF assms(2,3) xs _ _ _ q _ lt]) (simp_all add: Suc_le_eq)
    moreover have "mt_elems ?t \<noteq> 1" using False t1(3) ok(2) by auto
    ultimately show ?thesis using t1 e1 xs assms(5) by (auto simp: mt_ok_def Let_def k_def)
  qed
qed

section \<open>Finding the root\<close>

lemma has_next:
  assumes "levels_ok (\<lambda>j. level_nodes j xs) t" "length xs < 524288"
  shows "hasNextLevelExceptRoot (Some t) l \<longleftrightarrow> l < 18 \<and> 2 ^ l < length xs"
proof (cases "l < 18")
  case True
  then have "l + 1 < 20" by simp
  obtain al where "level_at t (l + 1) = Some al" "al_ok al (level_nodes (l + 1) xs)"
    using level_at_ok [OF assms(1) \<open>l + 1 < 20\<close>] .
  then have "unat (mt_al_get_size (level_at t (l + 1))) = level_size (Suc l) (length xs)" using al_ok_size by fastforce
  then show ?thesis using True level_size_less [of 0 l "length xs"]
    by (simp add: hasNextLevelExceptRoot_def TREE_LEVELS_def word_gt_0 flip: unat_gt_0)
qed (simp add: hasNextLevelExceptRoot_def TREE_LEVELS_def)

text \<open>The level of the root: the first one that spans all leaves, at most 18.\<close>

definition top_level :: "nat \<Rightarrow> nat" where
  "top_level n = (LEAST l. l = 18 \<or> n \<le> 2 ^ l)"

lemma top_level_spec: "top_level n = 18 \<or> n \<le> 2 ^ top_level n" "l < top_level n \<Longrightarrow> l < 18 \<and> 2 ^ l < n" "top_level n \<le> 18"
proof -
  show a: "top_level n = 18 \<or> n \<le> 2 ^ top_level n" unfolding top_level_def by (rule LeastI_ex) blast
  show "top_level n \<le> 18" unfolding top_level_def by (rule Least_le) simp
  then show "l < 18 \<and> 2 ^ l < n" if "l < top_level n"
    using that not_less_Least [of l "\<lambda>l. l = 18 \<or> n \<le> 2 ^ l"] unfolding top_level_def [symmetric] by simp
qed

lemma top_level_iff: "l \<le> top_level n \<Longrightarrow> l < 18 \<and> 2 ^ l < n \<longleftrightarrow> l < top_level n"
  using top_level_spec [of n] top_level_spec(2) [of l n] by (cases "l = top_level n") auto

lemma root_level_eq:
  assumes "levels_ok (\<lambda>j. level_nodes j xs) t" "length xs < 524288" "l \<le> top_level (length xs)"
  shows "root_level t l = top_level (length xs)"
  using assms(3)
proof (induction "20 - l" arbitrary: l rule: less_induct)
  case less
  show ?case
  proof (cases "l < top_level (length xs)")
    case True
    then show ?thesis using has_next [OF assms(1,2), of l] top_level_iff [OF less.prems] less top_level_spec(3) [of "length xs"]
      by (subst root_level.simps) simp
  next
    case False
    then have "\<not> hasNextLevelExceptRoot (Some t) l"
      using has_next [OF assms(1,2), of l] top_level_iff [OF less.prems] by blast
    then show ?thesis using False less.prems by (subst root_level.simps) simp
  qed
qed

lemma top_stored:
  assumes "0 < n"
  shows "0 < level_size (top_level n) n"
proof (cases "top_level n")
  case (Suc k)
  then show ?thesis using top_level_spec(2) [of k n] unfolding Suc by (subst level_size_less) simp
qed (use assms in simp)

lemma mt_get_root_ok:
  assumes "mt_ok t xs" "xs \<noteq> []"
  shows "mt_get_root (Some t) = Inr (MT_SUCCESS, Some (node (top_level (length xs)) 0 xs))"
proof -
  let ?l = "top_level (length xs)"
  have ok: "levels_ok (\<lambda>j. level_nodes j xs) t" "length xs < 524288" using assms(1) by (simp_all add: mt_ok_def)
  have "?l < 20" using top_level_spec(3) [of "length xs"] by simp
  then obtain al where al: "level_at t ?l = Some al" "al_ok al (level_nodes ?l xs)" using level_at_ok [OF ok(1)] by blast
  have "length (level_nodes ?l xs) < 524288" using level_size_le [of ?l "length xs"] ok(2) by simp
  then have "mt_al_get (level_at t ?l) 0 = Inr (Some (node ?l 0 xs))"
    using al_ok_get [OF al(2), of 0] al(1) top_stored [of "length xs"] assms(2) by simp
  then show ?thesis by (simp add: mt_get_root_def root_level_eq [OF ok])
qed

end
