(* ===== verification/MerkleProof.thy ===== *)
theory MerkleProof
  imports MerkleSpec
begin

text \<open>
  What the tree is for: the root is the recursive hash of the leaves, \<open>mt_verify\<close> accepts exactly the
  stored leaf (or an explicit collision of SHA-256 is found on the path), and \<open>mt_update\<close> replaces
  a leaf.
\<close>

section \<open>The recursive tree hash\<close>

text \<open>
  A tree over \<open>n\<close> tags is split at the largest power of two below \<open>n\<close>, as in RFC 6962. It is not the tree hash of that
  RFC: a leaf is not hashed, and a node is hashed without a prefix.
\<close>

function half_point :: "nat \<Rightarrow> nat \<Rightarrow> nat" where
  "half_point k n = (if 0 < k \<and> 2 * k < n then half_point (2 * k) n else k)"
  by pat_completeness auto
termination by (relation "measure (\<lambda>(k, n). n - k)") auto

declare half_point.simps [simp del]

lemma half_point_power:
  assumes "2 ^ j < n" "n \<le> 2 ^ Suc j" "i \<le> j"
  shows "half_point (2 ^ i) n = 2 ^ j"
  using assms(3)
proof (induction "j - i" arbitrary: i)
  case 0
  then show ?case using assms(2) by (subst half_point.simps) simp
next
  case (Suc k)
  then have "2 ^ Suc i \<le> (2::nat) ^ j" by (intro power_increasing) simp_all
  then have "2 * 2 ^ i < n" using assms(1) by simp
  then show ?case using Suc(1) [of "Suc i"] Suc(2,3) by (subst half_point.simps) simp
qed

lemma half_point_bounds: "0 < k \<Longrightarrow> k < n \<Longrightarrow> 0 < half_point k n \<and> half_point k n < n"
  by (induction k n rule: half_point.induct) (subst (1 2) half_point.simps, auto)

function mroot :: "bytes list \<Rightarrow> bytes" where
  "mroot xs = (if length xs \<le> 1 then xs ! 0
     else let k = half_point 1 (length xs) in node_hash (mroot (take k xs)) (mroot (drop k xs)))"
  by pat_completeness auto
termination
proof (relation "measure length")
  fix xs :: "bytes list" and k
  assume "\<not> length xs \<le> 1" "k = half_point 1 (length xs)"
  then have "0 < k \<and> k < length xs" using half_point_bounds [of 1 "length xs"] by simp
  then show "(take k xs, xs) \<in> measure length" "(drop k xs, xs) \<in> measure length" by auto
qed simp

declare mroot.simps [simp del]

lemma node_mroot:
  assumes "i * 2 ^ l < length xs"
  shows "node l i xs = mroot (take (2 ^ l) (drop (i * 2 ^ l) xs))"
  using assms
proof (induction l arbitrary: i)
  case 0
  then show ?case by (subst mroot.simps) simp
next
  case (Suc l)
  define P :: nat where "P = 2 ^ l"
  have P: "0 < P" "2 ^ l = P" "2 ^ Suc l = 2 * P" by (simp_all add: P_def)
  let ?c = "take (2 ^ Suc l) (drop (i * 2 ^ Suc l) xs)"
  have start: "i * 2 ^ Suc l = 2 * i * P" by (simp add: P_def)
  have lt: "2 * i * P < length xs" using Suc.prems unfolding start .
  have left: "node l (2 * i) xs = mroot (take P (drop (2 * i * P) xs))" using Suc.IH [of "2 * i"] lt by (simp add: P)
  show ?case
  proof (cases "(2 * i + 1) * 2 ^ l < length xs")
    case True
    then have m: "P < length ?c" "length ?c \<le> 2 * P" using P(1) by (auto simp: P start algebra_simps)
    then have h: "half_point 1 (length ?c) = P" using half_point_power [of l "length ?c" 0] by (simp only: P power_0)
    have c1: "take P ?c = take P (drop (2 * i * P) xs)" unfolding start by (simp add: P min_def)
    have "drop P ?c = take P (drop (P + 2 * i * P) xs)" unfolding start by (simp add: P drop_take)
    then have c2: "drop P ?c = take P (drop ((2 * i + 1) * P) xs)" by (simp add: algebra_simps)
    have "node l (2 * i + 1) xs = mroot (take P (drop ((2 * i + 1) * P) xs))" using Suc.IH [of "2 * i + 1"] True by (simp add: P)
    moreover have "\<not> length ?c \<le> 1" using m(1) P(1) by linarith
    then have "mroot ?c = node_hash (mroot (take P ?c)) (mroot (drop P ?c))"
      by (subst mroot.simps) (simp only: h Let_def if_False)
    ultimately show ?thesis using True left c1 c2 by simp
  next
    case False
    have n: "node (Suc l) i xs = node l (2 * i) xs" using False by simp
    have "length xs \<le> (2 * i + 1) * P" using False by (simp add: P)
    then have "length (drop (2 * i * P) xs) \<le> P" by (simp add: algebra_simps)
    then have "?c = take P (drop (2 * i * P) xs)" unfolding start using P by simp
    then show ?thesis by (simp only: n left)
  qed
qed

lemma root_mroot:
  assumes "xs \<noteq> []"
  shows "node (top_level (length xs)) 0 xs = mroot (take 262144 xs)"
proof -
  let ?l = "top_level (length xs)"
  have "node ?l 0 xs = mroot (take (2 ^ ?l) xs)" using node_mroot [of 0 ?l xs] assms by simp
  moreover have "take (2 ^ ?l) xs = take 262144 xs"
  proof (cases "?l = 18")
    case False
    then have "length xs \<le> 2 ^ ?l" "?l \<le> 18" using top_level_spec(1,3) [of "length xs"] by auto
    moreover have "(2::nat) ^ ?l \<le> 2 ^ 18" using \<open>?l \<le> 18\<close> by (rule power_increasing) simp
    ultimately show ?thesis by simp
  qed simp
  ultimately show ?thesis by simp
qed

section \<open>Climbing\<close>

definition up_hashes :: "nat \<Rightarrow> nat \<Rightarrow> bytes list \<Rightarrow> bool" where
  "up_hashes l q xs \<longleftrightarrow> odd q \<or> (q + 1) * 2 ^ l < length xs"

definition up_input :: "nat \<Rightarrow> nat \<Rightarrow> bytes \<Rightarrow> bytes list \<Rightarrow> bytes" where
  "up_input l q d xs = (if even q then d @ node l (q + 1) xs else node l (q - 1) xs @ d)"

definition up :: "nat \<Rightarrow> nat \<Rightarrow> bytes \<Rightarrow> bytes list \<Rightarrow> bytes" where
  "up l q d xs = (if up_hashes l q xs then fips_digest sha256_H0 32 (up_input l q d xs) else d)"

lemma up_node:
  assumes "q * 2 ^ l < length xs"
  shows "up l q (node l q xs) xs = node (Suc l) (q div 2) xs"
proof (cases "even q")
  case True
  then obtain i where "q = 2 * i" by blast
  then show ?thesis by (simp add: up_def up_hashes_def up_input_def node_hash_def)
next
  case False
  then obtain i where "q = 2 * i + 1" by (metis oddE)
  then show ?thesis using assms by (simp add: up_def up_hashes_def up_input_def node_hash_def)
qed

text \<open>The digest that the path of offset \<open>q\<close> carries at level \<open>l\<close>.\<close>

fun path_digest :: "nat \<Rightarrow> nat \<Rightarrow> bytes \<Rightarrow> bytes list \<Rightarrow> bytes" where
  "path_digest 0 q d xs = d"
| "path_digest (Suc l) q d xs = up l (q div 2 ^ l) (path_digest l q d xs) xs"

lemma div_mult_less: "q < n \<Longrightarrow> q div 2 ^ l * 2 ^ l < n" for q n :: nat
  by (rule le_less_trans [OF div_times_less_eq_dividend])

lemma path_digest_leaf:
  assumes "q < length xs"
  shows "path_digest l q (xs ! q) xs = node l (q div 2 ^ l) xs"
proof (induction l)
  case (Suc l)
  then show ?case using up_node [OF div_mult_less [OF assms]] by (simp only: path_digest.simps power_Suc2 div_mult2_eq)
qed simp

lemma factor_less: "x * 2 ^ l < b \<Longrightarrow> x < b" for x b :: nat
  by (rule le_less_trans [of _ "x * 2 ^ l"]) simp_all

lemma find_right_ok:
  assumes "\<forall>j \<le> l. N j = level_nodes j xs" "levels_ok N t" "length xs < 524288" "l < 20" "unat off * 2 ^ l < 2 ^ 31"
  shows "find_right t off l = Inr (if unat off * 2 ^ l < length xs then Some (node l (unat off) xs) else None)"
  using assms(1,4,5)
proof (induction l arbitrary: off)
  case 0
  obtain al where al: "level_at t 0 = Some al" "al_ok al xs"
    using level_at_ok [OF assms(2), of 0] 0 by (auto simp: level_nodes_0)
  then show ?case using al_ok_get [OF al(2) assms(3)] al_ok_size [OF al(2)]
    by (subst find_right.simps) (simp add: word_less_nat_alt)
next
  case (Suc l)
  obtain al where al: "level_at t (Suc l) = Some al" "al_ok al (level_nodes (Suc l) xs)"
    using level_at_ok [OF assms(2), of "Suc l"] Suc.prems by auto
  have len: "length (level_nodes (Suc l) xs) < 524288" using level_size_le [of "Suc l" "length xs"] assms(3) by simp
  let ?i = "unat off"
  have s: "off < mt_al_get_size (level_at t (Suc l)) \<longleftrightarrow> (2 * ?i + 1) * 2 ^ l < length xs"
    using al_ok_size [OF al(2)] al(1) level_size_less [of ?i l "length xs"] by (simp add: word_less_nat_alt)
  show ?case
  proof (cases "(2 * ?i + 1) * 2 ^ l < length xs")
    case True
    then have lt: "?i < length (level_nodes (Suc l) xs)" using level_size_less [of ?i l "length xs"] by simp
    have "?i * 2 ^ Suc l < length xs" using lt level_size_less_0 [of ?i "Suc l" "length xs"] by simp
    then show ?thesis using True s lt al_ok_get [OF al(2) len, of off] al(1)
      by (subst find_right.simps) (simp del: node.simps level_size.simps)
  next
    case False
    have b: "2 * ?i * 2 ^ l < 2 ^ 31" using Suc.prems(3) by (simp add: mult.commute mult.left_commute)
    have "2 * ?i < 2 ^ 31" by (rule factor_less [OF b])
    then have "(?i * 2) mod 4294967296 = 2 * ?i" by simp
    then have u: "unat (push_bit 1 off) = 2 * ?i" by (simp add: push_bit_eq_mult unat_word_ariths)
    have "find_right t (push_bit 1 off) l = Inr (if 2 * ?i * 2 ^ l < length xs then Some (node l (2 * ?i) xs) else None)"
      by (rule Suc.IH [of "push_bit 1 off", unfolded u]) (use Suc.prems(1) in simp, use Suc.prems(2) in simp, rule b)
    moreover have "node (Suc l) ?i xs = node l (2 * ?i) xs" using False by simp
    ultimately show ?thesis using False s by (subst find_right.simps) (simp add: mult.commute mult.left_commute del: node.simps)
  qed
qed

lemma climb_ok:
  assumes "\<forall>j \<le> l. N j = level_nodes j xs" "levels_ok N t" "length xs < 524288" "l < 18"
    and "length (sc_block stk) = 64" "\<forall>x \<in> set xs. length x = 32" "length d = 32" "unat q * 2 ^ l < length xs"
  shows "climb stk t d q l = Inr (Inr (up l (unat q) d xs))"
proof (cases "even (unat q)")
  case True
  have P: "(2::nat) ^ l \<le> 2 ^ 18" using assms(4) by (intro power_increasing) simp_all
  have "(unat q + 1) * 2 ^ l = unat q * 2 ^ l + 2 ^ l" by simp
  then have b: "(unat q + 1) * 2 ^ l < 2 ^ 31" using P assms(3,8) by simp
  have "unat q + 1 < 2 ^ 31" by (rule factor_less [OF b])
  then have u: "unat (q + 1) = unat q + 1" by (simp add: unat_word_ariths)
  have f: "find_right t (q + 1) l = Inr (if (unat q + 1) * 2 ^ l < length xs then Some (node l (unat q + 1) xs) else None)"
    using find_right_ok [OF assms(1-3), of "q + 1"] assms(4) b by (simp only: u)
  show ?thesis
  proof (cases "(unat q + 1) * 2 ^ l < length xs")
    case True
    then have "length (node l (unat q + 1) xs) = 32" by (rule node_length [OF assms(6)])
    then show ?thesis using True f \<open>even (unat q)\<close> mt_hash_ok [OF assms(5,7)]
      by (simp add: climb_def left_even findRightNeighbor_def up_def up_hashes_def up_input_def node_hash_def)
  next
    case False
    then show ?thesis using f \<open>even (unat q)\<close>
      by (simp add: climb_def left_even findRightNeighbor_def up_def up_hashes_def)
  qed
next
  case False
  then have "q \<noteq> 0" by auto
  then have u: "unat (q - 1) = unat q - 1" by (simp add: unat_minus_one)
  obtain i where i: "unat q = 2 * i + 1" using False by (metis oddE)
  have lt: "unat q - 1 < level_size l (length xs)"
  proof (cases l)
    case 0
    then show ?thesis using assms(8) by simp
  next
    case (Suc k)
    have "(2 * (2 * i) + 1) * 2 ^ k \<le> (2 * i + 1) * 2 ^ l" by (simp add: Suc)
    then show ?thesis using assms(8) i unfolding Suc level_size_less by simp
  qed
  have "l < 20" using assms(4) by simp
  then obtain al where al: "level_at t l = Some al" "al_ok al (level_nodes l xs)"
    using level_at_ok [OF assms(2)] assms(1) by (metis le_refl)
  have "length (level_nodes l xs) < 524288" using level_size_le [of l "length xs"] assms(3) by simp
  then have "mt_al_get (level_at t l) (q - 1) = Inr (Some (node l (unat q - 1) xs))"
    using al_ok_get [OF al(2), of "q - 1"] al(1) lt by (simp add: u)
  moreover have "length (node l (unat q - 1) xs) = 32" by (rule level_nodes_32 [OF assms(6) lt])
  ultimately show ?thesis using False mt_hash_ok [OF assms(5) _ assms(7)]
    by (simp add: climb_def left_even up_def up_hashes_def up_input_def node_hash_def)
qed

lemma up_length: "length d = 32 \<Longrightarrow> length (up l q d xs) = 32"
  by (simp add: up_def fips_digest_def)

lemma path_digest_length: "length d = 32 \<Longrightarrow> length (path_digest l q d xs) = 32"
  by (induction l) (simp_all add: up_length)

section \<open>Verification\<close>

text \<open>
  What \<open>mt_verify\<close> compares at the top: nothing when the top node of the path is not stored
  (a path beyond \<open>2^18\<close> leaves may end there), which is a null pointer.
\<close>

lemma verify_loop_ok:
  assumes "levels_ok (\<lambda>j. level_nodes j xs) t" "length xs < 524288" "length (sc_block stk) = 64"
    and "\<forall>x \<in> set xs. length x = 32" "length tag = 32" "off < length xs"
    and "l \<le> top_level (length xs)" "unat q = off div 2 ^ l"
  shows "verify_loop stk t (path_digest l off tag xs) q l =
     (let m = top_level (length xs); i = off div 2 ^ m in
      if i < level_size m (length xs) then Inr (if path_digest m off tag xs = node m i xs then MT_SUCCESS else MT_ERR_ROOT_MISMATCH)
      else Inl NullDeref)"
  using assms(7,8)
proof (induction "20 - l" arbitrary: l q rule: less_induct)
  case less
  have len: "length (path_digest l off tag xs) = 32" by (rule path_digest_length [OF assms(5)])
  show ?case
  proof (cases "l < top_level (length xs)")
    case True
    have l18: "l < 18" using top_level_spec(2) [OF True] by simp
    have "unat q * 2 ^ l < length xs" using less.prems(2) div_mult_less [OF assms(6)] by simp
    then have c: "climb stk t (path_digest l off tag xs) q l = Inr (Inr (path_digest (Suc l) off tag xs))"
      using climb_ok [OF _ assms(1,2) l18 assms(3,4) len, of q] less.prems(2) by simp
    have "unat (drop_bit 1 q) = off div 2 ^ Suc l" using less.prems(2) by (simp only: half_word power_Suc2 div_mult2_eq)
    then have "verify_loop stk t (path_digest (Suc l) off tag xs) (drop_bit 1 q) (l + 1) =
       (let m = top_level (length xs); i = off div 2 ^ m in
        if i < level_size m (length xs) then Inr (if path_digest m off tag xs = node m i xs then MT_SUCCESS else MT_ERR_ROOT_MISMATCH)
        else Inl NullDeref)"
      using less.hyps [of "Suc l" "drop_bit 1 q"] True l18 by simp
    moreover have "hasNextLevelExceptRoot (Some t) l" using has_next [OF assms(1,2)] top_level_iff [OF less.prems(1)] True by simp
    ultimately show ?thesis using c by (subst verify_loop.simps) simp
  next
    case False
    then have l: "l = top_level (length xs)" using less.prems(1) by simp
    have nn: "\<not> hasNextLevelExceptRoot (Some t) l" using has_next [OF assms(1,2)] top_level_iff [OF less.prems(1)] False by simp
    have "l < 20" using l top_level_spec(3) [of "length xs"] by simp
    then obtain al where al: "level_at t l = Some al" "al_ok al (level_nodes l xs)" using level_at_ok [OF assms(1)] by blast
    have "length (level_nodes l xs) < 524288" using level_size_le [of l "length xs"] assms(2) by simp
    then have "mt_al_get (level_at t l) q = Inr (if off div 2 ^ l < level_size l (length xs) then Some (node l (off div 2 ^ l) xs) else None)"
      using al_ok_get [OF al(2), of q] al(1) less.prems(2) by simp
    then show ?thesis using nn by (subst verify_loop.simps) (auto simp: Let_def simp flip: l)
  qed
qed

section \<open>Collisions on the path\<close>

text \<open>
  The first level at which the path of a tag meets the stored path although it differed below:
  there two different inputs have the same SHA-256 digest.
\<close>

lemma path_meets:
  assumes "path_digest m off tag xs = node m (off div 2 ^ m) xs" "off < length xs" "tag \<noteq> xs ! off"
  shows "\<exists>l < m. up_input l (off div 2 ^ l) (path_digest l off tag xs) xs \<noteq> up_input l (off div 2 ^ l) (node l (off div 2 ^ l) xs) xs
    \<and> fips_digest sha256_H0 32 (up_input l (off div 2 ^ l) (path_digest l off tag xs) xs)
      = fips_digest sha256_H0 32 (up_input l (off div 2 ^ l) (node l (off div 2 ^ l) xs) xs)"
  using assms(1)
proof (induction m)
  case (Suc m)
  let ?q = "off div 2 ^ m"
  show ?case
  proof (cases "path_digest m off tag xs = node m ?q xs")
    case True
    then show ?thesis using Suc.IH less_SucI by blast
  next
    case False
    have "up m ?q (path_digest m off tag xs) xs = up m ?q (node m ?q xs) xs"
      using Suc.prems up_node [OF div_mult_less [OF assms(2)], of m] by (simp only: path_digest.simps power_Suc2 div_mult2_eq)
    then have "up_hashes m ?q xs" "fips_digest sha256_H0 32 (up_input m ?q (path_digest m off tag xs) xs)
        = fips_digest sha256_H0 32 (up_input m ?q (node m ?q xs) xs)"
      using False by (auto simp: up_def split: if_splits)
    moreover have "up_input m ?q (path_digest m off tag xs) xs \<noteq> up_input m ?q (node m ?q xs) xs"
      using False by (simp add: up_input_def)
    ultimately show ?thesis by blast
  qed
qed (use assms(3) in simp)

section \<open>Updating a leaf\<close>

lemma node_other:
  assumes "i \<noteq> off div 2 ^ l"
  shows "node l i (xs[off := x]) = node l i xs"
  using assms
proof (induction l arbitrary: i)
  case (Suc l)
  have "off div 2 ^ Suc l = off div 2 ^ l div 2" by (simp only: power_Suc2 div_mult2_eq)
  then have "i \<noteq> off div 2 ^ l div 2" using Suc.prems by metis
  then have "2 * i \<noteq> off div 2 ^ l" "2 * i + 1 \<noteq> off div 2 ^ l" by linarith+
  then show ?case using Suc.IH by simp
qed simp

lemma level_nodes_update:
  "(level_nodes l xs)[off div 2 ^ l := node l (off div 2 ^ l) (xs[off := x])] = level_nodes l (xs[off := x])"
proof (rule nth_equalityI)
  fix i assume "i < length ((level_nodes l xs)[off div 2 ^ l := node l (off div 2 ^ l) (xs[off := x])])"
  then show "(level_nodes l xs)[off div 2 ^ l := node l (off div 2 ^ l) (xs[off := x])] ! i = level_nodes l (xs[off := x]) ! i"
    using node_other [of i off l xs x] by (cases "i = off div 2 ^ l") simp_all
qed simp

lemma update_loop_ok:
  fixes xs x off
  defines "ys \<equiv> xs[off := x]"
  assumes "length xs < 524288" "length (sc_block stk) = 64" "\<forall>y \<in> set xs. length y = 32" "length x = 32" "off < length xs"
    and "length xs \<le> 262144"
    and "l \<le> top_level (length xs)" "unat q = off div 2 ^ l" "d = node l (off div 2 ^ l) ys"
    and "levels_ok (\<lambda>j. if j \<le> l then level_nodes j ys else level_nodes j xs) t"
  shows "\<exists>t'. update_loop stk d q l t = Inr (MT_SUCCESS, Some t') \<and> mt_elems t' = mt_elems t \<and> levels_ok (\<lambda>j. level_nodes j ys) t'"
  using assms(8-)
proof (induction "20 - l" arbitrary: l q d t rule: less_induct)
  case less
  let ?N = "\<lambda>l j. if j \<le> l then level_nodes j ys else level_nodes j xs"
  let ?m = "top_level (length xs)"
  have len: "length ys = length xs" by (simp add: ys_def)
  have ys32: "\<forall>y \<in> set ys. length y = 32" using assms(4,5) set_update_subset_insert [of xs off x] by (auto simp: ys_def)
  have l20: "l < 20" using less.prems(1) top_level_spec(3) [of "length xs"] by simp
  have qlt: "unat q * 2 ^ l < length ys" using less.prems(2) div_mult_less [OF assms(6)] len by simp
  have next_iff: "hasNextLevelExceptRoot (Some t) l \<longleftrightarrow> l < ?m"
  proof -
    have "l < 18 \<longrightarrow> hasNextLevelExceptRoot (Some t) l \<longleftrightarrow> 2 ^ l < length xs"
    proof
      assume "l < 18"
      then have "l + 1 < 20" by simp
      obtain al where "level_at t (l + 1) = Some al" "al_ok al (level_nodes (l + 1) xs)"
        using level_at_ok [OF less.prems(4) \<open>l + 1 < 20\<close>] by auto
      then have "unat (mt_al_get_size (level_at t (l + 1))) = level_size (Suc l) (length xs)" using al_ok_size by fastforce
      then show "hasNextLevelExceptRoot (Some t) l \<longleftrightarrow> 2 ^ l < length xs" using \<open>l < 18\<close> level_size_less [of 0 l "length xs"]
        by (simp add: hasNextLevelExceptRoot_def TREE_LEVELS_def word_gt_0 flip: unat_gt_0)
    qed
    then show ?thesis using top_level_iff [OF less.prems(1)] top_level_spec(3) [of "length xs"]
      by (auto simp: hasNextLevelExceptRoot_def TREE_LEVELS_def)
  qed
  show ?case
  proof (cases "l < ?m")
    case True
    have l18: "l < 18" using top_level_spec(2) [OF True] by simp
    have "length d = 32" using less.prems(2,3) node_length [OF ys32, of "off div 2 ^ l" l] qlt by simp
    then have "climb stk t d q l = Inr (Inr (up l (unat q) d ys))"
      using climb_ok [OF _ less.prems(4) _ l18 assms(3) ys32 _ qlt] assms(2) len by simp
    then have c: "climb stk t d q l = Inr (Inr (node (Suc l) (off div 2 ^ Suc l) ys))"
      using up_node [of "off div 2 ^ l" l ys] qlt less.prems(2,3) by (simp only: power_Suc2 div_mult2_eq)
    have h: "unat (drop_bit 1 q) = off div 2 ^ Suc l" using less.prems(2) by (simp only: half_word power_Suc2 div_mult2_eq)
    let ?d = "node (Suc l) (off div 2 ^ Suc l) ys"
    have "\<exists>t1. on_level (l + 1) (\<lambda>al. mt_al_update_if_exists al (Some ?d) (drop_bit 1 q)) t
        (\<lambda>t'. update_loop stk ?d (drop_bit 1 q) (l + 1) t') = update_loop stk ?d (drop_bit 1 q) (l + 1) t1
        \<and> levels_ok ((?N l)(l + 1 := level_nodes (Suc l) ys)) t1 \<and> mt_elems t1 = mt_elems t"
    proof (rule on_level_ok [OF less.prems(4)])
      fix al assume "al_ok al (?N l (l + 1))"
      then have ok: "al_ok al (level_nodes (Suc l) xs)" by simp
      have "length (level_nodes (Suc l) xs) < 524288" using level_size_le [of "Suc l" "length xs"] assms(2) by simp
      then show "\<exists>al'. mt_al_update_if_exists (Some al) (Some ?d) (drop_bit 1 q) = Inr (MT_SUCCESS, al') \<and> al_ok al' (level_nodes (Suc l) ys)"
        using al_ok_update_if_exists [OF ok, of ?d "drop_bit 1 q"] unfolding h ys_def level_nodes_update by blast
    qed (use l18 in simp_all)
    moreover have "(?N l)(l + 1 := level_nodes (Suc l) ys) = ?N (Suc l)" by (auto simp: fun_eq_iff le_Suc_eq)
    ultimately obtain t1 where t1: "on_level (l + 1) (\<lambda>al. mt_al_update_if_exists al (Some ?d) (drop_bit 1 q)) t
        (\<lambda>t'. update_loop stk ?d (drop_bit 1 q) (l + 1) t') = update_loop stk ?d (drop_bit 1 q) (l + 1) t1"
        "levels_ok (?N (Suc l)) t1" "mt_elems t1 = mt_elems t" by auto
    have "\<exists>t'. update_loop stk ?d (drop_bit 1 q) (Suc l) t1 = Inr (MT_SUCCESS, Some t') \<and> mt_elems t' = mt_elems t1
        \<and> levels_ok (\<lambda>j. level_nodes j ys) t'"
      using True l20 h t1(2) by (intro less.hyps) (simp_all del: node.simps)
    then show ?thesis using next_iff True c t1(1,3) by (subst update_loop.simps) (simp del: node.simps)
  next
    case False
    then have l: "l = ?m" using less.prems(1) by simp
    have n: "length xs \<le> 2 ^ l" using top_level_spec(1) [of "length xs"] assms(7) unfolding l by (cases "?m = 18") auto
    have q0: "off div 2 ^ l = 0" using assms(6) n by simp
    have "0 < level_size l (length ys)" using top_stored [of "length xs"] assms(6) len by (cases "xs = []") (simp_all add: l)
    then have "assert_top d q l t = Inr (MT_SUCCESS, Some t)"
      using less.prems(2,3) q0 level_size_le [of l "length ys"] assms(2) len
      by (intro assert_top_ok [OF less.prems(4) l20]) simp_all
    moreover have "?N l = (\<lambda>j. level_nodes j ys)"
    proof
      fix j
      show "?N l j = level_nodes j ys"
      proof (cases "j \<le> l")
        case False
        then obtain k where k: "j = Suc k" "l \<le> k" by (cases j) auto
        have "length xs \<le> 2 ^ k" by (rule le_trans [OF n]) (simp add: power_increasing k(2))
        then show ?thesis using k level_nodes_empty [of xs k] level_nodes_empty [of ys k] len by simp
      qed simp
    qed
    ultimately show ?thesis using next_iff False less.prems(4) by (subst update_loop.simps) simp
  qed
qed

lemma mt_update_ok:
  assumes "mt_ok t xs" "length (sc_block stk) = 64" "length x = 32" "unat off < length xs" "length xs \<le> 262144"
  shows "\<exists>t'. mt_update stk (Some t) (Some x) 32 off = Inr (MT_SUCCESS, Some t') \<and> mt_ok t' (xs[unat off := x])"
proof -
  let ?N = "\<lambda>j. level_nodes j xs" and ?ys = "xs[unat off := x]"
  have ok: "levels_ok ?N t" "unat (mt_elems t) = length xs" "length xs < 524288" and xs: "\<forall>y \<in> set xs. length y = 32"
    using assms(1) by (auto simp: mt_ok_def)
  have ys: "\<forall>y \<in> set ?ys. length y = 32" using xs assms(3) set_update_subset_insert [of xs "unat off" x] by auto
  have eq: "mt_update stk (Some t) (Some x) 32 off = on_level 0 (\<lambda>al. mt_al_update al (Some x) off) t (\<lambda>t. update_loop stk x off 0 t)"
    using assms(3,4) ok(2) by (simp add: mt_update_def init_hash_full word_less_nat_alt)
  have "\<exists>t1. on_level 0 (\<lambda>al. mt_al_update al (Some x) off) t (\<lambda>t. update_loop stk x off 0 t) = update_loop stk x off 0 t1
      \<and> levels_ok (?N(0 := ?ys)) t1 \<and> mt_elems t1 = mt_elems t"
  proof (rule on_level_ok [OF ok(1)])
    fix al assume "al_ok al (?N 0)"
    then show "\<exists>al'. mt_al_update (Some al) (Some x) off = Inr (MT_SUCCESS, al') \<and> al_ok al' ?ys"
      using al_ok_update [of al xs off x] ok(3) assms(4) by (simp add: level_nodes_0)
  qed simp_all
  then obtain t1 where t1: "mt_update stk (Some t) (Some x) 32 off = update_loop stk x off 0 t1"
      "levels_ok (?N(0 := ?ys)) t1" "mt_elems t1 = mt_elems t" unfolding eq by blast
  have "?N(0 := ?ys) = (\<lambda>j. if j \<le> 0 then level_nodes j ?ys else level_nodes j xs)" by (auto simp: fun_eq_iff level_nodes_0)
  then have "levels_ok (\<lambda>j. if j \<le> 0 then level_nodes j ?ys else level_nodes j xs) t1" using t1(2) by simp
  then have "\<exists>t'. update_loop stk x off 0 t1 = Inr (MT_SUCCESS, Some t') \<and> mt_elems t' = mt_elems t1 \<and> levels_ok (\<lambda>j. level_nodes j ?ys) t'"
    using assms(4) by (intro update_loop_ok [OF ok(3) assms(2) xs assms(3,4,5)]) simp_all
  then show ?thesis using t1(1,3) ok(2,3) ys by (auto simp: mt_ok_def)
qed

section \<open>Properties\<close>

text \<open>A stack context and trees to evaluate on.\<close>

lemma mt_create_ok:
  assumes "mt_create True (\<lambda>_. True) = Some t"
  shows "mt_ok t []"
proof -
  have "length (mt_level t) = 20" "mt_elems t = 0" "\<forall>j < 20. mt_level t ! j = \<lparr>al_elems = 0, al_store = AL_NULL\<rparr>"
    using assms by (auto simp: mt_create_def mt_al_create_def TREE_LEVELS_def Let_def simp del: upt_Suc upt_rec_numeral split: if_splits)
  moreover have "level_nodes j [] = []" for j using level_size_le [of j 0] by (simp add: level_nodes_def)
  ultimately show ?thesis by (simp add: mt_ok_def levels_ok_def al_ok_def)
qed

definition leaf_bytes :: "u8 \<Rightarrow> bytes" where "leaf_bytes b = replicate 32 b"

lemma three_leaves: "\<exists>t. mt_ok t [leaf_bytes 1, leaf_bytes 2, leaf_bytes 3]"
proof -
  have len: "length (leaf_bytes b) = 32" for b by (simp add: leaf_bytes_def)
  have add: "\<exists>t'. mt_ok t' (xs @ [leaf_bytes b])" if "mt_ok t xs" "length xs < 3" for t xs b
    using mt_add_ok [OF that(1), of sha_ctx_zero "\<lambda>_. True" "leaf_bytes b"] that(2) len by (auto simp: sha_ctx_zero_def)
  obtain t0 where "mt_create True (\<lambda>_. True) = Some t0"
    by (simp add: mt_create_def mt_al_create_def Let_def image_iff del: upt_Suc upt_rec_numeral)
  then have "mt_ok t0 []" by (rule mt_create_ok)
  then obtain t1 where "mt_ok t1 [leaf_bytes 1]" using add [of t0 "[]" 1] by auto
  then obtain t2 where "mt_ok t2 [leaf_bytes 1, leaf_bytes 2]" using add [of t1 "[leaf_bytes 1]" 2] by auto
  then show ?thesis using add [of t2 "[leaf_bytes 1, leaf_bytes 2]" 3] by auto
qed

text \<open>
  C21. The tree computes the Merkle root. Adding a 32-byte leaf (memory being
  available, below \<open>2^19 - 1\<close> leaves) always succeeds, keeps the invariant that each level
  stores exactly its complete nodes, and \<open>mt_get_root\<close> then returns the recursive tree hash \<open>mroot\<close> of
  the leaves: split at the largest power of two below their number, each node the SHA-256 digest of its two
  halves with no prefix, the leaves as they are given. Of more than \<open>2^18\<close> leaves only the first \<open>2^18\<close> enter the root.
\<close>

theorem merkle_root_correct:
  assumes "mt_ok t xs" "length (sc_block stk) = 64" "length x = 32" "length xs + 1 < 524288"
  shows "\<exists>t'. mt_add (\<lambda>_. True) stk (Some t) (Some x) 32 = Inr (MT_SUCCESS, Some t') \<and> mt_ok t' (xs @ [x])
    \<and> mt_get_root (Some t') = Inr (MT_SUCCESS, Some (mroot (take 262144 (xs @ [x]))))"
proof -
  obtain t' where t': "mt_add (\<lambda>_. True) stk (Some t) (Some x) 32 = Inr (MT_SUCCESS, Some t')" "mt_ok t' (xs @ [x])"
    using mt_add_ok [OF assms(1,2) _ assms(3,4), of "\<lambda>_. True"] by auto
  then show ?thesis using mt_get_root_ok [OF t'(2)] root_mroot [of "xs @ [x]"] by auto
qed

lemma merkle_root_correct_witness:
  "\<exists>t t'. mt_add (\<lambda>_. True) sha_ctx_zero (Some t) (Some (leaf_bytes 4)) 32 = Inr (MT_SUCCESS, Some t')
    \<and> mt_get_root (Some t') = Inr (MT_SUCCESS, Some (mroot [leaf_bytes 1, leaf_bytes 2, leaf_bytes 3, leaf_bytes 4]))"
proof -
  obtain t where "mt_ok t [leaf_bytes 1, leaf_bytes 2, leaf_bytes 3]" using three_leaves by blast
  from merkle_root_correct [OF this, of sha_ctx_zero "leaf_bytes 4"] show ?thesis
    by (auto simp: sha_ctx_zero_def leaf_bytes_def [of 4])
qed

text \<open>
  Without prefixes for leaves and nodes the root does not tell how many leaves there are: two leaves have the
  root of the one leaf that is their node.
\<close>

theorem merkle_root_ambiguous:
  assumes "length a = 32" "length b = 32"
  shows "mroot [a, b] = mroot [node_hash a b] \<and> length (node_hash a b) = 32"
proof -
  have "half_point 1 2 = 1" by (simp add: half_point.simps)
  then have "mroot [a, b] = node_hash (mroot [a]) (mroot [b])" by (subst mroot.simps) (simp add: Let_def numeral_2_eq_2)
  then show ?thesis using assms by (simp add: mroot.simps [of "[_]"] node_hash_def fips_digest_def)
qed

lemma merkle_root_ambiguous_witness:
  "mroot [leaf_bytes 1, leaf_bytes 2] = mroot [node_hash (leaf_bytes 1) (leaf_bytes 2)]"
  using merkle_root_ambiguous [of "leaf_bytes 1" "leaf_bytes 2"] by (simp add: leaf_bytes_def)

text \<open>
  C22. Verification is complete and sound. Of a tree of at most \<open>2^18\<close> leaves \<open>mt_verify\<close> accepts
  every leaf at its offset; and when it accepts another 32-byte tag there, the path of the tag
  meets the stored path at some level where two different inputs have the same SHA-256 digest.
\<close>

theorem merkle_verify_sound:
  assumes "mt_ok t xs" "length (sc_block stk) = 64" "unat off < length xs" "length xs \<le> 262144" "length tag = 32"
  shows "mt_verify stk (Some t) (Some (xs ! unat off)) 32 off = Inr MT_SUCCESS
    \<and> (mt_verify stk (Some t) (Some tag) 32 off = Inr MT_SUCCESS \<longrightarrow> tag = xs ! unat off \<or>
        (\<exists>l < 18. let q = unat off div 2 ^ l;
                      a = up_input l q (path_digest l (unat off) tag xs) xs;
                      b = up_input l q (node l q xs) xs
                  in a \<noteq> b \<and> fips_digest sha256_H0 32 a = fips_digest sha256_H0 32 b))"
proof -
  have ok: "levels_ok (\<lambda>j. level_nodes j xs) t" "length xs < 524288" "unat (mt_elems t) = length xs"
    and xs: "\<forall>y \<in> set xs. length y = 32" using assms(1) by (auto simp: mt_ok_def)
  let ?m = "top_level (length xs)"
  have "length xs \<le> 2 ^ ?m" using top_level_spec(1) [of "length xs"] assms(4) by (cases "?m = 18") auto
  then have q0: "unat off div 2 ^ ?m = 0" using assms(3) by simp
  have sz: "0 < level_size ?m (length xs)" using top_stored [of "length xs"] assms(3) by (cases "xs = []") simp_all
  have v: "mt_verify stk (Some t) (Some y) 32 off =
      Inr (if path_digest ?m (unat off) y xs = node ?m 0 xs then MT_SUCCESS else MT_ERR_ROOT_MISMATCH)" if "length y = 32" for y
    using verify_loop_ok [OF ok(1,2) assms(2) xs that assms(3), of 0 off] that assms(3) ok(3) q0 sz
    by (simp add: mt_verify_def init_hash_full word_less_nat_alt Let_def)
  have leaf: "length (xs ! unat off) = 32" using xs assms(3) by simp
  have "path_digest ?m (unat off) (xs ! unat off) xs = node ?m 0 xs" using path_digest_leaf [OF assms(3), of ?m] q0 by simp
  then have acc: "mt_verify stk (Some t) (Some (xs ! unat off)) 32 off = Inr MT_SUCCESS" using v [OF leaf] by simp
  have col: "\<exists>l < 18. let q = unat off div 2 ^ l; a = up_input l q (path_digest l (unat off) tag xs) xs;
        b = up_input l q (node l q xs) xs in a \<noteq> b \<and> fips_digest sha256_H0 32 a = fips_digest sha256_H0 32 b"
    if top: "path_digest ?m (unat off) tag xs = node ?m 0 xs" and ne: "tag \<noteq> xs ! unat off"
  proof -
    have "path_digest ?m (unat off) tag xs = node ?m (unat off div 2 ^ ?m) xs" using top q0 by simp
    from path_meets [OF this assms(3) ne] obtain l where l: "l < ?m"
      "up_input l (unat off div 2 ^ l) (path_digest l (unat off) tag xs) xs \<noteq> up_input l (unat off div 2 ^ l) (node l (unat off div 2 ^ l) xs) xs"
      "fips_digest sha256_H0 32 (up_input l (unat off div 2 ^ l) (path_digest l (unat off) tag xs) xs)
        = fips_digest sha256_H0 32 (up_input l (unat off div 2 ^ l) (node l (unat off div 2 ^ l) xs) xs)" by blast
    then have "l < 18" using top_level_spec(3) [of "length xs"] by simp
    then show ?thesis unfolding Let_def using l(2,3) by blast
  qed
  have "path_digest ?m (unat off) tag xs = node ?m 0 xs" if "mt_verify stk (Some t) (Some tag) 32 off = Inr MT_SUCCESS"
    using that v [OF assms(5)] by (simp split: if_splits)
  then show ?thesis using acc col by blast
qed

lemma merkle_verify_sound_witness:
  "\<exists>t. mt_verify sha_ctx_zero (Some t) (Some (leaf_bytes 3)) 32 2 = Inr MT_SUCCESS"
proof -
  obtain t where "mt_ok t [leaf_bytes 1, leaf_bytes 2, leaf_bytes 3]" using three_leaves by blast
  from merkle_verify_sound [OF this, of sha_ctx_zero 2 "leaf_bytes 3"] show ?thesis
    by (auto simp: sha_ctx_zero_def leaf_bytes_def)
qed

text \<open>
  Updating: on a tree of at most \<open>2^18\<close> leaves \<open>mt_update\<close> replaces the leaf at the offset,
  restores the invariant, and the root becomes the tree hash of the changed leaves. An offset
  beyond the leaves is refused and nothing changes.
\<close>

theorem merkle_update_correct:
  assumes "mt_ok t xs" "length (sc_block stk) = 64" "length x = 32" "length xs \<le> 262144"
  shows "(unat off < length xs \<longrightarrow>
      (\<exists>t'. mt_update stk (Some t) (Some x) 32 off = Inr (MT_SUCCESS, Some t') \<and> mt_ok t' (xs[unat off := x])
        \<and> mt_get_root (Some t') = Inr (MT_SUCCESS, Some (mroot (xs[unat off := x])))))
    \<and> (length xs \<le> unat off \<longrightarrow> mt_update stk (Some t) (Some x) 32 off = Inr (MT_ERR_ILLEGAL_PARAM, Some t))"
proof (intro conjI impI)
  assume lt: "unat off < length xs"
  obtain t' where t': "mt_update stk (Some t) (Some x) 32 off = Inr (MT_SUCCESS, Some t')" "mt_ok t' (xs[unat off := x])"
    using mt_update_ok [OF assms(1-3) lt assms(4)] by blast
  have "xs[unat off := x] \<noteq> []" using lt by auto
  then have "mt_get_root (Some t') = Inr (MT_SUCCESS, Some (mroot (take 262144 (xs[unat off := x]))))"
    using mt_get_root_ok [OF t'(2)] root_mroot [of "xs[unat off := x]"] by simp
  then show "\<exists>t'. mt_update stk (Some t) (Some x) 32 off = Inr (MT_SUCCESS, Some t') \<and> mt_ok t' (xs[unat off := x])
        \<and> mt_get_root (Some t') = Inr (MT_SUCCESS, Some (mroot (xs[unat off := x])))" using t' assms(4) by simp
next
  assume "length xs \<le> unat off"
  then have "\<not> off < mt_elems t" using assms(1) by (simp add: mt_ok_def word_less_nat_alt)
  then show "mt_update stk (Some t) (Some x) 32 off = Inr (MT_ERR_ILLEGAL_PARAM, Some t)" by (simp add: mt_update_def)
qed

lemma merkle_update_correct_witness:
  "\<exists>t t'. mt_update sha_ctx_zero (Some t) (Some (leaf_bytes 9)) 32 2 = Inr (MT_SUCCESS, Some t')
    \<and> mt_get_root (Some t') = Inr (MT_SUCCESS, Some (mroot [leaf_bytes 1, leaf_bytes 2, leaf_bytes 9]))"
proof -
  obtain t where "mt_ok t [leaf_bytes 1, leaf_bytes 2, leaf_bytes 3]" using three_leaves by blast
  from merkle_update_correct [OF this, of sha_ctx_zero "leaf_bytes 9" 2] show ?thesis
    by (auto simp: sha_ctx_zero_def leaf_bytes_def [of 9])
qed

lemma trees_of_any_size: "n < 524288 \<Longrightarrow> \<exists>t. mt_ok t (replicate n (leaf_bytes 1))"
proof (induction n)
  case 0
  obtain t0 where "mt_create True (\<lambda>_. True) = Some t0"
    by (simp add: mt_create_def mt_al_create_def Let_def image_iff del: upt_Suc upt_rec_numeral)
  then show ?case using mt_create_ok by (intro exI [of _ t0]) simp
next
  case (Suc n)
  then obtain t where t: "mt_ok t (replicate n (leaf_bytes 1))" by auto
  obtain t' where "mt_ok t' (replicate n (leaf_bytes 1) @ [leaf_bytes 1])"
    using mt_add_ok [OF t, of sha_ctx_zero "\<lambda>_. True" "leaf_bytes 1"] Suc.prems by (auto simp: sha_ctx_zero_def leaf_bytes_def)
  then show ?case by (auto simp: replicate_append_same)
qed

text \<open>
  Where the top level is too low: of a tree with more than \<open>2^18\<close> and at most \<open>3 * 2^17\<close>
  leaves the offsets from \<open>2^18\<close> on have no node at level 18, the highest one that
  \<open>hasNextLevelExceptRoot\<close> admits, so \<open>mt_verify\<close> compares with a null pointer there.
\<close>

theorem merkle_verify_large_tree:
  assumes "mt_ok t xs" "length (sc_block stk) = 64" "length tag = 32"
    and "length xs \<le> 393216" "262144 \<le> unat off" "unat off < length xs"
  shows "mt_verify stk (Some t) (Some tag) 32 off = Inl NullDeref"
proof -
  have ok: "levels_ok (\<lambda>j. level_nodes j xs) t" "length xs < 524288" "unat (mt_elems t) = length xs"
    and xs: "\<forall>y \<in> set xs. length y = 32" using assms(1) by (auto simp: mt_ok_def)
  let ?m = "top_level (length xs)"
  have m: "?m = 18"
  proof (rule ccontr)
    assume "?m \<noteq> 18"
    then have "length xs \<le> 2 ^ ?m" "?m \<le> 18" using top_level_spec(1,3) [of "length xs"] by auto
    moreover have "(2::nat) ^ ?m \<le> 2 ^ 18" using \<open>?m \<le> 18\<close> by (rule power_increasing) simp
    ultimately show False using assms(5,6) by simp
  qed
  have "(1::nat) * 2 ^ 18 \<le> unat off" using assms(5) by simp
  then have d: "1 \<le> unat off div 2 ^ 18" by (subst less_eq_div_iff_mult_less_eq) simp_all
  have "(2 * 1 + 1) * 2 ^ 17 = (393216::nat)" by simp
  then have "\<not> 1 < level_size (Suc 17) (length xs)" unfolding level_size_less using assms(4) by linarith
  moreover have "Suc 17 = 18" by simp
  ultimately have "\<not> 1 < level_size 18 (length xs)" by metis
  then have "\<not> unat off div 2 ^ ?m < level_size ?m (length xs)" using d unfolding m by linarith
  then show ?thesis
    using verify_loop_ok [OF ok(1,2) assms(2) xs assms(3,6), of 0 off] assms(3,6) ok(3)
    by (simp add: mt_verify_def init_hash_full word_less_nat_alt Let_def)
qed

lemma merkle_verify_large_tree_witness:
  "\<exists>t. unat (mt_elems t) = 262145 \<and> mt_verify sha_ctx_zero (Some t) (Some (leaf_bytes 1)) 32 262144 = Inl NullDeref"
proof -
  obtain n :: nat where n: "n = 262145" by blast
  obtain t where t: "mt_ok t (replicate n (leaf_bytes 1))" using trees_of_any_size [of n] n by fastforce
  then have "unat (mt_elems t) = n" unfolding mt_ok_def by (simp only: length_replicate)
  moreover have "mt_verify sha_ctx_zero (Some t) (Some (leaf_bytes 1)) 32 262144 = Inl NullDeref"
    by (rule merkle_verify_large_tree [OF t])
      (simp add: sha_ctx_zero_def, simp add: leaf_bytes_def, simp_all only: length_replicate n, simp_all)
  ultimately show ?thesis using n by blast
qed

end
