(* ===== verification/PriorityQueue.thy ===== *)
theory PriorityQueue
  imports Prelude
begin

text \<open>
  \<open>std::priority_queue\<close> with a comparator, as the block storage and the communication controller
  use it. The content is a list of keys; \<open>top\<close> is one of the elements that the comparator puts
  below no other. Which of them, when there are several, is up to the implementation of the
  heap, so the choice is a parameter: any function from the keys to an index.
\<close>

section \<open>Operations\<close>

definition on_top :: "('a \<Rightarrow> 'a \<Rightarrow> bool) \<Rightarrow> 'a list \<Rightarrow> nat \<Rightarrow> bool" where
  "on_top below ks i \<longleftrightarrow> i < length ks \<and> (\<forall>k \<in> set ks. \<not> below (ks ! i) k)"

text \<open>The choice of the heap where it is a top element, else the first one that is.\<close>

definition pq_top :: "('a \<Rightarrow> 'a \<Rightarrow> bool) \<Rightarrow> ('a list \<Rightarrow> nat) \<Rightarrow> 'a list \<Rightarrow> nat" where
  "pq_top below choice ks = (if on_top below ks (choice ks) then choice ks
     else length (takeWhile (\<lambda>i. \<not> on_top below ks i) [0..<length ks]))"

lemma mset_take_drop: "i < length q \<Longrightarrow> mset q = add_mset (q ! i) (mset (take i q @ drop (Suc i) q))"
  by (metis id_take_nth_drop mset.simps(2) mset_append union_mset_add_mset_right)

lemma set_take_drop: "i < length q \<Longrightarrow> set q = insert (q ! i) (set (take i q @ drop (Suc i) q))"
  by (drule mset_take_drop, drule arg_cong [of _ _ set_mset]) simp

section \<open>Comparators\<close>

text \<open>What the standard library asks of a comparator, and what the heap then promises.\<close>

locale comparator =
  fixes below :: "'a \<Rightarrow> 'a \<Rightarrow> bool"
  assumes below_irrefl: "\<not> below a a"
    and below_trans: "below a b \<Longrightarrow> below b c \<Longrightarrow> below a c"
    and incomparable: "below a c \<Longrightarrow> below a b \<or> below b c"
begin

lemma exists_top: "ks \<noteq> [] \<Longrightarrow> \<exists>i. on_top below ks i"
proof (induction ks)
  case (Cons a ks)
  show ?case
  proof (cases "ks = []")
    case False
    then obtain i where i: "i < length ks" "\<forall>k \<in> set ks. \<not> below (ks ! i) k" using Cons.IH by (auto simp: on_top_def)
    show ?thesis
    proof (cases "below (ks ! i) a")
      case True
      then have "\<forall>k \<in> set ks. \<not> below a k" using i(2) below_trans by blast
      then show ?thesis using below_irrefl by (intro exI [of _ 0]) (simp add: on_top_def)
    qed (use i in \<open>auto simp: on_top_def intro: exI [of _ "Suc i"]\<close>)
  qed (use below_irrefl in \<open>auto simp: on_top_def intro: exI [of _ 0]\<close>)
qed simp

lemma top_on_top: "ks \<noteq> [] \<Longrightarrow> on_top below ks (pq_top below choice ks)"
proof (cases "on_top below ks (choice ks)")
  case False
  assume "ks \<noteq> []"
  then obtain i where i: "on_top below ks i" using exists_top by blast
  let ?n = "length (takeWhile (\<lambda>i. \<not> on_top below ks i) [0..<length ks])"
  have "i \<in> set [0..<length ks]" using i by (simp add: on_top_def)
  then have n: "?n < length [0..<length ks]" using i
    by (metis (mono_tags, lifting) length_takeWhile_le le_neq_implies_less set_takeWhileD takeWhile_eq_take take_all_iff le_refl)
  have "\<not> \<not> on_top below ks ([0..<length ks] ! ?n)" by (rule nth_length_takeWhile [OF n])
  then show ?thesis using False n by (simp add: pq_top_def)
qed (simp add: pq_top_def)

lemma top_less: "ks \<noteq> [] \<Longrightarrow> pq_top below choice ks < length ks"
  using top_on_top by (simp add: on_top_def)

lemma top_max: "k \<in> set ks \<Longrightarrow> \<not> below (ks ! pq_top below choice ks) k"
  using top_on_top [of ks choice] by (cases "ks = []") (auto simp: on_top_def)

lemma top_single: "pq_top below choice [k] = 0"
  using top_less [of "[k]" choice] by simp

text \<open>Popping after popping: what comes later is not above what came before.\<close>

lemma top_before:
  assumes "\<not> below a b" "\<not> below b c"
  shows "\<not> below a c"
  using assms incomparable by blast

end

end
