(* ===== verification/Wire.thy ===== *)
theory Wire
  imports Messages
begin

text \<open>
  A self-delimiting wire format for the messages. The protobuf runtime is not part of the
  repository, so the codecs are parameters of every model that serialises; what they promise is
  a hypothesis (\<open>parse (serialise m) = Some m\<close>). This theory is the concrete instance that
  shows those hypotheses can hold. It models no code.
\<close>

section \<open>Lists of strings\<close>

text \<open>Each character follows an \<open>x\<close>, each string ends with a \<open>y\<close>.\<close>

definition wire_str :: "string \<Rightarrow> string" where
  "wire_str s = concat (map (\<lambda>c. [CHR ''x'', c]) s) @ [CHR ''y'']"

definition wire_strs :: "string list \<Rightarrow> string" where
  "wire_strs ss = concat (map wire_str ss)"

fun unwire_strs :: "string \<Rightarrow> string list option" where
  "unwire_strs [] = Some []"
| "unwire_strs [m] = (if m = CHR ''y'' then Some [[]] else None)"
| "unwire_strs (m # c # r) =
     (if m = CHR ''y'' then map_option (Cons []) (unwire_strs (c # r))
      else case unwire_strs r of Some (s # ss) \<Rightarrow> Some ((c # s) # ss) | _ \<Rightarrow> None)"

lemma unwire_y: "unwire_strs (CHR ''y'' # t) = map_option (Cons []) (unwire_strs t)"
  by (cases t) auto

lemma unwire_str: "unwire_strs t = Some ss \<Longrightarrow> unwire_strs (wire_str s @ t) = Some (s # ss)"
  by (induction s) (auto simp: wire_str_def unwire_y)

lemma unwire_wire [simp]: "unwire_strs (wire_strs ss) = Some ss"
  by (induction ss) (auto simp: wire_strs_def unwire_str)

section \<open>Numbers\<close>

definition wire_num :: "'a::len word \<Rightarrow> string" where
  "wire_num n = replicate (unat n) (CHR ''1'')"

definition unwire_num :: "string \<Rightarrow> 'a::len word" where
  "unwire_num s = of_nat (length s)"

lemma unwire_wire_num [simp]: "unwire_num (wire_num n) = n"
  by (simp add: unwire_num_def wire_num_def)

text \<open>A number in front of other data.\<close>

definition wire_varint :: "u64 \<Rightarrow> string" where
  "wire_varint n = wire_num n @ ''0''"

definition unwire_varint :: "string \<Rightarrow> (u64 \<times> string) option" where
  "unwire_varint s = (let (a, b) = (takeWhile (\<lambda>c. c = CHR ''1'') s, dropWhile (\<lambda>c. c = CHR ''1'') s)
     in if b = [] then None else Some (unwire_num a, drop 1 b))"

lemma unwire_wire_varint [simp]: "unwire_varint (wire_varint n @ s) = Some (n, s)"
proof -
  have "takeWhile (\<lambda>c. c = CHR ''1'') (replicate k (CHR ''1'') @ CHR ''0'' # s) = replicate k (CHR ''1'')"
    "dropWhile (\<lambda>c. c = CHR ''1'') (replicate k (CHR ''1'') @ CHR ''0'' # s) = CHR ''0'' # s" for k
    by (induction k) auto
  then show ?thesis by (simp add: unwire_varint_def wire_varint_def wire_num_def unwire_num_def)
qed

section \<open>Messages\<close>

definition wire_payload :: "payload \<Rightarrow> string" where
  "wire_payload p = wire_strs [pl_header p, pl_payload p, wire_num (pl_nonce p), pl_digest p]"

definition unwire_payload :: "string \<Rightarrow> payload option" where
  "unwire_payload s = (case unwire_strs s of
     Some [a, b, n, d] \<Rightarrow> Some \<lparr>pl_header = a, pl_payload = b, pl_nonce = unwire_num n, pl_digest = d\<rparr>
   | _ \<Rightarrow> None)"

lemma unwire_wire_payload [simp]: "unwire_payload (wire_payload p) = Some p"
  by (simp add: unwire_payload_def wire_payload_def)

definition flat_read :: "kv_read \<Rightarrow> string list" where
  "flat_read r = [''r'', rd_table r, rd_key r, rd_value r]"

definition flat_write :: "kv_write \<Rightarrow> string list" where
  "flat_write w = [if wr_is_delete w then ''d'' else ''w'', wr_table w, wr_key w, wr_value w]"

fun unflat :: "string list \<Rightarrow> kv_rwset option" where
  "unflat [] = Some rwset_empty"
| "unflat (m # t # k # v # ss) = (case unflat ss of None \<Rightarrow> None
     | Some s \<Rightarrow> Some (if m = ''r'' then s\<lparr>rw_reads := \<lparr>rd_table = t, rd_key = k, rd_value = v\<rparr> # rw_reads s\<rparr>
         else s\<lparr>rw_writes := \<lparr>wr_table = t, wr_key = k, wr_is_delete = (m = ''d''), wr_value = v\<rparr> # rw_writes s\<rparr>))"
| "unflat _ = None"

definition wire_rwset :: "kv_rwset \<Rightarrow> string" where
  "wire_rwset s = wire_strs (concat (map flat_read (rw_reads s)) @ concat (map flat_write (rw_writes s)))"

definition unwire_rwset :: "string \<Rightarrow> kv_rwset option" where
  "unwire_rwset s = Option.bind (unwire_strs s) unflat"

lemma unflat_writes: "unflat (concat (map flat_write ws)) = Some \<lparr>rw_reads = [], rw_writes = ws\<rparr>"
  by (induction ws) (simp_all add: flat_write_def rwset_empty_def)

lemma unflat_reads: "unflat ss = Some s \<Longrightarrow>
    unflat (concat (map flat_read rs) @ ss) = Some (s\<lparr>rw_reads := rs @ rw_reads s\<rparr>)"
  by (induction rs) (simp_all add: flat_read_def)

lemma unwire_wire_rwset [simp]: "unwire_rwset (wire_rwset s) = Some s"
  by (simp add: unwire_rwset_def wire_rwset_def unflat_reads [OF unflat_writes])

text \<open>Block data and metadata are lists of strings.\<close>

definition wire_block :: "block \<Rightarrow> string" where
  "wire_block b = wire_strs [wire_num (bh_number (bk_header b)), bh_previous_hash (bk_header b),
     bh_data_hash (bk_header b), wire_strs (bk_data b), wire_strs (bk_metadata b)]"

definition unwire_block :: "string \<Rightarrow> block option" where
  "unwire_block s = (case unwire_strs s of
     Some [n, p, d, x, y] \<Rightarrow> (case (unwire_strs x, unwire_strs y) of
        (Some ds, Some ms) \<Rightarrow> Some \<lparr>bk_header = \<lparr>bh_number = unwire_num n, bh_previous_hash = p, bh_data_hash = d\<rparr>,
          bk_data = ds, bk_metadata = ms\<rparr>
      | _ \<Rightarrow> None)
   | _ \<Rightarrow> None)"

lemma unwire_wire_block [simp]: "unwire_block (wire_block b) = Some b"
  by (simp add: unwire_block_def wire_block_def)

end
