(* ===== verification/TransactionCodec.thy ===== *)
theory TransactionCodec
  imports Transaction Sha256 Wire
begin

text \<open>
  \<open>MockTransaction::serializeToString\<close> and \<open>deserializeFromString\<close> (\<open>mock_transaction.cpp\<close>):
  the transaction id, the epoch, payload and read-write set with their sizes, and the SHA-256
  digest of all that. The input and coded streams and the two message serialisers belong to protobuf and
  are parameters.
\<close>

record tr_codec =
  co_stream :: "string \<Rightarrow> int \<Rightarrow> string"
  co_write_varint :: "u64 \<Rightarrow> string"
  co_read_varint :: "string \<Rightarrow> (u64 \<times> string) option"
  co_ser_payload :: "payload \<Rightarrow> string"
  co_parse_payload :: "string \<Rightarrow> payload option"
  co_ser_rwset :: "kv_rwset \<Rightarrow> string"
  co_parse_rwset :: "string \<Rightarrow> kv_rwset option"

text \<open>
  The documented behaviour: an \<open>ArrayInputStream\<close> of a size within the array has that many of its bytes, and what
  is written is read back, whatever follows a varint. Of a negative size nothing is said.
\<close>

definition codec_ok :: "tr_codec \<Rightarrow> bool" where
  "codec_ok co \<longleftrightarrow> (\<forall>s n. 0 \<le> n \<longrightarrow> n \<le> int (length s) \<longrightarrow> co_stream co s n = take (nat n) s)
     \<and> (\<forall>n s. co_read_varint co (co_write_varint co n @ s) = Some (n, s))
     \<and> (\<forall>p. co_parse_payload co (co_ser_payload co p) = Some p)
     \<and> (\<forall>s. co_parse_rwset co (co_ser_rwset co s) = Some s)"

section \<open>Writing\<close>

definition tr_body :: "tr_codec \<Rightarrow> transaction \<Rightarrow> string" where
  "tr_body co t =
     (let pl = co_ser_payload co (tr_payload t); rw = co_ser_rwset co (tr_rwset t) in
      co_write_varint co (ucast (tr_tid t)) @ co_write_varint co (ucast (tr_epoch t))
      @ co_write_varint co (of_nat (length pl)) @ pl @ co_write_varint co (of_nat (length rw)) @ rw)"

definition serializeToString :: "tr_codec \<Rightarrow> transaction \<Rightarrow> bool \<times> string" where
  "serializeToString co t =
     (let raw = tr_body co t; (ok, d, c) = helper_hash_digest raw sha_ctx_zero
      in if \<not> ok then (False, raw) else (True, raw @ d))"

section \<open>Reading\<close>

text \<open>
  \<open>ReadString(&s, n)\<close> takes an \<open>int\<close>: the 64-bit size is cut to 32 bits, and a negative size or
  one beyond the end of the input fails. A failing read leaves what was assigned before it.
\<close>

definition read_string :: "u64 \<Rightarrow> string \<Rightarrow> (string \<times> string) option" where
  "read_string n s = (let k = sint (ucast n :: u32) in
     if k < 0 \<or> int (length s) < k then None else Some (take (nat k) s, drop (nat k) s))"

definition read_tr_hash :: "string \<Rightarrow> bool" where
  "read_tr_hash s \<longleftrightarrow> read_string 32 s \<noteq> None"

definition read_rwset :: "tr_codec \<Rightarrow> string \<Rightarrow> transaction \<Rightarrow> (bool \<times> transaction) res" where
  "read_rwset co s t =
     (case co_read_varint co s of None \<Rightarrow> Inr (False, t) | Some (n, s1) \<Rightarrow>
      case read_string n s1 of None \<Rightarrow> Inr (False, t) | Some (raw, s2) \<Rightarrow>
      case co_parse_rwset co raw of None \<Rightarrow> Inl CheckFailed
      | Some rw \<Rightarrow> Inr (read_tr_hash s2, t\<lparr>tr_rwset := rw\<rparr>))"

definition read_payload :: "tr_codec \<Rightarrow> string \<Rightarrow> transaction \<Rightarrow> (bool \<times> transaction) res" where
  "read_payload co s t =
     (case co_read_varint co s of None \<Rightarrow> Inr (False, t) | Some (n, s1) \<Rightarrow>
      case read_string n s1 of None \<Rightarrow> Inr (False, t) | Some (raw, s2) \<Rightarrow>
      case co_parse_payload co raw of None \<Rightarrow> Inl CheckFailed
      | Some pl \<Rightarrow> read_rwset co s2 (t\<lparr>tr_payload := pl\<rparr>))"

text \<open>The constructor of \<open>ArrayInputStream\<close> takes the size of the string as an \<open>int\<close>.\<close>

definition deserializeFromString :: "tr_codec \<Rightarrow> string \<Rightarrow> transaction \<Rightarrow> (bool \<times> transaction) res" where
  "deserializeFromString co s t =
     (case co_read_varint co (co_stream co s (sint (of_nat (length s) :: u32))) of None \<Rightarrow> Inr (False, t) | Some (tid, s1) \<Rightarrow>
      let t1 = setTransactionID (ucast tid) t in
      case co_read_varint co s1 of None \<Rightarrow> Inr (False, t1) | Some (ep, s2) \<Rightarrow>
      read_payload co s2 (setEpoch (ucast ep) t1))"

section \<open>Lemmas\<close>

lemma read_string_exact:
  assumes "length a < 2 ^ 31"
  shows "read_string (of_nat (length a)) (a @ s) = Some (a, s)"
proof -
  have "sint (ucast (of_nat (length a) :: u64) :: u32) = int (length a)"
  proof -
    have "(ucast (of_nat (length a) :: u64) :: u32) = of_nat (length a)"
      by (rule bit_word_eqI) (auto simp: bit_simps)
    moreover have "sint (of_nat (length a) :: u32) = int (length a)"
      using assms by (simp add: signed_of_nat signed_take_bit_int_eq_self_iff)
    ultimately show ?thesis by simp
  qed
  then show ?thesis by (simp add: read_string_def)
qed

lemma read_tr_hash_iff: "read_tr_hash s \<longleftrightarrow> 32 \<le> length s"
proof -
  have "sint (ucast (32 :: u64) :: u32) = 32" by (simp add: unsigned_ucast_eq)
  then show ?thesis by (simp add: read_tr_hash_def read_string_def Let_def not_less)
qed

lemma whole_stream:
  assumes "codec_ok co" "length s < 2 ^ 31"
  shows "co_stream co s (sint (of_nat (length s) :: u32)) = s"
proof -
  have "sint (of_nat (length s) :: u32) = int (length s)" using assms(2) by (simp add: signed_of_nat signed_take_bit_int_eq_self_iff)
  then show ?thesis using assms(1) by (simp add: codec_ok_def)
qed

lemma body_parts:
  "length (co_ser_payload co (tr_payload t)) \<le> length (tr_body co t)" "length (co_ser_rwset co (tr_rwset t)) \<le> length (tr_body co t)"
  by (simp_all add: tr_body_def Let_def)

lemma deserialize_body:
  assumes ok: "codec_ok co" and len: "length (tr_body co t) + length d < 2 ^ 31"
  shows "deserializeFromString co (tr_body co t @ d) u =
     Inr (32 \<le> length d, t\<lparr>tr_res := tr_res u\<rparr>)"
proof -
  have v: "co_read_varint co (co_write_varint co n @ s) = Some (n, s)" for n s
    using ok by (simp add: codec_ok_def)
  have p: "co_parse_payload co (co_ser_payload co p) = Some p"
    and w: "co_parse_rwset co (co_ser_rwset co r) = Some r" for p r using ok by (simp_all add: codec_ok_def)
  have uu: "(ucast (ucast x :: u64) :: u32) = x" for x :: u32
    by (rule bit_word_eqI) (auto simp: bit_simps)
  have l: "length (co_ser_payload co (tr_payload t)) < 2 ^ 31" "length (co_ser_rwset co (tr_rwset t)) < 2 ^ 31"
    using body_parts [of co t] len by linarith+
  have s: "co_stream co (tr_body co t @ d) (sint (of_nat (length (tr_body co t @ d)) :: u32)) = tr_body co t @ d"
    using len by (intro whole_stream [OF ok]) simp
  show ?thesis
    unfolding deserializeFromString_def s
    by (simp add: tr_body_def Let_def read_payload_def read_rwset_def v
        read_string_exact [OF l(1)] read_string_exact [OF l(2)] p w read_tr_hash_iff setEpoch_def
        setTransactionID_def uu)
qed

lemma serialize_ok:
  assumes "length (tr_body co t) < 2 ^ 32"
  shows "serializeToString co t = (True, tr_body co t @ sha256_string (tr_body co t))"
proof -
  have c: "length (sc_block sha_ctx_zero) = 64" by (simp add: sha_ctx_zero_def)
  obtain c1 where "helper_hash_digest (tr_body co t) sha_ctx_zero = (True, sha256_string (tr_body co t), c1)"
    using helper_hash_digest_eq [OF c assms] by blast
  then show ?thesis by (simp add: serializeToString_def Let_def)
qed

definition wire_codec :: tr_codec where
  "wire_codec = \<lparr>co_stream = (\<lambda>s n. take (nat n) s), co_write_varint = wire_varint, co_read_varint = unwire_varint, co_ser_payload = wire_payload,
     co_parse_payload = unwire_payload, co_ser_rwset = wire_rwset, co_parse_rwset = unwire_rwset\<rparr>"

lemma wire_codec_ok: "codec_ok wire_codec"
  by (simp add: codec_ok_def wire_codec_def)

section \<open>Properties\<close>

text \<open>
  C30. A transaction survives the round trip, as long as it has less than \<open>2 ^ 31\<close> bytes with its digest, the sizes the \<open>int\<close>
  arguments of the streams can take: serialising it succeeds, and deserialising the result into any transaction object succeeds
  and yields the same id, epoch, payload and read-write set; only the result field, which is
  not written, is the old one of the object.
\<close>

theorem transaction_round_trip:
  assumes "codec_ok co" "length (tr_body co t) + 32 < 2 ^ 31"
  shows "\<exists>raw. serializeToString co t = (True, raw) \<and>
     deserializeFromString co raw u = Inr (True, t\<lparr>tr_res := tr_res u\<rparr>)"
  using serialize_ok [of co t] deserialize_body [OF assms(1), of t "sha256_string (tr_body co t)" u] assms(2)
  by (simp add: sha256_string_length)

lemma small_body: "length (tr_body wire_codec (mock_transaction 3 1)) + 32 < 2 ^ 31"
  by (simp add: wire_payload_def wire_rwset_def payload_empty_def rwset_empty_def wire_strs_def wire_str_def
      wire_num_def tr_body_def wire_codec_def mock_transaction_def wire_varint_def)

lemma transaction_round_trip_witness:
  "\<exists>raw. serializeToString wire_codec (mock_transaction 3 1) = (True, raw)
     \<and> deserializeFromString wire_codec raw mock_transaction_default = Inr (True, mock_transaction 3 1)"
  using transaction_round_trip [OF wire_codec_ok small_body, of mock_transaction_default]
  by (simp add: mock_transaction_def mock_transaction_default_def)

text \<open>
  The digest is written but never compared: after the fields of a transaction any 32 bytes
  are accepted, so a corrupted transaction deserialises with success as the corrupted one. With
  fewer than 32 bytes the call reports failure although all fields have been assigned.
\<close>

theorem deserialize_ignores_digest:
  assumes "codec_ok co" "length (tr_body co t) + length d < 2 ^ 31" "length (tr_body co t) + 32 < 2 ^ 31"
  shows "deserializeFromString co (tr_body co t @ d) u = Inr (length d \<ge> 32, t\<lparr>tr_res := tr_res u\<rparr>)
    \<and> deserializeFromString co (tr_body co t @ sha256_string (tr_body co v)) u = Inr (True, t\<lparr>tr_res := tr_res u\<rparr>)"
  using deserialize_body [OF assms(1,2), of u] deserialize_body [OF assms(1), of t "sha256_string (tr_body co v)" u] assms(3)
  by (simp add: sha256_string_length)

lemma deserialize_ignores_digest_witness:
  "deserializeFromString wire_codec (tr_body wire_codec (mock_transaction 3 1) @ replicate 32 (CHR ''?'')) mock_transaction_default
     = Inr (True, mock_transaction 3 1)"
  using deserialize_ignores_digest [OF wire_codec_ok _ small_body, of "replicate 32 (CHR ''?'')" mock_transaction_default] small_body
  by (simp add: mock_transaction_def mock_transaction_default_def)

end
