(* ===== verification/BlockStorage.thy ===== *)
theory BlockStorage
  imports PriorityQueue TransactionCodec CryptoSign MerkleProof Decimal
begin

text \<open>
  \<open>BlockStorageToFile\<close> (\<open>block_storage_to_file.cpp\<close>), the only implementation of
  \<open>BlockStorage\<close>: blocks are files named by their number, \<open>block_num.txt\<close> holds the number of
  the last one. Pending transactions wait in a priority queue by transaction id. The mutex only
  serialises the file operations; the file streams throw nothing, so the \<open>catch\<close> branches are
  not reached.

  Parameters are the OpenSSL calls, the transaction codec, the serialisers of the block
  messages, which files can be opened, the numbers of the result enumerators (their header is
  not in the repository), the memory the Merkle tree gets, and which of several transactions
  with the greatest id the heap has on top.
\<close>

section \<open>State\<close>

record ('c, 'k) storage_env =
  se_ssl :: "('c, 'k) openssl"
  se_codec :: tr_codec
  se_ser_data :: "string list \<Rightarrow> string"
  se_ser_meta :: "string list \<Rightarrow> string"
  se_ser_block :: "block \<Rightarrow> string option"
  se_parse_block :: "string \<Rightarrow> bool \<times> block"
  se_writable :: "string \<Rightarrow> bool"
  se_readable :: "string \<Rightarrow> bool"
  se_result_char :: "tr_result \<Rightarrow> char"
  se_top :: "u32 list \<Rightarrow> nat"
  se_stack :: sha_ctx
  se_tree_mem :: bool
  se_level_mem :: "nat \<Rightarrow> bool"
  se_slot_mem :: "nat \<Rightarrow> nat \<Rightarrow> bool"
  se_uninit :: int

record ('c, 'k) block_storage =
  bst_queue :: "tptr list"
  bst_hash :: sha_ctx
  bst_sign :: "('c, 'k) crypto_sign"
  bst_files :: files

section \<open>Files\<close>

definition num_file :: string where "num_file = ''block_num.txt''"

definition block_file :: "u64 \<Rightarrow> string" where "block_file n = to_string (sint n) @ ''.bin''"

definition initFunc :: "('c, 'k) storage_env \<Rightarrow> files \<Rightarrow> files" where
  "initFunc ev fs = (if \<not> se_writable ev num_file then fs else fs(num_file \<mapsto> to_string 0))"

definition new_block_storage :: "('c, 'k) storage_env \<Rightarrow> 'c \<Rightarrow> files \<Rightarrow> string \<Rightarrow> string \<Rightarrow> bool
    \<Rightarrow> ('c, 'k) block_storage" where
  "new_block_storage ev ctx fs usrPub pri resetEpoch =
     \<lparr>bst_queue = [], bst_hash = sha_ctx_zero, bst_sign = new_crypto_sign (se_ssl ev) ctx fs usrPub pri [],
      bst_files = (if resetEpoch then initFunc ev fs else fs)\<rparr>"

text \<open>A block that does not serialise leaves its truncated file behind.\<close>

definition insertBlock :: "('c, 'k) storage_env \<Rightarrow> block \<Rightarrow> ('c, 'k) block_storage
    \<Rightarrow> bool \<times> ('c, 'k) block_storage" where
  "insertBlock ev b s =
     (let f = block_file (bh_number (bk_header b)) in
      if \<not> se_writable ev f then (False, s)
      else case se_ser_block ev b of
        None \<Rightarrow> (False, s\<lparr>bst_files := (bst_files s)(f \<mapsto> [])\<rparr>)
      | Some t \<Rightarrow> (True, s\<lparr>bst_files := (bst_files s)(f \<mapsto> t)\<rparr>))"

definition loadBlock :: "('c, 'k) storage_env \<Rightarrow> block \<Rightarrow> ('c, 'k) block_storage \<Rightarrow> bool \<times> block" where
  "loadBlock ev b s =
     (let f = block_file (bh_number (bk_header b)) in
      case bst_files s f of None \<Rightarrow> (False, b)
      | Some t \<Rightarrow> if \<not> se_readable ev f then (False, b) else se_parse_block ev t)"

text \<open>
  \<open>ifs >> epoch\<close>: white space is skipped; nothing left leaves the variable uninitialised, no
  digit gives 0, a value outside 64 bits the nearest bound.
\<close>

definition int64_max :: int where "int64_max = 2 ^ 63 - 1"

definition int64_min :: int where "int64_min = - (2 ^ 63)"

definition read_int64 :: "int \<Rightarrow> string \<Rightarrow> int" where
  "read_int64 uninit s =
     (let s1 = dropWhile is_space s;
          neg = (s1 \<noteq> [] \<and> hd s1 = CHR ''-'');
          s2 = (if s1 \<noteq> [] \<and> hd s1 \<in> {CHR ''-'', CHR ''+''} then tl s1 else s1);
          ds = takeWhile is_digit s2;
          v = (if neg then - int (digits_value ds) else int (digits_value ds))
      in if s1 = [] then uninit else if ds = [] then 0 else max int64_min (min int64_max v))"

definition getLatestSavedEpoch :: "('c, 'k) storage_env \<Rightarrow> ('c, 'k) block_storage \<Rightarrow> int" where
  "getLatestSavedEpoch ev s =
     (case bst_files s num_file of None \<Rightarrow> 0
      | Some t \<Rightarrow> if \<not> se_readable ev num_file then 0 else read_int64 (se_uninit ev) t)"

definition updateLatestSavedEpoch :: "('c, 'k) storage_env \<Rightarrow> int \<Rightarrow> ('c, 'k) block_storage
    \<Rightarrow> bool \<times> ('c, 'k) block_storage" where
  "updateLatestSavedEpoch ev epoch s =
     (if \<not> se_writable ev num_file then (False, s)
      else (True, s\<lparr>bst_files := (bst_files s)(num_file \<mapsto> to_string epoch)\<rparr>))"

definition appendBlock :: "('c, 'k) storage_env \<Rightarrow> block \<Rightarrow> ('c, 'k) block_storage
    \<Rightarrow> bool \<times> ('c, 'k) block_storage" where
  "appendBlock ev b s =
     (let (ok, s1) = insertBlock ev b s in
      if \<not> ok then (False, s1)
      else let (ok2, s2) = updateLatestSavedEpoch ev (sint (bh_number (bk_header b))) s1 in
           if \<not> ok2 then (False, s2) else (True, s2))"

section \<open>Hashes\<close>

text \<open>The digest of a block: of its serialised data followed by its serialised metadata.\<close>

definition block_digest :: "('c, 'k) storage_env \<Rightarrow> block \<Rightarrow> sha_ctx \<Rightarrow> bool \<times> string \<times> sha_ctx" where
  "block_digest ev b c =
     (let (ok, c1) = helper_hash (se_ser_data ev (bk_data b)) c in
      if \<not> ok then (False, [], c1)
      else let (ok2, c2) = helper_append (se_ser_meta ev (bk_metadata b)) c1 in
           if \<not> ok2 then (False, [], c2) else sha_helper_execute c2)"

fun add_leaves :: "('c, 'k) storage_env \<Rightarrow> nat \<Rightarrow> string list \<Rightarrow> sha_ctx \<Rightarrow> mt option
    \<Rightarrow> (sha_ctx \<times> mt option) res" where
  "add_leaves ev i [] c t = Inr (c, t)"
| "add_leaves ev i (d # ds) c t =
     (let (ok, digest, c1) = helper_hash_digest d c in
      bind_res (mt_add (se_slot_mem ev i) (se_stack ev) t (Some (str_bytes digest)) 32) (\<lambda>(e, t1).
        check (e = MT_SUCCESS) (add_leaves ev (Suc i) ds c1 t1)))"

definition data_root :: "('c, 'k) storage_env \<Rightarrow> string list \<Rightarrow> sha_ctx \<Rightarrow> (string \<times> sha_ctx) res" where
  "data_root ev ds c =
     bind_res (add_leaves ev 0 ds c (mt_create (se_tree_mem ev) (se_level_mem ev))) (\<lambda>(c1, t).
     bind_res (mt_get_root t) (\<lambda>(e, r).
     check (e = MT_SUCCESS) (bind_res (mt_delete t) (\<lambda>_. Inr (bytes_str (the r), c1)))))"

section \<open>Reading a block\<close>

text \<open>The signature is looked up in \<open>metadata(0)\<close>, after testing that there are two entries.\<close>

definition deserializeBlock :: "('c, 'k) storage_env \<Rightarrow> u32 \<Rightarrow> block \<Rightarrow> bool \<Rightarrow> ('c, 'k) block_storage
    \<Rightarrow> (bool \<times> block \<times> ('c, 'k) block_storage) res" where
  "deserializeBlock ev epoch blk checksum s =
     (let (ok, b) = loadBlock ev (blk\<lparr>bk_header := (bk_header blk)\<lparr>bh_number := ucast epoch\<rparr>\<rparr>) s in
      if \<not> ok then Inr (False, b, s)
      else let (ok2, hashResult, c) = block_digest ev b (bst_hash s); s1 = s\<lparr>bst_hash := c\<rparr> in
      if \<not> ok2 then Inr (False, b, s1)
      else if hashResult \<noteq> bh_data_hash (bk_header b) then Inr (False, b, s1)
      else if \<not> checksum then Inr (True, b, s1)
      else bind_res (data_root ev (bk_data b) c) (\<lambda>(root, c2).
        let s2 = s1\<lparr>bst_hash := c2\<rparr> in
        if length (bk_metadata b) < 2 then Inr (False, b, s2)
        else let (v, cs) = rsaDecrypt (se_ssl ev) root (bk_metadata b ! 0) (bst_sign s2)
             in Inr (v, b, s2\<lparr>bst_sign := cs\<rparr>)))"

section \<open>Building a block\<close>

definition addPendingTransaction :: "tptr \<Rightarrow> ('c, 'k) block_storage \<Rightarrow> u32 \<times> ('c, 'k) block_storage" where
  "addPendingTransaction a s = (1, s\<lparr>bst_queue := bst_queue s @ [a]\<rparr>)"

definition queue_keys :: "tstore \<Rightarrow> tptr list \<Rightarrow> u32 list" where
  "queue_keys st q = map (\<lambda>a. case st a of Some t \<Rightarrow> getTransactionID t | None \<Rightarrow> 0) q"

text \<open>The comparator of the heap; \<open>top\<close> is a transaction with the greatest id.\<close>

definition tid_less :: "u32 \<Rightarrow> u32 \<Rightarrow> bool" where
  "tid_less a b = (a < b)"

interpretation tid_order: comparator tid_less
  by unfold_locales (auto simp: tid_less_def)

definition queue_top :: "('c, 'k) storage_env \<Rightarrow> tstore \<Rightarrow> tptr list \<Rightarrow> nat" where
  "queue_top ev st q = pq_top tid_less (se_top ev) (queue_keys st q)"

lemma queue_top_less: "q \<noteq> [] \<Longrightarrow> queue_top ev st q < length q"
  using tid_order.top_less [of "queue_keys st q"] by (simp add: queue_top_def queue_keys_def)

lemma queue_top_single: "queue_top ev st [a] = 0"
  by (simp add: queue_top_def queue_keys_def tid_order.top_single)

lemma queue_top_max:
  assumes "a \<in> set q" "st a = Some t" "st (q ! queue_top ev st q) = Some u"
  shows "tr_tid t \<le> tr_tid u"
proof -
  have "tr_tid t \<in> set (queue_keys st q)" using assms(1,2) by (auto simp: queue_keys_def getTransactionID_def intro!: image_eqI [of _ _ a])
  moreover have "q \<noteq> []" using assms(1) by auto
  then have "queue_top ev st q < length q" by (rule queue_top_less)
  ultimately show ?thesis using tid_order.top_max [of "tr_tid t" "queue_keys st q" "se_top ev"] assms(3)
    by (simp add: queue_top_def tid_less_def queue_keys_def getTransactionID_def)
qed

function drain_queue :: "('c, 'k) storage_env \<Rightarrow> tstore \<Rightarrow> tptr list \<Rightarrow> (string list \<times> string) res" where
  "drain_queue ev st q =
     (if q = [] then Inr ([], [])
      else let i = queue_top ev st q in
        bind_res (tget st (Some (q ! i))) (\<lambda>t.
          let (ok, data) = serializeToString (se_codec ev) t in
          check ok (bind_res (drain_queue ev st (take i q @ drop (Suc i) q)) (\<lambda>(ds, rs).
            Inr (data # ds, se_result_char ev (getTransactionResult t) # rs)))))"
  by pat_completeness auto
termination
proof (relation "measure (\<lambda>(ev, st, q). length q)", goal_cases)
  case (2 ev st q i t x ok data)
  then show ?case using queue_top_less [of q ev st] by auto
qed simp

declare drain_queue.simps [simp del]

definition generateBlockBody :: "('c, 'k) storage_env \<Rightarrow> tstore \<Rightarrow> block \<Rightarrow> ('c, 'k) block_storage
    \<Rightarrow> (bool \<times> block \<times> ('c, 'k) block_storage) res" where
  "generateBlockBody ev st b s =
     bind_res (drain_queue ev st (bst_queue s)) (\<lambda>(ds, results).
     bind_res (data_root ev (bk_data b @ ds) (bst_hash s)) (\<lambda>(root, c).
     bind_res (rsaEncrypt (se_ssl ev) root (bst_sign s)) (\<lambda>(ok, blkSignature, cs).
     check ok (Inr (True,
       b\<lparr>bk_data := bk_data b @ ds, bk_metadata := bk_metadata b @ [results, [], blkSignature]\<rparr>,
       s\<lparr>bst_queue := [], bst_hash := c, bst_sign := cs\<rparr>)))))"

definition generateBlockHeader :: "('c, 'k) storage_env \<Rightarrow> block \<Rightarrow> ('c, 'k) block_storage
    \<Rightarrow> (bool \<times> block \<times> ('c, 'k) block_storage) res" where
  "generateBlockHeader ev b s =
     (let (ok, hashResult, c) = block_digest ev b (bst_hash s); s1 = s\<lparr>bst_hash := c\<rparr> in
      if \<not> ok then Inr (False, b, s1)
      else let last_epoch = getLatestSavedEpoch ev s1 in
      if last_epoch = int64_max then Inl Undefined
      else let h = (bk_header b)\<lparr>bh_data_hash := hashResult, bh_number := of_int (last_epoch + 1)\<rparr> in
      if last_epoch > 0 then
        bind_res (deserializeBlock ev (of_int last_epoch) block_empty False s1) (\<lambda>(ok2, previous, s2).
          check ok2 (Inr (True, b\<lparr>bk_header := h\<lparr>bh_previous_hash := bh_data_hash (bk_header previous)\<rparr>\<rparr>, s2)))
      else Inr (True, b\<lparr>bk_header := h\<rparr>, s1))"

end
