(* ===== verification/BlockGenerator.thy ===== *)
theory BlockGenerator
  imports BlockStorage
begin

text \<open>
  \<open>BlockGeneratorImpl\<close> (\<open>block_generator_impl.cpp\<close>): builds, links and stores the block of an
  epoch and hands it to the thread that broadcasts its signature. The self test of the
  constructor runs the Merkle tree on fixed leaves. Receiving the signatures of the other
  servers only logs them and is not modelled.
\<close>

record sig_exchange =
  sx_epoch :: u32
  sx_signature :: string

text \<open>\<open>bg_thread\<close>: whether the verifier thread has been created; its creation is commented out.\<close>

record ('c, 'k) generator =
  bg_storage :: "('c, 'k) block_storage"
  bg_verify :: "block list"
  bg_finish :: bool
  bg_thread :: bool

definition bg_getLatestSavedEpoch :: "('c, 'k) storage_env \<Rightarrow> ('c, 'k) generator \<Rightarrow> int" where
  "bg_getLatestSavedEpoch ev g = getLatestSavedEpoch ev (bg_storage g)"

definition addCommittedTransaction :: "tptr \<Rightarrow> ('c, 'k) generator \<Rightarrow> u32 \<times> ('c, 'k) generator" where
  "addCommittedTransaction a g =
     (let (r, s) = addPendingTransaction a (bg_storage g) in (r, g\<lparr>bg_storage := s\<rparr>))"

definition generateBlock :: "('c, 'k) storage_env \<Rightarrow> tstore \<Rightarrow> ('c, 'k) generator
    \<Rightarrow> (u32 \<times> ('c, 'k) generator) res" where
  "generateBlock ev st g =
     bind_res (generateBlockBody ev st block_empty (bg_storage g)) (\<lambda>(ok, b, s).
       if \<not> ok then Inr (0, g\<lparr>bg_storage := s\<rparr>)
       else bind_res (generateBlockHeader ev b s) (\<lambda>(ok2, b2, s2).
         if \<not> ok2 then Inr (0, g\<lparr>bg_storage := s2\<rparr>)
         else let (ok3, s3) = appendBlock ev b2 s2 in
              if \<not> ok3 then Inr (0, g\<lparr>bg_storage := s3\<rparr>)
              else Inr (1, g\<lparr>bg_storage := s3, bg_verify := bg_verify g @ [b2]\<rparr>)))"

section \<open>The self test\<close>

definition test_value :: "nat \<Rightarrow> bytes" where "test_value i = replicate 32 (of_nat i)"

definition ROOT_5_1 :: bytes where
  "ROOT_5_1 = concat [[0x24, 0x39, 0x37, 0xFE, 0x91, 0xB8],
     [0xAF, 0xCC, 0xF7, 0x79, 0x51, 0xAF, 0x4E, 0x94, 0x6C, 0x99, 0x3E, 0x21],
     [0xCF, 0xE1, 0x34, 0x64, 0x4F, 0xAD, 0x15, 0xDA, 0x30, 0x2E, 0xF0, 0x93], [0xAE, 0x68]]"

definition ROOT_5_2 :: bytes where
  "ROOT_5_2 = concat [[0x8F, 0x6F, 0xA8, 0x61, 0x7E, 0x7B],
     [0x9D, 0x00, 0x4C, 0xF8, 0xE7, 0x4B, 0x54, 0x25, 0xF9, 0xA5, 0xA7, 0x27],
     [0x37, 0xFD, 0xE3, 0xAD, 0x35, 0x73, 0xBB, 0xD1, 0x81, 0xD8, 0xD2, 0x60], [0x82, 0x7F]]"

fun test_adds :: "('c, 'k) storage_env \<Rightarrow> nat list \<Rightarrow> mt option \<Rightarrow> mt option res" where
  "test_adds ev [] t = Inr t"
| "test_adds ev (i # is) t =
     bind_res (mt_add (se_slot_mem ev i) (se_stack ev) t (Some (test_value i)) 32) (\<lambda>(e, t1).
       check (e = MT_SUCCESS) (test_adds ev is t1))"

fun test_verifies :: "('c, 'k) storage_env \<Rightarrow> nat list \<Rightarrow> mt option \<Rightarrow> unit res" where
  "test_verifies ev [] t = Inr ()"
| "test_verifies ev (i # is) t =
     bind_res (mt_verify (se_stack ev) t (Some (test_value i)) 32 (of_nat i)) (\<lambda>e.
       check (e = MT_SUCCESS) (test_verifies ev is t))"

definition test_root :: "mt option \<Rightarrow> bytes \<Rightarrow> unit res" where
  "test_root t expected =
     bind_res (mt_get_root t) (\<lambda>(e, root). check (e = MT_SUCCESS) (check (root = Some expected) (Inr ())))"

definition test_update :: "('c, 'k) storage_env \<Rightarrow> nat \<Rightarrow> u32 \<Rightarrow> mt option \<Rightarrow> mt option res" where
  "test_update ev i off t =
     bind_res (mt_update (se_stack ev) t (Some (test_value i)) 32 off) (\<lambda>(e, t1).
       check (e = MT_SUCCESS) (Inr t1))"

definition self_test :: "('c, 'k) storage_env \<Rightarrow> unit res" where
  "self_test ev =
     bind_res (test_adds ev [0..<5] (mt_create (se_tree_mem ev) (se_level_mem ev))) (\<lambda>t.
     bind_res (test_verifies ev [0..<5] t) (\<lambda>_.
     bind_res (test_root t ROOT_5_1) (\<lambda>_.
     bind_res (test_update ev 7 0 t) (\<lambda>t1.
     bind_res (test_root t1 ROOT_5_2) (\<lambda>_.
     bind_res (mt_delete t1) (\<lambda>_.
     bind_res (test_adds ev [0..<3] (mt_create (se_tree_mem ev) (se_level_mem ev))) (\<lambda>u.
     bind_res (test_update ev 3 2 u) (\<lambda>u1. mt_delete u1))))))))"

definition new_generator :: "('c, 'k) storage_env \<Rightarrow> ('c, 'k) block_storage \<Rightarrow> ('c, 'k) generator res" where
  "new_generator ev storage =
     bind_res (self_test ev) (\<lambda>_. Inr \<lparr>bg_storage = storage, bg_verify = [], bg_finish = False, bg_thread = False\<rparr>)"

text \<open>The destructor joins the verifier thread, through an uninitialised pointer if there is none.\<close>

definition delete_generator :: "('c, 'k) generator \<Rightarrow> unit res" where
  "delete_generator g = (if \<not> bg_thread g then Inl Undefined else Inr ())"

section \<open>Broadcasting signatures\<close>

text \<open>One round of \<open>blockVerifier\<close>: no block to dequeue is waiting (\<open>None\<close>).\<close>

definition block_signature :: "block \<Rightarrow> sig_exchange res" where
  "block_signature b = check (3 \<le> length (bk_metadata b))
     (Inr \<lparr>sx_epoch = ucast (bh_number (bk_header b)), sx_signature = bk_metadata b ! 2\<rparr>)"

definition blockVerifier :: "('c, 'k) generator \<Rightarrow> (sig_exchange \<times> ('c, 'k) generator) option res" where
  "blockVerifier g =
     (if bg_finish g then Inr None
      else case bg_verify g of [] \<Rightarrow> Inr None
      | b # bs \<Rightarrow> bind_res (block_signature b) (\<lambda>m. Inr (Some (m, g\<lparr>bg_verify := bs\<rparr>))))"

end
