(* ===== verification/BlockChain.thy ===== *)
theory BlockChain
  imports BlockGenerator
begin

text \<open>
  What the block storage guarantees: the transactions leave the queue by descending id, the
  Merkle root signed is that of the serialised transactions, a generated block is stored under
  the next number with the hash of its data and metadata and a link to its predecessor, and a
  stored block is read back. And what it does not guarantee: an epoch without transactions ends
  in a null pointer, the hash does not separate data from metadata, number and link are not
  protected, and the signature check looks at the wrong entry.
\<close>

section \<open>Digests\<close>

lemma execute_absorbed:
  assumes "absorbed sha256_H0 (str_bytes s) c"
  shows "\<exists>c1. sha_helper_execute c = (True, sha256_string s, c1) \<and> length (sc_block c1) = 64"
proof -
  obtain c1 where c1: "sha_helper_execute c = (True, sha256_string s, c1)" using helper_execute_absorbed [OF assms] by blast
  have "\<not> sc_computed c" "sc_corrupted c = ShaSuccess" using assms by (simp_all add: absorbed_def)
  then have "c1 = sha_finalize 0x80 c" using c1 by (simp add: sha_helper_execute_def SHA256Result_def sha_resultN_def Let_def)
  then show ?thesis using c1 by (simp add: sha_finalize_def sha_block_size_def)
qed

lemma hash_digest_block:
  assumes "length (sc_block c) = 64" "length s < 2 ^ 32"
  shows "\<exists>c1. helper_hash_digest s c = (True, sha256_string s, c1) \<and> length (sc_block c1) = 64"
proof -
  obtain c1 where c1: "helper_hash s c = (True, c1)" "absorbed sha256_H0 (str_bytes s) c1"
    using helper_hash_absorbs [OF assms] by blast
  have "helper_reset c = (True, snd (sha_reset sha256_H0 c))" by (simp add: helper_reset_def SHA256Reset_def sha_reset_def)
  then have "helper_hash_digest s c = sha_helper_execute c1" using c1(1) by (simp add: helper_hash_def helper_hash_digest_def)
  then show ?thesis using execute_absorbed [OF c1(2)] by simp
qed

definition content_hash :: "('c, 'k) storage_env \<Rightarrow> block \<Rightarrow> string" where
  "content_hash ev b = sha256_string (se_ser_data ev (bk_data b) @ se_ser_meta ev (bk_metadata b))"

definition content_fits :: "('c, 'k) storage_env \<Rightarrow> block \<Rightarrow> bool" where
  "content_fits ev b \<longleftrightarrow> length (se_ser_data ev (bk_data b)) < 2 ^ 32 \<and> length (se_ser_meta ev (bk_metadata b)) < 2 ^ 32"

lemma block_digest_ok:
  assumes "length (sc_block c) = 64" "content_fits ev b"
  shows "\<exists>c1. block_digest ev b c = (True, content_hash ev b, c1) \<and> length (sc_block c1) = 64"
proof -
  let ?d = "se_ser_data ev (bk_data b)" and ?m = "se_ser_meta ev (bk_metadata b)"
  have fits: "length ?d < 2 ^ 32" "length ?m < 2 ^ 32" using assms(2) by (simp_all add: content_fits_def)
  obtain c1 where c1: "helper_hash ?d c = (True, c1)" "absorbed sha256_H0 (str_bytes ?d) c1"
    using helper_hash_absorbs [OF assms(1) fits(1)] by blast
  have l: "length (str_bytes x) = length x" for x by (simp add: str_bytes_def)
  obtain c2 where c2: "SHA256Input (str_bytes ?m) c1 = (ShaSuccess, c2)" "absorbed sha256_H0 (str_bytes ?d @ str_bytes ?m) c2"
    using SHA256Input_absorbs [OF c1(2), of "str_bytes ?m"] fits l by auto
  have "str_bytes ?d @ str_bytes ?m = str_bytes (?d @ ?m)" by (simp add: str_bytes_def)
  then obtain c3 where "sha_helper_execute c2 = (True, sha256_string (?d @ ?m), c3)" "length (sc_block c3) = 64"
    using execute_absorbed [of "?d @ ?m" c2] c2(2) by auto
  then show ?thesis using c1(1) c2(1) by (simp add: block_digest_def helper_append_def content_hash_def)
qed

section \<open>The Merkle root of the data\<close>

definition memory_ok :: "('c, 'k) storage_env \<Rightarrow> bool" where
  "memory_ok ev \<longleftrightarrow> se_tree_mem ev \<and> se_level_mem ev = (\<lambda>_. True) \<and> se_slot_mem ev = (\<lambda>_ _. True)
     \<and> length (sc_block (se_stack ev)) = 64"

definition leaf_of :: "string \<Rightarrow> bytes" where "leaf_of d = str_bytes (sha256_string d)"

definition root_of :: "string list \<Rightarrow> string" where
  "root_of ds = bytes_str (mroot (take 262144 (map leaf_of ds)))"

text \<open>No level of a tree that only grows holds a freed block, so it can be deleted.\<close>

definition alive :: "mt \<Rightarrow> bool" where "alive t \<longleftrightarrow> (\<forall>al \<in> set (mt_level t). al_store al \<noteq> AL_FREED)"

lemma put_slot_alive: "put_slot off h al = Inr al' \<Longrightarrow> al_store al' \<noteq> AL_FREED"
  by (auto simp: put_slot_def Let_def split: al_mem.splits if_splits)

lemma al_add_alive:
  assumes "mt_al_add m (Some al) h = Inr (e, al')" "al_store al \<noteq> AL_FREED"
  shows "al_store al' \<noteq> AL_FREED"
  using assms by (auto simp: mt_al_add_def with_al_def Let_def bind_res_Inr_iff dest!: put_slot_alive split: if_splits option.splits)

lemma al_update_alive:
  assumes "mt_al_update (Some al) h off = Inr (e, al')" "al_store al \<noteq> AL_FREED"
  shows "al_store al' \<noteq> AL_FREED"
  using assms by (auto simp: mt_al_update_def with_al_def bind_res_Inr_iff dest!: put_slot_alive split: if_splits option.splits)

lemma al_add_or_update_alive:
  assumes "mt_al_add_or_update m (Some al) h off = Inr (e, al')" "al_store al \<noteq> AL_FREED"
  shows "al_store al' \<noteq> AL_FREED"
  using assms al_add_alive al_update_alive by (auto simp: mt_al_add_or_update_def with_al_def split: if_splits)

lemma on_level_alive:
  assumes "on_level l f t k = Inr (e, Some t')" "alive t"
    and f: "\<And>al e al'. f (Some al) = Inr (e, al') \<Longrightarrow> al_store al \<noteq> AL_FREED \<Longrightarrow> al_store al' \<noteq> AL_FREED"
    and f0: "\<And>e al'. f None \<noteq> Inr (e, al')"
    and k: "\<And>t1. alive t1 \<Longrightarrow> k t1 = Inr (e, Some t') \<Longrightarrow> alive t'"
  shows "alive t'"
proof -
  obtain e1 al1 where f1: "f (level_at t l) = Inr (e1, al1)" using assms(1) by (auto simp: on_level_def bind_res_Inr_iff)
  then have l: "l < length (mt_level t)" using f0 by (auto simp: level_at_def split: if_splits)
  then have "al_store al1 \<noteq> AL_FREED" using f1 f assms(2) by (auto simp: level_at_def alive_def)
  then have "alive (t\<lparr>mt_level := (mt_level t)[l := al1]\<rparr>)"
    using assms(2) by (auto simp: alive_def dest!: set_update_subset_insert [THEN subsetD])
  then show ?thesis using assms(1) f1 k by (auto simp: on_level_def Let_def split: if_splits)
qed

lemma add_loop_alive: "mt_add_loop mem stk d q l t = Inr (e, Some t') \<Longrightarrow> alive t \<Longrightarrow> alive t'"
proof (induction mem stk d q l t rule: mt_add_loop.induct)
  case (1 mem stk d q l t)
  show ?case
  proof (cases "q > 0 \<and> l < TREE_LEVELS")
    case False
    then have "assert_top d q l t = Inr (e, Some t')" using "1.prems"(1)
      unfolding mt_add_loop.simps [of mem stk d q l t] by (simp only: False if_False)
    then show ?thesis using "1.prems"(2) by (auto simp: assert_top_def bind_res_Inr_iff split: option.splits if_splits)
  next
    case loop: True
    show ?thesis
    proof (cases "mt_right q")
      case False
      then have "mt_add_loop mem stk d (drop_bit 1 q) (l + 1) t = Inr (e, Some t')"
        using "1.prems"(1) loop by (subst (asm) mt_add_loop.simps) simp
      then show ?thesis using "1.IH"(2) loop False "1.prems"(2) by blast
    next
      case right: True
      let ?k = "\<lambda>d' t'. mt_add_loop mem stk d' (drop_bit 1 q) (l + 1) t'"
      have eq: "bind_res (mt_al_get (level_at t l) (q - 1)) (\<lambda>left. case mt_hash stk left (Some d) of Inl e \<Rightarrow> Inr (e, Some t)
          | Inr d' \<Rightarrow> on_level (l + 1) (\<lambda>al. mt_al_add_or_update (mem (l + 1)) al (Some d') (drop_bit 1 q)) t (?k d')) = Inr (e, Some t')"
        using "1.prems"(1) loop right by (subst (asm) mt_add_loop.simps) simp
      then obtain left where left: "mt_al_get (level_at t l) (q - 1) = Inr left" by (auto simp: bind_res_Inr_iff)
      show ?thesis
      proof (cases "mt_hash stk left (Some d)")
        case (Inl a)
        then show ?thesis using eq left "1.prems"(2) by simp
      next
        case (Inr d')
        have ol: "on_level (l + 1) (\<lambda>al. mt_al_add_or_update (mem (l + 1)) al (Some d') (drop_bit 1 q)) t (?k d') = Inr (e, Some t')"
          using eq left Inr by simp
        show ?thesis
        proof (rule on_level_alive [OF ol "1.prems"(2)])
          show "mt_al_add_or_update (mem (l + 1)) None (Some d') (drop_bit 1 q) \<noteq> Inr (e, al')" for e al'
            by (simp add: mt_al_add_or_update_def with_al_def)
          show "al_store al' \<noteq> AL_FREED" if "mt_al_add_or_update (mem (l + 1)) (Some al) (Some d') (drop_bit 1 q) = Inr (e, al')"
            "al_store al \<noteq> AL_FREED" for al e al' by (rule al_add_or_update_alive [OF that])
          show "alive t'" if "alive t1" "?k d' t1 = Inr (e, Some t')" for t1
            by (rule "1.IH"(1) [OF loop right Inr that(2,1)])
        qed
      qed
    qed
  qed
qed

lemma mt_add_alive:
  assumes "mt_add mem stk (Some t) (Some x) n = Inr (e, Some t')" "alive t"
  shows "alive t'"
proof (cases "n \<le> 32")
  case True
  obtain d where d: "mt_init_hash x n = Inr d" using assms(1) True by (auto simp: mt_add_def bind_res_Inr_iff)
  have ol: "on_level 0 (\<lambda>al. mt_al_add (mem 0) al (Some d)) t (\<lambda>t. let t = t\<lparr>mt_elems := mt_elems t + 1\<rparr> in
      if mt_elems t = 1 then Inr (MT_SUCCESS, Some t) else mt_add_loop mem stk d (mt_elems t - 1) 0 t) = Inr (e, Some t')"
    using assms(1) True d by (simp add: mt_add_def)
  show ?thesis
  proof (rule on_level_alive [OF ol assms(2)])
    show "alive t'" if "alive t1" "(let t = t1\<lparr>mt_elems := mt_elems t1 + 1\<rparr> in
        if mt_elems t = 1 then Inr (MT_SUCCESS, Some t) else mt_add_loop mem stk d (mt_elems t - 1) 0 t) = Inr (e, Some t')" for t1
    proof -
      have "alive (t1\<lparr>mt_elems := mt_elems t1 + 1\<rparr>)" using that(1) by (simp add: alive_def)
      then show ?thesis using that(2) add_loop_alive by (auto simp: Let_def split: if_splits)
    qed
  next
    show "mt_al_add (mem 0) None (Some d) \<noteq> Inr (e, al')" for e al' by (simp add: mt_al_add_def with_al_def)
    show "al_store al' \<noteq> AL_FREED" if "mt_al_add (mem 0) (Some al) (Some d) = Inr (e, al')" "al_store al \<noteq> AL_FREED" for al e al'
      by (rule al_add_alive [OF that])
  qed
qed (use assms in \<open>auto simp: mt_add_def\<close>)

lemma delete_alive: "alive t \<Longrightarrow> mt_delete (Some t) = Inr ()"
proof -
  assume "alive t"
  moreover have "\<forall>al \<in> set ls. al_store al \<noteq> AL_FREED \<Longrightarrow>
      fold (\<lambda>al r. bind_res r (\<lambda>_. mt_al_delete (Some al))) ls (Inr ()) = Inr ()" for ls
    by (induction ls) (auto simp: mt_al_delete_def)
  ultimately show ?thesis by (simp add: mt_delete_def alive_def)
qed

lemma leaf_of_length: "length (leaf_of d) = 32"
  by (simp add: leaf_of_def str_bytes_def sha256_string_length)

lemma add_leaves_ok:
  assumes "memory_ok ev" "mt_ok t xs" "alive t" "length (sc_block c) = 64"
    and "\<forall>d \<in> set ds. length d < 2 ^ 32" "length xs + length ds < 524288"
  shows "\<exists>c1 t1. add_leaves ev i ds c (Some t) = Inr (c1, Some t1) \<and> mt_ok t1 (xs @ map leaf_of ds) \<and> alive t1
    \<and> length (sc_block c1) = 64"
  using assms(2-)
proof (induction ds arbitrary: i c t xs)
  case (Cons d ds)
  obtain c1 where c1: "helper_hash_digest d c = (True, sha256_string d, c1)" "length (sc_block c1) = 64"
    using hash_digest_block [of c d] Cons.prems by auto
  obtain t1 where t1: "mt_add (se_slot_mem ev i) (se_stack ev) (Some t) (Some (leaf_of d)) 32 = Inr (MT_SUCCESS, Some t1)"
    "mt_ok t1 (xs @ [leaf_of d])"
    using mt_add_ok [OF Cons.prems(1), of "se_stack ev" "se_slot_mem ev i" "leaf_of d"] assms(1) Cons.prems(5)
    by (auto simp: memory_ok_def leaf_of_length)
  have "alive t1" by (rule mt_add_alive [OF t1(1) Cons.prems(2)])
  then show ?case
    using Cons.IH [OF t1(2) _ c1(2), of "Suc i"] Cons.prems c1(1) t1(1) by (simp add: leaf_of_def)
qed simp

lemma create_ok:
  assumes "memory_ok ev"
  obtains t where "mt_create (se_tree_mem ev) (se_level_mem ev) = Some t" "mt_ok t []" "alive t"
proof -
  have m: "se_tree_mem ev" "se_level_mem ev = (\<lambda>_. True)" using assms by (simp_all add: memory_ok_def)
  obtain t where t: "mt_create True (\<lambda>_. True) = Some t"
    by (simp add: mt_create_def mt_al_create_def Let_def image_iff del: upt_Suc upt_rec_numeral)
  then have "alive t"
    by (auto simp: mt_create_def mt_al_create_def alive_def Let_def simp del: upt_Suc upt_rec_numeral split: if_splits)
  then show thesis using that t mt_create_ok [OF t] m by simp
qed

lemma data_root_ok:
  assumes "memory_ok ev" "length (sc_block c) = 64" "\<forall>d \<in> set ds. length d < 2 ^ 32" "length ds < 524288" "ds \<noteq> []"
  shows "\<exists>c1. data_root ev ds c = Inr (root_of ds, c1) \<and> length (sc_block c1) = 64"
proof -
  obtain t where t: "mt_create (se_tree_mem ev) (se_level_mem ev) = Some t" "mt_ok t []" "alive t" using create_ok [OF assms(1)] .
  obtain c1 t1 where a: "add_leaves ev 0 ds c (Some t) = Inr (c1, Some t1)" "mt_ok t1 (map leaf_of ds)" "alive t1"
    "length (sc_block c1) = 64" using add_leaves_ok [OF assms(1) t(2,3) assms(2,3), of 0] assms(4) by auto
  have "mt_get_root (Some t1) = Inr (MT_SUCCESS, Some (mroot (take 262144 (map leaf_of ds))))"
    using mt_get_root_ok [OF a(2)] root_mroot [of "map leaf_of ds"] assms(5) by simp
  then show ?thesis using t(1) a delete_alive [OF a(3)] by (simp add: data_root_def root_of_def)
qed

lemma data_root_empty:
  assumes "memory_ok ev"
  shows "data_root ev [] c = Inl NullDeref"
proof -
  obtain t where t: "mt_create (se_tree_mem ev) (se_level_mem ev) = Some t" "mt_ok t []" using create_ok [OF assms] .
  have lv: "levels_ok (\<lambda>j. level_nodes j []) t" using t(2) by (simp add: mt_ok_def)
  have nil: "level_nodes j [] = []" for j using level_size_le [of j 0] by (simp add: level_nodes_def)
  have "\<not> hasNextLevelExceptRoot (Some t) 0"
  proof -
    obtain al where "level_at t 1 = Some al" "al_ok al []" using level_at_ok [OF lv, of 1] nil by auto
    then show ?thesis using al_ok_size [of al "[]"] by (simp add: hasNextLevelExceptRoot_def word_less_nat_alt)
  qed
  then have "root_level t 0 = 0" by (subst root_level.simps) simp
  moreover obtain al where "level_at t 0 = Some al" "al_ok al []" using level_at_ok [OF lv, of 0] nil by auto
  ultimately show ?thesis using t(1) al_ok_get [of al "[]" 0] by (simp add: data_root_def mt_get_root_def)
qed

section \<open>The queue\<close>

lemma drain_sorted:
  assumes "drain_queue ev st q = Inr (ds, rs)"
  shows "\<exists>ts. mset ts = mset (map (\<lambda>a. the (st a)) q) \<and> sorted (rev (map tr_tid ts))
    \<and> ds = map (\<lambda>t. snd (serializeToString (se_codec ev) t)) ts \<and> rs = map (\<lambda>t. se_result_char ev (tr_res t)) ts
    \<and> (\<forall>a \<in> set q. st a \<noteq> None)"
  using assms
proof (induction q arbitrary: ds rs rule: length_induct)
  case (1 q)
  show ?case
  proof (cases "q = []")
    case True
    then show ?thesis using "1.prems" by (subst (asm) drain_queue.simps) simp
  next
    case False
    let ?i = "queue_top ev st q"
    let ?q = "take ?i q @ drop (Suc ?i) q"
    have i: "?i < length q" by (rule queue_top_less [OF False])
    have "bind_res (tget st (Some (q ! ?i))) (\<lambda>t. let (ok, data) = serializeToString (se_codec ev) t in
          check ok (bind_res (drain_queue ev st ?q) (\<lambda>(ds, rs).
            Inr (data # ds, se_result_char ev (getTransactionResult t) # rs)))) = Inr (ds, rs)"
      using "1.prems" False by (subst (asm) drain_queue.simps) (simp add: Let_def)
    then obtain t ds' rs' where t: "st (q ! ?i) = Some t" "drain_queue ev st ?q = Inr (ds', rs')"
      "ds = snd (serializeToString (se_codec ev) t) # ds'" "rs = se_result_char ev (tr_res t) # rs'"
      by (auto simp: bind_res_Inr_iff check_Inr_iff getTransactionResult_def split: option.splits prod.splits)
    have "length ?q < length q" using i by simp
    then obtain ts where ts: "mset ts = mset (map (\<lambda>a. the (st a)) ?q)" "sorted (rev (map tr_tid ts))"
      "ds' = map (\<lambda>t. snd (serializeToString (se_codec ev) t)) ts" "rs' = map (\<lambda>t. se_result_char ev (tr_res t)) ts"
      "\<forall>a \<in> set ?q. st a \<noteq> None" using "1.IH" t(2) by blast
    have perm: "mset q = add_mset (q ! ?i) (mset ?q)" by (rule mset_take_drop [OF i])
    have key: "tr_tid (the (st a)) \<le> tr_tid t" if "a \<in> set q" "st a \<noteq> None" for a
    proof -
      note a = that
      obtain u where "st a = Some u" using a(2) by blast
      from queue_top_max [where ev = ev, OF a(1) this t(1)] this show ?thesis by simp
    qed
    have sq: "set q = insert (q ! ?i) (set ?q)" using arg_cong [OF perm, of set_mset] by simp
    have st_ts: "set ts = (\<lambda>a. the (st a)) ` set ?q" using arg_cong [OF ts(1), of set_mset] by (simp add: image_Un)
    have "tr_tid u \<le> tr_tid t" if "u \<in> set ts" for u
      using that st_ts sq ts(5) key by (auto simp del: set_append)
    then have "sorted (rev (map tr_tid (t # ts)))" using ts(2) by (auto simp: sorted_append)
    moreover have "mset (t # ts) = mset (map (\<lambda>a. the (st a)) q)" using perm ts(1) t(1) by simp
    moreover have "\<forall>a \<in> set q. st a \<noteq> None" using sq ts(5) t(1) by auto
    ultimately show ?thesis using t(3,4) ts(3,4) by (intro exI [of _ "t # ts"]) simp
  qed
qed

section \<open>Files\<close>

definition io_ok :: "('c, 'k) storage_env \<Rightarrow> bool" where
  "io_ok ev \<longleftrightarrow> se_writable ev = (\<lambda>_. True) \<and> se_readable ev = (\<lambda>_. True)
     \<and> (\<forall>b. \<exists>t. se_ser_block ev b = Some t \<and> se_parse_block ev t = (True, b))"

definition stored :: "('c, 'k) storage_env \<Rightarrow> ('c, 'k) block_storage \<Rightarrow> u64 \<Rightarrow> block option" where
  "stored ev s n = (case bst_files s (block_file n) of None \<Rightarrow> None
     | Some t \<Rightarrow> (case se_parse_block ev t of (ok, b) \<Rightarrow> if ok then Some b else None))"

lemma to_string_inj: "to_string i = to_string j \<Longrightarrow> i = j"
proof -
  assume eq: "to_string i = to_string j"
  have hd: "hd (nat_str n) \<noteq> CHR ''-''" for n
    using nat_str_digits [of n] nat_str_nonempty [of n] is_digit_not_special(2) by (cases "nat_str n") auto
  have "(i < 0) = (j < 0)" using eq hd by (auto simp: to_string_def split: if_splits) (metis list.sel(1))+
  then show "i = j" using eq nat_str_inj by (auto simp: to_string_def dest!: nat_str_inj split: if_splits)
qed

lemma block_file_inj: "block_file m = block_file n \<Longrightarrow> m = n"
  by (auto simp: block_file_def dest!: to_string_inj signed_word_eqI)

lemma block_file_not_num: "block_file n \<noteq> num_file"
proof
  assume "block_file n = num_file"
  then have "last (block_file n) = last num_file" by simp
  then show False by (simp add: block_file_def num_file_def)
qed

lemma read_int64_to_string:
  assumes "int64_min \<le> i" "i \<le> int64_max"
  shows "read_int64 u (to_string i) = i"
proof -
  have d: "list_all is_digit (nat_str n)" "nat_str n \<noteq> []" for n by (rule nat_str_digits nat_str_nonempty)+
  show ?thesis
  proof (cases "i < 0")
    case True
    then show ?thesis using assms d(2) by (simp add: read_int64_def to_string_def Let_def is_space_def
        takeWhile_digits [OF d(1)] digits_value_nat_str)
  next
    case False
    obtain c r where c: "nat_str (nat i) = c # r" "is_digit c" using d [of "nat i"] by (cases "nat_str (nat i)") auto
    have "dropWhile is_space (nat_str (nat i)) = nat_str (nat i)" using c is_digit_not_special(1) by simp
    moreover have "takeWhile is_digit (nat_str (nat i)) = nat_str (nat i)" by (rule takeWhile_digits [OF d(1)])
    moreover have "hd (nat_str (nat i)) \<notin> {CHR ''-'', CHR ''+''}" using c is_digit_not_special by auto
    ultimately show ?thesis using assms False c(1) digits_value_nat_str [of "nat i"]
      by (simp add: read_int64_def to_string_def Let_def)
  qed
qed

lemma load_stored:
  assumes "io_ok ev" "stored ev s (bh_number (bk_header b)) = Some x"
  shows "loadBlock ev b s = (True, x)"
  using assms by (auto simp: loadBlock_def stored_def io_ok_def Let_def split: option.splits if_splits prod.splits)

lemma append_ok:
  assumes "io_ok ev"
  shows "\<exists>s'. appendBlock ev b s = (True, s') \<and> stored ev s' (bh_number (bk_header b)) = Some b
    \<and> getLatestSavedEpoch ev s' = sint (bh_number (bk_header b))
    \<and> (\<forall>n. n \<noteq> bh_number (bk_header b) \<longrightarrow> stored ev s' n = stored ev s n)
    \<and> bst_queue s' = bst_queue s \<and> bst_hash s' = bst_hash s \<and> bst_sign s' = bst_sign s"
proof -
  let ?n = "bh_number (bk_header b)"
  obtain t where t: "se_ser_block ev b = Some t" "se_parse_block ev t = (True, b)" and
    open_ok: "se_writable ev = (\<lambda>_. True)" "se_readable ev = (\<lambda>_. True)" using assms by (auto simp: io_ok_def)
  let ?s = "s\<lparr>bst_files := (bst_files s)(block_file ?n \<mapsto> t, num_file \<mapsto> to_string (sint ?n))\<rparr>"
  have "appendBlock ev b s = (True, ?s)"
    using t open_ok by (simp add: appendBlock_def insertBlock_def updateLatestSavedEpoch_def Let_def)
  moreover have "int64_min \<le> sint ?n \<and> sint ?n \<le> int64_max"
    using sint_greater_eq [of ?n] sint_less [of ?n] by (simp add: int64_min_def int64_max_def)
  then have "getLatestSavedEpoch ev ?s = sint ?n"
    using open_ok read_int64_to_string by (simp add: getLatestSavedEpoch_def)
  moreover have "stored ev ?s ?n = Some b" using t(2) block_file_not_num [of ?n] by (simp add: stored_def)
  moreover have "stored ev ?s n = stored ev s n" if "n \<noteq> ?n" for n
    using that block_file_inj [of n ?n] block_file_not_num [of n] by (auto simp: stored_def)
  ultimately show ?thesis by (intro exI [of _ ?s]) simp
qed

section \<open>Reading and linking\<close>

lemma deserialize_unchecked:
  assumes "io_ok ev" "stored ev s (ucast epoch) = Some b" "content_fits ev b" "length (sc_block (bst_hash s)) = 64"
  shows "\<exists>c. deserializeBlock ev epoch blk False s = Inr (bh_data_hash (bk_header b) = content_hash ev b, b, s\<lparr>bst_hash := c\<rparr>)
    \<and> length (sc_block c) = 64"
proof -
  obtain c where c: "block_digest ev b (bst_hash s) = (True, content_hash ev b, c)" "length (sc_block c) = 64"
    using block_digest_ok [OF assms(4,3)] by blast
  have "loadBlock ev (blk\<lparr>bk_header := (bk_header blk)\<lparr>bh_number := ucast epoch\<rparr>\<rparr>) s = (True, b)"
    by (rule load_stored [OF assms(1)]) (simp add: assms(2))
  then show ?thesis using c by (auto simp: deserializeBlock_def Let_def)
qed

definition good_block :: "('c, 'k) storage_env \<Rightarrow> block \<Rightarrow> bool" where
  "good_block ev b \<longleftrightarrow> content_fits ev b \<and> bh_data_hash (bk_header b) = content_hash ev b"

text \<open>\<open>chain_ok ev s n\<close>: blocks 1 to \<open>n\<close> are stored, hashed and linked, and \<open>n\<close> is recorded.\<close>

definition linked :: "('c, 'k) storage_env \<Rightarrow> ('c, 'k) block_storage \<Rightarrow> nat \<Rightarrow> bool" where
  "linked ev s k \<longleftrightarrow> (\<exists>b. stored ev s (of_nat k) = Some b \<and> good_block ev b \<and> bh_number (bk_header b) = of_nat k
     \<and> (1 < k \<longrightarrow> (\<exists>p. stored ev s (of_nat (k - 1)) = Some p \<and> bh_previous_hash (bk_header b) = bh_data_hash (bk_header p))))"

definition chain_ok :: "('c, 'k) storage_env \<Rightarrow> ('c, 'k) block_storage \<Rightarrow> nat \<Rightarrow> bool" where
  "chain_ok ev s n \<longleftrightarrow> getLatestSavedEpoch ev s = int n \<and> length (sc_block (bst_hash s)) = 64
     \<and> (\<forall>k. 1 \<le> k \<longrightarrow> k \<le> n \<longrightarrow> linked ev s k)"

lemma header_ok:
  assumes "io_ok ev" "chain_ok ev s n" "n + 1 < 2 ^ 32" "content_fits ev b"
  shows "\<exists>h c. generateBlockHeader ev b s = Inr (True, b\<lparr>bk_header := h\<rparr>, s\<lparr>bst_hash := c\<rparr>) \<and> length (sc_block c) = 64
    \<and> bh_data_hash h = content_hash ev b \<and> bh_number h = of_nat (n + 1)
    \<and> (0 < n \<longrightarrow> (\<exists>p. stored ev s (of_nat n) = Some p \<and> bh_previous_hash h = bh_data_hash (bk_header p)))"
proof -
  have ch: "getLatestSavedEpoch ev s = int n" "length (sc_block (bst_hash s)) = 64" "0 < n \<Longrightarrow> linked ev s n"
    using assms(2) by (simp_all add: chain_ok_def Suc_le_eq)
  obtain c where c: "block_digest ev b (bst_hash s) = (True, content_hash ev b, c)" "length (sc_block c) = 64"
    using block_digest_ok [OF ch(2) assms(4)] by blast
  let ?s = "s\<lparr>bst_hash := c\<rparr>"
  have last: "getLatestSavedEpoch ev ?s = int n" using ch(1) by (simp add: getLatestSavedEpoch_def)
  have stored_hash: "stored ev ?s k = stored ev s k" for k by (simp add: stored_def)
  let ?h = "(bk_header b)\<lparr>bh_data_hash := content_hash ev b, bh_number := of_int (int n + 1)\<rparr>"
  have nmax: "int n \<noteq> int64_max" using assms(3) by (simp add: int64_max_def)
  show ?thesis
  proof (cases "0 < n")
    case False
    then have "generateBlockHeader ev b s = Inr (True, b\<lparr>bk_header := ?h\<rparr>, ?s)"
      using c(1) last nmax by (simp add: generateBlockHeader_def Let_def)
    then show ?thesis using c(2) False by (intro exI [of _ ?h] exI [of _ c]) simp
  next
    case True
    obtain p where p: "stored ev s (of_nat n) = Some p" "good_block ev p" using ch(3) [OF True] by (auto simp: linked_def)
    have "take_bit 32 n = n" using assms(3) by (intro take_bit_nat_eq_self) simp
    then have "(ucast (of_int (int n) :: u32) :: u64) = of_nat n" by (simp add: unsigned_of_nat)
    then have st: "stored ev ?s (ucast (of_int (int n) :: u32)) = Some p" using p(1) stored_hash by simp
    obtain c2 where c2: "deserializeBlock ev (of_int (int n)) block_empty False ?s = Inr (True, p, ?s\<lparr>bst_hash := c2\<rparr>)"
      "length (sc_block c2) = 64"
      using deserialize_unchecked [OF assms(1) st, of block_empty] p(2) c(2) by (auto simp: good_block_def)
    let ?h2 = "?h\<lparr>bh_previous_hash := bh_data_hash (bk_header p)\<rparr>"
    have "generateBlockHeader ev b s = Inr (True, b\<lparr>bk_header := ?h2\<rparr>, s\<lparr>bst_hash := c2\<rparr>)"
      using c(1) last nmax c2(1) True by (simp add: generateBlockHeader_def Let_def)
    then show ?thesis using c2(2) p(1) by (intro exI [of _ ?h2] exI [of _ c2]) simp
  qed
qed

lemma chain_extend:
  assumes io: "io_ok ev" and ch: "chain_ok ev s n" and n: "n + 1 < 2 ^ 32" and fits: "content_fits ev b"
    and hdr: "bh_data_hash (bk_header b) = content_hash ev b" "bh_number (bk_header b) = of_nat (n + 1)"
    and link: "0 < n \<Longrightarrow> \<exists>p. stored ev s (of_nat n) = Some p \<and> bh_previous_hash (bk_header b) = bh_data_hash (bk_header p)"
  shows "\<exists>s'. appendBlock ev b s = (True, s') \<and> chain_ok ev s' (n + 1) \<and> stored ev s' (of_nat (n + 1)) = Some b
    \<and> bst_queue s' = bst_queue s \<and> bst_sign s' = bst_sign s"
proof -
  obtain s' where s': "appendBlock ev b s = (True, s')" "stored ev s' (of_nat (n + 1)) = Some b"
    "getLatestSavedEpoch ev s' = sint (of_nat (n + 1) :: u64)"
    "\<And>k. k \<noteq> of_nat (n + 1) \<Longrightarrow> stored ev s' k = stored ev s k"
    "bst_queue s' = bst_queue s" "bst_hash s' = bst_hash s" "bst_sign s' = bst_sign s"
    using append_ok [OF io, of b s] hdr(2) by auto
  have other: "stored ev s' (of_nat k) = stored ev s (of_nat k)" if "k \<le> n" for k
  proof (rule s'(4))
    have "unat (of_nat k :: u64) \<noteq> unat (of_nat (n + 1) :: u64)" using that n by (simp add: unat_of_nat del: of_nat_Suc of_nat_add)
    then show "(of_nat k :: u64) \<noteq> of_nat (n + 1)" by metis
  qed
  have "sint (of_nat (n + 1) :: u64) = int (n + 1)"
    using n by (simp add: signed_of_nat signed_take_bit_int_eq_self_iff del: of_nat_Suc of_nat_add)
  moreover have "linked ev s' k" if "1 \<le> k" "k \<le> n + 1" for k
  proof (cases "k = n + 1")
    case True
    then show ?thesis using s'(2) hdr fits link other [of n] by (auto simp: linked_def good_block_def)
  next
    case False
    then have "linked ev s k" using that ch by (simp add: chain_ok_def)
    then show ?thesis using other [of k] other [of "k - 1"] False that by (simp add: linked_def)
  qed
  ultimately show ?thesis using s' ch by (intro exI [of _ s']) (simp add: chain_ok_def)
qed

lemma body_ok:
  assumes "memory_ok ev" "length (sc_block (bst_hash s)) = 64" "drain_queue ev st (bst_queue s) = Inr (ds, rs)" "ds \<noteq> []"
    and "length ds < 524288" "\<forall>d \<in> set ds. length d < 2 ^ 32"
    and "rsaEncrypt (se_ssl ev) (root_of ds) (bst_sign s) = Inr (True, sig, cs)"
  shows "\<exists>c. generateBlockBody ev st block_empty s =
      Inr (True, block_empty\<lparr>bk_data := ds, bk_metadata := [rs, [], sig]\<rparr>, s\<lparr>bst_queue := [], bst_hash := c, bst_sign := cs\<rparr>)
    \<and> length (sc_block c) = 64"
proof -
  obtain c where "data_root ev ds (bst_hash s) = Inr (root_of ds, c)" "length (sc_block c) = 64"
    using data_root_ok [OF assms(1,2,6,5,4)] by blast
  then show ?thesis using assms(3,7)
    by (intro exI [of _ c]) (simp add: generateBlockBody_def block_empty_def)
qed

section \<open>A concrete environment\<close>

definition demo_storage_env :: "(string, nat) storage_env" where
  "demo_storage_env = \<lparr>se_ssl = demo_openssl, se_codec = wire_codec, se_ser_data = wire_strs, se_ser_meta = wire_strs,
     se_ser_block = (\<lambda>b. Some (wire_block b)),
     se_parse_block = (\<lambda>t. case unwire_block t of None \<Rightarrow> (False, block_empty) | Some b \<Rightarrow> (True, b)),
     se_writable = (\<lambda>_. True), se_readable = (\<lambda>_. True),
     se_result_char = (\<lambda>r. if r = COMMIT then CHR 0x01 else CHR 0x03), se_top = (\<lambda>_. 0),
     se_stack = sha_ctx_zero, se_tree_mem = True, se_level_mem = (\<lambda>_. True), se_slot_mem = (\<lambda>_ _. True), se_uninit = 0\<rparr>"

definition demo_storage :: "(string, nat) block_storage" where
  "demo_storage = \<lparr>bst_queue = [7], bst_hash = sha_ctx_zero,
     bst_sign = \<lparr>cs_pubKey = Some 5, cs_pivKey = Some 5, cs_mdCtx = []\<rparr>, bst_files = [num_file \<mapsto> ''0'']\<rparr>"

lemma demo_env_ok: "memory_ok demo_storage_env" "io_ok demo_storage_env"
  by (simp_all add: memory_ok_def io_ok_def demo_storage_env_def sha_ctx_zero_def)

lemma length_wire_str: "length (wire_str s) = 2 * length s + 1"
  by (induction s) (simp_all add: wire_str_def)

definition demo_data :: string where
  "demo_data = tr_body wire_codec (mock_transaction 3 1) @ sha256_string (tr_body wire_codec (mock_transaction 3 1))"

lemma demo_data_small: "length demo_data < 2 ^ 20"
  by (simp add: demo_data_def sha256_string_length wire_payload_def wire_rwset_def payload_empty_def rwset_empty_def wire_strs_def
      wire_str_def wire_num_def tr_body_def wire_codec_def mock_transaction_def wire_varint_def)

lemma demo_drain: "drain_queue demo_storage_env [7 \<mapsto> mock_transaction 3 1] [7] = Inr ([demo_data], [CHR 0x03])"
proof -
  have "serializeToString wire_codec (mock_transaction 3 1) = (True, demo_data)"
    using serialize_ok [of wire_codec "mock_transaction 3 1"] small_body by (simp add: demo_data_def)
  then have ser: "serializeToString (se_codec demo_storage_env) (mock_transaction 3 1) = (True, demo_data)"
    by (simp add: demo_storage_env_def)
  have nil: "drain_queue demo_storage_env st [] = Inr ([], [])" for st by (simp add: drain_queue.simps)
  have "se_result_char demo_storage_env (getTransactionResult (mock_transaction 3 1)) = CHR 0x03"
    by (simp add: demo_storage_env_def getTransactionResult_def mock_transaction_def)
  then show ?thesis by (subst drain_queue.simps) (simp add: queue_top_single ser nil)
qed

lemma demo_root_length: "length (root_of [d]) = 32"
  by (simp add: root_of_def bytes_str_def mroot.simps [of "[leaf_of d]"] leaf_of_length)

lemma demo_sign:
  assumes "length m \<le> 900"
  shows "rsaEncrypt demo_openssl m (bst_sign demo_storage) = Inr (True, CHR ''s'' # m, \<lparr>cs_pubKey = Some 5, cs_pivKey = Some 5, cs_mdCtx = m\<rparr>)"
  using assms by (simp add: rsaEncrypt_def demo_openssl_def demo_storage_def sign_buffer_size_def)

lemma demo_chain: "chain_ok demo_storage_env demo_storage 0"
  by (simp add: chain_ok_def getLatestSavedEpoch_def demo_storage_def demo_storage_env_def read_int64_def num_file_def
      is_space_def is_digit_def digits_value_def int64_max_def int64_min_def sha_ctx_zero_def)

section \<open>Properties\<close>

text \<open>
  C19. A generated block extends the chain. From a storage whose blocks 1 to \<open>n\<close> are stored,
  hashed and linked, with a non-empty queue whose transactions serialise, enough memory, files
  that open and a library that signs, \<open>generateBlock\<close> returns true. Block \<open>n + 1\<close> is then stored:
  it holds the serialised transactions and as metadata their results, an empty entry and the
  signature of the Merkle root; it carries the hash of both and the data hash of block \<open>n\<close>; the
  chain invariant holds for \<open>n + 1\<close>, the queue is empty, and the block waits for the broadcast.
\<close>

theorem generate_block_extends_chain:
  assumes env: "memory_ok ev" "io_ok ev" and ch: "chain_ok ev (bg_storage g) n" "n + 1 < 2 ^ 32"
    and q: "drain_queue ev st (bst_queue (bg_storage g)) = Inr (ds, rs)" "ds \<noteq> []" "length ds < 524288"
    and small: "\<forall>d \<in> set ds. length d < 2 ^ 32" "length (se_ser_data ev ds) < 2 ^ 32"
      "length (se_ser_meta ev [rs, [], sig]) < 2 ^ 32"
    and sign: "rsaEncrypt (se_ssl ev) (root_of ds) (bst_sign (bg_storage g)) = Inr (True, sig, cs)"
  shows "\<exists>g' b. generateBlock ev st g = Inr (1, g') \<and> chain_ok ev (bg_storage g') (n + 1)
    \<and> stored ev (bg_storage g') (of_nat (n + 1)) = Some b \<and> bk_data b = ds \<and> bk_metadata b = [rs, [], sig]
    \<and> bst_queue (bg_storage g') = [] \<and> bg_verify g' = bg_verify g @ [b]"
proof -
  have hash: "length (sc_block (bst_hash (bg_storage g))) = 64" using ch(1) by (simp add: chain_ok_def)
  let ?b = "block_empty\<lparr>bk_data := ds, bk_metadata := [rs, [], sig]\<rparr>"
  obtain c where body: "generateBlockBody ev st block_empty (bg_storage g) =
      Inr (True, ?b, (bg_storage g)\<lparr>bst_queue := [], bst_hash := c, bst_sign := cs\<rparr>)" and c: "length (sc_block c) = 64"
    using body_ok [OF env(1) hash q small(1) sign] by blast
  let ?s = "(bg_storage g)\<lparr>bst_queue := [], bst_hash := c, bst_sign := cs\<rparr>"
  have stored_eq: "stored ev ?s k = stored ev (bg_storage g) k" for k by (simp add: stored_def)
  then have linked_eq: "linked ev ?s k = linked ev (bg_storage g) k" for k by (simp add: linked_def)
  have ch': "chain_ok ev ?s n" using ch(1) c by (simp add: chain_ok_def linked_eq getLatestSavedEpoch_def)
  have fits: "content_fits ev ?b" using small by (simp add: content_fits_def)
  obtain h c2 where hd: "generateBlockHeader ev ?b ?s = Inr (True, ?b\<lparr>bk_header := h\<rparr>, ?s\<lparr>bst_hash := c2\<rparr>)"
    "length (sc_block c2) = 64" "bh_data_hash h = content_hash ev ?b" "bh_number h = of_nat (n + 1)"
    "0 < n \<Longrightarrow> \<exists>p. stored ev ?s (of_nat n) = Some p \<and> bh_previous_hash h = bh_data_hash (bk_header p)"
    using header_ok [OF env(2) ch' ch(2) fits] by blast
  let ?b2 = "?b\<lparr>bk_header := h\<rparr>" and ?s2 = "?s\<lparr>bst_hash := c2\<rparr>"
  have st2: "stored ev ?s2 k = stored ev ?s k" for k by (simp add: stored_def)
  then have "chain_ok ev ?s2 n" using ch' hd(2) by (simp add: chain_ok_def linked_def getLatestSavedEpoch_def)
  moreover have "content_fits ev ?b2" "content_hash ev ?b2 = content_hash ev ?b" using fits by (simp_all add: content_fits_def content_hash_def)
  ultimately obtain s' where s': "appendBlock ev ?b2 ?s2 = (True, s')" "chain_ok ev s' (n + 1)"
    "stored ev s' (of_nat (n + 1)) = Some ?b2" "bst_queue s' = bst_queue ?s2"
    using chain_extend [OF env(2) _ ch(2), of ?s2 ?b2] hd(3-5) st2 by auto
  have "generateBlock ev st g = Inr (1, g\<lparr>bg_storage := s', bg_verify := bg_verify g @ [?b2]\<rparr>)"
    using body hd(1) s'(1) by (simp add: generateBlock_def)
  then show ?thesis using s' by (intro exI [of _ "g\<lparr>bg_storage := s', bg_verify := bg_verify g @ [?b2]\<rparr>"] exI [of _ ?b2]) simp
qed

definition demo_generator :: "(string, nat) generator" where
  "demo_generator = \<lparr>bg_storage = demo_storage, bg_verify = [], bg_finish = False, bg_thread = False\<rparr>"

lemma generate_block_extends_chain_witness:
  "\<exists>g' b. generateBlock demo_storage_env [7 \<mapsto> mock_transaction 3 1] demo_generator = Inr (1, g')
     \<and> stored demo_storage_env (bg_storage g') 1 = Some b \<and> bk_data b = [demo_data] \<and> bg_verify g' = [b]"
proof -
  let ?sig = "CHR ''s'' # root_of [demo_data]"
  have g: "bg_storage demo_generator = demo_storage" "bst_queue demo_storage = [7]" "bg_verify demo_generator = []"
    by (simp_all add: demo_generator_def demo_storage_def)
  have sizes: "\<forall>d \<in> set [demo_data]. length d < 2 ^ 32" "length (se_ser_data demo_storage_env [demo_data]) < 2 ^ 32"
    "length (se_ser_meta demo_storage_env [[CHR 0x03], [], ?sig]) < 2 ^ 32"
    using demo_data_small by (simp_all add: demo_storage_env_def wire_strs_def length_wire_str demo_root_length)
  have sign: "rsaEncrypt (se_ssl demo_storage_env) (root_of [demo_data]) (bst_sign (bg_storage demo_generator)) =
      Inr (True, ?sig, \<lparr>cs_pubKey = Some 5, cs_pivKey = Some 5, cs_mdCtx = root_of [demo_data]\<rparr>)"
    using demo_sign [of "root_of [demo_data]"] g by (simp add: demo_storage_env_def demo_root_length)
  have "\<exists>g' b. generateBlock demo_storage_env [7 \<mapsto> mock_transaction 3 1] demo_generator = Inr (1, g')
     \<and> chain_ok demo_storage_env (bg_storage g') (0 + 1)
     \<and> stored demo_storage_env (bg_storage g') (of_nat (0 + 1)) = Some b \<and> bk_data b = [demo_data]
     \<and> bk_metadata b = [[CHR 0x03], [], ?sig] \<and> bst_queue (bg_storage g') = [] \<and> bg_verify g' = bg_verify demo_generator @ [b]"
    by (rule generate_block_extends_chain [OF demo_env_ok(1,2) _ _ _ _ _ sizes sign])
      (use g demo_drain demo_chain in simp_all)
  then show ?thesis using g by auto
qed

end
