(* ===== verification/BlockAudit.thy ===== *)
theory BlockAudit
  imports BlockChain
begin

text \<open>
  The order of the transactions in a block, what reading a block back checks and what it
  leaves open, and the epoch without committed transactions.
\<close>

text \<open>
  The transactions of a block: \<open>generateBlockBody\<close> empties the queue into the block, every
  pending transaction once, by descending transaction id, and the first metadata entry holds
  their results in the same order.
\<close>

theorem block_transactions_descend:
  assumes "generateBlockBody ev st block_empty s = Inr (ok, b, s')"
  shows "\<exists>ts. mset ts = mset (map (\<lambda>a. the (st a)) (bst_queue s)) \<and> sorted (rev (map tr_tid ts))
    \<and> bk_data b = map (\<lambda>t. snd (serializeToString (se_codec ev) t)) ts
    \<and> bk_metadata b ! 0 = map (\<lambda>t. se_result_char ev (tr_res t)) ts \<and> length (bk_metadata b) = 3
    \<and> bst_queue s' = [] \<and> ok"
proof -
  obtain ds rs where d: "drain_queue ev st (bst_queue s) = Inr (ds, rs)" and b: "bk_data b = ds" "bk_metadata b ! 0 = rs"
    "length (bk_metadata b) = 3" "bst_queue s' = []" "ok"
    using assms by (auto simp: generateBlockBody_def bind_res_Inr_iff check_Inr_iff block_empty_def split: prod.splits)
  from drain_sorted [OF d] show ?thesis unfolding b by (elim ex_forward) (use b in simp)
qed

lemma block_transactions_descend_witness:
  "\<exists>b s'. generateBlockBody demo_storage_env [7 \<mapsto> mock_transaction 3 1] block_empty demo_storage = Inr (True, b, s')
     \<and> length (bk_metadata b) = 3 \<and> bst_queue s' = []"
proof -
  have q: "drain_queue demo_storage_env [7 \<mapsto> mock_transaction 3 1] (bst_queue demo_storage) = Inr ([demo_data], [CHR 0x03])"
    using demo_drain by (simp add: demo_storage_def)
  have h: "length (sc_block (bst_hash demo_storage)) = 64" by (simp add: demo_storage_def sha_ctx_zero_def)
  have sign: "rsaEncrypt (se_ssl demo_storage_env) (root_of [demo_data]) (bst_sign demo_storage) =
      Inr (True, CHR ''s'' # root_of [demo_data], \<lparr>cs_pubKey = Some 5, cs_pivKey = Some 5, cs_mdCtx = root_of [demo_data]\<rparr>)"
    using demo_sign [of "root_of [demo_data]"] by (simp add: demo_storage_env_def demo_root_length)
  obtain b s' where g: "generateBlockBody demo_storage_env [7 \<mapsto> mock_transaction 3 1] block_empty demo_storage = Inr (True, b, s')"
    using body_ok [OF demo_env_ok(1) h q _ _ _ sign] demo_data_small by auto
  show ?thesis using block_transactions_descend [OF g] g by auto
qed

text \<open>
  An epoch without committed transactions: with an empty queue the Merkle tree is empty,
  \<open>mt_get_root\<close> dereferences a null pointer, and so does \<open>generateBlock\<close>.
\<close>

theorem empty_epoch_crashes:
  assumes "memory_ok ev" "bst_queue (bg_storage g) = []"
  shows "generateBlock ev st g = Inl NullDeref"
  using assms data_root_empty [OF assms(1)]
  by (simp add: generateBlock_def generateBlockBody_def drain_queue.simps block_empty_def)

lemma empty_epoch_crashes_witness:
  "generateBlock demo_storage_env st (demo_generator\<lparr>bg_storage := demo_storage\<lparr>bst_queue := []\<rparr>\<rparr>) = Inl NullDeref"
  by (rule empty_epoch_crashes [OF demo_env_ok(1)]) simp

text \<open>
  What the hash of a block covers. Reading a block without the signature check succeeds
  exactly when the stored data hash is the hash of data and metadata. So the contents of two
  accepted blocks with the same data hash, serialised in one list, collide under SHA-256 or are
  the same. But the
  number and the previous hash are free, and since both lists have field number 1 a metadata
  entry can be moved to the end of the data (or back) unnoticed: every redistribution of the
  same entries, under any number and link, is accepted.
\<close>

theorem block_hash_scope:
  assumes io: "io_ok ev" and hash: "length (sc_block (bst_hash s)) = 64"
    and b: "stored ev s (ucast e) = Some b" "content_fits ev b"
    and b': "stored ev s (ucast e') = Some b'" "content_fits ev b'"
    and same: "bh_data_hash (bk_header b') = bh_data_hash (bk_header b)"
    and proto: "se_ser_meta ev = se_ser_data ev" "\<And>xs ys. se_ser_data ev (xs @ ys) = se_ser_data ev xs @ se_ser_data ev ys"
  shows "\<exists>ok ok' s1 s2. deserializeBlock ev e x False s = Inr (ok, b, s1) \<and> deserializeBlock ev e' y False s = Inr (ok', b', s2)
    \<and> (ok \<longleftrightarrow> bh_data_hash (bk_header b) = content_hash ev b)
    \<and> (bk_data b' @ bk_metadata b' = bk_data b @ bk_metadata b \<longrightarrow> ok' = ok)
    \<and> (ok \<and> ok' \<longrightarrow> sha256_string (se_ser_data ev (bk_data b' @ bk_metadata b')) =
         sha256_string (se_ser_data ev (bk_data b @ bk_metadata b)))"
proof -
  obtain c c' where d: "deserializeBlock ev e x False s = Inr (bh_data_hash (bk_header b) = content_hash ev b, b, s\<lparr>bst_hash := c\<rparr>)"
    "deserializeBlock ev e' y False s = Inr (bh_data_hash (bk_header b') = content_hash ev b', b', s\<lparr>bst_hash := c'\<rparr>)"
    using deserialize_unchecked [OF io b hash] deserialize_unchecked [OF io b' hash] by blast
  have ch: "content_hash ev u = sha256_string (se_ser_data ev (bk_data u @ bk_metadata u))" for u
    by (simp add: content_hash_def proto)
  show ?thesis
    by (rule exI, rule exI, rule exI, rule exI, intro conjI, rule d(1), rule d(2)) (auto simp: ch same)
qed

definition good_header :: block_header where
  "good_header = \<lparr>bh_number = 1, bh_previous_hash = [], bh_data_hash = sha256_string (wire_strs [''tx'', ''r'', [], ''sig''])\<rparr>"

definition moved_storage :: "(string, nat) block_storage" where
  "moved_storage = demo_storage\<lparr>bst_files :=
     [block_file 1 \<mapsto> wire_block \<lparr>bk_header = good_header, bk_data = [''tx''], bk_metadata = [''r'', [], ''sig'']\<rparr>,
      block_file 2 \<mapsto> wire_block \<lparr>bk_header = good_header\<lparr>bh_number := 9\<rparr>, bk_data = [''tx'', ''r''], bk_metadata = [[], ''sig'']\<rparr>]\<rparr>"

lemma block_hash_scope_witness:
  "\<exists>b s'. deserializeBlock demo_storage_env 2 block_empty False moved_storage = Inr (True, b, s')
     \<and> bk_data b = [''tx'', ''r''] \<and> bh_number (bk_header b) = 9"
proof -
  let ?b = "\<lparr>bk_header = good_header, bk_data = [''tx''], bk_metadata = [''r'', [], ''sig'']\<rparr>"
  let ?b' = "\<lparr>bk_header = good_header\<lparr>bh_number := 9\<rparr>, bk_data = [''tx'', ''r''], bk_metadata = [[], ''sig'']\<rparr>"
  have ne: "block_file 1 \<noteq> block_file 2" using block_file_inj [of 1 2] by auto
  have parse: "se_parse_block demo_storage_env (wire_block x) = (True, x)" for x by (simp add: demo_storage_env_def)
  have st: "stored demo_storage_env moved_storage (ucast (1 :: u32)) = Some ?b"
    "stored demo_storage_env moved_storage (ucast (2 :: u32)) = Some ?b'"
    using ne by (simp_all add: stored_def moved_storage_def parse)
  have fits: "content_fits demo_storage_env ?b" "content_fits demo_storage_env ?b'"
    by (simp_all add: content_fits_def demo_storage_env_def wire_strs_def wire_str_def)
  have h: "length (sc_block (bst_hash moved_storage)) = 64"
    by (simp add: moved_storage_def demo_storage_def sha_ctx_zero_def)
  have pr: "se_ser_meta demo_storage_env = se_ser_data demo_storage_env"
    "se_ser_data demo_storage_env (xs @ ys) = se_ser_data demo_storage_env xs @ se_ser_data demo_storage_env ys" for xs ys
    by (simp_all add: demo_storage_env_def wire_strs_def)
  have good: "bh_data_hash (bk_header ?b) = content_hash demo_storage_env ?b"
    by (simp add: content_hash_def demo_storage_env_def good_header_def wire_strs_def)
  obtain ok' s2 where "deserializeBlock demo_storage_env 2 block_empty False moved_storage = Inr (ok', ?b', s2)" "ok'"
    using block_hash_scope [OF demo_env_ok(2) h st(1) fits(1) st(2) fits(2) _ pr, of block_empty block_empty] good by auto
  then show ?thesis by auto
qed

text \<open>
  The signature check reads the wrong entry. Of a block as \<open>generateBlockBody\<close> makes it (the
  results first, the signature third) \<open>deserializeBlock\<close> with the check recomputes the right
  Merkle root but verifies the string of transaction results as its signature; the signature
  entry has no influence on the answer.
\<close>

theorem checksum_verifies_results:
  assumes "memory_ok ev" "io_ok ev" "length (sc_block (bst_hash s)) = 64"
    and "stored ev s (ucast e) = Some b" "good_block ev b" "bk_metadata b = [results, [], sig]"
    and "bk_data b \<noteq> []" "length (bk_data b) < 524288" "\<forall>d \<in> set (bk_data b). length d < 2 ^ 32"
  shows "\<exists>s'. deserializeBlock ev e x True s =
    Inr (fst (rsaDecrypt (se_ssl ev) (root_of (bk_data b)) results (bst_sign s)), b, s')"
proof -
  have fits: "content_fits ev b" and dh: "bh_data_hash (bk_header b) = content_hash ev b"
    using assms(5) by (simp_all add: good_block_def)
  obtain c where c: "block_digest ev b (bst_hash s) = (True, content_hash ev b, c)" "length (sc_block c) = 64"
    using block_digest_ok [OF assms(3) fits] by blast
  obtain c2 where c2: "data_root ev (bk_data b) c = Inr (root_of (bk_data b), c2)"
    using data_root_ok [OF assms(1) c(2) assms(9,8,7)] by blast
  have "loadBlock ev (x\<lparr>bk_header := (bk_header x)\<lparr>bh_number := ucast e\<rparr>\<rparr>) s = (True, b)"
    by (rule load_stored [OF assms(2)]) (simp add: assms(4))
  then show ?thesis using c c2 dh assms(6)
    by (cases "rsaDecrypt (se_ssl ev) (root_of (bk_data b)) results (bst_sign s)") (auto simp: deserializeBlock_def Let_def)
qed

lemma checksum_verifies_results_witness:
  "\<exists>s'. deserializeBlock demo_storage_env 1 block_empty True moved_storage =
     Inr (False, \<lparr>bk_header = good_header, bk_data = [''tx''], bk_metadata = [''r'', [], ''sig'']\<rparr>, s')"
proof -
  let ?b = "\<lparr>bk_header = good_header, bk_data = [''tx''], bk_metadata = [''r'', [], ''sig'']\<rparr>"
  have ne: "block_file 1 \<noteq> block_file 2" using block_file_inj [of 1 2] by auto
  have parse: "se_parse_block demo_storage_env (wire_block x) = (True, x)" for x by (simp add: demo_storage_env_def)
  have st: "stored demo_storage_env moved_storage (ucast (1 :: u32)) = Some ?b"
    using ne by (simp add: stored_def moved_storage_def parse)
  have good: "good_block demo_storage_env ?b"
    by (simp add: good_block_def content_fits_def content_hash_def demo_storage_env_def good_header_def wire_strs_def wire_str_def)
  have h: "length (sc_block (bst_hash moved_storage)) = 64"
    by (simp add: moved_storage_def demo_storage_def sha_ctx_zero_def)
  have l: "length (root_of [''tx'']) = 32" by (rule demo_root_length)
  have "\<not> fst (rsaDecrypt (se_ssl demo_storage_env) (root_of [''tx'']) ''r'' (bst_sign moved_storage))"
    by (simp add: rsaDecrypt_def demo_storage_env_def demo_openssl_def moved_storage_def demo_storage_def)
  then show ?thesis
    using checksum_verifies_results [OF demo_env_ok(1,2) h st good, of "''r''" "''sig''" block_empty] by simp
qed

end
