(* ===== verification/EpochEnd.thy ===== *)
theory EpochEnd
  imports TransactionManager BlockAudit
begin

text \<open>
  The end of an epoch in the transaction manager, together with the block generator: which
  transactions go into the block, which are sent again, which are forgotten.
\<close>

section \<open>The contract of the block generator\<close>

locale block_sink =
  fixes add :: "tptr \<Rightarrow> 'g \<Rightarrow> u32 \<times> 'g" and queue :: "'g \<Rightarrow> tptr list"
  assumes queue_add: "queue (snd (add a g)) = queue g @ [a]"

text \<open>The results the transactions had when the epoch ended.\<close>

definition with_result :: "tstore \<Rightarrow> tr_result set \<Rightarrow> tptr list \<Rightarrow> tptr list" where
  "with_result st R as = filter (\<lambda>a. case st a of Some t \<Rightarrow> tr_res t \<in> R | None \<Rightarrow> False) as"

definition retry :: "u32 \<Rightarrow> tptr list \<Rightarrow> tstore \<Rightarrow> tstore" where
  "retry e as st = (\<lambda>a. if a \<in> set as then map_option (\<lambda>t. setEpoch e (resetTransaction t)) (st a) else st a)"

text \<open>
  \<open>full_batches\<close>: what has been sent so far are full batches of the next epoch, and with the
  batch being filled they hold the retries in order.
\<close>

definition full_batches :: "u32 \<Rightarrow> wrapper list \<Rightarrow> wrapper \<Rightarrow> tptr list \<Rightarrow> bool" where
  "full_batches e ws w as \<longleftrightarrow> (\<forall>v \<in> set ws. length (wrap_list v) = 500 \<and> wrap_epoch v = e)
     \<and> length (wrap_list w) < 500 \<and> wrap_epoch w = e \<and> concat (map wrap_list ws) @ wrap_list w = as"

text \<open>What the manager's assertion asks of the transactions it monitors.\<close>

definition monitored :: "('m, 'g) tr_manager \<Rightarrow> tptr \<Rightarrow> bool" where
  "monitored tm a \<longleftrightarrow> (\<exists>t. tm_store tm a = Some t \<and> tr_epoch t = tm_finished tm)"

lemma with_result_simps [simp]:
  "with_result st R [] = []"
  "st a = Some t \<Longrightarrow> with_result st R (a # as) = (if tr_res t \<in> R then a # with_result st R as else with_result st R as)"
  by (simp_all add: with_result_def)

lemma with_result_other: "a \<notin> set as \<Longrightarrow> with_result (st(a := x)) R as = with_result st R as"
  by (auto simp: with_result_def intro!: filter_cong)

lemma retry_simps [simp]: "retry e [] st = st"
  "a \<notin> set as \<Longrightarrow> retry e as (retry e [a] st) = retry e (a # as) st"
  by (auto simp: retry_def)

lemma tupd_retry: "tupd (\<lambda>t. setEpoch e (resetTransaction t)) a st = retry e [a] st"
  by (auto simp: tupd_app retry_def)

lemma retry_app: "st a = Some t \<Longrightarrow> retry e [a] st = st(a \<mapsto> setEpoch e (resetTransaction t))"
  by (auto simp: retry_def)

context block_sink
begin

lemma sort_abort:
  assumes "tm_store tm a = Some t \<and> tr_epoch t = tm_finished tm" "tr_res t = ABORT" "full_batches (tm_epoch tm + 1) ws w as" "wrap_epoch (tm_next tm) = tm_epoch tm + 1"
  shows "\<exists>w' vs. sort_transaction ev a (w, tm) = Inr (w', tm\<lparr>tm_store := retry (tm_epoch tm + 1) [a] (tm_store tm),
      tm_sent := tm_sent tm @ vs, tm_next := (tm_next tm)\<lparr>wrap_list := wrap_list (tm_next tm) @ [a]\<rparr>\<rparr>)
    \<and> full_batches (tm_epoch tm + 1) (ws @ vs) w' (as @ [a])"
proof -
  let ?e = "tm_epoch tm + 1"
  let ?st = "retry ?e [a] (tm_store tm)"
  let ?w = "w\<lparr>wrap_list := wrap_list w @ [a]\<rparr>"
  have st: "?st a = Some (setEpoch ?e (resetTransaction t))" using assms(1) by (simp add: retry_def)
  have push: "pushTransaction ?st (Some a) v = Inr (True, v\<lparr>wrap_list := wrap_list v @ [a]\<rparr>)" if "wrap_epoch v = ?e" for v
    using st that by (simp add: pushTransaction_def getEpoch_def setEpoch_def)
  have w: "wrap_epoch w = ?e" "length (wrap_list w) < 500" using assms(3) by (simp_all add: full_batches_def)
  have size: "wrap_size ?w = TR_MGR_GET_BATCH_MAX_SIZE \<longleftrightarrow> length (wrap_list w) + 1 = 500"
    using w(2) by (simp add: wrap_size_def TR_MGR_GET_BATCH_MAX_SIZE_def word_unat_eq_iff unat_word_ariths unat_of_nat)
  show ?thesis
  proof (cases "length (wrap_list w) + 1 = 500")
    case True
    have "sort_transaction ev a (w, tm) = Inr (new_wrapper ?e, tm\<lparr>tm_store := ?st, tm_sent := tm_sent tm @ [?w],
        tm_next := (tm_next tm)\<lparr>wrap_list := wrap_list (tm_next tm) @ [a]\<rparr>\<rparr>)"
      using assms(1,2,4) size True push w(1)
      by (simp add: sort_transaction_def getEpoch_def getTransactionResult_def tupd_retry sendTransactionHandle_def Let_def)
    moreover have "full_batches ?e (ws @ [?w]) (new_wrapper ?e) (as @ [a])"
      using assms(3) True by (auto simp: full_batches_def new_wrapper_def)
    ultimately show ?thesis by blast
  next
    case False
    have "sort_transaction ev a (w, tm) = Inr (?w, tm\<lparr>tm_store := ?st, tm_sent := tm_sent tm @ [],
        tm_next := (tm_next tm)\<lparr>wrap_list := wrap_list (tm_next tm) @ [a]\<rparr>\<rparr>)"
      using assms(1,2,4) size False push w(1)
      by (simp add: sort_transaction_def getEpoch_def getTransactionResult_def tupd_retry Let_def)
    moreover have "full_batches ?e (ws @ []) ?w (as @ [a])"
      using assms(3) False by (auto simp: full_batches_def)
    ultimately show ?thesis by blast
  qed
qed

lemma sort_spec:
  assumes "te_add ev = add" "distinct as" "\<forall>a \<in> set as. monitored tm a" "wrap_epoch (tm_next tm) = tm_epoch tm + 1"
    and "full_batches (tm_epoch tm + 1) ws w bs"
  shows "\<exists>w' tm' vs. sort_transactions ev as (w, tm) = Inr (w', tm')
    \<and> tm_sent tm' = tm_sent tm @ vs \<and> full_batches (tm_epoch tm + 1) (ws @ vs) w' (bs @ with_result (tm_store tm) {ABORT} as)
    \<and> tm_next tm' = (tm_next tm)\<lparr>wrap_list := wrap_list (tm_next tm) @ with_result (tm_store tm) {ABORT} as\<rparr>
    \<and> queue (tm_gen tm') = queue (tm_gen tm) @ with_result (tm_store tm) {COMMIT, ABORT_NO_RETRY} as
    \<and> tm_store tm' = retry (tm_epoch tm + 1) (with_result (tm_store tm) {ABORT} as) (tm_store tm)
    \<and> tm_epoch tm' = tm_epoch tm \<and> tm_comm tm' = tm_comm tm"
  using assms(2-)
proof (induction as arbitrary: tm ws w bs)
  case (Cons a as)
  obtain t where te: "tm_store tm a = Some t \<and> tr_epoch t = tm_finished tm" using Cons.prems(2) by (auto simp: monitored_def)
  then have t: "tm_store tm a = Some t" by simp
  have a: "a \<notin> set as" "distinct as" using Cons.prems(1) by auto
  show ?case
  proof (cases "tr_res t = ABORT")
    case True
    obtain w1 vs where s: "sort_transaction ev a (w, tm) = Inr (w1, tm\<lparr>tm_store := retry (tm_epoch tm + 1) [a] (tm_store tm),
        tm_sent := tm_sent tm @ vs, tm_next := (tm_next tm)\<lparr>wrap_list := wrap_list (tm_next tm) @ [a]\<rparr>\<rparr>)"
      and fb: "full_batches (tm_epoch tm + 1) (ws @ vs) w1 (bs @ [a])"
      using sort_abort [OF te True Cons.prems(4,3)] by blast
    let ?tm = "tm\<lparr>tm_store := retry (tm_epoch tm + 1) [a] (tm_store tm),
        tm_sent := tm_sent tm @ vs, tm_next := (tm_next tm)\<lparr>wrap_list := wrap_list (tm_next tm) @ [a]\<rparr>\<rparr>"
    have rest: "with_result (tm_store ?tm) R as = with_result (tm_store tm) R as" for R
      using t a(1) by (simp add: retry_app with_result_other)
    have pre: "\<forall>x \<in> set as. monitored ?tm x" "wrap_epoch (tm_next ?tm) = tm_epoch ?tm + 1"
      using Cons.prems(2,3) a(1) by (auto simp: retry_def monitored_def)
    have fb': "full_batches (tm_epoch ?tm + 1) (ws @ vs) w1 (bs @ [a])" using fb by simp
    obtain w' tm' us where ih: "sort_transactions ev as (w1, ?tm) = Inr (w', tm')"
      "tm_sent tm' = tm_sent ?tm @ us" "full_batches (tm_epoch ?tm + 1) ((ws @ vs) @ us) w' ((bs @ [a]) @ with_result (tm_store ?tm) {ABORT} as)"
      "tm_next tm' = (tm_next ?tm)\<lparr>wrap_list := wrap_list (tm_next ?tm) @ with_result (tm_store ?tm) {ABORT} as\<rparr>"
      "queue (tm_gen tm') = queue (tm_gen ?tm) @ with_result (tm_store ?tm) {COMMIT, ABORT_NO_RETRY} as"
      "tm_store tm' = retry (tm_epoch ?tm + 1) (with_result (tm_store ?tm) {ABORT} as) (tm_store ?tm)"
      "tm_epoch tm' = tm_epoch ?tm" "tm_comm tm' = tm_comm ?tm"
      using Cons.IH [OF a(2) pre fb'] by blast
    have na: "a \<notin> set (with_result (tm_store tm) {ABORT} as)" using a(1) by (simp add: with_result_def)
    have wr: "with_result (tm_store tm) {ABORT} (a # as) = a # with_result (tm_store tm) {ABORT} as"
      "with_result (tm_store tm) {COMMIT, ABORT_NO_RETRY} (a # as) = with_result (tm_store tm) {COMMIT, ABORT_NO_RETRY} as"
      using t True by simp_all
    have run: "sort_transactions ev (a # as) (w, tm) = Inr (w', tm')" using s ih(1) by simp
    show ?thesis unfolding wr
      using run ih(2-) na unfolding rest
      by (intro exI [of _ w'] exI [of _ tm'] exI [of _ "vs @ us"]) simp
  next
    case False
    define g where "g = (if tr_res t \<in> {COMMIT, ABORT_NO_RETRY} then snd (te_add ev a (tm_gen tm)) else tm_gen tm)"
    let ?tm = "tm\<lparr>tm_gen := g\<rparr>"
    have s: "sort_transaction ev a (w, tm) = Inr (w, ?tm)"
      using te False by (auto simp: sort_transaction_def getEpoch_def getTransactionResult_def g_def)
    have pre: "\<forall>x \<in> set as. monitored ?tm x" "wrap_epoch (tm_next ?tm) = tm_epoch ?tm + 1"
      "full_batches (tm_epoch ?tm + 1) ws w bs" using Cons.prems(2-4) by (auto simp: monitored_def)
    obtain w' tm' us where ih: "sort_transactions ev as (w, ?tm) = Inr (w', tm')"
      "tm_sent tm' = tm_sent ?tm @ us" "full_batches (tm_epoch ?tm + 1) (ws @ us) w' (bs @ with_result (tm_store ?tm) {ABORT} as)"
      "tm_next tm' = (tm_next ?tm)\<lparr>wrap_list := wrap_list (tm_next ?tm) @ with_result (tm_store ?tm) {ABORT} as\<rparr>"
      "queue (tm_gen tm') = queue (tm_gen ?tm) @ with_result (tm_store ?tm) {COMMIT, ABORT_NO_RETRY} as"
      "tm_store tm' = retry (tm_epoch ?tm + 1) (with_result (tm_store ?tm) {ABORT} as) (tm_store ?tm)"
      "tm_epoch tm' = tm_epoch ?tm" "tm_comm tm' = tm_comm ?tm"
      using Cons.IH [OF a(2) pre] by blast
    have q: "queue g = queue (tm_gen tm) @ (if tr_res t \<in> {COMMIT, ABORT_NO_RETRY} then [a] else [])"
      using queue_add assms(1) by (simp add: g_def)
    have run: "sort_transactions ev (a # as) (w, tm) = Inr (w', tm')" using s ih(1) by simp
    show ?thesis
      using run ih(2-) q t False by (intro exI [of _ w'] exI [of _ tm'] exI [of _ us]) simp
  qed
qed simp

end

interpretation gen: block_sink addCommittedTransaction "\<lambda>g. bst_queue (bg_storage g)"
  by unfold_locales (simp add: addCommittedTransaction_def addPendingTransaction_def)

section \<open>Properties\<close>

lemma sort_current:
  assumes "te_add ev = addCommittedTransaction" "distinct (wrap_list (tm_current tm))"
    and "\<forall>a \<in> set (wrap_list (tm_current tm)). monitored tm a" "wrap_epoch (tm_next tm) = tm_epoch tm + 1"
  obtains w' tm' vs where "sort_transactions ev (wrap_list (tm_current tm)) (new_wrapper (tm_epoch tm + 1), tm) = Inr (w', tm')"
    "tm_sent tm' = tm_sent tm @ vs"
    "full_batches (tm_epoch tm + 1) vs w' (with_result (tm_store tm) {ABORT} (wrap_list (tm_current tm)))"
    "tm_next tm' = (tm_next tm)\<lparr>wrap_list := wrap_list (tm_next tm) @ with_result (tm_store tm) {ABORT} (wrap_list (tm_current tm))\<rparr>"
    "bst_queue (bg_storage (tm_gen tm')) = bst_queue (bg_storage (tm_gen tm)) @
       with_result (tm_store tm) {COMMIT, ABORT_NO_RETRY} (wrap_list (tm_current tm))"
    "tm_store tm' = retry (tm_epoch tm + 1) (with_result (tm_store tm) {ABORT} (wrap_list (tm_current tm))) (tm_store tm)"
    "tm_epoch tm' = tm_epoch tm" "tm_comm tm' = tm_comm tm"
proof -
  have "full_batches (tm_epoch tm + 1) [] (new_wrapper (tm_epoch tm + 1)) []"
    by (simp add: full_batches_def new_wrapper_def)
  from gen.sort_spec [OF assms this, unfolded append_Nil] show thesis using that by blast
qed

text \<open>
  C24. The end of an epoch sorts its transactions, which must carry the number of the epoch that
  is finished. When \<open>finish_epoch\<close> returns, the manager is in
  the next epoch; the committed transactions and the ones aborted for good have been handed to
  the block generator in order, before its block was made with success; the aborted ones have
  been reset to the new epoch, sent to the coordinator in order in batches of which all but the
  last hold exactly 500, and are monitored after the transactions already waiting for the new
  epoch; a transaction without a verdict is in neither, it is forgotten.
\<close>

theorem epoch_end_sorts_transactions:
  assumes ev: "te_add ev = addCommittedTransaction" and cur: "distinct (wrap_list (tm_current tm))"
      "\<forall>a \<in> set (wrap_list (tm_current tm)). monitored tm a" "wrap_epoch (tm_next tm) = tm_epoch tm + 1"
    and fin: "finish_epoch ev tm = Inr tm'"
  shows "tm_epoch tm' = tm_epoch tm + 1 \<and>
    tm_current tm' = (tm_next tm)\<lparr>wrap_list := wrap_list (tm_next tm) @ with_result (tm_store tm) {ABORT} (wrap_list (tm_current tm))\<rparr>
    \<and> (\<exists>vs w. tm_sent tm' = tm_sent tm @ vs @ [w]
         \<and> full_batches (tm_epoch tm + 1) vs w (with_result (tm_store tm) {ABORT} (wrap_list (tm_current tm))))
    \<and> (\<exists>g r st. te_generate ev st g = Inr (r, tm_gen tm') \<and> r \<noteq> 0
         \<and> st = retry (tm_epoch tm + 1) (with_result (tm_store tm) {ABORT} (wrap_list (tm_current tm))) (tm_store tm)
         \<and> bst_queue (bg_storage g) = bst_queue (bg_storage (tm_gen tm)) @
             with_result (tm_store tm) {COMMIT, ABORT_NO_RETRY} (wrap_list (tm_current tm)))"
proof -
  obtain w' tm1 vs where s: "sort_transactions ev (wrap_list (tm_current tm)) (new_wrapper (tm_epoch tm + 1), tm) = Inr (w', tm1)"
    "tm_sent tm1 = tm_sent tm @ vs"
    "full_batches (tm_epoch tm + 1) vs w' (with_result (tm_store tm) {ABORT} (wrap_list (tm_current tm)))"
    "tm_next tm1 = (tm_next tm)\<lparr>wrap_list := wrap_list (tm_next tm) @ with_result (tm_store tm) {ABORT} (wrap_list (tm_current tm))\<rparr>"
    "bst_queue (bg_storage (tm_gen tm1)) = bst_queue (bg_storage (tm_gen tm)) @
       with_result (tm_store tm) {COMMIT, ABORT_NO_RETRY} (wrap_list (tm_current tm))"
    "tm_store tm1 = retry (tm_epoch tm + 1) (with_result (tm_store tm) {ABORT} (wrap_list (tm_current tm))) (tm_store tm)"
    "tm_epoch tm1 = tm_epoch tm" by (rule sort_current [OF ev cur]) blast
  obtain r g where g: "te_generate ev (tm_store tm1) (tm_gen tm1) = Inr (r, g)" "r \<noteq> 0" "tm_gen tm' = g"
    and tm': "tm_epoch tm' = tm_epoch tm1 + 1" "tm_current tm' = tm_next tm1" "tm_sent tm' = tm_sent tm1 @ [w']"
    using fin s(1) by (auto simp: finish_epoch_def getTransactionList_def bind_res_Inr_iff check_Inr_iff sendTransactionHandle_def Let_def)
  have sent: "tm_sent tm' = tm_sent tm @ vs @ [w']" using tm'(3) s(2) by simp
  show ?thesis using tm'(1,2) s(3-7) g sent by metis
qed

definition demo_tm_env :: "(unit, (string, nat) generator) tm_env" where
  "demo_tm_env = \<lparr>te_get = (\<lambda>e mx mn st m. Inr (None, st, m)), te_clear = (\<lambda>e st m. Inr (st, m)),
     te_latest = bg_getLatestSavedEpoch demo_storage_env, te_add = addCommittedTransaction, te_generate = generateBlock demo_storage_env\<rparr>"

text \<open>Transaction 7 awaits its block, 8 was aborted in epoch 3.\<close>

definition demo_manager :: "(unit, (string, nat) generator) tr_manager" where
  "demo_manager = \<lparr>tm_current = \<lparr>wrap_epoch = 3, wrap_list = [8]\<rparr>, tm_next = new_wrapper 4, tm_epoch = 3, tm_finished = 3,
     tm_comm = (), tm_gen = demo_generator,
     tm_store = [7 \<mapsto> mock_transaction 3 1, 8 \<mapsto> setTransactionResult ABORT (mock_transaction 3 2)], tm_sent = []\<rparr>"

lemma demo_generates:
  "\<exists>g'. generateBlock demo_storage_env ([7 \<mapsto> mock_transaction 3 1](8 := x)) demo_generator = Inr (1, g')"
proof -
  let ?st = "[7 \<mapsto> mock_transaction 3 1](8 := x)"
  have one: "drain_queue demo_storage_env st [7] = Inr ([demo_data], [CHR 0x03])" if "st 7 = Some (mock_transaction 3 1)" for st
    using demo_drain that by (simp add: drain_queue.simps [of _ _ "[7]"] drain_queue.simps [of _ _ "[]"] queue_top_single)
  let ?sig = "CHR ''s'' # root_of [demo_data]"
  have g: "bg_storage demo_generator = demo_storage" "bst_queue demo_storage = [7]"
    by (simp_all add: demo_generator_def demo_storage_def)
  have hash: "length (sc_block (bst_hash demo_storage)) = 64" by (simp add: demo_storage_def sha_ctx_zero_def)
  have sign: "rsaEncrypt (se_ssl demo_storage_env) (root_of [demo_data]) (bst_sign demo_storage) =
      Inr (True, ?sig, \<lparr>cs_pubKey = Some 5, cs_pivKey = Some 5, cs_mdCtx = root_of [demo_data]\<rparr>)"
    using demo_sign [of "root_of [demo_data]"] by (simp add: demo_storage_env_def demo_root_length)
  have q: "drain_queue demo_storage_env ?st (bst_queue demo_storage) = Inr ([demo_data], [CHR 0x03])"
    using one [of ?st] g(2) by simp
  let ?b = "block_empty\<lparr>bk_data := [demo_data], bk_metadata := [[CHR 0x03], [], ?sig]\<rparr>"
  obtain c where body: "generateBlockBody demo_storage_env ?st block_empty demo_storage =
      Inr (True, ?b, demo_storage\<lparr>bst_queue := [], bst_hash := c, bst_sign := \<lparr>cs_pubKey = Some 5, cs_pivKey = Some 5, cs_mdCtx = root_of [demo_data]\<rparr>\<rparr>)"
    and c: "length (sc_block c) = 64"
    using body_ok [OF demo_env_ok(1) hash q _ _ _ sign] demo_data_small by auto
  let ?s = "demo_storage\<lparr>bst_queue := [], bst_hash := c, bst_sign := \<lparr>cs_pubKey = Some 5, cs_pivKey = Some 5, cs_mdCtx = root_of [demo_data]\<rparr>\<rparr>"
  have ch: "chain_ok demo_storage_env ?s 0" using demo_chain c by (simp add: chain_ok_def getLatestSavedEpoch_def)
  have fits: "content_fits demo_storage_env ?b"
    using demo_data_small by (simp add: content_fits_def demo_storage_env_def wire_strs_def length_wire_str demo_root_length)
  obtain b2 s2 where hd: "generateBlockHeader demo_storage_env ?b ?s = Inr (True, b2, s2)"
    using header_ok [OF demo_env_ok(2) ch _ fits] by auto
  obtain s3 where "appendBlock demo_storage_env b2 s2 = (True, s3)" using append_ok [OF demo_env_ok(2)] by blast
  then show ?thesis using body hd g(1) by (simp add: generateBlock_def)
qed

lemma epoch_end_sorts_transactions_witness:
  "\<exists>tm'. finish_epoch demo_tm_env demo_manager = Inr tm' \<and> tm_epoch tm' = 4 \<and> wrap_list (tm_current tm') = [8]"
proof -
  let ?tm = demo_manager
  have cur: "distinct (wrap_list (tm_current ?tm))" "\<forall>a \<in> set (wrap_list (tm_current ?tm)). monitored ?tm a"
    "wrap_epoch (tm_next ?tm) = tm_epoch ?tm + 1" and ev: "te_add demo_tm_env = addCommittedTransaction"
    by (simp_all add: demo_manager_def new_wrapper_def demo_tm_env_def monitored_def setTransactionResult_def mock_transaction_def)
  obtain w' tm1 vs where s: "sort_transactions demo_tm_env (wrap_list (tm_current ?tm)) (new_wrapper (tm_epoch ?tm + 1), ?tm) = Inr (w', tm1)"
    "tm_store tm1 = retry (tm_epoch ?tm + 1) (with_result (tm_store ?tm) {ABORT} (wrap_list (tm_current ?tm))) (tm_store ?tm)"
    by (rule sort_current [OF ev cur]) blast
  have gen: "tm_gen tm1 = demo_generator"
    using s(1) by (auto simp: demo_manager_def sort_transaction_def check_Inr_iff getEpoch_def setTransactionResult_def mock_transaction_def getTransactionResult_def
        bind_res_Inr_iff Let_def sendTransactionHandle_def split: if_splits prod.splits)
  have abort: "with_result (tm_store ?tm) {ABORT} (wrap_list (tm_current ?tm)) = [8]"
    by (simp add: demo_manager_def with_result_def setTransactionResult_def)
  obtain x where "tm_store tm1 = [7 \<mapsto> mock_transaction 3 1](8 := x)"
    unfolding s(2) abort by (auto simp: demo_manager_def retry_def fun_eq_iff)
  then obtain g' where "generateBlock demo_storage_env (tm_store tm1) (tm_gen tm1) = Inr (1, g')" using demo_generates gen by metis
  then obtain tm' where fin: "finish_epoch demo_tm_env ?tm = Inr tm'"
    using s(1) by (simp add: finish_epoch_def getTransactionList_def demo_tm_env_def sendTransactionHandle_def Let_def)
  show ?thesis using epoch_end_sorts_transactions [OF ev cur fin] fin abort by (simp add: demo_manager_def new_wrapper_def)
qed



end
