(* ===== verification/MockManager.thy ===== *)
theory MockManager
  imports EpochEnd
begin

text \<open>
  \<open>MockTransactionManager\<close> (\<open>mock_transaction_manager.cpp\<close>): a transaction manager that makes up the
  transactions of the first two epochs and then only repeats what was aborted. The serialiser of
  the counter message is a parameter; a new transaction is stored at the next unused address.
  \<open>lastEpochFinishSignal\<close> is written by the coordinator's thread, so its value when the manager
  reads it is an argument. Epochs are compared as signed numbers with it, and as unsigned ones
  with the epoch of a transaction. \<open>DCHECK\<close>s are those of a build without \<open>NDEBUG\<close>.
\<close>

record mock_manager =
  mk_epoch :: u32
  mk_tid :: u32
  mk_list :: "tptr list"
  mk_store :: tstore
  mk_sent :: "wrapper list"
  mk_fresh :: tptr

definition new_mock_manager :: "tptr \<Rightarrow> tstore \<Rightarrow> mock_manager" where
  "new_mock_manager fresh st =
     \<lparr>mk_epoch = 0, mk_tid = 1, mk_list = [], mk_store = st, mk_sent = [], mk_fresh = fresh\<rparr>"

section \<open>Making transactions\<close>

definition generatePaload :: "(gcounter_payload \<Rightarrow> string) \<Rightarrow> string \<Rightarrow> int \<Rightarrow> payload \<Rightarrow> payload" where
  "generatePaload ser k v p =
     p\<lparr>pl_header := ''crdt_gcounter'', pl_payload := ser \<lparr>gc_key = k, gc_value = of_int v\<rparr>\<rparr>"

text \<open>
  \<open>new MockTransaction(e, tid)\<close> with its payload, pushed to the wrapper, and to the list of
  transactions the manager watches when \<open>tracked\<close>.
\<close>

definition mock_create :: "(gcounter_payload \<Rightarrow> string) \<Rightarrow> u32 \<Rightarrow> string \<Rightarrow> bool \<Rightarrow> wrapper \<times> mock_manager
    \<Rightarrow> (wrapper \<times> mock_manager) res" where
  "mock_create ser e k tracked = (\<lambda>(w, m).
     let a = mk_fresh m; t = mock_transaction e (mk_tid m);
         st = (mk_store m)(a \<mapsto> t\<lparr>tr_payload := generatePaload ser k 1 (tr_payload t)\<rparr>)
     in bind_res (pushTransaction st (Some a) w) (\<lambda>(_, w1).
          Inr (w1, m\<lparr>mk_fresh := a + 1, mk_tid := mk_tid m + 1, mk_store := st,
                     mk_list := (if tracked then mk_list m @ [a] else mk_list m)\<rparr>)))"

definition mock_send :: "wrapper \<Rightarrow> mock_manager \<Rightarrow> mock_manager" where
  "mock_send w m = m\<lparr>mk_sent := mk_sent m @ [w]\<rparr>"

definition mock_pair :: "(gcounter_payload \<Rightarrow> string) \<Rightarrow> string \<Rightarrow> mock_manager \<Rightarrow> mock_manager res" where
  "mock_pair ser k m =
     (let e = mk_epoch m in
      bind_res (mock_create ser e k True (new_wrapper e, m)) (\<lambda>x.
      bind_res (mock_create ser e k True x) (\<lambda>(w, m1). Inr (mock_send w m1))))"

definition mock_early :: "(gcounter_payload \<Rightarrow> string) \<Rightarrow> string \<Rightarrow> bool \<Rightarrow> mock_manager \<Rightarrow> mock_manager res" where
  "mock_early ser k tracked m =
     (let e = mk_epoch m + 1 in
      bind_res (mock_create ser e k tracked (new_wrapper e, m)) (\<lambda>(w, m1). Inr (mock_send w m1)))"

fun mock_pairs :: "nat \<Rightarrow> (gcounter_payload \<Rightarrow> string) \<Rightarrow> string \<Rightarrow> mock_manager \<Rightarrow> mock_manager res" where
  "mock_pairs 0 ser k m = Inr m"
| "mock_pairs (Suc n) ser k m = bind_res (mock_pair ser k m) (mock_pairs n ser k)"

text \<open>The transaction that epoch 1 makes for epoch 2 is not entered in the list.\<close>

definition mock_begin :: "(gcounter_payload \<Rightarrow> string) \<Rightarrow> mock_manager \<Rightarrow> mock_manager res" where
  "mock_begin ser m =
     (if mk_epoch m = 0 then bind_res (mock_pairs 5 ser ''lhx'' m) (mock_early ser ''chw'' True)
      else if mk_epoch m = 1 then bind_res (mock_pairs 5 ser ''chw'' m) (mock_early ser ''chw'' False)
      else Inr m)"

section \<open>The end of an epoch\<close>

text \<open>One transaction of the list; \<open>ab\<close> is \<open>abortedList\<close>, \<open>fin\<close> the signal.\<close>

definition mock_sort :: "u32 \<Rightarrow> tptr \<Rightarrow> tptr list \<times> mock_manager \<Rightarrow> (tptr list \<times> mock_manager) res" where
  "mock_sort fin a = (\<lambda>(ab, m).
     bind_res (tget (mk_store m) (Some a)) (\<lambda>t.
       if fin < getEpoch t then Inr (ab @ [a], m)
       else check (fin = getEpoch t) (if getTransactionResult t = ABORT then
         let e = mk_epoch m + 1;
             m1 = m\<lparr>mk_store := tupd (\<lambda>t. setEpoch e (resetTransaction t)) a (mk_store m)\<rparr>
         in bind_res (pushTransaction (mk_store m1) (Some a) (new_wrapper e)) (\<lambda>(_, w).
              Inr (ab @ [a], mock_send w m1))
       else Inr (ab, m))))"

fun mock_sorts :: "u32 \<Rightarrow> tptr list \<Rightarrow> tptr list \<times> mock_manager \<Rightarrow> (tptr list \<times> mock_manager) res" where
  "mock_sorts fin [] x = Inr x"
| "mock_sorts fin (a # as) x = bind_res (mock_sort fin a x) (mock_sorts fin as)"

definition mock_end :: "u32 \<Rightarrow> mock_manager \<Rightarrow> mock_manager res" where
  "mock_end fin m =
     (if sint fin \<le> sint (mk_epoch m)
      then check (fin = mk_epoch m) (bind_res (mock_sorts fin (mk_list m) ([], m)) (\<lambda>(ab, m1).
             Inr (m1\<lparr>mk_list := ab, mk_epoch := mk_epoch m1 + 1\<rparr>)))
      else Inr m)"

text \<open>One pass of the loop; \<open>None\<close>: with this signal the manager still waits.\<close>

definition mock_run_once :: "(gcounter_payload \<Rightarrow> string) \<Rightarrow> u32 \<Rightarrow> mock_manager \<Rightarrow> mock_manager res option" where
  "mock_run_once ser fin m =
     (case mock_begin ser m of Inl f \<Rightarrow> Some (Inl f)
      | Inr m1 \<Rightarrow> if sint fin < sint (mk_epoch m1) then None else Some (mock_end fin m1))"

section \<open>Lemmas\<close>

lemma mock_create_eq:
  assumes "wrap_epoch w = e"
  shows "mock_create ser e k tracked (w, m) =
    Inr (w\<lparr>wrap_list := wrap_list w @ [mk_fresh m]\<rparr>,
      m\<lparr>mk_fresh := mk_fresh m + 1, mk_tid := mk_tid m + 1,
        mk_store := (mk_store m)(mk_fresh m \<mapsto> (mock_transaction e (mk_tid m))
          \<lparr>tr_payload := generatePaload ser k 1 payload_empty\<rparr>),
        mk_list := (if tracked then mk_list m @ [mk_fresh m] else mk_list m)\<rparr>)"
  using assms by (simp add: mock_create_def Let_def pushTransaction_def mock_transaction_def getEpoch_def)

text \<open>What the list keeps: transactions of later epochs and those that were aborted.\<close>

definition mock_kept :: "u32 \<Rightarrow> tstore \<Rightarrow> tptr list \<Rightarrow> tptr list" where
  "mock_kept fin st as = filter (\<lambda>a. case st a of Some t \<Rightarrow> fin < tr_epoch t \<or> tr_res t = ABORT | None \<Rightarrow> False) as"

definition mock_retried :: "u32 \<Rightarrow> tstore \<Rightarrow> tptr list \<Rightarrow> tptr list" where
  "mock_retried fin st as = filter (\<lambda>a. case st a of Some t \<Rightarrow> \<not> fin < tr_epoch t \<and> tr_res t = ABORT | None \<Rightarrow> False) as"

lemma mock_filters [simp]:
  "mock_kept fin st [] = []" "mock_retried fin st [] = []"
  "st a = Some t \<Longrightarrow> mock_kept fin st (a # as) = (if fin < tr_epoch t \<or> tr_res t = ABORT then a # mock_kept fin st as else mock_kept fin st as)"
  "st a = Some t \<Longrightarrow> mock_retried fin st (a # as) = (if \<not> fin < tr_epoch t \<and> tr_res t = ABORT then a # mock_retried fin st as else mock_retried fin st as)"
  by (simp_all add: mock_kept_def mock_retried_def)

lemma mock_filters_other:
  "a \<notin> set as \<Longrightarrow> mock_kept fin (retry e [a] st) as = mock_kept fin st as"
  "a \<notin> set as \<Longrightarrow> mock_retried fin (retry e [a] st) as = mock_retried fin st as"
  by (auto simp: mock_kept_def mock_retried_def retry_def intro!: filter_cong)

lemma mock_retried_subset: "set (mock_retried fin st as) \<subseteq> set as"
  by (auto simp: mock_retried_def)

definition alone :: "u32 \<Rightarrow> tptr \<Rightarrow> wrapper" where
  "alone e a = \<lparr>wrap_epoch = e, wrap_list = [a]\<rparr>"

lemma mock_sorts_eq:
  assumes "distinct as" "\<forall>a \<in> set as. \<exists>t. mk_store m a = Some t \<and> fin \<le> tr_epoch t"
  shows "mock_sorts fin as (ab, m) =
    Inr (ab @ mock_kept fin (mk_store m) as,
      m\<lparr>mk_store := retry (mk_epoch m + 1) (mock_retried fin (mk_store m) as) (mk_store m),
        mk_sent := mk_sent m @ map (alone (mk_epoch m + 1)) (mock_retried fin (mk_store m) as)\<rparr>)"
  using assms
proof (induction as arbitrary: ab m)
  case (Cons a as)
  obtain t where t: "mk_store m a = Some t" "fin \<le> tr_epoch t" using Cons.prems(2) by auto
  show ?case
  proof (cases "\<not> fin < tr_epoch t \<and> tr_res t = ABORT")
    case False
    then have "mock_sort fin a (ab, m) = Inr (if fin < tr_epoch t then ab @ [a] else ab, m)"
      using t by (auto simp: mock_sort_def getEpoch_def getTransactionResult_def)
    then show ?thesis using Cons t False by auto
  next
    case True
    let ?e = "mk_epoch m + 1"
    let ?m = "m\<lparr>mk_store := retry ?e [a] (mk_store m), mk_sent := mk_sent m @ [alone ?e a]\<rparr>"
    have dom: "\<forall>b \<in> set as. \<exists>t. mk_store ?m b = Some t \<and> fin \<le> tr_epoch t" using Cons.prems by (auto simp: retry_def)
    have "tr_epoch (setEpoch ?e (resetTransaction t)) = ?e" by (simp add: setEpoch_def)
    then have "mock_sort fin a (ab, m) = Inr (ab @ [a], ?m)"
      using t True by (simp add: mock_sort_def getEpoch_def getTransactionResult_def tupd_retry Let_def
          pushTransaction_def retry_app new_wrapper_def mock_send_def alone_def)
    moreover have "mock_sorts fin as (ab @ [a], ?m) =
      Inr ((ab @ [a]) @ mock_kept fin (mk_store ?m) as,
        ?m\<lparr>mk_store := retry ?e (mock_retried fin (mk_store ?m) as) (mk_store ?m),
           mk_sent := mk_sent ?m @ map (alone ?e) (mock_retried fin (mk_store ?m) as)\<rparr>)"
      using Cons.IH [where m = ?m and ab = "ab @ [a]"] Cons.prems(1) dom by simp
    moreover have "a \<notin> set (mock_retried fin (mk_store m) as)" using Cons.prems(1) mock_retried_subset by fastforce
    ultimately show ?thesis using t True Cons.prems(1) by (simp add: mock_filters_other)
  qed
qed simp

section \<open>Properties\<close>

text \<open>
  The end of an epoch in the mock manager: of the transactions it watches, all of the finished
  epoch or later ones, those of the finished epoch that were aborted are reset, moved to the next epoch and sent again, each in a
  wrapper of its own and in order; they and the transactions of later epochs stay on the list,
  all others leave it, and no other transaction changes.
\<close>

theorem mock_epoch_end:
  assumes "distinct (mk_list m)" "\<forall>a \<in> set (mk_list m). \<exists>t. mk_store m a = Some t \<and> fin \<le> tr_epoch t" "fin = mk_epoch m"
  shows "\<exists>m'. mock_end fin m = Inr m' \<and> mk_epoch m' = mk_epoch m + 1
    \<and> mk_list m' = filter (\<lambda>a. case mk_store m a of Some t \<Rightarrow> fin < tr_epoch t \<or> tr_res t = ABORT | None \<Rightarrow> False) (mk_list m)
    \<and> (\<exists>as. as = filter (\<lambda>a. case mk_store m a of Some t \<Rightarrow> \<not> fin < tr_epoch t \<and> tr_res t = ABORT | None \<Rightarrow> False) (mk_list m)
        \<and> mk_sent m' = mk_sent m @ map (\<lambda>a. \<lparr>wrap_epoch = mk_epoch m + 1, wrap_list = [a]\<rparr>) as
        \<and> (\<forall>a. mk_store m' a = (if a \<in> set as then map_option (\<lambda>t. setEpoch (mk_epoch m + 1) (resetTransaction t)) (mk_store m a)
                                 else mk_store m a)))"
proof -
  have "mock_end fin m = bind_res (mock_sorts fin (mk_list m) ([], m)) (\<lambda>(ab, m1).
      Inr (m1\<lparr>mk_list := ab, mk_epoch := mk_epoch m1 + 1\<rparr>))" using assms(3) by (simp add: mock_end_def)
  then show ?thesis
    by (simp add: mock_sorts_eq [OF assms(1,2), of "[]"]) (simp add: mock_kept_def mock_retried_def retry_def alone_def [abs_def])
qed

definition mock_sorted_store :: tstore where
  "mock_sorted_store = [1 \<mapsto> (mock_transaction 0 1)\<lparr>tr_res := COMMIT\<rparr>, 2 \<mapsto> (mock_transaction 0 2)\<lparr>tr_res := ABORT\<rparr>,
     3 \<mapsto> mock_transaction 1 3]"

lemma mock_epoch_end_witness:
  "\<exists>m'. mock_end 0 ((new_mock_manager 4 mock_sorted_store)\<lparr>mk_list := [1, 2, 3]\<rparr>) = Inr m' \<and> mk_list m' = [2, 3]
     \<and> mk_sent m' = [\<lparr>wrap_epoch = 1, wrap_list = [2]\<rparr>]"
  using mock_epoch_end [of "(new_mock_manager 4 mock_sorted_store)\<lparr>mk_list := [1, 2, 3]\<rparr>" 0]
  by (auto simp: new_mock_manager_def mock_sorted_store_def mock_transaction_def)

section \<open>The transaction that is not watched\<close>

text \<open>Runs of the loop; between two passes the executor changes the transactions.\<close>

inductive mock_runs :: "(gcounter_payload \<Rightarrow> string) \<Rightarrow> mock_manager \<Rightarrow> mock_manager \<Rightarrow> bool" for ser where
  mock_start: "mock_runs ser m m"
| mock_pass: "mock_runs ser m m1 \<Longrightarrow> mock_run_once ser fin (m1\<lparr>mk_store := st\<rparr>) = Some (Inr m2) \<Longrightarrow> mock_runs ser m m2"

definition addresses :: "wrapper list \<Rightarrow> tptr set" where
  "addresses ws = (\<Union>w \<in> set ws. set (wrap_list w))"

lemma addresses_simps [simp]: "addresses [] = {}" "addresses (ws @ vs) = addresses ws \<union> addresses vs"
  "addresses (w # ws) = set (wrap_list w) \<union> addresses ws" by (auto simp: addresses_def)

definition mock_inv :: "mock_manager \<Rightarrow> bool" where
  "mock_inv m \<longleftrightarrow> (\<forall>b \<in> set (mk_list m) \<union> addresses (mk_sent m). b < mk_fresh m)"

text \<open>A new transaction gets a new address; nothing old is touched.\<close>

definition grows :: "mock_manager \<Rightarrow> mock_manager \<Rightarrow> bool" where
  "grows m m' \<longleftrightarrow> mk_fresh m \<le> mk_fresh m' \<and> mk_epoch m' = mk_epoch m \<and>
     (\<exists>as ws. mk_list m' = mk_list m @ as \<and> mk_sent m' = mk_sent m @ ws
        \<and> (\<forall>b \<in> set as \<union> addresses ws. mk_fresh m \<le> b \<and> b < mk_fresh m'))"

lemma grows_refl [simp]: "grows m m" by (auto simp: grows_def)

lemma grows_trans [trans]:
  assumes "grows m m1" "grows m1 m2" shows "grows m m2"
proof -
  obtain as ws bs vs where "mk_list m1 = mk_list m @ as" "mk_sent m1 = mk_sent m @ ws"
    "\<forall>b \<in> set as \<union> addresses ws. mk_fresh m \<le> b \<and> b < mk_fresh m1"
    "mk_list m2 = mk_list m1 @ bs" "mk_sent m2 = mk_sent m1 @ vs"
    "\<forall>b \<in> set bs \<union> addresses vs. mk_fresh m1 \<le> b \<and> b < mk_fresh m2"
    "mk_fresh m \<le> mk_fresh m1" "mk_fresh m1 \<le> mk_fresh m2" "mk_epoch m2 = mk_epoch m"
    using assms unfolding grows_def by metis
  then show ?thesis unfolding grows_def
    by (intro conjI exI [of _ "as @ bs"] exI [of _ "ws @ vs"]) (auto intro: order_trans less_le_trans)
qed

lemma grows_pair: "\<exists>m'. mock_pair ser k m = Inr m' \<and> grows m m'"
  by (simp add: mock_pair_def mock_create_eq new_wrapper_def mock_send_def Let_def grows_def)

lemma grows_early: "\<exists>m'. mock_early ser k tracked m = Inr m' \<and> grows m m' \<and> mk_sent m' = mk_sent m @ [alone (mk_epoch m + 1) (mk_fresh m)]
    \<and> mk_list m' = (if tracked then mk_list m @ [mk_fresh m] else mk_list m) \<and> mk_fresh m' = mk_fresh m + 1"
  by (simp add: mock_early_def mock_create_eq new_wrapper_def mock_send_def Let_def grows_def alone_def)

lemma grows_pairs: "\<exists>m'. mock_pairs n ser k m = Inr m' \<and> grows m m'"
proof (induction n arbitrary: m)
  case (Suc n)
  obtain m1 where "mock_pair ser k m = Inr m1" "grows m m1" using grows_pair by blast
  moreover obtain m2 where "mock_pairs n ser k m1 = Inr m2" "grows m1 m2" using Suc.IH by blast
  ultimately show ?case using grows_trans by auto
qed simp

lemma grows_begin: "\<exists>m'. mock_begin ser m = Inr m' \<and> grows m m'"
proof -
  have "\<exists>m'. bind_res (mock_pairs 5 ser k m) (mock_early ser j tracked) = Inr m' \<and> grows m m'" for k j tracked
  proof -
    obtain m1 where "mock_pairs 5 ser k m = Inr m1" "grows m m1" using grows_pairs by blast
    moreover obtain m2 where "mock_early ser j tracked m1 = Inr m2" "grows m1 m2" using grows_early by blast
    ultimately show ?thesis using grows_trans by auto
  qed
  then show ?thesis unfolding mock_begin_def by simp
qed

lemma grows_inv: "mock_inv m \<Longrightarrow> grows m m' \<Longrightarrow> mock_inv m'"
  by (auto simp: mock_inv_def grows_def ball_Un intro: less_le_trans)

lemma mock_sort_frame:
  assumes "mock_sort fin a (ab, m) = Inr (ab', m')"
  shows "set ab' \<subseteq> insert a (set ab) \<and> mk_fresh m' = mk_fresh m \<and> mk_list m' = mk_list m
    \<and> (\<exists>ws. mk_sent m' = mk_sent m @ ws \<and> addresses ws \<subseteq> {a})"
  using assms by (auto simp: mock_sort_def Let_def check_Inr_iff bind_res_Inr_iff mock_send_def pushTransaction_def new_wrapper_def
      simp del: tget_Some split: if_splits)

lemma mock_sorts_frame:
  "mock_sorts fin as (ab, m) = Inr (ab', m') \<Longrightarrow> set ab' \<subseteq> set ab \<union> set as \<and> mk_fresh m' = mk_fresh m
    \<and> (\<exists>ws. mk_sent m' = mk_sent m @ ws \<and> addresses ws \<subseteq> set as)"
proof (induction as arbitrary: ab m)
  case (Cons a as)
  then obtain ab1 m1 where 1: "mock_sort fin a (ab, m) = Inr (ab1, m1)" "mock_sorts fin as (ab1, m1) = Inr (ab', m')"
    by (auto simp: bind_res_Inr_iff)
  obtain ws where ws: "mk_sent m1 = mk_sent m @ ws" "addresses ws \<subseteq> {a}" "set ab1 \<subseteq> insert a (set ab)" "mk_fresh m1 = mk_fresh m"
    using mock_sort_frame [OF 1(1)] by blast
  obtain vs where "mk_sent m' = mk_sent m1 @ vs" "addresses vs \<subseteq> set as" "set ab' \<subseteq> set ab1 \<union> set as" "mk_fresh m' = mk_fresh m1"
    using Cons.IH [OF 1(2)] by blast
  then show ?case using ws by (auto intro!: exI [of _ "ws @ vs"])
qed simp

lemma mock_end_frame:
  assumes "mock_end fin m = Inr m'"
  shows "set (mk_list m') \<subseteq> set (mk_list m) \<and> mk_fresh m' = mk_fresh m
    \<and> (\<exists>ws. mk_sent m' = mk_sent m @ ws \<and> addresses ws \<subseteq> set (mk_list m))"
  using assms by (auto simp: mock_end_def check_Inr_iff bind_res_Inr_iff dest!: mock_sorts_frame split: if_splits)

text \<open>A transaction the list has lost stays lost.\<close>

definition lost :: "tptr \<Rightarrow> wrapper \<Rightarrow> mock_manager \<Rightarrow> bool" where
  "lost a w m \<longleftrightarrow> a < mk_fresh m \<and> a \<notin> set (mk_list m) \<and> filter (\<lambda>v. a \<in> set (wrap_list v)) (mk_sent m) = [w]"

lemma not_in_addresses: "a \<notin> addresses ws \<Longrightarrow> filter (\<lambda>v. a \<in> set (wrap_list v)) ws = []"
  by (auto simp: addresses_def filter_empty_conv)

lemma lost_grows: "lost a w m \<Longrightarrow> grows m m' \<Longrightarrow> lost a w m'"
proof -
  assume l: "lost a w m" and "grows m m'"
  then obtain as ws where g: "mk_list m' = mk_list m @ as" "mk_sent m' = mk_sent m @ ws" "mk_fresh m \<le> mk_fresh m'"
    "\<forall>b \<in> set as \<union> addresses ws. mk_fresh m \<le> b" unfolding grows_def by blast
  have "a \<notin> set as" "a \<notin> addresses ws" using l g(4) by (auto simp: lost_def dest: leD)
  then show ?thesis using l g by (simp add: lost_def not_in_addresses)
qed

lemma lost_end: "lost a w m \<Longrightarrow> mock_end fin m = Inr m' \<Longrightarrow> lost a w m'"
proof -
  assume l: "lost a w m" and e: "mock_end fin m = Inr m'"
  obtain ws where g: "mk_sent m' = mk_sent m @ ws" "addresses ws \<subseteq> set (mk_list m)" "mk_fresh m' = mk_fresh m"
    "set (mk_list m') \<subseteq> set (mk_list m)" using mock_end_frame [OF e] by blast
  then have "a \<notin> addresses ws" "a \<notin> set (mk_list m')" using l by (auto simp: lost_def)
  then show ?thesis using l g by (simp add: lost_def not_in_addresses)
qed

lemma mock_store_irrelevant [simp]: "mock_inv (m\<lparr>mk_store := st\<rparr>) = mock_inv m" "lost a w (m\<lparr>mk_store := st\<rparr>) = lost a w m"
  by (simp_all add: mock_inv_def lost_def)

lemma mock_pass_cases:
  assumes "mock_run_once ser fin m = Some (Inr m2)"
  obtains m1 where "mock_begin ser m = Inr m1" "grows m m1" "mock_end fin m1 = Inr m2"
proof -
  obtain m1 where "mock_begin ser m = Inr m1" "grows m m1" using grows_begin by blast
  then show thesis using assms that by (auto simp: mock_run_once_def split: if_splits)
qed

lemma mock_inv_end: "mock_inv m \<Longrightarrow> mock_end fin m = Inr m' \<Longrightarrow> mock_inv m'"
  using mock_end_frame [of fin m m'] by (fastforce simp: mock_inv_def)

lemma mock_pass_inv: "mock_run_once ser fin m = Some (Inr m') \<Longrightarrow> mock_inv m \<Longrightarrow> mock_inv m'"
  using mock_inv_end grows_inv by (metis mock_pass_cases)

lemma mock_pass_lost: "mock_run_once ser fin m = Some (Inr m') \<Longrightarrow> lost a w m \<Longrightarrow> lost a w m'"
  using lost_end lost_grows by (metis mock_pass_cases)

lemma mock_runs_inv: "mock_runs ser m m' \<Longrightarrow> mock_inv m \<Longrightarrow> mock_inv m'"
  by (induction rule: mock_runs.induct) (auto dest: mock_pass_inv)

lemma mock_runs_lost: "mock_runs ser m m' \<Longrightarrow> lost a w m \<Longrightarrow> lost a w m'"
  by (induction rule: mock_runs.induct) (auto dest: mock_pass_lost)

text \<open>
  A transaction the mock manager loses: the pass of epoch 1 makes and sends a transaction
  for epoch 2 that the manager does not watch. In whatever run follows, and whatever results
  come back, it is never on the list and it has been sent once only, so an abort of it is not
  retried.
\<close>

theorem mock_loses_early_transaction:
  assumes "mock_runs ser (new_mock_manager fresh st) m" "mk_epoch m = 1"
    and "mock_run_once ser fin m = Some (Inr m1)" "mock_runs ser m1 m2"
  shows "\<exists>a. a \<notin> set (mk_list m2)
    \<and> filter (\<lambda>w. a \<in> set (wrap_list w)) (mk_sent m2) = [\<lparr>wrap_epoch = 2, wrap_list = [a]\<rparr>]"
proof -
  have inv: "mock_inv m" by (rule mock_runs_inv [OF assms(1)]) (simp add: mock_inv_def new_mock_manager_def)
  obtain m3 where m3: "mock_pairs 5 ser ''chw'' m = Inr m3" "grows m m3" using grows_pairs by blast
  obtain m4 where m4: "mock_early ser ''chw'' False m3 = Inr m4" "mk_sent m4 = mk_sent m3 @ [alone (mk_epoch m3 + 1) (mk_fresh m3)]"
    "mk_list m4 = mk_list m3" "mk_fresh m4 = mk_fresh m3 + 1" using grows_early [of ser "''chw''" False m3] by auto
  have b: "mock_begin ser m = Inr m4" using assms(2) m3 m4 by (simp add: mock_begin_def)
  have "mk_epoch m3 + 1 = 2" using m3(2) assms(2) by (simp add: grows_def)
  moreover have "mock_inv m3" by (rule grows_inv [OF inv m3(2)])
  ultimately have "lost (mk_fresh m3) \<lparr>wrap_epoch = 2, wrap_list = [mk_fresh m3]\<rparr> m4" using m4(2-4)
    by (fastforce simp: lost_def mock_inv_def alone_def not_in_addresses)
  moreover have "mock_end fin m4 = Inr m1" using assms(3) b by (auto elim: mock_pass_cases)
  ultimately have "lost (mk_fresh m3) \<lparr>wrap_epoch = 2, wrap_list = [mk_fresh m3]\<rparr> m2"
    using lost_end mock_runs_lost [OF assms(4)] by blast
  then show ?thesis by (auto simp: lost_def)
qed

lemmas mock_evals = mock_run_once_def mock_begin_def mock_pair_def mock_early_def mock_create_eq mock_send_def mock_end_def
  mock_sort_def getEpoch_def getTransactionResult_def mock_transaction_def new_wrapper_def numeral_eq_Suc

lemma demo_first_pass: "\<exists>m. mock_run_once (\<lambda>_. []) 0 (new_mock_manager 1 Map.empty) = Some (Inr m) \<and> mk_epoch m = 1
    \<and> mk_list m = [11] \<and> mk_fresh m = 12 \<and> mk_store m 11 = Some ((mock_transaction 1 11)\<lparr>tr_payload := generatePaload (\<lambda>_. []) ''chw'' 1 payload_empty\<rparr>)"
  by (simp add: mock_evals new_mock_manager_def Let_def)

lemma demo_second_pass:
  assumes "mk_epoch m = 1" "mk_list m = [11]" "mk_fresh m = 12" "mk_store m 11 = Some ((mock_transaction 1 11)\<lparr>tr_payload := p\<rparr>)"
  shows "\<exists>m1. mock_run_once (\<lambda>_. []) 1 m = Some (Inr m1)"
  using assms by (simp add: mock_evals Let_def)

lemma mock_loses_early_transaction_witness:
  "\<exists>m m1 a. mock_run_once (\<lambda>_. []) 0 (new_mock_manager 1 Map.empty) = Some (Inr m) \<and> mock_run_once (\<lambda>_. []) 1 m = Some (Inr m1)
     \<and> a \<notin> set (mk_list m1) \<and> \<lparr>wrap_epoch = 2, wrap_list = [a]\<rparr> \<in> set (mk_sent m1)"
proof -
  obtain m where m: "mock_run_once (\<lambda>_. []) 0 (new_mock_manager 1 Map.empty) = Some (Inr m)" "mk_epoch m = 1"
    and m1: "\<exists>m1. mock_run_once (\<lambda>_. []) 1 m = Some (Inr m1)" using demo_first_pass demo_second_pass by meson
  then obtain m1 where m1: "mock_run_once (\<lambda>_. []) 1 m = Some (Inr m1)" by blast
  have "new_mock_manager 1 Map.empty\<lparr>mk_store := Map.empty\<rparr> = new_mock_manager 1 Map.empty" by (simp add: new_mock_manager_def)
  then have "mock_runs (\<lambda>_. []) (new_mock_manager 1 Map.empty) m"
    using mock_pass [where st = Map.empty and fin = 0 and ?m2.0 = m and m = "new_mock_manager 1 Map.empty" and ?m1.0 = "new_mock_manager 1 Map.empty" and ser = "\<lambda>_. []"] m(1) mock_start by simp
  from mock_loses_early_transaction [OF this m(2) m1 mock_start]
  obtain a where "a \<notin> set (mk_list m1)" "filter (\<lambda>w. a \<in> set (wrap_list w)) (mk_sent m1) = [\<lparr>wrap_epoch = 2, wrap_list = [a]\<rparr>]" by blast
  moreover from this have "\<lparr>wrap_epoch = 2, wrap_list = [a]\<rparr> \<in> set (mk_sent m1)" by (metis filter_is_subset list.set_intros(1) subsetD)
  ultimately show ?thesis using m(1) m1 by blast
qed

end
