(* ===== verification/LightSemaphore.thy ===== *)
theory LightSemaphore
  imports Prelude
begin

text \<open>
  \<open>LightweightSemaphore\<close> (\<open>light_weight_semaphore.hpp\<close>), on which the blocking queue between the
  threads of the server rests: an atomic counter in front of a kernel semaphore. Each thread is
  in one call of the semaphore; each access to the counter and each call of the kernel semaphore
  is one step, and the steps of the threads interleave. The counter is below zero by the number
  of threads that wait for the kernel semaphore and have not been signalled.

  The counter is an unbounded integer: \<open>ssize_t\<close> has 64 bits and each unit is a permit or a
  waiting thread. The cast of the number of threads to release to \<open>int\<close> is kept.
\<close>

section \<open>The kernel semaphore\<close>

text \<open>
  \<open>sem_wait\<close> and \<open>sem_timedwait\<close> are repeated when a signal handler interrupts them, so a call
  ends with a decrement, or, with a timeout, when that has expired (\<open>expired\<close>); without a timeout
  it blocks while the value is zero. \<open>None\<close>: the thread is blocked.
\<close>

definition kernel_wait :: "nat \<Rightarrow> (bool \<times> nat) option" where
  "kernel_wait v = (if v > 0 then Some (True, v - 1) else None)"

definition kernel_timed_wait :: "bool \<Rightarrow> nat \<Rightarrow> (bool \<times> nat) option" where
  "kernel_timed_wait expired v = (if v > 0 then Some (True, v - 1) else if expired then Some (False, v) else None)"

definition kernel_try_wait :: "nat \<Rightarrow> bool \<times> nat" where
  "kernel_try_wait v = (if v > 0 then (True, v - 1) else (False, v))"

text \<open>The deadline \<open>timed_wait\<close> computes from the time and the timeout: seconds and nanoseconds.\<close>

definition kernel_deadline :: "u64 \<Rightarrow> int \<times> int \<Rightarrow> int \<times> int" where
  "kernel_deadline usecs now =
     (let sec = fst now + uint (usecs div 1000000); nsec = snd now + uint (usecs mod 1000000) * 1000
      in if nsec \<ge> 1000000000 then (sec + 1, nsec - 1000000000) else (sec, nsec))"

section \<open>Threads\<close>

text \<open>What a thread has called. A negative timeout waits for ever.\<close>

datatype sema_call = C_tryWait | C_wait int | C_tryWaitMany int | C_waitMany int int | C_signal int

text \<open>Where it is; locals are arguments. \<open>S_DONE g\<close>: it has returned and holds \<open>g\<close> permits.\<close>

datatype sema_pc = S_TRY | S_TRY_CAS int | S_SPIN int | S_SPIN_CAS int int | S_SUB | S_BLOCK
  | S_UNDO | S_UNDO_TRY | S_UNDO_CAS int | S_MORE | S_MORE_CAS int | S_ADD | S_POST int | S_DONE int

record caller =
  cl_call :: sema_call
  cl_pc :: sema_pc

record sema =
  sm_count :: int
  sm_kernel :: nat
  sm_threads :: "caller list"

definition call_start :: "sema_call \<Rightarrow> caller" where
  "call_start c = \<lparr>cl_call = c, cl_pc = (case c of C_signal _ \<Rightarrow> S_ADD | _ \<Rightarrow> S_TRY)\<rparr>"

definition new_semaphore :: "int \<Rightarrow> sema_call list \<Rightarrow> sema" where
  "new_semaphore initialCount calls = \<lparr>sm_count = initialCount, sm_kernel = 0, sm_threads = map call_start calls\<rparr>"

section \<open>Acquiring one permit\<close>

text \<open>
  A step takes the counter and the kernel semaphore and returns them with the next program
  counter. \<open>ok\<close> is false when a \<open>compare_exchange_weak\<close> fails without reason, a timeout expires, or
  \<open>sem_post\<close> fails. \<open>missed\<close> is where a thread goes that found no permit.
\<close>

definition tryWait_act :: "bool \<Rightarrow> sema_pc \<Rightarrow> int \<times> nat \<Rightarrow> sema_pc \<Rightarrow> (sema_pc \<times> int \<times> nat) option" where
  "tryWait_act ok missed s pc = (case (s, pc) of
     ((n, v), S_TRY) \<Rightarrow> Some (if n > 0 then S_TRY_CAS n else missed, n, v)
   | ((n, v), S_TRY_CAS oldCount) \<Rightarrow>
       if ok \<and> n = oldCount then Some (S_DONE 1, oldCount - 1, v)
       else Some (if n > 0 then S_TRY_CAS n else missed, n, v)
   | _ \<Rightarrow> None)"

definition waitWithPartialSpinning_act :: "bool \<Rightarrow> int \<Rightarrow> int \<times> nat \<Rightarrow> sema_pc \<Rightarrow> (sema_pc \<times> int \<times> nat) option" where
  "waitWithPartialSpinning_act ok timeout s pc = (case (s, pc) of
     ((n, v), S_SPIN spin) \<Rightarrow>
       if spin - 1 \<ge> 0 then Some (if n > 0 then S_SPIN_CAS (spin - 1) n else S_SPIN (spin - 1), n, v)
       else Some (S_SUB, n, v)
   | ((n, v), S_SPIN_CAS spin oldCount) \<Rightarrow>
       if n = oldCount then Some (S_DONE 1, oldCount - 1, v) else Some (S_SPIN spin, n, v)
   | ((n, v), S_SUB) \<Rightarrow> Some (if n > 0 then S_DONE 1 else if timeout = 0 then S_UNDO else S_BLOCK, n - 1, v)
   | ((n, v), S_BLOCK) \<Rightarrow>
       (case (if timeout < 0 then kernel_wait v else kernel_timed_wait (\<not> ok) v) of
          None \<Rightarrow> None
        | Some (got, v1) \<Rightarrow> Some (if got then S_DONE 1 else S_UNDO, n, v1))
   | ((n, v), S_UNDO) \<Rightarrow> Some (if n \<ge> 0 then S_UNDO_TRY else S_UNDO_CAS n, n, v)
   | ((n, v), S_UNDO_TRY) \<Rightarrow> (case kernel_try_wait v of (got, v1) \<Rightarrow> Some (if got then S_DONE 1 else S_UNDO, n, v1))
   | ((n, v), S_UNDO_CAS oldCount) \<Rightarrow>
       if n = oldCount then Some (S_DONE 0, oldCount + 1, v) else Some (S_UNDO, n, v)
   | _ \<Rightarrow> None)"

section \<open>Acquiring several permits\<close>

text \<open>\<open>tryWaitMany\<close>, from its load or after a failed exchange; \<open>got\<close> permits are held already.\<close>

definition newCount :: "int \<Rightarrow> int \<Rightarrow> int" where
  "newCount mx oldCount = (if oldCount > mx then oldCount - mx else 0)"

definition tryWaitMany_act :: "bool \<Rightarrow> sema_pc \<Rightarrow> int \<Rightarrow> int \<times> nat \<Rightarrow> sema_pc \<Rightarrow> (sema_pc \<times> int \<times> nat) option" where
  "tryWaitMany_act ok missed mx s pc = (case (s, pc) of
     ((n, v), S_TRY) \<Rightarrow> Some (if n > 0 then S_TRY_CAS n else missed, n, v)
   | ((n, v), S_TRY_CAS oldCount) \<Rightarrow>
       if ok \<and> n = oldCount
       then Some (if oldCount - newCount mx oldCount = 0 then missed else S_DONE (oldCount - newCount mx oldCount),
                  newCount mx oldCount, v)
       else Some (if n > 0 then S_TRY_CAS n else missed, n, v)
   | _ \<Rightarrow> None)"

text \<open>The end of \<open>waitManyWithPartialSpinning\<close>: one permit is held; \<open>tryWaitMany (max - 1)\<close> for the rest.\<close>

definition many_got_one :: "int \<Rightarrow> sema_pc" where
  "many_got_one mx = (if mx > 1 then S_MORE else S_DONE 1)"

definition waitManyWithPartialSpinning_act :: "bool \<Rightarrow> int \<Rightarrow> int \<Rightarrow> int \<times> nat \<Rightarrow> sema_pc \<Rightarrow> (sema_pc \<times> int \<times> nat) option" where
  "waitManyWithPartialSpinning_act ok mx timeout s pc = (case (s, pc) of
     ((n, v), S_SPIN spin) \<Rightarrow>
       if spin - 1 \<ge> 0 then Some (if n > 0 then S_SPIN_CAS (spin - 1) n else S_SPIN (spin - 1), n, v)
       else Some (S_SUB, n, v)
   | ((n, v), S_SPIN_CAS spin oldCount) \<Rightarrow>
       if n = oldCount then Some (S_DONE (oldCount - newCount mx oldCount), newCount mx oldCount, v)
       else Some (S_SPIN spin, n, v)
   | ((n, v), S_SUB) \<Rightarrow> Some (if n > 0 then many_got_one mx else if timeout = 0 then S_UNDO else S_BLOCK, n - 1, v)
   | ((n, v), S_BLOCK) \<Rightarrow>
       (case (if timeout < 0 then kernel_wait v else kernel_timed_wait (\<not> ok) v) of
          None \<Rightarrow> None
        | Some (got, v1) \<Rightarrow> Some (if got then many_got_one mx else S_UNDO, n, v1))
   | ((n, v), S_UNDO) \<Rightarrow> Some (if n \<ge> 0 then S_UNDO_TRY else S_UNDO_CAS n, n, v)
   | ((n, v), S_UNDO_TRY) \<Rightarrow>
       (case kernel_try_wait v of (got, v1) \<Rightarrow> Some (if got then many_got_one mx else S_UNDO, n, v1))
   | ((n, v), S_UNDO_CAS oldCount) \<Rightarrow>
       if n = oldCount then Some (S_DONE 0, oldCount + 1, v) else Some (S_UNDO, n, v)
   | ((n, v), S_MORE) \<Rightarrow> Some (if n > 0 then S_MORE_CAS n else S_DONE 1, n, v)
   | ((n, v), S_MORE_CAS oldCount) \<Rightarrow>
       if ok \<and> n = oldCount
       then Some (S_DONE (1 + (oldCount - newCount (mx - 1) oldCount)), newCount (mx - 1) oldCount, v)
       else Some (if n > 0 then S_MORE_CAS n else S_DONE 1, n, v)
   | _ \<Rightarrow> None)"

section \<open>Releasing permits\<close>

text \<open>\<open>Semaphore::signal(int count)\<close>, one \<open>sem_post\<close> at a time; one that fails is repeated.\<close>

definition kernel_signal_act :: "bool \<Rightarrow> int \<Rightarrow> int \<times> nat \<Rightarrow> sema_pc \<times> int \<times> nat" where
  "kernel_signal_act ok k s = (case s of (n, v) \<Rightarrow>
     if k > 0 then (if ok then (S_POST (k - 1), n, v + 1) else (S_POST k, n, v)) else (S_DONE 0, n, v))"

definition signal_act :: "bool \<Rightarrow> int \<Rightarrow> int \<times> nat \<Rightarrow> sema_pc \<Rightarrow> (sema_pc \<times> int \<times> nat) option" where
  "signal_act ok c s pc = (case (s, pc) of
     ((n, v), S_ADD) \<Rightarrow>
       (let toRelease = (if - n < c then - n else c)
        in Some (if toRelease > 0 then S_POST (sint (word_of_int toRelease :: u32)) else S_DONE 0, n + c, v))
   | (_, S_POST k) \<Rightarrow> Some (kernel_signal_act ok k s)
   | _ \<Rightarrow> None)"

section \<open>Calls\<close>

definition trying :: "sema_pc \<Rightarrow> bool" where
  "trying pc \<longleftrightarrow> (case pc of S_TRY \<Rightarrow> True | S_TRY_CAS _ \<Rightarrow> True | _ \<Rightarrow> False)"

text \<open>\<open>maxSpins\<close> is the bound of the constructor.\<close>

definition sema_wait_act :: "int \<Rightarrow> bool \<Rightarrow> int \<Rightarrow> int \<times> nat \<Rightarrow> sema_pc \<Rightarrow> (sema_pc \<times> int \<times> nat) option" where
  "sema_wait_act maxSpins ok timeout s pc =
     (if trying pc then tryWait_act ok (S_SPIN maxSpins) s pc else waitWithPartialSpinning_act ok timeout s pc)"

definition waitMany_act :: "int \<Rightarrow> bool \<Rightarrow> int \<Rightarrow> int \<Rightarrow> int \<times> nat \<Rightarrow> sema_pc \<Rightarrow> (sema_pc \<times> int \<times> nat) option" where
  "waitMany_act maxSpins ok mx timeout s pc =
     (if trying pc then tryWaitMany_act ok (if mx > 0 then S_SPIN maxSpins else S_DONE 0) mx s pc
      else waitManyWithPartialSpinning_act ok mx timeout s pc)"

definition call_act :: "int \<Rightarrow> bool \<Rightarrow> int \<times> nat \<Rightarrow> caller \<Rightarrow> (sema_pc \<times> int \<times> nat) option" where
  "call_act maxSpins ok s t = (case cl_call t of
     C_tryWait \<Rightarrow> tryWait_act ok (S_DONE 0) s (cl_pc t)
   | C_wait timeout \<Rightarrow> sema_wait_act maxSpins ok timeout s (cl_pc t)
   | C_tryWaitMany mx \<Rightarrow> tryWaitMany_act ok (S_DONE 0) mx s (cl_pc t)
   | C_waitMany mx timeout \<Rightarrow> waitMany_act maxSpins ok mx timeout s (cl_pc t)
   | C_signal c \<Rightarrow> signal_act ok c s (cl_pc t))"

definition availableApprox :: "sema \<Rightarrow> int" where
  "availableApprox s = (if sm_count s > 0 then sm_count s else 0)"

inductive sema_step :: "int \<Rightarrow> sema \<Rightarrow> sema \<Rightarrow> bool" for maxSpins where
  sema_thread: "i < length (sm_threads s) \<Longrightarrow>
    call_act maxSpins ok (sm_count s, sm_kernel s) (sm_threads s ! i) = Some (pc, n, v) \<Longrightarrow>
    sema_step maxSpins s \<lparr>sm_count = n, sm_kernel = v, sm_threads = (sm_threads s)[i := (sm_threads s ! i)\<lparr>cl_pc := pc\<rparr>]\<rparr>"

inductive_cases sema_stepE: "sema_step maxSpins s s'"

inductive sema_reach :: "int \<Rightarrow> int \<Rightarrow> sema_call list \<Rightarrow> sema \<Rightarrow> bool" for maxSpins initialCount calls where
  sema_init: "sema_reach maxSpins initialCount calls (new_semaphore initialCount calls)"
| sema_next: "sema_reach maxSpins initialCount calls s \<Longrightarrow> sema_step maxSpins s s' \<Longrightarrow>
    sema_reach maxSpins initialCount calls s'"

section \<open>Accounting\<close>

text \<open>Permits a thread holds, whether it waits for the kernel semaphore, posts it owes, permits it has added.\<close>

definition granted :: "caller \<Rightarrow> int" where
  "granted t = (case cl_call t of C_signal _ \<Rightarrow> 0
     | _ \<Rightarrow> (case cl_pc t of S_DONE g \<Rightarrow> g | S_MORE \<Rightarrow> 1 | S_MORE_CAS _ \<Rightarrow> 1 | _ \<Rightarrow> 0))"

definition waiting :: "caller \<Rightarrow> int" where
  "waiting t = (case cl_pc t of S_BLOCK \<Rightarrow> 1 | S_UNDO \<Rightarrow> 1 | S_UNDO_TRY \<Rightarrow> 1 | S_UNDO_CAS _ \<Rightarrow> 1 | _ \<Rightarrow> 0)"

definition owed :: "caller \<Rightarrow> int" where
  "owed t = (case cl_pc t of S_POST k \<Rightarrow> k | _ \<Rightarrow> 0)"

definition signalled :: "caller \<Rightarrow> int" where
  "signalled t = (case cl_call t of C_signal c \<Rightarrow> if cl_pc t = S_ADD then 0 else c | _ \<Rightarrow> 0)"

text \<open>The program counters a call can be at, and what its locals say.\<close>

definition pc_of_single :: "bool \<Rightarrow> sema_pc \<Rightarrow> bool" where
  "pc_of_single waits pc \<longleftrightarrow> (case pc of S_TRY \<Rightarrow> True | S_TRY_CAS n \<Rightarrow> n > 0 | S_DONE g \<Rightarrow> g = 0 \<or> g = 1
     | S_SPIN _ \<Rightarrow> waits | S_SPIN_CAS _ n \<Rightarrow> waits \<and> n > 0 | S_SUB \<Rightarrow> waits | S_BLOCK \<Rightarrow> waits | S_UNDO \<Rightarrow> waits
     | S_UNDO_TRY \<Rightarrow> waits | S_UNDO_CAS n \<Rightarrow> waits \<and> n < 0 | _ \<Rightarrow> False)"

definition pc_of_many :: "bool \<Rightarrow> int \<Rightarrow> sema_pc \<Rightarrow> bool" where
  "pc_of_many waits mx pc \<longleftrightarrow> (case pc of S_TRY \<Rightarrow> True | S_TRY_CAS n \<Rightarrow> n > 0 | S_DONE g \<Rightarrow> 0 \<le> g \<and> g \<le> mx
     | S_SPIN _ \<Rightarrow> waits | S_SPIN_CAS _ n \<Rightarrow> waits \<and> n > 0 | S_SUB \<Rightarrow> waits | S_BLOCK \<Rightarrow> waits | S_UNDO \<Rightarrow> waits
     | S_UNDO_TRY \<Rightarrow> waits | S_UNDO_CAS n \<Rightarrow> waits \<and> n < 0 | S_MORE \<Rightarrow> waits \<and> 1 < mx | S_MORE_CAS n \<Rightarrow> waits \<and> 1 < mx \<and> n > 0
     | _ \<Rightarrow> False)"

definition caller_ok :: "caller \<Rightarrow> bool" where
  "caller_ok t \<longleftrightarrow> (case cl_call t of
     C_tryWait \<Rightarrow> pc_of_single False (cl_pc t)
   | C_wait _ \<Rightarrow> pc_of_single True (cl_pc t)
   | C_tryWaitMany mx \<Rightarrow> 0 \<le> mx \<and> pc_of_many False mx (cl_pc t)
   | C_waitMany mx _ \<Rightarrow> 0 \<le> mx \<and> pc_of_many (0 < mx) mx (cl_pc t)
   | C_signal c \<Rightarrow> 0 \<le> c \<and> (case cl_pc t of S_ADD \<Rightarrow> True | S_POST k \<Rightarrow> 0 \<le> k | S_DONE g \<Rightarrow> g = 0 | _ \<Rightarrow> False))"

text \<open>A step conserves permits: what the counter loses the thread gains, as a permit or as a claim to one.\<close>

definition balance :: "int \<Rightarrow> caller \<Rightarrow> int" where
  "balance n t = n + granted t + waiting t - signalled t"

text \<open>Waiting threads beyond those that a post is on the way for are the ones the counter is below zero by.\<close>

definition claims :: "int \<Rightarrow> nat \<Rightarrow> caller \<Rightarrow> int" where
  "claims n v t = waiting t - int v - owed t - max 0 (- n)"

lemmas act_defs = call_act_def tryWait_act_def sema_wait_act_def waitWithPartialSpinning_act_def tryWaitMany_act_def
  waitMany_act_def waitManyWithPartialSpinning_act_def signal_act_def kernel_signal_act_def kernel_wait_def kernel_timed_wait_def
  kernel_try_wait_def newCount_def many_got_one_def trying_def Let_def

lemmas count_defs = granted_def waiting_def owed_def signalled_def balance_def claims_def caller_ok_def pc_of_single_def
  pc_of_many_def

lemma signed_small: "0 \<le> k \<Longrightarrow> k < 2 ^ 31 \<Longrightarrow> sint (word_of_int k :: u32) = k"
  by (simp add: signed_take_bit_int_eq_self sint_sbintrunc')

lemma signal_conserves:
  assumes "signal_act ok c (n, v) (cl_pc t) = Some (pc', n', v')" "- n < 2 ^ 31" "cl_call t = C_signal c" "caller_ok t"
  shows "caller_ok (t\<lparr>cl_pc := pc'\<rparr>) \<and> balance n' (t\<lparr>cl_pc := pc'\<rparr>) = balance n t \<and> claims n' v' (t\<lparr>cl_pc := pc'\<rparr>) = claims n v t"
proof (cases t)
  case (fields call pc)
  then show ?thesis using assms by (cases pc) (auto simp: signal_act_def kernel_signal_act_def Let_def count_defs signed_small split: if_splits)
qed

lemma single_conserves:
  assumes "tryWait_act ok missed (n, v) pc = Some (pc', n', v')" "cl_call t = C_tryWait \<and> missed = S_DONE 0
      \<or> (\<exists>to k. cl_call t = C_wait to \<and> missed = S_SPIN k)" "cl_pc t = pc" "caller_ok t"
  shows "caller_ok (t\<lparr>cl_pc := pc'\<rparr>) \<and> balance n' (t\<lparr>cl_pc := pc'\<rparr>) = balance n t \<and> claims n' v' (t\<lparr>cl_pc := pc'\<rparr>) = claims n v t"
  using assms by (cases pc) (auto simp: tryWait_act_def count_defs split: if_splits)

lemma wait_conserves:
  assumes "waitWithPartialSpinning_act ok to (n, v) pc = Some (pc', n', v')" "cl_call t = C_wait to" "cl_pc t = pc" "caller_ok t"
  shows "caller_ok (t\<lparr>cl_pc := pc'\<rparr>) \<and> balance n' (t\<lparr>cl_pc := pc'\<rparr>) = balance n t \<and> claims n' v' (t\<lparr>cl_pc := pc'\<rparr>) = claims n v t"
  using assms by (cases pc) (auto simp: waitWithPartialSpinning_act_def kernel_wait_def kernel_timed_wait_def kernel_try_wait_def
      count_defs split: if_splits)

lemma try_many_conserves:
  assumes "tryWaitMany_act ok missed mx (n, v) pc = Some (pc', n', v')"
    "cl_call t = C_tryWaitMany mx \<and> missed = S_DONE 0 \<or> (\<exists>to k. cl_call t = C_waitMany mx to \<and> missed = (if mx > 0 then S_SPIN k else S_DONE 0))"
    "cl_pc t = pc" "caller_ok t"
  shows "caller_ok (t\<lparr>cl_pc := pc'\<rparr>) \<and> balance n' (t\<lparr>cl_pc := pc'\<rparr>) = balance n t \<and> claims n' v' (t\<lparr>cl_pc := pc'\<rparr>) = claims n v t"
  using assms by (cases pc) (auto simp: tryWaitMany_act_def newCount_def count_defs split: if_splits)

lemma wait_many_conserves:
  assumes "waitManyWithPartialSpinning_act ok mx to (n, v) pc = Some (pc', n', v')" "cl_call t = C_waitMany mx to" "cl_pc t = pc" "caller_ok t"
  shows "caller_ok (t\<lparr>cl_pc := pc'\<rparr>) \<and> balance n' (t\<lparr>cl_pc := pc'\<rparr>) = balance n t \<and> claims n' v' (t\<lparr>cl_pc := pc'\<rparr>) = claims n v t"
  using assms by (cases pc) (auto simp: waitManyWithPartialSpinning_act_def kernel_wait_def kernel_timed_wait_def kernel_try_wait_def
      newCount_def many_got_one_def count_defs split: if_splits)

lemma call_conserves:
  assumes act: "call_act maxSpins ok (n, v) t = Some (pc', n', v')" and ok: "caller_ok t" and small: "- n < 2 ^ 31"
  shows "caller_ok (t\<lparr>cl_pc := pc'\<rparr>) \<and> balance n' (t\<lparr>cl_pc := pc'\<rparr>) = balance n t \<and> claims n' v' (t\<lparr>cl_pc := pc'\<rparr>) = claims n v t"
proof (cases "cl_call t")
  case C_tryWait
  then show ?thesis using act ok by (intro single_conserves [where pc = "cl_pc t"]) (auto simp: call_act_def)
next
  case (C_wait to)
  then show ?thesis using act ok single_conserves [where pc = "cl_pc t"] wait_conserves [where pc = "cl_pc t"]
    by (auto simp: call_act_def sema_wait_act_def split: if_splits)
next
  case (C_tryWaitMany mx)
  then show ?thesis using act ok by (intro try_many_conserves [where pc = "cl_pc t"]) (auto simp: call_act_def)
next
  case (C_waitMany mx to)
  then show ?thesis using act ok try_many_conserves [where pc = "cl_pc t"] wait_many_conserves [where pc = "cl_pc t"]
    by (auto simp: call_act_def waitMany_act_def split: if_splits)
next
  case (C_signal c)
  then show ?thesis using act ok small by (intro signal_conserves) (auto simp: call_act_def)
qed

section \<open>The invariant\<close>

definition total :: "(caller \<Rightarrow> int) \<Rightarrow> sema \<Rightarrow> int" where
  "total f s = sum_list (map f (sm_threads s))"

definition sema_inv :: "int \<Rightarrow> sema \<Rightarrow> bool" where
  "sema_inv initialCount s \<longleftrightarrow> (\<forall>t \<in> set (sm_threads s). caller_ok t)
     \<and> sm_count s + total granted s + total waiting s = initialCount + total signalled s
     \<and> total waiting s = int (sm_kernel s) + total owed s + max 0 (- sm_count s)"

lemma sum_list_replace: "i < length ts \<Longrightarrow> sum_list (map f (ts[i := t])) = sum_list (map f ts) - f (ts ! i) + f t"
  for f :: "'a \<Rightarrow> int"
  by (induction ts arbitrary: i) (auto split: nat.splits)

lemma waiting_bounds: "0 \<le> waiting t" "waiting t \<le> 1"
  by (simp_all add: waiting_def split: sema_pc.splits)

lemma total_waiting_le: "total waiting s \<le> int (length (sm_threads s))"
proof -
  have "sum_list (map waiting ts) \<le> int (length ts)" for ts
    by (induction ts) (use waiting_bounds in \<open>auto intro: add_mono\<close>)
  then show ?thesis by (simp add: total_def)
qed

lemma total_nonneg: "(\<And>t. t \<in> set (sm_threads s) \<Longrightarrow> 0 \<le> f t) \<Longrightarrow> 0 \<le> total f s"
  unfolding total_def by (rule sum_list_nonneg) auto

lemma caller_ok_nonneg: "caller_ok t \<Longrightarrow> 0 \<le> granted t \<and> 0 \<le> owed t \<and> 0 \<le> signalled t"
  by (auto simp: count_defs split: sema_call.splits sema_pc.splits)

lemma sema_inv_bounds:
  assumes "sema_inv N s"
  shows "- sm_count s \<le> int (length (sm_threads s))" "0 \<le> total granted s" "0 \<le> total owed s" "0 \<le> total signalled s"
proof -
  have nn: "0 \<le> total granted s" "0 \<le> total owed s" "0 \<le> total signalled s"
    using assms caller_ok_nonneg by (auto simp: sema_inv_def intro!: total_nonneg)
  then show "0 \<le> total granted s" "0 \<le> total owed s" "0 \<le> total signalled s" by simp_all
  show "- sm_count s \<le> int (length (sm_threads s))"
    using assms nn(2) total_waiting_le [of s] by (simp add: sema_inv_def)
qed

lemma sema_inv_update:
  assumes "sema_inv N s" "i < length (sm_threads s)" "caller_ok t"
    and "balance n t = balance (sm_count s) (sm_threads s ! i)"
    and "claims n v t = claims (sm_count s) (sm_kernel s) (sm_threads s ! i)"
  shows "sema_inv N \<lparr>sm_count = n, sm_kernel = v, sm_threads = (sm_threads s)[i := t]\<rparr>" (is "sema_inv N ?s")
proof -
  have upd: "total f ?s = total f s - f (sm_threads s ! i) + f t" for f
    using assms(2) by (simp add: total_def sum_list_replace)
  have "\<forall>t \<in> set (sm_threads ?s). caller_ok t"
    using assms(1,3) set_update_subset_insert [of "sm_threads s" i t] by (auto simp: sema_inv_def)
  then show ?thesis using assms(1,4,5) upd [of granted] upd [of waiting] upd [of owed] upd [of signalled]
    by (simp add: sema_inv_def balance_def claims_def)
qed

lemma sema_inv_step:
  assumes inv: "sema_inv N s" and few: "length (sm_threads s) < 2 ^ 31" and step: "sema_step maxSpins s s'"
  shows "sema_inv N s'" "map cl_call (sm_threads s') = map cl_call (sm_threads s)"
proof -
  obtain i ok pc n v where i: "i < length (sm_threads s)"
    and act: "call_act maxSpins ok (sm_count s, sm_kernel s) (sm_threads s ! i) = Some (pc, n, v)"
    and s': "s' = \<lparr>sm_count = n, sm_kernel = v, sm_threads = (sm_threads s)[i := (sm_threads s ! i)\<lparr>cl_pc := pc\<rparr>]\<rparr>"
    using step by (rule sema_stepE) blast
  have small: "- sm_count s < 2 ^ 31" using sema_inv_bounds(1) [OF inv] few by simp
  have t: "caller_ok (sm_threads s ! i)" using inv i by (simp add: sema_inv_def)
  show "sema_inv N s'" unfolding s' using call_conserves [OF act t small] by (intro sema_inv_update [OF inv i]) simp_all
  show "map cl_call (sm_threads s') = map cl_call (sm_threads s)"
    using i by (simp add: s' map_update) (metis length_map list_update_id nth_map)
qed

lemma call_start_zero: "granted (call_start c) = 0" "waiting (call_start c) = 0" "owed (call_start c) = 0" "signalled (call_start c) = 0"
  by (cases c; simp add: call_start_def granted_def waiting_def owed_def signalled_def)+

lemma total_start: "(\<And>c. f (call_start c) = 0) \<Longrightarrow> total f (new_semaphore N calls) = 0"
  by (simp add: total_def new_semaphore_def comp_def)

lemma sema_inv_reach:
  assumes "sema_reach maxSpins N calls s" "0 \<le> N" "length calls < 2 ^ 31" "\<forall>c \<in> set calls. caller_ok (call_start c)"
  shows "sema_inv N s \<and> map cl_call (sm_threads s) = calls"
  using assms(1)
proof (induction rule: sema_reach.induct)
  case sema_init
  have "caller_ok t" if "t \<in> set (map call_start calls)" for t using that assms(4) by auto
  then show ?case using assms(2) total_start call_start_zero by (simp add: sema_inv_def) (simp add: new_semaphore_def comp_def call_start_def)
next
  case (sema_next s s')
  moreover have "length (sm_threads s) = length calls" using sema_next.IH by (metis length_map)
  ultimately show ?case using sema_inv_step [of N s maxSpins s'] assms(3) by simp
qed

text \<open>Which threads cannot go on: those that have returned, and those the kernel keeps waiting without a timeout.\<close>

definition returned :: "caller \<Rightarrow> bool" where
  "returned t \<longleftrightarrow> (case cl_pc t of S_DONE _ \<Rightarrow> True | _ \<Rightarrow> False)"

definition waits_forever :: "caller \<Rightarrow> bool" where
  "waits_forever t \<longleftrightarrow> cl_pc t = S_BLOCK \<and> (case cl_call t of C_wait to \<Rightarrow> to < 0 | C_waitMany _ to \<Rightarrow> to < 0 | _ \<Rightarrow> False)"

lemma blocked_caller:
  assumes "\<And>ok. call_act maxSpins ok (n, v) t = None" "caller_ok t"
  shows "returned t \<or> waits_forever t \<and> v = 0"
proof (cases t)
  case (fields call pc)
  have "\<exists>pc' n' v'. call_act maxSpins False (n, v) t = Some (pc', n', v')" if "\<not> returned t" "\<not> (waits_forever t \<and> v = 0)"
    using that assms(2) fields
    by (cases call; cases pc) (auto simp: act_defs count_defs returned_def waits_forever_def split: if_splits)
  then show ?thesis using assms(1) by (metis option.discI)
qed

lemma stuck_threads:
  assumes "\<nexists>s'. sema_step maxSpins s s'" "sema_inv N s" "t \<in> set (sm_threads s)"
  shows "returned t \<or> waits_forever t \<and> sm_kernel s = 0"
proof -
  obtain i where i: "i < length (sm_threads s)" "t = sm_threads s ! i" using assms(3) by (metis in_set_conv_nth)
  have "call_act maxSpins ok (sm_count s, sm_kernel s) t = None" for ok
    using assms(1) sema_thread [OF i(1), of maxSpins ok] i(2) by (metis prod_cases3 not_None_eq)
  then show ?thesis using blocked_caller [of maxSpins "sm_count s" "sm_kernel s" t] assms(2,3) by (simp add: sema_inv_def)
qed

lemma idle_owed: "returned t \<or> waits_forever t \<Longrightarrow> owed t = 0"
  by (auto simp: returned_def waits_forever_def owed_def split: sema_pc.splits)

lemma total_cong: "(\<And>t. t \<in> set (sm_threads s) \<Longrightarrow> f t = g t) \<Longrightarrow> total f s = total g s"
  unfolding total_def by (metis (mono_tags, lifting) map_eq_conv)

lemma total_0: "(\<And>t. t \<in> set (sm_threads s) \<Longrightarrow> f t = 0) \<Longrightarrow> total f s = 0"
  using total_cong [of s f "\<lambda>_. 0"] by (simp add: total_def)

lemma waiting_all_granted:
  assumes "sema_inv N s" "total owed s = 0" "w \<in> set (sm_threads s)" "sm_kernel s = 0" "cl_pc w = S_BLOCK"
  shows "total granted s = N + total signalled s"
proof -
  have "waiting w \<le> total waiting s" unfolding total_def
    using assms(3) waiting_bounds(1) by (intro member_le_sum_list) auto
  then have "0 < total waiting s" using assms(5) by (simp add: waiting_def)
  then show ?thesis using assms(1,2,4) by (auto simp: sema_inv_def max_def split: if_splits)
qed

section \<open>Running\<close>

text \<open>A schedule: which thread moves, and the outcome of its step.\<close>

fun sema_run :: "int \<Rightarrow> (nat \<times> bool) list \<Rightarrow> sema \<Rightarrow> sema option" where
  "sema_run maxSpins [] s = Some s"
| "sema_run maxSpins ((i, ok) # is) s =
     (if i < length (sm_threads s) then
        (case call_act maxSpins ok (sm_count s, sm_kernel s) (sm_threads s ! i) of None \<Rightarrow> None
         | Some (pc, n, v) \<Rightarrow> sema_run maxSpins is
             \<lparr>sm_count = n, sm_kernel = v, sm_threads = (sm_threads s)[i := (sm_threads s ! i)\<lparr>cl_pc := pc\<rparr>]\<rparr>)
      else None)"

lemma sema_run_reach:
  assumes "sema_run maxSpins is s = Some s'" "sema_reach maxSpins N calls s"
  shows "sema_reach maxSpins N calls s'"
  using assms
proof (induction "is" arbitrary: s)
  case (Cons a "is")
  obtain i ok where a: "a = (i, ok)" by force
  obtain pc n v where act: "i < length (sm_threads s)" "call_act maxSpins ok (sm_count s, sm_kernel s) (sm_threads s ! i) = Some (pc, n, v)"
    and run: "sema_run maxSpins is \<lparr>sm_count = n, sm_kernel = v, sm_threads = (sm_threads s)[i := (sm_threads s ! i)\<lparr>cl_pc := pc\<rparr>]\<rparr> = Some s'"
    using Cons.prems(1) a by (auto split: if_splits option.splits)
  show ?case by (rule Cons.IH [OF run sema_next [OF Cons.prems(2) sema_thread [OF act]]])
qed simp

section \<open>Properties\<close>

text \<open>The assertions on the arguments of the calls.\<close>

definition call_ok :: "sema_call \<Rightarrow> bool" where
  "call_ok c \<longleftrightarrow> (case c of C_tryWaitMany mx \<Rightarrow> 0 \<le> mx | C_waitMany mx _ \<Rightarrow> 0 \<le> mx | C_signal n \<Rightarrow> 0 \<le> n | _ \<Rightarrow> True)"

lemma call_ok_start: "call_ok c \<Longrightarrow> caller_ok (call_start c)"
  by (cases c) (auto simp: call_ok_def caller_ok_def call_start_def pc_of_single_def pc_of_many_def)

text \<open>What a call adds to the semaphore.\<close>

definition permits :: "sema_call \<Rightarrow> int" where
  "permits c = (case c of C_signal n \<Rightarrow> n | _ \<Rightarrow> 0)"

lemma idle_signalled: "returned t \<or> waits_forever t \<Longrightarrow> signalled t = permits (cl_call t)"
  by (auto simp: returned_def waits_forever_def signalled_def permits_def split: sema_call.splits sema_pc.splits)

text \<open>
  The semaphore counts: in every interleaving the threads hold at most the initial permits and
  those signalled so far, however their exchanges fail and their waits time out. Once all calls
  have returned, the counter is exactly what is left, and no post is left in the kernel.
\<close>

theorem semaphore_counts:
  assumes "sema_reach maxSpins initialCount calls s" "0 \<le> initialCount" "length calls < 2 ^ 31" "\<forall>c \<in> set calls. call_ok c"
  shows "total granted s \<le> initialCount + total signalled s
    \<and> ((\<forall>t \<in> set (sm_threads s). returned t) \<longrightarrow>
        sm_count s = initialCount + total signalled s - total granted s \<and> sm_kernel s = 0)"
proof -
  have inv: "sema_inv initialCount s" using sema_inv_reach [OF assms(1-3)] assms(4) call_ok_start by blast
  have "total waiting s = 0 \<and> total owed s = 0" if "\<forall>t \<in> set (sm_threads s). returned t"
    using that by (auto intro!: total_0 simp: returned_def waiting_def owed_def split: sema_pc.splits)
  then show ?thesis using inv sema_inv_bounds(3) [OF inv] by (auto simp: sema_inv_def)
qed

text \<open>
  No wake-up is lost: when no thread can take a step although some call has not returned, the
  calls that have not returned wait without a timeout, and every permit ever given to the
  semaphore is held by a thread.
\<close>

theorem semaphore_no_lost_wakeup:
  assumes "sema_reach maxSpins initialCount calls s" "0 \<le> initialCount" "length calls < 2 ^ 31" "\<forall>c \<in> set calls. call_ok c"
    and "\<nexists>s'. sema_step maxSpins s s'" "\<exists>t \<in> set (sm_threads s). \<not> returned t"
  shows "total granted s = initialCount + sum_list (map permits calls)
    \<and> (\<forall>t \<in> set (sm_threads s). returned t \<or> waits_forever t)"
proof -
  have inv: "sema_inv initialCount s" and calls: "map cl_call (sm_threads s) = calls"
    using sema_inv_reach [OF assms(1-3)] assms(4) call_ok_start by blast+
  note stuck = stuck_threads [OF assms(5) inv]
  obtain w where w: "w \<in> set (sm_threads s)" "waits_forever w" "sm_kernel s = 0" using assms(6) stuck by blast
  have "total signalled s = sum_list (map permits calls)"
    unfolding calls [symmetric] map_map comp_def total_def [symmetric, of "\<lambda>t. permits (cl_call t)"]
    using stuck idle_signalled by (intro total_cong) blast
  moreover have "total owed s = 0" using stuck idle_owed by (intro total_0) blast
  ultimately show ?thesis using waiting_all_granted [OF inv _ w(1,3)] w(2) stuck by (auto simp: waits_forever_def)
qed

text \<open>A consumer that falls asleep, and a producer that wakes it; and a consumer on its own.\<close>

definition woken :: "sema" where
  "woken = \<lparr>sm_count = 0, sm_kernel = 0, sm_threads = [\<lparr>cl_call = C_wait (- 1), cl_pc = S_DONE 1\<rparr>, \<lparr>cl_call = C_signal 1, cl_pc = S_DONE 0\<rparr>]\<rparr>"

lemma woken_reach: "sema_reach 0 0 [C_wait (- 1), C_signal 1] woken"
proof (rule sema_run_reach [OF _ sema_init])
  show "sema_run 0 [(0, True), (0, True), (0, True), (1, True), (1, True), (1, True), (0, True)]
      (new_semaphore 0 [C_wait (- 1), C_signal 1]) = Some woken"
    by (simp add: new_semaphore_def call_start_def act_defs woken_def)
qed

lemma semaphore_counts_witness: "total granted woken \<le> total signalled woken \<and> total granted woken = 1"
  using semaphore_counts [OF woken_reach] by (simp add: call_ok_def) (simp add: total_def woken_def granted_def)

lemma semaphore_no_lost_wakeup_witness:
  "\<exists>s. sema_reach 0 0 [C_wait (- 1)] s \<and> (\<nexists>s'. sema_step 0 s s') \<and> total granted s = 0"
proof -
  let ?s = "\<lparr>sm_count = - 1, sm_kernel = 0, sm_threads = [\<lparr>cl_call = C_wait (- 1), cl_pc = S_BLOCK\<rparr>]\<rparr>"
  have "sema_run 0 [(0, True), (0, True), (0, True)] (new_semaphore 0 [C_wait (- 1)]) = Some ?s"
    by (simp add: new_semaphore_def call_start_def act_defs)
  then have reach: "sema_reach 0 0 [C_wait (- 1)] ?s" by (rule sema_run_reach [OF _ sema_init])
  have stuck: "\<nexists>s'. sema_step 0 ?s s'" by (auto elim!: sema_stepE simp: act_defs)
  have "total granted ?s = 0" using semaphore_no_lost_wakeup [OF reach _ _ _ stuck]
    by (simp add: call_ok_def returned_def permits_def)
  then show ?thesis using reach stuck by blast
qed

end
