(* ===== verification/BlockingQueue.thy ===== *)
theory BlockingQueue
  imports LightSemaphore
begin

text \<open>
  \<open>BlockingConcurrentQueue\<close> (\<open>blocking_concurrent_queue.hpp\<close>), the queue between the threads of the
  server: the lock-free \<open>ConcurrentQueue\<close> with a \<open>LightweightSemaphore\<close> that counts its elements.
  The lock-free queue is taken by what its documentation promises: an element is in it from the
  moment its \<open>enqueue\<close> takes effect until one \<open>try_dequeue\<close> takes it, and a \<open>try_dequeue\<close> may come
  back empty-handed. It keeps no order between producers, so it is a multiset.

  Each thread is in one call; its steps are the operations of the inner queue and those of the
  semaphore. Copying and moving, and calls with and without a token, do the same here.
\<close>

section \<open>State\<close>

datatype 'a bq_call = Q_enqueue 'a | Q_enqueue_bulk "'a list" | Q_try_enqueue 'a | Q_try_enqueue_bulk "'a list"
  | Q_try_dequeue | Q_try_dequeue_bulk int | Q_wait_dequeue | Q_wait_dequeue_timed int
  | Q_wait_dequeue_bulk int | Q_wait_dequeue_bulk_timed int int

datatype bq_pc = Q_INNER | Q_SEMA | Q_TAKE | Q_RET bool

record 'a bq_thread =
  qt_call :: "'a bq_call"
  qt_pc :: bq_pc
  qt_sema :: caller
  qt_got :: "'a list"

record 'a bqueue =
  bq_inner :: "'a multiset"
  bq_count :: int
  bq_kernel :: nat
  bq_threads :: "'a bq_thread list"

text \<open>The elements a call enqueues, and its call of the semaphore.\<close>

definition bq_items :: "'a bq_call \<Rightarrow> 'a list option" where
  "bq_items c = (case c of Q_enqueue x \<Rightarrow> Some [x] | Q_enqueue_bulk xs \<Rightarrow> Some xs | Q_try_enqueue x \<Rightarrow> Some [x]
     | Q_try_enqueue_bulk xs \<Rightarrow> Some xs | _ \<Rightarrow> None)"

definition bq_sema_call :: "'a bq_call \<Rightarrow> sema_call" where
  "bq_sema_call c = (case c of Q_enqueue x \<Rightarrow> C_signal 1 | Q_enqueue_bulk xs \<Rightarrow> C_signal (int (length xs))
     | Q_try_enqueue x \<Rightarrow> C_signal 1 | Q_try_enqueue_bulk xs \<Rightarrow> C_signal (int (length xs))
     | Q_try_dequeue \<Rightarrow> C_tryWait | Q_try_dequeue_bulk mx \<Rightarrow> C_tryWaitMany mx
     | Q_wait_dequeue \<Rightarrow> C_wait (- 1) | Q_wait_dequeue_timed to \<Rightarrow> C_wait to
     | Q_wait_dequeue_bulk mx \<Rightarrow> C_waitMany mx (- 1) | Q_wait_dequeue_bulk_timed mx to \<Rightarrow> C_waitMany mx to)"

definition bq_start :: "'a bq_call \<Rightarrow> 'a bq_thread" where
  "bq_start c = \<lparr>qt_call = c, qt_pc = (if bq_items c \<noteq> None then Q_INNER else Q_SEMA),
     qt_sema = call_start (bq_sema_call c), qt_got = []\<rparr>"

definition new_bqueue :: "'a bq_call list \<Rightarrow> 'a bqueue" where
  "new_bqueue calls = \<lparr>bq_inner = {#}, bq_count = 0, bq_kernel = 0, bq_threads = map bq_start calls\<rparr>"

section \<open>Operations\<close>

text \<open>A step of the thread in its call of the semaphore.\<close>

type_synonym 'a bq_result = "('a bq_thread \<times> 'a multiset \<times> int \<times> nat) option"

definition sema_move :: "int \<Rightarrow> bool \<Rightarrow> 'a multiset \<times> int \<times> nat \<Rightarrow> 'a bq_thread \<Rightarrow> 'a bq_result" where
  "sema_move maxSpins ok s t = (case s of (inner, n, v) \<Rightarrow>
     (case call_act maxSpins ok (n, v) (qt_sema t) of None \<Rightarrow> None
      | Some (pc, n1, v1) \<Rightarrow> Some (t\<lparr>qt_sema := (qt_sema t)\<lparr>cl_pc := pc\<rparr>\<rparr>, inner, n1, v1)))"

text \<open>The inner \<open>enqueue\<close> may fail (\<open>ok\<close> is false): for lack of memory, or for lack of room in a \<open>try_enqueue\<close>.\<close>

definition push_act :: "int \<Rightarrow> bool \<Rightarrow> 'a list \<Rightarrow> 'a multiset \<times> int \<times> nat \<Rightarrow> 'a bq_thread \<Rightarrow> 'a bq_result" where
  "push_act maxSpins ok xs s t = (case qt_pc t of
     Q_INNER \<Rightarrow> (case s of (inner, n, v) \<Rightarrow>
       if ok then Some (t\<lparr>qt_pc := Q_SEMA\<rparr>, inner + mset xs, n, v) else Some (t\<lparr>qt_pc := Q_RET False\<rparr>, inner, n, v))
   | Q_SEMA \<Rightarrow> (if returned (qt_sema t) then Some (t\<lparr>qt_pc := Q_RET True\<rparr>, s) else sema_move maxSpins ok s t)
   | _ \<Rightarrow> None)"

definition enqueue_act :: "int \<Rightarrow> bool \<Rightarrow> 'a \<Rightarrow> 'a multiset \<times> int \<times> nat \<Rightarrow> 'a bq_thread \<Rightarrow> 'a bq_result" where
  "enqueue_act maxSpins ok x = push_act maxSpins ok [x]"

definition enqueue_bulk_act :: "int \<Rightarrow> bool \<Rightarrow> 'a list \<Rightarrow> 'a multiset \<times> int \<times> nat \<Rightarrow> 'a bq_thread \<Rightarrow> 'a bq_result" where
  "enqueue_bulk_act maxSpins ok xs = push_act maxSpins ok xs"

definition try_enqueue_act :: "int \<Rightarrow> bool \<Rightarrow> 'a \<Rightarrow> 'a multiset \<times> int \<times> nat \<Rightarrow> 'a bq_thread \<Rightarrow> 'a bq_result" where
  "try_enqueue_act maxSpins ok x = push_act maxSpins ok [x]"

definition try_enqueue_bulk_act :: "int \<Rightarrow> bool \<Rightarrow> 'a list \<Rightarrow> 'a multiset \<times> int \<times> nat \<Rightarrow> 'a bq_thread \<Rightarrow> 'a bq_result" where
  "try_enqueue_bulk_act maxSpins ok xs = push_act maxSpins ok xs"

text \<open>
  \<open>while (!inner.try_dequeue(item)) continue;\<close>: \<open>taken\<close> is what the inner queue hands out, at most
  \<open>k\<close> elements, and nothing when it looked empty.
\<close>

definition inner_takes :: "'a list \<Rightarrow> int \<Rightarrow> 'a multiset \<Rightarrow> bool" where
  "inner_takes taken k inner \<longleftrightarrow> mset taken \<subseteq># inner \<and> int (length taken) \<le> k"

definition take_one :: "'a list \<Rightarrow> 'a multiset \<times> int \<times> nat \<Rightarrow> 'a bq_thread \<Rightarrow> 'a bq_result" where
  "take_one taken s t = (case s of (inner, n, v) \<Rightarrow>
     if \<not> inner_takes taken 1 inner then None
     else if taken = [] then Some (t, inner, n, v)
     else Some (t\<lparr>qt_got := taken, qt_pc := Q_RET True\<rparr>, inner - mset taken, n, v))"

text \<open>\<open>while (count != max) count += inner.try_dequeue_bulk(itemFirst, max - count);\<close>\<close>

definition take_bulk :: "'a list \<Rightarrow> 'a multiset \<times> int \<times> nat \<Rightarrow> 'a bq_thread \<Rightarrow> 'a bq_result" where
  "take_bulk taken s t = (case s of (inner, n, v) \<Rightarrow>
     let mx = granted (qt_sema t); cnt = int (length (qt_got t)) in
     if cnt = mx then Some (t\<lparr>qt_pc := Q_RET True\<rparr>, inner, n, v)
     else if \<not> inner_takes taken (mx - cnt) inner then None
     else Some (t\<lparr>qt_got := qt_got t @ taken\<rparr>, inner - mset taken, n, v))"

definition try_dequeue_act :: "int \<Rightarrow> bool \<Rightarrow> 'a list \<Rightarrow> 'a multiset \<times> int \<times> nat \<Rightarrow> 'a bq_thread \<Rightarrow> 'a bq_result" where
  "try_dequeue_act maxSpins ok taken s t = (case qt_pc t of
     Q_SEMA \<Rightarrow> if \<not> returned (qt_sema t) then sema_move maxSpins ok s t
       else if granted (qt_sema t) = 0 then Some (t\<lparr>qt_pc := Q_RET False\<rparr>, s) else Some (t\<lparr>qt_pc := Q_TAKE\<rparr>, s)
   | Q_TAKE \<Rightarrow> take_one taken s t
   | _ \<Rightarrow> None)"

text \<open>\<open>while (!sema->wait()) continue;\<close>: a wait that fails is repeated.\<close>

definition wait_dequeue_act :: "int \<Rightarrow> bool \<Rightarrow> 'a list \<Rightarrow> 'a multiset \<times> int \<times> nat \<Rightarrow> 'a bq_thread \<Rightarrow> 'a bq_result" where
  "wait_dequeue_act maxSpins ok taken s t = (case qt_pc t of
     Q_SEMA \<Rightarrow> if \<not> returned (qt_sema t) then sema_move maxSpins ok s t
       else if granted (qt_sema t) = 0 then Some (t\<lparr>qt_sema := call_start (bq_sema_call (qt_call t))\<rparr>, s)
       else Some (t\<lparr>qt_pc := Q_TAKE\<rparr>, s)
   | Q_TAKE \<Rightarrow> take_one taken s t
   | _ \<Rightarrow> None)"

definition wait_dequeue_timed_act :: "int \<Rightarrow> bool \<Rightarrow> 'a list \<Rightarrow> 'a multiset \<times> int \<times> nat \<Rightarrow> 'a bq_thread \<Rightarrow> 'a bq_result" where
  "wait_dequeue_timed_act maxSpins ok taken s t = (case qt_pc t of
     Q_SEMA \<Rightarrow> if \<not> returned (qt_sema t) then sema_move maxSpins ok s t
       else if granted (qt_sema t) = 0 then Some (t\<lparr>qt_pc := Q_RET False\<rparr>, s) else Some (t\<lparr>qt_pc := Q_TAKE\<rparr>, s)
   | Q_TAKE \<Rightarrow> take_one taken s t
   | _ \<Rightarrow> None)"

definition try_dequeue_bulk_act :: "int \<Rightarrow> bool \<Rightarrow> 'a list \<Rightarrow> 'a multiset \<times> int \<times> nat \<Rightarrow> 'a bq_thread \<Rightarrow> 'a bq_result" where
  "try_dequeue_bulk_act maxSpins ok taken s t = (case qt_pc t of
     Q_SEMA \<Rightarrow> if \<not> returned (qt_sema t) then sema_move maxSpins ok s t else Some (t\<lparr>qt_pc := Q_TAKE\<rparr>, s)
   | Q_TAKE \<Rightarrow> take_bulk taken s t
   | _ \<Rightarrow> None)"

definition wait_dequeue_bulk_act :: "int \<Rightarrow> bool \<Rightarrow> 'a list \<Rightarrow> 'a multiset \<times> int \<times> nat \<Rightarrow> 'a bq_thread \<Rightarrow> 'a bq_result" where
  "wait_dequeue_bulk_act maxSpins ok taken s t = (case qt_pc t of
     Q_SEMA \<Rightarrow> if \<not> returned (qt_sema t) then sema_move maxSpins ok s t else Some (t\<lparr>qt_pc := Q_TAKE\<rparr>, s)
   | Q_TAKE \<Rightarrow> take_bulk taken s t
   | _ \<Rightarrow> None)"

definition wait_dequeue_bulk_timed_act :: "int \<Rightarrow> bool \<Rightarrow> 'a list \<Rightarrow> 'a multiset \<times> int \<times> nat \<Rightarrow> 'a bq_thread \<Rightarrow> 'a bq_result" where
  "wait_dequeue_bulk_timed_act maxSpins ok taken s t = (case qt_pc t of
     Q_SEMA \<Rightarrow> if \<not> returned (qt_sema t) then sema_move maxSpins ok s t else Some (t\<lparr>qt_pc := Q_TAKE\<rparr>, s)
   | Q_TAKE \<Rightarrow> take_bulk taken s t
   | _ \<Rightarrow> None)"

definition bq_act :: "int \<Rightarrow> bool \<Rightarrow> 'a list \<Rightarrow> 'a multiset \<times> int \<times> nat \<Rightarrow> 'a bq_thread \<Rightarrow> 'a bq_result" where
  "bq_act maxSpins ok taken s t = (case qt_call t of
     Q_enqueue x \<Rightarrow> enqueue_act maxSpins ok x s t
   | Q_enqueue_bulk xs \<Rightarrow> enqueue_bulk_act maxSpins ok xs s t
   | Q_try_enqueue x \<Rightarrow> try_enqueue_act maxSpins ok x s t
   | Q_try_enqueue_bulk xs \<Rightarrow> try_enqueue_bulk_act maxSpins ok xs s t
   | Q_try_dequeue \<Rightarrow> try_dequeue_act maxSpins ok taken s t
   | Q_try_dequeue_bulk mx \<Rightarrow> try_dequeue_bulk_act maxSpins ok taken s t
   | Q_wait_dequeue \<Rightarrow> wait_dequeue_act maxSpins ok taken s t
   | Q_wait_dequeue_timed to \<Rightarrow> wait_dequeue_timed_act maxSpins ok taken s t
   | Q_wait_dequeue_bulk mx \<Rightarrow> wait_dequeue_bulk_act maxSpins ok taken s t
   | Q_wait_dequeue_bulk_timed mx to \<Rightarrow> wait_dequeue_bulk_timed_act maxSpins ok taken s t)"

definition bq_update :: "nat \<Rightarrow> 'a bq_thread \<times> 'a multiset \<times> int \<times> nat \<Rightarrow> 'a bqueue \<Rightarrow> 'a bqueue" where
  "bq_update i r q = (case r of (t, inner, n, v) \<Rightarrow>
     \<lparr>bq_inner = inner, bq_count = n, bq_kernel = v, bq_threads = (bq_threads q)[i := t]\<rparr>)"

inductive bq_step :: "int \<Rightarrow> 'a bqueue \<Rightarrow> 'a bqueue \<Rightarrow> bool" for maxSpins where
  bq_thread: "i < length (bq_threads q) \<Longrightarrow>
    bq_act maxSpins ok taken (bq_inner q, bq_count q, bq_kernel q) (bq_threads q ! i) = Some r \<Longrightarrow>
    bq_step maxSpins q (bq_update i r q)"

inductive_cases bq_stepE: "bq_step maxSpins q q'"

inductive bq_reach :: "int \<Rightarrow> 'a bq_call list \<Rightarrow> 'a bqueue \<Rightarrow> bool" for maxSpins calls where
  bq_init: "bq_reach maxSpins calls (new_bqueue calls)"
| bq_next: "bq_reach maxSpins calls q \<Longrightarrow> bq_step maxSpins q q' \<Longrightarrow> bq_reach maxSpins calls q'"

text \<open>\<open>size_approx\<close>.\<close>

definition bq_size_approx :: "'a bqueue \<Rightarrow> int" where
  "bq_size_approx q = (if bq_count q > 0 then bq_count q else 0)"

section \<open>The invariant\<close>

definition bq_sema :: "'a bqueue \<Rightarrow> sema" where
  "bq_sema q = \<lparr>sm_count = bq_count q, sm_kernel = bq_kernel q, sm_threads = map qt_sema (bq_threads q)\<rparr>"

definition single :: "'a bq_call \<Rightarrow> bool" where
  "single c \<longleftrightarrow> (case c of Q_try_dequeue \<Rightarrow> True | Q_wait_dequeue \<Rightarrow> True | Q_wait_dequeue_timed _ \<Rightarrow> True | _ \<Rightarrow> False)"

text \<open>How the elements a call holds relate to its permits.\<close>

definition thread_ok :: "'a bq_thread \<Rightarrow> bool" where
  "thread_ok t \<longleftrightarrow> cl_call (qt_sema t) = bq_sema_call (qt_call t) \<and>
     (if bq_items (qt_call t) \<noteq> None then qt_got t = [] \<and>
        (case qt_pc t of Q_INNER \<Rightarrow> cl_pc (qt_sema t) = S_ADD | Q_SEMA \<Rightarrow> True | Q_TAKE \<Rightarrow> False
         | Q_RET b \<Rightarrow> if b then returned (qt_sema t) else cl_pc (qt_sema t) = S_ADD)
      else
        (case qt_pc t of Q_INNER \<Rightarrow> False | Q_SEMA \<Rightarrow> qt_got t = []
         | Q_TAKE \<Rightarrow> returned (qt_sema t) \<and> int (length (qt_got t)) \<le> granted (qt_sema t)
             \<and> (single (qt_call t) \<longrightarrow> qt_got t = [] \<and> granted (qt_sema t) = 1)
         | Q_RET b \<Rightarrow> returned (qt_sema t) \<and> int (length (qt_got t)) = granted (qt_sema t)))"

text \<open>What a call has put into the inner queue.\<close>

definition put :: "'a bq_thread \<Rightarrow> 'a multiset" where
  "put t = (case bq_items (qt_call t) of Some xs \<Rightarrow> if qt_pc t = Q_INNER \<or> qt_pc t = Q_RET False then {#} else mset xs | None \<Rightarrow> {#})"

definition bq_inv :: "'a bqueue \<Rightarrow> bool" where
  "bq_inv q \<longleftrightarrow> sema_inv 0 (bq_sema q) \<and> (\<forall>t \<in> set (bq_threads q). thread_ok t)
     \<and> sum_list (map put (bq_threads q)) = bq_inner q + sum_list (map (\<lambda>t. mset (qt_got t)) (bq_threads q))"

lemma sum_list_swap: "i < length ts \<Longrightarrow> sum_list (map f (ts[i := t])) + f (ts ! i) = sum_list (map f ts) + f t"
  for f :: "'a \<Rightarrow> 'b::comm_monoid_add"
proof (induction ts arbitrary: i)
  case (Cons u ts)
  then show ?case by (cases i) (auto simp: ac_simps)
qed simp

text \<open>What one step of a call changes.\<close>

definition act_keeps :: "'a multiset \<Rightarrow> int \<Rightarrow> nat \<Rightarrow> 'a bq_thread \<Rightarrow> 'a bq_thread \<times> 'a multiset \<times> int \<times> nat \<Rightarrow> bool" where
  "act_keeps inner n v t r = (case r of (t', inner', n', v') \<Rightarrow> thread_ok t' \<and> caller_ok (qt_sema t') \<and> qt_call t' = qt_call t
     \<and> balance n' (qt_sema t') = balance n (qt_sema t) \<and> claims n' v' (qt_sema t') = claims n v (qt_sema t)
     \<and> put t' + inner + mset (qt_got t) = put t + inner' + mset (qt_got t'))"

lemma sema_move_keeps:
  assumes "sema_move maxSpins ok (inner, n, v) t = Some r" "thread_ok t" "caller_ok (qt_sema t)" "- n < 2 ^ 31" "qt_pc t = Q_SEMA"
  shows "act_keeps inner n v t r"
proof -
  obtain pc n1 v1 where act: "call_act maxSpins ok (n, v) (qt_sema t) = Some (pc, n1, v1)"
    and r: "r = (t\<lparr>qt_sema := (qt_sema t)\<lparr>cl_pc := pc\<rparr>\<rparr>, inner, n1, v1)"
    using assms(1) by (auto simp: sema_move_def split: option.splits)
  show ?thesis using call_conserves [OF act assms(3,4)] assms(2,5)
    by (auto simp: act_keeps_def r thread_ok_def put_def split: option.splits)
qed

lemma push_keeps:
  assumes "push_act maxSpins ok xs (inner, n, v) t = Some r" "bq_items (qt_call t) = Some xs"
    and "thread_ok t" "caller_ok (qt_sema t)" "- n < 2 ^ 31"
  shows "act_keeps inner n v t r"
proof (cases "qt_pc t")
  case Q_INNER
  then show ?thesis using assms by (auto simp: push_act_def act_keeps_def thread_ok_def put_def split: if_splits)
next
  case Q_SEMA
  show ?thesis
  proof (cases "returned (qt_sema t)")
    case True
    then have "r = (t\<lparr>qt_pc := Q_RET True\<rparr>, inner, n, v)" using assms(1) Q_SEMA by (simp add: push_act_def)
    then show ?thesis using assms(2-4) Q_SEMA True by (simp add: act_keeps_def thread_ok_def put_def)
  next
    case False
    then have "sema_move maxSpins ok (inner, n, v) t = Some r" using assms(1) Q_SEMA by (simp add: push_act_def)
    then show ?thesis using sema_move_keeps assms(3-5) Q_SEMA by blast
  qed
qed (use assms(1) in \<open>simp_all add: push_act_def\<close>)

lemma take_one_keeps:
  assumes "take_one taken (inner, n, v) t = Some r" "qt_pc t = Q_TAKE" "single (qt_call t)"
    and "thread_ok t" "caller_ok (qt_sema t)"
  shows "act_keeps inner n v t r"
proof -
  have none: "bq_items (qt_call t) = None" using assms(3) by (auto simp: single_def bq_items_def split: bq_call.splits)
  have t: "qt_got t = []" "granted (qt_sema t) = 1" "returned (qt_sema t)" using assms(2-4) none by (auto simp: thread_ok_def)
  show ?thesis
  proof (cases "taken = []")
    case True
    then show ?thesis using assms by (auto simp: take_one_def act_keeps_def split: if_splits)
  next
    case False
    then have r: "inner_takes taken 1 inner" "r = (t\<lparr>qt_got := taken, qt_pc := Q_RET True\<rparr>, inner - mset taken, n, v)"
      using assms(1) by (auto simp: take_one_def split: if_splits)
    have "length taken = 1" using r(1) False by (cases taken) (auto simp: inner_takes_def)
    then show ?thesis using r t assms(4,5) none by (auto simp: act_keeps_def thread_ok_def put_def inner_takes_def)
  qed
qed

lemma take_bulk_keeps:
  assumes "take_bulk taken (inner, n, v) t = Some r" "qt_pc t = Q_TAKE" "\<not> single (qt_call t)" "bq_items (qt_call t) = None"
    and "thread_ok t" "caller_ok (qt_sema t)"
  shows "act_keeps inner n v t r"
  using assms by (auto simp: take_bulk_def Let_def act_keeps_def thread_ok_def put_def inner_takes_def split: if_splits)

lemmas bq_act_defs = bq_act_def enqueue_act_def enqueue_bulk_act_def try_enqueue_act_def try_enqueue_bulk_act_def
  try_dequeue_act_def wait_dequeue_act_def wait_dequeue_timed_act_def try_dequeue_bulk_act_def wait_dequeue_bulk_act_def wait_dequeue_bulk_timed_act_def

text \<open>Leaving the semaphore of a dequeue: to take, to return empty-handed, or to wait again.\<close>

lemma leave_keeps:
  assumes "thread_ok t" "caller_ok (qt_sema t)" "qt_pc t = Q_SEMA" "bq_items (qt_call t) = None" "returned (qt_sema t)"
  shows "granted (qt_sema t) = 0 \<Longrightarrow> act_keeps inner n v t (t\<lparr>qt_pc := Q_RET b\<rparr>, inner, n, v)"
    and "(single (qt_call t) \<Longrightarrow> granted (qt_sema t) \<noteq> 0) \<Longrightarrow> act_keeps inner n v t (t\<lparr>qt_pc := Q_TAKE\<rparr>, inner, n, v)"
    and "qt_call t = Q_wait_dequeue \<Longrightarrow> granted (qt_sema t) = 0 \<Longrightarrow>
      act_keeps inner n v t (t\<lparr>qt_sema := call_start (bq_sema_call (qt_call t))\<rparr>, inner, n, v)"
proof -
  have g: "0 \<le> granted (qt_sema t)" "single (qt_call t) \<Longrightarrow> granted (qt_sema t) = 0 \<or> granted (qt_sema t) = 1"
    using assms(1,2,5) caller_ok_nonneg [OF assms(2)]
    by (auto simp: thread_ok_def single_def bq_sema_call_def bq_items_def caller_ok_def pc_of_single_def granted_def returned_def
        split: bq_call.splits sema_pc.splits if_splits)
  show "granted (qt_sema t) = 0 \<Longrightarrow> act_keeps inner n v t (t\<lparr>qt_pc := Q_RET b\<rparr>, inner, n, v)"
    using assms by (auto simp: act_keeps_def thread_ok_def put_def)
  show "(single (qt_call t) \<Longrightarrow> granted (qt_sema t) \<noteq> 0) \<Longrightarrow> act_keeps inner n v t (t\<lparr>qt_pc := Q_TAKE\<rparr>, inner, n, v)"
    using assms g by (auto simp: act_keeps_def thread_ok_def put_def)
  assume w: "qt_call t = Q_wait_dequeue" "granted (qt_sema t) = 0"
  then have "cl_call (qt_sema t) = C_wait (- 1)" using assms(1) by (simp add: thread_ok_def bq_sema_call_def)
  then have "cl_pc (qt_sema t) = S_DONE 0" using assms(2,5) w(2)
    by (auto simp: returned_def caller_ok_def pc_of_single_def granted_def split: sema_pc.splits)
  then show "act_keeps inner n v t (t\<lparr>qt_sema := call_start (bq_sema_call (qt_call t))\<rparr>, inner, n, v)"
    using assms w \<open>cl_call (qt_sema t) = C_wait (- 1)\<close>
    by (auto simp: act_keeps_def thread_ok_def put_def count_defs call_start_def bq_sema_call_def split: sema_pc.splits)
qed

lemma bq_act_keeps:
  assumes act: "bq_act maxSpins ok taken (inner, n, v) t = Some r"
    and ok: "thread_ok t" "caller_ok (qt_sema t)" and small: "- n < 2 ^ 31"
  shows "act_keeps inner n v t r"
proof (cases "bq_items (qt_call t)")
  case (Some xs)
  then have "push_act maxSpins ok xs (inner, n, v) t = Some r"
    using act by (auto simp: bq_act_defs bq_items_def split: bq_call.splits)
  then show ?thesis using push_keeps Some ok small by blast
next
  case None
  note steps = sema_move_keeps [OF _ ok small] leave_keeps [OF ok] take_one_keeps take_bulk_keeps
  show ?thesis
  proof (cases "qt_pc t")
    case Q_SEMA
    then show ?thesis using act None steps
      by (auto simp: bq_act_defs single_def bq_items_def split: bq_call.splits if_splits)
  next
    case Q_TAKE
    then show ?thesis using act None ok take_one_keeps [OF _ Q_TAKE _ ok] take_bulk_keeps [OF _ Q_TAKE _ None ok]
      by (auto simp: bq_act_defs single_def bq_items_def split: bq_call.splits)
  qed (use act None in \<open>auto simp: bq_act_defs bq_items_def split: bq_call.splits\<close>)
qed

lemma bq_inv_step:
  assumes inv: "bq_inv q" and few: "length (bq_threads q) < 2 ^ 31" and step: "bq_step maxSpins q q'"
  shows "bq_inv q' \<and> map qt_call (bq_threads q') = map qt_call (bq_threads q)"
proof -
  obtain i ok taken r where i: "i < length (bq_threads q)" and q': "q' = bq_update i r q"
    and act: "bq_act maxSpins ok taken (bq_inner q, bq_count q, bq_kernel q) (bq_threads q ! i) = Some r"
    using step by (rule bq_stepE) blast
  let ?t = "bq_threads q ! i"
  have sema: "sema_inv 0 (bq_sema q)" using inv by (simp add: bq_inv_def)
  have small: "- bq_count q < 2 ^ 31" using sema_inv_bounds(1) [OF sema] few by (simp add: bq_sema_def)
  have ok: "thread_ok ?t" "caller_ok (qt_sema ?t)" using inv i by (auto simp: bq_inv_def sema_inv_def bq_sema_def)
  obtain t' inner n v where r: "r = (t', inner, n, v)" by (cases r)
  have keeps: "thread_ok t'" "caller_ok (qt_sema t')" "qt_call t' = qt_call ?t"
    "balance n (qt_sema t') = balance (bq_count q) (qt_sema ?t)" "claims n v (qt_sema t') = claims (bq_count q) (bq_kernel q) (qt_sema ?t)"
    "put t' + bq_inner q + mset (qt_got ?t) = put ?t + inner + mset (qt_got t')"
    using bq_act_keeps [OF act ok small] by (simp_all add: act_keeps_def r)
  let ?ts = "(bq_threads q)[i := t']"
  have "sema_inv 0 (bq_sema q')"
    using sema_inv_update [OF sema, of i "qt_sema t'" n v] i keeps by (simp add: bq_sema_def q' bq_update_def r map_update)
  moreover have "\<forall>t \<in> set ?ts. thread_ok t"
    using inv keeps(1) set_update_subset_insert [of "bq_threads q" i t'] by (auto simp: bq_inv_def)
  moreover have "sum_list (map put ?ts) = inner + sum_list (map (\<lambda>t. mset (qt_got t)) ?ts)"
  proof -
    let ?G = "\<lambda>ts. sum_list (map (\<lambda>t. mset (qt_got t)) ts)"
    have "sum_list (map put ?ts) + put ?t + mset (qt_got ?t) = bq_inner q + ?G (bq_threads q) + put t' + mset (qt_got ?t)"
      using sum_list_swap [OF i, of put t'] inv by (simp add: bq_inv_def)
    also have "\<dots> = (put t' + bq_inner q + mset (qt_got ?t)) + ?G (bq_threads q)" by (simp add: ac_simps)
    also have "\<dots> = put ?t + inner + (?G ?ts + mset (qt_got ?t))"
      unfolding keeps(6) using sum_list_swap [OF i, of "\<lambda>t. mset (qt_got t)" t'] by (simp add: ac_simps)
    finally have "sum_list (map put ?ts) + (put ?t + mset (qt_got ?t)) = (inner + ?G ?ts) + (put ?t + mset (qt_got ?t))"
      by (simp add: ac_simps)
    then show ?thesis by (rule add_right_imp_eq)
  qed
  moreover have "map qt_call ?ts = map qt_call (bq_threads q)"
    using i keeps(3) by (simp add: map_update) (metis length_map list_update_id nth_map)
  ultimately show ?thesis by (simp add: bq_inv_def q' bq_update_def r)
qed

text \<open>The arguments the assertions of the semaphore admit.\<close>

definition bq_call_ok :: "'a bq_call \<Rightarrow> bool" where
  "bq_call_ok c \<longleftrightarrow> (case c of Q_wait_dequeue_bulk mx \<Rightarrow> 0 < mx | Q_wait_dequeue_bulk_timed mx _ \<Rightarrow> 0 \<le> mx
     | Q_try_dequeue_bulk mx \<Rightarrow> 0 \<le> mx | _ \<Rightarrow> True)"

lemma bq_start_ok:
  assumes "bq_call_ok c"
  shows "thread_ok (bq_start c)" "caller_ok (qt_sema (bq_start c))" "put (bq_start c) = {#}" "qt_got (bq_start c) = []"
  using assms by (cases c; simp add: bq_start_def thread_ok_def call_start_def bq_sema_call_def bq_items_def put_def
      caller_ok_def pc_of_single_def pc_of_many_def bq_call_ok_def)+

lemma bq_inv_reach:
  assumes "bq_reach maxSpins calls q" "length calls < 2 ^ 31" "\<forall>c \<in> set calls. bq_call_ok c"
  shows "bq_inv q \<and> map qt_call (bq_threads q) = calls"
  using assms(1)
proof (induction rule: bq_reach.induct)
  case bq_init
  have "bq_sema (new_bqueue calls) = new_semaphore 0 (map bq_sema_call calls)"
    by (simp add: bq_sema_def new_bqueue_def new_semaphore_def bq_start_def)
  moreover have "\<forall>t \<in> set (map call_start (map bq_sema_call calls)). caller_ok t"
    using assms(3) bq_start_ok(2) by (fastforce simp: bq_start_def)
  ultimately have "sema_inv 0 (bq_sema (new_bqueue calls))"
    using total_start call_start_zero by (simp add: sema_inv_def) (simp add: new_semaphore_def)
  moreover have "sum_list (map f (map bq_start calls)) = {#}" if "\<And>c. c \<in> set calls \<Longrightarrow> f (bq_start c) = {#}"
    for f :: "'a bq_thread \<Rightarrow> 'a multiset"
    using that by (induction calls) simp_all
  moreover from this [of put] this [of "\<lambda>t. mset (qt_got t)"]
  have "sum_list (map put (map bq_start calls)) = {#}" "sum_list (map (\<lambda>t. mset (qt_got t)) (map bq_start calls)) = {#}"
    using assms(3) bq_start_ok(3,4) by auto
  moreover have "\<forall>t \<in> set (map bq_start calls). thread_ok t" using assms(3) bq_start_ok(1) by auto
  ultimately have "bq_inv (new_bqueue calls)" by (simp add: bq_inv_def) (simp add: new_bqueue_def)
  moreover have "map qt_call (map bq_start calls) = calls" by (induction calls) (simp_all add: bq_start_def)
  ultimately show ?case by (simp add: new_bqueue_def del: map_map)
next
  case (bq_next q q')
  moreover have "length (bq_threads q) = length calls" using bq_next.IH by (metis length_map)
  ultimately show ?case using bq_inv_step [of q maxSpins q'] assms(2) by simp
qed

section \<open>Properties\<close>

text \<open>Elements: as many permits as elements, and as many elements as the permits that have not been used.\<close>

definition left_to_take :: "'a bq_thread \<Rightarrow> int" where
  "left_to_take t = granted (qt_sema t) - int (length (qt_got t))"

lemma put_size: "thread_ok t \<Longrightarrow> signalled (qt_sema t) \<le> int (size (put t))"
  by (auto simp: thread_ok_def put_def signalled_def bq_sema_call_def bq_items_def split: bq_call.splits bq_pc.splits if_splits)

lemma left_nonneg:
  assumes "thread_ok t" "caller_ok (qt_sema t)"
  shows "0 \<le> left_to_take t"
  using assms caller_ok_nonneg [OF assms(2)]
  by (auto simp: thread_ok_def left_to_take_def split: bq_pc.splits if_splits)

lemma size_sum_list: "size (sum_list (map f ts)) = sum_list (map (\<lambda>t. size (f t)) ts)" for f :: "'a \<Rightarrow> 'b multiset"
  by (induction ts) simp_all

lemma inner_size:
  assumes "bq_inv q"
  shows "int (size (bq_inner q)) + sum_list (map (\<lambda>t. int (length (qt_got t))) (bq_threads q))
    = sum_list (map (\<lambda>t. int (size (put t))) (bq_threads q))"
proof -
  have sum: "sum_list (map (\<lambda>t. int (f t)) ts) = int (sum_list (map f ts))" for f :: "'a bq_thread \<Rightarrow> nat" and ts
    by (induction ts) simp_all
  have "size (sum_list (map put (bq_threads q))) = size (bq_inner q + sum_list (map (\<lambda>t. mset (qt_got t)) (bq_threads q)))"
    using assms by (simp add: bq_inv_def)
  then show ?thesis by (simp add: size_sum_list sum)
qed

lemma enough_inside:
  assumes inv: "bq_inv q"
  shows "sum_list (map left_to_take (bq_threads q)) \<le> int (size (bq_inner q))"
proof -
  let ?ts = "bq_threads q"
  have sema: "sema_inv 0 (bq_sema q)" and ok: "\<forall>t \<in> set ?ts. thread_ok t" using inv by (simp_all add: bq_inv_def)
  have "sum_list (map (\<lambda>t. signalled (qt_sema t)) ?ts) \<le> sum_list (map (\<lambda>t. int (size (put t))) ?ts)"
    using ok put_size by (intro sum_list_mono) blast
  moreover have "total granted (bq_sema q) \<le> total signalled (bq_sema q)"
    using sema sema_inv_bounds(3) [OF sema] by (auto simp: sema_inv_def)
  moreover have "sum_list (map left_to_take ?ts) = total granted (bq_sema q) - sum_list (map (\<lambda>t. int (length (qt_got t))) ?ts)"
    
    by (simp add: total_def bq_sema_def comp_def left_to_take_def [abs_def] sum_list_subtractf)
  ultimately show ?thesis using inner_size [OF inv] by (simp add: total_def bq_sema_def comp_def)
qed

text \<open>
  C34. The blocking queue neither loses nor duplicates an element, and a thread whose wait on the
  semaphore has succeeded finds as many elements in the inner queue as it still has to take, so
  its loop over \<open>try_dequeue\<close> can end.
\<close>

theorem blocking_queue_exact:
  assumes "bq_reach maxSpins calls q" "length calls < 2 ^ 31" "\<forall>c \<in> set calls. bq_call_ok c"
  shows "sum_list (map put (bq_threads q)) = bq_inner q + sum_list (map (\<lambda>t. mset (qt_got t)) (bq_threads q))
    \<and> (\<forall>t \<in> set (bq_threads q). qt_pc t = Q_TAKE \<longrightarrow> 0 \<le> left_to_take t \<and> left_to_take t \<le> int (size (bq_inner q)))"
proof -
  have inv: "bq_inv q" using bq_inv_reach [OF assms] by blast
  have ok: "0 \<le> left_to_take t" if "t \<in> set (bq_threads q)" for t
    using inv that by (intro left_nonneg) (auto simp: bq_inv_def sema_inv_def bq_sema_def)
  have "left_to_take t \<le> sum_list (map left_to_take (bq_threads q))" if "t \<in> set (bq_threads q)" for t
    using that ok by (intro member_le_sum_list) auto
  then show ?thesis using inv ok enough_inside [OF inv] by (force simp: bq_inv_def)
qed

text \<open>Threads that cannot go on.\<close>

lemma blocked_bq_thread:
  assumes "\<And>ok taken. bq_act maxSpins ok taken (inner, n, v) t = None" "thread_ok t" "caller_ok (qt_sema t)"
  shows "(\<exists>b. qt_pc t = Q_RET b) \<or> qt_pc t = Q_SEMA \<and> waits_forever (qt_sema t) \<and> v = 0"
proof (cases "qt_pc t")
  case Q_INNER
  then show ?thesis using assms(1) [of True "[]"] assms(2)
    by (auto simp: bq_act_defs push_act_def thread_ok_def bq_items_def split: bq_call.splits)
next
  case Q_SEMA
  have "call_act maxSpins ok (n, v) (qt_sema t) = None" if "\<not> returned (qt_sema t)" for ok
    using assms(1) [of ok "[]"] that Q_SEMA
    by (auto simp: bq_act_defs push_act_def sema_move_def split: bq_call.splits option.splits)
  moreover have "\<not> returned (qt_sema t)" using assms(1) [of True "[]"] Q_SEMA
    by (auto simp: bq_act_defs push_act_def split: bq_call.splits if_splits)
  ultimately show ?thesis using blocked_caller [of maxSpins n v "qt_sema t"] assms(3) Q_SEMA by blast
next
  case Q_TAKE
  then show ?thesis using assms(1) [of True "[]"] assms(2)
    by (auto simp: bq_act_defs push_act_def take_one_def take_bulk_def Let_def inner_takes_def thread_ok_def bq_items_def
        split: bq_call.splits if_splits)
qed simp

lemma idle_bq_thread:
  assumes "thread_ok t" "(\<exists>b. qt_pc t = Q_RET b) \<or> qt_pc t = Q_SEMA \<and> waits_forever (qt_sema t)"
  shows "owed (qt_sema t) = 0" "int (size (put t)) - int (length (qt_got t)) = signalled (qt_sema t) - granted (qt_sema t)"
  using assms by (auto simp: thread_ok_def put_def owed_def signalled_def granted_def waits_forever_def returned_def
      bq_sema_call_def bq_items_def split: bq_call.splits sema_pc.splits sema_call.splits if_splits)

text \<open>
  C35. No consumer sleeps on a queue that holds something: when no thread can take a step although
  some call has not returned, the calls that have not returned are dequeues that wait without a
  timeout, and the inner queue is empty.
\<close>

theorem blocking_queue_no_lost_wakeup:
  assumes "bq_reach maxSpins calls q" "length calls < 2 ^ 31" "\<forall>c \<in> set calls. bq_call_ok c"
    and "\<nexists>q'. bq_step maxSpins q q'" "t \<in> set (bq_threads q)" "\<nexists>b. qt_pc t = Q_RET b"
  shows "bq_inner q = {#} \<and> qt_call t \<in> {Q_wait_dequeue} \<union> {Q_wait_dequeue_timed to | to. to < 0}
    \<union> {Q_wait_dequeue_bulk mx | mx. True} \<union> {Q_wait_dequeue_bulk_timed mx to | mx to. to < 0}"
proof -
  have inv: "bq_inv q" using bq_inv_reach [OF assms(1-3)] by blast
  then have sema: "sema_inv 0 (bq_sema q)" by (simp add: bq_inv_def)
  have ok: "thread_ok u" "caller_ok (qt_sema u)" if "u \<in> set (bq_threads q)" for u
    using that inv by (auto simp: bq_inv_def sema_inv_def bq_sema_def)
  have idle: "(\<exists>b. qt_pc u = Q_RET b) \<or> qt_pc u = Q_SEMA \<and> waits_forever (qt_sema u) \<and> bq_kernel q = 0"
    if u: "u \<in> set (bq_threads q)" for u
  proof -
    obtain i where i: "i < length (bq_threads q)" "u = bq_threads q ! i" using u by (metis in_set_conv_nth)
    have "bq_act maxSpins b taken (bq_inner q, bq_count q, bq_kernel q) u = None" for b taken
      using assms(4) bq_thread [OF i(1), of maxSpins b taken] i(2) by (metis not_None_eq)
    then show ?thesis using blocked_bq_thread ok [OF u] by blast
  qed
  have t: "waits_forever (qt_sema t)" "bq_kernel q = 0" "cl_call (qt_sema t) = bq_sema_call (qt_call t)"
    using idle [OF assms(5)] assms(6) ok(1) [OF assms(5)] by (auto simp: thread_ok_def)
  have "total owed (bq_sema q) = 0"
    using idle ok(1) idle_bq_thread(1) by (intro total_0) (fastforce simp: bq_sema_def)
  then have "total granted (bq_sema q) = total signalled (bq_sema q)"
    using waiting_all_granted [OF sema, of "qt_sema t"] t assms(5) by (simp add: bq_sema_def waits_forever_def)
  then have "sum_list (map (\<lambda>u. signalled (qt_sema u) - granted (qt_sema u)) (bq_threads q)) = 0"
    by (simp add: total_def bq_sema_def comp_def sum_list_subtractf)
  moreover have "signalled (qt_sema u) - granted (qt_sema u) = int (size (put u)) - int (length (qt_got u))"
    if "u \<in> set (bq_threads q)" for u using idle_bq_thread(2) [OF ok(1) [OF that]] idle [OF that] by auto
  ultimately have "sum_list (map (\<lambda>u. int (size (put u)) - int (length (qt_got u))) (bq_threads q)) = 0"
    by (metis (mono_tags, lifting) map_eq_conv)
  then have "int (size (bq_inner q)) = 0" using inner_size [OF inv] by (simp add: sum_list_subtractf)
  then show ?thesis using t(1,3) by (auto simp: waits_forever_def bq_sema_call_def split: bq_call.splits)
qed

section \<open>A single consumer\<close>

text \<open>All other calls enqueue, or have returned.\<close>

definition sole_consumer :: "nat \<Rightarrow> 'a bqueue \<Rightarrow> bool" where
  "sole_consumer i q \<longleftrightarrow> (\<forall>j < length (bq_threads q). j \<noteq> i \<longrightarrow>
     bq_items (qt_call (bq_threads q ! j)) \<noteq> None \<or> (\<exists>b. qt_pc (bq_threads q ! j) = Q_RET b))"

text \<open>A bulk dequeue of \<open>m\<close> elements that has found, or is going to find, all its permits at once.\<close>

definition bulk_of :: "int \<Rightarrow> 'a bq_thread \<Rightarrow> bool" where
  "bulk_of m t \<longleftrightarrow> qt_call t = Q_wait_dequeue_bulk m \<or> (\<exists>to. qt_call t = Q_wait_dequeue_bulk_timed m to)"

definition served :: "int \<Rightarrow> int \<Rightarrow> 'a bq_thread \<Rightarrow> bool" where
  "served m n t \<longleftrightarrow> cl_pc (qt_sema t) = S_DONE m
     \<or> m \<le> n \<and> qt_pc t = Q_SEMA \<and> (cl_pc (qt_sema t) = S_TRY \<or> (\<exists>old. cl_pc (qt_sema t) = S_TRY_CAS old \<and> m \<le> old))"

lemma producer_adds:
  assumes "bq_act maxSpins ok taken (inner, n, v) t = Some (t', inner', n', v')" "thread_ok t" "caller_ok (qt_sema t)"
    and "bq_items (qt_call t) \<noteq> None \<or> (\<exists>b. qt_pc t = Q_RET b)"
  shows "n \<le> n'"
proof -
  obtain xs where items: "bq_items (qt_call t) = Some xs" and act: "push_act maxSpins ok xs (inner, n, v) t = Some (t', inner', n', v')"
    using assms(1,4) by (auto simp: bq_act_defs bq_items_def push_act_def split: bq_call.splits)
  obtain c where c: "cl_call (qt_sema t) = C_signal c" "0 \<le> c"
    using assms(2) items by (auto simp: thread_ok_def bq_items_def bq_sema_call_def split: bq_call.splits)
  show ?thesis using act c
    by (auto simp: push_act_def sema_move_def call_act_def signal_act_def kernel_signal_act_def Let_def split: bq_pc.splits if_splits option.splits sema_pc.splits)
qed

lemma timed_bulk_same: "wait_dequeue_bulk_timed_act maxSpins ok taken s t = wait_dequeue_bulk_act maxSpins ok taken s t"
  by (simp only: wait_dequeue_bulk_timed_act_def wait_dequeue_bulk_act_def)

lemma consumer_served:
  assumes "bq_act maxSpins ok taken (inner, n, v) t = Some (t', inner', n', v')" "bulk_of m t" "0 < m" "thread_ok t" "served m n t"
  shows "served m n' t'"
proof -
  have c: "cl_call (qt_sema t) = C_waitMany m (- 1) \<or> (\<exists>to. cl_call (qt_sema t) = C_waitMany m to)"
    using assms(2,4) by (auto simp: bulk_of_def thread_ok_def bq_sema_call_def)
  have act: "wait_dequeue_bulk_act maxSpins ok taken (inner, n, v) t = Some (t', inner', n', v')"
    using assms(1,2) by (auto simp: bulk_of_def bq_act_def timed_bulk_same)
  show ?thesis
  proof (cases "cl_pc (qt_sema t) = S_DONE m")
    case True
    then show ?thesis using act by (auto simp: wait_dequeue_bulk_act_def served_def take_bulk_def returned_def Let_def split: bq_pc.splits if_splits)
  next
    case False
    then show ?thesis using act c assms(3,5)
      by (auto simp: wait_dequeue_bulk_act_def served_def sema_move_def call_act_def waitMany_act_def tryWaitMany_act_def
          trying_def newCount_def returned_def split: if_splits option.splits)
  qed
qed

lemma sole_step:
  assumes step: "bq_step maxSpins q q'" and inv: "bq_inv q" and m: "0 < m" and i: "i < length (bq_threads q)"
    and sole: "sole_consumer i q" and bulk: "bulk_of m (bq_threads q ! i)" and srv: "served m (bq_count q) (bq_threads q ! i)"
    and few: "length (bq_threads q) < 2 ^ 31"
  shows "sole_consumer i q' \<and> bulk_of m (bq_threads q' ! i) \<and> served m (bq_count q') (bq_threads q' ! i)"
proof -
  obtain j ok taken r where j: "j < length (bq_threads q)" and q': "q' = bq_update j r q"
    and act: "bq_act maxSpins ok taken (bq_inner q, bq_count q, bq_kernel q) (bq_threads q ! j) = Some r"
    using step by (rule bq_stepE) blast
  obtain t' inner n v where r: "r = (t', inner, n, v)" by (cases r)
  let ?t = "bq_threads q ! j"
  have t: "thread_ok ?t" "caller_ok (qt_sema ?t)" using inv j by (auto simp: bq_inv_def sema_inv_def bq_sema_def)
  have calls: "map qt_call (bq_threads q') = map qt_call (bq_threads q)" using bq_inv_step [OF inv few step] by blast
  have call': "qt_call (bq_threads q' ! k) = qt_call (bq_threads q ! k)" if "k < length (bq_threads q)" for k
    using that arg_cong [OF calls, of "\<lambda>l. l ! k"] arg_cong [OF calls, of length] by simp
  show ?thesis
  proof (cases "j = i")
    case True
    have "served m n t'" using consumer_served [OF act [unfolded r]] bulk m t(1) srv True by blast
    then show ?thesis using sole bulk call' [OF i] True i by (auto simp: q' bq_update_def r sole_consumer_def bulk_of_def)
  next
    case False
    have p: "bq_items (qt_call ?t) \<noteq> None \<or> (\<exists>b. qt_pc ?t = Q_RET b)" using sole j False by (auto simp: sole_consumer_def)
    have "bq_count q \<le> n" by (rule producer_adds [OF act [unfolded r] t p])
    moreover have "\<nexists>b. qt_pc ?t = Q_RET b" using act
      by (auto simp: bq_act_defs push_act_def split: bq_call.splits)
    ultimately show ?thesis using False srv bulk p sole i j call' [OF j]
      by (auto simp: q' bq_update_def r served_def sole_consumer_def nth_list_update)
  qed
qed

text \<open>
  What the lists of the communication controller stand for: while no other thread dequeues, a
  bulk dequeue of \<open>m\<close> elements that starts when the counter shows at least \<open>m\<close> never sleeps and
  returns exactly \<open>m\<close> elements, whatever the producers do in the meantime.
\<close>

theorem bulk_dequeue_exact:
  assumes "bq_reach maxSpins calls q" "length calls < 2 ^ 31" "\<forall>c \<in> set calls. bq_call_ok c"
    and "i < length calls" "sole_consumer i q" "bulk_of m (bq_threads q ! i)" "0 < m"
    and "bq_threads q ! i = bq_start (calls ! i)" "m \<le> bq_count q"
    and "(bq_step maxSpins)\<^sup>*\<^sup>* q q'"
  shows "cl_pc (qt_sema (bq_threads q' ! i)) \<noteq> S_BLOCK
    \<and> (\<forall>b. qt_pc (bq_threads q' ! i) = Q_RET b \<longrightarrow> int (length (qt_got (bq_threads q' ! i))) = m)"
proof -
  have len: "length (bq_threads p) = length calls" if "bq_reach maxSpins calls p" for p
    using bq_inv_reach [OF that assms(2,3)] by (metis length_map)
  have start: "served m (bq_count q) (bq_threads q ! i)"
    using assms(6,8,9) by (auto simp: served_def bulk_of_def bq_start_def bq_items_def call_start_def bq_sema_call_def)
  have "bq_reach maxSpins calls q' \<and> sole_consumer i q' \<and> bulk_of m (bq_threads q' ! i) \<and> served m (bq_count q') (bq_threads q' ! i)"
    using assms(10)
  proof (induction rule: rtranclp_induct)
    case (step p p')
    have "bq_inv p" "length (bq_threads p) = length calls" using step.IH bq_inv_reach [OF _ assms(2,3)] len by auto
    then show ?case using sole_step [OF step.hyps(2)] step.IH assms(2,4,7) bq_next [OF _ step.hyps(2)] by auto
  qed (use assms(1,5,6) start in blast)
  then have r: "bq_reach maxSpins calls q'" "bulk_of m (bq_threads q' ! i)" "served m (bq_count q') (bq_threads q' ! i)" by auto
  have ok: "thread_ok (bq_threads q' ! i)" using bq_inv_reach [OF r(1) assms(2,3)] len [OF r(1)] assms(4) by (auto simp: bq_inv_def)
  then have "cl_call (qt_sema (bq_threads q' ! i)) = bq_sema_call (qt_call (bq_threads q' ! i))" by (simp add: thread_ok_def)
  then show ?thesis using r(2,3) ok
    by (auto simp: served_def thread_ok_def bulk_of_def bq_items_def bq_sema_call_def granted_def)
qed

section \<open>Runs\<close>

fun bq_run :: "int \<Rightarrow> (nat \<times> bool \<times> 'a list) list \<Rightarrow> 'a bqueue \<Rightarrow> 'a bqueue option" where
  "bq_run maxSpins [] q = Some q"
| "bq_run maxSpins ((i, ok, taken) # is) q =
     (if i < length (bq_threads q) then
        (case bq_act maxSpins ok taken (bq_inner q, bq_count q, bq_kernel q) (bq_threads q ! i) of None \<Rightarrow> None
         | Some r \<Rightarrow> bq_run maxSpins is (bq_update i r q))
      else None)"

lemma bq_run_steps: "bq_run maxSpins is q = Some q' \<Longrightarrow> (bq_step maxSpins)\<^sup>*\<^sup>* q q'"
proof (induction "is" arbitrary: q)
  case (Cons a "is")
  obtain i ok taken where a: "a = (i, ok, taken)" by (cases a)
  obtain r where r: "i < length (bq_threads q)" "bq_act maxSpins ok taken (bq_inner q, bq_count q, bq_kernel q) (bq_threads q ! i) = Some r"
    "bq_run maxSpins is (bq_update i r q) = Some q'"
    using Cons.prems a by (auto split: if_splits option.splits)
  show ?case using bq_thread [OF r(1,2)] Cons.IH [OF r(3)] by (rule converse_rtranclp_into_rtranclp)
qed simp

lemma bq_steps_reach: "(bq_step maxSpins)\<^sup>*\<^sup>* q q' \<Longrightarrow> bq_reach maxSpins calls q \<Longrightarrow> bq_reach maxSpins calls q'"
  by (induction rule: rtranclp_induct) (auto intro: bq_next)

text \<open>Two elements are enqueued; then one call takes both.\<close>

definition two_calls :: "nat bq_call list" where
  "two_calls = [Q_enqueue_bulk [7, 8], Q_wait_dequeue_bulk 2]"

definition two_filled :: "nat bqueue" where
  "two_filled = \<lparr>bq_inner = {#7, 8#}, bq_count = 2, bq_kernel = 0, bq_threads =
     [\<lparr>qt_call = Q_enqueue_bulk [7, 8], qt_pc = Q_RET True, qt_sema = \<lparr>cl_call = C_signal 2, cl_pc = S_DONE 0\<rparr>, qt_got = []\<rparr>,
      bq_start (Q_wait_dequeue_bulk 2)]\<rparr>"

definition two_taken :: "nat bqueue" where
  "two_taken = \<lparr>bq_inner = {#}, bq_count = 0, bq_kernel = 0, bq_threads =
     [\<lparr>qt_call = Q_enqueue_bulk [7, 8], qt_pc = Q_RET True, qt_sema = \<lparr>cl_call = C_signal 2, cl_pc = S_DONE 0\<rparr>, qt_got = []\<rparr>,
      \<lparr>qt_call = Q_wait_dequeue_bulk 2, qt_pc = Q_RET True, qt_sema = \<lparr>cl_call = C_waitMany 2 (- 1), cl_pc = S_DONE 2\<rparr>, qt_got = [8, 7]\<rparr>]\<rparr>"

lemmas bq_eval = bq_act_defs push_act_def sema_move_def act_defs bq_start_def bq_items_def bq_sema_call_def call_start_def
  returned_def granted_def take_one_def take_bulk_def inner_takes_def bq_update_def

lemma two_filled_reach: "bq_reach 0 two_calls two_filled"
proof (rule bq_steps_reach [OF bq_run_steps bq_init])
  show "bq_run 0 [(0, True, []), (0, True, []), (0, True, [])] (new_bqueue two_calls) = Some two_filled"
    by (simp add: new_bqueue_def two_calls_def two_filled_def bq_eval)
qed

lemma two_taken_steps: "(bq_step 0)\<^sup>*\<^sup>* two_filled two_taken"
proof (rule bq_run_steps)
  show "bq_run 0 [(1, True, []), (1, True, []), (1, True, []), (1, True, [8]), (1, True, [7]), (1, True, [])] two_filled = Some two_taken"
    by (simp add: two_filled_def two_taken_def bq_eval)
qed

lemma two_calls_ok: "\<forall>c \<in> set two_calls. bq_call_ok c" "length two_calls < 2 ^ 31"
  by (simp_all add: two_calls_def bq_call_ok_def)

lemma blocking_queue_exact_witness:
  "sum_list (map put (bq_threads two_taken)) = sum_list (map (\<lambda>t. mset (qt_got t)) (bq_threads two_taken))"
  using blocking_queue_exact [OF bq_steps_reach [OF two_taken_steps two_filled_reach] two_calls_ok(2,1)] by (simp add: two_taken_def)

lemma bulk_dequeue_exact_witness: "length (qt_got (bq_threads two_taken ! 1)) = 2"
proof -
  have "1 < length two_calls" "sole_consumer 1 two_filled" "bulk_of 2 (bq_threads two_filled ! 1)"
    "bq_threads two_filled ! 1 = bq_start (two_calls ! 1)" "2 \<le> bq_count two_filled"
    by (auto simp: two_calls_def two_filled_def sole_consumer_def bulk_of_def bq_start_def less_Suc_eq)
  from bulk_dequeue_exact [OF two_filled_reach two_calls_ok(2,1) this(1-3) _ this(4,5) two_taken_steps]
  show ?thesis by (simp add: two_taken_def)
qed

lemma blocking_queue_no_lost_wakeup_witness:
  "\<exists>q. bq_reach 0 [Q_wait_dequeue :: nat bq_call] q \<and> (\<nexists>q'. bq_step 0 q q') \<and> bq_inner q = {#}"
proof -
  let ?q = "\<lparr>bq_inner = {#}, bq_count = - 1, bq_kernel = 0, bq_threads =
     [\<lparr>qt_call = Q_wait_dequeue, qt_pc = Q_SEMA, qt_sema = \<lparr>cl_call = C_wait (- 1), cl_pc = S_BLOCK\<rparr>, qt_got = []\<rparr>]\<rparr> :: nat bqueue"
  have "bq_run 0 [(0, True, []), (0, True, []), (0, True, [])] (new_bqueue [Q_wait_dequeue]) = Some ?q"
    by (simp add: new_bqueue_def bq_eval)
  then have reach: "bq_reach 0 [Q_wait_dequeue] ?q" using bq_steps_reach [OF bq_run_steps bq_init] by blast
  have stuck: "\<nexists>q'. bq_step 0 ?q q'" by (auto elim!: bq_stepE simp: bq_eval)
  have "bq_inner ?q = {#}" using blocking_queue_no_lost_wakeup [OF reach _ _ stuck] by (auto simp: bq_call_ok_def)
  then show ?thesis using reach stuck by blast
qed

end
