(* ===== verification/CommStub.thy ===== *)
theory CommStub
  imports TransactionManager
begin

text \<open>
  \<open>CommStub\<close> (\<open>comm_stub.cpp\<close>): the communication module that makes up its own transactions, 110
  counter increments per epoch. A new object is stored at the next unused address. Its payload
  carries the time; the clock and the serialiser of the counter message are parameters.
\<close>

record stub =
  sb_epoch :: u32
  sb_nonce :: u32
  sb_sent :: u32
  sb_map :: "u32 \<rightharpoonup> tptr list"
  sb_fresh :: tptr

record stub_env =
  sv_clock :: "u32 \<Rightarrow> u64"
  sv_ser_gcounter :: "gcounter_payload \<Rightarrow> string"

definition EPOCH_MAX_TR_NUM :: u32 where "EPOCH_MAX_TR_NUM = 110"

definition new_stub :: "int \<Rightarrow> tptr \<Rightarrow> stub" where
  "new_stub latestSavedEpoch fresh =
     \<lparr>sb_epoch = of_int (latestSavedEpoch + 1), sb_nonce = 1, sb_sent = 0, sb_map = Map.empty, sb_fresh = fresh\<rparr>"

definition map_at :: "(u32 \<rightharpoonup> tptr list) \<Rightarrow> u32 \<Rightarrow> tptr list" where
  "map_at m e = (case m e of None \<Rightarrow> [] | Some as \<Rightarrow> as)"

definition map_push :: "u32 \<Rightarrow> tptr \<Rightarrow> (u32 \<rightharpoonup> tptr list) \<Rightarrow> (u32 \<rightharpoonup> tptr list)" where
  "map_push e a m = m(e \<mapsto> map_at m e @ [a])"

text \<open>The counter \<open>tidNonce\<close> has been advanced when the nonce is computed.\<close>

definition stub_transaction :: "stub_env \<Rightarrow> stub \<Rightarrow> transaction" where
  "stub_transaction ev s =
     (setTransactionID (sb_nonce s) (setEpoch (sb_epoch s) mock_transaction_default))
       \<lparr>tr_payload := payload_empty\<lparr>pl_header := ''crdt_gcounter'',
          pl_payload := sv_ser_gcounter ev \<lparr>gc_key = ''lhx'', gc_value = 1\<rparr>,
          pl_nonce := sv_clock ev (sb_nonce s) + push_bit 32 (ucast (sb_nonce s + 1))\<rparr>\<rparr>"

definition stub_create :: "stub_env \<Rightarrow> tstore \<times> stub \<times> wrapper \<Rightarrow> tstore \<times> stub \<times> wrapper" where
  "stub_create ev = (\<lambda>(st, s, w).
     let a = sb_fresh s; t = stub_transaction ev s; st1 = st(a \<mapsto> t);
         w1 = (case pushTransaction st1 (Some a) w of Inr (_, w1) \<Rightarrow> w1 | Inl _ \<Rightarrow> w)
     in (st1, s\<lparr>sb_nonce := sb_nonce s + 1, sb_fresh := a + 1, sb_map := map_push (sb_epoch s) a (sb_map s),
                sb_sent := sb_sent s + 1\<rparr>, w1))"

lemma create_sent [simp]: "sb_sent (fst (snd (stub_create ev x))) = sb_sent (fst (snd x)) + 1"
  by (cases x) (simp add: stub_create_def Let_def)

lemma word_sub_less: "(a :: 'a::len word) \<noteq> b \<Longrightarrow> unat (a - (b + 1)) < unat (a - b)"
proof -
  assume "a \<noteq> b"
  then have "a - b \<noteq> 0" by simp
  then have "a - b - 1 < a - b" by (simp add: unsigned_less word_less_nat_alt unat_minus_one unat_gt_0)
  then show ?thesis by (simp add: word_less_nat_alt diff_diff_eq)
qed

function stub_fill :: "stub_env \<Rightarrow> u32 \<Rightarrow> tstore \<times> stub \<times> wrapper \<Rightarrow> tstore \<times> stub \<times> wrapper" where
  "stub_fill ev minSize x =
     (if sb_sent (fst (snd x)) \<noteq> EPOCH_MAX_TR_NUM \<and> wrap_size (snd (snd x)) < minSize
      then stub_fill ev minSize (stub_create ev x) else x)"
  by pat_completeness auto
termination
  by (relation "measure (\<lambda>(ev, m, x). unat (EPOCH_MAX_TR_NUM - sb_sent (fst (snd x))))") (auto intro: word_sub_less)

declare stub_fill.simps [simp del]

definition stub_getTransaction :: "stub_env \<Rightarrow> u32 \<Rightarrow> u32 \<Rightarrow> u32 \<Rightarrow> tstore \<Rightarrow> stub \<Rightarrow> (wrapper option \<times> tstore \<times> stub) res" where
  "stub_getTransaction ev epoch maxSize minSize st s =
     (if epoch < sb_epoch s then Inr (None, st, s)
      else let (st1, s1, w) = stub_fill ev minSize (st, s, new_wrapper (sb_epoch s));
               s2 = (if sb_sent s1 = EPOCH_MAX_TR_NUM then s1\<lparr>sb_sent := 0, sb_epoch := sb_epoch s1 + 1\<rparr> else s1)
           in Inr (Some w, st1, s2))"

text \<open>Transactions of the epoch are deleted, retried ones move to their new epoch.\<close>

fun clear_list :: "(u32 \<Rightarrow> bool) \<Rightarrow> u32 \<Rightarrow> tptr list \<Rightarrow> tstore \<times> (u32 \<rightharpoonup> tptr list) \<Rightarrow> (tstore \<times> (u32 \<rightharpoonup> tptr list)) res" where
  "clear_list kept epoch [] x = Inr x"
| "clear_list kept epoch (a # as) (st, m) = bind_res (tget st (Some a)) (\<lambda>t.
     if getEpoch t = epoch then clear_list kept epoch as (st(a := None), m)
     else check (kept (getEpoch t)) (clear_list kept epoch as (st, map_push (getEpoch t) a m)))"

definition stub_clear :: "u32 \<Rightarrow> tstore \<Rightarrow> stub \<Rightarrow> (tstore \<times> stub) res" where
  "stub_clear epoch st s =
     (if epoch \<ge> sb_epoch s then Inr (st, s)
      else bind_res (clear_list (\<lambda>e. sb_epoch s = e \<or> sb_epoch s = e + 1) epoch (map_at (sb_map s) epoch) (st, sb_map s)) (\<lambda>(st1, m).
        Inr (st1, s\<lparr>sb_map := m(epoch := None)\<rparr>)))"

section \<open>What a call hands out\<close>

text \<open>\<open>handed k\<close>: the state after \<open>k\<close> more transactions.\<close>

lemma create_step:
  assumes "wrap_epoch w = sb_epoch s"
  shows "stub_create ev (st, s, w) = (st(sb_fresh s \<mapsto> stub_transaction ev s),
    s\<lparr>sb_nonce := sb_nonce s + 1, sb_fresh := sb_fresh s + 1, sb_map := map_push (sb_epoch s) (sb_fresh s) (sb_map s),
      sb_sent := sb_sent s + 1\<rparr>, w\<lparr>wrap_list := wrap_list w @ [sb_fresh s]\<rparr>)"
  using assms by (simp add: stub_create_def Let_def pushTransaction_def getEpoch_def stub_transaction_def
      setEpoch_def setTransactionID_def)

lemma fill_spec:
  assumes "wrap_epoch w = sb_epoch s" "sb_sent s \<le> EPOCH_MAX_TR_NUM"
    and "k = min (unat EPOCH_MAX_TR_NUM - unat (sb_sent s)) (unat mn - length (wrap_list w))" "length (wrap_list w) \<le> unat (sb_sent s)"
    and "\<forall>a \<ge> sb_fresh s. st a = None"
  shows "\<exists>st' s'. stub_fill ev mn (st, s, w) = (st', s', w\<lparr>wrap_list := wrap_list w @ [sb_fresh s..<sb_fresh s + k]\<rparr>)
    \<and> sb_epoch s' = sb_epoch s \<and> sb_sent s' = sb_sent s + of_nat k \<and> sb_nonce s' = sb_nonce s + of_nat k
    \<and> (\<forall>i < k. \<exists>t. st' (sb_fresh s + i) = Some t \<and> tr_tid t = sb_nonce s + of_nat i \<and> tr_epoch t = sb_epoch s \<and> tr_res t = PENDING)
    \<and> (\<forall>a < sb_fresh s. st' a = st a)"
  using assms
proof (induction k arbitrary: st s w)
  case 0
  have "length (wrap_list w) < 2 ^ 32" using "0.prems"(4) unsigned_less [of "sb_sent s", where 'a = nat] by simp
  then have lt: "unat (wrap_size w) = length (wrap_list w)" by (simp add: wrap_size_def unat_of_nat)
  have "unat (sb_sent s) \<le> unat EPOCH_MAX_TR_NUM" using "0.prems"(2) by (simp add: word_le_nat_alt)
  then have "\<not> (sb_sent s \<noteq> EPOCH_MAX_TR_NUM \<and> wrap_size w < mn)"
    using "0.prems"(3) lt by (auto simp: word_less_nat_alt word_unat_eq_iff min_def split: if_splits)
  then show ?case by (subst stub_fill.simps) auto
next
  case (Suc k)
  let ?s = "s\<lparr>sb_nonce := sb_nonce s + 1, sb_fresh := sb_fresh s + 1, sb_map := map_push (sb_epoch s) (sb_fresh s) (sb_map s),
      sb_sent := sb_sent s + 1\<rparr>"
  let ?w = "w\<lparr>wrap_list := wrap_list w @ [sb_fresh s]\<rparr>" and ?st = "st(sb_fresh s \<mapsto> stub_transaction ev s)"
  have "length (wrap_list w) < 2 ^ 32" using Suc.prems(4) unsigned_less [of "sb_sent s", where 'a = nat] by simp
  then have lt: "unat (wrap_size w) = length (wrap_list w)" by (simp add: wrap_size_def unat_of_nat)
  have k: "Suc k \<le> 110 - unat (sb_sent s)" "Suc k \<le> unat mn - length (wrap_list w)"
    using Suc.prems(3) by (simp_all add: EPOCH_MAX_TR_NUM_def)
  have sent: "unat (sb_sent s + 1) = unat (sb_sent s) + 1" using k(1) by (simp add: unat_word_ariths)
  have "sb_sent s \<noteq> EPOCH_MAX_TR_NUM \<and> wrap_size w < mn"
    using k lt by (auto simp: word_less_nat_alt EPOCH_MAX_TR_NUM_def)
  then have step: "stub_fill ev mn (st, s, w) = stub_fill ev mn (?st, ?s, ?w)"
    using create_step [OF Suc.prems(1), of ev st] by (subst stub_fill.simps) simp
  have pre: "wrap_epoch ?w = sb_epoch ?s" "sb_sent ?s \<le> EPOCH_MAX_TR_NUM"
    "k = min (unat EPOCH_MAX_TR_NUM - unat (sb_sent ?s)) (unat mn - length (wrap_list ?w))"
    "\<forall>a \<ge> sb_fresh ?s. ?st a = None"
    using Suc.prems k sent by (auto simp: word_le_nat_alt EPOCH_MAX_TR_NUM_def)
  have l: "length (wrap_list ?w) \<le> unat (sb_sent ?s)" using Suc.prems(4) sent by simp
  show ?case
  proof -
    obtain st' s' where ih: "stub_fill ev mn (?st, ?s, ?w) = (st', s', ?w\<lparr>wrap_list := wrap_list ?w @ [sb_fresh ?s..<sb_fresh ?s + k]\<rparr>)"
      "sb_epoch s' = sb_epoch ?s" "sb_sent s' = sb_sent ?s + of_nat k" "sb_nonce s' = sb_nonce ?s + of_nat k"
      "\<forall>i < k. \<exists>t. st' (sb_fresh ?s + i) = Some t \<and> tr_tid t = sb_nonce ?s + of_nat i \<and> tr_epoch t = sb_epoch ?s \<and> tr_res t = PENDING"
      "\<forall>a < sb_fresh ?s. st' a = ?st a" using Suc.IH [OF pre(1-3) l pre(4)] by blast
    have t0: "st' (sb_fresh s) = Some (stub_transaction ev s)" using ih(6) by simp
    have "\<exists>t. st' (sb_fresh s + i) = Some t \<and> tr_tid t = sb_nonce s + of_nat i \<and> tr_epoch t = sb_epoch s \<and> tr_res t = PENDING"
      if "i < Suc k" for i
    proof (cases i)
      case 0
      then show ?thesis using t0 by (simp add: stub_transaction_def setEpoch_def setTransactionID_def mock_transaction_default_def mock_transaction_def)
    next
      case (Suc j)
      then show ?thesis using ih(5) [rule_format, of j] that by (simp add: add.assoc)
    qed
    then show ?thesis using step ih
      by (intro exI [of _ st'] exI [of _ s']) (simp add: upt_conv_Cons add.assoc)
  qed
qed

lemma fresh_wrapper_spec:
  assumes "sb_sent s < EPOCH_MAX_TR_NUM" "\<forall>a \<ge> sb_fresh s. st a = None"
    and "k = min (110 - unat (sb_sent s)) (unat mn)" "sb_epoch s \<le> e"
  shows "\<exists>st' s'. stub_getTransaction ev e mx mn st s =
      Inr (Some \<lparr>wrap_epoch = sb_epoch s, wrap_list = [sb_fresh s..<sb_fresh s + k]\<rparr>, st', s')
    \<and> (if k = 110 - unat (sb_sent s) then sb_epoch s' = sb_epoch s + 1 \<and> sb_sent s' = 0
       else sb_epoch s' = sb_epoch s \<and> sb_sent s' = sb_sent s + of_nat k)
    \<and> sb_nonce s' = sb_nonce s + of_nat k
    \<and> (\<forall>i < k. \<exists>t. st' (sb_fresh s + i) = Some t \<and> tr_tid t = sb_nonce s + of_nat i \<and> tr_epoch t = sb_epoch s \<and> tr_res t = PENDING)
    \<and> (\<forall>a < sb_fresh s. st' a = st a)"
proof -
  have k: "k = min (unat EPOCH_MAX_TR_NUM - unat (sb_sent s)) (unat mn - length (wrap_list (new_wrapper (sb_epoch s))))"
    using assms(3) by (simp add: EPOCH_MAX_TR_NUM_def new_wrapper_def)
  obtain st' s1 where f: "stub_fill ev mn (st, s, new_wrapper (sb_epoch s)) =
      (st', s1, \<lparr>wrap_epoch = sb_epoch s, wrap_list = [sb_fresh s..<sb_fresh s + k]\<rparr>)"
    "sb_epoch s1 = sb_epoch s" "sb_sent s1 = sb_sent s + of_nat k" "sb_nonce s1 = sb_nonce s + of_nat k"
    "\<forall>i < k. \<exists>t. st' (sb_fresh s + i) = Some t \<and> tr_tid t = sb_nonce s + of_nat i \<and> tr_epoch t = sb_epoch s \<and> tr_res t = PENDING"
    "\<forall>a < sb_fresh s. st' a = st a"
    using fill_spec [OF _ less_imp_le [OF assms(1)] k _ assms(2), where ev = ev] by (auto simp: new_wrapper_def)
  have lt: "unat (sb_sent s) < 110" using assms(1) by (simp add: EPOCH_MAX_TR_NUM_def word_less_nat_alt)
  then have "unat (sb_sent s + of_nat k) = unat (sb_sent s) + k" using assms(3) by (simp add: unat_word_ariths unat_of_nat)
  then have full: "sb_sent s1 = EPOCH_MAX_TR_NUM \<longleftrightarrow> k = 110 - unat (sb_sent s)"
    using f(3) lt by (auto simp: EPOCH_MAX_TR_NUM_def word_unat_eq_iff)
  have "\<not> e < sb_epoch s" using assms(4) by simp
  then show ?thesis using f full by (simp add: stub_getTransaction_def)
qed

lemma getTransaction_cases:
  assumes "stub_getTransaction ev e mx mn st s = Inr (p, st', s')"
  shows "e < sb_epoch s \<and> p = None \<and> s' = s \<or> sb_epoch s \<le> e \<and> (\<exists>w. p = Some w)"
  using assms by (auto simp: stub_getTransaction_def Let_def split: if_splits prod.splits)

text \<open>The counters do not depend on the store, so the addresses can be taken free.\<close>

lemma fill_counters:
  "(let (st1, s1, w1) = stub_fill ev mn (st, s, w); (st2, s2, w2) = stub_fill ev mn (Map.empty, s, w)
    in sb_sent s1 = sb_sent s2 \<and> sb_epoch s1 = sb_epoch s2)"
proof -
  have all: "(case stub_fill ev mn x of (st1, s1, w1) \<Rightarrow> case stub_fill ev mn (st2, snd x) of (_, s2, w2) \<Rightarrow>
      sb_sent s1 = sb_sent s2 \<and> sb_epoch s1 = sb_epoch s2)" for x st2
  proof (induction ev mn x arbitrary: st2 rule: stub_fill.induct)
    case (1 ev mn x)
    obtain st s w where x: "x = (st, s, w)" by (cases x)
    have same: "snd (stub_create ev (st2, s, w)) = snd (stub_create ev (st, s, w))" for st2
      by (simp add: stub_create_def Let_def pushTransaction_def)
    show ?case
    proof (cases "sb_sent s \<noteq> EPOCH_MAX_TR_NUM \<and> wrap_size w < mn")
      case True
      have "stub_fill ev mn (u, s, w) = stub_fill ev mn (stub_create ev (u, s, w))" for u
        using True by (subst stub_fill.simps) simp
      moreover have "stub_create ev (st2, s, w) = (fst (stub_create ev (st2, s, w)), snd (stub_create ev (st, s, w)))"
        using same [of st2] by (metis prod.collapse)
      ultimately show ?thesis using "1.IH" [of "fst (stub_create ev (st2, s, w))"] True unfolding x by auto
    next
      case False
      have "stub_fill ev mn (u, s, w) = (u, s, w)" for u using False by (subst stub_fill.simps) auto
      then show ?thesis unfolding x by simp
    qed
  qed
  from all [of Map.empty "(st, s, w)"] show ?thesis by (simp add: Let_def split: prod.splits)
qed

section \<open>The contract of the communication module\<close>

definition stub_inv :: "u32 \<Rightarrow> u32 \<Rightarrow> stub \<Rightarrow> bool" where
  "stub_inv e mn s \<longleftrightarrow> sb_sent s < EPOCH_MAX_TR_NUM \<and> 0 < mn \<and> e < - 1"

definition stub_pending :: "u32 \<Rightarrow> stub \<Rightarrow> nat" where
  "stub_pending e s = (if e < sb_epoch s then 0
     else (unat e - unat (sb_epoch s)) * 111 + (111 - unat (sb_sent s)))"

lemma counters_after:
  assumes "stub_inv e mn s" "stub_getTransaction ev e mx mn st s = Inr (Some w, st', s')"
  shows "stub_inv e mn s' \<and> stub_pending e s' < stub_pending e s"
proof -
  have inv: "sb_sent s < EPOCH_MAX_TR_NUM" "0 < mn" "e < - 1" using assms(1) by (simp_all add: stub_inv_def)
  have e: "sb_epoch s \<le> e" using getTransaction_cases [OF assms(2)] by simp
  have lt: "unat (sb_sent s) < 110" using inv(1) by (simp add: EPOCH_MAX_TR_NUM_def word_less_nat_alt)
  let ?k = "min (110 - unat (sb_sent s)) (unat mn)"
  obtain w2 st2 s2 where s2: "stub_getTransaction ev e mx mn Map.empty s = Inr (Some w2, st2, s2)"
    "if ?k = 110 - unat (sb_sent s) then sb_epoch s2 = sb_epoch s + 1 \<and> sb_sent s2 = 0
     else sb_epoch s2 = sb_epoch s \<and> sb_sent s2 = sb_sent s + of_nat ?k"
    using fresh_wrapper_spec [OF inv(1) _ refl e, where st = Map.empty and mn = mn and ev = ev and mx = mx] by auto
  have same: "sb_sent s' = sb_sent s2" "sb_epoch s' = sb_epoch s2"
    using assms(2) s2(1) e fill_counters [where ev = ev and mn = mn and st = st and s = s and w = "new_wrapper (sb_epoch s)"]
    by (auto simp: stub_getTransaction_def Let_def split: prod.splits if_splits)
  have k: "0 < ?k" using lt inv(2) by (simp add: word_less_nat_alt)
  show ?thesis
  proof (cases "?k = 110 - unat (sb_sent s)")
    case True
    then have s': "sb_epoch s' = sb_epoch s + 1" "sb_sent s' = 0" using s2(2) same by simp_all
    have "unat (sb_epoch s) \<le> unat e" "unat e < 2 ^ 32 - 1" using e inv(3) by (simp_all add: word_le_nat_alt word_less_nat_alt unsigned_minus_1_eq_mask mask_eq_exp_minus_1)
    then have ep: "unat (sb_epoch s + 1) = unat (sb_epoch s) + 1" by (simp add: unat_word_ariths)
    then show ?thesis using s' e inv lt
      by (auto simp: stub_inv_def stub_pending_def EPOCH_MAX_TR_NUM_def word_less_nat_alt word_le_nat_alt diff_mult_distrib)
  next
    case False
    then have s': "sb_epoch s' = sb_epoch s" "sb_sent s' = sb_sent s + of_nat ?k" using s2(2) same by simp_all
    have "unat (sb_sent s + of_nat ?k) = unat (sb_sent s) + ?k" using lt by (simp add: unat_word_ariths unat_of_nat)
    then show ?thesis using s' e inv lt False k
      by (auto simp: stub_inv_def stub_pending_def EPOCH_MAX_TR_NUM_def word_less_nat_alt word_le_nat_alt)
  qed
qed

interpretation stub: comm_module "stub_getTransaction ev e mx mn" "stub_inv e mn" "stub_pending e" for ev e mx mn
proof unfold_locales
  show "stub_inv e mn m'" if "stub_inv e mn m" "stub_getTransaction ev e mx mn st m = Inr (p, st', m')" for m st p st' m'
    using getTransaction_cases [OF that(2)] that counters_after by auto
  show "stub_pending e m' < stub_pending e m"
    if "stub_inv e mn m" "stub_getTransaction ev e mx mn st m = Inr (Some w, st', m')" for m st w st' m'
    using counters_after [OF that] by simp
qed

section \<open>Properties\<close>

text \<open>
  Taking the transactions of an epoch from the stub ends: for every epoch below the greatest
  number the inner loop of \<open>run\<close> returns, and with success. All it has sent are wrappers
  labelled with the epoch of the manager, whose transactions it monitors in order.
\<close>

theorem stub_collection_terminates:
  assumes "te_get ev = stub_getTransaction sv" "sb_sent (tm_comm tm) < EPOCH_MAX_TR_NUM" "tm_epoch tm < - 1"
  shows "\<exists>tm'. get_current ev tm = Some (Inr tm') \<and> sb_sent (tm_comm tm') < EPOCH_MAX_TR_NUM
    \<and> (\<exists>ws. tm_sent tm' = tm_sent tm @ ws \<and> (\<forall>w \<in> set ws. wrap_epoch w = tm_epoch tm)
         \<and> wrap_list (tm_current tm') = wrap_list (tm_current tm) @ concat (map wrap_list ws))"
proof -
  have inv: "stub_inv (tm_epoch tm) TR_MGR_GET_BATCH_MIN_SIZE (tm_comm tm)"
    using assms(2,3) by (simp add: stub_inv_def TR_MGR_GET_BATCH_MIN_SIZE_def)
  have get: "te_get ev (tm_epoch tm) TR_MGR_GET_BATCH_MAX_SIZE TR_MGR_GET_BATCH_MIN_SIZE =
      stub_getTransaction sv (tm_epoch tm) TR_MGR_GET_BATCH_MAX_SIZE TR_MGR_GET_BATCH_MIN_SIZE" using assms(1) by simp
  obtain r where r: "get_current ev tm = Some r"
    "\<forall>f. r = Inl f \<longrightarrow> (\<exists>st m. stub_getTransaction sv (tm_epoch tm) TR_MGR_GET_BATCH_MAX_SIZE TR_MGR_GET_BATCH_MIN_SIZE st m = Inl f)"
    "\<forall>tm'. r = Inr tm' \<longrightarrow> stub_inv (tm_epoch tm) TR_MGR_GET_BATCH_MIN_SIZE (tm_comm tm') \<and>
       (\<exists>ws. tm_sent tm' = tm_sent tm @ ws \<and> (\<forall>w \<in> set ws. wrap_epoch w = tm_epoch tm)
         \<and> wrap_list (tm_current tm') = wrap_list (tm_current tm) @ concat (map wrap_list ws))"
    using stub.get_current_returns [OF get inv] by blast
  have "stub_getTransaction sv e mx mn st m \<noteq> Inl f" for e mx mn st m f
    by (cases "stub_fill sv mn (st, m, new_wrapper (sb_epoch m))") (simp add: stub_getTransaction_def)
  then have "r \<noteq> Inl f" for f using r(2) by blast
  then obtain tm' where "r = Inr tm'" by (cases r) auto
  then show ?thesis using r(1,3) by (auto simp: stub_inv_def)
qed

definition demo_stub_env :: "(stub, unit) tm_env" where
  "demo_stub_env = \<lparr>te_get = stub_getTransaction \<lparr>sv_clock = (\<lambda>_. 0), sv_ser_gcounter = (\<lambda>p. gc_key p)\<rparr>, te_clear = stub_clear,
     te_latest = (\<lambda>_. 2), te_add = (\<lambda>a g. (1, g)), te_generate = (\<lambda>st g. Inr (1, g))\<rparr>"

lemma stub_collection_terminates_witness:
  "\<exists>r. get_current demo_stub_env (new_tr_manager demo_stub_env (new_stub 2 0) () Map.empty) = Some r"
  using stub_collection_terminates [where ev = demo_stub_env and tm = "new_tr_manager demo_stub_env (new_stub 2 0) () Map.empty"
      and sv = "\<lparr>sv_clock = (\<lambda>_. 0), sv_ser_gcounter = (\<lambda>p. gc_key p)\<rparr>"]
  by (auto simp: demo_stub_env_def new_tr_manager_def new_stub_def EPOCH_MAX_TR_NUM_def Let_def)

text \<open>
  A wrapper of the stub: asked for an epoch that is not over, it hands out new transactions
  of its own epoch with consecutive ids, as many as asked for but no more than 110 in all; after
  the 110th its epoch advances, and for an epoch it has left it answers with a null pointer.
\<close>

theorem stub_wrapper:
  assumes "sb_sent s < EPOCH_MAX_TR_NUM" "\<forall>a \<ge> sb_fresh s. st a = None"
  shows "(e < sb_epoch s \<longrightarrow> stub_getTransaction ev e mx mn st s = Inr (None, st, s)) \<and>
    (sb_epoch s \<le> e \<longrightarrow> (\<exists>w st' s'. stub_getTransaction ev e mx mn st s = Inr (Some w, st', s')
       \<and> length (wrap_list w) = min (110 - unat (sb_sent s)) (unat mn) \<and> wrap_inv st' w \<and> wrap_epoch w = sb_epoch s
       \<and> map (\<lambda>a. tr_tid (the (st' a))) (wrap_list w) = map (\<lambda>i. sb_nonce s + of_nat i) [0..<length (wrap_list w)]
       \<and> (length (wrap_list w) = 110 - unat (sb_sent s) \<longrightarrow> sb_epoch s' = sb_epoch s + 1 \<and> sb_sent s' = 0)))"
proof (intro conjI impI)
  assume "sb_epoch s \<le> e"
  let ?k = "min (110 - unat (sb_sent s)) (unat mn)"
  let ?w = "\<lparr>wrap_epoch = sb_epoch s, wrap_list = [sb_fresh s..<sb_fresh s + ?k]\<rparr>"
  obtain st' s' where f: "stub_getTransaction ev e mx mn st s = Inr (Some ?w, st', s')"
    "if ?k = 110 - unat (sb_sent s) then sb_epoch s' = sb_epoch s + 1 \<and> sb_sent s' = 0
       else sb_epoch s' = sb_epoch s \<and> sb_sent s' = sb_sent s + of_nat ?k"
    "\<forall>i < ?k. \<exists>t. st' (sb_fresh s + i) = Some t \<and> tr_tid t = sb_nonce s + of_nat i \<and> tr_epoch t = sb_epoch s \<and> tr_res t = PENDING"
    using fresh_wrapper_spec [OF assms refl \<open>sb_epoch s \<le> e\<close>, where ev = ev and mx = mx] by blast
  have inv: "wrap_inv st' ?w"
  proof -
    have "\<exists>t. st' a = Some t \<and> tr_epoch t = sb_epoch s" if "a \<in> {sb_fresh s..<sb_fresh s + ?k}" for a
    proof -
      have "a - sb_fresh s < ?k" "sb_fresh s + (a - sb_fresh s) = a" using that by auto
      then show ?thesis using f(3) by metis
    qed
    then show ?thesis by (simp add: wrap_inv_def)
  qed
  have tids: "map (\<lambda>a. tr_tid (the (st' a))) (wrap_list ?w) = map (\<lambda>i. sb_nonce s + of_nat i) [0..<length (wrap_list ?w)]"
    by (rule nth_equalityI) (use f(3) in fastforce)+
  show "\<exists>w st' s'. stub_getTransaction ev e mx mn st s = Inr (Some w, st', s')
       \<and> length (wrap_list w) = ?k \<and> wrap_inv st' w \<and> wrap_epoch w = sb_epoch s
       \<and> map (\<lambda>a. tr_tid (the (st' a))) (wrap_list w) = map (\<lambda>i. sb_nonce s + of_nat i) [0..<length (wrap_list w)]
       \<and> (length (wrap_list w) = 110 - unat (sb_sent s) \<longrightarrow> sb_epoch s' = sb_epoch s + 1 \<and> sb_sent s' = 0)"
    by (rule exI [of _ ?w], rule exI [of _ st'], rule exI [of _ s']) (use f inv tids in simp)
qed (simp add: stub_getTransaction_def)

lemma stub_wrapper_witness:
  "\<exists>w st' s'. stub_getTransaction sv 3 500 500 Map.empty (new_stub 2 0) = Inr (Some w, st', s')
     \<and> length (wrap_list w) = 110 \<and> sb_epoch s' = 4"
proof -
  have pre: "sb_sent (new_stub 2 0) < EPOCH_MAX_TR_NUM" "\<forall>a \<ge> sb_fresh (new_stub 2 0). Map.empty a = None" "sb_epoch (new_stub 2 0) \<le> 3"
    by (simp_all add: new_stub_def EPOCH_MAX_TR_NUM_def)
  show ?thesis using stub_wrapper [OF pre(1,2), of 3 sv 500 500] pre(3) by (auto simp: new_stub_def)
qed

end
