(* ===== verification/CyclicBarrier.thy ===== *)
theory CyclicBarrier
  imports Prelude
begin

text \<open>
  \<open>CyclicBarrier\<close> (\<open>cyclic_barrier.cpp\<close>), with which the receiver threads of the communication
  module agree on the end of an epoch, and \<open>SpinLock\<close> (\<open>spin_lock.h\<close>). Each call of \<open>await\<close> runs
  under the lock up to its wait, so it is one step; a second step ends the wait. The callback
  is the number of times it has run. \<open>cb_waiting\<close> are the threads inside \<open>cv.wait\<close>.
\<close>

record barrier =
  cb_parties :: u32
  cb_waits :: u32
  cb_waiting :: "nat list"
  cb_calls :: nat

definition new_barrier :: "u32 \<Rightarrow> barrier" where
  "new_barrier parties = \<lparr>cb_parties = parties, cb_waits = 0, cb_waiting = [], cb_calls = 0\<rparr>"

definition barrier_reset :: "barrier \<Rightarrow> barrier" where
  "barrier_reset b = b\<lparr>cb_calls := cb_calls b + 1, cb_waits := 0, cb_waiting := []\<rparr>"

text \<open>\<open>await\<close> of a thread: it either opens the barrier or starts to wait.\<close>

definition barrier_await :: "nat \<Rightarrow> barrier \<Rightarrow> bool \<times> barrier" where
  "barrier_await t b =
     (let n = (if cb_waits b < cb_parties b then cb_waits b + 1 else cb_waits b); b1 = b\<lparr>cb_waits := n\<rparr> in
      if n \<ge> cb_parties b then (True, b1\<lparr>cb_calls := cb_calls b1 + 1, cb_waits := 0, cb_waiting := []\<rparr>)
      else (False, b1\<lparr>cb_waiting := cb_waiting b1 @ [t]\<rparr>))"

text \<open>
  \<open>wait_for\<close> runs out, or \<open>wait\<close> returns without a notification, which the standard allows: the
  thread returns from \<open>await\<close>. There is no condition that is tested again.
\<close>

definition barrier_leave :: "nat \<Rightarrow> barrier \<Rightarrow> barrier" where
  "barrier_leave t b = b\<lparr>cb_waiting := remove1 t (cb_waiting b)\<rparr>"

definition get_barrier_size :: "barrier \<Rightarrow> u32" where "get_barrier_size b = cb_parties b"

definition get_current_waiting :: "barrier \<Rightarrow> u32" where "get_current_waiting b = cb_waits b"

section \<open>Runs\<close>

datatype barrier_event = B_await nat | B_leave nat | B_reset

inductive barrier_step :: "barrier \<Rightarrow> barrier_event \<Rightarrow> barrier \<Rightarrow> bool" where
  step_await: "t \<notin> set (cb_waiting b) \<Longrightarrow> barrier_step b (B_await t) (snd (barrier_await t b))"
| step_leave: "t \<in> set (cb_waiting b) \<Longrightarrow> barrier_step b (B_leave t) (barrier_leave t b)"
| step_reset: "barrier_step b B_reset (barrier_reset b)"

inductive_cases awaitE: "barrier_step b (B_await t) b'"
inductive_cases leaveE: "barrier_step b (B_leave t) b'"
inductive_cases resetE: "barrier_step b B_reset b'"

inductive barrier_run :: "barrier \<Rightarrow> barrier_event list \<Rightarrow> barrier \<Rightarrow> bool" where
  run_nil: "barrier_run b [] b"
| run_snoc: "barrier_run b es b' \<Longrightarrow> barrier_step b' e b'' \<Longrightarrow> barrier_run b (es @ [e]) b''"

lemma step_parties: "barrier_step b e b' \<Longrightarrow> cb_parties b' = cb_parties b"
  by (induction rule: barrier_step.induct) (auto simp: barrier_await_def barrier_leave_def barrier_reset_def Let_def)

definition is_await :: "barrier_event \<Rightarrow> bool" where
  "is_await e \<longleftrightarrow> (\<exists>t. e = B_await t)"

lemma unat_succ: "(x::u32) < p \<Longrightarrow> unat (x + 1) = unat x + 1"
  using unsigned_less [of p, where 'a = nat] by (simp add: unat_word_ariths word_less_nat_alt)

lemma wraps_step: "r < (q::nat) \<Longrightarrow> x = (if Suc r = q then 0 else Suc r) \<Longrightarrow> q \<le> Suc r \<longleftrightarrow> x = 0"
  by auto

lemma mod_wraps: "0 < (q::nat) \<Longrightarrow> q \<le> n mod q + 1 \<longleftrightarrow> (n + 1) mod q = 0"
  unfolding Suc_eq_plus1 [symmetric] by (rule wraps_step [OF mod_less_divisor mod_Suc])

lemma await_run_state:
  assumes "barrier_run b es b'" "b = new_barrier p" "0 < p" "\<forall>e \<in> set es. is_await e"
  shows "cb_parties b' = p \<and> unat (cb_waits b') = length es mod unat p \<and> length (cb_waiting b') = length es mod unat p
    \<and> cb_calls b' = length es div unat p \<and> distinct (cb_waiting b')
    \<and> set (map B_await (cb_waiting b')) \<subseteq> set es"
  using assms
proof (induction rule: barrier_run.induct)
  case (run_nil b)
  then show ?case by (simp add: new_barrier_def word_less_nat_alt)
next
  case (run_snoc b es b' e b'')
  have p: "0 < unat p" using run_snoc.prems(2) by (simp add: word_less_nat_alt)
  obtain t where t: "e = B_await t" using run_snoc.prems(3) by (auto simp: is_await_def)
  have b'': "t \<notin> set (cb_waiting b')" "b'' = snd (barrier_await t b')" using run_snoc.hyps(2) t by (auto elim: awaitE)
  have ih: "cb_parties b' = p" "unat (cb_waits b') = length es mod unat p" "length (cb_waiting b') = length es mod unat p"
    "cb_calls b' = length es div unat p" "distinct (cb_waiting b')" "set (map B_await (cb_waiting b')) \<subseteq> set es"
    using run_snoc.IH run_snoc.prems by auto
  let ?n = "length es" and ?p = "unat p"
  have lt: "cb_waits b' < p" using ih(2) p by (simp add: word_less_nat_alt)
  then have inc: "unat (cb_waits b' + 1) = ?n mod ?p + 1"
    using ih(2) by (simp add: unat_succ)
  show ?case
  proof (cases "?n mod ?p + 1 = ?p")
    case True
    then have "p \<le> cb_waits b' + 1" using inc by (simp add: word_le_nat_alt)
    then have "b'' = b'\<lparr>cb_waits := 0, cb_calls := cb_calls b' + 1, cb_waiting := []\<rparr>"
      using b''(2) lt ih(1) by (simp add: barrier_await_def Let_def)
    moreover have "Suc ?n mod ?p = 0" "Suc ?n div ?p = ?n div ?p + 1"
      using True by (auto simp: mod_Suc div_Suc)
    ultimately show ?thesis using ih p by simp
  next
    case False
    have "?n mod ?p < ?p" using p by simp
    then have "?n mod ?p + 1 < ?p" using False by linarith
    then have "\<not> p \<le> cb_waits b' + 1" using inc by (simp add: word_le_nat_alt)
    then have "b'' = b'\<lparr>cb_waits := cb_waits b' + 1, cb_waiting := cb_waiting b' @ [t]\<rparr>"
      using b''(2) lt ih(1) by (simp add: barrier_await_def Let_def)
    moreover have "Suc ?n mod ?p = ?n mod ?p + 1" "Suc ?n div ?p = ?n div ?p"
      using False by (auto simp: mod_Suc div_Suc)
    ultimately show ?thesis using ih b''(1) t inc by auto
  qed
qed

section \<open>The spin lock\<close>

text \<open>One \<open>test_and_set\<close>: it returns the old flag; \<open>lock\<close> repeats it until that is clear.\<close>

definition test_and_set :: "bool \<Rightarrow> bool \<times> bool" where "test_and_set flag = (flag, True)"

fun spin_lock :: "bool list \<Rightarrow> bool \<Rightarrow> bool option" where
  "spin_lock [] flag = None"
| "spin_lock (cleared # rest) flag =
     (let (old, flag1) = test_and_set (flag \<and> \<not> cleared) in if old then spin_lock rest flag1 else Some flag1)"

definition spin_unlock :: "bool \<Rightarrow> bool" where "spin_unlock flag = False"

section \<open>Properties\<close>

text \<open>
  C32. The barrier counts: if no waiter returns early and nobody resets, after \<open>n\<close> arrivals at a
  barrier for \<open>p > 0\<close> parties the callback has run \<open>n div p\<close> times and exactly the last
  \<open>n mod p\<close> arrivals are waiting; in particular a thread passes only when \<open>p\<close> have arrived.
\<close>

theorem barrier_rendezvous:
  assumes "barrier_run (new_barrier p) es b" "0 < p" "\<forall>e \<in> set es. is_await e"
  shows "cb_calls b = length es div unat p \<and> length (cb_waiting b) = length es mod unat p
    \<and> unat (get_current_waiting b) = length (cb_waiting b) \<and> distinct (cb_waiting b)
    \<and> (\<forall>t. t \<notin> set (cb_waiting b) \<longrightarrow>
        (fst (barrier_await t b) \<longleftrightarrow> (length es + 1) mod unat p = 0))"
proof -
  have s: "cb_parties b = p" "unat (cb_waits b) = length es mod unat p" "length (cb_waiting b) = length es mod unat p"
    "cb_calls b = length es div unat p" "distinct (cb_waiting b)"
    using await_run_state [OF assms(1) refl assms(2,3)] by simp_all
  have p: "0 < unat p" using assms(2) by (simp add: word_less_nat_alt)
  have lt: "cb_waits b < p" using s(2) p by (simp add: word_less_nat_alt)
  then have inc: "unat (cb_waits b + 1) = length es mod unat p + 1"
    using s(2) by (simp add: unat_succ)
  have "fst (barrier_await t b) \<longleftrightarrow> p \<le> cb_waits b + 1" for t
    using lt s(1) by (simp add: barrier_await_def Let_def)
  then have "fst (barrier_await t b) \<longleftrightarrow> unat p \<le> length es mod unat p + 1" for t
    unfolding word_le_nat_alt inc .
  then have "fst (barrier_await t b) \<longleftrightarrow> (length es + 1) mod unat p = 0" for t
    unfolding mod_wraps [OF p] .
  then show ?thesis unfolding get_current_waiting_def s(2,3,4) by (intro conjI s(5) refl allI impI)
qed

lemma barrier_rendezvous_witness:
  "\<exists>b. barrier_run (new_barrier 2) [B_await 1, B_await 2, B_await 1] b \<and> cb_calls b = 1 \<and> length (cb_waiting b) = 1"
proof -
  have r1: "barrier_run (new_barrier 2) ([] @ [B_await 1]) (snd (barrier_await 1 (new_barrier 2)))"
    by (rule run_snoc [OF run_nil], rule step_await) (simp add: new_barrier_def)
  have r2: "barrier_run (new_barrier 2) (([] @ [B_await 1]) @ [B_await 2]) (snd (barrier_await 2 (snd (barrier_await 1 (new_barrier 2)))))"
    by (rule run_snoc [OF r1], rule step_await) (simp add: barrier_await_def new_barrier_def Let_def word_le_nat_alt)
  have r3: "\<exists>b. barrier_run (new_barrier 2) ((([] @ [B_await 1]) @ [B_await 2]) @ [B_await 1]) b"
    by (rule exI, rule run_snoc [OF r2], rule step_await) (simp add: barrier_await_def new_barrier_def Let_def word_le_nat_alt)
  then obtain b where b: "barrier_run (new_barrier 2) [B_await 1, B_await 2, B_await 1] b" by auto
  show ?thesis using barrier_rendezvous [OF b] b by (auto simp: is_await_def)
qed

text \<open>
  The barrier does not survive an early return: a waiter that returns by a timeout or a
  wake-up without notification has passed the barrier, and its arrival stays counted. For two
  parties one thread alone then opens the barrier: it arrives, returns early, arrives again,
  and the callback runs although the other thread has never arrived.
\<close>

theorem barrier_early_return:
  "\<exists>b1 b2 b3. barrier_run (new_barrier 2) [B_await 1, B_leave 1] b1 \<and> cb_waiting b1 = [] \<and> get_current_waiting b1 = 1
    \<and> barrier_await 1 b1 = (True, b2) \<and> barrier_run (new_barrier 2) [B_await 1, B_leave 1, B_await 1] b2 \<and> cb_calls b2 = 1
    \<and> b3 = barrier_reset b1 \<and> cb_waits b3 = 0 \<and> cb_calls b3 = 1"
proof -
  let ?b0 = "snd (barrier_await 1 (new_barrier 2))" and ?b1 = "\<lparr>cb_parties = 2, cb_waits = 1, cb_waiting = [], cb_calls = 0\<rparr>"
  have r1: "barrier_run (new_barrier 2) ([] @ [B_await 1]) ?b0"
    by (rule run_snoc [OF run_nil], rule step_await) (simp add: new_barrier_def)
  have "barrier_run (new_barrier 2) (([] @ [B_await 1]) @ [B_leave 1]) (barrier_leave 1 ?b0)"
    by (rule run_snoc [OF r1], rule step_leave) (simp add: barrier_await_def new_barrier_def Let_def word_le_nat_alt)
  moreover have "barrier_leave 1 ?b0 = ?b1" by (simp add: barrier_await_def new_barrier_def barrier_leave_def Let_def word_le_nat_alt)
  ultimately have r2: "barrier_run (new_barrier 2) [B_await 1, B_leave 1] ?b1" by simp
  have "barrier_run (new_barrier 2) ([B_await 1, B_leave 1] @ [B_await 1]) (snd (barrier_await 1 ?b1))"
    by (rule run_snoc [OF r2], rule step_await) simp
  moreover have "barrier_await 1 ?b1 = (True, \<lparr>cb_parties = 2, cb_waits = 0, cb_waiting = [], cb_calls = 1\<rparr>)"
    by (simp add: barrier_await_def Let_def word_le_nat_alt)
  ultimately show ?thesis using r2
    by (intro exI [of _ ?b1] exI [of _ "\<lparr>cb_parties = 2, cb_waits = 0, cb_waiting = [], cb_calls = 1\<rparr>"] exI [of _ "barrier_reset ?b1"])
      (simp add: get_current_waiting_def barrier_reset_def)
qed

end
