(* ===== verification/CommController.thy ===== *)
theory CommController
  imports PriorityQueue CommStub TransactionCodec CryptoSign CyclicBarrier Decimal
begin

text \<open>
  \<open>CommController\<close> (\<open>comm_controller.cpp\<close>): the communication module of a block server. The
  local thread stamps the batches of its own users and broadcasts them, one thread per other
  server receives theirs, and a barrier advances the epoch when all have finished it. The
  transaction manager takes the transactions out of a heap ordered by epoch and id.

  Each round of a thread is a function on the state; the queues between the threads are lists.
  A call that would wait is \<open>Inl Blocked\<close>. \<open>DCHECK\<close>s are those of a build without
  \<open>NDEBUG\<close>. Parameters are
  OpenSSL, the codecs, and which of several elements with the same least key the heap has on top.
\<close>

section \<open>State\<close>

record ('c, 'k) ctl_env =
  cv_ssl :: "('c, 'k) openssl"
  cv_codec :: tr_codec
  cv_parse_response :: "string \<Rightarrow> epoch_response"
  cv_parse_broadcast :: "string \<Rightarrow> proxy_broadcast"
  cv_top :: "(u32 \<times> u32) list \<Rightarrow> nat"

record ('c, 'k) controller =
  ct_epoch :: u32
  ct_pending :: "tptr list"
  ct_proofs :: "string list"
  ct_broadcast :: "tptr list"
  ct_heap :: "tptr list"
  ct_map :: "u32 \<rightharpoonup> tptr list"
  ct_sizes :: "u32 \<rightharpoonup> u64"
  ct_hash :: sha_ctx
  ct_sign :: "('c, 'k) crypto_sign"
  ct_barrier :: barrier
  ct_batch :: "tr_with_proof list"
  ct_sent :: "proxy_broadcast list"
  ct_current :: u32
  ct_fresh :: tptr

definition new_controller :: "('c, 'k) crypto_sign \<Rightarrow> int \<Rightarrow> u32 \<Rightarrow> tptr \<Rightarrow> ('c, 'k) controller" where
  "new_controller sign latestSavedEpoch servers fresh =
     \<lparr>ct_epoch = of_int (latestSavedEpoch + 1), ct_pending = [], ct_proofs = [], ct_broadcast = [], ct_heap = [],
      ct_map = Map.empty, ct_sizes = Map.empty, ct_hash = sha_ctx_zero, ct_sign = sign, ct_barrier = new_barrier servers,
      ct_batch = [], ct_sent = [], ct_current = 0, ct_fresh = fresh\<rparr>"

text \<open>The two callbacks of the user collector.\<close>

definition newTransactionHandle :: "tptr list \<Rightarrow> string \<Rightarrow> ('c, 'k) controller \<Rightarrow> ('c, 'k) controller" where
  "newTransactionHandle as proof s = s\<lparr>ct_pending := ct_pending s @ as, ct_proofs := ct_proofs s @ [proof]\<rparr>"

definition lastEpochSizeHandle :: "u32 \<Rightarrow> u64 \<Rightarrow> ('c, 'k) controller \<Rightarrow> ('c, 'k) controller" where
  "lastEpochSizeHandle e n s = s\<lparr>ct_sizes := (ct_sizes s)(e \<mapsto> n)\<rparr>"

text \<open>\<open>wait\<close>: the callback of the barrier advances the epoch.\<close>

definition comm_wait :: "nat \<Rightarrow> ('c, 'k) controller \<Rightarrow> bool \<times> ('c, 'k) controller" where
  "comm_wait t s = (let (opened, b) = barrier_await t (ct_barrier s) in
     (opened, s\<lparr>ct_barrier := b, ct_epoch := (if opened then ct_epoch s + 1 else ct_epoch s)\<rparr>))"

section \<open>Transaction ids and batch hashes\<close>

text \<open>The first four bytes of the digest as a little-endian number.\<close>

definition tid_of_digest :: "string \<Rightarrow> u32" where
  "tid_of_digest d = of_nat (of_char (d ! 0) + 256 * of_char (d ! 1) + 65536 * of_char (d ! 2) + 16777216 * of_char (d ! 3))"

definition transaction_id :: "string \<Rightarrow> string \<Rightarrow> sha_ctx \<Rightarrow> u32 \<times> sha_ctx" where
  "transaction_id signature digest c =
     (let (_, c1) = helper_hash signature c; (_, c2) = helper_hash digest c1; (_, d, c3) = sha_helper_execute c2
      in (tid_of_digest d, c3))"

fun hash_digests :: "tr_codec \<Rightarrow> string list \<Rightarrow> sha_ctx \<Rightarrow> sha_ctx res" where
  "hash_digests co [] c = Inr c"
| "hash_digests co (raw # raws) c =
     bind_res (deserializeFromString co raw mock_transaction_default) (\<lambda>(_, t).
       hash_digests co raws (snd (helper_hash (pl_digest (tr_payload t)) c)))"

definition epoch_message :: "u32 \<Rightarrow> string \<Rightarrow> u32 \<Rightarrow> string" where
  "epoch_message epoch batch_hash nonce = to_string (uint epoch) @ batch_hash @ to_string (uint nonce)"

definition verifyBatchHash :: "('c, 'k) ctl_env \<Rightarrow> tr_with_proof \<Rightarrow> epoch_response \<Rightarrow> ('c, 'k) controller
    \<Rightarrow> (bool \<times> ('c, 'k) controller) res" where
  "verifyBatchHash ev ts r s =
     (if of_nat (length (tp_transaction ts)) \<noteq> er_batch_size (ep_request r) then Inr (False, s)
      else bind_res (hash_digests (cv_codec ev) (tp_transaction ts) (snd (helper_reset (ct_hash s)))) (\<lambda>c.
        let (_, digest, c1) = sha_helper_execute c; s1 = s\<lparr>ct_hash := c1\<rparr> in
        if er_batch_hash (ep_request r) \<noteq> digest then Inr (False, s1)
        else let (ok, cs) = rsaDecrypt (cv_ssl ev)
                   (epoch_message (ep_epoch r) (er_batch_hash (ep_request r)) (ep_nonce r)) (ep_signature r) (ct_sign s1)
             in Inr (ok, s1\<lparr>ct_sign := cs\<rparr>)))"

section \<open>The local thread\<close>

text \<open>
  The proof is enqueued after the transactions of its batch, so they are there; a vector that is
  not filled would hold null pointers.
\<close>

definition local_take :: "('c, 'k) ctl_env \<Rightarrow> ('c, 'k) controller
    \<Rightarrow> (string \<times> epoch_response \<times> tptr list \<times> ('c, 'k) controller) res" where
  "local_take ev s =
     (case ct_proofs s of [] \<Rightarrow> Inl Blocked
      | raw # ps \<Rightarrow>
         (let r = cv_parse_response ev raw; n = unat (er_batch_size (ep_request r)) in
          if n \<le> length (ct_pending s)
          then Inr (raw, r, take n (ct_pending s), s\<lparr>ct_proofs := ps, ct_pending := drop n (ct_pending s)\<rparr>)
          else if ct_pending s = [] then Inl Blocked else Inl NullDeref))"

text \<open>
  A batch of a later epoch: what has been collected is broadcast, and the thread waits at the
  barrier; the result says whether it passed at once.
\<close>

definition local_epoch_end :: "nat \<Rightarrow> epoch_response \<Rightarrow> ('c, 'k) controller \<Rightarrow> bool \<times> ('c, 'k) controller" where
  "local_epoch_end t r s =
     (if ep_epoch r > ct_epoch s
      then comm_wait t (s\<lparr>ct_sent := ct_sent s @ [\<lparr>pb_epoch = ct_epoch s, pb_set = ct_batch s\<rparr>], ct_batch := []\<rparr>)
      else (True, s))"

text \<open>
  Each transaction is serialised, gets its id and is queued. The hash helper starts over with
  every call of \<open>hash\<close>.
\<close>

definition enqueue_stamped :: "string \<Rightarrow> tptr \<Rightarrow> tstore \<times> ('c, 'k) controller \<Rightarrow> tstore \<times> ('c, 'k) controller" where
  "enqueue_stamped signature a = (\<lambda>(st, s).
     let digest = (case st a of Some t \<Rightarrow> pl_digest (tr_payload t) | None \<Rightarrow> []);
         (tid, c) = transaction_id signature digest (ct_hash s)
     in (tupd (setTransactionID tid) a st, s\<lparr>ct_hash := c, ct_broadcast := ct_broadcast s @ [a]\<rparr>))"

fun stamp_local :: "('c, 'k) ctl_env \<Rightarrow> epoch_response \<Rightarrow> tptr list \<Rightarrow> tstore \<times> ('c, 'k) controller
    \<Rightarrow> (string list \<times> tstore \<times> ('c, 'k) controller) res" where
  "stamp_local ev r [] (st, s) = Inr ([], st, s)"
| "stamp_local ev r (a # as) (st, s) =
     bind_res (tget st (Some a)) (\<lambda>t.
       check (getEpoch t = ct_epoch s) (
         let (ok, raw) = serializeToString (cv_codec ev) t in
         check ok (bind_res (stamp_local ev r as (enqueue_stamped (ep_signature r) a (st, s))) (\<lambda>(raws, st2, s2).
           Inr (raw # raws, st2, s2)))))"

definition local_batch :: "('c, 'k) ctl_env \<Rightarrow> string \<Rightarrow> epoch_response \<Rightarrow> tptr list \<Rightarrow> tstore \<times> ('c, 'k) controller
    \<Rightarrow> (bool \<times> tstore \<times> ('c, 'k) controller) res" where
  "local_batch ev raw r as = (\<lambda>(st, s).
     check (ep_epoch r = ct_epoch s) (
       bind_res (stamp_local ev r as (st, s)) (\<lambda>(raws, st1, s1).
         let ts = \<lparr>tp_proof = raw, tp_transaction = raws\<rparr>
         in bind_res (verifyBatchHash ev ts r (s1\<lparr>ct_batch := ct_batch s1 @ [ts]\<rparr>)) (\<lambda>(ok, s2). Inr (ok, st1, s2)))))"

section \<open>The threads of the other servers\<close>

fun receive_set :: "('c, 'k) ctl_env \<Rightarrow> epoch_response \<Rightarrow> string list \<Rightarrow> tstore \<times> ('c, 'k) controller
    \<Rightarrow> (tstore \<times> ('c, 'k) controller) res" where
  "receive_set ev r [] x = Inr x"
| "receive_set ev r (raw # raws) (st, s) =
     bind_res (deserializeFromString (cv_codec ev) raw mock_transaction_default) (\<lambda>(ok, t).
       check ok (check (getEpoch t = ct_epoch s) (
         let a = ct_fresh s
         in receive_set ev r raws (enqueue_stamped (ep_signature r) a (st(a \<mapsto> t), s\<lparr>ct_fresh := a + 1\<rparr>)))))"

text \<open>A failing check of the batch hash is only logged.\<close>

fun receive_sets :: "('c, 'k) ctl_env \<Rightarrow> tr_with_proof list \<Rightarrow> tstore \<times> ('c, 'k) controller
    \<Rightarrow> (tstore \<times> ('c, 'k) controller) res" where
  "receive_sets ev [] x = Inr x"
| "receive_sets ev (ts # tss) (st, s) =
     (let r = cv_parse_response ev (tp_proof ts) in
      bind_res (verifyBatchHash ev ts r s) (\<lambda>(_, s1).
        bind_res (receive_set ev r (tp_transaction ts) (st, s1)) (receive_sets ev tss)))"

definition receiveFromOtherServer :: "('c, 'k) ctl_env \<Rightarrow> nat \<Rightarrow> string \<Rightarrow> tstore \<times> ('c, 'k) controller
    \<Rightarrow> (bool \<times> tstore \<times> ('c, 'k) controller) res" where
  "receiveFromOtherServer ev t raw x =
     bind_res (receive_sets ev (pb_set (cv_parse_broadcast ev raw)) x) (\<lambda>(st, s).
       let (opened, s1) = comm_wait t s in Inr (opened, st, s1))"

section \<open>Handing out transactions\<close>

definition heap_key :: "tstore \<Rightarrow> tptr \<Rightarrow> u32 \<times> u32" where
  "heap_key st a = (case st a of Some t \<Rightarrow> (getEpoch t, getTransactionID t) | None \<Rightarrow> (0, 0))"

text \<open>The comparator of the heap: the greatest element in this order is on top, i.e. the smallest
  epoch, and in it the smallest id.\<close>

definition comm_less :: "u32 \<times> u32 \<Rightarrow> u32 \<times> u32 \<Rightarrow> bool" where
  "comm_less a b = (if fst a = fst b then snd a > snd b else fst a > fst b)"

interpretation comm_order: comparator comm_less
  by unfold_locales (auto simp: comm_less_def split: if_splits)

definition heap_top :: "('c, 'k) ctl_env \<Rightarrow> tstore \<Rightarrow> tptr list \<Rightarrow> nat" where
  "heap_top ev st h = pq_top comm_less (cv_top ev) (map (heap_key st) h)"

text \<open>All that is in the queue moves to the heap; with both empty the call waits.\<close>

definition transferTransaction :: "('c, 'k) controller \<Rightarrow> ('c, 'k) controller res" where
  "transferTransaction s =
     (if ct_heap s = [] \<and> ct_broadcast s = [] then Inl Blocked
      else Inr (s\<lparr>ct_heap := ct_heap s @ ct_broadcast s, ct_broadcast := []\<rparr>))"

definition heap_pop :: "nat \<Rightarrow> ('c, 'k) controller \<Rightarrow> ('c, 'k) controller" where
  "heap_pop i s = s\<lparr>ct_heap := take i (ct_heap s) @ drop (Suc i) (ct_heap s)\<rparr>"

definition taken :: "tptr \<Rightarrow> u32 \<Rightarrow> ('c, 'k) controller \<Rightarrow> ('c, 'k) controller" where
  "taken a e s = s\<lparr>ct_current := e, ct_map := map_push (ct_epoch s) a (ct_map s)\<rparr>"

lemma heap_top_less: "h \<noteq> [] \<Longrightarrow> heap_top ev st h < length h"
  using comm_order.top_less [of "map (heap_key st) h"] by (simp add: heap_top_def)

lemma heap_top_single: "heap_top ev st [a] = 0"
  by (simp add: heap_top_def comm_order.top_single)

lemma pop_less: "h \<noteq> [] \<Longrightarrow> heap_top ev st h + (length h - Suc (heap_top ev st h)) < length h"
  using heap_top_less [of h ev st] by simp

function fill_batch :: "('c, 'k) ctl_env \<Rightarrow> u32 \<Rightarrow> u32 \<Rightarrow> u32 \<Rightarrow> tstore \<Rightarrow> wrapper \<Rightarrow> ('c, 'k) controller
    \<Rightarrow> (wrapper \<times> ('c, 'k) controller) res" where
  "fill_batch ev e maxSize minSize st w s =
     (if \<not> wrap_size w < maxSize then Inr (w, s)
      else if ct_heap s = [] then Inl OutOfRange
      else let i = heap_top ev st (ct_heap s); a = ct_heap s ! i in
        bind_res (tget st (Some a)) (\<lambda>t.
        if getEpoch t \<noteq> e then Inr (w, s)
        else check (getEpoch t \<ge> ct_current s) (
          bind_res (pushTransaction st (Some a) w) (\<lambda>(ok, w1).
          check ok (
            let s1 = taken a (getEpoch t) (heap_pop i s) in
            if ct_heap s1 \<noteq> [] then fill_batch ev e maxSize minSize st w1 s1
            else if wrap_size w1 > minSize then Inr (w1, s1)
            else case transferTransaction s1 of Inl f \<Rightarrow> Inl f
              | Inr s2 \<Rightarrow> fill_batch ev e maxSize minSize st w1 s2)))))"
  by pat_completeness auto
termination
  by (relation "measure (\<lambda>(ev, e, mx, mn, st, w, s). length (ct_heap s) + length (ct_broadcast s))")
    (auto simp: taken_def heap_pop_def transferTransaction_def heap_top_less pop_less split: if_splits)

declare fill_batch.simps [simp del]

definition ctl_getTransaction :: "('c, 'k) ctl_env \<Rightarrow> u32 \<Rightarrow> u32 \<Rightarrow> u32 \<Rightarrow> tstore \<Rightarrow> ('c, 'k) controller
    \<Rightarrow> (wrapper option \<times> tstore \<times> ('c, 'k) controller) res" where
  "ctl_getTransaction ev e maxSize minSize st s =
     (let top_epoch = (\<lambda>h. fst (heap_key st (h ! heap_top ev st h))) in
      check (e \<le> ct_epoch s) (
      if ct_heap s \<noteq> [] \<and> top_epoch (ct_heap s) \<noteq> e then
        check (top_epoch (ct_heap s) = e + 1 \<or> top_epoch (ct_heap s) = e + 2) (Inr (None, st, s))
      else bind_res (transferTransaction s) (\<lambda>s1.
        if top_epoch (ct_heap s1) \<noteq> e then check (top_epoch (ct_heap s1) = e + 1) (Inr (None, st, s1))
        else bind_res (fill_batch ev e maxSize minSize st (new_wrapper e) s1) (\<lambda>(w, s2). Inr (Some w, st, s2)))))"

definition ctl_clear :: "u32 \<Rightarrow> tstore \<Rightarrow> ('c, 'k) controller \<Rightarrow> (tstore \<times> ('c, 'k) controller) res" where
  "ctl_clear epoch st s = check (epoch < ct_epoch s)
     (bind_res (clear_list (\<lambda>_. True) epoch (map_at (ct_map s) epoch) (st, ct_map s)) (\<lambda>(st1, m).
       Inr (st1, s\<lparr>ct_map := m(epoch := None)\<rparr>)))"

end
