(* ===== verification/ClientProxy.thy ===== *)
theory ClientProxy
  imports CommController
begin

text \<open>
  The way of a request into a block server: the user program signs it (\<open>user.cpp\<close>), the user
  collector checks and batches the requests (\<open>user_collector.cpp\<close>), the epoch server stamps the
  batch with an epoch number and signs it (\<open>epoch_server.cpp\<close>), and the collector hands batch and
  proof to the communication module. The sockets are the arguments and results of these
  functions; OpenSSL, the clock and the protobuf codecs are parameters. \<open>ParseFromString\<close> is
  never checked here, so parsing is a total function.
\<close>

record ('c, 'k) proxy_env =
  px_ssl :: "('c, 'k) openssl"
  px_ser_request :: "user_request \<Rightarrow> string"
  px_parse_request :: "string \<Rightarrow> user_request"
  px_ser_payload :: "payload \<Rightarrow> string"
  px_parse_payload :: "string \<Rightarrow> payload"
  px_ser_epoch_request :: "epoch_request \<Rightarrow> string"
  px_parse_epoch_request :: "string \<Rightarrow> epoch_request"
  px_ser_response :: "epoch_response \<Rightarrow> string"
  px_parse_response :: "string \<Rightarrow> epoch_response"
  px_ser_gcounter :: "gcounter_payload \<Rightarrow> string"

section \<open>The user program\<close>

text \<open>\<open>argv[argc]\<close> is the null pointer.\<close>

fun user_args :: "string list \<Rightarrow> u32 \<times> bool \<Rightarrow> (u32 \<times> bool) res" where
  "user_args [] x = Inr x"
| "user_args (a # as) (n, sl) =
     bind_res (if a = ''-t'' then (case as of [] \<Rightarrow> Inl NullDeref | b # _ \<Rightarrow> bind_res (stoi b) (\<lambda>i. Inr (of_int i)))
               else Inr n) (\<lambda>n1. user_args as (n1, sl \<or> a = ''-s''))"

text \<open>The \<open>k\<close>-th message of a thread, at time \<open>now\<close>. The result of the signature is not looked at.\<close>

definition user_payload :: "('c, 'k) proxy_env \<Rightarrow> u64 \<Rightarrow> u64 \<Rightarrow> payload" where
  "user_payload ev now k = payload_empty\<lparr>pl_header := ''crdt_gcounter'',
     pl_payload := px_ser_gcounter ev \<lparr>gc_key = ''lhx'', gc_value = 1\<rparr>, pl_nonce := now + push_bit 32 k\<rparr>"

definition user_message :: "('c, 'k) proxy_env \<Rightarrow> u64 \<Rightarrow> u64 \<Rightarrow> ('c, 'k) crypto_sign \<Rightarrow> (string \<times> ('c, 'k) crypto_sign) res" where
  "user_message ev now k cs =
     (let payloadRaw = px_ser_payload ev (user_payload ev now k) in
      bind_res (rsaEncrypt (px_ssl ev) payloadRaw cs) (\<lambda>(_, digest, cs1).
        Inr (px_ser_request ev \<lparr>ur_payload = payloadRaw, ur_digest = digest\<rparr>, cs1)))"

section \<open>The user collector\<close>

definition EPOCH_SIZE_APPROX :: nat where "EPOCH_SIZE_APPROX = 500"

text \<open>The request buffer; the reply to the user is an empty string.\<close>

definition collectRequest :: "string \<Rightarrow> string list \<Rightarrow> string \<times> string list" where
  "collectRequest message requestBuffer = ([], requestBuffer @ [message])"

definition dequeue_items :: "string list \<Rightarrow> string list \<times> string list" where
  "dequeue_items requestBuffer = (take EPOCH_SIZE_APPROX requestBuffer, drop EPOCH_SIZE_APPROX requestBuffer)"

record ('c, 'k) collect_state =
  cl_sign :: "('c, 'k) crypto_sign"
  cl_hash :: sha_ctx
  cl_store :: tstore
  cl_fresh :: tptr

definition collected_transaction :: "('c, 'k) proxy_env \<Rightarrow> user_request \<Rightarrow> transaction" where
  "collected_transaction ev q =
     mock_transaction_default\<lparr>tr_payload := (px_parse_payload ev (ur_payload q))\<lparr>pl_digest := ur_digest q\<rparr>\<rparr>"

fun collect_items :: "('c, 'k) proxy_env \<Rightarrow> string list \<Rightarrow> ('c, 'k) collect_state \<Rightarrow> (tptr list \<times> ('c, 'k) collect_state) res" where
  "collect_items ev [] s = Inr ([], s)"
| "collect_items ev (item # items) s =
     (let q = px_parse_request ev item; (ok, cs) = rsaDecrypt (px_ssl ev) (ur_payload q) (ur_digest q) (cl_sign s) in
      check ok (
        let (ok2, c) = helper_hash (ur_digest q) (cl_hash s) in
        check ok2 (
          let a = cl_fresh s in
          bind_res (collect_items ev items
            (s\<lparr>cl_sign := cs, cl_hash := c, cl_store := (cl_store s)(a \<mapsto> collected_transaction ev q), cl_fresh := a + 1\<rparr>))
            (\<lambda>(as, s1). Inr (a # as, s1)))))"

definition collector_request :: "nat \<Rightarrow> sha_ctx \<Rightarrow> epoch_request \<times> sha_ctx" where
  "collector_request itemSize c =
     (let (_, digest, c1) = sha_helper_execute c in (\<lparr>er_batch_size = of_nat itemSize, er_batch_hash = digest\<rparr>, c1))"

definition collector_deliver :: "('c, 'k) proxy_env \<Rightarrow> tptr list \<Rightarrow> string \<Rightarrow> tstore \<times> ('c, 'k) controller
    \<Rightarrow> tstore \<times> ('c, 'k) controller" where
  "collector_deliver ev as responseRaw = (\<lambda>(st, s).
     let r = px_parse_response ev responseRaw;
         st1 = fold (tupd (setEpoch (ep_epoch r))) as st
     in (st1, lastEpochSizeHandle (ep_epoch r - 1) 0 (newTransactionHandle as responseRaw s)))"

section \<open>The epoch server\<close>

definition TIME_GAP :: int where "TIME_GAP = 1"

record ('c, 'k) epoch_server =
  es_sizes :: "u32 \<rightharpoonup> u64"
  es_epoch :: u32
  es_start :: int
  es_total :: u64
  es_sign :: "('c, 'k) crypto_sign"

definition new_epoch_server :: "int \<Rightarrow> ('c, 'k) crypto_sign \<Rightarrow> ('c, 'k) epoch_server" where
  "new_epoch_server now cs = \<lparr>es_sizes = Map.empty, es_epoch = 1, es_start = now, es_total = 0, es_sign = cs\<rparr>"

definition epoch_size :: "('c, 'k) epoch_server \<Rightarrow> u64" where
  "epoch_size s = (case es_sizes s (es_epoch s) of None \<Rightarrow> 0 | Some n \<Rightarrow> n)"

text \<open>\<open>now1\<close> and \<open>now2\<close>: the clock when the request arrives and after the reply.\<close>

definition epoch_round :: "('c, 'k) proxy_env \<Rightarrow> int \<Rightarrow> int \<Rightarrow> string \<Rightarrow> ('c, 'k) epoch_server
    \<Rightarrow> (string \<times> ('c, 'k) epoch_server) res" where
  "epoch_round ev now1 now2 requestRaw s =
     (let start = (if epoch_size s = 0 then now1 else es_start s);
          request = px_parse_epoch_request ev requestRaw;
          n = (ucast (er_batch_size request) :: u64);
          total = es_total s + n;
          sizes = (es_sizes s)(es_epoch s \<mapsto> epoch_size s + n);
          nonce = (ucast total :: u32)
      in bind_res (rsaEncrypt (px_ssl ev) (epoch_message (es_epoch s) (er_batch_hash request) nonce) (es_sign s))
           (\<lambda>(_, signature, cs).
             Inr (px_ser_response ev \<lparr>ep_epoch = es_epoch s, ep_request = request, ep_nonce = nonce, ep_signature = signature\<rparr>,
                  \<lparr>es_sizes = sizes, es_epoch = (if now2 - start \<ge> TIME_GAP then es_epoch s + 1 else es_epoch s),
                   es_start = start, es_total = total, es_sign = cs\<rparr>)))"

end
