(* ===== verification/ProxyProtocol.thy ===== *)
theory ProxyProtocol
  imports ClientProxy
begin

text \<open>
  The protocol between user collector, epoch server and communication module: a batch that is
  collected, stamped and delivered passes the checks of the communication module and enters its
  queue. And what the batch hash and the transaction ids do not depend on.
\<close>

section \<open>Hashing the digests of a batch\<close>

lemma hash_absorbs_any:
  assumes "length (sc_block c) = 64" "length d < 2 ^ 32"
  obtains c1 where "helper_hash d c = (True, c1)" "absorbed sha256_H0 (str_bytes d) c1" "length (sc_block c1) = 64"
  using helper_hash_absorbs [OF assms] by (auto simp: absorbed_def)

lemma reset_block: "length (sc_block (snd (helper_reset c))) = length (sc_block c)"
  by (simp add: helper_reset_def SHA256Reset_def sha_reset_def)

lemma execute_block:
  assumes "absorbed sha256_H0 (str_bytes s) c"
  obtains c1 where "sha_helper_execute c = (True, sha256_string s, c1)" "length (sc_block c1) = 64"
proof -
  obtain c1 where c1: "sha_helper_execute c = (True, sha256_string s, c1)" using helper_execute_absorbed [OF assms] by blast
  have "\<not> sc_computed c" "sc_corrupted c = ShaSuccess" using assms by (simp_all add: absorbed_def)
  then have "c1 = sha_finalize 0x80 c" using c1 by (simp add: sha_helper_execute_def SHA256Result_def sha_resultN_def Let_def)
  then show thesis using that c1 by (simp add: sha_finalize_def sha_block_size_def)
qed

lemma transaction_id_eq:
  assumes "length (sc_block c) = 64" "length signature < 2 ^ 32" "length digest < 2 ^ 32"
  shows "\<exists>c1. transaction_id signature digest c = (tid_of_digest (sha256_string digest), c1) \<and> length (sc_block c1) = 64"
proof -
  obtain c1 where c1: "helper_hash signature c = (True, c1)" "length (sc_block c1) = 64" using hash_absorbs_any [OF assms(1,2)] .
  obtain c2 where c2: "helper_hash digest c1 = (True, c2)" "absorbed sha256_H0 (str_bytes digest) c2"
    using hash_absorbs_any [OF c1(2) assms(3)] .
  obtain c3 where "sha_helper_execute c2 = (True, sha256_string digest, c3)" "length (sc_block c3) = 64" using execute_block [OF c2(2)] .
  then show ?thesis using c1 c2 by (simp add: transaction_id_def)
qed

text \<open>What a raw transaction carries as its payload digest, if it can be read.\<close>

definition raw_digest :: "tr_codec \<Rightarrow> string \<Rightarrow> string option" where
  "raw_digest co raw = (case deserializeFromString co raw mock_transaction_default of
     Inl _ \<Rightarrow> None | Inr (_, t) \<Rightarrow> Some (pl_digest (tr_payload t)))"

lemma hash_digests_ok:
  assumes "length (sc_block c) = 64" "\<forall>raw \<in> set raws. \<exists>d. raw_digest co raw = Some d \<and> length d < 2 ^ 32"
  shows "\<exists>c1. hash_digests co raws c = Inr c1 \<and> length (sc_block c1) = 64
    \<and> (raws \<noteq> [] \<longrightarrow> absorbed sha256_H0 (str_bytes (the (raw_digest co (last raws)))) c1)"
  using assms
proof (induction raws arbitrary: c)
  case (Cons raw raws)
  obtain d where d: "raw_digest co raw = Some d" "length d < 2 ^ 32" using Cons.prems(2) by auto
  obtain ok t where t: "deserializeFromString co raw mock_transaction_default = Inr (ok, t)" "pl_digest (tr_payload t) = d"
    using d(1) by (auto simp: raw_digest_def split: sum.splits)
  obtain c1 where c1: "helper_hash d c = (True, c1)" "absorbed sha256_H0 (str_bytes d) c1" "length (sc_block c1) = 64"
    using hash_absorbs_any [OF Cons.prems(1) d(2)] .
  obtain c2 where "hash_digests co raws c1 = Inr c2" "length (sc_block c2) = 64"
    "raws \<noteq> [] \<longrightarrow> absorbed sha256_H0 (str_bytes (the (raw_digest co (last raws)))) c2"
    using Cons.IH [OF c1(3)] Cons.prems(2) by auto
  then show ?case using t c1 d(1) by (cases "raws = []") auto
qed simp

lemma verifyBatchHash_eq:
  assumes "length (sc_block (ct_hash s)) = 64" "tp_transaction ts \<noteq> []"
    and "\<forall>raw \<in> set (tp_transaction ts). \<exists>d. raw_digest (cv_codec ev) raw = Some d \<and> length d < 2 ^ 32"
    and "of_nat (length (tp_transaction ts)) = er_batch_size (ep_request r)"
  shows "\<exists>c. length (sc_block c) = 64 \<and> verifyBatchHash ev ts r s =
    (if er_batch_hash (ep_request r) \<noteq> sha256_string (the (raw_digest (cv_codec ev) (last (tp_transaction ts))))
     then Inr (False, s\<lparr>ct_hash := c\<rparr>)
     else let (ok, cs) = rsaDecrypt (cv_ssl ev) (epoch_message (ep_epoch r) (er_batch_hash (ep_request r)) (ep_nonce r))
            (ep_signature r) (ct_sign s) in Inr (ok, s\<lparr>ct_hash := c, ct_sign := cs\<rparr>))"
proof -
  obtain c1 where c1: "hash_digests (cv_codec ev) (tp_transaction ts) (snd (helper_reset (ct_hash s))) = Inr c1"
    "absorbed sha256_H0 (str_bytes (the (raw_digest (cv_codec ev) (last (tp_transaction ts))))) c1"
    using hash_digests_ok [OF _ assms(3), of "snd (helper_reset (ct_hash s))"] assms(1,2) reset_block by auto
  obtain c2 where "sha_helper_execute c1 = (True, sha256_string (the (raw_digest (cv_codec ev) (last (tp_transaction ts)))), c2)"
    "length (sc_block c2) = 64" using execute_block [OF c1(2)] .
  then show ?thesis using c1(1) assms(4) by (intro exI [of _ c2]) (simp add: verifyBatchHash_def Let_def split: prod.split)
qed

section \<open>Collecting\<close>

lemma collect_items_ok:
  assumes "collect_items ev items s = Inr (as, s1)" "length (sc_block (cl_hash s)) = 64"
    and "\<forall>item \<in> set items. length (ur_digest (px_parse_request ev item)) < 2 ^ 32"
  shows "as = [cl_fresh s..<cl_fresh s + length items]
    \<and> (\<forall>i < length items. cl_store s1 (cl_fresh s + i) = Some (collected_transaction ev (px_parse_request ev (items ! i))))
    \<and> (\<forall>a < cl_fresh s. cl_store s1 a = cl_store s a)
    \<and> (items \<noteq> [] \<longrightarrow> absorbed sha256_H0 (str_bytes (ur_digest (px_parse_request ev (last items)))) (cl_hash s1))
    \<and> (\<forall>item \<in> set items. let q = px_parse_request ev item in
         \<exists>cs. cs_pubKey cs = cs_pubKey (cl_sign s) \<and> fst (rsaDecrypt (px_ssl ev) (ur_payload q) (ur_digest q) cs))"
  using assms
proof (induction items arbitrary: s as)
  case (Cons item items)
  let ?q = "px_parse_request ev item"
  obtain ok cs where rd: "rsaDecrypt (px_ssl ev) (ur_payload ?q) (ur_digest ?q) (cl_sign s) = (ok, cs)"
    by (cases "rsaDecrypt (px_ssl ev) (ur_payload ?q) (ur_digest ?q) (cl_sign s)")
  have pub: "cs_pubKey cs = cs_pubKey (cl_sign s)"
    using rd by (auto simp: rsaDecrypt_def Let_def split: prod.splits if_splits)
  obtain c where c: "helper_hash (ur_digest ?q) (cl_hash s) = (True, c)" "absorbed sha256_H0 (str_bytes (ur_digest ?q)) c"
    "length (sc_block c) = 64" using hash_absorbs_any [OF Cons.prems(2)] Cons.prems(3) by auto
  let ?s = "s\<lparr>cl_sign := cs, cl_hash := c, cl_store := (cl_store s)(cl_fresh s \<mapsto> collected_transaction ev ?q), cl_fresh := cl_fresh s + 1\<rparr>"
  obtain bs where ok: "ok" and bs: "collect_items ev items ?s = Inr (bs, s1)" "as = cl_fresh s # bs"
    using Cons.prems(1) rd c(1) by (auto simp: Let_def check_Inr_iff bind_res_Inr_iff)
  have ih: "bs = [cl_fresh ?s..<cl_fresh ?s + length items]"
    "\<forall>i < length items. cl_store s1 (cl_fresh ?s + i) = Some (collected_transaction ev (px_parse_request ev (items ! i)))"
    "\<forall>a < cl_fresh ?s. cl_store s1 a = cl_store ?s a"
    "items \<noteq> [] \<longrightarrow> absorbed sha256_H0 (str_bytes (ur_digest (px_parse_request ev (last items)))) (cl_hash s1)"
    "\<forall>item \<in> set items. let q = px_parse_request ev item in
         \<exists>cs. cs_pubKey cs = cs_pubKey (cl_sign ?s) \<and> fst (rsaDecrypt (px_ssl ev) (ur_payload q) (ur_digest q) cs)"
    using Cons.IH [OF bs(1)] c(3) Cons.prems(3) by auto
  have stored: "cl_store s1 (cl_fresh s + i) = Some (collected_transaction ev (px_parse_request ev ((item # items) ! i)))"
    if "i < length (item # items)" for i
    using ih(2,3) that by (cases i) auto
  have hash: "absorbed sha256_H0 (str_bytes (ur_digest (px_parse_request ev (last (item # items))))) (cl_hash s1)"
  proof (cases "items = []")
    case True
    then show ?thesis using bs(1) c(2) by auto
  qed (use ih(4) in simp)
  have "as = [cl_fresh s..<cl_fresh s + length (item # items)]" using bs(2) ih(1) by (simp add: upt_conv_Cons del: upt_Suc)
  moreover have "\<exists>cs. cs_pubKey cs = cs_pubKey (cl_sign s) \<and> fst (rsaDecrypt (px_ssl ev) (ur_payload ?q) (ur_digest ?q) cs)"
    using rd ok by (intro exI [of _ "cl_sign s"]) simp
  ultimately show ?case using stored hash ih(3,5) pub by (auto simp: Let_def)
qed simp

lemma set_epochs:
  assumes "distinct as"
  shows "fold (tupd (setEpoch e)) as st a = (if a \<in> set as then map_option (setEpoch e) (st a) else st a)"
  using assms by (induction as arbitrary: st) (auto simp: tupd_app)

section \<open>Stamping\<close>

text \<open>The id a transaction gets: from the digest its user signed, nothing else.\<close>

definition digest_id :: "transaction \<Rightarrow> u32" where
  "digest_id t = tid_of_digest (sha256_string (pl_digest (tr_payload t)))"

lemma stamp_local_ok:
  assumes "distinct as" "length (sc_block (ct_hash s)) = 64" "length (ep_signature r) < 2 ^ 32"
    and "\<forall>a \<in> set as. \<exists>t. st a = Some t \<and> tr_epoch t = ct_epoch s \<and> length (tr_body (cv_codec ev) t) < 2 ^ 32
      \<and> length (pl_digest (tr_payload t)) < 2 ^ 32"
  shows "\<exists>st' c. stamp_local ev r as (st, s) = Inr (map (\<lambda>a. snd (serializeToString (cv_codec ev) (the (st a)))) as, st',
      s\<lparr>ct_hash := c, ct_broadcast := ct_broadcast s @ as\<rparr>) \<and> length (sc_block c) = 64
    \<and> (\<forall>a. st' a = (if a \<in> set as then map_option (\<lambda>t. setTransactionID (digest_id t) t) (st a) else st a))"
  using assms
proof (induction as arbitrary: st s)
  case (Cons a as)
  obtain t where t: "st a = Some t" "tr_epoch t = ct_epoch s" "length (tr_body (cv_codec ev) t) < 2 ^ 32"
    "length (pl_digest (tr_payload t)) < 2 ^ 32" using Cons.prems(4) by auto
  obtain raw where ser: "serializeToString (cv_codec ev) t = (True, raw)" using serialize_ok [OF t(3)] by blast
  obtain c where c: "transaction_id (ep_signature r) (pl_digest (tr_payload t)) (ct_hash s) = (digest_id t, c)" "length (sc_block c) = 64"
    using transaction_id_eq [OF Cons.prems(2,3) t(4)] by (auto simp: digest_id_def)
  let ?st = "tupd (setTransactionID (digest_id t)) a st" and ?s = "s\<lparr>ct_hash := c, ct_broadcast := ct_broadcast s @ [a]\<rparr>"
  have enq: "enqueue_stamped (ep_signature r) a (st, s) = (?st, ?s)" using t(1) c(1) by (simp add: enqueue_stamped_def)
  have other: "?st b = st b" if "b \<in> set as" for b using Cons.prems(1) that by (auto simp: tupd_app)
  have pre: "\<forall>b \<in> set as. \<exists>t. ?st b = Some t \<and> tr_epoch t = ct_epoch ?s \<and> length (tr_body (cv_codec ev) t) < 2 ^ 32
      \<and> length (pl_digest (tr_payload t)) < 2 ^ 32" using Cons.prems(4) other by simp
  have d: "distinct as" and b64: "length (sc_block (ct_hash ?s)) = 64" using Cons.prems(1) c(2) by simp_all
  obtain st' c' where ih: "stamp_local ev r as (?st, ?s) = Inr (map (\<lambda>a. snd (serializeToString (cv_codec ev) (the (?st a)))) as, st',
      ?s\<lparr>ct_hash := c', ct_broadcast := ct_broadcast ?s @ as\<rparr>)" "length (sc_block c') = 64"
    "\<forall>b. st' b = (if b \<in> set as then map_option (\<lambda>t. setTransactionID (digest_id t) t) (?st b) else ?st b)"
    using Cons.IH [OF d b64 Cons.prems(3) pre] by blast
  have same: "map (\<lambda>a. snd (serializeToString (cv_codec ev) (the (?st a)))) as = map (\<lambda>a. snd (serializeToString (cv_codec ev) (the (st a)))) as"
    using other by simp
  have "stamp_local ev r (a # as) (st, s) = Inr (map (\<lambda>a. snd (serializeToString (cv_codec ev) (the (st a)))) (a # as), st',
      s\<lparr>ct_hash := c', ct_broadcast := ct_broadcast s @ (a # as)\<rparr>)"
    using t(1,2) enq ih(1) same ser by (simp add: getEpoch_def)
  moreover have "st' b = (if b \<in> set (a # as) then map_option (\<lambda>t. setTransactionID (digest_id t) t) (st b) else st b)" for b
  proof (cases "b = a")
    case True
    then show ?thesis using ih(3) Cons.prems(1) t(1) by (simp add: tupd_app)
  qed (use ih(3) in \<open>simp add: tupd_app\<close>)
  ultimately show ?case using ih(2) by blast
next
  case Nil
  then show ?case by (intro exI [of _ st] exI [of _ "ct_hash s"]) simp
qed

lemma raw_digest_serialized:
  assumes "codec_ok co" "length (tr_body co t) + 32 < 2 ^ 31"
  shows "raw_digest co (snd (serializeToString co t)) = Some (pl_digest (tr_payload t))"
  using deserialize_body [OF assms(1), of t "sha256_string (tr_body co t)" mock_transaction_default] serialize_ok [of co t] assms(2)
  by (simp add: raw_digest_def sha256_string_length)

text \<open>A transaction within the sizes of the wire format.\<close>

definition wire_sized :: "tr_codec \<Rightarrow> transaction \<Rightarrow> bool" where
  "wire_sized co t \<longleftrightarrow> length (tr_body co t) + 32 < 2 ^ 31 \<and> length (pl_digest (tr_payload t)) < 2 ^ 32"

text \<open>What the communication module makes of a batch stored in its own epoch: the whole of it is
  stamped, and the checks of size, hash and signature pass.\<close>

lemma local_batch_ok:
  assumes co: "codec_ok (cv_codec cv)" and block: "length (sc_block (ct_hash s)) = 64" and sig: "length (ep_signature r) < 2 ^ 32"
    and as: "distinct as" "as \<noteq> []" "of_nat (length as) = er_batch_size (ep_request r)" and epoch: "ep_epoch r = ct_epoch s"
    and stored: "\<And>a. a \<in> set as \<Longrightarrow> \<exists>t. st a = Some t \<and> tr_epoch t = ct_epoch s \<and> wire_sized (cv_codec cv) t"
    and hash: "er_batch_hash (ep_request r) = sha256_string (pl_digest (tr_payload (the (st (last as)))))"
    and rsa: "fst (rsaDecrypt (cv_ssl cv) (epoch_message (ep_epoch r) (er_batch_hash (ep_request r)) (ep_nonce r)) (ep_signature r) (ct_sign s))"
  shows "\<exists>st' s'. local_batch cv resp r as (st, s) = Inr (True, st', s') \<and> ct_broadcast s' = ct_broadcast s @ as
    \<and> (\<forall>a. st' a = (if a \<in> set as then map_option (\<lambda>t. setTransactionID (digest_id t) t) (st a) else st a))"
proof -
  let ?co = "cv_codec cv"
  let ?raw = "\<lambda>a. snd (serializeToString ?co (the (st a)))"
  have pre: "\<forall>a \<in> set as. \<exists>t. st a = Some t \<and> tr_epoch t = ct_epoch s \<and> length (tr_body ?co t) < 2 ^ 32
      \<and> length (pl_digest (tr_payload t)) < 2 ^ 32"
    using stored by (fastforce simp: wire_sized_def)
  obtain st' c where stamp: "stamp_local cv r as (st, s) = Inr (map ?raw as, st', s\<lparr>ct_hash := c, ct_broadcast := ct_broadcast s @ as\<rparr>)"
    "length (sc_block c) = 64" "\<forall>a. st' a = (if a \<in> set as then map_option (\<lambda>t. setTransactionID (digest_id t) t) (st a) else st a)"
    using stamp_local_ok [OF as(1) block sig pre] by blast
  have rd: "raw_digest ?co (?raw a) = Some (pl_digest (tr_payload (the (st a)))) \<and> length (pl_digest (tr_payload (the (st a)))) < 2 ^ 32"
    if a: "a \<in> set as" for a
  proof -
    obtain t where "st a = Some t" "wire_sized ?co t" using stored [OF a] by blast
    then show ?thesis using raw_digest_serialized [OF co, of t] by (simp add: wire_sized_def)
  qed
  let ?ts = "\<lparr>tp_proof = resp, tp_transaction = map ?raw as\<rparr>"
  let ?s = "s\<lparr>ct_hash := c, ct_broadcast := ct_broadcast s @ as, ct_batch := ct_batch s @ [?ts]\<rparr>"
  have digs: "\<forall>raw \<in> set (map ?raw as). \<exists>d. raw_digest ?co raw = Some d \<and> length d < 2 ^ 32" using rd by auto
  have last: "the (raw_digest ?co (last (map ?raw as))) = pl_digest (tr_payload (the (st (last as))))"
    using rd [of "last as"] as(2) by (simp add: last_map)
  obtain c' where ver: "verifyBatchHash cv ?ts r ?s = (let (ok, cs) = rsaDecrypt (cv_ssl cv) (epoch_message (ep_epoch r)
      (er_batch_hash (ep_request r)) (ep_nonce r)) (ep_signature r) (ct_sign ?s) in Inr (ok, ?s\<lparr>ct_hash := c', ct_sign := cs\<rparr>))"
    using verifyBatchHash_eq [of ?s ?ts cv r] stamp(2) as digs last hash by auto
  obtain cs where "rsaDecrypt (cv_ssl cv) (epoch_message (ep_epoch r) (er_batch_hash (ep_request r)) (ep_nonce r)) (ep_signature r)
      (ct_sign ?s) = (True, cs)"
    using rsa by (auto simp: fst_def split: prod.splits)
  then show ?thesis using stamp(1,3) ver epoch by (simp add: local_batch_def)
qed

section \<open>Properties\<close>

text \<open>The codecs of the messages between the three programs are lossless.\<close>

definition proxy_codecs_ok :: "('c, 'k) proxy_env \<Rightarrow> ('c, 'k) ctl_env \<Rightarrow> bool" where
  "proxy_codecs_ok ev cv \<longleftrightarrow> cv_ssl cv = px_ssl ev \<and> codec_ok (cv_codec cv)
     \<and> (\<forall>q. px_parse_epoch_request ev (px_ser_epoch_request ev q) = q)
     \<and> (\<forall>r. px_parse_response ev (px_ser_response ev r) = r \<and> cv_parse_response cv (px_ser_response ev r) = r)"

text \<open>
  C23. A batch of requests goes through: when the collector accepts the signatures of at most 500
  requests, each of which fits the wire (below \<open>2 ^ 31\<close> bytes with its digest, \<open>wire_sized\<close>), the epoch server
  signs the batch with success, and the communication module is idle, in the epoch the server gives out, and
  has the server's public key, then the batch delivered to it is taken as one, passes the check of size, hash
  and signature, and its transactions enter the broadcast queue in order, each with that epoch and the id from
  its digest. A module that is in another epoch is the subject of \<open>silent_server_aborts\<close>.
\<close>

theorem stamped_batch_verifies:
  assumes codecs: "proxy_codecs_ok ev cv" and ssl: "openssl_ok (px_ssl ev)"
    and keys: "cs_pivKey (es_sign srv) = Some k" "cs_pubKey (ct_sign ctl) = Some (os_public_part (px_ssl ev) k)"
    and items: "items \<noteq> []" "length items \<le> EPOCH_SIZE_APPROX"
      "\<forall>item \<in> set items. wire_sized (cv_codec cv) (setEpoch (es_epoch srv) (collected_transaction ev (px_parse_request ev item)))"
    and blocks: "length (sc_block (cl_hash s)) = 64" "length (sc_block (ct_hash ctl)) = 64"
    and collect: "collect_items ev items s = Inr (as, s1)" "collector_request (length items) (cl_hash s1) = (q, c)"
    and sign: "rsaEncrypt (px_ssl ev) (epoch_message (es_epoch srv) (er_batch_hash q) (ucast (es_total srv + ucast (er_batch_size q))))
      (es_sign srv) = Inr (True, sig, cs)"
    and idle: "ct_pending ctl = []" "ct_proofs ctl = []" "ct_epoch ctl = es_epoch srv"
  shows "\<exists>resp srv' st2 ctl2 r ctl3 st4 ctl4. epoch_round ev now1 now2 (px_ser_epoch_request ev q) srv = Inr (resp, srv')
    \<and> collector_deliver ev as resp (cl_store s1, ctl) = (st2, ctl2) \<and> local_take cv ctl2 = Inr (resp, r, as, ctl3)
    \<and> local_batch cv resp r as (st2, ctl3) = Inr (True, st4, ctl4) \<and> ct_broadcast ctl4 = ct_broadcast ctl @ as
    \<and> (\<forall>a \<in> set as. \<exists>t. st4 a = Some t \<and> tr_epoch t = es_epoch srv \<and> tr_tid t = digest_id t)"
proof -
  let ?co = "cv_codec cv" and ?t = "\<lambda>i. collected_transaction ev (px_parse_request ev (items ! i))"
  let ?e = "es_epoch srv" and ?n = "length items" and ?f = "cl_fresh s"
  have dig: "\<forall>item \<in> set items. length (ur_digest (px_parse_request ev item)) < 2 ^ 32"
    using items(3) by (simp add: wire_sized_def collected_transaction_def setEpoch_def)
  note col = collect_items_ok [OF collect(1) blocks(1) dig]
  have as: "as = [?f..<?f + ?n]" and st1: "\<And>i. i < ?n \<Longrightarrow> cl_store s1 (?f + i) = Some (?t i)"
    and abs: "absorbed sha256_H0 (str_bytes (ur_digest (px_parse_request ev (last items)))) (cl_hash s1)"
    using col items(1) by auto
  obtain c1 where "sha_helper_execute (cl_hash s1) = (True, sha256_string (ur_digest (px_parse_request ev (last items))), c1)"
    using execute_block [OF abs] by blast
  then have q: "er_batch_size q = of_nat ?n" "er_batch_hash q = sha256_string (ur_digest (px_parse_request ev (last items)))"
    using collect(2) by (auto simp: collector_request_def)
  define r where "r = \<lparr>ep_epoch = ?e, ep_request = q, ep_nonce = ucast (es_total srv + ucast (er_batch_size q)), ep_signature = sig\<rparr>"
  define resp where "resp = px_ser_response ev r"
  have parse: "px_parse_epoch_request ev (px_ser_epoch_request ev q) = q" "px_parse_response ev resp = r" "cv_parse_response cv resp = r"
    and ssl_eq: "cv_ssl cv = px_ssl ev" and co: "codec_ok ?co"
    using codecs by (simp_all add: proxy_codecs_ok_def resp_def)
  obtain srv' where srv': "epoch_round ev now1 now2 (px_ser_epoch_request ev q) srv = Inr (resp, srv')"
    using sign by (simp add: epoch_round_def parse(1) resp_def r_def Let_def)
  define st2 where "st2 = fold (tupd (setEpoch ?e)) as (cl_store s1)"
  define ctl2 where "ctl2 = ctl\<lparr>ct_pending := as, ct_proofs := [resp], ct_sizes := (ct_sizes ctl)(?e - 1 \<mapsto> 0)\<rparr>"
  have del: "collector_deliver ev as resp (cl_store s1, ctl) = (st2, ctl2)"
    using idle by (simp add: collector_deliver_def parse(2) st2_def ctl2_def r_def lastEpochSizeHandle_def newTransactionHandle_def)
  have n: "unat (of_nat ?n :: u32) = ?n" using items(2) by (simp add: unat_of_nat EPOCH_SIZE_APPROX_def)
  let ?ctl3 = "ctl2\<lparr>ct_proofs := [], ct_pending := []\<rparr>"
  have take: "local_take cv ctl2 = Inr (resp, r, as, ?ctl3)"
    using as n q(1) by (simp add: local_take_def ctl2_def parse(3) r_def Let_def)
  have st2: "st2 (?f + i) = Some (setEpoch ?e (?t i))" if "i < ?n" for i
    using st1 [OF that] that by (simp add: st2_def as set_epochs)
  have stored: "\<exists>t. st2 a = Some t \<and> tr_epoch t = ct_epoch ?ctl3 \<and> wire_sized ?co t" if "a \<in> set as" for a
    using that st2 [of "a - ?f"] items(3) idle(3) by (auto simp: as ctl2_def setEpoch_def)
  have hash: "er_batch_hash (ep_request r) = sha256_string (pl_digest (tr_payload (the (st2 (last as)))))"
    using st2 [of "?n - 1"] items(1) q(2) by (simp add: as r_def last_conv_nth setEpoch_def collected_transaction_def)
  have "length sig \<le> 1024" using sign by (auto simp: rsaEncrypt_def sign_buffer_size_def Let_def split: if_splits prod.splits)
  then have pre: "length (sc_block (ct_hash ?ctl3)) = 64" "length (ep_signature r) < 2 ^ 32" "distinct as" "as \<noteq> []"
    "of_nat (length as) = er_batch_size (ep_request r)" "ep_epoch r = ct_epoch ?ctl3"
    using blocks(2) items(1) q(1) idle(3) by (simp_all add: as ctl2_def r_def)
  have rsa: "fst (rsaDecrypt (cv_ssl cv) (epoch_message (ep_epoch r) (er_batch_hash (ep_request r)) (ep_nonce r)) (ep_signature r) (ct_sign ?ctl3))"
    using rsa_sign_verify [OF ssl keys sign] by (simp add: r_def ctl2_def ssl_eq)
  obtain st4 ctl4 where batch: "local_batch cv resp r as (st2, ?ctl3) = Inr (True, st4, ctl4)" "ct_broadcast ctl4 = ct_broadcast ctl @ as"
    "\<forall>a. st4 a = (if a \<in> set as then map_option (\<lambda>t. setTransactionID (digest_id t) t) (st2 a) else st2 a)"
    using local_batch_ok [where s = ?ctl3 and st = st2 and as = as and r = r and resp = resp, OF co pre stored hash rsa] by (auto simp: ctl2_def)
  have "\<exists>t. st4 a = Some t \<and> tr_epoch t = ?e \<and> tr_tid t = digest_id t" if "a \<in> set as" for a
    using batch(3) stored [OF that] that idle(3) by (auto simp: setTransactionID_def digest_id_def ctl2_def)
  then show ?thesis using srv' del take batch by blast
qed

definition wire_epoch_request :: "epoch_request \<Rightarrow> string" where
  "wire_epoch_request q = wire_strs [wire_num (er_batch_size q), er_batch_hash q]"

definition unwire_epoch_request :: "string \<Rightarrow> epoch_request" where
  "unwire_epoch_request s = (case unwire_strs s of Some [n, h] \<Rightarrow> \<lparr>er_batch_size = unwire_num n, er_batch_hash = h\<rparr>
     | _ \<Rightarrow> \<lparr>er_batch_size = 0, er_batch_hash = []\<rparr>)"

definition wire_response :: "epoch_response \<Rightarrow> string" where
  "wire_response r = wire_strs [wire_num (ep_epoch r), wire_epoch_request (ep_request r), wire_num (ep_nonce r), ep_signature r]"

definition unwire_response :: "string \<Rightarrow> epoch_response" where
  "unwire_response s = (case unwire_strs s of
     Some [e, q, n, g] \<Rightarrow> \<lparr>ep_epoch = unwire_num e, ep_request = unwire_epoch_request q, ep_nonce = unwire_num n, ep_signature = g\<rparr>
   | _ \<Rightarrow> \<lparr>ep_epoch = 0, ep_request = \<lparr>er_batch_size = 0, er_batch_hash = []\<rparr>, ep_nonce = 0, ep_signature = []\<rparr>)"

definition demo_proxy :: "(string, nat) proxy_env" where
  "demo_proxy = \<lparr>px_ssl = demo_openssl,
     px_ser_request = (\<lambda>q. wire_strs [ur_payload q, ur_digest q]),
     px_parse_request = (\<lambda>s. case unwire_strs s of Some [p, d] \<Rightarrow> \<lparr>ur_payload = p, ur_digest = d\<rparr> | _ \<Rightarrow> \<lparr>ur_payload = [], ur_digest = []\<rparr>),
     px_ser_payload = wire_payload, px_parse_payload = (\<lambda>s. case unwire_payload s of Some p \<Rightarrow> p | None \<Rightarrow> payload_empty),
     px_ser_epoch_request = wire_epoch_request, px_parse_epoch_request = unwire_epoch_request,
     px_ser_response = wire_response, px_parse_response = unwire_response, px_ser_gcounter = gc_key\<rparr>"

definition demo_ctl_env :: "(string, nat) ctl_env" where
  "demo_ctl_env = \<lparr>cv_ssl = demo_openssl, cv_codec = wire_codec, cv_parse_response = unwire_response,
     cv_parse_broadcast = (\<lambda>_. \<lparr>pb_epoch = 0, pb_set = []\<rparr>), cv_top = (\<lambda>_. 0)\<rparr>"

definition demo_sign5 :: "(string, nat) crypto_sign" where
  "demo_sign5 = \<lparr>cs_pubKey = Some 5, cs_pivKey = Some 5, cs_mdCtx = []\<rparr>"

lemma demo_codecs: "proxy_codecs_ok demo_proxy demo_ctl_env"
  by (simp add: proxy_codecs_ok_def demo_proxy_def demo_ctl_env_def wire_codec_ok wire_epoch_request_def unwire_epoch_request_def
      wire_response_def unwire_response_def)

lemma demo_rsa:
  "length m \<le> 900 \<Longrightarrow> rsaEncrypt demo_openssl m demo_sign5 = Inr (True, CHR ''s'' # m, demo_sign5\<lparr>cs_mdCtx := m\<rparr>)"
  "fst (rsaDecrypt demo_openssl m (CHR ''s'' # m) demo_sign5)"
  by (simp_all add: rsaEncrypt_def rsaDecrypt_def demo_openssl_def demo_sign5_def sign_buffer_size_def)

definition demo_item :: string where
  "demo_item = wire_strs [wire_payload payload_empty, CHR ''s'' # wire_payload payload_empty]"

lemma demo_item_parsed:
  "px_parse_request demo_proxy demo_item = \<lparr>ur_payload = wire_payload payload_empty, ur_digest = CHR ''s'' # wire_payload payload_empty\<rparr>"
  by (simp add: demo_proxy_def demo_item_def)

lemma stamped_batch_verifies_witness:
  "\<exists>q resp srv' st2 ctl2 r ctl3 st4 ctl4. epoch_round demo_proxy 0 0 (px_ser_epoch_request demo_proxy q) (new_epoch_server 0 demo_sign5) = Inr (resp, srv')
    \<and> local_take demo_ctl_env ctl2 = Inr (resp, r, [0], ctl3) \<and> local_batch demo_ctl_env resp r [0] (st2, ctl3) = Inr (True, st4, ctl4)
    \<and> ct_broadcast ctl4 = [0]"
proof -
  let ?s = "\<lparr>cl_sign = demo_sign5, cl_hash = sha_ctx_zero, cl_store = Map.empty, cl_fresh = 0\<rparr>"
  let ?ctl = "new_controller demo_sign5 0 1 0" and ?d = "CHR ''s'' # wire_payload payload_empty"
  have b64: "length (sc_block sha_ctx_zero) = 64" by (simp add: sha_ctx_zero_def)
  have dlen: "length ?d < 2 ^ 32" by (simp add: wire_payload_def payload_empty_def wire_strs_def wire_str_def wire_num_def)
  obtain c where c: "helper_hash ?d sha_ctx_zero = (True, c)" "absorbed sha256_H0 (str_bytes ?d) c" using hash_absorbs_any [OF b64 dlen] by blast
  obtain cs where rd: "rsaDecrypt demo_openssl (wire_payload payload_empty) ?d demo_sign5 = (True, cs)"
    using demo_rsa(2) [of "wire_payload payload_empty"] by (cases "rsaDecrypt demo_openssl (wire_payload payload_empty) ?d demo_sign5") auto
  let ?s1 = "\<lparr>cl_sign = cs, cl_hash = c, cl_store = [0 \<mapsto> collected_transaction demo_proxy (px_parse_request demo_proxy demo_item)], cl_fresh = 1\<rparr>"
  have pssl: "px_ssl demo_proxy = demo_openssl" by (simp add: demo_proxy_def)
  have col: "collect_items demo_proxy [demo_item] ?s = Inr ([0], ?s1)"
    using rd c(1) demo_item_parsed pssl by simp
  obtain q c2 where q: "collector_request (length [demo_item]) (cl_hash ?s1) = (q, c2)" by (cases "collector_request (length [demo_item]) (cl_hash ?s1)")
  obtain c3 where "sha_helper_execute c = (True, sha256_string ?d, c3)" using execute_block [OF c(2)] by blast
  then have hq: "er_batch_hash q = sha256_string ?d" "er_batch_size q = 1" using q by (auto simp: collector_request_def)
  let ?m = "epoch_message 1 (er_batch_hash q) (ucast ((0 :: u64) + ucast (er_batch_size q)))"
  have mlen: "length ?m \<le> 900" using hq by (simp add: epoch_message_def to_string_def nat_str.simps sha256_string_length)
  have e: "es_epoch (new_epoch_server 0 demo_sign5) = 1" "es_total (new_epoch_server 0 demo_sign5) = 0" "es_sign (new_epoch_server 0 demo_sign5) = demo_sign5"
    by (simp_all add: new_epoch_server_def)
  have sign: "rsaEncrypt (px_ssl demo_proxy) (epoch_message (es_epoch (new_epoch_server 0 demo_sign5)) (er_batch_hash q)
      (ucast (es_total (new_epoch_server 0 demo_sign5) + ucast (er_batch_size q)))) (es_sign (new_epoch_server 0 demo_sign5))
      = Inr (True, CHR ''s'' # ?m, demo_sign5\<lparr>cs_mdCtx := ?m\<rparr>)"
    unfolding e pssl by (rule demo_rsa(1) [OF mlen])
  have ct0: "collected_transaction demo_proxy \<lparr>ur_payload = wire_payload payload_empty, ur_digest = ?d\<rparr>
      = mock_transaction_default\<lparr>tr_payload := payload_empty\<lparr>pl_digest := ?d\<rparr>\<rparr>"
    by (simp add: collected_transaction_def demo_proxy_def)
  have sized: "wire_sized (cv_codec demo_ctl_env) (setEpoch 1 (collected_transaction demo_proxy (px_parse_request demo_proxy demo_item)))"
    unfolding demo_item_parsed ct0
    by (simp add: wire_sized_def setEpoch_def demo_ctl_env_def wire_codec_def mock_transaction_default_def
        mock_transaction_def wire_payload_def wire_rwset_def payload_empty_def rwset_empty_def wire_strs_def wire_str_def wire_num_def
        tr_body_def wire_varint_def)
  have ct: "ct_pending ?ctl = []" "ct_proofs ?ctl = []" "ct_epoch ?ctl = 1" "ct_sign ?ctl = demo_sign5" "ct_hash ?ctl = sha_ctx_zero"
    "ct_broadcast ?ctl = []" by (simp_all add: new_controller_def)
  have k: "cs_pivKey (es_sign (new_epoch_server 0 demo_sign5)) = Some 5" "cs_pubKey (ct_sign ?ctl) = Some (os_public_part (px_ssl demo_proxy) 5)"
    using e ct pssl by (simp_all add: demo_sign5_def demo_openssl_def)
  have ssl: "openssl_ok (px_ssl demo_proxy)" using pssl demo_openssl_ok by simp
  have it: "[demo_item] \<noteq> []" "length [demo_item] \<le> EPOCH_SIZE_APPROX"
    "\<forall>item \<in> set [demo_item]. wire_sized (cv_codec demo_ctl_env) (setEpoch (es_epoch (new_epoch_server 0 demo_sign5)) (collected_transaction demo_proxy (px_parse_request demo_proxy item)))"
    using sized e by (simp_all add: EPOCH_SIZE_APPROX_def)
  have bl: "length (sc_block (cl_hash ?s)) = 64" "length (sc_block (ct_hash ?ctl)) = 64" using b64 ct by simp_all
  have id: "ct_epoch ?ctl = es_epoch (new_epoch_server 0 demo_sign5)" using ct e by simp
  from stamped_batch_verifies [OF demo_codecs ssl k it bl col q sign ct(1,2) id, of 0 0] show ?thesis unfolding ct(6) append_Nil by blast
qed

end
