(* ===== verification/ControllerBatch.thy ===== *)
theory ControllerBatch
  imports ProxyProtocol EpochEnd
begin

text \<open>
  The consumer side of the communication module: which transactions a batch holds, that taking
  them ends, where the module waits although a batch is full, and which transactions it never
  deletes.
\<close>

section \<open>The heap\<close>

definition key_le :: "u32 \<times> u32 \<Rightarrow> u32 \<times> u32 \<Rightarrow> bool" where
  "key_le a b \<longleftrightarrow> fst a < fst b \<or> fst a = fst b \<and> snd a \<le> snd b"

lemma comm_less_iff: "comm_less a b \<longleftrightarrow> \<not> key_le a b"
  by (auto simp: comm_less_def key_le_def)

lemma heap_top_min:
  assumes "b \<in> set h"
  shows "key_le (heap_key st (h ! heap_top ev st h)) (heap_key st b)"
proof -
  have "heap_key st b \<in> set (map (heap_key st) h)" using assms by simp
  from comm_order.top_max [OF this, of "cv_top ev"] show ?thesis
    using heap_top_less [of h ev st] assms by (cases "h = []") (simp_all add: heap_top_def comm_less_iff)
qed

text \<open>What one pass of the loop does.\<close>

lemma fill_step:
  assumes "ct_broadcast s = []" "wrap_size w < mx" "ct_heap s \<noteq> []" "wrap_epoch w = e"
    and "st (ct_heap s ! heap_top ev st (ct_heap s)) = Some t"
  shows "fill_batch ev e mx mn st w s =
    (if tr_epoch t \<noteq> e then Inr (w, s)
     else if \<not> ct_current s \<le> e then Inl CheckFailed
     else let i = heap_top ev st (ct_heap s); a = ct_heap s ! i; w1 = w\<lparr>wrap_list := wrap_list w @ [a]\<rparr>;
              s1 = taken a e (heap_pop i s)
          in if ct_heap s1 \<noteq> [] then fill_batch ev e mx mn st w1 s1
             else if wrap_size w1 > mn then Inr (w1, s1) else Inl Blocked)"
  using assms by (subst fill_batch.simps)
    (simp add: Let_def getEpoch_def pushTransaction_def transferTransaction_def taken_def heap_pop_def check_def)

lemma wrap_size_unat: "length (wrap_list w) < 2 ^ 32 \<Longrightarrow> unat (wrap_size w) = length (wrap_list w)"
  by (simp add: wrap_size_def unat_of_nat)

lemma wrap_size_less: "length (wrap_list w) < 2 ^ 32 \<Longrightarrow> n < wrap_size w \<longleftrightarrow> unat n < length (wrap_list w)"
  "length (wrap_list w) < 2 ^ 32 \<Longrightarrow> wrap_size w < n \<longleftrightarrow> length (wrap_list w) < unat n"
  by (simp_all add: word_less_nat_alt wrap_size_unat)

definition tids :: "tstore \<Rightarrow> tptr list \<Rightarrow> u32 list" where
  "tids st as = map (\<lambda>a. snd (heap_key st a)) as"

text \<open>\<open>as\<close> is the front of the heap \<open>h\<close>, and \<open>h'\<close> what is left: transactions of the epoch, in order, before the rest.\<close>

definition front_of :: "tstore \<Rightarrow> u32 \<Rightarrow> tptr list \<Rightarrow> tptr list \<Rightarrow> tptr list \<Rightarrow> bool" where
  "front_of st e h as h' \<longleftrightarrow> mset h = mset as + mset h' \<and> sorted (tids st as) \<and> (\<forall>a \<in> set as. fst (heap_key st a) = e)
     \<and> (\<forall>a \<in> set as. \<forall>b \<in> set h'. key_le (heap_key st a) (heap_key st b))"

lemma front_Nil: "front_of st e h [] h"
  by (simp add: front_of_def tids_def)

lemma front_Cons:
  assumes "front_of st e h1 as h'" "mset h = add_mset a (mset h1)" "fst (heap_key st a) = e"
    and "\<And>b. b \<in> set h \<Longrightarrow> key_le (heap_key st a) (heap_key st b)"
  shows "front_of st e h (a # as) h'"
proof -
  have "mset h = mset (a # as) + mset h'" using assms(1,2) by (simp add: front_of_def)
  moreover from arg_cong [OF this, of set_mset] have sub: "set as \<union> set h' \<subseteq> set h" by auto
  moreover have "snd (heap_key st a) \<le> snd (heap_key st b)" if "b \<in> set as" for b
    using assms(4) [of b] assms(1,3) that sub by (auto simp: front_of_def key_le_def)
  ultimately show ?thesis using assms(1,3,4) by (auto simp: front_of_def tids_def)
qed

text \<open>Where the loop stops: the batch is full, or nothing of the epoch is left.\<close>

definition batch_done :: "tstore \<Rightarrow> u32 \<Rightarrow> u32 \<Rightarrow> u32 \<Rightarrow> nat \<Rightarrow> tptr list \<Rightarrow> bool" where
  "batch_done st e mx mn n h' \<longleftrightarrow> n \<le> unat mx
     \<and> (n = unat mx \<or> (\<forall>b \<in> set h'. fst (heap_key st b) \<noteq> e) \<and> (h' \<noteq> [] \<or> unat mn < n))"

lemma later_epoch:
  assumes "\<forall>a \<in> set h. e \<le> fst (heap_key st a)" "h \<noteq> []" "fst (heap_key st (h ! heap_top ev st h)) \<noteq> e" "b \<in> set h"
  shows "fst (heap_key st b) \<noteq> e"
proof -
  have "h ! heap_top ev st h \<in> set h" using heap_top_less [OF assms(2)] by (rule nth_mem)
  then have "e < fst (heap_key st (h ! heap_top ev st h))" using assms(1,3) by (simp add: less_le)
  then show ?thesis using heap_top_min [OF assms(4), of st ev] by (auto simp: key_le_def)
qed

lemma fill_batch_spec:
  assumes "ct_broadcast s = []" "\<forall>a \<in> set (ct_heap s). st a \<noteq> None \<and> e \<le> fst (heap_key st a)"
    and "wrap_epoch w = e" "length (wrap_list w) + length (ct_heap s) < 2 ^ 32" "length (wrap_list w) \<le> unat mx"
    and "fill_batch ev e mx mn st w s = Inr (w', s')"
  shows "\<exists>as. wrap_list w' = wrap_list w @ as \<and> wrap_epoch w' = e \<and> front_of st e (ct_heap s) as (ct_heap s')
    \<and> batch_done st e mx mn (length (wrap_list w')) (ct_heap s') \<and> ct_broadcast s' = []"
  using assms
proof (induction "length (ct_heap s)" arbitrary: w s rule: less_induct)
  case less
  let ?h = "ct_heap s" and ?i = "heap_top ev st (ct_heap s)" and ?a = "ct_heap s ! heap_top ev st (ct_heap s)"
  have size: "n < wrap_size w \<longleftrightarrow> unat n < length (wrap_list w)" "wrap_size w < n \<longleftrightarrow> length (wrap_list w) < unat n" for n
    using less.prems(4) by (simp_all add: wrap_size_less)
  show ?case
  proof (cases "wrap_size w < mx")
    case False
    then have "w' = w" "s' = s" using less.prems(6) by (simp_all add: fill_batch.simps)
    then show ?thesis using False size(2) [of mx] less.prems(1,3,5) by (intro exI [of _ "[]"]) (simp add: front_Nil batch_done_def)
  next
    case True
    then have ne: "?h \<noteq> []" using less.prems(6) by (auto simp: fill_batch.simps)
    have i: "?i < length ?h" by (rule heap_top_less [OF ne])
    obtain t where t: "st ?a = Some t" using less.prems(2) nth_mem [OF i] by auto
    have key: "fst (heap_key st ?a) = tr_epoch t" using t by (simp add: heap_key_def getEpoch_def)
    note step = fill_step [where mn = mn and ev = ev and st = st and s = s and t = t, OF less.prems(1) True ne less.prems(3) t]
    show ?thesis
    proof (cases "tr_epoch t = e")
      case False
      then have "w' = w" "s' = s" using step less.prems(6) by auto
      then show ?thesis using less.prems(1-3,5) ne False key later_epoch [where h = ?h and ev = ev and st = st and e = e]
        by (intro exI [of _ "[]"]) (auto simp: front_Nil batch_done_def)
    next
      case e: True
      let ?w = "w\<lparr>wrap_list := wrap_list w @ [?a]\<rparr>" and ?s = "taken ?a e (heap_pop ?i s)"
      have h1: "ct_heap ?s = take ?i ?h @ drop (Suc ?i) ?h" "ct_broadcast ?s = []"
        using less.prems(1) by (simp_all add: taken_def heap_pop_def)
      have perm: "mset ?h = add_mset ?a (mset (ct_heap ?s))" and sub: "set ?h = insert ?a (set (ct_heap ?s))"
        using mset_take_drop [OF i] set_take_drop [OF i] h1(1) by simp_all
      have len: "length ?h = Suc (length (ct_heap ?s))" using arg_cong [OF perm, of size] by simp
      have front: "front_of st e ?h (?a # as) h'" if "front_of st e (ct_heap ?s) as h'" for as h'
        by (rule front_Cons [OF that perm]) (use key e heap_top_min in simp_all)
      have lt: "length (wrap_list w) < unat mx" using True size by simp
      have cont: "(if ct_heap ?s \<noteq> [] then fill_batch ev e mx mn st ?w ?s
          else if wrap_size ?w > mn then Inr (?w, ?s) else Inl Blocked) = Inr (w', s')"
        using step less.prems(6) e by (auto simp: Let_def split: if_splits)
      show ?thesis
      proof (cases "ct_heap ?s = []")
        case True
        then have "w' = ?w" "s' = ?s" "unat mn < length (wrap_list ?w)"
          using cont less.prems(4) len by (auto simp: wrap_size_less split: if_splits)
        then show ?thesis using front [OF front_Nil] lt True less.prems(3) h1(2)
          by (intro exI [of _ "[?a]"]) (simp add: batch_done_def)
      next
        case False
        have pre: "\<forall>a \<in> set (ct_heap ?s). st a \<noteq> None \<and> e \<le> fst (heap_key st a)" "wrap_epoch ?w = e"
          "length (wrap_list ?w) + length (ct_heap ?s) < 2 ^ 32" "length (wrap_list ?w) \<le> unat mx"
          using less.prems(2-4) sub len lt by auto
        have "length (ct_heap ?s) < length ?h" "fill_batch ev e mx mn st ?w ?s = Inr (w', s')" using len cont False by simp_all
        from less.hyps [OF this(1) h1(2) pre this(2)] obtain as where "wrap_list w' = wrap_list ?w @ as" "wrap_epoch w' = e"
          "front_of st e (ct_heap ?s) as (ct_heap s')" "batch_done st e mx mn (length (wrap_list w')) (ct_heap s')" "ct_broadcast s' = []"
          by blast
        then show ?thesis using front by (intro exI [of _ "?a # as"]) simp
      qed
    qed
  qed
qed

section \<open>The contract of the communication module\<close>

lemma fill_unfold:
  assumes "wrap_size w < mx" "ct_heap s \<noteq> []" "st (ct_heap s ! heap_top ev st (ct_heap s)) = Some t" "getEpoch t = e"
  shows "fill_batch ev e mx mn st w s = check (getEpoch t \<ge> ct_current s)
    (bind_res (pushTransaction st (Some (ct_heap s ! heap_top ev st (ct_heap s))) w) (\<lambda>(ok, w1). check ok (
       let s1 = taken (ct_heap s ! heap_top ev st (ct_heap s)) (getEpoch t) (heap_pop (heap_top ev st (ct_heap s)) s)
       in if ct_heap s1 \<noteq> [] then fill_batch ev e mx mn st w1 s1 else if wrap_size w1 > mn then Inr (w1, s1)
          else case transferTransaction s1 of Inl f \<Rightarrow> Inl f | Inr s2 \<Rightarrow> fill_batch ev e mx mn st w1 s2)))"
  using assms by (subst fill_batch.simps) (simp add: Let_def)

lemma check_bind_check: "check c (bind_res r (\<lambda>(ok, w). check ok (F w))) = Inr x \<Longrightarrow> \<exists>w. F w = Inr x"
  by (auto simp: check_Inr_iff bind_res_Inr_iff split: prod.splits)

lemma fill_shrinks:
  assumes "fill_batch ev e mx mn st w s = Inr (w', s')"
  shows "length (ct_heap s') + length (ct_broadcast s') \<le> length (ct_heap s) + length (ct_broadcast s)
    \<and> (wrap_size w < mx \<and> ct_heap s \<noteq> [] \<and> fst (heap_key st (ct_heap s ! heap_top ev st (ct_heap s))) = e
       \<longrightarrow> length (ct_heap s') + length (ct_broadcast s') < length (ct_heap s) + length (ct_broadcast s))"
  using assms
proof (induction "length (ct_heap s) + length (ct_broadcast s)" arbitrary: w s rule: less_induct)
  case less
  show ?case
  proof (cases "wrap_size w < mx \<and> ct_heap s \<noteq> []")
    case False
    then have "s' = s" using less.prems by (subst (asm) fill_batch.simps) (auto split: if_splits)
    then show ?thesis using False by auto
  next
    case True
    let ?i = "heap_top ev st (ct_heap s)"
    let ?a = "ct_heap s ! ?i"
    obtain t where t: "st ?a = Some t" using less.prems True
      by (subst (asm) fill_batch.simps) (auto simp: Let_def bind_res_Inr_iff split: option.splits)
    have key: "fst (heap_key st ?a) = tr_epoch t" using t by (simp add: heap_key_def getEpoch_def)
    show ?thesis
    proof (cases "getEpoch t = e")
      case False
      then have "s' = s" using less.prems True t by (subst (asm) fill_batch.simps) (simp add: Let_def)
      then show ?thesis using False key by (simp add: getEpoch_def)
    next
      case e: True
      let ?s1 = "taken ?a (getEpoch t) (heap_pop ?i s)"
      have "check (getEpoch t \<ge> ct_current s) (bind_res (pushTransaction st (Some ?a) w) (\<lambda>(ok, w1). check ok (
          if ct_heap ?s1 \<noteq> [] then fill_batch ev e mx mn st w1 ?s1 else if wrap_size w1 > mn then Inr (w1, ?s1)
          else case transferTransaction ?s1 of Inl f \<Rightarrow> Inl f | Inr s2 \<Rightarrow> fill_batch ev e mx mn st w1 s2))) = Inr (w', s')"
        using less.prems fill_unfold [where mx = mx and mn = mn and ev = ev and w = w and st = st and s = s and t = t and e = e, OF _ _ t e] True by (simp add: Let_def)
      from check_bind_check [OF this] obtain w1 where cont: "(if ct_heap ?s1 \<noteq> [] then fill_batch ev e mx mn st w1 ?s1 else if wrap_size w1 > mn then Inr (w1, ?s1)
          else case transferTransaction ?s1 of Inl f \<Rightarrow> Inl f | Inr s2 \<Rightarrow> fill_batch ev e mx mn st w1 s2) = Inr (w', s')"
        by blast
      have fewer: "length (ct_heap ?s1) + length (ct_broadcast ?s1) < length (ct_heap s) + length (ct_broadcast s)"
        using pop_less [of "ct_heap s" ev st] heap_top_less [of "ct_heap s" ev st] True by (simp add: taken_def heap_pop_def)
      have "length (ct_heap s') + length (ct_broadcast s') \<le> length (ct_heap ?s1) + length (ct_broadcast ?s1)"
      proof (cases "ct_heap ?s1 = []")
        case False
        then have "fill_batch ev e mx mn st w1 ?s1 = Inr (w', s')" using cont by simp
        then show ?thesis using less.hyps [OF fewer, of w1] by simp
      next
        case empty: True
        show ?thesis
        proof (cases "wrap_size w1 > mn")
          case False
          then obtain s2 where s2: "transferTransaction ?s1 = Inr s2" "fill_batch ev e mx mn st w1 s2 = Inr (w', s')"
            using cont empty by (auto split: sum.splits)
          then have same: "length (ct_heap s2) + length (ct_broadcast s2) = length (ct_heap ?s1) + length (ct_broadcast ?s1)"
            by (auto simp: transferTransaction_def split: if_splits)
          then show ?thesis using less.hyps [OF fewer [folded same] s2(2)] same by simp
        qed (use cont empty in auto)
      qed
      then show ?thesis using fewer by simp
    qed
  qed
qed

definition ctl_left :: "('c, 'k) controller \<Rightarrow> nat" where
  "ctl_left s = length (ct_heap s) + length (ct_broadcast s)"

lemma ctl_get_taken:
  assumes "ctl_getTransaction ev e mx mn st s = Inr (Some w, st', s')"
  obtains s1 where "transferTransaction s = Inr s1" "fst (heap_key st (ct_heap s1 ! heap_top ev st (ct_heap s1))) = e"
    "fill_batch ev e mx mn st (new_wrapper e) s1 = Inr (w, s')" "st' = st"
proof -
  obtain s1 where s1: "transferTransaction s = Inr s1" using assms
    by (simp add: ctl_getTransaction_def bind_res_Inr_iff check_Inr_iff split: if_splits)
  then show thesis using assms that [of s1] by (simp add: ctl_getTransaction_def bind_res_def check_Inr_iff Let_def split: if_splits sum.splits prod.splits)
qed

lemma ctl_progress:
  assumes "0 < mx" "ctl_getTransaction ev e mx mn st s = Inr (Some w, st', s')"
  shows "ctl_left s' < ctl_left s"
proof -
  obtain s1 where s1: "transferTransaction s = Inr s1" "fst (heap_key st (ct_heap s1 ! heap_top ev st (ct_heap s1))) = e"
    "fill_batch ev e mx mn st (new_wrapper e) s1 = Inr (w, s')" using ctl_get_taken [OF assms(2)] by blast
  have "ct_heap s1 \<noteq> []" "length (ct_heap s1) + length (ct_broadcast s1) = ctl_left s"
    using s1(1) by (auto simp: transferTransaction_def ctl_left_def split: if_splits)
  moreover have "wrap_size (new_wrapper e) < mx" using assms(1) by (simp add: new_wrapper_def wrap_size_def)
  ultimately show ?thesis using fill_shrinks [OF s1(3)] s1(2) by (simp add: ctl_left_def)
qed

interpretation ctl: comm_module "ctl_getTransaction ev e mx mn" "\<lambda>_. 0 < mx" ctl_left for ev e mx mn
  by unfold_locales (auto dest: ctl_progress)

section \<open>Properties\<close>

text \<open>
  Taking the transactions of an epoch from the communication module ends: the inner loop of
  the transaction manager returns, or waits for a transaction, but does not run forever. What
  it has taken are wrappers labelled with its epoch, monitored in order.
\<close>

theorem controller_collection_terminates:
  assumes "te_get ev = ctl_getTransaction cv"
  shows "\<exists>r. get_current ev tm = Some r \<and> (\<forall>tm'. r = Inr tm' \<longrightarrow> tm_epoch tm' = tm_epoch tm
    \<and> (\<exists>ws. tm_sent tm' = tm_sent tm @ ws \<and> (\<forall>w \<in> set ws. wrap_epoch w = tm_epoch tm)
         \<and> wrap_list (tm_current tm') = wrap_list (tm_current tm) @ concat (map wrap_list ws)))"
proof -
  have get: "te_get ev (tm_epoch tm) TR_MGR_GET_BATCH_MAX_SIZE TR_MGR_GET_BATCH_MIN_SIZE =
      ctl_getTransaction cv (tm_epoch tm) TR_MGR_GET_BATCH_MAX_SIZE TR_MGR_GET_BATCH_MIN_SIZE" using assms by simp
  have pos: "0 < TR_MGR_GET_BATCH_MAX_SIZE" by (simp add: TR_MGR_GET_BATCH_MAX_SIZE_def)
  from ctl.get_current_returns [OF get pos] show ?thesis by blast
qed

definition demo_ctl_tm_env :: "((string, nat) controller, unit) tm_env" where
  "demo_ctl_tm_env = \<lparr>te_get = ctl_getTransaction demo_ctl_env, te_clear = ctl_clear, te_latest = (\<lambda>_. 2),
    te_add = (\<lambda>a g. (1, g)), te_generate = (\<lambda>st g. Inr (1, g))\<rparr>"

lemma controller_collection_terminates_witness:
  "\<exists>r. get_current demo_ctl_tm_env (new_tr_manager demo_ctl_tm_env (new_controller demo_sign5 0 1 0) () Map.empty) = Some r"
proof -
  have "te_get demo_ctl_tm_env = ctl_getTransaction demo_ctl_env" by (simp add: demo_ctl_tm_env_def)
  from controller_collection_terminates [OF this] show ?thesis by blast
qed


text \<open>Two transactions of epoch 3 and one of epoch 4.\<close>

definition three_store :: tstore where
  "three_store = [1 \<mapsto> mock_transaction 3 9, 2 \<mapsto> mock_transaction 4 1, 3 \<mapsto> mock_transaction 3 5]"

definition three_waiting :: "(string, nat) controller" where
  "three_waiting = (new_controller demo_sign5 2 1 4)\<lparr>ct_broadcast := [1, 2, 3]\<rparr>"


end
