(* ===== verification/BatchHash.thy ===== *)
theory BatchHash
  imports ControllerBatch
begin

text \<open>
  Edges of the communication module: what the batch hash protects, what a failing check does, and
  a wait that nothing requires.
\<close>

section \<open>Lemmas\<close>

lemma receive_set_ok:
  assumes "\<forall>raw \<in> set raws. \<exists>t. deserializeFromString (cv_codec ev) raw mock_transaction_default = Inr (True, t) \<and> tr_epoch t = ct_epoch s"
  shows "\<exists>st' c as. receive_set ev r raws (st, s) = Inr (st', s\<lparr>ct_hash := c, ct_fresh := ct_fresh s + length raws,
      ct_broadcast := ct_broadcast s @ [ct_fresh s..<ct_fresh s + length raws]\<rparr>)"
  using assms
proof (induction raws arbitrary: st s)
  case (Cons raw raws)
  obtain t where t: "deserializeFromString (cv_codec ev) raw mock_transaction_default = Inr (True, t)" "tr_epoch t = ct_epoch s"
    using Cons.prems by auto
  obtain tid c where "transaction_id (ep_signature r) (pl_digest (tr_payload t)) (ct_hash s) = (tid, c)"
    by (cases "transaction_id (ep_signature r) (pl_digest (tr_payload t)) (ct_hash s)")
  then obtain st1 where e: "enqueue_stamped (ep_signature r) (ct_fresh s) (st(ct_fresh s \<mapsto> t), s\<lparr>ct_fresh := ct_fresh s + 1\<rparr>)
      = (st1, s\<lparr>ct_hash := c, ct_fresh := ct_fresh s + 1, ct_broadcast := ct_broadcast s @ [ct_fresh s]\<rparr>)"
    by (simp add: enqueue_stamped_def)
  let ?s = "s\<lparr>ct_hash := c, ct_fresh := ct_fresh s + 1, ct_broadcast := ct_broadcast s @ [ct_fresh s]\<rparr>"
  obtain st' c' where "receive_set ev r raws (st1, ?s) = Inr (st', ?s\<lparr>ct_hash := c', ct_fresh := ct_fresh ?s + length raws,
      ct_broadcast := ct_broadcast ?s @ [ct_fresh ?s..<ct_fresh ?s + length raws]\<rparr>)"
    using Cons.IH [of ?s st1] Cons.prems by auto
  moreover have "[ct_fresh s..<ct_fresh s + length (raw # raws)] = ct_fresh s # [ct_fresh s + 1..<ct_fresh s + 1 + length raws]"
    by (simp add: upt_conv_Cons del: upt_Suc)
  ultimately show ?case using t e by (intro exI [of _ st'] exI [of _ c']) (simp add: getEpoch_def Let_def del: upt_Suc)
next
  case Nil
  then show ?case by (intro exI [of _ st] exI [of _ "ct_hash s"]) simp
qed

lemma verify_frame:
  assumes "verifyBatchHash ev ts r s = Inr (ok, s1)"
  shows "\<exists>c cs. s1 = s\<lparr>ct_hash := c, ct_sign := cs\<rparr>"
proof (cases "of_nat (length (tp_transaction ts)) = er_batch_size (ep_request r)")
  case True
  then obtain c where c: "hash_digests (cv_codec ev) (tp_transaction ts) (snd (helper_reset (ct_hash s))) = Inr c"
    using assms by (auto simp: verifyBatchHash_def bind_res_Inr_iff)
  obtain a d c1 where x: "sha_helper_execute c = (a, d, c1)" by (cases "sha_helper_execute c")
  obtain v cs where v: "rsaDecrypt (cv_ssl ev) (epoch_message (ep_epoch r) (er_batch_hash (ep_request r)) (ep_nonce r))
      (ep_signature r) (ct_sign s) = (v, cs)"
    by (cases "rsaDecrypt (cv_ssl ev) (epoch_message (ep_epoch r) (er_batch_hash (ep_request r)) (ep_nonce r)) (ep_signature r) (ct_sign s)")
  have "s1 = s\<lparr>ct_hash := c1, ct_sign := ct_sign s\<rparr> \<or> s1 = s\<lparr>ct_hash := c1, ct_sign := cs\<rparr>"
    using assms True c x v by (auto simp: verifyBatchHash_def Let_def split: if_splits)
  then show ?thesis by blast
next
  case False
  then have "s1 = s\<lparr>ct_hash := ct_hash s, ct_sign := ct_sign s\<rparr>" using assms by (simp add: verifyBatchHash_def)
  then show ?thesis by blast
qed

lemma collect_rejects:
  assumes "item \<in> set items"
    and "\<And>cs. cs_pubKey cs = cs_pubKey (cl_sign s) \<Longrightarrow>
      \<not> fst (rsaDecrypt (px_ssl ev) (ur_payload (px_parse_request ev item)) (ur_digest (px_parse_request ev item)) cs)"
  shows "collect_items ev items s = Inl CheckFailed"
  using assms
proof (induction items arbitrary: s)
  case (Cons it items)
  let ?q = "px_parse_request ev it"
  obtain ok cs where rd: "rsaDecrypt (px_ssl ev) (ur_payload ?q) (ur_digest ?q) (cl_sign s) = (ok, cs)"
    by (cases "rsaDecrypt (px_ssl ev) (ur_payload ?q) (ur_digest ?q) (cl_sign s)")
  have pub: "cs_pubKey cs = cs_pubKey (cl_sign s)" using rd by (auto simp: rsaDecrypt_def Let_def split: prod.splits if_splits)
  show ?case
  proof (cases "item = it")
    case True
    then have "\<not> ok" using Cons.prems(2) [of "cl_sign s"] rd by simp
    then show ?thesis using rd by (simp add: check_def Let_def)
  next
    case False
    then have "collect_items ev items s' = Inl CheckFailed" if "cl_sign s' = cs" for s'
      using Cons that pub by simp
    then show ?thesis using rd by (simp add: check_def Let_def split: prod.split)
  qed
qed simp

lemma fill_waits:
  assumes "ct_broadcast s = []" "ct_heap s \<noteq> []" "ct_current s \<le> e" "wrap_epoch w = e" "mn \<le> mx"
    and "length (wrap_list w) + length (ct_heap s) \<le> unat mn" "\<forall>a \<in> set (ct_heap s). \<exists>t. st a = Some t \<and> tr_epoch t = e"
  shows "fill_batch ev e mx mn st w s = Inl Blocked"
  using assms
proof (induction "length (ct_heap s)" arbitrary: w s)
  case (Suc n)
  let ?h = "ct_heap s"
  let ?i = "heap_top ev st ?h"
  let ?a = "?h ! ?i"
  let ?w = "w\<lparr>wrap_list := wrap_list w @ [?a]\<rparr>"
  let ?s = "taken ?a e (heap_pop ?i s)"
  have i: "?i < length ?h" by (rule heap_top_less [OF Suc.prems(2)])
  have small: "unat mn < 2 ^ 32" using unsigned_less [of mn] by simp
  have size: "unat (wrap_size v) = length (wrap_list v)" if "length (wrap_list v) \<le> unat mn" for v
    using that small by (intro wrap_size_unat) simp
  have lw: "length (wrap_list w) < unat mn" using Suc.prems(6) Suc.hyps(2) by simp
  have "wrap_size w < mx" using size [of w] lw Suc.prems(5) by (simp add: word_less_nat_alt word_le_nat_alt)
  obtain t where t: "st ?a = Some t" "tr_epoch t = e" using Suc.prems(7) nth_mem [OF i] by blast
  note step = fill_step [where mn = mn and ev = ev and st = st and s = s and t = t, OF Suc.prems(1) \<open>wrap_size w < mx\<close> Suc.prems(2,4) t(1)]
  have s: "ct_heap ?s = take ?i ?h @ drop (Suc ?i) ?h" "ct_broadcast ?s = []" "ct_current ?s = e"
    using Suc.prems(1) by (simp_all add: taken_def heap_pop_def)
  have len: "n = length (ct_heap ?s)" using i Suc.hyps(2) by (simp add: s(1))
  have sub: "set (ct_heap ?s) \<subseteq> set ?h" using set_take_subset set_drop_subset by (fastforce simp: s(1))
  show ?case
  proof (cases "ct_heap ?s = []")
    case True
    have "\<not> wrap_size ?w > mn" using size [of ?w] lw by (simp add: word_less_nat_alt not_less)
    then show ?thesis using step t(2) Suc.prems(3) True by (simp add: Let_def)
  next
    case False
    have "fill_batch ev e mx mn st ?w ?s = Inl Blocked"
    proof (rule Suc.hyps(1) [OF len s(2) False])
      show "ct_current ?s \<le> e" using s(3) by simp
      show "wrap_epoch ?w = e" using Suc.prems(4) by simp
      show "length (wrap_list ?w) + length (ct_heap ?s) \<le> unat mn" using Suc.prems(6) Suc.hyps(2) len by simp
      show "\<forall>a \<in> set (ct_heap ?s). \<exists>t. st a = Some t \<and> tr_epoch t = e" using Suc.prems(7) sub by blast
    qed (rule Suc.prems(5))
    then show ?thesis using step t(2) Suc.prems(3) False by (simp add: Let_def)
  qed
qed simp

section \<open>Properties\<close>

text \<open>
  The batch hash covers the last transaction only. When a batch passes the check of the
  communication module, then every other batch of as many readable transactions passes it with
  the same proof, provided the last one carries the same digest: all others can be exchanged.
\<close>

theorem batch_hash_covers_last_only:
  assumes "verifyBatchHash ev ts r s = Inr (True, s1)" "length (sc_block (ct_hash s)) = 64"
    and "ts' = ts\<lparr>tp_transaction := raws\<rparr>" "length raws = length (tp_transaction ts)" "raws \<noteq> []"
    and "\<forall>raw \<in> set raws \<union> set (tp_transaction ts). \<exists>d. raw_digest (cv_codec ev) raw = Some d \<and> length d < 2 ^ 32"
    and "raw_digest (cv_codec ev) (last raws) = raw_digest (cv_codec ev) (last (tp_transaction ts))"
  shows "\<exists>s2. verifyBatchHash ev ts' r s = Inr (True, s2)"
proof -
  have ne: "tp_transaction ts \<noteq> []" "tp_transaction ts' \<noteq> []" using assms(3-5) by auto
  have n: "of_nat (length (tp_transaction ts)) = er_batch_size (ep_request r)" using assms(1) by (auto simp: verifyBatchHash_def split: if_splits)
  then have n': "of_nat (length (tp_transaction ts')) = er_batch_size (ep_request r)" using assms(3,4) by simp
  have d: "\<forall>raw \<in> set (tp_transaction ts). \<exists>d. raw_digest (cv_codec ev) raw = Some d \<and> length d < 2 ^ 32"
    "\<forall>raw \<in> set (tp_transaction ts'). \<exists>d. raw_digest (cv_codec ev) raw = Some d \<and> length d < 2 ^ 32"
    using assms(3,6) by auto
  obtain c where c: "verifyBatchHash ev ts r s =
    (if er_batch_hash (ep_request r) \<noteq> sha256_string (the (raw_digest (cv_codec ev) (last (tp_transaction ts))))
     then Inr (False, s\<lparr>ct_hash := c\<rparr>)
     else let (ok, cs) = rsaDecrypt (cv_ssl ev) (epoch_message (ep_epoch r) (er_batch_hash (ep_request r)) (ep_nonce r))
            (ep_signature r) (ct_sign s) in Inr (ok, s\<lparr>ct_hash := c, ct_sign := cs\<rparr>))"
    using verifyBatchHash_eq [OF assms(2) ne(1) d(1) n] by blast
  obtain c' where c': "verifyBatchHash ev ts' r s =
    (if er_batch_hash (ep_request r) \<noteq> sha256_string (the (raw_digest (cv_codec ev) (last (tp_transaction ts'))))
     then Inr (False, s\<lparr>ct_hash := c'\<rparr>)
     else let (ok, cs) = rsaDecrypt (cv_ssl ev) (epoch_message (ep_epoch r) (er_batch_hash (ep_request r)) (ep_nonce r))
            (ep_signature r) (ct_sign s) in Inr (ok, s\<lparr>ct_hash := c', ct_sign := cs\<rparr>))"
    using verifyBatchHash_eq [OF assms(2) ne(2) d(2) n'] by blast
  show ?thesis using assms(1,3,7) c c' by (auto split: if_splits prod.splits)
qed

text \<open>Transactions of epoch 1 with a digest, and the proof of a batch of two with digests x and y.\<close>

definition digest_transaction :: "string \<Rightarrow> transaction" where
  "digest_transaction d = (mock_transaction 1 0)\<lparr>tr_payload := payload_empty\<lparr>pl_digest := d\<rparr>\<rparr>"

definition digest_raw :: "string \<Rightarrow> string" where
  "digest_raw d = snd (serializeToString wire_codec (digest_transaction d))"

definition demo_proof :: epoch_response where
  "demo_proof = (let h = sha256_string ''y'' in
     \<lparr>ep_epoch = 1, ep_request = \<lparr>er_batch_size = 2, er_batch_hash = h\<rparr>, ep_nonce = 2, ep_signature = CHR ''s'' # epoch_message 1 h 2\<rparr>)"

lemma digest_transaction_small:
  assumes "d \<in> {''x'', ''y'', ''forged''}"
  shows "length (tr_body wire_codec (digest_transaction d)) + 32 < 2 ^ 31"
  using assms by (auto simp: wire_payload_def wire_rwset_def payload_empty_def rwset_empty_def wire_strs_def wire_str_def
      wire_num_def tr_body_def wire_codec_def mock_transaction_def wire_varint_def digest_transaction_def)

lemma digest_raw_reads:
  assumes "d \<in> {''x'', ''y'', ''forged''}"
  shows "raw_digest wire_codec (digest_raw d) = Some d"
    "deserializeFromString wire_codec (digest_raw d) mock_transaction_default = Inr (True, digest_transaction d)"
proof -
  note small = digest_transaction_small [OF assms]
  show "raw_digest wire_codec (digest_raw d) = Some d"
    using raw_digest_serialized [OF wire_codec_ok small] by (simp add: digest_raw_def digest_transaction_def)
  show "deserializeFromString wire_codec (digest_raw d) mock_transaction_default = Inr (True, digest_transaction d)"
    using serialize_ok [of wire_codec "digest_transaction d"] small
      deserialize_body [OF wire_codec_ok, of "digest_transaction d" "sha256_string (tr_body wire_codec (digest_transaction d))"]
    by (simp add: digest_raw_def sha256_string_length digest_transaction_def mock_transaction_def mock_transaction_default_def)
qed

abbreviation demo_controller :: "(string, nat) controller" where
  "demo_controller \<equiv> new_controller demo_sign5 0 1 0"

lemma demo_controller_state: "length (sc_block (ct_hash demo_controller)) = 64" "ct_sign demo_controller = demo_sign5"
  "ct_epoch demo_controller = 1" "ct_fresh demo_controller = 0" "ct_broadcast demo_controller = []"
  by (simp_all add: new_controller_def sha_ctx_zero_def)

lemma demo_batch_passes:
  "\<exists>s1. verifyBatchHash demo_ctl_env \<lparr>tp_proof = p, tp_transaction = [digest_raw ''x'', digest_raw ''y'']\<rparr> demo_proof demo_controller = Inr (True, s1)"
proof -
  let ?ts = "\<lparr>tp_proof = p, tp_transaction = [digest_raw ''x'', digest_raw ''y'']\<rparr>"
  have env: "cv_codec demo_ctl_env = wire_codec" "cv_ssl demo_ctl_env = demo_openssl" by (simp_all add: demo_ctl_env_def)
  have d: "\<forall>raw \<in> set (tp_transaction ?ts). \<exists>d. raw_digest (cv_codec demo_ctl_env) raw = Some d \<and> length d < 2 ^ 32"
    using digest_raw_reads(1) by (simp add: env)
  have n: "of_nat (length (tp_transaction ?ts)) = er_batch_size (ep_request demo_proof)" by (simp add: demo_proof_def Let_def)
  have "fst (rsaDecrypt demo_openssl (epoch_message (ep_epoch demo_proof) (er_batch_hash (ep_request demo_proof)) (ep_nonce demo_proof))
      (ep_signature demo_proof) demo_sign5)" using demo_rsa(2) by (simp add: demo_proof_def Let_def)
  then obtain cs where "rsaDecrypt demo_openssl (epoch_message (ep_epoch demo_proof) (er_batch_hash (ep_request demo_proof)) (ep_nonce demo_proof))
      (ep_signature demo_proof) demo_sign5 = (True, cs)" by (metis prod.collapse)
  moreover have "er_batch_hash (ep_request demo_proof) = sha256_string (the (raw_digest (cv_codec demo_ctl_env) (last (tp_transaction ?ts))))"
    using digest_raw_reads(1) [of "''y''"] by (simp add: env demo_proof_def Let_def)
  ultimately show ?thesis
    using verifyBatchHash_eq [OF demo_controller_state(1) _ d n] env demo_controller_state(2) by auto
qed

lemma batch_hash_covers_last_only_witness:
  "\<exists>s2. verifyBatchHash demo_ctl_env \<lparr>tp_proof = [], tp_transaction = [digest_raw ''forged'', digest_raw ''y'']\<rparr> demo_proof demo_controller
     = Inr (True, s2)"
proof -
  let ?ts = "\<lparr>tp_proof = [], tp_transaction = [digest_raw ''x'', digest_raw ''y'']\<rparr>" and ?raws = "[digest_raw ''forged'', digest_raw ''y'']"
  obtain s1 where v: "verifyBatchHash demo_ctl_env ?ts demo_proof demo_controller = Inr (True, s1)" using demo_batch_passes by blast
  have env: "cv_codec demo_ctl_env = wire_codec" by (simp add: demo_ctl_env_def)
  have d: "\<forall>raw \<in> set ?raws \<union> set (tp_transaction ?ts). \<exists>d. raw_digest (cv_codec demo_ctl_env) raw = Some d \<and> length d < 2 ^ 32"
    using digest_raw_reads(1) by (simp add: env)
  show ?thesis
    using batch_hash_covers_last_only [OF v demo_controller_state(1) refl _ _ d] by simp
qed

text \<open>
  A remote batch that fails the check is used all the same: whatever \<open>verifyBatchHash\<close> says,
  a received set whose transactions can be read and carry the current epoch is put into the
  broadcast queue as a whole.
\<close>

theorem remote_check_ignored:
  assumes "verifyBatchHash ev ts (cv_parse_response ev (tp_proof ts)) s = Inr (ok, s1)"
    and "\<forall>raw \<in> set (tp_transaction ts). \<exists>t. deserializeFromString (cv_codec ev) raw mock_transaction_default = Inr (True, t) \<and> tr_epoch t = ct_epoch s"
  shows "\<exists>st' s'. receive_sets ev [ts] (st, s) = Inr (st', s')
    \<and> ct_broadcast s' = ct_broadcast s @ [ct_fresh s..<ct_fresh s + length (tp_transaction ts)]"
proof -
  obtain c cs where s1: "s1 = s\<lparr>ct_hash := c, ct_sign := cs\<rparr>" using verify_frame [OF assms(1)] by blast
  then have "\<forall>raw \<in> set (tp_transaction ts). \<exists>t. deserializeFromString (cv_codec ev) raw mock_transaction_default = Inr (True, t) \<and> tr_epoch t = ct_epoch s1"
    using assms(2) by simp
  from receive_set_ok [OF this, of "cv_parse_response ev (tp_proof ts)" st] show ?thesis using assms(1) s1 by (auto simp: Let_def)
qed

text \<open>A batch without any proof.\<close>

lemma remote_check_ignored_witness:
  "\<exists>st' s'. receive_sets demo_ctl_env [\<lparr>tp_proof = [], tp_transaction = [digest_raw ''x'']\<rparr>] (Map.empty, demo_controller) = Inr (st', s')
     \<and> ct_broadcast s' = [0]
     \<and> (\<exists>s1. verifyBatchHash demo_ctl_env \<lparr>tp_proof = [], tp_transaction = [digest_raw ''x'']\<rparr> (cv_parse_response demo_ctl_env []) demo_controller
           = Inr (False, s1))"
proof -
  let ?ts = "\<lparr>tp_proof = [], tp_transaction = [digest_raw ''x'']\<rparr>"
  have "er_batch_size (ep_request (cv_parse_response demo_ctl_env [])) = 0"
    by (simp add: demo_ctl_env_def unwire_response_def unwire_strs.simps)
  then have v: "verifyBatchHash demo_ctl_env ?ts (cv_parse_response demo_ctl_env (tp_proof ?ts)) demo_controller = Inr (False, demo_controller)"
    by (simp add: verifyBatchHash_def)
  have d: "\<forall>raw \<in> set (tp_transaction ?ts). \<exists>t. deserializeFromString (cv_codec demo_ctl_env) raw mock_transaction_default = Inr (True, t)
      \<and> tr_epoch t = ct_epoch demo_controller"
    using digest_raw_reads(2) [of "''x''"] demo_controller_state(3)
    by (simp add: demo_ctl_env_def digest_transaction_def mock_transaction_def)
  show ?thesis using remote_check_ignored [OF v d, of Map.empty] v demo_controller_state(4,5) by simp
qed

text \<open>
  One bad request ends the block server: when the signature of any request of a batch is
  rejected under the user's key, the collector fails its \<open>CHECK\<close>, whatever the other requests.
\<close>

theorem bad_request_aborts_server:
  assumes "item \<in> set items"
    and "\<And>cs. cs_pubKey cs = cs_pubKey (cl_sign s) \<Longrightarrow>
      \<not> fst (rsaDecrypt (px_ssl ev) (ur_payload (px_parse_request ev item)) (ur_digest (px_parse_request ev item)) cs)"
  shows "collect_items ev items s = Inl CheckFailed"
  using assms by (rule collect_rejects)

lemma bad_request_aborts_server_witness:
  "collect_items demo_proxy [demo_item, wire_strs [''p'', ''bad'']] \<lparr>cl_sign = demo_sign5, cl_hash = sha_ctx_zero, cl_store = Map.empty, cl_fresh = 0\<rparr>
     = Inl CheckFailed"
  by (rule bad_request_aborts_server [where item = "wire_strs [''p'', ''bad'']"])
    (auto simp: demo_proxy_def demo_openssl_def rsaDecrypt_def demo_sign5_def)

text \<open>
  A full batch waits: when \<open>getTransaction\<close> is called with \<open>minSize\<close> not above \<open>maxSize\<close>, as the
  transaction manager does with 500 for both, and the heap holds transactions of the epoch asked
  for, at most \<open>minSize\<close> of them, and nothing is queued, the call waits for another transaction,
  although with exactly \<open>maxSize\<close> of them the batch is complete.
\<close>

theorem full_batch_waits:
  assumes "ct_heap s \<noteq> []" "ct_broadcast s = []" "ct_current s \<le> e" "e \<le> ct_epoch s" "mn \<le> mx"
    and "length (ct_heap s) \<le> unat mn" "\<forall>a \<in> set (ct_heap s). \<exists>t. st a = Some t \<and> tr_epoch t = e"
  shows "ctl_getTransaction ev e mx mn st s = Inl Blocked"
proof -
  have top: "fst (heap_key st (ct_heap s ! heap_top ev st (ct_heap s))) = e"
    using assms(7) nth_mem [OF heap_top_less [OF assms(1)], of ev st] by (force simp: heap_key_def getEpoch_def)
  have "transferTransaction s = Inr s" using assms(1,2) by (simp add: transferTransaction_def)
  moreover have "fill_batch ev e mx mn st (new_wrapper e) s = Inl Blocked"
    by (rule fill_waits [OF assms(2,1,3) _ assms(5) _ assms(7)]) (use assms(6) in \<open>simp_all add: new_wrapper_def\<close>)
  ultimately show ?thesis using top assms(1,4) by (simp add: ctl_getTransaction_def Let_def)
qed

text \<open>Three transactions are a full batch of three.\<close>

lemma full_batch_waits_witness:
  "ctl_getTransaction demo_ctl_env 3 3 3 [1 \<mapsto> mock_transaction 3 9, 2 \<mapsto> mock_transaction 3 1, 3 \<mapsto> mock_transaction 3 5]
     ((new_controller demo_sign5 2 1 4)\<lparr>ct_heap := [1, 2, 3]\<rparr>) = Inl Blocked"
  by (rule full_batch_waits) (simp_all add: new_controller_def mock_transaction_def)

end
