(* ===== verification/EpochExchange.thy ===== *)
theory EpochExchange
  imports CyclicBarrier
begin

text \<open>
  The exchange of batches between the block servers: the receiver threads of every
  \<open>CommController\<close> (\<open>receiveFromLocalServer\<close>, \<open>receiveFromOtherServer\<close> and \<open>wait\<close> in
  \<open>comm_controller.cpp\<close>) as one interleaved system. A server has a local thread, which reads the
  batches the epoch server has stamped for its own users, and one thread for each other server,
  which reads what that server publishes; they meet at the barrier, which ends the epoch.

  A step is a read, a send, a check, one transaction enqueued, an arrival at the barrier or a
  return from it. A transaction is its epoch with its content; ids and hashes are left to
  \<open>CommController\<close>, and a failing batch hash changes nothing here. The published messages
  of a server reach each other server in order. What the code relies on but the platform does not
  promise is a parameter, \<open>platform\<close>: waits that end without a notification, and messages that
  a publisher drops.
\<close>

section \<open>State\<close>

type_synonym 'a etr = "u32 \<times> 'a"
type_synonym 'a batch = "u32 \<times> 'a etr list"
type_synonym 'a message = "u32 \<times> 'a etr list list"

text \<open>
  Where the local thread is, with the batch it holds: before \<open>wait\<close>, inside it, before the check
  of the epoch, or in the loop over the transactions.
\<close>

datatype 'a local_pc = L_READ | L_AWAIT "'a batch" | L_WAIT "'a batch" | L_CHECK "'a batch" | L_ENQ "'a etr list"

text \<open>Where the thread of another server is: in the loop it holds the rest of a set and the sets after it.\<close>

datatype 'a remote_pc = R_READ | R_ENQ "'a etr list" "'a etr list list" | R_AWAIT | R_WAIT

text \<open>
  A server: the input are \<open>pendingTransactions\<close> with their proofs, the batch is
  \<open>transactionSetMulti\<close>, and the queue is all that has been put into \<open>broadcastTransactions\<close>. Its
  threads have the numbers of the servers they read from.
\<close>

record 'a exchange =
  xf_epoch :: u32
  xf_barrier :: barrier
  xf_input :: "'a batch list"
  xf_local :: "'a local_pc"
  xf_batch :: "'a etr list list"
  xf_inbox :: "nat \<Rightarrow> 'a message list"
  xf_remote :: "nat \<Rightarrow> 'a remote_pc"
  xf_queue :: "'a etr list"
  xf_failed :: bool

definition new_exchange :: "nat \<Rightarrow> u32 \<Rightarrow> 'a batch list \<Rightarrow> 'a exchange" where
  "new_exchange servers epoch input = \<lparr>xf_epoch = epoch, xf_barrier = new_barrier (of_nat servers), xf_input = input,
     xf_local = L_READ, xf_batch = [], xf_inbox = (\<lambda>_. []), xf_remote = (\<lambda>_. R_READ), xf_queue = [], xf_failed = False\<rparr>"

section \<open>Steps\<close>

text \<open>\<open>wait\<close>: the arrival of a thread; the one that opens the barrier runs the callback.\<close>

definition xf_wait :: "nat \<Rightarrow> 'a exchange \<Rightarrow> bool \<times> 'a exchange" where
  "xf_wait t s = (let (opened, b) = barrier_await t (xf_barrier s) in
     (opened, s\<lparr>xf_barrier := b, xf_epoch := (if opened then xf_epoch s + 1 else xf_epoch s)\<rparr>))"

text \<open>
  The return from it: after the barrier has opened, or by a wake-up that nobody has sent
  (\<open>spurious\<close>). \<open>None\<close>: the thread is blocked.
\<close>

definition xf_resume :: "bool \<Rightarrow> nat \<Rightarrow> 'a exchange \<Rightarrow> 'a exchange option" where
  "xf_resume spurious t s =
     (if t \<notin> set (cb_waiting (xf_barrier s)) then Some s
      else if spurious then Some (s\<lparr>xf_barrier := barrier_leave t (xf_barrier s)\<rparr>) else None)"

text \<open>A transaction is checked, and put into the queue.\<close>

definition xf_enqueue :: "'a etr \<Rightarrow> 'a exchange \<Rightarrow> 'a exchange" where
  "xf_enqueue x s = (if fst x = xf_epoch s then s\<lparr>xf_queue := xf_queue s @ [x]\<rparr> else s\<lparr>xf_failed := True\<rparr>)"

definition add_transaction :: "'a list list \<Rightarrow> 'a \<Rightarrow> 'a list list" where
  "add_transaction sets x = butlast sets @ [last sets @ [x]]"

text \<open>\<open>receiveFromLocalServer\<close>: the new state, and the message that is published.\<close>

definition local_act :: "bool \<Rightarrow> nat \<Rightarrow> 'a exchange \<Rightarrow> ('a exchange \<times> 'a message option) option" where
  "local_act spurious i s =
     (if xf_failed s then None
      else case xf_local s of
        L_READ \<Rightarrow> (case xf_input s of [] \<Rightarrow> None
          | b # bs \<Rightarrow>
              if fst b > xf_epoch s
              then Some (s\<lparr>xf_input := bs, xf_batch := [], xf_local := L_AWAIT b\<rparr>, Some (xf_epoch s, xf_batch s))
              else Some (s\<lparr>xf_input := bs, xf_local := L_CHECK b\<rparr>, None))
      | L_AWAIT b \<Rightarrow> (let (opened, s1) = xf_wait i s in Some (s1\<lparr>xf_local := (if opened then L_CHECK b else L_WAIT b)\<rparr>, None))
      | L_WAIT b \<Rightarrow> map_option (\<lambda>s1. (s1\<lparr>xf_local := L_CHECK b\<rparr>, None)) (xf_resume spurious i s)
      | L_CHECK b \<Rightarrow>
          if fst b = xf_epoch s then Some (s\<lparr>xf_batch := xf_batch s @ [[]], xf_local := L_ENQ (snd b)\<rparr>, None)
          else Some (s\<lparr>xf_failed := True\<rparr>, None)
      | L_ENQ [] \<Rightarrow> Some (s\<lparr>xf_local := L_READ\<rparr>, None)
      | L_ENQ (x # xs) \<Rightarrow>
          Some ((xf_enqueue x s)\<lparr>xf_batch := add_transaction (xf_batch s) x, xf_local := L_ENQ xs\<rparr>, None))"

text \<open>\<open>receiveFromOtherServer\<close> for server \<open>j\<close>. The epoch of a message is not looked at.\<close>

definition remote_act :: "bool \<Rightarrow> nat \<Rightarrow> 'a exchange \<Rightarrow> 'a exchange option" where
  "remote_act spurious j s =
     (if xf_failed s then None
      else case xf_remote s j of
        R_READ \<Rightarrow> (case xf_inbox s j of [] \<Rightarrow> None
          | m # ms \<Rightarrow> Some (s\<lparr>xf_inbox := (xf_inbox s)(j := ms), xf_remote := (xf_remote s)(j := R_ENQ [] (snd m))\<rparr>))
      | R_ENQ [] [] \<Rightarrow> Some (s\<lparr>xf_remote := (xf_remote s)(j := R_AWAIT)\<rparr>)
      | R_ENQ [] (xs # sets) \<Rightarrow> Some (s\<lparr>xf_remote := (xf_remote s)(j := R_ENQ xs sets)\<rparr>)
      | R_ENQ (x # xs) sets \<Rightarrow> Some ((xf_enqueue x s)\<lparr>xf_remote := (xf_remote s)(j := R_ENQ xs sets)\<rparr>)
      | R_AWAIT \<Rightarrow> (let (opened, s1) = xf_wait j s in
          Some (s1\<lparr>xf_remote := (xf_remote s1)(j := (if opened then R_READ else R_WAIT))\<rparr>))
      | R_WAIT \<Rightarrow> map_option (\<lambda>s1. s1\<lparr>xf_remote := (xf_remote s1)(j := R_READ)\<rparr>) (xf_resume spurious j s))"

text \<open>The servers by their number. What server \<open>i\<close> publishes goes to all others but those in \<open>lost\<close>.\<close>

type_synonym 'a cluster = "nat \<Rightarrow> 'a exchange"

definition publish :: "nat set \<Rightarrow> nat \<Rightarrow> 'a message option \<Rightarrow> 'a cluster \<Rightarrow> 'a cluster" where
  "publish lost i out c = (case out of None \<Rightarrow> c
     | Some m \<Rightarrow> (\<lambda>k. if k = i \<or> k \<in> lost then c k else (c k)\<lparr>xf_inbox := (xf_inbox (c k))(i := xf_inbox (c k) i @ [m])\<rparr>))"

text \<open>
  What may happen: a wait on a condition variable that ends without a notification, as
  \<open>CyclicBarrier::await\<close> does not look again at what it waits for; a message that the PUB socket drops
  for a subscriber that is slow or not yet connected.
\<close>

record platform =
  pf_early :: bool
  pf_lossy :: bool

definition reliable :: platform where
  "reliable = \<lparr>pf_early = False, pf_lossy = False\<rparr>"

inductive cluster_step :: "platform \<Rightarrow> nat \<Rightarrow> 'a cluster \<Rightarrow> 'a cluster \<Rightarrow> bool" for p N where
  step_local: "i < N \<Longrightarrow> local_act w i (c i) = Some (s, out) \<Longrightarrow> w \<longrightarrow> pf_early p \<Longrightarrow> lost \<noteq> {} \<longrightarrow> pf_lossy p \<Longrightarrow>
    cluster_step p N c (publish lost i out (c(i := s)))"
| step_remote: "i < N \<Longrightarrow> j < N \<Longrightarrow> i \<noteq> j \<Longrightarrow> remote_act w j (c i) = Some s \<Longrightarrow> w \<longrightarrow> pf_early p \<Longrightarrow> cluster_step p N c (c(i := s))"

inductive_cases cluster_stepE: "cluster_step p N c c'"

lemma reliable_step_cases:
  assumes "cluster_step reliable N c c'"
  obtains (step_local) i s out where "c' = publish {} i out (c(i := s))" "i < N" "local_act False i (c i) = Some (s, out)"
    | (step_remote) i j s where "c' = c(i := s)" "i < N" "j < N" "i \<noteq> j" "remote_act False j (c i) = Some s"
  using assms by (cases rule: cluster_step.cases) (auto simp: reliable_def)

definition new_cluster :: "nat \<Rightarrow> u32 \<Rightarrow> (nat \<Rightarrow> 'a batch list) \<Rightarrow> 'a cluster" where
  "new_cluster N epoch inputs = (\<lambda>i. new_exchange N epoch (inputs i))"

inductive cluster_reach :: "platform \<Rightarrow> nat \<Rightarrow> u32 \<Rightarrow> (nat \<Rightarrow> 'a batch list) \<Rightarrow> 'a cluster \<Rightarrow> bool" for p N epoch inputs where
  reach_init: "cluster_reach p N epoch inputs (new_cluster N epoch inputs)"
| reach_next: "cluster_reach p N epoch inputs c \<Longrightarrow> cluster_step p N c c' \<Longrightarrow> cluster_reach p N epoch inputs c'"

section \<open>The input\<close>

text \<open>
  What the epoch server stamps for one server: epochs never go back, none is left out, and each
  transaction carries the epoch of its batch.
\<close>

fun stamped :: "u32 \<Rightarrow> 'a batch list \<Rightarrow> bool" where
  "stamped e [] \<longleftrightarrow> True"
| "stamped e (b # bs) \<longleftrightarrow> (fst b = e \<or> fst b = e + 1 \<and> e < e + 1) \<and> (\<forall>x \<in> set (snd b). fst x = fst b) \<and> stamped (fst b) bs"

text \<open>The sets of an epoch, and its message.\<close>

definition sets_of :: "u32 \<Rightarrow> 'a batch list \<Rightarrow> 'a etr list list" where
  "sets_of e bs = map snd (filter (\<lambda>b. fst b = e) bs)"

definition message_of :: "(nat \<Rightarrow> 'a batch list) \<Rightarrow> nat \<Rightarrow> u32 \<Rightarrow> 'a message" where
  "message_of inputs j e = (e, sets_of e (inputs j))"

section \<open>The invariant\<close>

definition arrived :: "nat \<Rightarrow> 'a exchange \<Rightarrow> bool" where
  "arrived t s \<longleftrightarrow> t \<in> set (cb_waiting (xf_barrier s))"

text \<open>The batches the local thread has not worked off, and whether it is done with the epoch.\<close>

definition pending :: "'a exchange \<Rightarrow> 'a batch list" where
  "pending s = (case xf_local s of L_AWAIT b \<Rightarrow> b # xf_input s | L_WAIT b \<Rightarrow> b # xf_input s | L_CHECK b \<Rightarrow> b # xf_input s
     | _ \<Rightarrow> xf_input s)"

definition closed :: "nat \<Rightarrow> 'a exchange \<Rightarrow> bool" where
  "closed i s \<longleftrightarrow> (\<exists>b. xf_local s = L_AWAIT b) \<or> arrived i s"

definition rounds :: "'a exchange \<Rightarrow> nat" where "rounds s = cb_calls (xf_barrier s)"

text \<open>How many messages a server has published, and how many its threads have taken.\<close>

definition sent :: "nat \<Rightarrow> 'a exchange \<Rightarrow> nat" where
  "sent i s = rounds s + (if closed i s then 1 else 0)"

definition received :: "nat \<Rightarrow> 'a exchange \<Rightarrow> nat" where
  "received j s = rounds s + (if xf_remote s j \<noteq> R_READ \<and> (xf_remote s j = R_WAIT \<longrightarrow> arrived j s) then 1 else 0)"

definition barrier_inv :: "nat \<Rightarrow> nat \<Rightarrow> 'a exchange \<Rightarrow> bool" where
  "barrier_inv N i s \<longleftrightarrow> cb_parties (xf_barrier s) = of_nat N \<and> unat (cb_waits (xf_barrier s)) = length (cb_waiting (xf_barrier s))
     \<and> length (cb_waiting (xf_barrier s)) < N \<and> distinct (cb_waiting (xf_barrier s))
     \<and> (\<forall>t \<in> set (cb_waiting (xf_barrier s)). t < N \<and> (if t = i then \<exists>b. xf_local s = L_WAIT b else xf_remote s t = R_WAIT))"

definition add_all :: "'a list list \<Rightarrow> 'a list \<Rightarrow> 'a list list" where
  "add_all sets xs = butlast sets @ [last sets @ xs]"

definition epoch_sets :: "'a exchange \<Rightarrow> 'a etr list list" where
  "epoch_sets s = (case xf_local s of L_ENQ xs \<Rightarrow> add_all (xf_batch s) xs | _ \<Rightarrow> xf_batch s)"

text \<open>The epoch of the last batch.\<close>

definition last_epoch :: "u32 \<Rightarrow> 'a batch list \<Rightarrow> u32" where
  "last_epoch e bs = last (e # map fst bs)"

definition local_inv :: "u32 \<Rightarrow> nat \<Rightarrow> 'a batch list \<Rightarrow> 'a exchange \<Rightarrow> bool" where
  "local_inv e0 i bs0 s \<longleftrightarrow> stamped (xf_epoch s) (pending s)
     \<and> last_epoch (xf_epoch s) (pending s) = last_epoch e0 bs0
     \<and> (\<forall>e > xf_epoch s. sets_of e bs0 = sets_of e (pending s))
     \<and> (if closed i s then xf_epoch s < fst (hd (pending s)) \<and> xf_batch s = []
        else sets_of (xf_epoch s) bs0 = epoch_sets s @ sets_of (xf_epoch s) (pending s))
     \<and> (case xf_local s of L_CHECK b \<Rightarrow> fst b = xf_epoch s
        | L_WAIT b \<Rightarrow> arrived i s \<or> fst b = xf_epoch s
        | L_ENQ xs \<Rightarrow> xf_batch s \<noteq> [] \<and> (\<forall>x \<in> set xs. fst x = xf_epoch s) | _ \<Rightarrow> True)"

definition remote_todo :: "'a exchange \<Rightarrow> nat \<Rightarrow> 'a etr list" where
  "remote_todo s j = (case xf_remote s j of R_ENQ xs sets \<Rightarrow> xs @ concat sets | _ \<Rightarrow> [])"

definition local_todo :: "'a exchange \<Rightarrow> 'a etr list" where
  "local_todo s = (case xf_local s of L_ENQ xs \<Rightarrow> xs | _ \<Rightarrow> []) @ concat (map snd (pending s))"

definition round_message :: "u32 \<Rightarrow> (nat \<Rightarrow> 'a batch list) \<Rightarrow> nat \<Rightarrow> nat \<Rightarrow> 'a message" where
  "round_message e0 inputs j k = message_of inputs j (e0 + of_nat k)"

definition remote_inv :: "u32 \<Rightarrow> (nat \<Rightarrow> 'a batch list) \<Rightarrow> nat \<Rightarrow> nat \<Rightarrow> 'a exchange \<Rightarrow> bool" where
  "remote_inv e0 inputs n j s \<longleftrightarrow> xf_inbox s j = map (round_message e0 inputs j) [received j s..<n]
     \<and> received j s \<le> n \<and> (\<forall>x \<in> set (remote_todo s j). fst x = xf_epoch s)"

definition queue_inv :: "nat \<Rightarrow> u32 \<Rightarrow> (nat \<Rightarrow> 'a batch list) \<Rightarrow> nat \<Rightarrow> 'a exchange \<Rightarrow> bool" where
  "queue_inv N e0 inputs i s \<longleftrightarrow>
     mset (xf_queue s) + mset (local_todo s) + (\<Sum>j \<in> {..<N} - {i}. mset (remote_todo s j))
       = mset (concat (map snd (inputs i)))
         + (\<Sum>j \<in> {..<N} - {i}. \<Sum>k < received j s. mset (concat (snd (round_message e0 inputs j k))))
     \<and> sorted (map fst (xf_queue s)) \<and> (\<forall>x \<in> set (xf_queue s). fst x \<le> xf_epoch s)"

definition server_inv :: "nat \<Rightarrow> u32 \<Rightarrow> (nat \<Rightarrow> 'a batch list) \<Rightarrow> (nat \<Rightarrow> nat) \<Rightarrow> nat \<Rightarrow> 'a exchange \<Rightarrow> bool" where
  "server_inv N e0 inputs S i s \<longleftrightarrow> barrier_inv N i s \<and> local_inv e0 i (inputs i) s
     \<and> (\<forall>j \<in> {..<N} - {i}. remote_inv e0 inputs (S j) j s) \<and> queue_inv N e0 inputs i s
     \<and> unat (xf_epoch s) = unat e0 + rounds s \<and> \<not> xf_failed s"

definition cluster_inv :: "nat \<Rightarrow> u32 \<Rightarrow> (nat \<Rightarrow> 'a batch list) \<Rightarrow> 'a cluster \<Rightarrow> bool" where
  "cluster_inv N e0 inputs c \<longleftrightarrow> (\<forall>i < N. server_inv N e0 inputs (\<lambda>j. sent j (c j)) i (c i))"

section \<open>Lemmas\<close>

lemma sets_of_simps [simp]:
  "sets_of e [] = []"
  "sets_of e (b # bs) = (if fst b = e then snd b # sets_of e bs else sets_of e bs)"
  by (simp_all add: sets_of_def)

lemma last_epoch_simps [simp]: "last_epoch e [] = e" "last_epoch e (b # bs) = last_epoch (fst b) bs"
  by (simp_all add: last_epoch_def)

lemma stamped_ge: "stamped e bs \<Longrightarrow> b \<in> set bs \<Longrightarrow> e \<le> fst b"
proof (induction e bs rule: stamped.induct)
  case (2 e a bs)
  have "e \<le> fst a" using 2(2) by auto
  then show ?case using 2 by (auto intro: order.trans)
qed simp

lemma stamped_sets: "stamped e bs \<Longrightarrow> xs \<in> set (sets_of d bs) \<Longrightarrow> x \<in> set xs \<Longrightarrow> fst x = d"
  by (induction e bs rule: stamped.induct) (auto split: if_splits)

lemma stamped_below: "stamped e bs \<Longrightarrow> d < e \<Longrightarrow> sets_of d bs = []"
  using stamped_ge by (fastforce simp: sets_of_def filter_empty_conv)

lemma stamped_next: "stamped e (b # bs) \<Longrightarrow> e < fst b \<Longrightarrow> fst b = e + 1 \<and> stamped (e + 1) bs"
  by auto

lemma add_all_simps: "sets \<noteq> [] \<Longrightarrow> add_all sets [] = sets" "add_all (add_transaction sets x) xs = add_all sets (x # xs)"
  "add_transaction sets x \<noteq> []" "add_all (sets @ [[]]) xs = sets @ [xs]"
  by (auto simp: add_all_def add_transaction_def)

lemma wait_cases:
  assumes inv: "barrier_inv N i s" and t: "\<not> arrived t s" "t < N" and N: "N < 2 ^ 32"
  obtains (wait) "xf_wait t s = (False, s\<lparr>xf_barrier := xf_barrier s\<lparr>cb_waits := cb_waits (xf_barrier s) + 1,
        cb_waiting := cb_waiting (xf_barrier s) @ [t]\<rparr>\<rparr>)"
      "unat (cb_waits (xf_barrier s) + 1) = Suc (length (cb_waiting (xf_barrier s)))"
      "Suc (length (cb_waiting (xf_barrier s))) < N"
  | (opens) "xf_wait t s = (True, s\<lparr>xf_epoch := xf_epoch s + 1,
        xf_barrier := xf_barrier s\<lparr>cb_waits := 0, cb_calls := cb_calls (xf_barrier s) + 1, cb_waiting := []\<rparr>\<rparr>)"
      "set (cb_waiting (xf_barrier s)) = {..<N} - {t}"
proof -
  let ?b = "xf_barrier s"
  let ?n = "length (cb_waiting ?b)"
  have b: "cb_parties ?b = of_nat N" "unat (cb_waits ?b) = ?n" "?n < N" "distinct (cb_waiting ?b)" "set (cb_waiting ?b) \<subseteq> {..<N}"
    using inv by (auto simp: barrier_inv_def)
  have uN: "unat (of_nat N :: u32) = N" using N by (simp add: unat_of_nat)
  have lt: "cb_waits ?b < cb_parties ?b" using b(1-3) uN by (simp add: word_less_nat_alt)
  have suc: "unat (cb_waits ?b + 1) = Suc ?n" using unat_succ [OF lt] b(2) by simp
  have full: "cb_waits ?b + 1 \<ge> cb_parties ?b \<longleftrightarrow> N \<le> Suc ?n" using suc b(1) uN by (simp add: word_le_nat_alt)
  show ?thesis
  proof (cases "Suc ?n < N")
    case True
    then show ?thesis using wait lt full suc by (simp add: xf_wait_def barrier_await_def Let_def)
  next
    case False
    have "card (set (cb_waiting ?b)) = card ({..<N} - {t})"
      using False b(3,4) t(2) by (simp add: distinct_card)
    then have "set (cb_waiting ?b) = {..<N} - {t}"
      using b(5) t(1) by (intro card_subset_eq) (auto simp: arrived_def)
    then show ?thesis using opens lt full False by (simp add: xf_wait_def barrier_await_def Let_def)
  qed
qed

lemma closed_simps [simp]: "xf_local s = L_READ \<Longrightarrow> \<not> arrived i s \<Longrightarrow> \<not> closed i s"
  by (simp add: closed_def)

lemma arrived_local: "barrier_inv N i s \<Longrightarrow> arrived i s \<Longrightarrow> \<exists>b. xf_local s = L_WAIT b"
  by (auto simp: barrier_inv_def arrived_def)

lemma arrived_remote: "barrier_inv N i s \<Longrightarrow> arrived j s \<Longrightarrow> j \<noteq> i \<Longrightarrow> xf_remote s j = R_WAIT"
  by (auto simp: barrier_inv_def arrived_def)


text \<open>A step of the local thread outside the barrier.\<close>

definition queue_ok :: "'a exchange \<Rightarrow> bool" where
  "queue_ok s \<longleftrightarrow> sorted (map fst (xf_queue s)) \<and> (\<forall>x \<in> set (xf_queue s). fst x \<le> xf_epoch s)"

lemma queue_ok_same: "queue_ok s \<Longrightarrow> xf_queue s' = xf_queue s \<Longrightarrow> xf_epoch s' = xf_epoch s \<Longrightarrow> queue_ok s'"
  by (simp add: queue_ok_def)

lemma queue_ok_snoc: "queue_ok s \<Longrightarrow> xf_queue s' = xf_queue s @ [x] \<Longrightarrow> fst x = xf_epoch s \<Longrightarrow> xf_epoch s' = xf_epoch s \<Longrightarrow> queue_ok s'"
  by (simp add: queue_ok_def sorted_append ball_Un)

lemma server_inv_local:
  assumes inv: "server_inv N e0 inputs S i s" and na: "\<not> arrived i s"
    and s': "s' = s\<lparr>xf_input := bs, xf_local := l, xf_batch := sets, xf_queue := q\<rparr>"
    and loc: "local_inv e0 i (inputs i) s'" and q: "mset q + mset (local_todo s') = mset (xf_queue s) + mset (local_todo s)" "queue_ok s'"
  shows "server_inv N e0 inputs S i s'"
proof -
  have same: "xf_barrier s' = xf_barrier s" "xf_remote s' = xf_remote s" "xf_inbox s' = xf_inbox s" "xf_epoch s' = xf_epoch s"
    "xf_failed s' = xf_failed s" "xf_queue s' = q" by (simp_all add: s')
  have frame: "received j s' = received j s" "remote_todo s' j = remote_todo s j" "rounds s' = rounds s" for j
    by (simp_all add: same received_def remote_todo_def rounds_def arrived_def)
  have "barrier_inv N i s'" using inv na by (auto simp: server_inv_def barrier_inv_def arrived_def same)
  moreover have "queue_inv N e0 inputs i s'" using inv q by (simp add: server_inv_def queue_inv_def queue_ok_def frame same)
  ultimately show ?thesis using inv loc by (simp add: server_inv_def remote_inv_def frame same)
qed

lemma local_read:
  assumes inv: "server_inv N e0 inputs S i s" and pc: "xf_local s = L_READ" "xf_input s = b # bs" and st: "stamped e0 (inputs i)"
    and act: "local_act False i s = Some (s', out)"
  shows "server_inv N e0 inputs S i s' \<and> (case out of None \<Rightarrow> sent i s' = sent i s
    | Some m \<Rightarrow> sent i s' = Suc (sent i s) \<and> m = round_message e0 inputs i (sent i s))"
proof -
  have ok: "barrier_inv N i s" "local_inv e0 i (inputs i) s" "queue_inv N e0 inputs i s"
    "unat (xf_epoch s) = unat e0 + rounds s" "\<not> xf_failed s"
    using inv by (auto simp: server_inv_def)
  have na: "\<not> arrived i s" using arrived_local [OF ok(1)] pc by auto
  have e: "xf_epoch s = e0 + of_nat (rounds s)" using arg_cong [OF ok(4), of "of_nat :: nat \<Rightarrow> u32"] by simp
  have l: "stamped (xf_epoch s) (b # bs)" "sets_of (xf_epoch s) (inputs i) = xf_batch s @ sets_of (xf_epoch s) (b # bs)"
    "\<forall>e > xf_epoch s. sets_of e (inputs i) = sets_of e (b # bs)" "last_epoch (xf_epoch s) (b # bs) = last_epoch e0 (inputs i)"
    using ok(2) pc na by (auto simp: local_inv_def closed_def pending_def epoch_sets_def)
  have qok: "queue_ok s" using ok(3) by (simp add: queue_ok_def queue_inv_def)
  show ?thesis
  proof (cases "fst b > xf_epoch s")
    case True
    note n = stamped_next [OF l(1) True]
    have none: "sets_of (xf_epoch s) (b # bs) = []" using stamped_below [of "xf_epoch s + 1" bs "xf_epoch s"] n True by auto
    have s': "s' = s\<lparr>xf_input := bs, xf_local := L_AWAIT b, xf_batch := [], xf_queue := xf_queue s\<rparr>"
      and out: "out = Some (xf_epoch s, xf_batch s)"
      using act pc ok(5) True by (auto simp: local_act_def)
    have "server_inv N e0 inputs S i s'"
      using l(1,3,4) n True qok pc
      by (intro server_inv_local [OF inv na s']) (simp_all add: s' local_inv_def closed_def pending_def local_todo_def queue_ok_def)
    moreover have "sent i s' = Suc (sent i s)" using pc na by (simp add: s' sent_def closed_def rounds_def)
    moreover have "round_message e0 inputs i (sent i s) = (xf_epoch s, xf_batch s)"
      using pc na l(2) none by (simp add: round_message_def message_of_def sent_def closed_def e [symmetric])
    ultimately show ?thesis by (simp add: out)
  next
    case False
    then have b: "fst b = xf_epoch s" using l(1) by (auto simp: not_less)
    have s': "s' = s\<lparr>xf_input := bs, xf_local := L_CHECK b, xf_batch := xf_batch s, xf_queue := xf_queue s\<rparr>" and out: "out = None"
      using act pc ok(5) False by (auto simp: local_act_def)
    have "server_inv N e0 inputs S i s'"
      using l b qok pc na
      by (intro server_inv_local [OF inv na s'])
        (simp_all add: s' local_inv_def closed_def pending_def local_todo_def queue_ok_def epoch_sets_def arrived_def)
    moreover have "sent i s' = sent i s" using pc by (simp add: s' sent_def closed_def rounds_def arrived_def)
    ultimately show ?thesis by (simp add: out)
  qed
qed


lemma sorted_snoc_eq: "sorted xs \<Longrightarrow> \<forall>x \<in> set xs. x \<le> y \<Longrightarrow> sorted (xs @ [y])"
  by (simp add: sorted_append)

lemma local_inside:
  assumes inv: "server_inv N e0 inputs S i s" and pc: "xf_local s \<noteq> L_READ" "\<forall>b. xf_local s \<noteq> L_AWAIT b"
    and act: "local_act False i s = Some (s', out)"
  shows "server_inv N e0 inputs S i s' \<and> out = None \<and> sent i s' = sent i s"
proof -
  have ok: "barrier_inv N i s" "local_inv e0 i (inputs i) s" "queue_inv N e0 inputs i s" "\<not> xf_failed s"
    using inv by (auto simp: server_inv_def)
  have na: "\<not> arrived i s"
    using act arrived_local [OF ok(1)] ok(4) by (auto simp: local_act_def xf_resume_def arrived_def)
  have qok: "queue_ok s" using ok(3) by (simp add: queue_ok_def queue_inv_def)
  have keep: "sent i s' = sent i s" if "xf_barrier s' = xf_barrier s" "\<forall>b. xf_local s' \<noteq> L_AWAIT b" for s'
    using that pc(2) by (simp add: sent_def closed_def rounds_def arrived_def)
  have nc: "\<not> closed i s" using na pc(2) by (simp add: closed_def)
  have li: "stamped (xf_epoch s) (pending s)" "\<forall>e > xf_epoch s. sets_of e (inputs i) = sets_of e (pending s)"
    "sets_of (xf_epoch s) (inputs i) = epoch_sets s @ sets_of (xf_epoch s) (pending s)"
    "last_epoch (xf_epoch s) (pending s) = last_epoch e0 (inputs i)"
    using ok(2) nc by (auto simp: local_inv_def)
  note defs = local_inv_def closed_def pending_def local_todo_def queue_ok_def epoch_sets_def arrived_def
  show ?thesis
  proof (cases "xf_local s")
    case (L_WAIT b)
    have b: "fst b = xf_epoch s" using ok(2) na L_WAIT by (simp add: local_inv_def)
    have s': "s' = s\<lparr>xf_input := xf_input s, xf_local := L_CHECK b, xf_batch := xf_batch s, xf_queue := xf_queue s\<rparr>" and out: "out = None"
      using act L_WAIT ok(4) na by (auto simp: local_act_def xf_resume_def arrived_def)
    have "server_inv N e0 inputs S i s'"
      using li qok na b L_WAIT by (intro server_inv_local [OF inv na s']) (simp_all add: s' defs)
    then show ?thesis using keep [of s'] out by (simp add: s')
  next
    case (L_CHECK b)
    have b: "fst b = xf_epoch s" using ok(2) na L_CHECK by (simp add: local_inv_def)
    have s': "s' = s\<lparr>xf_input := xf_input s, xf_local := L_ENQ (snd b), xf_batch := xf_batch s @ [[]], xf_queue := xf_queue s\<rparr>"
      and out: "out = None"
      using act L_CHECK ok(4) b by (auto simp: local_act_def)
    have "server_inv N e0 inputs S i s'"
      using li qok na b L_CHECK by (intro server_inv_local [OF inv na s']) (simp_all add: s' defs add_all_simps)
    then show ?thesis using keep [of s'] out by (simp add: s')
  next
    case (L_ENQ xs)
    have x: "xf_batch s \<noteq> []" "\<forall>x \<in> set xs. fst x = xf_epoch s" using ok(2) L_ENQ by (simp_all add: local_inv_def)
    show ?thesis
    proof (cases xs)
      case Nil
      have s': "s' = s\<lparr>xf_input := xf_input s, xf_local := L_READ, xf_batch := xf_batch s, xf_queue := xf_queue s\<rparr>" and out: "out = None"
        using act L_ENQ ok(4) Nil by (auto simp: local_act_def)
      have "server_inv N e0 inputs S i s'"
        using li qok na x Nil L_ENQ by (intro server_inv_local [OF inv na s']) (simp_all add: s' defs add_all_simps)
      then show ?thesis using keep [of s'] out by (simp add: s')
    next
      case (Cons y ys)
      have s': "s' = s\<lparr>xf_input := xf_input s, xf_local := L_ENQ ys, xf_batch := add_transaction (xf_batch s) y,
          xf_queue := xf_queue s @ [y]\<rparr>" and out: "out = None"
        using act L_ENQ ok(4) Cons x by (auto simp: local_act_def xf_enqueue_def)
      have "server_inv N e0 inputs S i s'"
        using li qok na x Cons L_ENQ
        by (intro server_inv_local [OF inv na s']) (auto simp: s' defs add_all_simps sorted_append)
      then show ?thesis using keep [of s'] out by (simp add: s')
    qed
  qed (use pc in auto)
qed

text \<open>A step of another thread outside the barrier.\<close>

lemma mset_exchange:
  assumes "Q + L + (T + A) = M + (R + B)" "q + T' + R = Q + T + (R' :: 'a multiset)"
  shows "q + L + (T' + A) = M + (R' + B)"
proof -
  have "q + L + (T' + A) + R = (q + T' + R) + (L + A)" by (simp add: ac_simps)
  also have "\<dots> = (Q + L + (T + A)) + R'" unfolding assms(2) by (simp add: ac_simps)
  also have "\<dots> = M + (R' + B) + R" unfolding assms(1) by (simp add: ac_simps)
  finally show ?thesis by simp
qed

lemma server_inv_remote:
  assumes inv: "server_inv N e0 inputs S i s" and j: "j \<in> {..<N} - {i}" "\<not> arrived j s"
    and s': "s' = s\<lparr>xf_inbox := (xf_inbox s)(j := ms), xf_remote := (xf_remote s)(j := r), xf_queue := q\<rparr>"
    and rem: "remote_inv e0 inputs (S j) j s'" "queue_ok s'"
      "mset q + mset (remote_todo s' j) + (\<Sum>k < received j s. mset (concat (snd (round_message e0 inputs j k))))
       = mset (xf_queue s) + mset (remote_todo s j) + (\<Sum>k < received j s'. mset (concat (snd (round_message e0 inputs j k))))"
  shows "server_inv N e0 inputs S i s' \<and> sent i s' = sent i s"
proof -
  have same: "xf_barrier s' = xf_barrier s" "xf_local s' = xf_local s" "xf_input s' = xf_input s" "xf_batch s' = xf_batch s"
    "xf_epoch s' = xf_epoch s" "xf_failed s' = xf_failed s" "xf_queue s' = q" by (simp_all add: s')
  have other: "xf_remote s' k = xf_remote s k" "xf_inbox s' k = xf_inbox s k" if "k \<noteq> j" for k using that by (simp_all add: s')
  have frame: "arrived t s' = arrived t s" "closed i s' = closed i s" "rounds s' = rounds s" "sent i s' = sent i s"
    "pending s' = pending s" "epoch_sets s' = epoch_sets s" "local_todo s' = local_todo s" for t
    by (simp_all add: same arrived_def closed_def rounds_def sent_def pending_def epoch_sets_def local_todo_def split: local_pc.split)
  have oth: "received k s' = received k s" "remote_todo s' k = remote_todo s k" if "k \<noteq> j" for k
    using other [OF that] by (simp_all add: received_def remote_todo_def frame)
  have rinv: "remote_inv e0 inputs (S k) k s'" if "k \<in> {..<N} - {i}" for k
    using that inv rem(1) other oth by (cases "k = j") (auto simp: server_inv_def remote_inv_def same)
  have "barrier_inv N i s'"
    using inv j by (auto simp: server_inv_def barrier_inv_def same arrived_def s')
  moreover have "local_inv e0 i (inputs i) s'" using inv by (cases "xf_local s") (simp_all add: server_inv_def local_inv_def same frame)
  moreover have "queue_inv N e0 inputs i s'"
  proof -
    let ?A = "{..<N} - {i} - {j}"
    have split: "(\<Sum>k \<in> {..<N} - {i}. f k) = f j + (\<Sum>k \<in> ?A. f k)" for f :: "nat \<Rightarrow> 'a etr multiset"
      using j(1) by (intro sum.remove) auto
    have eq: "(\<Sum>k \<in> ?A. mset (remote_todo s' k)) = (\<Sum>k \<in> ?A. mset (remote_todo s k))"
      "(\<Sum>k \<in> ?A. \<Sum>n < received k s'. mset (concat (snd (round_message e0 inputs k n))))
        = (\<Sum>k \<in> ?A. \<Sum>n < received k s. mset (concat (snd (round_message e0 inputs k n))))"
      using oth by (auto intro!: sum.cong)
    show ?thesis using inv rem(2,3) unfolding server_inv_def queue_inv_def queue_ok_def split eq frame same
      by (auto intro: mset_exchange)
  qed
  ultimately show ?thesis using inv rinv frame by (simp add: server_inv_def same)
qed


text \<open>What the messages of a server hold.\<close>

lemma message_epochs:
  assumes "stamped e0 (inputs j)" "x \<in> set (concat (snd (round_message e0 inputs j k)))"
  shows "fst x = e0 + of_nat k"
  using assms by (auto simp: round_message_def message_of_def dest: stamped_sets)

lemma remote_inside:
  assumes inv: "server_inv N e0 inputs S i s" and j: "j \<in> {..<N} - {i}" and pc: "xf_remote s j \<noteq> R_AWAIT"
    and st: "stamped e0 (inputs j)" and act: "remote_act False j s = Some s'"
  shows "server_inv N e0 inputs S i s' \<and> sent i s' = sent i s"
proof -
  have ok: "remote_inv e0 inputs (S j) j s" "barrier_inv N i s" "queue_ok s" "\<not> xf_failed s" "unat (xf_epoch s) = unat e0 + rounds s"
    using inv j by (auto simp: server_inv_def queue_inv_def queue_ok_def)
  have na: "\<not> arrived j s"
    using act arrived_remote [OF ok(2), of j] j ok(4) by (auto simp: remote_act_def xf_resume_def arrived_def)
  note step = server_inv_remote [OF inv j na]
  note defs = remote_inv_def received_def remote_todo_def rounds_def arrived_def queue_ok_def
  have e: "xf_epoch s = e0 + of_nat (rounds s)" using arg_cong [OF ok(5), of "of_nat :: nat \<Rightarrow> u32"] by simp
  show ?thesis
  proof (cases "xf_remote s j")
    case R_READ
    have rec: "received j s = rounds s" using R_READ by (simp add: received_def)
    obtain m ms where m: "xf_inbox s j = m # ms"
      and s': "s' = s\<lparr>xf_inbox := (xf_inbox s)(j := ms), xf_remote := (xf_remote s)(j := R_ENQ [] (snd m)), xf_queue := xf_queue s\<rparr>"
      using act R_READ ok(4) by (auto simp: remote_act_def split: list.splits)
    have inbox: "m # ms = map (round_message e0 inputs j) [rounds s..<S j]" "rounds s \<le> S j"
      using ok(1) rec m by (auto simp: remote_inv_def)
    then have lt: "rounds s < S j" by (metis list.distinct(1) list.map_disc_iff upt_eq_Nil_conv not_less)
    then have m1: "m = round_message e0 inputs j (rounds s)" "ms = map (round_message e0 inputs j) [Suc (rounds s)..<S j]"
      using inbox(1) by (simp_all add: upt_conv_Cons)
    have rec': "received j s' = Suc (rounds s)" "remote_todo s' j = concat (snd m)"
      by (simp_all add: s' received_def rounds_def remote_todo_def)
    have "\<forall>x \<in> set (concat (snd m)). fst x = xf_epoch s"
      using message_epochs [of e0 inputs j _ "rounds s", OF st] unfolding m1(1) e by blast
    then have "remote_inv e0 inputs (S j) j s'"
      unfolding remote_inv_def rec' using lt m1(2) by (simp add: s')
    moreover have "queue_ok s'" "remote_todo s j = []" using R_READ by (auto simp: s' remote_todo_def intro: queue_ok_same [OF ok(3)])
    ultimately show ?thesis by (intro step [OF s']) (simp_all add: rec rec' m1(1))
  next
    case (R_ENQ xs sets)
    have x: "\<forall>x \<in> set (xs @ concat sets). fst x = xf_epoch s" using ok(1) R_ENQ by (simp add: remote_inv_def remote_todo_def)
    obtain r q where s': "s' = s\<lparr>xf_inbox := (xf_inbox s)(j := xf_inbox s j), xf_remote := (xf_remote s)(j := r), xf_queue := q\<rparr>"
      and r: "r \<noteq> R_READ" "r \<noteq> R_WAIT"
      and q: "mset q + mset (remote_todo s' j) = mset (xf_queue s) + mset (xs @ concat sets)"
        "set (remote_todo s' j) \<subseteq> set (xs @ concat sets)" "queue_ok s'"
    proof (cases xs)
      case Nil
      show thesis
      proof (cases sets)
        case Nil
        show thesis using act R_ENQ ok(3,4) \<open>xs = []\<close> Nil
          by (intro that [where r = R_AWAIT and q = "xf_queue s"] queue_ok_same [OF ok(3)]) (auto simp: remote_act_def remote_todo_def)
      next
        case (Cons ys yss)
        show thesis using act R_ENQ ok(3,4) \<open>xs = []\<close> Cons
          by (intro that [where r = "R_ENQ ys yss" and q = "xf_queue s"] queue_ok_same [OF ok(3)]) (auto simp: remote_act_def remote_todo_def)
      qed
    next
      case (Cons y ys)
      show thesis using act R_ENQ ok(3,4) Cons x
        by (intro that [where r = "R_ENQ ys sets" and q = "xf_queue s @ [y]"])
          (auto simp: remote_act_def remote_todo_def xf_enqueue_def intro: queue_ok_snoc [OF ok(3)])
    qed
    have rec: "received j s' = received j s" using R_ENQ r by (simp add: received_def s' rounds_def)
    have same: "xf_inbox s' j = xf_inbox s j" "xf_epoch s' = xf_epoch s" by (simp_all add: s')
    have "\<forall>x \<in> set (remote_todo s' j). fst x = xf_epoch s" using q(2) x by blast
    then have "remote_inv e0 inputs (S j) j s'" using ok(1) by (simp add: remote_inv_def rec same)
    moreover have "mset (remote_todo s j) = mset (xs @ concat sets)" by (simp add: remote_todo_def R_ENQ)
    ultimately show ?thesis using q(1,3) by (intro step [OF s']) (simp_all add: rec)
  next
    case R_WAIT
    have s': "s' = s\<lparr>xf_inbox := (xf_inbox s)(j := xf_inbox s j), xf_remote := (xf_remote s)(j := R_READ), xf_queue := xf_queue s\<rparr>"
      using act R_WAIT ok(4) na by (auto simp: remote_act_def xf_resume_def arrived_def)
    have rec: "received j s' = received j s" using R_WAIT na by (simp add: received_def s' rounds_def)
    have same: "xf_inbox s' j = xf_inbox s j" "remote_todo s' j = []" by (simp_all add: s' remote_todo_def)
    have "remote_inv e0 inputs (S j) j s'" using ok(1) by (simp add: remote_inv_def rec same)
    moreover have "queue_ok s'" "remote_todo s' j = remote_todo s j"
      using R_WAIT by (auto simp: s' remote_todo_def intro: queue_ok_same [OF ok(3)])
    ultimately show ?thesis by (intro step [OF s']) (simp_all add: rec)
  qed (use pc in auto)
qed


text \<open>An arrival at the barrier: the thread waits, or it opens the barrier and all go on in the next epoch.\<close>

definition at_await :: "nat \<Rightarrow> nat \<Rightarrow> 'a exchange \<Rightarrow> bool" where
  "at_await i t s \<longleftrightarrow> (if t = i then \<exists>b. xf_local s = L_AWAIT b else xf_remote s t = R_AWAIT)"

definition same_work :: "'a exchange \<Rightarrow> 'a exchange \<Rightarrow> bool" where
  "same_work s s' \<longleftrightarrow> xf_input s' = xf_input s \<and> xf_batch s' = xf_batch s \<and> xf_inbox s' = xf_inbox s \<and> xf_queue s' = xf_queue s
     \<and> xf_failed s' = xf_failed s"

lemma at_await_not_arrived: "barrier_inv N i s \<Longrightarrow> at_await i t s \<Longrightarrow> \<not> arrived t s"
  by (auto simp: barrier_inv_def at_await_def arrived_def split: if_splits)

lemma await_waits:
  assumes inv: "server_inv N e0 inputs S i s" and t: "t < N" "at_await i t s"
    and b: "xf_barrier s' = xf_barrier s\<lparr>cb_waits := cb_waits (xf_barrier s) + 1, cb_waiting := cb_waiting (xf_barrier s) @ [t]\<rparr>"
      "unat (cb_waits (xf_barrier s) + 1) = Suc (length (cb_waiting (xf_barrier s)))" "Suc (length (cb_waiting (xf_barrier s))) < N"
    and s': "same_work s s'" "xf_epoch s' = xf_epoch s"
      "xf_local s' = (if t = i then (case xf_local s of L_AWAIT b \<Rightarrow> L_WAIT b | l \<Rightarrow> l) else xf_local s)"
      "xf_remote s' = (if t = i then xf_remote s else (xf_remote s)(t := R_WAIT))"
  shows "server_inv N e0 inputs S i s' \<and> sent i s' = sent i s"
proof -
  have ok: "barrier_inv N i s" "local_inv e0 i (inputs i) s" "\<forall>j \<in> {..<N} - {i}. remote_inv e0 inputs (S j) j s" "queue_inv N e0 inputs i s"
    "unat (xf_epoch s) = unat e0 + rounds s" "\<not> xf_failed s"
    using inv by (auto simp: server_inv_def)
  note na = at_await_not_arrived [OF ok(1) t(2)]
  have same: "xf_input s' = xf_input s" "xf_batch s' = xf_batch s" "xf_inbox s' = xf_inbox s" "xf_queue s' = xf_queue s" "xf_failed s' = xf_failed s"
    using s'(1) by (simp_all add: same_work_def)
  have arr: "arrived k s' \<longleftrightarrow> k = t \<or> arrived k s" for k by (auto simp: arrived_def b(1))
  have frame: "rounds s' = rounds s" "received j s' = received j s" "remote_todo s' j = remote_todo s j" if "j \<noteq> i" for j
    using t(2) na that by (auto simp: rounds_def received_def remote_todo_def arr s'(4) at_await_def b(1))
  have r: "rounds s' = rounds s" by (simp add: rounds_def b(1))
  have loc: "closed i s' = closed i s" "pending s' = pending s" "epoch_sets s' = epoch_sets s" "local_todo s' = local_todo s"
    using t(2) by (auto simp: closed_def arr pending_def epoch_sets_def local_todo_def s'(3) same at_await_def split: if_splits local_pc.splits)
  have "barrier_inv N i s'"
    using ok(1) na b(2,3) t s'(3,4) by (auto simp: barrier_inv_def b(1) arrived_def at_await_def)
  moreover have "local_inv e0 i (inputs i) s'"
    using ok(2) t(2) by (cases "xf_local s") (auto simp: local_inv_def loc s'(2,3) same arr at_await_def)
  moreover have "\<forall>j \<in> {..<N} - {i}. remote_inv e0 inputs (S j) j s'"
    using ok(3) frame by (auto simp: remote_inv_def same s'(2))
  moreover have "queue_inv N e0 inputs i s'" using ok(4) frame by (simp add: queue_inv_def loc same s'(2))
  ultimately show ?thesis using ok(5,6) by (simp add: server_inv_def r s'(2) same sent_def loc)
qed

lemma await_opens:
  assumes inv: "server_inv N e0 inputs S i s" and t: "t < N" "at_await i t s" "i < N"
    and b: "xf_barrier s' = xf_barrier s\<lparr>cb_waits := 0, cb_calls := cb_calls (xf_barrier s) + 1, cb_waiting := []\<rparr>"
      "set (cb_waiting (xf_barrier s)) = {..<N} - {t}"
    and s': "same_work s s'" "xf_epoch s' = xf_epoch s + 1"
      "xf_local s' = (if t = i then (case xf_local s of L_AWAIT b \<Rightarrow> L_CHECK b | l \<Rightarrow> l) else xf_local s)"
      "xf_remote s' = (if t = i then xf_remote s else (xf_remote s)(t := R_READ))"
  shows "server_inv N e0 inputs S i s' \<and> sent i s' = sent i s"
proof -
  have ok: "barrier_inv N i s" "local_inv e0 i (inputs i) s" "\<forall>j \<in> {..<N} - {i}. remote_inv e0 inputs (S j) j s" "queue_inv N e0 inputs i s"
    "unat (xf_epoch s) = unat e0 + rounds s" "\<not> xf_failed s"
    using inv by (auto simp: server_inv_def)
  have same: "xf_input s' = xf_input s" "xf_batch s' = xf_batch s" "xf_inbox s' = xf_inbox s" "xf_queue s' = xf_queue s" "xf_failed s' = xf_failed s"
    using s'(1) by (simp_all add: same_work_def)
  have arr: "\<not> arrived k s'" for k by (simp add: arrived_def b(1))
  have old: "arrived k s \<longleftrightarrow> k \<noteq> t" if "k < N" for k using that b(2) by (auto simp: arrived_def)
  have r: "rounds s' = Suc (rounds s)" by (simp add: rounds_def b(1))
  have frame: "received j s' = received j s" "remote_todo s' j = []" "remote_todo s j = []" if "j \<in> {..<N} - {i}" for j
    using that t(2) old [of j] arrived_remote [OF ok(1), of j]
    by (auto simp: received_def remote_todo_def arr r s'(4) at_await_def split: if_splits)
  obtain c where l: "xf_local s = L_AWAIT c \<and> t = i \<or> xf_local s = L_WAIT c \<and> t \<noteq> i" and cl: "closed i s"
    using t(2,3) old [of i] arrived_local [OF ok(1)] by (auto simp: closed_def at_await_def split: if_splits)
  have l': "xf_local s' = L_CHECK c \<or> xf_local s' = L_WAIT c" using l s'(3) by auto
  have pend: "pending s = c # xf_input s" "pending s' = pending s" "\<not> closed i s'" "local_todo s' = local_todo s" "epoch_sets s' = xf_batch s"
    using l l' by (auto simp: pending_def closed_def arr same local_todo_def epoch_sets_def)
  have st: "stamped (xf_epoch s) (c # xf_input s)" "xf_epoch s < fst c" "xf_batch s = []"
    "\<forall>e > xf_epoch s. sets_of e (inputs i) = sets_of e (c # xf_input s)"
    "last_epoch (xf_epoch s) (c # xf_input s) = last_epoch e0 (inputs i)"
    using ok(2) cl by (auto simp: local_inv_def pend)
  note n = stamped_next [OF st(1,2)]
  have lt: "xf_epoch s < xf_epoch s + 1" using n st(2) by simp
  have "barrier_inv N i s'" using ok(1) t(1) by (auto simp: barrier_inv_def b(1))
  moreover have "local_inv e0 i (inputs i) s'"
  proof -
    have "stamped (xf_epoch s') (pending s')" using st(1) n by (simp add: pend s'(2))
    moreover have "sets_of e (inputs i) = sets_of e (pending s')" if "e \<ge> xf_epoch s'" for e
      using st(4) that lt by (auto simp: pend s'(2) intro: order.strict_trans2)
    moreover have "fst c = xf_epoch s'" "last_epoch (xf_epoch s') (pending s') = last_epoch e0 (inputs i)"
      using n s'(2) st(5) by (simp_all add: pend)
    ultimately show ?thesis using l' st(3) by (auto simp: local_inv_def pend(3,5) same)
  qed
  moreover have "\<forall>j \<in> {..<N} - {i}. remote_inv e0 inputs (S j) j s'"
    using ok(3) frame by (auto simp: remote_inv_def same)
  moreover have "queue_inv N e0 inputs i s'"
    using ok(4) frame lt by (auto simp: queue_inv_def pend same s'(2) intro: order.trans order.strict_implies_order)
  moreover have "unat (xf_epoch s') = unat e0 + rounds s'"
    using ok(5) lt unat_succ [OF lt] by (simp add: s'(2) r)
  ultimately show ?thesis using ok(6) cl by (simp add: server_inv_def r same sent_def pend)
qed


lemma local_keeps:
  assumes inv: "server_inv N e0 inputs S i s" and i: "i < N" "N < 2 ^ 32" and st: "stamped e0 (inputs i)"
    and act: "local_act False i s = Some (s', out)"
  shows "server_inv N e0 inputs S i s' \<and> (case out of None \<Rightarrow> sent i s' = sent i s
    | Some m \<Rightarrow> sent i s' = Suc (sent i s) \<and> m = round_message e0 inputs i (sent i s))"
proof -
  have nf: "\<not> xf_failed s" and bar: "barrier_inv N i s" using inv by (auto simp: server_inv_def)
  consider "xf_local s = L_READ" | b where "xf_local s = L_AWAIT b" | "xf_local s \<noteq> L_READ" "\<forall>b. xf_local s \<noteq> L_AWAIT b" by blast
  then show ?thesis
  proof cases
    case 1
    then obtain b bs where "xf_input s = b # bs" using act nf by (auto simp: local_act_def split: list.splits)
    then show ?thesis using local_read [OF inv 1 _ st act] by blast
  next
    case pc: (2 b)
    have at: "at_await i i s" using pc by (simp add: at_await_def)
    have act': "s' = (snd (xf_wait i s))\<lparr>xf_local := (if fst (xf_wait i s) then L_CHECK b else L_WAIT b)\<rparr>" "out = None"
      using act pc nf by (auto simp: local_act_def split: prod.splits)
    show ?thesis
    proof (cases rule: wait_cases [OF bar at_await_not_arrived [OF bar at] i])
      case 1
      then show ?thesis using act' await_waits [OF inv i(1) at, of s'] pc by (simp add: same_work_def)
    next
      case 2
      then show ?thesis using act' await_opens [OF inv i(1) at i(1), of s'] pc by (simp add: same_work_def)
    qed
  next
    case 3
    then show ?thesis using local_inside [OF inv _ _ act] by auto
  qed
qed

lemma remote_keeps:
  assumes inv: "server_inv N e0 inputs S i s" and i: "i < N" "N < 2 ^ 32" and j: "j < N" "i \<noteq> j" and st: "stamped e0 (inputs j)"
    and act: "remote_act False j s = Some s'"
  shows "server_inv N e0 inputs S i s' \<and> sent i s' = sent i s"
proof (cases "xf_remote s j = R_AWAIT")
  case True
  have nf: "\<not> xf_failed s" and bar: "barrier_inv N i s" using inv by (auto simp: server_inv_def)
  have at: "at_await i j s" using True j by (simp add: at_await_def)
  have s': "s' = (snd (xf_wait j s))\<lparr>xf_remote := (xf_remote (snd (xf_wait j s)))(j := (if fst (xf_wait j s) then R_READ else R_WAIT))\<rparr>"
    using act True nf by (auto simp: remote_act_def split: prod.splits)
  show ?thesis
  proof (cases rule: wait_cases [OF bar at_await_not_arrived [OF bar at] j(1) i(2)])
    case 1
    then show ?thesis using s' await_waits [OF inv j(1) at, of s'] j(2) by (simp add: same_work_def)
  next
    case 2
    then show ?thesis using s' await_opens [OF inv j(1) at i(1), of s'] j(2) by (simp add: same_work_def)
  qed
next
  case False
  then show ?thesis using remote_inside [OF inv _ False st act] j by auto
qed

section \<open>The cluster\<close>

lemma server_inv_cong: "(\<And>j. j \<noteq> i \<Longrightarrow> S j = S' j) \<Longrightarrow> server_inv N e0 inputs S i s \<Longrightarrow> server_inv N e0 inputs S' i s"
  by (simp add: server_inv_def)

lemma server_inv_deliver:
  assumes inv: "server_inv N e0 inputs S k s" and m: "m = round_message e0 inputs i (S i)" and ik: "i \<noteq> k"
    and S': "S' i = Suc (S i)" "\<And>j. j \<noteq> i \<Longrightarrow> j \<noteq> k \<Longrightarrow> S' j = S j"
    and s': "s' = s\<lparr>xf_inbox := (xf_inbox s)(i := xf_inbox s i @ [m])\<rparr>"
  shows "server_inv N e0 inputs S' k s'"
proof -
  have same: "xf_barrier s' = xf_barrier s" "xf_local s' = xf_local s" "xf_input s' = xf_input s" "xf_batch s' = xf_batch s"
    "xf_epoch s' = xf_epoch s" "xf_failed s' = xf_failed s" "xf_queue s' = xf_queue s" "xf_remote s' = xf_remote s"
    "xf_inbox s' = (xf_inbox s)(i := xf_inbox s i @ [m])" by (simp_all add: s')
  have frame: "arrived t s' = arrived t s" "closed k s' = closed k s" "rounds s' = rounds s" "received j s' = received j s"
    "pending s' = pending s" "epoch_sets s' = epoch_sets s" "local_todo s' = local_todo s" "remote_todo s' j = remote_todo s j" for t j
    by (simp_all add: same arrived_def closed_def rounds_def received_def pending_def epoch_sets_def local_todo_def remote_todo_def
        split: local_pc.split)
  have "barrier_inv N k s'" "local_inv e0 k (inputs k) s'" "queue_inv N e0 inputs k s'"
    using inv unfolding server_inv_def barrier_inv_def local_inv_def queue_inv_def same frame by auto
  moreover have "remote_inv e0 inputs (S' j) j s'" if "j \<in> {..<N} - {k}" for j
    using inv that S' by (cases "j = i") (auto simp: server_inv_def remote_inv_def same frame m intro: le_SucI)
  ultimately show ?thesis using inv unfolding server_inv_def same frame by auto
qed

lemma sent_deliver: "sent k (s\<lparr>xf_inbox := x\<rparr>) = sent k s"
  by (simp add: sent_def rounds_def closed_def arrived_def)

lemma cluster_inv_step:
  assumes inv: "cluster_inv N e0 inputs c" and N: "N < 2 ^ 32" and st: "\<And>j. j < N \<Longrightarrow> stamped e0 (inputs j)"
    and step: "cluster_step reliable N c c'"
  shows "cluster_inv N e0 inputs c'"
  using step
proof (cases rule: reliable_step_cases)
  case (step_local i s out)
  have old: "server_inv N e0 inputs (\<lambda>j. sent j (c j)) k (c k)" if "k < N" for k using inv that by (simp add: cluster_inv_def)
  have act: "local_act False i (c i) = Some (s, out)" using step_local by auto
  note keep = local_keeps [OF old [OF step_local(2)] step_local(2) N st [OF step_local(2)] act]
  show ?thesis unfolding cluster_inv_def
  proof (intro allI impI)
    fix k assume k: "k < N"
    show "server_inv N e0 inputs (\<lambda>j. sent j (c' j)) k (c' k)"
    proof (cases out)
      case None
      then have c': "c' = c(i := s)" "sent i s = sent i (c i)" using step_local(1) keep by (simp_all add: publish_def)
      then show ?thesis using keep old [OF k] by (cases "k = i") (auto elim!: server_inv_cong [rotated])
    next
      case (Some m)
      then have m: "m = round_message e0 inputs i (sent i (c i))" "sent i s = Suc (sent i (c i))"
        and c': "c' i = s" "\<And>j. j \<noteq> i \<Longrightarrow> c' j = (c j)\<lparr>xf_inbox := (xf_inbox (c j))(i := xf_inbox (c j) i @ [m])\<rparr>"
        using step_local(1) keep by (simp_all add: publish_def)
      have sent: "sent j (c' j) = (if j = i then Suc (sent i (c i)) else sent j (c j))" for j
        using c' m(2) by (simp add: sent_deliver)
      show ?thesis
      proof (cases "k = i")
        case True
        then show ?thesis using keep c'(1) by (auto simp: sent elim!: server_inv_cong [rotated])
      next
        case False
        then show ?thesis unfolding c'(2) [OF False] using False sent by (intro server_inv_deliver [OF old [OF k] m(1) _ _ _ refl]) auto
      qed
    qed
  qed
next
  case (step_remote i j s)
  have old: "server_inv N e0 inputs (\<lambda>j. sent j (c j)) k (c k)" if "k < N" for k using inv that by (simp add: cluster_inv_def)
  have act: "remote_act False j (c i) = Some s" using step_remote by auto
  note keep = remote_keeps [OF old [OF step_remote(2)] step_remote(2) N step_remote(3,4) st [OF step_remote(3)] act]
  have "server_inv N e0 inputs (\<lambda>j. sent j (c' j)) k (c' k)" if k: "k < N" for k
    using keep old [OF k] step_remote(1) by (cases "k = i") (auto elim!: server_inv_cong [rotated])
  then show ?thesis by (simp add: cluster_inv_def)
qed

lemma new_exchange_inv:
  assumes "0 < N" "N < 2 ^ 32" "stamped e0 (inputs i)"
  shows "server_inv N e0 inputs (\<lambda>_. 0) i (new_exchange N e0 (inputs i))"
proof -
  have "sets_of e0 (inputs i) = [] @ sets_of e0 (inputs i)" by simp
  then show ?thesis using assms
    by (auto simp: server_inv_def new_exchange_def new_barrier_def barrier_inv_def local_inv_def closed_def arrived_def pending_def epoch_sets_def
      remote_inv_def received_def rounds_def remote_todo_def queue_inv_def local_todo_def)
qed

lemma cluster_inv_reach:
  assumes "cluster_reach reliable N e0 inputs c" "0 < N" "N < 2 ^ 32" "\<And>j. j < N \<Longrightarrow> stamped e0 (inputs j)"
  shows "cluster_inv N e0 inputs c"
  using assms(1)
proof (induction rule: cluster_reach.induct)
  case reach_init
  have "sent j (new_cluster N e0 inputs j) = 0" for j
    by (simp add: new_cluster_def new_exchange_def sent_def rounds_def closed_def arrived_def new_barrier_def)
  moreover have "server_inv N e0 inputs (\<lambda>_. 0) i (new_exchange N e0 (inputs i))" if "i < N" for i
    using new_exchange_inv assms(2-4) that by blast
  ultimately show ?case by (simp add: cluster_inv_def new_cluster_def)
next
  case (reach_next c c')
  then show ?case using cluster_inv_step assms(3,4) by blast
qed

end
