(* ===== verification/ExchangeProgress.thy ===== *)
theory ExchangeProgress
  imports EpochExchange
begin

text \<open>
  What the exchange of \<open>EpochExchange\<close> achieves: the servers agree on every closed epoch, no check
  fails, nobody waits for ever while there is work, and every run ends. All this is for a \<open>reliable\<close>
  platform (no wait ends early, no message is lost) and \<open>stamped\<close> inputs (no epoch is left out). The
  last three theorems show that it fails without each of the three.
\<close>

section \<open>One epoch of the queue\<close>

lemma filter_epoch:
  assumes "\<forall>x \<in> set xs. fst x = d"
  shows "filter_mset (\<lambda>x. fst x = e) (mset xs) = (if d = e then mset xs else {#})"
  using assms by (auto simp: filter_mset_eq_conv)

lemma filter_input: "stamped e0 bs \<Longrightarrow> filter_mset (\<lambda>x. fst x = e) (mset (concat (map snd bs))) = mset (concat (sets_of e bs))"
proof (induction e0 bs rule: stamped.induct)
  case (2 d b bs)
  then show ?case using filter_epoch [of "snd b" "fst b" e] by (cases "fst b = e") (simp_all add: 2)
qed simp

lemma filter_later: "stamped d bs \<Longrightarrow> e < d \<Longrightarrow> filter_mset (\<lambda>x. fst x = e) (mset (concat (map snd bs))) = {#}"
  by (simp add: filter_input stamped_below)

lemma filter_sum: "finite A \<Longrightarrow> filter_mset P (\<Sum>a \<in> A. f a) = (\<Sum>a \<in> A. filter_mset P (f a))"
  by (induction A rule: finite_induct) auto

lemma round_epoch_eq:
  assumes "unat (e0::u32) + r < 2 ^ 32" "k \<le> r" "e0 \<le> e" "e < e0 + of_nat r"
  shows "e0 + of_nat k = e \<longleftrightarrow> k = unat (e - e0)"
proof -
  have "k < 2 ^ 32" using assms(1,2) by simp
  then have k: "unat (of_nat k :: u32) = k" by (simp add: unat_of_nat)
  have "e0 + of_nat k = e \<longleftrightarrow> of_nat k = e - e0" by (auto simp: algebra_simps)
  also have "\<dots> \<longleftrightarrow> k = unat (e - e0)" using k by auto
  finally show ?thesis .
qed

lemma filter_received:
  assumes st: "stamped e0 (inputs j)" and E: "unat (e0::u32) + r = unat E" "e < E" and n: "r \<le> n" "n \<le> Suc r"
  shows "filter_mset (\<lambda>x. fst x = e) (\<Sum>k < n. mset (concat (snd (round_message e0 inputs j k)))) = mset (concat (sets_of e (inputs j)))"
proof -
  let ?M = "mset (concat (sets_of e (inputs j)))"
  have bound: "unat e0 + r < 2 ^ 32" using E(1) unsigned_less [of E, where 'a = nat] by simp
  have E': "E = e0 + of_nat r" using arg_cong [OF E(1), of "of_nat :: nat \<Rightarrow> u32"] by simp
  have "filter_mset (\<lambda>x. fst x = e) (\<Sum>k < n. mset (concat (snd (round_message e0 inputs j k))))
      = (\<Sum>k < n. if e0 + of_nat k = e then ?M else {#})"
  proof -
    have "filter_mset (\<lambda>x. fst x = e) (mset (concat (snd (round_message e0 inputs j k)))) = (if e0 + of_nat k = e then ?M else {#})" for k
      using filter_epoch [of "concat (snd (round_message e0 inputs j k))" "e0 + of_nat k" e] message_epochs [of e0 inputs j _ k, OF st]
      by (auto simp: round_message_def message_of_def)
    then show ?thesis by (simp add: filter_sum)
  qed
  also have "\<dots> = ?M"
  proof (cases "e0 \<le> e")
    case True
    have lt: "unat (e - e0) < r"
      using True E by (simp add: unat_sub word_less_nat_alt word_le_nat_alt)
    have "e0 + of_nat k = e \<longleftrightarrow> k = unat (e - e0)" if "k < n" for k
      using that n(2) E(2) True by (intro round_epoch_eq [OF bound]) (auto simp: E')
    then have "(\<Sum>k < n. if e0 + of_nat k = e then ?M else {#}) = (\<Sum>k < n. if k = unat (e - e0) then ?M else {#})"
      by (intro sum.cong) auto
    then show ?thesis using lt n(1) by simp
  next
    case False
    then have none: "?M = {#}" using stamped_below [OF st] by (simp add: not_le)
    show ?thesis unfolding none by simp
  qed
  finally show ?thesis .
qed

lemma received_bounds: "rounds s \<le> received j s" "received j s \<le> Suc (rounds s)"
  by (simp_all add: received_def)


lemma local_todo_later:
  assumes loc: "local_inv e0 i bs s" and e: "e < xf_epoch s"
  shows "filter_mset (\<lambda>x. fst x = e) (mset (local_todo s)) = {#}"
proof -
  have "filter_mset (\<lambda>x. fst x = e) (mset (concat (map snd (pending s)))) = {#}"
    using loc e by (intro filter_later) (auto simp: local_inv_def)
  moreover have "filter_mset (\<lambda>x. fst x = e) (mset xs) = {#}" if "xf_local s = L_ENQ xs" for xs
    using loc that filter_epoch [of xs "xf_epoch s" e] e by (auto simp: local_inv_def)
  ultimately show ?thesis by (cases "xf_local s") (simp_all add: local_todo_def)
qed

section \<open>Progress\<close>

definition stuck :: "nat \<Rightarrow> 'a cluster \<Rightarrow> bool" where
  "stuck N c \<longleftrightarrow> (\<nexists>c'. cluster_step reliable N c c')"

lemma stuck_local:
  assumes "local_act False i s = None" "\<not> xf_failed s" "\<not> arrived i s"
  shows "xf_local s = L_READ \<and> xf_input s = []"
  using assms by (cases "xf_local s") (auto simp: local_act_def xf_resume_def arrived_def split: list.splits if_splits prod.splits)

lemma stuck_remote:
  assumes "remote_act False j s = None" "\<not> xf_failed s" "\<not> arrived j s"
  shows "xf_remote s j = R_READ \<and> xf_inbox s j = []"
proof (cases "xf_remote s j")
  case (R_ENQ xs sets)
  then show ?thesis using assms by (cases xs; cases sets) (auto simp: remote_act_def)
qed (use assms in \<open>auto simp: remote_act_def xf_resume_def arrived_def split: list.splits if_splits prod.splits\<close>)

lemma stuck_thread:
  assumes "stuck N c" "i < N" "j < N" "\<not> xf_failed (c i)" "\<not> arrived j (c i)"
  shows "if j = i then xf_local (c i) = L_READ \<and> xf_input (c i) = [] else xf_remote (c i) j = R_READ \<and> xf_inbox (c i) j = []"
proof (cases "j = i")
  case True
  have "local_act False i (c i) = None"
    using assms(1,2) step_local [where p = reliable and w = False and lost = "{}"] unfolding stuck_def by (metis not_None_eq prod.exhaust_sel)
  then show ?thesis using stuck_local assms(4,5) True by auto
next
  case False
  have "remote_act False j (c i) = None"
    using assms(1-3) False step_remote [where p = reliable and w = False] unfolding stuck_def by (metis not_None_eq)
  then show ?thesis using stuck_remote assms(4,5) False by auto
qed

text \<open>A thread that has not arrived when nothing moves: some server has no more batches and has published nothing for the epoch.\<close>

lemma last_epoch_ge: "stamped e bs \<Longrightarrow> e \<le> last_epoch e bs"
proof (induction e bs rule: stamped.induct)
  case (2 e b bs)
  then show ?case by (auto intro: order.trans order.strict_implies_order)
qed simp

lemma some_idle:
  assumes "barrier_inv N i s"
  obtains t where "t < N" "\<not> arrived t s"
proof -
  have "card (set (cb_waiting (xf_barrier s))) < card {..<N}"
    using assms distinct_card [of "cb_waiting (xf_barrier s)"] by (simp add: barrier_inv_def)
  then have "\<not> {..<N} \<subseteq> set (cb_waiting (xf_barrier s))" by (metis List.finite_set card_mono not_less)
  then show thesis using that by (auto simp: arrived_def)
qed

lemma stuck_epochs:
  assumes inv: "cluster_inv N e0 inputs c" and stuck: "stuck N c" and N: "0 < N"
  obtains p where "p < N" "last_epoch e0 (inputs p) = xf_epoch (c p)" "\<And>i. i < N \<Longrightarrow> xf_epoch (c i) = xf_epoch (c p)"
proof -
  have sv: "server_inv N e0 inputs (\<lambda>j. sent j (c j)) i (c i)" if "i < N" for i using inv that by (simp add: cluster_inv_def)
  have nf: "\<not> xf_failed (c i)" and bar: "barrier_inv N i (c i)" and loc: "local_inv e0 i (inputs i) (c i)"
    and ep: "unat (xf_epoch (c i)) = unat e0 + rounds (c i)" if "i < N" for i
    using sv [OF that] by (auto simp: server_inv_def)
  have rem: "received j (c i) \<le> sent j (c j)" "xf_inbox (c i) j = map (round_message e0 inputs j) [received j (c i)..<sent j (c j)]"
    if "i < N" "j < N" "i \<noteq> j" for i j
    using sv [OF that(1)] that by (auto simp: server_inv_def remote_inv_def)
  obtain i where i: "i < N" "\<And>k. k < N \<Longrightarrow> rounds (c i) \<le> rounds (c k)"
    using arg_min_nat_lemma [of "\<lambda>k. k < N" 0 "\<lambda>k. rounds (c k)"] N by blast
  obtain t where t: "t < N" "\<not> arrived t (c i)" using some_idle [OF bar [OF i(1)]] .
  have "\<exists>p < N. \<not> arrived p (c p) \<and> rounds (c p) = rounds (c i)"
  proof (cases "t = i")
    case False
    have "xf_remote (c i) t = R_READ" "xf_inbox (c i) t = []" using stuck_thread [OF stuck i(1) t(1) nf [OF i(1)] t(2)] False by auto
    then have "received t (c i) = rounds (c i)" "sent t (c t) \<le> received t (c i)"
      using rem(2) [OF i(1) t(1)] False by (auto simp: received_def)
    then have "sent t (c t) \<le> rounds (c i)" by simp
    then have "\<not> closed t (c t)" "rounds (c t) \<le> rounds (c i)" using i(2) [OF t(1)] by (auto simp: sent_def split: if_splits)
    then show ?thesis using i(2) [OF t(1)] t(1) by (auto simp: closed_def intro!: exI [of _ t])
  qed (use i t in blast)
  then obtain p where p: "p < N" "\<not> arrived p (c p)" "rounds (c p) = rounds (c i)" by blast
  have pl: "xf_local (c p) = L_READ" "xf_input (c p) = []" using stuck_thread [OF stuck p(1,1) nf [OF p(1)] p(2)] by auto
  have sp: "sent p (c p) = rounds (c i)" using pl p(2,3) by (simp add: sent_def closed_def)
  have "rounds (c k) = rounds (c i)" if "k < N" for k
  proof (cases "k = p")
    case False
    have "rounds (c k) \<le> received p (c k)" by (rule received_bounds)
    also have "\<dots> \<le> rounds (c i)" using rem(1) [OF that p(1) False] sp by simp
    finally show ?thesis using i(2) [OF that] by simp
  qed (use p in simp)
  then have "xf_epoch (c k) = xf_epoch (c p)" if "k < N" for k
    using ep [OF that] ep [OF p(1)] p(1) that by (metis word_unat_eq_iff)
  moreover have "last_epoch e0 (inputs p) = xf_epoch (c p)" using loc [OF p(1)] pl by (simp add: local_inv_def pending_def)
  ultimately show thesis using that p(1) by blast
qed


section \<open>Termination\<close>

text \<open>
  The steps that are left: a transaction a local thread has put into its message will be received
  by every other server.
\<close>

definition sets_work :: "'a list list \<Rightarrow> nat" where
  "sets_work sets = sum_list (map (\<lambda>xs. Suc (length xs)) sets)"

definition batch_work :: "nat \<Rightarrow> 'a batch \<Rightarrow> nat" where
  "batch_work N b = Suc N * length (snd b) + N + 1"

definition local_work :: "nat \<Rightarrow> 'a local_pc \<Rightarrow> nat" where
  "local_work N l = (case l of L_READ \<Rightarrow> 0 | L_AWAIT b \<Rightarrow> batch_work N b + 3 | L_WAIT b \<Rightarrow> batch_work N b + 2
     | L_CHECK b \<Rightarrow> batch_work N b + 1 | L_ENQ xs \<Rightarrow> Suc N * length xs + 1)"

definition remote_work :: "'a remote_pc \<Rightarrow> nat" where
  "remote_work r = (case r of R_READ \<Rightarrow> 0 | R_ENQ xs sets \<Rightarrow> length xs + sets_work sets + 3 | R_AWAIT \<Rightarrow> 2 | R_WAIT \<Rightarrow> 1)"

definition inbox_work :: "'a message list \<Rightarrow> nat" where
  "inbox_work ms = sum_list (map (\<lambda>m. sets_work (snd m) + 4) ms)"

definition own_work :: "nat \<Rightarrow> 'a exchange \<Rightarrow> nat" where
  "own_work N s = sum_list (map (\<lambda>b. batch_work N b + 4 + 4 * N) (xf_input s)) + local_work N (xf_local s) + N * sets_work (xf_batch s)"

definition from_work :: "nat \<Rightarrow> 'a exchange \<Rightarrow> nat" where
  "from_work j s = inbox_work (xf_inbox s j) + remote_work (xf_remote s j)"

definition server_work :: "nat \<Rightarrow> 'a exchange \<Rightarrow> nat" where
  "server_work N s = own_work N s + (\<Sum>j < N. from_work j s)"

definition cluster_work :: "nat \<Rightarrow> 'a cluster \<Rightarrow> nat" where
  "cluster_work N c = (\<Sum>i < N. server_work N (c i))"

lemma work_simps [simp]:
  "sets_work [] = 0" "sets_work (xs # sets) = Suc (length xs) + sets_work sets" "sets_work (sets @ sets') = sets_work sets + sets_work sets'"
  "inbox_work [] = 0" "inbox_work (m # ms) = sets_work (snd m) + 4 + inbox_work ms" "inbox_work (ms @ ms') = inbox_work ms + inbox_work ms'"
  by (simp_all add: sets_work_def inbox_work_def)

lemma add_transaction_work: "sets \<noteq> [] \<Longrightarrow> sets_work (add_transaction sets x) = Suc (sets_work sets)"
  by (cases sets rule: rev_cases) (simp_all add: add_transaction_def)

lemma wait_frame:
  "xf_input (snd (xf_wait t s)) = xf_input s" "xf_local (snd (xf_wait t s)) = xf_local s" "xf_batch (snd (xf_wait t s)) = xf_batch s"
  "xf_inbox (snd (xf_wait t s)) = xf_inbox s" "xf_remote (snd (xf_wait t s)) = xf_remote s"
  by (simp_all add: xf_wait_def split: prod.split)

lemma resume_frame:
  "xf_resume sp t s = Some s' \<Longrightarrow> xf_input s' = xf_input s \<and> xf_local s' = xf_local s \<and> xf_batch s' = xf_batch s
    \<and> xf_inbox s' = xf_inbox s \<and> xf_remote s' = xf_remote s"
  by (auto simp: xf_resume_def split: if_splits)

lemma enqueue_frame:
  "xf_input (xf_enqueue x s) = xf_input s" "xf_local (xf_enqueue x s) = xf_local s" "xf_batch (xf_enqueue x s) = xf_batch s"
  "xf_inbox (xf_enqueue x s) = xf_inbox s" "xf_remote (xf_enqueue x s) = xf_remote s"
  by (simp_all add: xf_enqueue_def)

lemma local_act_work:
  assumes act: "local_act w i s = Some (s', out)" and ok: "\<not> xf_failed s'" "\<forall>xs. xf_local s = L_ENQ xs \<longrightarrow> xf_batch s \<noteq> []"
  shows "own_work N s' + (case out of None \<Rightarrow> 0 | Some m \<Rightarrow> N * (sets_work (snd m) + 4)) < own_work N s"
    "from_work j s' = from_work j s"
proof -
  have nf: "\<not> xf_failed s" using act by (auto simp: local_act_def)
  show "own_work N s' + (case out of None \<Rightarrow> 0 | Some m \<Rightarrow> N * (sets_work (snd m) + 4)) < own_work N s"
  proof (cases "xf_local s")
    case (L_ENQ xs)
    then show ?thesis using act nf ok
      by (cases xs) (auto simp: local_act_def own_work_def local_work_def enqueue_frame add_transaction_work algebra_simps)
  next
    case (L_AWAIT b)
    then show ?thesis using act nf
      by (auto simp: local_act_def own_work_def local_work_def wait_frame split_beta)
  next
    case (L_WAIT b)
    then show ?thesis using act nf by (auto simp: local_act_def own_work_def local_work_def dest!: resume_frame)
  qed (use act nf ok in \<open>auto simp: local_act_def own_work_def local_work_def batch_work_def algebra_simps split: list.splits if_splits\<close>)
  show "from_work j s' = from_work j s"
    using act nf resume_frame [of w i s]
    by (cases "xf_local s") (auto simp: local_act_def from_work_def wait_frame enqueue_frame split_beta split: list.splits if_splits)
qed


lemma remote_act_work:
  assumes act: "remote_act w j s = Some s'"
  shows "own_work N s' = own_work N s" "from_work j s' < from_work j s" "k \<noteq> j \<Longrightarrow> from_work k s' = from_work k s"
proof -
  have nf: "\<not> xf_failed s" using act by (auto simp: remote_act_def)
  show "own_work N s' = own_work N s"
    using act nf resume_frame [of w j s]
    by (cases "xf_remote s j") (auto simp: remote_act_def own_work_def wait_frame enqueue_frame split_beta split: list.splits)
  show "k \<noteq> j \<Longrightarrow> from_work k s' = from_work k s"
    using act nf resume_frame [of w j s]
    by (cases "xf_remote s j") (auto simp: remote_act_def from_work_def wait_frame enqueue_frame split_beta split: list.splits)
  show "from_work j s' < from_work j s"
  proof (cases "xf_remote s j")
    case (R_ENQ xs sets)
    then show ?thesis using act nf
      by (cases xs; cases sets) (auto simp: remote_act_def from_work_def remote_work_def enqueue_frame)
  qed (use act nf resume_frame [of w j s] in \<open>auto simp: remote_act_def from_work_def remote_work_def wait_frame split_beta split: list.splits\<close>)
qed

lemma server_work_from:
  assumes "own_work N s' = own_work N s" "from_work j s' = from_work j s + d" "\<And>k. k \<noteq> j \<Longrightarrow> from_work k s' = from_work k s" "j < N"
  shows "server_work N s' = server_work N s + d"
  using assms by (simp add: server_work_def sum.remove [of "{..<N}" j])

lemma publish_work:
  assumes "k \<noteq> i" "i < N"
  shows "server_work N (s\<lparr>xf_inbox := (xf_inbox s)(i := xf_inbox s i @ [m])\<rparr>) = server_work N s + (sets_work (snd m) + 4)"
  using assms(2) by (intro server_work_from [where j = i]) (simp_all add: own_work_def from_work_def)

lemma cluster_step_work:
  assumes inv: "cluster_inv N e0 inputs c" "cluster_inv N e0 inputs c'" and step: "cluster_step reliable N c c'"
  shows "cluster_work N c' < cluster_work N c"
  using step
proof (cases rule: reliable_step_cases)
  case (step_local i s out)
  let ?A = "{..<N} - {i}" and ?m = "case out of None \<Rightarrow> 0 | Some m \<Rightarrow> sets_work (snd m) + 4"
  have split: "(\<Sum>k < N. f k) = f i + (\<Sum>k \<in> ?A. f k)" for f :: "nat \<Rightarrow> nat" using step_local(2) by (simp add: sum.remove)
  have ci: "c' i = s" using step_local(1) by (simp add: publish_def split: option.splits)
  have nf: "\<not> xf_failed s" using inv(2) ci step_local(2) by (auto simp: cluster_inv_def server_inv_def)
  have "\<forall>xs. xf_local (c i) = L_ENQ xs \<longrightarrow> xf_batch (c i) \<noteq> []"
    using inv(1) step_local(2) by (auto simp: cluster_inv_def server_inv_def local_inv_def)
  note w = local_act_work [OF step_local(3) nf this]
  have own: "server_work N s + N * ?m < server_work N (c i)"
    using w(1) [of N] by (cases out) (simp_all add: server_work_def w(2))
  have "server_work N (c' k) = server_work N (c k) + ?m" if "k \<in> ?A" for k
    using that step_local(1,2) publish_work [of k i N] by (auto simp: publish_def split: option.splits)
  then have "(\<Sum>k \<in> ?A. server_work N (c' k)) = (\<Sum>k \<in> ?A. server_work N (c k)) + (N - 1) * ?m"
    using step_local(2) by (simp add: sum.distrib)
  moreover have "(N - 1) * ?m \<le> N * ?m" by simp
  ultimately show ?thesis using own unfolding cluster_work_def split ci by linarith
next
  case (step_remote i j s)
  have "server_work N s < server_work N (c i)"
  proof -
    note w = remote_act_work [OF step_remote(5)]
    have "(\<Sum>k < N. from_work k s) < (\<Sum>k < N. from_work k (c i))"
      using w step_remote(3) by (intro sum_strict_mono_ex1) (auto intro: less_imp_le intro!: bexI [of _ j], metis order.order_iff_strict)
    then show ?thesis using w(1) [of N] by (simp add: server_work_def)
  qed
  then show ?thesis using step_remote(1,2) by (simp add: cluster_work_def sum.remove [of "{..<N}" i])
qed


section \<open>Running\<close>

text \<open>A schedule: the server, the thread in it, and whether it wakes up by itself. A lossy platform loses all messages.\<close>

fun cluster_run :: "platform \<Rightarrow> nat \<Rightarrow> (nat \<times> nat \<times> bool) list \<Rightarrow> 'a cluster \<Rightarrow> 'a cluster option" where
  "cluster_run p N [] c = Some c"
| "cluster_run p N ((i, j, w) # sched) c =
     (if i < N \<and> j < N \<and> (w \<longrightarrow> pf_early p) then
        if i = j then (case local_act w i (c i) of None \<Rightarrow> None | Some (s, out) \<Rightarrow> cluster_run p N sched (publish (if pf_lossy p then {..<N} else {}) i out (c(i := s))))
        else (case remote_act w j (c i) of None \<Rightarrow> None | Some s \<Rightarrow> cluster_run p N sched (c(i := s)))
      else None)"

lemma cluster_run_reach:
  "cluster_run p N sched c = Some c' \<Longrightarrow> cluster_reach p N e0 inputs c \<Longrightarrow> cluster_reach p N e0 inputs c'"
proof (induction sched arbitrary: c)
  case (Cons a sched)
  obtain i j w where a: "a = (i, j, w)" by (cases a)
  obtain c1 where c1: "cluster_step p N c c1" "cluster_run p N sched c1 = Some c'"
    using Cons.prems(1) unfolding a
    by (auto split: if_splits option.splits intro: cluster_step.intros)
  show ?case by (rule Cons.IH [OF c1(2) reach_next [OF Cons.prems(2) c1(1)]])
qed simp

definition cluster_sched :: "platform \<Rightarrow> nat \<Rightarrow> u32 \<Rightarrow> (nat \<Rightarrow> 'a batch list) \<Rightarrow> (nat \<times> nat \<times> bool) list \<Rightarrow> ('a cluster \<Rightarrow> bool) \<Rightarrow> bool" where
  "cluster_sched p N e0 inputs sched P \<longleftrightarrow> (case cluster_run p N sched (new_cluster N e0 inputs) of None \<Rightarrow> False | Some c \<Rightarrow> P c)"

lemma cluster_schedE:
  assumes "cluster_sched p N e0 inputs sched P"
  obtains c where "cluster_reach p N e0 inputs c" "P c"
proof -
  obtain c where "cluster_run p N sched (new_cluster N e0 inputs) = Some c" "P c"
    using assms by (auto simp: cluster_sched_def split: option.splits)
  then show thesis using that cluster_run_reach [OF _ reach_init] by metis
qed

definition idle :: "nat \<Rightarrow> 'a cluster \<Rightarrow> bool" where
  "idle N c \<longleftrightarrow> list_all (\<lambda>i. Option.is_none (local_act False i (c i))
     \<and> list_all (\<lambda>j. i = j \<or> Option.is_none (remote_act False j (c i))) [0..<N]) [0..<N]"

lemma idle_stuck:
  assumes "idle N c"
  shows "stuck N c"
proof -
  have all: "\<forall>i < N. local_act False i (c i) = None \<and> (\<forall>j < N. i = j \<or> remote_act False j (c i) = None)"
    using assms by (simp add: idle_def list_all_iff Option.is_none_def)
  have l: "local_act False i (c i) = None" if "i < N" for i using all that by blast
  have r: "remote_act False j (c i) = None" if "i < N" "j < N" "i \<noteq> j" for i j using all that by blast
  have False if "cluster_step reliable N c c'" for c' using that by (cases rule: reliable_step_cases) (use l r in auto)
  then show ?thesis by (auto simp: stuck_def)
qed

text \<open>Two servers; the second has users in the first epoch only.\<close>

definition demo_inputs :: "nat \<Rightarrow> string batch list" where
  "demo_inputs i = (if i = 0 then [(1, [(1, ''a'')]), (2, [(2, ''c'')])] else [(1, [(1, ''b'')])])"

definition both_inputs :: "nat \<Rightarrow> string batch list" where
  "both_inputs i = (if i = 0 then [(1, [(1, ''a'')]), (2, [(2, ''c'')])] else [(1, [(1, ''b'')]), (2, [])])"

lemma demo_stamped: "\<forall>j < 2. stamped 1 (demo_inputs j)" "\<forall>j < 2. stamped 1 (both_inputs j)"
  by (auto simp: demo_inputs_def both_inputs_def)

definition demo_sched :: "(nat \<times> nat \<times> bool) list" where
  "demo_sched = replicate 6 (0, 0, False) @ replicate 4 (1, 1, False) @ replicate 5 (1, 0, False)"

definition both_sched :: "(nat \<times> nat \<times> bool) list" where
  "both_sched = replicate 6 (0, 0, False) @ replicate 5 (1, 1, False) @ replicate 5 (0, 1, False)"

section \<open>Properties\<close>

text \<open>
  C5. The block servers agree, on a reliable platform: if no wait of a barrier ends without a notification, no
  published message is lost, and the epoch server leaves out no epoch for any server (\<open>stamped\<close>: the
  batches of each start in the first epoch or the next, and each has the epoch of the one before or the next), then,
  when a server has closed an epoch, the transactions of that epoch
  in its queue are exactly those which the epoch server stamped with it for all servers, each as
  often as it was stamped, however the threads of all servers interleave. So any two servers
  hand the same transactions of an epoch to execution. \<open>exchange_spurious_wakeup\<close>, \<open>exchange_lost_message\<close>
  and \<open>exchange_left_out_epoch\<close> show that none of the three conditions can go.
\<close>

theorem exchange_agreement:
  assumes "cluster_reach reliable N e0 inputs c" "0 < N" "N < 2 ^ 32" "\<forall>j < N. stamped e0 (inputs j)" "i < N" "e < xf_epoch (c i)"
  shows "filter_mset (\<lambda>x. fst x = e) (mset (xf_queue (c i))) = (\<Sum>j < N. mset (concat (sets_of e (inputs j))))"
proof -
  let ?s = "c i" and ?f = "filter_mset (\<lambda>x. fst x = e)"
  have "cluster_inv N e0 inputs c" using cluster_inv_reach [OF assms(1-3)] assms(4) by blast
  then have inv: "server_inv N e0 inputs (\<lambda>j. sent j (c j)) i ?s" using assms(5) by (simp add: cluster_inv_def)
  have q: "mset (xf_queue ?s) + mset (local_todo ?s) + (\<Sum>j \<in> {..<N} - {i}. mset (remote_todo ?s j))
       = mset (concat (map snd (inputs i)))
         + (\<Sum>j \<in> {..<N} - {i}. \<Sum>k < received j ?s. mset (concat (snd (round_message e0 inputs j k))))"
    and E: "unat e0 + rounds ?s = unat (xf_epoch ?s)" and loc: "local_inv e0 i (inputs i) ?s"
    and rem: "\<And>j. j \<in> {..<N} - {i} \<Longrightarrow> \<forall>x \<in> set (remote_todo ?s j). fst x = xf_epoch ?s"
    using inv by (auto simp: server_inv_def queue_inv_def remote_inv_def)
  have lt: "?f (mset (local_todo ?s)) = {#}" using local_todo_later [OF loc assms(6)] .
  have rt: "?f (\<Sum>j \<in> {..<N} - {i}. mset (remote_todo ?s j)) = {#}"
    using filter_epoch [OF rem] assms(6) unfolding filter_sum [OF finite_Diff [OF finite_lessThan]] by (intro sum.neutral) auto
  have "?f (\<Sum>j \<in> {..<N} - {i}. \<Sum>k < received j ?s. mset (concat (snd (round_message e0 inputs j k))))
      = (\<Sum>j \<in> {..<N} - {i}. mset (concat (sets_of e (inputs j))))"
    unfolding filter_sum [OF finite_Diff [OF finite_lessThan]]
    using assms(4) by (intro sum.cong refl filter_received [OF _ E assms(6) received_bounds]) auto
  moreover have "?f (mset (concat (map snd (inputs i)))) = mset (concat (sets_of e (inputs i)))"
    using assms(4,5) by (intro filter_input) auto
  ultimately have "?f (mset (xf_queue ?s)) = mset (concat (sets_of e (inputs i))) + (\<Sum>j \<in> {..<N} - {i}. mset (concat (sets_of e (inputs j))))"
    using arg_cong [OF q, of ?f] lt rt by simp
  then show ?thesis using assms(5) by (simp add: sum.remove [of "{..<N}" i])
qed

lemma exchange_agreement_witness:
  "\<exists>c. cluster_reach reliable 2 1 both_inputs c \<and> xf_epoch (c 0) = 2
     \<and> filter_mset (\<lambda>x. fst x = 1) (mset (xf_queue (c 0))) = {#(1, ''a''), (1, ''b'')#}"
proof -
  have "cluster_sched reliable 2 1 both_inputs both_sched (\<lambda>c. xf_epoch (c 0) = 2)" by code_simp
  then obtain c where c: "cluster_reach reliable 2 1 both_inputs c" "xf_epoch (c 0) = 2" by (rule cluster_schedE)
  have "(\<Sum>j < 2. mset (concat (sets_of 1 (both_inputs j)))) = {#(1, ''a''), (1, ''b'')#}"
    by (simp add: both_inputs_def numeral_2_eq_2)
  then show ?thesis using exchange_agreement [OF c(1) _ _ demo_stamped(2), of 0 1] c by auto
qed

text \<open>
  C6. On a reliable platform (no early wake-up, no lost message) and with no epoch left out for any server, no
  server ever fails a check of an epoch, and its queue is in the order of the epochs, none
  above its own: what the transaction manager takes in front of a later transaction is complete.
\<close>

theorem exchange_safe:
  assumes "cluster_reach reliable N e0 inputs c" "0 < N" "N < 2 ^ 32" "\<forall>j < N. stamped e0 (inputs j)" "i < N"
  shows "\<not> xf_failed (c i) \<and> sorted (map fst (xf_queue (c i))) \<and> (\<forall>x \<in> set (xf_queue (c i)). fst x \<le> xf_epoch (c i))"
proof -
  have "cluster_inv N e0 inputs c" using cluster_inv_reach [OF assms(1-3)] assms(4) by blast
  then show ?thesis using assms(5) by (auto simp: cluster_inv_def server_inv_def queue_inv_def)
qed

lemma exchange_safe_witness:
  "\<exists>c. cluster_reach reliable 2 1 demo_inputs c \<and> idle 2 c \<and> \<not> xf_failed (c 1) \<and> sorted (map fst (xf_queue (c 1)))"
proof -
  have "cluster_sched reliable 2 1 demo_inputs demo_sched (\<lambda>c. idle 2 c)" by code_simp
  then obtain c where c: "cluster_reach reliable 2 1 demo_inputs c" "idle 2 c" by (rule cluster_schedE)
  then show ?thesis using exchange_safe [OF c(1) _ _ demo_stamped(1), of 1] by auto
qed

text \<open>
  C7. On a reliable platform (no early wake-up, no lost message) and with no epoch left out for any server,
  nobody waits for ever while there is work: where no thread of any server can move, all servers
  are in the same epoch, the last one for which every server has had a batch, and none has failed. In particular a
  server without requests keeps all others from closing an epoch.
\<close>

theorem exchange_completes:
  assumes "cluster_reach reliable N e0 inputs c" "stuck N c" "0 < N" "N < 2 ^ 32" "\<forall>j < N. stamped e0 (inputs j)" "i < N"
  shows "xf_epoch (c i) = Min ((\<lambda>j. last_epoch e0 (inputs j)) ` {..<N}) \<and> \<not> xf_failed (c i)"
proof -
  have inv: "cluster_inv N e0 inputs c" using cluster_inv_reach [OF assms(1,3,4)] assms(5) by blast
  obtain p where p: "p < N" "last_epoch e0 (inputs p) = xf_epoch (c p)" "\<And>i. i < N \<Longrightarrow> xf_epoch (c i) = xf_epoch (c p)"
    by (rule stuck_epochs [OF inv assms(2,3)]) blast
  have "xf_epoch (c p) \<le> last_epoch e0 (inputs j)" if "j < N" for j
  proof -
    have "local_inv e0 j (inputs j) (c j)" using inv that by (simp add: cluster_inv_def server_inv_def)
    then show ?thesis using last_epoch_ge [of "xf_epoch (c j)" "pending (c j)"] p(3) [OF that] by (simp add: local_inv_def)
  qed
  then have "Min ((\<lambda>j. last_epoch e0 (inputs j)) ` {..<N}) = xf_epoch (c p)"
    using p(1,2) by (intro Min_eqI) (auto intro!: image_eqI [where x = p])
  moreover have "\<not> xf_failed (c i)" using inv assms(6) by (simp add: cluster_inv_def server_inv_def)
  ultimately show ?thesis using p(3) [OF assms(6)] by simp
qed

lemma exchange_completes_witness:
  "\<exists>c. cluster_reach reliable 2 1 demo_inputs c \<and> xf_epoch (c 0) = 1"
proof -
  have "cluster_sched reliable 2 1 demo_inputs demo_sched (\<lambda>c. idle 2 c)" by code_simp
  then obtain c where c: "cluster_reach reliable 2 1 demo_inputs c" "idle 2 c" by (rule cluster_schedE)
  have "Min ((\<lambda>j. last_epoch 1 (demo_inputs j)) ` {..<2}) = 1" by (simp add: demo_inputs_def numeral_2_eq_2 lessThan_Suc)
  then show ?thesis using exchange_completes [OF c(1) idle_stuck [OF c(2)] _ _ demo_stamped(1), of 0] c(1) by auto
qed

text \<open>
  C8. On a reliable platform and with no epoch left out, the exchange of a finite input ends: there is no infinite run.
\<close>

theorem exchange_terminates:
  assumes "0 < N" "N < 2 ^ 32" "\<forall>j < N. stamped e0 (inputs j)"
  shows "\<nexists>run. run 0 = new_cluster N e0 inputs \<and> (\<forall>n. cluster_step reliable N (run n) (run (Suc n)))"
proof
  assume "\<exists>run. run 0 = new_cluster N e0 inputs \<and> (\<forall>n. cluster_step reliable N (run n) (run (Suc n)))"
  then obtain run where run: "run 0 = new_cluster N e0 inputs" "\<And>n. cluster_step reliable N (run n) (run (Suc n))" by blast
  have "cluster_reach reliable N e0 inputs (run n)" for n
    by (induction n) (auto simp: run intro: cluster_reach.intros)
  then have "cluster_inv N e0 inputs (run n)" for n using cluster_inv_reach assms by blast
  then have "(run (Suc n), run n) \<in> measure (cluster_work N)" for n using cluster_step_work run(2) by fastforce
  then show False using wf_measure [of "cluster_work N"] unfolding wf_iff_no_infinite_down_chain by blast
qed


lemma exchange_terminates_witness:
  "\<nexists>run. run 0 = new_cluster 2 1 demo_inputs \<and> (\<forall>n. cluster_step reliable 2 (run n) (run (Suc n)))"
  using exchange_terminates [OF _ _ demo_stamped(1)] by auto

text \<open>
  The three assumptions are needed. If a wait may end without a notification, a server can abort although
  all batches are in order.
\<close>

theorem exchange_spurious_wakeup:
  "\<exists>c. cluster_reach \<lparr>pf_early = True, pf_lossy = False\<rparr> 2 1 both_inputs c \<and> xf_failed (c 0)"
proof -
  have "cluster_sched \<lparr>pf_early = True, pf_lossy = False\<rparr> 2 1 both_inputs (replicate 6 (0, 0, False) @ [(0, 0, True), (0, 0, False)])
      (\<lambda>c. xf_failed (c 0))" by code_simp
  then show ?thesis by (metis cluster_schedE)
qed

text \<open>
  If messages may be lost, the servers can wait for each other for ever in the first epoch, although all of
  them have batches of the second.
\<close>

theorem exchange_lost_message:
  "\<exists>c. cluster_reach \<lparr>pf_early = False, pf_lossy = True\<rparr> 2 1 both_inputs c \<and> stuck 2 c \<and> xf_epoch (c 0) = 1
     \<and> Min ((\<lambda>j. last_epoch 1 (both_inputs j)) ` {..<2}) = 2"
proof -
  have "cluster_sched \<lparr>pf_early = False, pf_lossy = True\<rparr> 2 1 both_inputs (replicate 6 (0, 0, False) @ replicate 6 (1, 1, False))
      (\<lambda>c. idle 2 c \<and> xf_epoch (c 0) = 1)" by code_simp
  then obtain c where "cluster_reach \<lparr>pf_early = False, pf_lossy = True\<rparr> 2 1 both_inputs c" "idle 2 c \<and> xf_epoch (c 0) = 1"
    by (rule cluster_schedE)
  moreover have "Min ((\<lambda>j. last_epoch 1 (both_inputs j)) ` {..<2}) = 2" by (simp add: both_inputs_def last_epoch_def numeral_2_eq_2 lessThan_Suc)
  ultimately show ?thesis using idle_stuck by blast
qed

text \<open>
  The epoch server, which gives a new number once a second, may
  leave one out for a server that had no requests in between: that server aborts.
\<close>

definition gap_inputs :: "nat \<Rightarrow> string batch list" where
  "gap_inputs i = (if i = 0 then [(1, []), (2, []), (3, [])] else [(1, []), (3, [])])"

theorem exchange_left_out_epoch:
  "\<exists>c. cluster_reach reliable 2 1 gap_inputs c \<and> xf_failed (c 1)"
proof -
  have "cluster_sched reliable 2 1 gap_inputs (replicate 5 (0, 0, False) @ replicate 5 (1, 1, False) @ replicate 4 (1, 0, False)
      @ replicate 2 (1, 1, False)) (\<lambda>c. xf_failed (c 1))" by code_simp
  then show ?thesis by (metis cluster_schedE)
qed

end
