(* ===== verification/ExchangeRefinement.thy ===== *)
theory ExchangeRefinement
  imports BatchHash ExchangeProgress
begin

text \<open>
  The interleaved exchange of \<open>EpochExchange\<close> against the functions of \<open>CommController\<close>: each round
  of a receiver thread, which those functions run as a whole, is a sequence of steps of the
  exchange with the same effect on epoch, barrier, queue and published messages. A transaction
  counts by its epoch and its payload.
\<close>

section \<open>The correspondence\<close>

definition etr_of :: "tstore \<Rightarrow> tptr \<Rightarrow> payload etr" where
  "etr_of st a = (case st a of Some t \<Rightarrow> (getEpoch t, tr_payload t) | None \<Rightarrow> (0, payload_empty))"

definition etr_raw :: "tr_codec \<Rightarrow> string \<Rightarrow> payload etr" where
  "etr_raw co raw = (case deserializeFromString co raw mock_transaction_default of
     Inr (_, t) \<Rightarrow> (getEpoch t, tr_payload t) | Inl _ \<Rightarrow> (0, payload_empty))"

definition abs_set :: "tr_codec \<Rightarrow> tr_with_proof \<Rightarrow> payload etr list" where
  "abs_set co ts = map (etr_raw co) (tp_transaction ts)"

definition abs_broadcast :: "tr_codec \<Rightarrow> proxy_broadcast \<Rightarrow> payload message" where
  "abs_broadcast co m = (pb_epoch m, map (abs_set co) (pb_set m))"

text \<open>The batches of the two pending queues: each proof with as many transactions as it says.\<close>

fun abs_input :: "(string \<Rightarrow> epoch_response) \<Rightarrow> tstore \<Rightarrow> string list \<Rightarrow> tptr list \<Rightarrow> payload batch list" where
  "abs_input parse st [] as = []"
| "abs_input parse st (raw # ps) as = (let r = parse raw; n = unat (er_batch_size (ep_request r)) in
     (ep_epoch r, map (etr_of st) (take n as)) # abs_input parse st ps (drop n as))"

text \<open>A controller and its image; transactions that have left the queue are in the image's still.\<close>

definition corresponds :: "('c, 'k) ctl_env \<Rightarrow> tstore \<Rightarrow> ('c, 'k) controller \<Rightarrow> payload exchange \<Rightarrow> bool" where
  "corresponds ev st s x \<longleftrightarrow> xf_epoch x = ct_epoch s \<and> xf_barrier x = ct_barrier s \<and> \<not> xf_failed x
     \<and> xf_batch x = map (abs_set (cv_codec ev)) (ct_batch s)
     \<and> xf_input x = abs_input (cv_parse_response ev) st (ct_proofs s) (ct_pending s)
     \<and> (\<exists>gone. xf_queue x = gone @ map (etr_of st) (ct_broadcast s))"

definition remote_move :: "nat \<Rightarrow> payload exchange \<Rightarrow> payload exchange \<Rightarrow> bool" where
  "remote_move j x y \<longleftrightarrow> remote_act False j x = Some y"

text \<open>Steps of the local thread and what they publish.\<close>

inductive local_path :: "nat \<Rightarrow> payload exchange \<Rightarrow> payload message list \<Rightarrow> payload exchange \<Rightarrow> bool" for i where
  path_nil: "local_path i x [] x"
| path_step: "local_act False i x = Some (y, out) \<Longrightarrow> local_path i y ms z \<Longrightarrow>
    local_path i x ((case out of None \<Rightarrow> [] | Some m \<Rightarrow> [m]) @ ms) z"

section \<open>Frames\<close>

lemma etr_of_tid: "etr_of (tupd (setTransactionID tid) a st) = etr_of st"
  by (auto simp: fun_eq_iff etr_of_def tupd_app setTransactionID_def getEpoch_def split: option.splits)

lemma etr_of_other: "b \<noteq> a \<Longrightarrow> etr_of (st(a \<mapsto> t)) b = etr_of st b"
  by (simp add: etr_of_def)

lemma abs_input_cong: "(\<And>a. a \<in> set as \<Longrightarrow> etr_of st' a = etr_of st a) \<Longrightarrow> abs_input parse st' ps as = abs_input parse st ps as"
proof (induction ps arbitrary: as)
  case (Cons raw ps)
  then show ?case by (auto simp: Let_def dest: in_set_takeD in_set_dropD)
qed simp

lemma abs_input_tid: "abs_input parse (tupd (setTransactionID tid) a st) ps as = abs_input parse st ps as"
  by (rule abs_input_cong) (simp add: etr_of_tid)

lemma enqueue_frame_ctl:
  assumes "enqueue_stamped sig a (st, s) = (st', s')"
  shows "ct_epoch s' = ct_epoch s" "ct_barrier s' = ct_barrier s" "ct_batch s' = ct_batch s" "ct_proofs s' = ct_proofs s"
    "ct_pending s' = ct_pending s" "ct_fresh s' = ct_fresh s" "ct_sent s' = ct_sent s" "ct_broadcast s' = ct_broadcast s @ [a]"
    "\<exists>tid. st' = tupd (setTransactionID tid) a st"
  using assms by (auto simp: enqueue_stamped_def Let_def split: prod.splits)

lemma verify_fields:
  assumes "verifyBatchHash ev ts r s = Inr (ok, s')"
  shows "ct_epoch s' = ct_epoch s" "ct_barrier s' = ct_barrier s" "ct_batch s' = ct_batch s" "ct_proofs s' = ct_proofs s"
    "ct_pending s' = ct_pending s" "ct_fresh s' = ct_fresh s" "ct_sent s' = ct_sent s" "ct_broadcast s' = ct_broadcast s"
  using verify_frame [OF assms] by auto

lemma corresponds_verify:
  assumes "verifyBatchHash ev ts r s = Inr (ok, s')"
  shows "corresponds ev st s' x \<longleftrightarrow> corresponds ev st s x"
  by (simp add: corresponds_def verify_fields [OF assms])

section \<open>The threads of the other servers\<close>

definition fresh_ok :: "tstore \<Rightarrow> ('c, 'k) controller \<Rightarrow> bool" where
  "fresh_ok st s \<longleftrightarrow> (\<forall>a \<in> set (ct_broadcast s) \<union> set (ct_pending s). a < ct_fresh s)"

lemma receive_one:
  assumes "corresponds ev st s x" "fresh_ok st s" "xf_remote x j = R_ENQ ((getEpoch t, tr_payload t) # xs) sets" "getEpoch t = ct_epoch s"
    and enq: "enqueue_stamped sig (ct_fresh s) (st(ct_fresh s \<mapsto> t), s\<lparr>ct_fresh := ct_fresh s + 1\<rparr>) = (st', s')"
  shows "\<exists>y. remote_move j x y \<and> corresponds ev st' s' y \<and> fresh_ok st' s' \<and> xf_remote y j = R_ENQ xs sets \<and> xf_inbox y = xf_inbox x"
proof -
  let ?a = "ct_fresh s" and ?y = "(xf_enqueue (getEpoch t, tr_payload t) x)\<lparr>xf_remote := (xf_remote x)(j := R_ENQ xs sets)\<rparr>"
  note fr = enqueue_frame_ctl [OF enq]
  obtain tid where st': "st' = tupd (setTransactionID tid) ?a (st(?a \<mapsto> t))" using fr(9) by blast
  have old: "etr_of st' a = etr_of st a" if "a < ?a" for a using that by (simp add: st' etr_of_tid etr_of_other)
  have new: "etr_of st' ?a = (getEpoch t, tr_payload t)" by (simp add: st' etr_of_tid) (simp add: etr_of_def)
  have inp: "abs_input (cv_parse_response ev) st' (ct_proofs s) (ct_pending s) = abs_input (cv_parse_response ev) st (ct_proofs s) (ct_pending s)"
    using assms(2) old by (intro abs_input_cong) (simp add: fresh_ok_def)
  have queue: "map (etr_of st') (ct_broadcast s) = map (etr_of st) (ct_broadcast s)" using assms(2) old by (simp add: fresh_ok_def)
  have enq': "xf_enqueue (getEpoch t, tr_payload t) x = x\<lparr>xf_queue := xf_queue x @ [(getEpoch t, tr_payload t)]\<rparr>"
    using assms(1,4) by (simp add: xf_enqueue_def corresponds_def)
  have "remote_move j x ?y" using assms(1,3) by (simp add: remote_move_def remote_act_def corresponds_def)
  moreover have "corresponds ev st' s' ?y"
    using assms(1) fr by (auto simp: corresponds_def enq' inp queue new)
  moreover have "fresh_ok st' s'" using assms(2) fr by (auto simp: fresh_ok_def less_SucI)
  ultimately show ?thesis by (intro exI [of _ ?y]) (simp add: enq')
qed

lemma receive_set_sim:
  assumes "receive_set ev r raws (st, s) = Inr (st', s')" "corresponds ev st s x" "fresh_ok st s"
    and "xf_remote x j = R_ENQ (map (etr_raw (cv_codec ev)) raws) sets"
  shows "\<exists>y. (remote_move j)\<^sup>*\<^sup>* x y \<and> corresponds ev st' s' y \<and> fresh_ok st' s' \<and> xf_remote y j = R_ENQ [] sets \<and> xf_inbox y = xf_inbox x"
  using assms
proof (induction raws arbitrary: st s x)
  case (Cons raw raws)
  obtain t where t: "deserializeFromString (cv_codec ev) raw mock_transaction_default = Inr (True, t)" "getEpoch t = ct_epoch s"
    "receive_set ev r raws (enqueue_stamped (ep_signature r) (ct_fresh s) (st(ct_fresh s \<mapsto> t), s\<lparr>ct_fresh := ct_fresh s + 1\<rparr>)) = Inr (st', s')"
    using Cons.prems(1) by (auto simp: bind_res_Inr_iff check_Inr_iff Let_def)
  obtain st1 s1 where e: "enqueue_stamped (ep_signature r) (ct_fresh s) (st(ct_fresh s \<mapsto> t), s\<lparr>ct_fresh := ct_fresh s + 1\<rparr>) = (st1, s1)"
    by (meson surj_pair)
  have "xf_remote x j = R_ENQ ((getEpoch t, tr_payload t) # map (etr_raw (cv_codec ev)) raws) sets"
    using Cons.prems(4) t(1) by (simp add: etr_raw_def)
  from receive_one [OF Cons.prems(2,3) this t(2) e] obtain y where y: "remote_move j x y" "corresponds ev st1 s1 y" "fresh_ok st1 s1"
    "xf_remote y j = R_ENQ (map (etr_raw (cv_codec ev)) raws) sets" "xf_inbox y = xf_inbox x" by blast
  from Cons.IH [OF t(3) [unfolded e] y(2-4)] obtain z where "(remote_move j)\<^sup>*\<^sup>* y z" "corresponds ev st' s' z" "fresh_ok st' s'"
    "xf_remote z j = R_ENQ [] sets" "xf_inbox z = xf_inbox y" by blast
  then show ?case using y(1,5) by (intro exI [of _ z]) (simp add: converse_rtranclp_into_rtranclp)
qed auto

lemma receive_sets_sim:
  assumes "receive_sets ev tss (st, s) = Inr (st', s')" "corresponds ev st s x" "fresh_ok st s"
    and "xf_remote x j = R_ENQ [] (map (abs_set (cv_codec ev)) tss)"
  shows "\<exists>y. (remote_move j)\<^sup>*\<^sup>* x y \<and> corresponds ev st' s' y \<and> fresh_ok st' s' \<and> xf_remote y j = R_ENQ [] [] \<and> xf_inbox y = xf_inbox x"
  using assms
proof (induction tss arbitrary: st s x)
  case (Cons ts tss)
  let ?r = "cv_parse_response ev (tp_proof ts)" and ?sets = "map (abs_set (cv_codec ev)) tss"
  obtain ok s1 st2 s2 where v: "verifyBatchHash ev ts ?r s = Inr (ok, s1)" and rs: "receive_set ev ?r (tp_transaction ts) (st, s1) = Inr (st2, s2)"
    and rest: "receive_sets ev tss (st2, s2) = Inr (st', s')"
    using Cons.prems(1) by (auto simp: bind_res_Inr_iff Let_def)
  let ?x = "x\<lparr>xf_remote := (xf_remote x)(j := R_ENQ (abs_set (cv_codec ev) ts) ?sets)\<rparr>"
  have mv: "remote_move j x ?x" using Cons.prems(2,4) by (simp add: remote_move_def remote_act_def corresponds_def)
  have c: "corresponds ev st s1 ?x" unfolding corresponds_verify [OF v] using Cons.prems(2) by (simp add: corresponds_def)
  have f: "fresh_ok st s1" using Cons.prems(3) verify_fields [OF v] by (simp add: fresh_ok_def)
  have "xf_remote ?x j = R_ENQ (map (etr_raw (cv_codec ev)) (tp_transaction ts)) ?sets" by (simp add: abs_set_def)
  from receive_set_sim [OF rs c f this] obtain y where y: "(remote_move j)\<^sup>*\<^sup>* ?x y" "corresponds ev st2 s2 y" "fresh_ok st2 s2"
    "xf_remote y j = R_ENQ [] ?sets" "xf_inbox y = xf_inbox ?x" by blast
  from Cons.IH [OF rest y(2-4)] obtain z where "(remote_move j)\<^sup>*\<^sup>* y z" "corresponds ev st' s' z" "fresh_ok st' s'"
    "xf_remote z j = R_ENQ [] []" "xf_inbox z = xf_inbox y" by blast
  moreover have "(remote_move j)\<^sup>*\<^sup>* x y" by (rule converse_rtranclp_into_rtranclp [OF mv y(1)])
  ultimately show ?case using y(5) by (intro exI [of _ z]) (auto intro: rtranclp_trans)
qed auto

text \<open>The barrier of both is the same.\<close>

lemma wait_sim:
  assumes "comm_wait t s = (opened, s')" "corresponds ev st s x"
  shows "fst (xf_wait t x) = opened" "corresponds ev st s' (snd (xf_wait t x))"
  using assms by (auto simp: comm_wait_def xf_wait_def corresponds_def Let_def split: prod.splits)

text \<open>
  C27. A round of a receiver thread in \<open>CommController\<close> is a sequence of steps of that thread in the
  exchange: it takes the same message, puts the same transactions into the queue and ends at the
  same place of the barrier.
\<close>

theorem receiver_refines_exchange:
  assumes "receiveFromOtherServer ev j raw (st, s) = Inr (opened, st', s')" "corresponds ev st s x" "fresh_ok st s"
    and "xf_remote x j = R_READ" "xf_inbox x j = abs_broadcast (cv_codec ev) (cv_parse_broadcast ev raw) # ms"
  shows "\<exists>y. (remote_move j)\<^sup>*\<^sup>* x y \<and> corresponds ev st' s' y \<and> fresh_ok st' s'
    \<and> xf_remote y j = (if opened then R_READ else R_WAIT) \<and> xf_inbox y j = ms"
proof -
  let ?m = "cv_parse_broadcast ev raw"
  obtain st1 s1 where rs: "receive_sets ev (pb_set ?m) (st, s) = Inr (st1, s1)" and w: "comm_wait j s1 = (opened, s')" and st': "st' = st1"
    using assms(1) by (cases "receive_sets ev (pb_set ?m) (st, s)") (auto simp: receiveFromOtherServer_def split_beta prod_eq_iff)
  obtain x1 where x1: "x1 = x\<lparr>xf_inbox := (xf_inbox x)(j := ms), xf_remote := (xf_remote x)(j := R_ENQ [] (map (abs_set (cv_codec ev)) (pb_set ?m)))\<rparr>" by simp
  have mv: "remote_move j x x1" using assms(2,4,5) by (simp add: x1 remote_move_def remote_act_def corresponds_def abs_broadcast_def)
  have c: "corresponds ev st s x1" using assms(2) by (simp add: x1 corresponds_def)
  have "xf_remote x1 j = R_ENQ [] (map (abs_set (cv_codec ev)) (pb_set ?m))" by (simp add: x1)
  from receive_sets_sim [OF rs c assms(3) this] obtain y where y: "(remote_move j)\<^sup>*\<^sup>* x1 y" "corresponds ev st1 s1 y" "fresh_ok st1 s1"
    "xf_remote y j = R_ENQ [] []" "xf_inbox y = xf_inbox x1" by blast
  obtain y1 where y1: "y1 = y\<lparr>xf_remote := (xf_remote y)(j := R_AWAIT)\<rparr>" by simp
  have mv2: "remote_move j y y1" using y(2,4) by (simp add: y1 remote_move_def remote_act_def corresponds_def)
  have c2: "corresponds ev st1 s1 y1" "\<not> xf_failed y1" "xf_remote y1 j = R_AWAIT" using y(2) by (simp_all add: y1 corresponds_def)
  note ws = wait_sim [OF w c2(1)]
  obtain z where z: "z = (snd (xf_wait j y1))\<lparr>xf_remote := (xf_remote (snd (xf_wait j y1)))(j := (if opened then R_READ else R_WAIT))\<rparr>" by simp
  have mv3: "remote_move j y1 z" using c2(2,3) ws(1) by (simp add: z remote_move_def remote_act_def split_beta)
  have "(remote_move j)\<^sup>*\<^sup>* x y1" by (rule rtranclp.rtrancl_into_rtrancl [OF converse_rtranclp_into_rtranclp [OF mv y(1)] mv2])
  then have "(remote_move j)\<^sup>*\<^sup>* x z" using mv3 by (rule rtranclp.rtrancl_into_rtrancl)
  moreover have "corresponds ev st' s' z" using ws(2) st' by (simp add: corresponds_def z)
  moreover have "fresh_ok st' s'" using y(3) st' w by (auto simp: fresh_ok_def comm_wait_def split: prod.splits)
  moreover have "xf_inbox z j = ms" "xf_remote z j = (if opened then R_READ else R_WAIT)"
    using y(5) by (simp_all add: z wait_frame y1 x1)
  ultimately show ?thesis by blast
qed


section \<open>The local thread\<close>

lemma path_one: "local_act False i x = Some (y, None) \<Longrightarrow> local_path i y ms z \<Longrightarrow> local_path i x ms z"
  using path_step [of i x y None ms z] by simp

lemma path_append: "local_path i x ms y \<Longrightarrow> local_path i y ns z \<Longrightarrow> local_path i x (ms @ ns) z"
  by (induction rule: local_path.induct) (auto intro: path_step)

text \<open>What is published and read back is the transaction.\<close>

lemma etr_raw_serialized:
  assumes "codec_ok co" "wire_sized co t" "serializeToString co t = (ok, raw)"
  shows "ok" "etr_raw co raw = (getEpoch t, tr_payload t)"
proof -
  have len: "length (tr_body co t) + 32 < 2 ^ 31" using assms(2) by (simp add: wire_sized_def)
  show "ok" using serialize_ok [of co t] len assms(3) by simp
  show "etr_raw co raw = (getEpoch t, tr_payload t)"
    using deserialize_body [OF assms(1), of t "sha256_string (tr_body co t)" mock_transaction_default] len serialize_ok [of co t] assms(3)
    by (simp add: etr_raw_def sha256_string_length getEpoch_def)
qed

text \<open>The loop over the transactions of a batch; its set grows in the image one by one.\<close>

lemma stamp_local_sim:
  assumes "stamp_local ev r as (st, s) = Inr (raws, st', s')" "codec_ok (cv_codec ev)"
    and "\<forall>a \<in> set as. \<exists>t. st a = Some t \<and> wire_sized (cv_codec ev) t"
    and "xf_local x = L_ENQ (map (etr_of st) as)" "xf_batch x = map (abs_set (cv_codec ev)) (ct_batch s) @ [ys]"
    and "corresponds ev st s (x\<lparr>xf_batch := map (abs_set (cv_codec ev)) (ct_batch s)\<rparr>)" "distinct as"
  shows "\<exists>y. local_path i x [] y \<and> corresponds ev st' s' (y\<lparr>xf_batch := map (abs_set (cv_codec ev)) (ct_batch s')\<rparr>)
    \<and> xf_local y = L_READ \<and> xf_batch y = map (abs_set (cv_codec ev)) (ct_batch s) @ [ys @ map (etr_raw (cv_codec ev)) raws]
    \<and> xf_inbox y = xf_inbox x \<and> xf_remote y = xf_remote x \<and> ct_batch s' = ct_batch s"
  using assms
proof (induction as arbitrary: st s x ys raws)
  case Nil
  have "local_act False i x = Some (x\<lparr>xf_local := L_READ\<rparr>, None)" using Nil.prems(4,6) by (simp add: local_act_def corresponds_def)
  then have "local_path i x [] (x\<lparr>xf_local := L_READ\<rparr>)" by (rule path_one [OF _ path_nil])
  then show ?case using Nil.prems by (intro exI [of _ "x\<lparr>xf_local := L_READ\<rparr>"]) (simp add: corresponds_def)
next
  case (Cons a as)
  obtain t where t: "st a = Some t" "wire_sized (cv_codec ev) t" using Cons.prems(3) by auto
  obtain ok raw where ser: "serializeToString (cv_codec ev) t = (ok, raw)" by (cases "serializeToString (cv_codec ev) t")
  note raw = etr_raw_serialized [OF Cons.prems(2) t(2) ser]
  obtain st1 s1 where e: "enqueue_stamped (ep_signature r) a (st, s) = (st1, s1)" by (meson surj_pair)
  obtain raws1 where st: "getEpoch t = ct_epoch s" "stamp_local ev r as (st1, s1) = Inr (raws1, st', s')" "raws = raw # raws1"
    using Cons.prems(1) t(1) ser raw(1) e by (auto simp: check_Inr_iff bind_res_Inr_iff split: if_splits)
  note fr = enqueue_frame_ctl [OF e]
  obtain tid where st1: "st1 = tupd (setTransactionID tid) a st" using fr(9) by blast
  have eq: "etr_of st1 = etr_of st" "abs_input parse st1 ps bs = abs_input parse st ps bs" for parse ps bs
    by (simp_all add: st1 etr_of_tid abs_input_tid)
  have at: "etr_of st a = (getEpoch t, tr_payload t)" using t(1) by (simp add: etr_of_def)
  obtain x1 where x1: "x1 = x\<lparr>xf_queue := xf_queue x @ [etr_of st a], xf_batch := map (abs_set (cv_codec ev)) (ct_batch s) @ [ys @ [etr_of st a]],
      xf_local := L_ENQ (map (etr_of st) as)\<rparr>" by simp
  have "local_act False i x = Some (x1, None)"
    using Cons.prems(4,5,6) st(1) by (simp add: local_act_def corresponds_def xf_enqueue_def at x1 add_transaction_def)
  note mv = path_one [OF this]
  have x1c: "corresponds ev st1 s1 (x1\<lparr>xf_batch := map (abs_set (cv_codec ev)) (ct_batch s1)\<rparr>)"
    using Cons.prems(6) fr(1-8) by (auto simp: corresponds_def x1 eq)
  have x1s: "\<forall>b \<in> set as. \<exists>t. st1 b = Some t \<and> wire_sized (cv_codec ev) t"
    using Cons.prems(3,7) by (auto simp: st1 tupd_app)
  have x1p: "xf_local x1 = L_ENQ (map (etr_of st1) as)" "xf_batch x1 = map (abs_set (cv_codec ev)) (ct_batch s1) @ [ys @ [etr_of st a]]"
    using fr by (simp_all add: x1 eq)
  have d: "distinct as" using Cons.prems(7) by simp
  from Cons.IH [OF st(2) Cons.prems(2) x1s x1p x1c d]
  obtain y where y: "local_path i x1 [] y" "corresponds ev st' s' (y\<lparr>xf_batch := map (abs_set (cv_codec ev)) (ct_batch s')\<rparr>)"
    "xf_local y = L_READ" "xf_batch y = map (abs_set (cv_codec ev)) (ct_batch s1) @ [(ys @ [etr_of st a]) @ map (etr_raw (cv_codec ev)) raws1]"
    "xf_inbox y = xf_inbox x1" "xf_remote y = xf_remote x1" "ct_batch s' = ct_batch s1"
    by blast
  then show ?case using mv [OF y(1)] fr st(3) raw(2) by (intro exI [of _ y]) (simp add: x1 at)
qed


lemma local_batch_sim:
  assumes lb: "local_batch ev raw r as (st, s) = Inr (ok, st', s')" and co: "codec_ok (cv_codec ev)"
    and as: "distinct as" "\<forall>a \<in> set as. \<exists>t. st a = Some t \<and> wire_sized (cv_codec ev) t"
    and c: "corresponds ev st s x" and pc: "xf_local x = L_CHECK (ep_epoch r, map (etr_of st) as)"
  shows "\<exists>y. local_path i x [] y \<and> corresponds ev st' s' y \<and> xf_local y = L_READ"
proof -
  let ?co = "cv_codec ev"
  obtain raws st1 s1 where e: "ep_epoch r = ct_epoch s" and sl: "stamp_local ev r as (st, s) = Inr (raws, st1, s1)"
    and v: "verifyBatchHash ev \<lparr>tp_proof = raw, tp_transaction = raws\<rparr> r (s1\<lparr>ct_batch := ct_batch s1 @ [\<lparr>tp_proof = raw, tp_transaction = raws\<rparr>]\<rparr>) = Inr (ok, s')"
    and st': "st' = st1"
    using lb by (auto simp: local_batch_def check_Inr_iff bind_res_Inr_iff Let_def)
  obtain x1 where x1: "x1 = x\<lparr>xf_batch := xf_batch x @ [[]], xf_local := L_ENQ (map (etr_of st) as)\<rparr>" by simp
  have "local_act False i x = Some (x1, None)" using c pc e by (simp add: local_act_def corresponds_def x1)
  note mv = path_one [OF this]
  have pre: "xf_local x1 = L_ENQ (map (etr_of st) as)" "xf_batch x1 = map (abs_set ?co) (ct_batch s) @ [[]]"
    "corresponds ev st s (x1\<lparr>xf_batch := map (abs_set ?co) (ct_batch s)\<rparr>)"
    using c by (simp_all add: x1 corresponds_def)
  obtain y where y: "local_path i x1 [] y" "corresponds ev st1 s1 (y\<lparr>xf_batch := map (abs_set ?co) (ct_batch s1)\<rparr>)" "xf_local y = L_READ"
    "xf_batch y = map (abs_set ?co) (ct_batch s) @ [[] @ map (etr_raw ?co) raws]" "ct_batch s1 = ct_batch s"
    using stamp_local_sim [OF sl co as(2) pre as(1)] by blast
  have "corresponds ev st1 s' y" unfolding corresponds_verify [OF v] using y(2,4,5) by (simp add: corresponds_def abs_set_def)
  then show ?thesis using mv [OF y(1)] y(3) st' by blast
qed

lemma local_take_sim:
  assumes lt: "local_take ev s = Inr (raw, r, as, s1)" and le: "local_epoch_end i r s1 = (opened, s2)"
    and c: "corresponds ev st s x" and pc: "xf_local x = L_READ"
  shows "\<exists>y. local_path i x (if ep_epoch r > ct_epoch s then [abs_broadcast (cv_codec ev) (last (ct_sent s2))] else []) y
    \<and> corresponds ev st s2 y \<and> xf_local y = (if opened then L_CHECK (ep_epoch r, map (etr_of st) as) else L_WAIT (ep_epoch r, map (etr_of st) as))"
proof -
  let ?b = "(ep_epoch r, map (etr_of st) as)"
  obtain ps where ps: "ct_proofs s = raw # ps" "r = cv_parse_response ev raw" "as = take (unat (er_batch_size (ep_request r))) (ct_pending s)"
    and s1: "s1 = s\<lparr>ct_proofs := ps, ct_pending := drop (unat (er_batch_size (ep_request r))) (ct_pending s)\<rparr>"
    using lt by (auto simp: local_take_def Let_def split: list.splits if_splits)
  have inp: "xf_input x = ?b # abs_input (cv_parse_response ev) st (ct_proofs s1) (ct_pending s1)"
    using c ps by (simp add: corresponds_def s1 Let_def)
  have cf: "xf_epoch x = ct_epoch s" "\<not> xf_failed x" using c by (simp_all add: corresponds_def)
  show ?thesis
  proof (cases "ep_epoch r > ct_epoch s")
    case True
    obtain s1' where s1': "s1' = s1\<lparr>ct_sent := ct_sent s1 @ [\<lparr>pb_epoch = ct_epoch s1, pb_set = ct_batch s1\<rparr>], ct_batch := []\<rparr>" by simp
    have w: "comm_wait i s1' = (opened, s2)" using le True by (simp add: local_epoch_end_def s1' s1)
    obtain x1 where x1: "x1 = x\<lparr>xf_input := abs_input (cv_parse_response ev) st (ct_proofs s1) (ct_pending s1), xf_batch := [], xf_local := L_AWAIT ?b\<rparr>" by simp
    have a1: "local_act False i x = Some (x1, Some (xf_epoch x, xf_batch x))" using cf pc inp True by (simp add: local_act_def x1)
    have c1: "corresponds ev st s1' x1" using c by (simp add: corresponds_def x1 s1' s1)
    note ws = wait_sim [OF w c1]
    obtain y where y: "y = (snd (xf_wait i x1))\<lparr>xf_local := (if opened then L_CHECK ?b else L_WAIT ?b)\<rparr>" by simp
    have "xf_local x1 = L_AWAIT ?b" "\<not> xf_failed x1" using c by (simp_all add: x1 corresponds_def)
    then have a2: "local_act False i x1 = Some (y, None)" using ws(1) by (simp add: local_act_def y split_beta)
    have "ct_sent s2 = ct_sent s1'" using w by (auto simp: comm_wait_def split: prod.splits)
    then have "abs_broadcast (cv_codec ev) (last (ct_sent s2)) = (xf_epoch x, xf_batch x)"
      using c by (simp add: s1' abs_broadcast_def corresponds_def s1)
    moreover have "local_path i x [(xf_epoch x, xf_batch x)] y" using path_step [OF a1 path_one [OF a2 path_nil]] by simp
    moreover have "corresponds ev st s2 y" using ws(2) by (simp add: corresponds_def y)
    ultimately show ?thesis using True by (intro exI [of _ y]) (simp add: y)
  next
    case False
    have s2: "s2 = s1" "opened" using le False by (simp_all add: local_epoch_end_def s1)
    obtain y where y: "y = x\<lparr>xf_input := abs_input (cv_parse_response ev) st (ct_proofs s1) (ct_pending s1), xf_local := L_CHECK ?b\<rparr>" by simp
    have "local_act False i x = Some (y, None)" using cf pc inp False by (simp add: local_act_def y)
    then have "local_path i x [] y" by (rule path_one [OF _ path_nil])
    then show ?thesis using False s2 c by (intro exI [of _ y]) (simp add: corresponds_def y s1)
  qed
qed

text \<open>The return from the barrier, once the local thread is no longer among those that wait.\<close>

lemma local_resume_sim:
  assumes "corresponds ev st s x" "xf_local x = L_WAIT b" "i \<notin> set (cb_waiting (ct_barrier s))"
  shows "\<exists>y. local_path i x [] y \<and> corresponds ev st s y \<and> xf_local y = L_CHECK b"
proof -
  have "local_act False i x = Some (x\<lparr>xf_local := L_CHECK b\<rparr>, None)"
    using assms by (simp add: local_act_def corresponds_def xf_resume_def)
  then have "local_path i x [] (x\<lparr>xf_local := L_CHECK b\<rparr>)" by (rule path_one [OF _ path_nil])
  then show ?thesis using assms(1) by (intro exI [of _ "x\<lparr>xf_local := L_CHECK b\<rparr>"]) (simp add: corresponds_def)
qed

definition local_place :: "bool \<Rightarrow> payload batch \<Rightarrow> payload local_pc" where
  "local_place opened b = (if opened then L_CHECK b else L_WAIT b)"

lemma local_rest_sim:
  assumes "local_batch ev raw r as (st2, s3) = Inr (ok, st', s4)" "codec_ok (cv_codec ev)"
    and "distinct as" "\<forall>a \<in> set as. \<exists>t. st2 a = Some t \<and> wire_sized (cv_codec ev) t"
    and "corresponds ev st2 s3 z" "xf_local z = local_place opened (ep_epoch r, map (etr_of st2) as)"
    and "opened \<or> i \<notin> set (cb_waiting (ct_barrier s3))"
  shows "\<exists>w. local_path i z [] w \<and> corresponds ev st' s4 w \<and> xf_local w = L_READ"
proof (cases opened)
  case True
  then show ?thesis using local_batch_sim [OF assms(1-5)] assms(6) by (simp add: local_place_def)
next
  case False
  then have "xf_local z = L_WAIT (ep_epoch r, map (etr_of st2) as)" "i \<notin> set (cb_waiting (ct_barrier s3))"
    using assms(6,7) by (simp_all add: local_place_def)
  then obtain y where y: "local_path i z [] y" "corresponds ev st2 s3 y" "xf_local y = L_CHECK (ep_epoch r, map (etr_of st2) as)"
    using local_resume_sim [OF assms(5)] by blast
  obtain w where "local_path i y [] w" "corresponds ev st' s4 w" "xf_local w = L_READ"
    using local_batch_sim [OF assms(1-4) y(2,3)] by blast
  then show ?thesis using path_append [OF y(1)] by fastforce
qed

text \<open>
  C28. A round of the local thread in \<open>CommController\<close> is a sequence of steps of the local thread in
  the exchange, with the same message, if any, to the other servers. Up to the barrier it goes to
  the check of the epoch when it has not ended an epoch or has opened the barrier, and waits
  otherwise (\<open>local_place\<close>). From there, in whatever state the other threads have left the
  controller by then, its batch unchanged, and once a waiting thread has been released, the
  rest of the round ends at the next read. The codec reads back what it writes and the
  transactions, which are distinct, fit the wire: what the other servers read are the epochs
  and payloads that have been queued.
\<close>

theorem local_thread_refines_exchange:
  assumes "local_take ev s = Inr (raw, r, as, s1)" "local_epoch_end i r s1 = (opened, s2)"
    and "corresponds ev st s x" "xf_local x = L_READ" "codec_ok (cv_codec ev)"
    and "distinct as" "\<forall>a \<in> set as. \<exists>t. st a = Some t \<and> wire_sized (cv_codec ev) t"
  shows "\<exists>y. local_path i x (if ep_epoch r > ct_epoch s then [abs_broadcast (cv_codec ev) (last (ct_sent s2))] else []) y
    \<and> corresponds ev st s2 y \<and> xf_local y = local_place opened (ep_epoch r, map (etr_of st) as)
    \<and> (\<forall>st2 s3 z ok st' s4. corresponds ev st2 s3 z \<longrightarrow> xf_local z = xf_local y \<longrightarrow> (\<forall>a \<in> set as. st2 a = st a) \<longrightarrow>
         opened \<or> i \<notin> set (cb_waiting (ct_barrier s3)) \<longrightarrow> local_batch ev raw r as (st2, s3) = Inr (ok, st', s4) \<longrightarrow>
         (\<exists>w. local_path i z [] w \<and> corresponds ev st' s4 w \<and> xf_local w = L_READ))"
proof -
  obtain y where y: "local_path i x (if ep_epoch r > ct_epoch s then [abs_broadcast (cv_codec ev) (last (ct_sent s2))] else []) y"
    "corresponds ev st s2 y" "xf_local y = local_place opened (ep_epoch r, map (etr_of st) as)"
    using local_take_sim [OF assms(1-4)] by (auto simp: local_place_def)
  have "\<exists>w. local_path i z [] w \<and> corresponds ev st' s4 w \<and> xf_local w = L_READ"
    if "corresponds ev st2 s3 z" "xf_local z = xf_local y" and same: "\<forall>a \<in> set as. st2 a = st a"
      and "opened \<or> i \<notin> set (cb_waiting (ct_barrier s3))" "local_batch ev raw r as (st2, s3) = Inr (ok, st', s4)" for st2 s3 z ok st' s4
  proof -
    have "map (etr_of st2) as = map (etr_of st) as" using same by (simp add: etr_of_def)
    then have "xf_local z = local_place opened (ep_epoch r, map (etr_of st2) as)" using that(2) y(3) by argo
    moreover have "\<forall>a \<in> set as. \<exists>t. st2 a = Some t \<and> wire_sized (cv_codec ev) t" using same assms(7) by simp
    ultimately show ?thesis using local_rest_sim [OF that(5) assms(5,6)] that(1,4) by blast
  qed
  with y show ?thesis by blast
qed


section \<open>Witnesses\<close>

definition demo_exchange :: "payload message list \<Rightarrow> payload batch list \<Rightarrow> payload exchange" where
  "demo_exchange ms input = (new_exchange 1 1 input)\<lparr>xf_inbox := (\<lambda>_. []) (1 := ms)\<rparr>"

text \<open>A message of one set with one transaction and no proof.\<close>

definition demo_receiver_env :: "(string, nat) ctl_env" where
  "demo_receiver_env = demo_ctl_env\<lparr>cv_parse_broadcast := (\<lambda>_. \<lparr>pb_epoch = 1, pb_set = [\<lparr>tp_proof = [], tp_transaction = [digest_raw ''x'']\<rparr>]\<rparr>)\<rparr>"

lemma receiver_refines_exchange_witness:
  "\<exists>opened st' s' y. receiveFromOtherServer demo_receiver_env 1 [] (Map.empty, demo_controller) = Inr (opened, st', s')
     \<and> corresponds demo_receiver_env st' s' y \<and> xf_inbox y 1 = []"
proof -
  let ?ts = "\<lparr>tp_proof = [], tp_transaction = [digest_raw ''x'']\<rparr>" and ?ev = demo_receiver_env
  have env: "cv_codec ?ev = wire_codec" "cv_parse_response ?ev = unwire_response" "cv_parse_broadcast ?ev [] = \<lparr>pb_epoch = 1, pb_set = [?ts]\<rparr>"
    by (simp_all add: demo_receiver_env_def demo_ctl_env_def)
  have "verifyBatchHash ?ev ?ts (cv_parse_response ?ev (tp_proof ?ts)) demo_controller = Inr (False, demo_controller)"
    by (simp add: verifyBatchHash_def env unwire_response_def unwire_strs.simps)
  moreover have "\<forall>raw \<in> set (tp_transaction ?ts). \<exists>t. deserializeFromString (cv_codec ?ev) raw mock_transaction_default = Inr (True, t)
      \<and> tr_epoch t = ct_epoch demo_controller"
    using digest_raw_reads(2) [of "''x''"] demo_controller_state(3) by (simp add: env digest_transaction_def mock_transaction_def)
  ultimately obtain st' s' where "receive_sets ?ev [?ts] (Map.empty, demo_controller) = Inr (st', s')"
    using receive_set_ok [of "tp_transaction ?ts" ?ev demo_controller "cv_parse_response ?ev (tp_proof ?ts)" Map.empty] by auto
  then obtain opened s2 where r: "receiveFromOtherServer ?ev 1 [] (Map.empty, demo_controller) = Inr (opened, st', s2)"
    by (cases "comm_wait 1 s'") (auto simp: receiveFromOtherServer_def env)
  let ?x = "demo_exchange [abs_broadcast (cv_codec ?ev) (cv_parse_broadcast ?ev [])] []"
  have "corresponds ?ev Map.empty demo_controller ?x" "fresh_ok Map.empty demo_controller" "xf_remote ?x 1 = R_READ"
    "xf_inbox ?x 1 = [abs_broadcast (cv_codec ?ev) (cv_parse_broadcast ?ev [])]"
    by (simp_all add: corresponds_def demo_exchange_def new_exchange_def new_controller_def fresh_ok_def)
  from receiver_refines_exchange [OF r this] r show ?thesis by blast
qed

text \<open>A batch of one transaction whose hash is wrong, which the local thread only logs.\<close>

definition demo_local_env :: "(string, nat) ctl_env" where
  "demo_local_env = demo_ctl_env\<lparr>cv_parse_response := (\<lambda>_. \<lparr>ep_epoch = 1, ep_request = \<lparr>er_batch_size = 1, er_batch_hash = []\<rparr>, ep_nonce = 0, ep_signature = []\<rparr>)\<rparr>"

lemma demo_opened_round:
  "\<exists>r s1 st' s3. local_take demo_local_env (newTransactionHandle [0] ''p'' demo_controller) = Inr (''p'', r, [0], s1)
     \<and> local_epoch_end 0 r s1 = (True, s1)
     \<and> local_batch demo_local_env ''p'' r [0] ([0 \<mapsto> digest_transaction ''x''], s1) = Inr (False, st', s3)
     \<and> wire_sized wire_codec (digest_transaction ''x'')"
proof -
  let ?ev = demo_local_env and ?s = "newTransactionHandle [0] ''p'' demo_controller" and ?st = "[0 \<mapsto> digest_transaction ''x''] :: tstore"
  let ?r = "cv_parse_response ?ev ''p''" and ?s1 = "demo_controller"
  have env: "cv_codec ?ev = wire_codec" "ep_epoch ?r = 1" "er_batch_size (ep_request ?r) = 1" "er_batch_hash (ep_request ?r) = []" "ep_signature ?r = []"
    by (simp_all add: demo_local_env_def demo_ctl_env_def)
  have lt: "local_take ?ev ?s = Inr (''p'', ?r, [0], ?s1)"
    by (simp add: local_take_def newTransactionHandle_def new_controller_def env)
  have le: "local_epoch_end 0 ?r ?s1 = (True, ?s1)" by (simp add: local_epoch_end_def env new_controller_def)
  have sized: "wire_sized (cv_codec ?ev) (digest_transaction ''x'')"
    using digest_transaction_small [of "''x''"] by (simp add: wire_sized_def env digest_transaction_def)
  have pre: "\<forall>a \<in> set [0]. \<exists>t. ?st a = Some t \<and> tr_epoch t = ct_epoch ?s1 \<and> length (tr_body (cv_codec ?ev) t) < 2 ^ 32
      \<and> length (pl_digest (tr_payload t)) < 2 ^ 32"
    using sized by (simp add: wire_sized_def new_controller_def digest_transaction_def mock_transaction_def)
  have st0: "?st 0 = Some (digest_transaction ''x'')" by simp
  obtain st' c where sl: "stamp_local ?ev ?r [0] (?st, ?s1) = Inr ([snd (serializeToString wire_codec (digest_transaction ''x''))], st',
      ?s1\<lparr>ct_hash := c, ct_broadcast := [0]\<rparr>)" "length (sc_block c) = 64"
    using stamp_local_ok [OF _ demo_controller_state(1) _ pre, of ?r] demo_controller_state(5) by (auto simp: env st0 simp del: stamp_local.simps fun_upd_apply)
  let ?ts = "\<lparr>tp_proof = ''p'', tp_transaction = [digest_raw ''x'']\<rparr>" and ?s2 = "?s1\<lparr>ct_hash := c, ct_broadcast := [0]\<rparr>"
  have "\<exists>s3. verifyBatchHash ?ev ?ts ?r (?s2\<lparr>ct_batch := [?ts]\<rparr>) = Inr (False, s3)"
  proof -
    have h: "[] \<noteq> sha256_string d" for d using sha256_string_length [of d] by auto
    have d: "\<forall>raw \<in> set (tp_transaction ?ts). \<exists>d. raw_digest (cv_codec ?ev) raw = Some d \<and> length d < 2 ^ 32"
      using digest_raw_reads(1) [of "''x''"] by (simp add: env)
    show ?thesis using verifyBatchHash_eq [of "?s2\<lparr>ct_batch := [?ts]\<rparr>" ?ts ?ev ?r, OF _ _ d] sl(2) h
      by (auto simp: env)
  qed
  then obtain s3 where lb: "local_batch ?ev ''p'' ?r [0] (?st, ?s1) = Inr (False, st', s3)"
    using sl(1) by (auto simp: local_batch_def env digest_raw_def new_controller_def)
  show ?thesis using lt le lb sized env by auto
qed

text \<open>An empty batch of epoch 2 at one of two servers: the local thread waits until the other thread has opened the barrier.\<close>

definition demo_wait_env :: "(string, nat) ctl_env" where
  "demo_wait_env = demo_ctl_env\<lparr>cv_parse_response := (\<lambda>_. \<lparr>ep_epoch = 2, ep_request = \<lparr>er_batch_size = 0, er_batch_hash = []\<rparr>, ep_nonce = 0, ep_signature = []\<rparr>)\<rparr>"

definition demo_pair :: "(string, nat) controller" where
  "demo_pair = newTransactionHandle [] ''p'' (new_controller demo_sign5 0 2 0)"

definition demo_pair_exchange :: "payload exchange" where
  "demo_pair_exchange = new_exchange 2 1 [(2, [])]"

lemma demo_waiting_round:
  "\<exists>r s1 s2 s3 ok s4. local_take demo_wait_env demo_pair = Inr (''p'', r, [], s1) \<and> local_epoch_end 0 r s1 = (False, s2)
     \<and> comm_wait 1 s2 = (True, s3) \<and> cb_waiting (ct_barrier s3) = [] \<and> local_batch demo_wait_env ''p'' r [] (Map.empty, s3) = Inr (ok, Map.empty, s4)"
proof -
  let ?ev = demo_wait_env and ?s1 = "new_controller demo_sign5 0 2 0 :: (string, nat) controller"
  let ?r = "cv_parse_response ?ev ''p''"
  have env: "ep_epoch ?r = 2" "er_batch_size (ep_request ?r) = 0" by (simp_all add: demo_wait_env_def)
  have lt: "local_take ?ev demo_pair = Inr (''p'', ?r, [], ?s1)"
    by (simp add: local_take_def demo_pair_def newTransactionHandle_def new_controller_def env)
  obtain s2 where le: "local_epoch_end 0 ?r ?s1 = (False, s2)" and s2: "ct_epoch s2 = 1" "ct_barrier s2 = \<lparr>cb_parties = 2, cb_waits = 1, cb_waiting = [0], cb_calls = 0\<rparr>"
    by (simp add: local_epoch_end_def env new_controller_def comm_wait_def barrier_await_def new_barrier_def Let_def word_le_nat_alt)
  obtain s3 where w: "comm_wait 1 s2 = (True, s3)" and s3: "ct_epoch s3 = 2" "cb_waiting (ct_barrier s3) = []"
    by (simp add: comm_wait_def barrier_await_def s2 Let_def)
  have "\<exists>ok s4. verifyBatchHash ?ev \<lparr>tp_proof = ''p'', tp_transaction = []\<rparr> ?r s = Inr (ok, s4)" for s
    by (simp add: verifyBatchHash_def env Let_def split_beta) (metis (full_types))
  then obtain ok s4 where "verifyBatchHash ?ev \<lparr>tp_proof = ''p'', tp_transaction = []\<rparr> ?r
      (s3\<lparr>ct_batch := ct_batch s3 @ [\<lparr>tp_proof = ''p'', tp_transaction = []\<rparr>]\<rparr>) = Inr (ok, s4)" by blast
  then have "local_batch ?ev ''p'' ?r [] (Map.empty, s3) = Inr (ok, Map.empty, s4)" by (simp add: local_batch_def env s3(1))
  then show ?thesis using lt le w s3(2) by blast
qed

lemma local_thread_refines_exchange_witness:
  "(\<exists>r s1 ok st' s3 w. local_take demo_local_env (newTransactionHandle [0] ''p'' demo_controller) = Inr (''p'', r, [0], s1)
     \<and> local_epoch_end 0 r s1 = (True, s1) \<and> local_batch demo_local_env ''p'' r [0] ([0 \<mapsto> digest_transaction ''x''], s1) = Inr (ok, st', s3)
     \<and> corresponds demo_local_env st' s3 w \<and> xf_local w = L_READ)
   \<and> (\<exists>r s1 s2 s3 ok st' s4 w. local_take demo_wait_env demo_pair = Inr (''p'', r, [], s1) \<and> local_epoch_end 0 r s1 = (False, s2)
     \<and> comm_wait 1 s2 = (True, s3) \<and> local_batch demo_wait_env ''p'' r [] (Map.empty, s3) = Inr (ok, st', s4)
     \<and> corresponds demo_wait_env st' s4 w \<and> xf_local w = L_READ)"
proof
  let ?ev = demo_local_env and ?s = "newTransactionHandle [0] ''p'' demo_controller" and ?st = "[0 \<mapsto> digest_transaction ''x''] :: tstore"
  obtain r s1 st' s3 where lt: "local_take ?ev ?s = Inr (''p'', r, [0], s1)" and le: "local_epoch_end 0 r s1 = (True, s1)"
    and lb: "local_batch ?ev ''p'' r [0] (?st, s1) = Inr (False, st', s3)" and sized: "wire_sized wire_codec (digest_transaction ''x'')"
    using demo_opened_round by blast
  have env: "cv_codec ?ev = wire_codec" "ep_epoch (cv_parse_response ?ev ''p'') = 1" "er_batch_size (ep_request (cv_parse_response ?ev ''p'')) = 1"
    by (simp_all add: demo_local_env_def demo_ctl_env_def)
  let ?x = "demo_exchange [] [(1, [etr_of ?st 0])]"
  have c: "corresponds ?ev ?st ?s ?x" "xf_local ?x = L_READ" "codec_ok (cv_codec ?ev)" "distinct [0 :: tptr]"
    "\<forall>a \<in> set [0]. \<exists>t. ?st a = Some t \<and> wire_sized (cv_codec ?ev) t"
    using sized by (simp_all add: corresponds_def demo_exchange_def new_exchange_def newTransactionHandle_def new_controller_def env wire_codec_ok)
  from local_thread_refines_exchange [OF lt le c] lb obtain w where "corresponds ?ev st' s3 w" "xf_local w = L_READ" by blast
  then show "\<exists>r s1 ok st' s3 w. local_take ?ev ?s = Inr (''p'', r, [0], s1) \<and> local_epoch_end 0 r s1 = (True, s1)
     \<and> local_batch ?ev ''p'' r [0] (?st, s1) = Inr (ok, st', s3) \<and> corresponds ?ev st' s3 w \<and> xf_local w = L_READ"
    using lt le lb by blast
next
  let ?ev = demo_wait_env
  obtain r s1 s2 s3 ok s4 where lt: "local_take ?ev demo_pair = Inr (''p'', r, [], s1)" and le: "local_epoch_end 0 r s1 = (False, s2)"
    and w: "comm_wait 1 s2 = (True, s3)" and free: "0 \<notin> set (cb_waiting (ct_barrier s3))"
    and lb: "local_batch ?ev ''p'' r [] (Map.empty, s3) = Inr (ok, Map.empty, s4)"
    using demo_waiting_round by (metis list.set(1) empty_iff)
  have c: "corresponds ?ev Map.empty demo_pair demo_pair_exchange" "xf_local demo_pair_exchange = L_READ" "codec_ok (cv_codec ?ev)" "distinct []"
    "\<forall>a \<in> set []. \<exists>t. (Map.empty :: tstore) a = Some t \<and> wire_sized (cv_codec ?ev) t"
    by (simp_all add: corresponds_def demo_pair_exchange_def demo_pair_def new_exchange_def newTransactionHandle_def new_controller_def
      demo_wait_env_def demo_ctl_env_def wire_codec_ok)
  from local_thread_refines_exchange [OF lt le c] obtain y where y: "corresponds ?ev Map.empty s2 y"
    and rest: "\<forall>st2 s3 z ok st' s4. corresponds ?ev st2 s3 z \<longrightarrow> xf_local z = xf_local y \<longrightarrow> (\<forall>a \<in> set []. st2 a = None) \<longrightarrow>
         False \<or> 0 \<notin> set (cb_waiting (ct_barrier s3)) \<longrightarrow> local_batch ?ev ''p'' r [] (st2, s3) = Inr (ok, st', s4) \<longrightarrow>
         (\<exists>w. local_path 0 z [] w \<and> corresponds ?ev st' s4 w \<and> xf_local w = L_READ)" by blast
  have "corresponds ?ev Map.empty s3 (snd (xf_wait 1 y))" "xf_local (snd (xf_wait 1 y)) = xf_local y"
    using wait_sim(2) [OF w y(1)] by (simp_all add: wait_frame)
  then have "\<exists>w. local_path 0 (snd (xf_wait 1 y)) [] w \<and> corresponds ?ev Map.empty s4 w \<and> xf_local w = L_READ"
    using rest free lb by simp
  then show "\<exists>r s1 s2 s3 ok st' s4 w. local_take ?ev demo_pair = Inr (''p'', r, [], s1) \<and> local_epoch_end 0 r s1 = (False, s2)
     \<and> comm_wait 1 s2 = (True, s3) \<and> local_batch ?ev ''p'' r [] (Map.empty, s3) = Inr (ok, st', s4)
     \<and> corresponds ?ev st' s4 w \<and> xf_local w = L_READ"
    using lt le w lb by blast
qed

end
