(* ===== verification/ExchangeEdges.thy ===== *)
theory ExchangeEdges
  imports ExchangeRefinement
begin

text \<open>
  Two edges of the exchange of batches: what happens to a server whose users are silent for an
  epoch, and the hash helper that the receiver threads of a server share.
\<close>

section \<open>Transaction ids on a shared helper\<close>

text \<open>
  The local thread and the threads of the other servers all compute ids with the one
  \<open>sha256Helper\<close> of the controller, without a lock: \<open>hash(signature)\<close>, \<open>hash(digest)\<close>, \<open>execute\<close>.
  Here each call is one step; the accesses inside a call would interleave as well.
\<close>

datatype id_pc = I_SIGNATURE | I_DIGEST | I_EXECUTE | I_DONE u32

record id_thread =
  it_signature :: string
  it_digest :: string
  it_pc :: id_pc

definition id_act :: "sha_ctx \<Rightarrow> id_thread \<Rightarrow> (sha_ctx \<times> id_thread) option" where
  "id_act c t = (case it_pc t of
     I_SIGNATURE \<Rightarrow> (let (_, c1) = helper_hash (it_signature t) c in Some (c1, t\<lparr>it_pc := I_DIGEST\<rparr>))
   | I_DIGEST \<Rightarrow> (let (_, c1) = helper_hash (it_digest t) c in Some (c1, t\<lparr>it_pc := I_EXECUTE\<rparr>))
   | I_EXECUTE \<Rightarrow> (let (_, d, c1) = sha_helper_execute c in Some (c1, t\<lparr>it_pc := I_DONE (tid_of_digest d)\<rparr>))
   | I_DONE _ \<Rightarrow> None)"

fun id_run :: "nat list \<Rightarrow> sha_ctx \<Rightarrow> id_thread list \<Rightarrow> (sha_ctx \<times> id_thread list) option" where
  "id_run [] c ts = Some (c, ts)"
| "id_run (i # sched) c ts =
     (if i < length ts then (case id_act c (ts ! i) of None \<Rightarrow> None | Some (c1, t) \<Rightarrow> id_run sched c1 (ts[i := t])) else None)"

definition id_start :: "string \<Rightarrow> string \<Rightarrow> id_thread" where
  "id_start signature digest = \<lparr>it_signature = signature, it_digest = digest, it_pc = I_SIGNATURE\<rparr>"

text \<open>Undisturbed, a thread computes what \<open>transaction_id\<close> says.\<close>

lemma id_run_alone:
  assumes "i < length ts" "ts ! i = id_start sg dg"
  shows "id_run [i, i, i] c ts = (let (tid, c1) = transaction_id sg dg c in Some (c1, ts[i := (id_start sg dg)\<lparr>it_pc := I_DONE tid\<rparr>]))"
  using assms by (simp add: id_act_def id_start_def transaction_id_def split_beta Let_def)

text \<open>A second \<open>execute\<close> returns the same digest.\<close>

lemma execute_again:
  assumes "sha_helper_execute c = (True, d, c1)"
  shows "sha_helper_execute c1 = (True, d, c1)"
proof -
  have "sc_corrupted c = ShaSuccess" using assms by (auto simp: sha_helper_execute_def SHA256Result_def sha_resultN_def split: if_splits)
  moreover then have "c1 = (if sc_computed c then c else sha_finalize 0x80 c)"
    using assms by (auto simp: sha_helper_execute_def SHA256Result_def sha_resultN_def Let_def)
  ultimately have "sc_corrupted c1 = ShaSuccess" "sc_computed c1" by (auto simp: finalize_corrupted) (simp add: sha_finalize_def)
  then show ?thesis using assms \<open>c1 = _\<close> \<open>sc_corrupted c = ShaSuccess\<close>
    by (auto simp: sha_helper_execute_def SHA256Result_def sha_resultN_def Let_def)
qed

text \<open>
  Two threads that compute an id at the same time can end with the same one: when the second
  hashes its digest between the other's last \<open>hash\<close> and its \<open>execute\<close>, both transactions get the
  id of the second. The reserve table then takes them for one transaction.
\<close>

theorem shared_helper_same_id:
  assumes "length (sc_block c) = 64" "length sg0 < 2 ^ 32" "length dg0 < 2 ^ 32" "length sg1 < 2 ^ 32" "length dg1 < 2 ^ 32"
  shows "\<exists>c1 ts. id_run [0, 0, 1, 1, 0, 1] c [id_start sg0 dg0, id_start sg1 dg1] = Some (c1, ts)
    \<and> map it_pc ts = [I_DONE (tid_of_digest (sha256_string dg1)), I_DONE (tid_of_digest (sha256_string dg1))]"
proof -
  obtain a where a: "helper_hash sg0 c = (True, a)" "length (sc_block a) = 64" using hash_absorbs_any [OF assms(1,2)] .
  obtain b where b: "helper_hash dg0 a = (True, b)" "length (sc_block b) = 64" using hash_absorbs_any [OF a(2) assms(3)] .
  obtain d where d: "helper_hash sg1 b = (True, d)" "length (sc_block d) = 64" using hash_absorbs_any [OF b(2) assms(4)] .
  obtain e where e: "helper_hash dg1 d = (True, e)" "absorbed sha256_H0 (str_bytes dg1) e" using hash_absorbs_any [OF d(2) assms(5)] .
  obtain f where f: "sha_helper_execute e = (True, sha256_string dg1, f)" using helper_execute_absorbed [OF e(2)] by blast
  show ?thesis using a b d e f execute_again [OF f] by (simp add: id_act_def id_start_def)
qed

lemma shared_helper_same_id_witness:
  "\<exists>c1 ts. id_run [0, 0, 1, 1, 0, 1] sha_ctx_zero [id_start ''s'' ''x'', id_start ''t'' ''y''] = Some (c1, ts)
    \<and> map it_pc ts = [I_DONE (tid_of_digest (sha256_string ''y'')), I_DONE (tid_of_digest (sha256_string ''y''))]"
  by (rule shared_helper_same_id) (simp_all add: sha_ctx_zero_def)

section \<open>A silent server\<close>

text \<open>
  A server that had no request in a whole epoch aborts at the next one. The epoch server counts on
  for the others, so the proof it gives to this server is two epochs ahead; the local thread
  closes one epoch and then fails the check, whether it passes the barrier at once or waits.
\<close>

theorem silent_server_aborts:
  assumes "epoch_round px now1 now2 q es = Inr (resp, es')" "es_epoch es = ct_epoch s + 2"
    and "\<And>r. px_parse_response px (px_ser_response px r) = r" "cv_parse_response cv = px_parse_response px"
    and "local_take cv s = Inr (resp, r, as, s1)" "local_epoch_end i r s1 = (opened, s2)"
  shows "ep_epoch r = ct_epoch s + 2 \<and> local_batch cv resp r as (st, s2) = Inl CheckFailed
    \<and> local_batch cv resp r as (st, s2\<lparr>ct_epoch := ct_epoch s + 1\<rparr>) = Inl CheckFailed"
proof -
  have "\<exists>r0. resp = px_ser_response px r0 \<and> ep_epoch r0 = ct_epoch s + 2"
    using assms(1,2) by (auto simp: epoch_round_def Let_def bind_res_Inr_iff)
  then have r: "ep_epoch r = ct_epoch s + 2"
    using assms(3-5) by (auto simp: local_take_def Let_def split: list.splits if_splits)
  have s1: "ct_epoch s1 = ct_epoch s" using assms(5) by (auto simp: local_take_def Let_def split: list.splits if_splits)
  have "ct_epoch s2 = ct_epoch s \<or> ct_epoch s2 = ct_epoch s + 1"
    using assms(6) s1 by (auto simp: local_epoch_end_def comm_wait_def split: if_splits prod.splits)
  moreover have "e + 2 \<noteq> e" "e + 2 \<noteq> e + 1" for e :: u32 by auto
  ultimately show ?thesis using r by (auto simp: local_batch_def check_def)
qed


text \<open>Two rounds for another collector, a second each, then one for this server.\<close>

lemma demo_round:
  assumes "es_sign es = demo_sign5\<lparr>cs_mdCtx := m\<rparr>" "es_epoch es \<in> {1, 2, 3}" "es_total es = 0" "epoch_size es = 0"
  shows "\<exists>resp es'. epoch_round demo_proxy now (now + 1) [] es = Inr (resp, es') \<and> es_epoch es' = es_epoch es + 1
    \<and> (\<exists>m. es_sign es' = demo_sign5\<lparr>cs_mdCtx := m\<rparr>) \<and> es_total es' = 0 \<and> es_sizes es' = (es_sizes es)(es_epoch es \<mapsto> 0)
    \<and> resp = wire_response \<lparr>ep_epoch = es_epoch es, ep_request = \<lparr>er_batch_size = 0, er_batch_hash = []\<rparr>, ep_nonce = 0,
        ep_signature = CHR ''s'' # epoch_message (es_epoch es) [] 0\<rparr>"
proof -
  consider "es_epoch es = 1" | "es_epoch es = 2" | "es_epoch es = 3" using assms(2) by auto
  then have "length (epoch_message (es_epoch es) [] 0) \<le> 900"
    by cases (simp_all add: epoch_message_def to_string_def nat_str.simps)
  then have "rsaEncrypt demo_openssl (epoch_message (es_epoch es) [] 0) (es_sign es)
      = Inr (True, CHR ''s'' # epoch_message (es_epoch es) [] 0, demo_sign5\<lparr>cs_mdCtx := epoch_message (es_epoch es) [] 0\<rparr>)"
    using assms(1) by (simp add: rsaEncrypt_def demo_openssl_def demo_sign5_def sign_buffer_size_def)
  moreover have "px_ssl demo_proxy = demo_openssl" "px_ser_response demo_proxy = wire_response"
    "px_parse_epoch_request demo_proxy [] = \<lparr>er_batch_size = 0, er_batch_hash = []\<rparr>"
    by (simp_all add: demo_proxy_def unwire_epoch_request_def unwire_strs.simps)
  ultimately show ?thesis using assms(3,4) unfolding epoch_round_def Let_def TIME_GAP_def
    by (simp del: fun_upd_apply) blast
qed

lemma silent_server_aborts_witness:
  "\<exists>resp1 es1 resp2 es2 resp es3 r s1 opened s2. epoch_round demo_proxy 0 1 [] (new_epoch_server 0 demo_sign5) = Inr (resp1, es1)
     \<and> epoch_round demo_proxy 1 2 [] es1 = Inr (resp2, es2) \<and> epoch_round demo_proxy 2 3 [] es2 = Inr (resp, es3)
     \<and> local_take demo_ctl_env (newTransactionHandle [] resp demo_controller) = Inr (resp, r, [], s1)
     \<and> local_epoch_end 0 r s1 = (opened, s2) \<and> local_batch demo_ctl_env resp r [] (Map.empty, s2) = Inl CheckFailed"
proof -
  let ?es = "new_epoch_server 0 demo_sign5"
  have e0: "es_sign ?es = demo_sign5\<lparr>cs_mdCtx := []\<rparr>" "es_epoch ?es = 1" "es_total ?es = 0" "es_sizes ?es = Map.empty"
    by (simp_all add: new_epoch_server_def demo_sign5_def)
  obtain resp1 es1 m1 where r1: "epoch_round demo_proxy 0 1 [] ?es = Inr (resp1, es1)" "es_epoch es1 = 2"
    "es_sign es1 = demo_sign5\<lparr>cs_mdCtx := m1\<rparr>" "es_total es1 = 0" "es_sizes es1 = [1 \<mapsto> 0]"
    using demo_round [OF e0(1), of 0] e0 by (auto simp: epoch_size_def)
  obtain resp2 es2 m2 where r2: "epoch_round demo_proxy 1 2 [] es1 = Inr (resp2, es2)" "es_epoch es2 = 3"
    "es_sign es2 = demo_sign5\<lparr>cs_mdCtx := m2\<rparr>" "es_total es2 = 0" "es_sizes es2 = [1 \<mapsto> 0, 2 \<mapsto> 0]"
    using demo_round [OF r1(3), of 1] r1 by (auto simp: epoch_size_def)
  let ?r = "\<lparr>ep_epoch = 3, ep_request = \<lparr>er_batch_size = 0, er_batch_hash = []\<rparr>, ep_nonce = 0, ep_signature = CHR ''s'' # epoch_message 3 [] 0\<rparr>"
  obtain resp es3 where r3: "epoch_round demo_proxy 2 3 [] es2 = Inr (resp, es3)" "resp = wire_response ?r"
    using demo_round [OF r2(3), of 2] r2 by (auto simp: epoch_size_def)
  have codecs: "px_parse_response demo_proxy (px_ser_response demo_proxy r) = r" "cv_parse_response demo_ctl_env = px_parse_response demo_proxy" for r
    using demo_codecs by (simp_all add: proxy_codecs_ok_def) (simp add: demo_proxy_def demo_ctl_env_def)
  have "cv_parse_response demo_ctl_env resp = ?r" using codecs(1) [of ?r] by (simp add: codecs(2) r3(2)) (simp add: demo_proxy_def)
  then have lt: "local_take demo_ctl_env (newTransactionHandle [] resp demo_controller) = Inr (resp, ?r, [], demo_controller)"
    by (simp add: local_take_def newTransactionHandle_def new_controller_def)
  obtain opened s2 where le: "local_epoch_end 0 ?r demo_controller = (opened, s2)" by (cases "local_epoch_end 0 ?r demo_controller")
  have "es_epoch es2 = ct_epoch (newTransactionHandle [] resp demo_controller) + 2"
    using r2(2) demo_controller_state(3) by (simp add: newTransactionHandle_def)
  from silent_server_aborts [OF r3(1) this codecs lt le, of Map.empty] r1(1) r2(1) r3(1) lt le show ?thesis by blast
qed

end
