(* ===== verification/ControllerShutdown.thy ===== *)
theory ControllerShutdown
  imports Prelude
begin

text \<open>
  The destructor of \<open>CommController\<close> (\<open>comm_controller.cpp\<close>) with that of its \<open>UserCollector\<close>
  (\<open>user_collector.cpp\<close>), against the two threads of the collector: \<open>collectRequest\<close> and \<open>run\<close>. The
  loop of \<open>run\<close> is \<open>while (true)\<close>. Each statement of a destructor and each access of a thread to the
  collector is one step.
\<close>

section \<open>State\<close>

text \<open>
  Where the destructor is: in front of deleting the two helpers, in \<open>~UserCollector\<close> in front of its
  signal, its join, the loop over the buffer and the release of the object, then in front of the
  signal of the controller and of the joins.
\<close>

datatype dtor_pc = X_DELETE_SIGN | X_DELETE_HASH | X_COLLECTOR_SIGNAL | X_COLLECTOR_JOIN | X_COLLECTOR_DRAIN | X_COLLECTOR_FREE
  | X_SIGNAL | X_JOIN_RUN | X_JOIN_LOCAL | X_JOIN_REMOTE nat | X_END

datatype collect_pc = C_TEST | C_GET | C_EXIT

datatype run_pc = U_TEST | U_DEQUEUE | U_BATCH | U_RETURN

record shutdown =
  sd_dtor :: dtor_pc
  sd_collect :: collect_pc
  sd_run :: run_pc
  sd_collector_finish :: bool
  sd_finish :: bool
  sd_buffer :: "string list"
  sd_local_done :: bool
  sd_remote_done :: "bool list"
  sd_freed :: bool
  sd_used_after_free :: bool

definition new_shutdown :: "string list \<Rightarrow> bool list \<Rightarrow> shutdown" where
  "new_shutdown buffer remotes = \<lparr>sd_dtor = X_DELETE_SIGN, sd_collect = C_TEST, sd_run = U_TEST, sd_collector_finish = False,
     sd_finish = False, sd_buffer = buffer, sd_local_done = False, sd_remote_done = remotes, sd_freed = False, sd_used_after_free = False\<rparr>"

section \<open>Steps\<close>

text \<open>The destructors; a join waits for its thread.\<close>

definition dtor_act :: "shutdown \<Rightarrow> shutdown option" where
  "dtor_act s = (case sd_dtor s of
     X_DELETE_SIGN \<Rightarrow> Some (s\<lparr>sd_dtor := X_DELETE_HASH\<rparr>)
   | X_DELETE_HASH \<Rightarrow> Some (s\<lparr>sd_dtor := X_COLLECTOR_SIGNAL\<rparr>)
   | X_COLLECTOR_SIGNAL \<Rightarrow> Some (s\<lparr>sd_collector_finish := True, sd_dtor := X_COLLECTOR_JOIN\<rparr>)
   | X_COLLECTOR_JOIN \<Rightarrow> if sd_collect s = C_EXIT then Some (s\<lparr>sd_dtor := X_COLLECTOR_DRAIN\<rparr>) else None
   | X_COLLECTOR_DRAIN \<Rightarrow> (case sd_buffer s of [] \<Rightarrow> Some (s\<lparr>sd_dtor := X_COLLECTOR_FREE\<rparr>) | m # ms \<Rightarrow> Some (s\<lparr>sd_buffer := ms\<rparr>))
   | X_COLLECTOR_FREE \<Rightarrow> Some (s\<lparr>sd_freed := True, sd_dtor := X_SIGNAL\<rparr>)
   | X_SIGNAL \<Rightarrow> Some (s\<lparr>sd_finish := True, sd_dtor := X_JOIN_RUN\<rparr>)
   | X_JOIN_RUN \<Rightarrow> if sd_run s = U_RETURN then Some (s\<lparr>sd_dtor := X_JOIN_LOCAL\<rparr>) else None
   | X_JOIN_LOCAL \<Rightarrow> if sd_local_done s then Some (s\<lparr>sd_dtor := X_JOIN_REMOTE 0\<rparr>) else None
   | X_JOIN_REMOTE k \<Rightarrow>
       if k \<ge> length (sd_remote_done s) then Some (s\<lparr>sd_dtor := X_END\<rparr>)
       else if sd_remote_done s ! k then Some (s\<lparr>sd_dtor := X_JOIN_REMOTE (k + 1)\<rparr>) else None
   | X_END \<Rightarrow> None)"

text \<open>\<open>collectRequest\<close>: it blocks in \<open>getRequest\<close> until a user sends something.\<close>

definition collect_act :: "string \<Rightarrow> shutdown \<Rightarrow> shutdown option" where
  "collect_act message s = (case sd_collect s of
     C_TEST \<Rightarrow> Some (s\<lparr>sd_collect := (if sd_collector_finish s then C_EXIT else C_GET)\<rparr>)
   | C_GET \<Rightarrow> Some (s\<lparr>sd_buffer := sd_buffer s @ [message], sd_collect := C_TEST\<rparr>)
   | C_EXIT \<Rightarrow> None)"

text \<open>The condition of the loop of \<open>run\<close>.\<close>

definition run_condition :: bool where "run_condition = True"

text \<open>
  \<open>run\<close>: the buffer is a member of the collector, and so is the socket to the epoch server. It takes \<open>n\<close>
  requests, none when the time is up.
\<close>

definition touch :: "shutdown \<Rightarrow> shutdown" where
  "touch s = s\<lparr>sd_used_after_free := sd_used_after_free s \<or> sd_freed s\<rparr>"

definition run_act :: "nat \<Rightarrow> shutdown \<Rightarrow> shutdown" where
  "run_act n s = (case sd_run s of
     U_TEST \<Rightarrow> s\<lparr>sd_run := (if run_condition then U_DEQUEUE else U_RETURN)\<rparr>
   | U_DEQUEUE \<Rightarrow> (touch s)\<lparr>sd_buffer := drop n (sd_buffer s), sd_run := (if take n (sd_buffer s) = [] then U_TEST else U_BATCH)\<rparr>
   | U_BATCH \<Rightarrow> (touch s)\<lparr>sd_run := U_TEST\<rparr>
   | U_RETURN \<Rightarrow> s)"

text \<open>The receiver threads may end once the controller has signalled.\<close>

inductive shutdown_step :: "shutdown \<Rightarrow> shutdown \<Rightarrow> bool" where
  step_dtor: "dtor_act s = Some s' \<Longrightarrow> shutdown_step s s'"
| step_collect: "collect_act m s = Some s' \<Longrightarrow> shutdown_step s s'"
| step_run: "shutdown_step s (run_act n s)"
| step_local: "sd_finish s \<Longrightarrow> shutdown_step s (s\<lparr>sd_local_done := True\<rparr>)"
| step_remote: "sd_finish s \<Longrightarrow> shutdown_step s (s\<lparr>sd_remote_done := (sd_remote_done s)[k := True]\<rparr>)"

inductive shutdown_reach :: "shutdown \<Rightarrow> shutdown \<Rightarrow> bool" for s0 where
  sd_init: "shutdown_reach s0 s0"
| sd_next: "shutdown_reach s0 s \<Longrightarrow> shutdown_step s s' \<Longrightarrow> shutdown_reach s0 s'"

section \<open>Properties\<close>

text \<open>How far the destructor gets.\<close>

definition before_join_local :: "dtor_pc \<Rightarrow> bool" where
  "before_join_local pc \<longleftrightarrow> (case pc of X_JOIN_LOCAL \<Rightarrow> False | X_JOIN_REMOTE _ \<Rightarrow> False | X_END \<Rightarrow> False | _ \<Rightarrow> True)"

definition shutdown_inv :: "shutdown \<Rightarrow> bool" where
  "shutdown_inv s \<longleftrightarrow> before_join_local (sd_dtor s) \<and> sd_run s \<noteq> U_RETURN
     \<and> (sd_freed s \<longleftrightarrow> sd_dtor s = X_SIGNAL \<or> sd_dtor s = X_JOIN_RUN)"

lemma shutdown_inv_step:
  assumes "shutdown_inv s" "shutdown_step s s'"
  shows "shutdown_inv s'"
  using assms(2)
proof (cases rule: shutdown_step.cases)
  case step_dtor
  then show ?thesis using assms(1)
    by (auto simp: shutdown_inv_def before_join_local_def dtor_act_def split: dtor_pc.splits if_splits list.splits)
next
  case (step_collect m)
  then show ?thesis using assms(1) by (auto simp: shutdown_inv_def collect_act_def split: collect_pc.splits)
next
  case (step_run n)
  then show ?thesis using assms(1) by (auto simp: shutdown_inv_def run_act_def touch_def run_condition_def split: run_pc.splits)
qed (use assms(1) in \<open>simp_all add: shutdown_inv_def\<close>)

text \<open>
  The destructor of the controller never returns: whatever the threads do it stays in front of the
  join of the local receiver, because \<open>run\<close> does not end. And when it waits for \<open>run\<close> the collector
  has been deleted, so that \<open>run\<close> uses freed memory after at most two more
  steps.
\<close>

theorem controller_destructor_hangs:
  assumes "shutdown_reach (new_shutdown buffer remotes) s"
  shows "sd_dtor s \<noteq> X_END \<and> before_join_local (sd_dtor s)
    \<and> (sd_dtor s = X_JOIN_RUN \<longrightarrow> dtor_act s = None \<and> sd_used_after_free (run_act n (run_act n s)))"
proof -
  have "shutdown_inv s" using assms
  proof (induction rule: shutdown_reach.induct)
    case sd_init
    then show ?case by (simp add: shutdown_inv_def new_shutdown_def before_join_local_def)
  next
    case (sd_next s s')
    then show ?case using shutdown_inv_step by blast
  qed
  then show ?thesis
    by (auto simp: shutdown_inv_def before_join_local_def dtor_act_def run_act_def touch_def run_condition_def split: run_pc.splits)
qed

lemma controller_destructor_hangs_witness:
  "\<exists>s. shutdown_reach (new_shutdown [''m''] [False]) s \<and> sd_dtor s = X_JOIN_RUN \<and> dtor_act s = None \<and> sd_used_after_free (run_act 500 (run_act 500 s))"
proof -
  let ?d = "\<lambda>s. the (dtor_act s)" and ?c = "\<lambda>s. the (collect_act ''r'' s)"
  let ?init = "new_shutdown [''m''] [False]"
  have step: "shutdown_reach s0 s \<Longrightarrow> dtor_act s \<noteq> None \<Longrightarrow> shutdown_reach s0 (?d s)" for s0 s
    by (cases "dtor_act s") (auto intro: sd_next step_dtor)
  have cstep: "shutdown_reach s0 s \<Longrightarrow> collect_act ''r'' s \<noteq> None \<Longrightarrow> shutdown_reach s0 (?c s)" for s0 s
    by (cases "collect_act ''r'' s") (auto intro: sd_next step_collect)
  let ?s = "?d (?d (?d (?d (?d (?c (?d (?d (?d ?init))))))))"
  have "shutdown_reach ?init ?s"
    by (rule step, rule step, rule step, rule step, rule step, rule cstep, rule step, rule step, rule step, rule sd_init) (simp_all add: dtor_act_def collect_act_def new_shutdown_def)
  moreover have "sd_dtor ?s = X_JOIN_RUN" by (simp add: dtor_act_def collect_act_def new_shutdown_def)
  ultimately obtain s where s: "shutdown_reach ?init s" "sd_dtor s = X_JOIN_RUN" by blast
  then show ?thesis using controller_destructor_hangs [OF s(1), of 500] by blast
qed

end
