(* ===== verification/BlockIndex.thy ===== *)
theory BlockIndex
  imports Prelude
begin

text \<open>
  The block index of a sub-queue of the lock-free queue (\<open>ImplicitProducer\<close> in
  \<open>concurrent_queue.hpp\<close>): a circular array of entries, each the base index of a block
  and the block. When it is full a header of twice the capacity is published; consumers may go on
  reading the old header. Headers and entries are never freed while the queue lives, so the model
  keeps all headers, the current one last.

  Indices are natural numbers here: \<open>circular_less_than_nat\<close> shows that the comparison of the
  code, on 64-bit indices that wrap around, is \<open><\<close> as long as the compared indices are closer than
  \<open>2 ^ 63\<close>.
\<close>

section \<open>Circular comparison\<close>

definition circular_less_than :: "64 word \<Rightarrow> 64 word \<Rightarrow> bool" where
  "circular_less_than a b \<longleftrightarrow> a - b > push_bit 63 1"

lemma circular_less_than_nat:
  assumes "a < b + 2 ^ 63" "b < a + 2 ^ 63"
  shows "circular_less_than (word_of_nat a) (word_of_nat b) \<longleftrightarrow> a < b"
proof -
  have half: "unat (push_bit 63 (1 :: 64 word)) = 2 ^ 63" by (simp add: push_bit_eq_mult)
  have diff: "unat (word_of_nat a - word_of_nat b :: 64 word) = nat ((int a - int b) mod 2 ^ 64)"
  proof -
    have "word_of_nat a - word_of_nat b = (word_of_int (int a - int b) :: 64 word)" by simp
    then have "uint (word_of_nat a - word_of_nat b :: 64 word) = (int a - int b) mod 2 ^ 64" by (simp only: uint_word_of_int) simp
    then show ?thesis by (metis unat_eq_nat_uint)
  qed
  show ?thesis
  proof (cases "a < b")
    case True
    then have "(int a - int b) mod 2 ^ 64 = int a - int b + 2 ^ 64"
      using assms mod_pos_pos_trivial [of "int a - int b + 2 ^ 64" "2 ^ 64"] by simp
    then show ?thesis using True assms by (simp add: circular_less_than_def word_less_nat_alt half diff)
  next
    case False
    then have "(int a - int b) mod 2 ^ 64 = int a - int b" using assms by (intro mod_pos_pos_trivial) auto
    then show ?thesis using False assms by (simp add: circular_less_than_def word_less_nat_alt half diff)
  qed
qed

section \<open>Entries and headers\<close>

text \<open>\<open>INVALID_BLOCK_BASE\<close> is the key \<open>None\<close>; the null pointer is the value \<open>None\<close>.\<close>

record block_entry =
  ie_key :: "nat option"
  ie_value :: "nat option"

record index_header =
  ih_capacity :: nat
  ih_tail :: nat
  ih_index :: "nat list"

record block_index =
  bi_headers :: "index_header list"
  bi_entries :: "nat \<Rightarrow> block_entry"
  bi_count :: nat
  bi_next_capacity :: nat

abbreviation BLOCK_SIZE :: nat where "BLOCK_SIZE \<equiv> 32"
definition IMPLICIT_INITIAL_INDEX_SIZE :: nat where "IMPLICIT_INITIAL_INDEX_SIZE = 32"

abbreviation current_header :: "block_index \<Rightarrow> index_header" where
  "current_header bi \<equiv> last (bi_headers bi)"

text \<open>
  The constructor, before its call of \<open>new_block_index\<close>. New entries are not initialised: their
  values are whatever the memory holds (\<open>junk\<close>).
\<close>

definition no_block_index :: "(nat \<Rightarrow> nat option) \<Rightarrow> block_index" where
  "no_block_index junk = \<lparr>bi_headers = [], bi_entries = \<lambda>e. \<lparr>ie_key = None, ie_value = junk e\<rparr>, bi_count = 0,
     bi_next_capacity = IMPLICIT_INITIAL_INDEX_SIZE\<rparr>"

text \<open>\<open>new_block_index\<close> when the allocation succeeds; the first header has only new entries.\<close>

definition new_block_index :: "block_index \<Rightarrow> block_index" where
  "new_block_index bi =
    (let prev = current_header bi;
         prevCapacity = (if bi_headers bi = [] then 0 else ih_capacity prev);
         entryCount = (if bi_headers bi = [] then bi_next_capacity bi else prevCapacity);
         old = map (\<lambda>j. ih_index prev ! ((ih_tail prev + 1 + j) mod prevCapacity)) [0..<prevCapacity];
         new = [bi_count bi ..< bi_count bi + entryCount]
     in bi\<lparr>bi_headers := bi_headers bi @ [\<lparr>ih_capacity = bi_next_capacity bi,
             ih_tail = (prevCapacity + bi_next_capacity bi - 1) mod bi_next_capacity bi, ih_index = old @ new\<rparr>],
           bi_entries := (\<lambda>e. if e \<in> set new then (bi_entries bi e)\<lparr>ie_key := None\<rparr> else bi_entries bi e),
           bi_count := bi_count bi + entryCount,
           bi_next_capacity := 2 * bi_next_capacity bi\<rparr>)"

text \<open>\<open>insert_block_index_entry\<close>: the slot after the tail, the test that it is free, the store of its key and of the tail.\<close>

definition next_slot :: "block_index \<Rightarrow> nat" where
  "next_slot bi = (ih_tail (current_header bi) + 1) mod ih_capacity (current_header bi)"

definition next_entry :: "block_index \<Rightarrow> nat" where
  "next_entry bi = ih_index (current_header bi) ! next_slot bi"

definition entry_free :: "block_index \<Rightarrow> nat \<Rightarrow> bool" where
  "entry_free bi e \<longleftrightarrow> ie_key (bi_entries bi e) = None \<or> ie_value (bi_entries bi e) = None"

definition set_key :: "nat \<Rightarrow> nat \<Rightarrow> block_index \<Rightarrow> block_index" where
  "set_key e base bi = bi\<lparr>bi_entries := (bi_entries bi)(e := (bi_entries bi e)\<lparr>ie_key := Some base\<rparr>)\<rparr>"

definition set_value :: "nat \<Rightarrow> nat option \<Rightarrow> block_index \<Rightarrow> block_index" where
  "set_value e b bi = bi\<lparr>bi_entries := (bi_entries bi)(e := (bi_entries bi e)\<lparr>ie_value := b\<rparr>)\<rparr>"

definition set_tail :: "nat \<Rightarrow> block_index \<Rightarrow> block_index" where
  "set_tail p bi = bi\<lparr>bi_headers := butlast (bi_headers bi) @ [(current_header bi)\<lparr>ih_tail := p\<rparr>]\<rparr>"

definition rewind_block_index_tail :: "block_index \<Rightarrow> block_index" where
  "rewind_block_index_tail bi = set_tail
     ((ih_tail (current_header bi) + ih_capacity (current_header bi) - 1) mod ih_capacity (current_header bi)) bi"

text \<open>
  \<open>get_block_index_index_for_index\<close>: how many blocks before the tail entry, whose base is \<open>tailBase\<close>, the
  block of the index is; the division is exact.
\<close>

definition block_base :: "nat \<Rightarrow> nat" where
  "block_base i = i - i mod BLOCK_SIZE"

definition block_index_index :: "nat \<Rightarrow> nat \<Rightarrow> nat \<Rightarrow> nat \<Rightarrow> nat" where
  "block_index_index capacity tail tailBase i =
     nat ((int tail + (int (block_base i) - int tailBase) div int BLOCK_SIZE) mod int capacity)"

lemma block_base_div: "block_base i = 32 * (i div 32)"
  by (simp add: block_base_def minus_mod_eq_mult_div)


text \<open>Where the entry of block \<open>c\<close> is when that of block \<open>m\<close>, not older, is at slot \<open>(o + m) mod capacity\<close>.\<close>

lemma block_index_index_slot:
  "block_index_index capacity ((off + m) mod capacity) (32 * m) i = (off + i div 32) mod capacity"
proof -
  have "int (block_base i) - int (32 * m) = (int (i div 32) - int m) * 32" by (simp only: block_base_div) simp
  then have d: "(int (block_base i) - int (32 * m)) div int BLOCK_SIZE = int (i div 32) - int m" by simp
  have "(int ((off + m) mod capacity) + (int (i div 32) - int m)) mod int capacity
      = (int (off + m) + (int (i div 32) - int m)) mod int capacity" by (metis mod_add_left_eq zmod_int)
  also have "int (off + m) + (int (i div 32) - int m) = int (off + i div 32)" by simp
  finally show ?thesis by (simp only: block_index_index_def d nat_int flip: zmod_int)
qed

end
