(* ===== verification/SubQueue.thy ===== *)
theory SubQueue
  imports BlockIndex
begin

text \<open>
  One sub-queue of the lock-free queue \<open>ConcurrentQueue\<close> (\<open>ImplicitProducer\<close> in
  \<open>concurrent_queue.hpp\<close>): the thread that owns it enqueues, any number of threads dequeue. Every
  access to a shared variable is a step of its own, and the steps of the threads interleave (under
  sequential consistency: the fences and memory orders of the code are not modelled).

  What the code asserts or takes for granted is a fault of the model: reading or destroying an
  element that is not there, constructing one over another, following a null pointer, a counter of a block
  that exceeds the block, a block that is put on the free list twice.

  The free list is the set of its blocks (\<open>FreeList\<close> has the list itself); other sub-queues of the queue take blocks from it and give
  them back. \<open>sq_pushed\<close> and \<open>sq_out\<close> are history: the elements enqueued, and those moved out with
  their indices.
\<close>

section \<open>State\<close>

record 'a qblock =
  qb_slots :: "nat \<Rightarrow> 'a option"
  qb_dequeued :: nat

datatype 'a prod_pc = P_IDLE | P_HEAD 'a | P_INSERT 'a | P_GROW 'a | P_REKEY 'a | P_SLOT 'a nat nat | P_BLOCK 'a nat
  | P_EARLY 'a nat nat | P_PUBLISH 'a nat nat | P_CONSTRUCT 'a | P_STORE 'a
  | P_REWIND nat "nat option" | P_CLEAR nat "nat option" | P_RELEASE nat

text \<open>
  What a dequeue has found out once it has taken \<open>dc_first\<close> up to \<open>dc_end\<close>: the header it reads and the
  slot of its block there, the block, and the part of the block it works on.
\<close>

record deq_claim =
  dc_first :: nat
  dc_end :: nat
  dc_header :: nat
  dc_slot :: nat
  dc_block :: nat
  dc_start :: nat
  dc_index :: nat
  dc_stop :: nat

datatype deq_call = D_dequeue | D_dequeue_bulk nat

datatype deq_pc = D_TAIL | D_OVER nat | D_OPT nat nat | D_TICKET nat nat | D_LOAD nat nat nat | D_EXCESS nat nat nat
  | D_LOSE nat nat | D_HEAD nat nat | D_INDEX nat nat | D_SLOT nat nat nat | D_KEY nat nat nat nat
  | D_VALUE deq_claim | D_MOVE deq_claim | D_EMPTY deq_claim | D_UNLINK deq_claim | D_FREE deq_claim | D_RET nat nat

record 'a consumer =
  cn_call :: deq_call
  cn_pc :: deq_pc
  cn_got :: "'a list"

record 'a subqueue =
  sq_tail :: nat
  sq_head :: nat
  sq_optimistic :: nat
  sq_overcommit :: nat
  sq_tailBlock :: "nat option"
  sq_index :: block_index
  sq_blocks :: "nat \<Rightarrow> 'a qblock"
  sq_free :: "nat set"
  sq_foreign :: "nat set"
  sq_fresh :: nat
  sq_producer :: "'a prod_pc"
  sq_todo :: "'a list"
  sq_consumers :: "nat \<Rightarrow> 'a consumer"
  sq_pushed :: "'a list"
  sq_out :: "(nat \<times> 'a) list"
  sq_fault :: bool

definition new_block :: "'a qblock" where
  "new_block = \<lparr>qb_slots = \<lambda>_. None, qb_dequeued = 0\<rparr>"

text \<open>
  The constructor, on a queue with \<open>pool\<close> blocks; \<open>ok\<close> is false when its \<open>new_block_index\<close> finds no memory.
\<close>

definition new_subqueue :: "bool \<Rightarrow> (nat \<Rightarrow> nat option) \<Rightarrow> nat \<Rightarrow> 'a list \<Rightarrow> 'a subqueue" where
  "new_subqueue ok junk pool todo = \<lparr>sq_tail = 0, sq_head = 0, sq_optimistic = 0, sq_overcommit = 0, sq_tailBlock = None,
     sq_index = (if ok then new_block_index (no_block_index junk) else no_block_index junk), sq_blocks = \<lambda>_. new_block,
     sq_free = {..<pool}, sq_foreign = {}, sq_fresh = pool, sq_producer = P_IDLE, sq_todo = todo,
     sq_consumers = \<lambda>_. \<lparr>cn_call = D_dequeue, cn_pc = D_RET 0 0, cn_got = []\<rparr>, sq_pushed = [], sq_out = [], sq_fault = False\<rparr>"

definition fault :: "'a subqueue \<Rightarrow> 'a subqueue" where
  "fault s = s\<lparr>sq_fault := True\<rparr>"

section \<open>Blocks\<close>

definition slot_of :: "nat \<Rightarrow> nat" where
  "slot_of i = i mod BLOCK_SIZE"

definition get_slot :: "nat \<Rightarrow> nat \<Rightarrow> 'a subqueue \<Rightarrow> 'a option" where
  "get_slot b i s = qb_slots (sq_blocks s b) (slot_of i)"

definition put_slot :: "nat \<Rightarrow> nat \<Rightarrow> 'a option \<Rightarrow> 'a subqueue \<Rightarrow> 'a subqueue" where
  "put_slot b i x s = s\<lparr>sq_blocks := (sq_blocks s)(b := (sq_blocks s b)\<lparr>qb_slots := (qb_slots (sq_blocks s b))(slot_of i := x)\<rparr>)\<rparr>"

definition reset_empty :: "nat \<Rightarrow> 'a subqueue \<Rightarrow> 'a subqueue" where
  "reset_empty b s = s\<lparr>sq_blocks := (sq_blocks s)(b := (sq_blocks s b)\<lparr>qb_dequeued := 0\<rparr>)\<rparr>"

text \<open>\<open>set_many_empty\<close>; \<open>set_empty\<close> is its case \<open>n = 1\<close>. The new value of the counter, and the fault of its assertion.\<close>

definition set_many_empty :: "nat \<Rightarrow> nat \<Rightarrow> 'a subqueue \<Rightarrow> 'a subqueue" where
  "set_many_empty b n s = s\<lparr>sq_blocks := (sq_blocks s)(b := (sq_blocks s b)\<lparr>qb_dequeued := qb_dequeued (sq_blocks s b) + n\<rparr>),
     sq_fault := (sq_fault s \<or> BLOCK_SIZE < qb_dequeued (sq_blocks s b) + n)\<rparr>"

definition is_empty :: "nat \<Rightarrow> 'a subqueue \<Rightarrow> bool" where
  "is_empty b s \<longleftrightarrow> qb_dequeued (sq_blocks s b) = BLOCK_SIZE"

text \<open>\<open>requisition_block\<close>: a block of the pool or of the free list, or a new one.\<close>

definition requisition_block :: "nat \<Rightarrow> 'a subqueue \<Rightarrow> 'a subqueue option" where
  "requisition_block b s =
     (if b \<in> sq_free s then Some (s\<lparr>sq_free := sq_free s - {b}\<rparr>)
      else if b = sq_fresh s then Some (s\<lparr>sq_fresh := sq_fresh s + 1, sq_blocks := (sq_blocks s)(b := new_block)\<rparr>)
      else None)"

definition add_block_to_free_list :: "nat \<Rightarrow> 'a subqueue \<Rightarrow> 'a subqueue" where
  "add_block_to_free_list b s = s\<lparr>sq_free := insert b (sq_free s), sq_fault := (sq_fault s \<or> b \<in> sq_free s)\<rparr>"

section \<open>Enqueue\<close>

text \<open>
  \<open>new (slot) T(element)\<close>. The constructor may throw unless it is declared not to: \<open>ok\<close> is false then.
\<close>

definition construct :: "nat \<Rightarrow> nat \<Rightarrow> 'a \<Rightarrow> 'a subqueue \<Rightarrow> 'a subqueue" where
  "construct b i x s = (if get_slot b i s \<noteq> None then fault s else put_slot b i (Some x) s)"

definition produce :: "'a prod_pc \<Rightarrow> 'a subqueue \<Rightarrow> 'a subqueue" where
  "produce pc s = s\<lparr>sq_producer := pc\<rparr>"

text \<open>\<open>insert_block_index_entry\<close> up to the store of the tail, and \<open>new_block_index\<close>.\<close>

definition insert_entry_act :: "bool \<Rightarrow> 'a subqueue \<Rightarrow> 'a subqueue option" where
  "insert_entry_act ok s = (case sq_producer s of
     P_INSERT x \<Rightarrow>
       if bi_headers (sq_index s) = [] then Some (produce P_IDLE s)
       else let e = next_entry (sq_index s) in
         if entry_free (sq_index s) e
         then Some (produce (P_SLOT x (next_slot (sq_index s)) e) (s\<lparr>sq_index := set_key e (sq_tail s) (sq_index s)\<rparr>))
         else Some (produce (P_GROW x) s)
   | P_GROW x \<Rightarrow>
       if ok then Some (produce (P_REKEY x) (s\<lparr>sq_index := new_block_index (sq_index s)\<rparr>)) else Some (produce P_IDLE s)
   | P_REKEY x \<Rightarrow> let e = next_entry (sq_index s) in
       if ie_key (bi_entries (sq_index s) e) \<noteq> None then Some (fault s)
       else Some (produce (P_SLOT x (next_slot (sq_index s)) e) (s\<lparr>sq_index := set_key e (sq_tail s) (sq_index s)\<rparr>))
   | P_SLOT x p e \<Rightarrow> Some (produce (P_BLOCK x e) (s\<lparr>sq_index := set_tail p (sq_index s)\<rparr>))
   | _ \<Rightarrow> None)"

text \<open>
  \<open>enqueue\<close>: at the end of a block a new one is put into the index; \<open>got\<close> is the block that
  \<open>requisition_block\<close> finds, if any. When the constructor may throw, the element is constructed
  before the block is published.
\<close>

definition enqueue_act :: "bool \<Rightarrow> bool \<Rightarrow> nat option \<Rightarrow> 'a subqueue \<Rightarrow> 'a subqueue option" where
  "enqueue_act nothrow ok got s = (case sq_producer s of
     P_IDLE \<Rightarrow> (case sq_todo s of [] \<Rightarrow> None
       | x # xs \<Rightarrow> Some (produce (if slot_of (sq_tail s) = 0 then P_HEAD x else P_CONSTRUCT x) (s\<lparr>sq_todo := xs\<rparr>)))
   | P_HEAD x \<Rightarrow>
       if sq_tail s < sq_head s then Some (fault s)
       else if \<not> sq_head s < sq_tail s + BLOCK_SIZE then Some (produce P_IDLE s)
       else Some (produce (P_INSERT x) s)
   | P_BLOCK x e \<Rightarrow> (case got of
       None \<Rightarrow> Some (produce (P_REWIND e None) s)
     | Some b \<Rightarrow> (case requisition_block b s of None \<Rightarrow> None
         | Some s' \<Rightarrow> Some (produce (if nothrow then P_PUBLISH x e b else P_EARLY x e b) (reset_empty b s'))))
   | P_EARLY x e b \<Rightarrow>
       if ok then Some (produce (P_PUBLISH x e b) (construct b (sq_tail s) x s)) else Some (produce (P_REWIND e (Some b)) s)
   | P_PUBLISH x e b \<Rightarrow>
       Some (produce (if nothrow then P_CONSTRUCT x else P_STORE x) (s\<lparr>sq_index := set_value e (Some b) (sq_index s), sq_tailBlock := Some b\<rparr>))
   | P_CONSTRUCT x \<Rightarrow>
       if \<not> ok \<and> \<not> nothrow then Some (produce P_IDLE s)
       else (case sq_tailBlock s of None \<Rightarrow> Some (fault s) | Some b \<Rightarrow> Some (produce (P_STORE x) (construct b (sq_tail s) x s)))
   | P_STORE x \<Rightarrow> Some (produce P_IDLE (s\<lparr>sq_tail := sq_tail s + 1, sq_pushed := sq_pushed s @ [x]\<rparr>))
   | P_REWIND e b \<Rightarrow> Some (produce (P_CLEAR e b) (s\<lparr>sq_index := rewind_block_index_tail (sq_index s)\<rparr>))
   | P_CLEAR e b \<Rightarrow> Some (produce (case b of None \<Rightarrow> P_IDLE | Some b \<Rightarrow> P_RELEASE b) (s\<lparr>sq_index := set_value e None (sq_index s)\<rparr>))
   | P_RELEASE b \<Rightarrow> Some (produce P_IDLE (add_block_to_free_list b s))
   | _ \<Rightarrow> insert_entry_act ok s)"

section \<open>Dequeue\<close>

definition at :: "deq_pc \<Rightarrow> 'a consumer \<Rightarrow> 'a consumer" where
  "at pc c = c\<lparr>cn_pc := pc\<rparr>"

text \<open>
  The elements are taken: look up the block of the first (\<open>get_block_index_index_for_index\<close>), move the
  elements out of each block, count them, and give a block back that has been emptied.
\<close>

definition next_block :: "'a subqueue \<Rightarrow> deq_claim \<Rightarrow> deq_pc" where
  "next_block s q = (if dc_index q = dc_end q then D_RET (dc_first q) (dc_end q - dc_first q)
     else D_VALUE (q\<lparr>dc_slot := (dc_slot q + 1) mod ih_capacity (bi_headers (sq_index s) ! dc_header q)\<rparr>))"

definition claim_entry :: "'a subqueue \<Rightarrow> deq_claim \<Rightarrow> nat" where
  "claim_entry s q = ih_index (bi_headers (sq_index s) ! dc_header q) ! dc_slot q"

definition lookup_act :: "'a subqueue \<Rightarrow> 'a consumer \<Rightarrow> ('a subqueue \<times> 'a consumer) option" where
  "lookup_act s c = (case cn_pc c of
     D_INDEX f l \<Rightarrow>
       if bi_headers (sq_index s) = [] then Some (fault s, c) else Some (s, at (D_SLOT f l (length (bi_headers (sq_index s)) - 1)) c)
   | D_SLOT f l h \<Rightarrow> Some (s, at (D_KEY f l h (ih_tail (bi_headers (sq_index s) ! h))) c)
   | D_KEY f l h p \<Rightarrow>
       (let header = bi_headers (sq_index s) ! h; entry = (\<lambda>p. bi_entries (sq_index s) (ih_index header ! p)) in
        case ie_key (entry p) of None \<Rightarrow> Some (fault s, c)
        | Some tailBase \<Rightarrow>
            let slot = block_index_index (ih_capacity header) p tailBase f in
            if ie_key (entry slot) \<noteq> Some (block_base f) \<or> ie_value (entry slot) = None then Some (fault s, c)
            else Some (s, at (D_VALUE \<lparr>dc_first = f, dc_end = l, dc_header = h, dc_slot = slot, dc_block = 0,
              dc_start = f, dc_index = f, dc_stop = f\<rparr>) c))
   | _ \<Rightarrow> None)"

definition release_act :: "'a subqueue \<Rightarrow> 'a consumer \<Rightarrow> ('a subqueue \<times> 'a consumer) option" where
  "release_act s c = (case cn_pc c of
     D_EMPTY q \<Rightarrow>
       (let s' = set_many_empty (dc_block q) (dc_stop q - dc_start q) s in
        Some (s', at (if is_empty (dc_block q) s' then D_UNLINK q else next_block s q) c))
   | D_UNLINK q \<Rightarrow> Some (s\<lparr>sq_index := set_value (claim_entry s q) None (sq_index s)\<rparr>, at (D_FREE q) c)
   | D_FREE q \<Rightarrow> Some (add_block_to_free_list (dc_block q) s, at (next_block s q) c)
   | _ \<Rightarrow> lookup_act s c)"

definition drain_act :: "'a subqueue \<Rightarrow> 'a consumer \<Rightarrow> ('a subqueue \<times> 'a consumer) option" where
  "drain_act s c = (case cn_pc c of
     D_VALUE q \<Rightarrow> (case ie_value (bi_entries (sq_index s) (claim_entry s q)) of None \<Rightarrow> Some (fault s, c)
       | Some b \<Rightarrow> Some (s, at (D_MOVE (q\<lparr>dc_block := b, dc_start := dc_index q,
           dc_stop := (if dc_end q < block_base (dc_index q) + BLOCK_SIZE then dc_end q else block_base (dc_index q) + BLOCK_SIZE)\<rparr>)) c))
   | D_MOVE q \<Rightarrow>
       if dc_index q = dc_stop q then Some (s, at (D_EMPTY q) c)
       else (case get_slot (dc_block q) (dc_index q) s of None \<Rightarrow> Some (fault s, c)
         | Some x \<Rightarrow> Some ((put_slot (dc_block q) (dc_index q) None s)\<lparr>sq_out := sq_out s @ [(dc_index q, x)]\<rparr>,
             (at (D_MOVE (q\<lparr>dc_index := dc_index q + 1\<rparr>)) c)\<lparr>cn_got := cn_got c @ [x]\<rparr>))
   | _ \<Rightarrow> release_act s c)"

text \<open>\<open>dequeue\<close>.\<close>

definition dequeue_act :: "'a subqueue \<Rightarrow> 'a consumer \<Rightarrow> ('a subqueue \<times> 'a consumer) option" where
  "dequeue_act s c = (case cn_pc c of
     D_TAIL \<Rightarrow> Some (s, at (D_OVER (sq_tail s)) c)
   | D_OVER tail \<Rightarrow> Some (s, at (D_OPT tail (sq_overcommit s)) c)
   | D_OPT tail over \<Rightarrow> Some (s, at (if sq_optimistic s - over < tail then D_TICKET over 1 else D_RET 0 0) c)
   | D_TICKET over n \<Rightarrow> Some (s\<lparr>sq_optimistic := sq_optimistic s + 1\<rparr>, at (D_LOAD over n (sq_optimistic s)) c)
   | D_LOAD over n my \<Rightarrow> Some (s, at (if my - over < sq_tail s then D_HEAD my 1 else D_LOSE my 1) c)
   | D_LOSE my n \<Rightarrow> Some (s\<lparr>sq_overcommit := sq_overcommit s + 1\<rparr>, at (D_RET 0 0) c)
   | D_HEAD my n \<Rightarrow> Some (s\<lparr>sq_head := sq_head s + 1\<rparr>, at (D_INDEX (sq_head s) (sq_head s + 1)) c)
   | _ \<Rightarrow> drain_act s c)"

text \<open>\<open>dequeue_bulk\<close>.\<close>

definition dequeue_bulk_act :: "nat \<Rightarrow> 'a subqueue \<Rightarrow> 'a consumer \<Rightarrow> ('a subqueue \<times> 'a consumer) option" where
  "dequeue_bulk_act mx s c = (case cn_pc c of
     D_TAIL \<Rightarrow> Some (s, at (D_OVER (sq_tail s)) c)
   | D_OVER tail \<Rightarrow> Some (s, at (D_OPT tail (sq_overcommit s)) c)
   | D_OPT tail over \<Rightarrow>
       let desired = tail - (sq_optimistic s - over) in
       Some (s, at (if 0 < desired then D_TICKET over (if desired < mx then desired else mx) else D_RET 0 0) c)
   | D_TICKET over desired \<Rightarrow> Some (s\<lparr>sq_optimistic := sq_optimistic s + desired\<rparr>, at (D_LOAD over desired (sq_optimistic s)) c)
   | D_LOAD over desired my \<Rightarrow>
       let actual = sq_tail s - (my - over) in
       if 0 < actual then
         let actual' = (if desired < actual then desired else actual) in
         Some (s, at (if actual' < desired then D_EXCESS my desired actual' else D_HEAD my actual') c)
       else Some (s, at (D_LOSE my desired) c)
   | D_EXCESS my desired actual \<Rightarrow> Some (s\<lparr>sq_overcommit := sq_overcommit s + (desired - actual)\<rparr>, at (D_HEAD my actual) c)
   | D_LOSE my desired \<Rightarrow> Some (s\<lparr>sq_overcommit := sq_overcommit s + desired\<rparr>, at (D_RET 0 0) c)
   | D_HEAD my actual \<Rightarrow> Some (s\<lparr>sq_head := sq_head s + actual\<rparr>, at (D_INDEX (sq_head s) (sq_head s + actual)) c)
   | _ \<Rightarrow> drain_act s c)"

definition consumer_act :: "'a subqueue \<Rightarrow> 'a consumer \<Rightarrow> ('a subqueue \<times> 'a consumer) option" where
  "consumer_act s c = (case cn_call c of D_dequeue \<Rightarrow> dequeue_act s c | D_dequeue_bulk mx \<Rightarrow> dequeue_bulk_act mx s c)"

definition start_call :: "deq_call \<Rightarrow> 'a consumer" where
  "start_call call = \<lparr>cn_call = call, cn_pc = D_TAIL, cn_got = []\<rparr>"

definition set_consumer :: "nat \<Rightarrow> 'a subqueue \<times> 'a consumer \<Rightarrow> 'a subqueue" where
  "set_consumer i r = (fst r)\<lparr>sq_consumers := (sq_consumers (fst r))(i := snd r)\<rparr>"

text \<open>\<open>size_approx\<close>.\<close>

definition subqueue_size_approx :: "'a subqueue \<Rightarrow> nat" where
  "subqueue_size_approx s = (if sq_head s < sq_tail s then sq_tail s - sq_head s else 0)"

section \<open>Runs\<close>

text \<open>
  A consumer that has returned may begin another call that is \<open>allowed\<close>. Another sub-queue takes a block from
  the free list or a new one, and gives one back, emptied of its elements, with any value in its counter.
\<close>

inductive sq_step :: "bool \<Rightarrow> (deq_call \<Rightarrow> bool) \<Rightarrow> 'a subqueue \<Rightarrow> 'a subqueue \<Rightarrow> bool" for nothrow allowed where
  sq_enqueue: "enqueue_act nothrow ok got s = Some s' \<Longrightarrow> sq_step nothrow allowed s s'"
| sq_consume: "consumer_act s (sq_consumers s i) = Some r \<Longrightarrow> sq_step nothrow allowed s (set_consumer i r)"
| sq_call: "cn_pc (sq_consumers s i) = D_RET f n \<Longrightarrow> allowed call \<Longrightarrow>
    sq_step nothrow allowed s (set_consumer i (s, start_call call))"
| sq_take: "requisition_block b s = Some s' \<Longrightarrow> sq_step nothrow allowed s (s'\<lparr>sq_foreign := insert b (sq_foreign s)\<rparr>)"
| sq_give: "b \<in> sq_foreign s \<Longrightarrow>
    sq_step nothrow allowed s (s\<lparr>sq_foreign := sq_foreign s - {b}, sq_free := insert b (sq_free s),
      sq_blocks := (sq_blocks s)(b := \<lparr>qb_slots = \<lambda>_. None, qb_dequeued = n\<rparr>)\<rparr>)"

inductive_cases sq_stepE: "sq_step nothrow allowed s s'"

inductive sq_reach :: "bool \<Rightarrow> (deq_call \<Rightarrow> bool) \<Rightarrow> 'a list \<Rightarrow> 'a subqueue \<Rightarrow> bool" for nothrow allowed todo where
  sq_init: "sq_reach nothrow allowed todo (new_subqueue ok junk pool todo)"
| sq_next: "sq_reach nothrow allowed todo s \<Longrightarrow> sq_step nothrow allowed s s' \<Longrightarrow> sq_reach nothrow allowed todo s'"

end
