(* ===== verification/SubQueueTickets.thy ===== *)
theory SubQueueTickets
  imports SubQueue
begin

text \<open>
  How the threads that dequeue from a sub-queue share its elements. A dequeue draws tickets from
  \<open>dequeueOptimisticCount\<close>; it loses those that exceed the tail it reads then, counting them in
  \<open>dequeueOvercommit\<close>, and exchanges the others for indices of \<open>headIndex\<close>. No more tickets can win than
  elements have been enqueued, although the counters are read at different times.
\<close>

section \<open>Tickets\<close>

fun tickets :: "deq_pc \<Rightarrow> nat set" where
  "tickets (D_LOAD over n my) = {my..<my + n}"
| "tickets (D_EXCESS my n a) = {my..<my + n}"
| "tickets (D_LOSE my n) = {my..<my + n}"
| "tickets (D_HEAD my n) = {my..<my + n}"
| "tickets _ = {}"

text \<open>What a dequeue knows, when the tickets \<open>L\<close> are counted as lost.\<close>

fun ticket_ok :: "nat \<Rightarrow> nat \<Rightarrow> nat set \<Rightarrow> deq_pc \<Rightarrow> bool" where
  "ticket_ok T opt L (D_OVER t) \<longleftrightarrow> t \<le> T"
| "ticket_ok T opt L (D_OPT t over) \<longleftrightarrow> t \<le> T \<and> over \<le> card L"
| "ticket_ok T opt L (D_TICKET over n) \<longleftrightarrow> 0 < n \<and> over \<le> card L"
| "ticket_ok T opt L (D_LOAD over n my) \<longleftrightarrow> 0 < n \<and> my + n \<le> opt \<and> over \<le> card (L \<inter> {..<my})"
| "ticket_ok T opt L (D_EXCESS my n a) \<longleftrightarrow> 0 < a \<and> a < n \<and> my + n \<le> opt \<and> my + a \<le> T + card (L \<inter> {..<my})"
| "ticket_ok T opt L (D_LOSE my n) \<longleftrightarrow> my + n \<le> opt"
| "ticket_ok T opt L (D_HEAD my n) \<longleftrightarrow> 0 < n \<and> my + n \<le> opt \<and> my + n \<le> T + card (L \<inter> {..<my})"
| "ticket_ok T opt L _ \<longleftrightarrow> True"

lemma UN_fun_upd: "(\<Union>j. f ((p(i := a)) j)) = f a \<union> (\<Union>j \<in> - {i}. f (p j))"
  by (auto split: if_splits)

lemma UN_split: "(\<Union>j. f (p j)) = f (p i) \<union> (\<Union>j \<in> - {i}. f (p j))"
  by auto

definition ticket_inv :: "nat \<Rightarrow> nat \<Rightarrow> nat \<Rightarrow> nat \<Rightarrow> (nat \<Rightarrow> deq_pc) \<Rightarrow> nat set \<Rightarrow> nat set \<Rightarrow> bool" where
  "ticket_inv T opt over head pcs L W \<longleftrightarrow>
     L \<union> W \<union> (\<Union>i. tickets (pcs i)) = {..<opt} \<and> L \<inter> W = {} \<and> (\<forall>i. tickets (pcs i) \<inter> (L \<union> W) = {})
     \<and> (\<forall>i j. i \<noteq> j \<longrightarrow> tickets (pcs i) \<inter> tickets (pcs j) = {})
     \<and> over = card L \<and> head = card W \<and> (\<forall>x \<in> W. x < T + card (L \<inter> {..<x})) \<and> (\<forall>i. ticket_ok T opt L (pcs i))"

lemma winners_le:
  assumes "finite L" "finite W" "L \<inter> W = {}" "\<forall>x \<in> W. x < T + card (L \<inter> {..<x})"
  shows "card W \<le> T"
proof (cases "W = {}")
  case False
  let ?x = "Max W"
  have "card (L \<inter> {..<?x}) + card W = card (L \<inter> {..<?x} \<union> W)"
    using assms by (subst card_Un_disjoint) auto
  also have "\<dots> \<le> card {..?x}" using assms(2) by (intro card_mono) auto
  finally have "card (L \<inter> {..<?x}) + card W \<le> ?x + 1" by simp
  moreover have "?x < T + card (L \<inter> {..<?x})" using assms False by simp
  ultimately show ?thesis by linarith
qed simp

lemma ticket_invD:
  assumes "ticket_inv T opt over head pcs L W"
  shows "L \<union> W \<union> (\<Union>i. tickets (pcs i)) = {..<opt}" "L \<inter> W = {}" "tickets (pcs i) \<inter> (L \<union> W) = {}"
    "i \<noteq> j \<Longrightarrow> tickets (pcs i) \<inter> tickets (pcs j) = {}" "over = card L" "head = card W"
    "x \<in> W \<Longrightarrow> x < T + card (L \<inter> {..<x})" "ticket_ok T opt L (pcs i)" "tickets (pcs i) \<subseteq> {..<opt}"
proof -
  show "L \<union> W \<union> (\<Union>i. tickets (pcs i)) = {..<opt}" using assms by (simp only: ticket_inv_def)
  then show "tickets (pcs i) \<subseteq> {..<opt}" by blast
qed (use assms in \<open>simp_all add: ticket_inv_def\<close>)

lemma ticket_inv_finite:
  assumes "ticket_inv T opt over head pcs L W"
  shows "finite L" "finite W" "L \<subseteq> {..<opt}"
proof -
  have "L \<subseteq> {..<opt}" "W \<subseteq> {..<opt}" using ticket_invD(1) [OF assms] by blast+
  then show "finite L" "finite W" "L \<subseteq> {..<opt}" by (auto intro: finite_subset)
qed

lemma ticket_inv_head_le: "ticket_inv T opt over head pcs L W \<Longrightarrow> head \<le> T"
  using winners_le ticket_inv_finite(1,2) ticket_invD(2,6,7) by metis

lemma card_lost_mono: "finite L' \<Longrightarrow> L \<subseteq> L' \<Longrightarrow> card (L \<inter> A) \<le> card (L' \<inter> A)"
  by (intro card_mono) auto

lemma ticket_ok_mono:
  assumes "ticket_ok T opt L pc" "T \<le> T'" "opt \<le> opt'" "finite L'" "L \<subseteq> L'"
  shows "ticket_ok T' opt' L' pc"
proof -
  have m: "card (L \<inter> {..<y}) \<le> card (L' \<inter> {..<y})" "card L \<le> card L'" for y
    using assms(4,5) card_lost_mono card_mono by auto
  show ?thesis
  proof (cases pc)
    case (D_OPT t over)
    then show ?thesis using assms(1,2) m(2) by simp
  next
    case (D_TICKET over n)
    then show ?thesis using assms(1) m(2) by simp
  next
    case (D_LOAD over n my)
    then show ?thesis using assms(1,3) m(1) [of my] by simp
  next
    case (D_EXCESS my n a)
    then show ?thesis using assms(1-3) m(1) [of my] by simp
  next
    case (D_HEAD my n)
    then show ?thesis using assms(1-3) m(1) [of my] by simp
  qed (use assms(1-3) in simp_all)
qed

text \<open>A dequeue keeps some of its tickets, \<open>l\<close> of them are counted as lost and \<open>w\<close> as won.\<close>

lemma ticket_inv_move:
  assumes inv: "ticket_inv T opt over head pcs L W"
    and part: "tickets (pcs i) = tickets pc \<union> l \<union> w" "tickets pc \<inter> l = {}" "tickets pc \<inter> w = {}" "l \<inter> w = {}"
    and ok: "ticket_ok T opt (L \<union> l) pc" and won: "\<forall>x \<in> w. x < T + card ((L \<union> l) \<inter> {..<x})"
  shows "ticket_inv T opt (over + card l) (head + card w) (pcs(i := pc)) (L \<union> l) (W \<union> w)"
proof -
  note fin = ticket_inv_finite [OF inv] and D = ticket_invD [OF inv]
  have "l \<subseteq> {..<opt}" "w \<subseteq> {..<opt}" using part(1) D(9) [of i] by blast+
  then have lw: "finite l" "finite w" by (auto intro: finite_subset)
  have "L \<inter> l = {}" "W \<inter> w = {}" using D(3) [of i] part(1) by blast+
  then have cards: "over + card l = card (L \<union> l)" "head + card w = card (W \<union> w)"
    using card_Un_disjoint fin lw D(5,6) by metis+
  have cover: "L \<union> l \<union> (W \<union> w) \<union> (\<Union>j. tickets ((pcs(i := pc)) j)) = {..<opt}"
    by (simp only: UN_fun_upd D(1) [symmetric] UN_split [of tickets pcs i] part(1)) (simp only: ac_simps)
  have other: "tickets (pcs j) \<inter> (tickets pc \<union> l \<union> w) = {}" if "j \<noteq> i" for j using D(4) [OF that] part(1) by blast
  have disj: "(L \<union> l) \<inter> (W \<union> w) = {}" using D(2) D(3) [of i] part by blast
  have "tickets pc \<inter> (L \<union> l \<union> (W \<union> w)) = {}" using D(3) [of i] part by blast
  moreover have "tickets (pcs j) \<inter> (L \<union> l \<union> (W \<union> w)) = {}" if "j \<noteq> i" for j using D(3) [of j] other [OF that] by blast
  ultimately have own: "tickets ((pcs(i := pc)) j) \<inter> (L \<union> l \<union> (W \<union> w)) = {}" for j by simp
  have "tickets (pcs j) \<inter> tickets pc = {}" "tickets pc \<inter> tickets (pcs j) = {}" if "j \<noteq> i" for j using other [OF that] by blast+
  then have pair: "tickets ((pcs(i := pc)) j) \<inter> tickets ((pcs(i := pc)) k) = {}" if "j \<noteq> k" for j k
    using D(4) [OF that] that by simp
  have old: "x < T + card ((L \<union> l) \<inter> {..<x})" if "x \<in> W" for x
    using D(7) [OF that] card_lost_mono [of "L \<union> l" L "{..<x}"] fin lw by simp
  have oks: "ticket_ok T opt (L \<union> l) ((pcs(i := pc)) j)" for j
    using ok ticket_ok_mono [OF D(8) [of j] order.refl order.refl, of "L \<union> l"] fin lw by simp
  show ?thesis unfolding ticket_inv_def using won old
    by (intro conjI allI impI cover disj own pair cards oks) auto
qed

lemma ticket_inv_update:
  assumes "ticket_inv T opt over head pcs L W" "tickets pc = tickets (pcs i)" "ticket_ok T opt L pc"
  shows "ticket_inv T opt over head (pcs(i := pc)) L W"
  using ticket_inv_move [of T opt over head pcs L W i pc "{}" "{}"] assms by simp

lemma ticket_inv_tail:
  assumes inv: "ticket_inv T opt over head pcs L W" and "T \<le> T'"
  shows "ticket_inv T' opt over head pcs L W"
proof -
  note D = ticket_invD [OF inv]
  have "ticket_ok T' opt L (pcs i)" for i
    using ticket_ok_mono [OF D(8) [of i] assms(2) order.refl] ticket_inv_finite(1) [OF inv] by simp
  moreover have "x < T' + card (L \<inter> {..<x})" if "x \<in> W" for x using D(7) [OF that] assms(2) by simp
  ultimately show ?thesis unfolding ticket_inv_def by (intro conjI allI impI ballI D) simp_all
qed

lemma ticket_inv_draw:
  assumes inv: "ticket_inv T opt over head pcs L W" and pc: "pcs i = D_TICKET ov n"
  shows "ticket_inv T (opt + n) over head (pcs(i := D_LOAD ov n opt)) L W"
proof -
  note fin = ticket_inv_finite [OF inv] and D = ticket_invD [OF inv]
  let ?pcs = "pcs(i := D_LOAD ov n opt)"
  have "L \<inter> {..<opt} = L" using fin(3) by blast
  then have new: "ticket_ok T (opt + n) L (D_LOAD ov n opt)" using D(8) [of i] pc by simp
  have oks: "ticket_ok T (opt + n) L (?pcs j)" for j using new ticket_ok_mono [OF D(8) [of j]] fin(1) by simp
  have none: "tickets (pcs i) = {}" and some: "tickets (?pcs i) = {opt..<opt + n}" using pc by simp_all
  have other: "?pcs j = pcs j" if "j \<noteq> i" for j using that by simp
  have "{..<opt + n} = {..<opt} \<union> {opt..<opt + n}" by auto
  then have cover: "L \<union> W \<union> (\<Union>j. tickets (?pcs j)) = {..<opt + n}"
    by (simp only: UN_fun_upd D(1) [symmetric] UN_split [of tickets pcs i] none tickets.simps) (simp only: ac_simps Un_empty_left)
  have fresh: "A \<inter> {opt..<opt + n} = {}" "{opt..<opt + n} \<inter> A = {}" if "A \<subseteq> {..<opt}" for A using that by fastforce+
  have LW: "L \<union> W \<subseteq> {..<opt}" using D(1) by blast
  have own: "tickets (?pcs j) \<inter> (L \<union> W) = {}" for j using D(3) [of j] fresh(2) [OF LW] some other by (cases "j = i") simp_all
  have pair: "tickets (?pcs j) \<inter> tickets (?pcs k) = {}" if "j \<noteq> k" for j k
    using D(4) [OF that] fresh [OF D(9) [of j]] fresh [OF D(9) [of k]] some other that by (cases "j = i"; cases "k = i") simp_all
  show ?thesis unfolding ticket_inv_def
    using D(7) by (intro conjI allI impI ballI cover D(2,5,6) own pair oks) auto
qed

text \<open>A single dequeue draws one ticket, and a bulk dequeue asks for at least one element.\<close>

definition call_ok :: "'a consumer \<Rightarrow> bool" where
  "call_ok c \<longleftrightarrow> (case cn_call c of D_dequeue_bulk mx \<Rightarrow> 0 < mx
     | D_dequeue \<Rightarrow> (case cn_pc c of D_TICKET over n \<Rightarrow> n = 1 | D_LOAD over n my \<Rightarrow> n = 1 | D_LOSE my n \<Rightarrow> n = 1
         | D_HEAD my n \<Rightarrow> n = 1 | D_EXCESS my n a \<Rightarrow> False | _ \<Rightarrow> True))"

lemmas subqueue_defs = fault_def at_def put_slot_def set_many_empty_def add_block_to_free_list_def

lemma next_block_tickets [simp]: "tickets (next_block s q) = {}" "ticket_ok T opt L (next_block s q)"
  by (simp_all add: next_block_def)

lemma drain_frame:
  assumes "drain_act s c = Some (s', c')"
  shows "sq_tail s' = sq_tail s" "sq_optimistic s' = sq_optimistic s" "sq_overcommit s' = sq_overcommit s" "sq_head s' = sq_head s"
    "tickets (cn_pc c) = {}" "tickets (cn_pc c') = {}" "ticket_ok T opt L (cn_pc c')" "cn_call c' = cn_call c"
  using assms
  by (auto simp: drain_act_def release_act_def lookup_act_def subqueue_defs Let_def split: deq_pc.splits option.splits if_splits)

text \<open>\<open>my - over\<close> does not wrap around, and what the tail then admits wins.\<close>

lemma over_le: "ticket_ok T opt L (D_LOAD over n my) \<Longrightarrow> over \<le> my"
  using card_mono [of "{..<my}" "L \<inter> {..<my}"] by simp

lemma admitted:
  assumes "ticket_ok T opt L (D_LOAD over n my)" "a \<le> T - (my - over)" "0 < a" "a \<le> n"
  shows "my + a \<le> T + card (L \<inter> {..<my})" "a < n \<Longrightarrow> ticket_ok T opt L (D_EXCESS my n a)" "a = n \<Longrightarrow> ticket_ok T opt L (D_HEAD my a)"
  using assms over_le [OF assms(1)] by auto

lemma lose_tickets:
  assumes "ticket_inv T opt over head pcs L W" "pcs i = D_LOSE my n"
  shows "ticket_inv T opt (over + n) head (pcs(i := D_RET 0 0)) (L \<union> {my..<my + n}) W"
  using ticket_inv_move [OF assms(1), of i "D_RET 0 0" "{my..<my + n}" "{}"] assms(2) by simp

lemma excess_tickets:
  assumes inv: "ticket_inv T opt over head pcs L W" and pc: "pcs i = D_EXCESS my n a"
  shows "ticket_inv T opt (over + (n - a)) head (pcs(i := D_HEAD my a)) (L \<union> {my + a..<my + n}) W"
proof -
  have ok: "ticket_ok T opt L (D_EXCESS my n a)" using ticket_invD(8) [OF inv, of i] pc by simp
  have "(L \<union> {my + a..<my + n}) \<inter> {..<my} = L \<inter> {..<my}" by auto
  then have "ticket_ok T opt (L \<union> {my + a..<my + n}) (D_HEAD my a)" using ok by simp
  moreover have "tickets (pcs i) = tickets (D_HEAD my a) \<union> {my + a..<my + n} \<union> {}" using ok pc by auto
  ultimately show ?thesis using ticket_inv_move [OF inv, of i "D_HEAD my a" "{my + a..<my + n}" "{}"] ok by simp
qed

lemma head_tickets:
  assumes inv: "ticket_inv T opt over head pcs L W" and pc: "pcs i = D_HEAD my n"
  shows "ticket_inv T opt over (head + n) (pcs(i := D_INDEX head (head + n))) L (W \<union> {my..<my + n})"
proof -
  have ok: "my + n \<le> T + card (L \<inter> {..<my})" using ticket_invD(8) [OF inv, of i] pc by simp
  have "x < T + card (L \<inter> {..<x})" if "x \<in> {my..<my + n}" for x
  proof -
    have "card (L \<inter> {..<my}) \<le> card (L \<inter> {..<x})" using that by (intro card_mono) auto
    then show ?thesis using ok that by simp
  qed
  then show ?thesis using ticket_inv_move [OF inv, of i "D_INDEX head (head + n)" "{}" "{my..<my + n}"] pc by simp
qed

lemmas ticket_steps = ticket_inv_update ticket_inv_draw lose_tickets excess_tickets head_tickets

lemma consumer_tickets:
  assumes act: "consumer_act s c = Some (s', c')" and ok: "call_ok c" and pc: "pcs i = cn_pc c"
    and inv: "ticket_inv (sq_tail s) (sq_optimistic s) (sq_overcommit s) (sq_head s) pcs L W"
  shows "\<exists>L' W'. ticket_inv (sq_tail s') (sq_optimistic s') (sq_overcommit s') (sq_head s') (pcs(i := cn_pc c')) L' W'"
proof (cases "drain_act s c = None")
  case False
  then have "drain_act s c = Some (s', c')" using act
    by (auto simp: consumer_act_def dequeue_act_def dequeue_bulk_act_def drain_act_def release_act_def lookup_act_def split: deq_call.splits deq_pc.splits)
  then show ?thesis using ticket_inv_update [OF inv, of "cn_pc c'" i] pc by (auto simp: drain_frame)
next
  case True
  let ?T = "sq_tail s" and ?opt = "sq_optimistic s"
  have tok: "ticket_ok ?T ?opt L (cn_pc c)" using ticket_invD(8) [OF inv, of i] pc by simp
  have over: "sq_overcommit s = card L" using ticket_invD(5) [OF inv] .
  have keep: ?thesis if "s' = s" "tickets (cn_pc c') = tickets (cn_pc c)" "ticket_ok ?T ?opt L (cn_pc c')"
    using ticket_inv_update [OF inv, of "cn_pc c'" i] that pc by auto
  consider (tail) "cn_pc c = D_TAIL" | (over) t where "cn_pc c = D_OVER t" | (opt) t ov where "cn_pc c = D_OPT t ov"
    | (ticket) ov n where "cn_pc c = D_TICKET ov n" | (load) ov n my where "cn_pc c = D_LOAD ov n my"
    | (excess) my n a where "cn_pc c = D_EXCESS my n a" | (lose) my n where "cn_pc c = D_LOSE my n"
    | (head) my n where "cn_pc c = D_HEAD my n"
    using act True by (cases "cn_pc c") (auto simp: consumer_act_def dequeue_act_def dequeue_bulk_act_def split: deq_call.splits)
  then show ?thesis
  proof cases
    case tail
    then show ?thesis using act
      by (intro keep) (auto simp: consumer_act_def dequeue_act_def dequeue_bulk_act_def at_def split: deq_call.splits)
  next
    case over
    then show ?thesis using act tok \<open>sq_overcommit s = card L\<close>
      by (intro keep) (auto simp: consumer_act_def dequeue_act_def dequeue_bulk_act_def at_def split: deq_call.splits)
  next
    case opt
    then show ?thesis using act tok ok
      by (intro keep) (auto simp: consumer_act_def dequeue_act_def dequeue_bulk_act_def at_def call_ok_def Let_def
          split: deq_call.splits if_splits)
  next
    case ticket
    then have "s' = s\<lparr>sq_optimistic := ?opt + n\<rparr>" "cn_pc c' = D_LOAD ov n ?opt" using act ok
      by (auto simp: consumer_act_def dequeue_act_def dequeue_bulk_act_def at_def call_ok_def split: deq_call.splits)
    then show ?thesis using ticket_inv_draw [OF inv, of i ov n] ticket pc by auto
  next
    case load
    then have "s' = s" "tickets (cn_pc c') = tickets (cn_pc c)" "ticket_ok ?T ?opt L (cn_pc c')"
      using act ok tok admitted [of ?T ?opt L ov n my] over_le [of ?T ?opt L ov n my]
      by (auto simp: consumer_act_def dequeue_act_def dequeue_bulk_act_def at_def call_ok_def Let_def split: deq_call.splits if_splits)
    then show ?thesis by (rule keep)
  next
    case excess
    then have "s' = s\<lparr>sq_overcommit := sq_overcommit s + (n - a)\<rparr>" "cn_pc c' = D_HEAD my a" using act ok
      by (auto simp: consumer_act_def dequeue_act_def dequeue_bulk_act_def at_def call_ok_def split: deq_call.splits)
    then show ?thesis using excess_tickets [OF inv, of i my n a] excess pc by auto
  next
    case lose
    then have "s' = s\<lparr>sq_overcommit := sq_overcommit s + n\<rparr>" "cn_pc c' = D_RET 0 0" using act ok
      by (auto simp: consumer_act_def dequeue_act_def dequeue_bulk_act_def at_def call_ok_def split: deq_call.splits)
    then show ?thesis using lose_tickets [OF inv, of i my n] lose pc by auto
  next
    case head
    then have "s' = s\<lparr>sq_head := sq_head s + n\<rparr>" "cn_pc c' = D_INDEX (sq_head s) (sq_head s + n)" using act ok
      by (auto simp: consumer_act_def dequeue_act_def dequeue_bulk_act_def at_def call_ok_def split: deq_call.splits)
    then show ?thesis using head_tickets [OF inv, of i my n] head pc by auto
  qed
qed

end
