(* ===== verification/SubQueueClaims.thy ===== *)
theory SubQueueClaims
  imports SubQueueTickets
begin

text \<open>
  The indices a dequeue has claimed: those it still has to move out, those it has moved out of the
  block it works on, and those it has counted as dequeued. The claims are disjoint and cover what \<open>headIndex\<close>
  has passed; hence no element is moved out twice, and a dequeue returns consecutive elements.
\<close>

section \<open>Claims\<close>

text \<open>The indices that are not yet counted as dequeued, and those of them that are moved out.\<close>

fun pend :: "deq_pc \<Rightarrow> nat set" where
  "pend (D_INDEX f l) = {f..<l}"
| "pend (D_SLOT f l h) = {f..<l}"
| "pend (D_KEY f l h p) = {f..<l}"
| "pend (D_VALUE q) = {dc_index q..<dc_end q}"
| "pend (D_MOVE q) = {dc_start q..<dc_end q}"
| "pend (D_EMPTY q) = {dc_start q..<dc_end q}"
| "pend (D_UNLINK q) = {dc_stop q..<dc_end q}"
| "pend (D_FREE q) = {dc_stop q..<dc_end q}"
| "pend _ = {}"

fun moved :: "deq_pc \<Rightarrow> nat set" where
  "moved (D_MOVE q) = {dc_start q..<dc_index q}"
| "moved (D_EMPTY q) = {dc_start q..<dc_stop q}"
| "moved _ = {}"

definition part_ok :: "nat \<Rightarrow> deq_claim \<Rightarrow> bool" where
  "part_ok H q \<longleftrightarrow> dc_first q \<le> dc_start q \<and> dc_start q < dc_stop q \<and> dc_end q \<le> H
     \<and> dc_stop q = min (dc_end q) (32 * (dc_start q div 32) + 32)"

lemma part_ok_update [simp]: "part_ok H (q\<lparr>dc_index := k\<rparr>) = part_ok H q" "part_ok H (q\<lparr>dc_slot := k\<rparr>) = part_ok H q"
  by (simp_all add: part_ok_def)

fun claim_ok :: "nat \<Rightarrow> deq_pc \<Rightarrow> bool" where
  "claim_ok H (D_INDEX f l) \<longleftrightarrow> f < l \<and> l \<le> H"
| "claim_ok H (D_SLOT f l h) \<longleftrightarrow> f < l \<and> l \<le> H"
| "claim_ok H (D_KEY f l h p) \<longleftrightarrow> f < l \<and> l \<le> H"
| "claim_ok H (D_VALUE q) \<longleftrightarrow> dc_first q \<le> dc_index q \<and> dc_index q < dc_end q \<and> dc_end q \<le> H"
| "claim_ok H (D_MOVE q) \<longleftrightarrow> part_ok H q \<and> dc_start q \<le> dc_index q \<and> dc_index q \<le> dc_stop q"
| "claim_ok H (D_EMPTY q) \<longleftrightarrow> part_ok H q \<and> dc_index q = dc_stop q"
| "claim_ok H (D_UNLINK q) \<longleftrightarrow> part_ok H q \<and> dc_index q = dc_stop q"
| "claim_ok H (D_FREE q) \<longleftrightarrow> part_ok H q \<and> dc_index q = dc_stop q"
| "claim_ok H (D_RET f n) \<longleftrightarrow> f + n \<le> H"
| "claim_ok H _ \<longleftrightarrow> True"

lemma claim_ok_mono: "claim_ok H pc \<Longrightarrow> H \<le> H' \<Longrightarrow> claim_ok H' pc"
  by (cases pc) (auto simp: part_ok_def)

lemma moved_pend: "claim_ok H pc \<Longrightarrow> moved pc \<subseteq> pend pc"
  by (cases pc) (auto simp: part_ok_def)

definition claim_inv :: "nat \<Rightarrow> (nat \<Rightarrow> deq_pc) \<Rightarrow> nat set \<Rightarrow> nat set \<Rightarrow> bool" where
  "claim_inv H pcs M X \<longleftrightarrow> M \<union> (\<Union>i. pend (pcs i)) = {..<H} \<and> (\<forall>i. pend (pcs i) \<inter> M = {})
     \<and> (\<forall>i j. i \<noteq> j \<longrightarrow> pend (pcs i) \<inter> pend (pcs j) = {}) \<and> X = M \<union> (\<Union>i. moved (pcs i)) \<and> (\<forall>i. claim_ok H (pcs i))"

lemma claim_invD:
  assumes "claim_inv H pcs M X"
  shows "M \<union> (\<Union>i. pend (pcs i)) = {..<H}" "pend (pcs i) \<inter> M = {}" "i \<noteq> j \<Longrightarrow> pend (pcs i) \<inter> pend (pcs j) = {}"
    "X = M \<union> (\<Union>i. moved (pcs i))" "claim_ok H (pcs i)" "M \<subseteq> {..<H}" "pend (pcs i) \<subseteq> {..<H}" "M \<subseteq> X"
proof -
  show c: "M \<union> (\<Union>i. pend (pcs i)) = {..<H}" and x: "X = M \<union> (\<Union>i. moved (pcs i))" using assms by (simp_all only: claim_inv_def)
  show "M \<subseteq> {..<H}" "pend (pcs i) \<subseteq> {..<H}" using c by blast+
  show "M \<subseteq> X" using x by blast
qed (use assms in \<open>simp_all add: claim_inv_def\<close>)

lemma claim_inv_moved:
  assumes "claim_inv H pcs M X"
  shows "pend (pcs i) \<inter> X = moved (pcs i)" "X \<subseteq> {..<H}"
proof -
  note D = claim_invD [OF assms] and sub = moved_pend [OF claim_invD(5) [OF assms]]
  have "moved (pcs j) \<inter> pend (pcs i) = {}" if "j \<noteq> i" for j using D(3) [OF that] sub [of j] by blast
  then have "(\<Union>j \<in> - {i}. moved (pcs j)) \<inter> pend (pcs i) = {}" by auto
  then have "(\<Union>j. moved (pcs j)) \<inter> pend (pcs i) = moved (pcs i)" using sub [of i] unfolding UN_split [of moved pcs i] by blast
  then show "pend (pcs i) \<inter> X = moved (pcs i)" using D(2) [of i] unfolding D(4) by blast
  show "X \<subseteq> {..<H}" unfolding D(4) using D(6,7) sub by blast
qed

text \<open>A dequeue moves \<open>x\<close> out and counts \<open>m\<close> as dequeued.\<close>

lemma claim_inv_move:
  assumes inv: "claim_inv H pcs M X"
    and p: "pend (pcs i) = pend pc \<union> m" "pend pc \<inter> m = {}" "moved (pcs i) \<union> x = moved pc \<union> m" and ok: "claim_ok H pc"
  shows "claim_inv H (pcs(i := pc)) (M \<union> m) (X \<union> x)"
proof -
  note D = claim_invD [OF inv]
  have cover: "M \<union> m \<union> (\<Union>j. pend ((pcs(i := pc)) j)) = {..<H}"
    by (simp only: UN_fun_upd D(1) [symmetric] UN_split [of pend pcs i] p(1)) (simp only: ac_simps)
  have "pend pc \<inter> (M \<union> m) = {}" using D(2) [of i] p(1,2) by blast
  moreover have "pend (pcs j) \<inter> (M \<union> m) = {}" if "j \<noteq> i" for j using D(2) [of j] D(3) [OF that] p(1) by blast
  ultimately have own: "pend ((pcs(i := pc)) j) \<inter> (M \<union> m) = {}" for j by simp
  have "pend (pcs j) \<inter> pend pc = {}" "pend pc \<inter> pend (pcs j) = {}" if "j \<noteq> i" for j using D(3) [OF that] p(1) by blast+
  then have pair: "pend ((pcs(i := pc)) j) \<inter> pend ((pcs(i := pc)) k) = {}" if "j \<noteq> k" for j k using D(3) [OF that] that by simp
  have "X \<union> x = M \<union> (moved (pcs i) \<union> x) \<union> (\<Union>j \<in> - {i}. moved (pcs j))"
    unfolding D(4) UN_split [of moved pcs i] by (simp only: ac_simps)
  then have X: "X \<union> x = M \<union> m \<union> (\<Union>j. moved ((pcs(i := pc)) j))"
    unfolding p(3) UN_fun_upd by (simp only: ac_simps)
  show ?thesis unfolding claim_inv_def by (intro conjI allI impI cover own pair X) (use D(5) ok in auto)
qed

lemma claim_inv_update:
  assumes "claim_inv H pcs M X" "pend pc = pend (pcs i)" "moved pc = moved (pcs i)" "claim_ok H pc"
  shows "claim_inv H (pcs(i := pc)) M X"
  using claim_inv_move [OF assms(1), of i pc "{}" "{}"] assms(2-4) by simp

lemma claim_inv_claim:
  assumes inv: "claim_inv H pcs M X" and pc: "pend (pcs i) = {}" and n: "0 < n"
  shows "claim_inv (H + n) (pcs(i := D_INDEX H (H + n))) M X"
proof -
  note D = claim_invD [OF inv]
  let ?pcs = "pcs(i := D_INDEX H (H + n))"
  have "{..<H + n} = {..<H} \<union> {H..<H + n}" by auto
  then have cover: "M \<union> (\<Union>j. pend (?pcs j)) = {..<H + n}"
    by (simp only: UN_fun_upd D(1) [symmetric] UN_split [of pend pcs i] pc pend.simps) (simp only: ac_simps Un_empty_left)
  have fresh: "A \<inter> {H..<H + n} = {}" "{H..<H + n} \<inter> A = {}" if "A \<subseteq> {..<H}" for A using that by fastforce+
  have own: "pend (?pcs j) \<inter> M = {}" for j using D(2) [of j] fresh(2) [OF D(6)] by simp
  have pair: "pend (?pcs j) \<inter> pend (?pcs k) = {}" if "j \<noteq> k" for j k
    using D(3) [OF that] fresh [OF D(7) [of j]] fresh [OF D(7) [of k]] that by simp
  have "moved (pcs i) = {}" using moved_pend [OF D(5) [of i]] pc by simp
  then have X: "X = M \<union> (\<Union>j. moved (?pcs j))" unfolding UN_fun_upd D(4) UN_split [of moved pcs i] by simp
  have "claim_ok (H + n) (?pcs j)" for j using claim_ok_mono [OF D(5) [of j]] n by simp
  then show ?thesis unfolding claim_inv_def by (intro conjI allI impI cover own pair X)
qed

section \<open>The steps of a dequeue\<close>

text \<open>Before it has claimed indices a dequeue changes only the counters of tickets.\<close>

fun admission :: "deq_pc \<Rightarrow> bool" where
  "admission D_TAIL = True" | "admission (D_OVER t) = True" | "admission (D_OPT t v) = True" | "admission (D_TICKET v n) = True"
| "admission (D_LOAD v n my) = True" | "admission (D_EXCESS my n a) = True" | "admission (D_LOSE my n) = True"
| "admission (D_HEAD my n) = True" | "admission (D_RET f n) \<longleftrightarrow> f = 0 \<and> n = 0" | "admission _ = False"

lemma admission_idle: "admission pc \<Longrightarrow> pend pc = {} \<and> moved pc = {} \<and> claim_ok H pc"
  by (cases pc) auto

definition found :: "nat \<Rightarrow> nat \<Rightarrow> nat \<Rightarrow> nat \<Rightarrow> deq_claim" where
  "found f l h p = \<lparr>dc_first = f, dc_end = l, dc_header = h, dc_slot = p, dc_block = 0, dc_start = f, dc_index = f, dc_stop = f\<rparr>"

definition opened :: "nat \<Rightarrow> deq_claim \<Rightarrow> deq_claim" where
  "opened b q = q\<lparr>dc_block := b, dc_start := dc_index q, dc_stop := min (dc_end q) (32 * (dc_index q div 32) + 32)\<rparr>"

lemma opened_stop: "(if dc_end q < block_base (dc_index q) + BLOCK_SIZE then dc_end q else block_base (dc_index q) + BLOCK_SIZE)
    = min (dc_end q) (32 * (dc_index q div 32) + 32)"
  by (simp add: block_base_div min_def)

text \<open>What would be a fault of a dequeue, and its steps otherwise.\<close>

definition drain_faults :: "'a subqueue \<Rightarrow> 'a consumer \<Rightarrow> bool" where
  "drain_faults s c \<longleftrightarrow> (case cn_pc c of
     D_INDEX f l \<Rightarrow> bi_headers (sq_index s) = []
   | D_KEY f l h p \<Rightarrow>
       (let header = bi_headers (sq_index s) ! h; entry = (\<lambda>p. bi_entries (sq_index s) (ih_index header ! p)) in
        (case ie_key (entry p) of None \<Rightarrow> True
         | Some k \<Rightarrow> ie_key (entry (block_index_index (ih_capacity header) p k f)) \<noteq> Some (block_base f)
             \<or> ie_value (entry (block_index_index (ih_capacity header) p k f)) = None))
   | D_VALUE q \<Rightarrow> ie_value (bi_entries (sq_index s) (claim_entry s q)) = None
   | D_MOVE q \<Rightarrow> dc_index q \<noteq> dc_stop q \<and> get_slot (dc_block q) (dc_index q) s = None
   | _ \<Rightarrow> False)"

inductive drain_step :: "'a subqueue \<Rightarrow> 'a consumer \<Rightarrow> 'a subqueue \<Rightarrow> 'a consumer \<Rightarrow> bool" for s c where
  dr_index: "cn_pc c = D_INDEX f l \<Longrightarrow> bi_headers (sq_index s) \<noteq> [] \<Longrightarrow>
    drain_step s c s (at (D_SLOT f l (length (bi_headers (sq_index s)) - 1)) c)"
| dr_slot: "cn_pc c = D_SLOT f l h \<Longrightarrow> drain_step s c s (at (D_KEY f l h (ih_tail (bi_headers (sq_index s) ! h))) c)"
| dr_key: "cn_pc c = D_KEY f l h p \<Longrightarrow> ie_key (bi_entries (sq_index s) (ih_index (bi_headers (sq_index s) ! h) ! p)) = Some k \<Longrightarrow>
    drain_step s c s (at (D_VALUE (found f l h (block_index_index (ih_capacity (bi_headers (sq_index s) ! h)) p k f))) c)"
| dr_value: "cn_pc c = D_VALUE q \<Longrightarrow> ie_value (bi_entries (sq_index s) (claim_entry s q)) = Some b \<Longrightarrow>
    drain_step s c s (at (D_MOVE (opened b q)) c)"
| dr_stop: "cn_pc c = D_MOVE q \<Longrightarrow> dc_index q = dc_stop q \<Longrightarrow> drain_step s c s (at (D_EMPTY q) c)"
| dr_move: "cn_pc c = D_MOVE q \<Longrightarrow> dc_index q \<noteq> dc_stop q \<Longrightarrow> get_slot (dc_block q) (dc_index q) s = Some x \<Longrightarrow>
    drain_step s c ((put_slot (dc_block q) (dc_index q) None s)\<lparr>sq_out := sq_out s @ [(dc_index q, x)]\<rparr>)
      ((at (D_MOVE (q\<lparr>dc_index := dc_index q + 1\<rparr>)) c)\<lparr>cn_got := cn_got c @ [x]\<rparr>)"
| dr_full: "cn_pc c = D_EMPTY q \<Longrightarrow> qb_dequeued (sq_blocks s (dc_block q)) + (dc_stop q - dc_start q) = 32 \<Longrightarrow>
    drain_step s c (set_many_empty (dc_block q) (dc_stop q - dc_start q) s) (at (D_UNLINK q) c)"
| dr_part: "cn_pc c = D_EMPTY q \<Longrightarrow> qb_dequeued (sq_blocks s (dc_block q)) + (dc_stop q - dc_start q) \<noteq> 32 \<Longrightarrow>
    drain_step s c (set_many_empty (dc_block q) (dc_stop q - dc_start q) s) (at (next_block s q) c)"
| dr_unlink: "cn_pc c = D_UNLINK q \<Longrightarrow>
    drain_step s c (s\<lparr>sq_index := set_value (claim_entry s q) None (sq_index s)\<rparr>) (at (D_FREE q) c)"
| dr_free: "cn_pc c = D_FREE q \<Longrightarrow> drain_step s c (add_block_to_free_list (dc_block q) s) (at (next_block s q) c)"

lemma drain_act_step:
  assumes "drain_act s c = Some (s', c')" "\<not> drain_faults s c"
  shows "drain_step s c s' c'"
proof (cases "cn_pc c")
  case (D_INDEX f l)
  then show ?thesis using assms dr_index [OF D_INDEX] by (auto simp: drain_act_def release_act_def lookup_act_def drain_faults_def)
next
  case (D_SLOT f l h)
  then show ?thesis using assms dr_slot [OF D_SLOT] by (auto simp: drain_act_def release_act_def lookup_act_def)
next
  case (D_KEY f l h p)
  then show ?thesis using assms dr_key [OF D_KEY]
    by (auto simp: drain_act_def release_act_def lookup_act_def drain_faults_def found_def Let_def split: option.splits if_splits)
next
  case (D_VALUE q)
  then show ?thesis using assms dr_value [OF D_VALUE]
    by (auto simp: drain_act_def drain_faults_def opened_def opened_stop)
next
  case (D_MOVE q)
  then show ?thesis using assms dr_stop [OF D_MOVE] dr_move [OF D_MOVE]
    by (cases "dc_index q = dc_stop q") (auto simp: drain_act_def drain_faults_def)
next
  case (D_EMPTY q)
  then have "s' = set_many_empty (dc_block q) (dc_stop q - dc_start q) s"
    "c' = at (if qb_dequeued (sq_blocks s (dc_block q)) + (dc_stop q - dc_start q) = 32 then D_UNLINK q else next_block s q) c"
    using assms by (auto simp: drain_act_def release_act_def is_empty_def set_many_empty_def Let_def)
  then show ?thesis using dr_full [OF D_EMPTY] dr_part [OF D_EMPTY] by presburger
next
  case (D_UNLINK q)
  then show ?thesis using assms dr_unlink [OF D_UNLINK] by (auto simp: drain_act_def release_act_def)
next
  case (D_FREE q)
  then show ?thesis using assms dr_free [OF D_FREE] by (auto simp: drain_act_def release_act_def)
qed (use assms in \<open>simp_all add: drain_act_def release_act_def lookup_act_def\<close>)

lemma admission_act:
  assumes "consumer_act s c = Some (s', c')" "call_ok c" "admission (cn_pc c)" "\<nexists>my n. cn_pc c = D_HEAD my n"
  shows "admission (cn_pc c') \<and> c' = at (cn_pc c') c
    \<and> s' = s\<lparr>sq_optimistic := sq_optimistic s', sq_overcommit := sq_overcommit s'\<rparr>"
  using assms
  by (cases "cn_pc c"; cases "cn_call c")
    (auto simp: consumer_act_def dequeue_act_def dequeue_bulk_act_def drain_act_def release_act_def lookup_act_def at_def Let_def split: if_splits)

lemma consumer_actE:
  assumes "consumer_act s c = Some (s', c')" "call_ok c"
  obtains (admit) "admission (cn_pc c)" "admission (cn_pc c')" "c' = at (cn_pc c') c"
      "s' = s\<lparr>sq_optimistic := sq_optimistic s', sq_overcommit := sq_overcommit s'\<rparr>"
  | (head) my n where "cn_pc c = D_HEAD my n" "s' = s\<lparr>sq_head := sq_head s + n\<rparr>" "c' = at (D_INDEX (sq_head s) (sq_head s + n)) c"
  | (drain) "drain_act s c = Some (s', c')"
proof (cases "\<exists>my n. cn_pc c = D_HEAD my n")
  case True
  then show thesis using assms head
    by (auto simp: consumer_act_def dequeue_act_def dequeue_bulk_act_def call_ok_def split: deq_call.splits)
next
  case False
  then show thesis
  proof (cases "admission (cn_pc c)")
    case True
    then show thesis using admission_act [OF assms True False] admit by blast
  next
    case no: False
    then have "drain_act s c = Some (s', c')" using assms
      by (cases "cn_pc c"; cases "cn_call c") (simp_all add: consumer_act_def dequeue_act_def dequeue_bulk_act_def)
    then show thesis by (rule drain)
  qed
qed

section \<open>Every step keeps the claims\<close>

text \<open>What a step counts as dequeued, and what it moves out.\<close>

fun counted :: "deq_pc \<Rightarrow> nat set" where
  "counted (D_EMPTY q) = {dc_start q..<dc_stop q}"
| "counted _ = {}"

fun taken :: "deq_pc \<Rightarrow> nat set" where
  "taken (D_MOVE q) = (if dc_index q = dc_stop q then {} else {dc_index q})"
| "taken _ = {}"

lemma next_block_claims:
  assumes "part_ok H q" "dc_index q = dc_stop q"
  shows "pend (next_block s q) = {dc_stop q..<dc_end q}" "moved (next_block s q) = {}" "claim_ok H (next_block s q)"
  using assms by (auto simp: next_block_def part_ok_def)

lemma drain_claims:
  assumes step: "drain_step s c s' c'" and inv: "claim_inv H pcs M X" and pc: "pcs i = cn_pc c"
  shows "claim_inv H (pcs(i := cn_pc c')) (M \<union> counted (cn_pc c)) (X \<union> taken (cn_pc c))"
proof -
  have ok: "claim_ok H (cn_pc c)" using claim_invD(5) [OF inv, of i] pc by simp
  note upd = claim_inv_update [OF inv, of "cn_pc c'" i, unfolded pc] and mv = claim_inv_move [OF inv, of i "cn_pc c'", unfolded pc]
  show ?thesis using step
  proof cases
    case (dr_move q x)
    then have "{dc_start q..<Suc (dc_index q)} = {dc_start q..<dc_index q} \<union> {dc_index q}" using ok by auto
    then show ?thesis using mv [of "{}" "{dc_index q}"] dr_move ok by (simp add: at_def)
  next
    case (dr_full q)
    then have "{dc_start q..<dc_end q} = {dc_stop q..<dc_end q} \<union> {dc_start q..<dc_stop q}" using ok by (auto simp: part_ok_def)
    then show ?thesis using mv [of "{dc_start q..<dc_stop q}" "{}"] dr_full ok by (simp add: at_def)
  next
    case (dr_part q)
    then have "{dc_start q..<dc_end q} = {dc_stop q..<dc_end q} \<union> {dc_start q..<dc_stop q}" using ok by (auto simp: part_ok_def)
    then show ?thesis using mv [of "{dc_start q..<dc_stop q}" "{}"] dr_part ok by (simp add: at_def next_block_claims [of H])
  next
    case (dr_free q)
    then show ?thesis using upd ok by (simp add: at_def next_block_claims [of H])
  next
    case (dr_value q b)
    then show ?thesis using upd ok by (simp add: at_def opened_def part_ok_def) linarith
  qed (use upd ok in \<open>simp_all add: at_def found_def\<close>)
qed

section \<open>What has been moved out\<close>

definition out_ok :: "'a list \<Rightarrow> (nat \<times> 'a) list \<Rightarrow> nat set \<Rightarrow> bool" where
  "out_ok ps out X \<longleftrightarrow> fst ` set out = X \<and> distinct (map fst out) \<and> (\<forall>(j, x) \<in> set out. j < length ps \<and> x = ps ! j)"

definition slice :: "'a list \<Rightarrow> nat \<Rightarrow> nat \<Rightarrow> 'a list" where
  "slice ps f l = map (nth ps) [f..<l]"

lemma slice_simps [simp]: "slice ps f f = []" "length (slice ps f l) = l - f"
  by (simp_all add: slice_def)

lemma slice_snoc: "f \<le> l \<Longrightarrow> slice ps f (Suc l) = slice ps f l @ [ps ! l]"
  by (simp add: slice_def)

lemma slice_append: "l \<le> length ps \<Longrightarrow> slice (ps @ xs) f l = slice ps f l"
  by (auto simp: slice_def nth_append)

lemma slice_take_drop: "l \<le> length ps \<Longrightarrow> slice ps f l = take (l - f) (drop f ps)"
  by (rule nth_equalityI) (auto simp: slice_def)

text \<open>What a dequeue has handed to its caller: a part of the sequence enqueued.\<close>

fun got_ok :: "'a list \<Rightarrow> deq_pc \<Rightarrow> 'a list \<Rightarrow> bool" where
  "got_ok ps (D_VALUE q) got \<longleftrightarrow> got = slice ps (dc_first q) (dc_index q)"
| "got_ok ps (D_MOVE q) got \<longleftrightarrow> got = slice ps (dc_first q) (dc_index q)"
| "got_ok ps (D_EMPTY q) got \<longleftrightarrow> got = slice ps (dc_first q) (dc_index q)"
| "got_ok ps (D_UNLINK q) got \<longleftrightarrow> got = slice ps (dc_first q) (dc_index q)"
| "got_ok ps (D_FREE q) got \<longleftrightarrow> got = slice ps (dc_first q) (dc_index q)"
| "got_ok ps (D_RET f n) got \<longleftrightarrow> got = slice ps f (f + n)"
| "got_ok ps _ got \<longleftrightarrow> got = []"

lemma got_ok_append: "got_ok ps pc got \<Longrightarrow> claim_ok (length ps) pc \<Longrightarrow> got_ok (ps @ xs) pc got"
  by (cases pc) (auto simp: slice_append part_ok_def)

lemma got_ok_admission: "admission pc \<Longrightarrow> got_ok ps pc got \<Longrightarrow> got = []"
  by (cases pc) auto

lemma admission_got_ok: "admission pc \<Longrightarrow> got_ok ps pc []"
  by (cases pc) auto

lemma drain_got:
  assumes "drain_step s c s' c'" "claim_ok H (cn_pc c)" "got_ok ps (cn_pc c) (cn_got c)"
    and "\<And>q x. cn_pc c = D_MOVE q \<Longrightarrow> dc_index q \<noteq> dc_stop q \<Longrightarrow> get_slot (dc_block q) (dc_index q) s = Some x \<Longrightarrow> x = ps ! dc_index q"
  shows "got_ok ps (cn_pc c') (cn_got c')"
  using assms
  by (cases rule: drain_step.cases) (auto simp: at_def found_def opened_def next_block_def slice_snoc part_ok_def)

lemma out_ok_snoc: "out_ok ps out X \<Longrightarrow> j \<notin> X \<Longrightarrow> j < length ps \<Longrightarrow> out_ok ps (out @ [(j, ps ! j)]) (X \<union> {j})"
  by (auto simp: out_ok_def)

lemma out_ok_append: "out_ok ps out X \<Longrightarrow> out_ok (ps @ xs) out X"
  by (auto simp: out_ok_def nth_append split_beta)

end
