(* ===== verification/SubQueueIndex.thy ===== *)
theory SubQueueIndex
  imports SubQueueClaims
begin

text \<open>
  The block index while consumers read it. Block \<open>b\<close> (the indices from \<open>32 * b\<close>) has the entry
  \<open>gh_entry b\<close> for as long as elements of it are left, at slot \<open>gh_offset h + b\<close> of every header \<open>h\<close> that is
  young enough; a slot is used again only when no older block is left. So a consumer may read an
  old header, or a tail that has moved on, and still find its block.
\<close>

section \<open>Ghost state\<close>

record ghost =
  gh_entry :: "nat \<Rightarrow> nat"
  gh_block :: "nat \<Rightarrow> nat"
  gh_offset :: "nat \<Rightarrow> nat"
  gh_frozen :: "nat \<Rightarrow> nat"
  gh_keyed :: nat
  gh_unlinked :: "nat set"
  gh_released :: "nat set"

text \<open>The blocks of the index that still have elements to be dequeued.\<close>

definition held :: "ghost \<Rightarrow> nat \<Rightarrow> nat \<Rightarrow> bool" where
  "held g N b \<longleftrightarrow> b < N \<and> b \<notin> gh_unlinked g"

lemma held_less: "held g N b \<Longrightarrow> b < N"
  by (simp add: held_def)

definition slot_at :: "ghost \<Rightarrow> nat \<Rightarrow> index_header \<Rightarrow> nat \<Rightarrow> nat" where
  "slot_at g h hdr b = (gh_offset g h + b) mod ih_capacity hdr"

definition entry_at :: "ghost \<Rightarrow> nat \<Rightarrow> index_header \<Rightarrow> nat \<Rightarrow> nat" where
  "entry_at g h hdr b = ih_index hdr ! slot_at g h hdr b"

text \<open>The header of number \<open>h\<close> shows the blocks from the oldest one held up to the \<open>F\<close> it had when it was last used.\<close>

definition header_ok :: "ghost \<Rightarrow> nat \<Rightarrow> nat \<Rightarrow> nat \<Rightarrow> index_header \<Rightarrow> bool" where
  "header_ok g N F h hdr \<longleftrightarrow> 0 < ih_capacity hdr \<and> length (ih_index hdr) = ih_capacity hdr \<and> distinct (ih_index hdr)
     \<and> ih_tail hdr = (gh_offset g h + F + ih_capacity hdr - 1) mod ih_capacity hdr
     \<and> (\<forall>b. held g N b \<longrightarrow> b < F \<longrightarrow> F - b \<le> ih_capacity hdr \<and> (\<forall>b'. b \<le> b' \<longrightarrow> b' < F \<longrightarrow> entry_at g h hdr b' = gh_entry g b'))"

definition headers_ok :: "ghost \<Rightarrow> nat \<Rightarrow> nat \<Rightarrow> block_index \<Rightarrow> bool" where
  "headers_ok g N P bi \<longleftrightarrow> (\<forall>h < length (bi_headers bi). header_ok g N (gh_frozen g h) h (bi_headers bi ! h)
       \<and> set (ih_index (bi_headers bi ! h)) \<subseteq> {..<bi_count bi})
     \<and> (\<forall>h. Suc h < length (bi_headers bi) \<longrightarrow> gh_frozen g h \<le> N) \<and> 0 < bi_next_capacity bi
     \<and> (bi_headers bi = [] \<longrightarrow> N = 0)
     \<and> (bi_headers bi \<noteq> [] \<longrightarrow> gh_frozen g (length (bi_headers bi) - 1) = P \<and> bi_next_capacity bi = 2 * ih_capacity (current_header bi))"

text \<open>
  The entries of the blocks held have their keys and blocks. One more entry may be set up, for the next
  block: it keeps its place when the block cannot be allocated.
\<close>

abbreviation current_id :: "block_index \<Rightarrow> nat" where
  "current_id bi \<equiv> length (bi_headers bi) - 1"

definition entries_ok :: "ghost \<Rightarrow> nat \<Rightarrow> block_index \<Rightarrow> bool" where
  "entries_ok g N bi \<longleftrightarrow> N \<le> gh_keyed g \<and> gh_keyed g \<le> N + 1
     \<and> (\<forall>b b'. held g N b \<longrightarrow> b \<le> b' \<longrightarrow> b' < gh_keyed g \<longrightarrow> ie_key (bi_entries bi (gh_entry g b')) = Some (32 * b'))
     \<and> (\<forall>b. held g N b \<longrightarrow> ie_value (bi_entries bi (gh_entry g b)) = Some (gh_block g b))
     \<and> (gh_keyed g = N + 1 \<longrightarrow> bi_headers bi \<noteq> [] \<and> ie_key (bi_entries bi (gh_entry g N)) = Some (32 * N)
          \<and> entry_at g (current_id bi) (current_header bi) N = gh_entry g N
          \<and> (\<forall>b. held g N b \<longrightarrow> N + 1 - b \<le> ih_capacity (current_header bi)))"

lemma headers_okD:
  assumes "headers_ok g N P bi" "h < length (bi_headers bi)"
  shows "header_ok g N (gh_frozen g h) h (bi_headers bi ! h)" "set (ih_index (bi_headers bi ! h)) \<subseteq> {..<bi_count bi}"
  using assms by (auto simp: headers_ok_def)

lemma current_ok:
  assumes "headers_ok g N P bi" "bi_headers bi \<noteq> []"
  shows "header_ok g N P (current_id bi) (current_header bi)"
  using headers_okD(1) [OF assms(1), of "current_id bi"] assms by (auto simp: headers_ok_def last_conv_nth)

lemma mod_pred: "(x mod n + n - 1) mod n = (x + n - 1) mod n" if "0 < n" for x n :: nat
proof -
  have "x mod n + n - 1 = x mod n + (n - 1)" "x + n - 1 = x + (n - 1)" using that by simp_all
  then show ?thesis by (simp only: mod_add_left_eq)
qed

lemma frozen_le:
  assumes "headers_ok g N P bi" "h < length (bi_headers bi)" "N \<le> K" "P \<le> K"
  shows "gh_frozen g h \<le> K"
proof (cases "Suc h < length (bi_headers bi)")
  case True
  then show ?thesis using assms(1,3) by (auto simp: headers_ok_def)
next
  case False
  then have "h = current_id bi" "bi_headers bi \<noteq> []" using assms(2) by auto
  then show ?thesis using assms(1,4) by (auto simp: headers_ok_def)
qed

lemma slot_inj:
  fixes o' :: nat
  assumes "(o' + b) mod n = (o' + b') mod n" "b \<le> b'" "b' - b < n"
  shows "b = b'"
proof -
  have "n dvd (o' + b') - (o' + b)" using assms(1,2) by (metis mod_eq_dvd_iff_nat add_le_cancel_left)
  then have "n dvd b' - b" by simp
  then show ?thesis using assms(2,3) nat_dvd_not_less [of "b' - b" n] by linarith
qed

text \<open>Two blocks that are both in a header have different entries.\<close>

lemma entry_inj:
  assumes "0 < ih_capacity hdr" "length (ih_index hdr) = ih_capacity hdr" "distinct (ih_index hdr)"
    and "entry_at g h hdr b = entry_at g h hdr b'" "b \<le> b'" "b' - b < ih_capacity hdr"
  shows "b = b'"
proof -
  have "slot_at g h hdr b = slot_at g h hdr b'"
    using assms(1-4) by (simp add: entry_at_def slot_at_def nth_eq_iff_index_eq)
  then show ?thesis using slot_inj [OF _ assms(5,6)] by (simp add: slot_at_def)
qed

lemma held_entry_inj:
  assumes hs: "headers_ok g N P bi" "bi_headers bi \<noteq> []" "N \<le> P" and held: "held g N b" "b \<le> b'" "b' < N"
    and same: "gh_entry g b = gh_entry g b'"
  shows "b = b'"
proof -
  let ?hdr = "current_header bi"
  have ok: "header_ok g N P (current_id bi) ?hdr" by (rule current_ok [OF hs(1,2)])
  have "P - b \<le> ih_capacity ?hdr" "entry_at g (current_id bi) ?hdr b = gh_entry g b" "entry_at g (current_id bi) ?hdr b' = gh_entry g b'"
    using ok held hs(3) by (auto simp: header_ok_def)
  then show ?thesis using entry_inj [of ?hdr g "current_id bi" b b'] ok held same hs(3) by (auto simp: header_ok_def)
qed

text \<open>The slot that \<open>insert_block_index_entry\<close> looks at.\<close>

lemma next_slot_at:
  assumes "headers_ok g N N bi" "bi_headers bi \<noteq> []"
  shows "next_slot bi = slot_at g (current_id bi) (current_header bi) N"
    "next_entry bi = entry_at g (current_id bi) (current_header bi) N"
proof -
  let ?hdr = "current_header bi"
  have "header_ok g N N (current_id bi) ?hdr" by (rule current_ok [OF assms])
  then have t: "ih_tail ?hdr = (gh_offset g (current_id bi) + N + ih_capacity ?hdr - 1) mod ih_capacity ?hdr" "0 < ih_capacity ?hdr"
    by (auto simp: header_ok_def)
  then show "next_slot bi = slot_at g (current_id bi) ?hdr N"
    by (simp add: next_slot_def slot_at_def mod_simps)
  then show "next_entry bi = entry_at g (current_id bi) ?hdr N" by (simp add: next_entry_def entry_at_def)
qed

text \<open>A free entry belongs to no block that is younger than one held.\<close>

lemma free_entry_fresh:
  assumes hs: "headers_ok g N N bi" "bi_headers bi \<noteq> []" and es: "entries_ok g N bi" and free: "entry_free bi (next_entry bi)"
    and held: "held g N b" "b \<le> b'" "b' < N"
  shows "next_entry bi \<noteq> gh_entry g b'" "N + 1 - b \<le> ih_capacity (current_header bi)"
proof -
  let ?hdr = "current_header bi" and ?h = "current_id bi"
  have ok: "header_ok g N N ?h ?hdr" by (rule current_ok [OF hs])
  have hdr: "0 < ih_capacity ?hdr" "length (ih_index ?hdr) = ih_capacity ?hdr" "distinct (ih_index ?hdr)" using ok by (auto simp: header_ok_def)
  have at: "N - b \<le> ih_capacity ?hdr" "entry_at g ?h ?hdr b = gh_entry g b" "entry_at g ?h ?hdr b' = gh_entry g b'"
    using ok held by (auto simp: header_ok_def)
  have "next_entry bi \<noteq> gh_entry g b" using es held free by (auto simp: entries_ok_def entry_free_def)
  then have neq: "entry_at g ?h ?hdr b \<noteq> entry_at g ?h ?hdr N" using at next_slot_at(2) [OF hs] by simp
  show less: "N + 1 - b \<le> ih_capacity ?hdr"
  proof (rule ccontr)
    assume "\<not> N + 1 - b \<le> ih_capacity ?hdr"
    then have "N = b + ih_capacity ?hdr" using at(1) held by linarith
    then show False using neq by (simp add: entry_at_def slot_at_def flip: add.assoc)
  qed
  show "next_entry bi \<noteq> gh_entry g b'"
  proof -
    have "N - b' < ih_capacity ?hdr" using held less by linarith
    then show ?thesis using entry_inj [OF hdr, of g ?h b' N] at(3) held next_slot_at(2) [OF hs] by auto
  qed
qed

section \<open>The producer\<close>

text \<open>Stores into entries change no header.\<close>

lemma set_entry_simps [simp]:
  "bi_headers (set_key e k bi) = bi_headers bi" "bi_headers (set_value e v bi) = bi_headers bi"
  "bi_count (set_key e k bi) = bi_count bi" "bi_count (set_value e v bi) = bi_count bi"
  "bi_next_capacity (set_key e k bi) = bi_next_capacity bi" "bi_next_capacity (set_value e v bi) = bi_next_capacity bi"
  "ie_key (bi_entries (set_key e k bi) e') = (if e' = e then Some k else ie_key (bi_entries bi e'))"
  "ie_value (bi_entries (set_key e k bi) e') = ie_value (bi_entries bi e')"
  "ie_key (bi_entries (set_value e v bi) e') = ie_key (bi_entries bi e')"
  "ie_value (bi_entries (set_value e v bi) e') = (if e' = e then v else ie_value (bi_entries bi e'))"
  by (simp_all add: set_key_def set_value_def)

lemma headers_ok_cong:
  assumes "headers_ok g N P bi" "bi_headers bi' = bi_headers bi" "bi_count bi' = bi_count bi" "bi_next_capacity bi' = bi_next_capacity bi"
  shows "headers_ok g N P bi'"
  using assms unfolding headers_ok_def by simp

definition key_entry :: "nat \<Rightarrow> nat \<Rightarrow> ghost \<Rightarrow> ghost" where
  "key_entry N e g = g\<lparr>gh_entry := (gh_entry g)(N := e), gh_keyed := N + 1\<rparr>"

lemma key_entry_simps [simp]:
  "held (key_entry N e g) M b = held g M b" "slot_at (key_entry N e g) h hdr b = slot_at g h hdr b"
  "entry_at (key_entry N e g) h hdr b = entry_at g h hdr b" "gh_entry (key_entry N e g) b = (if b = N then e else gh_entry g b)"
  "gh_keyed (key_entry N e g) = N + 1" "gh_frozen (key_entry N e g) = gh_frozen g" "gh_block (key_entry N e g) = gh_block g"
  "gh_offset (key_entry N e g) = gh_offset g" "gh_unlinked (key_entry N e g) = gh_unlinked g" "gh_released (key_entry N e g) = gh_released g"
  by (simp_all add: key_entry_def held_def slot_at_def entry_at_def)

text \<open>The key of a free entry is stored.\<close>

lemma store_key:
  assumes hs: "headers_ok g N N bi" "bi_headers bi \<noteq> []" and es: "entries_ok g N bi" and free: "entry_free bi (next_entry bi)"
    and K: "gh_keyed g = N"
  shows "headers_ok (key_entry N (next_entry bi) g) N N (set_key (next_entry bi) (32 * N) bi)"
    "entries_ok (key_entry N (next_entry bi) g) N (set_key (next_entry bi) (32 * N) bi)"
proof -
  note fresh = free_entry_fresh [OF hs es free]
  have le: "gh_frozen g h \<le> N" if "h < length (bi_headers bi)" for h
    using frozen_le [OF hs(1) that] by simp
  have "headers_ok (key_entry N (next_entry bi) g) N N bi"
    using hs(1) le unfolding headers_ok_def header_ok_def by (simp cong: conj_cong) fastforce
  then show "headers_ok (key_entry N (next_entry bi) g) N N (set_key (next_entry bi) (32 * N) bi)"
    by (rule headers_ok_cong) simp_all
  show "entries_ok (key_entry N (next_entry bi) g) N (set_key (next_entry bi) (32 * N) bi)"
  proof -
    have "gh_entry g b' \<noteq> next_entry bi" if "held g N b" "b \<le> b'" "b' < N" for b b' using fresh(1) [OF that] by simp
    moreover have "N + 1 - b \<le> ih_capacity (current_header bi)" if "held g N b" for b using fresh(2) [OF that order.refl] held_less [OF that] by simp
    ultimately show ?thesis using es next_slot_at(2) [OF hs, symmetric] hs(2) K unfolding entries_ok_def by (auto simp: less_Suc_eq dest: held_less)
  qed
qed

text \<open>The entry for the next block was set up before: the same key is stored again.\<close>

lemma store_key_again:
  assumes hs: "headers_ok g N N bi" and es: "entries_ok g N bi" and K: "gh_keyed g = N + 1"
  shows "next_entry bi = gh_entry g N" "set_key (next_entry bi) (32 * N) bi = bi"
proof -
  have "bi_headers bi \<noteq> []" using es K by (auto simp: entries_ok_def)
  then show e: "next_entry bi = gh_entry g N" using next_slot_at(2) [OF hs] es K by (simp add: entries_ok_def)
  have "ie_key (bi_entries bi (gh_entry g N)) = Some (32 * N)" using es K by (simp add: entries_ok_def)
  then show "set_key (next_entry bi) (32 * N) bi = bi" unfolding e by (simp add: set_key_def fun_upd_idem)
qed

definition freeze :: "nat \<Rightarrow> nat \<Rightarrow> ghost \<Rightarrow> ghost" where
  "freeze h F g = g\<lparr>gh_frozen := (gh_frozen g)(h := F)\<rparr>"

lemma freeze_simps [simp]:
  "held (freeze h' F g) M b = held g M b" "slot_at (freeze h' F g) h hdr b = slot_at g h hdr b"
  "entry_at (freeze h' F g) h hdr b = entry_at g h hdr b" "gh_entry (freeze h' F g) = gh_entry g"
  "gh_keyed (freeze h' F g) = gh_keyed g" "gh_block (freeze h' F g) = gh_block g" "gh_offset (freeze h' F g) = gh_offset g"
  "gh_frozen (freeze h' F g) h = (if h = h' then F else gh_frozen g h)"
  "gh_unlinked (freeze h' F g) = gh_unlinked g" "gh_released (freeze h' F g) = gh_released g"
  by (simp_all add: freeze_def held_def slot_at_def entry_at_def)

lemma set_tail_simps [simp]:
  assumes "bi_headers bi \<noteq> []"
  shows "length (bi_headers (set_tail p bi)) = length (bi_headers bi)" "current_header (set_tail p bi) = (current_header bi)\<lparr>ih_tail := p\<rparr>"
    "bi_entries (set_tail p bi) = bi_entries bi" "bi_headers (set_tail p bi) \<noteq> []"
    "bi_count (set_tail p bi) = bi_count bi" "bi_next_capacity (set_tail p bi) = bi_next_capacity bi"
    "h < length (bi_headers bi) \<Longrightarrow> bi_headers (set_tail p bi) ! h
       = (if h = current_id bi then (current_header bi)\<lparr>ih_tail := p\<rparr> else bi_headers bi ! h)"
  using assms by (auto simp: set_tail_def nth_append nth_butlast)

lemma entry_at_tail [simp]: "entry_at g h (hdr\<lparr>ih_tail := p\<rparr>) b = entry_at g h hdr b"
  by (simp add: entry_at_def slot_at_def)

text \<open>The store of a tail makes another block visible, or hides it again.\<close>

lemma headers_ok_tail:
  assumes hs: "headers_ok g N P bi" "bi_headers bi \<noteq> []"
    and new: "header_ok g N F (current_id bi) ((current_header bi)\<lparr>ih_tail := p\<rparr>)"
  shows "headers_ok (freeze (current_id bi) F g) N F (set_tail p bi)"
proof -
  have "header_ok (freeze (current_id bi) F g) N (gh_frozen (freeze (current_id bi) F g) h) h (bi_headers (set_tail p bi) ! h)
      \<and> set (ih_index (bi_headers (set_tail p bi) ! h)) \<subseteq> {..<bi_count bi}" if "h < length (bi_headers bi)" for h
    using headers_okD [OF hs(1) that] new hs(2) that by (auto simp: header_ok_def last_conv_nth)
  then show ?thesis using hs unfolding headers_ok_def by auto
qed

lemma entries_ok_tail:
  assumes "entries_ok g N bi" "bi_headers bi \<noteq> []"
  shows "entries_ok (freeze (current_id bi) F g) N (set_tail p bi)"
  using assms unfolding entries_ok_def by simp

lemma store_tail:
  assumes hs: "headers_ok g N N bi" and es: "entries_ok g N bi" and K: "gh_keyed g = N + 1"
    and p: "p = slot_at g (current_id bi) (current_header bi) N"
  shows "headers_ok (freeze (current_id bi) (N + 1) g) N (N + 1) (set_tail p bi)"
proof (rule headers_ok_tail [OF hs])
  show ne: "bi_headers bi \<noteq> []" using es K by (auto simp: entries_ok_def)
  have ok: "header_ok g N N (current_id bi) (current_header bi)" by (rule current_ok [OF hs ne])
  show "header_ok g N (N + 1) (current_id bi) ((current_header bi)\<lparr>ih_tail := p\<rparr>)"
    using ok es K unfolding header_ok_def entries_ok_def p by (auto simp: slot_at_def less_Suc_eq dest: held_less)
qed

lemma rewind_tail:
  assumes hs: "headers_ok g N (N + 1) bi" "bi_headers bi \<noteq> []"
  shows "headers_ok (freeze (current_id bi) N g) N N (rewind_block_index_tail bi)"
proof -
  let ?hdr = "current_header bi" and ?o = "gh_offset g (current_id bi)"
  have ok: "header_ok g N (N + 1) (current_id bi) ?hdr" by (rule current_ok [OF hs])
  have n: "0 < ih_capacity ?hdr" "ih_tail ?hdr = (?o + N) mod ih_capacity ?hdr" using ok by (auto simp: header_ok_def)
  then have "(ih_tail ?hdr + ih_capacity ?hdr - 1) mod ih_capacity ?hdr = (?o + N + ih_capacity ?hdr - 1) mod ih_capacity ?hdr"
    by (simp only: mod_pred)
  then have "header_ok g N N (current_id bi) (?hdr\<lparr>ih_tail := (ih_tail ?hdr + ih_capacity ?hdr - 1) mod ih_capacity ?hdr\<rparr>)"
    using ok unfolding header_ok_def by auto
  then show ?thesis unfolding rewind_block_index_tail_def by (rule headers_ok_tail [OF hs])
qed

text \<open>The block is published, with or without an entry set up for the next.\<close>

definition own_block :: "nat \<Rightarrow> nat \<Rightarrow> ghost \<Rightarrow> ghost" where
  "own_block N b g = g\<lparr>gh_block := (gh_block g)(N := b)\<rparr>"

lemma own_block_simps [simp]:
  "held (own_block N c g) M b = held g M b" "slot_at (own_block N c g) h hdr b = slot_at g h hdr b"
  "entry_at (own_block N c g) h hdr b = entry_at g h hdr b" "gh_entry (own_block N c g) = gh_entry g"
  "gh_keyed (own_block N c g) = gh_keyed g" "gh_frozen (own_block N c g) = gh_frozen g" "gh_offset (own_block N c g) = gh_offset g"
  "gh_block (own_block N c g) b = (if b = N then c else gh_block g b)"
  "gh_unlinked (own_block N c g) = gh_unlinked g" "gh_released (own_block N c g) = gh_released g"
  by (simp_all add: own_block_def held_def slot_at_def entry_at_def)

lemma held_Suc: "held g (Suc N) b \<longleftrightarrow> held g N b \<or> b = N \<and> N \<notin> gh_unlinked g"
  by (auto simp: held_def less_Suc_eq)

text \<open>The entry that is set up is not that of a block held.\<close>

lemma next_entry_inj:
  assumes hs: "headers_ok g N P bi" "N \<le> P" and es: "entries_ok g N bi" and K: "gh_keyed g = N + 1" and held: "held g N b"
  shows "gh_entry g b \<noteq> gh_entry g N"
proof -
  let ?hdr = "current_header bi"
  have ne: "bi_headers bi \<noteq> []" and N: "entry_at g (current_id bi) ?hdr N = gh_entry g N" "N + 1 - b \<le> ih_capacity ?hdr"
    using es K held by (auto simp: entries_ok_def)
  have ok: "header_ok g N P (current_id bi) ?hdr" by (rule current_ok [OF hs(1) ne])
  have "entry_at g (current_id bi) ?hdr b = gh_entry g b" using ok held held_less [OF held] hs(2) by (auto simp: header_ok_def)
  moreover have "N - b < ih_capacity ?hdr" using N(2) held_less [OF held] by linarith
  ultimately show ?thesis using entry_inj [of ?hdr g "current_id bi" b N] ok N held_less [OF held] by (auto simp: header_ok_def)
qed

lemma publish_block:
  assumes hs: "headers_ok g N (N + 1) bi" and es: "entries_ok g N bi" and K: "gh_keyed g = N + 1"
  shows "headers_ok (own_block N b g) (N + 1) (N + 1) (set_value (gh_entry g N) (Some b) bi)"
    "entries_ok (own_block N b g) (N + 1) (set_value (gh_entry g N) (Some b) bi)"
proof -
  have ne: "bi_headers bi \<noteq> []" and N: "entry_at g (current_id bi) (current_header bi) N = gh_entry g N"
    using es K by (auto simp: entries_ok_def)
  have inj: "gh_entry g b' \<noteq> gh_entry g N" if "held g N b'" for b' using next_entry_inj [OF hs _ es K that] by simp
  have "header_ok (own_block N b g) (N + 1) (gh_frozen g h) h (bi_headers bi ! h)" if h: "h < length (bi_headers bi)" for h
  proof (cases "Suc h < length (bi_headers bi)")
    case True
    then have "gh_frozen g h \<le> N" using hs by (simp add: headers_ok_def)
    then show ?thesis using headers_okD(1) [OF hs h] unfolding header_ok_def by (auto simp: held_Suc)
  next
    case False
    then have "h = current_id bi" using h by simp
    then show ?thesis using current_ok [OF hs ne] hs ne N unfolding header_ok_def
      by (auto simp: held_Suc headers_ok_def last_conv_nth le_antisym less_Suc_eq_le)
  qed
  then have "headers_ok (own_block N b g) (N + 1) (N + 1) bi" using hs ne unfolding headers_ok_def by auto
  then show "headers_ok (own_block N b g) (N + 1) (N + 1) (set_value (gh_entry g N) (Some b) bi)"
    by (rule headers_ok_cong) simp_all
  show "entries_ok (own_block N b g) (N + 1) (set_value (gh_entry g N) (Some b) bi)"
    using es K inj unfolding entries_ok_def by (auto simp: held_Suc less_Suc_eq dest: held_less)
qed

text \<open>The entry set up is cleared.\<close>

lemma clear_entry:
  assumes hs: "headers_ok g N N bi" and es: "entries_ok g N bi" and K: "gh_keyed g = N + 1"
  shows "headers_ok g N N (set_value (gh_entry g N) None bi)" "entries_ok g N (set_value (gh_entry g N) None bi)"
proof -
  show "headers_ok g N N (set_value (gh_entry g N) None bi)" by (rule headers_ok_cong [OF hs]) simp_all
  show "entries_ok g N (set_value (gh_entry g N) None bi)"
    using es next_entry_inj [OF hs order.refl es K] K unfolding entries_ok_def by auto
qed

text \<open>A block all of whose elements have been dequeued is taken out of the index.\<close>

definition unlink :: "nat \<Rightarrow> ghost \<Rightarrow> ghost" where
  "unlink b g = g\<lparr>gh_unlinked := insert b (gh_unlinked g)\<rparr>"

lemma unlink_simps [simp]:
  "held (unlink c g) M b \<longleftrightarrow> held g M b \<and> b \<noteq> c" "slot_at (unlink c g) h hdr b = slot_at g h hdr b"
  "entry_at (unlink c g) h hdr b = entry_at g h hdr b" "gh_entry (unlink c g) = gh_entry g"
  "gh_keyed (unlink c g) = gh_keyed g" "gh_frozen (unlink c g) = gh_frozen g" "gh_offset (unlink c g) = gh_offset g"
  "gh_block (unlink c g) = gh_block g" "gh_unlinked (unlink c g) = insert c (gh_unlinked g)" "gh_released (unlink c g) = gh_released g"
  by (auto simp: unlink_def held_def slot_at_def entry_at_def)

lemma unlink_block:
  assumes hs: "headers_ok g N P bi" "N \<le> P" and es: "entries_ok g N bi" and held: "held g N b"
  shows "headers_ok (unlink b g) N P (set_value (gh_entry g b) None bi)" "entries_ok (unlink b g) N (set_value (gh_entry g b) None bi)"
proof -
  have "header_ok (unlink b g) N F h hdr" if "header_ok g N F h hdr" for F h hdr using that by (auto simp: header_ok_def)
  then have "headers_ok (unlink b g) N P bi" using hs(1) unfolding headers_ok_def by simp
  then show "headers_ok (unlink b g) N P (set_value (gh_entry g b) None bi)" by (rule headers_ok_cong) simp_all
  have "gh_entry g b' \<noteq> gh_entry g b" if b': "held g N b'" "b' \<noteq> b" for b'
  proof (cases "bi_headers bi = []")
    case True
    then show ?thesis using hs(1) held_less [OF held] by (simp add: headers_ok_def)
  next
    case False
    then show ?thesis
      using held_entry_inj [OF hs(1) False hs(2) held _ held_less [OF b'(1)]] held_entry_inj [OF hs(1) False hs(2) b'(1) _ held_less [OF held]] b'(2)
      by (metis nat_le_linear)
  qed
  then show "entries_ok (unlink b g) N (set_value (gh_entry g b) None bi)" using es unfolding entries_ok_def by auto
qed

text \<open>A header of twice the capacity is published: first the entries of the old one, the oldest first, then new ones.\<close>

definition grow :: "nat \<Rightarrow> nat \<Rightarrow> nat \<Rightarrow> ghost \<Rightarrow> ghost" where
  "grow h n N g = g\<lparr>gh_offset := (gh_offset g)(h := n + N * (2 * n) - N), gh_frozen := (gh_frozen g)(h := N)\<rparr>"

lemma grow_simps [simp]:
  "held (grow h n N g) M b = held g M b" "gh_entry (grow h n N g) = gh_entry g"
  "gh_keyed (grow h n N g) = gh_keyed g" "gh_block (grow h n N g) = gh_block g"
  "gh_frozen (grow h n N g) h' = (if h' = h then N else gh_frozen g h')"
  "gh_offset (grow h n N g) h' = (if h' = h then n + N * (2 * n) - N else gh_offset g h')"
  "gh_unlinked (grow h n N g) = gh_unlinked g" "gh_released (grow h n N g) = gh_released g"
  by (simp_all add: grow_def held_def)

lemma entry_at_grow [simp]: "h' \<noteq> h \<Longrightarrow> entry_at (grow h n N g) h' hdr b = entry_at g h' hdr b"
  by (simp add: entry_at_def slot_at_def)

lemma mod_shift: "a = r + k * m \<Longrightarrow> a mod m = r mod m" for a r k m :: nat
  by simp

lemma grown_offset: "b \<le> N \<Longrightarrow> 0 < n \<Longrightarrow> n + N * (2 * n) - N + b = n - (N - b) + N * (2 * n)" if "N - b \<le> n" for n N b :: nat
proof -
  assume "b \<le> N" "0 < n"
  then have "N \<le> N * (2 * n)" by simp
  then show ?thesis using \<open>b \<le> N\<close> that by linarith
qed

definition copied :: "index_header \<Rightarrow> nat list" where
  "copied hdr = map (\<lambda>j. ih_index hdr ! ((ih_tail hdr + 1 + j) mod ih_capacity hdr)) [0..<ih_capacity hdr]"

lemma copied_props:
  assumes "0 < ih_capacity hdr" "length (ih_index hdr) = ih_capacity hdr" "distinct (ih_index hdr)"
  shows "length (copied hdr) = ih_capacity hdr" "distinct (copied hdr)" "set (copied hdr) \<subseteq> set (ih_index hdr)"
proof -
  have "j = k" if "j \<le> k" "k < ih_capacity hdr" "(ih_tail hdr + 1 + j) mod ih_capacity hdr = (ih_tail hdr + 1 + k) mod ih_capacity hdr" for j k
    using slot_inj [OF that(3,1)] that(2) by simp
  note inj = this
  have "inj_on (\<lambda>j. ih_index hdr ! ((ih_tail hdr + 1 + j) mod ih_capacity hdr)) (set [0..<ih_capacity hdr])"
  proof (rule inj_onI)
    fix j k assume jk: "j \<in> set [0..<ih_capacity hdr]" "k \<in> set [0..<ih_capacity hdr]"
      and "ih_index hdr ! ((ih_tail hdr + 1 + j) mod ih_capacity hdr) = ih_index hdr ! ((ih_tail hdr + 1 + k) mod ih_capacity hdr)"
    then have eq: "(ih_tail hdr + 1 + j) mod ih_capacity hdr = (ih_tail hdr + 1 + k) mod ih_capacity hdr"
      using nth_eq_iff_index_eq [OF assms(3)] assms(1,2) by simp
    have lt: "j < ih_capacity hdr" "k < ih_capacity hdr" using jk by simp_all
    show "j = k"
    proof (cases "j \<le> k")
      case True
      then show ?thesis by (rule inj [OF _ lt(2) eq])
    next
      case False
      then show ?thesis using inj [OF _ lt(1) eq [symmetric]] by linarith
    qed
  qed
  then show "distinct (copied hdr)" by (simp only: copied_def distinct_map distinct_upt conj_absorb simp_thms)
qed (use assms in \<open>auto simp: copied_def\<close>)

lemma new_block_index_grow:
  assumes "bi_headers bi \<noteq> []" "bi_next_capacity bi = 2 * ih_capacity (current_header bi)"
  shows "bi_headers (new_block_index bi) = bi_headers bi @ [\<lparr>ih_capacity = 2 * ih_capacity (current_header bi),
      ih_tail = (3 * ih_capacity (current_header bi) - 1) mod (2 * ih_capacity (current_header bi)),
      ih_index = copied (current_header bi) @ [bi_count bi ..< bi_count bi + ih_capacity (current_header bi)]\<rparr>]"
    "bi_count (new_block_index bi) = bi_count bi + ih_capacity (current_header bi)"
    "bi_next_capacity (new_block_index bi) = 2 * (2 * ih_capacity (current_header bi))"
    "bi_entries (new_block_index bi) e = (if bi_count bi \<le> e \<and> e < bi_count bi + ih_capacity (current_header bi)
       then (bi_entries bi e)\<lparr>ie_key := None\<rparr> else bi_entries bi e)"
  using assms by (simp_all add: new_block_index_def copied_def Let_def)

lemma grown_entry:
  assumes hdr: "0 < ih_capacity hdr" "ih_tail hdr = (gh_offset g h + N + ih_capacity hdr - 1) mod ih_capacity hdr"
    and b: "N - b \<le> ih_capacity hdr" "b < N"
    and new: "ih_capacity hdr' = 2 * ih_capacity hdr" "ih_index hdr' = copied hdr @ xs"
  shows "entry_at (grow h' (ih_capacity hdr) N g) h' hdr' b = entry_at g h hdr b"
proof -
  let ?n = "ih_capacity hdr" and ?o = "gh_offset g h"
  have "slot_at (grow h' ?n N g) h' hdr' b = (?n - (N - b)) mod (2 * ?n)"
    using mod_shift [OF grown_offset [OF b(1) less_imp_le [OF b(2)] hdr(1)]] new(1) by (simp add: slot_at_def)
  then have slot: "slot_at (grow h' ?n N g) h' hdr' b = ?n - (N - b)" using hdr(1) by simp
  have "ih_index hdr' ! k = ih_index hdr ! ((ih_tail hdr + 1 + k) mod ?n)" if "k < ?n" for k
    using that by (simp add: new(2) copied_def nth_append)
  moreover have "?n - (N - b) < ?n" using b hdr(1) by linarith
  ultimately have "entry_at (grow h' ?n N g) h' hdr' b = ih_index hdr ! ((ih_tail hdr + 1 + (?n - (N - b))) mod ?n)"
    unfolding entry_at_def slot by blast
  moreover have "(ih_tail hdr + 1 + (?n - (N - b))) mod ?n = (?o + b) mod ?n"
  proof -
    have "(ih_tail hdr + 1 + (?n - (N - b))) mod ?n = ((?o + N + ?n - 1) mod ?n + (1 + (?n - (N - b)))) mod ?n" using hdr(2) by simp
    also have "\<dots> = (?o + N + ?n - 1 + (1 + (?n - (N - b)))) mod ?n" by (rule mod_add_left_eq)
    also have "?o + N + ?n - 1 + (1 + (?n - (N - b))) = ?o + b + 2 * ?n" using b hdr(1) by linarith
    finally show ?thesis by simp
  qed
  ultimately show ?thesis by (simp add: entry_at_def slot_at_def)
qed

lemma grow_index:
  assumes hs: "headers_ok g N N bi" and ne: "bi_headers bi \<noteq> []" and es: "entries_ok g N bi" and K: "gh_keyed g = N"
  defines "g' \<equiv> grow (length (bi_headers bi)) (ih_capacity (current_header bi)) N g"
  shows "headers_ok g' N N (new_block_index bi)" "entries_ok g' N (new_block_index bi)"
    "ie_key (bi_entries (new_block_index bi) (next_entry (new_block_index bi))) = None"
proof -
  let ?hdr = "current_header bi" and ?h = "length (bi_headers bi)" and ?n = "ih_capacity (current_header bi)"
  let ?bi = "new_block_index bi"
  let ?new = "\<lparr>ih_capacity = 2 * ?n, ih_tail = (3 * ?n - 1) mod (2 * ?n), ih_index = copied ?hdr @ [bi_count bi ..< bi_count bi + ?n]\<rparr>"
  have ok: "header_ok g N N (current_id bi) ?hdr" by (rule current_ok [OF hs ne])
  have n: "0 < ?n" "length (ih_index ?hdr) = ?n" "distinct (ih_index ?hdr)"
    "ih_tail ?hdr = (gh_offset g (current_id bi) + N + ?n - 1) mod ?n" using ok by (auto simp: header_ok_def)
  note cp = copied_props [OF n(1-3)]
  have cap: "bi_next_capacity bi = 2 * ?n" using hs ne by (simp add: headers_ok_def)
  note nb = new_block_index_grow [OF ne cap]
  have sub: "set (ih_index ?hdr) \<subseteq> {..<bi_count bi}" using headers_okD(2) [OF hs, of "current_id bi"] ne by (simp add: last_conv_nth)
  have "?n + N * (2 * ?n) - N + N = ?n + N * (2 * ?n)" using grown_offset [of N N ?n] n(1) by simp
  then have slot: "slot_at g' ?h ?new N = ?n" and e: "?n + N * (2 * ?n) - N + N + 2 * ?n - 1 = 3 * ?n - 1 + N * (2 * ?n)"
    using n(1) by (simp_all add: slot_at_def g'_def)
  from e have tail: "(?n + N * (2 * ?n) - N + N + 2 * ?n - 1) mod (2 * ?n) = (3 * ?n - 1) mod (2 * ?n)"
    by (rule mod_shift)
  have at: "entry_at g' ?h ?new b' = gh_entry g b'" if "held g N b" "b \<le> b'" "b' < N" for b b'
  proof -
    have "N - b \<le> ?n" "entry_at g (current_id bi) ?hdr b' = gh_entry g b'" using ok that by (auto simp: header_ok_def)
    then show ?thesis using grown_entry [OF n(1,4), of b' ?new] that(2,3) unfolding g'_def by simp
  qed
  have new: "header_ok g' N N ?h ?new"
    unfolding header_ok_def
  proof (intro conjI allI impI)
    show "distinct (ih_index ?new)" using cp sub by auto
    fix b assume b: "held g' N b" "b < N"
    then show "N - b \<le> ih_capacity ?new" using ok by (auto simp: header_ok_def g'_def)
    show "entry_at g' ?h ?new b' = gh_entry g' b'" if "b \<le> b'" "b' < N" for b' using at [OF _ that] b by (simp add: g'_def)
  qed (use n tail cp in \<open>simp_all add: g'_def\<close>)
  have old: "header_ok g' N (gh_frozen g h) h hdr" if "header_ok g N (gh_frozen g h) h hdr" "h < ?h" for h hdr
    using that by (simp add: header_ok_def g'_def)
  have le: "gh_frozen g h \<le> N" if "h < length (bi_headers bi)" for h
    using frozen_le [OF hs that] by simp
  show heads: "headers_ok g' N N ?bi"
    unfolding headers_ok_def
  proof (intro conjI allI impI)
    fix h assume h: "h < length (bi_headers ?bi)"
    show "header_ok g' N (gh_frozen g' h) h (bi_headers ?bi ! h)"
    proof (cases "h = ?h")
      case True
      then show ?thesis using new nb(1) by (simp add: g'_def)
    next
      case False
      then have "h < ?h" using h nb(1) by simp
      then show ?thesis using old [OF headers_okD(1) [OF hs]] nb(1) by (simp add: nth_append g'_def)
    qed
    show "set (ih_index (bi_headers ?bi ! h)) \<subseteq> {..<bi_count ?bi}"
    proof (cases "h = ?h")
      case True
      then show ?thesis using cp(3) sub nb(1,2) by auto
    next
      case False
      then have "h < ?h" using h nb(1) by simp
      then show ?thesis using headers_okD(2) [OF hs, of h] nb(1,2) by (auto simp: nth_append)
    qed
  qed (use nb ne le n(1) in \<open>auto simp: g'_def\<close>)
  have same: "bi_entries ?bi (gh_entry g b') = bi_entries bi (gh_entry g b')" if "held g N b" "b \<le> b'" "b' < N" for b b'
  proof -
    have "gh_entry g b' = entry_at g (current_id bi) ?hdr b'" using ok that by (auto simp: header_ok_def)
    also have "\<dots> \<in> set (ih_index ?hdr)" using n(1,2) by (simp add: entry_at_def slot_at_def)
    finally show ?thesis using sub by (auto simp: nb(4))
  qed
  show "entries_ok g' N ?bi" using es K same unfolding entries_ok_def g'_def by (auto simp: held_less)
  have "next_entry ?bi = bi_count bi"
    using next_slot_at(2) [OF heads] nb(1) slot cp(1) n(1) by (simp add: entry_at_def nth_append)
  then show "ie_key (bi_entries ?bi (next_entry ?bi)) = None" using n(1) by (simp add: nb(4))
qed

text \<open>The constructor.\<close>

definition no_ghost :: ghost where
  "no_ghost = \<lparr>gh_entry = \<lambda>_. 0, gh_block = \<lambda>_. 0, gh_offset = \<lambda>_. 0, gh_frozen = \<lambda>_. 0, gh_keyed = 0, gh_unlinked = {}, gh_released = {}\<rparr>"

lemma initial_index:
  "headers_ok no_ghost 0 0 (no_block_index junk)" "entries_ok no_ghost 0 (no_block_index junk)"
  "headers_ok no_ghost 0 0 (new_block_index (no_block_index junk))" "entries_ok no_ghost 0 (new_block_index (no_block_index junk))"
  by (simp_all add: headers_ok_def entries_ok_def header_ok_def held_def no_ghost_def no_block_index_def new_block_index_def
      IMPLICIT_INITIAL_INDEX_SIZE_def Let_def atLeast0LessThan)

section \<open>The readers\<close>

text \<open>The slots of the blocks from that of index \<open>i\<close> to the last of the claim.\<close>

definition displays :: "ghost \<Rightarrow> block_index \<Rightarrow> nat \<Rightarrow> nat \<Rightarrow> nat \<Rightarrow> bool" where
  "displays g bi h a m \<longleftrightarrow> h < length (bi_headers bi) \<and> m < gh_keyed g
     \<and> (\<forall>b. a \<le> b \<longrightarrow> b \<le> m \<longrightarrow> entry_at g h (bi_headers bi ! h) b = gh_entry g b)"

definition placed :: "ghost \<Rightarrow> block_index \<Rightarrow> deq_claim \<Rightarrow> nat \<Rightarrow> bool" where
  "placed g bi q i \<longleftrightarrow> displays g bi (dc_header q) (i div 32) ((dc_end q - 1) div 32)
     \<and> dc_slot q = slot_at g (dc_header q) (bi_headers bi ! dc_header q) (i div 32)"

fun reader_ok :: "ghost \<Rightarrow> block_index \<Rightarrow> deq_pc \<Rightarrow> bool" where
  "reader_ok g bi (D_SLOT f l h) \<longleftrightarrow> h < length (bi_headers bi) \<and> (l - 1) div 32 < gh_frozen g h"
| "reader_ok g bi (D_KEY f l h p) \<longleftrightarrow> (\<exists>m. (l - 1) div 32 \<le> m \<and> displays g bi h (f div 32) m \<and> p = slot_at g h (bi_headers bi ! h) m)"
| "reader_ok g bi (D_VALUE q) \<longleftrightarrow> placed g bi q (dc_index q)"
| "reader_ok g bi (D_MOVE q) \<longleftrightarrow> placed g bi q (dc_start q)"
| "reader_ok g bi (D_EMPTY q) \<longleftrightarrow> placed g bi q (dc_start q)"
| "reader_ok g bi (D_UNLINK q) \<longleftrightarrow> placed g bi q (dc_start q)"
| "reader_ok g bi (D_FREE q) \<longleftrightarrow> placed g bi q (dc_start q)"
| "reader_ok g bi _ \<longleftrightarrow> True"

text \<open>What the producer may change under the eyes of the readers: headers and blocks come, those that are there stay in place.\<close>

definition stays :: "nat \<Rightarrow> ghost \<Rightarrow> block_index \<Rightarrow> ghost \<Rightarrow> block_index \<Rightarrow> bool" where
  "stays N g bi g' bi' \<longleftrightarrow> length (bi_headers bi) \<le> length (bi_headers bi') \<and> gh_keyed g \<le> gh_keyed g'
     \<and> (\<forall>b < gh_keyed g. gh_entry g' b = gh_entry g b)
     \<and> (\<forall>h < length (bi_headers bi). gh_offset g' h = gh_offset g h \<and> min N (gh_frozen g h) \<le> gh_frozen g' h
          \<and> ih_capacity (bi_headers bi' ! h) = ih_capacity (bi_headers bi ! h) \<and> ih_index (bi_headers bi' ! h) = ih_index (bi_headers bi ! h))"

lemma reader_ok_stays:
  assumes "stays N g bi g' bi'" "reader_ok g bi pc" "\<And>f l h. pc = D_SLOT f l h \<Longrightarrow> (l - 1) div 32 < N"
  shows "reader_ok g' bi' pc"
proof -
  have slot: "slot_at g' h (bi_headers bi' ! h) b = slot_at g h (bi_headers bi ! h) b"
    and entry: "entry_at g' h (bi_headers bi' ! h) b = entry_at g h (bi_headers bi ! h) b" if "h < length (bi_headers bi)" for h b
    using assms(1) that by (auto simp: stays_def slot_at_def entry_at_def)
  have sh: "displays g' bi' h a m" if "displays g bi h a m" for h a m
    using that assms(1) entry unfolding displays_def stays_def by auto
  have pl: "placed g' bi' q i" if "placed g bi q i" for q i
    using that sh slot unfolding placed_def displays_def by auto
  show ?thesis
  proof (cases pc)
    case (D_SLOT f l h)
    then show ?thesis using assms by (auto simp: stays_def min_def split: if_splits dest: spec [of _ h])
  next
    case (D_KEY f l h p)
    then show ?thesis using assms(2) sh slot by (auto simp: displays_def)
  qed (use assms(2) pl in auto)
qed

lemma stays_refl: "stays N g bi g bi"
  by (simp add: stays_def)

lemma stays_value: "bi_headers bi' = bi_headers bi \<Longrightarrow> stays N g bi (own_block b c g) bi'" "bi_headers bi' = bi_headers bi \<Longrightarrow> stays N g bi g bi'"
    "bi_headers bi' = bi_headers bi \<Longrightarrow> stays N g bi (unlink b g) bi'"
  by (simp_all add: stays_def)

lemma stays_key: "gh_keyed g = N \<Longrightarrow> bi_headers bi' = bi_headers bi \<Longrightarrow> stays N' g bi (key_entry N e g) bi'"
  by (simp add: stays_def)

lemma stays_tail: "bi_headers bi \<noteq> [] \<Longrightarrow> N \<le> F \<Longrightarrow> stays N g bi (freeze (current_id bi) F g) (set_tail p bi)"
  by (auto simp: stays_def last_conv_nth)

lemma stays_grow:
  assumes "bi_headers bi \<noteq> []" "bi_next_capacity bi = 2 * ih_capacity (current_header bi)"
  shows "stays N g bi (grow (length (bi_headers bi)) n N g) (new_block_index bi)"
  using new_block_index_grow(1) [OF assms] by (simp add: stays_def nth_append)

text \<open>The steps of a lookup.\<close>

lemma read_index:
  assumes "headers_ok g N P bi" "bi_headers bi \<noteq> []" "N \<le> P" "(l - 1) div 32 < N"
  shows "reader_ok g bi (D_SLOT f l (current_id bi))"
  using assms by (auto simp: headers_ok_def)

lemma read_tail:
  assumes hs: "headers_ok g N P bi" and P: "P \<le> gh_keyed g" "N \<le> gh_keyed g" and r: "reader_ok g bi (D_SLOT f l h)" "f < l"
    and held: "held g N (f div 32)"
  shows "reader_ok g bi (D_KEY f l h (ih_tail (bi_headers bi ! h)))"
proof -
  let ?hdr = "bi_headers bi ! h" and ?F = "gh_frozen g h"
  have h: "h < length (bi_headers bi)" "(l - 1) div 32 < ?F" using r by auto
  have ok: "header_ok g N ?F h ?hdr" using headers_okD(1) [OF hs h(1)] .
  have "?F \<le> gh_keyed g" by (rule frozen_le [OF hs h(1) P(2,1)])
  moreover have "f div 32 \<le> (l - 1) div 32" using r(2) by (intro div_le_mono) simp
  ultimately have sh: "displays g bi h (f div 32) (?F - 1)" using ok held h unfolding displays_def header_ok_def by auto
  have "gh_offset g h + ?F + ih_capacity ?hdr - 1 = gh_offset g h + (?F - 1) + ih_capacity ?hdr" using h(2) by linarith
  moreover have "ih_tail ?hdr = (gh_offset g h + ?F + ih_capacity ?hdr - 1) mod ih_capacity ?hdr" using ok unfolding header_ok_def by blast
  ultimately have "ih_tail ?hdr = slot_at g h ?hdr (?F - 1)" by (simp only: slot_at_def mod_add_self2)
  moreover have "(l - 1) div 32 \<le> ?F - 1" using h(2) by linarith
  ultimately show ?thesis using sh by auto
qed

lemma displays_mono: "displays g bi h a m \<Longrightarrow> a \<le> a' \<Longrightarrow> m' \<le> m \<Longrightarrow> displays g bi h a' m'"
  by (auto simp: displays_def)

lemma read_key:
  assumes es: "entries_ok g N bi" and r: "reader_ok g bi (D_KEY f l h p)" "f < l" and held: "held g N (f div 32)"
  defines "hdr \<equiv> bi_headers bi ! h"
  shows "\<exists>k. ie_key (bi_entries bi (ih_index hdr ! p)) = Some k
    \<and> ie_key (bi_entries bi (ih_index hdr ! block_index_index (ih_capacity hdr) p k f)) = Some (block_base f)
    \<and> ie_value (bi_entries bi (ih_index hdr ! block_index_index (ih_capacity hdr) p k f)) \<noteq> None
    \<and> reader_ok g bi (D_VALUE (found f l h (block_index_index (ih_capacity hdr) p k f)))"
proof -
  obtain m where m: "(l - 1) div 32 \<le> m" "displays g bi h (f div 32) m" "p = slot_at g h hdr m" using r(1) by (auto simp: hdr_def)
  have fl: "f div 32 \<le> (l - 1) div 32" using r(2) by (intro div_le_mono) simp
  have e: "ih_index hdr ! p = gh_entry g m" and f: "ih_index hdr ! slot_at g h hdr (f div 32) = gh_entry g (f div 32)"
    using m(1,2) fl unfolding m(3) displays_def entry_at_def hdr_def by auto
  have "m < gh_keyed g" using m(2) by (simp add: displays_def)
  then have key: "ie_key (bi_entries bi (gh_entry g b)) = Some (32 * b)" if "f div 32 \<le> b" "b \<le> m" for b
    using es held that unfolding entries_ok_def by auto
  have slot: "block_index_index (ih_capacity hdr) p (32 * m) f = slot_at g h hdr (f div 32)"
    unfolding m(3) slot_at_def by (rule block_index_index_slot)
  have "ie_value (bi_entries bi (gh_entry g (f div 32))) \<noteq> None" using es held by (simp add: entries_ok_def)
  moreover have "reader_ok g bi (D_VALUE (found f l h (slot_at g h hdr (f div 32))))"
    using displays_mono [OF m(2) order.refl m(1)] by (simp add: found_def placed_def hdr_def)
  ultimately show ?thesis using e f key [of m] key [of "f div 32"] fl m(1) slot by (simp add: block_base_div)
qed

lemma read_value:
  assumes "placed g bi q i" "i < dc_end q"
  shows "ih_index (bi_headers bi ! dc_header q) ! dc_slot q = gh_entry g (i div 32)"
proof -
  have "i div 32 \<le> (dc_end q - 1) div 32" using assms(2) by (intro div_le_mono) simp
  then show ?thesis using assms(1) by (simp add: placed_def displays_def entry_at_def)
qed

lemma placed_next:
  assumes "placed g bi q (dc_start q)" "part_ok H q" "dc_stop q \<noteq> dc_end q"
  shows "placed g bi (q\<lparr>dc_slot := (dc_slot q + 1) mod ih_capacity (bi_headers bi ! dc_header q)\<rparr>) (dc_stop q)"
proof -
  have "dc_stop q = 32 * (dc_start q div 32) + 32" using assms(2,3) by (auto simp: part_ok_def min_def split: if_splits)
  then have "dc_stop q div 32 = Suc (dc_start q div 32)" by simp
  then show ?thesis using assms(1) displays_mono by (auto simp: placed_def slot_at_def mod_simps)
qed

end
