(* ===== verification/SubQueueStore.thy ===== *)
theory SubQueueStore
  imports SubQueueIndex
begin

text \<open>
  What the blocks of a sub-queue hold, and who may use a block: it belongs to the index until it has
  been emptied and taken out, then to the dequeue that took it out, then to the free list. So a
  consumer reads constructed elements only, the producer constructs in unused places only, and no
  block is given back twice.
\<close>

section \<open>Definitions\<close>

definition span :: "nat \<Rightarrow> nat set" where
  "span b = {32 * b..<32 * b + 32}"

text \<open>The number of blocks that have been published; the last one before its first element is counted.\<close>

definition nblocks :: "nat \<Rightarrow> 'a prod_pc \<Rightarrow> nat" where
  "nblocks T pc = (case pc of P_CONSTRUCT x \<Rightarrow> T div 32 + 1 | P_STORE x \<Rightarrow> T div 32 + 1 | _ \<Rightarrow> (T + 31) div 32)"

definition content :: "'a list \<Rightarrow> nat set \<Rightarrow> nat \<Rightarrow> 'a option" where
  "content ps X j = (if j \<in> X \<or> length ps \<le> j then None else Some (ps ! j))"

fun building :: "'a prod_pc \<Rightarrow> 'a list" where
  "building (P_STORE x) = [x]"
| "building _ = []"

fun reserved :: "'a prod_pc \<Rightarrow> nat set" where
  "reserved (P_EARLY x e b) = {b}"
| "reserved (P_PUBLISH x e b) = {b}"
| "reserved (P_REWIND e (Some b)) = {b}"
| "reserved (P_CLEAR e (Some b)) = {b}"
| "reserved (P_RELEASE b) = {b}"
| "reserved _ = {}"

text \<open>The blocks of the index, by number; \<open>M\<close> are the indices counted as dequeued, \<open>X\<close> those moved out.\<close>

definition content_inv :: "(nat \<Rightarrow> 'a qblock) \<Rightarrow> 'a list \<Rightarrow> ghost \<Rightarrow> nat \<Rightarrow> nat set \<Rightarrow> nat set \<Rightarrow> bool" where
  "content_inv blocks ps g N M X \<longleftrightarrow> gh_released g \<subseteq> gh_unlinked g \<and> (\<forall>b \<in> gh_unlinked g. b < N \<and> span b \<subseteq> M)
     \<and> (\<forall>b < N. b \<notin> gh_released g \<longrightarrow> qb_dequeued (blocks (gh_block g b)) = card (M \<inter> span b)
          \<and> (\<forall>k < 32. qb_slots (blocks (gh_block g b)) k = content ps X (32 * b + k)))"

definition empty_slots :: "'a qblock \<Rightarrow> bool" where
  "empty_slots bl \<longleftrightarrow> (\<forall>k < 32. qb_slots bl k = None)"

definition owned :: "ghost \<Rightarrow> nat \<Rightarrow> nat set" where
  "owned g N = gh_block g ` ({..<N} - gh_released g)"

definition owner_inv :: "'a subqueue \<Rightarrow> ghost \<Rightarrow> nat \<Rightarrow> bool" where
  "owner_inv s g N \<longleftrightarrow> inj_on (gh_block g) ({..<N} - gh_released g) \<and> owned g N \<inter> reserved (sq_producer s) = {}
     \<and> (owned g N \<union> reserved (sq_producer s)) \<inter> (sq_free s \<union> sq_foreign s) = {} \<and> sq_free s \<inter> sq_foreign s = {}
     \<and> owned g N \<union> reserved (sq_producer s) \<union> sq_free s \<union> sq_foreign s = {..<sq_fresh s}
     \<and> (\<forall>b \<in> sq_free s. empty_slots (sq_blocks s b))"

text \<open>The block the producer is about to publish, or gives back.\<close>

fun private_ok :: "bool \<Rightarrow> (nat \<Rightarrow> 'a qblock) \<Rightarrow> 'a prod_pc \<Rightarrow> bool" where
  "private_ok nothrow blocks (P_EARLY x e b) \<longleftrightarrow> \<not> nothrow \<and> empty_slots (blocks b) \<and> qb_dequeued (blocks b) = 0"
| "private_ok nothrow blocks (P_PUBLISH x e b) \<longleftrightarrow> qb_dequeued (blocks b) = 0
     \<and> (\<forall>k < 32. qb_slots (blocks b) k = (if k = 0 \<and> \<not> nothrow then Some x else None))"
| "private_ok nothrow blocks (P_REWIND e (Some b)) \<longleftrightarrow> empty_slots (blocks b)"
| "private_ok nothrow blocks (P_CLEAR e (Some b)) \<longleftrightarrow> empty_slots (blocks b)"
| "private_ok nothrow blocks (P_RELEASE b) \<longleftrightarrow> empty_slots (blocks b)"
| "private_ok nothrow blocks _ \<longleftrightarrow> True"

text \<open>The block a dequeue works on, and the blocks it is about to give back.\<close>

fun closing :: "deq_pc \<Rightarrow> nat set" where
  "closing (D_UNLINK q) = {dc_start q div 32}"
| "closing (D_FREE q) = {dc_start q div 32}"
| "closing _ = {}"

fun block_ok :: "ghost \<Rightarrow> nat set \<Rightarrow> deq_pc \<Rightarrow> bool" where
  "block_ok g M (D_MOVE q) \<longleftrightarrow> dc_block q = gh_block g (dc_start q div 32)"
| "block_ok g M (D_EMPTY q) \<longleftrightarrow> dc_block q = gh_block g (dc_start q div 32)"
| "block_ok g M (D_UNLINK q) \<longleftrightarrow> dc_block q = gh_block g (dc_start q div 32) \<and> dc_start q div 32 \<notin> gh_unlinked g
     \<and> span (dc_start q div 32) \<subseteq> M"
| "block_ok g M (D_FREE q) \<longleftrightarrow> dc_block q = gh_block g (dc_start q div 32) \<and> dc_start q div 32 \<in> gh_unlinked g - gh_released g"
| "block_ok g M _ \<longleftrightarrow> True"

definition closing_inv :: "ghost \<Rightarrow> nat \<Rightarrow> nat set \<Rightarrow> (nat \<Rightarrow> deq_pc) \<Rightarrow> bool" where
  "closing_inv g N M pcs \<longleftrightarrow> (\<forall>i. block_ok g M (pcs i)) \<and> (\<forall>i j. i \<noteq> j \<longrightarrow> closing (pcs i) \<inter> closing (pcs j) = {})
     \<and> (\<forall>b < N. span b \<subseteq> M \<longrightarrow> b \<in> gh_released g \<or> (\<exists>i. b \<in> closing (pcs i)))"

section \<open>Arithmetic of blocks\<close>

lemma span_mem: "j \<in> span b \<longleftrightarrow> j div 32 = b"
  by (auto simp: span_def)

lemma span_props [simp]: "finite (span b)" "card (span b) = 32" "32 * b \<in> span b"
  by (auto simp: span_def)

lemma span_disjoint: "b \<noteq> b' \<Longrightarrow> span b \<inter> span b' = {}"
  by (auto simp: span_mem)

lemma span_index: "j \<in> span (j div 32)"
  by (simp add: span_mem)

lemma nblocks_le: "T \<le> 32 * nblocks T pc"
  by (cases pc) (auto simp: nblocks_def)

lemma index_block: "j < T \<Longrightarrow> j div 32 < nblocks T pc"
  using nblocks_le [of T pc] by (simp add: less_mult_imp_div_less mult.commute)

lemma part_span:
  assumes "part_ok H q"
  shows "{dc_start q..<dc_stop q} \<subseteq> span (dc_start q div 32)" "dc_start q < dc_end q" "dc_stop q \<le> dc_end q" "dc_stop q \<le> H"
  using assms by (auto simp: part_ok_def span_def)

lemma part_index:
  assumes "part_ok H q" "dc_start q \<le> j" "j < dc_stop q"
  shows "j div 32 = dc_start q div 32"
  using part_span(1) [OF assms(1)] assms(2,3) by (auto simp: span_mem)

text \<open>The block of an index that is claimed and not yet counted is held.\<close>

lemma pending_held:
  assumes "content_inv blocks ps g N M X" "j \<notin> M" "j < T" "N = nblocks T pc"
  shows "held g N (j div 32)" "j div 32 \<notin> gh_released g"
proof -
  have "j div 32 \<notin> gh_unlinked g" using assms(1,2) span_index [of j] by (auto simp: content_inv_def)
  then show "held g N (j div 32)" "j div 32 \<notin> gh_released g"
    using index_block [OF assms(3)] assms(1,4) by (auto simp: held_def content_inv_def)
qed

section \<open>The consumers\<close>

text \<open>One element is moved out.\<close>

lemma content_move:
  assumes inv: "content_inv blocks ps g N M X" and inj: "inj_on (gh_block g) ({..<N} - gh_released g)"
    and b: "j div 32 < N" "j div 32 \<notin> gh_released g"
  defines "c \<equiv> gh_block g (j div 32)"
  shows "content_inv (blocks(c := (blocks c)\<lparr>qb_slots := (qb_slots (blocks c))(j mod 32 := None)\<rparr>)) ps g N M (X \<union> {j})"
proof -
  let ?blocks = "blocks(c := (blocks c)\<lparr>qb_slots := (qb_slots (blocks c))(j mod 32 := None)\<rparr>)"
  have "qb_dequeued (?blocks (gh_block g b)) = card (M \<inter> span b)
      \<and> (\<forall>k < 32. qb_slots (?blocks (gh_block g b)) k = content ps (X \<union> {j}) (32 * b + k))"
    if b': "b < N" "b \<notin> gh_released g" for b
  proof (cases "b = j div 32")
    case True
    then have "32 * b + k = j \<longleftrightarrow> k = j mod 32" for k by (metis add_left_cancel mult_div_mod_eq)
    then show ?thesis using inv b' True by (auto simp: content_inv_def c_def content_def)
  next
    case False
    then have "gh_block g b \<noteq> c" using inj b b' by (auto simp: c_def inj_on_def)
    moreover have "32 * b + k \<noteq> j" if "k < 32" for k using False that by auto
    ultimately show ?thesis using inv b' by (auto simp: content_inv_def content_def)
  qed
  then show ?thesis using inv by (simp add: content_inv_def)
qed

text \<open>Elements of one block are counted.\<close>

lemma content_count:
  assumes inv: "content_inv blocks ps g N M X" and inj: "inj_on (gh_block g) ({..<N} - gh_released g)"
    and b: "b < N" "b \<notin> gh_released g" and m: "m \<subseteq> span b" "m \<inter> M = {}"
  defines "c \<equiv> gh_block g b"
  shows "content_inv (blocks(c := (blocks c)\<lparr>qb_dequeued := qb_dequeued (blocks c) + card m\<rparr>)) ps g N (M \<union> m) X"
    "qb_dequeued (blocks c) + card m = card ((M \<union> m) \<inter> span b)"
proof -
  let ?blocks = "blocks(c := (blocks c)\<lparr>qb_dequeued := qb_dequeued (blocks c) + card m\<rparr>)"
  have "(M \<union> m) \<inter> span b = (M \<inter> span b) \<union> m" using m(1) by blast
  moreover have "card ((M \<inter> span b) \<union> m) = card (M \<inter> span b) + card m"
    using m by (intro card_Un_disjoint) (auto intro: finite_subset)
  ultimately show sum: "qb_dequeued (blocks c) + card m = card ((M \<union> m) \<inter> span b)"
    using inv b by (simp add: content_inv_def c_def)
  have "qb_dequeued (?blocks (gh_block g b')) = card ((M \<union> m) \<inter> span b')
      \<and> (\<forall>k < 32. qb_slots (?blocks (gh_block g b')) k = content ps X (32 * b' + k))"
    if b': "b' < N" "b' \<notin> gh_released g" for b'
  proof (cases "b' = b")
    case True
    then show ?thesis using inv b' sum by (auto simp: content_inv_def c_def)
  next
    case False
    then have "gh_block g b' \<noteq> c" using inj b b' by (auto simp: c_def inj_on_def)
    moreover have "(M \<union> m) \<inter> span b' = M \<inter> span b'" using m(1) span_disjoint [OF False] by blast
    ultimately show ?thesis using inv b' by (auto simp: content_inv_def)
  qed
  then show "content_inv ?blocks ps g N (M \<union> m) X" using inv unfolding content_inv_def by blast
qed

lemma content_unlink:
  assumes "content_inv blocks ps g N M X" "b < N" "span b \<subseteq> M"
  shows "content_inv blocks ps (unlink b g) N M X"
  using assms by (auto simp: content_inv_def)

definition release :: "nat \<Rightarrow> ghost \<Rightarrow> ghost" where
  "release b g = g\<lparr>gh_released := insert b (gh_released g)\<rparr>"

lemma release_simps [simp]:
  "held (release c g) M b = held g M b" "slot_at (release c g) h hdr b = slot_at g h hdr b"
  "entry_at (release c g) h hdr b = entry_at g h hdr b" "gh_entry (release c g) = gh_entry g"
  "gh_keyed (release c g) = gh_keyed g" "gh_frozen (release c g) = gh_frozen g" "gh_offset (release c g) = gh_offset g"
  "gh_block (release c g) = gh_block g" "gh_unlinked (release c g) = gh_unlinked g"
  "gh_released (release c g) = insert c (gh_released g)"
  by (auto simp: release_def held_def slot_at_def entry_at_def)

lemma content_release:
  assumes "content_inv blocks ps g N M X" "b \<in> gh_unlinked g"
  shows "content_inv blocks ps (release b g) N M X"
  using assms by (auto simp: content_inv_def)

text \<open>An emptied block has no elements left.\<close>

lemma unlinked_empty:
  assumes "content_inv blocks ps g N M X" "b \<in> gh_unlinked g" "b \<notin> gh_released g" "M \<subseteq> X"
  shows "empty_slots (blocks (gh_block g b))"
proof -
  have "b < N" "span b \<subseteq> X" using assms by (auto simp: content_inv_def)
  then have "content ps X (32 * b + k) = None" if "k < 32" for k using that by (auto simp: content_def span_def subset_iff)
  then show ?thesis using assms(1,3) \<open>b < N\<close> by (simp add: content_inv_def empty_slots_def)
qed

lemma closing_inv_update:
  assumes "closing_inv g N M pcs" "closing pc = closing (pcs i)" "block_ok g M pc"
  shows "closing_inv g N M (pcs(i := pc))"
proof -
  have "closing ((pcs(i := pc)) j) = closing (pcs j)" for j using assms(2) by simp
  then show ?thesis using assms(1,3) by (simp add: closing_inv_def)
qed

end
