(* ===== verification/SubQueueSafe.thy ===== *)
theory SubQueueSafe
  imports SubQueueStore "HOL-Library.Sublist"
begin

text \<open>
  The invariant of a sub-queue: the tickets, the claims, the block index with its readers, and the
  blocks. Every step of every thread keeps it, so no run reaches a fault.
\<close>

section \<open>The invariant\<close>

fun in_hand :: "'a prod_pc \<Rightarrow> 'a list" where
  "in_hand (P_HEAD x) = [x]" | "in_hand (P_INSERT x) = [x]" | "in_hand (P_GROW x) = [x]" | "in_hand (P_REKEY x) = [x]"
| "in_hand (P_SLOT x p e) = [x]" | "in_hand (P_BLOCK x e) = [x]" | "in_hand (P_EARLY x e b) = [x]"
| "in_hand (P_PUBLISH x e b) = [x]" | "in_hand (P_CONSTRUCT x) = [x]" | "in_hand (P_STORE x) = [x]" | "in_hand _ = []"

text \<open>The blocks the current header shows: one more while the next is set up.\<close>

fun setting_up :: "'a prod_pc \<Rightarrow> nat" where
  "setting_up (P_BLOCK x e) = 1" | "setting_up (P_EARLY x e b) = 1" | "setting_up (P_PUBLISH x e b) = 1"
| "setting_up (P_REWIND e b) = 1" | "setting_up _ = 0"

definition cleared :: "ghost \<Rightarrow> nat \<Rightarrow> block_index \<Rightarrow> bool" where
  "cleared g N bi \<longleftrightarrow> (gh_keyed g = N + 1 \<longrightarrow> ie_value (bi_entries bi (gh_entry g N)) = None)"

fun producer_ok :: "bool \<Rightarrow> ghost \<Rightarrow> nat \<Rightarrow> nat \<Rightarrow> block_index \<Rightarrow> 'a prod_pc \<Rightarrow> bool" where
  "producer_ok nt g N T bi P_IDLE \<longleftrightarrow> cleared g N bi \<and> (T mod 32 \<noteq> 0 \<longrightarrow> gh_keyed g = N)"
| "producer_ok nt g N T bi (P_HEAD x) \<longleftrightarrow> T mod 32 = 0 \<and> cleared g N bi"
| "producer_ok nt g N T bi (P_INSERT x) \<longleftrightarrow> T mod 32 = 0 \<and> cleared g N bi"
| "producer_ok nt g N T bi (P_GROW x) \<longleftrightarrow> T mod 32 = 0 \<and> gh_keyed g = N \<and> bi_headers bi \<noteq> []"
| "producer_ok nt g N T bi (P_REKEY x) \<longleftrightarrow> T mod 32 = 0 \<and> gh_keyed g = N \<and> bi_headers bi \<noteq> []
     \<and> ie_key (bi_entries bi (next_entry bi)) = None"
| "producer_ok nt g N T bi (P_SLOT x p e) \<longleftrightarrow> T mod 32 = 0 \<and> gh_keyed g = N + 1 \<and> e = gh_entry g N
     \<and> p = slot_at g (current_id bi) (current_header bi) N"
| "producer_ok nt g N T bi (P_BLOCK x e) \<longleftrightarrow> T mod 32 = 0 \<and> gh_keyed g = N + 1 \<and> e = gh_entry g N"
| "producer_ok nt g N T bi (P_EARLY x e b) \<longleftrightarrow> T mod 32 = 0 \<and> gh_keyed g = N + 1 \<and> e = gh_entry g N"
| "producer_ok nt g N T bi (P_PUBLISH x e b) \<longleftrightarrow> T mod 32 = 0 \<and> gh_keyed g = N + 1 \<and> e = gh_entry g N"
| "producer_ok nt g N T bi (P_CONSTRUCT x) \<longleftrightarrow> gh_keyed g = N \<and> (\<not> nt \<longrightarrow> T mod 32 \<noteq> 0)"
| "producer_ok nt g N T bi (P_STORE x) \<longleftrightarrow> gh_keyed g = N"
| "producer_ok nt g N T bi (P_REWIND e b) \<longleftrightarrow> T mod 32 = 0 \<and> gh_keyed g = N + 1 \<and> e = gh_entry g N"
| "producer_ok nt g N T bi (P_CLEAR e b) \<longleftrightarrow> T mod 32 = 0 \<and> gh_keyed g = N + 1 \<and> e = gh_entry g N"
| "producer_ok nt g N T bi (P_RELEASE b) \<longleftrightarrow> T mod 32 = 0 \<and> cleared g N bi"

fun tail_ok :: "nat option \<Rightarrow> ghost \<Rightarrow> nat \<Rightarrow> 'a prod_pc \<Rightarrow> bool" where
  "tail_ok tb g T (P_CONSTRUCT x) \<longleftrightarrow> tb = Some (gh_block g (T div 32))"
| "tail_ok tb g T (P_STORE x) \<longleftrightarrow> tb = Some (gh_block g (T div 32))"
| "tail_ok tb g T _ \<longleftrightarrow> T mod 32 \<noteq> 0 \<longrightarrow> tb = Some (gh_block g (T div 32))"

abbreviation blocks_of :: "'a subqueue \<Rightarrow> nat" where
  "blocks_of s \<equiv> nblocks (sq_tail s) (sq_producer s)"

abbreviation pcs_of :: "'a subqueue \<Rightarrow> nat \<Rightarrow> deq_pc" where
  "pcs_of s \<equiv> \<lambda>i. cn_pc (sq_consumers s i)"

definition index_inv :: "bool \<Rightarrow> 'a subqueue \<Rightarrow> ghost \<Rightarrow> (nat \<Rightarrow> deq_pc) \<Rightarrow> bool" where
  "index_inv nt s g pcs \<longleftrightarrow> headers_ok g (blocks_of s) (blocks_of s + setting_up (sq_producer s)) (sq_index s)
     \<and> entries_ok g (blocks_of s) (sq_index s) \<and> producer_ok nt g (blocks_of s) (sq_tail s) (sq_index s) (sq_producer s)
     \<and> (\<forall>i. reader_ok g (sq_index s) (pcs i))"

definition store_inv :: "bool \<Rightarrow> 'a subqueue \<Rightarrow> ghost \<Rightarrow> nat set \<Rightarrow> nat set \<Rightarrow> (nat \<Rightarrow> deq_pc) \<Rightarrow> bool" where
  "store_inv nt s g M X pcs \<longleftrightarrow> content_inv (sq_blocks s) (sq_pushed s @ building (sq_producer s)) g (blocks_of s) M X
     \<and> owner_inv s g (blocks_of s) \<and> private_ok nt (sq_blocks s) (sq_producer s)
     \<and> tail_ok (sq_tailBlock s) g (sq_tail s) (sq_producer s) \<and> closing_inv g (blocks_of s) M pcs"

definition account_inv :: "'a subqueue \<Rightarrow> nat set \<Rightarrow> nat set \<Rightarrow> nat set \<Rightarrow> nat set \<Rightarrow> bool" where
  "account_inv s L W M X \<longleftrightarrow> ticket_inv (sq_tail s) (sq_optimistic s) (sq_overcommit s) (sq_head s) (pcs_of s) L W
     \<and> claim_inv (sq_head s) (pcs_of s) M X \<and> (\<forall>i. call_ok (sq_consumers s i))"

definition history_inv :: "'a list \<Rightarrow> 'a subqueue \<Rightarrow> nat set \<Rightarrow> bool" where
  "history_inv todo s X \<longleftrightarrow> length (sq_pushed s) = sq_tail s \<and> out_ok (sq_pushed s) (sq_out s) X
     \<and> (\<forall>i. got_ok (sq_pushed s) (pcs_of s i) (cn_got (sq_consumers s i)))
     \<and> subseq (sq_pushed s @ in_hand (sq_producer s) @ sq_todo s) todo"

definition sq_inv :: "bool \<Rightarrow> 'a list \<Rightarrow> 'a subqueue \<Rightarrow> ghost \<Rightarrow> nat set \<Rightarrow> nat set \<Rightarrow> nat set \<Rightarrow> nat set \<Rightarrow> bool" where
  "sq_inv nt todo s g L W M X \<longleftrightarrow> account_inv s L W M X \<and> history_inv todo s X \<and> index_inv nt s g (pcs_of s)
     \<and> store_inv nt s g M X (pcs_of s) \<and> \<not> sq_fault s"

section \<open>Dequeues meet no fault\<close>

lemma head_le: "account_inv s L W M X \<Longrightarrow> sq_head s \<le> sq_tail s"
  using ticket_inv_head_le by (auto simp: account_inv_def)

lemma setting_up_le: "entries_ok g N bi \<Longrightarrow> producer_ok nt g N T bi pc \<Longrightarrow> N + setting_up pc \<le> gh_keyed g"
  by (cases pc) (auto simp: entries_ok_def)

text \<open>An index that is claimed and not counted is in a block that is held.\<close>

lemma claim_held:
  assumes "account_inv s L W M X" "store_inv nt s g M X pcs" "j \<in> pend (pcs_of s i)"
  shows "held g (blocks_of s) (j div 32)" "j div 32 \<notin> gh_released g" "j < sq_tail s"
proof -
  have "j < sq_head s" "j \<notin> M" using assms(1,3) claim_invD(2,7) [of "sq_head s" "pcs_of s" M X] by (auto simp: account_inv_def)
  then show "j < sq_tail s" using head_le [OF assms(1)] by simp
  then show "held g (blocks_of s) (j div 32)" "j div 32 \<notin> gh_released g"
    using pending_held [OF _ \<open>j \<notin> M\<close>] assms(2) unfolding store_inv_def by blast+
qed

lemma move_content:
  assumes acc: "account_inv s L W M X" and st: "store_inv nt s g M X (pcs_of s)" and len: "length (sq_pushed s) = sq_tail s"
    and pc: "pcs_of s i = D_MOVE q" "dc_index q \<noteq> dc_stop q"
  shows "get_slot (dc_block q) (dc_index q) s = Some (sq_pushed s ! dc_index q)"
    "dc_block q = gh_block g (dc_index q div 32)" "dc_index q \<notin> X" "dc_index q \<in> pend (pcs_of s i)"
proof -
  let ?j = "dc_index q"
  have cl: "claim_inv (sq_head s) (pcs_of s) M X" using acc by (simp add: account_inv_def)
  have ok: "part_ok (sq_head s) q" "dc_start q \<le> ?j" "?j < dc_stop q" using claim_invD(5) [OF cl, of i] pc by auto
  show pend: "?j \<in> pend (pcs_of s i)" using pc(1) ok part_span(3) [OF ok(1)] by simp
  show X: "?j \<notin> X" using claim_inv_moved(1) [OF cl, of i] pend pc(1) by auto
  have blk: "dc_start q div 32 = ?j div 32" using part_index [OF ok] by simp
  show b: "dc_block q = gh_block g (?j div 32)" using st pc(1) blk unfolding store_inv_def closing_inv_def by (metis block_ok.simps(1))
  note held = claim_held [OF acc st pend]
  have "qb_slots (sq_blocks s (dc_block q)) (?j mod 32) = content (sq_pushed s @ building (sq_producer s)) X (32 * (?j div 32) + ?j mod 32)"
    using st held_less [OF held(1)] held(2) unfolding store_inv_def content_inv_def b by auto
  then show "get_slot (dc_block q) ?j s = Some (sq_pushed s ! ?j)"
    using held(3) len X by (simp add: get_slot_def slot_of_def content_def nth_append)
qed

lemma no_drain_fault:
  assumes inv: "sq_inv nt todo s g L W M X"
  shows "\<not> drain_faults s (sq_consumers s i)"
proof -
  have acc: "account_inv s L W M X" and st: "store_inv nt s g M X (pcs_of s)" and idx: "index_inv nt s g (pcs_of s)"
    and len: "length (sq_pushed s) = sq_tail s" using inv by (auto simp: sq_inv_def history_inv_def)
  have rd: "reader_ok g (sq_index s) (pcs_of s i)" and es: "entries_ok g (blocks_of s) (sq_index s)"
    and hs: "headers_ok g (blocks_of s) (blocks_of s + setting_up (sq_producer s)) (sq_index s)" using idx by (auto simp: index_inv_def)
  have ok: "claim_ok (sq_head s) (pcs_of s i)" using acc claim_invD(5) by (auto simp: account_inv_def)
  note held = claim_held [OF acc st, of _ i]
  show ?thesis
  proof (cases "pcs_of s i")
    case (D_INDEX f l)
    then have "held g (blocks_of s) (f div 32)" using held(1) [of f] ok by simp
    then show ?thesis using hs D_INDEX by (auto simp: drain_faults_def headers_ok_def held_def)
  next
    case (D_KEY f l h p)
    then have "held g (blocks_of s) (f div 32)" using held(1) [of f] ok by simp
    then show ?thesis using read_key [OF es _ _ , of f l h p] rd ok D_KEY by (auto simp: drain_faults_def Let_def)
  next
    case (D_VALUE q)
    then have "held g (blocks_of s) (dc_index q div 32)" using held(1) [of "dc_index q"] ok by simp
    moreover have "claim_entry s q = gh_entry g (dc_index q div 32)" using read_value [of g "sq_index s" q] rd ok D_VALUE by (simp add: claim_entry_def)
    ultimately show ?thesis using es D_VALUE by (simp add: drain_faults_def entries_ok_def)
  next
    case (D_MOVE q)
    then show ?thesis using move_content(1) [OF acc st len D_MOVE] by (auto simp: drain_faults_def)
  qed (simp_all add: drain_faults_def)
qed

section \<open>The steps of a dequeue keep the invariant\<close>

lemma owner_inv_blocks:
  assumes "owner_inv s g N" "sq_producer s' = sq_producer s" "sq_free s' = sq_free s" "sq_foreign s' = sq_foreign s" "sq_fresh s' = sq_fresh s"
    and "\<forall>b \<in> sq_free s. sq_blocks s' b = sq_blocks s b"
  shows "owner_inv s' g N"
  using assms by (simp add: owner_inv_def)

lemma private_ok_blocks: "\<forall>b \<in> reserved pc. blocks' b = blocks b \<Longrightarrow> private_ok nt blocks' pc = private_ok nt blocks pc"
  by (cases "(nt, blocks, pc)" rule: private_ok.cases) auto

text \<open>A block of the index is neither free nor the producer's own.\<close>

lemma owned_apart:
  assumes "owner_inv s g N" "b < N" "b \<notin> gh_released g"
  shows "gh_block g b \<notin> sq_free s" "gh_block g b \<notin> reserved (sq_producer s)" "gh_block g b < sq_fresh s" "gh_block g b \<notin> sq_foreign s"
proof -
  have "gh_block g b \<in> owned g N" using assms(2,3) by (simp add: owned_def)
  then show "gh_block g b \<notin> sq_free s" "gh_block g b \<notin> reserved (sq_producer s)" "gh_block g b < sq_fresh s" "gh_block g b \<notin> sq_foreign s"
    using assms(1) by (auto simp: owner_inv_def)
qed

lemma closing_inv_count:
  assumes cl: "closing_inv g N M pcs" and full: "span b \<subseteq> M \<union> m \<Longrightarrow> b \<in> closing pc" and m: "m \<subseteq> span b" "m \<noteq> {}" "m \<inter> M = {}"
    and unl: "b \<notin> gh_unlinked g" "\<forall>b' \<in> gh_unlinked g. span b' \<subseteq> M" and pc: "closing (pcs i) = {}" "closing pc \<subseteq> {b}"
    and ok: "block_ok g (M \<union> m) pc"
  shows "closing_inv g N (M \<union> m) (pcs(i := pc))"
proof -
  have notM: "\<not> span b \<subseteq> M" using m by blast
  have "b \<notin> closing (pcs j)" for j
  proof
    assume "b \<in> closing (pcs j)"
    then show False using cl unl notM by (cases "pcs j") (auto simp: closing_inv_def dest!: spec [of _ j])
  qed
  then have pair: "closing ((pcs(i := pc)) j) \<inter> closing ((pcs(i := pc)) k) = {}" if "j \<noteq> k" for j k
    using cl pc(2) that by (auto simp: closing_inv_def)
  have "block_ok g (M \<union> m) (pcs j)" for j
    using cl by (cases "pcs j") (auto simp: closing_inv_def dest!: spec [of _ j])
  then have oks: "block_ok g (M \<union> m) ((pcs(i := pc)) j)" for j using ok by simp
  have "b' \<in> gh_released g \<or> (\<exists>j. b' \<in> closing ((pcs(i := pc)) j))" if "b' < N" "span b' \<subseteq> M \<union> m" for b'
  proof (cases "b' = b")
    case True
    then show ?thesis using full that(2) by (metis fun_upd_same)
  next
    case False
    then have "span b' \<subseteq> M" using that(2) m(1) span_disjoint [OF False] by blast
    then have "b' \<in> gh_released g \<or> (\<exists>j. b' \<in> closing (pcs j))" using cl that(1) by (simp add: closing_inv_def)
    then show ?thesis using pc(1) by (metis empty_iff fun_upd_other)
  qed
  then show ?thesis unfolding closing_inv_def using pair oks by blast
qed

lemma closing_inv_unlink:
  assumes cl: "closing_inv g N M pcs" and pc: "pcs i = D_UNLINK q" and rel: "dc_start q div 32 \<notin> gh_released g"
  shows "closing_inv (unlink (dc_start q div 32) g) N M (pcs(i := D_FREE q))"
proof -
  let ?b = "dc_start q div 32"
  have own: "block_ok g M (D_UNLINK q)" using cl pc by (metis closing_inv_def)
  have "block_ok (unlink ?b g) M (pcs j)" if "j \<noteq> i" for j
  proof -
    have "closing (pcs j) \<inter> closing (pcs i) = {}" "block_ok g M (pcs j)" using cl that by (auto simp: closing_inv_def)
    then show ?thesis using pc by (cases "pcs j") auto
  qed
  then have "block_ok (unlink ?b g) M ((pcs(i := D_FREE q)) j)" for j using own rel by simp
  moreover have "closing ((pcs(i := D_FREE q)) j) = closing (pcs j)" for j using pc by simp
  ultimately show ?thesis using cl by (simp add: closing_inv_def)
qed

lemma closing_inv_free:
  assumes cl: "closing_inv g N M pcs" and pc: "pcs i = D_FREE q" and new: "closing pc = {}" "\<And>g'. block_ok g' M pc"
  shows "closing_inv (release (dc_start q div 32) g) N M (pcs(i := pc))"
proof -
  let ?b = "dc_start q div 32"
  have "block_ok (release ?b g) M (pcs j)" if "j \<noteq> i" for j
  proof -
    have "closing (pcs j) \<inter> closing (pcs i) = {}" "block_ok g M (pcs j)" using cl that by (auto simp: closing_inv_def)
    then show ?thesis using pc by (cases "pcs j") auto
  qed
  then have "block_ok (release ?b g) M ((pcs(i := pc)) j)" for j using new by simp
  moreover have "closing ((pcs(i := pc)) j) \<inter> closing ((pcs(i := pc)) k) = {}" if "j \<noteq> k" for j k
    using cl new(1) that by (auto simp: closing_inv_def)
  moreover have "b \<in> gh_released (release ?b g) \<or> (\<exists>j. b \<in> closing ((pcs(i := pc)) j))" if "b < N" "span b \<subseteq> M" for b
  proof -
    have "b \<in> gh_released g \<or> (\<exists>j. b \<in> closing (pcs j))" using cl that by (simp add: closing_inv_def)
    then show ?thesis using pc by (metis closing.simps(2) fun_upd_other insertI1 insertI2 release_simps(10) singletonD)
  qed
  ultimately show ?thesis unfolding closing_inv_def by blast
qed

lemma next_block_store [simp]: "closing (next_block s q) = {}" "block_ok g M (next_block s q)"
  by (simp_all add: next_block_def)

lemma next_block_reader:
  assumes "placed g (sq_index s) q (dc_start q)" "part_ok H q" "dc_index q = dc_stop q"
  shows "reader_ok g (sq_index s) (next_block s q)"
  using placed_next [OF assms(1,2)] assms(3) by (simp add: next_block_def placed_def)

lemma index_inv_reader:
  assumes "index_inv nt s g pcs" "reader_ok g (sq_index s) pc"
  shows "index_inv nt s g (pcs(i := pc))"
  using assms by (simp add: index_inv_def)

lemma store_inv_quiet:
  assumes "store_inv nt s g M X pcs" "closing pc = closing (pcs i)" "block_ok g M pc"
  shows "store_inv nt s g M X (pcs(i := pc))"
  using assms closing_inv_update by (simp add: store_inv_def)

lemma sq_invD:
  assumes "sq_inv nt todo s g L W M X"
  shows "account_inv s L W M X" "store_inv nt s g M X (pcs_of s)" "index_inv nt s g (pcs_of s)" "length (sq_pushed s) = sq_tail s"
    "entries_ok g (blocks_of s) (sq_index s)" "reader_ok g (sq_index s) (pcs_of s i)" "blocks_of s \<le> gh_keyed g"
    "headers_ok g (blocks_of s) (blocks_of s + setting_up (sq_producer s)) (sq_index s)"
    "blocks_of s + setting_up (sq_producer s) \<le> gh_keyed g" "claim_inv (sq_head s) (pcs_of s) M X" "claim_ok (sq_head s) (pcs_of s i)"
    "block_ok g M (pcs_of s i)" "\<not> sq_fault s" "owner_inv s g (blocks_of s)"
    "content_inv (sq_blocks s) (sq_pushed s @ building (sq_producer s)) g (blocks_of s) M X" "closing_inv g (blocks_of s) M (pcs_of s)"
proof -
  show idx: "index_inv nt s g (pcs_of s)" and acc: "account_inv s L W M X" and st: "store_inv nt s g M X (pcs_of s)"
    and "length (sq_pushed s) = sq_tail s" "\<not> sq_fault s" using assms by (simp_all add: sq_inv_def history_inv_def)
  show es: "entries_ok g (blocks_of s) (sq_index s)" and "reader_ok g (sq_index s) (pcs_of s i)"
    "headers_ok g (blocks_of s) (blocks_of s + setting_up (sq_producer s)) (sq_index s)" using idx by (simp_all add: index_inv_def)
  show "blocks_of s \<le> gh_keyed g" using es by (simp add: entries_ok_def)
  have "producer_ok nt g (blocks_of s) (sq_tail s) (sq_index s) (sq_producer s)" using idx by (simp add: index_inv_def)
  then show "blocks_of s + setting_up (sq_producer s) \<le> gh_keyed g" by (rule setting_up_le [OF es])
  show cl: "claim_inv (sq_head s) (pcs_of s) M X" using acc by (simp add: account_inv_def)
  show "claim_ok (sq_head s) (pcs_of s i)" using claim_invD(5) [OF cl] .
  show clo: "closing_inv g (blocks_of s) M (pcs_of s)" and "owner_inv s g (blocks_of s)"
    "content_inv (sq_blocks s) (sq_pushed s @ building (sq_producer s)) g (blocks_of s) M X" using st by (simp_all add: store_inv_def)
  show "block_ok g M (pcs_of s i)" using clo by (simp add: closing_inv_def)
qed

text \<open>What a step of a dequeue leaves as it is.\<close>

definition drain_keeps :: "bool \<Rightarrow> 'a subqueue \<Rightarrow> 'a subqueue \<Rightarrow> ghost \<Rightarrow> nat set \<Rightarrow> nat set \<Rightarrow> (nat \<Rightarrow> deq_pc) \<Rightarrow> bool" where
  "drain_keeps nt s s' g M X pcs \<longleftrightarrow> index_inv nt s' g pcs \<and> store_inv nt s' g M X pcs \<and> \<not> sq_fault s'
     \<and> sq_tail s' = sq_tail s \<and> sq_producer s' = sq_producer s \<and> sq_pushed s' = sq_pushed s \<and> sq_todo s' = sq_todo s
     \<and> sq_consumers s' = sq_consumers s"

lemma quiet_keeps:
  assumes inv: "sq_inv nt todo s g L W M X" and pc: "reader_ok g (sq_index s) pc" "closing pc = closing (pcs_of s i)" "block_ok g M pc"
  shows "drain_keeps nt s s g M X ((pcs_of s)(i := pc))"
  using index_inv_reader [OF sq_invD(3) [OF inv] pc(1)] store_inv_quiet [OF sq_invD(2) [OF inv] pc(2,3)] sq_invD(13) [OF inv]
  by (simp add: drain_keeps_def)

text \<open>An element is moved out.\<close>

lemma move_keeps:
  assumes inv: "sq_inv nt todo s g L W M X" and pc: "pcs_of s i = D_MOVE q" "dc_index q \<noteq> dc_stop q"
    and s': "s' = (put_slot (dc_block q) (dc_index q) None s)\<lparr>sq_out := out\<rparr>"
  shows "drain_keeps nt s s' g M (X \<union> {dc_index q}) ((pcs_of s)(i := D_MOVE (q\<lparr>dc_index := dc_index q + 1\<rparr>)))"
proof -
  note D = sq_invD [OF inv]
  let ?j = "dc_index q" and ?pcs = "(pcs_of s)(i := D_MOVE (q\<lparr>dc_index := dc_index q + 1\<rparr>))"
  note mc = move_content [OF D(1,2,4) pc] and held = claim_held [OF D(1,2) move_content(4) [OF D(1,2,4) pc]]
  have cnt: "content_inv (sq_blocks s') (sq_pushed s' @ building (sq_producer s')) g (blocks_of s') M (X \<union> {?j})"
    using content_move [OF D(15) _ held_less [OF held(1)] held(2)] D(14) mc(2) by (simp add: s' put_slot_def slot_of_def owner_inv_def)
  note apart = owned_apart [OF D(14) held_less [OF held(1)] held(2), folded mc(2)]
  have own: "owner_inv s' g (blocks_of s')" using owner_inv_blocks [OF D(14), of s'] apart by (simp add: s' put_slot_def)
  have "private_ok nt (sq_blocks s') (sq_producer s') = private_ok nt (sq_blocks s) (sq_producer s)"
    using private_ok_blocks [of "sq_producer s" "sq_blocks s'" "sq_blocks s"] apart by (auto simp: s' put_slot_def)
  moreover have "closing_inv g (blocks_of s') M ?pcs"
    using closing_inv_update [OF D(16), of _ i] D(12) [of i] pc(1) by (simp add: s' put_slot_def)
  ultimately have "store_inv nt s' g M (X \<union> {?j}) ?pcs" using cnt own D(2) by (simp add: store_inv_def s' put_slot_def)
  moreover have "index_inv nt s' g ?pcs"
    using index_inv_reader [OF D(3), of "D_MOVE (q\<lparr>dc_index := dc_index q + 1\<rparr>)" i] D(6) [of i] pc(1)
    by (simp add: s' put_slot_def index_inv_def placed_def)
  ultimately show ?thesis using D(13) by (simp add: drain_keeps_def s' put_slot_def)
qed

text \<open>The elements of a block are counted; with the last of them it is to be taken out of the index.\<close>

lemma count_keeps:
  assumes inv: "sq_inv nt todo s g L W M X" and pc: "pcs_of s i = D_EMPTY q"
    and s': "s' = set_many_empty (dc_block q) (dc_stop q - dc_start q) s"
    and pc': "pc' = (if qb_dequeued (sq_blocks s (dc_block q)) + (dc_stop q - dc_start q) = 32 then D_UNLINK q else next_block s q)"
  shows "drain_keeps nt s s' g (M \<union> {dc_start q..<dc_stop q}) X ((pcs_of s)(i := pc'))"
proof -
  note D = sq_invD [OF inv]
  let ?m = "{dc_start q..<dc_stop q}" and ?b = "dc_start q div 32" and ?pcs = "(pcs_of s)(i := pc')"
  have ok: "part_ok (sq_head s) q" "dc_index q = dc_stop q" and bl: "dc_block q = gh_block g ?b" and pl: "placed g (sq_index s) q (dc_start q)"
    using D(11,12,6) [of i] pc by auto
  note sp = part_span [OF ok(1)]
  have held: "held g (blocks_of s) ?b" "?b \<notin> gh_released g" using claim_held [OF D(1,2), of "dc_start q" i] pc sp(2) by auto
  have m: "?m \<inter> M = {}" "?m \<noteq> {}" "card ?m = dc_stop q - dc_start q"
    using claim_invD(2) [OF D(10), of i] pc sp(3) ok(1) by (auto simp: part_ok_def)
  have inj: "inj_on (gh_block g) ({..<blocks_of s} - gh_released g)" using D(14) by (simp add: owner_inv_def)
  note cnt = content_count [OF D(15) inj held_less [OF held(1)] held(2) sp(1) m(1), folded bl]
  have "card ((M \<union> ?m) \<inter> span ?b) \<le> card (span ?b)" by (intro card_mono) auto
  then have le: "qb_dequeued (sq_blocks s (dc_block q)) + (dc_stop q - dc_start q) \<le> 32" using cnt(2) m(3) by simp
  have full: "span ?b \<subseteq> M \<union> ?m \<longleftrightarrow> qb_dequeued (sq_blocks s (dc_block q)) + (dc_stop q - dc_start q) = 32"
  proof
    assume "span ?b \<subseteq> M \<union> ?m"
    then have "(M \<union> ?m) \<inter> span ?b = span ?b" by blast
    then show "qb_dequeued (sq_blocks s (dc_block q)) + (dc_stop q - dc_start q) = 32" using cnt(2) m(3) by simp
  next
    assume "qb_dequeued (sq_blocks s (dc_block q)) + (dc_stop q - dc_start q) = 32"
    then have "card ((M \<union> ?m) \<inter> span ?b) = card (span ?b)" using cnt(2) m(3) by simp
    then have "(M \<union> ?m) \<inter> span ?b = span ?b" by (intro card_subset_eq) auto
    then show "span ?b \<subseteq> M \<union> ?m" by blast
  qed
  have unl: "?b \<notin> gh_unlinked g" using held(1) by (simp add: held_def)
  have bok: "block_ok g (M \<union> ?m) pc'" using full unl bl by (simp add: pc')
  have "\<forall>b' \<in> gh_unlinked g. span b' \<subseteq> M" using D(15) by (simp add: content_inv_def)
  then have clo: "closing_inv g (blocks_of s) (M \<union> ?m) ?pcs"
    using closing_inv_count [OF D(16) _ sp(1) m(2,1) unl, of pc' i] full pc bok by (simp add: pc')
  note apart = owned_apart [OF D(14) held_less [OF held(1)] held(2), folded bl]
  have own: "owner_inv s' g (blocks_of s')" using owner_inv_blocks [OF D(14), of s'] apart by (simp add: s' set_many_empty_def)
  have "private_ok nt (sq_blocks s') (sq_producer s') = private_ok nt (sq_blocks s) (sq_producer s)"
    using private_ok_blocks [of "sq_producer s" "sq_blocks s'" "sq_blocks s"] apart by (auto simp: s' set_many_empty_def)
  then have "store_inv nt s' g (M \<union> ?m) X ?pcs" using cnt(1) own clo D(2) m(3) by (simp add: store_inv_def s' set_many_empty_def)
  moreover have "reader_ok g (sq_index s) pc'" using next_block_reader [OF pl ok] pl by (simp add: pc')
  then have "index_inv nt s' g ?pcs" using index_inv_reader [OF D(3), of pc' i] by (simp add: s' set_many_empty_def index_inv_def)
  ultimately show ?thesis using D(13) le by (simp add: drain_keeps_def s' set_many_empty_def)
qed

text \<open>The entry of an emptied block is cleared, and then the block is given back.\<close>

lemma next_entry_value [simp]: "next_entry (set_value e v bi) = next_entry bi"
  by (simp add: next_entry_def next_slot_def)

lemma producer_ok_unlink: "producer_ok nt g N T bi pc \<Longrightarrow> producer_ok nt (unlink b g) N T (set_value e None bi) pc"
  by (cases pc) (auto simp: cleared_def)

lemma readers_stay:
  assumes inv: "sq_inv nt todo s g L W M X" and st: "stays (blocks_of s) g (sq_index s) g' bi'"
  shows "reader_ok g' bi' (pcs_of s i)"
proof (rule reader_ok_stays [OF st sq_invD(6) [OF inv]])
  note D = sq_invD [OF inv]
  fix f l h assume pc: "pcs_of s i = D_SLOT f l h"
  then have "f < l" using D(11) [of i] by simp
  then show "(l - 1) div 32 < blocks_of s" using held_less [OF claim_held(1) [OF D(1,2), of "l - 1" i]] pc by auto
qed

lemma unlink_keeps:
  assumes inv: "sq_inv nt todo s g L W M X" and pc: "pcs_of s i = D_UNLINK q"
    and s': "s' = s\<lparr>sq_index := set_value (claim_entry s q) None (sq_index s)\<rparr>"
  shows "drain_keeps nt s s' (unlink (dc_start q div 32) g) M X ((pcs_of s)(i := D_FREE q))"
proof -
  note D = sq_invD [OF inv]
  let ?b = "dc_start q div 32" and ?pcs = "(pcs_of s)(i := D_FREE q)" and ?bi = "set_value (claim_entry s q) None (sq_index s)"
  have bo: "?b \<notin> gh_unlinked g" "span ?b \<subseteq> M" and ok: "part_ok (sq_head s) q" and pl: "placed g (sq_index s) q (dc_start q)"
    using D(12,11,6) [of i] pc by auto
  have "32 * ?b < sq_tail s" using bo(2) claim_invD(6) [OF D(10)] head_le [OF D(1)] span_props(3) [of ?b] by fastforce
  then have lt: "?b < blocks_of s" using index_block by fastforce
  then have held: "held g (blocks_of s) ?b" using bo(1) by (simp add: held_def)
  have rel: "?b \<notin> gh_released g" using bo(1) D(15) by (auto simp: content_inv_def)
  have e: "claim_entry s q = gh_entry g ?b" using read_value [OF pl part_span(2) [OF ok]] by (simp add: claim_entry_def)
  note ub = unlink_block [OF D(8) le_add1 D(5) held, folded e]
  have "producer_ok nt (unlink ?b g) (blocks_of s) (sq_tail s) ?bi (sq_producer s)"
    using D(3) producer_ok_unlink unfolding index_inv_def by blast
  moreover have "reader_ok (unlink ?b g) ?bi (?pcs j)" for j
  proof -
    have "stays (blocks_of s) g (sq_index s) (unlink ?b g) ?bi" by (rule stays_value(3)) simp
    note all = readers_stay [OF inv this]
    then show ?thesis using all [of i] all [of j] pc by simp
  qed
  ultimately have "index_inv nt s' (unlink ?b g) ?pcs" using ub by (simp add: index_inv_def s')
  moreover have "store_inv nt s' (unlink ?b g) M X ?pcs"
    using content_unlink [OF D(15) lt bo(2)] closing_inv_unlink [OF D(16) pc rel] D(2)
    by (cases "sq_producer s") (auto simp: store_inv_def s' owner_inv_def owned_def)
  ultimately show ?thesis using D(13) by (simp add: drain_keeps_def s')
qed

lemma free_keeps:
  assumes inv: "sq_inv nt todo s g L W M X" and pc: "pcs_of s i = D_FREE q" and s': "s' = add_block_to_free_list (dc_block q) s"
  shows "drain_keeps nt s s' (release (dc_start q div 32) g) M X ((pcs_of s)(i := next_block s q))"
proof -
  note D = sq_invD [OF inv]
  let ?b = "dc_start q div 32" and ?pcs = "(pcs_of s)(i := next_block s q)" and ?g = "release (dc_start q div 32) g"
  have bo: "?b \<in> gh_unlinked g" "?b \<notin> gh_released g" "dc_block q = gh_block g ?b" and ok: "part_ok (sq_head s) q" "dc_index q = dc_stop q"
    and pl: "placed g (sq_index s) q (dc_start q)" using D(12,11,6) [of i] pc by auto
  have lt: "?b < blocks_of s" using bo(1) D(15) by (auto simp: content_inv_def)
  note apart = owned_apart [OF D(14) lt bo(2), folded bo(3)]
  have emp: "empty_slots (sq_blocks s (dc_block q))" unfolding bo(3) by (rule unlinked_empty [OF D(15) bo(1,2) claim_invD(8) [OF D(10)]])
  have inj: "inj_on (gh_block g) ({..<blocks_of s} - gh_released g)" using D(14) by (simp add: owner_inv_def)
  have "{..<blocks_of s} - gh_released g = insert ?b ({..<blocks_of s} - insert ?b (gh_released g))" using lt bo(2) by auto
  then have own: "owned g (blocks_of s) = insert (dc_block q) (owned ?g (blocks_of s))" and inj': "inj_on (gh_block g) ({..<blocks_of s} - insert ?b (gh_released g))"
    and notin: "dc_block q \<notin> owned ?g (blocks_of s)" using inj bo(3) by (auto simp: owned_def inj_on_insert)
  have "owner_inv s' ?g (blocks_of s)" using D(14) own inj' notin emp apart by (auto simp: owner_inv_def s' add_block_to_free_list_def)
  moreover have "closing_inv ?g (blocks_of s) M ?pcs" by (rule closing_inv_free [OF D(16) pc]) simp_all
  moreover have "tail_ok (sq_tailBlock s) ?g (sq_tail s) (sq_producer s)" using D(2) by (cases "sq_producer s") (auto simp: store_inv_def)
  ultimately have "store_inv nt s' ?g M X ?pcs"
    using content_release [OF D(15) bo(1)] D(2) by (simp add: store_inv_def s' add_block_to_free_list_def)
  moreover have "headers_ok ?g (blocks_of s) (blocks_of s + setting_up (sq_producer s)) (sq_index s)"
    using D(8) unfolding headers_ok_def header_ok_def by simp
  moreover have "entries_ok ?g (blocks_of s) (sq_index s)" using D(5) unfolding entries_ok_def by simp
  moreover have "producer_ok nt ?g (blocks_of s) (sq_tail s) (sq_index s) (sq_producer s)"
    using D(3) by (cases "sq_producer s") (auto simp: index_inv_def cleared_def)
  moreover have "reader_ok ?g (sq_index s) (?pcs j)" for j
  proof -
    have "reader_ok g (sq_index s) (?pcs j)" using next_block_reader [OF pl ok] D(6) [of j] by simp
    then show ?thesis by (cases "?pcs j") (auto simp: placed_def displays_def)
  qed
  ultimately show ?thesis using D(13) apart(1) by (simp add: drain_keeps_def index_inv_def s' add_block_to_free_list_def)
qed

lemma drain_step_keeps:
  assumes inv: "sq_inv nt todo s g L W M X" and step: "drain_step s (sq_consumers s i) s' c'"
  shows "\<exists>g'. drain_keeps nt s s' g' (M \<union> counted (pcs_of s i)) (X \<union> taken (pcs_of s i)) ((pcs_of s)(i := cn_pc c'))"
proof -
  note D = sq_invD [OF inv] and P = sq_invD(9,7) [OF inv]
  note rd = D(6) [of i] and ok = D(11) [of i] and bok = D(12) [of i] and held = claim_held [OF D(1,2), of _ i]
  have quiet: ?thesis if "s' = s" "reader_ok g (sq_index s) (cn_pc c')" "closing (cn_pc c') = closing (pcs_of s i)" "block_ok g M (cn_pc c')"
      "counted (pcs_of s i) = {}" "taken (pcs_of s i) = {}"
    using quiet_keeps [OF inv that(2-4)] that by auto
  show ?thesis using step
  proof cases
    case (dr_index f l)
    have "(l - 1) div 32 < blocks_of s" using held_less [OF held(1) [of "l - 1"]] ok dr_index(3) by auto
    then have "reader_ok g (sq_index s) (D_SLOT f l (current_id (sq_index s)))" using read_index [OF D(8) dr_index(4)] by simp
    then show ?thesis using dr_index by (intro quiet) (simp_all add: at_def)
  next
    case (dr_slot f l h)
    have "held g (blocks_of s) (f div 32)" using held(1) [of f] ok dr_slot(3) by simp
    then show ?thesis using read_tail [OF D(8) P] rd ok dr_slot by (intro quiet) (simp_all add: at_def)
  next
    case (dr_key f l h p k)
    have "held g (blocks_of s) (f div 32)" using held(1) [of f] ok dr_key(3) by simp
    then show ?thesis using read_key [OF D(5), of f l h p] rd ok dr_key by (intro quiet) (auto simp: at_def)
  next
    case (dr_value q b)
    have h: "held g (blocks_of s) (dc_index q div 32)" using held(1) [of "dc_index q"] ok dr_value(3) by simp
    have "claim_entry s q = gh_entry g (dc_index q div 32)" using read_value [of g "sq_index s" q] rd ok dr_value(3) by (simp add: claim_entry_def)
    then have "b = gh_block g (dc_index q div 32)" using D(5) h dr_value(4) by (simp add: entries_ok_def)
    then show ?thesis using rd dr_value by (intro quiet) (simp_all add: at_def opened_def placed_def)
  next
    case (dr_stop q)
    then show ?thesis using rd bok by (intro quiet) (simp_all add: at_def)
  next
    case (dr_move q x)
    then show ?thesis using move_keeps [OF inv, of i q] by (auto simp: at_def)
  next
    case (dr_full q)
    then show ?thesis using count_keeps [OF inv, of i q] by (auto simp: at_def)
  next
    case (dr_part q)
    then show ?thesis using count_keeps [OF inv, of i q] by (auto simp: at_def)
  next
    case (dr_unlink q)
    then show ?thesis using unlink_keeps [OF inv, of i q] by (auto simp: at_def)
  next
    case (dr_free q)
    then show ?thesis using free_keeps [OF inv, of i q] by (auto simp: at_def)
  qed
qed

fun ticket_phase :: "deq_pc \<Rightarrow> bool" where
  "ticket_phase (D_TICKET v n) = True" | "ticket_phase (D_LOAD v n my) = True" | "ticket_phase (D_EXCESS my n a) = True"
| "ticket_phase (D_LOSE my n) = True" | "ticket_phase (D_HEAD my n) = True" | "ticket_phase _ = False"

lemma drain_phase: "drain_act s c = Some (s', c') \<Longrightarrow> \<not> ticket_phase (cn_pc c')"
  by (auto simp: drain_act_def release_act_def lookup_act_def next_block_def at_def fault_def Let_def
      split: deq_pc.splits option.splits if_splits)

lemma call_ok_phase: "\<not> ticket_phase (cn_pc c) \<Longrightarrow> call_ok c = (case cn_call c of D_dequeue_bulk mx \<Rightarrow> 0 < mx | D_dequeue \<Rightarrow> True)"
  by (cases "cn_pc c") (simp_all add: call_ok_def split: deq_call.splits)

lemma single_step:
  assumes "dequeue_act s c = Some (s', c')" "cn_call c = D_dequeue" "call_ok c"
  shows "call_ok c'"
proof (cases "drain_act s c = Some (s', c')")
  case True
  then show ?thesis using call_ok_phase [OF drain_phase [OF True]] drain_frame(8) [OF True] assms(2) by simp
next
  case False
  then show ?thesis using assms by (cases "cn_pc c") (auto simp: dequeue_act_def call_ok_def at_def)
qed

lemma bulk_step:
  assumes "dequeue_bulk_act mx s c = Some (s', c')"
  shows "cn_call c' = cn_call c"
proof (cases "drain_act s c = Some (s', c')")
  case True
  then show ?thesis by (rule drain_frame(8))
next
  case False
  then show ?thesis using assms by (cases "cn_pc c") (auto simp: dequeue_bulk_act_def at_def Let_def split: if_splits)
qed

lemma call_ok_step:
  assumes "consumer_act s c = Some (s', c')" "call_ok c"
  shows "call_ok c'"
proof (cases "cn_call c")
  case D_dequeue
  then show ?thesis using assms single_step by (simp add: consumer_act_def)
next
  case (D_dequeue_bulk mx)
  then have "cn_call c' = D_dequeue_bulk mx" using assms(1) bulk_step by (force simp: consumer_act_def)
  then show ?thesis using assms(2) D_dequeue_bulk by (simp add: call_ok_def)
qed

lemma admission_ok [simp]: "admission pc \<Longrightarrow> closing pc = {}" "admission pc \<Longrightarrow> block_ok g M pc" "admission pc \<Longrightarrow> reader_ok g bi pc"
  by (cases pc; simp)+

lemma drain_out:
  assumes inv: "sq_inv nt todo s g L W M X" and step: "drain_step s (sq_consumers s i) s' c'"
  shows "out_ok (sq_pushed s) (sq_out s') (X \<union> taken (pcs_of s i))" "got_ok (sq_pushed s) (cn_pc c') (cn_got c')"
proof -
  note D = sq_invD [OF inv]
  have hist: "out_ok (sq_pushed s) (sq_out s) X" "got_ok (sq_pushed s) (pcs_of s i) (cn_got (sq_consumers s i))"
    using inv by (auto simp: sq_inv_def history_inv_def)
  note mc = move_content [OF D(1,2,4), of i]
  show "out_ok (sq_pushed s) (sq_out s') (X \<union> taken (pcs_of s i))" using step
  proof cases
    case (dr_move q x)
    have "dc_index q < length (sq_pushed s)" using claim_held(3) [OF D(1,2) mc(4) [OF dr_move(3,4)]] D(4) by simp
    then show ?thesis using out_ok_snoc [OF hist(1) mc(3) [OF dr_move(3,4)]] mc(1) [OF dr_move(3,4)] dr_move by simp
  qed (use hist(1) in \<open>simp_all add: set_many_empty_def add_block_to_free_list_def\<close>)
  show "got_ok (sq_pushed s) (cn_pc c') (cn_got c')" using mc(1) by (intro drain_got [OF step D(11) hist(2)]) simp
qed

lemma set_consumer_simps [simp]:
  "sq_consumers (set_consumer i (s, c)) = (sq_consumers s)(i := c)" "sq_tail (set_consumer i (s, c)) = sq_tail s"
  "sq_head (set_consumer i (s, c)) = sq_head s" "sq_optimistic (set_consumer i (s, c)) = sq_optimistic s"
  "sq_overcommit (set_consumer i (s, c)) = sq_overcommit s" "sq_pushed (set_consumer i (s, c)) = sq_pushed s"
  "sq_out (set_consumer i (s, c)) = sq_out s" "sq_fault (set_consumer i (s, c)) = sq_fault s"
  "sq_producer (set_consumer i (s, c)) = sq_producer s" "sq_todo (set_consumer i (s, c)) = sq_todo s"
  by (simp_all add: set_consumer_def)

lemma pcs_of_update: "pcs_of (set_consumer i (s, c)) = (pcs_of s)(i := cn_pc c)"
  by auto

lemma index_inv_set_consumer [simp]: "index_inv nt (set_consumer i (s, c)) = index_inv nt s"
  by (intro ext) (simp add: index_inv_def set_consumer_def)

lemma store_inv_set_consumer [simp]: "store_inv nt (set_consumer i (s, c)) = store_inv nt s"
  by (intro ext) (simp add: store_inv_def owner_inv_def set_consumer_def)

lemma history_set_consumer:
  assumes "history_inv todo s X" "sq_pushed s' = sq_pushed s" "sq_tail s' = sq_tail s" "sq_producer s' = sq_producer s" "sq_todo s' = sq_todo s"
    "sq_consumers s' = sq_consumers s" "out_ok (sq_pushed s) (sq_out s') X'" "got_ok (sq_pushed s) (cn_pc c') (cn_got c')"
  shows "history_inv todo (set_consumer i (s', c')) X'"
  using assms by (auto simp: history_inv_def)

lemma sq_inv_set_consumer:
  assumes "ticket_inv (sq_tail s') (sq_optimistic s') (sq_overcommit s') (sq_head s') ((pcs_of s)(i := cn_pc c)) L W"
    "claim_inv (sq_head s') ((pcs_of s)(i := cn_pc c)) M X" "\<And>j. call_ok (((sq_consumers s)(i := c)) j)"
    "history_inv todo (set_consumer i (s', c)) X" "index_inv nt s' g ((pcs_of s)(i := cn_pc c))"
    "store_inv nt s' g M X ((pcs_of s)(i := cn_pc c))" "\<not> sq_fault s'" "sq_consumers s' = sq_consumers s"
  shows "sq_inv nt todo (set_consumer i (s', c)) g L W M X"
proof -
  have pcs: "(\<lambda>j. cn_pc (((sq_consumers s)(i := c)) j)) = (pcs_of s)(i := cn_pc c)" by auto
  show ?thesis
    unfolding sq_inv_def account_inv_def set_consumer_simps index_inv_set_consumer store_inv_set_consumer assms(8) pcs
    by (intro conjI allI assms)
qed

lemma consumer_keeps:
  assumes inv: "sq_inv nt todo s g L W M X" and act: "consumer_act s (sq_consumers s i) = Some (s', c')"
  shows "\<exists>g' L' W' M' X'. sq_inv nt todo (set_consumer i (s', c')) g' L' W' M' X'"
proof -
  note D = sq_invD [OF inv]
  let ?c = "sq_consumers s i" and ?s = "set_consumer i (s', c')"
  have hist: "history_inv todo s X" using inv by (simp add: sq_inv_def)
  have call: "call_ok ?c" "\<forall>j. call_ok (sq_consumers s j)" using D(1) by (auto simp: account_inv_def)
  have calls: "call_ok (((sq_consumers s)(i := c')) j)" for j using call call_ok_step [OF act call(1)] by simp
  have tick: "ticket_inv (sq_tail s) (sq_optimistic s) (sq_overcommit s) (sq_head s) (pcs_of s) L W" using D(1) by (simp add: account_inv_def)
  obtain L' W' where tick': "ticket_inv (sq_tail s') (sq_optimistic s') (sq_overcommit s') (sq_head s') ((pcs_of s)(i := cn_pc c')) L' W'"
    using consumer_tickets [OF act call(1) _ tick, of i] by auto
  show ?thesis using act call(1)
  proof (cases rule: consumer_actE)
    case admit
    have "claim_inv (sq_head s) ((pcs_of s)(i := cn_pc c')) M X"
      using claim_inv_update [OF D(10), of "cn_pc c'" i] admission_idle [OF admit(1)] admission_idle [OF admit(2), of "sq_head s"] by simp
    moreover have "cn_got c' = cn_got ?c" using arg_cong [OF admit(3), of cn_got] by (simp add: at_def)
    then have "cn_got c' = []" using got_ok_admission [OF admit(1)] hist by (auto simp: history_inv_def)
    then have "got_ok (sq_pushed s) (cn_pc c') (cn_got c')" using admission_got_ok [OF admit(2)] by simp
    moreover have "sq_tail s' = sq_tail s" "sq_head s' = sq_head s" "sq_pushed s' = sq_pushed s" "sq_producer s' = sq_producer s"
      "sq_todo s' = sq_todo s" "sq_consumers s' = sq_consumers s" "sq_out s' = sq_out s" "sq_fault s' = sq_fault s"
      "index_inv nt s' = index_inv nt s" "store_inv nt s' = store_inv nt s"
      by (subst admit(4), simp add: fun_eq_iff index_inv_def store_inv_def owner_inv_def)+
    ultimately have "sq_inv nt todo ?s g L' W' M X"
      using tick' calls history_set_consumer [OF hist, of s' X c' i] hist index_inv_reader [OF D(3), of "cn_pc c'" i]
        store_inv_quiet [OF D(2), of "cn_pc c'" i] admit(1,2) D(13)
      by (intro sq_inv_set_consumer) (simp_all add: history_inv_def)
    then show ?thesis by blast
  next
    case (head my n)
    have n: "0 < n" using ticket_invD(8) [OF tick, of i] head(1) by simp
    have cl: "claim_inv (sq_head s + n) ((pcs_of s)(i := cn_pc c')) M X"
      using claim_inv_claim [OF D(10) _ n, of i] head by (simp add: at_def)
    have "got_ok (sq_pushed s) (cn_pc c') (cn_got c')" using hist head by (auto simp: history_inv_def at_def dest: spec [of _ i])
    then have "history_inv todo ?s X" using history_set_consumer [OF hist, of s' X c' i] hist head(2) by (simp add: history_inv_def)
    then have "sq_inv nt todo ?s g L' W' M X"
      using tick' calls cl index_inv_reader [OF D(3), of "cn_pc c'" i] store_inv_quiet [OF D(2), of "cn_pc c'" i] head D(13)
      by (intro sq_inv_set_consumer) (simp_all add: at_def index_inv_def store_inv_def owner_inv_def)
    then show ?thesis by blast
  next
    case drain
    have step: "drain_step s ?c s' c'" by (rule drain_act_step [OF drain no_drain_fault [OF inv]])
    obtain g' where k: "drain_keeps nt s s' g' (M \<union> counted (pcs_of s i)) (X \<union> taken (pcs_of s i)) ((pcs_of s)(i := cn_pc c'))"
      using drain_step_keeps [OF inv step] by blast
    note fr = k [unfolded drain_keeps_def]
    have cl: "claim_inv (sq_head s') ((pcs_of s)(i := cn_pc c')) (M \<union> counted (pcs_of s i)) (X \<union> taken (pcs_of s i))"
      using drain_claims [OF step D(10), of i] drain_frame(4) [OF drain] by simp
    have "history_inv todo ?s (X \<union> taken (pcs_of s i))"
      using history_set_consumer [OF hist _ _ _ _ _ drain_out [OF inv step]] fr by blast
    then have "sq_inv nt todo ?s g' L' W' (M \<union> counted (pcs_of s i)) (X \<union> taken (pcs_of s i))"
      using tick' calls cl fr by (intro sq_inv_set_consumer) simp_all
    then show ?thesis by blast
  qed
qed

end
