(* ===== verification/SubQueueEnqueue.thy ===== *)
theory SubQueueEnqueue
  imports SubQueueSafe
begin

text \<open>
  The steps of the producer of a sub-queue that set up an entry of the block index keep the invariant.
\<close>

section \<open>Frames\<close>

lemma content_inv_cong:
  assumes "gh_block g' = gh_block g" "gh_unlinked g' = gh_unlinked g" "gh_released g' = gh_released g"
  shows "content_inv blocks ps g' N M X = content_inv blocks ps g N M X" "closing_inv g' N M pcs = closing_inv g N M pcs"
    "owned g' N = owned g N"
proof -
  have "block_ok g' M pc = block_ok g M pc" for pc using assms by (cases pc) auto
  then show "closing_inv g' N M pcs = closing_inv g N M pcs" using assms by (simp add: closing_inv_def)
qed (use assms in \<open>simp_all add: content_inv_def owned_def\<close>)

text \<open>The producer moves on, and the blocks stay as they are.\<close>

lemma store_inv_pc:
  assumes st: "store_inv nt s g M X pcs"
    and same: "sq_blocks s' = sq_blocks s" "sq_free s' = sq_free s" "sq_foreign s' = sq_foreign s" "sq_fresh s' = sq_fresh s"
      "sq_pushed s' @ building (sq_producer s') = sq_pushed s @ building (sq_producer s)" "blocks_of s' = blocks_of s"
      "gh_block g' = gh_block g" "gh_unlinked g' = gh_unlinked g" "gh_released g' = gh_released g"
    and new: "reserved (sq_producer s') = reserved (sq_producer s)" "private_ok nt (sq_blocks s) (sq_producer s')"
      "tail_ok (sq_tailBlock s') g' (sq_tail s') (sq_producer s')"
  shows "store_inv nt s' g' M X pcs"
  using st new unfolding store_inv_def owner_inv_def content_inv_cong [OF same(7-9)] same by simp

lemma sq_inv_produce:
  assumes inv: "sq_inv nt todo s g L W M X"
    and same: "sq_head s' = sq_head s" "sq_optimistic s' = sq_optimistic s" "sq_overcommit s' = sq_overcommit s"
      "sq_consumers s' = sq_consumers s" "sq_out s' = sq_out s" "sq_fault s' = sq_fault s"
    and pushed: "sq_pushed s' = sq_pushed s @ xs" "length (sq_pushed s') = sq_tail s'"
    and seq: "subseq (sq_pushed s' @ in_hand (sq_producer s') @ sq_todo s') todo"
    and new: "index_inv nt s' g' (pcs_of s)" "store_inv nt s' g' M X (pcs_of s)"
  shows "sq_inv nt todo s' g' L W M X"
proof -
  note D = sq_invD [OF inv]
  have hist: "history_inv todo s X" using inv by (simp add: sq_inv_def)
  have T: "sq_tail s \<le> sq_tail s'" using pushed D(4) by simp
  have "account_inv s' L W M X" using D(1) ticket_inv_tail [OF _ T] by (simp add: account_inv_def same)
  have "claim_ok (length (sq_pushed s)) (pcs_of s i)" for i
    using claim_ok_mono [OF D(11) [of i] head_le [OF D(1)]] D(4) by simp
  then have "got_ok (sq_pushed s') (pcs_of s i) (cn_got (sq_consumers s i))" for i
    using hist got_ok_append [of "sq_pushed s" "pcs_of s i"] by (simp add: history_inv_def pushed(1))
  moreover have "out_ok (sq_pushed s') (sq_out s) X" using hist by (simp add: history_inv_def pushed(1) out_ok_append)
  ultimately have "history_inv todo s' X" using pushed(2) seq by (simp add: history_inv_def same)
  with \<open>account_inv s' L W M X\<close> show ?thesis using new inv by (simp add: sq_inv_def same)
qed

lemma nblocks_simps:
  fixes T :: nat
  shows "T mod 32 = 0 \<Longrightarrow> (T + 31) div 32 = T div 32" "T mod 32 \<noteq> 0 \<Longrightarrow> (T + 31) div 32 = T div 32 + 1"
    "(T + 1 + 31) div 32 = T div 32 + 1" "T mod 32 = 0 \<Longrightarrow> 32 * (T div 32) = T"
proof -
  define q r where "q = T div 32" and "r = T mod 32"
  then have T: "T = 32 * q + r" "r < 32" by simp_all
  show "(T + 31) div 32 = T div 32" if "T mod 32 = 0" using T that by (simp add: q_def [symmetric] r_def)
  show "(T + 31) div 32 = T div 32 + 1" if "T mod 32 \<noteq> 0"
  proof -
    have "T + 31 = 32 * (q + 1) + (r - 1)" using T that r_def by simp
    then have "(T + 31) div 32 = q + 1" using T(2) by simp
    then show ?thesis by (simp add: q_def)
  qed
  show "32 * (T div 32) = T" if "T mod 32 = 0" using T that by (simp add: q_def [symmetric] r_def)
qed simp

lemma producer_simps [simp]:
  "sq_tail (produce pc s) = sq_tail s" "sq_head (produce pc s) = sq_head s" "sq_optimistic (produce pc s) = sq_optimistic s"
  "sq_overcommit (produce pc s) = sq_overcommit s" "sq_consumers (produce pc s) = sq_consumers s" "sq_pushed (produce pc s) = sq_pushed s"
  "sq_out (produce pc s) = sq_out s" "sq_fault (produce pc s) = sq_fault s" "sq_producer (produce pc s) = pc" "sq_todo (produce pc s) = sq_todo s"
  "sq_blocks (produce pc s) = sq_blocks s" "sq_free (produce pc s) = sq_free s" "sq_foreign (produce pc s) = sq_foreign s"
  "sq_fresh (produce pc s) = sq_fresh s" "sq_tailBlock (produce pc s) = sq_tailBlock s" "sq_index (produce pc s) = sq_index s"
  by (simp_all add: produce_def)

lemma subseq_drop:
  assumes "subseq (a @ b @ c) d"
  shows "subseq (a @ c) d"
proof -
  have "subseq (a @ c) (a @ b @ c)" by (intro list_emb_append_mono list_emb_append2) simp_all
  then show ?thesis using assms by (rule subseq_order.trans)
qed

section \<open>A new entry\<close>

lemma idle_keeps:
  assumes inv: "sq_inv nt todo s g L W M X" and pc: "sq_producer s = P_IDLE" "sq_todo s = x # xs"
    and s': "s' = produce (if slot_of (sq_tail s) = 0 then P_HEAD x else P_CONSTRUCT x) (s\<lparr>sq_todo := xs\<rparr>)"
  shows "sq_inv nt todo s' g L W M X"
proof -
  note D = sq_invD [OF inv]
  let ?T = "sq_tail s"
  have N: "blocks_of s' = blocks_of s" using nblocks_simps [of ?T] by (simp add: s' pc nblocks_def slot_of_def)
  have "subseq (sq_pushed s @ x # xs) todo" using inv pc by (simp add: sq_inv_def history_inv_def)
  moreover have "store_inv nt s' g M X (pcs_of s)"
    using D(2) N by (intro store_inv_pc [OF D(2)]) (auto simp: s' pc slot_of_def store_inv_def)
  moreover have "index_inv nt s' g (pcs_of s)" using D(3) N by (auto simp: index_inv_def s' pc slot_of_def)
  ultimately show ?thesis using D(4) by (intro sq_inv_produce [OF inv, where xs = "[]"]) (auto simp: s')
qed

lemma head_keeps:
  assumes inv: "sq_inv nt todo s g L W M X" and pc: "sq_producer s = P_HEAD x" and s': "s' = produce (P_INSERT x) s"
  shows "sq_inv nt todo s' g L W M X"
proof -
  note D = sq_invD [OF inv]
  have N: "blocks_of s' = blocks_of s" by (simp add: s' pc nblocks_def)
  have "subseq (sq_pushed s @ x # sq_todo s) todo" using inv pc by (simp add: sq_inv_def history_inv_def)
  moreover have "store_inv nt s' g M X (pcs_of s)" using D(2) N by (intro store_inv_pc [OF D(2)]) (auto simp: s' pc store_inv_def)
  moreover have "index_inv nt s' g (pcs_of s)" using D(3) N by (auto simp: index_inv_def s' pc)
  ultimately show ?thesis using D(4) by (intro sq_inv_produce [OF inv, where xs = "[]"]) (auto simp: s')
qed

lemma give_up_keeps:
  assumes inv: "sq_inv nt todo s g L W M X" and s': "s' = produce P_IDLE s"
    and ok: "cleared g (blocks_of s) (sq_index s)" "sq_tail s mod 32 \<noteq> 0 \<longrightarrow> gh_keyed g = blocks_of s"
    and N: "blocks_of s' = blocks_of s" "setting_up (sq_producer s) = 0" "reserved (sq_producer s) = {}" "building (sq_producer s) = []"
  shows "sq_inv nt todo s' g L W M X"
proof -
  note D = sq_invD [OF inv]
  have "subseq (sq_pushed s @ sq_todo s) todo" using inv subseq_drop by (auto simp: sq_inv_def history_inv_def)
  moreover have "tail_ok (sq_tailBlock s) g (sq_tail s) P_IDLE" using D(2) by (cases "sq_producer s") (auto simp: store_inv_def)
  then have "store_inv nt s' g M X (pcs_of s)" using N by (intro store_inv_pc [OF D(2)]) (auto simp: s')
  moreover have "index_inv nt s' g (pcs_of s)" using D(3) ok N unfolding index_inv_def by (simp add: s')
  ultimately show ?thesis using D(4) by (intro sq_inv_produce [OF inv, where xs = "[]"]) (auto simp: s')
qed

text \<open>A step on the block index alone, at the end of a block.\<close>

lemma index_step_keeps:
  assumes inv: "sq_inv nt todo s g L W M X" and s': "s' = produce pc (s\<lparr>sq_index := bi\<rparr>)"
    and N: "blocks_of s' = blocks_of s" and T: "sq_tail s mod 32 = 0"
    and same: "reserved pc = reserved (sq_producer s)" "building pc = building (sq_producer s)" "private_ok nt (sq_blocks s) pc"
      "gh_block g' = gh_block g" "gh_unlinked g' = gh_unlinked g" "gh_released g' = gh_released g" "building pc = []"
      "\<nexists>x. pc = P_CONSTRUCT x"
    and hand: "in_hand pc = in_hand (sq_producer s) \<or> in_hand pc = []"
    and bi: "headers_ok g' (blocks_of s) (blocks_of s + setting_up pc) bi" "entries_ok g' (blocks_of s) bi"
      "producer_ok nt g' (blocks_of s) (sq_tail s) bi pc" "stays (blocks_of s) g (sq_index s) g' bi"
  shows "sq_inv nt todo s' g' L W M X"
proof -
  note D = sq_invD [OF inv]
  have "subseq (sq_pushed s @ in_hand pc @ sq_todo s) todo" using inv subseq_drop hand by (auto simp: sq_inv_def history_inv_def)
  moreover have "tail_ok (sq_tailBlock s) g' (sq_tail s) pc" using T same(7,8) by (cases pc) auto
  then have "store_inv nt s' g' M X (pcs_of s)" using N same by (intro store_inv_pc [OF D(2)]) (auto simp: s')
  moreover have "index_inv nt s' g' (pcs_of s)"
    unfolding index_inv_def using bi N readers_stay [OF inv bi(4)] by (simp add: s')
  ultimately show ?thesis using D(4) by (intro sq_inv_produce [OF inv, where xs = "[]"]) (auto simp: s')
qed

lemma insert_entry_keeps:
  assumes inv: "sq_inv nt todo s g L W M X" and act: "insert_entry_act ok s = Some s'"
  shows "\<exists>g'. sq_inv nt todo s' g' L W M X"
proof -
  note D = sq_invD [OF inv]
  let ?N = "blocks_of s" and ?T = "sq_tail s" and ?bi = "sq_index s"
  have pok: "producer_ok nt g ?N ?T ?bi (sq_producer s)" using D(3) by (simp add: index_inv_def)
  have store: "\<exists>g'. sq_inv nt todo s' g' L W M X"
    if pc: "sq_producer s = P_INSERT x \<or> sq_producer s = P_REKEY x" and ne: "bi_headers ?bi \<noteq> []" and free: "entry_free ?bi (next_entry ?bi)"
      and s': "s' = produce (P_SLOT x (next_slot ?bi) (next_entry ?bi)) (s\<lparr>sq_index := set_key (next_entry ?bi) ?T ?bi\<rparr>)" for x
  proof -
    have T: "?T mod 32 = 0" and N: "blocks_of s' = ?N" "?N = ?T div 32" and hs: "headers_ok g ?N ?N ?bi"
      using pok pc D(8) nblocks_simps(1) [of ?T] by (auto simp: s' nblocks_def)
    have key: "?T = 32 * ?N" using N(2) nblocks_simps(4) [OF T] by simp
    note slot = next_slot_at(1) [OF hs ne]
    show ?thesis
    proof (cases "gh_keyed g = ?N")
      case True
      let ?g = "key_entry ?N (next_entry ?bi) g"
      note sk = store_key [OF hs ne D(5) free True, folded key]
      have "stays ?N g ?bi ?g (set_key (next_entry ?bi) ?T ?bi)" by (rule stays_key [OF True]) simp
      then have "sq_inv nt todo s' ?g L W M X"
        using pc sk T slot N by (intro index_step_keeps [OF inv s']) auto
      then show ?thesis by blast
    next
      case False
      then have K: "gh_keyed g = ?N + 1" using D(5) by (auto simp: entries_ok_def)
      note again = store_key_again [OF hs D(5) K, folded key]
      have "sq_inv nt todo s' g L W M X"
        using pc again T slot N K hs D(5) stays_refl by (intro index_step_keeps [OF inv s']) auto
      then show ?thesis by blast
    qed
  qed
  show ?thesis
  proof (cases "sq_producer s")
    case (P_INSERT x)
    have T: "?T mod 32 = 0" and cl: "cleared g ?N ?bi" using pok P_INSERT by auto
    show ?thesis
    proof (cases "bi_headers ?bi = []")
      case True
      then have "s' = produce P_IDLE s" using act P_INSERT by (simp add: insert_entry_act_def)
      then show ?thesis using give_up_keeps [OF inv _ cl] T P_INSERT by (auto simp: nblocks_def)
    next
      case ne: False
      show ?thesis
      proof (cases "entry_free ?bi (next_entry ?bi)")
        case True
        then have "produce (P_SLOT x (next_slot ?bi) (next_entry ?bi)) (s\<lparr>sq_index := set_key (next_entry ?bi) ?T ?bi\<rparr>) = s'"
          using act P_INSERT ne by (simp add: insert_entry_act_def Let_def)
        from this [symmetric] show ?thesis using store [of x] P_INSERT ne True by blast
      next
        case False
        then have s': "s' = produce (P_GROW x) (s\<lparr>sq_index := ?bi\<rparr>)" using act P_INSERT ne by (simp add: insert_entry_act_def)
        have N: "blocks_of s' = ?N" and hs: "headers_ok g ?N ?N ?bi" using P_INSERT D(8) by (auto simp: s' nblocks_def)
        have "gh_keyed g = ?N"
        proof (rule ccontr)
          assume "gh_keyed g \<noteq> ?N"
          then have K: "gh_keyed g = ?N + 1" using D(5) by (auto simp: entries_ok_def)
          then show False using store_key_again(1) [OF hs D(5) K] cl False by (simp add: entry_free_def cleared_def)
        qed
        then show ?thesis using index_step_keeps [OF inv s' N T, of g] P_INSERT T ne hs D(5) stays_refl by auto
      qed
    qed
  next
    case (P_GROW x)
    have T: "?T mod 32 = 0" and K: "gh_keyed g = ?N" and ne: "bi_headers ?bi \<noteq> []" and hs: "headers_ok g ?N ?N ?bi"
      using pok P_GROW D(8) by auto
    show ?thesis
    proof (cases ok)
      case True
      then have s': "s' = produce (P_REKEY x) (s\<lparr>sq_index := new_block_index ?bi\<rparr>)" using act P_GROW by (simp add: insert_entry_act_def)
      let ?g = "grow (length (bi_headers ?bi)) (ih_capacity (current_header ?bi)) ?N g"
      have N: "blocks_of s' = ?N" using P_GROW by (simp add: s' nblocks_def)
      have cap: "bi_next_capacity ?bi = 2 * ih_capacity (current_header ?bi)" using hs ne by (simp add: headers_ok_def)
      have "bi_headers (new_block_index ?bi) \<noteq> []" using new_block_index_grow(1) [OF ne cap] by simp
      then have "sq_inv nt todo s' ?g L W M X"
        using P_GROW T K grow_index [OF hs ne D(5) K] stays_grow [OF ne cap, of ?N g] by (intro index_step_keeps [OF inv s' N T]) auto
      then show ?thesis by blast
    next
      case False
      then have "s' = produce P_IDLE s" using act P_GROW by (simp add: insert_entry_act_def)
      then show ?thesis using give_up_keeps [OF inv, of s'] T K P_GROW by (auto simp: nblocks_def cleared_def)
    qed
  next
    case (P_REKEY x)
    then have "ie_key (bi_entries ?bi (next_entry ?bi)) = None" "bi_headers ?bi \<noteq> []" using pok by auto
    moreover from this have "produce (P_SLOT x (next_slot ?bi) (next_entry ?bi)) (s\<lparr>sq_index := set_key (next_entry ?bi) ?T ?bi\<rparr>) = s'"
      using act P_REKEY by (simp add: insert_entry_act_def Let_def)
    from this [symmetric] show ?thesis using calculation store [of x] P_REKEY by (simp add: entry_free_def)
  next
    case (P_SLOT x p e)
    have s': "s' = produce (P_BLOCK x e) (s\<lparr>sq_index := set_tail p ?bi\<rparr>)" using act P_SLOT by (simp add: insert_entry_act_def)
    have T: "?T mod 32 = 0" and K: "gh_keyed g = ?N + 1" and e: "e = gh_entry g ?N" and p: "p = slot_at g (current_id ?bi) (current_header ?bi) ?N"
      and hs: "headers_ok g ?N ?N ?bi" using pok P_SLOT D(8) by auto
    have ne: "bi_headers ?bi \<noteq> []" using D(5) K by (auto simp: entries_ok_def)
    have N: "blocks_of s' = ?N" using P_SLOT by (simp add: s' nblocks_def)
    have "reserved (sq_producer s) = {}" "building (sq_producer s) = []" "in_hand (sq_producer s) = [x]" using P_SLOT by simp_all
    then have "sq_inv nt todo s' (freeze (current_id ?bi) (?N + 1) g) L W M X"
      using T K e store_tail [OF hs D(5) K p] entries_ok_tail [OF D(5) ne] stays_tail [OF ne, of ?N "?N + 1" g p]
      by (intro index_step_keeps [OF inv s' N T]) auto
    then show ?thesis by blast
  qed (use act in \<open>simp_all add: insert_entry_act_def\<close>)
qed

end
