(* ===== verification/SubQueueBlocks.thy ===== *)
theory SubQueueBlocks
  imports SubQueueEnqueue
begin

text \<open>
  The steps of the producer of a sub-queue on its blocks, and those of the other sub-queues on the free
  list, keep the invariant; so it holds in every reachable state.
\<close>

section \<open>A block for the next elements\<close>

lemma content_inv_blocks:
  assumes "\<forall>c \<in> owned g N. blocks' c = blocks c"
  shows "content_inv blocks' ps g N M X = content_inv blocks ps g N M X"
proof -
  have "blocks' (gh_block g b) = blocks (gh_block g b)" if "b < N" "b \<notin> gh_released g" for b using assms that by (simp add: owned_def)
  then show ?thesis by (auto simp: content_inv_def)
qed

text \<open>What \<open>requisition_block\<close> hands out belongs to nobody and is empty.\<close>

lemma requisition:
  assumes own: "owner_inv s g N" and req: "requisition_block b s = Some s1"
  shows "sq_free s1 = sq_free s - {b}" "b \<notin> owned g N" "b \<notin> sq_foreign s" "b < sq_fresh s1" "{..<sq_fresh s1} = insert b {..<sq_fresh s}"
    "\<forall>c. c \<noteq> b \<longrightarrow> sq_blocks s1 c = sq_blocks s c" "empty_slots (sq_blocks s1 b)"
    "\<exists>fr fs bl. s1 = s\<lparr>sq_free := fr, sq_fresh := fs, sq_blocks := bl\<rparr>" "b \<notin> reserved (sq_producer s)"
proof -
  have o: "\<And>c. c \<in> owned g N \<union> reserved (sq_producer s) \<Longrightarrow> c < sq_fresh s" "\<And>c. c \<in> sq_free s \<Longrightarrow> c < sq_fresh s"
    "\<And>c. c \<in> sq_foreign s \<Longrightarrow> c < sq_fresh s" "\<And>c. c \<in> sq_free s \<Longrightarrow> c \<notin> owned g N \<union> reserved (sq_producer s)"
    "\<And>c. c \<in> sq_free s \<Longrightarrow> c \<notin> sq_foreign s" "\<And>c. c \<in> sq_free s \<Longrightarrow> empty_slots (sq_blocks s c)"
    using own unfolding owner_inv_def by blast+
  have "b \<in> sq_free s \<and> s1 = s\<lparr>sq_free := sq_free s - {b}, sq_fresh := sq_fresh s, sq_blocks := sq_blocks s\<rparr>
    \<or> b = sq_fresh s \<and> b \<notin> sq_free s \<and> s1 = s\<lparr>sq_free := sq_free s, sq_fresh := sq_fresh s + 1, sq_blocks := (sq_blocks s)(b := new_block)\<rparr>"
    using req by (auto simp: requisition_block_def split: if_splits)
  then have "sq_free s1 = sq_free s - {b} \<and> b \<notin> owned g N \<and> b \<notin> sq_foreign s \<and> b < sq_fresh s1 \<and> {..<sq_fresh s1} = insert b {..<sq_fresh s}
      \<and> (\<forall>c. c \<noteq> b \<longrightarrow> sq_blocks s1 c = sq_blocks s c) \<and> empty_slots (sq_blocks s1 b)
      \<and> (\<exists>fr fs bl. s1 = s\<lparr>sq_free := fr, sq_fresh := fs, sq_blocks := bl\<rparr>) \<and> b \<notin> reserved (sq_producer s)"
  proof
    assume old: "b \<in> sq_free s \<and> s1 = s\<lparr>sq_free := sq_free s - {b}, sq_fresh := sq_fresh s, sq_blocks := sq_blocks s\<rparr>"
    have "\<exists>fr fs bl. s1 = s\<lparr>sq_free := fr, sq_fresh := fs, sq_blocks := bl\<rparr>" using old by blast
    then show ?thesis using old o(2,4-6) [of b] by (simp add: insert_absorb)
  next
    assume new: "b = sq_fresh s \<and> b \<notin> sq_free s
      \<and> s1 = s\<lparr>sq_free := sq_free s, sq_fresh := sq_fresh s + 1, sq_blocks := (sq_blocks s)(b := new_block)\<rparr>"
    have "\<exists>fr fs bl. s1 = s\<lparr>sq_free := fr, sq_fresh := fs, sq_blocks := bl\<rparr>" using new by blast
    then show ?thesis using new o(1,3) [of b] by (auto simp: new_block_def empty_slots_def lessThan_Suc)
  qed
  then show "sq_free s1 = sq_free s - {b}" "b \<notin> owned g N" "b \<notin> sq_foreign s" "b < sq_fresh s1" "{..<sq_fresh s1} = insert b {..<sq_fresh s}"
    "\<forall>c. c \<noteq> b \<longrightarrow> sq_blocks s1 c = sq_blocks s c" "empty_slots (sq_blocks s1 b)"
    "\<exists>fr fs bl. s1 = s\<lparr>sq_free := fr, sq_fresh := fs, sq_blocks := bl\<rparr>" "b \<notin> reserved (sq_producer s)" by blast+
qed

text \<open>A step on a block that is not in the index.\<close>

lemma private_keeps:
  assumes inv: "sq_inv nt todo s g L W M X" and s': "s' = s\<lparr>sq_producer := pc, sq_free := fr, sq_fresh := fs, sq_foreign := fo, sq_blocks := bl\<rparr>"
    and N: "nblocks (sq_tail s) pc = blocks_of s" "building pc = building (sq_producer s)" "setting_up pc = setting_up (sq_producer s)"
      "tail_ok (sq_tailBlock s) g (sq_tail s) pc" "producer_ok nt g (blocks_of s) (sq_tail s) (sq_index s) pc"
    and hand: "in_hand pc = in_hand (sq_producer s) \<or> in_hand pc = []"
    and own: "owner_inv s' g (blocks_of s)" "\<forall>c \<in> owned g (blocks_of s). bl c = sq_blocks s c" "private_ok nt bl pc"
  shows "sq_inv nt todo s' g L W M X"
proof -
  note D = sq_invD [OF inv]
  have "store_inv nt s' g M X (pcs_of s)"
    using own(1,3) N D(15,16) content_inv_blocks [OF own(2)] by (simp add: store_inv_def s')
  moreover have "index_inv nt s' g (pcs_of s)" using D(3) N by (simp add: index_inv_def s')
  moreover have "subseq (sq_pushed s @ in_hand pc @ sq_todo s) todo" using inv hand subseq_drop by (auto simp: sq_inv_def history_inv_def)
  ultimately show ?thesis using D(4) by (intro sq_inv_produce [OF inv, where xs = "[]"]) (simp_all add: s')
qed

lemma got_block_keeps:
  assumes inv: "sq_inv nt todo s g L W M X" and pc: "sq_producer s = P_BLOCK x e" and req: "requisition_block b s = Some s1"
    and s': "s' = produce (if nt then P_PUBLISH x e b else P_EARLY x e b) (reset_empty b s1)"
  shows "sq_inv nt todo s' g L W M X"
proof -
  note D = sq_invD [OF inv] and R = requisition [OF sq_invD(14) [OF inv] req]
  let ?pc = "if nt then P_PUBLISH x e b else P_EARLY x e b"
  obtain fr fs bl where s1: "s1 = s\<lparr>sq_free := fr, sq_fresh := fs, sq_blocks := bl\<rparr>" using R(8) by blast
  have eq: "s' = s\<lparr>sq_producer := ?pc, sq_free := fr, sq_fresh := fs, sq_foreign := sq_foreign s, sq_blocks := bl(b := (bl b)\<lparr>qb_dequeued := 0\<rparr>)\<rparr>"
    by (simp add: s' s1 produce_def reset_empty_def)
  have pok: "producer_ok nt g (blocks_of s) (sq_tail s) (sq_index s) (P_BLOCK x e)" using D(3) pc by (simp add: index_inv_def)
  have none: "reserved (sq_producer s) = {}" "reserved ?pc = {b}" by (simp_all add: pc)
  have "owner_inv s' g (blocks_of s)"
  proof -
    have fr: "fr = sq_free s - {b}" and fs: "{..<fs} = insert b {..<sq_fresh s}" using R(1,5) by (simp_all add: s1)
    note own = D(14) [unfolded owner_inv_def none, simplified]
    have "owned g (blocks_of s) \<inter> {b} = {}" "(owned g (blocks_of s) \<union> {b}) \<inter> (fr \<union> sq_foreign s) = {}" "fr \<inter> sq_foreign s = {}"
      using own fr R(2,3) by blast+
    moreover have "owned g (blocks_of s) \<union> sq_free s \<union> sq_foreign s = {..<sq_fresh s}" using own by simp
    then have "owned g (blocks_of s) \<union> {b} \<union> fr \<union> sq_foreign s = {..<fs}" unfolding fs fr by blast
    moreover have "\<forall>c \<in> fr. empty_slots ((bl(b := (bl b)\<lparr>qb_dequeued := 0\<rparr>)) c)" using own fr R(6) by (simp add: s1)
    ultimately show ?thesis using own unfolding owner_inv_def eq by (simp add: none)
  qed
  then show ?thesis using R(2,6,7) pok by (intro private_keeps [OF inv eq]) (auto simp: pc s1 nblocks_def empty_slots_def)
qed

lemma construct_early_keeps:
  assumes inv: "sq_inv nt todo s g L W M X" and pc: "sq_producer s = P_EARLY x e b"
    and s': "s' = produce (P_PUBLISH x e b) (construct b (sq_tail s) x s)"
  shows "sq_inv nt todo s' g L W M X"
proof -
  note D = sq_invD [OF inv]
  have pok: "producer_ok nt g (blocks_of s) (sq_tail s) (sq_index s) (P_EARLY x e b)" using D(3) pc by (simp add: index_inv_def)
  then have slot: "slot_of (sq_tail s) = 0" by (simp add: slot_of_def)
  have priv: "private_ok nt (sq_blocks s) (P_EARLY x e b)" using D(2) pc by (simp add: store_inv_def)
  then have "get_slot b (sq_tail s) s = None" using slot by (simp add: get_slot_def empty_slots_def)
  then have eq: "s' = s\<lparr>sq_producer := P_PUBLISH x e b, sq_free := sq_free s, sq_fresh := sq_fresh s, sq_foreign := sq_foreign s,
      sq_blocks := (sq_blocks s)(b := (sq_blocks s b)\<lparr>qb_slots := (qb_slots (sq_blocks s b))(0 := Some x)\<rparr>)\<rparr>"
    using slot by (simp add: s' construct_def put_slot_def produce_def)
  have res: "reserved (sq_producer s) = {b}" using pc by simp
  have apart: "b \<notin> owned g (blocks_of s)" "b \<notin> sq_free s" using D(14) unfolding owner_inv_def res by blast+
  have "owner_inv s' g (blocks_of s)" using D(14) apart unfolding owner_inv_def eq by (auto simp: pc)
  then show ?thesis using apart pok priv by (intro private_keeps [OF inv eq]) (auto simp: pc nblocks_def empty_slots_def)
qed

lemma release_keeps:
  assumes inv: "sq_inv nt todo s g L W M X" and pc: "sq_producer s = P_RELEASE b"
    and s': "s' = produce P_IDLE (add_block_to_free_list b s)"
  shows "sq_inv nt todo s' g L W M X"
proof -
  note D = sq_invD [OF inv]
  have res: "reserved (sq_producer s) = {b}" "reserved P_IDLE = {}" using pc by simp_all
  have apart: "b \<notin> owned g (blocks_of s)" "b \<notin> sq_free s" "b \<notin> sq_foreign s" "b < sq_fresh s" using D(14) unfolding owner_inv_def res by blast+
  have pok: "producer_ok nt g (blocks_of s) (sq_tail s) (sq_index s) (P_RELEASE b)" using D(3) pc by (simp add: index_inv_def)
  have priv: "private_ok nt (sq_blocks s) (P_RELEASE b)" using D(2) pc by (simp add: store_inv_def)
  have eq: "s' = s\<lparr>sq_producer := P_IDLE, sq_free := insert b (sq_free s), sq_fresh := sq_fresh s, sq_foreign := sq_foreign s, sq_blocks := sq_blocks s\<rparr>"
    using apart D(13) by (simp add: s' add_block_to_free_list_def produce_def)
  have "owner_inv s' g (blocks_of s)" using D(14) apart priv unfolding owner_inv_def eq by (auto simp: pc)
  then show ?thesis using pok by (intro private_keeps [OF inv eq]) (auto simp: pc nblocks_def)
qed

text \<open>No block, or the constructor throws: the entry is given up.\<close>

lemma give_back_keeps:
  assumes inv: "sq_inv nt todo s g L W M X" and s': "s' = produce (P_REWIND e b) s"
    and pc: "sq_producer s = P_BLOCK x e \<and> b = None \<or> (\<exists>c. sq_producer s = P_EARLY x e c \<and> b = Some c)"
  shows "sq_inv nt todo s' g L W M X"
proof -
  note D = sq_invD [OF inv]
  have pok: "producer_ok nt g (blocks_of s) (sq_tail s) (sq_index s) (sq_producer s)" using D(3) by (simp add: index_inv_def)
  have priv: "private_ok nt (sq_blocks s) (sq_producer s)" using D(2) by (simp add: store_inv_def)
  have eq: "s' = produce (P_REWIND e b) (s\<lparr>sq_index := sq_index s\<rparr>)" by (simp add: s')
  show ?thesis using pc pok priv D(5,8) stays_refl
    by (intro index_step_keeps [OF inv eq]) (auto simp: s' nblocks_def)
qed

lemma rewind_keeps:
  assumes inv: "sq_inv nt todo s g L W M X" and pc: "sq_producer s = P_REWIND e b"
    and s': "s' = produce (P_CLEAR e b) (s\<lparr>sq_index := rewind_block_index_tail (sq_index s)\<rparr>)"
  shows "\<exists>g'. sq_inv nt todo s' g' L W M X"
proof -
  note D = sq_invD [OF inv]
  let ?N = "blocks_of s" and ?bi = "sq_index s"
  have pok: "producer_ok nt g ?N (sq_tail s) ?bi (P_REWIND e b)" using D(3) pc by (simp add: index_inv_def)
  have priv: "private_ok nt (sq_blocks s) (P_REWIND e b)" using D(2) pc by (simp add: store_inv_def)
  have hs: "headers_ok g ?N (?N + 1) ?bi" using D(8) pc by simp
  have ne: "bi_headers ?bi \<noteq> []" using D(5) pok by (auto simp: entries_ok_def)
  have "sq_inv nt todo s' (freeze (current_id ?bi) ?N g) L W M X"
  proof (rule index_step_keeps [OF inv s'])
    show "entries_ok (freeze (current_id ?bi) ?N g) ?N (rewind_block_index_tail ?bi)"
      "stays ?N g ?bi (freeze (current_id ?bi) ?N g) (rewind_block_index_tail ?bi)"
      unfolding rewind_block_index_tail_def by (rule entries_ok_tail [OF D(5) ne] stays_tail [OF ne order.refl])+
    show "private_ok nt (sq_blocks s) (P_CLEAR e b)" using priv by (cases b) auto
    show "reserved (P_CLEAR e b) = reserved (sq_producer s)" by (cases b) (simp_all add: pc)
  qed (use pok rewind_tail [OF hs ne] in \<open>simp_all add: pc s' nblocks_def\<close>)
  then show ?thesis by blast
qed

lemma clear_keeps:
  assumes inv: "sq_inv nt todo s g L W M X" and pc: "sq_producer s = P_CLEAR e b"
    and s': "s' = produce (case b of None \<Rightarrow> P_IDLE | Some b \<Rightarrow> P_RELEASE b) (s\<lparr>sq_index := set_value e None (sq_index s)\<rparr>)"
  shows "sq_inv nt todo s' g L W M X"
proof -
  note D = sq_invD [OF inv]
  let ?N = "blocks_of s" and ?bi = "sq_index s"
  have pok: "producer_ok nt g ?N (sq_tail s) ?bi (P_CLEAR e b)" using D(3) pc by (simp add: index_inv_def)
  have priv: "private_ok nt (sq_blocks s) (P_CLEAR e b)" using D(2) pc by (simp add: store_inv_def)
  have hs: "headers_ok g ?N ?N ?bi" using D(8) pc by simp
  have e: "e = gh_entry g ?N" and K: "gh_keyed g = ?N + 1" using pok by simp_all
  note ce = clear_entry [OF hs D(5) K, folded e]
  have cl: "cleared g ?N (set_value e None ?bi)" using e by (simp add: cleared_def)
  show ?thesis using pok priv ce cl stays_value(2) [of "set_value e None ?bi" ?bi ?N g]
    by (intro index_step_keeps [OF inv s']) (auto simp: pc s' nblocks_def split: option.splits)
qed

section \<open>The block is published\<close>

lemma content_app: "j < length ps \<Longrightarrow> content (ps @ xs) X j = content ps X j"
  by (simp add: content_def nth_append)

text \<open>The indices from the tail on have been claimed by nobody.\<close>

lemma above_head:
  assumes "sq_inv nt todo s g L W M X" "sq_tail s \<le> j"
  shows "j \<notin> M" "j \<notin> X"
proof -
  note D = sq_invD [OF assms(1)]
  have "sq_head s \<le> j" using head_le [OF D(1)] assms(2) by simp
  then show "j \<notin> M" "j \<notin> X" using claim_invD(6) [OF D(10)] claim_inv_moved(2) [OF D(10)] by auto
qed

lemma pending_block:
  assumes "sq_inv nt todo s g L W M X" "j \<in> pend (pcs_of s i)"
  shows "32 * (j div 32) < sq_tail s"
  using claim_held(3) [OF sq_invD(1,2) [OF assms(1)] assms(2)] by linarith

lemma block_ok_own:
  assumes inv: "sq_inv nt todo s g L W M X" and T: "sq_tail s \<le> 32 * N"
  shows "block_ok (own_block N b g) M (pcs_of s i)"
proof -
  note D = sq_invD [OF inv]
  have ne: "dc_start q div 32 \<noteq> N" if "part_ok (sq_head s) q" for q
    using part_span(2-4) [OF that] that head_le [OF D(1)] T by (auto simp: part_ok_def)
  show ?thesis using D(11,12) [of i] ne by (cases "pcs_of s i") auto
qed

lemma publish_keeps:
  assumes inv: "sq_inv nt todo s g L W M X" and pc: "sq_producer s = P_PUBLISH x e b"
    and s': "s' = produce (if nt then P_CONSTRUCT x else P_STORE x) (s\<lparr>sq_index := set_value e (Some b) (sq_index s), sq_tailBlock := Some b\<rparr>)"
  shows "\<exists>g'. sq_inv nt todo s' g' L W M X"
proof -
  note D = sq_invD [OF inv]
  let ?N = "blocks_of s" and ?bi = "sq_index s" and ?pc = "if nt then P_CONSTRUCT x else P_STORE x"
  let ?g = "own_block ?N b g" and ?bi' = "set_value e (Some b) (sq_index s)"
  have pok: "producer_ok nt g ?N (sq_tail s) ?bi (P_PUBLISH x e b)" using D(3) pc by (simp add: index_inv_def)
  have priv: "private_ok nt (sq_blocks s) (P_PUBLISH x e b)" using D(2) pc by (simp add: store_inv_def)
  have T: "sq_tail s mod 32 = 0" and e: "e = gh_entry g ?N" and K: "gh_keyed g = ?N + 1" using pok by simp_all
  have N: "?N = sq_tail s div 32" "32 * ?N = sq_tail s" "blocks_of s' = ?N + 1"
    using nblocks_simps(1,4) [OF T] by (simp_all add: s' pc nblocks_def)
  have new: "?N \<notin> gh_unlinked g" "?N \<notin> gh_released g" using D(15) by (auto simp: content_inv_def)
  have res: "reserved (sq_producer s) = {b}" "reserved ?pc = {}" "building (sq_producer s) = []" using pc by simp_all
  have b: "b \<notin> owned g ?N" using D(14) unfolding owner_inv_def res by blast
  have hs: "headers_ok g ?N (?N + 1) ?bi" using D(8) pc by simp
  note pb = publish_block [OF hs D(5) K, of b, folded e]
  have set: "{..<?N + 1} - gh_released g = insert ?N ({..<?N} - gh_released g)" using new by auto
  have img: "gh_block ?g ` ({..<?N} - gh_released g) = owned g ?N" by (auto simp: owned_def)
  have own: "owned ?g (?N + 1) = insert b (owned g ?N)" unfolding owned_def [of ?g] own_block_simps(10) set image_insert img by simp
  have "inj_on (gh_block ?g) ({..<?N} - gh_released g) = inj_on (gh_block g) ({..<?N} - gh_released g)" by (rule inj_on_cong) simp
  then have inj: "inj_on (gh_block ?g) ({..<?N + 1} - gh_released g)"
    unfolding set inj_on_insert using img b D(14) by (simp add: owner_inv_def)
  have owner: "owner_inv s' ?g (?N + 1)" using D(14) inj unfolding owner_inv_def own s' by (simp add: res)
  have cnt: "content_inv (sq_blocks s) (sq_pushed s @ building ?pc) ?g (?N + 1) M X"
  proof -
    have M: "M \<inter> span ?N = {}" using above_head(1) [OF inv] N(2) by (auto simp: span_def)
    have "content (sq_pushed s @ building ?pc) X (32 * ?N + k) = (if k = 0 \<and> \<not> nt then Some x else None)" if "k < 32" for k
      using above_head(2) [OF inv, of "32 * ?N + k"] N(2) D(4) by (auto simp: content_def not_le) (metis nth_append_length)
    moreover have "content (sq_pushed s @ building ?pc) X (32 * c + k) = content (sq_pushed s) X (32 * c + k)" if "c < ?N" "k < 32" for c k
      using that N(2) D(4) by (intro content_app) simp
    ultimately show ?thesis using D(15) M priv by (auto simp: content_inv_def res(3) less_Suc_eq)
  qed
  have "closing_inv ?g (?N + 1) M (pcs_of s)"
  proof -
    have "\<not> span ?N \<subseteq> M" using above_head(1) [OF inv, of "32 * ?N"] N(2) span_props(3) [of ?N] by auto
    then show ?thesis using D(16) block_ok_own [OF inv, of ?N b] N(2) by (auto simp: closing_inv_def less_Suc_eq)
  qed
  moreover have "tail_ok (Some b) ?g (sq_tail s) ?pc" using N(1) by simp
  ultimately have "store_inv nt s' ?g M X (pcs_of s)" using cnt owner unfolding store_inv_def N(3) by (simp add: s')
  moreover have "index_inv nt s' ?g (pcs_of s)"
    using pb K readers_stay [OF inv stays_value(1), of ?bi'] unfolding index_inv_def N(3) by (simp add: s')
  moreover have "subseq (sq_pushed s @ [x] @ sq_todo s) todo" using inv pc by (simp add: sq_inv_def history_inv_def)
  ultimately have "sq_inv nt todo s' ?g L W M X" using D(4) by (intro sq_inv_produce [OF inv, where xs = "[]"]) (simp_all add: s')
  then show ?thesis by blast
qed

text \<open>The place of the next element is empty.\<close>

lemma next_place:
  assumes inv: "sq_inv nt todo s g L W M X" and pc: "sq_producer s = P_CONSTRUCT x"
  shows "sq_tailBlock s = Some (gh_block g (sq_tail s div 32))" "sq_tail s div 32 < blocks_of s" "sq_tail s div 32 \<notin> gh_released g"
    "get_slot (gh_block g (sq_tail s div 32)) (sq_tail s) s = None"
proof -
  note D = sq_invD [OF inv]
  let ?T = "sq_tail s"
  show "sq_tailBlock s = Some (gh_block g (?T div 32))" using D(2) pc by (simp add: store_inv_def)
  show N: "?T div 32 < blocks_of s" by (simp add: pc nblocks_def)
  have "?T div 32 \<notin> gh_unlinked g" using D(15) above_head(1) [OF inv order.refl] span_index [of ?T] by (auto simp: content_inv_def)
  then show rel: "?T div 32 \<notin> gh_released g" using D(15) by (auto simp: content_inv_def)
  have "content (sq_pushed s) X (32 * (?T div 32) + ?T mod 32) = None" using D(4) by (simp add: content_def)
  then show "get_slot (gh_block g (?T div 32)) ?T s = None"
    using D(15) N rel by (simp add: content_inv_def get_slot_def slot_of_def pc)
qed

lemma construct_keeps:
  assumes inv: "sq_inv nt todo s g L W M X" and pc: "sq_producer s = P_CONSTRUCT x"
    and s': "s' = produce (P_STORE x) (construct (gh_block g (sq_tail s div 32)) (sq_tail s) x s)"
  shows "sq_inv nt todo s' g L W M X"
proof -
  note D = sq_invD [OF inv] and np = next_place [OF inv pc]
  let ?T = "sq_tail s" and ?N = "blocks_of s" and ?c = "gh_block g (sq_tail s div 32)"
  let ?bl = "(sq_blocks s)(?c := (sq_blocks s ?c)\<lparr>qb_slots := (qb_slots (sq_blocks s ?c))(?T mod 32 := Some x)\<rparr>)"
  have eq: "s' = s\<lparr>sq_producer := P_STORE x, sq_blocks := ?bl\<rparr>" using np(4) by (simp add: s' construct_def put_slot_def produce_def slot_of_def)
  have N: "blocks_of s' = ?N" by (simp add: eq pc nblocks_def)
  have inj: "inj_on (gh_block g) ({..<?N} - gh_released g)" using D(14) by (simp add: owner_inv_def)
  have "qb_dequeued (?bl (gh_block g c)) = qb_dequeued (sq_blocks s (gh_block g c))
      \<and> (\<forall>k < 32. qb_slots (?bl (gh_block g c)) k = content (sq_pushed s @ [x]) X (32 * c + k))"
    if c: "c < ?N" "c \<notin> gh_released g" for c
  proof -
    have old: "qb_slots (sq_blocks s (gh_block g c)) k = content (sq_pushed s) X (32 * c + k)" if "k < 32" for k
      using D(15) c that by (simp add: content_inv_def pc)
    have T: "content (sq_pushed s @ [x]) X ?T = Some x" using above_head(2) [OF inv order.refl] D(4) by (auto simp: content_def) (metis nth_append_length)
    have rest: "content (sq_pushed s @ [x]) X j = content (sq_pushed s) X j" if "j \<noteq> ?T" for j
      using that D(4) by (auto simp: content_def nth_append)
    show ?thesis
    proof (cases "c = ?T div 32")
      case True
      then have "32 * c + k = ?T \<longleftrightarrow> k = ?T mod 32" for k by (metis add_left_cancel mult_div_mod_eq)
      then show ?thesis using old T rest True by auto
    next
      case False
      then have "gh_block g c \<noteq> ?c" using inj c np(2,3) by (auto simp: inj_on_def)
      moreover have "32 * c + k \<noteq> ?T" if "k < 32" for k using False that by auto
      ultimately show ?thesis using old rest by auto
    qed
  qed
  then have "content_inv ?bl (sq_pushed s @ [x]) g ?N M X" using D(15) by (simp add: content_inv_def)
  moreover have "?c \<notin> sq_free s" using owned_apart(1) [OF D(14) np(2,3)] .
  then have "owner_inv s' g ?N" using D(14) by (auto simp: owner_inv_def eq pc)
  ultimately have "store_inv nt s' g M X (pcs_of s)" using D(16) np(1) unfolding store_inv_def N by (simp add: eq)
  moreover have "index_inv nt s' g (pcs_of s)" using D(3) unfolding index_inv_def N by (simp add: eq pc)
  moreover have "subseq (sq_pushed s @ [x] @ sq_todo s) todo" using inv pc by (simp add: sq_inv_def history_inv_def)
  ultimately show ?thesis using D(4) by (intro sq_inv_produce [OF inv, where xs = "[]"]) (simp_all add: eq)
qed

lemma store_keeps:
  assumes inv: "sq_inv nt todo s g L W M X" and pc: "sq_producer s = P_STORE x"
    and s': "s' = produce P_IDLE (s\<lparr>sq_tail := sq_tail s + 1, sq_pushed := sq_pushed s @ [x]\<rparr>)"
  shows "sq_inv nt todo s' g L W M X"
proof -
  note D = sq_invD [OF inv]
  let ?T = "sq_tail s"
  have N: "blocks_of s' = blocks_of s" using nblocks_simps(3) [of ?T] by (simp add: s' pc nblocks_def)
  have K: "gh_keyed g = blocks_of s" using D(3) pc by (simp add: index_inv_def)
  have "Suc ?T div 32 = ?T div 32" if "Suc ?T mod 32 \<noteq> 0" using that by (simp add: div_Suc)
  then have "tail_ok (sq_tailBlock s) g (?T + 1) P_IDLE" using D(2) pc by (simp add: store_inv_def)
  moreover have "owner_inv s' g (blocks_of s)" using D(14) by (simp add: owner_inv_def s' pc)
  ultimately have "store_inv nt s' g M X (pcs_of s)" using D(15,16) unfolding store_inv_def N by (simp add: s' pc)
  moreover have "index_inv nt s' g (pcs_of s)" using D(3) K unfolding index_inv_def N by (simp add: s' pc cleared_def)
  moreover have "subseq (sq_pushed s @ [x] @ sq_todo s) todo" using inv pc by (simp add: sq_inv_def history_inv_def)
  ultimately show ?thesis using D(4) by (intro sq_inv_produce [OF inv, where xs = "[x]"]) (simp_all add: s')
qed

section \<open>Every step of the producer\<close>

lemma enqueue_keeps:
  assumes inv: "sq_inv nt todo s g L W M X" and act: "enqueue_act nt ok got s = Some s'"
  shows "\<exists>g'. sq_inv nt todo s' g' L W M X"
proof -
  note D = sq_invD [OF inv]
  let ?N = "blocks_of s"
  have pok: "producer_ok nt g ?N (sq_tail s) (sq_index s) (sq_producer s)" using D(3) by (simp add: index_inv_def)
  show ?thesis
  proof (cases "sq_producer s")
    case P_IDLE
    then show ?thesis using act idle_keeps [OF inv P_IDLE] by (cases "sq_todo s") (auto simp: enqueue_act_def)
  next
    case (P_HEAD x)
    have "\<not> sq_tail s < sq_head s" using head_le [OF D(1)] by simp
    then have "s' = produce P_IDLE s \<or> s' = produce (P_INSERT x) s" using act P_HEAD by (auto simp: enqueue_act_def split: if_splits)
    then show ?thesis
    proof
      assume "s' = produce P_IDLE s"
      then have "sq_inv nt todo s' g L W M X" using pok P_HEAD by (intro give_up_keeps [OF inv]) (auto simp: nblocks_def)
      then show ?thesis by blast
    next
      assume "s' = produce (P_INSERT x) s"
      then show ?thesis using head_keeps [OF inv P_HEAD] by blast
    qed
  next
    case (P_BLOCK x e)
    show ?thesis
    proof (cases got)
      case None
      then have "s' = produce (P_REWIND e None) s" using act P_BLOCK by (simp add: enqueue_act_def)
      then show ?thesis using give_back_keeps [OF inv] P_BLOCK by blast
    next
      case (Some b)
      then obtain s1 where "requisition_block b s = Some s1" "s' = produce (if nt then P_PUBLISH x e b else P_EARLY x e b) (reset_empty b s1)"
        using act P_BLOCK by (auto simp: enqueue_act_def split: option.splits)
      then show ?thesis using got_block_keeps [OF inv P_BLOCK] by blast
    qed
  next
    case (P_EARLY x e b)
    show ?thesis
    proof (cases ok)
      case True
      then have "s' = produce (P_PUBLISH x e b) (construct b (sq_tail s) x s)" using act P_EARLY by (simp add: enqueue_act_def)
      then show ?thesis using construct_early_keeps [OF inv P_EARLY] by blast
    next
      case False
      then have "s' = produce (P_REWIND e (Some b)) s" using act P_EARLY by (simp add: enqueue_act_def)
      then show ?thesis using give_back_keeps [OF inv] P_EARLY by blast
    qed
  next
    case (P_PUBLISH x e b)
    then show ?thesis using act publish_keeps [OF inv P_PUBLISH] by (simp add: enqueue_act_def)
  next
    case (P_CONSTRUCT x)
    show ?thesis
    proof (cases "\<not> ok \<and> \<not> nt")
      case True
      then have s': "s' = produce P_IDLE s" using act P_CONSTRUCT by (simp add: enqueue_act_def)
      have T: "sq_tail s mod 32 \<noteq> 0" "gh_keyed g = ?N" using pok P_CONSTRUCT True by simp_all
      then have "sq_inv nt todo s' g L W M X"
        using nblocks_simps(2) [OF T(1)] P_CONSTRUCT by (intro give_up_keeps [OF inv s']) (auto simp: s' nblocks_def cleared_def)
      then show ?thesis by blast
    next
      case False
      then have "s' = produce (P_STORE x) (construct (gh_block g (sq_tail s div 32)) (sq_tail s) x s)"
        using act next_place(1) [OF inv P_CONSTRUCT] P_CONSTRUCT by (auto simp: enqueue_act_def)
      then show ?thesis using construct_keeps [OF inv P_CONSTRUCT] by blast
    qed
  next
    case (P_STORE x)
    then have "s' = produce P_IDLE (s\<lparr>sq_tail := sq_tail s + 1, sq_pushed := sq_pushed s @ [x]\<rparr>)" using act by (simp add: enqueue_act_def)
    then show ?thesis using store_keeps [OF inv P_STORE] by blast
  next
    case (P_REWIND e b)
    then show ?thesis using act rewind_keeps [OF inv P_REWIND] by (simp add: enqueue_act_def)
  next
    case (P_CLEAR e b)
    then have "s' = produce (case b of None \<Rightarrow> P_IDLE | Some b \<Rightarrow> P_RELEASE b) (s\<lparr>sq_index := set_value e None (sq_index s)\<rparr>)"
      using act by (simp add: enqueue_act_def)
    then show ?thesis using clear_keeps [OF inv P_CLEAR] by blast
  next
    case (P_RELEASE b)
    then have "s' = produce P_IDLE (add_block_to_free_list b s)" using act by (simp add: enqueue_act_def)
    then show ?thesis using release_keeps [OF inv P_RELEASE] by blast
  qed (use act insert_entry_keeps [OF inv] in \<open>simp_all add: enqueue_act_def\<close>)
qed

section \<open>The other steps\<close>

lemma call_keeps:
  fixes s :: "'a subqueue"
  assumes inv: "sq_inv nt todo s g L W M X" and pc: "pcs_of s i = D_RET f n" and call: "\<And>m. call = D_dequeue_bulk m \<Longrightarrow> 0 < m"
  shows "sq_inv nt todo (set_consumer i (s, start_call call)) g L W M X"
proof -
  note D = sq_invD [OF inv]
  have hist: "history_inv todo s X" using inv by (simp add: sq_inv_def)
  have ok: "call_ok (start_call call :: 'a consumer)" using call by (cases call) (auto simp: call_ok_def start_call_def)
  have new: "cn_pc (start_call call) = D_TAIL" "cn_got (start_call call) = []" by (simp_all add: start_call_def)
  let ?pcs = "(pcs_of s)(i := D_TAIL)"
  have tick: "ticket_inv (sq_tail s) (sq_optimistic s) (sq_overcommit s) (sq_head s) ?pcs L W"
    using ticket_inv_update [of _ _ _ _ "pcs_of s" L W D_TAIL i] D(1) pc by (simp add: account_inv_def)
  have claim: "claim_inv (sq_head s) ?pcs M X" using claim_inv_update [OF D(10), of D_TAIL i] pc by simp
  have calls: "call_ok (((sq_consumers s)(i := start_call call)) j)" for j using D(1) ok by (simp add: account_inv_def)
  have "history_inv todo (set_consumer i (s, start_call call)) X"
    by (rule history_set_consumer [OF hist]) (use hist in \<open>simp_all add: new history_inv_def\<close>)
  moreover have "index_inv nt s g ?pcs" using index_inv_reader [OF D(3)] by simp
  moreover have "store_inv nt s g M X ?pcs" using store_inv_quiet [OF D(2), of D_TAIL i] pc by simp
  ultimately show ?thesis using D(13) tick claim calls by (intro sq_inv_set_consumer) (simp_all add: new)
qed

lemma private_ok_other: "b \<notin> reserved pc \<Longrightarrow> private_ok nt blocks pc \<Longrightarrow> \<forall>c. c \<noteq> b \<longrightarrow> blocks' c = blocks c \<Longrightarrow> private_ok nt blocks' pc"
  using private_ok_blocks by metis

text \<open>Other sub-queues take blocks and give them back.\<close>

lemma take_keeps:
  assumes inv: "sq_inv nt todo s g L W M X" and req: "requisition_block b s = Some s1"
  shows "sq_inv nt todo (s1\<lparr>sq_foreign := insert b (sq_foreign s1)\<rparr>) g L W M X"
proof -
  note D = sq_invD [OF inv] and R = requisition [OF sq_invD(14) [OF inv] req]
  obtain fr fs bl where s1: "s1 = s\<lparr>sq_free := fr, sq_fresh := fs, sq_blocks := bl\<rparr>" using R(8) by blast
  let ?s = "s1\<lparr>sq_foreign := insert b (sq_foreign s1)\<rparr>"
  have eq: "?s = s\<lparr>sq_producer := sq_producer s, sq_free := fr, sq_fresh := fs, sq_foreign := insert b (sq_foreign s), sq_blocks := bl\<rparr>" by (simp add: s1)
  have bl: "\<forall>c. c \<noteq> b \<longrightarrow> bl c = sq_blocks s c" using R(6) by (simp add: s1)
  have "private_ok nt bl (sq_producer s)" using private_ok_other [OF R(9) _ bl] D(2) by (simp add: store_inv_def)
  moreover have "owner_inv ?s g (blocks_of s)"
  proof -
    have fr: "fr = sq_free s - {b}" and fs: "{..<fs} = insert b {..<sq_fresh s}" using R(1,5) by (simp_all add: s1)
    note own = D(14) [unfolded owner_inv_def]
    have "(owned g (blocks_of s) \<union> reserved (sq_producer s)) \<inter> (fr \<union> insert b (sq_foreign s)) = {}" using own fr R(2,9) by blast
    moreover have "fr \<inter> insert b (sq_foreign s) = {}" using own fr by blast
    moreover have "owned g (blocks_of s) \<union> reserved (sq_producer s) \<union> sq_free s \<union> sq_foreign s = {..<sq_fresh s}" using own by simp
    then have "owned g (blocks_of s) \<union> reserved (sq_producer s) \<union> fr \<union> insert b (sq_foreign s) = {..<fs}" unfolding fs fr by blast
    moreover have "\<forall>c \<in> fr. empty_slots (bl c)" using own fr bl by simp
    ultimately show ?thesis using own unfolding owner_inv_def eq by simp
  qed
  ultimately show ?thesis using bl R(2) D(2,3) by (intro private_keeps [OF inv eq]) (auto simp: index_inv_def store_inv_def)
qed

lemma give_keeps:
  assumes inv: "sq_inv nt todo s g L W M X" and b: "b \<in> sq_foreign s"
  shows "sq_inv nt todo (s\<lparr>sq_foreign := sq_foreign s - {b}, sq_free := insert b (sq_free s),
      sq_blocks := (sq_blocks s)(b := \<lparr>qb_slots = \<lambda>_. None, qb_dequeued = n\<rparr>)\<rparr>) g L W M X"
proof -
  note D = sq_invD [OF inv]
  let ?bl = "(sq_blocks s)(b := \<lparr>qb_slots = \<lambda>_. None, qb_dequeued = n\<rparr>)"
  let ?s = "s\<lparr>sq_foreign := sq_foreign s - {b}, sq_free := insert b (sq_free s), sq_blocks := ?bl\<rparr>"
  have apart: "b \<notin> owned g (blocks_of s)" "b \<notin> reserved (sq_producer s)" "b \<notin> sq_free s" "b < sq_fresh s"
    using D(14) b unfolding owner_inv_def by blast+
  have eq: "?s = s\<lparr>sq_producer := sq_producer s, sq_free := insert b (sq_free s), sq_fresh := sq_fresh s, sq_foreign := sq_foreign s - {b}, sq_blocks := ?bl\<rparr>"
    by simp
  have "private_ok nt ?bl (sq_producer s)" using private_ok_other [OF apart(2), of nt "sq_blocks s" ?bl] D(2) by (simp add: store_inv_def)
  moreover have "owner_inv ?s g (blocks_of s)" using D(14) apart unfolding owner_inv_def by (auto simp: empty_slots_def)
  ultimately show ?thesis using apart D(2,3) by (intro private_keeps [OF inv eq]) (auto simp: index_inv_def store_inv_def)
qed

lemma initial_inv: "sq_inv nt todo (new_subqueue ok junk pool todo) no_ghost {} {} {} {}"
proof -
  let ?s = "new_subqueue ok junk pool todo"
  have pcs: "pcs_of ?s = (\<lambda>i. D_RET 0 0)" by (simp add: new_subqueue_def)
  have N: "blocks_of ?s = 0" by (simp add: new_subqueue_def nblocks_def)
  have "account_inv ?s {} {} {} {}"
    by (simp add: account_inv_def pcs ticket_inv_def claim_inv_def) (simp add: new_subqueue_def call_ok_def)
  moreover have "history_inv todo ?s {}" by (simp add: history_inv_def new_subqueue_def out_ok_def)
  moreover have "index_inv nt ?s no_ghost (pcs_of ?s)"
    unfolding index_inv_def N pcs using initial_index by (simp add: new_subqueue_def cleared_def) (simp add: no_ghost_def)
  moreover have "store_inv nt ?s no_ghost {} {} (pcs_of ?s)"
    unfolding store_inv_def N pcs
    by (simp add: new_subqueue_def content_inv_def owner_inv_def owned_def closing_inv_def empty_slots_def new_block_def) (simp add: no_ghost_def)
  ultimately show ?thesis by (simp add: sq_inv_def) (simp add: new_subqueue_def)
qed

section \<open>Runs\<close>

text \<open>A bulk dequeue that may ask for no element at all is excluded.\<close>

definition bulk_positive :: "(deq_call \<Rightarrow> bool) \<Rightarrow> bool" where
  "bulk_positive allowed \<longleftrightarrow> \<not> allowed (D_dequeue_bulk 0)"

lemma step_keeps:
  assumes "sq_step nt allowed s s'" "bulk_positive allowed" "sq_inv nt todo s g L W M X"
  shows "\<exists>g' L' W' M' X'. sq_inv nt todo s' g' L' W' M' X'"
  using assms(1)
proof cases
  case (sq_enqueue ok got)
  then show ?thesis using enqueue_keeps [OF assms(3)] by blast
next
  case (sq_consume i r)
  then show ?thesis using consumer_keeps [OF assms(3), of i "fst r" "snd r"] by simp
next
  case (sq_call i f n call)
  have "0 < m" if "call = D_dequeue_bulk m" for m using sq_call(3) that assms(2) by (auto simp: bulk_positive_def intro: gr0I)
  then show ?thesis using call_keeps [OF assms(3) sq_call(2)] sq_call(1) by blast
next
  case (sq_take b s1)
  then show ?thesis using take_keeps [OF assms(3)] requisition(8) [OF sq_invD(14) [OF assms(3)]] by fastforce
next
  case (sq_give b n)
  then show ?thesis using give_keeps [OF assms(3)] by blast
qed

lemma reach_inv:
  assumes "sq_reach nt allowed todo s" "bulk_positive allowed"
  obtains g L W M X where "sq_inv nt todo s g L W M X"
proof -
  have "\<exists>g L W M X. sq_inv nt todo s g L W M X" using assms
  proof (induction rule: sq_reach.induct)
    case (sq_init ok junk pool)
    then show ?case using initial_inv by blast
  next
    case (sq_next s s')
    then obtain g L W M X where "sq_inv nt todo s g L W M X" by blast
    from step_keeps [OF sq_next.hyps(2) sq_next.prems this] show ?case .
  qed
  then show thesis using that by blast
qed

end
