(* ===== verification/SubQueueRuns.thy ===== *)
theory SubQueueRuns
  imports SubQueueBlocks "HOL-Library.Multiset"
begin

text \<open>
  What the invariant of a sub-queue gives its callers: no run meets a fault, every element is handed out
  once, a dequeue ends after a bounded number of its own steps, and one that runs alone takes the oldest
  elements.
\<close>

section \<open>The number of steps of a call\<close>

fun call_max :: "deq_call \<Rightarrow> nat" where
  "call_max D_dequeue = 1"
| "call_max (D_dequeue_bulk m) = m"

text \<open>A bound on the steps that are left of a call that asks for at most \<open>k\<close> elements.\<close>

fun deq_steps :: "nat \<Rightarrow> deq_pc \<Rightarrow> nat" where
  "deq_steps k D_TAIL = 6 * k + 10"
| "deq_steps k (D_OVER t) = 6 * k + 9"
| "deq_steps k (D_OPT t v) = 6 * k + 8"
| "deq_steps k (D_TICKET v n) = 6 * n + 7"
| "deq_steps k (D_LOAD v n my) = 6 * n + 6"
| "deq_steps k (D_EXCESS my n a) = 6 * a + 5"
| "deq_steps k (D_LOSE my n) = 1"
| "deq_steps k (D_HEAD my n) = 6 * n + 4"
| "deq_steps k (D_INDEX f l) = 6 * (l - f) + 3"
| "deq_steps k (D_SLOT f l h) = 6 * (l - f) + 2"
| "deq_steps k (D_KEY f l h p) = 6 * (l - f) + 1"
| "deq_steps k (D_VALUE q) = 6 * (dc_end q - dc_index q)"
| "deq_steps k (D_MOVE q) = 6 * (dc_end q - dc_stop q) + (dc_stop q - dc_index q) + 4"
| "deq_steps k (D_EMPTY q) = 6 * (dc_end q - dc_stop q) + 3"
| "deq_steps k (D_UNLINK q) = 6 * (dc_end q - dc_stop q) + 2"
| "deq_steps k (D_FREE q) = 6 * (dc_end q - dc_stop q) + 1"
| "deq_steps k (D_RET f n) = 0"

definition steps_left :: "'a consumer \<Rightarrow> nat" where
  "steps_left c = deq_steps (call_max (cn_call c)) (cn_pc c)"

lemma next_block_steps: "dc_index q = dc_stop q \<Longrightarrow> deq_steps k (next_block s q) = 6 * (dc_end q - dc_stop q)"
  by (simp add: next_block_def)

lemma drain_step_less:
  assumes "drain_step s c s' c'" "claim_ok H (cn_pc c)" "cn_call c' = cn_call c"
  shows "steps_left c' < steps_left c"
  using assms(1)
proof cases
  case (dr_move q x)
  then have "dc_index q < dc_stop q" using assms(2) by simp
  then show ?thesis using dr_move assms(3) by (simp add: steps_left_def at_def)
next
  case (dr_value q b)
  then show ?thesis using assms(2,3) by (auto simp: steps_left_def at_def opened_def)
qed (use assms(2,3) in \<open>auto simp: steps_left_def at_def found_def part_ok_def next_block_steps\<close>)

lemma admission_less:
  assumes "consumer_act s c = Some (s', c')" "call_ok c" "admission (cn_pc c)"
  shows "steps_left c' < steps_left c"
  using assms
  by (cases "cn_pc c"; cases "cn_call c")
    (auto simp: steps_left_def consumer_act_def dequeue_act_def dequeue_bulk_act_def drain_act_def release_act_def lookup_act_def
      at_def call_ok_def Let_def split: if_splits)

lemma never_stuck: "call_ok c \<Longrightarrow> consumer_act s c = None \<longleftrightarrow> (\<exists>f n. cn_pc c = D_RET f n)"
  by (cases "cn_pc c"; cases "cn_call c")
    (auto simp: consumer_act_def dequeue_act_def dequeue_bulk_act_def drain_act_def release_act_def lookup_act_def Let_def call_ok_def
      split: option.splits if_splits)

lemma consumer_step_less:
  assumes inv: "sq_inv nt todo s g L W M X" and act: "consumer_act s (sq_consumers s i) = Some (s', c')"
  shows "steps_left c' < steps_left (sq_consumers s i)"
proof -
  note D = sq_invD [OF inv]
  have call: "call_ok (sq_consumers s i)" using D(1) by (simp add: account_inv_def)
  show ?thesis using act call
  proof (cases rule: consumer_actE)
    case admit
    then show ?thesis using admission_less [OF act call] by simp
  next
    case (head my n)
    then show ?thesis using admission_less [OF act call] by simp
  next
    case drain
    show ?thesis
      using drain_step_less [OF drain_act_step [OF drain no_drain_fault [OF inv]] D(11) drain_frame(8) [OF drain]] .
  qed
qed

section \<open>A dequeue on its own\<close>

text \<open>Thread \<open>i\<close> runs for \<open>n\<close> steps, or until its call has returned.\<close>

fun run_consumer :: "nat \<Rightarrow> nat \<Rightarrow> 'a subqueue \<Rightarrow> 'a subqueue" where
  "run_consumer 0 i s = s"
| "run_consumer (Suc n) i s = (case consumer_act s (sq_consumers s i) of None \<Rightarrow> s | Some r \<Rightarrow> run_consumer n i (set_consumer i r))"

text \<open>What a dequeue knows that no other one interferes with, when it began with \<open>h\<close> elements taken of \<open>T\<close>.\<close>

fun undisturbed :: "nat \<Rightarrow> nat \<Rightarrow> nat \<Rightarrow> 'a subqueue \<Rightarrow> deq_pc \<Rightarrow> bool" where
  "undisturbed h T k s D_TAIL \<longleftrightarrow> sq_head s = h \<and> sq_optimistic s = sq_overcommit s + h"
| "undisturbed h T k s (D_OVER t) \<longleftrightarrow> sq_head s = h \<and> sq_optimistic s = sq_overcommit s + h \<and> t = T"
| "undisturbed h T k s (D_OPT t v) \<longleftrightarrow> sq_head s = h \<and> sq_optimistic s = sq_overcommit s + h \<and> t = T \<and> v = sq_overcommit s"
| "undisturbed h T k s (D_TICKET v n) \<longleftrightarrow> sq_head s = h \<and> sq_optimistic s = v + h \<and> h < T \<and> n = min k (T - h)"
| "undisturbed h T k s (D_LOAD v n my) \<longleftrightarrow> sq_head s = h \<and> my = v + h \<and> h < T \<and> n = min k (T - h)"
| "undisturbed h T k s (D_EXCESS my n a) \<longleftrightarrow> False"
| "undisturbed h T k s (D_LOSE my n) \<longleftrightarrow> False"
| "undisturbed h T k s (D_HEAD my n) \<longleftrightarrow> sq_head s = h \<and> n = min k (T - h)"
| "undisturbed h T k s (D_INDEX f l) \<longleftrightarrow> f = h \<and> l = h + min k (T - h)"
| "undisturbed h T k s (D_SLOT f l hr) \<longleftrightarrow> f = h \<and> l = h + min k (T - h)"
| "undisturbed h T k s (D_KEY f l hr p) \<longleftrightarrow> f = h \<and> l = h + min k (T - h)"
| "undisturbed h T k s (D_RET f n) \<longleftrightarrow> n = min k (T - h) \<and> (0 < n \<longrightarrow> f = h)"
| "undisturbed h T k s (D_VALUE q) \<longleftrightarrow> dc_first q = h \<and> dc_end q = h + min k (T - h)"
| "undisturbed h T k s (D_MOVE q) \<longleftrightarrow> dc_first q = h \<and> dc_end q = h + min k (T - h)"
| "undisturbed h T k s (D_EMPTY q) \<longleftrightarrow> dc_first q = h \<and> dc_end q = h + min k (T - h)"
| "undisturbed h T k s (D_UNLINK q) \<longleftrightarrow> dc_first q = h \<and> dc_end q = h + min k (T - h)"
| "undisturbed h T k s (D_FREE q) \<longleftrightarrow> dc_first q = h \<and> dc_end q = h + min k (T - h)"

lemma next_block_undisturbed:
  "dc_first q = h \<Longrightarrow> dc_end q = h + min k (T - h) \<Longrightarrow> undisturbed h T k s (next_block s' q)"
  by (simp add: next_block_def)

lemma drain_undisturbed:
  assumes "drain_step s c s' c'" "undisturbed h T k s (cn_pc c)"
  shows "undisturbed h T k s'' (cn_pc c')"
  using assms
  by (cases rule: drain_step.cases) (simp_all add: at_def found_def opened_def next_block_undisturbed)

lemma admission_undisturbed:
  assumes "consumer_act s c = Some (s', c')" "call_ok c" "admission (cn_pc c)" "undisturbed h (sq_tail s) (call_max (cn_call c)) s (cn_pc c)"
  shows "undisturbed h (sq_tail s) (call_max (cn_call c)) (set_consumer i (s', c')) (cn_pc c') \<and> cn_call c' = cn_call c \<and> sq_tail s' = sq_tail s"
  using assms
  by (cases "cn_pc c"; cases "cn_call c")
    (auto simp: consumer_act_def dequeue_act_def dequeue_bulk_act_def drain_act_def release_act_def lookup_act_def
      at_def call_ok_def Let_def split: if_splits)

lemma undisturbed_step:
  assumes inv: "sq_inv nt todo s g L W M X" and act: "consumer_act s (sq_consumers s i) = Some (s', c')"
    and al: "undisturbed h (sq_tail s) (call_max (cn_call (sq_consumers s i))) s (pcs_of s i)"
  shows "undisturbed h (sq_tail s) (call_max (cn_call (sq_consumers s i))) (set_consumer i (s', c')) (cn_pc c')
    \<and> cn_call c' = cn_call (sq_consumers s i) \<and> sq_tail s' = sq_tail s"
proof -
  note D = sq_invD [OF inv]
  have call: "call_ok (sq_consumers s i)" using D(1) by (simp add: account_inv_def)
  show ?thesis using act call
  proof (cases rule: consumer_actE)
    case admit
    then show ?thesis using admission_undisturbed [OF act call] al by simp
  next
    case (head my n)
    then show ?thesis using admission_undisturbed [OF act call] al by simp
  next
    case drain
    show ?thesis
      using drain_undisturbed [OF drain_act_step [OF drain no_drain_fault [OF inv]] al] drain_frame(1,8) [OF drain] by simp
  qed
qed

lemma consumer_pushed:
  assumes inv: "sq_inv nt todo s g L W M X" and act: "consumer_act s (sq_consumers s i) = Some (s', c')"
  shows "sq_pushed s' = sq_pushed s"
proof -
  have call: "call_ok (sq_consumers s i)" using sq_invD(1) [OF inv] by (simp add: account_inv_def)
  show ?thesis using act call
  proof (cases rule: consumer_actE)
    case admit
    show ?thesis by (subst admit(4)) simp
  next
    case drain
    show ?thesis using drain_act_step [OF drain no_drain_fault [OF inv]]
      by (cases rule: drain_step.cases) (simp_all add: put_slot_def set_many_empty_def add_block_to_free_list_def)
  qed simp
qed

lemma undisturbed_returned:
  assumes inv: "sq_inv nt todo s g L W M X" and pc: "pcs_of s i = D_RET f k" and al: "undisturbed h T c s (pcs_of s i)"
  shows "k = min c (T - h) \<and> cn_got (sq_consumers s i) = take k (drop h (sq_pushed s))"
proof -
  note D = sq_invD [OF inv]
  have "got_ok (sq_pushed s) (pcs_of s i) (cn_got (sq_consumers s i))" using inv by (simp add: sq_inv_def history_inv_def)
  moreover have "f + k \<le> length (sq_pushed s)" using D(11) [of i] head_le [OF D(1)] D(4) pc by simp
  ultimately show ?thesis using al pc by (cases "k = 0") (auto simp: slice_take_drop)
qed

lemma run_undisturbed:
  assumes "sq_inv nt todo s g L W M X" "steps_left (sq_consumers s i) \<le> n"
    "undisturbed h (sq_tail s) (call_max (cn_call (sq_consumers s i))) s (pcs_of s i)"
  shows "\<exists>f k. cn_pc (sq_consumers (run_consumer n i s) i) = D_RET f k \<and> k = min (call_max (cn_call (sq_consumers s i))) (sq_tail s - h)
    \<and> cn_got (sq_consumers (run_consumer n i s) i) = take k (drop h (sq_pushed s))"
  using assms
proof (induction n arbitrary: s g L W M X)
  case 0
  then have "\<exists>f k. pcs_of s i = D_RET f k"
    using sq_invD(11) [OF 0(1), of i] by (cases "pcs_of s i") (auto simp: steps_left_def)
  then show ?case using undisturbed_returned [OF 0(1) _ 0(3)] by auto
next
  case (Suc n)
  let ?c = "sq_consumers s i"
  show ?case
  proof (cases "consumer_act s ?c")
    case None
    then have "\<exists>f k. pcs_of s i = D_RET f k" using never_stuck [of ?c s] sq_invD(1) [OF Suc.prems(1)] by (simp add: account_inv_def)
    then show ?thesis using undisturbed_returned [OF Suc.prems(1) _ Suc.prems(3)] None by auto
  next
    case (Some r)
    obtain s' c' where r: "r = (s', c')" by (cases r)
    note act = Some [unfolded r]
    obtain g' L' W' M' X' where inv: "sq_inv nt todo (set_consumer i (s', c')) g' L' W' M' X'"
      using consumer_keeps [OF Suc.prems(1) act] by blast
    have c: "sq_consumers (set_consumer i (s', c')) i = c'" by simp
    have "steps_left c' \<le> n" using consumer_step_less [OF Suc.prems(1) act] Suc.prems(2) by simp
    note rest = Suc.IH [OF inv, unfolded c, OF this] and al = undisturbed_step [OF Suc.prems(1) act Suc.prems(3)]
    then show ?thesis using rest al consumer_pushed [OF Suc.prems(1) act] act by (simp add: r)
  qed
qed

section \<open>Schedules\<close>

text \<open>A run given by its steps: the producer's, with what the constructor and the allocator do, a consumer's, and a call.\<close>

datatype sq_event = E_PUSH bool "nat option" | E_STEP nat | E_CALL nat deq_call

fun sq_run :: "bool \<Rightarrow> sq_event list \<Rightarrow> 'a subqueue \<Rightarrow> 'a subqueue option" where
  "sq_run nt [] s = Some s"
| "sq_run nt (E_PUSH ok got # es) s = (case enqueue_act nt ok got s of None \<Rightarrow> None | Some s' \<Rightarrow> sq_run nt es s')"
| "sq_run nt (E_STEP i # es) s = (case consumer_act s (sq_consumers s i) of None \<Rightarrow> None | Some r \<Rightarrow> sq_run nt es (set_consumer i r))"
| "sq_run nt (E_CALL i call # es) s = (case cn_pc (sq_consumers s i) of
     D_RET f n \<Rightarrow> sq_run nt es (set_consumer i (s, start_call call)) | _ \<Rightarrow> None)"

lemma sq_run_reach:
  assumes "sq_run nt es s = Some s'" "sq_reach nt allowed todo s" "\<forall>i call. E_CALL i call \<in> set es \<longrightarrow> allowed call"
  shows "sq_reach nt allowed todo s'"
  using assms
proof (induction es arbitrary: s)
  case (Cons e es)
  have rest: "\<forall>i call. E_CALL i call \<in> set es \<longrightarrow> allowed call" using Cons.prems(3) by simp
  have step: "sq_reach nt allowed todo s'" if "sq_step nt allowed s s1" "sq_run nt es s1 = Some s'" for s1
    using Cons.IH [OF that(2) sq_next [OF Cons.prems(2) that(1)] rest] .
  show ?case
  proof (cases e)
    case (E_PUSH ok got)
    then show ?thesis using Cons.prems(1) sq_enqueue [of nt ok got s] step by (auto split: option.splits)
  next
    case (E_STEP i)
    then obtain r where r: "consumer_act s (sq_consumers s i) = Some r" "sq_run nt es (set_consumer i r) = Some s'"
      using Cons.prems(1) by (auto split: option.splits)
    show ?thesis by (rule step [OF sq_consume [OF r(1)] r(2)])
  next
    case (E_CALL i call)
    then have "allowed call" using Cons.prems(3) by auto
    from E_CALL obtain f n where r: "cn_pc (sq_consumers s i) = D_RET f n" "sq_run nt es (set_consumer i (s, start_call call)) = Some s'"
      using Cons.prems(1) by (auto split: deq_pc.splits)
    show ?thesis by (rule step [OF _ r(2)], rule sq_call, rule r(1), rule \<open>allowed call\<close>)
  qed
qed simp

text \<open>
  Three elements are enqueued, and of two threads that dequeue one takes the first, the other two in
  bulk; the steps of the two interleave.
\<close>

definition demo_queue :: "nat subqueue" where
  "demo_queue = new_subqueue True (\<lambda>_. None) 0 [7, 8, 9, 10]"

definition demo_events :: "sq_event list" where
  "demo_events = replicate 14 (E_PUSH True (Some 0)) @ E_CALL 0 D_dequeue # replicate 7 (E_STEP 0) @
     E_CALL 1 (D_dequeue_bulk 5) # replicate 14 (E_STEP 1) @ replicate 6 (E_STEP 0)"

definition demo_at :: "nat \<Rightarrow> nat subqueue" where
  "demo_at n = the (sq_run True (take n demo_events) demo_queue)"

abbreviation demo_state :: "nat subqueue" where
  "demo_state \<equiv> demo_at 43"

definition demo_allowed :: "deq_call \<Rightarrow> bool" where
  "demo_allowed call \<longleftrightarrow> call = D_dequeue \<or> call = D_dequeue_bulk 5"

lemma sq_run_append: "sq_run nt (es @ es') s = Option.bind (sq_run nt es s) (sq_run nt es')"
  by (induction nt es s rule: sq_run.induct) (auto split: option.splits deq_pc.splits)

lemma demo_run: "sq_run True (take n demo_events) demo_queue = Some (demo_at n)"
proof -
  have "sq_run True (take n demo_events @ drop n demo_events) demo_queue \<noteq> None" unfolding append_take_drop_id by code_simp
  then show ?thesis unfolding sq_run_append demo_at_def by (cases "sq_run True (take n demo_events) demo_queue") simp_all
qed

lemma demo_reach: "sq_reach True demo_allowed [7, 8, 9, 10] (demo_at n)" "bulk_positive demo_allowed"
proof -
  have "sq_reach True demo_allowed [7, 8, 9, 10] demo_queue" unfolding demo_queue_def by (rule sq_init)
  moreover have "\<forall>i call. E_CALL i call \<in> set (take n demo_events) \<longrightarrow> demo_allowed call"
    by (auto simp: demo_events_def demo_allowed_def dest!: in_set_takeD)
  ultimately show "sq_reach True demo_allowed [7, 8, 9, 10] (demo_at n)" by (rule sq_run_reach [OF demo_run])
  show "bulk_positive demo_allowed" by (simp add: bulk_positive_def demo_allowed_def)
qed

lemma demo_runs:
  "map_option (\<lambda>s. (sq_tail s, sq_head s, sq_producer s, sq_pushed s, sq_out s)) (sq_run True (take 43 demo_events) demo_queue)
    = Some (3, 3, P_IDLE, [7, 8, 9], [(1, 8), (2, 9), (0, 7)])"
  "map_option (\<lambda>s. map (\<lambda>i. (cn_pc (sq_consumers s i), cn_got (sq_consumers s i))) [0, 1]) (sq_run True (take 43 demo_events) demo_queue)
    = Some [(D_RET 0 1, [7]), (D_RET 1 2, [8, 9])]"
  "map_option (\<lambda>s. cn_pc (sq_consumers s 0)) (sq_run True (take 21 demo_events) demo_queue) = Some (D_INDEX 0 1)"
  "map_option (\<lambda>s. (sq_tail s, sq_head s, sq_pushed s)) (sq_run True (take 14 demo_events) demo_queue) = Some (3, 0, [7, 8, 9])"
  by code_simp+

lemma demo_others:
  "map_option (\<lambda>s. cn_pc (sq_consumers s (Suc (Suc i)))) (sq_run True (take 43 demo_events) demo_queue) = Some (D_RET 0 0)"
  "map_option (\<lambda>s. cn_pc (sq_consumers s i)) (sq_run True (take 14 demo_events) demo_queue) = Some (D_RET 0 0)"
  by code_simp+

lemmas demo_values = demo_runs [unfolded demo_run] demo_others [unfolded demo_run]

lemma demo_quiet: "\<exists>f n. cn_pc (sq_consumers demo_state i) = D_RET f n"
proof -
  consider "i = 0" | "i = 1" | j where "i = Suc (Suc j)" by (metis One_nat_def old.nat.exhaust)
  then show ?thesis using demo_values(2,5) by cases auto
qed

section \<open>No fault, and every element once\<close>

text \<open>
  C9. No run of a sub-queue meets a fault, in any interleaving of the thread that enqueues with any
  number of threads that dequeue: none of the assertions fails, no null pointer of the block index is
  followed, no element is constructed over another, read before it is there or destroyed twice, and no
  block is put on the free list twice. Only a bulk dequeue that asks for no element is excluded.
\<close>

theorem subqueue_no_fault:
  assumes "sq_reach nt allowed todo s" "bulk_positive allowed"
  shows "\<not> sq_fault s"
proof -
  obtain g L W M X where inv: "sq_inv nt todo s g L W M X" by (rule reach_inv [OF assms])
  show ?thesis by (rule sq_invD(13) [OF inv])
qed

lemma subqueue_no_fault_witness: "\<not> sq_fault demo_state"
  by (rule subqueue_no_fault [OF demo_reach])

lemma out_history:
  assumes inv: "sq_inv nt todo s g L W M X"
  shows "length (sq_pushed s) = sq_tail s" "distinct (map fst (sq_out s))" "\<forall>(j, x) \<in> set (sq_out s). j < sq_tail s \<and> sq_pushed s ! j = x"
    "fst ` set (sq_out s) = X" "got_ok (sq_pushed s) (pcs_of s i) (cn_got (sq_consumers s i))" "subseq (sq_pushed s) todo"
proof -
  have hist: "history_inv todo s X" using inv by (simp add: sq_inv_def)
  then show len: "length (sq_pushed s) = sq_tail s" and "got_ok (sq_pushed s) (pcs_of s i) (cn_got (sq_consumers s i))"
    and "distinct (map fst (sq_out s))" "fst ` set (sq_out s) = X" by (simp_all add: history_inv_def out_ok_def)
  show "\<forall>(j, x) \<in> set (sq_out s). j < sq_tail s \<and> sq_pushed s ! j = x" using hist len by (auto simp: history_inv_def out_ok_def)
  show "subseq (sq_pushed s) todo"
    using hist subseq_drop [of "sq_pushed s" "in_hand (sq_producer s) @ sq_todo s" "[]" todo] by (simp add: history_inv_def)
qed

lemma returned_slice:
  assumes inv: "sq_inv nt todo s g L W M X" and pc: "pcs_of s i = D_RET f n"
  shows "cn_got (sq_consumers s i) = take n (drop f (sq_pushed s))" "f + n \<le> sq_head s"
proof -
  note D = sq_invD [OF inv]
  show "f + n \<le> sq_head s" using D(11) [of i] pc by simp
  then have "f + n \<le> length (sq_pushed s)" using head_le [OF D(1)] D(4) by simp
  then show "cn_got (sq_consumers s i) = take n (drop f (sq_pushed s))"
    using out_history(5) [OF inv, of i] pc by (simp add: slice_take_drop)
qed

text \<open>
  C10. The elements enqueued are the given ones in their order, without those given up for lack of memory or
  an exception. Each is moved out of its place at most once, and by a dequeue that hands
  it to its caller: a call that has returned has taken consecutive elements, in the order of the queue.
\<close>

theorem subqueue_exactly_once:
  assumes "sq_reach nt allowed todo s" "bulk_positive allowed"
  shows "length (sq_pushed s) = sq_tail s \<and> subseq (sq_pushed s) todo
    \<and> distinct (map fst (sq_out s)) \<and> (\<forall>(j, x) \<in> set (sq_out s). j < sq_tail s \<and> sq_pushed s ! j = x)
    \<and> (\<forall>i f n. cn_pc (sq_consumers s i) = D_RET f n \<longrightarrow> cn_got (sq_consumers s i) = take n (drop f (sq_pushed s)) \<and> f + n \<le> sq_head s)"
proof -
  obtain g L W M X where inv: "sq_inv nt todo s g L W M X" by (rule reach_inv [OF assms])
  show ?thesis using out_history [OF inv] returned_slice [OF inv] by blast
qed

lemma subqueue_exactly_once_witness:
  "distinct (map fst (sq_out demo_state)) \<and> cn_got (sq_consumers demo_state 1) = take 2 (drop 1 (sq_pushed demo_state))
    \<and> cn_got (sq_consumers demo_state 1) = [8, 9]"
  using subqueue_exactly_once [OF demo_reach, of 43] demo_values(2) by auto

lemma quiet_counters:
  assumes inv: "sq_inv nt todo s g L W M X" and quiet: "\<forall>i. \<exists>f n. cn_pc (sq_consumers s i) = D_RET f n"
  shows "sq_optimistic s = sq_overcommit s + sq_head s"
proof -
  have tick: "ticket_inv (sq_tail s) (sq_optimistic s) (sq_overcommit s) (sq_head s) (pcs_of s) L W"
    using sq_invD(1) [OF inv] by (simp add: account_inv_def)
  have none: "tickets (pcs_of s i) = {}" for i using spec [OF quiet, of i] by auto
  have "card (L \<union> W) = card L + card W" using ticket_inv_finite [OF tick] ticket_invD(2) [OF tick] by (intro card_Un_disjoint)
  then show ?thesis using ticket_invD(1,5,6) [OF tick] none by simp
qed

text \<open>
  C11. When all dequeues have returned, exactly the elements before \<open>headIndex\<close> have been handed out, the
  counters of the tickets are exact again, so that the test of emptiness at the start of a dequeue is, and
  \<open>size_approx\<close> is the number of the elements left.
\<close>

theorem subqueue_quiescent:
  assumes "sq_reach nt allowed todo s" "bulk_positive allowed" "\<forall>i. \<exists>f n. cn_pc (sq_consumers s i) = D_RET f n"
  shows "mset (map snd (sq_out s)) = mset (take (sq_head s) (sq_pushed s)) \<and> sq_optimistic s = sq_overcommit s + sq_head s
    \<and> subqueue_size_approx s = length (drop (sq_head s) (sq_pushed s))"
proof -
  obtain g L W M X where inv: "sq_inv nt todo s g L W M X" by (rule reach_inv [OF assms(1,2)])
  note D = sq_invD [OF inv] and H = out_history [OF inv]
  have none: "pend (pcs_of s i) = {}" "moved (pcs_of s i) = {}" for i using spec [OF assms(3), of i] by auto
  have X: "X = {..<sq_head s}" using claim_invD(1,4) [OF D(10)] none by simp
  have "mset (map fst (sq_out s)) = mset [0..<sq_head s]"
    using H(2,4) X by (intro set_eq_iff_mset_eq_distinct [THEN iffD1]) auto
  then have "image_mset (nth (sq_pushed s)) (mset (map fst (sq_out s))) = mset (map (nth (sq_pushed s)) [0..<sq_head s])" by simp
  moreover have "map snd (sq_out s) = map (nth (sq_pushed s)) (map fst (sq_out s))" using H(3) by auto
  then have "mset (map snd (sq_out s)) = image_mset (nth (sq_pushed s)) (mset (map fst (sq_out s)))" by (simp only: mset_map)
  moreover have "map (nth (sq_pushed s)) [0..<sq_head s] = take (sq_head s) (sq_pushed s)"
    using slice_take_drop [of "sq_head s" "sq_pushed s" 0] head_le [OF D(1)] D(4) by (simp add: slice_def)
  ultimately have out: "mset (map snd (sq_out s)) = mset (take (sq_head s) (sq_pushed s))" by (simp only:)
  show ?thesis using out quiet_counters [OF inv assms(3)] head_le [OF D(1)] D(4) by (simp add: subqueue_size_approx_def)
qed

lemma subqueue_quiescent_witness:
  "mset (map snd (sq_out demo_state)) = mset [7, 8, 9] \<and> subqueue_size_approx demo_state = 0"
  using subqueue_quiescent [OF demo_reach] demo_quiet demo_values(1) by simp

lemma span_below: "span b \<subseteq> {..<h} \<longleftrightarrow> b < h div 32"
proof
  assume "span b \<subseteq> {..<h}"
  then have "32 * b + 31 \<in> {..<h}" by (rule subsetD) (simp add: span_def)
  then show "b < h div 32" by simp
next
  assume "b < h div 32"
  then have "32 * b + 32 \<le> h" by linarith
  then show "span b \<subseteq> {..<h}" by (auto simp: span_def)
qed

lemma quiet_blocks:
  assumes inv: "sq_inv nt todo s g L W M X" and quiet: "\<forall>i. \<exists>f n. cn_pc (sq_consumers s i) = D_RET f n"
  shows "{..<blocks_of s} - gh_released g = {sq_head s div 32..<blocks_of s}"
proof -
  note D = sq_invD [OF inv]
  have none: "pend (pcs_of s i) = {}" "closing (pcs_of s i) = {}" for i using spec [OF quiet, of i] by auto
  have M: "M = {..<sq_head s}" using claim_invD(1) [OF D(10)] none by simp
  have "span b \<subseteq> M" if "b \<in> gh_released g" for b using D(15) that by (auto simp: content_inv_def)
  moreover have "b \<in> gh_released g" if "b < blocks_of s" "span b \<subseteq> M" for b using D(16) that none by (simp add: closing_inv_def)
  ultimately have "b \<in> gh_released g \<longleftrightarrow> b < sq_head s div 32" if "b < blocks_of s" for b using that unfolding M span_below by blast
  then show ?thesis by auto
qed

text \<open>
  C12. No block is lost. When all calls have returned, every block there is, but those on the free
  list and those that other sub-queues have taken, holds elements: the blocks in use are those from the one of
  \<open>headIndex\<close> to the one of the last element.
\<close>

theorem subqueue_no_leak:
  assumes "sq_reach nt allowed todo s" "bulk_positive allowed" "\<forall>i. \<exists>f n. cn_pc (sq_consumers s i) = D_RET f n"
    "sq_producer s = P_IDLE"
  shows "card ({..<sq_fresh s} - (sq_free s \<union> sq_foreign s)) = (sq_tail s + (BLOCK_SIZE - 1)) div BLOCK_SIZE - sq_head s div BLOCK_SIZE"
proof -
  obtain g L W M X where inv: "sq_inv nt todo s g L W M X" by (rule reach_inv [OF assms(1,2)])
  have own: "inj_on (gh_block g) ({..<blocks_of s} - gh_released g)" "owned g (blocks_of s) \<union> sq_free s \<union> sq_foreign s = {..<sq_fresh s}"
    "owned g (blocks_of s) \<inter> (sq_free s \<union> sq_foreign s) = {}" using sq_invD(14) [OF inv] assms(4) by (simp_all add: owner_inv_def)
  have "{..<sq_fresh s} - (sq_free s \<union> sq_foreign s) = owned g (blocks_of s)" using own(2,3) by blast
  also have "card \<dots> = card ({..<blocks_of s} - gh_released g)" using own(1) by (simp add: owned_def card_image)
  also have "\<dots> = blocks_of s - sq_head s div 32" unfolding quiet_blocks [OF inv assms(3)] by simp
  finally show ?thesis using assms(4) by (simp add: nblocks_def)
qed

lemma subqueue_no_leak_witness: "card ({..<sq_fresh demo_state} - (sq_free demo_state \<union> sq_foreign demo_state)) = 1"
  using subqueue_no_leak [OF demo_reach, of 43] demo_quiet demo_values(1) by simp

text \<open>
  C13. A dequeue is wait-free: whatever the other threads do, each step of its own makes progress, and
  a call takes at most \<open>6 * k + 10\<close> of them, where \<open>k\<close> is the number of elements it asks for; it is never stuck
  before it returns.
\<close>

theorem dequeue_wait_free:
  fixes s :: "'a subqueue"
  assumes "sq_reach nt allowed todo s" "bulk_positive allowed"
  shows "(consumer_act s (sq_consumers s i) = None \<longleftrightarrow> (\<exists>f n. cn_pc (sq_consumers s i) = D_RET f n))
    \<and> (\<forall>s' c'. consumer_act s (sq_consumers s i) = Some (s', c') \<longrightarrow> steps_left c' < steps_left (sq_consumers s i))
    \<and> steps_left (start_call call :: 'a consumer) = 6 * call_max call + 10"
proof -
  obtain g L W M X where inv: "sq_inv nt todo s g L W M X" by (rule reach_inv [OF assms])
  have "call_ok (sq_consumers s i)" using sq_invD(1) [OF inv] by (simp add: account_inv_def)
  then show ?thesis using never_stuck consumer_step_less [OF inv] by (simp add: steps_left_def start_call_def)
qed

lemma dequeue_wait_free_witness:
  "\<exists>s' c'. consumer_act (demo_at 21) (sq_consumers (demo_at 21) 0) = Some (s', c') \<and> steps_left c' < steps_left (sq_consumers (demo_at 21) 0)"
  using dequeue_wait_free [OF demo_reach, of 21 0 D_dequeue] demo_values(3) by force

lemma run_consumer_reach:
  assumes "sq_reach nt allowed todo s"
  shows "sq_reach nt allowed todo (run_consumer n i s)"
  using assms
proof (induction n arbitrary: s)
  case (Suc n)
  show ?case
  proof (cases "consumer_act s (sq_consumers s i)")
    case (Some r)
    then show ?thesis using Suc.IH [OF sq_next [OF Suc.prems sq_consume [OF Some]]] by simp
  qed (use Suc.prems in simp)
qed simp

text \<open>
  C14. A dequeue that begins when no other is under way and runs alone takes the oldest elements: as
  many as it asks for, or all there are. The thread that enqueues may be stopped at any point.
\<close>

theorem dequeue_alone:
  fixes s :: "'a subqueue" and i :: nat
  assumes "sq_reach nt allowed todo s" "bulk_positive allowed" "\<forall>i. \<exists>f n. cn_pc (sq_consumers s i) = D_RET f n" "allowed call"
  defines "n \<equiv> min (call_max call) (sq_tail s - sq_head s)"
    and "s' \<equiv> run_consumer (6 * call_max call + 10) i (set_consumer i (s, start_call call))"
  shows "sq_reach nt allowed todo s' \<and> (\<exists>f. cn_pc (sq_consumers s' i) = D_RET f n)
    \<and> cn_got (sq_consumers s' i) = take n (drop (sq_head s) (sq_pushed s))"
proof -
  let ?s = "set_consumer i (s, start_call call)"
  obtain f m where pc: "cn_pc (sq_consumers s i) = D_RET f m" using assms(3) by blast
  have r: "sq_reach nt allowed todo ?s" by (rule sq_next [OF assms(1)], rule sq_call, rule pc, rule assms(4))
  obtain g L W M X where inv: "sq_inv nt todo ?s g L W M X" by (rule reach_inv [OF r assms(2)])
  have c: "sq_consumers ?s i = start_call call" by simp
  have opt: "sq_optimistic s = sq_overcommit s + sq_head s"
    using reach_inv [OF assms(1,2)] quiet_counters [OF _ assms(3)] by metis
  have new: "cn_pc (start_call call :: 'a consumer) = D_TAIL" "cn_call (start_call call :: 'a consumer) = call"
    "steps_left (start_call call :: 'a consumer) = 6 * call_max call + 10" by (simp_all add: start_call_def steps_left_def)
  have "\<exists>f k. cn_pc (sq_consumers s' i) = D_RET f k \<and> k = n \<and> cn_got (sq_consumers s' i) = take k (drop (sq_head s) (sq_pushed s))"
    using run_undisturbed [OF inv, of i "6 * call_max call + 10" "sq_head s"] opt unfolding s'_def n_def by (simp add: new)
  then show ?thesis using run_consumer_reach [OF r] by (auto simp: s'_def)
qed

lemma dequeue_alone_witness:
  "cn_got (sq_consumers (run_consumer 16 1 (set_consumer 1 (demo_at 14, start_call D_dequeue))) 1) = [7]"
  using dequeue_alone [OF demo_reach, of 14 D_dequeue 1] demo_values(4,6) by (simp add: demo_allowed_def)

end
