(* ===== verification/SubQueueZero.thy ===== *)
theory SubQueueZero
  imports SubQueueRuns
begin

text \<open>
  A bulk dequeue that asks for no element is no empty operation: when another one takes the last
  element of a block meanwhile, it looks up a block that is not there.
\<close>

definition zero_events :: "sq_event list" where
  "zero_events = replicate 101 (E_PUSH True (Some 0)) @ E_CALL 0 (D_dequeue_bulk 0) # replicate 5 (E_STEP 0) @
     E_CALL 1 (D_dequeue_bulk 32) # replicate 46 (E_STEP 1) @ replicate 4 (E_STEP 0)"

lemma bulk_zero_fault: "\<exists>s. sq_reach True (\<lambda>_. True) (replicate 32 (7 :: nat)) s \<and> sq_fault s"
proof -
  let ?q = "new_subqueue True (\<lambda>_. None) 0 (replicate 32 (7 :: nat))"
  have "map_option sq_fault (sq_run True zero_events ?q) = Some True" by code_simp
  then obtain s where s: "sq_run True zero_events ?q = Some s" "sq_fault s" by auto
  have "sq_reach True (\<lambda>_. True) (replicate 32 (7 :: nat)) s" using sq_run_reach [OF s(1) sq_init] by simp
  then show ?thesis using s(2) by blast
qed

end
