(* ===== verification/FreeList.thy ===== *)
theory FreeList
  imports Prelude
begin

unbundle bit_operations_syntax

text \<open>
  The lock-free free list of the blocks (\<open>FreeList\<close> in \<open>concurrent_queue.hpp\<close>). Every access to a
  shared variable is a step of its own and the steps of the threads interleave, under sequential
  consistency. A block has a count of those that refer to it, the list among them, and a bit that says it
  is to be put on the list when the count has come down to zero.
\<close>

section \<open>The code\<close>

definition REFS_MASK :: u32 where "REFS_MASK = 0x7FFFFFFF"

definition SHOULD_BE_ON_FREELIST :: u32 where "SHOULD_BE_ON_FREELIST = 0x80000000"

record free_list =
  fl_head :: "nat option"
  fl_refs :: "nat \<Rightarrow> u32"
  fl_next :: "nat \<Rightarrow> nat option"
  fl_fault :: bool

definition new_free_list :: free_list where
  "new_free_list = \<lparr>fl_head = None, fl_refs = \<lambda>_. 0, fl_next = \<lambda>_. None, fl_fault = False\<rparr>"

text \<open>\<open>add_knowing_refcount_is_zero\<close> returns to \<open>add\<close>, or to the loop of \<open>try_get\<close> with its \<open>head\<close>.\<close>

datatype fl_ret = R_ADD | R_GET "nat option"

datatype fl_pc = F_IDLE | F_ADD nat | F_LOAD nat fl_ret | F_NEXT nat "nat option" fl_ret | F_REFS nat "nat option" fl_ret
  | F_CAS nat "nat option" fl_ret | F_AGAIN nat "nat option" fl_ret
  | G_HEAD | G_REFS nat | G_CAS nat u32 | G_NEXT nat | G_TAKE nat "nat option" | G_CHECK nat | G_DROP nat
  | G_BACK nat "nat option" | G_RET "nat option"

definition get_loop :: "nat option \<Rightarrow> fl_pc" where
  "get_loop head = (case head of None \<Rightarrow> G_RET None | Some h \<Rightarrow> G_REFS h)"

definition add_returns :: "fl_ret \<Rightarrow> fl_pc" where
  "add_returns ret = (case ret of R_ADD \<Rightarrow> F_IDLE | R_GET head \<Rightarrow> get_loop head)"

definition set_refs :: "nat \<Rightarrow> u32 \<Rightarrow> free_list \<Rightarrow> free_list" where
  "set_refs n r l = l\<lparr>fl_refs := (fl_refs l)(n := r)\<rparr>"

text \<open>\<open>add_knowing_refcount_is_zero\<close>.\<close>

definition add_knowing_act :: "free_list \<Rightarrow> fl_pc \<Rightarrow> (free_list \<times> fl_pc) option" where
  "add_knowing_act l pc = (case pc of
     F_LOAD n ret \<Rightarrow> Some (l, F_NEXT n (fl_head l) ret)
   | F_NEXT n head ret \<Rightarrow> Some (l\<lparr>fl_next := (fl_next l)(n := head)\<rparr>, F_REFS n head ret)
   | F_REFS n head ret \<Rightarrow> Some (set_refs n 1 l, F_CAS n head ret)
   | F_CAS n head ret \<Rightarrow>
       if fl_head l = head then Some (l\<lparr>fl_head := Some n\<rparr>, add_returns ret) else Some (l, F_AGAIN n (fl_head l) ret)
   | F_AGAIN n head ret \<Rightarrow>
       Some (set_refs n (fl_refs l n + (SHOULD_BE_ON_FREELIST - 1)) l, if fl_refs l n = 1 then F_NEXT n head ret else add_returns ret)
   | _ \<Rightarrow> None)"

text \<open>\<open>add\<close>.\<close>

definition free_add_act :: "free_list \<Rightarrow> fl_pc \<Rightarrow> (free_list \<times> fl_pc) option" where
  "free_add_act l pc = (case pc of
     F_ADD n \<Rightarrow> Some (set_refs n (fl_refs l n + SHOULD_BE_ON_FREELIST) l, if fl_refs l n = 0 then F_LOAD n R_ADD else F_IDLE)
   | _ \<Rightarrow> add_knowing_act l pc)"

text \<open>\<open>try_get\<close>.\<close>

definition free_get_act :: "free_list \<Rightarrow> fl_pc \<Rightarrow> (free_list \<times> fl_pc) option" where
  "free_get_act l pc = (case pc of
     G_HEAD \<Rightarrow> Some (l, get_loop (fl_head l))
   | G_REFS h \<Rightarrow> Some (l, if fl_refs l h AND REFS_MASK = 0 then G_HEAD else G_CAS h (fl_refs l h))
   | G_CAS h refs \<Rightarrow> if fl_refs l h = refs then Some (set_refs h (refs + 1) l, G_NEXT h) else Some (l, G_HEAD)
   | G_NEXT h \<Rightarrow> Some (l, G_TAKE h (fl_next l h))
   | G_TAKE h next \<Rightarrow> if fl_head l = Some h then Some (l\<lparr>fl_head := next\<rparr>, G_CHECK h) else Some (l, G_BACK h (fl_head l))
   | G_CHECK h \<Rightarrow> Some (l\<lparr>fl_fault := (fl_fault l \<or> fl_refs l h AND SHOULD_BE_ON_FREELIST \<noteq> 0)\<rparr>, G_DROP h)
   | G_DROP h \<Rightarrow> Some (set_refs h (fl_refs l h - 2) l, G_RET (Some h))
   | G_BACK h head \<Rightarrow>
       Some (set_refs h (fl_refs l h - 1) l, if fl_refs l h = SHOULD_BE_ON_FREELIST + 1 then F_LOAD h (R_GET head) else get_loop head)
   | _ \<Rightarrow> None)"

definition free_list_act :: "free_list \<Rightarrow> fl_pc \<Rightarrow> (free_list \<times> fl_pc) option" where
  "free_list_act l pc = (case free_add_act l pc of None \<Rightarrow> free_get_act l pc | Some r \<Rightarrow> Some r)"

text \<open>
  The threads, and the blocks that are outside: in use, or not allocated yet. A thread gives back a block that
  is outside, or asks for one, which is outside again when it has been returned.
\<close>

record free_threads =
  ft_list :: free_list
  ft_pcs :: "nat \<Rightarrow> fl_pc"
  ft_outside :: "nat set"

inductive fl_step :: "nat \<Rightarrow> free_threads \<Rightarrow> free_threads \<Rightarrow> bool" for T where
  fl_run: "i < T \<Longrightarrow> free_list_act (ft_list s) (ft_pcs s i) = Some (l, pc) \<Longrightarrow>
    fl_step T s (s\<lparr>ft_list := l, ft_pcs := (ft_pcs s)(i := pc)\<rparr>)"
| fl_give: "i < T \<Longrightarrow> ft_pcs s i = F_IDLE \<Longrightarrow> n \<in> ft_outside s \<Longrightarrow>
    fl_step T s (s\<lparr>ft_pcs := (ft_pcs s)(i := F_ADD n), ft_outside := ft_outside s - {n}\<rparr>)"
| fl_ask: "i < T \<Longrightarrow> ft_pcs s i = F_IDLE \<Longrightarrow> fl_step T s (s\<lparr>ft_pcs := (ft_pcs s)(i := G_HEAD)\<rparr>)"
| fl_end: "i < T \<Longrightarrow> ft_pcs s i = G_RET n \<Longrightarrow>
    fl_step T s (s\<lparr>ft_pcs := (ft_pcs s)(i := F_IDLE), ft_outside := ft_outside s \<union> set_option n\<rparr>)"

inductive fl_reach :: "nat \<Rightarrow> free_threads \<Rightarrow> bool" for T where
  fl_init: "fl_reach T \<lparr>ft_list = new_free_list, ft_pcs = \<lambda>_. F_IDLE, ft_outside = UNIV\<rparr>"
| fl_next_step: "fl_reach T s \<Longrightarrow> fl_step T s s' \<Longrightarrow> fl_reach T s'"

section \<open>Counts\<close>

definition enc :: "nat \<Rightarrow> bool \<Rightarrow> u32" where
  "enc c b = word_of_nat (c + (if b then 2 ^ 31 else 0))"

lemma unat_enc: "c < 2 ^ 31 \<Longrightarrow> unat (enc c b) = c + (if b then 2 ^ 31 else 0)"
  unfolding enc_def unat_of_nat by simp

lemma enc_inj:
  assumes "c < 2 ^ 31" "c' < 2 ^ 31"
  shows "enc c b = enc c' b' \<longleftrightarrow> c = c' \<and> b = b'"
proof
  assume "enc c b = enc c' b'"
  then have "c + (if b then 2 ^ 31 else 0) = c' + (if b' then 2 ^ 31 else 0)" using unat_enc assms by metis
  then show "c = c' \<and> b = b'" using assms by (cases b; cases b'; simp)
qed simp

lemma enc_numbers: "enc 0 False = 0" "enc (Suc 0) False = 1" "enc 0 True = SHOULD_BE_ON_FREELIST" "enc (Suc 0) True = SHOULD_BE_ON_FREELIST + 1"
  by (simp_all add: enc_def SHOULD_BE_ON_FREELIST_def)

lemma enc_add: "enc c b + 1 = enc (c + 1) b" "enc (c + 1) b - 1 = enc c b" "enc (c + 2) b - 2 = enc c b"
  "enc c False + SHOULD_BE_ON_FREELIST = enc c True" "enc (c + 1) False + (SHOULD_BE_ON_FREELIST - 1) = enc c True"
  by (simp_all add: enc_def SHOULD_BE_ON_FREELIST_def)

lemma enc_mask: "c < 2 ^ 31 \<Longrightarrow> enc c b AND REFS_MASK = 0 \<longleftrightarrow> c = 0"
proof -
  assume c: "c < 2 ^ 31"
  have "REFS_MASK = mask 31" by (simp add: REFS_MASK_def mask_eq_exp_minus_1)
  then have "enc c b AND REFS_MASK = take_bit 31 (enc c b)" by (simp add: take_bit_eq_mask)
  moreover have "unat (take_bit 31 (enc c b)) = take_bit 31 (unat (enc c b))" by (rule unsigned_take_bit_eq)
  moreover have "\<dots> = c" using c by (simp add: unat_enc take_bit_eq_mod)
  ultimately show ?thesis by (metis unat_eq_zero)
qed

lemma enc_bit:
  assumes "c < 2 ^ 31"
  shows "enc c b AND SHOULD_BE_ON_FREELIST = 0 \<longleftrightarrow> \<not> b"
proof -
  have "enc c b AND 2 ^ 31 = 0 \<longleftrightarrow> \<not> bit (enc c b) 31" by (rule and_exp_eq_0_iff_not_bit)
  moreover have "(2 :: u32) ^ 31 = SHOULD_BE_ON_FREELIST" by (simp add: SHOULD_BE_ON_FREELIST_def)
  moreover have "bit (enc c b) 31 \<longleftrightarrow> bit (unat (enc c b)) 31" by (simp add: bit_unsigned_iff)
  moreover have "(c + 2 ^ 31) div 2 ^ 31 = 1" using assms by (simp add: div_add_self2)
  then have "bit (unat (enc c b)) 31 \<longleftrightarrow> b" using assms by (simp add: unat_enc bit_iff_odd)
  ultimately show ?thesis by metis
qed

section \<open>The invariant\<close>

text \<open>The block that belongs to a thread, and the one it holds a reference to.\<close>

fun owner :: "fl_pc \<Rightarrow> nat option" where
  "owner (F_ADD n) = Some n" | "owner (F_LOAD n r) = Some n" | "owner (F_NEXT n h r) = Some n" | "owner (F_REFS n h r) = Some n"
| "owner (F_CAS n h r) = Some n" | "owner (F_AGAIN n h r) = Some n" | "owner (G_CHECK n) = Some n" | "owner (G_DROP n) = Some n"
| "owner (G_RET n) = n" | "owner _ = None"

fun holds :: "fl_pc \<Rightarrow> nat option" where
  "holds (G_NEXT n) = Some n" | "holds (G_TAKE n h) = Some n" | "holds (G_CHECK n) = Some n" | "holds (G_DROP n) = Some n"
| "holds (G_BACK n h) = Some n" | "holds _ = None"

text \<open>Of a block that belongs to a thread: is the reference of the list counted, and is the bit set?\<close>

fun listed_ref :: "fl_pc \<Rightarrow> nat" where
  "listed_ref (F_CAS n h r) = 1" | "listed_ref (F_AGAIN n h r) = 1" | "listed_ref (G_CHECK n) = 1" | "listed_ref (G_DROP n) = 1"
| "listed_ref _ = 0"

fun marked :: "fl_pc \<Rightarrow> bool" where
  "marked (F_LOAD n r) = True" | "marked (F_NEXT n h r) = True" | "marked (F_REFS n h r) = True" | "marked _ = False"

text \<open>Every block is in one place.\<close>

datatype place = Listed | Outside | Pending | With nat

definition holders :: "nat \<Rightarrow> (nat \<Rightarrow> fl_pc) \<Rightarrow> nat \<Rightarrow> nat" where
  "holders T pcs n = card {i. i < T \<and> holds (pcs i) = Some n}"

fun refs_ok :: "(nat \<Rightarrow> fl_pc) \<Rightarrow> place \<Rightarrow> nat \<Rightarrow> u32 \<Rightarrow> bool" where
  "refs_ok pcs Listed c r \<longleftrightarrow> r = enc (c + 1) False"
| "refs_ok pcs Outside c r \<longleftrightarrow> r = enc c False"
| "refs_ok pcs Pending c r \<longleftrightarrow> r = enc c True \<and> 0 < c"
| "refs_ok pcs (With i) c r \<longleftrightarrow> r = enc (c + listed_ref (pcs i)) (marked (pcs i)) \<and> (marked (pcs i) \<longrightarrow> c = 0)"

fun chained :: "(nat \<Rightarrow> nat option) \<Rightarrow> nat option \<Rightarrow> nat list \<Rightarrow> bool" where
  "chained next h [] \<longleftrightarrow> h = None"
| "chained next h (n # ns) \<longleftrightarrow> h = Some n \<and> chained next (next n) ns"

fun local_ok :: "(nat \<Rightarrow> nat option) \<Rightarrow> fl_pc \<Rightarrow> bool" where
  "local_ok next (G_CAS n r) \<longleftrightarrow> r AND REFS_MASK \<noteq> 0"
| "local_ok next (G_TAKE n h) \<longleftrightarrow> next n = h"
| "local_ok next (F_REFS n h r) \<longleftrightarrow> next n = h"
| "local_ok next (F_CAS n h r) \<longleftrightarrow> next n = h"
| "local_ok next _ \<longleftrightarrow> True"

definition fl_inv :: "nat \<Rightarrow> free_threads \<Rightarrow> nat list \<Rightarrow> (nat \<Rightarrow> place) \<Rightarrow> bool" where
  "fl_inv T s xs pl \<longleftrightarrow> chained (fl_next (ft_list s)) (fl_head (ft_list s)) xs \<and> distinct xs \<and> (\<forall>n. n \<in> set xs \<longleftrightarrow> pl n = Listed)
     \<and> (\<forall>n. n \<in> ft_outside s \<longleftrightarrow> pl n = Outside) \<and> (\<forall>n i. owner (ft_pcs s i) = Some n \<longleftrightarrow> pl n = With i)
     \<and> (\<forall>n. refs_ok (ft_pcs s) (pl n) (holders T (ft_pcs s) n) (fl_refs (ft_list s) n))
     \<and> (\<forall>i. local_ok (fl_next (ft_list s)) (ft_pcs s i)) \<and> (\<forall>i. T \<le> i \<longrightarrow> ft_pcs s i = F_IDLE) \<and> \<not> fl_fault (ft_list s)"

lemma chained_update [simp]: "n \<notin> set xs \<Longrightarrow> chained (next(n := h)) a xs = chained next a xs"
  by (induction xs arbitrary: a) auto

lemma count_update:
  assumes "i < T"
  shows "holders T (pcs(i := pc)) n + (if holds (pcs i) = Some n then 1 else 0) = holders T pcs n + (if holds pc = Some n then 1 else 0)"
proof -
  let ?A = "{j. j < T \<and> j \<noteq> i \<and> holds (pcs j) = Some n}"
  have fin: "finite ?A" by simp
  have split: "{j. j < T \<and> holds (p j) = Some n} = (if holds (p i) = Some n then insert i {j. j < T \<and> j \<noteq> i \<and> holds (p j) = Some n}
      else {j. j < T \<and> j \<noteq> i \<and> holds (p j) = Some n})" for p :: "nat \<Rightarrow> fl_pc"
    using assms by auto
  have same: "{j. j < T \<and> j \<noteq> i \<and> holds ((pcs(i := pc)) j) = Some n} = ?A" by auto
  show ?thesis unfolding holders_def split [of pcs] split [of "pcs(i := pc)"] same using fin by simp
qed

lemma count_le: "holders T pcs n \<le> T"
proof -
  have "holders T pcs n \<le> card {..<T}" unfolding holders_def by (rule card_mono) auto
  then show ?thesis by simp
qed

text \<open>A step of thread \<open>i\<close> that concerns the block \<open>m\<close> only.\<close>

lemma fl_inv_step:
  assumes inv: "fl_inv T s xs pl" and i: "i < T"
    and one: "owner (ft_pcs s i) \<in> {None, Some m}" "owner pc \<in> {None, Some m}" "holds (ft_pcs s i) \<in> {None, Some m}" "holds pc \<in> {None, Some m}"
    and refs: "\<And>n. n \<noteq> m \<Longrightarrow> fl_refs l n = fl_refs (ft_list s) n"
    and m: "refs_ok ((ft_pcs s)(i := pc)) p (holders T ((ft_pcs s)(i := pc)) m) (fl_refs l m)"
    and chain: "chained (fl_next l) (fl_head l) xs'" "distinct xs'" "set xs' - {m} = set xs - {m}" "m \<in> set xs' \<longleftrightarrow> p = Listed"
    and out: "out - {m} = ft_outside s - {m}" "m \<in> out \<longleftrightarrow> p = Outside"
    and own: "owner pc = Some m \<longleftrightarrow> p = With i" "\<And>j. j \<noteq> i \<Longrightarrow> p = With j \<longleftrightarrow> pl m = With j"
    and loc: "local_ok (fl_next l) pc" "\<And>j. j \<noteq> i \<Longrightarrow> local_ok (fl_next l) (ft_pcs s j)" and "\<not> fl_fault l"
  shows "fl_inv T (s\<lparr>ft_list := l, ft_pcs := (ft_pcs s)(i := pc), ft_outside := out\<rparr>) xs' (pl(m := p))"
proof -
  let ?pcs = "(ft_pcs s)(i := pc)"
  have o: "owner (ft_pcs s j) = Some n \<longleftrightarrow> pl n = With j" for n j using inv by (simp add: fl_inv_def)
  have "n \<in> set xs' \<longleftrightarrow> (pl(m := p)) n = Listed" for n using inv chain(3,4) by (cases "n = m") (auto simp: fl_inv_def)
  moreover have "n \<in> out \<longleftrightarrow> (pl(m := p)) n = Outside" for n using inv out by (cases "n = m") (auto simp: fl_inv_def)
  moreover have "owner (?pcs j) = Some n \<longleftrightarrow> (pl(m := p)) n = With j" for n j
    using o [of j n] o [of i n] own one(1,2) by (cases "n = m"; cases "j = i") auto
  moreover have "refs_ok ?pcs ((pl(m := p)) n) (holders T ?pcs n) (fl_refs l n)" for n
  proof (cases "n = m")
    case True
    then show ?thesis using m by simp
  next
    case False
    then have "holders T ?pcs n = holders T (ft_pcs s) n" using count_update [OF i, of "ft_pcs s" pc n] one(3,4) by auto
    moreover have "pl n \<noteq> With i" using o [of i n] one(1) False by auto
    then have "refs_ok ?pcs (pl n) c r = refs_ok (ft_pcs s) (pl n) c r" for c r by (cases "pl n") auto
    ultimately show ?thesis using inv refs [OF False] False by (simp add: fl_inv_def)
  qed
  moreover have "local_ok (fl_next l) (?pcs j)" for j using loc by simp
  moreover have "T \<le> j \<longrightarrow> ?pcs j = F_IDLE" for j using inv i by (simp add: fl_inv_def)
  ultimately show ?thesis using chain(1,2) \<open>\<not> fl_fault l\<close> unfolding fl_inv_def by simp
qed

section \<open>Every step keeps the invariant\<close>

lemma fl_invD:
  assumes "fl_inv T s xs pl"
  shows "chained (fl_next (ft_list s)) (fl_head (ft_list s)) xs" "distinct xs" "n \<in> set xs \<longleftrightarrow> pl n = Listed"
    "n \<in> ft_outside s \<longleftrightarrow> pl n = Outside" "owner (ft_pcs s i) = Some n \<longleftrightarrow> pl n = With i"
    "refs_ok (ft_pcs s) (pl n) (holders T (ft_pcs s) n) (fl_refs (ft_list s) n)" "local_ok (fl_next (ft_list s)) (ft_pcs s i)"
    "T \<le> i \<Longrightarrow> ft_pcs s i = F_IDLE" "\<not> fl_fault (ft_list s)"
  using assms by (simp_all add: fl_inv_def)

lemma count_same: "i < T \<Longrightarrow> holds pc = holds (pcs i) \<Longrightarrow> holders T (pcs(i := pc)) n = holders T pcs n"
  using count_update [of i T pcs pc n] by auto

lemma count_hold: "i < T \<Longrightarrow> holds (pcs i) = None \<Longrightarrow> holds pc = Some n \<Longrightarrow> holders T (pcs(i := pc)) n = holders T pcs n + 1"
  "i < T \<Longrightarrow> holds (pcs i) = Some n \<Longrightarrow> holds pc = None \<Longrightarrow> holders T pcs n = holders T (pcs(i := pc)) n + 1"
  using count_update [of i T pcs pc n] by auto

text \<open>A step that moves no block: the list, the blocks outside and the counts stay.\<close>

lemma quiet_step:
  assumes inv: "fl_inv T s xs pl" and i: "i < T" and pc: "owner pc = owner (ft_pcs s i)" "holds pc = holds (ft_pcs s i)"
    "listed_ref pc = listed_ref (ft_pcs s i)" "marked pc = marked (ft_pcs s i)" "local_ok (fl_next (ft_list s)) pc"
  shows "fl_inv T (s\<lparr>ft_pcs := (ft_pcs s)(i := pc)\<rparr>) xs pl"
proof -
  have "owner (((ft_pcs s)(i := pc)) j) = owner (ft_pcs s j)" for j using pc by simp
  moreover have "refs_ok ((ft_pcs s)(i := pc)) (pl n) c r = refs_ok (ft_pcs s) (pl n) c r" for n c r using pc by (cases "pl n") auto
  ultimately show ?thesis using inv pc i count_same [OF i, of pc "ft_pcs s"] by (simp add: fl_inv_def)
qed

lemma get_loop_simps [simp]: "owner (get_loop h) = None" "holds (get_loop h) = None" "listed_ref (get_loop h) = 0" "\<not> marked (get_loop h)"
    "local_ok next (get_loop h)" "owner (add_returns r) = None" "holds (add_returns r) = None" "local_ok next (add_returns r)"
  by (auto simp: get_loop_def add_returns_def split: option.splits fl_ret.splits)

lemma owned_block:
  assumes inv: "fl_inv T s xs pl" and n: "owner (ft_pcs s i) = Some n"
  shows "pl n = With i" "n \<notin> set xs" "n \<notin> ft_outside s"
    "fl_refs (ft_list s) n = enc (holders T (ft_pcs s) n + listed_ref (ft_pcs s i)) (marked (ft_pcs s i))"
    "marked (ft_pcs s i) \<Longrightarrow> holders T (ft_pcs s) n = 0"
proof -
  show w: "pl n = With i" using fl_invD(5) [OF inv] n by blast
  then show "n \<notin> set xs" "n \<notin> ft_outside s" using fl_invD(3,4) [OF inv] by simp_all
  show "fl_refs (ft_list s) n = enc (holders T (ft_pcs s) n + listed_ref (ft_pcs s i)) (marked (ft_pcs s i))"
    "marked (ft_pcs s i) \<Longrightarrow> holders T (ft_pcs s) n = 0" using fl_invD(6) [OF inv, of n] w by simp_all
qed

text \<open>A step on a block that belongs to the thread, or passes from it to nobody, or to it.\<close>

lemma own_step:
  assumes inv: "fl_inv T s xs pl" and i: "i < T" and n: "owner (ft_pcs s i) = Some n" "owner pc \<in> {None, Some n}"
    "holds (ft_pcs s i) \<in> {None, Some n}" "holds pc \<in> {None, Some n}"
    and refs: "\<And>m. m \<noteq> n \<Longrightarrow> fl_refs l m = fl_refs (ft_list s) m"
      "refs_ok ((ft_pcs s)(i := pc)) p (holders T ((ft_pcs s)(i := pc)) n) (fl_refs l n)"
    and p: "p = With i \<longleftrightarrow> owner pc = Some n" "\<And>j. j \<noteq> i \<Longrightarrow> p \<noteq> With j"
    and chain: "chained (fl_next l) (fl_head l) xs'" "distinct xs'" "set xs' - {n} = set xs" "n \<in> set xs' \<longleftrightarrow> p = Listed"
    and out: "out - {n} = ft_outside s" "n \<in> out \<longleftrightarrow> p = Outside"
    and loc: "local_ok (fl_next l) pc" "\<And>j. j \<noteq> i \<Longrightarrow> local_ok (fl_next l) (ft_pcs s j)" "\<not> fl_fault l"
  shows "fl_inv T (s\<lparr>ft_list := l, ft_pcs := (ft_pcs s)(i := pc), ft_outside := out\<rparr>) xs' (pl(n := p))"
proof (rule fl_inv_step [OF inv i])
  note O = owned_block [OF inv n(1)]
  show "owner (ft_pcs s i) \<in> {None, Some n}" "holds (ft_pcs s i) \<in> {None, Some n}" using n by simp_all
  show "owner pc \<in> {None, Some n}" "holds pc \<in> {None, Some n}" using n by simp_all
  show "set xs' - {n} = set xs - {n}" "out - {n} = ft_outside s - {n}" using chain(3) out(1) O(2,3) by auto
  show "p = With j \<longleftrightarrow> pl n = With j" if "j \<noteq> i" for j using p(2) [OF that] O(1) that by simp
qed (use refs chain out p loc in simp_all)

lemma next_block_local:
  assumes inv: "fl_inv T s xs pl" and n: "owner (ft_pcs s i) = Some n" "marked (ft_pcs s i)" and j: "j \<noteq> i"
  shows "local_ok ((fl_next (ft_list s))(n := h)) (ft_pcs s j)"
proof (cases "j < T")
  case True
  have "owner (ft_pcs s j) \<noteq> Some n" using owned_block(1) [OF inv n(1)] fl_invD(5) [OF inv, of j n] j by auto
  moreover have "card {k. k < T \<and> holds (ft_pcs s k) = Some n} = 0" using owned_block(5) [OF inv n] by (simp add: holders_def)
  then have "holds (ft_pcs s j) \<noteq> Some n" using True by auto
  ultimately show ?thesis using fl_invD(7) [OF inv, of j] by (cases "ft_pcs s j") auto
next
  case False
  then show ?thesis using fl_invD(8) [OF inv, of j] by simp
qed

lemma bound:
  assumes "T < 2 ^ 31 - 1"
  shows "holders T pcs n + 1 < 2 ^ 31"
  using assms count_le [of T pcs n] by simp

lemma add_keeps:
  assumes inv: "fl_inv T s xs pl" and i: "i < T" and T: "T < 2 ^ 31 - 1" and act: "free_add_act (ft_list s) (ft_pcs s i) = Some (l, pc)"
  shows "\<exists>xs' pl'. fl_inv T (s\<lparr>ft_list := l, ft_pcs := (ft_pcs s)(i := pc)\<rparr>) xs' pl'"
proof -
  note D = fl_invD [OF inv]
  have st: "s\<lparr>ft_list := l, ft_pcs := (ft_pcs s)(i := pc), ft_outside := ft_outside s\<rparr> = s\<lparr>ft_list := l, ft_pcs := (ft_pcs s)(i := pc)\<rparr>" by simp
  show ?thesis
  proof (cases "ft_pcs s i")
    case (F_ADD n)
    have own: "owner (ft_pcs s i) = Some n" using F_ADD by simp
    note O = owned_block [OF inv own]
    have l: "l = set_refs n (fl_refs (ft_list s) n + SHOULD_BE_ON_FREELIST) (ft_list s)"
      and pc: "pc = (if fl_refs (ft_list s) n = 0 then F_LOAD n R_ADD else F_IDLE)" using act F_ADD by (simp_all add: free_add_act_def add_knowing_act_def)
    let ?c = "holders T (ft_pcs s) n"
    have zero: "fl_refs (ft_list s) n = 0 \<longleftrightarrow> ?c = 0"
      using O(4) enc_inj [of ?c 0 False False] bound [OF T, of "ft_pcs s" n] by (simp add: F_ADD enc_numbers)
    have new: "fl_refs l n = enc ?c True" using O(4) enc_add(4) [of ?c] by (simp add: l set_refs_def F_ADD)
    have c: "holders T ((ft_pcs s)(i := pc)) n = ?c" by (rule count_same [OF i]) (simp add: F_ADD pc)
    have "fl_inv T (s\<lparr>ft_list := l, ft_pcs := (ft_pcs s)(i := pc), ft_outside := ft_outside s\<rparr>) xs (pl(n := if ?c = 0 then With i else Pending))"
      using D(1,2,7,9) O zero new c by (intro own_step [OF inv i own]) (auto simp: F_ADD pc l set_refs_def)
    then show ?thesis unfolding st by blast
  next
    case (F_LOAD n r)
    then have "l = ft_list s" "pc = F_NEXT n (fl_head (ft_list s)) r" using act by (auto simp: free_add_act_def add_knowing_act_def)
    then show ?thesis using quiet_step [OF inv i, of pc] F_LOAD by auto
  next
    case (F_NEXT n h r)
    have own: "owner (ft_pcs s i) = Some n" "marked (ft_pcs s i)" using F_NEXT by simp_all
    note O = owned_block [OF inv own(1)]
    have l: "l = (ft_list s)\<lparr>fl_next := (fl_next (ft_list s))(n := h)\<rparr>" and pc: "pc = F_REFS n h r" using act F_NEXT by (simp_all add: free_add_act_def add_knowing_act_def)
    have c: "holders T ((ft_pcs s)(i := pc)) n = holders T (ft_pcs s) n" by (rule count_same [OF i]) (simp add: F_NEXT pc)
    have "fl_inv T (s\<lparr>ft_list := l, ft_pcs := (ft_pcs s)(i := pc), ft_outside := ft_outside s\<rparr>) xs (pl(n := With i))"
      using D(1,2,9) O next_block_local [OF inv own] by (intro own_step [OF inv i own(1)]) (auto simp: F_NEXT l pc c [unfolded pc])
    then show ?thesis unfolding st by blast
  next
    case (F_REFS n h r)
    have own: "owner (ft_pcs s i) = Some n" using F_REFS by simp
    note O = owned_block [OF inv own]
    have l: "l = set_refs n 1 (ft_list s)" and pc: "pc = F_CAS n h r" using act F_REFS by (simp_all add: free_add_act_def add_knowing_act_def)
    have c: "holders T ((ft_pcs s)(i := pc)) n = holders T (ft_pcs s) n" by (rule count_same [OF i]) (simp add: F_REFS pc)
    have "local_ok (fl_next (ft_list s)) (F_REFS n h r)" using D(7) [of i] F_REFS by simp
    then have "fl_inv T (s\<lparr>ft_list := l, ft_pcs := (ft_pcs s)(i := pc), ft_outside := ft_outside s\<rparr>) xs (pl(n := With i))"
      using D(1,2,7,9) O by (intro own_step [OF inv i own]) (auto simp: F_REFS l pc c [unfolded pc] set_refs_def enc_numbers)
    then show ?thesis unfolding st by blast
  next
    case (F_CAS n h r)
    have own: "owner (ft_pcs s i) = Some n" using F_CAS by simp
    note O = owned_block [OF inv own]
    have nx: "fl_next (ft_list s) n = h" using D(7) [of i] F_CAS by simp
    show ?thesis
    proof (cases "fl_head (ft_list s) = h")
      case True
      have l: "l = (ft_list s)\<lparr>fl_head := Some n\<rparr>" and pc: "pc = add_returns r" using act F_CAS True by (simp_all add: free_add_act_def add_knowing_act_def)
      have c: "holders T ((ft_pcs s)(i := pc)) n = holders T (ft_pcs s) n" by (rule count_same [OF i]) (simp add: F_CAS pc)
      have "fl_inv T (s\<lparr>ft_list := l, ft_pcs := (ft_pcs s)(i := pc), ft_outside := ft_outside s\<rparr>) (n # xs) (pl(n := Listed))"
        using D(1,2,7,9) O nx True by (intro own_step [OF inv i own]) (auto simp: F_CAS l pc c [unfolded pc])
      then show ?thesis unfolding st by blast
    next
      case False
      then have "l = ft_list s" "pc = F_AGAIN n (fl_head (ft_list s)) r" using act F_CAS by (auto simp: free_add_act_def add_knowing_act_def)
      then show ?thesis using quiet_step [OF inv i, of pc] F_CAS by auto
    qed
  next
    case (F_AGAIN n h r)
    have own: "owner (ft_pcs s i) = Some n" using F_AGAIN by simp
    note O = owned_block [OF inv own]
    let ?c = "holders T (ft_pcs s) n"
    have l: "l = set_refs n (fl_refs (ft_list s) n + (SHOULD_BE_ON_FREELIST - 1)) (ft_list s)"
      and pc: "pc = (if fl_refs (ft_list s) n = 1 then F_NEXT n h r else add_returns r)" using act F_AGAIN by (simp_all add: free_add_act_def add_knowing_act_def)
    have one: "fl_refs (ft_list s) n = 1 \<longleftrightarrow> ?c = 0"
      using O(4) enc_inj [of "?c + 1" 1 False False] bound [OF T, of "ft_pcs s" n] by (simp add: F_AGAIN enc_numbers)
    have new: "fl_refs l n = enc ?c True" using O(4) enc_add(5) [of ?c] by (simp add: l set_refs_def F_AGAIN)
    have c: "holders T ((ft_pcs s)(i := pc)) n = ?c" by (rule count_same [OF i]) (simp add: F_AGAIN pc)
    have "fl_inv T (s\<lparr>ft_list := l, ft_pcs := (ft_pcs s)(i := pc), ft_outside := ft_outside s\<rparr>) xs (pl(n := if ?c = 0 then With i else Pending))"
      using D(1,2,7,9) O one new c by (intro own_step [OF inv i own]) (auto simp: F_AGAIN pc l set_refs_def)
    then show ?thesis unfolding st by blast
  qed (use act in \<open>simp_all add: free_add_act_def add_knowing_act_def\<close>)
qed

lemma marked_ref: "marked pc \<Longrightarrow> listed_ref pc = 0"
  by (cases pc) auto

lemma refs_up:
  assumes "refs_ok pcs p c r" "r AND REFS_MASK \<noteq> 0"
  shows "refs_ok pcs p (c + 1) (r + 1)"
proof (cases p)
  case (With j)
  have "\<not> marked (pcs j)" using assms With marked_ref [of "pcs j"] by (auto simp: enc_mask)
  then show ?thesis using assms With enc_add(1) [of "c + listed_ref (pcs j)" False] by simp
qed (use assms enc_add(1) in \<open>auto simp: ac_simps\<close>)

lemma refs_down:
  assumes "refs_ok pcs p (c + 1) r" "p = Pending \<longrightarrow> 0 < c"
  shows "refs_ok pcs p c (r - 1)"
proof (cases p)
  case (With j)
  then show ?thesis using assms enc_add(2) [of "c + listed_ref (pcs j)" False] by simp
qed (use assms enc_add(2) in \<open>auto simp: ac_simps\<close>)

lemma refs_ok_other: "owner (pcs i) = None \<Longrightarrow> p \<noteq> With i \<Longrightarrow> refs_ok (pcs(i := pc)) p c r = refs_ok pcs p c r"
  by (cases p) auto

text \<open>A step that changes the references of a block, which stays where it is.\<close>

lemma stay_step:
  assumes inv: "fl_inv T s xs pl" and i: "i < T" and n: "owner (ft_pcs s i) = None" "owner pc = None"
    "holds (ft_pcs s i) \<in> {None, Some n}" "holds pc \<in> {None, Some n}"
    and refs: "refs_ok (ft_pcs s) (pl n) (holders T ((ft_pcs s)(i := pc)) n) r" and loc: "local_ok (fl_next (ft_list s)) pc"
  shows "fl_inv T (s\<lparr>ft_list := set_refs n r (ft_list s), ft_pcs := (ft_pcs s)(i := pc)\<rparr>) xs pl"
proof -
  note D = fl_invD [OF inv]
  have w: "pl n \<noteq> With i" using D(5) [of i n] n(1) by simp
  have "fl_inv T (s\<lparr>ft_list := set_refs n r (ft_list s), ft_pcs := (ft_pcs s)(i := pc), ft_outside := ft_outside s\<rparr>) xs (pl(n := pl n))"
    using n refs loc D(1-4,7,9) w by (intro fl_inv_step [OF inv i]) (auto simp: set_refs_def refs_ok_other)
  then show ?thesis by simp
qed

lemma get_keeps:
  assumes inv: "fl_inv T s xs pl" and i: "i < T" and T: "T < 2 ^ 31 - 1" and act: "free_get_act (ft_list s) (ft_pcs s i) = Some (l, pc)"
  shows "\<exists>xs' pl'. fl_inv T (s\<lparr>ft_list := l, ft_pcs := (ft_pcs s)(i := pc)\<rparr>) xs' pl'"
proof -
  note D = fl_invD [OF inv]
  have st: "s\<lparr>ft_list := l, ft_pcs := (ft_pcs s)(i := pc), ft_outside := ft_outside s\<rparr> = s\<lparr>ft_list := l, ft_pcs := (ft_pcs s)(i := pc)\<rparr>" by simp
  have quiet: ?thesis if "l = ft_list s" "owner pc = owner (ft_pcs s i)" "holds pc = holds (ft_pcs s i)"
      "listed_ref pc = listed_ref (ft_pcs s i)" "marked pc = marked (ft_pcs s i)" "local_ok (fl_next (ft_list s)) pc"
    using quiet_step [OF inv i that(2-6)] that(1) by auto
  show ?thesis
  proof (cases "ft_pcs s i")
    case G_HEAD
    then show ?thesis using act by (intro quiet) (auto simp: free_get_act_def)
  next
    case (G_REFS h)
    then show ?thesis using act by (intro quiet) (auto simp: free_get_act_def split: if_splits)
  next
    case (G_CAS h r)
    show ?thesis
    proof (cases "fl_refs (ft_list s) h = r")
      case True
      then have l: "l = set_refs h (r + 1) (ft_list s)" and pc: "pc = G_NEXT h" using act G_CAS by (simp_all add: free_get_act_def)
      have "holders T ((ft_pcs s)(i := pc)) h = holders T (ft_pcs s) h + 1" by (rule count_hold(1) [OF i]) (simp_all add: G_CAS pc)
      then have "refs_ok (ft_pcs s) (pl h) (holders T ((ft_pcs s)(i := pc)) h) (r + 1)"
        using refs_up [of "ft_pcs s" "pl h" "holders T (ft_pcs s) h" r] D(6) [of h] D(7) [of i] True G_CAS by simp
      from stay_step [OF inv i _ _ _ _ this] show ?thesis unfolding l by (auto simp: G_CAS pc)
    next
      case False
      then show ?thesis using act G_CAS by (intro quiet) (auto simp: free_get_act_def)
    qed
  next
    case (G_NEXT h)
    then show ?thesis using act by (intro quiet) (auto simp: free_get_act_def)
  next
    case (G_TAKE h nx)
    show ?thesis
    proof (cases "fl_head (ft_list s) = Some h")
      case True
      have l: "l = (ft_list s)\<lparr>fl_head := nx\<rparr>" and pc: "pc = G_CHECK h" using act G_TAKE True by (simp_all add: free_get_act_def)
      obtain ys where xs: "xs = h # ys" using D(1) True by (cases xs) auto
      have h: "pl h = Listed" using D(3) [of h] xs by simp
      have nx: "fl_next (ft_list s) h = nx" using D(7) [of i] G_TAKE by simp
      have c: "holders T ((ft_pcs s)(i := pc)) h = holders T (ft_pcs s) h" by (rule count_same [OF i]) (simp add: G_TAKE pc)
      have "fl_inv T (s\<lparr>ft_list := l, ft_pcs := (ft_pcs s)(i := pc), ft_outside := ft_outside s\<rparr>) ys (pl(h := With i))"
        using D(1,2,7,9) D(4,6) [of h] xs h nx c by (intro fl_inv_step [OF inv i]) (auto simp: G_TAKE l pc)
      then show ?thesis unfolding st by blast
    next
      case False
      then show ?thesis using act G_TAKE by (intro quiet) (auto simp: free_get_act_def)
    qed
  next
    case (G_CHECK h)
    have "fl_refs (ft_list s) h AND SHOULD_BE_ON_FREELIST = 0"
      using owned_block(4) [OF inv, of i h] enc_bit [OF bound [OF T], of "ft_pcs s" h False] by (simp add: G_CHECK)
    then have "l = ft_list s" "pc = G_DROP h" using act G_CHECK D(9) by (auto simp: free_get_act_def)
    then show ?thesis by (intro quiet) (simp_all add: G_CHECK)
  next
    case (G_DROP h)
    have own: "owner (ft_pcs s i) = Some h" using G_DROP by simp
    note O = owned_block [OF inv own]
    have l: "l = set_refs h (fl_refs (ft_list s) h - 2) (ft_list s)" and pc: "pc = G_RET (Some h)" using act G_DROP by (simp_all add: free_get_act_def)
    let ?c = "holders T ((ft_pcs s)(i := pc)) h"
    have "holders T (ft_pcs s) h = ?c + 1" by (rule count_hold(2) [OF i]) (simp_all add: G_DROP pc)
    then have "fl_refs l h = enc ?c False" using O(4) enc_add(3) [of ?c False] by (simp add: l set_refs_def G_DROP)
    then have "fl_inv T (s\<lparr>ft_list := l, ft_pcs := (ft_pcs s)(i := pc), ft_outside := ft_outside s\<rparr>) xs (pl(h := With i))"
      using D(1,2,7,9) O by (intro own_step [OF inv i own]) (auto simp: G_DROP pc l set_refs_def)
    then show ?thesis unfolding st by blast
  next
    case (G_BACK h h')
    let ?r = "fl_refs (ft_list s) h" and ?c = "holders T ((ft_pcs s)(i := pc)) h"
    have l: "l = set_refs h (?r - 1) (ft_list s)" and pc: "pc = (if ?r = SHOULD_BE_ON_FREELIST + 1 then F_LOAD h (R_GET h') else get_loop h')"
      using act G_BACK by (simp_all add: free_get_act_def)
    have c: "holders T (ft_pcs s) h = ?c + 1" by (rule count_hold(2) [OF i]) (simp_all add: G_BACK pc)
    have refs: "refs_ok (ft_pcs s) (pl h) (?c + 1) ?r" using D(6) [of h] c by simp
    have b: "?c + 2 < 2 ^ 31" "?c + 1 < 2 ^ 31" using bound [OF T, of "ft_pcs s" h] c by simp_all
    have last: "?r = enc 1 True \<longleftrightarrow> pl h = Pending \<and> ?c = 0"
    proof (cases "pl h")
      case (With j)
      then show ?thesis using refs b enc_inj [of "?c + 1 + listed_ref (ft_pcs s j)" 1 False True] by (cases "ft_pcs s j") auto
    qed (use refs b enc_inj in auto)
    show ?thesis
    proof (cases "?r = SHOULD_BE_ON_FREELIST + 1")
      case True
      then have p: "pl h = Pending" "?c = 0" using last by (simp_all add: enc_numbers)
      have pc': "pc = F_LOAD h (R_GET h')" using True pc by simp
      have "?r - 1 = enc 0 True" using refs p enc_add(2) [of 0 True] by simp
      then have "fl_inv T (s\<lparr>ft_list := l, ft_pcs := (ft_pcs s)(i := pc), ft_outside := ft_outside s\<rparr>) xs (pl(h := With i))"
        using D(1,2,7,9) D(3,4) [of h] p by (intro fl_inv_step [OF inv i]) (auto simp: G_BACK l pc' set_refs_def)
      then show ?thesis unfolding st by blast
    next
      case False
      then have "pl h = Pending \<longrightarrow> 0 < ?c" using last by (simp add: enc_numbers)
      from stay_step [OF inv i _ _ _ _ refs_down [OF refs this]] show ?thesis unfolding l using False by (auto simp: G_BACK pc)
    qed
  qed (use act in \<open>simp_all add: free_get_act_def\<close>)
qed

lemma fl_step_keeps:
  assumes "fl_step T s s'" "fl_inv T s xs pl" "T < 2 ^ 31 - 1"
  shows "\<exists>xs' pl'. fl_inv T s' xs' pl'"
  using assms(1)
proof cases
  case (fl_run i l pc)
  then show ?thesis using add_keeps [OF assms(2) fl_run(2) assms(3)] get_keeps [OF assms(2) fl_run(2) assms(3)]
    by (auto simp: free_list_act_def split: option.splits)
next
  case (fl_give i n)
  note D = fl_invD [OF assms(2)]
  have pl: "pl n = Outside" "n \<notin> set xs" using D(3,4) [of n] fl_give by simp_all
  have c: "holders T ((ft_pcs s)(i := F_ADD n)) n = holders T (ft_pcs s) n" by (rule count_same) (use fl_give in simp_all)
  have "fl_inv T (s\<lparr>ft_list := ft_list s, ft_pcs := (ft_pcs s)(i := F_ADD n), ft_outside := ft_outside s - {n}\<rparr>) xs (pl(n := With i))"
    using D(1,2,7,9) D(6) [of n] pl fl_give c by (intro fl_inv_step [OF assms(2)]) auto
  then show ?thesis using fl_give by auto
next
  case (fl_ask i)
  then show ?thesis using quiet_step [OF assms(2), of i G_HEAD] by auto
next
  case (fl_end i n)
  note D = fl_invD [OF assms(2)]
  show ?thesis
  proof (cases n)
    case None
    then show ?thesis using quiet_step [OF assms(2), of i F_IDLE] fl_end by auto
  next
    case (Some b)
    have own: "owner (ft_pcs s i) = Some b" using fl_end Some by simp
    note O = owned_block [OF assms(2) own]
    have c: "holders T ((ft_pcs s)(i := F_IDLE)) b = holders T (ft_pcs s) b" by (rule count_same) (use fl_end in simp_all)
    have "fl_inv T (s\<lparr>ft_list := ft_list s, ft_pcs := (ft_pcs s)(i := F_IDLE), ft_outside := ft_outside s \<union> {b}\<rparr>) xs (pl(b := Outside))"
      using D(1,2,7,9) O fl_end c by (intro own_step [OF assms(2) _ own]) auto
    then show ?thesis using fl_end Some by auto
  qed
qed

lemma fl_reach_inv:
  assumes "fl_reach T s" "T < 2 ^ 31 - 1"
  obtains xs pl where "fl_inv T s xs pl"
proof -
  have "\<exists>xs pl. fl_inv T s xs pl" using assms
  proof (induction rule: fl_reach.induct)
    case fl_init
    have "fl_inv T \<lparr>ft_list = new_free_list, ft_pcs = \<lambda>_. F_IDLE, ft_outside = UNIV\<rparr> [] (\<lambda>_. Outside)"
      by (simp add: fl_inv_def new_free_list_def holders_def enc_numbers)
    then show ?case by blast
  qed (use fl_step_keeps in blast)
  then show thesis using that by blast
qed

section \<open>A schedule\<close>

datatype fl_event = E_RUN nat | E_GIVE nat nat | E_ASK nat | E_END nat

fun fl_event_act :: "nat \<Rightarrow> fl_event \<Rightarrow> free_threads \<Rightarrow> free_threads option" where
  "fl_event_act T (E_RUN i) s = (case free_list_act (ft_list s) (ft_pcs s i) of
     Some (l, pc) \<Rightarrow> if i < T then Some (s\<lparr>ft_list := l, ft_pcs := (ft_pcs s)(i := pc)\<rparr>) else None | None \<Rightarrow> None)"
| "fl_event_act T (E_GIVE i n) s = (if i < T \<and> ft_pcs s i = F_IDLE \<and> n \<in> ft_outside s
     then Some (s\<lparr>ft_pcs := (ft_pcs s)(i := F_ADD n), ft_outside := ft_outside s - {n}\<rparr>) else None)"
| "fl_event_act T (E_ASK i) s = (if i < T \<and> ft_pcs s i = F_IDLE then Some (s\<lparr>ft_pcs := (ft_pcs s)(i := G_HEAD)\<rparr>) else None)"
| "fl_event_act T (E_END i) s = (case ft_pcs s i of
     G_RET n \<Rightarrow> if i < T then Some (s\<lparr>ft_pcs := (ft_pcs s)(i := F_IDLE), ft_outside := ft_outside s \<union> set_option n\<rparr>) else None | _ \<Rightarrow> None)"

fun fl_exec :: "nat \<Rightarrow> fl_event list \<Rightarrow> free_threads \<Rightarrow> free_threads option" where
  "fl_exec T [] s = Some s"
| "fl_exec T (e # es) s = Option.bind (fl_event_act T e s) (fl_exec T es)"

lemma fl_event_step: "fl_event_act T e s = Some s' \<Longrightarrow> fl_step T s s'"
  by (cases e) (auto intro: fl_step.intros split: option.splits fl_pc.splits if_splits)

lemma fl_exec_append: "fl_exec T (es @ es') s = Option.bind (fl_exec T es s) (fl_exec T es')"
proof (induction es arbitrary: s)
  case (Cons e es)
  then show ?case by (cases "fl_event_act T e s") simp_all
qed simp

lemma fl_exec_reach: "fl_exec T es s = Some s' \<Longrightarrow> fl_reach T s \<Longrightarrow> fl_reach T s'"
proof (induction es arbitrary: s)
  case (Cons e es)
  then obtain s1 where "fl_event_act T e s = Some s1" "fl_exec T es s1 = Some s'" by (auto simp: bind_eq_Some_conv)
  then show ?case using Cons.IH [OF _ fl_next_step [OF Cons.prems(2) fl_event_step]] by blast
qed simp

text \<open>
  Thread 1 has a reference to block 5 while thread 2 takes the block from the list and gives it back; so
  thread 2 leaves it to thread 1 to put the block on the list.
\<close>

definition fl_events :: "fl_event list" where
  "fl_events = E_GIVE 0 5 # replicate 5 (E_RUN 0) @ E_ASK 1 # replicate 3 (E_RUN 1) @ E_ASK 2 # replicate 7 (E_RUN 2) @
     [E_END 2, E_GIVE 2 5, E_RUN 2] @ replicate 7 (E_RUN 1) @ [E_END 1]"

definition fl_demo :: "nat \<Rightarrow> free_threads" where
  "fl_demo n = the (fl_exec 3 (take n fl_events) \<lparr>ft_list = new_free_list, ft_pcs = \<lambda>_. F_IDLE, ft_outside = UNIV\<rparr>)"

lemma fl_demo_run:
  "fl_exec 3 (take n fl_events) \<lparr>ft_list = new_free_list, ft_pcs = \<lambda>_. F_IDLE, ft_outside = UNIV\<rparr> = Some (fl_demo n)"
proof -
  let ?s = "\<lparr>ft_list = new_free_list, ft_pcs = \<lambda>_. F_IDLE, ft_outside = UNIV\<rparr>"
  have "fl_exec 3 (take n fl_events @ drop n fl_events) ?s \<noteq> None" unfolding append_take_drop_id by code_simp
  then show ?thesis unfolding fl_exec_append fl_demo_def by (cases "fl_exec 3 (take n fl_events) ?s") simp_all
qed

lemma fl_demo_reach: "fl_reach 3 (fl_demo n)"
  by (rule fl_exec_reach [OF fl_demo_run fl_init])

lemma fl_demo_step:
  assumes "n < length fl_events"
  shows "fl_step 3 (fl_demo n) (fl_demo (Suc n))"
proof -
  have "fl_event_act 3 (fl_events ! n) (fl_demo n) = Some (fl_demo (Suc n))"
    using fl_demo_run [of "Suc n"] unfolding take_Suc_conv_app_nth [OF assms] fl_exec_append fl_demo_run by (auto simp: bind_eq_Some_conv)
  then show ?thesis by (rule fl_event_step)
qed

lemma fl_demo_eval:
  "map_option (\<lambda>s. (ft_pcs s 1, ft_pcs s 2, fl_refs (ft_list s) 5))
    (fl_exec 3 (take 16 fl_events) \<lparr>ft_list = new_free_list, ft_pcs = \<lambda>_. F_IDLE, ft_outside = UNIV\<rparr>) = Some (G_NEXT 5, G_CHECK 5, 3)"
  "map_option (\<lambda>s. (ft_pcs s 0, ft_pcs s 1, ft_pcs s 2, fl_head (ft_list s)))
    (fl_exec 3 (take 29 fl_events) \<lparr>ft_list = new_free_list, ft_pcs = \<lambda>_. F_IDLE, ft_outside = UNIV\<rparr>) = Some (F_IDLE, F_IDLE, F_IDLE, Some 5)"
  by code_simp+

lemmas fl_demo_values = fl_demo_eval [unfolded fl_demo_run]

section \<open>The list as a set\<close>

text \<open>The blocks that are on their way from a thread to the list, or from the list to a thread.\<close>

fun carried :: "fl_pc \<Rightarrow> nat option" where
  "carried (F_ADD n) = Some n" | "carried (G_CHECK n) = Some n" | "carried (G_DROP n) = Some n" | "carried (G_RET n) = n"
| "carried _ = None"

definition free_blocks :: "free_threads \<Rightarrow> nat set" where
  "free_blocks s = {n. n \<notin> ft_outside s \<and> (\<forall>i. carried (ft_pcs s i) \<noteq> Some n)}"

lemma carried_owner: "carried pc = Some n \<Longrightarrow> owner pc = Some n"
  by (cases pc) auto

lemma carried_apart:
  assumes "fl_inv T s xs pl" "owner (ft_pcs s i) = Some n" "j \<noteq> i"
  shows "carried (ft_pcs s j) \<noteq> Some n" "owner (ft_pcs s j) \<noteq> Some n"
proof -
  show "owner (ft_pcs s j) \<noteq> Some n" using fl_invD(5) [OF assms(1)] assms(2,3) by (metis place.inject)
  then show "carried (ft_pcs s j) \<noteq> Some n" using carried_owner by blast
qed

lemma free_blocks_update:
  assumes inv: "fl_inv T s xs pl"
  shows "free_blocks (s\<lparr>ft_list := l, ft_pcs := (ft_pcs s)(i := pc)\<rparr>)
    = (free_blocks s \<union> (set_option (carried (ft_pcs s i)))) - set_option (carried pc)"
proof -
  have "carried (ft_pcs s i) = Some n \<Longrightarrow> n \<notin> ft_outside s \<and> (\<forall>j. j \<noteq> i \<longrightarrow> carried (ft_pcs s j) \<noteq> Some n)" for n
    using carried_apart(1) [OF inv] carried_owner owned_block(3) [OF inv] by blast
  then show ?thesis by (auto simp: free_blocks_def split: if_splits)
qed

lemma free_blocks_at: "n \<in> free_blocks s \<longleftrightarrow> n \<notin> ft_outside s \<and> carried (ft_pcs s i) \<noteq> Some n \<and> (\<forall>j. j \<noteq> i \<longrightarrow> carried (ft_pcs s j) \<noteq> Some n)"
  unfolding free_blocks_def by (simp, metis)

text \<open>What a step of the code does to the block that it carries.\<close>

lemma carried_step:
  assumes "free_list_act l pc = Some (l', pc')"
  shows "carried pc' = carried pc \<or> (\<exists>n. pc = F_ADD n \<and> carried pc' = None) \<or> (\<exists>n h. pc = G_TAKE n h \<and> pc' = G_CHECK n \<and> fl_head l = Some n)"
  using assms
  by (cases pc) (auto simp: free_list_act_def free_add_act_def add_knowing_act_def free_get_act_def get_loop_def add_returns_def split: if_splits option.splits fl_ret.splits)

text \<open>
  C15. The lock-free free list is a set of blocks: each step leaves the set as it is, or it is the first
  access of \<open>add\<close>, which puts in a block that was not in it, or the exchange of the head in \<open>try_get\<close>, which takes a
  block out. No assertion fails, and a block is never with two threads, nor with a thread while it is in use.
\<close>

theorem free_list_linearizable:
  assumes "fl_reach T s" "fl_step T s s'" "T < 2 ^ 31 - 1"
  shows "(free_blocks s' = free_blocks s
      \<or> (\<exists>i n. ft_pcs s i = F_ADD n \<and> n \<notin> free_blocks s \<and> free_blocks s' = insert n (free_blocks s))
      \<or> (\<exists>i n h. ft_pcs s i = G_TAKE n h \<and> ft_pcs s' i = G_CHECK n \<and> n \<in> free_blocks s \<and> free_blocks s' = free_blocks s - {n}))
    \<and> \<not> fl_fault (ft_list s') \<and> (\<forall>i n. owner (ft_pcs s' i) = Some n \<longrightarrow> n \<notin> ft_outside s' \<and> (\<forall>j. j \<noteq> i \<longrightarrow> owner (ft_pcs s' j) \<noteq> Some n))"
proof -
  obtain xs pl where inv: "fl_inv T s xs pl" by (rule fl_reach_inv [OF assms(1,3)])
  obtain xs' pl' where inv': "fl_inv T s' xs' pl'" using fl_step_keeps [OF assms(2) inv assms(3)] by blast
  have "free_blocks s' = free_blocks s
      \<or> (\<exists>i n. ft_pcs s i = F_ADD n \<and> n \<notin> free_blocks s \<and> free_blocks s' = insert n (free_blocks s))
      \<or> (\<exists>i n h. ft_pcs s i = G_TAKE n h \<and> ft_pcs s' i = G_CHECK n \<and> n \<in> free_blocks s \<and> free_blocks s' = free_blocks s - {n})"
    using assms(2)
  proof cases
    case (fl_run i l pc)
    have upd: "free_blocks s' = (free_blocks s \<union> (set_option (carried (ft_pcs s i)))) - set_option (carried pc)"
      unfolding fl_run(1) by (rule free_blocks_update [OF inv])
    have old: "n \<notin> free_blocks s" if "carried (ft_pcs s i) = Some n" for n using that by (auto simp: free_blocks_def)
    consider "carried pc = carried (ft_pcs s i)" | n where "ft_pcs s i = F_ADD n" "carried pc = None"
      | n h where "ft_pcs s i = G_TAKE n h" "pc = G_CHECK n" "fl_head (ft_list s) = Some n" using carried_step [OF fl_run(3)] by blast
    then show ?thesis
    proof cases
      case 1
      then have "free_blocks s' = free_blocks s" using upd old by auto
      then show ?thesis by blast
    next
      case (2 n)
      then have "free_blocks s' = insert n (free_blocks s)" "n \<notin> free_blocks s" using upd old by auto
      then show ?thesis using 2(1) by blast
    next
      case (3 n h)
      obtain ys where "xs = n # ys" using fl_invD(1) [OF inv] 3(3) by (cases xs) auto
      then have pl: "pl n = Listed" using fl_invD(3) [OF inv, of n] by simp
      then have "n \<notin> ft_outside s" "owner (ft_pcs s j) \<noteq> Some n" for j using fl_invD(4,5) [OF inv] by simp_all
      then have "n \<in> free_blocks s" using carried_owner by (auto simp: free_blocks_def)
      moreover have "free_blocks s' = free_blocks s - {n}" using upd 3 by simp
      moreover have "ft_pcs s' i = G_CHECK n" using fl_run(1) 3 by simp
      ultimately show ?thesis using 3(1) by blast
    qed
  next
    case (fl_give i n)
    have "m \<in> free_blocks s' \<longleftrightarrow> m \<in> free_blocks s" for m
      unfolding free_blocks_at [of _ _ i] using fl_give by (cases "m = n") simp_all
    then show ?thesis by blast
  next
    case (fl_ask i)
    have "m \<in> free_blocks s' \<longleftrightarrow> m \<in> free_blocks s" for m
      unfolding free_blocks_at [of _ _ i] using fl_ask by simp
    then show ?thesis by blast
  next
    case (fl_end i n)
    have "carried (ft_pcs s j) \<noteq> n" if "j \<noteq> i" "n \<noteq> None" for j
      using carried_apart(1) [OF inv, of i _ j] that fl_end by auto
    then have "m \<in> free_blocks s' \<longleftrightarrow> m \<in> free_blocks s" for m
      unfolding free_blocks_at [of _ _ i] using fl_end by (cases n) auto
    then show ?thesis by blast
  qed
  moreover have "n \<notin> ft_outside s' \<and> (\<forall>j. j \<noteq> i \<longrightarrow> owner (ft_pcs s' j) \<noteq> Some n)" if "owner (ft_pcs s' i) = Some n" for i n
    using owned_block(3) [OF inv' that] carried_apart(2) [OF inv' that] by simp
  ultimately show ?thesis using fl_invD(9) [OF inv'] by (intro conjI allI impI) (assumption | blast)+
qed

lemma free_list_linearizable_witness:
  "\<not> fl_fault (ft_list (fl_demo 16)) \<and> 5 \<notin> ft_outside (fl_demo 16) \<and> owner (ft_pcs (fl_demo 16) 1) \<noteq> Some 5"
proof -
  have "owner (ft_pcs (fl_demo 16) 2) = Some 5" using fl_demo_values(1) by simp
  then show ?thesis
    using free_list_linearizable [OF fl_demo_reach, of 15 "fl_demo 16"] fl_demo_step [of 15] by (auto simp: fl_events_def)
qed

text \<open>
  C16. When no thread is in the code, the list that starts at \<open>freeListHead\<close> holds every free block once, so no
  block that was given back is lost, and all counts are those of the list alone.
\<close>

theorem free_list_quiescent:
  assumes "fl_reach T s" "T < 2 ^ 31 - 1" "\<forall>i. ft_pcs s i = F_IDLE"
  shows "\<exists>xs. chained (fl_next (ft_list s)) (fl_head (ft_list s)) xs \<and> distinct xs \<and> set xs = free_blocks s
    \<and> (\<forall>n. fl_refs (ft_list s) n = (if n \<in> set xs then 1 else 0))"
proof -
  obtain xs pl where inv: "fl_inv T s xs pl" by (rule fl_reach_inv [OF assms(1,2)])
  note D = fl_invD [OF inv]
  have c: "holders T (ft_pcs s) n = 0" for n using assms(3) by (simp add: holders_def)
  have pl: "pl n = Listed \<or> pl n = Outside" for n
  proof (cases "pl n")
    case Pending
    then show ?thesis using D(6) [of n] c by simp
  next
    case (With i)
    then show ?thesis using D(5) [of i n] assms(3) by simp
  qed simp_all
  have "set xs = free_blocks s" using D(3,4) pl assms(3) by (auto simp: free_blocks_def)
  moreover have "fl_refs (ft_list s) n = (if n \<in> set xs then 1 else 0)" for n
    using D(6) [of n] pl [of n] D(3) [of n] c by (auto simp: enc_numbers)
  ultimately show ?thesis using D(1,2) by blast
qed

lemma free_list_quiescent_witness:
  "\<exists>xs. chained (fl_next (ft_list (fl_demo 29))) (Some 5) xs \<and> set xs = free_blocks (fl_demo 29)"
proof -
  have "ft_pcs (fl_demo 29) i = F_IDLE" for i
  proof (cases "i < 3")
    case True
    then have "i = 0 \<or> i = 1 \<or> i = 2" by linarith
    then show ?thesis using fl_demo_values(2) by auto
  next
    case False
    obtain xs pl where "fl_inv 3 (fl_demo 29) xs pl" by (rule fl_reach_inv [OF fl_demo_reach]) simp
    then show ?thesis using fl_invD(8) False by simp
  qed
  then show ?thesis using free_list_quiescent [OF fl_demo_reach, of 29] fl_demo_values(2) by auto
qed

end
