(* ===== verification/ProducerTable.thy ===== *)
theory ProducerTable
  imports FreeList
begin

text \<open>
  How a thread finds its sub-queue (\<open>get_or_add_implicit_producer\<close> in \<open>concurrent_queue.hpp\<close>): by its id in a lock-free
  hash table with linear probing, which is replaced by a larger one when it fills, the older ones being
  kept. Every access to a shared variable is a step of its own, under sequential consistency. A
  sub-queue is thus enqueued to by one thread only, as \<open>SubQueue\<close> has it, and is on the list
  that a dequeue goes through. Thread exits are not noticed: the code for them is compiled out.
\<close>

section \<open>The code\<close>

definition hash_thread_id :: "u64 \<Rightarrow> u64" where
  "hash_thread_id h0 =
     (let h1 = h0 XOR drop_bit 33 h0; h2 = h1 * 0xff51afd7ed558ccd; h3 = h2 XOR drop_bit 33 h2; h4 = h3 * 0xc4ceb9fe1a85ec53
      in h4 XOR drop_bit 33 h4)"

definition invalid_thread_id :: u64 where "invalid_thread_id = 0"

definition INITIAL_IMPLICIT_PRODUCER_HASH_SIZE :: nat where "INITIAL_IMPLICIT_PRODUCER_HASH_SIZE = 32"

text \<open>\<open>ImplicitProducerHash\<close> with its entries; a table is known by its place in the list of all, and \<open>prev\<close> is the one before.\<close>

record producer_hash =
  ph_capacity :: nat
  ph_keys :: "nat \<Rightarrow> u64"
  ph_values :: "nat \<Rightarrow> nat option"

definition new_hash :: "nat \<Rightarrow> producer_hash" where
  "new_hash n = \<lparr>ph_capacity = n, ph_keys = \<lambda>_. invalid_thread_id, ph_values = \<lambda>_. None\<rparr>"

record producer_table =
  pt_hashes :: "producer_hash list"
  pt_count :: nat
  pt_resizing :: bool
  pt_tail :: "nat option"
  pt_next :: "nat \<Rightarrow> nat option"
  pt_producerCount :: nat
  pt_inactive :: "nat set"
  pt_fresh :: nat

text \<open>\<open>populate_initial_implicit_producer_hash\<close>.\<close>

definition new_producer_table :: producer_table where
  "new_producer_table = \<lparr>pt_hashes = [new_hash INITIAL_IMPLICIT_PRODUCER_HASH_SIZE], pt_count = 0, pt_resizing = False,
     pt_tail = None, pt_next = \<lambda>_. None, pt_producerCount = 0, pt_inactive = {}, pt_fresh = 0\<rparr>"

text \<open>
  Where a thread is: \<open>m\<close> is its \<open>mainHash\<close>, \<open>c\<close> its \<open>newCount\<close>, \<open>k\<close> an index, \<open>p\<close> a
  producer. The code that enters a thread into a table is there twice, for a thread found in an older table
  and for a new one.
\<close>

datatype pt_pc = H_IDLE | H_START | H_LOOK nat nat nat | H_VALUE nat nat nat | H_PROBE nat nat nat | H_CAS nat nat nat | H_SET nat nat nat
  | H_COUNT nat | H_FULL nat nat | H_RELOAD nat | H_GROW nat nat | H_STORE nat nat nat | H_UNLOCK nat nat | H_FAIL nat | H_FAIL_UNLOCK
  | H_CHECK nat nat | H_WAIT nat | H_SEARCH nat nat | H_SCAN nat nat "nat option" | H_CATCH nat nat nat | H_RECYCLED nat nat | H_NEW nat nat
  | H_NOPROD nat | H_PCOUNT nat nat | H_PLOAD nat nat | H_PNEXT nat nat "nat option" | H_PCAS nat nat "nat option" | H_RET "nat option"

function grow_capacity :: "nat \<Rightarrow> nat \<Rightarrow> nat" where
  "grow_capacity c n = (if 0 < n \<and> n div 2 \<le> c then grow_capacity c (2 * n) else n)"
  by pat_completeness auto
termination by (relation "measure (\<lambda>(c, n). 2 * c + 2 - n)") auto

declare grow_capacity.simps [simp del]

definition main_hash :: "producer_table \<Rightarrow> nat" where
  "main_hash t = length (pt_hashes t) - 1"

definition capacity_of :: "producer_table \<Rightarrow> nat \<Rightarrow> nat" where
  "capacity_of t h = ph_capacity (pt_hashes t ! h)"

text \<open>The first index, masked with the capacity; the mask of the later ones is the \<open>mod\<close> below.\<close>

definition first_index :: "producer_table \<Rightarrow> nat \<Rightarrow> u64 \<Rightarrow> nat" where
  "first_index t h i = unat (hash_thread_id i AND (of_nat (capacity_of t h) - 1))"

definition hash_key :: "producer_table \<Rightarrow> nat \<Rightarrow> nat \<Rightarrow> u64" where
  "hash_key t h k = ph_keys (pt_hashes t ! h) (k mod capacity_of t h)"

definition hash_value :: "producer_table \<Rightarrow> nat \<Rightarrow> nat \<Rightarrow> nat option" where
  "hash_value t h k = ph_values (pt_hashes t ! h) (k mod capacity_of t h)"

definition set_hash :: "nat \<Rightarrow> producer_hash \<Rightarrow> producer_table \<Rightarrow> producer_table" where
  "set_hash h x t = t\<lparr>pt_hashes := (pt_hashes t)[h := x]\<rparr>"

definition set_hash_key :: "nat \<Rightarrow> nat \<Rightarrow> u64 \<Rightarrow> producer_table \<Rightarrow> producer_table" where
  "set_hash_key h k i t = set_hash h ((pt_hashes t ! h)\<lparr>ph_keys := (ph_keys (pt_hashes t ! h))(k mod capacity_of t h := i)\<rparr>) t"

definition set_hash_value :: "nat \<Rightarrow> nat \<Rightarrow> nat option \<Rightarrow> producer_table \<Rightarrow> producer_table" where
  "set_hash_value h k p t = set_hash h ((pt_hashes t ! h)\<lparr>ph_values := (ph_values (pt_hashes t ! h))(k mod capacity_of t h := p)\<rparr>) t"

text \<open>\<open>recycle_or_create_producer\<close> and \<open>add_producer\<close>; \<open>ok\<close> is false when no memory is found, or when a weak
  exchange fails for no reason.\<close>

definition producer_list_act :: "bool \<Rightarrow> u64 \<Rightarrow> producer_table \<Rightarrow> pt_pc \<Rightarrow> (producer_table \<times> pt_pc) option" where
  "producer_list_act ok i t pc = (case pc of
     H_SEARCH m c \<Rightarrow> Some (t, H_SCAN m c (pt_tail t))
   | H_SCAN m c p \<Rightarrow> (case p of None \<Rightarrow> Some (t, H_NEW m c)
       | Some q \<Rightarrow> Some (t, if q \<in> pt_inactive t then H_CATCH m c q else H_SCAN m c (pt_next t q)))
   | H_CATCH m c q \<Rightarrow>
       if q \<in> pt_inactive t then Some (t\<lparr>pt_inactive := pt_inactive t - {q}\<rparr>, H_RECYCLED m q) else Some (t, H_SCAN m c (pt_next t q))
   | H_NEW m c \<Rightarrow> if ok then Some (t\<lparr>pt_fresh := pt_fresh t + 1\<rparr>, H_PCOUNT m (pt_fresh t)) else Some (t, H_NOPROD c)
   | H_PCOUNT m p \<Rightarrow> Some (t\<lparr>pt_producerCount := pt_producerCount t + 1\<rparr>, H_PLOAD m p)
   | H_PLOAD m p \<Rightarrow> Some (t, H_PNEXT m p (pt_tail t))
   | H_PNEXT m p q \<Rightarrow> Some (t\<lparr>pt_next := (pt_next t)(p := q)\<rparr>, H_PCAS m p q)
   | H_PCAS m p q \<Rightarrow>
       if ok \<and> pt_tail t = q then Some (t\<lparr>pt_tail := Some p\<rparr>, H_PROBE m p (first_index t m i)) else Some (t, H_PNEXT m p (pt_tail t))
   | _ \<Rightarrow> None)"

text \<open>The resizing of the table.\<close>

definition resize_act :: "bool \<Rightarrow> u64 \<Rightarrow> producer_table \<Rightarrow> pt_pc \<Rightarrow> (producer_table \<times> pt_pc) option" where
  "resize_act ok i t pc = (case pc of
     H_FULL m c \<Rightarrow>
       if capacity_of t m div 2 \<le> c \<and> \<not> pt_resizing t then Some (t\<lparr>pt_resizing := True\<rparr>, H_RELOAD c) else Some (t, H_CHECK m c)
   | H_RELOAD c \<Rightarrow> Some (t, H_GROW (main_hash t) c)
   | H_GROW m c \<Rightarrow>
       if capacity_of t m div 2 \<le> c then Some (t, if ok then H_STORE m c (grow_capacity c (2 * capacity_of t m)) else H_FAIL c)
       else Some (t, H_UNLOCK m c)
   | H_STORE m c n \<Rightarrow> Some (t\<lparr>pt_hashes := pt_hashes t @ [new_hash n]\<rparr>, H_UNLOCK (length (pt_hashes t)) c)
   | H_UNLOCK m c \<Rightarrow> Some (t\<lparr>pt_resizing := False\<rparr>, H_CHECK m c)
   | H_FAIL c \<Rightarrow> Some (t\<lparr>pt_count := pt_count t - 1\<rparr>, H_FAIL_UNLOCK)
   | H_FAIL_UNLOCK \<Rightarrow> Some (t\<lparr>pt_resizing := False\<rparr>, H_RET None)
   | _ \<Rightarrow> None)"

text \<open>\<open>get_or_add_implicit_producer\<close>. An entry that is found has a producer, so a null one is not followed further.\<close>

definition producer_act :: "bool \<Rightarrow> u64 \<Rightarrow> producer_table \<Rightarrow> pt_pc \<Rightarrow> (producer_table \<times> pt_pc) option" where
  "producer_act ok i t pc = (case pc of
     H_START \<Rightarrow> Some (t, H_LOOK (main_hash t) (main_hash t) (first_index t (main_hash t) i))
   | H_LOOK m h k \<Rightarrow>
       Some (t, if hash_key t h k = i then H_VALUE m h k
         else if hash_key t h k = invalid_thread_id
         then (case h of 0 \<Rightarrow> H_COUNT m | Suc h' \<Rightarrow> H_LOOK m h' (first_index t h' i))
         else H_LOOK m h (k + 1))
   | H_VALUE m h k \<Rightarrow> (case hash_value t h k of
         None \<Rightarrow> Some (t, H_RET None)
       | Some p \<Rightarrow> Some (t, if h \<noteq> m then H_PROBE m p (first_index t m i) else H_RET (Some p)))
   | H_PROBE m p k \<Rightarrow> Some (t, if hash_key t m k = invalid_thread_id then H_CAS m p k else H_PROBE m p (k + 1))
   | H_CAS m p k \<Rightarrow>
       if hash_key t m k = invalid_thread_id then Some (set_hash_key m k i t, H_SET m p k) else Some (t, H_PROBE m p (k + 1))
   | H_SET m p k \<Rightarrow> Some (set_hash_value m k (Some p) t, H_RET (Some p))
   | H_COUNT m \<Rightarrow> Some (t\<lparr>pt_count := pt_count t + 1\<rparr>, H_FULL m (pt_count t + 1))
   | H_CHECK m c \<Rightarrow> Some (t, if c < capacity_of t m div 2 + capacity_of t m div 4 then H_SEARCH m c else H_WAIT c)
   | H_WAIT c \<Rightarrow> Some (t, H_FULL (main_hash t) c)
   | H_NOPROD c \<Rightarrow> Some (t\<lparr>pt_count := pt_count t - 1\<rparr>, H_RET None)
   | H_RECYCLED m p \<Rightarrow> Some (t\<lparr>pt_count := pt_count t - 1\<rparr>, H_PROBE m p (first_index t m i))
   | _ \<Rightarrow> (case producer_list_act ok i t pc of None \<Rightarrow> resize_act ok i t pc | Some r \<Rightarrow> Some r))"

text \<open>The threads by their ids, and what their calls have returned.\<close>

record producer_threads =
  pr_table :: producer_table
  pr_pcs :: "u64 \<Rightarrow> pt_pc"
  pr_log :: "(u64 \<times> nat) list"

inductive pr_step :: "producer_threads \<Rightarrow> producer_threads \<Rightarrow> bool" where
  pr_run: "producer_act ok i (pr_table s) (pr_pcs s i) = Some (t, pc) \<Longrightarrow> pr_step s (s\<lparr>pr_table := t, pr_pcs := (pr_pcs s)(i := pc)\<rparr>)"
| pr_call: "pr_pcs s i = H_IDLE \<Longrightarrow> i \<noteq> invalid_thread_id \<Longrightarrow> pr_step s (s\<lparr>pr_pcs := (pr_pcs s)(i := H_START)\<rparr>)"
| pr_return: "pr_pcs s i = H_RET r \<Longrightarrow>
    pr_step s (s\<lparr>pr_pcs := (pr_pcs s)(i := H_IDLE), pr_log := pr_log s @ (case r of None \<Rightarrow> [] | Some p \<Rightarrow> [(i, p)])\<rparr>)"

inductive pr_reach :: "producer_threads \<Rightarrow> bool" where
  pr_init: "pr_reach \<lparr>pr_table = new_producer_table, pr_pcs = \<lambda>_. H_IDLE, pr_log = []\<rparr>"
| pr_next: "pr_reach s \<Longrightarrow> pr_step s s' \<Longrightarrow> pr_reach s'"

end
