(* ===== verification/ProducerSafe.thy ===== *)
theory ProducerSafe
  imports ProducerTable
begin

text \<open>
  The invariant of the table of sub-queues: what the tables hold, what each thread knows of them, the
  count of the threads, the lock of the resizing and the list of the sub-queues.
\<close>

section \<open>The tables\<close>

definition absent :: "producer_table \<Rightarrow> nat \<Rightarrow> u64 \<Rightarrow> bool" where
  "absent t h i \<longleftrightarrow> (\<forall>k. hash_key t h k \<noteq> i)"

text \<open>All places of table \<open>h\<close> from the first of thread \<open>i\<close> up to \<open>k\<close> are taken by others.\<close>

definition visited :: "producer_table \<Rightarrow> nat \<Rightarrow> u64 \<Rightarrow> nat \<Rightarrow> bool" where
  "visited t h i k \<longleftrightarrow> (\<forall>e. first_index t h i \<le> e \<longrightarrow> e < k \<longrightarrow> hash_key t h e \<noteq> invalid_thread_id \<and> hash_key t h e \<noteq> i)"

definition room :: "producer_table \<Rightarrow> nat \<Rightarrow> nat" where
  "room t h = capacity_of t h div 2 + capacity_of t h div 4"

definition entry_ok :: "producer_table \<Rightarrow> (u64 \<Rightarrow> pt_pc) \<Rightarrow> (u64 \<Rightarrow> nat option) \<Rightarrow> (u64 \<Rightarrow> nat) \<Rightarrow> nat \<Rightarrow> u64 \<Rightarrow> nat \<Rightarrow> bool" where
  "entry_ok t pcs pd tk h i k \<longleftrightarrow> (\<exists>e. first_index t h i \<le> e \<and> e mod capacity_of t h = k mod capacity_of t h \<and> visited t h i e)
     \<and> tk i < room t h \<and> (\<exists>p. pd i = Some p \<and> (hash_value t h k = Some p \<or> (\<exists>k'. pcs i = H_SET h p k')))"

definition table_inv :: "producer_table \<Rightarrow> (u64 \<Rightarrow> pt_pc) \<Rightarrow> (u64 \<Rightarrow> nat option) \<Rightarrow> (u64 \<Rightarrow> nat) \<Rightarrow> bool" where
  "table_inv t pcs pd tk \<longleftrightarrow> pt_hashes t \<noteq> [] \<and> (\<forall>h < length (pt_hashes t). 0 < capacity_of t h)
     \<and> (\<forall>h h'. h \<le> h' \<longrightarrow> h' < length (pt_hashes t) \<longrightarrow> capacity_of t h \<le> capacity_of t h')
     \<and> (\<forall>h k i. h < length (pt_hashes t) \<longrightarrow> hash_key t h k = i \<longrightarrow> i \<noteq> invalid_thread_id \<longrightarrow> entry_ok t pcs pd tk h i k)"

section \<open>The threads\<close>

definition known :: "producer_table \<Rightarrow> u64 \<Rightarrow> bool" where
  "known t i \<longleftrightarrow> (\<exists>h < length (pt_hashes t). \<not> absent t h i)"

definition absent_from :: "producer_table \<Rightarrow> nat \<Rightarrow> u64 \<Rightarrow> bool" where
  "absent_from t m i \<longleftrightarrow> (\<forall>h. m \<le> h \<longrightarrow> h < length (pt_hashes t) \<longrightarrow> absent t h i)"

definition probing :: "producer_table \<Rightarrow> u64 \<Rightarrow> nat option \<Rightarrow> nat \<Rightarrow> nat \<Rightarrow> nat \<Rightarrow> nat \<Rightarrow> bool" where
  "probing t i po c m p k \<longleftrightarrow> m < length (pt_hashes t) \<and> po = Some p \<and> absent_from t m i \<and> visited t m i k \<and> first_index t m i \<le> k \<and> c < room t m"

text \<open>What thread \<open>i\<close>, with its producer \<open>po\<close> and the \<open>newCount\<close> \<open>c\<close> it got, knows of the tables.\<close>

fun pr_thread_ok :: "producer_table \<Rightarrow> u64 \<Rightarrow> nat option \<Rightarrow> nat \<Rightarrow> pt_pc \<Rightarrow> bool" where
  "pr_thread_ok t i po c H_IDLE \<longleftrightarrow> (po \<noteq> None \<longrightarrow> known t i)"
| "pr_thread_ok t i po c H_START \<longleftrightarrow> (po \<noteq> None \<longrightarrow> known t i)"
| "pr_thread_ok t i po c (H_RET r) \<longleftrightarrow> (po \<noteq> None \<longrightarrow> known t i) \<and> r = po"
| "pr_thread_ok t i po c (H_LOOK m h k) \<longleftrightarrow> (po \<noteq> None \<longrightarrow> known t i) \<and> m < length (pt_hashes t) \<and> h \<le> m \<and> absent_from t (h + 1) i
     \<and> visited t h i k \<and> first_index t h i \<le> k"
| "pr_thread_ok t i po c (H_VALUE m h k) \<longleftrightarrow> m < length (pt_hashes t) \<and> h \<le> m \<and> absent_from t (h + 1) i \<and> hash_key t h k = i"
| "pr_thread_ok t i po c (H_PROBE m p k) \<longleftrightarrow> probing t i po c m p k"
| "pr_thread_ok t i po c (H_CAS m p k) \<longleftrightarrow> probing t i po c m p k"
| "pr_thread_ok t i po c (H_SET m p k) \<longleftrightarrow> m < length (pt_hashes t) \<and> po = Some p \<and> hash_key t m k = i"
| "pr_thread_ok t i po c (H_COUNT m) \<longleftrightarrow> m < length (pt_hashes t) \<and> po = None"
| "pr_thread_ok t i po c (H_FULL m c') \<longleftrightarrow> m < length (pt_hashes t) \<and> po = None \<and> c' = c"
| "pr_thread_ok t i po c (H_RELOAD c') \<longleftrightarrow> po = None \<and> c' = c"
| "pr_thread_ok t i po c (H_GROW m c') \<longleftrightarrow> m < length (pt_hashes t) \<and> po = None \<and> c' = c"
| "pr_thread_ok t i po c (H_STORE m c' n) \<longleftrightarrow> m < length (pt_hashes t) \<and> po = None \<and> c' = c \<and> capacity_of t m \<le> n"
| "pr_thread_ok t i po c (H_UNLOCK m c') \<longleftrightarrow> m < length (pt_hashes t) \<and> po = None \<and> c' = c"
| "pr_thread_ok t i po c (H_FAIL c') \<longleftrightarrow> po = None \<and> c' = c"
| "pr_thread_ok t i po c H_FAIL_UNLOCK \<longleftrightarrow> po = None"
| "pr_thread_ok t i po c (H_CHECK m c') \<longleftrightarrow> m < length (pt_hashes t) \<and> po = None \<and> c' = c"
| "pr_thread_ok t i po c (H_WAIT c') \<longleftrightarrow> po = None \<and> c' = c"
| "pr_thread_ok t i po c (H_SEARCH m c') \<longleftrightarrow> m < length (pt_hashes t) \<and> po = None \<and> c' = c \<and> c < room t m"
| "pr_thread_ok t i po c (H_SCAN m c' p) \<longleftrightarrow> m < length (pt_hashes t) \<and> po = None \<and> c' = c \<and> c < room t m"
| "pr_thread_ok t i po c (H_CATCH m c' p) \<longleftrightarrow> False"
| "pr_thread_ok t i po c (H_RECYCLED m p) \<longleftrightarrow> False"
| "pr_thread_ok t i po c (H_NEW m c') \<longleftrightarrow> m < length (pt_hashes t) \<and> po = None \<and> c' = c \<and> c < room t m"
| "pr_thread_ok t i po c (H_NOPROD c') \<longleftrightarrow> po = None \<and> c' = c"
| "pr_thread_ok t i po c (H_PCOUNT m p) \<longleftrightarrow> m < length (pt_hashes t) \<and> po = Some p \<and> absent_from t 0 i \<and> c < room t m"
| "pr_thread_ok t i po c (H_PLOAD m p) \<longleftrightarrow> m < length (pt_hashes t) \<and> po = Some p \<and> absent_from t 0 i \<and> c < room t m"
| "pr_thread_ok t i po c (H_PNEXT m p q) \<longleftrightarrow> m < length (pt_hashes t) \<and> po = Some p \<and> absent_from t 0 i \<and> c < room t m"
| "pr_thread_ok t i po c (H_PCAS m p q) \<longleftrightarrow> m < length (pt_hashes t) \<and> po = Some p \<and> absent_from t 0 i \<and> c < room t m"

text \<open>Is the thread counted without a producer yet, does it hold the lock, is it putting its producer on the list?\<close>

fun in_flight :: "pt_pc \<Rightarrow> bool" where
  "in_flight (H_FULL m c) = True" | "in_flight (H_RELOAD c) = True" | "in_flight (H_GROW m c) = True" | "in_flight (H_STORE m c n) = True"
| "in_flight (H_UNLOCK m c) = True" | "in_flight (H_FAIL c) = True" | "in_flight (H_CHECK m c) = True" | "in_flight (H_WAIT c) = True"
| "in_flight (H_SEARCH m c) = True" | "in_flight (H_SCAN m c p) = True" | "in_flight (H_CATCH m c p) = True" | "in_flight (H_NEW m c) = True"
| "in_flight (H_NOPROD c) = True" | "in_flight _ = False"

fun locked :: "pt_pc \<Rightarrow> bool" where
  "locked (H_RELOAD c) = True" | "locked (H_GROW m c) = True" | "locked (H_STORE m c n) = True" | "locked (H_UNLOCK m c) = True"
| "locked (H_FAIL c) = True" | "locked H_FAIL_UNLOCK = True" | "locked _ = False"

fun grows_from :: "pt_pc \<Rightarrow> nat option" where
  "grows_from (H_GROW m c) = Some m" | "grows_from (H_STORE m c n) = Some m" | "grows_from _ = None"

fun linking :: "pt_pc \<Rightarrow> bool" where
  "linking (H_PCOUNT m p) = True" | "linking (H_PLOAD m p) = True" | "linking (H_PNEXT m p q) = True" | "linking (H_PCAS m p q) = True"
| "linking _ = False"

definition pr_counted :: "(u64 \<Rightarrow> pt_pc) \<Rightarrow> (u64 \<Rightarrow> nat option) \<Rightarrow> u64 set" where
  "pr_counted pcs pd = {i. pd i \<noteq> None \<or> in_flight (pcs i)}"

definition count_inv :: "nat \<Rightarrow> u64 set \<Rightarrow> (u64 \<Rightarrow> nat) \<Rightarrow> bool" where
  "count_inv n A tk \<longleftrightarrow> n = card A \<and> (\<forall>B. card {i \<in> A. tk i \<le> B} \<le> B)"

definition lock_inv :: "producer_table \<Rightarrow> (u64 \<Rightarrow> pt_pc) \<Rightarrow> bool" where
  "lock_inv t pcs \<longleftrightarrow> (\<forall>i. locked (pcs i) \<longrightarrow> pt_resizing t) \<and> (\<forall>i j. locked (pcs i) \<longrightarrow> locked (pcs j) \<longrightarrow> i = j)
     \<and> (\<forall>i m. grows_from (pcs i) = Some m \<longrightarrow> m = main_hash t)"

definition list_inv :: "producer_table \<Rightarrow> (u64 \<Rightarrow> pt_pc) \<Rightarrow> (u64 \<Rightarrow> nat option) \<Rightarrow> nat list \<Rightarrow> bool" where
  "list_inv t pcs pd xs \<longleftrightarrow> chained (pt_next t) (pt_tail t) xs \<and> distinct xs \<and> pt_inactive t = {}
     \<and> (\<forall>p. p \<in> set xs \<longleftrightarrow> (\<exists>i. pd i = Some p \<and> \<not> linking (pcs i)))
     \<and> (\<forall>i p. pd i = Some p \<longrightarrow> p < pt_fresh t) \<and> (\<forall>i j p. pd i = Some p \<longrightarrow> pd j = Some p \<longrightarrow> i = j)
     \<and> (\<forall>i m p q. pcs i = H_PCAS m p q \<longrightarrow> pt_next t p = q)"

definition pr_inv :: "producer_threads \<Rightarrow> (u64 \<Rightarrow> nat option) \<Rightarrow> (u64 \<Rightarrow> nat) \<Rightarrow> nat list \<Rightarrow> bool" where
  "pr_inv s pd tk xs \<longleftrightarrow> table_inv (pr_table s) (pr_pcs s) pd tk
     \<and> (\<forall>i. pr_thread_ok (pr_table s) i (pd i) (tk i) (pr_pcs s i)) \<and> count_inv (pt_count (pr_table s)) (pr_counted (pr_pcs s) pd) tk
     \<and> lock_inv (pr_table s) (pr_pcs s) \<and> list_inv (pr_table s) (pr_pcs s) pd xs
     \<and> (\<forall>(i, p) \<in> set (pr_log s). pd i = Some p \<and> known (pr_table s) i) \<and> pr_pcs s invalid_thread_id = H_IDLE \<and> pd invalid_thread_id = None"

section \<open>What a thread knows stays true\<close>

text \<open>What the others may do to the tables, for thread \<open>i\<close>.\<close>

definition grown :: "u64 \<Rightarrow> producer_table \<Rightarrow> producer_table \<Rightarrow> bool" where
  "grown i t t' \<longleftrightarrow> length (pt_hashes t) \<le> length (pt_hashes t')
     \<and> (\<forall>h < length (pt_hashes t). capacity_of t' h = capacity_of t h
          \<and> (\<forall>k. (hash_key t' h k = i \<longleftrightarrow> hash_key t h k = i) \<and> (hash_key t h k \<noteq> invalid_thread_id \<longrightarrow> hash_key t' h k = hash_key t h k)))
     \<and> (\<forall>h. length (pt_hashes t) \<le> h \<longrightarrow> h < length (pt_hashes t') \<longrightarrow> absent t' h i)"

lemma grown_facts:
  assumes g: "grown i t t'"
  shows "h < length (pt_hashes t) \<Longrightarrow> absent t' h i = absent t h i" "h < length (pt_hashes t) \<Longrightarrow> visited t h i k \<Longrightarrow> visited t' h i k"
    "known t i \<Longrightarrow> known t' i" "absent_from t m i \<Longrightarrow> absent_from t' m i" "h < length (pt_hashes t) \<Longrightarrow> room t' h = room t h"
    "h < length (pt_hashes t) \<Longrightarrow> h < length (pt_hashes t')"
    "h < length (pt_hashes t) \<Longrightarrow> hash_key t h k = i \<Longrightarrow> hash_key t' h k = i"
    "probing t i po c m p k \<Longrightarrow> probing t' i po c m p k"
proof -
  have f: "h < length (pt_hashes t) \<Longrightarrow> first_index t' h i = first_index t h i" for h using g by (simp add: grown_def first_index_def)
  show a: "h < length (pt_hashes t) \<Longrightarrow> absent t' h i = absent t h i" for h using g by (simp add: grown_def absent_def)
  show v: "h < length (pt_hashes t) \<Longrightarrow> visited t h i k \<Longrightarrow> visited t' h i k" for h k using g f by (simp add: grown_def visited_def)
  show l: "h < length (pt_hashes t) \<Longrightarrow> h < length (pt_hashes t')" for h using g by (simp add: grown_def)
  show r: "h < length (pt_hashes t) \<Longrightarrow> room t' h = room t h" for h using g by (simp add: grown_def room_def)
  show "known t i \<Longrightarrow> known t' i" using a l by (auto simp: known_def)
  show af: "absent_from t m i \<Longrightarrow> absent_from t' m i" for m using a g unfolding absent_from_def grown_def by (meson not_le)
  show "h < length (pt_hashes t) \<Longrightarrow> hash_key t h k = i \<Longrightarrow> hash_key t' h k = i" using g by (simp add: grown_def)
  show "probing t i po c m p k \<Longrightarrow> probing t' i po c m p k" using v l r af f by (simp add: probing_def)
qed

lemma thread_ok_grown:
  assumes "grown i t t'" "pr_thread_ok t i po c pc"
  shows "pr_thread_ok t' i po c pc"
proof -
  have "capacity_of t' h = capacity_of t h" "first_index t' h i = first_index t h i" if "h < length (pt_hashes t)" for h
    using assms(1) that by (simp_all add: grown_def first_index_def)
  then show ?thesis using assms(2) grown_facts [OF assms(1)] by (cases pc) auto
qed

section \<open>Facts of the invariant\<close>

lemma pr_invD:
  assumes "pr_inv s pd tk xs"
  shows "table_inv (pr_table s) (pr_pcs s) pd tk" "pr_thread_ok (pr_table s) i (pd i) (tk i) (pr_pcs s i)"
    "count_inv (pt_count (pr_table s)) (pr_counted (pr_pcs s) pd) tk" "lock_inv (pr_table s) (pr_pcs s)" "list_inv (pr_table s) (pr_pcs s) pd xs"
    "(i, p) \<in> set (pr_log s) \<Longrightarrow> pd i = Some p \<and> known (pr_table s) i" "pr_pcs s invalid_thread_id = H_IDLE" "pd invalid_thread_id = None"
  using assms by (auto simp: pr_inv_def)

lemma table_invD:
  assumes "table_inv t pcs pd tk"
  shows "pt_hashes t \<noteq> []" "h < length (pt_hashes t) \<Longrightarrow> 0 < capacity_of t h"
    "h \<le> h' \<Longrightarrow> h' < length (pt_hashes t) \<Longrightarrow> capacity_of t h \<le> capacity_of t h'"
    "h < length (pt_hashes t) \<Longrightarrow> hash_key t h k = i \<Longrightarrow> i \<noteq> invalid_thread_id \<Longrightarrow> entry_ok t pcs pd tk h i k"
    "main_hash t < length (pt_hashes t)"
  using assms by (auto simp: table_inv_def main_hash_def)

lemma hash_key_mod: "k mod capacity_of t h = k' mod capacity_of t h \<Longrightarrow> hash_key t h k = hash_key t h k'"
  "k mod capacity_of t h = k' mod capacity_of t h \<Longrightarrow> hash_value t h k = hash_value t h k'"
  by (simp_all add: hash_key_def hash_value_def)

text \<open>A thread has one place in a table.\<close>

lemma one_place:
  assumes inv: "table_inv t pcs pd tk" and h: "h < length (pt_hashes t)" "i \<noteq> invalid_thread_id" and k: "hash_key t h k = i" "hash_key t h k' = i"
  shows "k mod capacity_of t h = k' mod capacity_of t h"
proof -
  obtain e where e: "first_index t h i \<le> e" "e mod capacity_of t h = k mod capacity_of t h" "visited t h i e"
    using table_invD(4) [OF inv h(1) k(1) h(2)] by (auto simp: entry_ok_def)
  obtain e' where e': "first_index t h i \<le> e'" "e' mod capacity_of t h = k' mod capacity_of t h" "visited t h i e'"
    using table_invD(4) [OF inv h(1) k(2) h(2)] by (auto simp: entry_ok_def)
  have "hash_key t h e = i" "hash_key t h e' = i" using hash_key_mod(1) [OF e(2)] hash_key_mod(1) [OF e'(2)] k by simp_all
  then have "\<not> e < e'" "\<not> e' < e" using e(1,3) e'(1,3) unfolding visited_def by blast+
  then have "e = e'" by simp
  then show ?thesis using e(2) e'(2) by simp
qed

lemma no_producer_absent:
  assumes "table_inv t pcs pd tk" "pd i = None" "i \<noteq> invalid_thread_id"
  shows "absent_from t m i"
  using table_invD(4) [OF assms(1) _ _ assms(3)] assms(2) by (auto simp: absent_from_def absent_def entry_ok_def)

lemma same_hashes:
  assumes "pt_hashes t' = pt_hashes t"
  shows "capacity_of t' = capacity_of t" "hash_key t' = hash_key t" "hash_value t' = hash_value t" "main_hash t' = main_hash t"
    "grown i t t'" "room t' = room t" "visited t' = visited t" "absent t' = absent t" "known t' = known t"
    "first_index t' = first_index t"
    "pr_thread_ok t' i po c pc = pr_thread_ok t i po c pc"
proof -
  show c: "capacity_of t' = capacity_of t" using assms by (simp add: capacity_of_def fun_eq_iff)
  then show k: "hash_key t' = hash_key t" and "hash_value t' = hash_value t" using assms by (simp_all add: hash_key_def hash_value_def fun_eq_iff)
  show "main_hash t' = main_hash t" using assms by (simp add: main_hash_def)
  show "grown i t t'" using assms c k by (simp add: grown_def)
  moreover have "grown i t' t" using assms c k by (simp add: grown_def)
  ultimately show "pr_thread_ok t' i po c pc = pr_thread_ok t i po c pc" using thread_ok_grown by blast
  show f: "first_index t' = first_index t" using c by (simp add: first_index_def fun_eq_iff)
  show "room t' = room t" using c by (simp add: room_def fun_eq_iff)
  show "visited t' = visited t" using k f by (simp add: visited_def fun_eq_iff)
  show a: "absent t' = absent t" using k by (simp add: absent_def fun_eq_iff)
  show "known t' = known t" using assms a by (simp add: known_def fun_eq_iff)
qed

lemma table_inv_same:
  assumes inv: "table_inv t pcs pd tk" and t': "pt_hashes t' = pt_hashes t" and pc: "\<nexists>m p k. pcs i = H_SET m p k"
    and new: "pd i \<noteq> None \<Longrightarrow> pd' i = pd i \<and> tk' i = tk i" "\<And>j. j \<noteq> i \<Longrightarrow> pd' j = pd j \<and> tk' j = tk j"
  shows "table_inv t' (pcs(i := pc)) pd' tk'"
proof -
  note S = same_hashes [OF t']
  have "entry_ok t' (pcs(i := pc)) pd' tk' h j k" if "entry_ok t pcs pd tk h j k" for h j k
  proof (cases "j = i")
    case True
    then have "pd i \<noteq> None" using that by (auto simp: entry_ok_def)
    then show ?thesis using that new(1) True pc unfolding entry_ok_def S by auto
  next
    case False
    then show ?thesis using that new(2) unfolding entry_ok_def S by auto
  qed
  then show ?thesis using inv unfolding table_inv_def S t' by blast
qed

lemma count_inv_add: "count_inv n A tk \<Longrightarrow> i \<notin> A \<Longrightarrow> finite A \<Longrightarrow> count_inv (n + 1) (insert i A) (tk(i := n + 1))"
proof -
  assume inv: "count_inv n A tk" and i: "i \<notin> A" and fin: "finite A"
  have "card {j \<in> insert i A. (tk(i := n + 1)) j \<le> B} \<le> B" for B
  proof (cases "n + 1 \<le> B")
    case True
    have "card {j \<in> insert i A. (tk(i := n + 1)) j \<le> B} \<le> card (insert i A)" using fin by (intro card_mono) auto
    also have "\<dots> = n + 1" using inv i fin by (simp add: count_inv_def)
    finally show ?thesis using True by linarith
  next
    case False
    then have "{j \<in> insert i A. (tk(i := n + 1)) j \<le> B} = {j \<in> A. tk j \<le> B}" using i by auto
    then show ?thesis using inv by (simp only: count_inv_def)
  qed
  moreover have "n + 1 = card (insert i A)" using inv i fin by (simp add: count_inv_def)
  ultimately show ?thesis unfolding count_inv_def by blast
qed

lemma count_inv_remove: "count_inv n A tk \<Longrightarrow> i \<in> A \<Longrightarrow> finite A \<Longrightarrow> count_inv (n - 1) (A - {i}) tk"
proof -
  assume inv: "count_inv n A tk" and i: "i \<in> A" and fin: "finite A"
  have "card {j \<in> A - {i}. tk j \<le> B} \<le> card {j \<in> A. tk j \<le> B}" for B using fin by (intro card_mono) auto
  then show ?thesis using inv i by (auto simp: count_inv_def intro: order_trans)
qed

text \<open>A step of thread \<open>i\<close>.\<close>

lemma pr_inv_step:
  assumes inv: "pr_inv s pd tk xs" and i: "i \<noteq> invalid_thread_id"
    and others: "\<And>j. j \<noteq> i \<Longrightarrow> pd' j = pd j \<and> tk' j = tk j" "\<And>j. j \<noteq> i \<Longrightarrow> j \<noteq> invalid_thread_id \<Longrightarrow> grown j (pr_table s) t"
    and own: "pd i \<noteq> None \<Longrightarrow> pd' i = pd i" "known (pr_table s) i \<Longrightarrow> known t i" "pr_thread_ok t i (pd' i) (tk' i) pc"
    and new: "table_inv t ((pr_pcs s)(i := pc)) pd' tk'" "count_inv (pt_count t) (pr_counted ((pr_pcs s)(i := pc)) pd') tk'"
      "lock_inv t ((pr_pcs s)(i := pc))" "list_inv t ((pr_pcs s)(i := pc)) pd' xs'"
  shows "pr_inv (s\<lparr>pr_table := t, pr_pcs := (pr_pcs s)(i := pc)\<rparr>) pd' tk' xs'"
proof -
  note D = pr_invD [OF inv]
  have "pr_thread_ok t j (pd' j) (tk' j) (((pr_pcs s)(i := pc)) j)" for j
  proof (cases "j = i \<or> j = invalid_thread_id")
    case True
    then show ?thesis using own(3) others(1) [of j] D(7,8) i by auto
  next
    case False
    then show ?thesis using others [of j] thread_ok_grown [OF _ D(2) [of j], of t] by auto
  qed
  moreover have "pd' j = Some p \<and> known t j" if j: "(j, p) \<in> set (pr_log s)" for j p
  proof (cases "j = i")
    case True
    then show ?thesis using D(6) [OF j] own(1,2) by auto
  next
    case False
    moreover have "j \<noteq> invalid_thread_id" using D(6) [OF j] D(8) by auto
    ultimately show ?thesis using D(6) [OF j] others [of j] grown_facts(3) [of j "pr_table s" t] by auto
  qed
  ultimately show ?thesis using new D(7,8) i others(1) [of invalid_thread_id] unfolding pr_inv_def by auto
qed

lemma counted_same: "in_flight pc = in_flight (pcs i) \<Longrightarrow> pr_counted (pcs(i := pc)) pd = pr_counted pcs pd"
  by (auto simp: pr_counted_def)

lemma lock_same:
  assumes "lock_inv t pcs" "pt_resizing t' = pt_resizing t" "main_hash t' = main_hash t" "locked pc = locked (pcs i)"
    "\<And>m. grows_from pc = Some m \<Longrightarrow> m = main_hash t"
  shows "lock_inv t' (pcs(i := pc))"
proof -
  have "locked ((pcs(i := pc)) j) = locked (pcs j)" for j using assms(4) by simp
  moreover have "grows_from ((pcs(i := pc)) j) = Some m \<Longrightarrow> m = main_hash t" for j m using assms(1,5) by (cases "j = i") (auto simp: lock_inv_def)
  ultimately show ?thesis using assms(1-3) unfolding lock_inv_def by presburger
qed

lemma list_same:
  assumes "list_inv t pcs pd xs" "pt_next t' = pt_next t" "pt_tail t' = pt_tail t" "pt_inactive t' = pt_inactive t" "pt_fresh t' = pt_fresh t"
    "linking pc = linking (pcs i)" "\<And>m p q. pc = H_PCAS m p q \<Longrightarrow> pt_next t p = q"
  shows "list_inv t' (pcs(i := pc)) pd xs"
proof -
  have l: "linking ((pcs(i := pc)) j) = linking (pcs j)" for j using assms(6) by simp
  have "(pcs(i := pc)) j = H_PCAS m p q \<Longrightarrow> pt_next t p = q" for j m p q using assms(1,7) by (cases "j = i") (auto simp: list_inv_def)
  then show ?thesis using assms(1) unfolding list_inv_def l assms(2-5) by blast
qed

text \<open>A step that changes nothing the invariant speaks of.\<close>

lemma local_step:
  assumes inv: "pr_inv s pd tk xs" and i: "i \<noteq> invalid_thread_id" and old: "\<nexists>m p k. pr_pcs s i = H_SET m p k"
    and t: "pt_hashes t = pt_hashes (pr_table s)" "pt_count t = pt_count (pr_table s)" "pt_resizing t = pt_resizing (pr_table s)"
      "pt_next t = pt_next (pr_table s)" "pt_tail t = pt_tail (pr_table s)" "pt_inactive t = pt_inactive (pr_table s)" "pt_fresh t = pt_fresh (pr_table s)"
    and new: "pr_thread_ok (pr_table s) i (pd i) (tk i) pc" "in_flight pc = in_flight (pr_pcs s i)" "locked pc = locked (pr_pcs s i)"
      "linking pc = linking (pr_pcs s i)" "\<And>m. grows_from pc = Some m \<Longrightarrow> m = main_hash (pr_table s)"
      "\<And>m p q. pc = H_PCAS m p q \<Longrightarrow> pt_next (pr_table s) p = q"
  shows "pr_inv (s\<lparr>pr_table := t, pr_pcs := (pr_pcs s)(i := pc)\<rparr>) pd tk xs"
proof -
  note D = pr_invD [OF inv]
  show ?thesis using new D(3) same_hashes [OF t(1)] t
    by (intro pr_inv_step [OF inv i] table_inv_same [OF D(1) t(1) old] lock_same [OF D(4)] list_same [OF D(5)]) (simp_all add: counted_same)
qed

end
