(* ===== verification/ProducerSteps.thy ===== *)
theory ProducerSteps
  imports ProducerSafe
begin

text \<open>
  Every step of a thread in \<open>get_or_add_implicit_producer\<close> keeps the invariant of \<open>ProducerSafe\<close>: the search and the
  entering of a thread, the count and the resizing, the list of the sub-queues.
\<close>

section \<open>Looking for a thread\<close>

lemma absent_at:
  assumes inv: "table_inv t pcs pd tk" and h: "h < length (pt_hashes t)" "i \<noteq> invalid_thread_id"
    and v: "visited t h i k" "first_index t h i \<le> k" "hash_key t h k = invalid_thread_id"
  shows "absent t h i"
  unfolding absent_def
proof
  fix k'
  show "hash_key t h k' \<noteq> i"
  proof
    assume k': "hash_key t h k' = i"
    then obtain e where e: "first_index t h i \<le> e" "e mod capacity_of t h = k' mod capacity_of t h" "visited t h i e"
      using table_invD(4) [OF inv h(1) k' h(2)] by (auto simp: entry_ok_def)
    have "hash_key t h e = i" using hash_key_mod(1) [OF e(2)] k' by simp
    then have "\<not> e < k" "e \<noteq> k" using v(1,3) e(1) h(2) by (auto simp: visited_def)
    then have "k < e" by simp
    then show False using e(3) v(2,3) by (auto simp: visited_def)
  qed
qed

lemma visited_first [simp]: "visited t h i (first_index t h i)"
  by (simp add: visited_def)

lemma visited_Suc: "visited t h i k \<Longrightarrow> hash_key t h k \<noteq> invalid_thread_id \<Longrightarrow> hash_key t h k \<noteq> i \<Longrightarrow> visited t h i (k + 1)"
  by (auto simp: visited_def less_Suc_eq)

lemma absent_from_Suc: "absent_from t (Suc h) i \<Longrightarrow> absent t h i \<Longrightarrow> absent_from t h i"
  unfolding absent_from_def by (metis Suc_leI order_le_less)

lemma look_step:
  assumes inv: "pr_inv s pd tk xs" and i: "i \<noteq> invalid_thread_id" and pc: "pr_pcs s i = H_LOOK m h k"
    and act: "producer_act ok i (pr_table s) (pr_pcs s i) = Some (t, pc')"
  shows "pr_inv (s\<lparr>pr_table := t, pr_pcs := (pr_pcs s)(i := pc')\<rparr>) pd tk xs"
proof -
  let ?t = "pr_table s"
  note D = pr_invD [OF inv]
  have ok: "m < length (pt_hashes ?t)" "h \<le> m" "absent_from ?t (Suc h) i" "visited ?t h i k" "first_index ?t h i \<le> k"
      "pd i \<noteq> None \<Longrightarrow> known ?t i" using D(2) [of i] pc by simp_all
  have h: "h < length (pt_hashes ?t)" using ok(1,2) by simp
  have t: "t = ?t" using act pc by (simp add: producer_act_def)
  have "pr_thread_ok ?t i (pd i) (tk i) pc' \<and> (\<nexists>m c. grows_from pc' = Some m) \<and> in_flight pc' = False \<and> locked pc' = False \<and> linking pc' = False"
  proof (cases "hash_key ?t h k = invalid_thread_id")
    case True
    then have a: "absent_from ?t h i" using absent_from_Suc [OF ok(3) absent_at [OF D(1) h i ok(4,5)]] by simp
    show ?thesis
    proof (cases h)
      case 0
      then have "pd i = None" using a ok(6) by (fastforce simp: known_def absent_from_def)
      then show ?thesis using act pc ok(1,6) True i 0 by (auto simp: producer_act_def)
    next
      case (Suc h')
      then show ?thesis using act pc ok True i a by (auto simp: producer_act_def)
    qed
  next
    case False
    then have "pc' = (if hash_key ?t h k = i then H_VALUE m h k else H_LOOK m h (k + 1))" using act pc False t by (auto simp: producer_act_def)
    then show ?thesis using ok visited_Suc [OF ok(4) False] by (cases "hash_key ?t h k = i") simp_all
  qed
  then show ?thesis using pc by (intro local_step [OF inv i]) (auto simp: t)
qed

lemma value_step:
  assumes inv: "pr_inv s pd tk xs" and i: "i \<noteq> invalid_thread_id" and pc: "pr_pcs s i = H_VALUE m h k"
    and act: "producer_act ok i (pr_table s) (pr_pcs s i) = Some (t, pc')"
  shows "pr_inv (s\<lparr>pr_table := t, pr_pcs := (pr_pcs s)(i := pc')\<rparr>) pd tk xs"
proof -
  let ?t = "pr_table s"
  note D = pr_invD [OF inv]
  have ok: "m < length (pt_hashes ?t)" "h \<le> m" "absent_from ?t (Suc h) i" "hash_key ?t h k = i" using D(2) [of i] pc by simp_all
  have h: "h < length (pt_hashes ?t)" using ok(1,2) by simp
  obtain p where p: "pd i = Some p" "hash_value ?t h k = Some p" "tk i < room ?t h"
    using table_invD(4) [OF D(1) h ok(4) i] pc by (auto simp: entry_ok_def)
  have t: "t = ?t" and pc': "pc' = (if h \<noteq> m then H_PROBE m p (first_index ?t m i) else H_RET (Some p))"
    using act pc p(2) by (auto simp: producer_act_def)
  have "room ?t h \<le> room ?t m" using table_invD(3) [OF D(1) ok(2,1)] by (simp add: room_def add_mono div_le_mono)
  then have "pr_thread_ok ?t i (pd i) (tk i) pc'"
    using ok p h unfolding pc' by (auto simp: probing_def absent_from_def known_def absent_def)
  then show ?thesis using pc by (intro local_step [OF inv i]) (auto simp: t pc' split: if_splits)
qed

section \<open>Entering a thread\<close>

lemma set_hash_key_simps:
  assumes "h < length (pt_hashes t)" "h' < length (pt_hashes t)"
  shows "capacity_of (set_hash_key h k i t) h' = capacity_of t h'"
    "hash_key (set_hash_key h k i t) h' k' = (if h' = h \<and> k' mod capacity_of t h = k mod capacity_of t h then i else hash_key t h' k')"
    "hash_value (set_hash_key h k i t) h' k' = hash_value t h' k'" "first_index (set_hash_key h k i t) h' j = first_index t h' j"
  using assms by (auto simp: set_hash_key_def set_hash_def first_index_def capacity_of_def hash_key_def hash_value_def nth_list_update)

lemma set_hash_value_simps:
  assumes "h < length (pt_hashes t)" "h' < length (pt_hashes t)"
  shows "capacity_of (set_hash_value h k p t) h' = capacity_of t h'"
    "hash_value (set_hash_value h k p t) h' k' = (if h' = h \<and> k' mod capacity_of t h = k mod capacity_of t h then p else hash_value t h' k')"
    "hash_key (set_hash_value h k p t) h' k' = hash_key t h' k'" "first_index (set_hash_value h k p t) h' j = first_index t h' j"
  using assms by (auto simp: set_hash_value_def set_hash_def first_index_def capacity_of_def hash_key_def hash_value_def nth_list_update)

lemma set_hash_rest [simp]:
  "length (pt_hashes (set_hash_key h k i t)) = length (pt_hashes t)" "length (pt_hashes (set_hash_value h k p t)) = length (pt_hashes t)"
  "pt_count (set_hash_key h k i t) = pt_count t" "pt_count (set_hash_value h k p t) = pt_count t"
  "pt_resizing (set_hash_key h k i t) = pt_resizing t" "pt_resizing (set_hash_value h k p t) = pt_resizing t"
  "pt_next (set_hash_key h k i t) = pt_next t" "pt_next (set_hash_value h k p t) = pt_next t"
  "pt_tail (set_hash_key h k i t) = pt_tail t" "pt_tail (set_hash_value h k p t) = pt_tail t"
  "pt_inactive (set_hash_key h k i t) = pt_inactive t" "pt_inactive (set_hash_value h k p t) = pt_inactive t"
  "pt_fresh (set_hash_key h k i t) = pt_fresh t" "pt_fresh (set_hash_value h k p t) = pt_fresh t"
  "main_hash (set_hash_key h k i t) = main_hash t" "main_hash (set_hash_value h k p t) = main_hash t"
  by (simp_all add: set_hash_key_def set_hash_value_def set_hash_def main_hash_def)

lemma table_inv_new:
  assumes "table_inv t pcs pd tk" "length (pt_hashes t') = length (pt_hashes t)" "\<And>h. h < length (pt_hashes t) \<Longrightarrow> capacity_of t' h = capacity_of t h"
    "\<And>h k i. h < length (pt_hashes t) \<Longrightarrow> hash_key t' h k = i \<Longrightarrow> i \<noteq> invalid_thread_id \<Longrightarrow> entry_ok t' pcs' pd' tk' h i k"
  shows "table_inv t' pcs' pd' tk'"
proof -
  have "pt_hashes t' \<noteq> []" using assms(1,2) by (auto simp: table_inv_def)
  moreover have "capacity_of t' h \<le> capacity_of t' h'" if "h \<le> h'" "h' < length (pt_hashes t)" for h h'
    using table_invD(3) [OF assms(1) that] that assms(3) by simp
  ultimately show ?thesis using table_invD(2) [OF assms(1)] assms(2-4) unfolding table_inv_def by simp
qed

lemma cas_step:
  assumes inv: "pr_inv s pd tk xs" and i: "i \<noteq> invalid_thread_id" and pc: "pr_pcs s i = H_CAS m p k"
    and act: "producer_act ok i (pr_table s) (pr_pcs s i) = Some (t, pc')" and free: "hash_key (pr_table s) m k = invalid_thread_id"
  shows "pr_inv (s\<lparr>pr_table := t, pr_pcs := (pr_pcs s)(i := pc')\<rparr>) pd tk xs"
proof -
  let ?t = "pr_table s" and ?pcs = "(pr_pcs s)(i := pc')"
  note D = pr_invD [OF inv]
  have ok: "m < length (pt_hashes ?t)" "pd i = Some p" "absent_from ?t m i" "visited ?t m i k" "first_index ?t m i \<le> k" "tk i < room ?t m"
    using D(2) [of i] pc by (simp_all add: probing_def)
  have t: "t = set_hash_key m k i ?t" and pc': "pc' = H_SET m p k" using act pc free by (simp_all add: producer_act_def)
  note H = set_hash_key_simps [OF ok(1), where k = k and i = i, folded t]
  have L: "length (pt_hashes t) = length (pt_hashes ?t)" by (simp add: t)
  have R: "room t h = room ?t h" if "h < length (pt_hashes ?t)" for h using H(1) [OF that] by (simp add: room_def)
  have F: "hash_key ?t m k' = invalid_thread_id" if "k' mod capacity_of ?t m = k mod capacity_of ?t m" for k'
    using hash_key_mod(1) [OF that] free by simp
  have g: "grown j ?t t" if "j \<noteq> i" "j \<noteq> invalid_thread_id" for j using that by (auto simp: grown_def L H F)
  have v: "visited t h j e" if v: "visited ?t h j e" "h < length (pt_hashes ?t)" for h j e
    unfolding visited_def
  proof (intro allI impI)
    fix e' assume e': "first_index t h j \<le> e'" "e' < e"
    then have "hash_key ?t h e' \<noteq> invalid_thread_id \<and> hash_key ?t h e' \<noteq> j" using v(1) H(4) [OF v(2)] by (simp add: visited_def)
    then show "hash_key t h e' \<noteq> invalid_thread_id \<and> hash_key t h e' \<noteq> j" using F [of e'] by (auto simp: H(2) [OF v(2)])
  qed
  have new: "entry_ok t ?pcs pd tk h j k'" if h: "h < length (pt_hashes ?t)" and j: "hash_key t h k' = j" "j \<noteq> invalid_thread_id" for h j k'
  proof (cases "h = m \<and> k' mod capacity_of ?t m = k mod capacity_of ?t m")
    case True
    then have "j = i" using j(1) H(2) [OF h] by simp
    then show ?thesis using True ok v [OF ok(4,1)] by (auto simp: entry_ok_def H(1,4) R pc' intro!: exI [of _ k])
  next
    case False
    then have old: "hash_key ?t h k' = j" using j(1) H(2) [OF h] by auto
    have "visited t h j e" if "visited ?t h j e" for e using v [OF that h] .
    moreover have "?pcs j = H_SET h p k" if "pr_pcs s j = H_SET h p k" for p k using that pc by (cases "j = i") auto
    ultimately show ?thesis using table_invD(4) [OF D(1) h old j(2)] unfolding entry_ok_def H(1,3,4) [OF h] R [OF h] by blast
  qed
  have "hash_key t m k = i" using H(2) [OF ok(1)] by simp
  then have k: "known t i" using ok(1) L by (auto simp: known_def absent_def)
  show ?thesis
  proof (rule pr_inv_step [OF inv i])
    show "pr_thread_ok t i (pd i) (tk i) pc'" using ok L H(2) [OF ok(1), of k] by (simp add: pc')
    show "table_inv t ?pcs pd tk" by (rule table_inv_new [OF D(1) L H(1) new])
    show "count_inv (pt_count t) (pr_counted ?pcs pd) tk" using D(3) pc by (simp add: counted_same pc' t)
    show "lock_inv t ?pcs" using pc by (intro lock_same [OF D(4)]) (simp_all add: pc' t)
    show "list_inv t ?pcs pd xs" using pc by (intro list_same [OF D(5)]) (simp_all add: pc' t)
  qed (use g k in auto)
qed

lemma set_step:
  assumes inv: "pr_inv s pd tk xs" and i: "i \<noteq> invalid_thread_id" and pc: "pr_pcs s i = H_SET m p k"
    and act: "producer_act ok i (pr_table s) (pr_pcs s i) = Some (t, pc')"
  shows "pr_inv (s\<lparr>pr_table := t, pr_pcs := (pr_pcs s)(i := pc')\<rparr>) pd tk xs"
proof -
  let ?t = "pr_table s" and ?pcs = "(pr_pcs s)(i := pc')"
  note D = pr_invD [OF inv]
  have ok: "m < length (pt_hashes ?t)" "pd i = Some p" "hash_key ?t m k = i" using D(2) [of i] pc by simp_all
  have t: "t = set_hash_value m k (Some p) ?t" and pc': "pc' = H_RET (Some p)" using act pc by (simp_all add: producer_act_def)
  note H = set_hash_value_simps [OF ok(1), where k = k and p = "Some p", folded t]
  have L: "length (pt_hashes t) = length (pt_hashes ?t)" by (simp add: t)
  have g: "grown j ?t t" for j by (auto simp: grown_def L H)
  have new: "entry_ok t ?pcs pd tk h j k'" if h: "h < length (pt_hashes ?t)" and j: "hash_key t h k' = j" "j \<noteq> invalid_thread_id" for h j k'
  proof -
    have key: "hash_key ?t h k' = j" using j(1) H(3) [OF h] by simp
    note E = table_invD(4) [OF D(1) h key j(2)]
    have "\<exists>p. pd j = Some p \<and> (hash_value t h k' = Some p \<or> (\<exists>k'. ?pcs j = H_SET h p k'))"
    proof (cases "j = i \<and> h = m")
      case True
      then have "k' mod capacity_of ?t m = k mod capacity_of ?t m" using one_place [OF D(1) ok(1) i] key ok(3) by blast
      then show ?thesis using True ok(2) H(2) [OF h] by simp
    next
      case False
      then have "j = i \<Longrightarrow> \<nexists>p k. pr_pcs s j = H_SET h p k" using pc by auto
      moreover have "hash_value t h k' = hash_value ?t h k'"
        using False H(2) [OF h, of k'] hash_key_mod(1) [of k' ?t m k] key ok(3) by auto
      ultimately show ?thesis using E by (cases "j = i") (auto simp: entry_ok_def)
    qed
    moreover have "visited t h j e" if "visited ?t h j e" for e using that unfolding visited_def H(3,4) [OF h] .
    ultimately show ?thesis using E H(1,4) [OF h] unfolding entry_ok_def room_def by auto
  qed
  have k: "known t i" using ok H(3) [OF ok(1)] L by (auto simp: known_def absent_def)
  show ?thesis
  proof (rule pr_inv_step [OF inv i])
    show "pr_thread_ok t i (pd i) (tk i) pc'" using ok k by (simp add: pc')
    show "table_inv t ?pcs pd tk" by (rule table_inv_new [OF D(1) L H(1) new])
    show "count_inv (pt_count t) (pr_counted ?pcs pd) tk" using D(3) pc by (simp add: counted_same pc' t)
    show "lock_inv t ?pcs" using pc by (intro lock_same [OF D(4)]) (simp_all add: pc' t)
    show "list_inv t ?pcs pd xs" using pc by (intro list_same [OF D(5)]) (simp_all add: pc' t)
  qed (use g k in auto)
qed

section \<open>The count and the resizing\<close>

lemma count_step:
  assumes inv: "pr_inv s pd tk xs" and i: "i \<noteq> invalid_thread_id" and pc: "pr_pcs s i = H_COUNT m"
    and act: "producer_act ok i (pr_table s) (pr_pcs s i) = Some (t, pc')"
  shows "pr_inv (s\<lparr>pr_table := t, pr_pcs := (pr_pcs s)(i := pc')\<rparr>) pd (tk(i := pt_count (pr_table s) + 1)) xs"
proof -
  let ?t = "pr_table s"
  note D = pr_invD [OF inv]
  have ok: "m < length (pt_hashes ?t)" "pd i = None" using D(2) [of i] pc by simp_all
  have t: "t = ?t\<lparr>pt_count := pt_count ?t + 1\<rparr>" and pc': "pc' = H_FULL m (pt_count ?t + 1)" using act pc by (simp_all add: producer_act_def)
  have h: "pt_hashes t = pt_hashes ?t" by (simp add: t)
  have c: "pr_counted ((pr_pcs s)(i := pc')) pd = insert i (pr_counted (pr_pcs s) pd)" "i \<notin> pr_counted (pr_pcs s) pd"
    using pc ok(2) by (auto simp: pr_counted_def pc')
  show ?thesis
  proof (rule pr_inv_step [OF inv i])
    show "table_inv t ((pr_pcs s)(i := pc')) pd (tk(i := pt_count ?t + 1))" using pc ok(2) by (intro table_inv_same [OF D(1) h]) auto
    show "count_inv (pt_count t) (pr_counted ((pr_pcs s)(i := pc')) pd) (tk(i := pt_count ?t + 1))"
      using count_inv_add [OF D(3) c(2)] unfolding c(1) by (simp add: t)
    show "lock_inv t ((pr_pcs s)(i := pc'))" using pc by (intro lock_same [OF D(4)]) (simp_all add: pc' t main_hash_def)
    show "list_inv t ((pr_pcs s)(i := pc')) pd xs" using pc by (intro list_same [OF D(5)]) (simp_all add: pc' t)
  qed (use ok same_hashes [OF h] in \<open>auto simp: pc' h\<close>)
qed

text \<open>A step that takes back the count.\<close>

lemma uncount_step:
  assumes inv: "pr_inv s pd tk xs" and i: "i \<noteq> invalid_thread_id" and t: "t = (pr_table s)\<lparr>pt_count := pt_count (pr_table s) - 1\<rparr>"
    and pc: "pd i = None" "in_flight (pr_pcs s i)" "\<not> in_flight pc'" "locked pc' = locked (pr_pcs s i)" "pr_thread_ok (pr_table s) i (pd i) (tk i) pc'"
      "linking pc' = linking (pr_pcs s i)" "grows_from pc' = None" "\<nexists>m p q. pc' = H_PCAS m p q"
  shows "pr_inv (s\<lparr>pr_table := t, pr_pcs := (pr_pcs s)(i := pc')\<rparr>) pd tk xs"
proof -
  note D = pr_invD [OF inv]
  have h: "pt_hashes t = pt_hashes (pr_table s)" by (simp add: t)
  have c: "pr_counted ((pr_pcs s)(i := pc')) pd = pr_counted (pr_pcs s) pd - {i}" "i \<in> pr_counted (pr_pcs s) pd"
    using pc by (auto simp: pr_counted_def)
  show ?thesis
  proof (rule pr_inv_step [OF inv i])
    show "table_inv t ((pr_pcs s)(i := pc')) pd tk" using pc(2) by (intro table_inv_same [OF D(1) h]) auto
    show "count_inv (pt_count t) (pr_counted ((pr_pcs s)(i := pc')) pd) tk" using count_inv_remove [OF D(3) c(2)] unfolding c(1) by (simp add: t)
    show "lock_inv t ((pr_pcs s)(i := pc'))" using pc by (intro lock_same [OF D(4)]) (simp_all add: t main_hash_def)
    show "list_inv t ((pr_pcs s)(i := pc')) pd xs" using pc by (intro list_same [OF D(5)]) (simp_all add: t)
  qed (use pc same_hashes [OF h] in \<open>auto simp: h\<close>)
qed

text \<open>A step that takes or frees the lock.\<close>

lemma lock_step:
  assumes inv: "pr_inv s pd tk xs" and i: "i \<noteq> invalid_thread_id" and t: "t = (pr_table s)\<lparr>pt_resizing := locked pc'\<rparr>"
    and own: "locked (pr_pcs s i) \<or> \<not> pt_resizing (pr_table s)"
    and pc: "in_flight pc' = in_flight (pr_pcs s i)" "pr_thread_ok (pr_table s) i (pd i) (tk i) pc'"
      "linking pc' = linking (pr_pcs s i)" "grows_from pc' = None" "\<nexists>m p k. pr_pcs s i = H_SET m p k" "\<nexists>m p q. pc' = H_PCAS m p q"
  shows "pr_inv (s\<lparr>pr_table := t, pr_pcs := (pr_pcs s)(i := pc')\<rparr>) pd tk xs"
proof -
  note D = pr_invD [OF inv]
  have h: "pt_hashes t = pt_hashes (pr_table s)" by (simp add: t)
  have no: "\<not> locked (pr_pcs s j)" if "j \<noteq> i" for j using D(4) own that by (auto simp: lock_inv_def)
  have "grows_from (((pr_pcs s)(i := pc')) j) = Some m \<Longrightarrow> m = main_hash (pr_table s)" for j m
    using D(4) pc(4) by (cases "j = i") (auto simp: lock_inv_def)
  then have l: "lock_inv t ((pr_pcs s)(i := pc'))" using no same_hashes(4) [OF h] by (auto simp: lock_inv_def t)
  show ?thesis
  proof (rule pr_inv_step [OF inv i])
    show "table_inv t ((pr_pcs s)(i := pc')) pd tk" using pc(5) by (intro table_inv_same [OF D(1) h]) auto
    show "count_inv (pt_count t) (pr_counted ((pr_pcs s)(i := pc')) pd) tk" using D(3) pc(1) by (simp add: counted_same t)
    show "list_inv t ((pr_pcs s)(i := pc')) pd xs" using pc by (intro list_same [OF D(5)]) (simp_all add: t)
  qed (use pc l same_hashes [OF h] in \<open>auto simp: h\<close>)
qed

lemma grow_capacity_ge: "n \<le> grow_capacity c n"
proof (induction c n rule: grow_capacity.induct)
  case (1 c n)
  show ?case
  proof (cases "0 < n \<and> n div 2 \<le> c")
    case True
    then show ?thesis using 1 [OF True] by (subst grow_capacity.simps) simp
  qed (subst grow_capacity.simps, auto)
qed

lemma store_step:
  assumes inv: "pr_inv s pd tk xs" and i: "i \<noteq> invalid_thread_id" and pc: "pr_pcs s i = H_STORE m c n"
    and act: "producer_act ok i (pr_table s) (pr_pcs s i) = Some (t, pc')"
  shows "pr_inv (s\<lparr>pr_table := t, pr_pcs := (pr_pcs s)(i := pc')\<rparr>) pd tk xs"
proof -
  let ?t = "pr_table s" and ?pcs = "(pr_pcs s)(i := pc')" and ?n = "length (pt_hashes (pr_table s))"
  note D = pr_invD [OF inv]
  have m: "m = main_hash ?t" using D(4) pc unfolding lock_inv_def by (metis grows_from.simps(2))
  have ok: "pd i = None" "c = tk i" "capacity_of ?t m \<le> n" using D(2) [of i] pc by simp_all
  have t: "t = ?t\<lparr>pt_hashes := pt_hashes ?t @ [new_hash n]\<rparr>" and pc': "pc' = H_UNLOCK ?n c"
    using act pc by (simp_all add: producer_act_def producer_list_act_def resize_act_def)
  have L: "length (pt_hashes t) = Suc ?n" by (simp add: t)
  have old: "capacity_of t h = capacity_of ?t h" "hash_key t h k = hash_key ?t h k" "hash_value t h k = hash_value ?t h k"
      "first_index t h j = first_index ?t h j" if "h < ?n" for h k j
    using that by (simp_all add: t first_index_def capacity_of_def hash_key_def hash_value_def nth_append)
  have last: "capacity_of t ?n = n" "hash_key t ?n k = invalid_thread_id" for k
    by (simp_all add: t capacity_of_def hash_key_def new_hash_def)
  have g: "grown j ?t t" if "j \<noteq> invalid_thread_id" for j
    using that last(2) by (auto simp: grown_def L old absent_def less_Suc_eq_le)
  have le: "capacity_of ?t h \<le> n" if "h < ?n" for h
  proof -
    have "h \<le> m" using that by (simp add: m main_hash_def)
    then show ?thesis using table_invD(3) [OF D(1), of h m] table_invD(5) [OF D(1)] ok(3) m by simp
  qed
  have "0 < n" using table_invD(2,5) [OF D(1)] ok(3) by (metis m le_less_trans not_less0 neq0_conv leD)
  moreover have "capacity_of t h \<le> capacity_of t h'" if "h \<le> h'" "h' < Suc ?n" for h h'
  proof (cases "h = h'")
    case False
    then have "h < ?n" using that by simp
    then show ?thesis using table_invD(3) [OF D(1) that(1)] that(2) le [of h] by (cases "h' = ?n") (auto simp: old last)
  qed simp
  moreover have "entry_ok t ?pcs pd tk h j k" if "h < Suc ?n" "hash_key t h k = j" "j \<noteq> invalid_thread_id" for h k j
  proof -
    have h: "h < ?n" using that last by (cases "h = ?n") auto
    have "?pcs j = H_SET h p k" if "pr_pcs s j = H_SET h p k" for p k using that pc by (cases "j = i") auto
    moreover have "hash_key ?t h k = j" using that(2) old(2) [OF h] by simp
    ultimately show ?thesis using table_invD(4) [OF D(1) h _ that(3)] unfolding entry_ok_def visited_def room_def old [OF h] by blast
  qed
  ultimately have ti: "table_inv t ?pcs pd tk" unfolding table_inv_def L using table_invD(2) [OF D(1)]
    by (auto simp: less_Suc_eq old last(1)) (simp_all add: t)
  have no: "\<not> locked (pr_pcs s j)" if "j \<noteq> i" for j using D(4) pc that unfolding lock_inv_def by (metis locked.simps(3))
  then have ng: "grows_from (pr_pcs s j) = None" if "j \<noteq> i" for j using that by (cases "pr_pcs s j") (use no [of j] in auto)
  show ?thesis
  proof (rule pr_inv_step [OF inv i])
    show "count_inv (pt_count t) (pr_counted ?pcs pd) tk" using D(3) pc by (simp add: counted_same t pc')
    have "pt_resizing ?t" using D(4) pc unfolding lock_inv_def by (metis locked.simps(3))
    then show "lock_inv t ?pcs" using no ng unfolding lock_inv_def by (auto simp: pc' t split: if_splits)
    show "list_inv t ?pcs pd xs" using pc by (intro list_same [OF D(5)]) (simp_all add: t pc')
    show "known ?t i \<Longrightarrow> known t i" using grown_facts(3) [OF g [OF i]] .
  qed (use ok g ti L in \<open>auto simp: pc'\<close>)
qed

section \<open>The list of the sub-queues\<close>

lemma list_invD:
  assumes "list_inv t pcs pd xs"
  shows "chained (pt_next t) (pt_tail t) xs" "distinct xs" "pt_inactive t = {}"
    "p \<in> set xs \<longleftrightarrow> (\<exists>i. pd i = Some p \<and> \<not> linking (pcs i))" "pd i = Some p \<Longrightarrow> p < pt_fresh t"
    "pd i = Some p \<Longrightarrow> pd j = Some p \<Longrightarrow> i = j" "pcs i = H_PCAS m p q \<Longrightarrow> pt_next t p = q"
  using assms unfolding list_inv_def by simp_all

lemma new_step:
  assumes inv: "pr_inv s pd tk xs" and i: "i \<noteq> invalid_thread_id" and pc: "pr_pcs s i = H_NEW m c"
    and t: "t = (pr_table s)\<lparr>pt_fresh := pt_fresh (pr_table s) + 1\<rparr>" and pc': "pc' = H_PCOUNT m (pt_fresh (pr_table s))"
  shows "pr_inv (s\<lparr>pr_table := t, pr_pcs := (pr_pcs s)(i := pc')\<rparr>) (pd(i := Some (pt_fresh (pr_table s)))) tk xs"
proof -
  let ?t = "pr_table s" and ?p = "pt_fresh (pr_table s)" and ?pcs = "(pr_pcs s)(i := pc')"
  note D = pr_invD [OF inv]
  have ok: "m < length (pt_hashes ?t)" "pd i = None" "tk i < room ?t m" using D(2) [of i] pc by simp_all
  have h: "pt_hashes t = pt_hashes ?t" by (simp add: t)
  have a: "absent_from t 0 i" using no_producer_absent [OF D(1) ok(2) i, of 0] by (simp add: absent_from_def h same_hashes(8) [OF h])
  note LI = list_invD [OF D(5)]
  show ?thesis
  proof (rule pr_inv_step [OF inv i])
    show "table_inv t ?pcs (pd(i := Some ?p)) tk" using pc ok(2) by (intro table_inv_same [OF D(1) h]) auto
    have "pr_counted ?pcs (pd(i := Some ?p)) = pr_counted (pr_pcs s) pd" using pc by (auto simp: pr_counted_def)
    then show "count_inv (pt_count t) (pr_counted ?pcs (pd(i := Some ?p))) tk" using D(3) by (simp add: t)
    show "lock_inv t ?pcs" using pc by (intro lock_same [OF D(4)]) (simp_all add: pc' t main_hash_def)
    have "((pd(i := Some ?p)) j = Some p \<and> \<not> linking (?pcs j)) = (pd j = Some p \<and> \<not> linking (pr_pcs s j))" for j p
      using ok(2) by (simp add: pc')
    then have "p \<in> set xs \<longleftrightarrow> (\<exists>j. (pd(i := Some ?p)) j = Some p \<and> \<not> linking (?pcs j))" for p
      using LI(4) by simp
    moreover have "(pd(i := Some ?p)) j = Some p \<Longrightarrow> p < pt_fresh t" for j p using LI(5) [of j p] by (auto simp: t split: if_splits)
    moreover have "(pd(i := Some ?p)) j = Some p \<Longrightarrow> (pd(i := Some ?p)) k = Some p \<Longrightarrow> j = k" for j k p
      using LI(6) [of j p k] LI(5) [of j p] LI(5) [of k p] by (auto split: if_splits)
    moreover have "?pcs j = H_PCAS m' p q \<Longrightarrow> pt_next t p = q" for j m' p q using LI(7) [of j m' p q] by (cases "j = i") (simp_all add: t pc')
    moreover have "chained (pt_next t) (pt_tail t) xs" "pt_inactive t = {}" using LI(1,3) by (simp_all add: t)
    ultimately show "list_inv t ?pcs (pd(i := Some ?p)) xs" using LI(2) unfolding list_inv_def by blast
  qed (use ok a same_hashes [OF h] in \<open>auto simp: pc' h\<close>)
qed

lemma own_producer_unlisted:
  assumes "list_inv t pcs pd xs" "pd i = Some p" "linking (pcs i)"
  shows "p \<notin> set xs" "pd j = Some p \<Longrightarrow> j = i"
  using assms unfolding list_inv_def by metis+

lemma pnext_step:
  assumes inv: "pr_inv s pd tk xs" and i: "i \<noteq> invalid_thread_id" and pc: "pr_pcs s i = H_PNEXT m p q"
    and t: "t = (pr_table s)\<lparr>pt_next := (pt_next (pr_table s))(p := q)\<rparr>" and pc': "pc' = H_PCAS m p q"
  shows "pr_inv (s\<lparr>pr_table := t, pr_pcs := (pr_pcs s)(i := pc')\<rparr>) pd tk xs"
proof -
  let ?t = "pr_table s" and ?pcs = "(pr_pcs s)(i := pc')"
  note D = pr_invD [OF inv]
  have ok: "m < length (pt_hashes ?t)" "pd i = Some p" "absent_from ?t 0 i" "tk i < room ?t m" using D(2) [of i] pc by simp_all
  have h: "pt_hashes t = pt_hashes ?t" by (simp add: t)
  have a: "absent_from t 0 i" using ok(3) by (simp add: absent_from_def h same_hashes(8) [OF h])
  have u: "p \<notin> set xs" using own_producer_unlisted(1) [OF D(5) ok(2)] pc by simp
  have l: "linking (?pcs j) = linking (pr_pcs s j)" for j using pc by (simp add: pc')
  have "pt_next t p' = q'" if c: "?pcs j = H_PCAS m' p' q'" for j m' p' q'
  proof (cases "j = i")
    case False
    then have j: "pr_pcs s j = H_PCAS m' p' q'" using c by simp
    then have "pd j = Some p'" using D(2) [of j] by simp
    then have "p' \<noteq> p" using own_producer_unlisted(2) [OF D(5) ok(2), of j] pc False by auto
    then show ?thesis using D(5) j unfolding list_inv_def by (auto simp: t)
  qed (use c in \<open>simp add: pc' t\<close>)
  then have li: "list_inv t ?pcs pd xs" using D(5) u unfolding list_inv_def l by (auto simp: t)
  show ?thesis
  proof (rule pr_inv_step [OF inv i])
    show "table_inv t ?pcs pd tk" using pc by (intro table_inv_same [OF D(1) h]) auto
    show "count_inv (pt_count t) (pr_counted ?pcs pd) tk" using D(3) pc by (simp add: counted_same pc' t)
    show "lock_inv t ?pcs" using pc by (intro lock_same [OF D(4)]) (simp_all add: pc' t main_hash_def)
  qed (use ok a li same_hashes [OF h] in \<open>auto simp: pc' h\<close>)
qed

lemma pcas_step:
  assumes inv: "pr_inv s pd tk xs" and i: "i \<noteq> invalid_thread_id" and pc: "pr_pcs s i = H_PCAS m p q"
    and t: "t = (pr_table s)\<lparr>pt_tail := Some p\<rparr>" and pc': "pc' = H_PROBE m p (first_index (pr_table s) m i)" and q: "pt_tail (pr_table s) = q"
  shows "pr_inv (s\<lparr>pr_table := t, pr_pcs := (pr_pcs s)(i := pc')\<rparr>) pd tk (p # xs)"
proof -
  let ?t = "pr_table s" and ?pcs = "(pr_pcs s)(i := pc')"
  note D = pr_invD [OF inv]
  have ok: "m < length (pt_hashes ?t)" "pd i = Some p" "absent_from ?t 0 i" "tk i < room ?t m" using D(2) [of i] pc by simp_all
  have h: "pt_hashes t = pt_hashes ?t" by (simp add: t)
  have a: "absent_from t m i" using ok(3) by (simp add: absent_from_def h same_hashes(8) [OF h])
  have u: "p \<notin> set xs" "\<And>j. pd j = Some p \<Longrightarrow> j = i" using own_producer_unlisted [OF D(5) ok(2)] pc by auto
  have n: "pt_next ?t p = q" using D(5) pc unfolding list_inv_def by blast
  have mem: "p' \<in> set xs \<longleftrightarrow> (\<exists>j. pd j = Some p' \<and> \<not> linking (pr_pcs s j))" for p' using D(5) unfolding list_inv_def by blast
  have "p' \<in> set (p # xs) \<longleftrightarrow> (\<exists>j. pd j = Some p' \<and> \<not> linking (?pcs j))" for p'
  proof (cases "p' = p")
    case True
    then show ?thesis using ok(2) by (auto simp: pc' intro!: exI [of _ i])
  next
    case False
    then have "(pd j = Some p' \<and> \<not> linking (pr_pcs s j)) = (pd j = Some p' \<and> \<not> linking (?pcs j))" for j using ok(2) by (simp add: pc')
    then show ?thesis using False mem [of p'] by simp
  qed
  then have li: "list_inv t ?pcs pd (p # xs)" using D(5) u(1) n q unfolding list_inv_def by (auto simp: t pc' split: if_splits)
  show ?thesis
  proof (rule pr_inv_step [OF inv i])
    show "table_inv t ?pcs pd tk" using pc by (intro table_inv_same [OF D(1) h]) auto
    show "count_inv (pt_count t) (pr_counted ?pcs pd) tk" using D(3) pc by (simp add: counted_same pc' t)
    show "lock_inv t ?pcs" using pc by (intro lock_same [OF D(4)]) (simp_all add: pc' t main_hash_def)
  qed (use ok a li same_hashes [OF h] in \<open>auto simp: pc' h probing_def\<close>)
qed

section \<open>Every step\<close>

lemmas pr_acts = producer_act_def producer_list_act_def resize_act_def

text \<open>The steps that change no shared variable, or only \<open>producerCount\<close>.\<close>

lemma unshared_step:
  assumes inv: "pr_inv s pd tk xs" and i: "i \<noteq> invalid_thread_id" and act: "producer_act ok i (pr_table s) (pr_pcs s i) = Some (t, pc')"
    and pc: "pr_pcs s i = H_START \<or> (\<exists>m p k. pr_pcs s i = H_PROBE m p k) \<or> (\<exists>c. pr_pcs s i = H_RELOAD c) \<or> (\<exists>m c. pr_pcs s i = H_GROW m c)
      \<or> (\<exists>m c. pr_pcs s i = H_CHECK m c) \<or> (\<exists>c. pr_pcs s i = H_WAIT c) \<or> (\<exists>m c. pr_pcs s i = H_SEARCH m c)
      \<or> (\<exists>m c p. pr_pcs s i = H_SCAN m c p) \<or> (\<exists>m p. pr_pcs s i = H_PCOUNT m p) \<or> (\<exists>m p. pr_pcs s i = H_PLOAD m p)"
  shows "pr_inv (s\<lparr>pr_table := t, pr_pcs := (pr_pcs s)(i := pc')\<rparr>) pd tk xs"
proof -
  let ?t = "pr_table s"
  note D = pr_invD [OF inv]
  have ok: "pr_thread_ok ?t i (pd i) (tk i) (pr_pcs s i)" by (rule D(2))
  have main: "main_hash ?t < length (pt_hashes ?t)" by (rule table_invD(5) [OF D(1)])
  have none: "pt_inactive ?t = {}" by (rule list_invD(3) [OF D(5)])
  have grow: "grows_from (pr_pcs s i) = Some m \<Longrightarrow> m = main_hash ?t" for m using D(4) by (simp add: lock_inv_def)
  have ge: "capacity_of ?t m \<le> grow_capacity c (2 * capacity_of ?t m)" for m c
    using grow_capacity_ge [of "2 * capacity_of ?t m" c] by simp
  have af: "absent_from ?t (Suc (main_hash ?t)) i" by (auto simp: absent_from_def main_hash_def)
  have "pr_thread_ok ?t i (pd i) (tk i) pc'"
    using pc act ok main ge af none visited_Suc [of ?t _ i]
    by (elim disjE exE)
      (auto simp: pr_acts probing_def room_def absent_from_def absent_def split: if_splits option.splits)
  moreover have "in_flight pc' = in_flight (pr_pcs s i)" "locked pc' = locked (pr_pcs s i)" "linking pc' = linking (pr_pcs s i)"
    "\<And>m. grows_from pc' = Some m \<Longrightarrow> m = main_hash ?t" "\<nexists>m p q. pc' = H_PCAS m p q" "\<nexists>m p k. pr_pcs s i = H_SET m p k"
    using pc act none grow by (elim disjE exE; auto simp: pr_acts split: if_splits option.splits)+
  moreover have "pt_hashes t = pt_hashes ?t \<and> pt_count t = pt_count ?t \<and> pt_resizing t = pt_resizing ?t \<and> pt_next t = pt_next ?t
      \<and> pt_tail t = pt_tail ?t \<and> pt_inactive t = pt_inactive ?t \<and> pt_fresh t = pt_fresh ?t"
    using pc act by (elim disjE exE) (auto simp: pr_acts split: if_splits option.splits)
  ultimately show ?thesis by (intro local_step [OF inv i]) auto
qed

lemma pr_act_inv:
  assumes inv: "pr_inv s pd tk xs" and act: "producer_act ok i (pr_table s) (pr_pcs s i) = Some (t, pc')"
  shows "\<exists>pd tk xs. pr_inv (s\<lparr>pr_table := t, pr_pcs := (pr_pcs s)(i := pc')\<rparr>) pd tk xs"
proof -
  let ?t = "pr_table s" and ?s = "s\<lparr>pr_table := t, pr_pcs := (pr_pcs s)(i := pc')\<rparr>"
  note D = pr_invD [OF inv]
  have i: "i \<noteq> invalid_thread_id" using D(7) act by (auto simp: pr_acts)
  have ok: "pr_thread_ok ?t i (pd i) (tk i) (pr_pcs s i)" by (rule D(2))
  have lock: "locked (pr_pcs s i) \<Longrightarrow> pt_resizing ?t" using D(4) unfolding lock_inv_def by blast
  note quiet = unshared_step [OF inv i act]
  show ?thesis
  proof (cases "pr_pcs s i")
    case (H_FULL m c)
    show ?thesis
    proof (cases "capacity_of ?t m div 2 \<le> c \<and> \<not> pt_resizing ?t")
      case True
      then have t: "t = ?t\<lparr>pt_resizing := True\<rparr>" and pc': "pc' = H_RELOAD c" using H_FULL act by (simp_all add: pr_acts)
      have "pr_inv (s\<lparr>pr_table := t, pr_pcs := (pr_pcs s)(i := pc')\<rparr>) pd tk xs"
        using H_FULL ok True by (intro lock_step [OF inv i]) (auto simp: t pc')
      then show ?thesis by blast
    next
      case False
      then have "pr_inv ?s pd tk xs" using H_FULL act ok by (intro local_step [OF inv i]) (auto simp: pr_acts)
      then show ?thesis by blast
    qed
  next
    case (H_PROBE m p k)
    then show ?thesis using quiet by blast
  next
    case (H_CAS m p k)
    show ?thesis
    proof (cases "hash_key ?t m k = invalid_thread_id")
      case True
      then show ?thesis using cas_step [OF inv i H_CAS act] by blast
    next
      case False
      then have "t = ?t" "pc' = H_PROBE m p (k + 1)" using H_CAS act by (simp_all add: producer_act_def)
      moreover have "hash_key ?t m k \<noteq> i" using ok H_CAS by (auto simp: probing_def absent_from_def absent_def)
      ultimately have "pr_inv ?s pd tk xs" using H_CAS ok visited_Suc [of ?t m i k] False
        by (intro local_step [OF inv i]) (auto simp: probing_def)
      then show ?thesis by blast
    qed
  next
    case (H_UNLOCK m c)
    then have "pr_inv ?s pd tk xs" using act ok by (intro lock_step [OF inv i]) (auto simp: pr_acts)
    then show ?thesis by blast
  next
    case (H_FAIL c)
    then have "pr_inv ?s pd tk xs" using act ok by (intro uncount_step [OF inv i]) (auto simp: pr_acts)
    then show ?thesis by blast
  next
    case H_FAIL_UNLOCK
    then have "pr_inv ?s pd tk xs" using act ok by (intro lock_step [OF inv i]) (auto simp: pr_acts)
    then show ?thesis by blast
  next
    case (H_NOPROD c)
    then have "pr_inv ?s pd tk xs" using act ok by (intro uncount_step [OF inv i]) (auto simp: pr_acts)
    then show ?thesis by blast
  next
    case (H_NEW m c)
    show ?thesis
    proof (cases ok)
      case True
      then have "t = ?t\<lparr>pt_fresh := pt_fresh ?t + 1\<rparr>" "pc' = H_PCOUNT m (pt_fresh ?t)" using H_NEW act by (simp_all add: pr_acts)
      then show ?thesis using new_step [OF inv i H_NEW] by blast
    next
      case False
      then have "pr_inv ?s pd tk xs" using H_NEW act ok by (intro local_step [OF inv i]) (auto simp: pr_acts)
      then show ?thesis by blast
    qed
  next
    case (H_PNEXT m p q)
    then have "t = ?t\<lparr>pt_next := (pt_next ?t)(p := q)\<rparr>" "pc' = H_PCAS m p q" using act by (simp_all add: pr_acts)
    then show ?thesis using pnext_step [OF inv i H_PNEXT] by blast
  next
    case (H_PCAS m p q)
    show ?thesis
    proof (cases "ok \<and> pt_tail ?t = q")
      case True
      then have "t = ?t\<lparr>pt_tail := Some p\<rparr>" "pc' = H_PROBE m p (first_index ?t m i)" using H_PCAS act by (auto simp: pr_acts)
      then show ?thesis using True pcas_step [OF inv i H_PCAS] by blast
    next
      case False
      then have "pr_inv ?s pd tk xs" using H_PCAS act ok by (intro local_step [OF inv i]) (auto simp: pr_acts)
      then show ?thesis by blast
    qed
  next
    case (H_STORE m c n)
    then show ?thesis using store_step [OF inv i H_STORE act] by blast
  next
    case (H_LOOK m h k)
    then show ?thesis using look_step [OF inv i H_LOOK act] by blast
  next
    case (H_VALUE m h k)
    then show ?thesis using value_step [OF inv i H_VALUE act] by blast
  next
    case (H_SET m p k)
    then show ?thesis using set_step [OF inv i H_SET act] by blast
  next
    case (H_COUNT m)
    then show ?thesis using count_step [OF inv i H_COUNT act] by blast
  qed (use ok act quiet in \<open>auto simp: pr_acts\<close>)
qed

lemma pr_step_inv:
  assumes step: "pr_step s s'" and inv: "pr_inv s pd tk xs"
  shows "\<exists>pd tk xs. pr_inv s' pd tk xs"
  using step
proof cases
  case (pr_run ok i t pc)
  then show ?thesis using pr_act_inv [OF inv] by blast
next
  case (pr_call i)
  have "pr_thread_ok (pr_table s) i (pd i) (tk i) H_START" using pr_invD(2) [OF inv, of i] pr_call(2) by simp
  then have "pr_inv (s\<lparr>pr_table := pr_table s, pr_pcs := (pr_pcs s)(i := H_START)\<rparr>) pd tk xs"
    using pr_call(2) by (intro local_step [OF inv pr_call(3)]) auto
  then show ?thesis using pr_call(1) by auto
next
  case (pr_return i r)
  have i: "i \<noteq> invalid_thread_id" using pr_invD(7) [OF inv] pr_return(2) by auto
  have ok: "pr_thread_ok (pr_table s) i (pd i) (tk i) (H_RET r)" using pr_invD(2) [OF inv, of i] pr_return(2) by simp
  then have "pr_inv (s\<lparr>pr_table := pr_table s, pr_pcs := (pr_pcs s)(i := H_IDLE)\<rparr>) pd tk xs"
    using pr_return(2) by (intro local_step [OF inv i]) auto
  moreover have "pd i = Some p \<and> known (pr_table s) i" if "r = Some p" for p using ok that by auto
  ultimately have "pr_inv s' pd tk xs" unfolding pr_return(1) pr_inv_def by (auto split: option.splits)
  then show ?thesis by blast
qed

lemma pr_inv_init: "pr_inv \<lparr>pr_table = new_producer_table, pr_pcs = \<lambda>_. H_IDLE, pr_log = []\<rparr> (\<lambda>_. None) (\<lambda>_. 0) []"
  by (auto simp: pr_inv_def table_inv_def new_producer_table_def INITIAL_IMPLICIT_PRODUCER_HASH_SIZE_def new_hash_def capacity_of_def
      hash_key_def count_inv_def pr_counted_def lock_inv_def list_inv_def)

lemma pr_reach_inv: "pr_reach s \<Longrightarrow> \<exists>pd tk xs. pr_inv s pd tk xs"
proof (induction rule: pr_reach.induct)
  case pr_init
  then show ?case using pr_inv_init by blast
next
  case (pr_next s s')
  then show ?case using pr_step_inv by blast
qed

end
