(* ===== verification/ProducerRuns.thy ===== *)
theory ProducerRuns
  imports ProducerSteps
begin

text \<open>
  What every run of the table of sub-queues has: each thread gets one sub-queue, its own, which is on the
  list; every table keeps a free place; and a thread that has a sub-queue finds it in a bounded number of steps.
\<close>

section \<open>A free place\<close>

lemma table_keeps_free_place:
  assumes inv: "pr_inv s pd tk xs" and h: "h < length (pt_hashes (pr_table s))"
  obtains k where "k < capacity_of (pr_table s) h" "hash_key (pr_table s) h k = invalid_thread_id"
proof -
  let ?t = "pr_table s"
  let ?n = "capacity_of ?t h"
  note D = pr_invD [OF inv]
  have "\<exists>k < ?n. hash_key ?t h k = invalid_thread_id"
  proof (rule ccontr)
    assume none: "\<not> (\<exists>k < ?n. hash_key ?t h k = invalid_thread_id)"
    let ?A = "{j \<in> pr_counted (pr_pcs s) pd. tk j \<le> room ?t h - 1}"
    have n: "0 < ?n" by (rule table_invD(2) [OF D(1) h])
    have "inj_on (hash_key ?t h) {..<?n}"
    proof (rule inj_onI)
      fix k k' assume k: "k \<in> {..<?n}" "k' \<in> {..<?n}" "hash_key ?t h k = hash_key ?t h k'"
      then have "hash_key ?t h k' \<noteq> invalid_thread_id" using none by auto
      then show "k = k'" using one_place [OF D(1) h _ k(3) refl] k(1,2) by simp
    qed
    moreover have used: "hash_key ?t h k \<in> ?A \<and> 0 < room ?t h" if "k < ?n" for k
      using table_invD(4) [OF D(1) h refl, of k] none that by (auto simp: entry_ok_def pr_counted_def)
    then have "hash_key ?t h ` {..<?n} \<subseteq> ?A" by blast
    ultimately have "?n \<le> card ?A" using card_mono [of ?A "hash_key ?t h ` {..<?n}"] by (simp add: card_image)
    also have "\<dots> \<le> room ?t h - 1" using D(3) by (simp add: count_inv_def)
    finally show False using used [OF n] unfolding room_def by linarith
  qed
  then show thesis using that by blast
qed

lemma probes_bounded:
  assumes inv: "pr_inv s pd tk xs" and h: "h < length (pt_hashes (pr_table s))" and v: "visited (pr_table s) h i k" "first_index (pr_table s) h i \<le> k"
  shows "k < first_index (pr_table s) h i + capacity_of (pr_table s) h"
proof (rule ccontr)
  let ?n = "capacity_of (pr_table s) h"
  assume far: "\<not> k < first_index (pr_table s) h i + ?n"
  obtain e where e: "e < ?n" "hash_key (pr_table s) h e = invalid_thread_id" by (rule table_keeps_free_place [OF inv h])
  let ?e = "first_index (pr_table s) h i + (e + ?n * first_index (pr_table s) h i - first_index (pr_table s) h i) mod ?n"
  have n: "0 < ?n" using e(1) by simp
  then have le: "first_index (pr_table s) h i \<le> e + ?n * first_index (pr_table s) h i" by (cases ?n) auto
  have "?e mod ?n = (first_index (pr_table s) h i + (e + ?n * first_index (pr_table s) h i - first_index (pr_table s) h i)) mod ?n" by (simp add: mod_simps)
  also have "\<dots> = e mod ?n" using le by simp
  finally have "hash_key (pr_table s) h ?e = invalid_thread_id" using hash_key_mod(1) [of ?e "pr_table s" h e] e by simp
  moreover have "first_index (pr_table s) h i \<le> ?e" "?e < first_index (pr_table s) h i + ?n" using n by simp_all
  ultimately show False using v(1) far unfolding visited_def by (metis le_less_trans not_less order_less_le_trans)
qed

section \<open>A schedule\<close>

datatype pr_event = P_RUN u64 | P_CALL u64 | P_RETURN u64

fun pr_event_act :: "pr_event \<Rightarrow> producer_threads \<Rightarrow> producer_threads option" where
  "pr_event_act (P_RUN i) s = (case producer_act True i (pr_table s) (pr_pcs s i) of
     Some (t, pc) \<Rightarrow> Some (s\<lparr>pr_table := t, pr_pcs := (pr_pcs s)(i := pc)\<rparr>) | None \<Rightarrow> None)"
| "pr_event_act (P_CALL i) s = (if pr_pcs s i = H_IDLE \<and> i \<noteq> invalid_thread_id then Some (s\<lparr>pr_pcs := (pr_pcs s)(i := H_START)\<rparr>) else None)"
| "pr_event_act (P_RETURN i) s = (case pr_pcs s i of
     H_RET r \<Rightarrow> Some (s\<lparr>pr_pcs := (pr_pcs s)(i := H_IDLE), pr_log := pr_log s @ (case r of None \<Rightarrow> [] | Some p \<Rightarrow> [(i, p)])\<rparr>) | _ \<Rightarrow> None)"

fun pr_exec :: "pr_event list \<Rightarrow> producer_threads \<Rightarrow> producer_threads option" where
  "pr_exec [] s = Some s"
| "pr_exec (e # es) s = Option.bind (pr_event_act e s) (pr_exec es)"

lemma pr_event_step: "pr_event_act e s = Some s' \<Longrightarrow> pr_step s s'"
proof (cases e)
  case (P_RETURN i)
  moreover assume "pr_event_act e s = Some s'"
  ultimately obtain r where "pr_pcs s i = H_RET r"
      "s' = s\<lparr>pr_pcs := (pr_pcs s)(i := H_IDLE), pr_log := pr_log s @ (case r of None \<Rightarrow> [] | Some p \<Rightarrow> [(i, p)])\<rparr>"
    by (auto split: pt_pc.splits)
  then show ?thesis using pr_return by simp
qed (auto intro: pr_step.intros split: option.splits if_splits)

lemma pr_exec_reach: "pr_exec es s = Some s' \<Longrightarrow> pr_reach s \<Longrightarrow> pr_reach s'"
proof (induction es arbitrary: s)
  case (Cons e es)
  then obtain s1 where "pr_event_act e s = Some s1" "pr_exec es s1 = Some s'" by (auto simp: bind_eq_Some_conv)
  then show ?case using Cons.IH [OF _ pr_next [OF Cons.prems(2) pr_event_step]] by blast
qed simp

text \<open>
  Threads 8 and 24, whose first place is the same, ask for their sub-queues at the same time; each loses one
  exchange to the other, at the head of the list and in the table. Thread 8 then asks again.
\<close>

definition pr_events :: "pr_event list" where
  "pr_events = [P_CALL 8, P_CALL 24] @ replicate 11 (P_RUN 8) @ replicate 11 (P_RUN 24) @ replicate 2 (P_RUN 8) @ replicate 4 (P_RUN 24) @
     P_RUN 8 # replicate 4 (P_RUN 24) @ [P_RUN 8, P_RETURN 24, P_RETURN 8, P_CALL 8, P_RUN 8]"

definition pr_demo :: producer_threads where
  "pr_demo = the (pr_exec pr_events \<lparr>pr_table = new_producer_table, pr_pcs = \<lambda>_. H_IDLE, pr_log = []\<rparr>)"

lemma pr_demo_eval:
  "map_option (\<lambda>s. (pr_pcs s 8, pr_log s, map (hash_key (pr_table s) 0) [7, 8], pt_next (pr_table s) 1))
     (pr_exec pr_events \<lparr>pr_table = new_producer_table, pr_pcs = \<lambda>_. H_IDLE, pr_log = []\<rparr>)
   = Some (H_LOOK 0 0 7, [(24, 1), (8, 0)], [8, 24], Some 0)"
  by code_simp

lemma pr_demo_run: "pr_exec pr_events \<lparr>pr_table = new_producer_table, pr_pcs = \<lambda>_. H_IDLE, pr_log = []\<rparr> = Some pr_demo"
  using pr_demo_eval unfolding pr_demo_def by (auto simp del: One_nat_def)

lemmas pr_demo_values = pr_demo_eval [unfolded pr_demo_run, simplified]

lemma pr_demo_reach: "pr_reach pr_demo"
  by (rule pr_exec_reach [OF pr_demo_run pr_init])

section \<open>One sub-queue for each thread\<close>

text \<open>
  C17. In every interleaving of any number of threads, all calls of a thread that get a sub-queue get the same one, and
  no two threads get the same, so that each sub-queue is enqueued to by one thread only; and every one that was
  handed out is on the list of producers, once, so that the dequeuing threads reach it.
\<close>

theorem one_sub_queue_per_thread:
  assumes "pr_reach s"
  shows "\<exists>xs. chained (pt_next (pr_table s)) (pt_tail (pr_table s)) xs \<and> distinct xs
    \<and> (\<forall>(i, p) \<in> set (pr_log s). p \<in> set xs \<and> (\<forall>(j, q) \<in> set (pr_log s). p = q \<longleftrightarrow> i = j))"
proof -
  obtain pd tk xs where inv: "pr_inv s pd tk xs" using pr_reach_inv [OF assms] by blast
  note D = pr_invD [OF inv]
  note LI = list_invD [OF D(5)]
  have "p \<in> set xs" if "(i, p) \<in> set (pr_log s)" for i p
  proof -
    have i: "pd i = Some p" "known (pr_table s) i" using D(6) [OF that] by simp_all
    then have "\<not> linking (pr_pcs s i)" using D(2) [of i] by (cases "pr_pcs s i") (auto simp: known_def absent_from_def)
    then show ?thesis using i(1) LI(4) by blast
  qed
  moreover have "p = q \<longleftrightarrow> i = j" if "(i, p) \<in> set (pr_log s)" "(j, q) \<in> set (pr_log s)" for i p j q
    using D(6) [OF that(1)] D(6) [OF that(2)] LI(6) by auto
  ultimately show ?thesis using LI(1,2) by blast
qed

lemma one_sub_queue_per_thread_witness:
  "\<exists>xs. chained (pt_next (pr_table pr_demo)) (pt_tail (pr_table pr_demo)) xs \<and> {0, 1} \<subseteq> set xs"
  using one_sub_queue_per_thread [OF pr_demo_reach] by (auto simp: pr_demo_values)

section \<open>A thread finds its sub-queue\<close>

fun finding :: "pt_pc \<Rightarrow> bool" where
  "finding (H_LOOK m h k) = True" | "finding (H_VALUE m h k) = True" | "finding (H_PROBE m p k) = True" | "finding (H_CAS m p k) = True"
| "finding (H_SET m p k) = True" | "finding _ = False"

text \<open>How many steps a thread that has a sub-queue takes at most before it returns.\<close>

fun lookup_left :: "producer_table \<Rightarrow> u64 \<Rightarrow> pt_pc \<Rightarrow> nat" where
  "lookup_left t i H_START = 3 * (\<Sum>h < length (pt_hashes t). capacity_of t h) + 5"
| "lookup_left t i (H_LOOK m h k) = (\<Sum>h' < h. capacity_of t h') + (first_index t h i + capacity_of t h - k) + 2 * capacity_of t m + 4"
| "lookup_left t i (H_VALUE m h k) = 2 * capacity_of t m + 3"
| "lookup_left t i (H_PROBE m p k) = 2 * (first_index t m i + capacity_of t m - k) + 2"
| "lookup_left t i (H_CAS m p k) = 2 * (first_index t m i + capacity_of t m - k) + 1"
| "lookup_left t i (H_SET m p k) = 1"
| "lookup_left t i _ = 0"

lemma act_capacity:
  assumes "producer_act ok i t pc = Some (t', pc')" "h < length (pt_hashes t)"
  shows "capacity_of t' h = capacity_of t h"
proof -
  have "h < length xs \<Longrightarrow> ph_capacity (xs[m := (xs ! m)\<lparr>ph_keys := f\<rparr>] ! h) = ph_capacity (xs ! h)"
      "h < length xs \<Longrightarrow> ph_capacity (xs[m := (xs ! m)\<lparr>ph_values := v\<rparr>] ! h) = ph_capacity (xs ! h)" for xs m f v
    by (cases "m = h"; simp)+
  then show ?thesis using assms
    by (cases pc) (auto simp: pr_acts capacity_of_def set_hash_key_def set_hash_value_def set_hash_def nth_append split: if_splits option.splits)
qed

lemma lookup_left_same:
  assumes act: "producer_act ok j t pc = Some (t', pc')" and i: "pr_thread_ok t i po c pci" "finding pci"
  shows "lookup_left t' i pci = lookup_left t i pci"
proof -
  have c: "capacity_of t' h = capacity_of t h" "first_index t' h i = first_index t h i" if "h < length (pt_hashes t)" for h
    using act_capacity [OF act that] by (simp_all add: first_index_def)
  then have "(\<Sum>h' < h. capacity_of t' h') = (\<Sum>h' < h. capacity_of t h')" if "h < length (pt_hashes t)" for h
    using that by (intro sum.cong) auto
  then show ?thesis using i c by (cases pci) (auto simp: probing_def)
qed

lemma lookup_step:
  assumes inv: "pr_inv s pd tk xs" and i: "pd i = Some p" "known (pr_table s) i" and pc: "finding (pr_pcs s i) \<or> pr_pcs s i = H_START"
  shows "\<exists>t pc. producer_act ok i (pr_table s) (pr_pcs s i) = Some (t, pc) \<and> (finding pc \<or> pc = H_RET (Some p))
    \<and> lookup_left t i pc < lookup_left (pr_table s) i (pr_pcs s i)"
proof -
  let ?t = "pr_table s"
  note D = pr_invD [OF inv]
  have ok: "pr_thread_ok ?t i (Some p) (tk i) (pr_pcs s i)" using D(2) [of i] i(1) by simp
  have iv: "i \<noteq> invalid_thread_id" using D(8) i(1) by auto
  consider "pr_pcs s i = H_START" | m h k where "pr_pcs s i = H_LOOK m h k" | m h k where "pr_pcs s i = H_VALUE m h k"
    | m q k where "pr_pcs s i = H_PROBE m q k \<or> pr_pcs s i = H_CAS m q k" | m q k where "pr_pcs s i = H_SET m q k"
    using pc by (cases "pr_pcs s i") auto
  then show ?thesis
  proof cases
    case 1
    obtain n where n: "length (pt_hashes ?t) = Suc n" "main_hash ?t = n" using table_invD(1) [OF D(1)] by (cases "pt_hashes ?t") (auto simp: main_hash_def)
    then show ?thesis using 1 by (simp add: producer_act_def)
  next
    case (2 m h k)
    then have h: "h < length (pt_hashes ?t)" and v: "visited ?t h i k" "first_index ?t h i \<le> k" and a: "absent_from ?t (Suc h) i" using ok by auto
    have k: "k < first_index ?t h i + capacity_of ?t h" by (rule probes_bounded [OF inv h v])
    have "absent_from ?t h i" if "hash_key ?t h k = invalid_thread_id"
      using absent_from_Suc [OF a absent_at [OF D(1) h iv v that]] .
    then have "h \<noteq> 0" if "hash_key ?t h k = invalid_thread_id" using that i(2) by (auto simp: known_def absent_from_def)
    then show ?thesis using 2 k iv by (cases h) (auto simp: producer_act_def)
  next
    case (3 m h k)
    then have h: "h < length (pt_hashes ?t)" "hash_key ?t h k = i" using ok by auto
    then have "hash_value ?t h k = Some p" using table_invD(4) [OF D(1) h iv] 3 i(1) by (auto simp: entry_ok_def)
    then show ?thesis using 3 by (simp add: producer_act_def)
  next
    case (4 m q k)
    then have m: "m < length (pt_hashes ?t)" "visited ?t m i k" "first_index ?t m i \<le> k" using ok by (auto simp: probing_def)
    then have "k < first_index ?t m i + capacity_of ?t m" using probes_bounded [OF inv] by blast
    then show ?thesis using 4 by (auto simp: producer_act_def)
  next
    case (5 m q k)
    then show ?thesis using ok by (simp add: producer_act_def)
  qed
qed

text \<open>
  C18. A thread that has got a sub-queue before finds it again in a bounded number of its own steps, whatever the others do: it
  is always looking, or has found it; each of its steps makes what is left less; a step of another leaves
  that as it is; and at the start it is \<open>3 * n + 5\<close>, with \<open>n\<close> the places of all tables. So no probe runs on for ever, as every table keeps a free
  place, and no such call gets a second sub-queue or fails.
\<close>

theorem sub_queue_found:
  assumes "pr_reach s" "(i, p) \<in> set (pr_log s)"
  shows "(pr_pcs s i = H_IDLE \<or> pr_pcs s i = H_RET (Some p) \<or> (\<exists>t pc. producer_act ok i (pr_table s) (pr_pcs s i) = Some (t, pc)
      \<and> (finding pc \<or> pc = H_RET (Some p)) \<and> lookup_left t i pc < lookup_left (pr_table s) i (pr_pcs s i)))
    \<and> (\<forall>ok' j t pc. finding (pr_pcs s i) \<longrightarrow> producer_act ok' j (pr_table s) (pr_pcs s j) = Some (t, pc) \<longrightarrow>
      lookup_left t i (pr_pcs s i) = lookup_left (pr_table s) i (pr_pcs s i))"
proof -
  obtain pd tk xs where inv: "pr_inv s pd tk xs" using pr_reach_inv [OF assms(1)] by blast
  note D = pr_invD [OF inv]
  have i: "pd i = Some p" "known (pr_table s) i" using D(6) [OF assms(2)] by simp_all
  have "pr_pcs s i = H_IDLE \<or> finding (pr_pcs s i) \<or> pr_pcs s i = H_START \<or> pr_pcs s i = H_RET (Some p)"
    using D(2) [of i] i by (cases "pr_pcs s i") (auto simp: known_def absent_from_def)
  then show ?thesis using lookup_step [OF inv i] lookup_left_same [OF _ D(2) [of i]] by blast
qed

lemma sub_queue_found_witness:
  "\<exists>t pc. producer_act True 8 (pr_table pr_demo) (pr_pcs pr_demo 8) = Some (t, pc)
    \<and> lookup_left t 8 pc < lookup_left (pr_table pr_demo) 8 (pr_pcs pr_demo 8)"
  using sub_queue_found [OF pr_demo_reach, of 8 0 True] pr_demo_values by auto

end
