(* ===== verification/Spec2Isabelle.thy ===== *)
theory Spec2Isabelle
  imports AriaSerial ReserveRace Executor WorkerShutdown Startup Base64 MerkleProof MockManager BlockingQueue ExchangeEdges ControllerShutdown SubQueueZero ProducerRuns
begin

text \<open>
  A block server that executes the transactions of an epoch in parallel with deterministic
  concurrency control (the Aria protocol) and seals what committed into a chain of blocks.

  \<^bold>\<open>How the program works.\<close> Users sign requests (\<open>user.cpp\<close>); the user collector of a server checks
  and batches them, the epoch server stamps each batch with an epoch number, and the
  communication controller exchanges the batches with the other servers and puts all
  transactions of an epoch in one order. The transaction manager takes them from there and sends
  them to the coordinator, which cuts workloads for its workers. A worker runs the chaincode of
  each transaction against the database as it was when the epoch began, recording a read-write
  set, and reserves the cells it read and wrote; when all workers have read, each transaction is
  committed or aborted by the holders of its cells. At the end of the epoch the manager hands
  what committed to the block generator, which writes a signed and linked block, and sends the
  aborted transactions again.

  \<^bold>\<open>Theories, from the bottom up.\<close>
  \<^item> \<open>Prelude\<close>: machine words, the faults of a routine and the result type \<open>'a res\<close> (\<open>Inl\<close> a fault,
    \<open>Inr\<close> a value), \<open>bind_res\<close>, \<open>check\<close>, shared lemmas. \<open>Messages\<close>: the protobuf messages of
    \<open>proto/*.proto\<close> as records, the state enumerations of \<open>message_fomat/\<close>. \<open>Wire\<close>: executable
    sample codecs for the witnesses.
  \<^item> \<open>ConcHashMap\<close> (\<open>hash_map.h\<close>), \<open>Decimal\<close> (the number formats of the standard library),
    \<open>RandomGen\<close> (\<open>random.h\<close>), \<open>Base64\<close> (\<open>base64.cpp\<close>), \<open>Sha256\<close> (\<open>sha224_256.c\<close>, \<open>sha256_hepler.h\<close>),
    \<open>PriorityQueue\<close> (\<open>std::priority_queue\<close> and its comparators), \<open>MtArrList\<close>, \<open>MerkleTree\<close>
    (\<open>merkle_tree/\<close>) with \<open>MerkleSpec\<close> and \<open>MerkleProof\<close>, \<open>CryptoSign\<close> (\<open>crypto_sign.cpp\<close>),
    \<open>CyclicBarrier\<close> (\<open>cyclic_barrier.cpp\<close>, \<open>spin_lock.h\<close>), \<open>LightSemaphore\<close>
    (\<open>light_weight_semaphore.hpp\<close>), \<open>BlockingQueue\<close> (\<open>blocking_concurrent_queue.hpp\<close>), \<open>BlockIndex\<close>
    and \<open>SubQueue\<close> (\<open>ImplicitProducer\<close> in \<open>concurrent_queue.hpp\<close>): the common libraries. The invariant of a
    sub-queue is built up in \<open>SubQueueTickets\<close> (who may take how many elements), \<open>SubQueueClaims\<close> (which),
    \<open>SubQueueIndex\<close> (where a reader finds them while the index changes), \<open>SubQueueStore\<close> (what the blocks hold
    and who may use them); \<open>SubQueueSafe\<close> states it and has the steps of dequeues, \<open>SubQueueEnqueue\<close> and \<open>SubQueueBlocks\<close> those of
    the producer, \<open>SubQueueRuns\<close> the results, \<open>SubQueueZero\<close> the call they exclude. \<open>FreeList\<close> is the
    lock-free list behind the set of free blocks of \<open>SubQueue\<close>, \<open>ProducerTable\<close> the lock-free hash table in
    which a thread finds its sub-queue, with the invariant in \<open>ProducerSafe\<close>, the steps in \<open>ProducerSteps\<close> and the
    results in \<open>ProducerRuns\<close>.
  \<^item> \<open>Transaction\<close> (\<open>mock_transaction.cpp\<close>, \<open>transaction_wrapper.h\<close>): transactions behind addresses
    of a store \<open>tstore\<close>, wrappers as lists of addresses. \<open>TransactionCodec\<close>: their serialisation.
  \<^item> \<open>ReserveTable\<close> (\<open>reserve_table/\<close>), \<open>AriaSerial\<close>, \<open>ReserveRace\<close>; \<open>OrmTable\<close>, \<open>Database\<close>, \<open>Orm\<close>
    (\<open>database/\<close>); \<open>Chaincode\<close>, \<open>Executor\<close> (\<open>worker/impl/\<close>): the execution of transactions.
  \<^item> \<open>Coordinator\<close>, \<open>WorkerProtocol\<close>, \<open>WorkerShutdown\<close> (\<open>AriaCoordinator.cpp\<close>, \<open>AriaWorker.cpp\<close>): the
    buffer, the two phases of an epoch, and the destructor.
  \<^item> \<open>BlockStorage\<close> (\<open>block_storage_to_file.cpp\<close>), \<open>BlockGenerator\<close> (\<open>block_generator_impl.cpp\<close>), with
    \<open>BlockChain\<close> and \<open>BlockAudit\<close>: blocks.
  \<^item> \<open>TransactionManager\<close> (\<open>transaction_manager_impl.cpp\<close>) with \<open>EpochEnd\<close>, \<open>MockManager\<close>
    (\<open>mock_transaction_manager.cpp\<close>): the epochs.
  \<^item> \<open>CommStub\<close> (\<open>comm_stub.cpp\<close>), \<open>CommController\<close> (\<open>comm_controller.cpp\<close>), \<open>ClientProxy\<close>
    (\<open>user.cpp\<close>, \<open>user_collector.cpp\<close>, \<open>epoch_server.cpp\<close>) with \<open>ProxyProtocol\<close>, \<open>ControllerBatch\<close> and
    \<open>BatchHash\<close>: where transactions come from. There each round of a thread is a function;
    \<open>EpochExchange\<close> has the receiver threads of all servers with their barriers as one interleaved
    system, \<open>ExchangeProgress\<close> what it achieves, \<open>ExchangeRefinement\<close> that the rounds are sequences of
    its steps, \<open>ExchangeEdges\<close> a silent server and the hash helper the threads share,
    \<open>ControllerShutdown\<close> the destructors of controller and collector.
  \<^item> \<open>Startup\<close> (\<open>yaml_config.cpp\<close>, \<open>server.cpp\<close>): configuration, keys, the first epochs.

  \<^bold>\<open>How state is modelled.\<close> Each object is a record that its operations return updated. Integers
  keep their width (\<open>u32\<close>, \<open>u64\<close>); a pointer that may be null is an option; pointers to
  transactions are addresses, so that aliasing between wrappers, queues and the block is kept.
  \<open>DCHECK\<close>s are those of a build without \<open>NDEBUG\<close>. A blocking call that would wait is \<open>Inl Blocked\<close> or
  \<open>None\<close>. Threads are step relations (\<open>sys_step\<close>, \<open>race_step\<close>, \<open>barrier_step\<close>, \<open>exit_step\<close>,
  \<open>cluster_step\<close>, \<open>sema_step\<close>, \<open>bq_step\<close>, \<open>sq_step\<close>, \<open>fl_step\<close>, \<open>pr_step\<close>, \<open>shutdown_step\<close>) whose steps are the critical sections or atomic accesses of the source; elsewhere each call, or each
  round of a thread's loop, is one function. OpenSSL, LevelDB, YAML, the protobuf codecs, the
  file system, the input streams of protobuf, clocks, what the platform adds to the exchange of batches
  (\<open>platform\<close>), and the choice of a heap between elements of equal rank are parameters; what a theorem
  needs of them is a named predicate (\<open>openssl_ok\<close>, \<open>leveldb_ok\<close>, \<open>codec_ok\<close>, \<open>io_ok\<close>)
  that the witnesses discharge for concrete functions.

  \<^bold>\<open>Interfaces.\<close> \<open>dict\<close> (what the hash map promises), \<open>comparator\<close> (what a heap needs of its
  order, interpreted for the transactions of a block and of the controller), \<open>comm_module\<close> (a communication module hands out
  finitely many wrappers per epoch; interpreted for stub and controller) and \<open>block_sink\<close> (what
  the manager needs of the block generator) are locales; the properties rest on their instances.

  \<^bold>\<open>What is shown.\<close>
  \<^item> Execution: the reserve table's commit rule is serializable and its verdicts are
    deterministic; \<open>executeList\<close> and \<open>commitList\<close> give each transaction the verdict of table and
    chaincode; workers and coordinator never deadlock and separate the phases; shutdown ends. The
    reservation loop has a lost update, and the database applies one commit per epoch only.
  \<^item> Hashes and blocks: SHA-256 against FIPS 180-2 for any chunks, the Merkle tree against a
    recursive tree hash (the shape of RFC 6962, but leaves are not hashed and nodes have no prefix, so that
    different lists can share a root) with verification up to collisions, update, and the failure above
    \<open>2^18\<close> leaves; block generation extends the chain, and what the hash and the signature check of a block cover.
  \<^item> Epochs: the end of an epoch sorts its transactions into block and retries; it fails when
    nothing commits; collecting an epoch terminates for both communication modules.
  \<^item> Communication: a stamped batch passes all checks and is queued; batches are the sorted front
    of their epoch; the barrier counts, unless a wait ends early. The batch hash covers the last
    transaction, a failing remote check is ignored, a bad request ends the server, and a full
    batch waits. The exchange of batches between the servers: all servers see the same transactions
    of an epoch, no check of an epoch fails, it ends, and it stops only where some server has no
    more batches, if the \<open>platform\<close> is \<open>reliable\<close> (no wait ends without a notification, no published
    message is lost) and no epoch is left out for any server. Each condition is needed: an early
    wake-up aborts a server, a lost message stops all of them, a server without requests for an epoch
    aborts with its next batch. Threads that share a hash helper can give two transactions one id.
  \<^item> Libraries: round trips of base64, keys and transactions; the hash map and the array list as a
    map and a list; the semaphore and the blocking queue count exactly and lose no wake-up. A sub-queue of
    the lock-free queue meets no fault in any interleaving, hands every element out once and in order,
    loses no block, and its dequeues are wait-free; the free list is a set of blocks whose operations take
    effect at one access each; each thread has one sub-queue of its own, which it finds again in a bounded
    number of steps while others enter or the table grows.

  \<^bold>\<open>Bounds.\<close> No fuel is used where a theorem claims a result: loops are structural, \<open>function\<close>s with
  a measure, or \<open>partial_function (option)\<close> with a theorem that the value is \<open>Some\<close>. The one
  bounded loop is \<open>query_fuel\<close> of the chaincode's result iterator, which ends after one row.
  Hypotheses of the form \<open>length d < 2 ^ 32\<close> or \<open>2 ^ 31\<close> are the sizes the C interfaces can take; where the
  code does not look (the position of \<open>base64_encode\<close>, the \<open>int\<close> that \<open>HashMap::size\<close> adds up, the size of an
  \<open>ArrayInputStream\<close>) the conversions are in the definitions, and \<open>base64_encode_endless\<close> shows what happens
  beyond them.

  \<^bold>\<open>Not modelled.\<close> Of the lock-free queue \<open>concurrent_queue.hpp\<close>: what the program does not call (tokens,
  explicit producers, \<open>enqueue_bulk\<close>, moving a queue), the exit of threads (compiled out) and the order in
  which a dequeue tries the sub-queues; the blocking queue takes the whole by its documentation (its clients see a
  list, as \<open>bulk_dequeue_exact\<close> allows). The sub-queue, the free list and the table are modelled under sequential consistency: the memory
  orders and fences are not. Its indices are natural numbers, which \<open>circular_less_than_nat\<close> justifies as
  long as they are less than \<open>2 ^ 63\<close> apart. Further the ZeroMQ wrappers, the
  creation and joining of threads in constructors and \<open>main\<close>, logging, the tests,
  \<open>hash_map_storage.h\<close> (declared, defined nowhere), and the static objects behind \<open>getInstance\<close> of
  database and block storage.
\<close>

end
